(* ===== verification/Prelude.thy ===== *)
theory Prelude
  imports Main "HOL-Library.Word" "HOL-Library.Monad_Syntax"
begin

text \<open>
  Shared vocabulary of the SCAL/UX kernel model: names for the machine integers of the C
  code, the rounding macros of \<^verbatim>\<open>vm/vm.h\<close>, the linked-list macros of \<^verbatim>\<open>sys/queue.h\<close> as
  operations on lists, the GCC builtin \<^verbatim>\<open>__builtin_clzl\<close>, and the lemmas on lists and words
  that every component uses.

  A kernel function that may reach \<^verbatim>\<open>fatal()\<close> or a failing \<^verbatim>\<open>assert()\<close> (both stop the
  machine in an endless loop, \<^verbatim>\<open>libkern/klib.h\<close>) returns an \<open>option\<close>; \<open>None\<close> is the
  stopped machine, and the \<open>do\<close> notation of the option monad is sequencing.
\<close>

unbundle bit_operations_syntax

type_synonym u8 = "8 word"
type_synonym u16 = "16 word"
type_synonym u32 = "32 word"
type_synonym u64 = "64 word"

text \<open>The number of 64-bit values, \<open>2 ^ 64\<close>.\<close>

abbreviation W64 :: nat where
  "W64 \<equiv> 18446744073709551616"

named_theorems queue_simps \<open>equations of the queue macros on a list split at an element\<close>
named_theorems word_nat \<open>word arithmetic that does not wrap, read as natural numbers\<close>

subsection \<open>Stopping the machine\<close>

definition kassert :: "bool \<Rightarrow> unit option" where
  "kassert b = (if b then Some () else None)"

lemma kassert_Some [simp]: "kassert b = Some u \<longleftrightarrow> b"
  by (simp add: kassert_def)

lemma kassert_True [simp]: "kassert True = Some ()"
  by (simp add: kassert_def)

lemma kassert_False [simp]: "kassert False = None"
  by (simp add: kassert_def)

text \<open>A C loop that calls a function for every element and stops with the machine.\<close>

fun iterM :: "('a \<Rightarrow> 's \<Rightarrow> 's option) \<Rightarrow> 'a list \<Rightarrow> 's \<Rightarrow> 's option" where
  "iterM f [] s = Some s"
| "iterM f (x # xs) s = do { s' \<leftarrow> f x s; iterM f xs s' }"

lemma iterM_append: "iterM f (xs @ ys) s = do { s' \<leftarrow> iterM f xs s; iterM f ys s' }"
  by (induction xs arbitrary: s) (auto split: Option.bind_splits)

lemma iterM_invariant:
  assumes "iterM f xs s = Some s'" and "I s" and "\<And>x s s'. x \<in> set xs \<Longrightarrow> I s \<Longrightarrow> f x s = Some s' \<Longrightarrow> I s'"
  shows "I s'"
  using assms
proof (induction xs arbitrary: s)
  case (Cons x xs)
  then obtain s1 where "f x s = Some s1" "iterM f xs s1 = Some s'" by (auto split: Option.bind_splits)
  with Cons show ?case by (metis list.set_intros)
qed simp

subsection \<open>Rounding\<close>

definition PGSIZE :: u64 where
  "PGSIZE = 4096"

definition ROUNDUP :: "u64 \<Rightarrow> u64 \<Rightarrow> u64" where
  "ROUNDUP addr align = (addr + align - 1) AND NOT (align - 1)"

definition ROUNDDOWN :: "u64 \<Rightarrow> u64 \<Rightarrow> u64" where
  "ROUNDDOWN addr align = addr AND NOT (align - 1)"

definition PGROUNDUP :: "u64 \<Rightarrow> u64" where
  "PGROUNDUP addr = ROUNDUP addr PGSIZE"

definition PGROUNDDOWN :: "u64 \<Rightarrow> u64" where
  "PGROUNDDOWN addr = ROUNDDOWN addr PGSIZE"

subsection \<open>The list macros of sys/queue.h\<close>

text \<open>
  A queue is the list of its elements from head to tail. \<open>insert_after\<close> and \<open>insert_before\<close>
  place a new element next to a linked one; the macros are undefined when that element is not
  on the list, and the model then leaves the list as it is. \<open>remove1\<close> unlinks an element.
\<close>

fun insert_after :: "'a \<Rightarrow> 'a \<Rightarrow> 'a list \<Rightarrow> 'a list" where
  "insert_after y x [] = []"
| "insert_after y x (z # zs) = (if z = y then z # x # zs else z # insert_after y x zs)"

fun insert_before :: "'a \<Rightarrow> 'a \<Rightarrow> 'a list \<Rightarrow> 'a list" where
  "insert_before y x [] = []"
| "insert_before y x (z # zs) = (if z = y then x # z # zs else z # insert_before y x zs)"

fun next_of :: "'a \<Rightarrow> 'a list \<Rightarrow> 'a option" where
  "next_of y [] = None"
| "next_of y [z] = None"
| "next_of y (z # z' # zs) = (if z = y then Some z' else next_of y (z' # zs))"

fun prev_of :: "'a \<Rightarrow> 'a list \<Rightarrow> 'a option" where
  "prev_of y [] = None"
| "prev_of y [z] = None"
| "prev_of y (z # z' # zs) = (if z' = y then Some z else prev_of y (z' # zs))"

definition first_of :: "'a list \<Rightarrow> 'a option" where
  "first_of xs = (case xs of [] \<Rightarrow> None | x # _ \<Rightarrow> Some x)"

lemma first_of_simps [simp]: "first_of [] = None" "first_of (x # xs) = Some x"
  by (simp_all add: first_of_def)

lemma insert_after_split [queue_simps]:
  "y \<notin> set as \<Longrightarrow> insert_after y x (as @ y # bs) = as @ y # x # bs"
  by (induction as) auto

lemma insert_before_split [queue_simps]:
  "y \<notin> set as \<Longrightarrow> insert_before y x (as @ y # bs) = as @ x # y # bs"
  by (induction as) auto

lemma remove1_split [queue_simps]: "y \<notin> set as \<Longrightarrow> remove1 y (as @ y # bs) = as @ bs"
  by (simp add: remove1_append)

lemma next_of_split [queue_simps]:
  "y \<notin> set as \<Longrightarrow> next_of y (as @ y # bs) = first_of bs"
proof (induction as)
  case Nil
  then show ?case by (cases bs) auto
next
  case (Cons a as)
  then show ?case by (cases as) auto
qed

lemma prev_of_notin: "y \<notin> set xs \<Longrightarrow> prev_of y xs = None"
  by (induction y xs rule: prev_of.induct) auto

lemma prev_of_head [simp]: "y \<notin> set bs \<Longrightarrow> prev_of y (y # bs) = None"
  by (cases bs) (auto simp: prev_of_notin)

lemma prev_of_split [queue_simps]:
  "y \<notin> set as \<Longrightarrow> y \<noteq> a \<Longrightarrow> prev_of y (as @ a # y # bs) = Some a"
proof (induction as)
  case (Cons c as)
  then show ?case by (cases as) auto
qed simp

lemma set_insert_after: "set (insert_after y x xs) = (if y \<in> set xs then insert x (set xs) else set xs)"
  by (induction xs) auto

lemma insert_after_notin: "y \<notin> set xs \<Longrightarrow> insert_after y x xs = xs"
  by (induction xs) auto

lemma distinct_split_notin:
  "distinct (as @ y # bs) \<Longrightarrow> y \<notin> set as \<and> y \<notin> set bs"
  by auto

lemma filter_remove1_same: "\<not> P x \<Longrightarrow> filter P (remove1 x xs) = filter P xs"
  by (induction xs) auto

lemma filter_remove1_comm: "distinct xs \<Longrightarrow> filter P (remove1 x xs) = remove1 x (filter P xs)"
  by (induction xs) (auto simp: remove1_idem)

subsection \<open>Elements indexed by a key\<close>

text \<open>
  An array of lists that files every element of a set under the bucket its key names: the free
  lists of an arena by size class and its hash table by address are of this kind.
\<close>

definition indexed :: "'a list list \<Rightarrow> ('a \<Rightarrow> nat) \<Rightarrow> 'a set \<Rightarrow> bool" where
  "indexed ls key S \<longleftrightarrow>
     (\<forall>k < length ls. distinct (ls ! k) \<and> set (ls ! k) = {x \<in> S. key x = k})"

lemma indexed_insert:
  assumes "indexed ls key S" and "x \<notin> S"
  shows "indexed (ls[key x := x # ls ! key x]) key (insert x S)"
  unfolding indexed_def
proof (intro allI impI)
  fix k
  assume "k < length (ls[key x := x # ls ! key x])"
  then show "distinct (ls[key x := x # ls ! key x] ! k) \<and>
      set (ls[key x := x # ls ! key x] ! k) = {y \<in> insert x S. key y = k}"
    using assms by (cases "key x = k") (auto simp: indexed_def)
qed

lemma indexed_remove:
  assumes "indexed ls key S"
  shows "indexed (map (remove1 x) ls) key (S - {x})"
  using assms by (auto simp: indexed_def set_remove1_eq)

lemma indexed_cong:
  assumes "\<And>x. x \<in> S \<Longrightarrow> key x = key' x"
  shows "indexed ls key S \<longleftrightarrow> indexed ls key' S"
proof -
  have "{x \<in> S. key x = k} = {x \<in> S. key' x = k}" for k
    using assms by auto
  then show ?thesis by (simp add: indexed_def)
qed

lemma indexed_member:
  "indexed ls key S \<Longrightarrow> x \<in> S \<Longrightarrow> key x < length ls \<Longrightarrow> x \<in> set (ls ! key x)"
  by (auto simp: indexed_def)

lemma indexed_sound:
  "indexed ls key S \<Longrightarrow> l \<in> set ls \<Longrightarrow> x \<in> set l \<Longrightarrow> x \<in> S"
  unfolding indexed_def in_set_conv_nth [of l ls] by blast

lemma indexed_empty [simp]: "indexed (replicate n []) key {}"
  by (simp add: indexed_def)

subsection \<open>Words that do not wrap\<close>

lemma unat_add_nowrap [word_nat]:
  "unat (x :: 'a::len word) + unat y < 2 ^ LENGTH('a) \<Longrightarrow> unat (x + y) = unat x + unat y"
  using unat_add_lem by blast

lemma unat_sub_nowrap [word_nat]:
  "unat (y :: 'a::len word) \<le> unat x \<Longrightarrow> unat (x - y) = unat x - unat y"
  by (simp add: unat_sub word_le_nat_alt)

lemma unat_bound64 [simp]: "unat (x :: u64) < W64"
proof -
  have "unat x < 2 ^ LENGTH(64)" by (rule unsigned_less)
  then show ?thesis by simp
qed

lemma unat_of_nat64 [simp]: "i < W64 \<Longrightarrow> unat (of_nat i :: u64) = i"
  by (simp add: unat_of_nat take_bit_nat_eq_self)

lemma and_not_mask_unat:
  "unat ((a :: u64) AND NOT (mask k)) = unat a - unat a mod 2 ^ k"
proof -
  have "a AND NOT (mask k) = a AND NOT (take_bit k a)"
    by (rule bit_word_eqI) (auto simp: bit_simps)
  also have "\<dots> = a - take_bit k a"
    by (rule disjunctive_diff [symmetric]) (simp add: bit_simps)
  finally have eq: "a AND NOT (mask k) = a - take_bit k a" .
  have "unat (take_bit k a) = unat a mod 2 ^ k"
    unfolding unsigned_take_bit_eq by (rule take_bit_eq_mod)
  then show ?thesis
    by (simp add: eq unat_sub_nowrap)
qed

lemma ROUNDDOWN_unat:
  "unat (ROUNDDOWN a (2 ^ k)) = unat a - unat a mod 2 ^ k"
  by (simp add: ROUNDDOWN_def and_not_mask_unat flip: mask_eq_exp_minus_1)

lemma ROUNDUP_unat:
  assumes "unat a + (2 ^ k - 1) < 2 ^ 64" and "k < 64"
  shows "unat (ROUNDUP a (2 ^ k)) = (unat a + (2 ^ k - 1)) div 2 ^ k * 2 ^ k"
proof -
  have m: "unat (mask k :: u64) = 2 ^ k - 1"
  proof -
    have "unat (mask k :: u64) = unat (take_bit k (- 1 :: u64))"
      by (simp add: take_bit_minus_one_eq_mask)
    also have "\<dots> = take_bit k (mask 64)"
      unfolding unsigned_take_bit_eq by (simp add: unsigned_minus_1_eq_mask mask_numeral)
    also have "\<dots> = mask k"
      using assms(2) by (simp only: take_bit_of_mask min_absorb1 less_imp_le)
    finally show ?thesis
      by (simp only: mask_eq_exp_minus_1)
  qed
  have "ROUNDUP a (2 ^ k) = (a + mask k) AND NOT (mask k)"
    by (simp add: ROUNDUP_def mask_eq_exp_minus_1 algebra_simps)
  moreover have "unat (a + mask k) = unat a + (2 ^ k - 1)"
    using assms(1) m by (simp add: unat_add_nowrap)
  ultimately show ?thesis
    by (simp add: and_not_mask_unat minus_mod_eq_div_mult)
qed

lemma PGROUNDDOWN_unat: "unat (PGROUNDDOWN a) = unat a - unat a mod 4096"
  using ROUNDDOWN_unat [of a 12] by (simp add: PGROUNDDOWN_def PGSIZE_def)

lemma PGROUNDUP_unat:
  "unat a + 4095 < 2 ^ 64 \<Longrightarrow> unat (PGROUNDUP a) = (unat a + 4095) div 4096 * 4096"
  using ROUNDUP_unat [of a 12] by (simp add: PGROUNDUP_def PGSIZE_def)

text \<open>A \<^verbatim>\<open>size_t\<close> converted to \<^verbatim>\<open>int\<close>.\<close>

definition to_int :: "u64 \<Rightarrow> int" where
  "to_int x = sint (ucast x :: u32)"

lemma to_int_small:
  assumes "unat x < 2 ^ 31"
  shows "to_int x = int (unat x)"
proof -
  have b: "0 \<le> uint x" "uint x < 2 ^ 31"
    using assms of_nat_less_iff [of "unat x" "2 ^ 31", where 'a = int] by simp_all
  have "uint (ucast x :: 32 word) = take_bit 32 (uint x)" by (simp add: unsigned_ucast_eq)
  also have "\<dots> = uint x" using b by (intro take_bit_int_eq_self) simp_all
  finally have u: "uint (ucast x :: 32 word) = uint x" .
  have "sint (ucast x :: 32 word) = signed_take_bit 31 (uint x)" unfolding sint_uint u by simp
  also have "\<dots> = uint x" by (rule signed_take_bit_int_eq_self) (use b in linarith)+
  finally show ?thesis by (simp add: to_int_def)
qed

lemma unat_and_15: "unat ((x :: u64) AND 15) = unat x mod 16"
proof -
  have "x AND 15 = take_bit 4 x" by (simp add: take_bit_eq_mask mask_eq_exp_minus_1)
  then show ?thesis by (simp only: unsigned_take_bit_eq) (simp add: take_bit_eq_mod)
qed

end
