(* ===== verification/Vmem.thy ===== *)
theory Vmem
  imports Prelude
begin

text \<open>
  The VMem resource allocator, \<^verbatim>\<open>kern/vmem.c\<close> with \<^verbatim>\<open>kern/vmem_impl.h\<close> and \<^verbatim>\<open>kern/vmem.h\<close>.

  Segment structures live in a store indexed by references; a reference is an element of the
  static array \<^verbatim>\<open>static_segs\<close> or a chunk of a \<^verbatim>\<open>seg_block\<close> page. The pool is the store with
  the global list \<^verbatim>\<open>free_segs\<close> and its counter. An arena (\<open>vmem\<close>) holds references in its
  segment queue, its 64 power-of-two free lists, its 16 hash buckets and its span list, in the
  order the list macros give them. Addresses and sizes are 64-bit words, and every sum the C
  code forms wraps in the model as it does there.

  A function pointer of the arena is the name of the function it points to; what calling it
  does (and what \<^verbatim>\<open>vm_kalloc\<close> does for \<open>seg_refill\<close>) is given by a \<open>vmem_env\<close>, over a state
  that pairs the arena and the pool with the rest of the world.
\<close>

subsection \<open>Data\<close>

datatype seg_type = kVMemSegFree | kVMemSegAllocated | kVMemSegSpan | kVMemSegSpanImported

datatype seg_ref = StaticSeg nat | ChunkSeg u64 nat

record vmem_seg =
  s_type :: seg_type
  s_is_static :: bool
  s_base :: u64
  s_size :: u64

datatype vmem_fn = Fn_internal_allocwired | Fn_internal_freewired

datatype vmem_ref = Ref_kmap_vmem | Ref_vm_kernel_wired

record vmem =
  v_name :: string
  v_base :: u64
  v_size :: u64
  v_quantum :: u64
  v_flags :: u32
  v_allocfn :: "vmem_fn option"
  v_freefn :: "vmem_fn option"
  v_source :: "vmem_ref option"
  segqueue :: "seg_ref list"
  freelists :: "seg_ref list list"
  hashtab :: "seg_ref list list"
  spanlist :: "seg_ref list"

record seg_pool =
  pool_segs :: "seg_ref \<Rightarrow> vmem_seg"
  free_segs :: "seg_ref list"
  nfreesegs :: int

record 'x vst =
  arena :: vmem
  pool :: seg_pool
  ext :: 'x

record 'x vmem_env =
  env_kalloc :: "nat \<Rightarrow> u32 \<Rightarrow> 'x vst \<Rightarrow> (u64 \<times> 'x vst) option"
  env_alloc :: "vmem_fn \<Rightarrow> u64 \<Rightarrow> u32 \<Rightarrow> 'x vst \<Rightarrow> ((int \<times> u64) \<times> 'x vst) option"
  env_free :: "vmem_fn \<Rightarrow> u64 \<Rightarrow> u64 \<Rightarrow> 'x vst \<Rightarrow> 'x vst option"

definition kVMemSleep :: u32 where "kVMemSleep = 0x0"
definition kVMemNoSleep :: u32 where "kVMemNoSleep = 0x1"
definition kVMemExact :: u32 where "kVMemExact = 0x2"
definition kVMemBootstrap :: u32 where "kVMemBootstrap = 0x4"

lemmas vmem_flag_defs = kVMemSleep_def kVMemNoSleep_def kVMemExact_def kVMemBootstrap_def

definition kNFreeLists :: nat where "kNFreeLists = 64"
definition kNHashBuckets :: nat where "kNHashBuckets = 16"

definition ERESOURCEEXHAUSTED :: int where "ERESOURCEEXHAUSTED = 1200"

subsection \<open>Free lists\<close>

text \<open>\<^verbatim>\<open>__builtin_clzl\<close>: the number of zero bits above the highest set bit.\<close>

fun clz_below :: "nat \<Rightarrow> u64 \<Rightarrow> nat" where
  "clz_below 0 w = 0"
| "clz_below (Suc n) w = (if bit w n then 0 else Suc (clz_below n w))"

definition builtin_clzl :: "u64 \<Rightarrow> nat" where
  "builtin_clzl w = clz_below 64 w"

definition freelist :: "u64 \<Rightarrow> nat" where
  "freelist sz = 64 - builtin_clzl sz - 1"

abbreviation seg_of :: "seg_pool \<Rightarrow> seg_ref \<Rightarrow> vmem_seg" where
  "seg_of p i \<equiv> pool_segs p i"

definition seg_set :: "seg_ref \<Rightarrow> seg_type \<Rightarrow> u64 \<Rightarrow> u64 \<Rightarrow> seg_pool \<Rightarrow> seg_pool" where
  "seg_set i ty b n p = p\<lparr>pool_segs := (pool_segs p)(i :=
     (pool_segs p i)\<lparr>s_type := ty, s_base := b, s_size := n\<rparr>)\<rparr>"

definition freelist_for_size :: "vmem \<Rightarrow> u64 \<Rightarrow> seg_ref list" where
  "freelist_for_size v sz = freelists v ! freelist sz"

definition freelist_insert :: "seg_pool \<Rightarrow> seg_ref \<Rightarrow> vmem \<Rightarrow> vmem" where
  "freelist_insert p freeseg v = (let sz = s_size (seg_of p freeseg) in
     v\<lparr>freelists := (freelists v)[freelist sz := freeseg # freelist_for_size v sz]\<rparr>)"

text \<open>
  \<^verbatim>\<open>LIST_REMOVE(seg, seglist)\<close> unlinks a segment from the one list its \<^verbatim>\<open>seglist\<close> links tie it
  to: a free list, a hash bucket or the span list.
\<close>

definition seglist_remove :: "seg_ref \<Rightarrow> vmem \<Rightarrow> vmem" where
  "seglist_remove i v = v\<lparr>
     freelists := map (remove1 i) (freelists v),
     hashtab := map (remove1 i) (hashtab v),
     spanlist := remove1 i (spanlist v)\<rparr>"

subsection \<open>The segment pool\<close>

definition seg_alloc :: "seg_pool \<Rightarrow> (seg_ref \<times> seg_pool) option" where
  "seg_alloc p = (case free_segs p of
     [] \<Rightarrow> None
   | seg # rest \<Rightarrow> Some (seg, p\<lparr>free_segs := rest, nfreesegs := nfreesegs p - 1\<rparr>))"

definition seg_free :: "seg_ref \<Rightarrow> seg_pool \<Rightarrow> seg_pool" where
  "seg_free seg p = p\<lparr>free_segs := seg # free_segs p, nfreesegs := nfreesegs p + 1\<rparr>"

definition zeroed_seg :: vmem_seg where
  "zeroed_seg = \<lparr>s_type = kVMemSegFree, s_is_static = False, s_base = 0, s_size = 0\<rparr>"

definition free_chunk :: "u64 \<Rightarrow> nat \<Rightarrow> seg_pool \<Rightarrow> seg_pool" where
  "free_chunk block i p =
     seg_free (ChunkSeg block i) (p\<lparr>pool_segs := (pool_segs p)(ChunkSeg block i := zeroed_seg)\<rparr>)"

definition seg_refill :: "'x vmem_env \<Rightarrow> u32 \<Rightarrow> 'x vst \<Rightarrow> 'x vst option" where
  "seg_refill e flags st =
     (if nfreesegs (pool st) \<ge> 128 then Some st
      else do {
        (block, st1) \<leftarrow> env_kalloc e 1 (if flags AND kVMemSleep \<noteq> 0 then 0x3 else 0x2) st;
        kassert (block \<noteq> 0);
        Some (st1\<lparr>pool := fold (free_chunk block) [0..<63] (pool st1)\<rparr>)
      })"

definition vmem_earlyinit :: "seg_pool \<Rightarrow> seg_pool" where
  "vmem_earlyinit p = fold (\<lambda>i. seg_free (StaticSeg i)) [0..<128] p"

subsection \<open>The hash table of allocated segments\<close>

definition murmur64 :: "u64 \<Rightarrow> u64" where
  "murmur64 h0 = (
     let h1 = h0 XOR drop_bit 33 h0;
         h2 = h1 * 0xff51afd7ed558ccd;
         h3 = h2 XOR drop_bit 33 h2;
         h4 = h3 * 0xc4ceb9fe1a85ec53
     in h4 XOR drop_bit 33 h4)"

definition hashbucket_for_addr :: "u64 \<Rightarrow> nat" where
  "hashbucket_for_addr addr = unat (murmur64 addr mod 16)"

definition hashtab_insert :: "seg_pool \<Rightarrow> seg_ref \<Rightarrow> vmem \<Rightarrow> vmem" where
  "hashtab_insert p seg v = (let b = hashbucket_for_addr (s_base (seg_of p seg)) in
     v\<lparr>hashtab := (hashtab v)[b := seg # hashtab v ! b]\<rparr>)"

subsection \<open>Adding spans\<close>

fun last_span_before :: "seg_pool \<Rightarrow> u64 \<Rightarrow> seg_ref option \<Rightarrow> seg_ref list \<Rightarrow> seg_ref option" where
  "last_span_before p base afterspan [] = afterspan"
| "last_span_before p base afterspan (iter # rest) =
     (if s_base (seg_of p iter) \<ge> base then afterspan
      else last_span_before p base (Some iter) rest)"

definition link_span :: "seg_ref option \<Rightarrow> seg_ref \<Rightarrow> vmem \<Rightarrow> vmem" where
  "link_span after newspan v = (case after of
     Some afterspan \<Rightarrow>
       (let nextspan = next_of afterspan (spanlist v);
            v1 = v\<lparr>spanlist := insert_after afterspan newspan (spanlist v)\<rparr>
        in case nextspan of
             Some ns \<Rightarrow> v1\<lparr>segqueue := insert_before ns newspan (segqueue v1)\<rparr>
           | None \<Rightarrow> v1\<lparr>segqueue := segqueue v1 @ [newspan]\<rparr>)
   | None \<Rightarrow> v\<lparr>spanlist := newspan # spanlist v, segqueue := newspan # segqueue v\<rparr>)"

definition vmem_add_internal ::
  "seg_type \<Rightarrow> u64 \<Rightarrow> u64 \<Rightarrow> 'x vst \<Rightarrow> (int \<times> seg_ref \<times> 'x vst) option" where
  "vmem_add_internal spantype base sz st = do {
     let afterspan = last_span_before (pool st) base None (spanlist (arena st));
     (newspan, p1) \<leftarrow> seg_alloc (pool st);
     let p2 = seg_set newspan spantype base sz p1;
     (newfree, p3) \<leftarrow> seg_alloc p2;
     let p4 = seg_set newfree kVMemSegFree base sz p3;
     let v1 = link_span afterspan newspan (arena st);
     let v2 = v1\<lparr>segqueue := insert_after newspan newfree (segqueue v1)\<rparr>;
     let v3 = freelist_insert p4 newfree v2;
     Some (0, newfree, st\<lparr>arena := v3, pool := p4\<rparr>)
   }"

definition vmem_init ::
  "string \<Rightarrow> u64 \<Rightarrow> u64 \<Rightarrow> u64 \<Rightarrow> vmem_fn option \<Rightarrow> vmem_fn option \<Rightarrow> vmem_ref option \<Rightarrow> u32 \<Rightarrow>
   'x vst \<Rightarrow> 'x vst option" where
  "vmem_init name base sz quantum allocfn freefn source flags st = do {
     let v = \<lparr>v_name = name, v_base = base, v_size = sz, v_quantum = quantum, v_flags = flags,
              v_allocfn = allocfn, v_freefn = freefn, v_source = source,
              segqueue = [], freelists = replicate kNFreeLists [],
              hashtab = replicate kNHashBuckets [], spanlist = []\<rparr>;
     let st1 = st\<lparr>arena := v\<rparr>;
     if sz \<noteq> 0 \<and> source = None
     then do { (r, f, st2) \<leftarrow> vmem_add_internal kVMemSegSpan base sz st1; Some st2 }
     else Some st1
   }"

definition vmem_add :: "u64 \<Rightarrow> u64 \<Rightarrow> 'x vst \<Rightarrow> (int \<times> 'x vst) option" where
  "vmem_add base sz st = do {
     (r, f, st1) \<leftarrow> vmem_add_internal kVMemSegSpan base sz st;
     Some (r, st1)
   }"

subsection \<open>Allocation\<close>

definition split_left :: "seg_ref \<Rightarrow> seg_ref \<Rightarrow> u64 \<Rightarrow> vmem \<times> seg_pool \<Rightarrow> vmem \<times> seg_pool" where
  "split_left seg left addr = (\<lambda>(v, p). let b = s_base (seg_of p seg) in
     if addr > b then
       let p1 = seg_set left kVMemSegFree b (addr - b) p;
           v1 = v\<lparr>segqueue := insert_before seg left (segqueue v)\<rparr>
       in (freelist_insert p1 left v1, p1)
     else (v, seg_free left p))"

definition split_right :: "seg_ref \<Rightarrow> seg_ref \<Rightarrow> u64 \<Rightarrow> u64 \<Rightarrow> vmem \<times> seg_pool \<Rightarrow> vmem \<times> seg_pool" where
  "split_right seg right addr sz = (\<lambda>(v, p). let b = s_base (seg_of p seg); ssz = s_size (seg_of p seg) in
     if addr + sz < b + ssz then
       let p1 = seg_set right kVMemSegFree (addr + sz) ((b + ssz) - (addr + sz)) p;
           v1 = v\<lparr>segqueue := insert_after seg right (segqueue v)\<rparr>
       in (freelist_insert p1 right v1, p1)
     else (v, seg_free right p))"

definition split_seg ::
  "seg_ref \<Rightarrow> seg_ref \<Rightarrow> seg_ref \<Rightarrow> u64 \<Rightarrow> u64 \<Rightarrow> vmem \<times> seg_pool \<Rightarrow> (vmem \<times> seg_pool) option" where
  "split_seg seg left right addr sz = (\<lambda>(v, p). do {
     kassert (s_type (seg_of p seg) = kVMemSegFree);
     let v0 = seglist_remove seg v;
     let (v1, p1) = split_left seg left addr (v0, p);
     let (v2, p2) = split_right seg right addr sz (v1, p1);
     let p3 = seg_set seg kVMemSegAllocated addr sz p2;
     Some (hashtab_insert p3 seg v2, p3)
   })"

definition prev_seg :: "vmem \<Rightarrow> seg_ref \<Rightarrow> seg_ref option" where
  "prev_seg v seg = prev_of seg (segqueue v)"

definition next_seg :: "vmem \<Rightarrow> seg_ref \<Rightarrow> seg_ref option" where
  "next_seg v seg = next_of seg (segqueue v)"

definition try_import ::
  "'x vmem_env \<Rightarrow> u64 \<Rightarrow> u32 \<Rightarrow> 'x vst \<Rightarrow> (int \<times> seg_ref option \<times> 'x vst) option" where
  "try_import e sz flags st = (case v_allocfn (arena st) of
     None \<Rightarrow> Some (- ERESOURCEEXHAUSTED, None, st)
   | Some fn \<Rightarrow> do {
       ((r, addr), st1) \<leftarrow> env_alloc e fn sz flags st;
       if r < 0 then Some (r, None, st1)
       else do {
         (r2, out, st2) \<leftarrow> vmem_add_internal kVMemSegSpanImported addr sz st1;
         if r2 < 0 then do {
           fn' \<leftarrow> v_freefn (arena st2);
           st3 \<leftarrow> env_free e fn' addr sz st2;
           Some (r2, Some out, st3)
         } else Some (r2, Some out, st2)
       }
     })"

text \<open>The inner loop over one free list, then the loop over the free lists from an index on.\<close>

fun fit_in_list :: "seg_pool \<Rightarrow> u64 \<Rightarrow> u64 \<Rightarrow> u32 \<Rightarrow> seg_ref list \<Rightarrow> (seg_ref \<times> u64) option" where
  "fit_in_list p sz vmin flags [] = None"
| "fit_in_list p sz vmin flags (f # rest) =
     (let b = s_base (seg_of p f); addr = (if b \<le> vmin then vmin else b) in
      if \<not> b \<le> vmin \<and> flags AND kVMemExact \<noteq> 0 \<and> b > vmin then fit_in_list p sz vmin flags rest
      else if addr + sz > b + s_size (seg_of p f) then fit_in_list p sz vmin flags rest
      else Some (f, addr))"

fun fit_in_lists :: "seg_pool \<Rightarrow> u64 \<Rightarrow> u64 \<Rightarrow> u32 \<Rightarrow> seg_ref list list \<Rightarrow> (seg_ref \<times> u64) option" where
  "fit_in_lists p sz vmin flags [] = None"
| "fit_in_lists p sz vmin flags (l # ls) =
     (case fit_in_list p sz vmin flags l of
        Some r \<Rightarrow> Some r
      | None \<Rightarrow> fit_in_lists p sz vmin flags ls)"

definition xalloc_search ::
  "'x vmem_env \<Rightarrow> u64 \<Rightarrow> u64 \<Rightarrow> u32 \<Rightarrow> 'x vst \<Rightarrow> ((int + seg_ref \<times> u64) \<times> 'x vst) option" where
  "xalloc_search e sz vmin flags st =
     (case fit_in_lists (pool st) sz vmin flags (drop (freelist sz) (freelists (arena st))) of
        Some (f, addr) \<Rightarrow> Some (Inr (f, addr), st)
      | None \<Rightarrow> do {
          (r, out, st1) \<leftarrow> try_import e sz flags st;
          if r < 0 then Some (Inl r, st1)
          else do { f \<leftarrow> out; Some (Inr (f, s_base (seg_of (pool st1) f)), st1) }
        })"

definition xalloc_body ::
  "'x vmem_env \<Rightarrow> u64 \<Rightarrow> u64 \<Rightarrow> u32 \<Rightarrow> 'x vst \<Rightarrow> ((int \<times> u64 option) \<times> 'x vst) option" where
  "xalloc_body e sz vmin flags st = do {
     (newlseg, p1) \<leftarrow> seg_alloc (pool st);
     (newrseg, p2) \<leftarrow> seg_alloc p1;
     (res, st1) \<leftarrow> xalloc_search e sz vmin flags (st\<lparr>pool := p2\<rparr>);
     case res of
       Inl r \<Rightarrow> Some ((r, None), st1)
     | Inr (freeseg, addr) \<Rightarrow> do {
         (v, p) \<leftarrow> split_seg freeseg newlseg newrseg addr sz (arena st1, pool st1);
         Some ((0, Some addr), st1\<lparr>arena := v, pool := p\<rparr>)
       }
   }"

definition vmem_xalloc ::
  "'x vmem_env \<Rightarrow> u64 \<Rightarrow> u64 \<Rightarrow> u64 \<Rightarrow> u64 \<Rightarrow> u64 \<Rightarrow> u64 \<Rightarrow> u32 \<Rightarrow> 'x vst \<Rightarrow>
   ((int \<times> u64 option) \<times> 'x vst) option" where
  "vmem_xalloc e sz align phase nocross vmin vmax flags st = do {
     kassert (align = 0);
     kassert (phase = 0);
     kassert (vmin = 0 \<or> flags AND kVMemExact \<noteq> 0);
     kassert (vmax = 0);
     st0 \<leftarrow> (if flags AND kVMemBootstrap = 0 then seg_refill e flags st else Some st);
     kassert (sz \<noteq> 0);
     xalloc_body e sz vmin flags st0
   }"

subsection \<open>Freeing\<close>

definition freeseg_expand :: "seg_ref \<Rightarrow> u64 \<Rightarrow> u64 \<Rightarrow> vmem \<times> seg_pool \<Rightarrow> vmem \<times> seg_pool" where
  "freeseg_expand seg newbase newsize = (\<lambda>(v, p).
     let oldfreelist = freelist (s_size (seg_of p seg));
         p1 = seg_set seg (s_type (seg_of p seg)) newbase newsize p;
         new = freelist newsize
     in if new \<noteq> oldfreelist then (freelist_insert p1 seg (seglist_remove seg v), p1)
        else (v, p1))"

definition segqueue_remove :: "seg_ref \<Rightarrow> vmem \<Rightarrow> vmem" where
  "segqueue_remove seg v = v\<lparr>segqueue := remove1 seg (segqueue v)\<rparr>"

text \<open>
  The two coalescing steps of \<^verbatim>\<open>vmem_xfree\<close>. The first yields the segment now standing for the
  freed range, the segment before it and whether it was merged; the second yields the segment,
  the one after it and whether it was merged.
\<close>

definition coalesce_left ::
  "seg_ref \<Rightarrow> vmem \<times> seg_pool \<Rightarrow> (seg_ref \<times> seg_ref \<times> bool \<times> vmem \<times> seg_pool) option" where
  "coalesce_left seg = (\<lambda>(v, p). do {
     left \<leftarrow> prev_seg v seg;
     if s_type (seg_of p left) = kVMemSegFree then do {
       let (v1, p1) = freeseg_expand left (s_base (seg_of p left))
                        (s_size (seg_of p left) + s_size (seg_of p seg)) (v, p);
       let v2 = segqueue_remove seg v1;
       let p2 = seg_free seg p1;
       left' \<leftarrow> prev_seg v2 left;
       Some (left, left', True, v2, p2)
     } else Some (seg, left, False, v, p)
   })"

definition coalesce_right ::
  "bool \<Rightarrow> seg_ref \<Rightarrow> vmem \<times> seg_pool \<Rightarrow> seg_ref \<times> seg_ref option \<times> bool \<times> vmem \<times> seg_pool" where
  "coalesce_right coalesced_left seg = (\<lambda>(v, p).
     case next_seg v seg of
       None \<Rightarrow> (seg, None, False, v, p)
     | Some right \<Rightarrow>
         if s_type (seg_of p right) = kVMemSegFree then
           let (v1, p1) = freeseg_expand right (s_base (seg_of p seg))
                            (s_size (seg_of p right) + s_size (seg_of p seg)) (v, p);
               v2 = segqueue_remove seg v1;
               v3 = (if coalesced_left then seglist_remove seg v2 else v2);
               p2 = seg_free seg p1
           in (right, next_seg v3 right, True, v3, p2)
         else (seg, Some right, False, v, p))"

definition release_span ::
  "'x vmem_env \<Rightarrow> seg_ref \<Rightarrow> seg_ref \<Rightarrow> seg_ref option \<Rightarrow> bool \<Rightarrow> 'x vst \<Rightarrow> 'x vst option" where
  "release_span e left seg right coalesced st = do {
     kassert (case right of None \<Rightarrow> True
              | Some r \<Rightarrow> s_type (seg_of (pool st) r) = kVMemSegSpanImported);
     fn \<leftarrow> v_freefn (arena st);
     st1 \<leftarrow> env_free e fn (s_base (seg_of (pool st) left)) (s_size (seg_of (pool st) left)) st;
     let v1 = (if coalesced then seglist_remove seg (arena st1) else arena st1);
     let v2 = segqueue_remove seg v1;
     let p2 = seg_free seg (pool st1);
     let v3 = segqueue_remove left (seglist_remove left v2);
     let p3 = seg_free left p2;
     Some (st1\<lparr>arena := v3, pool := p3\<rparr>)
   }"

definition vmem_xfree :: "'x vmem_env \<Rightarrow> u64 \<Rightarrow> u64 \<Rightarrow> 'x vst \<Rightarrow> (int \<times> 'x vst) option" where
  "vmem_xfree e addr size0 st = do {
     seg0 \<leftarrow> find (\<lambda>s. s_base (seg_of (pool st) s) = addr)
               (hashtab (arena st) ! hashbucket_for_addr addr);
     let sz = s_size (seg_of (pool st) seg0);
     let v0 = seglist_remove seg0 (arena st);
     (seg1, left, cl, v1, p1) \<leftarrow> coalesce_left seg0 (v0, pool st);
     let (seg2, right, cr, v2, p2) = coalesce_right cl seg1 (v1, p1);
     let st2 = st\<lparr>arena := v2, pool := p2\<rparr>;
     let coalesced = (cl \<or> cr);
     st3 \<leftarrow>
       (if s_type (seg_of p2 left) = kVMemSegSpanImported \<and>
           s_size (seg_of p2 seg2) = s_size (seg_of p2 left)
        then release_span e left seg2 right coalesced st2
        else if \<not> coalesced
        then Some (st2\<lparr>arena := segqueue_remove seg2 v2, pool := seg_free seg2 p2\<rparr>)
        else Some st2);
     Some (sint (ucast sz :: 32 word), st3)
   }"

subsection \<open>Teardown and dump\<close>

definition vmem_destroy :: "'x vst \<Rightarrow> 'x vst option" where
  "vmem_destroy st = do {
     kassert (list_all (\<lambda>l. l = []) (take kNHashBuckets (hashtab (arena st))));
     Some (st\<lparr>pool := fold seg_free (segqueue (arena st)) (pool st)\<rparr>)
   }"

definition vmem_dump :: "vmem \<Rightarrow> seg_pool \<Rightarrow> (seg_type \<times> u64 \<times> u64) list" where
  "vmem_dump v p = map (\<lambda>i. (s_type (seg_of p i), s_base (seg_of p i),
                              s_base (seg_of p i) + s_size (seg_of p i))) (segqueue v)"

end
