(* ===== verification/Vmem_Inv.thy ===== *)
theory Vmem_Inv
  imports Vmem
begin

text \<open>
  The invariant of a VMem arena and what every operation of \<^verbatim>\<open>kern/vmem.c\<close> does to it.

  \<open>segs_ok\<close> reads the segment queue from left to right: span markers in address order, the free
  and allocated segments of a span inside it, in order and disjoint. \<open>wf_vmem\<close> adds that the span
  list is the sublist of markers, that the free lists file the free segments by size class and
  that the hash table files the allocated ones by address. \<open>alloc_ranges\<close> and \<open>free_space\<close> are the
  abstract view: the ranges handed out and the addresses that can still be handed out. The
  lemmas go from the primitive list updates over \<open>split_seg\<close>, the free-list search and span
  insertion to the two coalescing steps of \<^verbatim>\<open>vmem_xfree\<close>.
\<close>

subsection \<open>Size classes\<close>

lemma clz_below_bounds:
  assumes "w \<noteq> 0" and "unat w < 2 ^ n"
  shows "clz_below n w < n \<and> 2 ^ (n - clz_below n w - 1) \<le> unat w \<and> unat w < 2 ^ (n - clz_below n w)"
  using assms
proof (induction n)
  case 0
  then show ?case by (simp add: unat_eq_zero)
next
  case (Suc n)
  have b: "bit w n \<longleftrightarrow> odd (unat w div 2 ^ n)"
    by (metis bit_iff_odd bit_unsigned_iff bit_imp_le_length possible_bit_nat)
  show ?case
  proof (cases "bit w n")
    case True
    then have "unat w div 2 ^ n \<noteq> 0" using b by (metis odd_pos not_less_zero)
    then have "2 ^ n \<le> unat w" by (metis div_less linorder_not_le)
    with True Suc.prems show ?thesis by simp
  next
    case False
    have "unat w div 2 ^ n < 2"
      using Suc.prems by (simp add: less_mult_imp_div_less)
    moreover have "even (unat w div 2 ^ n)" using b False by simp
    ultimately have "unat w div 2 ^ n = 0" by (cases "unat w div 2 ^ n") auto
    then have "unat w < 2 ^ n" by (simp add: div_eq_0_iff)
    with Suc.IH Suc.prems(1) False show ?thesis by auto
  qed
qed

lemma freelist_less [simp]: "freelist n < 64"
  by (simp add: freelist_def)

lemma freelist_bounds:
  assumes "n \<noteq> 0"
  shows "2 ^ freelist n \<le> unat n \<and> unat n < 2 ^ (freelist n + 1)"
proof -
  have c: "clz_below 64 n < 64"
    and b: "2 ^ (64 - clz_below 64 n - 1) \<le> unat n" "unat n < 2 ^ (64 - clz_below 64 n)"
    using clz_below_bounds [of n 64] assms by simp_all
  have "freelist n + 1 = 64 - clz_below 64 n"
    using c unfolding freelist_def builtin_clzl_def by arith
  with b show ?thesis
    by (simp add: freelist_def builtin_clzl_def)
qed

lemma freelist_mono:
  assumes "m \<noteq> 0" and "unat m \<le> unat n"
  shows "freelist m \<le> freelist n"
proof (rule ccontr)
  assume "\<not> ?thesis"
  then have "freelist n + 1 \<le> freelist m" by simp
  then have "(2::nat) ^ (freelist n + 1) \<le> 2 ^ freelist m" by (rule power_increasing) simp
  moreover have "n \<noteq> 0" using assms by (metis le_zero_eq unat_eq_zero unat_0)
  ultimately show False
    using freelist_bounds [of n] freelist_bounds [of m] assms by linarith
qed

lemma hashbucket_less [simp]: "hashbucket_for_addr a < 16"
proof -
  have "murmur64 a mod 16 < 16" by (rule word_mod_less_divisor) simp
  then show ?thesis by (simp add: hashbucket_for_addr_def word_less_nat_alt)
qed

subsection \<open>The segment queue\<close>

definition is_span :: "seg_pool \<Rightarrow> seg_ref \<Rightarrow> bool" where
  "is_span p i \<longleftrightarrow> s_type (seg_of p i) = kVMemSegSpan \<or> s_type (seg_of p i) = kVMemSegSpanImported"

definition seg_lo :: "seg_pool \<Rightarrow> seg_ref \<Rightarrow> nat" where
  "seg_lo p i = unat (s_base (seg_of p i))"

definition seg_len :: "seg_pool \<Rightarrow> seg_ref \<Rightarrow> nat" where
  "seg_len p i = unat (s_size (seg_of p i))"

abbreviation seg_hi :: "seg_pool \<Rightarrow> seg_ref \<Rightarrow> nat" where
  "seg_hi p i \<equiv> seg_lo p i + seg_len p i"

text \<open>
  The queue read from left to right with a cursor \<open>lo\<close> and the end \<open>hi\<close> of the current span: a
  span marker starts at or after the end of the span before it and does not wrap; any other
  segment lies between the cursor and the end of its span. A queue that begins with the empty
  window therefore begins with a span marker.
\<close>

fun segs_ok :: "seg_pool \<Rightarrow> nat \<Rightarrow> nat \<Rightarrow> seg_ref list \<Rightarrow> bool" where
  "segs_ok p lo hi [] \<longleftrightarrow> True"
| "segs_ok p lo hi (i # is) \<longleftrightarrow> 0 < seg_len p i \<and>
     (if is_span p i
      then hi \<le> seg_lo p i \<and> seg_hi p i < W64 \<and> segs_ok p (seg_lo p i) (seg_hi p i) is
      else lo \<le> seg_lo p i \<and> seg_hi p i \<le> hi \<and> segs_ok p (seg_hi p i) hi is)"

fun window :: "seg_pool \<Rightarrow> nat \<times> nat \<Rightarrow> seg_ref list \<Rightarrow> nat \<times> nat" where
  "window p w [] = w"
| "window p w (i # is) =
     window p (if is_span p i then (seg_lo p i, seg_hi p i) else (seg_hi p i, snd w)) is"

lemma segs_ok_append:
  "segs_ok p lo hi (as @ bs) \<longleftrightarrow> segs_ok p lo hi as \<and>
     segs_ok p (fst (window p (lo, hi) as)) (snd (window p (lo, hi) as)) bs"
  by (induction as arbitrary: lo hi) auto

lemma window_append: "window p w (as @ bs) = window p (window p w as) bs"
  by (induction as arbitrary: w) auto

lemma seg_cong:
  "seg_of p i = seg_of q i \<Longrightarrow> seg_lo p i = seg_lo q i \<and> seg_len p i = seg_len q i \<and> is_span p i = is_span q i"
  by (simp add: seg_lo_def seg_len_def is_span_def)

lemma segs_ok_cong:
  assumes "\<And>i. i \<in> set is \<Longrightarrow> seg_of p i = seg_of q i"
  shows "segs_ok p lo hi is \<longleftrightarrow> segs_ok q lo hi is"
  using assms
proof (induction "is" arbitrary: lo hi)
  case (Cons i "is")
  then have "seg_of p i = seg_of q i" by simp
  from seg_cong [OF this] Cons show ?case by simp
qed simp

lemma window_cong:
  assumes "\<And>i. i \<in> set is \<Longrightarrow> seg_of p i = seg_of q i"
  shows "window p w is = window q w is"
  using assms
proof (induction "is" arbitrary: w)
  case (Cons i "is")
  then have "seg_of p i = seg_of q i" by simp
  from seg_cong [OF this] Cons show ?case by simp
qed simp

lemma segs_ok_lower:
  "segs_ok p lo hi is \<Longrightarrow> lo' \<le> lo \<Longrightarrow> segs_ok p lo' hi is"
  by (cases "is") auto

text \<open>Every segment of the queue ends below \<open>2 ^ 64\<close>, and segments that are not span markers are
  pairwise disjoint.\<close>

lemma segs_ok_hi_bound:
  "segs_ok p lo hi is \<Longrightarrow> hi < W64 \<Longrightarrow> i \<in> set is \<Longrightarrow> seg_hi p i < W64"
  by (induction "is" arbitrary: lo hi) (auto split: if_splits)

lemma segs_ok_len_pos: "segs_ok p lo hi is \<Longrightarrow> i \<in> set is \<Longrightarrow> 0 < seg_len p i"
  by (induction "is" arbitrary: lo hi) (auto split: if_splits)

lemma segs_ok_after:
  "segs_ok p lo hi is \<Longrightarrow> lo \<le> hi \<Longrightarrow> i \<in> set is \<Longrightarrow> lo \<le> seg_lo p i"
proof (induction "is" arbitrary: lo hi)
  case (Cons j "is")
  show ?case
  proof (cases "i = j")
    case True
    with Cons.prems show ?thesis by (auto split: if_splits)
  next
    case False
    then have i: "i \<in> set is" using Cons.prems by simp
    show ?thesis
    proof (cases "is_span p j")
      case True
      have "seg_lo p j \<le> seg_lo p i"
        by (rule Cons.IH [of _ "seg_hi p j"]) (use Cons.prems True i in auto)
      with True Cons.prems show ?thesis by auto
    next
      case False
      have "seg_hi p j \<le> seg_lo p i"
        by (rule Cons.IH [of _ hi]) (use Cons.prems False i in auto)
      with False Cons.prems show ?thesis by auto
    qed
  qed
qed simp

lemma window_le: "segs_ok p lo hi is \<Longrightarrow> lo \<le> hi \<Longrightarrow> fst (window p (lo, hi) is) \<le> snd (window p (lo, hi) is)"
  by (induction "is" arbitrary: lo hi) (auto split: if_splits)

lemma segs_ok_disjoint:
  assumes "segs_ok p lo hi (as @ i # bs)" and "lo \<le> hi" and "\<not> is_span p i" and "j \<in> set bs"
  shows "seg_hi p i \<le> seg_lo p j"
proof -
  let ?w = "window p (lo, hi) as"
  have "segs_ok p (fst ?w) (snd ?w) (i # bs)" and as: "segs_ok p lo hi as"
    using assms(1) by (simp_all add: segs_ok_append)
  then have "segs_ok p (seg_hi p i) (snd ?w) bs" and "seg_hi p i \<le> snd ?w"
    using assms(3) by auto
  then show ?thesis using assms(4) by (rule segs_ok_after)
qed

lemma seg_in_window:
  "segs_ok p lo hi is \<Longrightarrow> i \<in> set is \<Longrightarrow> \<not> is_span p i \<Longrightarrow>
     lo \<le> seg_lo p i \<and> seg_hi p i \<le> hi \<or>
     (\<exists>s \<in> set is. is_span p s \<and> seg_lo p s \<le> seg_lo p i \<and> seg_hi p i \<le> seg_hi p s)"
proof (induction "is" arbitrary: lo hi)
  case (Cons j "is")
  then show ?case
    by (cases "i = j"; cases "is_span p j") fastforce+
qed simp

subsection \<open>The invariant of an arena\<close>

definition frees :: "seg_pool \<Rightarrow> seg_ref set \<Rightarrow> seg_ref set" where
  "frees p Q = {i \<in> Q. s_type (seg_of p i) = kVMemSegFree}"

definition allocs :: "seg_pool \<Rightarrow> seg_ref set \<Rightarrow> seg_ref set" where
  "allocs p Q = {i \<in> Q. s_type (seg_of p i) = kVMemSegAllocated}"

definition lists_ok :: "vmem \<Rightarrow> seg_pool \<Rightarrow> seg_ref set \<Rightarrow> seg_ref set \<Rightarrow> bool" where
  "lists_ok v p F A \<longleftrightarrow> length (freelists v) = 64 \<and> length (hashtab v) = 16 \<and>
     indexed (freelists v) (\<lambda>i. freelist (s_size (seg_of p i))) F \<and>
     indexed (hashtab v) (\<lambda>i. hashbucket_for_addr (s_base (seg_of p i))) A"

definition wf_vmem :: "vmem \<Rightarrow> seg_pool \<Rightarrow> bool" where
  "wf_vmem v p \<longleftrightarrow> distinct (segqueue v) \<and> segs_ok p 0 0 (segqueue v) \<and>
     spanlist v = filter (is_span p) (segqueue v) \<and>
     lists_ok v p (frees p (set (segqueue v))) (allocs p (set (segqueue v)))"

definition wf_pool :: "vmem \<Rightarrow> seg_pool \<Rightarrow> bool" where
  "wf_pool v p \<longleftrightarrow> distinct (free_segs p) \<and> nfreesegs p = int (length (free_segs p)) \<and>
     set (segqueue v) \<inter> set (free_segs p) = {}"

abbreviation wf_vst :: "'x vst \<Rightarrow> bool" where
  "wf_vst st \<equiv> wf_vmem (arena st) (pool st) \<and> wf_pool (arena st) (pool st)"

text \<open>How the primitive updates act on the lists; \<open>F\<close> and \<open>A\<close> are the filed segments.\<close>

lemma seg_set_simps [simp]:
  "seg_of (seg_set i ty b n p) i = (seg_of p i)\<lparr>s_type := ty, s_base := b, s_size := n\<rparr>"
  "j \<noteq> i \<Longrightarrow> seg_of (seg_set i ty b n p) j = seg_of p j"
  "free_segs (seg_set i ty b n p) = free_segs p"
  "nfreesegs (seg_set i ty b n p) = nfreesegs p"
  by (simp_all add: seg_set_def)

lemma seg_free_simps [simp]:
  "pool_segs (seg_free i p) = pool_segs p"
  "free_segs (seg_free i p) = i # free_segs p"
  "nfreesegs (seg_free i p) = nfreesegs p + 1"
  by (simp_all add: seg_free_def)

lemma lists_ok_pool_cong:
  assumes "\<And>i. i \<in> F \<union> A \<Longrightarrow> seg_of p i = seg_of q i"
  shows "lists_ok v p F A \<longleftrightarrow> lists_ok v q F A"
proof -
  have "indexed (freelists v) (\<lambda>i. freelist (s_size (seg_of p i))) F \<longleftrightarrow>
        indexed (freelists v) (\<lambda>i. freelist (s_size (seg_of q i))) F"
    by (rule indexed_cong) (simp add: assms)
  moreover have "indexed (hashtab v) (\<lambda>i. hashbucket_for_addr (s_base (seg_of p i))) A \<longleftrightarrow>
        indexed (hashtab v) (\<lambda>i. hashbucket_for_addr (s_base (seg_of q i))) A"
    by (rule indexed_cong) (simp add: assms)
  ultimately show ?thesis by (simp add: lists_ok_def)
qed

lemma lists_ok_segqueue [simp]:
  "lists_ok (v\<lparr>segqueue := q\<rparr>) p F A \<longleftrightarrow> lists_ok v p F A"
  "lists_ok (v\<lparr>spanlist := q\<rparr>) p F A \<longleftrightarrow> lists_ok v p F A"
  by (simp_all add: lists_ok_def)

lemma lists_ok_seg_free [simp]: "lists_ok v (seg_free i p) F A \<longleftrightarrow> lists_ok v p F A"
  by (simp add: lists_ok_def)

lemma lists_ok_seg_set: "i \<notin> F \<Longrightarrow> i \<notin> A \<Longrightarrow> lists_ok v (seg_set i ty b n p) F A \<longleftrightarrow> lists_ok v p F A"
  by (rule lists_ok_pool_cong) (auto simp: seg_set_def)

lemma lists_ok_seglist_remove:
  "lists_ok v p F A \<Longrightarrow> lists_ok (seglist_remove i v) p (F - {i}) (A - {i})"
  by (auto simp: lists_ok_def seglist_remove_def intro: indexed_remove)

lemma lists_ok_freelist_insert:
  assumes "lists_ok v p F A" and "i \<notin> F"
  shows "lists_ok (freelist_insert p i v) p (insert i F) A"
  using assms indexed_insert [of "freelists v" "\<lambda>i. freelist (s_size (seg_of p i))" F i]
  by (auto simp: lists_ok_def freelist_insert_def freelist_for_size_def Let_def)

lemma lists_ok_hashtab_insert:
  assumes "lists_ok v p F A" and "i \<notin> A"
  shows "lists_ok (hashtab_insert p i v) p F (insert i A)"
  using assms indexed_insert [of "hashtab v" "\<lambda>i. hashbucket_for_addr (s_base (seg_of p i))" A i]
  by (auto simp: lists_ok_def hashtab_insert_def Let_def)

lemma list_frame_simps [simp]:
  "segqueue (freelist_insert p i v) = segqueue v" "spanlist (freelist_insert p i v) = spanlist v"
  "segqueue (hashtab_insert p i v) = segqueue v" "spanlist (hashtab_insert p i v) = spanlist v"
  "segqueue (seglist_remove i v) = segqueue v"
  "spanlist (seglist_remove i v) = remove1 i (spanlist v)"
  by (simp_all add: freelist_insert_def hashtab_insert_def seglist_remove_def Let_def)

text \<open>The fields of an arena that only \<^verbatim>\<open>vmem_init\<close> writes.\<close>

definition vmem_attrs :: "vmem \<Rightarrow> vmem_fn option \<times> vmem_fn option \<times> vmem_ref option" where
  "vmem_attrs v = (v_allocfn v, v_freefn v, v_source v)"

lemma vmem_attrs_simps [simp]:
  "vmem_attrs (freelist_insert p i v) = vmem_attrs v"
  "vmem_attrs (hashtab_insert p i v) = vmem_attrs v"
  "vmem_attrs (seglist_remove i v) = vmem_attrs v"
  "vmem_attrs (v\<lparr>segqueue := q\<rparr>) = vmem_attrs v"
  "vmem_attrs (v\<lparr>spanlist := q\<rparr>) = vmem_attrs v"
  by (simp_all add: vmem_attrs_def freelist_insert_def hashtab_insert_def seglist_remove_def Let_def)

subsection \<open>Splitting a free segment\<close>

lemma wf_vmem_seg_bound: "wf_vmem v p \<Longrightarrow> i \<in> set (segqueue v) \<Longrightarrow> seg_hi p i < W64"
  by (auto simp: wf_vmem_def intro: segs_ok_hi_bound)

lemma segs_disjoint:
  assumes wf: "wf_vmem v p" and i: "i \<in> set (segqueue v)" "\<not> is_span p i"
    and j: "j \<in> set (segqueue v)" "\<not> is_span p j" and ne: "i \<noteq> j"
  shows "seg_hi p i \<le> seg_lo p j \<or> seg_hi p j \<le> seg_lo p i"
proof -
  obtain as bs where q: "segqueue v = as @ i # bs" using i(1) by (auto simp: in_set_conv_decomp)
  have ok: "segs_ok p 0 0 (segqueue v)" using wf by (simp add: wf_vmem_def)
  consider "j \<in> set bs" | "j \<in> set as" using j(1) ne q by auto
  then show ?thesis
  proof cases
    case 1
    then show ?thesis using segs_ok_disjoint [of p 0 0 as i bs j] ok q i(2) by simp
  next
    case 2
    then obtain cs ds where "as = cs @ j # ds" by (auto simp: in_set_conv_decomp)
    then show ?thesis using segs_ok_disjoint [of p 0 0 cs j "ds @ i # bs" i] ok q j(2) by simp
  qed
qed

lemma freesD: "i \<in> frees p Q \<Longrightarrow> i \<in> Q \<and> s_type (seg_of p i) = kVMemSegFree \<and> \<not> is_span p i"
  by (auto simp: frees_def is_span_def)

lemma seg_end_word:
  "seg_hi p i < W64 \<Longrightarrow> unat (s_base (seg_of p i) + s_size (seg_of p i)) = seg_hi p i"
  by (simp add: seg_lo_def seg_len_def unat_add_nowrap)

text \<open>The piece before and the piece after the allocation, when there is one: a new free segment
  built from a prepared structure \<open>x\<close>, which otherwise goes back to the pool.\<close>

definition piece :: "bool \<Rightarrow> seg_ref \<Rightarrow> seg_ref list" where
  "piece c x = (if c then [x] else [])"

definition piece_made :: "bool \<Rightarrow> seg_ref \<Rightarrow> nat \<Rightarrow> nat \<Rightarrow> seg_pool \<Rightarrow> seg_pool \<Rightarrow> bool" where
  "piece_made c x lo hi p p' \<longleftrightarrow>
     (c \<longrightarrow> s_type (seg_of p' x) = kVMemSegFree \<and> seg_lo p' x = lo \<and> seg_len p' x = hi - lo) \<and>
     (\<forall>j. j \<noteq> x \<longrightarrow> seg_of p' j = seg_of p j) \<and>
     free_segs p' = piece (\<not> c) x @ free_segs p \<and>
     nfreesegs p' = nfreesegs p + (if c then 0 else 1)"

lemma piece_simps [simp]: "piece True x = [x]" "piece False x = []"
  by (simp_all add: piece_def)

lemma split_left_spec:
  fixes addr :: u64
  assumes q: "segqueue v = as @ i # bs" "i \<notin> set as" and l: "l \<notin> F" "l \<notin> A" "l \<noteq> i"
    and ok: "lists_ok v p F A"
  defines "c \<equiv> seg_lo p i < unat addr"
  shows "\<exists>v' p'. split_left i l addr (v, p) = (v', p') \<and> segqueue v' = as @ piece c l @ i # bs \<and>
    lists_ok v' p' (F \<union> set (piece c l)) A \<and> piece_made c l (seg_lo p i) (unat addr) p p' \<and>
    spanlist v' = spanlist v \<and> vmem_attrs v' = vmem_attrs v"
proof (cases c)
  case True
  then have w: "addr > s_base (seg_of p i)" by (simp add: c_def seg_lo_def word_less_nat_alt)
  then have "unat (addr - s_base (seg_of p i)) = unat addr - seg_lo p i"
    by (simp add: unat_sub_nowrap seg_lo_def word_less_nat_alt)
  with True have made: "piece_made c l (seg_lo p i) (unat addr) p
      (seg_set l kVMemSegFree (s_base (seg_of p i)) (addr - s_base (seg_of p i)) p)"
    by (simp add: piece_made_def seg_lo_def seg_len_def c_def)
  have "lists_ok v (seg_set l kVMemSegFree b n p) F A" for b n
    using l ok by (simp add: lists_ok_seg_set)
  with True w q l made show ?thesis
    by (auto simp: split_left_def Let_def queue_simps intro!: lists_ok_freelist_insert)
next
  case False
  then have w: "\<not> addr > s_base (seg_of p i)" by (simp add: c_def seg_lo_def word_less_nat_alt)
  from False have "piece_made c l (seg_lo p i) (unat addr) p (seg_free l p)"
    by (simp add: piece_made_def)
  with False w q ok show ?thesis by (simp add: split_left_def Let_def)
qed

lemma split_right_spec:
  fixes addr n :: u64
  assumes q: "segqueue v = as @ i # bs" "i \<notin> set as" and r: "r \<notin> F" "r \<notin> A" "r \<noteq> i"
    and ok: "lists_ok v p F A"
    and hi: "seg_hi p i < W64" and rng: "unat addr + unat n \<le> seg_hi p i"
  defines "c \<equiv> unat addr + unat n < seg_hi p i"
  shows "\<exists>v' p'. split_right i r addr n (v, p) = (v', p') \<and> segqueue v' = as @ i # piece c r @ bs \<and>
    lists_ok v' p' (F \<union> set (piece c r)) A \<and>
    piece_made c r (unat addr + unat n) (seg_hi p i) p p' \<and>
    spanlist v' = spanlist v \<and> vmem_attrs v' = vmem_attrs v"
proof -
  let ?e = "s_base (seg_of p i) + s_size (seg_of p i)"
  have an: "unat (addr + n) = unat addr + unat n" using rng hi by (intro unat_add_nowrap) simp
  have w: "addr + n < ?e \<longleftrightarrow> c" by (simp add: c_def word_less_nat_alt an seg_end_word [OF hi])
  show ?thesis
  proof (cases c)
    case True
    then have "unat (?e - (addr + n)) = seg_hi p i - (unat addr + unat n)"
      using w by (simp add: unat_sub_nowrap word_less_nat_alt an seg_end_word [OF hi])
    with True have made: "piece_made c r (unat addr + unat n) (seg_hi p i) p
        (seg_set r kVMemSegFree (addr + n) (?e - (addr + n)) p)"
      by (simp add: piece_made_def seg_lo_def seg_len_def c_def an)
    have "lists_ok v (seg_set r kVMemSegFree b m p) F A" for b m
      using r ok by (simp add: lists_ok_seg_set)
    with True w q r made show ?thesis
      by (auto simp: split_right_def Let_def queue_simps intro!: lists_ok_freelist_insert)
  next
    case False
    then have "piece_made c r (unat addr + unat n) (seg_hi p i) p (seg_free r p)"
      by (simp add: piece_made_def)
    with False w q ok show ?thesis by (simp add: split_right_def Let_def)
  qed
qed

text \<open>What \<open>split_seg\<close> leaves.\<close>

definition split_result ::
  "seg_ref \<Rightarrow> seg_ref \<Rightarrow> seg_ref \<Rightarrow> u64 \<Rightarrow> u64 \<Rightarrow> vmem \<times> seg_pool \<Rightarrow> vmem \<times> seg_pool \<Rightarrow> bool" where
  "split_result i l r addr n = (\<lambda>(v, p) (v', p').
     let cl = (seg_lo p i < unat addr); cr = (unat addr + unat n < seg_hi p i) in
     (\<exists>as bs. segqueue v = as @ i # bs \<and> segqueue v' = as @ piece cl l @ i # piece cr r @ bs) \<and>
     (\<exists>p1 p2. piece_made cl l (seg_lo p i) (unat addr) p p1 \<and>
        piece_made cr r (unat addr + unat n) (seg_hi p i) p1 p2 \<and>
        p' = seg_set i kVMemSegAllocated addr n p2) \<and>
     lists_ok v' p' (frees p (set (segqueue v)) - {i} \<union> set (piece cl l) \<union> set (piece cr r))
                    (insert i (allocs p (set (segqueue v)))) \<and>
     spanlist v' = spanlist v \<and> vmem_attrs v' = vmem_attrs v)"

lemma split_seg_spec:
  assumes wf: "wf_vmem v p" and i: "i \<in> frees p (set (segqueue v))"
    and fresh: "l \<notin> set (segqueue v)" "r \<notin> set (segqueue v)" "l \<noteq> r"
    and rng: "unat addr + unat n \<le> seg_hi p i"
  shows "\<exists>v' p'. split_seg i l r addr n (v, p) = Some (v', p') \<and> split_result i l r addr n (v, p) (v', p')"
proof -
  let ?Q = "set (segqueue v)"
  let ?F = "frees p ?Q - {i}" and ?A = "allocs p ?Q"
  let ?cl = "seg_lo p i < unat addr" and ?cr = "unat addr + unat n < seg_hi p i"
  have free: "s_type (seg_of p i) = kVMemSegFree" and iQ: "i \<in> ?Q" and ns: "\<not> is_span p i"
    using freesD [OF i] by auto
  obtain as bs where q: "segqueue v = as @ i # bs" "i \<notin> set as"
    using split_list_first [OF iQ] by auto
  have niA: "i \<notin> ?A" using free by (simp add: allocs_def)
  have lF: "l \<notin> ?F" "l \<notin> ?A" "l \<noteq> i" and rF: "r \<notin> ?F \<union> set (piece c l)" "r \<notin> ?A" "r \<noteq> i" for c
    using fresh iQ by (auto simp: frees_def allocs_def piece_def)
  have ok0: "lists_ok (seglist_remove i v) p ?F ?A"
    using lists_ok_seglist_remove [of v p "frees p ?Q" ?A i] wf niA by (simp add: wf_vmem_def)
  have q0: "segqueue (seglist_remove i v) = as @ i # bs" using q by simp
  obtain v1 p1 where s1: "split_left i l addr (seglist_remove i v, p) = (v1, p1)"
    and q1: "segqueue v1 = as @ piece ?cl l @ i # bs"
    and ok1: "lists_ok v1 p1 (?F \<union> set (piece ?cl l)) ?A"
    and m1: "piece_made ?cl l (seg_lo p i) (unat addr) p p1"
    and f1: "spanlist v1 = remove1 i (spanlist v)" "vmem_attrs v1 = vmem_attrs v"
    using split_left_spec [OF q0 q(2) lF ok0, of addr] by auto
  have i1: "seg_of p1 i = seg_of p i" using m1 lF(3) by (auto simp: piece_made_def)
  then have hi1: "seg_hi p1 i = seg_hi p i" by (simp add: seg_lo_def seg_len_def)
  have q1': "segqueue v1 = (as @ piece ?cl l) @ i # bs" "i \<notin> set (as @ piece ?cl l)"
    using q1 q(2) lF(3) by (auto simp: piece_def)
  have "seg_hi p1 i < W64" using wf_vmem_seg_bound [OF wf iQ] hi1 by simp
  from split_right_spec [OF q1' rF ok1 this, of addr n] rng hi1
  obtain v2 p2 where s2: "split_right i r addr n (v1, p1) = (v2, p2)"
    and q2: "segqueue v2 = as @ piece ?cl l @ i # piece ?cr r @ bs"
    and ok2: "lists_ok v2 p2 (?F \<union> set (piece ?cl l) \<union> set (piece ?cr r)) ?A"
    and m2: "piece_made ?cr r (unat addr + unat n) (seg_hi p i) p1 p2"
    and f2: "spanlist v2 = spanlist v1" "vmem_attrs v2 = vmem_attrs v1"
    by auto
  let ?p3 = "seg_set i kVMemSegAllocated addr n p2"
  have "lists_ok v2 ?p3 (?F \<union> set (piece ?cl l) \<union> set (piece ?cr r)) ?A"
    using ok2 niA lF(3) rF(3) by (subst lists_ok_seg_set) (auto simp: piece_def)
  then have ok3: "lists_ok (hashtab_insert ?p3 i v2) ?p3
      (?F \<union> set (piece ?cl l) \<union> set (piece ?cr r)) (insert i ?A)"
    using niA by (rule lists_ok_hashtab_insert)
  have "split_seg i l r addr n (v, p) = Some (hashtab_insert ?p3 i v2, ?p3)"
    using free by (simp add: split_seg_def s1 s2 Let_def)
  moreover have "remove1 i (spanlist v) = spanlist v"
    using wf ns by (auto simp: wf_vmem_def intro!: remove1_idem)
  ultimately show ?thesis
    using q(1) q2 m1 m2 ok3 f1 f2 unfolding split_result_def Let_def by auto
qed

text \<open>The abstract view of an arena: the ranges handed out, and the set of free addresses.\<close>

definition alloc_ranges :: "vmem \<Rightarrow> seg_pool \<Rightarrow> (nat \<times> nat) set" where
  "alloc_ranges v p = (\<lambda>i. (seg_lo p i, seg_len p i)) ` allocs p (set (segqueue v))"

definition free_space :: "vmem \<Rightarrow> seg_pool \<Rightarrow> nat set" where
  "free_space v p = (\<Union>i \<in> frees p (set (segqueue v)). {seg_lo p i ..< seg_hi p i})"

text \<open>The segments of the result, one by one.\<close>

lemma split_result_segs:
  assumes "split_result i l r addr n (v, p) (v', p')"
    and "i \<notin> {l, r}" "l \<noteq> r"
  defines "cl \<equiv> seg_lo p i < unat addr" and "cr \<equiv> unat addr + unat n < seg_hi p i"
  shows "s_type (seg_of p' i) = kVMemSegAllocated \<and> seg_lo p' i = unat addr \<and> seg_len p' i = unat n"
    and "cl \<Longrightarrow> s_type (seg_of p' l) = kVMemSegFree \<and> seg_lo p' l = seg_lo p i \<and> seg_len p' l = unat addr - seg_lo p i"
    and "cr \<Longrightarrow> s_type (seg_of p' r) = kVMemSegFree \<and> seg_lo p' r = unat addr + unat n \<and> seg_len p' r = seg_hi p i - (unat addr + unat n)"
    and "j \<notin> {i, l, r} \<Longrightarrow> seg_of p' j = seg_of p j"
    and "free_segs p' = piece (\<not> cr) r @ piece (\<not> cl) l @ free_segs p"
    and "nfreesegs p' = nfreesegs p + (if cr then 0 else 1) + (if cl then 0 else 1)"
proof -
  obtain p1 p2 where m: "piece_made cl l (seg_lo p i) (unat addr) p p1"
      "piece_made cr r (unat addr + unat n) (seg_hi p i) p1 p2"
      "p' = seg_set i kVMemSegAllocated addr n p2"
    using assms(1) by (auto simp: split_result_def Let_def cl_def cr_def)
  show "s_type (seg_of p' i) = kVMemSegAllocated \<and> seg_lo p' i = unat addr \<and> seg_len p' i = unat n"
    by (simp add: m(3) seg_lo_def seg_len_def)
  have l: "seg_of p' l = seg_of p1 l" and r: "seg_of p' r = seg_of p2 r"
    using m assms(2,3) by (auto simp: piece_made_def seg_set_def)
  show "cl \<Longrightarrow> s_type (seg_of p' l) = kVMemSegFree \<and> seg_lo p' l = seg_lo p i \<and> seg_len p' l = unat addr - seg_lo p i"
    using m(1) seg_cong [OF l] l by (auto simp: piece_made_def)
  show "cr \<Longrightarrow> s_type (seg_of p' r) = kVMemSegFree \<and> seg_lo p' r = unat addr + unat n \<and> seg_len p' r = seg_hi p i - (unat addr + unat n)"
    using m(2) seg_cong [OF r] r by (auto simp: piece_made_def)
  show "j \<notin> {i, l, r} \<Longrightarrow> seg_of p' j = seg_of p j"
    using m by (auto simp: piece_made_def)
  show "free_segs p' = piece (\<not> cr) r @ piece (\<not> cl) l @ free_segs p"
    and "nfreesegs p' = nfreesegs p + (if cr then 0 else 1) + (if cl then 0 else 1)"
    using m by (auto simp: piece_made_def)
qed

lemma split_result_wf:
  assumes wf: "wf_vmem v p" and i: "i \<in> frees p (set (segqueue v))"
    and fresh: "l \<notin> set (segqueue v)" "r \<notin> set (segqueue v)" "l \<noteq> r"
    and rng: "seg_lo p i \<le> unat addr" "0 < unat n" "unat addr + unat n \<le> seg_hi p i"
    and res: "split_result i l r addr n (v, p) (v', p')"
  shows "wf_vmem v' p'"
    and "frees p' (set (segqueue v')) = frees p (set (segqueue v)) - {i} \<union>
           set (piece (seg_lo p i < unat addr) l) \<union> set (piece (unat addr + unat n < seg_hi p i) r)"
    and "allocs p' (set (segqueue v')) = insert i (allocs p (set (segqueue v)))"
proof -
  let ?cl = "seg_lo p i < unat addr" and ?cr = "unat addr + unat n < seg_hi p i"
  have ne: "i \<notin> {l, r}" using fresh freesD [OF i] by auto
  note segs = split_result_segs [OF res ne fresh(3)]
  obtain as bs where q: "segqueue v = as @ i # bs" and q': "segqueue v' = as @ piece ?cl l @ i # piece ?cr r @ bs"
    using res by (auto simp: split_result_def Let_def)
  have d: "distinct (as @ i # bs)" using wf q by (simp add: wf_vmem_def)
  have same: "j \<in> set as \<union> set bs \<Longrightarrow> seg_of p' j = seg_of p j" for j
    using segs(4) [of j] q fresh d by auto
  have span: "\<not> is_span p' i" "?cl \<Longrightarrow> \<not> is_span p' l" "?cr \<Longrightarrow> \<not> is_span p' r" "\<not> is_span p i"
    using segs(1-3) freesD [OF i] by (auto simp: is_span_def)
  show F: "frees p' (set (segqueue v')) = frees p (set (segqueue v)) - {i} \<union> set (piece ?cl l) \<union> set (piece ?cr r)"
    using segs(1-3) d same unfolding q q' frees_def by (auto simp: piece_def)
  show A: "allocs p' (set (segqueue v')) = insert i (allocs p (set (segqueue v)))"
    using segs(1-3) d same freesD [OF i] unfolding q q' allocs_def by (auto simp: piece_def)
  have ok: "segs_ok p 0 0 (as @ i # bs)" using wf q by (simp add: wf_vmem_def)
  have "segs_ok p' 0 0 (segqueue v')"
  proof -
    have w: "window p' (0, 0) as = window p (0, 0) as" by (rule window_cong) (simp add: same)
    have "segs_ok p' 0 0 as = segs_ok p 0 0 as" by (rule segs_ok_cong) (simp add: same)
    moreover have "segs_ok p' lo hi bs = segs_ok p lo hi bs" for lo hi by (rule segs_ok_cong) (simp add: same)
    moreover have "segs_ok p' lo hi (piece ?cl l @ i # piece ?cr r @ bs)"
      if "segs_ok p lo hi (i # bs)" for lo hi
      using that calculation(2) segs(1-3) span rng by (cases ?cl; cases ?cr) auto
    ultimately show ?thesis
      using ok unfolding q' segs_ok_append [of _ _ _ as] w by simp
  qed
  moreover have "spanlist v' = filter (is_span p') (segqueue v')"
  proof -
    have "j \<in> set as \<union> set bs \<Longrightarrow> is_span p' j = is_span p j" for j by (simp add: is_span_def same)
    then have "filter (is_span p') as = filter (is_span p) as" "filter (is_span p') bs = filter (is_span p) bs"
      by (auto intro: filter_cong)
    moreover have "spanlist v' = filter (is_span p) (as @ i # bs)"
      using res wf q by (simp add: split_result_def Let_def wf_vmem_def)
    ultimately show ?thesis using span by (simp add: q' piece_def)
  qed
  moreover have "distinct (segqueue v')"
    using d fresh ne q by (auto simp: q' piece_def)
  moreover have "lists_ok v' p' (frees p' (set (segqueue v'))) (allocs p' (set (segqueue v')))"
    unfolding F A using res by (simp add: split_result_def Let_def)
  ultimately show "wf_vmem v' p'" by (simp add: wf_vmem_def)
qed

lemma split_result_abs:
  assumes wf: "wf_vmem v p" and i: "i \<in> frees p (set (segqueue v))"
    and fresh: "l \<notin> set (segqueue v)" "r \<notin> set (segqueue v)" "l \<noteq> r"
    and rng: "seg_lo p i \<le> unat addr" "0 < unat n" "unat addr + unat n \<le> seg_hi p i"
    and res: "split_result i l r addr n (v, p) (v', p')"
  shows "alloc_ranges v' p' = insert (unat addr, unat n) (alloc_ranges v p)"
    and "free_space v' p' = free_space v p - {unat addr ..< unat addr + unat n}"
proof -
  have ne: "i \<notin> {l, r}" using fresh freesD [OF i] by auto
  note segs = split_result_segs [OF res ne fresh(3)]
  have same: "seg_lo p' j = seg_lo p j \<and> seg_len p' j = seg_len p j"
    if "j \<in> set (segqueue v)" "j \<noteq> i" for j
  proof -
    have "seg_of p' j = seg_of p j" using segs(4) [of j] fresh that by auto
    then show ?thesis using seg_cong [of p' j p] by simp
  qed
  show "alloc_ranges v' p' = insert (unat addr, unat n) (alloc_ranges v p)"
  proof -
    have "(\<lambda>j. (seg_lo p' j, seg_len p' j)) ` allocs p (set (segqueue v)) =
          (\<lambda>j. (seg_lo p j, seg_len p j)) ` allocs p (set (segqueue v))"
    proof (rule image_cong [OF refl])
      fix j assume "j \<in> allocs p (set (segqueue v))"
      then have "j \<in> set (segqueue v)" "j \<noteq> i" using freesD [OF i] by (auto simp: allocs_def)
      then show "(seg_lo p' j, seg_len p' j) = (seg_lo p j, seg_len p j)" by (simp add: same)
    qed
    with segs(1) show ?thesis
      unfolding alloc_ranges_def split_result_wf(3) [OF assms] by simp
  qed
  have keep: "{seg_lo p' j ..< seg_hi p' j} = {seg_lo p j ..< seg_hi p j} - {unat addr ..< unat addr + unat n}"
    if "j \<in> frees p (set (segqueue v)) - {i}" for j
  proof -
    have j: "j \<in> set (segqueue v)" "\<not> is_span p j" "j \<noteq> i" using that freesD by auto
    have "seg_hi p i \<le> seg_lo p j \<or> seg_hi p j \<le> seg_lo p i"
      using segs_disjoint [OF wf _ _ j(1,2), of i] freesD [OF i] j(3) by auto
    then show ?thesis using same [OF j(1,3)] rng by auto
  qed
  have pieces: "(\<Union>j \<in> set (piece (seg_lo p i < unat addr) l) \<union> set (piece (unat addr + unat n < seg_hi p i) r).
      {seg_lo p' j ..< seg_hi p' j}) = {seg_lo p i ..< seg_hi p i} - {unat addr ..< unat addr + unat n}"
    using segs(2,3) rng by (auto simp: piece_def)
  let ?X = "{unat addr ..< unat addr + unat n}" and ?F = "frees p (set (segqueue v))"
  have "free_space v p = (\<Union>j \<in> ?F - {i}. {seg_lo p j ..< seg_hi p j}) \<union> {seg_lo p i ..< seg_hi p i}"
    unfolding free_space_def using i by blast
  moreover have "(\<Union>j \<in> ?F - {i}. {seg_lo p' j ..< seg_hi p' j}) = 
      (\<Union>j \<in> ?F - {i}. {seg_lo p j ..< seg_hi p j} - ?X)"
    by (rule SUP_cong [OF refl]) (use keep in simp)
  moreover have "free_space v' p' = (\<Union>j \<in> ?F - {i}. {seg_lo p' j ..< seg_hi p' j}) \<union>
      ({seg_lo p i ..< seg_hi p i} - ?X)"
    unfolding free_space_def split_result_wf(2) [OF assms] pieces [symmetric] Un_assoc by (rule UN_Un)
  ultimately show "free_space v' p' = free_space v p - ?X"
    by (simp only:) blast
qed

text \<open>What no allocation or release changes: the spans of the arena. An arena that imports nothing
  has no imported span.\<close>

definition no_imported :: "vmem \<Rightarrow> seg_pool \<Rightarrow> bool" where
  "no_imported v p \<longleftrightarrow> (\<forall>i \<in> set (segqueue v). s_type (seg_of p i) \<noteq> kVMemSegSpanImported)"

definition spans :: "vmem \<Rightarrow> seg_pool \<Rightarrow> (nat \<times> nat) list" where
  "spans v p = map (\<lambda>i. (seg_lo p i, seg_len p i)) (spanlist v)"

lemma spans_cong:
  assumes "wf_vmem v p" "wf_vmem v' p'"
    and "\<And>j. j \<in> set (segqueue v') \<Longrightarrow> is_span p' j = is_span p j"
    and "filter (is_span p) (segqueue v') = filter (is_span p) (segqueue v)"
    and "\<And>j. is_span p j \<Longrightarrow> j \<in> set (segqueue v) \<Longrightarrow> seg_of p' j = seg_of p j"
  shows "spans v' p' = spans v p"
proof -
  have "filter (is_span p') (segqueue v') = filter (is_span p) (segqueue v')"
    using assms(3) by (rule filter_cong [OF refl])
  then have "spanlist v' = spanlist v" using assms(1,2,4) by (simp add: wf_vmem_def)
  moreover have "j \<in> set (spanlist v) \<Longrightarrow> seg_of p' j = seg_of p j" for j
    using assms(1,5) by (simp add: wf_vmem_def)
  ultimately show ?thesis by (simp add: spans_def seg_lo_def seg_len_def)
qed

lemma split_result_spans:
  assumes wf: "wf_vmem v p" "wf_vmem v' p'" and i: "i \<in> frees p (set (segqueue v))"
    and fresh: "l \<notin> set (segqueue v)" "r \<notin> set (segqueue v)" "l \<noteq> r"
    and res: "split_result i l r addr n (v, p) (v', p')"
  shows "spans v' p' = spans v p" and "no_imported v p \<Longrightarrow> no_imported v' p'"
proof -
  have ne: "i \<notin> {l, r}" using fresh freesD [OF i] by auto
  note segs = split_result_segs [OF res ne fresh(3)]
  let ?cl = "seg_lo p i < unat addr" and ?cr = "unat addr + unat n < seg_hi p i"
  obtain as bs where q: "segqueue v = as @ i # bs" and q': "segqueue v' = as @ piece ?cl l @ i # piece ?cr r @ bs"
    using res by (auto simp: split_result_def Let_def)
  have keep: "seg_of p' j = seg_of p j" if "is_span p j" "j \<in> set (segqueue v)" for j
    using segs(4) [of j] freesD [OF i] that fresh by blast
  have "j \<in> set (spanlist v) \<Longrightarrow> seg_lo p' j = seg_lo p j \<and> seg_len p' j = seg_len p j" for j
    using keep wf(1) by (simp add: wf_vmem_def seg_lo_def seg_len_def)
  then show "spans v' p' = spans v p"
    using res by (simp add: spans_def split_result_def Let_def)
  show "no_imported v' p'" if "no_imported v p"
    unfolding no_imported_def
  proof
    fix j assume j: "j \<in> set (segqueue v')"
    then consider "j = i" | "j = l" "?cl" | "j = r" "?cr" | "j \<in> set (segqueue v)" "j \<notin> {i, l, r}"
      unfolding q q' using fresh q by (auto simp: piece_def split: if_splits)
    then show "s_type (seg_of p' j) \<noteq> kVMemSegSpanImported"
      using segs(1-4) that by cases (auto simp: no_imported_def)
  qed
qed

subsection \<open>Searching the free lists\<close>

text \<open>A free segment fits a request for \<open>n\<close> units at \<open>vmin\<close> (exact) or anywhere.\<close>

definition fits :: "seg_pool \<Rightarrow> u64 \<Rightarrow> u64 \<Rightarrow> u32 \<Rightarrow> seg_ref \<Rightarrow> bool" where
  "fits p n vmin flags i \<longleftrightarrow>
     (if flags AND kVMemExact \<noteq> 0
      then seg_lo p i \<le> unat vmin \<and> unat vmin + unat n \<le> seg_hi p i
      else unat n \<le> seg_len p i)"

text \<open>No sum the search forms passes the end of the address width.\<close>

definition no_wrap :: "vmem \<Rightarrow> seg_pool \<Rightarrow> u64 \<Rightarrow> u64 \<Rightarrow> bool" where
  "no_wrap v p n vmin \<longleftrightarrow> unat vmin + unat n < W64 \<and>
     (\<forall>i \<in> set (segqueue v). seg_hi p i < W64 \<and> seg_lo p i + unat n < W64)"

lemma fit_in_list_Some:
  assumes "fit_in_list p n vmin flags ls = Some (f, addr)"
    and "vmin = 0 \<or> flags AND kVMemExact \<noteq> 0"
    and "unat vmin + unat n < W64" "\<And>i. i \<in> set ls \<Longrightarrow> seg_hi p i < W64 \<and> seg_lo p i + unat n < W64"
  shows "f \<in> set ls \<and> seg_lo p f \<le> unat addr \<and> unat addr + unat n \<le> seg_hi p f \<and>
    (flags AND kVMemExact \<noteq> 0 \<longrightarrow> addr = vmin) \<and> fits p n vmin flags f"
  using assms(1,4)
proof (induction ls)
  case (Cons g ls)
  let ?b = "s_base (seg_of p g)" and ?e = "s_base (seg_of p g) + s_size (seg_of p g)"
  let ?a = "if ?b \<le> vmin then vmin else ?b"
  show ?case
  proof (cases "fit_in_list p n vmin flags ls = Some (f, addr)")
    case True
    with Cons show ?thesis by simp
  next
    case False
    with Cons.prems(1) have g: "f = g" "addr = ?a" "\<not> ?a + n > ?e" "?b \<le> vmin \<or> flags AND kVMemExact = 0"
      by (auto simp: Let_def split: if_splits)
    have w: "seg_hi p g < W64" "seg_lo p g + unat n < W64" using Cons.prems(2) [of g] by auto
    have b: "unat ?b = seg_lo p g" by (simp add: seg_lo_def)
    have "unat (?a + n) = unat ?a + unat n" using assms(3) w b by (intro unat_add_nowrap) auto
    moreover have "unat ?e = seg_hi p g" by (rule seg_end_word [OF w(1)])
    ultimately have "unat ?a + unat n \<le> seg_hi p g" using g(3) by (simp add: word_le_nat_alt not_less)
    moreover have "seg_lo p g \<le> unat ?a" by (auto simp: seg_lo_def word_le_nat_alt)
    moreover have "flags AND kVMemExact \<noteq> 0 \<Longrightarrow> ?a = vmin" using g(4) by auto
    ultimately show ?thesis using g(1,2) by (auto simp: fits_def)
  qed
qed simp

lemma fit_in_list_None:
  assumes "fit_in_list p n vmin flags ls = None"
    and "vmin = 0 \<or> flags AND kVMemExact \<noteq> 0" and "i \<in> set ls" "seg_hi p i < W64"
  shows "\<not> fits p n vmin flags i"
  using assms(1,3,4)
proof (induction ls)
  case (Cons g ls)
  let ?b = "s_base (seg_of p g)" and ?e = "s_base (seg_of p g) + s_size (seg_of p g)"
  show ?case
  proof (cases "i = g")
    case False
    with Cons show ?thesis by (auto simp: Let_def split: if_splits)
  next
    case True
    show ?thesis
    proof
      assume fit: "fits p n vmin flags i"
      have e: "unat ?e = seg_hi p i" using seg_end_word Cons.prems(3) True by blast
      have b: "unat ?b = seg_lo p i" by (simp add: seg_lo_def True)
      show False
      proof (cases "flags AND kVMemExact = 0")
        case ex: False
        then have "?b \<le> vmin" and le: "unat vmin + unat n \<le> seg_hi p i"
          using fit b by (auto simp: fits_def word_le_nat_alt)
        then have "vmin + n > ?e" using Cons.prems(1) by (auto simp: Let_def split: if_splits)
        moreover have "unat (vmin + n) = unat vmin + unat n"
          using le Cons.prems(3) by (intro unat_add_nowrap) simp
        ultimately show False using le e by (simp add: word_less_nat_alt)
      next
        case ex: True
        then have v0: "vmin = 0" and le: "seg_lo p i + unat n \<le> seg_hi p i"
          using assms(2) fit by (auto simp: fits_def)
        have "?b + n > ?e" using Cons.prems(1) v0 ex by (auto simp: Let_def word_le_0_iff split: if_splits)
        moreover have "unat (?b + n) = seg_lo p i + unat n"
          using le Cons.prems(3) b by (subst unat_add_nowrap) simp_all
        ultimately show False using le e by (simp add: word_less_nat_alt)
      qed
    qed
  qed
qed simp

lemma fit_in_lists_Some:
  "fit_in_lists p n vmin flags lss = Some r \<Longrightarrow>
     \<exists>ls \<in> set lss. fit_in_list p n vmin flags ls = Some r"
  by (induction lss) (auto split: option.splits)

lemma fit_in_lists_None:
  "fit_in_lists p n vmin flags lss = None \<Longrightarrow> ls \<in> set lss \<Longrightarrow> fit_in_list p n vmin flags ls = None"
  by (induction lss) (auto split: option.splits)

lemma fit_in_lists_cong:
  assumes "pool_segs p = pool_segs q"
  shows "fit_in_lists p n vmin flags lss = fit_in_lists q n vmin flags lss"
proof -
  have "fit_in_list p n vmin flags ls = fit_in_list q n vmin flags ls" for ls
    by (induction ls) (simp_all add: assms Let_def)
  then show ?thesis by (induction lss) (simp_all split: option.splits)
qed

lemma fits_len: "fits p n vmin flags i \<Longrightarrow> unat n \<le> seg_len p i"
  by (auto simp: fits_def split: if_splits)

lemma search_Some:
  assumes wf: "wf_vmem v p" and nw: "no_wrap v p n vmin"
    and m: "vmin = 0 \<or> flags AND kVMemExact \<noteq> 0"
    and s: "fit_in_lists p n vmin flags (drop (freelist n) (freelists v)) = Some (f, addr)"
  shows "f \<in> frees p (set (segqueue v)) \<and> seg_lo p f \<le> unat addr \<and> unat addr + unat n \<le> seg_hi p f \<and>
    (flags AND kVMemExact \<noteq> 0 \<longrightarrow> addr = vmin) \<and> fits p n vmin flags f"
proof -
  obtain ls where ls: "ls \<in> set (freelists v)" "fit_in_list p n vmin flags ls = Some (f, addr)"
    using fit_in_lists_Some [OF s] by (auto dest: in_set_dropD)
  have sub: "i \<in> set ls \<Longrightarrow> i \<in> frees p (set (segqueue v))" for i
    using wf ls(1) by (auto simp: wf_vmem_def lists_ok_def intro: indexed_sound)
  have "i \<in> set ls \<Longrightarrow> seg_hi p i < W64 \<and> seg_lo p i + unat n < W64" for i
    using sub [of i] nw by (auto simp: no_wrap_def frees_def)
  from fit_in_list_Some [OF ls(2) m _ this] nw sub show ?thesis
    by (auto simp: no_wrap_def)
qed

text \<open>
  The search starts at the size class of the request. A fitting segment is at least as large,
  so its size class is not below, and the search meets it.
\<close>

lemma search_None:
  assumes wf: "wf_vmem v p" and n: "n \<noteq> 0"
    and m: "vmin = 0 \<or> flags AND kVMemExact \<noteq> 0"
    and s: "fit_in_lists p n vmin flags (drop (freelist n) (freelists v)) = None"
    and i: "i \<in> frees p (set (segqueue v))"
  shows "\<not> fits p n vmin flags i"
proof
  assume fit: "fits p n vmin flags i"
  let ?k = "freelist (s_size (seg_of p i))"
  have k: "freelist n \<le> ?k" "?k < length (freelists v)"
    using freelist_mono [OF n, of "s_size (seg_of p i)"] fits_len [OF fit] wf
    by (auto simp: seg_len_def wf_vmem_def lists_ok_def)
  have "i \<in> set (freelists v ! ?k)"
    using wf i k(2) by (auto simp: wf_vmem_def lists_ok_def dest: indexed_member)
  moreover have "freelists v ! ?k \<in> set (drop (freelist n) (freelists v))"
    using k by (auto simp: in_set_conv_nth intro!: exI [of _ "?k - freelist n"])
  then have "fit_in_list p n vmin flags (freelists v ! ?k) = None"
    by (rule fit_in_lists_None [OF s])
  ultimately show False
    using fit_in_list_None [OF _ m] fit wf_vmem_seg_bound [OF wf] freesD [OF i] by blast
qed

subsection \<open>Allocation\<close>

lemma seg_alloc_Some:
  assumes "free_segs p = x # rest"
  shows "seg_alloc p = Some (x, p\<lparr>free_segs := rest, nfreesegs := nfreesegs p - 1\<rparr>)"
  using assms by (simp add: seg_alloc_def)

lemma wf_vmem_pool_cong:
  assumes "\<And>i. i \<in> set (segqueue v) \<Longrightarrow> seg_of p i = seg_of q i"
  shows "wf_vmem v p \<longleftrightarrow> wf_vmem v q"
proof -
  have sp: "filter (is_span p) (segqueue v) = filter (is_span q) (segqueue v)"
    by (rule filter_cong) (auto simp: is_span_def assms)
  have "frees p (set (segqueue v)) = frees q (set (segqueue v))"
    "allocs p (set (segqueue v)) = allocs q (set (segqueue v))"
    by (auto simp: frees_def allocs_def assms)
  moreover have "lists_ok v p (frees q (set (segqueue v))) (allocs q (set (segqueue v))) \<longleftrightarrow>
      lists_ok v q (frees q (set (segqueue v))) (allocs q (set (segqueue v)))"
    by (rule lists_ok_pool_cong) (auto simp: frees_def allocs_def assms)
  ultimately show ?thesis
    using segs_ok_cong [of "segqueue v" p q 0 0, OF assms] sp by (simp add: wf_vmem_def)
qed

lemma free_space_alloc_disjoint:
  assumes "wf_vmem v p" and "(lo, len) \<in> alloc_ranges v p"
  shows "free_space v p \<inter> {lo ..< lo + len} = {}"
proof -
  obtain j where j: "j \<in> set (segqueue v)" "s_type (seg_of p j) = kVMemSegAllocated" "lo = seg_lo p j" "len = seg_len p j"
    using assms(2) by (auto simp: alloc_ranges_def allocs_def)
  have "{seg_lo p i ..< seg_hi p i} \<inter> {lo ..< lo + len} = {}" if "i \<in> frees p (set (segqueue v))" for i
  proof -
    have "i \<noteq> j" using freesD [OF that] j(2) by auto
    then show ?thesis
      using segs_disjoint [OF assms(1), of i j] freesD [OF that] j by (auto simp: is_span_def)
  qed
  then show ?thesis unfolding free_space_def by blast
qed

text \<open>Taking the two prepared segments off the pool.\<close>

definition prealloc :: "seg_pool \<Rightarrow> seg_pool" where
  "prealloc p = p\<lparr>free_segs := tl (tl (free_segs p)), nfreesegs := nfreesegs p - 2\<rparr>"

lemma prealloc_wf:
  assumes "wf_vmem v p" and "wf_pool v p" and "free_segs p = l # r # rest"
  shows "wf_vmem v (prealloc p)" and "wf_pool v (prealloc p)"
    and "l \<notin> set (segqueue v)" and "r \<notin> set (segqueue v)" and "l \<noteq> r"
    and "frees (prealloc p) Q = frees p Q" and "alloc_ranges v (prealloc p) = alloc_ranges v p"
    and "free_space v (prealloc p) = free_space v p"
proof -
  show "wf_vmem v (prealloc p)"
    using assms(1) wf_vmem_pool_cong [of v p "prealloc p"] by (simp add: prealloc_def)
  show "wf_pool v (prealloc p)" "l \<notin> set (segqueue v)" "r \<notin> set (segqueue v)" "l \<noteq> r"
    using assms(2,3) by (auto simp: prealloc_def wf_pool_def)
  show "frees (prealloc p) Q = frees p Q" "alloc_ranges v (prealloc p) = alloc_ranges v p"
    "free_space v (prealloc p) = free_space v p"
    by (auto simp: prealloc_def frees_def allocs_def alloc_ranges_def free_space_def seg_lo_def seg_len_def)
qed

lemma xalloc_body_run:
  assumes "free_segs (pool st) = l # r # rest"
  shows "xalloc_body e n vmin flags st = do {
     (res, st1) \<leftarrow> xalloc_search e n vmin flags (st\<lparr>pool := prealloc (pool st)\<rparr>);
     case res of
       Inl r \<Rightarrow> Some ((r, None), st1)
     | Inr (freeseg, addr) \<Rightarrow> do {
         (v, p) \<leftarrow> split_seg freeseg l r addr n (arena st1, pool st1);
         Some ((0, Some addr), st1\<lparr>arena := v, pool := p\<rparr>)
       }
   }"
  using assms by (simp add: xalloc_body_def seg_alloc_def prealloc_def)

definition xalloc_ok ::
  "u64 \<Rightarrow> u64 \<Rightarrow> u32 \<Rightarrow> 'x vst \<Rightarrow> u64 \<Rightarrow> 'x vst \<Rightarrow> bool" where
  "xalloc_ok n vmin flags st a st' \<longleftrightarrow> wf_vst st' \<and> ext st' = ext st \<and>
     vmem_attrs (arena st') = vmem_attrs (arena st) \<and>
     spans (arena st') (pool st') = spans (arena st) (pool st) \<and>
     (no_imported (arena st) (pool st) \<longrightarrow> no_imported (arena st') (pool st')) \<and>
     length (free_segs (pool st)) \<le> length (free_segs (pool st')) + 2 \<and>
     (flags AND kVMemExact \<noteq> 0 \<longrightarrow> a = vmin) \<and>
     {unat a ..< unat a + unat n} \<subseteq> free_space (arena st) (pool st) \<and>
     alloc_ranges (arena st') (pool st') =
       insert (unat a, unat n) (alloc_ranges (arena st) (pool st)) \<and>
     free_space (arena st') (pool st') =
       free_space (arena st) (pool st) - {unat a ..< unat a + unat n}"

lemma split_result_pool:
  assumes res: "split_result i l r addr n (v, p) (v', p')" and "wf_pool v p"
    and "i \<in> set (segqueue v)" "{l, r} \<inter> (set (segqueue v) \<union> set (free_segs p)) = {}" "l \<noteq> r"
  shows "wf_pool v' p'"
proof -
  have ne: "i \<notin> {l, r}" using assms(3,4) by auto
  obtain as bs where "segqueue v = as @ i # bs"
    "segqueue v' = as @ piece (seg_lo p i < unat addr) l @ i # piece (unat addr + unat n < seg_hi p i) r @ bs"
    using res by (auto simp: split_result_def Let_def)
  then show ?thesis
    using split_result_segs(5,6) [OF res ne assms(5)] assms(2,4,5) by (auto simp: wf_pool_def piece_def)
qed

lemma xalloc_body_success:
  assumes wf: "wf_vst st" and fs: "free_segs (pool st) = l # r # rest" and n: "n \<noteq> 0"
    and m: "vmin = 0 \<or> flags AND kVMemExact \<noteq> 0"
    and nw: "no_wrap (arena st) (pool st) n vmin"
    and s: "fit_in_lists (pool st) n vmin flags (drop (freelist n) (freelists (arena st))) = Some (i, a)"
  shows "\<exists>st'. xalloc_body e n vmin flags st = Some ((0, Some a), st') \<and> xalloc_ok n vmin flags st a st'"
proof -
  let ?v = "arena st" and ?p = "prealloc (pool st)"
  note pre = prealloc_wf [OF conjunct1 [OF wf] conjunct2 [OF wf] fs]
  have segs: "pool_segs ?p = pool_segs (pool st)" by (simp add: prealloc_def)
  have i: "i \<in> frees ?p (set (segqueue ?v))" and lo: "seg_lo ?p i \<le> unat a"
    and hi: "unat a + unat n \<le> seg_hi ?p i" and ex: "flags AND kVMemExact \<noteq> 0 \<longrightarrow> a = vmin"
    using search_Some [OF conjunct1 [OF wf] nw m s] segs by (simp_all add: seg_lo_def seg_len_def pre(6))
  have n0: "0 < unat n" using n by (simp add: unat_gt_0)
  obtain v' p' where sp: "split_seg i l r a n (?v, ?p) = Some (v', p')"
    and res: "split_result i l r a n (?v, ?p) (v', p')"
    using split_seg_spec [OF pre(1) i pre(3-5) hi] by blast
  have "xalloc_body e n vmin flags st =
      Some ((0, Some a), st\<lparr>pool := ?p, arena := v', pool := p'\<rparr>)"
    by (simp add: xalloc_body_run [OF fs] xalloc_search_def fit_in_lists_cong [OF segs] s sp)
  moreover have "wf_pool v' p'"
    using pre(2-5) wf fs freesD [OF i]
    by (intro split_result_pool [OF res]) (auto simp: prealloc_def wf_pool_def)
  moreover have "{unat a ..< unat a + unat n} \<subseteq> free_space ?v ?p"
    using i lo hi by (force simp: free_space_def)
  moreover have "vmem_attrs v' = vmem_attrs ?v" using res by (simp add: split_result_def Let_def)
  moreover have "length (free_segs (pool st)) \<le> length (free_segs p') + 2"
  proof -
    have "i \<notin> {l, r}" using freesD [OF i] pre(3,4) by auto
    from split_result_segs(5) [OF res this pre(5)] fs show ?thesis by (simp add: prealloc_def)
  qed
  moreover have "spans v' p' = spans ?v (pool st)" "no_imported ?v (pool st) \<Longrightarrow> no_imported v' p'"
    using split_result_spans [OF pre(1) split_result_wf(1) [OF pre(1) i pre(3-5) lo n0 hi res] i pre(3-5) res]
    by (simp_all add: prealloc_def spans_def seg_lo_def seg_len_def no_imported_def)
  ultimately show ?thesis
    using split_result_wf(1) [OF pre(1) i pre(3-5) lo n0 hi res]
      split_result_abs [OF pre(1) i pre(3-5) lo n0 hi res] ex pre(7,8)
    by (auto simp: xalloc_ok_def)
qed

lemma xalloc_body_fail:
  assumes wf: "wf_vst st" and fs: "free_segs (pool st) = l # r # rest" and none: "v_allocfn (arena st) = None"
    and s: "fit_in_lists (pool st) n vmin flags (drop (freelist n) (freelists (arena st))) = None"
  shows "xalloc_body e n vmin flags st = Some ((- ERESOURCEEXHAUSTED, None), st\<lparr>pool := prealloc (pool st)\<rparr>)"
proof -
  have "pool_segs (prealloc (pool st)) = pool_segs (pool st)" by (simp add: prealloc_def)
  from fit_in_lists_cong [OF this]
  have "fit_in_lists (prealloc (pool st)) n vmin flags lss = fit_in_lists (pool st) n vmin flags lss" for lss .
  with s show ?thesis
    by (simp add: xalloc_body_run [OF fs] xalloc_search_def try_import_def none ERESOURCEEXHAUSTED_def)
qed

subsection \<open>Adding a span\<close>

text \<open>The new span must not meet the spans already there, must be nonempty and must not wrap.\<close>

definition span_fits :: "vmem \<Rightarrow> seg_pool \<Rightarrow> u64 \<Rightarrow> u64 \<Rightarrow> bool" where
  "span_fits v p b n \<longleftrightarrow> 0 < unat n \<and> unat b + unat n < W64 \<and>
     (\<forall>i \<in> set (segqueue v). is_span p i \<longrightarrow> seg_hi p i \<le> unat b \<or> unat b + unat n \<le> seg_lo p i)"

lemma last_span_before_spec:
  "last_span_before p b a ss = (case rev (takeWhile (\<lambda>i. s_base (seg_of p i) < b) ss) of
     [] \<Rightarrow> a | i # _ \<Rightarrow> Some i)"
proof (induction ss arbitrary: a)
  case (Cons i ss)
  then show ?case by (cases "rev (takeWhile (\<lambda>i. s_base (seg_of p i) < b) ss)") (auto simp: not_less)
qed simp

text \<open>Where \<open>link_span\<close> puts the new marker: between the segments of the spans that start below
  \<open>b\<close> and those of the spans that start at or above it.\<close>

definition span_cut :: "seg_pool \<Rightarrow> u64 \<Rightarrow> seg_ref list \<Rightarrow> seg_ref list \<Rightarrow> bool" where
  "span_cut p b as bs \<longleftrightarrow> (\<forall>i \<in> set as. is_span p i \<longrightarrow> s_base (seg_of p i) < b) \<and>
     (bs \<noteq> [] \<longrightarrow> is_span p (hd bs) \<and> s_base (seg_of p (hd bs)) \<ge> b)"

lemma filter_eq_mem: "filter P xs = ys \<Longrightarrow> i \<in> set ys \<longleftrightarrow> i \<in> set xs \<and> P i"
  by auto

lemma link_span_split:
  fixes b :: u64 and x :: seg_ref
  assumes sp: "spanlist v = filter (is_span p) (segqueue v)" and d: "distinct (segqueue v)"
    and head: "segqueue v \<noteq> [] \<longrightarrow> is_span p (hd (segqueue v))"
  defines "w \<equiv> link_span (last_span_before p b None (spanlist v)) x v"
  shows "\<exists>as bs. segqueue v = as @ bs \<and> span_cut p b as bs \<and> segqueue w = as @ x # bs \<and>
    spanlist w = filter (is_span p) as @ x # filter (is_span p) bs"
proof -
  let ?P = "\<lambda>i. s_base (seg_of p i) < b" and ?S = "spanlist v" and ?Q = "segqueue v"
  show ?thesis
  proof (cases "takeWhile ?P ?S" rule: rev_cases)
    case Nil
    have "?Q \<noteq> [] \<longrightarrow> s_base (seg_of p (hd ?Q)) \<ge> b"
      using Nil head unfolding sp by (cases ?Q) (auto simp: not_less split: if_splits)
    with Nil head sp show ?thesis
      by (intro exI [of _ "[]"] exI [of _ ?Q])
        (simp add: w_def last_span_before_spec link_span_def span_cut_def)
  next
    case (snoc T a)
    then have lb: "last_span_before p b None ?S = Some a" by (simp add: last_span_before_spec)
    obtain D where D: "?S = T @ a # D" using snoc takeWhile_dropWhile_id [of ?P ?S] by (metis append.assoc append_Cons append_Nil)
    have dS: "distinct ?S" using d sp by simp
    then have aT: "a \<notin> set T" using D by auto
    have below: "\<forall>i \<in> set (T @ [a]). ?P i" using snoc set_takeWhileD by metis
    show ?thesis
    proof (cases D)
      case Nil
      then have "filter (is_span p) ?Q = T @ [a]" using D sp by simp
      from filter_eq_mem [OF this] below have "\<forall>i \<in> set ?Q. is_span p i \<longrightarrow> ?P i" by blast
      with Nil D aT lb sp show ?thesis
        by (intro exI [of _ ?Q] exI [of _ "[]"])
          (simp add: w_def link_span_def Let_def queue_simps span_cut_def)
    next
      case (Cons s D')
      have s: "s \<in> set ?Q" "is_span p s"
        using filter_eq_mem [of "is_span p" ?Q "T @ a # s # D'" s] D Cons sp by auto
      then obtain as bs where Q: "?Q = as @ s # bs" "s \<notin> set as" by (metis split_list_first)
      have "filter (is_span p) as @ s # filter (is_span p) bs = (T @ [a]) @ s # D'"
        using D Cons sp Q s(2) by simp
      moreover have "s \<notin> set (T @ [a])" "s \<notin> set D'" using dS D Cons by auto
      ultimately have f: "filter (is_span p) as = T @ [a]" "filter (is_span p) bs = D'"
        by (metis append_Cons_eq_iff)+
      have "?P s = False"
      proof -
        have "takeWhile ?P (T @ a # s # D') = T @ a # takeWhile ?P (s # D')"
          using below by (simp add: takeWhile_append2)
        then show ?thesis using snoc D Cons by (auto split: if_splits)
      qed
      moreover have "\<forall>i \<in> set as. is_span p i \<longrightarrow> ?P i"
        using filter_eq_mem [OF f(1)] below by blast
      ultimately show ?thesis
        using Q D Cons aT lb f s(2)
        by (intro exI [of _ as] exI [of _ "s # bs"])
          (simp add: w_def link_span_def Let_def queue_simps span_cut_def not_less)
    qed
  qed
qed

lemma window_snd:
  "snd (window p (lo, hi) as) = hi \<or> (\<exists>i \<in> set as. is_span p i \<and> snd (window p (lo, hi) as) = seg_hi p i)"
proof (induction as arbitrary: lo hi)
  case (Cons a as)
  from Cons.IH [of "seg_lo p a" "seg_hi p a"] Cons.IH [of "seg_hi p a" hi]
  show ?case by (cases "is_span p a") auto
qed simp

lemma segs_ok_head_span:
  assumes "segs_ok p lo hi bs" and "bs \<noteq> []" and "is_span p (hd bs)" and "hi' \<le> seg_lo p (hd bs)"
  shows "segs_ok p lo' hi' bs"
  using assms by (cases bs) auto

lemma wf_head_span: "wf_vmem v p \<Longrightarrow> segqueue v \<noteq> [] \<Longrightarrow> is_span p (hd (segqueue v))"
  by (cases "segqueue v") (auto simp: wf_vmem_def split: if_splits)

lemma span_cut_segs_ok:
  assumes wf: "wf_vmem v p" and q: "segqueue v = as @ bs" and cut: "span_cut p b as bs"
    and fit: "span_fits v p b n"
  shows "segs_ok p 0 0 as" and "snd (window p (0, 0) as) \<le> unat b"
    and "segs_ok p lo (unat b + unat n) bs"
proof -
  have ok: "segs_ok p 0 0 as" "segs_ok p (fst (window p (0, 0) as)) (snd (window p (0, 0) as)) bs"
    using wf q by (simp_all add: wf_vmem_def segs_ok_append)
  show "segs_ok p 0 0 as" by (rule ok)
  have sep: "seg_hi p i \<le> unat b \<or> unat b + unat n \<le> seg_lo p i" "0 < seg_len p i"
    if "i \<in> set (as @ bs)" "is_span p i" for i
    using fit that q segs_ok_len_pos [of p 0 0 "segqueue v" i] wf by (auto simp: span_fits_def wf_vmem_def)
  have "seg_hi p i \<le> unat b" if "i \<in> set as" "is_span p i" for i
    using sep [of i] that cut by (auto simp: span_cut_def seg_lo_def word_less_nat_alt)
  then show "snd (window p (0, 0) as) \<le> unat b"
    using window_snd [of p 0 0 as] by auto
  show "segs_ok p lo (unat b + unat n) bs"
  proof (cases "bs = []")
    case False
    then have h: "is_span p (hd bs)" "unat b \<le> seg_lo p (hd bs)" "hd bs \<in> set (as @ bs)"
      using cut by (auto simp: span_cut_def seg_lo_def word_le_nat_alt)
    then have "unat b + unat n \<le> seg_lo p (hd bs)" using sep [of "hd bs"] by auto
    then show ?thesis by (rule segs_ok_head_span [OF ok(2) False h(1)])
  qed simp
qed

lemma link_span_frame:
  "vmem_attrs (link_span a x v) = vmem_attrs v" "freelists (link_span a x v) = freelists v"
  "hashtab (link_span a x v) = hashtab v"
  by (auto simp: link_span_def vmem_attrs_def Let_def split: option.splits)

text \<open>The arena and the pool after a span marker \<open>s\<close> and a free segment \<open>f\<close> are put in.\<close>

lemma add_span_wf:
  assumes wf: "wf_vmem v p" and fit: "span_fits v p b n" and ty: "ty = kVMemSegSpan \<or> ty = kVMemSegSpanImported"
    and fresh: "s \<notin> set (segqueue v)" "f \<notin> set (segqueue v)" "s \<noteq> f"
    and q: "segqueue v = as @ bs" and cut: "span_cut p b as bs"
    and w: "segqueue w = as @ s # f # bs" "spanlist w = filter (is_span p) as @ s # filter (is_span p) bs"
      "freelists w = freelists v" "hashtab w = hashtab v"
    and p': "seg_of p' s = (seg_of p s)\<lparr>s_type := ty, s_base := b, s_size := n\<rparr>"
      "seg_of p' f = (seg_of p f)\<lparr>s_type := kVMemSegFree, s_base := b, s_size := n\<rparr>"
      "\<And>j. j \<in> set (segqueue v) \<Longrightarrow> seg_of p' j = seg_of p j"
  shows "wf_vmem (freelist_insert p' f w) p'"
    and "alloc_ranges (freelist_insert p' f w) p' = alloc_ranges v p"
    and "free_space (freelist_insert p' f w) p' = free_space v p \<union> {unat b ..< unat b + unat n}"
    and "set (spans (freelist_insert p' f w) p') = insert (unat b, unat n) (set (spans v p))"
    and "ty = kVMemSegSpan \<Longrightarrow> no_imported v p \<Longrightarrow> no_imported (freelist_insert p' f w) p'"
proof -
  let ?Q = "set (segqueue v)"
  have same: "seg_lo p' j = seg_lo p j" "seg_len p' j = seg_len p j" "is_span p' j = is_span p j"
    "s_type (seg_of p' j) = s_type (seg_of p j)" if "j \<in> ?Q" for j
    using p'(3) [OF that] by (auto simp: seg_lo_def seg_len_def is_span_def)
  have new: "is_span p' s" "\<not> is_span p' f" "seg_lo p' s = unat b" "seg_len p' s = unat n"
    "seg_lo p' f = unat b" "seg_len p' f = unat n"
    using ty p' by (auto simp: is_span_def seg_lo_def seg_len_def)
  have F: "frees p' (set (segqueue w)) = insert f (frees p ?Q)"
    using same(4) ty p' by (auto simp: frees_def w q)
  have A: "allocs p' (set (segqueue w)) = allocs p ?Q"
    using same(4) ty p' by (auto simp: allocs_def w q)
  have "segs_ok p' 0 0 (as @ s # f # bs)"
  proof -
    have c: "segs_ok p' lo hi as = segs_ok p lo hi as" "segs_ok p' lo hi bs = segs_ok p lo hi bs"
      "window p' ww as = window p ww as" for lo hi ww
      using q p'(3) by (auto intro!: segs_ok_cong window_cong)
    show ?thesis
      using span_cut_segs_ok [OF wf q cut fit] new fit by (simp add: segs_ok_append c span_fits_def)
  qed
  moreover have "spanlist w = filter (is_span p') (segqueue w)"
  proof -
    have "filter (is_span p') as = filter (is_span p) as" "filter (is_span p') bs = filter (is_span p) bs"
      using same(3) q by (auto intro!: filter_cong)
    then show ?thesis using w new by simp
  qed
  moreover have "distinct (segqueue w)" using wf fresh q by (auto simp: w wf_vmem_def)
  moreover have "lists_ok w p' (frees p ?Q) (allocs p ?Q)"
  proof -
    have "lists_ok w p (frees p ?Q) (allocs p ?Q)" using wf w by (simp add: lists_ok_def wf_vmem_def)
    then show ?thesis
      by (subst lists_ok_pool_cong [of _ _ _ p]) (auto simp: frees_def allocs_def p'(3))
  qed
  ultimately show "wf_vmem (freelist_insert p' f w) p'"
    using fresh(2) F A by (auto simp: wf_vmem_def w frees_def intro!: lists_ok_freelist_insert)
  show "alloc_ranges (freelist_insert p' f w) p' = alloc_ranges v p"
    unfolding alloc_ranges_def list_frame_simps A using same by (intro image_cong) (auto simp: allocs_def)
  show "free_space (freelist_insert p' f w) p' = free_space v p \<union> {unat b ..< unat b + unat n}"
    unfolding free_space_def list_frame_simps F using new same by (auto simp: frees_def)
  show "set (spans (freelist_insert p' f w) p') = insert (unat b, unat n) (set (spans v p))"
  proof -
    have "set (spanlist v) = {j \<in> ?Q. is_span p j}" "set (spanlist w) = insert s {j \<in> ?Q. is_span p j}"
      using wf q by (auto simp: wf_vmem_def w)
    moreover have "(\<lambda>j. (seg_lo p' j, seg_len p' j)) ` {j \<in> ?Q. is_span p j} =
        (\<lambda>j. (seg_lo p j, seg_len p j)) ` {j \<in> ?Q. is_span p j}"
      using same by (intro image_cong) auto
    ultimately show ?thesis using new by (simp add: spans_def)
  qed
  show "no_imported (freelist_insert p' f w) p'" if "ty = kVMemSegSpan" "no_imported v p"
    using that same(4) p' q by (auto simp: no_imported_def w)
qed

lemma vmem_add_internal_ok:
  assumes wf: "wf_vst st" and fit: "span_fits (arena st) (pool st) b n"
    and ty: "ty = kVMemSegSpan \<or> ty = kVMemSegSpanImported"
    and fs: "free_segs (pool st) = s # f # rest"
  shows "\<exists>st'. vmem_add_internal ty b n st = Some (0, f, st') \<and> wf_vst st' \<and> ext st' = ext st \<and>
    vmem_attrs (arena st') = vmem_attrs (arena st) \<and>
    alloc_ranges (arena st') (pool st') = alloc_ranges (arena st) (pool st) \<and>
    free_space (arena st') (pool st') = free_space (arena st) (pool st) \<union> {unat b ..< unat b + unat n} \<and>
    set (spans (arena st') (pool st')) = insert (unat b, unat n) (set (spans (arena st) (pool st))) \<and>
    (ty = kVMemSegSpan \<longrightarrow> no_imported (arena st) (pool st) \<longrightarrow> no_imported (arena st') (pool st'))"
proof -
  let ?v = "arena st" and ?p = "pool st"
  let ?w = "link_span (last_span_before ?p b None (spanlist ?v)) s ?v"
  let ?w2 = "?w\<lparr>segqueue := insert_after s f (segqueue ?w)\<rparr>"
  let ?p' = "seg_set f kVMemSegFree b n ((seg_set s ty b n (?p\<lparr>free_segs := f # rest, nfreesegs := nfreesegs ?p - 1\<rparr>))
      \<lparr>free_segs := rest, nfreesegs := nfreesegs ?p - 2\<rparr>)"
  have fresh: "s \<notin> set (segqueue ?v)" "f \<notin> set (segqueue ?v)" "s \<noteq> f"
    using wf fs by (auto simp: wf_pool_def)
  obtain as bs where q: "segqueue ?v = as @ bs" and cut: "span_cut ?p b as bs"
    and w: "segqueue ?w = as @ s # bs" "spanlist ?w = filter (is_span ?p) as @ s # filter (is_span ?p) bs"
    using link_span_split [of ?v ?p b s] wf wf_head_span by (auto simp: wf_vmem_def)
  have w2: "segqueue ?w2 = as @ s # f # bs"
    using fresh(1) q by (simp add: w queue_simps)
  have run: "vmem_add_internal ty b n st = Some (0, f, st\<lparr>arena := freelist_insert ?p' f ?w2, pool := ?p'\<rparr>)"
    using fs by (simp add: vmem_add_internal_def seg_alloc_def seg_set_def Let_def)
  have "j \<in> set (segqueue ?v) \<Longrightarrow> seg_of ?p' j = seg_of ?p j" for j
    using fresh by (auto simp: seg_set_def)
  then have "wf_vmem (freelist_insert ?p' f ?w2) ?p'"
    "alloc_ranges (freelist_insert ?p' f ?w2) ?p' = alloc_ranges ?v ?p"
    "free_space (freelist_insert ?p' f ?w2) ?p' = free_space ?v ?p \<union> {unat b ..< unat b + unat n}"
    "set (spans (freelist_insert ?p' f ?w2) ?p') = insert (unat b, unat n) (set (spans ?v ?p))"
    "ty = kVMemSegSpan \<Longrightarrow> no_imported ?v ?p \<Longrightarrow> no_imported (freelist_insert ?p' f ?w2) ?p'"
    using add_span_wf [OF conjunct1 [OF wf] fit ty fresh q cut w2, of ?p'] w(2) fresh(3)
    by (simp_all add: link_span_frame seg_set_def)
  moreover have "wf_pool (freelist_insert ?p' f ?w2) ?p'"
    using wf fs q w2 by (auto simp: wf_pool_def)
  ultimately show ?thesis
    by (simp add: run link_span_frame)
qed

lemma wf_empty_arena:
  assumes "segqueue v = []" "spanlist v = []" "freelists v = replicate 64 []" "hashtab v = replicate 16 []"
  shows "wf_vmem v p" and "alloc_ranges v p = {}" and "free_space v p = {}"
  using assms by (auto simp: wf_vmem_def lists_ok_def frees_def allocs_def alloc_ranges_def free_space_def)

lemma vmem_init_ok:
  assumes wf: "distinct (free_segs (pool st))" "nfreesegs (pool st) = int (length (free_segs (pool st)))"
    and n: "0 < unat n" "unat b + unat n < W64" and fs: "free_segs (pool st) = s # f # rest"
  shows "\<exists>st'. vmem_init name b n qu None None None flags st = Some st' \<and> wf_vst st' \<and> ext st' = ext st \<and>
    vmem_attrs (arena st') = (None, None, None) \<and> alloc_ranges (arena st') (pool st') = {} \<and>
    free_space (arena st') (pool st') = {unat b ..< unat b + unat n} \<and>
    set (spans (arena st') (pool st')) = {(unat b, unat n)} \<and> no_imported (arena st') (pool st')"
proof -
  let ?v = "\<lparr>v_name = name, v_base = b, v_size = n, v_quantum = qu, v_flags = flags, v_allocfn = None,
      v_freefn = None, v_source = None, segqueue = [], freelists = replicate kNFreeLists [],
      hashtab = replicate kNHashBuckets [], spanlist = []\<rparr>"
  let ?st = "st\<lparr>arena := ?v\<rparr>"
  have e: "wf_vmem ?v (pool st)" "alloc_ranges ?v (pool st) = {}" "free_space ?v (pool st) = {}"
    by (rule wf_empty_arena; simp add: kNFreeLists_def kNHashBuckets_def)+
  have s0: "spans (arena ?st) (pool ?st) = []" "no_imported (arena ?st) (pool ?st)"
    by (simp_all add: spans_def no_imported_def)
  have "wf_vst ?st" "span_fits (arena ?st) (pool ?st) b n" "free_segs (pool ?st) = s # f # rest"
    using e wf n fs by (auto simp: wf_pool_def span_fits_def)
  from vmem_add_internal_ok [OF this(1,2) _ this(3), of kVMemSegSpan] e s0
  obtain st' where "vmem_add_internal kVMemSegSpan b n ?st = Some (0, f, st')" "wf_vst st'" "ext st' = ext st"
    "vmem_attrs (arena st') = (None, None, None)" "alloc_ranges (arena st') (pool st') = {}"
    "free_space (arena st') (pool st') = {unat b ..< unat b + unat n}"
    "set (spans (arena st') (pool st')) = {(unat b, unat n)}" "no_imported (arena st') (pool st')"
    by (auto simp: vmem_attrs_def)
  moreover have "n \<noteq> 0" using n(1) by auto
  ultimately show ?thesis by (simp add: vmem_init_def Let_def)
qed

subsection \<open>Freeing\<close>

definition wf_upto :: "seg_ref set \<Rightarrow> vmem \<Rightarrow> seg_pool \<Rightarrow> bool" where
  "wf_upto H v p \<longleftrightarrow> distinct (segqueue v) \<and> segs_ok p 0 0 (segqueue v) \<and>
     spanlist v = filter (is_span p) (segqueue v) \<and>
     lists_ok v p (frees p (set (segqueue v)) - H) (allocs p (set (segqueue v)) - H)"

lemma wf_upto_empty: "wf_upto {} v p \<longleftrightarrow> wf_vmem v p"
  by (simp add: wf_upto_def wf_vmem_def)

lemma expand_lists:
  assumes ok: "lists_ok v p F A" and z: "z \<in> F" "z \<notin> A" "z \<notin> set (spanlist v)"
    and ex: "freeseg_expand z nb ns (v, p) = (v', p')"
  shows "lists_ok v' p' F A \<and> segqueue v' = segqueue v \<and> spanlist v' = spanlist v \<and>
    vmem_attrs v' = vmem_attrs v \<and> p' = seg_set z (s_type (seg_of p z)) nb ns p"
proof (cases "freelist ns = freelist (s_size (seg_of p z))")
  case True
  then have v': "v' = v" and p': "p' = seg_set z (s_type (seg_of p z)) nb ns p"
    using ex by (simp_all add: freeseg_expand_def Let_def)
  have "indexed (freelists v) (\<lambda>i. freelist (s_size (seg_of p' i))) F \<longleftrightarrow>
        indexed (freelists v) (\<lambda>i. freelist (s_size (seg_of p i))) F"
    by (rule indexed_cong) (simp add: p' seg_set_def True)
  moreover have "indexed (hashtab v) (\<lambda>i. hashbucket_for_addr (s_base (seg_of p' i))) A \<longleftrightarrow>
        indexed (hashtab v) (\<lambda>i. hashbucket_for_addr (s_base (seg_of p i))) A"
    by (rule indexed_cong) (use z p' in \<open>auto simp: seg_set_def\<close>)
  ultimately show ?thesis using ok v' p' by (simp add: lists_ok_def)
next
  case False
  let ?p = "seg_set z (s_type (seg_of p z)) nb ns p"
  have vp: "v' = freelist_insert ?p z (seglist_remove z v)" "p' = ?p"
    using ex False by (auto simp: freeseg_expand_def Let_def)
  have "lists_ok (seglist_remove z v) p (F - {z}) A"
    using lists_ok_seglist_remove [OF ok, of z] z by simp
  then have "lists_ok (seglist_remove z v) ?p (F - {z}) A"
    using z by (subst lists_ok_seg_set) auto
  from lists_ok_freelist_insert [OF this, of z] z show ?thesis
    by (simp add: vp insert_absorb remove1_idem)
qed

text \<open>
  Merging two neighbours \<open>x\<close> and \<open>y\<close> of the queue into the one of them, \<open>z\<close>, that is free: it
  gets the base of \<open>x\<close> and the sum of the sizes, and the other one, \<open>d\<close>, leaves the queue.
\<close>

definition merged :: "seg_ref \<Rightarrow> seg_ref \<Rightarrow> seg_ref \<Rightarrow> seg_pool \<Rightarrow> seg_pool \<Rightarrow> bool" where
  "merged x y z p p' \<longleftrightarrow> s_type (seg_of p' z) = kVMemSegFree \<and> seg_lo p' z = seg_lo p x \<and>
     seg_len p' z = seg_len p x + seg_len p y \<and> (\<forall>j. j \<noteq> z \<longrightarrow> seg_of p' j = seg_of p j)"

lemma segs_ok_neighbours:
  assumes "segs_ok p 0 0 (as @ x # y # bs)" and "\<not> is_span p x" and "\<not> is_span p y"
  shows "seg_hi p x \<le> seg_lo p y" and "seg_hi p y < W64"
  using assms segs_ok_disjoint [of p 0 0 as x "y # bs" y] segs_ok_hi_bound [of p 0 0 _ y] by auto

lemma merged_segs_ok:
  assumes ok: "segs_ok p 0 0 (as @ x # y # bs)" and ns: "\<not> is_span p x" "\<not> is_span p y"
    and m: "merged x y z p p'" and z: "z \<notin> set as" "z \<notin> set bs"
  shows "segs_ok p' 0 0 (as @ z # bs)"
proof -
  have c: "segs_ok p' lo hi as = segs_ok p lo hi as" "segs_ok p' lo hi bs = segs_ok p lo hi bs"
    "window p' w as = window p w as" for lo hi w
    using m z by (auto simp: merged_def intro!: segs_ok_cong window_cong)
  let ?w = "window p (0, 0) as"
  have "segs_ok p (seg_hi p y) (snd ?w) bs" "seg_hi p x \<le> seg_lo p y" "fst ?w \<le> seg_lo p x" "seg_hi p y \<le> snd ?w"
    "0 < seg_len p x" "segs_ok p 0 0 as"
    using ok ns by (auto simp: segs_ok_append)
  moreover have "\<not> is_span p' z" using m by (simp add: merged_def is_span_def)
  ultimately show ?thesis
    using m segs_ok_lower [of p "seg_hi p y" "snd ?w" bs "seg_lo p x + (seg_len p x + seg_len p y)"]
    by (auto simp: segs_ok_append c merged_def)
qed

lemma merge_wf:
  assumes u: "wf_upto H v p" and q: "segqueue v = as @ x # y # bs" and ns: "\<not> is_span p x" "\<not> is_span p y"
    and zd: "z = x \<and> d = y \<or> z = y \<and> d = x" and z: "s_type (seg_of p z) = kVMemSegFree" "z \<notin> H"
    and p': "p' = seg_set z kVMemSegFree (s_base (seg_of p x)) (s_size (seg_of p z) + s_size (seg_of p d)) p"
    and w: "segqueue w = as @ z # bs" "spanlist w = spanlist v"
    and ok: "lists_ok w p' (frees p (set (segqueue v)) - H - {d}) (allocs p (set (segqueue v)) - H - {d})"
  shows "merged x y z p p'" and "wf_upto (H - {d}) w p'"
    and "frees p' (set (segqueue w)) = frees p (set (segqueue v)) - {d}"
    and "allocs p' (set (segqueue w)) = allocs p (set (segqueue v)) - {d}"
proof -
  let ?Q = "set (segqueue v)"
  have d: "distinct (as @ x # y # bs)" and so: "segs_ok p 0 0 (as @ x # y # bs)" using u q by (simp_all add: wf_upto_def)
  note nb = segs_ok_neighbours [OF so ns]
  have "unat (s_size (seg_of p z) + s_size (seg_of p d)) = seg_len p x + seg_len p y"
    using zd nb by (subst unat_add_nowrap) (auto simp: seg_len_def)
  then show m: "merged x y z p p'"
    by (simp add: merged_def p' seg_lo_def seg_len_def)
  have zab: "z \<notin> set as" "z \<notin> set bs" using d zd by auto
  have zz: "s_type (seg_of p' z) = s_type (seg_of p z)" using m z by (simp add: merged_def)
  have ty: "s_type (seg_of p' j) = s_type (seg_of p j)" for j
    using m zz by (cases "j = z") (auto simp: merged_def)
  have Q: "set (segqueue w) = ?Q - {d}" using d zd by (auto simp: w q)
  show F: "frees p' (set (segqueue w)) = frees p ?Q - {d}"
    and A: "allocs p' (set (segqueue w)) = allocs p ?Q - {d}"
    unfolding Q by (auto simp: frees_def allocs_def ty)
  have sp: "is_span p' = is_span p" by (simp add: fun_eq_iff is_span_def ty)
  have "filter (is_span p) (as @ z # bs) = filter (is_span p) (as @ x # y # bs)"
    using ns zd by auto
  then have "spanlist w = filter (is_span p') (segqueue w)"
    using u q by (simp add: w wf_upto_def sp)
  moreover have "distinct (segqueue w)" using d zab by (simp add: w)
  moreover have "segs_ok p' 0 0 (segqueue w)"
    unfolding w by (rule merged_segs_ok [OF so ns m zab])
  moreover have "lists_ok w p' (frees p' (set (segqueue w)) - (H - {d})) (allocs p' (set (segqueue w)) - (H - {d}))"
  proof -
    have "X - {d} - (H - {d}) = X - H - {d}" for X :: "seg_ref set" by auto
    then show ?thesis unfolding F A using ok by simp
  qed
  ultimately show "wf_upto (H - {d}) w p'" by (simp add: wf_upto_def)
qed

lemma seg_free_views [simp]:
  "is_span (seg_free i p) = is_span p" "seg_lo (seg_free i p) = seg_lo p" "seg_len (seg_free i p) = seg_len p"
  "frees (seg_free i p) Q = frees p Q" "allocs (seg_free i p) Q = allocs p Q"
  by (auto simp: is_span_def seg_lo_def seg_len_def frees_def allocs_def)

lemma wf_upto_seg_free [simp]: "wf_upto H v (seg_free i p) \<longleftrightarrow> wf_upto H v p"
  using segs_ok_cong [of "segqueue v" "seg_free i p" p 0 0] by (simp add: wf_upto_def)

lemma segqueue_remove_simps [simp]:
  "segqueue (segqueue_remove i v) = remove1 i (segqueue v)" "spanlist (segqueue_remove i v) = spanlist v"
  "vmem_attrs (segqueue_remove i v) = vmem_attrs v"
  "lists_ok (segqueue_remove i v) p F A \<longleftrightarrow> lists_ok v p F A"
  by (simp_all add: segqueue_remove_def)

lemma coalesce_left_merge:
  assumes u: "wf_upto {i} v p" and q: "segqueue v = as @ l # a # i # bs"
    and a: "s_type (seg_of p a) = kVMemSegFree" and i: "s_type (seg_of p i) = kVMemSegAllocated"
  shows "\<exists>v' p'. coalesce_left i (v, p) = Some (a, l, True, v', seg_free i p') \<and>
    segqueue v' = as @ l # a # bs \<and> merged a i a p p' \<and> wf_vmem v' p' \<and>
    frees p' (set (segqueue v')) = frees p (set (segqueue v)) \<and>
    allocs p' (set (segqueue v')) = allocs p (set (segqueue v)) - {i} \<and>
    free_segs p' = free_segs p \<and> nfreesegs p' = nfreesegs p \<and> vmem_attrs v' = vmem_attrs v"
proof -
  let ?Q = "set (segqueue v)"
  have d: "distinct (as @ l # a # i # bs)" using u q by (simp add: wf_upto_def)
  have ns: "\<not> is_span p a" "\<not> is_span p i" using a i by (simp_all add: is_span_def)
  have ne: "a \<noteq> i" "i \<notin> frees p ?Q" using a i by (auto simp: frees_def)
  obtain v1 p1 where ex: "freeseg_expand a (s_base (seg_of p a)) (s_size (seg_of p a) + s_size (seg_of p i)) (v, p) = (v1, p1)"
    by (cases "freeseg_expand a (s_base (seg_of p a)) (s_size (seg_of p a) + s_size (seg_of p i)) (v, p)")
  have "lists_ok v p (frees p ?Q - {i}) (allocs p ?Q - {i})" using u by (simp add: wf_upto_def)
  moreover have "a \<in> frees p ?Q - {i}" "a \<notin> allocs p ?Q - {i}" "a \<notin> set (spanlist v)"
    using a ns ne q u by (auto simp: frees_def allocs_def wf_upto_def)
  ultimately have e: "lists_ok v1 p1 (frees p ?Q - {i}) (allocs p ?Q - {i})" "segqueue v1 = segqueue v"
      "spanlist v1 = spanlist v" "vmem_attrs v1 = vmem_attrs v"
      "p1 = seg_set a kVMemSegFree (s_base (seg_of p a)) (s_size (seg_of p a) + s_size (seg_of p i)) p"
    using expand_lists [OF _ _ _ _ ex] a by auto
  have qa: "segqueue v = (as @ [l]) @ a # i # bs" using q by simp
  have w: "segqueue (segqueue_remove i v1) = (as @ [l]) @ a # bs"
    using d by (auto simp: e q remove1_append)
  have "lists_ok (segqueue_remove i v1) p1 (frees p ?Q - {i} - {i}) (allocs p ?Q - {i} - {i})"
    using e(1) by simp
  from merge_wf [OF u qa ns _ a _ e(5) w _ this] ne(1) e(3)
  have m: "merged a i a p p1" "wf_upto ({i} - {i}) (segqueue_remove i v1) p1"
    "frees p1 (set (segqueue (segqueue_remove i v1))) = frees p ?Q - {i}"
    "allocs p1 (set (segqueue (segqueue_remove i v1))) = allocs p ?Q - {i}"
    by auto
  have "prev_seg v i = Some a" "prev_seg (segqueue_remove i v1) a = Some l"
    using d prev_of_split [of i "as @ [l]" a bs] prev_of_split [of a as l bs] w by (auto simp: prev_seg_def q)
  then have "coalesce_left i (v, p) = Some (a, l, True, segqueue_remove i v1, seg_free i p1)"
    using a by (simp add: coalesce_left_def ex Let_def)
  then show ?thesis using m w e ne(2) by (auto simp: wf_upto_empty)
qed

lemma coalesce_right_merge:
  assumes u: "wf_upto H v p" and H: "H = (if cl then {} else {s})" and q: "segqueue v = as @ s # b # bs"
    and b: "s_type (seg_of p b) = kVMemSegFree" and s: "\<not> is_span p s"
    and cl: "s_type (seg_of p s) = (if cl then kVMemSegFree else kVMemSegAllocated)"
  shows "\<exists>v' p' rt. coalesce_right cl s (v, p) = (b, rt, True, v', seg_free s p') \<and>
    segqueue v' = as @ b # bs \<and> rt = first_of bs \<and> merged s b b p p' \<and> wf_vmem v' p' \<and>
    frees p' (set (segqueue v')) = frees p (set (segqueue v)) - {s} \<and>
    allocs p' (set (segqueue v')) = allocs p (set (segqueue v)) - {s} \<and>
    free_segs p' = free_segs p \<and> nfreesegs p' = nfreesegs p \<and> vmem_attrs v' = vmem_attrs v"
proof -
  let ?Q = "set (segqueue v)"
  have d: "distinct (as @ s # b # bs)" using u q by (simp add: wf_upto_def)
  have ns: "\<not> is_span p b" using b by (simp add: is_span_def)
  have ne: "b \<noteq> s" "b \<notin> H" using d H by (auto split: if_splits)
  obtain v1 p1 where ex: "freeseg_expand b (s_base (seg_of p s)) (s_size (seg_of p b) + s_size (seg_of p s)) (v, p) = (v1, p1)"
    by (cases "freeseg_expand b (s_base (seg_of p s)) (s_size (seg_of p b) + s_size (seg_of p s)) (v, p)")
  have "lists_ok v p (frees p ?Q - H) (allocs p ?Q - H)" using u by (simp add: wf_upto_def)
  moreover have "b \<in> frees p ?Q - H" "b \<notin> allocs p ?Q - H" "b \<notin> set (spanlist v)"
    using b ns ne q u by (auto simp: frees_def allocs_def wf_upto_def)
  ultimately have e: "lists_ok v1 p1 (frees p ?Q - H) (allocs p ?Q - H)" "segqueue v1 = segqueue v"
      "spanlist v1 = spanlist v" "vmem_attrs v1 = vmem_attrs v"
      "p1 = seg_set b kVMemSegFree (s_base (seg_of p s)) (s_size (seg_of p b) + s_size (seg_of p s)) p"
    using expand_lists [OF _ _ _ _ ex] b by auto
  define w where "w = (if cl then seglist_remove s (segqueue_remove s v1) else segqueue_remove s v1)"
  have sS: "s \<notin> set (spanlist v)" using u s by (auto simp: wf_upto_def)
  have w: "segqueue w = as @ b # bs" "spanlist w = spanlist v" "vmem_attrs w = vmem_attrs v"
    using d sS by (auto simp: w_def e q remove1_append remove1_idem)
  have "lists_ok w p1 (frees p ?Q - H - {s}) (allocs p ?Q - H - {s})"
    using e(1) H lists_ok_seglist_remove [of "segqueue_remove s v1" p1 "frees p ?Q" "allocs p ?Q" s]
    by (auto simp: w_def)
  from merge_wf [OF u q s ns _ b ne(2) e(5) w(1,2) this]
  have m: "merged s b b p p1" "wf_upto (H - {s}) w p1"
    "frees p1 (set (segqueue w)) = frees p ?Q - {s}" "allocs p1 (set (segqueue w)) = allocs p ?Q - {s}"
    by auto
  have "H - {s} = {}" using H by auto
  with m(2) have wf: "wf_vmem w p1" by (simp add: wf_upto_empty)
  have nx: "next_seg v s = Some b" "next_seg w b = first_of bs"
    using d next_of_split [of s as "b # bs"] next_of_split [of b as bs] by (auto simp: next_seg_def q w)
  then have "coalesce_right cl s (v, p) = (b, first_of bs, True, w, seg_free s p1)"
    using b by (simp add: coalesce_right_def ex Let_def w_def [symmetric])
  moreover have "free_segs p1 = free_segs p" "nfreesegs p1 = nfreesegs p" by (simp_all add: e(5))
  ultimately show ?thesis
    using m(1,3,4) wf w(1,3) by blast
qed

lemma alloc_unique:
  assumes wf: "wf_vmem v p" and i: "i \<in> allocs p (set (segqueue v))" and j: "j \<in> allocs p (set (segqueue v))"
    and eq: "seg_lo p i = seg_lo p j"
  shows "i = j"
proof (rule ccontr)
  assume "i \<noteq> j"
  moreover have "0 < seg_len p i" "0 < seg_len p j"
    using wf i j segs_ok_len_pos by (auto simp: wf_vmem_def allocs_def)
  ultimately show False
    using segs_disjoint [OF wf, of i j] i j eq by (auto simp: allocs_def is_span_def)
qed

lemma find_alloc:
  assumes wf: "wf_vmem v p" and i: "i \<in> allocs p (set (segqueue v))" and a: "addr = s_base (seg_of p i)"
  shows "find (\<lambda>s. s_base (seg_of p s) = addr) (hashtab v ! hashbucket_for_addr addr) = Some i"
proof -
  let ?ls = "hashtab v ! hashbucket_for_addr addr"
  have b: "set ?ls = {x \<in> allocs p (set (segqueue v)). hashbucket_for_addr (s_base (seg_of p x)) = hashbucket_for_addr addr}"
    using wf by (simp add: wf_vmem_def lists_ok_def indexed_def)
  then have "i \<in> set ?ls" using i a by simp
  then obtain j where j: "find (\<lambda>s. s_base (seg_of p s) = addr) ?ls = Some j"
    using a by (cases "find (\<lambda>s. s_base (seg_of p s) = addr) ?ls") (auto simp: find_None_iff)
  then have "j \<in> set ?ls" "s_base (seg_of p j) = addr" by (auto simp: find_Some_iff)
  then have "j = i" using alloc_unique [OF wf _ i] b a by (auto simp: seg_lo_def)
  with j show ?thesis by simp
qed

lemma xfree_tail:
  assumes "find (\<lambda>s. s_base (seg_of (pool st) s) = addr) (hashtab (arena st) ! hashbucket_for_addr addr) = Some i"
    and "coalesce_left i (seglist_remove i (arena st), pool st) = Some (s1, l, cl, v1, p1)"
    and "coalesce_right cl s1 (v1, p1) = (s2, rt, cr, v2, p2)"
    and "s_type (seg_of p2 l) \<noteq> kVMemSegSpanImported"
  shows "vmem_xfree e addr sz st = Some (sint (ucast (s_size (seg_of (pool st) i)) :: 32 word),
     if cl \<or> cr then st\<lparr>arena := v2, pool := p2\<rparr>
     else st\<lparr>arena := segqueue_remove s2 v2, pool := seg_free s2 p2\<rparr>)"
  using assms by (auto simp: vmem_xfree_def Let_def)

definition space_of :: "seg_pool \<Rightarrow> seg_ref set \<Rightarrow> nat set" where
  "space_of p F = (\<Union>i \<in> F. {seg_lo p i ..< seg_hi p i})"

lemma free_space_alt: "free_space v p = space_of p (frees p (set (segqueue v)))"
  by (simp add: free_space_def space_of_def)

lemma merged_space:
  assumes m: "merged x y z p p'" and t: "seg_hi p x = seg_lo p y"
    and zd: "z = x \<and> d = y \<or> z = y \<and> d = x" and z: "z \<in> F" "z \<noteq> d"
  shows "space_of p' (F - {d}) = space_of p F \<union> {seg_lo p d ..< seg_hi p d}"
proof -
  have o: "seg_lo p' j = seg_lo p j \<and> seg_len p' j = seg_len p j" if "j \<noteq> z" for j
    using m that by (simp add: merged_def seg_lo_def seg_len_def)
  have "space_of p' (F - {d}) = {seg_lo p' z ..< seg_hi p' z} \<union> space_of p' (F - {d} - {z})"
    using z by (auto simp: space_of_def)
  also have "space_of p' (F - {d} - {z}) = space_of p (F - {d} - {z})"
    unfolding space_of_def using o by (intro SUP_cong) auto
  also have "{seg_lo p' z ..< seg_hi p' z} = {seg_lo p z ..< seg_hi p z} \<union> {seg_lo p d ..< seg_hi p d}"
    using m t zd by (auto simp: merged_def)
  finally show ?thesis using z by (auto simp: space_of_def)
qed

lemma merged_alloc_image:
  assumes "merged x y z p p'" and "z \<notin> A"
  shows "(\<lambda>i. (seg_lo p' i, seg_len p' i)) ` A = (\<lambda>i. (seg_lo p i, seg_len p i)) ` A"
  using assms by (intro image_cong) (auto simp: merged_def seg_lo_def seg_len_def)

end
