(* ===== verification/Arena_Spec.thy ===== *)
theory Arena_Spec
  imports Prelude
begin

text \<open>
  What the users of an address-space arena (virtual memory maps, the kernel heap) rely on, as an
  interface: an arena hands out ranges from a fixed room and takes them back; the ranges in use
  are pairwise apart. A client that runs any sequence of requests and releases, and holds on to
  what it was given, is treated once and for all inside the interface.
\<close>

type_synonym range = "nat \<times> nat"

definition range_set :: "range \<Rightarrow> nat set" where
  "range_set r = {fst r ..< fst r + snd r}"

definition apart :: "range \<Rightarrow> range \<Rightarrow> bool" where
  "apart r s \<longleftrightarrow> range_set r \<inter> range_set s = {}"

datatype 'r arena_cmd = Take 'r | Give nat

text \<open>One command of a client that holds a list of ranges; giving back an index it does not hold
  is no command at all.\<close>

fun arena_step ::
  "('r \<Rightarrow> 's \<Rightarrow> (range option \<times> 's) option) \<Rightarrow> (range \<Rightarrow> 's \<Rightarrow> 's option) \<Rightarrow> 'r arena_cmd \<Rightarrow>
   range list \<times> 's \<Rightarrow> (range list \<times> 's) option" where
  "arena_step tk gv (Take r) (held, s) = (case tk r s of
     None \<Rightarrow> None
   | Some (None, s') \<Rightarrow> Some (held, s')
   | Some (Some x, s') \<Rightarrow> Some (x # held, s'))"
| "arena_step tk gv (Give k) (held, s) =
     (if k < length held
      then (case gv (held ! k) s of None \<Rightarrow> None | Some s' \<Rightarrow> Some (remove1 (held ! k) held, s'))
      else Some (held, s))"

fun arena_run ::
  "('r \<Rightarrow> 's \<Rightarrow> (range option \<times> 's) option) \<Rightarrow> (range \<Rightarrow> 's \<Rightarrow> 's option) \<Rightarrow> 'r arena_cmd list \<Rightarrow>
   range list \<times> 's \<Rightarrow> (range list \<times> 's) option" where
  "arena_run tk gv [] hs = Some hs"
| "arena_run tk gv (c # cs) hs = (case arena_step tk gv c hs of
     None \<Rightarrow> None | Some hs' \<Rightarrow> arena_run tk gv cs hs')"

text \<open>
  \<open>credit\<close> is what an arena has left to build its bookkeeping from: a request \<open>r\<close> that needs no
  more than there is returns, and uses up at most two units.
\<close>

locale interval_arena =
  fixes inv :: "'s \<Rightarrow> bool"
    and used :: "'s \<Rightarrow> range set"
    and room :: "'s \<Rightarrow> nat set"
    and credit :: "'s \<Rightarrow> nat"
    and need :: "'r \<Rightarrow> nat"
    and valid :: "'r \<Rightarrow> nat set \<Rightarrow> bool"
    and tk :: "'r \<Rightarrow> 's \<Rightarrow> (range option \<times> 's) option"
    and gv :: "range \<Rightarrow> 's \<Rightarrow> 's option"
  assumes used_apart: "inv s \<Longrightarrow> x \<in> used s \<Longrightarrow> y \<in> used s \<Longrightarrow> x \<noteq> y \<Longrightarrow> apart x y"
    and used_room: "inv s \<Longrightarrow> x \<in> used s \<Longrightarrow> range_set x \<subseteq> room s"
    and take_law: "inv s \<Longrightarrow> valid r (room s) \<Longrightarrow> need r \<le> credit s \<Longrightarrow>
      \<exists>res s'. tk r s = Some (res, s') \<and> inv s' \<and> room s' = room s \<and> credit s \<le> credit s' + 2 \<and>
        (case res of None \<Rightarrow> used s' = used s
                   | Some x \<Rightarrow> x \<notin> used s \<and> used s' = insert x (used s))"
    and give_law: "inv s \<Longrightarrow> x \<in> used s \<Longrightarrow>
      \<exists>s'. gv x s = Some s' \<and> inv s' \<and> room s' = room s \<and> credit s \<le> credit s' \<and> used s' = used s - {x}"
begin

definition held_ok :: "range list \<times> 's \<Rightarrow> bool" where
  "held_ok hs \<longleftrightarrow> inv (snd hs) \<and> distinct (fst hs) \<and> set (fst hs) \<subseteq> used (snd hs)"

definition cmd_ok :: "nat \<Rightarrow> nat set \<Rightarrow> 'r arena_cmd \<Rightarrow> bool" where
  "cmd_ok k R c \<longleftrightarrow> (\<forall>r. c = Take r \<longrightarrow> valid r R \<and> need r \<le> k)"

lemma step_ok:
  assumes "held_ok (held, s)" and "cmd_ok (credit s) (room s) c"
  shows "\<exists>held' s'. arena_step tk gv c (held, s) = Some (held', s') \<and> held_ok (held', s') \<and>
    room s' = room s \<and> credit s \<le> credit s' + 2"
proof (cases c)
  case (Take r)
  with assms obtain res s' where t: "tk r s = Some (res, s')" "inv s'" "room s' = room s" "credit s \<le> credit s' + 2"
    "case res of None \<Rightarrow> used s' = used s | Some x \<Rightarrow> x \<notin> used s \<and> used s' = insert x (used s)"
    using take_law [of s r] by (auto simp: held_ok_def cmd_ok_def)
  with Take assms show ?thesis
    by (cases res) (auto simp: held_ok_def)
next
  case (Give k)
  show ?thesis
  proof (cases "k < length held")
    case True
    then have "held ! k \<in> used s" using assms by (auto simp: held_ok_def)
    then obtain s' where g: "gv (held ! k) s = Some s'" "inv s'" "room s' = room s" "credit s \<le> credit s'"
      "used s' = used s - {held ! k}"
      using give_law [of s "held ! k"] assms by (auto simp: held_ok_def)
    with Give True assms show ?thesis by (auto simp: held_ok_def)
  next
    case False
    with Give assms show ?thesis by simp
  qed
qed

theorem client_ok:
  assumes "held_ok (held, s)" and "\<forall>c \<in> set cs. cmd_ok (credit s - 2 * length cs) (room s) c"
    and "2 * length cs \<le> credit s"
  shows "\<exists>held' s'. arena_run tk gv cs (held, s) = Some (held', s') \<and> held_ok (held', s') \<and> room s' = room s"
  using assms
proof (induction cs arbitrary: held s)
  case (Cons c cs)
  have "cmd_ok (credit s) (room s) c" using Cons.prems(2) by (auto simp: cmd_ok_def)
  then obtain held1 s1 where 1: "arena_step tk gv c (held, s) = Some (held1, s1)" "held_ok (held1, s1)"
    "room s1 = room s" "credit s \<le> credit s1 + 2"
    using step_ok [OF Cons.prems(1)] by blast
  have "\<forall>c \<in> set cs. cmd_ok (credit s1 - 2 * length cs) (room s1) c"
    using Cons.prems(2) 1(3,4) by (fastforce simp: cmd_ok_def)
  with Cons.IH [OF 1(2)] Cons.prems(3) 1 show ?case by auto
qed simp

theorem held_apart:
  assumes "held_ok (held, s)" and "j < length held" and "k < length held" and "j \<noteq> k"
  shows "apart (held ! j) (held ! k)" and "range_set (held ! j) \<subseteq> room s"
proof -
  have "held ! j \<noteq> held ! k" "held ! j \<in> used s" "held ! k \<in> used s"
    using assms nth_eq_iff_index_eq by (fastforce simp: held_ok_def)+
  then show "apart (held ! j) (held ! k)" "range_set (held ! j) \<subseteq> room s"
    using used_apart [of s "held ! j" "held ! k"] used_room [of s "held ! j"] assms(1)
    by (simp_all add: held_ok_def)
qed

end

end
