(* ===== verification/Vmem_Spec.thy ===== *)
theory Vmem_Spec
  imports Vmem_Inv Arena_Spec
begin

text \<open>
  What \<^verbatim>\<open>vmem_xalloc\<close> and \<^verbatim>\<open>vmem_xfree\<close> do as a whole, for an arena that imports from no other
  arena and a pool that needs no refill: the four ways a release can go, success or failure of an
  allocation decided by whether a free segment fits, the arena as an instance of the interval
  arena of \<open>Arena_Spec\<close>, and from that the guarantee every client has. The last part evaluates
  the model on two small arenas where the code does not do what it means to.
\<close>

subsection \<open>Releasing a segment\<close>

text \<open>The neighbours of a segment on the queue, and whether one is free.\<close>

definition free_at :: "seg_pool \<Rightarrow> seg_ref option \<Rightarrow> bool" where
  "free_at p s \<longleftrightarrow> (case s of None \<Rightarrow> False | Some j \<Rightarrow> s_type (seg_of p j) = kVMemSegFree)"

definition xfree_post :: "'x vst \<Rightarrow> seg_ref \<Rightarrow> 'x vst \<Rightarrow> bool" where
  "xfree_post st i st' \<longleftrightarrow> wf_vst st' \<and> ext st' = ext st \<and>
     vmem_attrs (arena st') = vmem_attrs (arena st) \<and> no_imported (arena st') (pool st') \<and>
     spans (arena st') (pool st') = spans (arena st) (pool st) \<and>
     length (free_segs (pool st)) \<le> length (free_segs (pool st')) \<and>
     alloc_ranges (arena st') (pool st') =
       alloc_ranges (arena st) (pool st) - {(seg_lo (pool st) i, seg_len (pool st) i)}"

lemma wf_upto_removed:
  assumes wf: "wf_vmem v p" and i: "\<not> is_span p i"
  shows "wf_upto {i} (seglist_remove i v) p"
proof -
  have "i \<notin> set (spanlist v)" using wf i by (auto simp: wf_vmem_def)
  then show ?thesis
    using wf lists_ok_seglist_remove [of v p _ _ i] by (auto simp: wf_vmem_def wf_upto_def remove1_idem)
qed

lemma alloc_ranges_minus:
  assumes wf: "wf_vmem v p" and i: "i \<in> allocs p (set (segqueue v))"
  shows "(\<lambda>j. (seg_lo p j, seg_len p j)) ` (allocs p (set (segqueue v)) - {i}) =
    alloc_ranges v p - {(seg_lo p i, seg_len p i)}"
  using alloc_unique [OF wf _ i] unfolding alloc_ranges_def by auto

text \<open>A segment has a predecessor, since the queue starts with a span marker.\<close>

lemma queue_predecessor:
  assumes wf: "wf_vmem v p" and i: "i \<in> set (segqueue v)" "\<not> is_span p i"
  obtains as a bs where "segqueue v = as @ a # i # bs"
proof -
  obtain cs bs where q: "segqueue v = cs @ i # bs" using i(1) by (auto simp: in_set_conv_decomp)
  have "cs \<noteq> []" using wf_head_span [OF wf] i(2) q by auto
  then obtain as a where "cs = as @ [a]" by (metis rev_exhaust)
  with q that show ?thesis by simp
qed

lemma xfree_postI:
  assumes wf: "wf_vst st" and ni: "no_imported (arena st) (pool st)" 
    and i: "i \<in> allocs (pool st) (set (segqueue (arena st)))"
    and wf': "wf_vmem v' p'" "vmem_attrs v' = vmem_attrs (arena st)"
    and Q: "set (segqueue v') \<subseteq> set (segqueue (arena st)) - set gone"
    and gone: "set gone \<subseteq> set (segqueue (arena st))" "distinct gone"
    and pl: "free_segs p' = gone @ free_segs (pool st)" "nfreesegs p' = nfreesegs (pool st) + int (length gone)"
    and A: "allocs p' (set (segqueue v')) = allocs (pool st) (set (segqueue (arena st))) - {i}"
    and img: "\<And>j. j \<in> allocs (pool st) (set (segqueue (arena st))) \<Longrightarrow> j \<noteq> i \<Longrightarrow>
       seg_lo p' j = seg_lo (pool st) j \<and> seg_len p' j = seg_len (pool st) j"
    and ty: "\<And>j. j \<in> set (segqueue v') \<Longrightarrow> s_type (seg_of p' j) = s_type (seg_of (pool st) j)"
    and sp: "filter (is_span (pool st)) (segqueue v') = filter (is_span (pool st)) (segqueue (arena st))"
      "\<And>j. is_span (pool st) j \<Longrightarrow> j \<in> set (segqueue (arena st)) \<Longrightarrow> seg_of p' j = seg_of (pool st) j"
  shows "xfree_post st i (st\<lparr>arena := v', pool := p'\<rparr>)"
proof -
  have "wf_pool v' p'"
    using wf Q gone pl by (auto simp: wf_pool_def)
  moreover have "alloc_ranges v' p' = alloc_ranges (arena st) (pool st) - {(seg_lo (pool st) i, seg_len (pool st) i)}"
  proof -
    have "alloc_ranges v' p' = (\<lambda>j. (seg_lo (pool st) j, seg_len (pool st) j)) `
        (allocs (pool st) (set (segqueue (arena st))) - {i})"
      unfolding alloc_ranges_def A using img by (intro image_cong) auto
    then show ?thesis using alloc_ranges_minus [OF conjunct1 [OF wf] i] by simp
  qed
  moreover have "no_imported v' p'" using ni Q ty by (auto simp: no_imported_def)
  moreover have "spans v' p' = spans (arena st) (pool st)"
    using ty by (intro spans_cong [OF conjunct1 [OF wf] wf'(1) _ sp]) (simp_all add: is_span_def)
  ultimately show ?thesis using wf' pl(1) by (simp add: xfree_post_def)
qed

lemma merged_same:
  "merged x y z p p' \<Longrightarrow> j \<noteq> z \<Longrightarrow> seg_of p' j = seg_of p j \<and> seg_lo p' j = seg_lo p j \<and> seg_len p' j = seg_len p j"
  by (simp add: merged_def seg_lo_def seg_len_def)

lemma span_diff:
  "merged x y z p p' \<Longrightarrow> s_type (seg_of p z) = kVMemSegFree \<Longrightarrow> is_span p j \<Longrightarrow> seg_of p' j = seg_of p j"
  using merged_same [of x y z p p' j] by (cases "j = z") (auto simp: is_span_def)

lemma allocsD: "j \<in> allocs p Q \<Longrightarrow> j \<in> Q \<and> s_type (seg_of p j) = kVMemSegAllocated \<and> \<not> is_span p j"
  by (auto simp: allocs_def is_span_def)

lemma coalesce_left_skip:
  assumes "distinct (segqueue v)" "segqueue v = as @ a # i # bs" "s_type (seg_of p a) \<noteq> kVMemSegFree"
  shows "coalesce_left i (v, p) = Some (i, a, False, v, p)"
  using assms prev_of_split [of i as a bs] by (auto simp: coalesce_left_def prev_seg_def)

lemma coalesce_right_skip:
  assumes "distinct (segqueue v)" "segqueue v = as @ i # bs" "\<not> free_at p (first_of bs)"
  shows "coalesce_right cl i (v, p) = (i, first_of bs, False, v, p)"
  using assms next_of_split [of i as bs]
  by (auto simp: coalesce_right_def next_seg_def free_at_def split: option.splits)

text \<open>The four cases of \<^verbatim>\<open>vmem_xfree\<close>: no free neighbour, a free one on the right, on the left, on
  both sides.\<close>

lemma xfree_none:
  assumes wf: "wf_vst st" and ni: "no_imported (arena st) (pool st)"
    and i: "i \<in> allocs (pool st) (set (segqueue (arena st)))"
    and q: "segqueue (arena st) = as @ a # i # bs"
    and a: "s_type (seg_of (pool st) a) \<noteq> kVMemSegFree" and b: "\<not> free_at (pool st) (first_of bs)"
  shows "\<exists>st'. vmem_xfree e (s_base (seg_of (pool st) i)) sz st =
      Some (sint (ucast (s_size (seg_of (pool st) i)) :: 32 word), st') \<and> xfree_post st i st' \<and>
      free_space (arena st') (pool st') = free_space (arena st) (pool st)"
proof -
  let ?p = "pool st" and ?v = "seglist_remove i (arena st)" and ?Q = "set (segqueue (arena st))"
  note iD = allocsD [OF i]
  have u: "wf_upto {i} ?v ?p" using wf iD by (simp add: wf_upto_removed)
  have d: "distinct (as @ a # i # bs)" using wf q by (simp add: wf_vmem_def)
  have L: "coalesce_left i (?v, ?p) = Some (i, a, False, ?v, ?p)"
    using coalesce_left_skip [of ?v as a i bs ?p] d q a by simp
  have R: "coalesce_right False i (?v, ?p) = (i, first_of bs, False, ?v, ?p)"
    using coalesce_right_skip [of ?v "as @ [a]" i bs ?p] d q b by simp
  have t: "s_type (seg_of ?p a) \<noteq> kVMemSegSpanImported" using ni q by (simp add: no_imported_def)
  let ?w = "segqueue_remove i ?v"
  have run: "vmem_xfree e (s_base (seg_of ?p i)) sz st =
      Some (sint (ucast (s_size (seg_of ?p i)) :: 32 word), st\<lparr>arena := ?w, pool := seg_free i ?p\<rparr>)"
    using xfree_tail [OF find_alloc [OF conjunct1 [OF wf] i refl] L R t, of e sz] by simp
  have w: "segqueue ?w = as @ a # bs" using d q by (auto simp: remove1_append)
  have Qw: "set (segqueue ?w) = ?Q - {i}" using d unfolding w q by auto
  have F: "frees ?p (set (segqueue ?w)) = frees ?p ?Q" "allocs ?p (set (segqueue ?w)) = allocs ?p ?Q - {i}"
    unfolding Qw using iD by (auto simp: frees_def allocs_def)
  have "segs_ok ?p 0 0 ((as @ [a]) @ bs)"
  proof -
    let ?w0 = "window ?p (0, 0) (as @ [a])"
    have ok: "segs_ok ?p 0 0 ((as @ [a]) @ i # bs)" using u q by (simp add: wf_upto_def)
    then have "segs_ok ?p (seg_hi ?p i) (snd ?w0) bs" "fst ?w0 \<le> seg_hi ?p i" "segs_ok ?p 0 0 (as @ [a])"
      using iD unfolding segs_ok_append [of _ _ _ "as @ [a]"] by auto
    then show ?thesis
      using segs_ok_lower unfolding segs_ok_append [of _ _ _ "as @ [a]"] by blast
  qed
  moreover have "spanlist ?w = filter (is_span ?p) (segqueue ?w)"
    using u iD unfolding w by (simp add: wf_upto_def q)
  moreover have "lists_ok ?w ?p (frees ?p (set (segqueue ?w))) (allocs ?p (set (segqueue ?w)))"
    unfolding F using u iD by (auto simp: wf_upto_def frees_def)
  moreover have "distinct (segqueue ?w)" using d w by simp
  ultimately have wf': "wf_vmem ?w ?p" using w by (simp add: wf_vmem_def)
  have "wf_vmem ?w (seg_free i ?p)"
    using wf' wf_vmem_pool_cong [of ?w ?p "seg_free i ?p"] by simp
  then have post: "xfree_post st i (st\<lparr>arena := ?w, pool := seg_free i ?p\<rparr>)"
  proof (rule xfree_postI [OF wf ni i, where gone = "[i]"])
    show "filter (is_span ?p) (segqueue ?w) = filter (is_span ?p) (segqueue (arena st))"
      unfolding w q using iD by simp
  qed (use F(2) Qw iD in auto)
  have "free_space ?w (seg_free i ?p) = free_space (arena st) ?p"
    unfolding free_space_def using F(1) by simp
  with post run show ?thesis by auto
qed

lemma xfree_right:
  assumes wf: "wf_vst st" and ni: "no_imported (arena st) (pool st)"
    and i: "i \<in> allocs (pool st) (set (segqueue (arena st)))"
    and q: "segqueue (arena st) = as @ a # i # b # bs"
    and a: "s_type (seg_of (pool st) a) \<noteq> kVMemSegFree" and b: "s_type (seg_of (pool st) b) = kVMemSegFree"
  shows "\<exists>st'. vmem_xfree e (s_base (seg_of (pool st) i)) sz st =
      Some (sint (ucast (s_size (seg_of (pool st) i)) :: 32 word), st') \<and> xfree_post st i st' \<and>
      (seg_hi (pool st) i = seg_lo (pool st) b \<longrightarrow> free_space (arena st') (pool st') =
         free_space (arena st) (pool st) \<union> {seg_lo (pool st) i ..< seg_hi (pool st) i})"
proof -
  let ?p = "pool st" and ?v = "seglist_remove i (arena st)" and ?Q = "set (segqueue (arena st))"
  note iD = allocsD [OF i]
  have u: "wf_upto {i} ?v ?p" using wf iD by (simp add: wf_upto_removed)
  have d: "distinct (as @ a # i # b # bs)" using wf q by (simp add: wf_vmem_def)
  have L: "coalesce_left i (?v, ?p) = Some (i, a, False, ?v, ?p)"
    using coalesce_left_skip [of ?v as a i "b # bs" ?p] d q a by simp
  have q1: "segqueue ?v = (as @ [a]) @ i # b # bs" using q by simp
  obtain v' p' rt where R: "coalesce_right False i (?v, ?p) = (b, rt, True, v', seg_free i p')"
    and r: "segqueue v' = (as @ [a]) @ b # bs" "merged i b b ?p p'" "wf_vmem v' p'"
      "frees p' (set (segqueue v')) = frees ?p ?Q - {i}" "allocs p' (set (segqueue v')) = allocs ?p ?Q - {i}"
      "free_segs p' = free_segs ?p" "nfreesegs p' = nfreesegs ?p" "vmem_attrs v' = vmem_attrs (arena st)"
    using coalesce_right_merge [OF u _ q1 b, of False] iD by auto
  have t: "s_type (seg_of (seg_free i p') a) \<noteq> kVMemSegSpanImported"
    using ni q d merged_same [OF r(2), of a] by (auto simp: no_imported_def)
  have run: "vmem_xfree e (s_base (seg_of ?p i)) sz st =
      Some (sint (ucast (s_size (seg_of ?p i)) :: 32 word), st\<lparr>arena := v', pool := seg_free i p'\<rparr>)"
    using xfree_tail [OF find_alloc [OF conjunct1 [OF wf] i refl] L R t, of e sz] by simp
  have Qw: "set (segqueue v') = ?Q - {i}" using d unfolding r(1) q by auto
  have nb: "b \<notin> allocs ?p ?Q" using b by (simp add: allocs_def)
  have ty: "s_type (seg_of p' j) = s_type (seg_of ?p j)" for j
    using merged_same [OF r(2), of j] r(2) b by (cases "j = b") (auto simp: merged_def)
  have "wf_vmem v' (seg_free i p')"
    using r(3) wf_vmem_pool_cong [of v' p' "seg_free i p'"] by simp
  moreover have "seg_lo p' j = seg_lo ?p j \<and> seg_len p' j = seg_len ?p j" if "j \<in> allocs ?p ?Q" for j
    using merged_same [OF r(2), of j] nb that by auto
  moreover have "filter (is_span ?p) (segqueue v') = filter (is_span ?p) (segqueue (arena st))"
    unfolding r(1) q using iD by simp
  ultimately have post: "xfree_post st i (st\<lparr>arena := v', pool := seg_free i p'\<rparr>)"
    using r(5-8) Qw iD ty span_diff [OF r(2) b]
    by (intro xfree_postI [OF wf ni i, where gone = "[i]"]) auto
  have "free_space v' (seg_free i p') = free_space (arena st) ?p \<union> {seg_lo ?p i ..< seg_hi ?p i}"
    if "seg_hi ?p i = seg_lo ?p b"
  proof -
    have "b \<in> frees ?p ?Q" "b \<noteq> i" using b q d by (auto simp: frees_def)
    then have "space_of p' (frees ?p ?Q - {i}) = space_of ?p (frees ?p ?Q) \<union> {seg_lo ?p i ..< seg_hi ?p i}"
      using merged_space [OF r(2) that, of i] by blast
    then show ?thesis using r(4) by (simp add: free_space_alt space_of_def)
  qed
  with post run show ?thesis by auto
qed

text \<open>A free left neighbour takes the freed range; it has a predecessor of its own.\<close>

lemma xfree_left_step:
  assumes wf: "wf_vst st" and ni: "no_imported (arena st) (pool st)"
    and i: "i \<in> allocs (pool st) (set (segqueue (arena st)))"
    and q: "segqueue (arena st) = as @ l # a # i # bs" and a: "s_type (seg_of (pool st) a) = kVMemSegFree"
  defines "Q \<equiv> set (segqueue (arena st))"
  shows "\<exists>v' p'. coalesce_left i (seglist_remove i (arena st), pool st) = Some (a, l, True, v', seg_free i p') \<and>
    segqueue v' = as @ l # a # bs \<and> merged a i a (pool st) p' \<and> wf_vmem v' p' \<and>
    frees p' (set (segqueue v')) = frees (pool st) Q \<and> allocs p' (set (segqueue v')) = allocs (pool st) Q - {i} \<and>
    free_segs p' = free_segs (pool st) \<and> nfreesegs p' = nfreesegs (pool st) \<and>
    vmem_attrs v' = vmem_attrs (arena st) \<and> (\<forall>j. s_type (seg_of p' j) = s_type (seg_of (pool st) j)) \<and>
    (\<forall>j. j \<noteq> a \<longrightarrow> seg_lo p' j = seg_lo (pool st) j \<and> seg_len p' j = seg_len (pool st) j) \<and>
    (seg_hi (pool st) a = seg_lo (pool st) i \<longrightarrow>
       space_of p' (frees (pool st) Q) = space_of (pool st) (frees (pool st) Q) \<union> {seg_lo (pool st) i ..< seg_hi (pool st) i})"
proof -
  let ?p = "pool st" and ?v = "seglist_remove i (arena st)"
  note iD = allocsD [OF i]
  have u: "wf_upto {i} ?v ?p" using wf iD by (simp add: wf_upto_removed)
  have q1: "segqueue ?v = as @ l # a # i # bs" using q by simp
  obtain v' p' where L: "coalesce_left i (?v, ?p) = Some (a, l, True, v', seg_free i p')"
    and r: "segqueue v' = as @ l # a # bs" "merged a i a ?p p'" "wf_vmem v' p'"
      "frees p' (set (segqueue v')) = frees ?p Q" "allocs p' (set (segqueue v')) = allocs ?p Q - {i}"
      "free_segs p' = free_segs ?p" "nfreesegs p' = nfreesegs ?p" "vmem_attrs v' = vmem_attrs (arena st)"
    using coalesce_left_merge [OF u q1 a] iD unfolding Q_def by auto
  have ty: "s_type (seg_of p' j) = s_type (seg_of ?p j)" for j
    using merged_same [OF r(2), of j] r(2) a by (cases "j = a") (auto simp: merged_def)
  have "frees ?p Q - {i} = frees ?p Q" using iD by (auto simp: frees_def)
  moreover have "a \<in> frees ?p Q" "a \<noteq> i" using a q iD by (auto simp: frees_def Q_def)
  ultimately have "seg_hi ?p a = seg_lo ?p i \<longrightarrow>
      space_of p' (frees ?p Q) = space_of ?p (frees ?p Q) \<union> {seg_lo ?p i ..< seg_hi ?p i}"
    using merged_space [OF r(2), of i "frees ?p Q"] by auto
  then show ?thesis
    using L r ty merged_same [OF r(2)] by (intro exI conjI) (assumption | blast)+
qed

lemma xfree_left:
  assumes wf: "wf_vst st" and ni: "no_imported (arena st) (pool st)"
    and i: "i \<in> allocs (pool st) (set (segqueue (arena st)))"
    and q: "segqueue (arena st) = as @ l # a # i # bs"
    and a: "s_type (seg_of (pool st) a) = kVMemSegFree" and b: "\<not> free_at (pool st) (first_of bs)"
  shows "\<exists>st'. vmem_xfree e (s_base (seg_of (pool st) i)) sz st =
      Some (sint (ucast (s_size (seg_of (pool st) i)) :: 32 word), st') \<and> xfree_post st i st' \<and>
      (seg_hi (pool st) a = seg_lo (pool st) i \<longrightarrow> free_space (arena st') (pool st') =
         free_space (arena st) (pool st) \<union> {seg_lo (pool st) i ..< seg_hi (pool st) i})"
proof -
  let ?p = "pool st" and ?Q = "set (segqueue (arena st))"
  have d: "distinct (as @ l # a # i # bs)" using wf q by (simp add: wf_vmem_def)
  obtain v' p' where L: "coalesce_left i (seglist_remove i (arena st), ?p) = Some (a, l, True, v', seg_free i p')"
    and r: "segqueue v' = as @ l # a # bs" "merged a i a ?p p'" "wf_vmem v' p'"
      "frees p' (set (segqueue v')) = frees ?p ?Q" "allocs p' (set (segqueue v')) = allocs ?p ?Q - {i}"
      "free_segs p' = free_segs ?p" "nfreesegs p' = nfreesegs ?p" "vmem_attrs v' = vmem_attrs (arena st)"
      "\<forall>j. s_type (seg_of p' j) = s_type (seg_of ?p j)"
      "\<forall>j. j \<noteq> a \<longrightarrow> seg_lo p' j = seg_lo ?p j \<and> seg_len p' j = seg_len ?p j"
      "seg_hi ?p a = seg_lo ?p i \<longrightarrow> space_of p' (frees ?p ?Q) = space_of ?p (frees ?p ?Q) \<union> {seg_lo ?p i ..< seg_hi ?p i}"
    using xfree_left_step [OF wf ni i q a] by blast
  have "\<not> free_at (seg_free i p') (first_of bs)" using b r(9) by (simp add: free_at_def split: option.splits)
  then have R: "coalesce_right True a (v', seg_free i p') = (a, first_of bs, False, v', seg_free i p')"
    using coalesce_right_skip [of v' "as @ [l]" a bs "seg_free i p'"] d r(1) by simp
  have t: "s_type (seg_of (seg_free i p') l) \<noteq> kVMemSegSpanImported"
    using ni q r(9) by (auto simp: no_imported_def)
  have run: "vmem_xfree e (s_base (seg_of ?p i)) sz st =
      Some (sint (ucast (s_size (seg_of ?p i)) :: 32 word), st\<lparr>arena := v', pool := seg_free i p'\<rparr>)"
    using xfree_tail [OF find_alloc [OF conjunct1 [OF wf] i refl] L R t, of e sz] by simp
  have "set (segqueue v') = ?Q - {i}" using d unfolding r(1) q by auto
  moreover have "a \<notin> allocs ?p ?Q" using a by (simp add: allocs_def)
  moreover have "wf_vmem v' (seg_free i p')"
    using r(3) wf_vmem_pool_cong [of v' p' "seg_free i p'"] by simp
  moreover have "filter (is_span ?p) (segqueue v') = filter (is_span ?p) (segqueue (arena st))"
    unfolding r(1) q using allocsD [OF i] by simp
  moreover have "seg_lo p' j = seg_lo ?p j \<and> seg_len p' j = seg_len ?p j" if "j \<in> allocs ?p ?Q" for j
  proof -
    have "j \<noteq> a" using a that by (auto simp: allocs_def)
    then show ?thesis using r(10) by simp
  qed
  ultimately have "xfree_post st i (st\<lparr>arena := v', pool := seg_free i p'\<rparr>)"
    using r(5-9) allocsD [OF i] span_diff [OF r(2) a]
    by (intro xfree_postI [OF wf ni i, where gone = "[i]"]) auto
  with run r(4,11) show ?thesis by (auto simp: free_space_alt space_of_def)
qed

lemma xfree_both:
  assumes wf: "wf_vst st" and ni: "no_imported (arena st) (pool st)"
    and i: "i \<in> allocs (pool st) (set (segqueue (arena st)))"
    and q: "segqueue (arena st) = as @ l # a # i # b # bs"
    and a: "s_type (seg_of (pool st) a) = kVMemSegFree" and b: "s_type (seg_of (pool st) b) = kVMemSegFree"
  shows "\<exists>st'. vmem_xfree e (s_base (seg_of (pool st) i)) sz st =
      Some (sint (ucast (s_size (seg_of (pool st) i)) :: 32 word), st') \<and> xfree_post st i st' \<and>
      (seg_hi (pool st) a = seg_lo (pool st) i \<and> seg_hi (pool st) i = seg_lo (pool st) b \<longrightarrow>
         free_space (arena st') (pool st') =
         free_space (arena st) (pool st) \<union> {seg_lo (pool st) i ..< seg_hi (pool st) i})"
proof -
  let ?p = "pool st" and ?Q = "set (segqueue (arena st))"
  have d: "distinct (as @ l # a # i # b # bs)" using wf q by (simp add: wf_vmem_def)
  obtain v1 p1 where L: "coalesce_left i (seglist_remove i (arena st), ?p) = Some (a, l, True, v1, seg_free i p1)"
    and r1: "segqueue v1 = as @ l # a # b # bs" "merged a i a ?p p1" "wf_vmem v1 p1"
      "frees p1 (set (segqueue v1)) = frees ?p ?Q" "allocs p1 (set (segqueue v1)) = allocs ?p ?Q - {i}"
      "free_segs p1 = free_segs ?p" "nfreesegs p1 = nfreesegs ?p" "vmem_attrs v1 = vmem_attrs (arena st)"
      "\<forall>j. s_type (seg_of p1 j) = s_type (seg_of ?p j)"
      "\<forall>j. j \<noteq> a \<longrightarrow> seg_lo p1 j = seg_lo ?p j \<and> seg_len p1 j = seg_len ?p j"
      "seg_hi ?p a = seg_lo ?p i \<longrightarrow> space_of p1 (frees ?p ?Q) = space_of ?p (frees ?p ?Q) \<union> {seg_lo ?p i ..< seg_hi ?p i}"
    using xfree_left_step [OF wf ni i q a] by blast
  let ?p1 = "seg_free i p1"
  have ab: "s_type (seg_of ?p1 a) = kVMemSegFree" "s_type (seg_of ?p1 b) = kVMemSegFree" "\<not> is_span ?p1 a"
    using a b r1(9) by (auto simp: is_span_def)
  have q1: "segqueue v1 = (as @ [l]) @ a # b # bs" using r1(1) by simp
  have u: "wf_upto {} v1 ?p1" using r1(3) by (simp add: wf_upto_empty)
  obtain v2 p2 rt where R: "coalesce_right True a (v1, ?p1) = (b, rt, True, v2, seg_free a p2)"
    and r2: "segqueue v2 = (as @ [l]) @ b # bs" "merged a b b ?p1 p2" "wf_vmem v2 p2"
      "frees p2 (set (segqueue v2)) = frees ?p ?Q - {a}" "allocs p2 (set (segqueue v2)) = allocs ?p ?Q - {i} - {a}"
      "free_segs p2 = i # free_segs ?p" "nfreesegs p2 = nfreesegs ?p + 1" "vmem_attrs v2 = vmem_attrs (arena st)"
    using coalesce_right_merge [OF u _ q1 ab(2,3), of True] ab(1) r1 by auto
  have ty: "s_type (seg_of p2 j) = s_type (seg_of ?p j)" for j
    using merged_same [OF r2(2), of j] r2(2) b r1(9) by (cases "j = b") (auto simp: merged_def)
  have t: "s_type (seg_of (seg_free a p2) l) \<noteq> kVMemSegSpanImported"
    using ni q ty by (auto simp: no_imported_def)
  have run: "vmem_xfree e (s_base (seg_of ?p i)) sz st =
      Some (sint (ucast (s_size (seg_of ?p i)) :: 32 word), st\<lparr>arena := v2, pool := seg_free a p2\<rparr>)"
    using xfree_tail [OF find_alloc [OF conjunct1 [OF wf] i refl] L R t, of e sz] by simp
  have "set (segqueue v2) = ?Q - set [a, i]" using d unfolding r2(1) q by auto
  moreover have nA: "a \<notin> allocs ?p ?Q" "b \<notin> allocs ?p ?Q" using a b by (simp_all add: allocs_def)
  moreover have "wf_vmem v2 (seg_free a p2)"
    using r2(3) wf_vmem_pool_cong [of v2 p2 "seg_free a p2"] by simp
  moreover have "seg_lo p2 j = seg_lo ?p j \<and> seg_len p2 j = seg_len ?p j" if "j \<in> allocs ?p ?Q" for j
  proof -
    have "j \<noteq> a" "j \<noteq> b" using nA that by auto
    then show ?thesis using merged_same [OF r2(2), of j] r1(10) by simp
  qed
  moreover have sp: "seg_of p2 j = seg_of ?p j" if "is_span ?p j" for j
    using span_diff [OF r1(2) a that] merged_same [OF r2(2), of j] b that
    by (cases "j = b") (auto simp: is_span_def)
  moreover have "set [a, i] \<subseteq> ?Q" "distinct [a, i]" using q d by auto
  moreover have "filter (is_span ?p) (segqueue v2) = filter (is_span ?p) (segqueue (arena st))"
    unfolding r2(1) q using allocsD [OF i] a by (simp add: is_span_def)
  ultimately have post: "xfree_post st i (st\<lparr>arena := v2, pool := seg_free a p2\<rparr>)"
    using r2(5-8) ty by (intro xfree_postI [OF wf ni i, where gone = "[a, i]"]) auto
  have "free_space v2 (seg_free a p2) = free_space (arena st) ?p \<union> {seg_lo ?p i ..< seg_hi ?p i}"
    if t: "seg_hi ?p a = seg_lo ?p i" "seg_hi ?p i = seg_lo ?p b"
  proof -
    have "a \<noteq> b" and aF: "a \<in> frees ?p ?Q" and "b \<in> frees ?p ?Q" using a b q d by (auto simp: frees_def)
    moreover have "seg_hi ?p1 a = seg_lo ?p1 b"
      using r1(2,10) t \<open>a \<noteq> b\<close> by (auto simp: merged_def)
    ultimately have "space_of p2 (frees ?p ?Q - {a}) = space_of ?p1 (frees ?p ?Q) \<union> {seg_lo ?p1 a ..< seg_hi ?p1 a}"
      using merged_space [OF r2(2), of a "frees ?p ?Q"] by auto
    also have "\<dots> = space_of p1 (frees ?p ?Q)" using aF by (auto simp: space_of_def)
    finally show ?thesis using r1(11) t r2(4) by (simp add: free_space_alt space_of_def)
  qed
  with post run show ?thesis by auto
qed

text \<open>The free neighbours of a segment border on it.\<close>

definition borders :: "vmem \<Rightarrow> seg_pool \<Rightarrow> seg_ref \<Rightarrow> bool" where
  "borders v p i \<longleftrightarrow>
     (\<forall>a. prev_seg v i = Some a \<longrightarrow> s_type (seg_of p a) = kVMemSegFree \<longrightarrow> seg_hi p a = seg_lo p i) \<and>
     (\<forall>b. next_seg v i = Some b \<longrightarrow> s_type (seg_of p b) = kVMemSegFree \<longrightarrow> seg_hi p i = seg_lo p b)"

definition free_neighbour :: "vmem \<Rightarrow> seg_pool \<Rightarrow> seg_ref \<Rightarrow> bool" where
  "free_neighbour v p i \<longleftrightarrow> free_at p (prev_seg v i) \<or> free_at p (next_seg v i)"

lemma vmem_xfree_cases:
  assumes wf: "wf_vst st" and ni: "no_imported (arena st) (pool st)"
    and i: "i \<in> allocs (pool st) (set (segqueue (arena st)))"
  shows "\<exists>st'. vmem_xfree e (s_base (seg_of (pool st) i)) sz st =
      Some (sint (ucast (s_size (seg_of (pool st) i)) :: 32 word), st') \<and> xfree_post st i st' \<and>
      (\<not> free_neighbour (arena st) (pool st) i \<longrightarrow>
         free_space (arena st') (pool st') = free_space (arena st) (pool st)) \<and>
      (free_neighbour (arena st) (pool st) i \<longrightarrow> borders (arena st) (pool st) i \<longrightarrow>
         free_space (arena st') (pool st') =
           free_space (arena st) (pool st) \<union> {seg_lo (pool st) i ..< seg_hi (pool st) i})"
proof -
  let ?v = "arena st" and ?p = "pool st"
  note iD = allocsD [OF i]
  obtain as a bs where q: "segqueue ?v = as @ a # i # bs"
    using queue_predecessor [OF conjunct1 [OF wf]] iD by blast
  have d: "distinct (as @ a # i # bs)" using wf q by (simp add: wf_vmem_def)
  have nb: "prev_seg ?v i = Some a" "next_seg ?v i = first_of bs"
    using d prev_of_split [of i as a bs] next_of_split [of i "as @ [a]" bs]
    by (auto simp: prev_seg_def next_seg_def q)
  have left: thesis if "s_type (seg_of ?p a) = kVMemSegFree"
      and "\<And>cs l. segqueue ?v = cs @ l # a # i # bs \<Longrightarrow> thesis" for thesis
  proof -
    have "as \<noteq> []" using wf_head_span [of ?v ?p] wf q that(1) by (auto simp: is_span_def)
    then obtain cs l where "as = cs @ [l]" by (metis rev_exhaust)
    with q that(2) show thesis by simp
  qed
  show ?thesis
  proof (cases "s_type (seg_of ?p a) = kVMemSegFree"; cases "free_at ?p (first_of bs)")
    assume a: "s_type (seg_of ?p a) = kVMemSegFree" and b: "free_at ?p (first_of bs)"
    then obtain b bs' where bs: "bs = b # bs'" "s_type (seg_of ?p b) = kVMemSegFree"
      by (cases bs) (auto simp: free_at_def)
    obtain cs l where "segqueue ?v = cs @ l # a # i # bs" using left [OF a] by blast
    from xfree_both [OF wf ni i this [unfolded bs] a bs(2), of e sz] show ?thesis
      using nb bs a by (auto simp: free_neighbour_def borders_def free_at_def)
  next
    assume a: "s_type (seg_of ?p a) = kVMemSegFree" and b: "\<not> free_at ?p (first_of bs)"
    obtain cs l where "segqueue ?v = cs @ l # a # i # bs" using left [OF a] by blast
    from xfree_left [OF wf ni i this a b, of e sz] show ?thesis
      using nb a by (auto simp: free_neighbour_def borders_def free_at_def)
  next
    assume a: "s_type (seg_of ?p a) \<noteq> kVMemSegFree" and b: "free_at ?p (first_of bs)"
    then obtain b bs' where bs: "bs = b # bs'" "s_type (seg_of ?p b) = kVMemSegFree"
      by (cases bs) (auto simp: free_at_def)
    from xfree_right [OF wf ni i q [unfolded bs] a bs(2), of e sz] show ?thesis
      using nb bs a by (auto simp: free_neighbour_def borders_def free_at_def)
  next
    assume a: "s_type (seg_of ?p a) \<noteq> kVMemSegFree" and b: "\<not> free_at ?p (first_of bs)"
    from xfree_none [OF wf ni i q a b, of e sz] show ?thesis
      using nb a b by (auto simp: free_neighbour_def free_at_def)
  qed
qed

subsection \<open>Allocation from a pool that needs no refill\<close>

definition segs_needed :: "u32 \<Rightarrow> nat" where
  "segs_needed flags = (if flags AND kVMemBootstrap = 0 then 128 else 2)"

lemma vmem_xalloc_no_refill:
  assumes "wf_vst st" and "segs_needed flags \<le> length (free_segs (pool st))" and "n \<noteq> 0"
    and "vmin = 0 \<or> flags AND kVMemExact \<noteq> 0"
  shows "vmem_xalloc e n 0 0 nocross vmin 0 flags st = xalloc_body e n vmin flags st"
    and "\<exists>l r rest. free_segs (pool st) = l # r # rest"
proof -
  show "vmem_xalloc e n 0 0 nocross vmin 0 flags st = xalloc_body e n vmin flags st"
    using assms by (auto simp: vmem_xalloc_def seg_refill_def segs_needed_def wf_pool_def)
  have "2 \<le> length (free_segs (pool st))" using assms(2) by (auto simp: segs_needed_def split: if_splits)
  then show "\<exists>l r rest. free_segs (pool st) = l # r # rest"
    by (cases "free_segs (pool st)"; cases "tl (free_segs (pool st))") auto
qed

lemma vmem_xalloc_cases:
  assumes wf: "wf_vst st" and none: "v_allocfn (arena st) = None"
    and segs: "segs_needed flags \<le> length (free_segs (pool st))" and n: "n \<noteq> 0"
    and m: "vmin = 0 \<or> flags AND kVMemExact \<noteq> 0" and nw: "no_wrap (arena st) (pool st) n vmin"
  shows "(\<exists>a st'. vmem_xalloc e n 0 0 nocross vmin 0 flags st = Some ((0, Some a), st') \<and>
            (\<exists>i \<in> frees (pool st) (set (segqueue (arena st))). fits (pool st) n vmin flags i) \<and>
            xalloc_ok n vmin flags st a st') \<or>
         vmem_xalloc e n 0 0 nocross vmin 0 flags st =
            Some ((- ERESOURCEEXHAUSTED, None), st\<lparr>pool := prealloc (pool st)\<rparr>) \<and>
         (\<forall>i \<in> frees (pool st) (set (segqueue (arena st))). \<not> fits (pool st) n vmin flags i)"
proof -
  obtain l r rest where fs: "free_segs (pool st) = l # r # rest"
    using vmem_xalloc_no_refill(2) [OF wf segs n m] by blast
  note run = vmem_xalloc_no_refill(1) [OF wf segs n m]
  let ?s = "fit_in_lists (pool st) n vmin flags (drop (freelist n) (freelists (arena st)))"
  show ?thesis
  proof (cases ?s)
    case None
    then show ?thesis
      using xalloc_body_fail [OF wf fs none None] search_None [OF conjunct1 [OF wf] n m None] run by simp
  next
    case (Some ia)
    obtain i a where "?s = Some (i, a)" using Some by (cases ia) auto
    then have "i \<in> frees (pool st) (set (segqueue (arena st)))" "fits (pool st) n vmin flags i"
      "\<exists>st'. xalloc_body e n vmin flags st = Some ((0, Some a), st') \<and> xalloc_ok n vmin flags st a st'"
      using xalloc_body_success [OF wf fs n m nw] search_Some [OF conjunct1 [OF wf] nw m] by blast+
    then show ?thesis unfolding run by blast
  qed
qed

lemma prealloc_post:
  assumes "wf_vst st" and "free_segs (pool st) = l # r # rest"
  shows "wf_vst (st\<lparr>pool := prealloc (pool st)\<rparr>)"
    "alloc_ranges (arena st) (prealloc (pool st)) = alloc_ranges (arena st) (pool st)"
    "free_space (arena st) (prealloc (pool st)) = free_space (arena st) (pool st)"
    "spans (arena st) (prealloc (pool st)) = spans (arena st) (pool st)"
    "no_imported (arena st) (prealloc (pool st)) = no_imported (arena st) (pool st)"
    "length (free_segs (pool st)) = length (free_segs (prealloc (pool st))) + 2"
  using prealloc_wf [OF conjunct1 [OF assms(1)] conjunct2 [OF assms(1)] assms(2)] assms(2)
  by (simp_all add: prealloc_def spans_def no_imported_def seg_lo_def seg_len_def)

subsection \<open>An arena as an interval arena\<close>

definition arena_room :: "'x vst \<Rightarrow> nat set" where
  "arena_room st = (\<Union>x \<in> set (spans (arena st) (pool st)). range_set x)"

definition arena_inv :: "'x vst \<Rightarrow> bool" where
  "arena_inv st \<longleftrightarrow> wf_vst st \<and> v_allocfn (arena st) = None \<and> no_imported (arena st) (pool st)"

type_synonym vmem_request = "u64 \<times> u64 \<times> u32"

definition request_valid :: "vmem_request \<Rightarrow> nat set \<Rightarrow> bool" where
  "request_valid = (\<lambda>(n, vmin, flags) R. n \<noteq> 0 \<and> (vmin = 0 \<or> flags AND kVMemExact \<noteq> 0) \<and>
     unat vmin + unat n < W64 \<and> (\<forall>x \<in> R. x + unat n < W64))"

definition vmem_take :: "'x vmem_env \<Rightarrow> vmem_request \<Rightarrow> 'x vst \<Rightarrow> (range option \<times> 'x vst) option" where
  "vmem_take e = (\<lambda>(n, vmin, flags) st. do {
     ((r, a), st') \<leftarrow> vmem_xalloc e n 0 0 0 vmin 0 flags st;
     Some (map_option (\<lambda>a. (unat a, unat n)) a, st')
   })"

definition vmem_give :: "'x vmem_env \<Rightarrow> range \<Rightarrow> 'x vst \<Rightarrow> 'x vst option" where
  "vmem_give e = (\<lambda>(a, n) st. do {
     (r, st') \<leftarrow> vmem_xfree e (of_nat a) (of_nat n) st;
     Some st'
   })"

lemma seg_in_span:
  assumes wf: "wf_vmem v p" and i: "i \<in> set (segqueue v)" "\<not> is_span p i"
  shows "{seg_lo p i ..< seg_hi p i} \<subseteq> (\<Union>x \<in> set (spans v p). range_set x)"
proof -
  have "0 < seg_len p i" "segs_ok p 0 0 (segqueue v)" using wf i segs_ok_len_pos by (auto simp: wf_vmem_def)
  with seg_in_window [of p 0 0 "segqueue v" i] i obtain s
    where "s \<in> set (segqueue v)" "is_span p s" "seg_lo p s \<le> seg_lo p i" "seg_hi p i \<le> seg_hi p s" by auto
  moreover from this have "(seg_lo p s, seg_len p s) \<in> set (spans v p)" using wf by (auto simp: spans_def wf_vmem_def)
  ultimately show ?thesis by (force simp: range_set_def)
qed

lemma alloc_ranges_apart:
  assumes wf: "wf_vmem v p" and "x \<in> alloc_ranges v p" "y \<in> alloc_ranges v p" "x \<noteq> y"
  shows "apart x y"
proof -
  obtain i j where i: "i \<in> allocs p (set (segqueue v))" "x = (seg_lo p i, seg_len p i)"
    and j: "j \<in> allocs p (set (segqueue v))" "y = (seg_lo p j, seg_len p j)"
    using assms by (auto simp: alloc_ranges_def)
  have "i \<noteq> j" using assms(4) i j by auto
  then show ?thesis
    using segs_disjoint [OF wf, of i j] allocsD [OF i(1)] allocsD [OF j(1)] i(2) j(2)
    by (auto simp: apart_def range_set_def)
qed

lemma arena_no_wrap:
  assumes wf: "wf_vmem v p" and v: "unat vmin + unat n < W64"
    and R: "\<forall>x \<in> (\<Union>x \<in> set (spans v p). range_set x). x + unat n < W64"
  shows "no_wrap v p n vmin"
  unfolding no_wrap_def
proof (intro conjI ballI)
  fix i assume i: "i \<in> set (segqueue v)"
  then have len: "0 < seg_len p i" using wf segs_ok_len_pos by (auto simp: wf_vmem_def)
  have "seg_lo p i \<in> (\<Union>x \<in> set (spans v p). range_set x)"
  proof (cases "is_span p i")
    case True
    then have "(seg_lo p i, seg_len p i) \<in> set (spans v p)" using i wf by (auto simp: spans_def wf_vmem_def)
    then show ?thesis using len by (force simp: range_set_def)
  next
    case False
    have "seg_lo p i \<in> {seg_lo p i ..< seg_hi p i}" using len by simp
    then show ?thesis using seg_in_span [OF wf i False] by (rule subsetD [rotated])
  qed
  with R show "seg_lo p i + unat n < W64" by blast
  show "seg_hi p i < W64" by (rule wf_vmem_seg_bound [OF wf i])
qed (rule v)

lemma new_range_unused:
  assumes "wf_vmem v p" and "{a ..< a + n} \<subseteq> free_space v p" and "0 < n"
  shows "(a, n) \<notin> alloc_ranges v p"
  using free_space_alloc_disjoint [OF assms(1), of a n] assms(2,3) by fastforce

lemma vmem_take_law:
  assumes inv: "arena_inv st" and ok: "request_valid r (arena_room st)"
    and need: "segs_needed (snd (snd r)) \<le> length (free_segs (pool st))"
  shows "\<exists>res st'. vmem_take e r st = Some (res, st') \<and> arena_inv st' \<and> arena_room st' = arena_room st \<and>
    length (free_segs (pool st)) \<le> length (free_segs (pool st')) + 2 \<and>
    (case res of None \<Rightarrow> alloc_ranges (arena st') (pool st') = alloc_ranges (arena st) (pool st)
     | Some x \<Rightarrow> x \<notin> alloc_ranges (arena st) (pool st) \<and>
         alloc_ranges (arena st') (pool st') = insert x (alloc_ranges (arena st) (pool st)))"
proof -
  obtain n vmin flags where r: "r = (n, vmin, flags)" by (cases r) auto
  have wf: "wf_vst st" and none: "v_allocfn (arena st) = None" and ni: "no_imported (arena st) (pool st)"
    using inv by (auto simp: arena_inv_def)
  have n: "n \<noteq> 0" and m: "vmin = 0 \<or> flags AND kVMemExact \<noteq> 0" and nw: "no_wrap (arena st) (pool st) n vmin"
    using ok wf by (auto simp: r request_valid_def arena_room_def intro!: arena_no_wrap)
  have need: "segs_needed flags \<le> length (free_segs (pool st))" using need r by simp
  obtain l s rest where fs: "free_segs (pool st) = l # s # rest"
    using vmem_xalloc_no_refill(2) [OF wf need n m] by blast
  consider a st' where "vmem_xalloc e n 0 0 0 vmin 0 flags st = Some ((0, Some a), st')" "xalloc_ok n vmin flags st a st'"
    | "vmem_xalloc e n 0 0 0 vmin 0 flags st = Some ((- ERESOURCEEXHAUSTED, None), st\<lparr>pool := prealloc (pool st)\<rparr>)"
    using vmem_xalloc_cases [OF wf none need n m nw, of e 0] by blast
  then show ?thesis
  proof cases
    case 1
    moreover have "(unat a, unat n) \<notin> alloc_ranges (arena st) (pool st)"
      using 1(2) wf n by (intro new_range_unused) (auto simp: xalloc_ok_def unat_gt_0)
    moreover have "v_allocfn (arena st') = None" using 1(2) none by (auto simp: xalloc_ok_def vmem_attrs_def)
    ultimately show ?thesis using ni
      by (auto simp: vmem_take_def r xalloc_ok_def arena_inv_def arena_room_def)
  next
    case 2
    then show ?thesis
      using prealloc_post [OF wf fs] none ni by (auto simp: vmem_take_def r arena_inv_def arena_room_def)
  qed
qed

lemma vmem_give_law:
  assumes inv: "arena_inv st" and x: "x \<in> alloc_ranges (arena st) (pool st)"
  shows "\<exists>st'. vmem_give e x st = Some st' \<and> arena_inv st' \<and> arena_room st' = arena_room st \<and>
    length (free_segs (pool st)) \<le> length (free_segs (pool st')) \<and>
    alloc_ranges (arena st') (pool st') = alloc_ranges (arena st) (pool st) - {x}"
proof -
  obtain i where i: "i \<in> allocs (pool st) (set (segqueue (arena st)))" "x = (seg_lo (pool st) i, seg_len (pool st) i)"
    using x by (auto simp: alloc_ranges_def)
  have wf: "wf_vst st" "no_imported (arena st) (pool st)" using inv by (auto simp: arena_inv_def)
  obtain st' where run: "vmem_xfree e (s_base (seg_of (pool st) i)) (s_size (seg_of (pool st) i)) st =
      Some (sint (ucast (s_size (seg_of (pool st) i)) :: 32 word), st')" and post: "xfree_post st i st'"
    using vmem_xfree_cases [OF wf i(1)] by blast
  have "v_allocfn (arena st') = None" using post inv by (auto simp: xfree_post_def arena_inv_def vmem_attrs_def)
  with run post i(2) show ?thesis
    by (simp add: vmem_give_def seg_lo_def seg_len_def xfree_post_def arena_inv_def arena_room_def)
qed

lemma alloc_ranges_room:
  assumes "arena_inv s" and "x \<in> alloc_ranges (arena s) (pool s)"
  shows "range_set x \<subseteq> arena_room s"
proof -
  obtain i where i: "i \<in> allocs (pool s) (set (segqueue (arena s)))" "x = (seg_lo (pool s) i, seg_len (pool s) i)"
    using assms(2) by (auto simp: alloc_ranges_def)
  have "{seg_lo (pool s) i ..< seg_hi (pool s) i} \<subseteq> arena_room s"
    using seg_in_span [of "arena s" "pool s" i] allocsD [OF i(1)] assms(1)
    by (simp add: arena_inv_def arena_room_def)
  then show ?thesis by (simp add: i(2) range_set_def)
qed

interpretation va: interval_arena
  arena_inv "\<lambda>st. alloc_ranges (arena st) (pool st)" arena_room "\<lambda>st. length (free_segs (pool st))"
  "\<lambda>r. segs_needed (snd (snd r))" request_valid "vmem_take e" "vmem_give e"
  for e :: "'x vmem_env"
proof (unfold_locales, goal_cases)
  case (1 s x y)
  then show ?case by (intro alloc_ranges_apart [of "arena s" "pool s"]) (auto simp: arena_inv_def)
next
  case (2 s x)
  then show ?case by (rule alloc_ranges_room)
next
  case (3 s r)
  then show ?case by (rule vmem_take_law)
next
  case (4 s x)
  then show ?case by (rule vmem_give_law)
qed

subsection \<open>Properties\<close>

lemma earlyinit_pool:
  "free_segs (vmem_earlyinit p) = rev (map StaticSeg [0..<128]) @ free_segs p \<and>
   nfreesegs (vmem_earlyinit p) = nfreesegs p + 128 \<and> pool_segs (vmem_earlyinit p) = pool_segs p"
proof -
  have "free_segs (fold (\<lambda>i. seg_free (StaticSeg i)) [0..<n] p) = rev (map StaticSeg [0..<n]) @ free_segs p \<and>
    nfreesegs (fold (\<lambda>i. seg_free (StaticSeg i)) [0..<n] p) = nfreesegs p + int n \<and>
    pool_segs (fold (\<lambda>i. seg_free (StaticSeg i)) [0..<n] p) = pool_segs p" for n
    by (induction n) auto
  from this [of 128] show ?thesis unfolding vmem_earlyinit_def by simp
qed

text \<open>A kernel that has only run \<^verbatim>\<open>vmem_earlyinit\<close>, with an arena built by \<^verbatim>\<open>vmem_init\<close>.\<close>

definition blank_pool :: seg_pool where
  "blank_pool = \<lparr>pool_segs = (\<lambda>_. zeroed_seg), free_segs = [], nfreesegs = 0\<rparr>"

definition blank_arena :: vmem where
  "blank_arena = \<lparr>v_name = [], v_base = 0, v_size = 0, v_quantum = 0, v_flags = 0, v_allocfn = None,
     v_freefn = None, v_source = None, segqueue = [], freelists = [], hashtab = [], spanlist = []\<rparr>"

definition boot_vst :: "unit vst" where
  "boot_vst = \<lparr>arena = blank_arena, pool = vmem_earlyinit blank_pool, ext = ()\<rparr>"

definition no_env :: "'x vmem_env" where
  "no_env = \<lparr>env_kalloc = (\<lambda>_ _ _. None), env_alloc = (\<lambda>_ _ _ _. None), env_free = (\<lambda>_ _ _ _. None)\<rparr>"

definition three_pages :: "unit vst" where
  "three_pages = the (vmem_init ''map'' 0x1000 0x3000 0x1000 None None None 0 boot_vst)"

lemma boot_free_segs:
  "free_segs (pool boot_vst) = rev (map StaticSeg [0..<128])" "nfreesegs (pool boot_vst) = 128"
  using earlyinit_pool [of blank_pool] by (simp_all add: boot_vst_def blank_pool_def)

lemma boot_pool_ok:
  "distinct (free_segs (pool boot_vst))"
  "nfreesegs (pool boot_vst) = int (length (free_segs (pool boot_vst)))"
  by (simp_all only: boot_free_segs) (simp_all add: distinct_map inj_on_def)

lemma boot_two_segs:
  "free_segs (pool boot_vst) = StaticSeg 127 # StaticSeg 126 # rev (map StaticSeg [0..<126])"
proof -
  have "[0..<128] = [0..<126] @ [126, 127]"
    using upt_Suc [of 0 126] upt_Suc [of 0 127] by simp
  then show ?thesis unfolding boot_free_segs by simp
qed

lemma three_pages_ok:
  "wf_vst three_pages \<and> vmem_attrs (arena three_pages) = (None, None, None) \<and>
   alloc_ranges (arena three_pages) (pool three_pages) = {} \<and>
   free_space (arena three_pages) (pool three_pages) = {0x1000 ..< 0x4000} \<and>
   set (spans (arena three_pages) (pool three_pages)) = {(0x1000, 0x3000)} \<and>
   no_imported (arena three_pages) (pool three_pages)"
  using vmem_init_ok [OF boot_pool_ok _ _ boot_two_segs, of "0x3000" "0x1000" "''map''" "0x1000" 0]
  unfolding three_pages_def by auto

text \<open>(C4) vmem_init with a nonempty span that does not wrap returns a well-formed arena
  whose free space is exactly that span and in which nothing is allocated.\<close>

theorem vmem_init_correct:
  assumes "distinct (free_segs (pool st))" and "nfreesegs (pool st) = int (length (free_segs (pool st)))"
    and "2 \<le> length (free_segs (pool st))" and "n \<noteq> 0" and "unat b + unat n < 2 ^ 64"
  shows "\<exists>st'. vmem_init name b n quantum None None None flags st = Some st' \<and> wf_vst st' \<and>
    ext st' = ext st \<and> alloc_ranges (arena st') (pool st') = {} \<and>
    free_space (arena st') (pool st') = {unat b ..< unat b + unat n} \<and>
    set (spans (arena st') (pool st')) = {(unat b, unat n)}"
proof -
  obtain s f rest where "free_segs (pool st) = s # f # rest"
    using assms(3) by (cases "free_segs (pool st)"; cases "tl (free_segs (pool st))") auto
  from vmem_init_ok [OF assms(1,2) _ _ this, of n b name quantum flags] assms(4,5)
  show ?thesis by (auto simp: unat_gt_0)
qed

theorem vmem_init_correct_witness:
  "\<exists>st'. vmem_init ''map'' 0x1000 0x3000 0x1000 None None None 0 boot_vst = Some st' \<and> wf_vst st' \<and>
    alloc_ranges (arena st') (pool st') = {} \<and> free_space (arena st') (pool st') = {0x1000 ..< 0x4000}"
  using vmem_init_correct [OF boot_pool_ok, of "0x3000" "0x1000" "''map''" "0x1000" 0]
  by (auto simp: boot_two_segs)

text \<open>(C1) vmem_xalloc on a well-formed arena without an allocation function, with enough
  free segment structures in the pool for no refill to start (two with kVMemBootstrap, 128
  without), for a nonzero size, a lower bound vmin only together with kVMemExact, and a request
  whose end does not pass 2^64 (an exact request that does is accepted outside the arena, see the
  findings), succeeds exactly when some free segment can hold the request: it then returns 0 and
  an address whose whole range was free, exactly vmin for an exact request, the range becomes
  allocated and leaves the free space, and every list of the arena stays consistent; otherwise it
  returns -ERESOURCEEXHAUSTED and leaves the arena as it was.\<close>

theorem vmem_xalloc_correct:
  assumes "wf_vst st" and "v_allocfn (arena st) = None"
    and "segs_needed flags \<le> length (free_segs (pool st))" and "n \<noteq> 0"
    and "vmin = 0 \<or> flags AND kVMemExact \<noteq> 0" and "no_wrap (arena st) (pool st) n vmin"
  shows "if \<exists>i \<in> frees (pool st) (set (segqueue (arena st))). fits (pool st) n vmin flags i
    then \<exists>a st'. vmem_xalloc e n 0 0 nocross vmin 0 flags st = Some ((0, Some a), st') \<and>
           xalloc_ok n vmin flags st a st'
    else \<exists>st'. vmem_xalloc e n 0 0 nocross vmin 0 flags st = Some ((- ERESOURCEEXHAUSTED, None), st') \<and>
           arena st' = arena st \<and> wf_vst st' \<and>
           alloc_ranges (arena st') (pool st') = alloc_ranges (arena st) (pool st) \<and>
           free_space (arena st') (pool st') = free_space (arena st) (pool st)"
proof -
  obtain l r rest where fs: "free_segs (pool st) = l # r # rest"
    using vmem_xalloc_no_refill(2) [OF assms(1,3-5)] by blast
  from vmem_xalloc_cases [OF assms, of e nocross] show ?thesis
  proof (elim disjE exE conjE)
    assume run: "vmem_xalloc e n 0 0 nocross vmin 0 flags st =
        Some ((- ERESOURCEEXHAUSTED, None), st\<lparr>pool := prealloc (pool st)\<rparr>)"
      and none: "\<forall>i \<in> frees (pool st) (set (segqueue (arena st))). \<not> fits (pool st) n vmin flags i"
    show ?thesis using none prealloc_post [OF assms(1) fs] by (auto simp: run)
  qed auto
qed

text \<open>(C2) vmem_xfree of the base of an allocated segment, in a well-formed arena without
  imported spans, returns the size of the segment cut to an int, removes exactly that range from
  the allocated ranges, keeps the arena well formed and its spans unchanged; the range becomes
  free again when the segment has a free neighbour (which it borders on), and is lost to the arena
  when it has none.\<close>

theorem vmem_xfree_correct:
  assumes "wf_vst st" and "no_imported (arena st) (pool st)"
    and "i \<in> allocs (pool st) (set (segqueue (arena st)))"
  shows "\<exists>st'. vmem_xfree e (s_base (seg_of (pool st) i)) sz st =
      Some (sint (ucast (s_size (seg_of (pool st) i)) :: 32 word), st') \<and> wf_vst st' \<and> ext st' = ext st \<and>
      spans (arena st') (pool st') = spans (arena st) (pool st) \<and>
      alloc_ranges (arena st') (pool st') =
        alloc_ranges (arena st) (pool st) - {(seg_lo (pool st) i, seg_len (pool st) i)} \<and>
      (\<not> free_neighbour (arena st) (pool st) i \<longrightarrow>
         free_space (arena st') (pool st') = free_space (arena st) (pool st)) \<and>
      (free_neighbour (arena st) (pool st) i \<and> borders (arena st) (pool st) i \<longrightarrow>
         free_space (arena st') (pool st') =
           free_space (arena st) (pool st) \<union> {seg_lo (pool st) i ..< seg_hi (pool st) i})"
  using vmem_xfree_cases [OF assms, of e sz] unfolding xfree_post_def by blast

text \<open>(C3) On a well-formed arena without an allocation function and without imported spans,
  every sequence of vmem_xalloc and vmem_xfree calls of a client that frees only what it holds and
  requests nonzero sizes, with a lower bound only for exact requests and never past 2^64, runs to
  the end when the pool holds enough segment structures for all of them, and the ranges the client
  then holds lie inside the spans of the arena and are pairwise disjoint.\<close>

theorem vmem_clients_disjoint:
  assumes "arena_inv st" and "2 * length cmds \<le> length (free_segs (pool st))"
    and "\<forall>n vmin flags. Take (n, vmin, flags) \<in> set cmds \<longrightarrow> request_valid (n, vmin, flags) (arena_room st) \<and>
           segs_needed flags + 2 * length cmds \<le> length (free_segs (pool st))"
  shows "\<exists>held st'. arena_run (vmem_take e) (vmem_give e) cmds ([], st) = Some (held, st') \<and>
    arena_inv st' \<and> set held \<subseteq> alloc_ranges (arena st') (pool st') \<and>
    (\<forall>j < length held. range_set (held ! j) \<subseteq> arena_room st) \<and>
    (\<forall>j < length held. \<forall>k < length held. j \<noteq> k \<longrightarrow> apart (held ! j) (held ! k))"
proof -
  have 0: "va.held_ok ([], st)" using assms(1) by (simp add: va.held_ok_def)
  have "\<forall>c \<in> set cmds. va.cmd_ok (length (free_segs (pool st)) - 2 * length cmds) (arena_room st) c"
    using assms(3) by (fastforce simp: va.cmd_ok_def)
  from va.client_ok [OF 0 this assms(2), of e] obtain held st' where
    run: "arena_run (vmem_take e) (vmem_give e) cmds ([], st) = Some (held, st')"
    and ok: "va.held_ok (held, st')" and room: "arena_room st' = arena_room st" by blast
  have inv: "arena_inv st'" "set held \<subseteq> alloc_ranges (arena st') (pool st')"
    using ok by (simp_all add: va.held_ok_def)
  have "range_set (held ! j) \<subseteq> arena_room st" if "j < length held" for j
    using va.used_room [OF inv(1), of "held ! j"] subsetD [OF inv(2) nth_mem [OF that]] room by simp
  with run inv va.held_apart(1) [OF ok] show ?thesis by blast
qed

lemma three_pages_segs:
  "segqueue (arena three_pages) = [StaticSeg 127, StaticSeg 126]"
  "seg_of (pool three_pages) (StaticSeg 126) =
     \<lparr>s_type = kVMemSegFree, s_is_static = False, s_base = 0x1000, s_size = 0x3000\<rparr>"
  "free_segs (pool three_pages) = rev (map StaticSeg [0..<126])"
proof -
  have "pool_segs (pool boot_vst) = (\<lambda>_. zeroed_seg)"
    using earlyinit_pool [of blank_pool] by (simp add: boot_vst_def blank_pool_def)
  then show "segqueue (arena three_pages) = [StaticSeg 127, StaticSeg 126]"
  "seg_of (pool three_pages) (StaticSeg 126) =
     \<lparr>s_type = kVMemSegFree, s_is_static = False, s_base = 0x1000, s_size = 0x3000\<rparr>"
  "free_segs (pool three_pages) = rev (map StaticSeg [0..<126])"
    by (simp_all add: three_pages_def vmem_init_def vmem_add_internal_def seg_alloc_def boot_two_segs
        link_span_def Let_def seg_set_def zeroed_seg_def)
qed

lemma three_pages_no_wrap: "no_wrap (arena three_pages) (pool three_pages) 0x1000 0"
  using three_pages_ok by (intro arena_no_wrap) (auto simp: range_set_def)

lemma three_pages_fits:
  "StaticSeg 126 \<in> frees (pool three_pages) (set (segqueue (arena three_pages)))"
  "fits (pool three_pages) 0x1000 0 kVMemBootstrap (StaticSeg 126)"
  by (simp_all add: three_pages_segs frees_def fits_def seg_len_def vmem_flag_defs)

theorem vmem_xalloc_correct_witness:
  "\<exists>a st'. vmem_xalloc no_env 0x1000 0 0 0 0 0 kVMemBootstrap three_pages = Some ((0, Some a), st') \<and>
     xalloc_ok 0x1000 0 kVMemBootstrap three_pages a st'"
proof -
  have "\<exists>i \<in> frees (pool three_pages) (set (segqueue (arena three_pages))).
      fits (pool three_pages) 0x1000 0 kVMemBootstrap i"
    using three_pages_fits by blast
  moreover have "v_allocfn (arena three_pages) = None" "segs_needed kVMemBootstrap \<le> length (free_segs (pool three_pages))"
    using three_pages_ok by (auto simp: vmem_attrs_def three_pages_segs segs_needed_def vmem_flag_defs)
  ultimately show ?thesis
    using vmem_xalloc_correct [of three_pages kVMemBootstrap "0x1000" 0 no_env 0] three_pages_ok three_pages_no_wrap
    by simp
qed

lemma three_pages_one_used:
  "\<exists>st i. wf_vst (st :: unit vst) \<and> no_imported (arena st) (pool st) \<and>
     i \<in> allocs (pool st) (set (segqueue (arena st))) \<and>
     alloc_ranges (arena st) (pool st) = {(seg_lo (pool st) i, 0x1000)} \<and> seg_len (pool st) i = 0x1000"
proof -
  have "arena_inv three_pages" using three_pages_ok by (auto simp: arena_inv_def vmem_attrs_def)
  moreover have "v_allocfn (arena three_pages) = None" "segs_needed kVMemBootstrap \<le> length (free_segs (pool three_pages))"
    using three_pages_ok by (auto simp: vmem_attrs_def three_pages_segs segs_needed_def vmem_flag_defs)
  ultimately obtain a st where "xalloc_ok 0x1000 0 kVMemBootstrap three_pages a st"
    using vmem_xalloc_cases [of three_pages kVMemBootstrap "0x1000" 0 no_env 0] three_pages_ok three_pages_no_wrap
      three_pages_fits by auto
  then have st: "wf_vst st" "no_imported (arena st) (pool st)" "alloc_ranges (arena st) (pool st) = {(unat a, 0x1000)}"
    using three_pages_ok by (simp_all add: xalloc_ok_def)
  then obtain i where "i \<in> allocs (pool st) (set (segqueue (arena st)))" "(seg_lo (pool st) i, seg_len (pool st) i) = (unat a, 0x1000)"
    unfolding alloc_ranges_def by (metis (no_types, lifting) imageE insertI1)
  with st show ?thesis by (intro exI [of _ st] exI [of _ i]) simp
qed

theorem vmem_xfree_correct_witness:
  "\<exists>(st :: unit vst) i st'. alloc_ranges (arena st) (pool st) = {(seg_lo (pool st) i, 0x1000)} \<and>
     vmem_xfree no_env (s_base (seg_of (pool st) i)) 0x1000 st =
       Some (sint (ucast (s_size (seg_of (pool st) i)) :: 32 word), st') \<and>
     wf_vst st' \<and> alloc_ranges (arena st') (pool st') = {}"
  using three_pages_one_used vmem_xfree_correct [of _ _ no_env "0x1000"] by fastforce

definition demo_cmds :: "vmem_request arena_cmd list" where
  "demo_cmds = [Take (0x1000, 0, kVMemBootstrap), Take (0x2000, 0, kVMemBootstrap), Give 0,
                Take (0x1000, 0x3000, kVMemBootstrap OR kVMemExact)]"

theorem vmem_clients_disjoint_witness:
  "\<exists>held st'. arena_run (vmem_take no_env) (vmem_give no_env) demo_cmds ([], three_pages) = Some (held, st') \<and>
    (\<forall>j < length held. range_set (held ! j) \<subseteq> {0x1000 ..< 0x4000}) \<and>
    (\<forall>j < length held. \<forall>k < length held. j \<noteq> k \<longrightarrow> apart (held ! j) (held ! k))"
proof -
  have room: "arena_room three_pages = {0x1000 ..< 0x4000}"
    using three_pages_ok by (simp add: arena_room_def range_set_def)
  have "arena_inv three_pages" using three_pages_ok by (auto simp: arena_inv_def vmem_attrs_def)
  from vmem_clients_disjoint [OF this, of demo_cmds no_env] show ?thesis
    by (auto simp: demo_cmds_def three_pages_segs room request_valid_def segs_needed_def vmem_flag_defs)
qed

subsection \<open>Giving an imported span back\<close>

text \<open>
  A segment that fills an imported span is followed by the marker of the next span or by nothing,
  so nothing is merged and \<^verbatim>\<open>vmem_xfree\<close> reaches the release of the span. The release function
  works on the source arena: it leaves this arena and the structures of its segments alone, and
  may put structures of other arenas back on the shared pool.
\<close>

definition releases :: "'x vmem_env \<Rightarrow> u64 \<Rightarrow> u64 \<Rightarrow> 'x vst \<Rightarrow> 'x vst \<Rightarrow> bool" where
  "releases e b n st st1 \<longleftrightarrow>
     (case v_freefn (arena st) of None \<Rightarrow> False | Some fn \<Rightarrow> env_free e fn b n st = Some st1) \<and>
     arena st1 = arena st \<and> wf_pool (arena st1) (pool st1) \<and>
     (\<forall>j \<in> set (segqueue (arena st)). seg_of (pool st1) j = seg_of (pool st) j)"

lemma filled_span:
  assumes wf: "wf_vmem v p" and q: "segqueue v = as @ a # i # bs" and a: "is_span p a" and i: "\<not> is_span p i"
    and n: "seg_len p i = seg_len p a"
  shows "seg_lo p i = seg_lo p a" "bs = [] \<or> is_span p (hd bs)" "segs_ok p 0 0 (as @ bs)"
proof -
  let ?w = "window p (0, 0) as"
  have ok: "segs_ok p 0 0 as" "snd ?w \<le> seg_lo p a" "seg_lo p a \<le> seg_lo p i" "seg_hi p i \<le> seg_hi p a"
    "segs_ok p (seg_hi p i) (seg_hi p a) bs"
    using wf a i unfolding wf_vmem_def q segs_ok_append by auto
  show lo: "seg_lo p i = seg_lo p a" using ok n by simp
  show "bs = [] \<or> is_span p (hd bs)" using ok(5) n lo by (cases bs) (auto split: if_splits)
  then have "segs_ok p (fst ?w) (snd ?w) bs" using ok(2,5) by (cases bs) (auto split: if_splits)
  with ok(1) show "segs_ok p 0 0 (as @ bs)" by (simp add: segs_ok_append)
qed

lemma xfree_imported_run:
  assumes wf: "wf_vst st" and i: "i \<in> allocs (pool st) (set (segqueue (arena st)))"
    and q: "segqueue (arena st) = as @ a # i # bs" and a: "s_type (seg_of (pool st) a) = kVMemSegSpanImported"
    and n: "s_size (seg_of (pool st) i) = s_size (seg_of (pool st) a)"
  shows "vmem_xfree e (s_base (seg_of (pool st) i)) sz st =
    (case release_span e a i (first_of bs) False (st\<lparr>arena := seglist_remove i (arena st)\<rparr>) of
       None \<Rightarrow> None
     | Some st' \<Rightarrow> Some (sint (ucast (s_size (seg_of (pool st) i)) :: 32 word), st'))"
proof -
  let ?p = "pool st" and ?v = "seglist_remove i (arena st)"
  note iD = allocsD [OF i]
  have sp: "is_span ?p a" "seg_len ?p i = seg_len ?p a" using a n by (simp_all add: is_span_def seg_len_def)
  have d: "distinct (as @ a # i # bs)" using wf q by (simp add: wf_vmem_def)
  have "\<not> free_at ?p (first_of bs)"
    using filled_span(2) [OF conjunct1 [OF wf] q sp(1) _ sp(2)] iD
    by (cases bs) (auto simp: free_at_def is_span_def)
  then have R: "coalesce_right False i (?v, ?p) = (i, first_of bs, False, ?v, ?p)"
    using coalesce_right_skip [of ?v "as @ [a]" i bs ?p] d q by simp
  have L: "coalesce_left i (?v, ?p) = Some (i, a, False, ?v, ?p)"
    using coalesce_left_skip [of ?v as a i bs ?p] d q a by simp
  have "vmem_xfree e (s_base (seg_of ?p i)) sz st =
      release_span e a i (first_of bs) False (st\<lparr>arena := ?v\<rparr>) \<bind>
        (\<lambda>st'. Some (sint (ucast (s_size (seg_of ?p i)) :: 32 word), st'))"
    using find_alloc [OF conjunct1 [OF wf] i refl] L R a n by (simp add: vmem_xfree_def Let_def)
  then show ?thesis by (simp split: option.split)
qed

lemma window_snd_ge: "segs_ok p lo hi as \<Longrightarrow> hi \<le> snd (window p (lo, hi) as)"
proof (induction as arbitrary: lo hi)
  case (Cons a as)
  show ?case using Cons.prems Cons.IH [of "seg_lo p a" "seg_hi p a"] Cons.IH [of "seg_hi p a" hi]
    by (cases "is_span p a") auto
qed simp

lemma span_below_window:
  "segs_ok p lo hi as \<Longrightarrow> j \<in> set as \<Longrightarrow> is_span p j \<Longrightarrow> seg_hi p j \<le> snd (window p (lo, hi) as)"
proof (induction as arbitrary: lo hi)
  case (Cons a as)
  show ?case
    using Cons.prems Cons.IH [of "seg_lo p a" "seg_hi p a"] Cons.IH [of "seg_hi p a" hi]
      window_snd_ge [of p "seg_lo p a" "seg_hi p a" as] by (cases "is_span p a") auto
qed simp

lemma span_removed_wf:
  assumes wf: "wf_vmem v p" and i: "i \<in> allocs p (set (segqueue v))"
    and q: "segqueue v = as @ a # i # bs" and a: "is_span p a" and n: "seg_len p i = seg_len p a"
    and w: "w = segqueue_remove a (seglist_remove a (segqueue_remove i (seglist_remove i v)))"
  shows "wf_vmem w p" "segqueue w = as @ bs" "vmem_attrs w = vmem_attrs v"
    "alloc_ranges w p = alloc_ranges v p - {(seg_lo p i, seg_len p i)}"
    "free_space w p = free_space v p"
    "spans w p = remove1 (seg_lo p a, seg_len p a) (spans v p)"
proof -
  note iD = allocsD [OF i]
  have d: "distinct (as @ a # i # bs)" using wf q by (simp add: wf_vmem_def)
  then show sq: "segqueue w = as @ bs" unfolding w using q by (auto simp: remove1_append)
  have Qw: "set (segqueue w) = set (segqueue v) - {a, i}" using d unfolding sq q by auto
  have F: "frees p (set (segqueue w)) = frees p (set (segqueue v))" "allocs p (set (segqueue w)) = allocs p (set (segqueue v)) - {i}"
    unfolding Qw using iD a by (auto simp: frees_def allocs_def is_span_def)
  have nin: "a \<notin> frees p (set (segqueue v))" "a \<notin> allocs p (set (segqueue v))" "i \<notin> frees p (set (segqueue v))"
    using iD a by (auto simp: frees_def allocs_def is_span_def)
  have "lists_ok v p (frees p (set (segqueue v))) (allocs p (set (segqueue v)))"
    using wf by (simp add: wf_vmem_def)
  from lists_ok_seglist_remove [OF lists_ok_seglist_remove [OF this, of i], of a] nin
  have l: "lists_ok w p (frees p (set (segqueue w))) (allocs p (set (segqueue w)))"
    unfolding F by (simp add: w segqueue_remove_def seglist_remove_def lists_ok_def)
  have sl: "spanlist v = filter (is_span p) as @ a # filter (is_span p) bs"
    using wf a iD by (simp add: wf_vmem_def q)
  have na: "a \<notin> set (filter (is_span p) as)" "i \<notin> set (filter (is_span p) as)" "i \<noteq> a" "i \<notin> set (filter (is_span p) bs)"
    using d by auto
  have sw: "spanlist w = filter (is_span p) as @ filter (is_span p) bs"
    unfolding w using na sl by (auto simp: remove1_append remove1_idem segqueue_remove_def seglist_remove_def)
  show wf': "wf_vmem w p"
    using l sw d filled_span(3) [OF wf q a _ n] iD sq by (auto simp: wf_vmem_def)
  show "vmem_attrs w = vmem_attrs v" by (simp add: w)
  show "alloc_ranges w p = alloc_ranges v p - {(seg_lo p i, seg_len p i)}"
    using alloc_ranges_minus [OF wf i] F(2) unfolding alloc_ranges_def by simp
  show "free_space w p = free_space v p" unfolding free_space_def F(1) ..
  have "(seg_lo p a, seg_len p a) \<notin> (\<lambda>j. (seg_lo p j, seg_len p j)) ` set (filter (is_span p) as)"
  proof
    assume "(seg_lo p a, seg_len p a) \<in> (\<lambda>j. (seg_lo p j, seg_len p j)) ` set (filter (is_span p) as)"
    then obtain j where j: "j \<in> set as" "is_span p j" "seg_lo p j = seg_lo p a" "seg_len p j = seg_len p a" by auto
    have "segs_ok p 0 0 (as @ a # i # bs)" using wf q by (simp add: wf_vmem_def)
    then have ok: "segs_ok p 0 0 as" "snd (window p (0, 0) as) \<le> seg_lo p a" 
      using a by (auto simp: segs_ok_append)
    have "seg_hi p j \<le> snd (window p (0, 0) as)" using span_below_window [OF ok(1) j(1,2)] .
    moreover have "0 < seg_len p j" using segs_ok_len_pos [OF ok(1) j(1)] .
    ultimately show False using ok(2) j(3) by simp
  qed
  then show "spans w p = remove1 (seg_lo p a, seg_len p a) (spans v p)"
    by (simp add: spans_def sw sl remove1_append)
qed

lemma xfree_imported:
  assumes wf: "wf_vst st" and i: "i \<in> allocs (pool st) (set (segqueue (arena st)))"
    and q: "segqueue (arena st) = as @ a # i # bs" and a: "s_type (seg_of (pool st) a) = kVMemSegSpanImported"
    and n: "s_size (seg_of (pool st) i) = s_size (seg_of (pool st) a)"
    and r: "releases e (s_base (seg_of (pool st) a)) (s_size (seg_of (pool st) a)) (st\<lparr>arena := seglist_remove i (arena st)\<rparr>) st1"
    and b: "bs = [] \<or> s_type (seg_of (pool st) (hd bs)) = kVMemSegSpanImported"
  shows "\<exists>st'. vmem_xfree e (s_base (seg_of (pool st) i)) sz st =
      Some (sint (ucast (s_size (seg_of (pool st) i)) :: 32 word), st') \<and> wf_vst st' \<and> ext st' = ext st1 \<and>
      segqueue (arena st') = as @ bs \<and> free_segs (pool st') = a # i # free_segs (pool st1) \<and>
      spans (arena st') (pool st') = remove1 (seg_lo (pool st) a, seg_len (pool st) a) (spans (arena st) (pool st)) \<and>
      alloc_ranges (arena st') (pool st') =
        alloc_ranges (arena st) (pool st) - {(seg_lo (pool st) a, seg_len (pool st) a)} \<and>
      free_space (arena st') (pool st') = free_space (arena st) (pool st)"
proof -
  let ?p = "pool st"
  define w where "w = segqueue_remove a (seglist_remove a (segqueue_remove i (seglist_remove i (arena st))))"
  let ?p' = "seg_free a (seg_free i (pool st1))"
  note iD = allocsD [OF i]
  have sp: "is_span ?p a" "seg_len ?p i = seg_len ?p a" using a n by (simp_all add: is_span_def seg_len_def)
  note W = span_removed_wf [OF conjunct1 [OF wf] i q sp w_def]
  from r have r1: "arena st1 = seglist_remove i (arena st)" "\<forall>j \<in> set (segqueue (arena st)). seg_of (pool st1) j = seg_of ?p j"
    by (simp_all add: releases_def)
  from r have r2: "wf_pool (arena st1) (pool st1)" unfolding releases_def by blast
  have run: "vmem_xfree e (s_base (seg_of ?p i)) sz st =
      Some (sint (ucast (s_size (seg_of ?p i)) :: 32 word), st1\<lparr>arena := w, pool := ?p'\<rparr>)"
    unfolding xfree_imported_run [OF wf i q a n] using r b
    by (cases bs) (auto simp: release_span_def releases_def w_def Let_def split: option.splits)
  have same: "seg_of (pool st1) j = seg_of ?p j" if "j \<in> set (segqueue w) \<or> j \<in> set (segqueue (arena st))" for j
    using that r1(2) q W(2) by auto
  have wfw: "wf_vmem w ?p'" using W(1) wf_vmem_pool_cong [of w ?p' ?p] same by simp
  have "wf_pool w ?p'"
    using r1(1) r2 wf q W(2) by (auto simp: wf_pool_def wf_vmem_def)
  moreover have "frees ?p' (set (segqueue w)) = frees ?p (set (segqueue w))"
    "allocs ?p' (set (segqueue w)) = allocs ?p (set (segqueue w))"
    by (auto simp: frees_def allocs_def same)
  moreover have "alloc_ranges w ?p' = alloc_ranges w ?p" "free_space w ?p' = free_space w ?p" "spans w ?p' = spans w ?p"
    unfolding alloc_ranges_def free_space_def spans_def calculation(2,3)
    using same wfw by (auto simp: allocs_def frees_def wf_vmem_def seg_lo_def seg_len_def)
  ultimately show ?thesis
    using run W wfw filled_span(1) [OF conjunct1 [OF wf] q sp(1) _ sp(2)] iD sp(2) by auto
qed

text \<open>The wired arena right after its one span was imported and handed out whole.\<close>

definition wired_span :: "(u64 \<times> u64) list vst" where
  "wired_span = (let p = seg_set (StaticSeg 7) kVMemSegAllocated 0x8000 0x2000
         (seg_set (StaticSeg 6) kVMemSegSpanImported 0x8000 0x2000 blank_pool) in
     \<lparr>arena = hashtab_insert p (StaticSeg 7) (blank_arena\<lparr>v_allocfn := Some Fn_internal_allocwired,
         v_freefn := Some Fn_internal_freewired, v_source := Some Ref_kmap_vmem,
         segqueue := [StaticSeg 6, StaticSeg 7], freelists := replicate 64 [], hashtab := replicate 16 [],
         spanlist := [StaticSeg 6]\<rparr>),
      pool = p, ext = []\<rparr>)"

definition log_env :: "(u64 \<times> u64) list vmem_env" where
  "log_env = \<lparr>env_kalloc = (\<lambda>_ _ _. None), env_alloc = (\<lambda>_ _ _ _. None),
     env_free = (\<lambda>_ b n st. Some (st\<lparr>ext := (b, n) # ext st\<rparr>))\<rparr>"

lemma wired_span_segs:
  "segqueue (arena wired_span) = [StaticSeg 6, StaticSeg 7]" "spanlist (arena wired_span) = [StaticSeg 6]"
  "seg_of (pool wired_span) (StaticSeg 6) = zeroed_seg\<lparr>s_type := kVMemSegSpanImported, s_base := 0x8000, s_size := 0x2000\<rparr>"
  "seg_of (pool wired_span) (StaticSeg 7) = zeroed_seg\<lparr>s_type := kVMemSegAllocated, s_base := 0x8000, s_size := 0x2000\<rparr>"
  "free_segs (pool wired_span) = []" "nfreesegs (pool wired_span) = 0" "ext wired_span = []"
  "v_freefn (arena wired_span) = Some Fn_internal_freewired"
  by (simp_all add: wired_span_def Let_def hashtab_insert_def blank_pool_def)

lemma wired_span_ok:
  "wf_vst wired_span" "StaticSeg 7 \<in> allocs (pool wired_span) (set (segqueue (arena wired_span)))"
proof -
  have FA: "frees (pool wired_span) (set (segqueue (arena wired_span))) = {}"
    "allocs (pool wired_span) (set (segqueue (arena wired_span))) = {StaticSeg 7}"
    by (auto simp: wired_span_segs frees_def allocs_def)
  have "lists_ok (arena wired_span) (pool wired_span) {} {StaticSeg 7}"
    unfolding wired_span_def Let_def by (auto intro!: lists_ok_hashtab_insert) (simp add: lists_ok_def)
  then show "wf_vst wired_span"
    by (simp add: wf_vmem_def wf_pool_def FA) (simp add: wired_span_segs is_span_def seg_lo_def seg_len_def)
  show "StaticSeg 7 \<in> allocs (pool wired_span) (set (segqueue (arena wired_span)))" by (simp add: FA)
qed

text \<open>(C5) vmem_xfree of a segment that fills an imported span calls the release function of
  the arena with exactly the base and size of that span, takes span marker and segment out of the
  segment queue, the span list and the hash table, puts both structures back on the pool and
  leaves every other range of the arena as it was (the release function is assumed to succeed and
  to leave this arena's lists and segments alone); when the span is followed by one that is not
  imported, the assertion of the code stops the kernel instead.\<close>

theorem vmem_xfree_returns_import:
  assumes "wf_vst st" and "i \<in> allocs (pool st) (set (segqueue (arena st)))"
    and "segqueue (arena st) = as @ a # i # bs" and "s_type (seg_of (pool st) a) = kVMemSegSpanImported"
    and "s_size (seg_of (pool st) i) = s_size (seg_of (pool st) a)"
    and "releases e (s_base (seg_of (pool st) a)) (s_size (seg_of (pool st) a))
          (st\<lparr>arena := seglist_remove i (arena st)\<rparr>) st1"
  shows "if bs = [] \<or> s_type (seg_of (pool st) (hd bs)) = kVMemSegSpanImported
    then \<exists>st'. vmem_xfree e (s_base (seg_of (pool st) i)) sz st =
        Some (sint (ucast (s_size (seg_of (pool st) i)) :: 32 word), st') \<and> wf_vst st' \<and> ext st' = ext st1 \<and>
      segqueue (arena st') = as @ bs \<and> free_segs (pool st') = a # i # free_segs (pool st1) \<and>
      spans (arena st') (pool st') = remove1 (seg_lo (pool st) a, seg_len (pool st) a) (spans (arena st) (pool st)) \<and>
      alloc_ranges (arena st') (pool st') =
        alloc_ranges (arena st) (pool st) - {(seg_lo (pool st) a, seg_len (pool st) a)} \<and>
      free_space (arena st') (pool st') = free_space (arena st) (pool st)
    else vmem_xfree e (s_base (seg_of (pool st) i)) sz st = None"
proof (cases "bs = [] \<or> s_type (seg_of (pool st) (hd bs)) = kVMemSegSpanImported")
  case True
  with xfree_imported [OF assms True, of sz] show ?thesis by (simp only: if_True)
next
  case False
  then have "bs \<noteq> []" "s_type (seg_of (pool st) (hd bs)) \<noteq> kVMemSegSpanImported" by auto
  then have "vmem_xfree e (s_base (seg_of (pool st) i)) sz st = None"
    unfolding xfree_imported_run [OF assms(1-5)] by (cases bs) (simp_all add: release_span_def kassert_def)
  with False show ?thesis by (simp only: if_False)
qed

theorem vmem_xfree_returns_import_witness:
  "\<exists>st'. vmem_xfree log_env 0x8000 0x2000 wired_span = Some (0x2000, st') \<and> wf_vst st' \<and>
     ext st' = [(0x8000, 0x2000)] \<and> segqueue (arena st') = [] \<and> spans (arena st') (pool st') = []"
proof -
  let ?st0 = "wired_span\<lparr>arena := seglist_remove (StaticSeg 7) (arena wired_span)\<rparr>"
  have "wf_pool (arena ?st0) (pool ?st0)" by (simp add: wf_pool_def wired_span_segs)
  then have "releases log_env 0x8000 0x2000 ?st0 (?st0\<lparr>ext := [(0x8000, 0x2000)]\<rparr>)"
    by (simp add: releases_def log_env_def wired_span_segs) (simp add: seglist_remove_def wired_span_segs)
  then have "releases log_env (s_base (seg_of (pool wired_span) (StaticSeg 6)))
      (s_size (seg_of (pool wired_span) (StaticSeg 6))) ?st0 (?st0\<lparr>ext := [(0x8000, 0x2000)]\<rparr>)"
    by (simp add: wired_span_segs)
  from vmem_xfree_returns_import [OF wired_span_ok _ _ _ this, of "[]" "[]" "0x2000"]
  obtain st' where "vmem_xfree log_env 0x8000 0x2000 wired_span = Some (0x2000, st')" "wf_vst st'"
    "ext st' = [(0x8000, 0x2000)]" "segqueue (arena st') = []" "spans (arena st') (pool st') = []"
    by (auto simp: wired_span_segs spans_def)
  then show ?thesis by blast
qed

subsection \<open>Two defects on concrete arenas\<close>

definition small_vst :: "unit vst" where
  "small_vst = \<lparr>arena = blank_arena, pool = fold (\<lambda>i. seg_free (StaticSeg i)) [0..<12] blank_pool, ext = ()\<rparr>"

theorem vmem_xfree_leaks:
  "do { st1 \<leftarrow> vmem_init ''map'' 0x1000 0x3000 0x1000 None None None 0 small_vst;
        ((r1, a1), st2) \<leftarrow> vmem_xalloc no_env 0x1000 0 0 0 0 0 kVMemBootstrap st1;
        ((r2, a2), st3) \<leftarrow> vmem_xalloc no_env 0x1000 0 0 0 0 0 kVMemBootstrap st2;
        ((r3, a3), st4) \<leftarrow> vmem_xalloc no_env 0x1000 0 0 0 0 0 kVMemBootstrap st3;
        (r4, st5) \<leftarrow> vmem_xfree no_env 0x2000 0x1000 st4;
        ((r5, a5), st6) \<leftarrow> vmem_xalloc no_env 0x1000 0 0 0 0 0 kVMemBootstrap st5;
        Some ([a1, a2, a3, a5], [r4, r5]) }
   = Some ([Some 0x1000, Some 0x2000, Some 0x3000, None], [0x1000, - ERESOURCEEXHAUSTED])"
  by code_simp

theorem vmem_xalloc_exact_wraps:
  "do { st1 \<leftarrow> vmem_init ''map'' 0x1000 0x3000 0x1000 None None None 0 small_vst;
        (r, st2) \<leftarrow> vmem_xalloc no_env 0x2000 0 0 0 0xFFFFFFFFFFFFF000 0 (kVMemBootstrap OR kVMemExact) st1;
        Some r }
   = Some (0, Some 0xFFFFFFFFFFFFF000)"
  by code_simp

end
