(* ===== verification/Klib.thy ===== *)
theory Klib
  imports Prelude
begin

text \<open>
  The memory and string routines of \<^verbatim>\<open>libkern/klib.c\<close> over a byte-addressed 64-bit memory.
  A routine that reads up to a terminator is a partial function: it yields \<open>None\<close> when there is no
  terminator to be found. \<open>memmove\<close> copies in the direction the comparison of the two pointers
  selects; the lemmas show that this makes overlapping regions safe and that the plain forward
  copy of \<open>memcpy\<close> agrees with it on regions that do not overlap.
\<close>

type_synonym mem = "u64 \<Rightarrow> u8"

subsection \<open>Routines\<close>

text \<open>The loop of \<^verbatim>\<open>memcmp\<close>: two byte sources read by offset.\<close>

fun memcmp_from :: "(nat \<Rightarrow> u8) \<Rightarrow> (nat \<Rightarrow> u8) \<Rightarrow> nat \<Rightarrow> nat \<Rightarrow> int" where
  "memcmp_from c1 c2 i 0 = 0"
| "memcmp_from c1 c2 i (Suc count) =
     (if c1 i \<noteq> c2 i then (if c1 i < c2 i then - 1 else 1) else memcmp_from c1 c2 (Suc i) count)"

definition memcmp :: "(nat \<Rightarrow> u8) \<Rightarrow> (nat \<Rightarrow> u8) \<Rightarrow> nat \<Rightarrow> int" where
  "memcmp str1 str2 count = memcmp_from str1 str2 0 count"

text \<open>Copying upwards, byte \<open>i\<close> first.\<close>

fun copy_up :: "u64 \<Rightarrow> u64 \<Rightarrow> nat \<Rightarrow> mem \<Rightarrow> mem" where
  "copy_up dst src 0 m = m"
| "copy_up dst src (Suc n) m = copy_up (dst + 1) (src + 1) n (m(dst := m src))"

text \<open>Copying downwards from one past the end.\<close>

fun copy_down :: "u64 \<Rightarrow> u64 \<Rightarrow> nat \<Rightarrow> mem \<Rightarrow> mem" where
  "copy_down t f 0 m = m"
| "copy_down t f (Suc n) m = copy_down (t - 1) (f - 1) n (m(t - 1 := m (f - 1)))"

definition memcpy :: "u64 \<Rightarrow> u64 \<Rightarrow> u64 \<Rightarrow> mem \<Rightarrow> u64 \<times> mem" where
  "memcpy dst src len m = (dst, copy_up dst src (unat len) m)"

definition memmove :: "u64 \<Rightarrow> u64 \<Rightarrow> u64 \<Rightarrow> mem \<Rightarrow> u64 \<times> mem" where
  "memmove dst src n m =
     (dst, if src < dst then copy_down (dst + n) (src + n) (unat n) m
           else copy_up dst src (unat n) m)"

fun fill_up :: "u64 \<Rightarrow> u8 \<Rightarrow> nat \<Rightarrow> mem \<Rightarrow> mem" where
  "fill_up b c 0 m = m"
| "fill_up b c (Suc n) m = fill_up (b + 1) c n (m(b := c))"

definition memset :: "u64 \<Rightarrow> 32 word \<Rightarrow> u64 \<Rightarrow> mem \<Rightarrow> u64 \<times> mem" where
  "memset b c len m = (b, fill_up b (ucast c) (unat len) m)"

partial_function (option) strcmp :: "mem \<Rightarrow> u64 \<Rightarrow> u64 \<Rightarrow> int option" where
  "strcmp m s1 s2 =
     (if m s1 = m s2 then if m s1 = 0 then Some 0 else strcmp m (s1 + 1) (s2 + 1)
      else Some (uint (m s1) - uint (m s2)))"

partial_function (option) strlen_from :: "mem \<Rightarrow> u64 \<Rightarrow> u64 \<Rightarrow> u64 option" where
  "strlen_from m str s = (if m s = 0 then Some (s - str) else strlen_from m str (s + 1))"

definition strlen :: "mem \<Rightarrow> u64 \<Rightarrow> u64 option" where
  "strlen m str = strlen_from m str str"

text \<open>\<^verbatim>\<open>strcpy\<close> returns the pointer past the terminator it wrote, not the destination.\<close>

partial_function (option) strcpy :: "u64 \<Rightarrow> u64 \<Rightarrow> mem \<Rightarrow> (u64 \<times> mem) option" where
  "strcpy dst src m =
     (let m' = m(dst := m src) in
      if m src = 0 then Some (dst + 1, m') else strcpy (dst + 1) (src + 1) m')"

definition strdup ::
  "(u64 \<Rightarrow> 's \<Rightarrow> (u64 \<times> 's) option) \<Rightarrow> u64 \<Rightarrow> mem \<times> 's \<Rightarrow> (u64 \<times> mem \<times> 's) option" where
  "strdup kmem_alloc src = (\<lambda>(m, s). do {
     n \<leftarrow> strlen m src;
     let sz = n + 1;
     (str, s') \<leftarrow> kmem_alloc sz s;
     let (_, m') = memcpy str src sz m;
     Some (str, m', s')
   })"

subsection \<open>Copies\<close>

text \<open>The region of \<open>n\<close> bytes at \<open>a\<close> and its members.\<close>

definition in_region :: "u64 \<Rightarrow> nat \<Rightarrow> u64 \<Rightarrow> bool" where
  "in_region a n x \<longleftrightarrow> unat (x - a) < n"

text \<open>What a copy means: every byte of the destination holds the byte the source had before.\<close>

definition moved :: "u64 \<Rightarrow> u64 \<Rightarrow> nat \<Rightarrow> mem \<Rightarrow> mem" where
  "moved dst src n m = (\<lambda>x. if in_region dst n x then m (src + (x - dst)) else m x)"

lemma in_region_0 [simp]: "\<not> in_region a 0 x"
  by (simp add: in_region_def)

lemma unat_minus_one: "(x :: u64) \<noteq> 0 \<Longrightarrow> unat (x - 1) = unat x - 1"
  by (metis unat_minus_one)

lemma in_region_Suc: "Suc n \<le> 2 ^ 64 \<Longrightarrow> in_region a (Suc n) x \<longleftrightarrow> x = a \<or> in_region (a + 1) n x"
proof (cases "x = a")
  case False
  then have "x - a \<noteq> 0" by simp
  from unat_minus_one [OF this] have "unat (x - (a + 1)) = unat (x - a) - 1" by (simp add: algebra_simps)
  moreover have "unat (x - a) \<noteq> 0" using \<open>x - a \<noteq> 0\<close> by (simp add: unat_eq_zero)
  ultimately show ?thesis using False by (auto simp: in_region_def)
qed (simp add: in_region_def)

lemma in_region_last: "Suc n \<le> 2 ^ 64 \<Longrightarrow> in_region a (Suc n) x \<longleftrightarrow> x = a + of_nat n \<or> in_region a n x"
proof -
  assume n: "Suc n \<le> 2 ^ 64"
  have "unat (x - a) = n \<longleftrightarrow> x = a + of_nat n"
  proof
    assume "unat (x - a) = n"
    then have "of_nat n = x - a" by auto
    then show "x = a + of_nat n" by simp
  next
    assume "x = a + of_nat n"
    then show "unat (x - a) = n" using n by (simp add: unat_of_nat take_bit_nat_eq_self)
  qed
  then show ?thesis by (auto simp: in_region_def less_Suc_eq)
qed

text \<open>The upward copy is right when no destination byte is a later source byte.\<close>

lemma copy_up_moved:
  assumes "n \<le> 2 ^ 64" and "\<And>i j. j < i \<Longrightarrow> i < n \<Longrightarrow> dst + of_nat j \<noteq> src + of_nat i"
  shows "copy_up dst src n m = moved dst src n m"
  using assms
proof (induction n arbitrary: dst src m)
  case (Suc n)
  let ?m = "m(dst := m src)"
  have "copy_up (dst + 1) (src + 1) n ?m = moved (dst + 1) (src + 1) n ?m"
  proof (rule Suc.IH)
    fix i j assume "j < i" "i < n"
    then show "dst + 1 + of_nat j \<noteq> src + 1 + of_nat i" using Suc.prems(2) [of "Suc j" "Suc i"] by (simp add: algebra_simps)
  qed (use Suc.prems in simp)
  moreover have "moved (dst + 1) (src + 1) n ?m = moved dst src (Suc n) m"
  proof (rule ext)
    fix x
    consider "in_region (dst + 1) n x" | "x = dst" "\<not> in_region (dst + 1) n x" | "\<not> in_region dst (Suc n) x"
      using in_region_Suc [OF Suc.prems(1), of dst x] by blast
    then show "moved (dst + 1) (src + 1) n ?m x = moved dst src (Suc n) m x"
    proof cases
      case 1
      define i where "i = unat (x - (dst + 1))"
      have i: "i < n" "x = dst + 1 + of_nat i" using 1 by (simp_all add: in_region_def i_def)
      have "dst \<noteq> src + of_nat (Suc i)" using Suc.prems(2) [of 0 "Suc i"] i by simp
      then have "src + 1 + (x - (dst + 1)) \<noteq> dst" using i(2) by (auto simp: algebra_simps)
      moreover have "src + 1 + (x - (dst + 1)) = src + (x - dst)" by (simp add: algebra_simps)
      moreover have "in_region dst (Suc n) x" using 1 in_region_Suc [OF Suc.prems(1)] by blast
      ultimately show ?thesis using 1 by (simp add: moved_def)
    next
      case 2
      then show ?thesis using in_region_Suc [OF Suc.prems(1), of dst x] by (simp add: moved_def)
    next
      case 3
      then show ?thesis using in_region_Suc [OF Suc.prems(1), of dst x] by (simp add: moved_def)
    qed
  qed
  ultimately show ?case by simp
qed (simp add: moved_def)

lemma copy_down_moved:
  assumes "n \<le> 2 ^ 64" and "\<And>i j. i < j \<Longrightarrow> j < n \<Longrightarrow> dst + of_nat j \<noteq> src + of_nat i"
  shows "copy_down (dst + of_nat n) (src + of_nat n) n m = moved dst src n m"
  using assms
proof (induction n arbitrary: m)
  case (Suc n)
  let ?m = "m(dst + of_nat n := m (src + of_nat n))"
  have "copy_down (dst + of_nat n) (src + of_nat n) n ?m = moved dst src n ?m"
    using Suc.prems by (intro Suc.IH) auto
  moreover have "moved dst src n ?m = moved dst src (Suc n) m"
  proof (rule ext)
    fix x
    note last = in_region_last [OF Suc.prems(1), of dst x]
    consider "in_region dst n x" | "x = dst + of_nat n" "\<not> in_region dst n x" | "\<not> in_region dst (Suc n) x"
      using last by blast
    then show "moved dst src n ?m x = moved dst src (Suc n) m x"
    proof cases
      case 1
      define i where "i = unat (x - dst)"
      have i: "i < n" "x = dst + of_nat i" using 1 by (simp_all add: in_region_def i_def)
      have "dst + of_nat n \<noteq> src + of_nat i" using Suc.prems(2) [of i n] i by simp
      then have "src + (x - dst) \<noteq> dst + of_nat n" using i(2) by auto
      with 1 last show ?thesis by (simp add: moved_def)
    next
      case 2
      then show ?thesis using last by (simp add: moved_def algebra_simps)
    next
      case 3
      then show ?thesis using last by (simp add: moved_def)
    qed
  qed
  ultimately show ?case by (simp add: algebra_simps)
qed (simp add: moved_def)

lemma offset_unat:
  "unat (a :: u64) + n \<le> 2 ^ 64 \<Longrightarrow> i < n \<Longrightarrow> unat (a + of_nat i) = unat a + i"
  by (subst unat_add_nowrap) (simp_all add: unat_of_nat take_bit_nat_eq_self)

lemma memmove_moved:
  assumes d: "unat dst + unat n \<le> 2 ^ 64" and s: "unat src + unat n \<le> 2 ^ 64"
  shows "memmove dst src n m = (dst, moved dst src (unat n) m)"
proof -
  have n: "unat n \<le> 2 ^ 64" using d by simp
  have *: "dst + of_nat j \<noteq> src + of_nat i"
    if "j < unat n" "i < unat n" "unat dst + j \<noteq> unat src + i" for i j
    using that offset_unat [OF d, of j] offset_unat [OF s, of i] by metis
  show ?thesis
  proof (cases "src < dst")
    case True
    then have "copy_down (dst + of_nat (unat n)) (src + of_nat (unat n)) (unat n) m = moved dst src (unat n) m"
      by (intro copy_down_moved n *) (auto simp: word_less_nat_alt)
    with True show ?thesis by (simp add: memmove_def)
  next
    case False
    then have "copy_up dst src (unat n) m = moved dst src (unat n) m"
      by (intro copy_up_moved n *) (auto simp: word_less_nat_alt)
    with False show ?thesis by (simp add: memmove_def)
  qed
qed

lemma memcpy_moved:
  assumes d: "unat dst + unat n \<le> 2 ^ 64" and s: "unat src + unat n \<le> 2 ^ 64"
    and ap: "unat dst + unat n \<le> unat src \<or> unat src + unat n \<le> unat dst"
  shows "memcpy dst src n m = (dst, moved dst src (unat n) m)"
proof -
  have "dst + of_nat j \<noteq> src + of_nat i" if "j < i" "i < unat n" for i j
    using that ap offset_unat [OF d, of j] offset_unat [OF s, of i] by fastforce
  then show ?thesis using d by (simp add: memcpy_def copy_up_moved)
qed

lemma fill_up_region: "n \<le> 2 ^ 64 \<Longrightarrow> fill_up b c n m = (\<lambda>x. if in_region b n x then c else m x)"
proof (induction n arbitrary: b m)
  case (Suc n)
  then have "fill_up (b + 1) c n (m(b := c)) = (\<lambda>x. if in_region (b + 1) n x then c else (m(b := c)) x)"
    by simp
  then show ?case using in_region_Suc [OF Suc.prems] by (auto simp: fun_eq_iff)
qed simp

subsection \<open>Strings\<close>

definition cstr :: "mem \<Rightarrow> u64 \<Rightarrow> u8 list \<Rightarrow> bool" where
  "cstr m a cs \<longleftrightarrow> (\<forall>i < length cs. m (a + of_nat i) = cs ! i \<and> cs ! i \<noteq> 0) \<and> m (a + of_nat (length cs)) = 0"

lemma cstr_Nil [simp]: "cstr m a [] \<longleftrightarrow> m a = 0"
  by (simp add: cstr_def)

lemma cstr_Cons [simp]: "cstr m a (c # cs) \<longleftrightarrow> m a = c \<and> c \<noteq> 0 \<and> cstr m (a + 1) cs"
proof -
  have "(\<forall>i < length (c # cs). m (a + of_nat i) = (c # cs) ! i \<and> (c # cs) ! i \<noteq> 0) \<longleftrightarrow>
    (m a = c \<and> c \<noteq> 0) \<and> (\<forall>i < length cs. m (a + 1 + of_nat i) = cs ! i \<and> cs ! i \<noteq> 0)"
    by (simp add: All_less_Suc2 algebra_simps)
  then show ?thesis by (auto simp: cstr_def algebra_simps)
qed

lemma strlen_from_cstr:
  "cstr m s cs \<Longrightarrow> strlen_from m str s = Some (s - str + of_nat (length cs))"
proof (induction cs arbitrary: s)
  case Nil
  then show ?case by (subst strlen_from.simps) simp
next
  case (Cons c cs)
  then show ?case by (subst strlen_from.simps) (simp add: algebra_simps)
qed

lemma strlen_cstr: "cstr m a cs \<Longrightarrow> strlen m a = Some (of_nat (length cs))"
  by (simp add: strlen_def strlen_from_cstr)

text \<open>Byte strings in dictionary order.\<close>

fun bytes_less :: "u8 list \<Rightarrow> u8 list \<Rightarrow> bool" where
  "bytes_less [] ys \<longleftrightarrow> ys \<noteq> []"
| "bytes_less (x # xs) [] \<longleftrightarrow> False"
| "bytes_less (x # xs) (y # ys) \<longleftrightarrow> x < y \<or> x = y \<and> bytes_less xs ys"

lemma byte_diff_sign:
  "uint (x :: u8) - uint y < 0 \<longleftrightarrow> x < y" "uint x - uint y = 0 \<longleftrightarrow> x = y"
  by (simp_all add: word_less_def word_uint_eq_iff)

lemma strcmp_cstr:
  assumes "cstr m a xs" and "cstr m b ys"
  shows "\<exists>r. strcmp m a b = Some r \<and> (r = 0 \<longleftrightarrow> xs = ys) \<and> (r < 0 \<longleftrightarrow> bytes_less xs ys)"
  using assms
proof (induction xs arbitrary: a b ys)
  case Nil
  show ?case
  proof (cases ys)
    case (Cons y zs)
    then have "m a = 0" "m b = y" "0 < y" using Nil by (simp_all add: word_gt_0)
    then show ?thesis using Cons byte_diff_sign [of 0 y] by (subst strcmp.simps) auto
  qed (use Nil in \<open>subst strcmp.simps, simp\<close>)
next
  case (Cons x xs)
  have x: "m a = x" "x \<noteq> 0" "cstr m (a + 1) xs" using Cons.prems by simp_all
  show ?case
  proof (cases ys)
    case Nil
    then show ?thesis using x Cons.prems(2) byte_diff_sign [of x 0] by (subst strcmp.simps) auto
  next
    case (Cons y zs)
    then have y: "m b = y" "cstr m (b + 1) zs" using Cons.prems(2) by simp_all
    show ?thesis
    proof (cases "x = y")
      case True
      then have "strcmp m a b = strcmp m (a + 1) (b + 1)" using x y by (subst strcmp.simps) simp
      then show ?thesis using Cons.IH [OF x(3) y(2)] True \<open>ys = y # zs\<close> by auto
    next
      case False
      then have "strcmp m a b = Some (uint x - uint y)" using x y by (subst strcmp.simps) simp
      then show ?thesis using False byte_diff_sign [of x y] \<open>ys = y # zs\<close> by auto
    qed
  qed
qed

text \<open>\<^verbatim>\<open>strcpy\<close> is an upward copy of the string and its terminator.\<close>

lemma strcpy_copy_up:
  assumes "cstr m src cs" and "\<And>i j. j < i \<Longrightarrow> i \<le> length cs \<Longrightarrow> dst + of_nat j \<noteq> src + of_nat i"
  shows "strcpy dst src m = Some (dst + of_nat (length cs) + 1, copy_up dst src (Suc (length cs)) m)"
  using assms
proof (induction cs arbitrary: dst src m)
  case Nil
  then show ?case by (subst strcpy.simps) simp
next
  case (Cons c cs)
  let ?m = "m(dst := m src)"
  have off: "dst \<noteq> src + 1 + of_nat i" if "i \<le> length cs" for i
    using Cons.prems(2) [of 0 "Suc i"] that by (simp add: algebra_simps)
  have "cstr m (src + 1) cs" using Cons.prems(1) by simp
  moreover have "?m (src + 1 + of_nat i) = m (src + 1 + of_nat i)" if "i \<le> length cs" for i
    using off [OF that] by simp
  ultimately have "cstr ?m (src + 1) cs" by (simp add: cstr_def del: fun_upd_apply)
  moreover have "dst + 1 + of_nat j \<noteq> src + 1 + of_nat i" if "j < i" "i \<le> length cs" for i j
    using Cons.prems(2) [of "Suc j" "Suc i"] that by (simp add: algebra_simps)
  ultimately have "strcpy (dst + 1) (src + 1) ?m =
      Some (dst + 1 + of_nat (length cs) + 1, copy_up (dst + 1) (src + 1) (Suc (length cs)) ?m)"
    by (rule Cons.IH)
  then show ?case using Cons.prems(1) by (subst strcpy.simps) (simp add: Let_def algebra_simps)
qed

subsection \<open>Properties\<close>

text \<open>(C13) memmove returns the destination, which afterwards holds the bytes the source
  held before, and changes no other byte, for regions that do not wrap and may overlap.\<close>

theorem memmove_correct:
  assumes "unat dst + unat n \<le> 2 ^ 64" and "unat src + unat n \<le> 2 ^ 64"
  shows "fst (memmove dst src n m) = dst \<and>
    (\<forall>i < unat n. snd (memmove dst src n m) (dst + of_nat i) = m (src + of_nat i)) \<and>
    (\<forall>x. (\<forall>i < unat n. x \<noteq> dst + of_nat i) \<longrightarrow> snd (memmove dst src n m) x = m x)"
proof -
  have "unat (of_nat i :: u64) = i" if "i < unat n" for i
    using that unat_bound64 [of n] by (intro unat_of_nat64) linarith
  then have *: "in_region dst (unat n) (dst + of_nat i)" if "i < unat n" for i
    using that by (simp add: in_region_def)
  have "\<exists>i < unat n. x = dst + of_nat i" if "in_region dst (unat n) x" for x
    using that by (intro exI [of _ "unat (x - dst)"]) (simp add: in_region_def)
  with * show ?thesis
    unfolding memmove_moved [OF assms] by (auto simp: moved_def)
qed

theorem memmove_correct_witness:
  "snd (memmove 0x1002 0x1000 4 (\<lambda>a. ucast a)) (0x1002 + of_nat 1) = 1"
proof -
  have "\<forall>i < unat (4 :: u64). snd (memmove 0x1002 0x1000 4 (\<lambda>a. ucast a)) (0x1002 + of_nat i) = (ucast (0x1000 + of_nat i :: u64) :: u8)"
    using memmove_correct [of "0x1002" 4 "0x1000" "\<lambda>a. ucast a"] by simp
  then have "snd (memmove 0x1002 0x1000 4 (\<lambda>a. ucast a)) (0x1002 + of_nat 1) = (ucast (0x1000 + of_nat 1 :: u64) :: u8)"
    by (elim allE [of _ 1]) simp
  then show ?thesis by simp
qed

theorem memcpy_eq_memmove:
  assumes "unat dst + unat n \<le> 2 ^ 64" and "unat src + unat n \<le> 2 ^ 64"
    and "unat dst + unat n \<le> unat src \<or> unat src + unat n \<le> unat dst"
  shows "memcpy dst src n m = memmove dst src n m"
  by (simp add: memcpy_moved [OF assms] memmove_moved [OF assms(1,2)])

theorem memcpy_eq_memmove_witness:
  "memcpy 0x2000 0x1000 16 (\<lambda>a. ucast a) = memmove 0x2000 0x1000 16 (\<lambda>a. ucast a)"
  by (rule memcpy_eq_memmove) simp_all

theorem strcmp_correct:
  assumes "cstr m a xs" and "cstr m b ys"
  shows "\<exists>r. strcmp m a b = Some r \<and> (r = 0 \<longleftrightarrow> xs = ys) \<and> (r < 0 \<longleftrightarrow> bytes_less xs ys)"
  by (rule strcmp_cstr [OF assms])

theorem strdup_correct:
  assumes "cstr m src cs" and "length cs + 1 < 2 ^ 64" and "kmem_alloc (of_nat (length cs + 1)) s = Some (p, s')"
    and "unat p + (length cs + 1) \<le> 2 ^ 64" and "unat src + (length cs + 1) \<le> 2 ^ 64"
    and "unat p + (length cs + 1) \<le> unat src \<or> unat src + (length cs + 1) \<le> unat p"
  shows "\<exists>m'. strdup kmem_alloc src (m, s) = Some (p, m', s') \<and> cstr m' p cs \<and> cstr m' src cs \<and>
    (\<forall>x. \<not> in_region p (length cs + 1) x \<longrightarrow> m' x = m x)"
proof -
  let ?n = "of_nat (length cs + 1) :: u64"
  have n: "unat ?n = length cs + 1" using assms(2) by (simp only: unat_of_nat) (simp add: take_bit_nat_eq_self)
  have cp: "memcpy p src ?n m = (p, moved p src (length cs + 1) m)"
    using memcpy_moved [of p ?n src m] assms(4-6) unfolding n by simp
  have len: "of_nat (length cs) + 1 = ?n" by simp
  have run: "strdup kmem_alloc src (m, s) = Some (p, moved p src (length cs + 1) m, s')"
    using assms(3) cp unfolding strdup_def by (simp add: strlen_cstr [OF assms(1)] Let_def len del: of_nat_add of_nat_Suc)
  have i: "unat (of_nat i :: u64) = i" if "i \<le> length cs" for i
    using that assms(2) by (simp add: unat_of_nat take_bit_nat_eq_self)
  have "cstr (moved p src (length cs + 1) m) p cs"
    using assms(1) i by (auto simp: cstr_def moved_def in_region_def)
  moreover have "\<not> in_region p (length cs + 1) (src + of_nat i)" if "i \<le> length cs" for i
  proof
    define j where "j = unat (src + of_nat i - p)"
    assume "in_region p (length cs + 1) (src + of_nat i)"
    then have "j < length cs + 1" "src + of_nat i = p + of_nat j" by (simp_all add: in_region_def j_def)
    then have "unat src + i = unat p + j"
      using offset_unat [OF assms(4), of j] offset_unat [OF assms(5), of i] that by simp
    then show False using assms(6) that \<open>j < length cs + 1\<close> by linarith
  qed
  then have "cstr (moved p src (length cs + 1) m) src cs"
    using assms(1) by (auto simp: cstr_def moved_def)
  ultimately show ?thesis using run by (auto simp: moved_def)
qed

theorem strcmp_correct_witness:
  "\<exists>r. strcmp (\<lambda>a. if a = 0x10 then 97 else if a = 0x20 then 98 else 0) 0x10 0x20 = Some r \<and> r < 0"
  using strcmp_correct [of "\<lambda>a. if a = 0x10 then 97 else if a = 0x20 then 98 else 0" "0x10" "[97]" "0x20" "[98]"]
  by auto

theorem strdup_correct_witness:
  "\<exists>m'. strdup (\<lambda>n s. Some (0x20, s)) 0x10 (\<lambda>a. if a = 0x10 then 97 else 0, ()) = Some (0x20, m', ()) \<and>
     cstr m' 0x20 [97]"
  using strdup_correct [of "\<lambda>a. if a = 0x10 then 97 else 0" "0x10" "[97]" "\<lambda>n s. Some (0x20, s)" "()" "0x20" "()"]
  by auto

end
