(* ===== verification/Uuid.thy ===== *)
theory Uuid
  imports Klib
begin

text \<open>
  UUIDs, \<^verbatim>\<open>libkern/uuid.c\<close> with \<^verbatim>\<open>libkern/uuidP.h\<close>: the 16-byte form and the structured form,
  packing and unpacking in network byte order, comparison and the test for the null UUID.
\<close>

record uuid =
  time_low :: u32
  time_mid :: u16
  time_hi_and_version :: u16
  clock_seq :: u16
  node :: "u8 list"

type_synonym uuid_t = "u8 list"

definition wf_uuid :: "uuid \<Rightarrow> bool" where
  "wf_uuid u \<longleftrightarrow> length (node u) = 6"

text \<open>The successive \<^verbatim>\<open>out[k] = (unsigned char) tmp; tmp >>= 8\<close> of one field, highest byte first.\<close>

definition out4 :: "u32 \<Rightarrow> u8 list" where
  "out4 tmp = [ucast (drop_bit 8 (drop_bit 8 (drop_bit 8 tmp))), ucast (drop_bit 8 (drop_bit 8 tmp)),
               ucast (drop_bit 8 tmp), ucast tmp]"

definition out2 :: "u16 \<Rightarrow> u8 list" where
  "out2 v = (let tmp = ucast v :: u32 in [ucast (drop_bit 8 tmp), ucast tmp])"

definition uuid_pack :: "uuid \<Rightarrow> uuid_t" where
  "uuid_pack uu = out4 (time_low uu) @ out2 (time_mid uu) @ out2 (time_hi_and_version uu) @
     out2 (clock_seq uu) @ take 6 (node uu)"

text \<open>\<^verbatim>\<open>tmp = (tmp << 8) | *ptr++\<close>\<close>

definition shift_in :: "u32 \<Rightarrow> u8 \<Rightarrow> u32" where
  "shift_in tmp b = push_bit 8 tmp OR ucast b"

definition in4 :: "u8 list \<Rightarrow> nat \<Rightarrow> u32" where
  "in4 p i = shift_in (shift_in (shift_in (ucast (p ! i)) (p ! (i + 1))) (p ! (i + 2))) (p ! (i + 3))"

definition in2 :: "u8 list \<Rightarrow> nat \<Rightarrow> u16" where
  "in2 p i = ucast (shift_in (ucast (p ! i)) (p ! (i + 1)))"

definition uuid_unpack :: "uuid_t \<Rightarrow> uuid" where
  "uuid_unpack p = \<lparr>time_low = in4 p 0, time_mid = in2 p 4, time_hi_and_version = in2 p 6,
     clock_seq = in2 p 8, node = take 6 (drop 10 p)\<rparr>"

text \<open>\<^verbatim>\<open>UUCMP\<close>: decide on one pair of fields, or go on.\<close>

definition UUCMP :: "'a::linorder \<Rightarrow> 'a \<Rightarrow> int \<Rightarrow> int" where
  "UUCMP u1 u2 rest = (if u1 \<noteq> u2 then if u1 < u2 then - 1 else 1 else rest)"

definition uuid_compare :: "uuid_t \<Rightarrow> uuid_t \<Rightarrow> int" where
  "uuid_compare uu1 uu2 = (let uuid1 = uuid_unpack uu1; uuid2 = uuid_unpack uu2 in
     UUCMP (time_low uuid1) (time_low uuid2)
     (UUCMP (time_mid uuid1) (time_mid uuid2)
     (UUCMP (time_hi_and_version uuid1) (time_hi_and_version uuid2)
     (UUCMP (clock_seq uuid1) (clock_seq uuid2)
     (memcmp (\<lambda>i. node uuid1 ! i) (\<lambda>i. node uuid2 ! i) 6)))))"

fun null_from :: "uuid_t \<Rightarrow> nat \<Rightarrow> nat \<Rightarrow> int" where
  "null_from uu i 0 = 1"
| "null_from uu i (Suc n) = (if uu ! i \<noteq> 0 then 0 else null_from uu (Suc i) n)"

definition uuid_is_null :: "uuid_t \<Rightarrow> int" where
  "uuid_is_null uu = null_from uu 0 16"

subsection \<open>Round trips\<close>

lemma shift_in_bytes4:
  "shift_in (shift_in (shift_in (ucast (ucast (drop_bit 24 w) :: u8))
     (ucast (drop_bit 16 w))) (ucast (drop_bit 8 w))) (ucast w) = w" for w :: u32
proof (rule bit_word_eqI)
  fix n
  assume "n < LENGTH(32)"
  then have "n < 32" by simp
  then consider "n < 8" | "8 \<le> n" "n < 16" | "16 \<le> n" "n < 24" | "24 \<le> n" "n < 32" by linarith
  then show "bit (shift_in (shift_in (shift_in (ucast (ucast (drop_bit 24 w) :: u8))
     (ucast (drop_bit 16 w))) (ucast (drop_bit 8 w))) (ucast w)) n \<longleftrightarrow> bit w n"
    by cases (auto simp: shift_in_def bit_simps)
qed

lemma shift_in_bytes2:
  "ucast (shift_in (ucast (ucast (drop_bit 8 (ucast v :: u32)) :: u8)) (ucast (ucast v :: u32))) = v" for v :: u16
proof (rule bit_word_eqI)
  fix n
  assume "n < LENGTH(16)"
  then have "n < 16" by simp
  then consider "n < 8" | "8 \<le> n" "n < 16" by linarith
  then show "bit (ucast (shift_in (ucast (ucast (drop_bit 8 (ucast v :: u32)) :: u8)) (ucast (ucast v :: u32))) :: u16) n
      \<longleftrightarrow> bit v n"
    by cases (auto simp: shift_in_def bit_simps)
qed

lemma bit_u8_high [simp]: "8 \<le> n \<Longrightarrow> \<not> bit (b :: u8) n"
  using bit_imp_le_length [of b n] by auto

lemma list_16:
  assumes "length xs = 16"
  obtains a b c d e f g h i j k l m n q r where "xs = [a,b,c,d,e,f,g,h,i,j,k,l,m,n,q,r]"
  using assms by (auto simp: numeral_eq_Suc length_Suc_conv)

lemma unpack_pack: "wf_uuid u \<Longrightarrow> uuid_unpack (uuid_pack u) = u"
proof -
  assume "wf_uuid u"
  then obtain a b c d e f where n: "node u = [a,b,c,d,e,f]"
    by (auto simp: wf_uuid_def numeral_eq_Suc length_Suc_conv)
  show ?thesis
    by (simp add: uuid_unpack_def uuid_pack_def out4_def out2_def in4_def in2_def n Let_def
        shift_in_bytes4 shift_in_bytes2)
qed

lemma out4_in4: "out4 (shift_in (shift_in (shift_in (ucast a) b) c) d) = [a, b, c, d]"
  unfolding out4_def shift_in_def list.inject
  by (intro conjI refl; rule bit_word_eqI) (auto simp: bit_simps)

lemma out2_in2: "out2 (ucast (shift_in (ucast a) b)) = [a, b]"
  unfolding out2_def shift_in_def Let_def list.inject
  by (intro conjI refl; rule bit_word_eqI) (auto simp: bit_simps)

lemma pack_unpack: "length p = 16 \<Longrightarrow> uuid_pack (uuid_unpack p) = p"
proof -
  assume "length p = 16"
  then obtain a b c d e f g h i j k l m n q r where p: "p = [a,b,c,d,e,f,g,h,i,j,k,l,m,n,q,r]"
    by (rule list_16)
  show ?thesis
    unfolding p by (simp add: uuid_unpack_def uuid_pack_def in4_def in2_def out4_in4 out2_in2)
qed

subsection \<open>Comparison\<close>

lemma memcmp_from_lex:
  "memcmp_from (\<lambda>i. xs ! i) (\<lambda>i. ys ! i) i n = memcmp_from (\<lambda>k. drop i xs ! k) (\<lambda>k. drop i ys ! k) 0 n"
  if "i \<le> length xs" "i \<le> length ys"
proof -
  have "memcmp_from f g (i + k) n = memcmp_from (\<lambda>k. f (i + k)) (\<lambda>k. g (i + k)) k n" for f g k
    by (induction n arbitrary: k) (auto simp flip: add_Suc_right)
  from this [of _ _ 0] that show ?thesis by simp
qed

text \<open>Three-way comparison of byte lists of the same length in dictionary order.\<close>

fun lex3 :: "u8 list \<Rightarrow> u8 list \<Rightarrow> int" where
  "lex3 (x # xs) (y # ys) = UUCMP x y (lex3 xs ys)"
| "lex3 _ _ = 0"

lemma memcmp_lex3: "length xs = length ys \<Longrightarrow> memcmp (\<lambda>i. xs ! i) (\<lambda>i. ys ! i) (length xs) = lex3 xs ys"
proof (induction xs ys rule: list_induct2)
  case (Cons x xs y ys)
  have "memcmp_from (\<lambda>i. (x # xs) ! i) (\<lambda>i. (y # ys) ! i) 1 (length xs) =
      memcmp_from (\<lambda>i. xs ! i) (\<lambda>i. ys ! i) 0 (length xs)"
    using memcmp_from_lex [of 1 "x # xs" "y # ys"] by simp
  with Cons show ?case by (auto simp: memcmp_def UUCMP_def)
qed (simp add: memcmp_def)

lemma byte_bound: "unat (d :: u8) < 256"
proof -
  have "unat d < 2 ^ LENGTH(8)" by (rule unsigned_less)
  then show ?thesis by simp
qed

lemma unat_byte [simp]: "unat (ucast (d :: u8) :: u32) = unat d"
  using byte_bound [of d] by (simp add: unsigned_ucast_eq take_bit_nat_eq_self)

lemma shift_in_value:
  fixes c :: u32 and d :: u8
  assumes "unat c < 2 ^ 24"
  shows "unat (shift_in c d) = 256 * unat c + unat d"
proof -
  have "shift_in c d = push_bit 8 c + ucast d"
    unfolding shift_in_def by (rule disjunctive_add [symmetric]) (auto simp: bit_simps)
  moreover have "unat (push_bit 8 c) = 256 * unat c"
    using assms by (simp add: push_bit_eq_mult unat_word_ariths)
  ultimately show ?thesis
    using assms byte_bound [of d] unat_add_nowrap [of "push_bit 8 c" "ucast d"] by simp
qed

lemma in2_value: "unat (in2 p i) = 256 * unat (p ! i) + unat (p ! (i + 1))"
proof -
  have b: "unat (p ! i) < 256" "unat (p ! (i + 1)) < 256" by (rule byte_bound)+
  have v: "unat (shift_in (ucast (p ! i)) (p ! (i + 1))) = 256 * unat (p ! i) + unat (p ! (i + 1))"
    using b by (subst shift_in_value) simp_all
  have "unat (in2 p i) = take_bit 16 (unat (shift_in (ucast (p ! i)) (p ! (i + 1))))"
    unfolding in2_def by (simp add: unsigned_ucast_eq)
  also have "\<dots> = 256 * unat (p ! i) + unat (p ! (i + 1))"
    unfolding v using b by (intro take_bit_nat_eq_self) simp
  finally show ?thesis .
qed

lemma in4_value:
  "unat (in4 p i) = 256 * (256 * (256 * unat (p ! i) + unat (p ! (i + 1))) + unat (p ! (i + 2))) + unat (p ! (i + 3))"
proof -
  have b: "unat (p ! i) < 256" "unat (p ! (i + 1)) < 256" "unat (p ! (i + 2)) < 256" by (rule byte_bound)+
  have v1: "unat (shift_in (ucast (p ! i)) (p ! (i + 1))) = 256 * unat (p ! i) + unat (p ! (i + 1))"
    using b by (subst shift_in_value) simp_all
  have v2: "unat (shift_in (shift_in (ucast (p ! i)) (p ! (i + 1))) (p ! (i + 2))) =
      256 * (256 * unat (p ! i) + unat (p ! (i + 1))) + unat (p ! (i + 2))"
    using b v1 by (subst shift_in_value) simp_all
  show ?thesis
    unfolding in4_def using b v2 by (subst shift_in_value) simp_all
qed

lemma UUCMP_unat: "UUCMP (u :: 'a::len word) v r = UUCMP (unat u) (unat v) r"
  by (simp add: UUCMP_def word_less_nat_alt word_unat_eq_iff)

lemma UUCMP_digits:
  fixes b b' :: u8
  shows "UUCMP (256 * a + unat b) (256 * a' + unat b') r = UUCMP a a' (UUCMP b b' r)"
  using byte_bound [of b] byte_bound [of b']
  unfolding UUCMP_unat [of b] by (auto simp: UUCMP_def)

lemma uuid_compare_lex3:
  assumes "length p = 16" and "length q = 16"
  shows "uuid_compare p q = lex3 p q"
proof -
  obtain a b c d e f g h i j k l m n x y where p: "p = [a,b,c,d,e,f,g,h,i,j,k,l,m,n,x,y]"
    using assms(1) by (rule list_16)
  obtain a' b' c' d' e' f' g' h' i' j' k' l' m' n' x' y' where
    q: "q = [a',b',c',d',e',f',g',h',i',j',k',l',m',n',x',y']"
    using assms(2) by (rule list_16)
  have n: "memcmp (\<lambda>i. [k,l,m,n,x,y] ! i) (\<lambda>i. [k',l',m',n',x',y'] ! i) 6 = lex3 [k,l,m,n,x,y] [k',l',m',n',x',y']"
    using memcmp_lex3 [of "[k,l,m,n,x,y]" "[k',l',m',n',x',y']"] by (simp add: numeral_eq_Suc)
  have fields: "node (uuid_unpack p) = [k,l,m,n,x,y]" "node (uuid_unpack q) = [k',l',m',n',x',y']"
    by (simp_all add: uuid_unpack_def p q)
  have top: "UUCMP a a' = UUCMP (unat a) (unat a')" "UUCMP e e' = UUCMP (unat e) (unat e')"
    "UUCMP g g' = UUCMP (unat g) (unat g')" "UUCMP i i' = UUCMP (unat i) (unat i')"
    by (rule ext, rule UUCMP_unat)+
  have "uuid_compare p q = UUCMP (in4 p 0) (in4 q 0) (UUCMP (in2 p 4) (in2 q 4)
      (UUCMP (in2 p 6) (in2 q 6) (UUCMP (in2 p 8) (in2 q 8) (lex3 [k,l,m,n,x,y] [k',l',m',n',x',y']))))"
    unfolding uuid_compare_def Let_def fields n by (simp add: uuid_unpack_def)
  also have "\<dots> = lex3 p q"
    unfolding UUCMP_unat [of "in4 p 0"] UUCMP_unat [of "in2 p _"] in4_value in2_value UUCMP_digits
    by (simp add: p q top)
  finally show ?thesis .
qed

lemma lex3_cases:
  "length p = length q \<Longrightarrow> (lex3 p q = 0 \<longleftrightarrow> p = q) \<and> (lex3 p q < 0 \<longleftrightarrow> bytes_less p q) \<and> lex3 q p = - lex3 p q"
  by (induction p q rule: list_induct2) (auto simp: UUCMP_def)

lemma null_from_spec: "null_from uu i n = (if \<forall>k < n. uu ! (i + k) = 0 then 1 else 0)"
  by (induction n arbitrary: i) (auto simp: All_less_Suc2)

subsection \<open>Properties\<close>

text \<open>(C14) uuid_unpack undoes uuid_pack on every UUID structure and uuid_pack undoes
  uuid_unpack on every sequence of 16 bytes.\<close>

theorem uuid_round_trip:
  "(wf_uuid u \<longrightarrow> uuid_unpack (uuid_pack u) = u \<and> length (uuid_pack u) = 16) \<and>
   (length p = 16 \<longrightarrow> uuid_pack (uuid_unpack p) = p)"
  by (auto simp: unpack_pack pack_unpack) (simp add: uuid_pack_def out4_def out2_def Let_def wf_uuid_def)

theorem uuid_round_trip_witness:
  "uuid_unpack (uuid_pack \<lparr>time_low = 0x12345678, time_mid = 0x9abc, time_hi_and_version = 0x4def,
      clock_seq = 0x8123, node = [1, 2, 3, 4, 5, 6]\<rparr>) =
    \<lparr>time_low = 0x12345678, time_mid = 0x9abc, time_hi_and_version = 0x4def,
      clock_seq = 0x8123, node = [1, 2, 3, 4, 5, 6]\<rparr>"
  using uuid_round_trip [of "\<lparr>time_low = 0x12345678, time_mid = 0x9abc, time_hi_and_version = 0x4def,
      clock_seq = 0x8123, node = [1, 2, 3, 4, 5, 6]\<rparr>"] by (simp add: wf_uuid_def)

theorem uuid_compare_bytewise:
  assumes "length p = 16" and "length q = 16"
  shows "uuid_compare p q = memcmp (\<lambda>i. p ! i) (\<lambda>i. q ! i) 16 \<and>
    (uuid_compare p q = 0 \<longleftrightarrow> p = q) \<and> (uuid_compare p q < 0 \<longleftrightarrow> bytes_less p q) \<and>
    uuid_compare q p = - uuid_compare p q"
  using lex3_cases [of p q] memcmp_lex3 [of p q] assms
  by (simp add: uuid_compare_lex3)

theorem uuid_compare_bytewise_witness:
  "uuid_compare (replicate 16 1) (replicate 15 1 @ [2]) < 0"
proof -
  have "bytes_less (replicate 16 1) (replicate 15 1 @ [2])" by code_simp
  then show ?thesis using uuid_compare_bytewise [of "replicate 16 1" "replicate 15 1 @ [2]"] by simp
qed

lemma uuid_is_null_correct: "length p = 16 \<Longrightarrow> uuid_is_null p = (if p = replicate 16 0 then 1 else 0)"
  by (auto simp: uuid_is_null_def null_from_spec list_eq_iff_nth_eq)

end
