(* ===== verification/VmPage.thy ===== *)
theory VmPage
  imports Prelude
begin

text \<open>
  Physical pages and memory descriptor lists: \<^verbatim>\<open>vm/vm_page.c\<close> with the page part of
  \<^verbatim>\<open>vm/vm.h\<close> and the direct map of \<^verbatim>\<open>machine/vm.h\<close>.

  A page structure is referenced by the number of its physical region and its index there. The
  state holds the page structures, the six page queues, the physical regions and physical memory
  as 64-bit words at 8-byte aligned addresses. The kernel reaches physical memory through the
  direct map at \<open>HHDM_BASE\<close>; the model addresses it by physical address. Kernel heap functions
  are taken from a \<open>heap\<close> record over the state of the heap. Locks are not part of this
  sequential model.
\<close>

subsection \<open>Data\<close>

datatype vm_page_queue =
  kVMPageFree | kVMPageKMem | kVMPageWired | kVMPageActive | kVMPageInactive | kVMPagePMap

datatype pgq = vm_pgfreeq | vm_pgkmemq | vm_pgwiredq | vm_pgactiveq | vm_pginactiveq | vm_pgpmapq

type_synonym page_ref = "nat \<times> nat"
type_synonym map_ref = nat
type_synonym anon_ref = u64

text \<open>The entry's own address is that of the heap object that holds it.\<close>

record pv_entry =
  pv_addr :: u64
  pv_map :: map_ref
  pv_vaddr :: u64

record vm_page =
  pg_queue :: vm_page_queue
  pg_anon :: "anon_ref option"
  pv_table :: "pv_entry list"
  paddr :: u64

record vm_pagequeue =
  pq_queue :: "page_ref list"
  pq_npages :: u64

record vm_pregion =
  preg_base :: u64
  preg_npages :: u64

record phys =
  page_of :: "page_ref \<Rightarrow> vm_page"
  pgqueues :: "pgq \<Rightarrow> vm_pagequeue"
  vm_pregion_queue :: "vm_pregion list"
  pmem :: "u64 \<Rightarrow> u64"

record 'k heap =
  h_alloc :: "u64 \<Rightarrow> 'k \<Rightarrow> (u64 \<times> 'k) option"
  h_free :: "u64 \<Rightarrow> u64 \<Rightarrow> 'k \<Rightarrow> 'k option"

definition HHDM_BASE :: u64 where "HHDM_BASE = 0xffff800000000000"

definition P2V :: "u64 \<Rightarrow> u64" where "P2V addr = addr + HHDM_BASE"
definition V2P :: "u64 \<Rightarrow> u64" where "V2P addr = addr - HHDM_BASE"

definition ENOMEM :: int where "ENOMEM = 12"

subsection \<open>Pages\<close>

text \<open>\<^verbatim>\<open>memset(P2V(paddr), 0x0, PGSIZE)\<close> in terms of physical memory.\<close>

definition zero_page :: "u64 \<Rightarrow> (u64 \<Rightarrow> u64) \<Rightarrow> u64 \<Rightarrow> u64" where
  "zero_page pa m = (\<lambda>a. if a - pa < PGSIZE then 0 else m a)"

fun find_region :: "u64 \<Rightarrow> nat \<Rightarrow> vm_pregion list \<Rightarrow> page_ref option" where
  "find_region pa k [] = None"
| "find_region pa k (preg # rest) =
     (if preg_base preg \<le> pa \<and> preg_base preg + PGSIZE * preg_npages preg > pa
      then Some (k, unat ((pa - preg_base preg) div PGSIZE))
      else find_region pa (Suc k) rest)"

definition vm_page_from_paddr :: "u64 \<Rightarrow> phys \<Rightarrow> page_ref option" where
  "vm_page_from_paddr pa ph = find_region pa 0 (vm_pregion_queue ph)"

definition vm_page_queue_of :: "vm_page \<Rightarrow> pgq option" where
  "vm_page_queue_of page = (case pg_queue page of
     kVMPageFree \<Rightarrow> Some vm_pgfreeq
   | kVMPageKMem \<Rightarrow> Some vm_pgkmemq
   | kVMPageWired \<Rightarrow> Some vm_pgactiveq
   | kVMPageActive \<Rightarrow> Some vm_pgactiveq
   | kVMPageInactive \<Rightarrow> Some vm_pginactiveq
   | kVMPagePMap \<Rightarrow> None)"

text \<open>
  \<^verbatim>\<open>TAILQ_REMOVE(&from->queue, page, pagequeue)\<close> takes the page out of the list its links belong
  to, whichever queue is named; only the counter of the named queue changes. When the page is the
  last of a queue that is not the named one, the macro also redirects the tail pointer of the named
  queue, which the lists here do not show: the definition is exact whenever the page is on the
  queue named or is not the last of its queue.
\<close>

definition pages_unlink :: "page_ref \<Rightarrow> (pgq \<Rightarrow> vm_pagequeue) \<Rightarrow> pgq \<Rightarrow> vm_pagequeue" where
  "pages_unlink page qs = (\<lambda>q. (qs q)\<lparr>pq_queue := remove1 page (pq_queue (qs q))\<rparr>)"

definition count_add :: "pgq \<Rightarrow> u64 \<Rightarrow> (pgq \<Rightarrow> vm_pagequeue) \<Rightarrow> pgq \<Rightarrow> vm_pagequeue" where
  "count_add q d qs = qs(q := (qs q)\<lparr>pq_npages := pq_npages (qs q) + d\<rparr>)"

definition push_page :: "page_ref \<Rightarrow> pgq \<Rightarrow> (pgq \<Rightarrow> vm_pagequeue) \<Rightarrow> pgq \<Rightarrow> vm_pagequeue" where
  "push_page page q qs = qs(q := (qs q)\<lparr>pq_queue := page # pq_queue (qs q)\<rparr>)"

definition vm_page_changequeue :: "page_ref option \<Rightarrow> pgq option \<Rightarrow> pgq \<Rightarrow> phys \<Rightarrow> phys option" where
  "vm_page_changequeue page0 from0 to ph = do {
     page \<leftarrow> page0;
     from \<leftarrow> (case from0 of Some q \<Rightarrow> Some q | None \<Rightarrow> vm_page_queue_of (page_of ph page));
     let qs1 = count_add from (- 1) (pages_unlink page (pgqueues ph));
     let qs2 = count_add to 1 (push_page page to qs1);
     Some (ph\<lparr>pgqueues := qs2\<rparr>)
   }"

definition vm_pagealloc :: "bool \<Rightarrow> pgq \<Rightarrow> phys \<Rightarrow> (page_ref \<times> phys) option" where
  "vm_pagealloc sleep queue ph = do {
     page \<leftarrow> first_of (pq_queue (pgqueues ph vm_pgfreeq));
     ph1 \<leftarrow> vm_page_changequeue (Some page) (Some vm_pgfreeq) queue ph;
     Some (page, ph1\<lparr>pmem := zero_page (paddr (page_of ph1 page)) (pmem ph1)\<rparr>)
   }"

definition vm_page_free :: "page_ref option \<Rightarrow> phys \<Rightarrow> phys option" where
  "vm_page_free page ph = vm_page_changequeue page None vm_pgfreeq ph"

definition vm_pagedump :: "phys \<Rightarrow> u64 list" where
  "vm_pagedump ph = map (\<lambda>q. pq_npages (pgqueues ph q))
     [vm_pgfreeq, vm_pgkmemq, vm_pgwiredq, vm_pgactiveq, vm_pginactiveq, vm_pgpmapq]"

subsection \<open>Memory descriptor lists\<close>

record vm_mdl =
  mdl_addr :: u64
  mdl_offset :: u64
  mdl_nBytes :: u64
  mdl_nPages :: u64
  mdl_pages :: "page_ref list"

text \<open>\<^verbatim>\<open>sizeof(vm_mdl_t) + sizeof(vm_page_t *) * nPages\<close>\<close>

definition mdl_size :: "u64 \<Rightarrow> u64" where
  "mdl_size nPages = 24 + 8 * nPages"

fun alloc_pages :: "nat \<Rightarrow> pgq \<Rightarrow> phys \<Rightarrow> (page_ref list \<times> phys) option" where
  "alloc_pages 0 q ph = Some ([], ph)"
| "alloc_pages (Suc n) q ph = do {
     (page, ph1) \<leftarrow> vm_pagealloc True q ph;
     (rest, ph2) \<leftarrow> alloc_pages n q ph1;
     Some (page # rest, ph2)
   }"

definition vm_mdl_new_with_capacity ::
  "'k heap \<Rightarrow> u64 \<Rightarrow> phys \<times> 'k \<Rightarrow> ((int \<times> vm_mdl option) \<times> phys \<times> 'k) option" where
  "vm_mdl_new_with_capacity h bytes = (\<lambda>(ph, k). do {
     let nPages = PGROUNDUP bytes div PGSIZE;
     (a, k1) \<leftarrow> h_alloc h (mdl_size nPages) k;
     if a = 0 then Some ((- ENOMEM, None), ph, k1)
     else do {
       (pages, ph1) \<leftarrow> alloc_pages (unat nPages) vm_pgwiredq ph;
       Some ((0, Some \<lparr>mdl_addr = a, mdl_offset = 0, mdl_nBytes = bytes, mdl_nPages = nPages, mdl_pages = pages\<rparr>),
             ph1, k1)
     }
   })"

text \<open>
  The copy loop of \<^verbatim>\<open>vm_mdl_expand\<close> writes every page pointer of the old list; a new list with
  fewer slots is written past its end, which is not a defined state.
\<close>

definition vm_mdl_expand ::
  "'k heap \<Rightarrow> vm_mdl \<Rightarrow> u64 \<Rightarrow> phys \<times> 'k \<Rightarrow> ((int \<times> vm_mdl) \<times> phys \<times> 'k) option" where
  "vm_mdl_expand h mdl bytes = (\<lambda>(ph, k). do {
     let nPages = PGROUNDUP bytes div PGSIZE;
     (a, k1) \<leftarrow> h_alloc h (mdl_size nPages) k;
     if a = 0 then Some ((- ENOMEM, mdl), ph, k1)
     else do {
       kassert (mdl_nPages mdl \<le> nPages);
       (pages, ph1) \<leftarrow> alloc_pages (unat (nPages - mdl_nPages mdl)) vm_pgwiredq ph;
       k2 \<leftarrow> h_free h (mdl_addr mdl) (mdl_size (mdl_nPages mdl)) k1;
       Some ((0, \<lparr>mdl_addr = a, mdl_offset = 0, mdl_nBytes = bytes, mdl_nPages = nPages,
                   mdl_pages = mdl_pages mdl @ pages\<rparr>), ph1, k2)
     }
   })"

definition vm_mdl_capacity :: "vm_mdl \<Rightarrow> u64" where
  "vm_mdl_capacity mdl = mdl_nPages mdl * PGSIZE"

text \<open>A byte of physical memory, little-endian.\<close>

definition pmem_byte :: "(u64 \<Rightarrow> u64) \<Rightarrow> u64 \<Rightarrow> u8" where
  "pmem_byte m a = ucast (drop_bit (8 * unat (a AND 7)) (m (a AND NOT 7)))"

definition copy_out :: "nat \<Rightarrow> u64 \<Rightarrow> nat \<Rightarrow> (u64 \<Rightarrow> u64) \<Rightarrow> (nat \<Rightarrow> u8) \<Rightarrow> nat \<Rightarrow> u8" where
  "copy_out dst src n m buf = (\<lambda>i. if dst \<le> i \<and> i < dst + n then pmem_byte m (src + of_nat (i - dst)) else buf i)"

text \<open>The loop over pages; \<open>k\<close> is \<^verbatim>\<open>iPage - firstpage\<close>.\<close>

fun mdl_copy_loop ::
  "phys \<Rightarrow> vm_mdl \<Rightarrow> nat \<Rightarrow> nat \<Rightarrow> nat \<Rightarrow> u64 \<Rightarrow> u64 \<Rightarrow> (nat \<Rightarrow> u8) \<Rightarrow> (nat \<Rightarrow> u8) option" where
  "mdl_copy_loop ph mdl firstpage k 0 nBytes pageoff buf = Some buf"
| "mdl_copy_loop ph mdl firstpage k (Suc n) nBytes pageoff buf =
     (let tocopy = (if nBytes > PGSIZE then PGSIZE - pageoff else nBytes) in
      if firstpage + k < length (mdl_pages mdl) then
        let page = page_of ph (mdl_pages mdl ! (firstpage + k));
            buf1 = copy_out (k * 4096) (paddr page + pageoff) (unat tocopy) (pmem ph) buf
        in mdl_copy_loop ph mdl firstpage (Suc k) n (nBytes - tocopy) 0 buf1
      else None)"

definition vm_mdl_copy :: "phys \<Rightarrow> vm_mdl \<Rightarrow> (nat \<Rightarrow> u8) \<Rightarrow> u64 \<Rightarrow> u64 \<Rightarrow> (nat \<Rightarrow> u8) option" where
  "vm_mdl_copy ph mdl buf nBytes off0 = (
     let off = off0 + mdl_offset mdl;
         base = PGROUNDDOWN off;
         pageoff = off - base;
         firstpage = base div PGSIZE;
         lastpage = firstpage + (pageoff + nBytes - 1) div PGSIZE + 1
     in mdl_copy_loop ph mdl (unat firstpage) 0 (unat lastpage - unat firstpage) nBytes pageoff buf)"

fun zero_pages :: "vm_mdl \<Rightarrow> nat list \<Rightarrow> phys \<Rightarrow> phys option" where
  "zero_pages mdl [] ph = Some ph"
| "zero_pages mdl (i # is) ph =
     (if i < length (mdl_pages mdl)
      then zero_pages mdl is (ph\<lparr>pmem := zero_page (paddr (page_of ph (mdl_pages mdl ! i))) (pmem ph)\<rparr>)
      else None)"

definition vm_mdl_zero :: "vm_mdl \<Rightarrow> phys \<Rightarrow> phys option" where
  "vm_mdl_zero mdl ph = zero_pages mdl [0..<(unat (mdl_nBytes mdl) + 4095) div 4096] ph"

subsection \<open>The page queues\<close>

definition page_list :: "phys \<Rightarrow> pgq \<Rightarrow> page_ref list" where
  "page_list ph q = pq_queue (pgqueues ph q)"

definition on_queues :: "phys \<Rightarrow> page_ref set" where
  "on_queues ph = (\<Union>q. set (page_list ph q))"

text \<open>Every page is on one queue at most, and the frames of different pages do not meet.\<close>

definition frame :: "phys \<Rightarrow> page_ref \<Rightarrow> u64 set" where
  "frame ph p = {a. a - paddr (page_of ph p) < PGSIZE}"

definition pages_ok :: "phys \<Rightarrow> bool" where
  "pages_ok ph \<longleftrightarrow> (\<forall>q. distinct (page_list ph q)) \<and>
     (\<forall>q r. q \<noteq> r \<longrightarrow> set (page_list ph q) \<inter> set (page_list ph r) = {}) \<and>
     (\<forall>p \<in> on_queues ph. \<forall>p' \<in> on_queues ph. p \<noteq> p' \<longrightarrow> frame ph p \<inter> frame ph p' = {})"

lemma pages_ok_unique: "pages_ok ph \<Longrightarrow> p \<in> set (page_list ph q) \<Longrightarrow> p \<in> set (page_list ph r) \<Longrightarrow> q = r"
  unfolding pages_ok_def by blast

text \<open>Moving a page from the queue it is on to another one, whatever queue the caller names.\<close>

lemma changequeue_lists:
  assumes ok: "pages_ok ph" and p: "p \<in> set (page_list ph q)" and ne: "q \<noteq> to"
    and fr: "(case from0 of Some f \<Rightarrow> Some f | None \<Rightarrow> vm_page_queue_of (page_of ph p)) = Some f"
  shows "\<exists>ph'. vm_page_changequeue (Some p) from0 to ph = Some ph' \<and>
    page_list ph' = (page_list ph)(q := remove1 p (page_list ph q), to := p # page_list ph to) \<and>
    page_of ph' = page_of ph \<and> pmem ph' = pmem ph \<and> vm_pregion_queue ph' = vm_pregion_queue ph \<and>
    (\<lambda>r. pq_npages (pgqueues ph' r)) =
      (\<lambda>r. pq_npages (pgqueues ph r) - (if r = f then 1 else 0) + (if r = to then 1 else 0))"
proof -
  have un: "remove1 p (page_list ph r) = page_list ph r" if "r \<noteq> q" for r
    using pages_ok_unique [OF ok p] that by (intro remove1_idem) auto
  let ?ph = "ph\<lparr>pgqueues := count_add to 1 (push_page p to (count_add f (- 1) (pages_unlink p (pgqueues ph))))\<rparr>"
  have "vm_page_changequeue (Some p) from0 to ph = Some ?ph"
    using fr by (cases from0) (auto simp: vm_page_changequeue_def Let_def)
  moreover have "page_list ?ph = (page_list ph)(q := remove1 p (page_list ph q), to := p # page_list ph to)"
    using un ne by (auto simp: fun_eq_iff page_list_def count_add_def push_page_def pages_unlink_def)
  moreover have "(\<lambda>r. pq_npages (pgqueues ?ph r)) =
      (\<lambda>r. pq_npages (pgqueues ph r) - (if r = f then 1 else 0) + (if r = to then 1 else 0))"
    by (auto simp: fun_eq_iff count_add_def push_page_def pages_unlink_def)
  ultimately show ?thesis by (intro exI [of _ ?ph]) simp
qed

lemma moved_pages_ok:
  assumes ok: "pages_ok ph" and p: "p \<in> set (page_list ph q)" and ne: "q \<noteq> to"
    and l: "page_list ph' = (page_list ph)(q := remove1 p (page_list ph q), to := p # page_list ph to)"
    and po: "page_of ph' = page_of ph"
  shows "pages_ok ph'" and "on_queues ph' = on_queues ph"
proof -
  have d: "distinct (page_list ph r)" for r using ok by (simp add: pages_ok_def)
  have dj: "x \<in> set (page_list ph a) \<Longrightarrow> x \<in> set (page_list ph b) \<Longrightarrow> a = b" for a b x
    using pages_ok_unique [OF ok] by blast
  have mem: "x \<in> set (page_list ph' r) \<longleftrightarrow> (if x = p then r = to else x \<in> set (page_list ph r))" for x r
  proof -
    consider "r = to" | "r = q" "r \<noteq> to" | "r \<noteq> q" "r \<noteq> to" by blast
    then show ?thesis
    proof cases
      case 2
      then show ?thesis by (auto simp: l set_remove1_eq [OF d])
    next
      case 3
      then have "p \<notin> set (page_list ph r)" using dj [OF p] by blast
      with 3 show ?thesis by (auto simp: l)
    qed (auto simp: l)
  qed
  show oq: "on_queues ph' = on_queues ph"
  proof (rule set_eqI)
    fix x
    show "x \<in> on_queues ph' \<longleftrightarrow> x \<in> on_queues ph"
      using p by (cases "x = p") (simp_all add: on_queues_def mem, blast)
  qed
  have "p \<notin> set (page_list ph to)" using dj [OF p] ne by blast
  then have "distinct (page_list ph' r)" for r
    using d ne by (simp add: l)
  moreover have "set (page_list ph' a) \<inter> set (page_list ph' b) = {}" if "a \<noteq> b" for a b
    using mem dj that by (auto split: if_splits)
  moreover have "frame ph' x = frame ph x" for x by (simp add: frame_def po)
  ultimately show "pages_ok ph'" using ok oq by (simp add: pages_ok_def)
qed

subsection \<open>Properties of page allocation\<close>

lemma zero_page_other: "a - pa \<ge> PGSIZE \<Longrightarrow> zero_page pa m a = m a"
  by (auto simp: zero_page_def)

lemma pmem_update_simps [simp]:
  "page_list (ph\<lparr>pmem := m\<rparr>) = page_list ph" "frame (ph\<lparr>pmem := m\<rparr>) = frame ph"
  "on_queues (ph\<lparr>pmem := m\<rparr>) = on_queues ph" "pages_ok (ph\<lparr>pmem := m\<rparr>) = pages_ok ph"
proof -
  show l: "page_list (ph\<lparr>pmem := m\<rparr>) = page_list ph" and f: "frame (ph\<lparr>pmem := m\<rparr>) = frame ph"
    by (simp_all add: page_list_def frame_def fun_eq_iff)
  show o: "on_queues (ph\<lparr>pmem := m\<rparr>) = on_queues ph" by (simp add: on_queues_def l)
  show "pages_ok (ph\<lparr>pmem := m\<rparr>) = pages_ok ph" by (simp add: pages_ok_def l f o)
qed

lemma vm_pagealloc_spec:
  assumes ok: "pages_ok ph" and q: "queue \<noteq> vm_pgfreeq"
  shows "case page_list ph vm_pgfreeq of
      [] \<Rightarrow> vm_pagealloc sleep queue ph = None
    | page # rest \<Rightarrow> \<exists>ph'. vm_pagealloc sleep queue ph = Some (page, ph') \<and> pages_ok ph' \<and>
        page_list ph' = (page_list ph)(vm_pgfreeq := rest, queue := page # page_list ph queue) \<and>
        page_of ph' = page_of ph \<and>
        (\<forall>a \<in> frame ph page. pmem ph' a = 0) \<and>
        (\<forall>p \<in> on_queues ph. p \<noteq> page \<longrightarrow> (\<forall>a \<in> frame ph p. pmem ph' a = pmem ph a))"
proof (cases "page_list ph vm_pgfreeq")
  case Nil
  then show ?thesis by (simp add: vm_pagealloc_def page_list_def)
next
  case (Cons page rest)
  then have p: "page \<in> set (page_list ph vm_pgfreeq)" by simp
  from changequeue_lists [OF ok p, of queue "Some vm_pgfreeq" vm_pgfreeq] q obtain ph1 where
    c: "vm_page_changequeue (Some page) (Some vm_pgfreeq) queue ph = Some ph1"
    and l: "page_list ph1 = (page_list ph)(vm_pgfreeq := remove1 page (page_list ph vm_pgfreeq), queue := page # page_list ph queue)"
    and po: "page_of ph1 = page_of ph" "pmem ph1 = pmem ph" by auto
  have ok1: "pages_ok ph1" using moved_pages_ok(1) [OF ok p _ l po(1)] q by simp
  let ?ph = "ph1\<lparr>pmem := zero_page (paddr (page_of ph1 page)) (pmem ph1)\<rparr>"
  have run: "vm_pagealloc sleep queue ph = Some (page, ?ph)"
    using Cons c by (simp add: vm_pagealloc_def page_list_def)
  have "pmem ?ph a = pmem ph a" if "p \<in> on_queues ph" "p \<noteq> page" "a \<in> frame ph p" for p a
  proof -
    have "page \<in> on_queues ph" using p by (auto simp: on_queues_def)
    with ok that have "a \<notin> frame ph page" unfolding pages_ok_def by blast
    then show ?thesis by (simp add: po frame_def zero_page_other not_less)
  qed
  moreover have "pmem ?ph a = 0" if "a \<in> frame ph page" for a
    using that by (simp add: po frame_def zero_page_def)
  ultimately show ?thesis
    using run ok1 Cons l po(1) by simp
qed

text \<open>Freeing gives the page back to the head of the free list, whatever queue it was on.\<close>

lemma vm_page_free_correct:
  assumes ok: "pages_ok ph" and p: "p \<in> set (page_list ph q)" "q \<noteq> vm_pgfreeq"
    and k: "pg_queue (page_of ph p) \<noteq> kVMPagePMap"
  shows "\<exists>ph'. vm_page_free (Some p) ph = Some ph' \<and> pages_ok ph' \<and> on_queues ph' = on_queues ph \<and>
    page_list ph' = (page_list ph)(q := remove1 p (page_list ph q), vm_pgfreeq := p # page_list ph vm_pgfreeq) \<and>
    page_of ph' = page_of ph \<and> pmem ph' = pmem ph"
proof -
  obtain f where "vm_page_queue_of (page_of ph p) = Some f"
    using k by (cases "pg_queue (page_of ph p)") (auto simp: vm_page_queue_of_def)
  with changequeue_lists [OF ok p, of None f] obtain ph' where
    "vm_page_changequeue (Some p) None vm_pgfreeq ph = Some ph'"
    and l: "page_list ph' = (page_list ph)(q := remove1 p (page_list ph q), vm_pgfreeq := p # page_list ph vm_pgfreeq)"
    and po: "page_of ph' = page_of ph" "pmem ph' = pmem ph" by auto
  then show ?thesis
    using moved_pages_ok [OF ok p l po(1)] by (simp add: vm_page_free_def)
qed

text \<open>No function sets \<open>pg_queue\<close>: it stays at \<^verbatim>\<open>kVMPageFree\<close>, and freeing charges the wrong counter.\<close>

theorem page_counters_drift:
  assumes ok: "pages_ok ph" and f: "page_list ph vm_pgfreeq = p # rest" and k: "pg_queue (page_of ph p) = kVMPageFree"
  shows "\<exists>ph1 ph2. vm_pagealloc sleep vm_pgkmemq ph = Some (p, ph1) \<and> vm_page_free (Some p) ph1 = Some ph2 \<and>
    page_list ph2 = page_list ph \<and>
    pq_npages (pgqueues ph2 vm_pgkmemq) = pq_npages (pgqueues ph vm_pgkmemq) + 1 \<and>
    pq_npages (pgqueues ph2 vm_pgfreeq) = pq_npages (pgqueues ph vm_pgfreeq) - 1"
proof -
  have p: "p \<in> set (page_list ph vm_pgfreeq)" using f by simp
  from changequeue_lists [OF ok p, of vm_pgkmemq "Some vm_pgfreeq" vm_pgfreeq] obtain ph0 where
    c: "vm_page_changequeue (Some p) (Some vm_pgfreeq) vm_pgkmemq ph = Some ph0"
    and l: "page_list ph0 = (page_list ph)(vm_pgfreeq := remove1 p (page_list ph vm_pgfreeq), vm_pgkmemq := p # page_list ph vm_pgkmemq)"
    and po: "page_of ph0 = page_of ph"
    and n: "(\<lambda>r. pq_npages (pgqueues ph0 r)) = (\<lambda>r. pq_npages (pgqueues ph r) -
       (if r = vm_pgfreeq then 1 else 0) + (if r = vm_pgkmemq then 1 else 0))" by auto
  let ?ph1 = "ph0\<lparr>pmem := zero_page (paddr (page_of ph0 p)) (pmem ph0)\<rparr>"
  have run: "vm_pagealloc sleep vm_pgkmemq ph = Some (p, ?ph1)"
    using f c by (simp add: vm_pagealloc_def page_list_def)
  have ok1: "pages_ok ?ph1"
    using moved_pages_ok(1) [OF ok p _ l po] by simp
  have l1: "page_list ?ph1 = page_list ph0" by simp
  have p1: "p \<in> set (page_list ?ph1 vm_pgkmemq)" by (simp add: l1 l)
  have vq: "vm_page_queue_of (page_of ?ph1 p) = Some vm_pgfreeq" by (simp add: po k vm_page_queue_of_def)
  from changequeue_lists [OF ok1 p1, of vm_pgfreeq None vm_pgfreeq] vq obtain ph2 where
    c2: "vm_page_changequeue (Some p) None vm_pgfreeq ?ph1 = Some ph2"
    and l2: "page_list ph2 = (page_list ?ph1)(vm_pgkmemq := remove1 p (page_list ?ph1 vm_pgkmemq), vm_pgfreeq := p # page_list ?ph1 vm_pgfreeq)"
    and n2: "(\<lambda>r. pq_npages (pgqueues ph2 r)) = (\<lambda>r. pq_npages (pgqueues ?ph1 r) -
       (if r = vm_pgfreeq then 1 else 0) + (if r = vm_pgfreeq then 1 else 0))" by auto
  have "page_list ph2 = page_list ph" by (auto simp: fun_eq_iff l2 l1 l f)
  moreover have "pq_npages (pgqueues ph2 r) = pq_npages (pgqueues ph r) -
       (if r = vm_pgfreeq then 1 else 0) + (if r = vm_pgkmemq then 1 else 0)" for r
    using fun_cong [OF n2, of r] fun_cong [OF n, of r] by (auto split: if_splits)
  ultimately show ?thesis using run c2 by (auto simp: vm_page_free_def)
qed

subsection \<open>Looking a page up by its physical address\<close>

definition regions_ok :: "vm_pregion list \<Rightarrow> bool" where
  "regions_ok rs \<longleftrightarrow> (\<forall>r \<in> set rs. unat (preg_base r) + 4096 * unat (preg_npages r) < 2 ^ 64) \<and>
     (\<forall>j < length rs. \<forall>k < length rs. j \<noteq> k \<longrightarrow>
        unat (preg_base (rs ! j)) + 4096 * unat (preg_npages (rs ! j)) \<le> unat (preg_base (rs ! k)) \<or>
        unat (preg_base (rs ! k)) + 4096 * unat (preg_npages (rs ! k)) \<le> unat (preg_base (rs ! j)))"

lemma region_test:
  assumes "unat (preg_base r) + 4096 * unat (preg_npages r) < 2 ^ 64"
  shows "preg_base r \<le> pa \<and> preg_base r + PGSIZE * preg_npages r > pa \<longleftrightarrow>
    unat (preg_base r) \<le> unat pa \<and> unat pa < unat (preg_base r) + 4096 * unat (preg_npages r)"
proof -
  have "unat (PGSIZE * preg_npages r) = 4096 * unat (preg_npages r)"
    using assms by (simp add: PGSIZE_def unat_word_ariths)
  then have "unat (preg_base r + PGSIZE * preg_npages r) = unat (preg_base r) + 4096 * unat (preg_npages r)"
    using assms by (subst unat_add_nowrap) simp_all
  then show ?thesis by (simp add: word_le_nat_alt word_less_nat_alt)
qed

lemma find_region_nth:
  assumes "\<And>r. r \<in> set rs \<Longrightarrow> unat (preg_base r) + 4096 * unat (preg_npages r) < 2 ^ 64"
    and "j < length rs" and "unat (preg_base (rs ! j)) \<le> unat pa"
    and "unat pa < unat (preg_base (rs ! j)) + 4096 * unat (preg_npages (rs ! j))"
    and "\<And>i. i < j \<Longrightarrow> \<not> (unat (preg_base (rs ! i)) \<le> unat pa \<and>
           unat pa < unat (preg_base (rs ! i)) + 4096 * unat (preg_npages (rs ! i)))"
  shows "find_region pa k rs = Some (k + j, (unat pa - unat (preg_base (rs ! j))) div 4096)"
  using assms
proof (induction rs arbitrary: j k)
  case (Cons r rs)
  note test = region_test [of r pa, OF Cons.prems(1)]
  show ?case
  proof (cases j)
    case 0
    then have "unat ((pa - preg_base r) div PGSIZE) = (unat pa - unat (preg_base r)) div 4096"
      using Cons.prems(3) by (simp add: unat_div unat_sub_nowrap PGSIZE_def)
    with 0 Cons.prems(3,4) test show ?thesis by simp
  next
    case (Suc i)
    have "find_region pa (Suc k) rs = Some (Suc k + i, (unat pa - unat (preg_base (rs ! i))) div 4096)"
    proof (rule Cons.IH)
      fix l assume "l < i"
      then show "\<not> (unat (preg_base (rs ! l)) \<le> unat pa \<and>
          unat pa < unat (preg_base (rs ! l)) + 4096 * unat (preg_npages (rs ! l)))"
        using Cons.prems(5) [of "Suc l"] Suc by simp
    qed (use Cons.prems Suc in auto)
    moreover have "\<not> (preg_base r \<le> pa \<and> preg_base r + PGSIZE * preg_npages r > pa)"
      using test Cons.prems(5) [of 0] Suc by simp
    ultimately show ?thesis using Suc by simp
  qed
qed simp

text \<open>(C12) On regions that do not overlap, vm_page_from_paddr of any address within a page
  frame returns that page of that region.\<close>

theorem page_from_paddr_round_trip:
  assumes "regions_ok (vm_pregion_queue ph)" and "j < length (vm_pregion_queue ph)"
    and "i < unat (preg_npages (vm_pregion_queue ph ! j))" and "d < 4096"
  shows "vm_page_from_paddr (preg_base (vm_pregion_queue ph ! j) + of_nat (4096 * i + d)) ph = Some (j, i)"
proof -
  let ?rs = "vm_pregion_queue ph"
  let ?r = "?rs ! j"
  have b: "unat (preg_base ?r) + 4096 * unat (preg_npages ?r) < 2 ^ 64" using assms(1,2) by (simp add: regions_ok_def)
  have "4096 * i + d < 4096 * unat (preg_npages ?r)" using assms(3,4) by linarith
  then have pa: "unat (preg_base ?r + of_nat (4096 * i + d)) = unat (preg_base ?r) + (4096 * i + d)"
    using b by (subst unat_add_nowrap) (simp_all del: of_nat_add of_nat_mult)
  have sep: "\<forall>j < length ?rs. \<forall>k < length ?rs. j \<noteq> k \<longrightarrow>
      unat (preg_base (?rs ! j)) + 4096 * unat (preg_npages (?rs ! j)) \<le> unat (preg_base (?rs ! k)) \<or>
      unat (preg_base (?rs ! k)) + 4096 * unat (preg_npages (?rs ! k)) \<le> unat (preg_base (?rs ! j))"
    using assms(1) by (simp add: regions_ok_def)
  have "vm_page_from_paddr (preg_base ?r + of_nat (4096 * i + d)) ph =
      Some (0 + j, (unat (preg_base ?r + of_nat (4096 * i + d)) - unat (preg_base ?r)) div 4096)"
    unfolding vm_page_from_paddr_def
  proof (rule find_region_nth)
    fix k assume "k < j"
    then have "unat (preg_base (?rs ! k)) + 4096 * unat (preg_npages (?rs ! k)) \<le> unat (preg_base ?r) \<or>
        unat (preg_base ?r) + 4096 * unat (preg_npages ?r) \<le> unat (preg_base (?rs ! k))"
      using sep [rule_format, of k j] assms(2) by linarith
    then show "\<not> (unat (preg_base (?rs ! k)) \<le> unat (preg_base ?r + of_nat (4096 * i + d)) \<and>
        unat (preg_base ?r + of_nat (4096 * i + d)) < unat (preg_base (?rs ! k)) + 4096 * unat (preg_npages (?rs ! k)))"
      using \<open>4096 * i + d < 4096 * unat (preg_npages ?r)\<close> unfolding pa by linarith
  qed (use assms(1,2) pa \<open>4096 * i + d < 4096 * unat (preg_npages ?r)\<close> in \<open>auto simp: regions_ok_def simp del: of_nat_add of_nat_mult\<close>)
  also have "\<dots> = Some (j, i)" unfolding pa using assms(4) by simp
  finally show ?thesis .
qed

subsection \<open>Memory descriptor lists\<close>

lemma alloc_pages_ok:
  assumes "pages_ok ph" and "q \<noteq> vm_pgfreeq" and "n \<le> length (page_list ph vm_pgfreeq)"
  shows "\<exists>ph'. alloc_pages n q ph = Some (take n (page_list ph vm_pgfreeq), ph') \<and> pages_ok ph' \<and>
    page_of ph' = page_of ph \<and> page_list ph' vm_pgfreeq = drop n (page_list ph vm_pgfreeq)"
  using assms
proof (induction n arbitrary: ph)
  case (Suc n)
  then obtain page rest where f: "page_list ph vm_pgfreeq = page # rest" by (cases "page_list ph vm_pgfreeq") auto
  then obtain ph1 where a: "vm_pagealloc True q ph = Some (page, ph1)" and 1: "pages_ok ph1" "page_of ph1 = page_of ph"
    "page_list ph1 = (page_list ph)(vm_pgfreeq := rest, q := page # page_list ph q)"
    using vm_pagealloc_spec [OF Suc.prems(1,2), of True] by auto
  have r: "page_list ph1 vm_pgfreeq = rest" using 1(3) Suc.prems(2) by simp
  with Suc.IH [OF 1(1) Suc.prems(2)] Suc.prems(3) f obtain ph2 where
    "alloc_pages n q ph1 = Some (take n rest, ph2)" "pages_ok ph2" "page_of ph2 = page_of ph1"
    "page_list ph2 vm_pgfreeq = drop n rest" by auto
  with a f 1(2) show ?case by simp
qed simp

lemma alloc_pages_None:
  assumes "pages_ok ph" and "q \<noteq> vm_pgfreeq" and "length (page_list ph vm_pgfreeq) < n"
  shows "alloc_pages n q ph = None"
  using assms
proof (induction n arbitrary: ph)
  case (Suc n)
  show ?case
  proof (cases "page_list ph vm_pgfreeq")
    case Nil
    then show ?thesis using vm_pagealloc_spec [OF Suc.prems(1,2), of True] by simp
  next
    case (Cons page rest)
    then obtain ph1 where a: "vm_pagealloc True q ph = Some (page, ph1)" and 1: "pages_ok ph1"
      "page_list ph1 = (page_list ph)(vm_pgfreeq := rest, q := page # page_list ph q)"
      using vm_pagealloc_spec [OF Suc.prems(1,2), of True] by auto
    have "length (page_list ph1 vm_pgfreeq) < n" using 1(2) Suc.prems(2,3) Cons by simp
    with Suc.IH [OF 1(1) Suc.prems(2)] a show ?thesis by simp
  qed
qed simp

theorem mdl_new_correct:
  assumes ok: "pages_ok ph" and b: "unat bytes + 4095 < 2 ^ 64"
    and al: "h_alloc h (mdl_size (PGROUNDUP bytes div PGSIZE)) k = Some (a, k')" "a \<noteq> 0"
    and en: "(unat bytes + 4095) div 4096 \<le> length (page_list ph vm_pgfreeq)"
  shows "\<exists>mdl ph'. vm_mdl_new_with_capacity h bytes (ph, k) = Some ((0, Some mdl), ph', k') \<and> pages_ok ph' \<and>
    mdl_pages mdl = take ((unat bytes + 4095) div 4096) (page_list ph vm_pgfreeq) \<and> distinct (mdl_pages mdl) \<and>
    unat (mdl_nPages mdl) = length (mdl_pages mdl) \<and>
    unat bytes \<le> unat (vm_mdl_capacity mdl) \<and> unat (vm_mdl_capacity mdl) < unat bytes + 4096"
proof -
  let ?n = "PGROUNDUP bytes div PGSIZE" and ?k = "(unat bytes + 4095) div 4096"
  have n: "unat ?n = ?k" using PGROUNDUP_unat [of bytes] b by (simp add: unat_div PGSIZE_def)
  obtain ph' where p: "alloc_pages ?k vm_pgwiredq ph = Some (take ?k (page_list ph vm_pgfreeq), ph')" "pages_ok ph'"
    using alloc_pages_ok [OF ok _ en, of vm_pgwiredq] by auto
  let ?mdl = "\<lparr>mdl_addr = a, mdl_offset = 0, mdl_nBytes = bytes, mdl_nPages = ?n,
      mdl_pages = take ?k (page_list ph vm_pgfreeq)\<rparr>"
  have run: "vm_mdl_new_with_capacity h bytes (ph, k) = Some ((0, Some ?mdl), ph', k')"
    using al p(1) by (simp add: vm_mdl_new_with_capacity_def Let_def n)
  have "unat (vm_mdl_capacity ?mdl) = ?k * 4096"
  proof -
    have "unat (?n * PGSIZE) = ?k * 4096 mod 2 ^ 64"
      using n by (simp add: unat_word_ariths PGSIZE_def)
    moreover have "?k * 4096 < 2 ^ 64" using b by (simp add: less_mult_imp_div_less)
    ultimately show ?thesis by (simp add: vm_mdl_capacity_def)
  qed
  moreover have "unat bytes \<le> ?k * 4096" "?k * 4096 < unat bytes + 4096" by linarith+
  moreover have "distinct (take ?k (page_list ph vm_pgfreeq))" using ok by (simp add: pages_ok_def)
  ultimately show ?thesis using run p(2) n en by (intro exI [of _ ?mdl] exI [of _ ph']) simp
qed

text \<open>Where byte \<open>i\<close> of the object an MDL describes lives.\<close>

definition mdl_byte :: "phys \<Rightarrow> vm_mdl \<Rightarrow> nat \<Rightarrow> u8" where
  "mdl_byte ph mdl i = pmem_byte (pmem ph) (paddr (page_of ph (mdl_pages mdl ! (i div 4096))) + of_nat (i mod 4096))"

text \<open>From a page boundary on, the copy is right; the loop has copied \<open>4096 * k\<close> bytes when it reaches page \<open>k\<close>.\<close>

lemma mdl_copy_loop_aligned:
  assumes "4096 * n < 4096 + unat nBytes" and "unat nBytes \<le> 4096 * n" and "first + k + n \<le> length (mdl_pages mdl)"
  shows "\<exists>buf'. mdl_copy_loop ph mdl first k n nBytes 0 buf = Some buf' \<and>
    (\<forall>i < unat nBytes. buf' (k * 4096 + i) = mdl_byte ph mdl ((first + k) * 4096 + i)) \<and>
    (\<forall>i. i < k * 4096 \<or> k * 4096 + unat nBytes \<le> i \<longrightarrow> buf' i = buf i)"
  using assms
proof (induction n arbitrary: k nBytes buf)
  case (Suc n)
  let ?t = "if nBytes > PGSIZE then PGSIZE - 0 else nBytes"
  let ?page = "page_of ph (mdl_pages mdl ! (first + k))"
  let ?buf = "copy_out (k * 4096) (paddr ?page + 0) (unat ?t) (pmem ph) buf"
  have t: "unat ?t = min 4096 (unat nBytes)" by (auto simp: PGSIZE_def word_less_nat_alt)
  then have d: "unat (nBytes - ?t) = unat nBytes - min 4096 (unat nBytes)"
    by (subst unat_sub_nowrap) auto
  have "4096 * n < 4096 + unat (nBytes - ?t)" "unat (nBytes - ?t) \<le> 4096 * n" "first + Suc k + n \<le> length (mdl_pages mdl)"
    using Suc.prems unfolding d by (auto simp: min_def)
  note IH = Suc.IH [OF this, of ?buf]
  obtain buf' where b: "mdl_copy_loop ph mdl first (Suc k) n (nBytes - ?t) 0 ?buf = Some buf'"
    "\<forall>i < unat (nBytes - ?t). buf' (Suc k * 4096 + i) = mdl_byte ph mdl ((first + Suc k) * 4096 + i)"
    "\<forall>i. i < Suc k * 4096 \<or> Suc k * 4096 + unat (nBytes - ?t) \<le> i \<longrightarrow> buf' i = ?buf i"
    using IH by blast
  have "mdl_copy_loop ph mdl first k (Suc n) nBytes 0 buf = Some buf'"
    using b(1) Suc.prems(3) by (simp add: Let_def)
  moreover have "buf' (k * 4096 + i) = mdl_byte ph mdl ((first + k) * 4096 + i)" if "i < unat nBytes" for i
  proof (cases "i < 4096")
    case True
    then have "buf' (k * 4096 + i) = ?buf (k * 4096 + i)" using b(3) by simp
    also have "\<dots> = pmem_byte (pmem ph) (paddr ?page + of_nat i)"
      using True that t by (simp add: copy_out_def)
    finally show ?thesis
      using True div_mult_self3 [of 4096 "first + k" i] mod_mult_self3 [of "first + k" 4096 i]
      by (simp add: mdl_byte_def del: distrib_right add_mult_distrib)
  next
    case False
    then have "i - 4096 < unat (nBytes - ?t)" "k * 4096 + i = Suc k * 4096 + (i - 4096)"
      using that d by auto
    with b(2) have "buf' (k * 4096 + i) = mdl_byte ph mdl ((first + Suc k) * 4096 + (i - 4096))" by metis
    moreover have "(first + Suc k) * 4096 + (i - 4096) = (first + k) * 4096 + i" using False by simp
    ultimately show ?thesis by (simp only:)
  qed
  moreover have "buf' i = buf i" if "i < k * 4096 \<or> k * 4096 + unat nBytes \<le> i" for i
  proof -
    have "i < Suc k * 4096 \<or> Suc k * 4096 + unat (nBytes - ?t) \<le> i" using that d by auto
    then have "buf' i = ?buf i" using b(3) by blast
    also have "\<dots> = buf i" using that t by (auto simp: copy_out_def)
    finally show ?thesis .
  qed
  ultimately show ?case by blast
qed simp

theorem mdl_copy_aligned_correct:
  assumes al: "unat (off + mdl_offset mdl) = 4096 * f" and n: "0 < unat nBytes" "unat nBytes + 4096 < 2 ^ 52"
    and fit: "4096 * f + unat nBytes \<le> 4096 * length (mdl_pages mdl)" "length (mdl_pages mdl) < 2 ^ 51"
  shows "\<exists>buf'. vm_mdl_copy ph mdl buf nBytes off = Some buf' \<and>
    (\<forall>i < unat nBytes. buf' i = mdl_byte ph mdl (4096 * f + i)) \<and> (\<forall>i \<ge> unat nBytes. buf' i = buf i)"
proof -
  let ?off = "off + mdl_offset mdl" and ?n = "(unat nBytes + 4095) div 4096"
  have base: "PGROUNDDOWN ?off = ?off"
    using PGROUNDDOWN_unat [of ?off] al by (simp add: word_unat_eq_iff)
  have f: "unat (?off div PGSIZE) = f" using al by (simp add: unat_div PGSIZE_def)
  have "unat (nBytes - 1) = unat nBytes - 1" using n(1) by (subst unat_sub_nowrap) auto
  then have m: "unat ((nBytes - 1) div PGSIZE) = (unat nBytes - 1) div 4096" by (simp add: unat_div PGSIZE_def)
  have "(unat nBytes - 1) div 4096 + 1 = ?n" using n(1) by linarith
  moreover have "unat (?off div PGSIZE + (nBytes - 1) div PGSIZE) = f + (unat nBytes - 1) div 4096"
    using f m n fit by (subst unat_add_nowrap) auto
  ultimately have l: "unat (?off div PGSIZE + (nBytes - 1) div PGSIZE + 1) = f + ?n"
    using n fit by (subst unat_add_nowrap) auto
  have "vm_mdl_copy ph mdl buf nBytes off = mdl_copy_loop ph mdl f 0 ?n nBytes 0 buf"
    unfolding vm_mdl_copy_def Let_def base by (simp add: f l)
  moreover have "4096 * ?n < 4096 + unat nBytes" "unat nBytes \<le> 4096 * ?n" by linarith+
  moreover have "f + 0 + ?n \<le> length (mdl_pages mdl)" using fit(1) by linarith
  ultimately show ?thesis
    using mdl_copy_loop_aligned [of ?n nBytes f 0 mdl ph buf] by (auto simp: mult.commute)
qed

text \<open>A copy that starts inside a page.\<close>

definition two_page_mdl :: vm_mdl where
  "two_page_mdl = \<lparr>mdl_addr = 0x100, mdl_offset = 0, mdl_nBytes = 8192, mdl_nPages = 2, mdl_pages = [(0, 0), (0, 1)]\<rparr>"

definition demo_phys :: phys where
  "demo_phys = \<lparr>page_of = (\<lambda>p. \<lparr>pg_queue = kVMPageFree, pg_anon = None, pv_table = [],
       paddr = (if p = (0, 0) then 0x10000 else if p = (0, 1) then 0x20000 else of_nat (0x100000 + 0x1000 * snd p))\<rparr>),
     pgqueues = (\<lambda>q. \<lparr>pq_queue = (if q = vm_pgfreeq then [(0, 2), (0, 3), (0, 4)] else []), pq_npages = 0\<rparr>),
     vm_pregion_queue = [\<lparr>preg_base = 0x100000, preg_npages = 16\<rparr>], pmem = (\<lambda>a. 0)\<rparr>"

definition demo_phys_marked :: phys where
  "demo_phys_marked = demo_phys\<lparr>pmem := (\<lambda>a. if a = 0x11000 then 1 else if a = 0x20000 then 2 else 0)\<rparr>"

theorem mdl_copy_unaligned_wrong:
  "map_option (\<lambda>b. b 96) (vm_mdl_copy demo_phys_marked two_page_mdl (\<lambda>_. 7) 200 4000) = Some 1 \<and>
   mdl_byte demo_phys_marked two_page_mdl 4096 = 2 \<and>
   map_option (\<lambda>b. b 4095) (vm_mdl_copy demo_phys_marked two_page_mdl (\<lambda>_. 7) 4097 1) = Some 7"
  by code_simp

subsection \<open>Witnesses\<close>

lemma demo_pages_ok: "pages_ok demo_phys"
proof -
  have l: "page_list demo_phys q = (if q = vm_pgfreeq then [(0, 2), (0, 3), (0, 4)] else [])" for q
    by (simp add: page_list_def demo_phys_def)
  have oq: "on_queues demo_phys = {(0, 2), (0, 3), (0, 4)}" by (auto simp: on_queues_def l)
  have fd: "frame demo_phys (0, 2) \<inter> frame demo_phys (0, 3) = {}" "frame demo_phys (0, 2) \<inter> frame demo_phys (0, 4) = {}"
    "frame demo_phys (0, 3) \<inter> frame demo_phys (0, 4) = {}"
  proof -
    have "\<not> (a - x < 4096 \<and> a - (x + d) < 4096)" if "d = 0x1000 \<or> d = 0x2000" for a x d :: u64
    proof
      assume l: "a - x < 4096 \<and> a - (x + d) < 4096"
      define y where "y = a - (x + d)"
      have e: "a - x = y + d" by (simp add: y_def)
      have "unat (a - x) < 4096" "unat (a - (x + d)) < 4096"
        using conjunct1 [OF l] conjunct2 [OF l] by (simp_all only: word_less_nat_alt) simp_all
      then have y: "unat y < 4096" "unat (y + d) < 4096" by (simp_all only: e y_def)
      have d: "unat d = 0x1000 \<or> unat d = 0x2000" using that by auto
      with y(1) have "unat (y + d) = unat y + unat d" by (intro unat_add_nowrap) auto
      with y(2) d show False by linarith
    qed
    note sep = this
    have fr: "frame demo_phys (0, 2) = {a. a - 0x102000 < 4096}" "frame demo_phys (0, 3) = {a. a - 0x103000 < 4096}"
      "frame demo_phys (0, 4) = {a. a - 0x104000 < 4096}"
      by (simp_all add: frame_def demo_phys_def PGSIZE_def)
    have 1: "\<not> (a - 0x102000 < 4096 \<and> a - 0x103000 < 4096)" for a :: u64 using sep [of "0x1000" a "0x102000"] by simp
    have 2: "\<not> (a - 0x102000 < 4096 \<and> a - 0x104000 < 4096)" for a :: u64 using sep [of "0x2000" a "0x102000"] by simp
    have 3: "\<not> (a - 0x103000 < 4096 \<and> a - 0x104000 < 4096)" for a :: u64 using sep [of "0x1000" a "0x103000"] by simp
    show "frame demo_phys (0, 2) \<inter> frame demo_phys (0, 3) = {}" "frame demo_phys (0, 2) \<inter> frame demo_phys (0, 4) = {}"
      "frame demo_phys (0, 3) \<inter> frame demo_phys (0, 4) = {}"
      unfolding fr using 1 2 3 by blast+
  qed
  have "frame demo_phys p \<inter> frame demo_phys p' = {}"
    if "p \<in> {(0, 2), (0, 3), (0, 4)}" "p' \<in> {(0, 2), (0, 3), (0, 4)}" "p \<noteq> p'" for p p'
    using that fd Int_commute [of "frame demo_phys p" "frame demo_phys p'"] by (elim insertE emptyE) simp_all
  moreover have "distinct (page_list demo_phys q)" for q by (simp add: l)
  moreover have "set (page_list demo_phys q) \<inter> set (page_list demo_phys r) = {}" if "q \<noteq> r" for q r
    using that by (cases "q = vm_pgfreeq") (simp_all add: l)
  ultimately show ?thesis unfolding pages_ok_def oq by blast
qed

lemma demo_page_lists:
  "page_list demo_phys vm_pgfreeq = [(0, 2), (0, 3), (0, 4)]" "pg_queue (page_of demo_phys p) = kVMPageFree"
  by (simp_all add: page_list_def demo_phys_def)

text \<open>(C10) vm_pagealloc stops the kernel when no page is free and otherwise moves the first
  free page to the queue asked for, zeroes its whole frame, leaves the frames of all other pages
  alone and keeps the queues well formed.\<close>

theorem vm_pagealloc_correct:
  assumes "pages_ok ph" and "queue \<noteq> vm_pgfreeq"
  shows "case page_list ph vm_pgfreeq of
      [] \<Rightarrow> vm_pagealloc sleep queue ph = None
    | page # rest \<Rightarrow> \<exists>ph'. vm_pagealloc sleep queue ph = Some (page, ph') \<and> pages_ok ph' \<and>
        page_list ph' = (page_list ph)(vm_pgfreeq := rest, queue := page # page_list ph queue) \<and>
        page_of ph' = page_of ph \<and>
        (\<forall>a \<in> frame ph page. pmem ph' a = 0) \<and>
        (\<forall>p \<in> on_queues ph. p \<noteq> page \<longrightarrow> (\<forall>a \<in> frame ph p. pmem ph' a = pmem ph a))"
  by (rule vm_pagealloc_spec [OF assms])

theorem vm_pagealloc_correct_witness:
  "\<exists>ph'. vm_pagealloc True vm_pgkmemq demo_phys = Some ((0, 2), ph') \<and> pages_ok ph' \<and>
     page_list ph' vm_pgkmemq = [(0, 2)]"
  using vm_pagealloc_correct [OF demo_pages_ok, of vm_pgkmemq True]
  by (auto simp: demo_page_lists) (simp add: page_list_def demo_phys_def)

theorem page_counters_drift_witness:
  "\<exists>ph1 ph2. vm_pagealloc True vm_pgkmemq demo_phys = Some ((0, 2), ph1) \<and> vm_page_free (Some (0, 2)) ph1 = Some ph2 \<and>
     page_list ph2 vm_pgkmemq = [] \<and> pq_npages (pgqueues ph2 vm_pgkmemq) = 1"
  using page_counters_drift [OF demo_pages_ok demo_page_lists, of True]
  by (auto simp: fun_eq_iff) (auto simp: page_list_def demo_phys_def)

theorem page_from_paddr_round_trip_witness:
  "vm_page_from_paddr (preg_base (vm_pregion_queue demo_phys ! 0) + of_nat (4096 * 3 + 5)) demo_phys = Some (0, 3)"
  by (rule page_from_paddr_round_trip) (simp_all add: demo_phys_def regions_ok_def)

theorem mdl_new_correct_witness:
  "\<exists>mdl ph'. vm_mdl_new_with_capacity \<lparr>h_alloc = (\<lambda>n k. Some (0x100, k)), h_free = (\<lambda>_ _ k. Some k)\<rparr> 5000 (demo_phys, ()) =
     Some ((0, Some mdl), ph', ()) \<and> mdl_pages mdl = [(0, 2), (0, 3)]"
proof -
  let ?h = "\<lparr>h_alloc = (\<lambda>n k. Some (0x100, k)), h_free = (\<lambda>_ _ k. Some k)\<rparr> :: unit heap"
  obtain mdl ph' where r: "vm_mdl_new_with_capacity ?h 5000 (demo_phys, ()) = Some ((0, Some mdl), ph', ())"
    and p: "mdl_pages mdl = take ((unat (5000 :: u64) + 4095) div 4096) (page_list demo_phys vm_pgfreeq)"
    using mdl_new_correct [OF demo_pages_ok, of 5000 ?h "()" "0x100" "()"] by (auto simp: demo_page_lists)
  have "mdl_pages mdl = [(0, 2), (0, 3)]" unfolding p demo_page_lists by simp
  with r show ?thesis by blast
qed

theorem mdl_copy_aligned_correct_witness:
  "\<exists>buf'. vm_mdl_copy demo_phys_marked two_page_mdl (\<lambda>_. 7) 10 4096 = Some buf' \<and> buf' 0 = mdl_byte demo_phys_marked two_page_mdl 4096"
  using mdl_copy_aligned_correct [of 4096 two_page_mdl 1 10 demo_phys_marked "\<lambda>_. 7"]
  by (auto simp: two_page_mdl_def)

end
