(* ===== verification/Pmap.thy ===== *)
theory Pmap
  imports VmPage
begin

text \<open>
  The x86-64 physical maps of \<^verbatim>\<open>x86_64/vm.c\<close>: four-level page tables in physical memory.

  A table is named by its physical address and its entries are the 64-bit words of physical
  memory from there on; the C code reaches them through the direct map. A virtual address is split
  into four table indices. The translation look-aside buffer is not modelled, so the
  \<^verbatim>\<open>invlpg\<close> instructions have no effect here. Tracked mappings (\<^verbatim>\<open>pv_entry\<close>) come from the
  kernel heap.
\<close>

subsection \<open>Entries\<close>

definition kMMUPresent :: u64 where "kMMUPresent = 0x1"
definition kMMUWrite :: u64 where "kMMUWrite = 0x2"
definition kMMUUser :: u64 where "kMMUUser = 0x4"
definition kMMUDefaultProt :: u64 where "kMMUDefaultProt = kMMUPresent OR kMMUWrite OR kMMUUser"
definition kMMUFrame :: u64 where "kMMUFrame = 0x000FFFFFFFFFF000"

definition kVMRead :: u32 where "kVMRead = 0x1"
definition kVMWrite :: u32 where "kVMWrite = 0x2"
definition kVMExecute :: u32 where "kVMExecute = 0x4"
definition kVMAll :: u32 where "kVMAll = kVMRead OR kVMWrite OR kVMExecute"

lemmas mmu_defs = kMMUPresent_def kMMUWrite_def kMMUUser_def kMMUDefaultProt_def kMMUFrame_def
lemmas prot_defs = kVMRead_def kVMWrite_def kVMExecute_def kVMAll_def

record pmap =
  pml4 :: u64

definition pte_get_flags :: "u64 \<Rightarrow> u64" where
  "pte_get_flags pte = pte AND NOT kMMUFrame"

definition pte_get_addr :: "u64 \<Rightarrow> u64" where
  "pte_get_addr pte = pte AND kMMUFrame"

definition pte_set :: "u64 \<Rightarrow> u64 \<Rightarrow> u64 \<Rightarrow> phys \<Rightarrow> phys" where
  "pte_set pte addr flags ph = (let a = addr AND kMMUFrame in ph\<lparr>pmem := (pmem ph)(pte := a OR flags)\<rparr>)"

definition vm_prot_to_i386 :: "u32 \<Rightarrow> u64" where
  "vm_prot_to_i386 prot = (if prot AND kVMRead \<noteq> 0 then kMMUPresent else 0) OR
     (if prot AND kVMWrite \<noteq> 0 then kMMUWrite else 0) OR kMMUUser"

subsection \<open>Walking the tables\<close>

definition pml4i :: "u64 \<Rightarrow> u64" where "pml4i virt = drop_bit 39 virt AND 0x1FF"
definition pdpti :: "u64 \<Rightarrow> u64" where "pdpti virt = drop_bit 30 virt AND 0x1FF"
definition pdi :: "u64 \<Rightarrow> u64" where "pdi virt = drop_bit 21 virt AND 0x1FF"
definition pti :: "u64 \<Rightarrow> u64" where "pti virt = drop_bit 12 virt AND 0x1FF"

text \<open>The address of \<^verbatim>\<open>table[index]\<close>.\<close>

definition entry_at :: "u64 \<Rightarrow> u64 \<Rightarrow> u64" where
  "entry_at table index = table + 8 * index"

definition pmap_descend :: "u64 \<Rightarrow> u64 \<Rightarrow> bool \<Rightarrow> u64 \<Rightarrow> phys \<Rightarrow> (u64 \<times> phys) option" where
  "pmap_descend table index alloc mmuprot ph = (let entry = entry_at table index in
     if pmem ph entry AND kMMUPresent \<noteq> 0 then Some (pte_get_addr (pmem ph entry), ph)
     else if alloc then do {
       (page, ph1) \<leftarrow> vm_pagealloc True vm_pgpmapq ph;
       let addr = paddr (page_of ph1 page);
       Some (addr, pte_set entry addr mmuprot ph1)
     } else Some (0, ph))"

text \<open>The physical address of the last-level entry, 0 when a table is missing.\<close>

definition pmap_fully_descend :: "pmap \<Rightarrow> u64 \<Rightarrow> phys \<Rightarrow> u64 option" where
  "pmap_fully_descend pm virt ph = do {
     (pdptes, _) \<leftarrow> pmap_descend (pml4 pm) (pml4i virt) False 0 ph;
     if pdptes = 0 then Some 0 else do {
       (pdes, _) \<leftarrow> pmap_descend pdptes (pdpti virt) False 0 ph;
       if pdes = 0 then Some 0 else do {
         (ptes, _) \<leftarrow> pmap_descend pdes (pdi virt) False 0 ph;
         if ptes = 0 then Some 0 else Some (entry_at ptes (pti virt))
       }
     }
   }"

text \<open>
  \<^verbatim>\<open>pte_get_addr(pte[pti]) + pi\<close> adds to a \<^verbatim>\<open>uint64_t *\<close>, so the page offset is scaled by eight.
\<close>

definition pmap_trans :: "pmap \<Rightarrow> u64 \<Rightarrow> phys \<Rightarrow> u64 option" where
  "pmap_trans pm virt ph = do {
     let pi = virt AND 0xFFF;
     (pdpte, _) \<leftarrow> pmap_descend (pml4 pm) (pml4i virt) False 0 ph;
     if pdpte = 0 then Some 0 else do {
       (pde, _) \<leftarrow> pmap_descend pdpte (pdpti virt) False 0 ph;
       if pde = 0 then Some 0 else do {
         (pte, _) \<leftarrow> pmap_descend pde (pdi virt) False 0 ph;
         if pte = 0 then Some 0
         else let e = pmem ph (entry_at pte (pti virt)) in
              if e AND kMMUPresent = 0 then Some 0 else Some (pte_get_addr e + 8 * pi)
       }
     }
   }"

definition pmap_enter_kern :: "pmap \<Rightarrow> u64 \<Rightarrow> u64 \<Rightarrow> u32 \<Rightarrow> phys \<Rightarrow> phys option" where
  "pmap_enter_kern pm pa virt prot ph = do {
     (pdpte, ph1) \<leftarrow> pmap_descend (pml4 pm) (pml4i virt) True kMMUDefaultProt ph;
     (pde, ph2) \<leftarrow> pmap_descend pdpte (pdpti virt) True kMMUDefaultProt ph1;
     (pte, ph3) \<leftarrow> pmap_descend pde (pdi virt) True kMMUDefaultProt ph2;
     Some (pte_set (entry_at pte (pti virt)) pa (vm_prot_to_i386 prot) ph3)
   }"

subsection \<open>Tracked mappings\<close>

definition sizeof_pv_entry :: u64 where "sizeof_pv_entry = 32"

definition set_pv_table :: "page_ref \<Rightarrow> pv_entry list \<Rightarrow> phys \<Rightarrow> phys" where
  "set_pv_table page l ph = ph\<lparr>page_of := (page_of ph)(page := (page_of ph page)\<lparr>pv_table := l\<rparr>)\<rparr>"

definition pmap_enter ::
  "'k heap \<Rightarrow> map_ref \<Rightarrow> pmap \<Rightarrow> page_ref \<Rightarrow> u64 \<Rightarrow> u32 \<Rightarrow> phys \<times> 'k \<Rightarrow> (phys \<times> 'k) option" where
  "pmap_enter h mp pm page virt prot = (\<lambda>(ph, k). do {
     (a, k1) \<leftarrow> h_alloc h sizeof_pv_entry k;
     kassert (a \<noteq> 0);
     let ent = \<lparr>pv_addr = a, pv_map = mp, pv_vaddr = virt\<rparr>;
     ph1 \<leftarrow> pmap_enter_kern pm (paddr (page_of ph page)) virt prot ph;
     Some (set_pv_table page (ent # pv_table (page_of ph1 page)) ph1, k1)
   })"

definition pmap_reenter :: "pmap \<Rightarrow> page_ref \<Rightarrow> u64 \<Rightarrow> u32 \<Rightarrow> phys \<Rightarrow> phys option" where
  "pmap_reenter pm page virt prot ph = pmap_enter_kern pm (paddr (page_of ph page)) virt prot ph"

definition pmap_reenter_all_readonly :: "(map_ref \<Rightarrow> pmap) \<Rightarrow> page_ref \<Rightarrow> phys \<Rightarrow> phys option" where
  "pmap_reenter_all_readonly pmap_of page ph =
     iterM (\<lambda>pv. pmap_reenter (pmap_of (pv_map pv)) page (pv_vaddr pv) (kVMRead OR kVMExecute))
       (pv_table (page_of ph page)) ph"

definition pmap_unenter ::
  "'k heap \<Rightarrow> map_ref \<Rightarrow> pmap \<Rightarrow> page_ref option \<Rightarrow> u64 \<Rightarrow> pv_entry option \<Rightarrow> phys \<times> 'k \<Rightarrow> (phys \<times> 'k) option" where
  "pmap_unenter h mp pm page0 vaddr pv0 = (\<lambda>(ph, k). do {
     pte \<leftarrow> pmap_fully_descend pm vaddr ph;
     if pte = 0 then Some (ph, k)
     else if pmem ph pte = 0 then Some (ph, k)
     else do {
       let pa = pte_get_addr (pmem ph pte);
       let ph1 = ph\<lparr>pmem := (pmem ph)(pte := 0)\<rparr>;
       page \<leftarrow> (case page0 of Some p \<Rightarrow> Some p | None \<Rightarrow> vm_page_from_paddr pa ph1);
       let tab = pv_table (page_of ph1 page);
       pv \<leftarrow> (case pv0 of Some pv \<Rightarrow> Some pv
              | None \<Rightarrow> find (\<lambda>pv. pv_map pv = mp \<and> pv_vaddr pv = vaddr) tab);
       k1 \<leftarrow> h_free h (pv_addr pv) sizeof_pv_entry k;
       Some (set_pv_table page (remove1 pv tab) ph1, k1)
     }
   })"

definition pmap_unenter_kern :: "pmap \<Rightarrow> u64 \<Rightarrow> phys \<Rightarrow> (page_ref \<times> phys) option" where
  "pmap_unenter_kern pm vaddr ph = do {
     pte \<leftarrow> pmap_fully_descend pm vaddr ph;
     kassert (pte \<noteq> 0);
     kassert (pmem ph pte \<noteq> 0);
     let pa = pte_get_addr (pmem ph pte);
     let ph1 = ph\<lparr>pmem := (pmem ph)(pte := 0)\<rparr>;
     page \<leftarrow> vm_page_from_paddr pa ph1;
     Some (page, ph1)
   }"

subsection \<open>Creating and freeing maps\<close>

definition pmap_new :: "'k heap \<Rightarrow> pmap \<Rightarrow> phys \<times> 'k \<Rightarrow> (pmap \<times> phys \<times> 'k) option" where
  "pmap_new h kpmap = (\<lambda>(ph, k). do {
     (a, k1) \<leftarrow> h_alloc h 8 k;
     kassert (a \<noteq> 0);
     (page, ph1) \<leftarrow> vm_pagealloc True vm_pgpmapq ph;
     let tab = paddr (page_of ph1 page);
     let ph2 = fold (\<lambda>i ph. pte_set (entry_at tab (of_nat i)) (pmem ph (entry_at (pml4 kpmap) (of_nat i)))
                        kMMUDefaultProt ph) [255..<512] ph1;
     Some (\<lparr>pml4 = tab\<rparr>, ph2, k1)
   })"

text \<open>Freeing one level of tables; \<open>level\<close> 1 is the last one, whose entries are not looked at.\<close>

primrec pmap_free_sub :: "nat \<Rightarrow> u64 \<Rightarrow> phys \<Rightarrow> phys option" where
  "pmap_free_sub 0 table ph =
     (if table = 0 then Some ph else vm_page_free (vm_page_from_paddr table ph) ph)"
| "pmap_free_sub (Suc l) table ph =
     (if table = 0 then Some ph
      else do {
        ph1 \<leftarrow> (if Suc l > 1
                then iterM (\<lambda>i ph. pmap_free_sub l (pte_get_addr (pmem ph (entry_at table (of_nat i)))) ph) [0..<512] ph
                else Some ph);
        vm_page_free (vm_page_from_paddr table ph1) ph1
      })"

definition pmap_free :: "pmap \<Rightarrow> phys \<Rightarrow> phys option" where
  "pmap_free pm ph =
     iterM (\<lambda>i ph. pmap_free_sub 3 (pte_get_addr (pmem ph (entry_at (pml4 pm) (of_nat i)))) ph) [0..<255] ph"

definition x64_vm_init_entry :: "u64 \<Rightarrow> nat \<Rightarrow> phys \<Rightarrow> phys option" where
  "x64_vm_init_entry tab i ph =
     (if pte_get_addr (pmem ph (entry_at tab (of_nat i))) = 0 then do {
        (page, ph1) \<leftarrow> vm_pagealloc True vm_pgpmapq ph;
        Some (pte_set (entry_at tab (of_nat i)) (paddr (page_of ph1 page)) kMMUDefaultProt ph1)
      } else Some ph)"

definition x64_vm_init :: "u64 \<Rightarrow> phys \<Rightarrow> (pmap \<times> phys) option" where
  "x64_vm_init cr3 ph = do {
     ph1 \<leftarrow> iterM (x64_vm_init_entry cr3) [255..<511] ph;
     Some (\<lparr>pml4 = cr3\<rparr>, ph1)
   }"

end
