(* ===== verification/Pmap_Walk.thy ===== *)
theory Pmap_Walk
  imports Pmap
begin

text \<open>
  Page tables as a tree. \<open>walk\<close> follows a path of indices; \<open>pt_ok\<close> says that every table
  reached is a page of its own. Under this invariant writing one entry changes only the walks
  that pass through it, and a table added by \<^verbatim>\<open>pmap_descend\<close> changes no translation at all. So
  \<^verbatim>\<open>pmap_enter_kern\<close> changes the translation of one page and no other.
\<close>

subsection \<open>Walks\<close>

abbreviation present :: "u64 \<Rightarrow> bool" where
  "present pte \<equiv> pte AND kMMUPresent \<noteq> 0"

fun walk :: "(u64 \<Rightarrow> u64) \<Rightarrow> u64 \<Rightarrow> u64 list \<Rightarrow> u64 option" where
  "walk m t [] = Some t"
| "walk m t (i # is) =
     (if present (m (entry_at t i)) then walk m (pte_get_addr (m (entry_at t i))) is else None)"

definition path_ok :: "u64 list \<Rightarrow> bool" where
  "path_ok p \<longleftrightarrow> length p \<le> 3 \<and> (\<forall>i \<in> set p. unat i < 512)"

definition page_aligned :: "u64 \<Rightarrow> bool" where
  "page_aligned a \<longleftrightarrow> unat a mod 4096 = 0"

definition pt_ok :: "(u64 \<Rightarrow> u64) \<Rightarrow> u64 \<Rightarrow> bool" where
  "pt_ok m root \<longleftrightarrow>
     (\<forall>p t. path_ok p \<longrightarrow> walk m root p = Some t \<longrightarrow> page_aligned t \<and> t \<noteq> 0) \<and>
     (\<forall>p p' t. path_ok p \<longrightarrow> path_ok p' \<longrightarrow> walk m root p = Some t \<longrightarrow> walk m root p' = Some t \<longrightarrow> p = p')"

text \<open>The entry that translates a virtual address, 0 when a table is missing.\<close>

definition vpath :: "u64 \<Rightarrow> u64 list" where
  "vpath v = [pml4i v, pdpti v, pdi v]"

definition pte_of :: "(u64 \<Rightarrow> u64) \<Rightarrow> u64 \<Rightarrow> u64 \<Rightarrow> u64" where
  "pte_of m root v = (case walk m root (vpath v) of None \<Rightarrow> 0 | Some t \<Rightarrow> m (entry_at t (pti v)))"

definition same_vpage :: "u64 \<Rightarrow> u64 \<Rightarrow> bool" where
  "same_vpage v w \<longleftrightarrow> vpath v = vpath w \<and> pti v = pti w"

lemma walk_append: "walk m t (p @ q) = do { t' \<leftarrow> walk m t p; walk m t' q }"
  by (induction p arbitrary: t) auto

lemma index_bound: "unat (drop_bit n (v :: u64) AND 0x1FF) < 512"
proof -
  have "drop_bit n v AND 0x1FF \<le> 0x1FF" by (rule word_and_le1)
  then show ?thesis by (simp add: word_le_nat_alt)
qed

lemma vpath_ok: "path_ok (vpath v)" "unat (pti v) < 512"
  by (simp_all add: path_ok_def vpath_def pml4i_def pdpti_def pdi_def pti_def index_bound)

lemma path_ok_snoc: "path_ok (p @ [i]) \<longleftrightarrow> path_ok p \<and> length p \<le> 2 \<and> unat i < 512"
  by (auto simp: path_ok_def)

lemma path_ok_prefix: "path_ok (p @ q) \<Longrightarrow> path_ok p"
  by (auto simp: path_ok_def)

subsection \<open>Addresses of entries\<close>

lemma page_alignedE:
  assumes "page_aligned a"
  obtains k where "unat a = 4096 * k"
  using assms unfolding page_aligned_def by (metis dvdE mod_0_imp_dvd)

lemma entry_at_unat:
  assumes "page_aligned t" and "unat i < 512"
  shows "unat (entry_at t i) = unat t + 8 * unat i"
proof -
  have "unat t + 4096 \<le> 2 ^ 64"
  proof -
    have "unat t < 2 ^ 64" using unat_bound64 [of t] by simp
    moreover obtain k where "unat t = 4096 * k" using assms(1) by (auto simp: page_aligned_def)
    moreover have "(2 :: nat) ^ 64 = 4096 * 2 ^ 52" by simp
    ultimately show ?thesis by (metis Suc_leI mult_Suc_right add.commute mult_le_mono2 nat_mult_less_cancel_disj)
  qed
  moreover have "unat (8 * i) = 8 * unat i" using assms(2) by (simp add: unat_word_ariths)
  ultimately show ?thesis using assms(2) unfolding entry_at_def by (subst unat_add_nowrap) simp_all
qed

lemma entry_at_inj:
  assumes "page_aligned t" "page_aligned t'" "unat i < 512" "unat i' < 512" "entry_at t i = entry_at t' i'"
  shows "t = t' \<and> i = i'"
proof -
  have e: "unat t + 8 * unat i = unat t' + 8 * unat i'"
    using entry_at_unat assms by metis
  obtain k k' where k: "unat t = 4096 * k" "unat t' = 4096 * k'" using assms(1,2) by (metis page_alignedE)
  then have "k = k'" using e assms(3,4) by linarith
  with e k show ?thesis by (simp add: word_unat_eq_iff)
qed

lemma entry_in_page:
  assumes "page_aligned t" "page_aligned a" "unat i < 512" "entry_at t i - a < PGSIZE"
  shows "t = a"
proof -
  obtain k k' where k: "unat t = 4096 * k" "unat a = 4096 * k'" using assms(1,2) by (metis page_alignedE)
  have e: "unat (entry_at t i) = 4096 * k + 8 * unat i" using entry_at_unat [OF assms(1,3)] k by simp
  have d: "unat (entry_at t i - a) < 4096" using assms(4) by (simp add: PGSIZE_def word_less_nat_alt)
  have "a \<le> entry_at t i \<or> entry_at t i < a" by auto
  then have "k = k'"
  proof
    assume "a \<le> entry_at t i"
    then have "unat (entry_at t i - a) = 4096 * k + 8 * unat i - 4096 * k'" "4096 * k' \<le> 4096 * k + 8 * unat i"
      using e k by (simp_all add: unat_sub_nowrap word_le_nat_alt)
    with d assms(3) show ?thesis by linarith
  next
    assume lt: "entry_at t i < a"
    then have "unat (entry_at t i - a) = 2 ^ 64 + unat (entry_at t i) - unat a"
      using unat_sub_if' [of "entry_at t i" a] by (simp add: word_less_nat_alt)
    moreover have "unat a + 4096 \<le> 2 ^ 64"
    proof -
      have "4096 * k' < 4096 * 2 ^ 52" using unat_bound64 [of a] k by simp
      then show ?thesis using k by simp
    qed
    ultimately show ?thesis using d by linarith
  qed
  with k show ?thesis by (simp add: word_unat_eq_iff)
qed

lemma pt_okD:
  assumes "pt_ok m root" and "path_ok p" and "walk m root p = Some t"
  shows "page_aligned t" "t \<noteq> 0" "\<And>p'. path_ok p' \<Longrightarrow> walk m root p' = Some t \<Longrightarrow> p' = p"
  using assms unfolding pt_ok_def by blast+

subsection \<open>Changing one entry\<close>

text \<open>A memory that agrees on all entries a walk reads gives the same walk.\<close>

lemma walk_cong:
  assumes "pt_ok m root" and "path_ok p"
    and "\<And>q i r t. p = q @ i # r \<Longrightarrow> walk m root q = Some t \<Longrightarrow> m' (entry_at t i) = m (entry_at t i)"
  shows "walk m' root p = walk m root p"
  using assms(2,3)
proof (induction p rule: rev_induct)
  case (snoc i p)
  have "walk m' root p = walk m root p"
    using snoc.prems path_ok_prefix [of p "[i]"] by (intro snoc.IH) auto
  moreover have "m' (entry_at t i) = m (entry_at t i)" if "walk m root p = Some t" for t
    using snoc.prems(2) [of p i "[]" t] that by simp
  ultimately show ?case by (cases "walk m root p") (simp_all add: walk_append)
qed simp

text \<open>Writing an entry of the table at path \<open>p0\<close> leaves every walk alone that does not go through it.\<close>

lemma walk_update:
  assumes ok: "pt_ok m root" and p0: "path_ok p0" "walk m root p0 = Some t0" "unat i0 < 512"
    and p: "path_ok p" "\<And>r. p \<noteq> p0 @ i0 # r"
  shows "walk (m(entry_at t0 i0 := x)) root p = walk m root p"
proof (rule walk_cong [OF ok p(1)])
  fix q i r t
  assume q: "p = q @ i # r" "walk m root q = Some t"
  have "path_ok q" "unat i < 512" using p(1) q(1) by (auto simp: path_ok_def)
  then have "entry_at t i \<noteq> entry_at t0 i0"
    using entry_at_inj pt_okD [OF ok] p0 p(2) q by metis
  then show "(m(entry_at t0 i0 := x)) (entry_at t i) = m (entry_at t i)" by simp
qed

lemma walk_zero_page:
  assumes ok: "pt_ok m root" and a: "page_aligned a" "\<And>p t. path_ok p \<Longrightarrow> walk m root p = Some t \<Longrightarrow> t \<noteq> a"
    and p: "path_ok p"
  shows "walk (zero_page a m) root p = walk m root p"
proof (rule walk_cong [OF ok p])
  fix q i r t
  assume q: "p = q @ i # r" "walk m root q = Some t"
  have "path_ok q" "unat i < 512" using p q(1) by (auto simp: path_ok_def)
  then have "\<not> entry_at t i - a < PGSIZE"
    using entry_in_page [of t a i] pt_okD(1) [OF ok _ q(2)] a q(2) by blast
  then show "zero_page a m (entry_at t i) = m (entry_at t i)" by (simp add: zero_page_def)
qed

subsection \<open>Adding a table\<close>

text \<open>A page that can serve as a table: aligned, not at 0, inside the frame mask, not a table yet.\<close>

definition new_table :: "(u64 \<Rightarrow> u64) \<Rightarrow> u64 \<Rightarrow> u64 \<Rightarrow> bool" where
  "new_table m root a \<longleftrightarrow> page_aligned a \<and> a \<noteq> 0 \<and> a AND kMMUFrame = a \<and>
     (\<forall>p t. path_ok p \<longrightarrow> walk m root p = Some t \<longrightarrow> t \<noteq> a)"

lemma table_entry:
  "a AND kMMUFrame = a \<Longrightarrow> pte_get_addr ((a AND kMMUFrame) OR kMMUDefaultProt) = a"
  "present ((a AND kMMUFrame) OR kMMUDefaultProt)"
proof -
  show "pte_get_addr ((a AND kMMUFrame) OR kMMUDefaultProt) = a" if "a AND kMMUFrame = a"
    using that by (simp add: pte_get_addr_def bit.conj_disj_distrib2 and.assoc mmu_defs)
  have "((a AND kMMUFrame) OR kMMUDefaultProt) AND kMMUPresent = kMMUPresent"
    by (simp add: bit.conj_disj_distrib2 and.assoc mmu_defs)
  then show "present ((a AND kMMUFrame) OR kMMUDefaultProt)" by (simp add: mmu_defs)
qed

text \<open>Memory after \<^verbatim>\<open>pmap_descend\<close> put a zeroed table \<open>a\<close> into entry \<open>i\<close> of the table \<open>t\<close>.\<close>

definition with_table :: "u64 \<Rightarrow> u64 \<Rightarrow> u64 \<Rightarrow> (u64 \<Rightarrow> u64) \<Rightarrow> u64 \<Rightarrow> u64" where
  "with_table t i a m = (zero_page a m)(entry_at t i := (a AND kMMUFrame) OR kMMUDefaultProt)"

lemma walk_with_table:
  assumes ok: "pt_ok m root" and p: "path_ok (p @ [i])" "walk m root p = Some t" "\<not> present (m (entry_at t i))"
    and a: "new_table m root a" and q: "path_ok q"
  shows "walk (with_table t i a m) root q =
    (if q = p @ [i] then Some a else walk m root q)"
proof -
  let ?m = "zero_page a m" and ?x = "(a AND kMMUFrame) OR kMMUDefaultProt"
  have i: "unat i < 512" and pp: "path_ok p" using p(1) by (simp_all add: path_ok_snoc)
  have aa: "page_aligned a" "a AND kMMUFrame = a" and nt: "\<And>p t. path_ok p \<Longrightarrow> walk m root p = Some t \<Longrightarrow> t \<noteq> a"
    using a by (auto simp: new_table_def)
  have z: "walk ?m root r = walk m root r" if "path_ok r" for r
    by (rule walk_zero_page [OF ok aa(1) nt that])
  have okz: "pt_ok ?m root" using ok z unfolding pt_ok_def by metis
  have other: "walk (with_table t i a m) root r = walk m root r" if "path_ok r" "\<And>r'. r \<noteq> p @ i # r'" for r
    unfolding with_table_def using walk_update [OF okz pp _ i that] z pp p(2) that(1) by simp
  have new: "walk (with_table t i a m) root (p @ [i]) = Some a"
  proof -
    have "walk (with_table t i a m) root p = Some t" using other [OF pp] p(2) by simp
    moreover have "pte_get_addr (a OR kMMUDefaultProt) = a" "present (a OR kMMUDefaultProt)"
      using table_entry [of a] aa(2) by simp_all
    ultimately show ?thesis by (simp add: walk_append) (simp add: with_table_def aa(2))
  qed
  have ta: "t \<noteq> a" "page_aligned t" using nt [OF pp p(2)] pt_okD(1) [OF ok pp p(2)] by auto
  have empty: "\<not> present (with_table t i a m (entry_at a j))" if "unat j < 512" for j
  proof -
    have "entry_at a j \<noteq> entry_at t i" using entry_at_inj [OF aa(1) ta(2) that i] ta(1) by auto
    moreover have "entry_at a j - a < PGSIZE"
    proof -
      have "unat (8 * j) = 8 * unat j" using that by (simp add: unat_word_ariths)
      then show ?thesis using that by (simp add: entry_at_def PGSIZE_def word_less_nat_alt)
    qed
    ultimately show ?thesis by (simp add: with_table_def zero_page_def)
  qed
  show ?thesis
  proof (cases "\<exists>r. q = p @ i # r")
    case False
    then show ?thesis using other [OF q] by auto
  next
    case True
    then obtain r where r: "q = p @ i # r" by blast
    show ?thesis
    proof (cases r)
      case Nil
      then show ?thesis using r new by simp
    next
      case (Cons j r')
      have "unat j < 512" using q r Cons by (simp add: path_ok_def)
      then have "walk (with_table t i a m) root q = None"
        using walk_append [of "with_table t i a m" root "p @ [i]" "j # r'"] new empty r Cons by simp
      moreover have "walk m root q = None" using p(2,3) r by (simp add: walk_append)
      ultimately show ?thesis using r Cons by simp
    qed
  qed
qed

lemma pt_ok_with_table:
  assumes "pt_ok m root" and "path_ok (p @ [i])" "walk m root p = Some t" "\<not> present (m (entry_at t i))"
    and "new_table m root a"
  shows "pt_ok (with_table t i a m) root"
  unfolding pt_ok_def walk_with_table [OF assms]
proof (intro conjI allI impI)
  note w = walk_with_table [OF assms]
  fix q q' x
  assume q: "path_ok q" "walk (with_table t i a m) root q = Some x"
  then show "page_aligned x" "x \<noteq> 0"
    using w [OF q(1)] pt_okD(1,2) [OF assms(1) q(1)] assms(5) by (auto simp: new_table_def split: if_splits)
  assume q': "path_ok q'" "walk (with_table t i a m) root q' = Some x"
  have na: "walk m root r \<noteq> Some a" if "path_ok r" for r using assms(5) that by (auto simp: new_table_def)
  show "q = q'"
  proof (cases "q = p @ [i]"; cases "q' = p @ [i]")
    assume "q = p @ [i]" "q' \<noteq> p @ [i]"
    then show ?thesis using w [OF q(1)] w [OF q'(1)] q(2) q'(2) na [OF q'(1)] by simp
  next
    assume "q \<noteq> p @ [i]" "q' = p @ [i]"
    then show ?thesis using w [OF q(1)] w [OF q'(1)] q(2) q'(2) na [OF q(1)] by simp
  next
    assume "q \<noteq> p @ [i]" "q' \<noteq> p @ [i]"
    then have "walk m root q = Some x" "walk m root q' = Some x" using w [OF q(1)] w [OF q'(1)] q(2) q'(2) by simp_all
    then show ?thesis using pt_okD(3) [OF assms(1) q(1) _ q'(1)] by metis
  qed simp
qed

lemma pte_of_with_table:
  assumes "pt_ok m root" and "path_ok (p @ [i])" "walk m root p = Some t" "\<not> present (m (entry_at t i))"
    and "new_table m root a"
  shows "pte_of (with_table t i a m) root v = pte_of m root v"
proof -
  note w = walk_with_table [OF assms vpath_ok(1) [of v]]
  have i: "unat i < 512" "path_ok p" "length p \<le> 2" using assms(2) by (simp_all add: path_ok_snoc)
  have t: "page_aligned t" "t \<noteq> a" using pt_okD(1) [OF assms(1) i(2) assms(3)] assms(3,5) i(2) by (auto simp: new_table_def)
  have a: "page_aligned a" using assms(5) by (simp add: new_table_def)
  show ?thesis
  proof (cases "vpath v = p @ [i]")
    case True
    have "entry_at a (pti v) \<noteq> entry_at t i" using entry_at_inj [OF a t(1) vpath_ok(2) i(1)] t(2) by auto
    moreover have "entry_at a (pti v) - a < PGSIZE"
    proof -
      have "unat (8 * pti v) = 8 * unat (pti v)" using vpath_ok(2) [of v] by (simp add: unat_word_ariths)
      then show ?thesis using vpath_ok(2) [of v] by (simp add: entry_at_def PGSIZE_def word_less_nat_alt)
    qed
    moreover have "walk m root (vpath v) = None" using assms(3,4) by (simp add: True walk_append)
    ultimately show ?thesis using w True by (simp add: pte_of_def with_table_def zero_page_def)
  next
    case False
    have "with_table t i a m (entry_at x (pti v)) = m (entry_at x (pti v))" if "walk m root (vpath v) = Some x" for x
    proof -
      have x: "page_aligned x" "x \<noteq> a"
        using pt_okD(1) [OF assms(1) vpath_ok(1) that] assms(5) that vpath_ok(1) by (auto simp: new_table_def)
      have "x \<noteq> t"
        using pt_okD(3) [OF assms(1) vpath_ok(1) that i(2)] assms(3) i(3) by (auto simp: vpath_def)
      then have "entry_at x (pti v) \<noteq> entry_at t i" using entry_at_inj [OF x(1) t(1) vpath_ok(2) i(1)] by auto
      moreover have "\<not> entry_at x (pti v) - a < PGSIZE" using entry_in_page [OF x(1) a vpath_ok(2)] x(2) by auto
      ultimately show ?thesis by (simp add: with_table_def zero_page_def)
    qed
    then show ?thesis using w False by (auto simp: pte_of_def split: option.splits)
  qed
qed

subsection \<open>Descending\<close>

text \<open>The state in which the tables under \<open>root\<close> can grow: every free page can become a table.\<close>

definition pt_state :: "phys \<Rightarrow> u64 \<Rightarrow> bool" where
  "pt_state ph root \<longleftrightarrow> pages_ok ph \<and> pt_ok (pmem ph) root \<and>
     (\<forall>pg \<in> set (page_list ph vm_pgfreeq). new_table (pmem ph) root (paddr (page_of ph pg)))"

lemma paddr_in_frame: "paddr (page_of ph p) \<in> frame ph p"
  by (simp add: frame_def PGSIZE_def)

lemma descend_step:
  assumes st: "pt_state ph root" and p: "path_ok (p @ [i])" "walk (pmem ph) root p = Some t"
    and d: "pmap_descend t i True kMMUDefaultProt ph = Some (t', ph')"
  shows "pt_state ph' root" and "walk (pmem ph') root (p @ [i]) = Some t'"
    and "pte_of (pmem ph') root v = pte_of (pmem ph) root v"
    and "path_ok q \<Longrightarrow> walk (pmem ph) root q = Some x \<Longrightarrow> walk (pmem ph') root q = Some x"
    and "page_of ph' = page_of ph" and "vm_pregion_queue ph' = vm_pregion_queue ph"
proof -
  let ?m = "pmem ph"
  have ok: "pages_ok ph" "pt_ok ?m root" using st by (simp_all add: pt_state_def)
  have "pt_state ph' root \<and> walk (pmem ph') root (p @ [i]) = Some t' \<and>
    (\<forall>v. pte_of (pmem ph') root v = pte_of ?m root v) \<and>
    (\<forall>q x. path_ok q \<longrightarrow> walk ?m root q = Some x \<longrightarrow> walk (pmem ph') root q = Some x) \<and>
    page_of ph' = page_of ph \<and> vm_pregion_queue ph' = vm_pregion_queue ph"
  proof (cases "present (?m (entry_at t i))")
    case True
    then have "ph' = ph" "t' = pte_get_addr (?m (entry_at t i))" using d by (auto simp: pmap_descend_def Let_def)
    with True st p show ?thesis by (simp add: walk_append)
  next
    case False
    then obtain page ph1 where al: "vm_pagealloc True vm_pgpmapq ph = Some (page, ph1)"
      and t': "t' = paddr (page_of ph1 page)" and ph': "ph' = pte_set (entry_at t i) t' kMMUDefaultProt ph1"
      using d by (auto simp: pmap_descend_def Let_def split: Option.bind_splits)
    obtain rest where f: "page_list ph vm_pgfreeq = page # rest"
      using al by (auto simp: vm_pagealloc_def page_list_def first_of_def split: Option.bind_splits list.splits)
    from changequeue_lists [OF ok(1), of page vm_pgfreeq vm_pgpmapq "Some vm_pgfreeq" vm_pgfreeq] f
    obtain ph0 where c: "vm_page_changequeue (Some page) (Some vm_pgfreeq) vm_pgpmapq ph = Some ph0"
      and l: "page_list ph0 = (page_list ph)(vm_pgfreeq := remove1 page (page_list ph vm_pgfreeq), vm_pgpmapq := page # page_list ph vm_pgpmapq)"
      and po: "page_of ph0 = page_of ph" "pmem ph0 = ?m" "vm_pregion_queue ph0 = vm_pregion_queue ph" by auto
    have ph1: "ph1 = ph0\<lparr>pmem := zero_page (paddr (page_of ph page)) ?m\<rparr>"
      using al f c po by (simp add: vm_pagealloc_def page_list_def)
    let ?a = "paddr (page_of ph page)"
    have ta: "t' = ?a" using t' ph1 po by simp
    have nt: "new_table ?m root ?a" using st f by (simp add: pt_state_def)
    have m': "pmem ph' = with_table t i ?a ?m"
      using ph' ph1 ta by (simp add: pte_set_def with_table_def Let_def)
    note w = walk_with_table [OF ok(2) p False nt] and pk = pt_ok_with_table [OF ok(2) p False nt]
    have ok0: "pages_ok ph0" using moved_pages_ok(1) [OF ok(1) _ _ l po(1)] f by simp
    have ph'0: "page_list ph' = page_list ph0" "page_of ph' = page_of ph" "pages_ok ph'"
      using ph' ph1 po ok0 by (simp_all add: pte_set_def Let_def)
    have "new_table (pmem ph') root (paddr (page_of ph' pg))" if pg: "pg \<in> set (page_list ph' vm_pgfreeq)" for pg
    proof -
      have pf: "pg \<in> set rest" using pg l f ph'0 by simp
      then have n: "new_table ?m root (paddr (page_of ph pg))" using st f by (simp add: pt_state_def)
      have "page \<noteq> pg" using pf f ok(1) by (auto simp: pages_ok_def dest!: spec [of _ vm_pgfreeq])
      moreover have "page \<in> on_queues ph" "pg \<in> on_queues ph" 
        unfolding on_queues_def UN_iff by (rule bexI [of _ vm_pgfreeq]; use f pf in simp)+
      ultimately have "frame ph page \<inter> frame ph pg = {}" using ok(1) by (simp add: pages_ok_def)
      then have "?a \<noteq> paddr (page_of ph pg)" using paddr_in_frame [of ph] by (metis disjoint_iff)
      with n w m' show ?thesis by (auto simp: new_table_def ph'0 split: if_splits)
    qed
    then have "pt_state ph' root" using ph'0(3) pk m' by (simp add: pt_state_def)
    moreover have "walk (pmem ph') root (p @ [i]) = Some t'" using w p(1) m' ta by simp
    moreover have "walk (pmem ph') root q = Some x" if "path_ok q" "walk ?m root q = Some x" for q x
    proof -
      have "q \<noteq> p @ [i]" using that(2) p(2) False by (auto simp: walk_append)
      with w that m' show ?thesis by simp
    qed
    ultimately show ?thesis
      using pte_of_with_table [OF ok(2) p False nt] m' ph'0 ph' ph1 po(3) by (simp add: pte_set_def Let_def)
  qed
  then show "pt_state ph' root" "walk (pmem ph') root (p @ [i]) = Some t'"
    "pte_of (pmem ph') root v = pte_of (pmem ph) root v"
    "path_ok q \<Longrightarrow> walk (pmem ph) root q = Some x \<Longrightarrow> walk (pmem ph') root q = Some x"
    "page_of ph' = page_of ph" "vm_pregion_queue ph' = vm_pregion_queue ph" by auto
qed

text \<open>
  A page in use that holds no table: \<^verbatim>\<open>pmap_descend\<close> and \<^verbatim>\<open>pmap_enter_kern\<close> leave its contents
  alone.
\<close>

definition data_page :: "phys \<Rightarrow> u64 \<Rightarrow> page_ref \<Rightarrow> bool" where
  "data_page ph root pg \<longleftrightarrow> pg \<in> on_queues ph \<and> pg \<notin> set (page_list ph vm_pgfreeq) \<and>
     page_aligned (paddr (page_of ph pg)) \<and>
     (\<forall>p t. path_ok p \<longrightarrow> walk (pmem ph) root p = Some t \<longrightarrow> t \<noteq> paddr (page_of ph pg))"

lemma data_page_entry:
  assumes "data_page ph root pg" and "pt_ok (pmem ph) root" and "path_ok p" "walk (pmem ph) root p = Some t" "unat i < 512"
  shows "entry_at t i \<notin> frame ph pg"
proof
  assume "entry_at t i \<in> frame ph pg"
  then have "t = paddr (page_of ph pg)"
    using entry_in_page [OF pt_okD(1) [OF assms(2-4)] _ assms(5)] assms(1) by (simp add: frame_def data_page_def)
  then show False using assms(1,3,4) by (auto simp: data_page_def)
qed

lemma descend_new:
  assumes "pages_ok ph" and "\<not> present (pmem ph (entry_at t i))"
    and "pmap_descend t i True kMMUDefaultProt ph = Some (t', ph')"
  shows "\<exists>page rest. page_list ph vm_pgfreeq = page # rest \<and> t' = paddr (page_of ph page) \<and>
    pmem ph' = with_table t i t' (pmem ph) \<and> page_of ph' = page_of ph \<and>
    page_list ph' = (page_list ph)(vm_pgfreeq := rest, vm_pgpmapq := page # page_list ph vm_pgpmapq) \<and>
    on_queues ph' = on_queues ph"
proof -
  obtain page ph1 where al: "vm_pagealloc True vm_pgpmapq ph = Some (page, ph1)"
    and t': "t' = paddr (page_of ph1 page)" and ph': "ph' = pte_set (entry_at t i) t' kMMUDefaultProt ph1"
    using assms(2,3) by (auto simp: pmap_descend_def Let_def split: Option.bind_splits)
  obtain rest where f: "page_list ph vm_pgfreeq = page # rest"
    using al by (auto simp: vm_pagealloc_def page_list_def first_of_def split: Option.bind_splits list.splits)
  from changequeue_lists [OF assms(1), of page vm_pgfreeq vm_pgpmapq "Some vm_pgfreeq" vm_pgfreeq] f
  obtain ph0 where c: "vm_page_changequeue (Some page) (Some vm_pgfreeq) vm_pgpmapq ph = Some ph0"
    and l: "page_list ph0 = (page_list ph)(vm_pgfreeq := remove1 page (page_list ph vm_pgfreeq), vm_pgpmapq := page # page_list ph vm_pgpmapq)"
    and po: "page_of ph0 = page_of ph" "pmem ph0 = pmem ph" by auto
  have ph1: "ph1 = ph0\<lparr>pmem := zero_page (paddr (page_of ph page)) (pmem ph)\<rparr>"
    using al f c po by (simp add: vm_pagealloc_def page_list_def)
  have "on_queues ph0 = on_queues ph" using moved_pages_ok(2) [OF assms(1) _ _ l po(1)] f by simp
  then show ?thesis using f ph' ph1 t' po l by (simp add: pte_set_def with_table_def Let_def)
qed

lemma descend_data:
  assumes st: "pt_state ph root" and p: "path_ok (p @ [i])" "walk (pmem ph) root p = Some t"
    and d: "pmap_descend t i True kMMUDefaultProt ph = Some (t', ph')" and pg: "data_page ph root pg"
  shows "data_page ph' root pg \<and> (\<forall>a \<in> frame ph pg. pmem ph' a = pmem ph a)"
proof (cases "present (pmem ph (entry_at t i))")
  case True
  then have "ph' = ph" using d by (auto simp: pmap_descend_def Let_def)
  then show ?thesis using pg by simp
next
  case False
  have ok: "pages_ok ph" "pt_ok (pmem ph) root" using st by (simp_all add: pt_state_def)
  from descend_new [OF ok(1) False d] obtain page rest where f: "page_list ph vm_pgfreeq = page # rest"
    and t': "t' = paddr (page_of ph page)" and m': "pmem ph' = with_table t i t' (pmem ph)" and po: "page_of ph' = page_of ph"
    and l: "page_list ph' = (page_list ph)(vm_pgfreeq := rest, vm_pgpmapq := page # page_list ph vm_pgpmapq)"
    and oq: "on_queues ph' = on_queues ph" by blast
  have nt: "new_table (pmem ph) root t'" using st f t' by (simp add: pt_state_def)
  have "page \<in> on_queues ph" unfolding on_queues_def UN_iff by (rule bexI [of _ vm_pgfreeq]) (simp_all add: f)
  moreover have "page \<noteq> pg" using pg f by (auto simp: data_page_def)
  ultimately have dj: "frame ph page \<inter> frame ph pg = {}" using ok(1) pg by (simp add: pages_ok_def data_page_def)
  then have "t' \<noteq> paddr (page_of ph pg)" using paddr_in_frame [of ph] t' by (metis disjoint_iff)
  then have "data_page ph' root pg"
    using pg f walk_with_table [OF ok(2) p False nt] by (auto simp: data_page_def oq l po m' split: if_splits)
  moreover have "pmem ph' a = pmem ph a" if "a \<in> frame ph pg" for a
  proof -
    have "a \<noteq> entry_at t i"
      using data_page_entry [OF pg ok(2) path_ok_prefix [OF p(1)] p(2)] p(1) that by (auto simp: path_ok_snoc)
    moreover have "a \<notin> frame ph page" using dj that by blast
    ultimately show ?thesis by (simp add: m' with_table_def zero_page_def frame_def t')
  qed
  ultimately show ?thesis by blast
qed

text \<open>Setting the last-level entry.\<close>

lemma pte_of_update:
  assumes ok: "pt_ok m root" and w: "walk m root (vpath virt) = Some t"
  shows "pte_of (m(entry_at t (pti virt) := x)) root v = (if same_vpage v virt then x else pte_of m root v)"
    and "path_ok q \<Longrightarrow> walk (m(entry_at t (pti virt) := x)) root q = walk m root q"
proof -
  have wq: "walk (m(entry_at t (pti virt) := x)) root q = walk m root q" if "path_ok q" for q
  proof (rule walk_update [OF ok vpath_ok(1) w vpath_ok(2) that])
    show "q \<noteq> vpath virt @ pti virt # r" for r using that by (auto simp: path_ok_def vpath_def)
  qed
  then show "path_ok q \<Longrightarrow> walk (m(entry_at t (pti virt) := x)) root q = walk m root q" .
  show "pte_of (m(entry_at t (pti virt) := x)) root v = (if same_vpage v virt then x else pte_of m root v)"
  proof (cases "walk m root (vpath v)")
    case None
    then have "\<not> same_vpage v virt" using w by (auto simp: same_vpage_def)
    with None show ?thesis using wq [OF vpath_ok(1), of v] by (simp add: pte_of_def)
  next
    case (Some u)
    have "u = t \<longleftrightarrow> vpath v = vpath virt"
      using pt_okD(3) [OF ok vpath_ok(1) w vpath_ok(1), of v] Some w by auto
    moreover have "entry_at u (pti v) = entry_at t (pti virt) \<longleftrightarrow> u = t \<and> pti v = pti virt"
      using entry_at_inj [OF pt_okD(1) [OF ok vpath_ok(1) Some] pt_okD(1) [OF ok vpath_ok(1) w] vpath_ok(2) vpath_ok(2)] by auto
    ultimately show ?thesis using Some wq [OF vpath_ok(1), of v] by (auto simp: pte_of_def same_vpage_def)
  qed
qed

lemma enter_kern_step:
  assumes st: "pt_state ph (pml4 pm)" and e: "pmap_enter_kern pm pa virt prot ph = Some ph'"
  shows "pt_state ph' (pml4 pm)" and "\<exists>t. walk (pmem ph') (pml4 pm) (vpath virt) = Some t"
    and "pte_of (pmem ph') (pml4 pm) v =
      (if same_vpage v virt then (pa AND kMMUFrame) OR vm_prot_to_i386 prot else pte_of (pmem ph) (pml4 pm) v)"
    and "page_of ph' = page_of ph" and "vm_pregion_queue ph' = vm_pregion_queue ph"
proof -
  let ?r = "pml4 pm"
  obtain t1 ph1 t2 ph2 t3 ph3 where d1: "pmap_descend ?r (pml4i virt) True kMMUDefaultProt ph = Some (t1, ph1)"
    and d2: "pmap_descend t1 (pdpti virt) True kMMUDefaultProt ph1 = Some (t2, ph2)"
    and d3: "pmap_descend t2 (pdi virt) True kMMUDefaultProt ph2 = Some (t3, ph3)"
    and ph': "ph' = pte_set (entry_at t3 (pti virt)) pa (vm_prot_to_i386 prot) ph3"
    using e by (auto simp: pmap_enter_kern_def split: Option.bind_splits)
  have pk: "path_ok ([] @ [pml4i virt])" "path_ok ([pml4i virt] @ [pdpti virt])" "path_ok ([pml4i virt, pdpti virt] @ [pdi virt])"
    using vpath_ok(1) [of virt] by (auto simp: path_ok_def vpath_def)
  note s1 = descend_step [OF st pk(1) _ d1, simplified]
  note s2 = descend_step [OF s1(1) pk(2) _ d2, simplified, OF s1(2)]
  note s3 = descend_step [OF s2(1) pk(3) _ d3, simplified, OF s2(2)]
  have w3: "walk (pmem ph3) ?r (vpath virt) = Some t3" using s3(2) by (simp add: vpath_def)
  have ok3: "pt_ok (pmem ph3) ?r" using s3(1) by (simp add: pt_state_def)
  have m': "pmem ph' = (pmem ph3)(entry_at t3 (pti virt) := (pa AND kMMUFrame) OR vm_prot_to_i386 prot)"
    using ph' by (simp add: pte_set_def Let_def)
  have wq: "walk (pmem ph') ?r q = walk (pmem ph3) ?r q" if "path_ok q" for q
    unfolding m' by (rule pte_of_update(2) [OF ok3 w3 that])
  show "\<exists>t. walk (pmem ph') ?r (vpath virt) = Some t" using wq [OF vpath_ok(1)] w3 by simp
  show "pte_of (pmem ph') ?r v = (if same_vpage v virt then (pa AND kMMUFrame) OR vm_prot_to_i386 prot else pte_of (pmem ph) ?r v)"
    unfolding m' pte_of_update(1) [OF ok3 w3] using s1(3) s2(3) s3(3) by simp
  have fr: "page_list ph' = page_list ph3" "page_of ph' = page_of ph3" "pages_ok ph' = pages_ok ph3" "vm_pregion_queue ph' = vm_pregion_queue ph3"
    using ph' by (simp_all add: pte_set_def Let_def)
  have "new_table (pmem ph') ?r a = new_table (pmem ph3) ?r a" for a using wq by (simp add: new_table_def)
  moreover have "pt_ok (pmem ph') ?r" using ok3 wq unfolding pt_ok_def by metis
  ultimately show "pt_state ph' ?r" using s3(1) by (simp add: pt_state_def fr)
  show "page_of ph' = page_of ph" "vm_pregion_queue ph' = vm_pregion_queue ph"
    using fr s1(5,6) s2(5,6) s3(5,6) by simp_all
qed

lemma enter_kern_data:
  assumes st: "pt_state ph (pml4 pm)" and e: "pmap_enter_kern pm pa virt prot ph = Some ph'" and pg: "data_page ph (pml4 pm) pg"
  shows "data_page ph' (pml4 pm) pg \<and> (\<forall>a \<in> frame ph pg. pmem ph' a = pmem ph a)"
proof -
  let ?r = "pml4 pm"
  obtain t1 ph1 t2 ph2 t3 ph3 where d1: "pmap_descend ?r (pml4i virt) True kMMUDefaultProt ph = Some (t1, ph1)"
    and d2: "pmap_descend t1 (pdpti virt) True kMMUDefaultProt ph1 = Some (t2, ph2)"
    and d3: "pmap_descend t2 (pdi virt) True kMMUDefaultProt ph2 = Some (t3, ph3)"
    and ph': "ph' = pte_set (entry_at t3 (pti virt)) pa (vm_prot_to_i386 prot) ph3"
    using e by (auto simp: pmap_enter_kern_def split: Option.bind_splits)
  have pk: "path_ok ([] @ [pml4i virt])" "path_ok ([pml4i virt] @ [pdpti virt])" "path_ok ([pml4i virt, pdpti virt] @ [pdi virt])"
    using vpath_ok(1) [of virt] by (auto simp: path_ok_def vpath_def)
  note s1 = descend_step [OF st pk(1) _ d1, simplified]
  note s2 = descend_step [OF s1(1) pk(2) _ d2, simplified, OF s1(2)]
  note s3 = descend_step [OF s2(1) pk(3) _ d3, simplified, OF s2(2)]
  have "walk (pmem ph2) ?r [pml4i virt, pdpti virt] = Some t2" "walk (pmem ph1) ?r [pml4i virt] = Some t1"
    using s2(2) s1(2) by simp_all
  note dp1 = descend_data [OF st pk(1) _ d1 pg, simplified]
  note dp2 = descend_data [OF s1(1) pk(2) _ d2 dp1 [THEN conjunct1], simplified, OF s1(2)]
  note dp3 = descend_data [OF s2(1) pk(3) _ d3 dp2 [THEN conjunct1], simplified, OF s2(2)]
  have fr: "frame ph1 pg = frame ph pg" "frame ph2 pg = frame ph pg" "frame ph3 pg = frame ph pg"
    using s1(5) s2(5) s3(5) by (simp_all add: frame_def)
  have w3: "walk (pmem ph3) ?r (vpath virt) = Some t3" using s3(2) by (simp add: vpath_def)
  have ok3: "pt_ok (pmem ph3) ?r" using s3(1) by (simp add: pt_state_def)
  have out: "entry_at t3 (pti virt) \<notin> frame ph3 pg"
    by (rule data_page_entry [OF dp3 [THEN conjunct1] ok3 vpath_ok(1) w3 vpath_ok(2)])
  have m': "pmem ph' = (pmem ph3)(entry_at t3 (pti virt) := (pa AND kMMUFrame) OR vm_prot_to_i386 prot)"
    and same: "page_list ph' = page_list ph3" "page_of ph' = page_of ph3" "on_queues ph' = on_queues ph3"
    using ph' by (simp_all add: pte_set_def Let_def)
  have "walk (pmem ph') ?r q = walk (pmem ph3) ?r q" if "path_ok q" for q
    unfolding m' by (rule pte_of_update(2) [OF ok3 w3 that])
  then have "data_page ph' ?r pg" using dp3 same by (simp add: data_page_def)
  moreover have "pmem ph' a = pmem ph a" if "a \<in> frame ph pg" for a
    using that dp1 dp2 dp3 fr out by (auto simp: m')
  ultimately show ?thesis by blast
qed

subsection \<open>The functions in terms of walks\<close>

lemma descend_noalloc:
  "pmap_descend t i False x ph = Some (if present (pmem ph (entry_at t i)) then pte_get_addr (pmem ph (entry_at t i)) else 0, ph)"
  by (simp add: pmap_descend_def Let_def)

lemma walk_step_nonzero:
  assumes "pt_ok m root" and "path_ok (p @ [i])" and "walk m root p = Some t" and "present (m (entry_at t i))"
  shows "walk m root (p @ [i]) = Some (pte_get_addr (m (entry_at t i)))" "pte_get_addr (m (entry_at t i)) \<noteq> 0"
proof -
  show w: "walk m root (p @ [i]) = Some (pte_get_addr (m (entry_at t i)))" using assms(3,4) by (simp add: walk_append)
  show "pte_get_addr (m (entry_at t i)) \<noteq> 0" by (rule pt_okD(2) [OF assms(1,2) w])
qed

text \<open>The three non-allocating steps that \<^verbatim>\<open>pmap_fully_descend\<close> and \<^verbatim>\<open>pmap_trans\<close> share.\<close>

lemma descend_three:
  assumes ok: "pt_ok (pmem ph) (pml4 pm)"
  shows "do {
     (a, _) \<leftarrow> pmap_descend (pml4 pm) (pml4i v) False 0 ph;
     if a = 0 then Some 0 else do {
       (b, _) \<leftarrow> pmap_descend a (pdpti v) False 0 ph;
       if b = 0 then Some 0 else do {
         (c, _) \<leftarrow> pmap_descend b (pdi v) False 0 ph;
         if c = 0 then Some 0 else f c
       }
     }
   } = (case walk (pmem ph) (pml4 pm) (vpath v) of None \<Rightarrow> Some 0 | Some t \<Rightarrow> f t)"
proof -
  let ?m = "pmem ph" and ?r = "pml4 pm"
  have pk: "path_ok ([] @ [pml4i v])" "path_ok ([pml4i v] @ [pdpti v])" "path_ok ([pml4i v, pdpti v] @ [pdi v])"
    using vpath_ok(1) [of v] by (auto simp: path_ok_def vpath_def)
  let ?a = "pte_get_addr (?m (entry_at ?r (pml4i v)))"
  show ?thesis
  proof (cases "present (?m (entry_at ?r (pml4i v)))")
    case a: True
    note na = walk_step_nonzero [OF ok pk(1) _ a, simplified]
    let ?b = "pte_get_addr (?m (entry_at ?a (pdpti v)))"
    show ?thesis
    proof (cases "present (?m (entry_at ?a (pdpti v)))")
      case b: True
      note nb = walk_step_nonzero [OF ok pk(2) _ b, simplified, OF na(1)]
      show ?thesis
      proof (cases "present (?m (entry_at ?b (pdi v)))")
        case c: True
        note nc = walk_step_nonzero [OF ok pk(3) _ c, simplified, OF nb(1)]
        show ?thesis using a b c na(2) nb(2) nc(2) by (simp add: descend_noalloc vpath_def)
      next
        case False
        with a b na(2) nb(2) show ?thesis by (simp add: descend_noalloc vpath_def)
      qed
    next
      case False
      with a na(2) show ?thesis by (simp add: descend_noalloc vpath_def)
    qed
  next
    case False
    then show ?thesis by (simp add: descend_noalloc vpath_def)
  qed
qed

lemma fully_descend_walk:
  assumes "pt_ok (pmem ph) (pml4 pm)"
  shows "pmap_fully_descend pm v ph =
    Some (case walk (pmem ph) (pml4 pm) (vpath v) of None \<Rightarrow> 0 | Some t \<Rightarrow> entry_at t (pti v))"
  unfolding pmap_fully_descend_def descend_three [OF assms] by (simp split: option.splits)

lemma trans_walk:
  assumes "pt_ok (pmem ph) (pml4 pm)"
  shows "pmap_trans pm v ph = Some (let e = pte_of (pmem ph) (pml4 pm) v in
    if present e then pte_get_addr e + 8 * (v AND 0xFFF) else 0)"
  unfolding pmap_trans_def Let_def descend_three [OF assms] pte_of_def by (simp split: option.splits)

lemma pmap_descend_returns:
  assumes "page_list ph vm_pgfreeq = page # rest" and "pages_ok ph"
  shows "\<exists>t' ph'. pmap_descend t i True prot ph = Some (t', ph') \<and>
    length (page_list ph vm_pgfreeq) \<le> Suc (length (page_list ph' vm_pgfreeq))"
proof (cases "present (pmem ph (entry_at t i))")
  case False
  from vm_pagealloc_spec [OF assms(2), of vm_pgpmapq True] assms(1)
  obtain ph1 where "vm_pagealloc True vm_pgpmapq ph = Some (page, ph1)"
    "page_list ph1 = (page_list ph)(vm_pgfreeq := rest, vm_pgpmapq := page # page_list ph vm_pgpmapq)" by auto
  with False assms(1) show ?thesis by (simp add: pmap_descend_def Let_def pte_set_def)
qed (simp add: pmap_descend_def Let_def)

lemma enter_kern_returns:
  assumes st: "pt_state ph (pml4 pm)" and n: "3 \<le> length (page_list ph vm_pgfreeq)"
  shows "\<exists>ph'. pmap_enter_kern pm pa virt prot ph = Some ph'"
proof -
  have pk: "path_ok ([] @ [pml4i virt])" "path_ok ([pml4i virt] @ [pdpti virt])"
    using vpath_ok(1) [of virt] by (auto simp: path_ok_def vpath_def)
  have ex: "\<exists>page rest. page_list q vm_pgfreeq = page # rest" if "1 \<le> length (page_list q vm_pgfreeq)" for q
    using that by (cases "page_list q vm_pgfreeq") auto
  have po: "pages_ok q" if "pt_state q (pml4 pm)" for q using that by (simp add: pt_state_def)
  obtain t1 ph1 where d1: "pmap_descend (pml4 pm) (pml4i virt) True kMMUDefaultProt ph = Some (t1, ph1)"
    and l1: "2 \<le> length (page_list ph1 vm_pgfreeq)"
    using ex [of ph] pmap_descend_returns [OF _ po [OF st]] n by fastforce
  note s1 = descend_step [OF st pk(1) _ d1, simplified]
  obtain t2 ph2 where d2: "pmap_descend t1 (pdpti virt) True kMMUDefaultProt ph1 = Some (t2, ph2)"
    and l2: "1 \<le> length (page_list ph2 vm_pgfreeq)"
    using ex [of ph1] pmap_descend_returns [OF _ po [OF s1(1)]] l1 by fastforce
  note s2 = descend_step [OF s1(1) pk(2) _ d2, simplified, OF s1(2)]
  obtain t3 ph3 where "pmap_descend t2 (pdi virt) True kMMUDefaultProt ph2 = Some (t3, ph3)"
    using ex [of ph2] pmap_descend_returns [OF _ po [OF s2(1)]] l2 by fastforce
  with d1 d2 show ?thesis by (simp add: pmap_enter_kern_def)
qed

lemma prot_present: "present ((pa AND kMMUFrame) OR vm_prot_to_i386 prot) \<longleftrightarrow> prot AND kVMRead \<noteq> 0"
  by (auto simp: vm_prot_to_i386_def bit.conj_disj_distrib2 and.assoc mmu_defs)

lemma prot_addr: "pte_get_addr ((pa AND kMMUFrame) OR vm_prot_to_i386 prot) = pa AND kMMUFrame"
  by (simp add: pte_get_addr_def vm_prot_to_i386_def bit.conj_disj_distrib2 and.assoc mmu_defs)

subsection \<open>Properties\<close>

text \<open>(C8) After pmap_enter_kern maps virt, pmap_trans of every address in that virtual page
  returns the frame plus eight times the page offset (zero without read permission), every other
  address translates as before, and the page tables stay well formed.\<close>

theorem pmap_enter_trans:
  assumes "pt_state ph (pml4 pm)" and "3 \<le> length (page_list ph vm_pgfreeq)"
  shows "\<exists>ph'. pmap_enter_kern pm pa virt prot ph = Some ph' \<and> pt_state ph' (pml4 pm) \<and>
    (\<forall>v. pmap_trans pm v ph' =
      (if same_vpage v virt
       then Some (if prot AND kVMRead \<noteq> 0 then (pa AND kMMUFrame) + 8 * (v AND 0xFFF) else 0)
       else pmap_trans pm v ph))"
proof -
  obtain ph' where e: "pmap_enter_kern pm pa virt prot ph = Some ph'" using enter_kern_returns [OF assms] by blast
  note s = enter_kern_step [OF assms(1) e]
  have ok: "pt_ok (pmem ph) (pml4 pm)" "pt_ok (pmem ph') (pml4 pm)" using assms(1) s(1) by (simp_all add: pt_state_def)
  have "pmap_trans pm v ph' = (if same_vpage v virt
       then Some (if prot AND kVMRead \<noteq> 0 then (pa AND kMMUFrame) + 8 * (v AND 0xFFF) else 0)
       else pmap_trans pm v ph)" for v
    unfolding trans_walk [OF ok(1)] trans_walk [OF ok(2)] s(3) Let_def by (simp add: prot_present prot_addr)
  with e s(1) show ?thesis by blast
qed

text \<open>(C9) pmap_unenter_kern of a virtual page just mapped returns the page of the mapped
  frame, leaves that virtual page unmapped and restores every other translation.\<close>

theorem pmap_unenter_kern_inverse:
  assumes st: "pt_state ph (pml4 pm)" and e: "pmap_enter_kern pm pa virt prot ph = Some ph1"
    and pg: "vm_page_from_paddr (pa AND kMMUFrame) ph = Some page"
  shows "\<exists>ph2. pmap_unenter_kern pm virt ph1 = Some (page, ph2) \<and> pmap_trans pm virt ph2 = Some 0 \<and>
    (\<forall>v. \<not> same_vpage v virt \<longrightarrow> pmap_trans pm v ph2 = pmap_trans pm v ph)"
proof -
  let ?r = "pml4 pm"
  note s = enter_kern_step [OF st e]
  obtain t where w: "walk (pmem ph1) ?r (vpath virt) = Some t" using s(2) by blast
  have ok: "pt_ok (pmem ph) ?r" "pt_ok (pmem ph1) ?r" using st s(1) by (simp_all add: pt_state_def)
  let ?e = "entry_at t (pti virt)"
  have pte: "pmem ph1 ?e = (pa AND kMMUFrame) OR vm_prot_to_i386 prot"
    using s(3) [of virt] w by (simp add: pte_of_def same_vpage_def)
  have "(pmem ph1 ?e) AND kMMUUser \<noteq> 0"
    unfolding pte by (simp add: vm_prot_to_i386_def bit.conj_disj_distrib2 and.assoc mmu_defs)
  then have nz: "pmem ph1 ?e \<noteq> 0" by auto
  have ez: "?e \<noteq> 0"
  proof -
    have "unat ?e = unat t + 8 * unat (pti virt)"
      by (rule entry_at_unat [OF pt_okD(1) [OF ok(2) vpath_ok(1) w] vpath_ok(2)])
    moreover have "unat t \<noteq> 0" using pt_okD(2) [OF ok(2) vpath_ok(1) w] by (simp add: unat_eq_zero)
    ultimately show ?thesis by (metis add_is_0 unat_0)
  qed
  let ?ph2 = "ph1\<lparr>pmem := (pmem ph1)(?e := 0)\<rparr>"
  have "pmap_unenter_kern pm virt ph1 = Some (page, ?ph2)"
    using fully_descend_walk [OF ok(2)] w nz ez pg s(5) pte
    by (simp add: pmap_unenter_kern_def Let_def prot_addr vm_page_from_paddr_def)
  moreover have ok2: "pt_ok (pmem ?ph2) ?r"
    using ok(2) pte_of_update(2) [OF ok(2) w] unfolding pt_ok_def by simp
  have "pte_of (pmem ?ph2) ?r v = (if same_vpage v virt then 0 else pte_of (pmem ph) ?r v)" for v
    using pte_of_update(1) [OF ok(2) w, of 0 v] s(3) [of v] by simp
  then have "pmap_trans pm v ?ph2 = (if same_vpage v virt then Some 0 else pmap_trans pm v ph)" for v
    unfolding trans_walk [OF ok2] trans_walk [OF ok(1)] Let_def by simp
  ultimately show ?thesis by (auto simp: same_vpage_def)
qed

subsection \<open>Witnesses\<close>

lemma demo_walk: "walk (pmem demo_phys) 0x10000 p = (if p = [] then Some 0x10000 else None)"
  by (cases p) (simp_all add: demo_phys_def)

lemma demo_pt_state: "pt_state demo_phys 0x10000"
  unfolding pt_state_def demo_page_lists
  using demo_pages_ok
  by (auto simp: pt_ok_def demo_walk page_aligned_def new_table_def kMMUFrame_def) (simp_all add: demo_phys_def)

theorem pmap_enter_trans_witness:
  "\<exists>ph'. pmap_enter_kern \<lparr>pml4 = 0x10000\<rparr> 0x5000 0xffff800100000000 kVMAll demo_phys = Some ph' \<and>
     pmap_trans \<lparr>pml4 = 0x10000\<rparr> 0xffff800100000000 ph' = Some 0x5000 \<and>
     pmap_trans \<lparr>pml4 = 0x10000\<rparr> 0xffff800100000001 ph' = Some 0x5008"
proof -
  have "pt_state demo_phys (pml4 \<lparr>pml4 = 0x10000\<rparr>)" "3 \<le> length (page_list demo_phys vm_pgfreeq)"
    using demo_pt_state by (simp_all add: demo_page_lists)
  from pmap_enter_trans [OF this, of "0x5000" "0xffff800100000000" kVMAll] show ?thesis
    by (auto simp: same_vpage_def vpath_def pml4i_def pdpti_def pdi_def pti_def prot_defs kMMUFrame_def)
qed

theorem pmap_unenter_kern_inverse_witness:
  "\<exists>ph1 ph2. pmap_enter_kern \<lparr>pml4 = 0x10000\<rparr> 0x105000 0x1000 kVMAll demo_phys = Some ph1 \<and>
     pmap_unenter_kern \<lparr>pml4 = 0x10000\<rparr> 0x1000 ph1 = Some ((0, 5), ph2) \<and>
     pmap_trans \<lparr>pml4 = 0x10000\<rparr> 0x1000 ph2 = Some 0"
proof -
  let ?pm = "\<lparr>pml4 = 0x10000\<rparr>"
  have st: "pt_state demo_phys (pml4 ?pm)" "3 \<le> length (page_list demo_phys vm_pgfreeq)"
    using demo_pt_state by (simp_all add: demo_page_lists)
  obtain ph1 where e: "pmap_enter_kern ?pm 0x105000 0x1000 kVMAll demo_phys = Some ph1"
    using enter_kern_returns [OF st] by blast
  have "vm_page_from_paddr (0x105000 AND kMMUFrame) demo_phys = Some (0, 5)"
    by (simp add: vm_page_from_paddr_def demo_phys_def kMMUFrame_def PGSIZE_def)
  from pmap_unenter_kern_inverse [OF st(1) e this] e show ?thesis by auto
qed

end
