(* ===== verification/VmKernel.thy ===== *)
theory VmKernel
  imports Vmem Pmap
begin

text \<open>
  The kernel's own address space, \<^verbatim>\<open>vm/vm_kernel.c\<close>: the arena of kernel virtual addresses
  (\<^verbatim>\<open>kmap.vmem\<close>) and, importing from it, the arena of wired memory (\<^verbatim>\<open>vm_kernel_wired\<close>), whose
  imports are backed by physical pages.

  \<^verbatim>\<open>vm_kalloc\<close> and \<^verbatim>\<open>vmem_xalloc\<close> call each other: an allocation refills the pool of segment
  structures with a page from \<^verbatim>\<open>vm_kalloc\<close>. The nested call asks for bootstrap mode, in which
  nothing is refilled, so the recursion has depth one. The model builds \<open>vm_kalloc\<close> from an inner
  copy that has no refill at all, and the lemma at the end shows that the result satisfies the
  recursive equations of the C code.
\<close>

definition KHEAP_BASE :: u64 where "KHEAP_BASE = 0xffff800100000000"
definition KHEAP_SIZE :: u64 where "KHEAP_SIZE = 0x100000000"

record kst =
  k_kmap :: vmem
  k_wired :: vmem
  k_pool :: seg_pool
  k_phys :: phys
  k_kpmap :: pmap

text \<open>The state as one arena's operations see it, with the rest of the kernel beside it.\<close>

definition kmap_vst :: "kst \<Rightarrow> kst vst" where
  "kmap_vst k = \<lparr>arena = k_kmap k, pool = k_pool k, ext = k\<rparr>"

definition kmap_put :: "kst vst \<Rightarrow> kst" where
  "kmap_put st = (ext st)\<lparr>k_kmap := arena st, k_pool := pool st\<rparr>"

definition wired_vst :: "kst \<Rightarrow> kst vst" where
  "wired_vst k = \<lparr>arena = k_wired k, pool = k_pool k, ext = k\<rparr>"

definition wired_put :: "kst vst \<Rightarrow> kst" where
  "wired_put st = (ext st)\<lparr>k_wired := arena st, k_pool := pool st\<rparr>"

type_synonym kalloc_fn = "nat \<Rightarrow> u32 \<Rightarrow> kst \<Rightarrow> (u64 \<times> kst) option"

subsection \<open>The kernel address arena\<close>

definition kmap_env :: "kalloc_fn \<Rightarrow> kst vmem_env" where
  "kmap_env kal = \<lparr>
     env_kalloc = (\<lambda>n fl st. do { (a, k) \<leftarrow> kal n fl (kmap_put st); Some (a, kmap_vst k) }),
     env_alloc = (\<lambda>_ _ _ _. None), env_free = (\<lambda>_ _ _ _. None)\<rparr>"

definition kmap_xalloc :: "kalloc_fn \<Rightarrow> u64 \<Rightarrow> u32 \<Rightarrow> kst \<Rightarrow> ((int \<times> u64 option) \<times> kst) option" where
  "kmap_xalloc kal sz flags k = do {
     (r, st) \<leftarrow> vmem_xalloc (kmap_env kal) sz 0 0 0 0 0 flags (kmap_vst k);
     Some (r, kmap_put st)
   }"

definition kmap_xfree :: "u64 \<Rightarrow> u64 \<Rightarrow> kst \<Rightarrow> (int \<times> kst) option" where
  "kmap_xfree addr sz k = do {
     (r, st) \<leftarrow> vmem_xfree (kmap_env (\<lambda>_ _ _. None)) addr sz (kmap_vst k);
     Some (r, kmap_put st)
   }"

subsection \<open>Wired memory\<close>

definition wire_page :: "u64 \<Rightarrow> u32 \<Rightarrow> u64 \<Rightarrow> kst \<Rightarrow> kst option" where
  "wire_page addr flags i k = do {
     (page, ph1) \<leftarrow> vm_pagealloc (flags AND kVMemSleep \<noteq> 0) vm_pgkmemq (k_phys k);
     ph2 \<leftarrow> pmap_enter_kern (k_kpmap k) (paddr (page_of ph1 page)) (addr + i) kVMAll ph1;
     Some (k\<lparr>k_phys := ph2\<rparr>)
   }"

text \<open>
  The values of \<open>i\<close> in \<^verbatim>\<open>for (int i = 0; i < n; i += PGSIZE)\<close>. The counter is a 32-bit signed
  integer, and the last step of the loop leaves it at the first multiple of the page size from \<open>n\<close>
  on: when that is \<open>2 ^ 31\<close> or more the addition overflows, the program has no defined behaviour,
  and the model stops.
\<close>

definition page_offsets :: "nat \<Rightarrow> u64 list option" where
  "page_offsets n = (let npages = (n + 4095) div 4096 in
     if 4096 * npages < 2 ^ 31 then Some (map (\<lambda>j. of_nat (4096 * j)) [0..<npages]) else None)"

definition internal_allocwired ::
  "(u64 \<Rightarrow> u32 \<Rightarrow> kst \<Rightarrow> ((int \<times> u64 option) \<times> kst) option) \<Rightarrow> vmem_ref option \<Rightarrow> u64 \<Rightarrow> u32 \<Rightarrow> kst \<Rightarrow>
   ((int \<times> u64) \<times> kst) option" where
  "internal_allocwired xalloc vm sz flags k = do {
     kassert (vm = Some Ref_kmap_vmem);
     ((r, out), k1) \<leftarrow> xalloc sz flags k;
     kassert (\<not> r < 0);
     addr \<leftarrow> out;
     offs \<leftarrow> page_offsets (unat (sz - 1));
     k2 \<leftarrow> iterM (wire_page addr flags) offs k1;
     Some ((0, addr), k2)
   }"

definition unwire_page :: "u64 \<Rightarrow> u64 \<Rightarrow> kst \<Rightarrow> kst option" where
  "unwire_page addr i k = do {
     (page, ph1) \<leftarrow> pmap_unenter_kern (k_kpmap k) (addr + i) (k_phys k);
     ph2 \<leftarrow> vm_page_free (Some page) ph1;
     Some (k\<lparr>k_phys := ph2\<rparr>)
   }"

definition internal_freewired :: "vmem_ref option \<Rightarrow> u64 \<Rightarrow> u64 \<Rightarrow> kst \<Rightarrow> kst option" where
  "internal_freewired vm addr sz k = do {
     kassert (vm = Some Ref_kmap_vmem);
     (r, k1) \<leftarrow> kmap_xfree addr sz k;
     if r < 0 then Some k1
     else do {
       offs \<leftarrow> page_offsets (nat (sint (ucast sz :: 32 word)));
       iterM (unwire_page addr) offs k1
     }
   }"

definition wired_env ::
  "kalloc_fn \<Rightarrow> (u64 \<Rightarrow> u32 \<Rightarrow> kst \<Rightarrow> ((int \<times> u64 option) \<times> kst) option) \<Rightarrow> kst vmem_env" where
  "wired_env kal xalloc = \<lparr>
     env_kalloc = (\<lambda>n fl st. do { (a, k) \<leftarrow> kal n fl (wired_put st); Some (a, wired_vst k) }),
     env_alloc = (\<lambda>fn sz fl st. case fn of
         Fn_internal_allocwired \<Rightarrow> do {
           (r, k) \<leftarrow> internal_allocwired xalloc (v_source (arena st)) sz fl (wired_put st);
           Some (r, wired_vst k) }
       | Fn_internal_freewired \<Rightarrow> None),
     env_free = (\<lambda>fn a sz st. case fn of
         Fn_internal_freewired \<Rightarrow> do {
           k \<leftarrow> internal_freewired (v_source (arena st)) a sz (wired_put st);
           Some (wired_vst k) }
       | Fn_internal_allocwired \<Rightarrow> None)\<rparr>"

text \<open>The body of \<^verbatim>\<open>vm_kalloc\<close>, given what a refill and an import call.\<close>

definition vm_kalloc_with ::
  "kalloc_fn \<Rightarrow> (u64 \<Rightarrow> u32 \<Rightarrow> kst \<Rightarrow> ((int \<times> u64 option) \<times> kst) option) \<Rightarrow> kalloc_fn" where
  "vm_kalloc_with kal xalloc npages wait k = do {
     let flags = (if wait AND 0x1 \<noteq> 0 then kVMemSleep else kVMemNoSleep) OR
                 (if wait AND 0x2 \<noteq> 0 then kVMemBootstrap else 0);
     ((r, a), st) \<leftarrow> vmem_xalloc (wired_env kal xalloc) (of_nat npages * PGSIZE) 0 0 0 0 0 flags (wired_vst k);
     Some (if r = 0 then (case a of Some addr \<Rightarrow> addr | None \<Rightarrow> 0) else 0, wired_put st)
   }"

definition vm_kalloc_inner :: kalloc_fn where
  "vm_kalloc_inner = vm_kalloc_with (\<lambda>_ _ _. None) (kmap_xalloc (\<lambda>_ _ _. None))"

definition vm_kalloc :: kalloc_fn where
  "vm_kalloc = vm_kalloc_with vm_kalloc_inner (kmap_xalloc vm_kalloc_inner)"

definition vm_kfree :: "u64 \<Rightarrow> nat \<Rightarrow> kst \<Rightarrow> kst option" where
  "vm_kfree addr npages k = do {
     (r, st) \<leftarrow> vmem_xfree (wired_env vm_kalloc (kmap_xalloc vm_kalloc)) addr (of_nat npages * PGSIZE) (wired_vst k);
     Some (wired_put st)
   }"

definition vm_kernel_init :: "kst \<Rightarrow> kst option" where
  "vm_kernel_init k = do {
     let k0 = k\<lparr>k_pool := vmem_earlyinit (k_pool k)\<rparr>;
     st1 \<leftarrow> vmem_init ''kernel-va'' KHEAP_BASE KHEAP_SIZE PGSIZE None None None kVMemBootstrap (kmap_vst k0);
     let k1 = kmap_put st1;
     st2 \<leftarrow> vmem_init ''kernel-wired'' 0 0 PGSIZE (Some Fn_internal_allocwired) (Some Fn_internal_freewired)
              (Some Ref_kmap_vmem) kVMemBootstrap (wired_vst k1);
     let k2 = wired_put st2;
     Some (k2\<lparr>k_kmap := (k_kmap k2)\<lparr>v_flags := 0\<rparr>, k_wired := (k_wired k2)\<lparr>v_flags := 0\<rparr>\<rparr>)
   }"

definition vm_kernel_dump :: "kst \<Rightarrow> (seg_type \<times> u64 \<times> u64) list \<times> (seg_type \<times> u64 \<times> u64) list" where
  "vm_kernel_dump k = (vmem_dump (k_kmap k) (k_pool k), vmem_dump (k_wired k) (k_pool k))"

subsection \<open>The recursion between allocation and refill\<close>

lemma refill_flag: "flags AND kVMemSleep = 0"
  by (simp add: kVMemSleep_def)

lemma seg_refill_cong:
  assumes "env_kalloc e 1 2 = env_kalloc e' 1 2"
  shows "seg_refill e flags st = seg_refill e' flags st"
  unfolding seg_refill_def refill_flag using assms by simp

lemma xalloc_cong:
  assumes "flags AND kVMemBootstrap = 0 \<Longrightarrow> env_kalloc e 1 2 = env_kalloc e' 1 2"
    and "\<And>fn st. env_alloc e fn sz flags st = env_alloc e' fn sz flags st" and "env_free e = env_free e'"
  shows "vmem_xalloc e sz al ph nc vmin vmax flags st = vmem_xalloc e' sz al ph nc vmin vmax flags st"
proof -
  have "try_import e sz flags s = try_import e' sz flags s" for s
    unfolding try_import_def assms(2,3) ..
  then have "xalloc_search e sz vmin flags s = xalloc_search e' sz vmin flags s" for s
    by (cases "fit_in_lists (pool s) sz vmin flags (drop (freelist sz) (freelists (arena s)))")
      (simp_all add: xalloc_search_def)
  then have b: "xalloc_body e sz vmin flags s = xalloc_body e' sz vmin flags s" for s
    by (simp add: xalloc_body_def)
  show ?thesis
  proof (cases "flags AND kVMemBootstrap = 0")
    case True
    from seg_refill_cong [OF assms(1) [OF this]] show ?thesis by (simp add: vmem_xalloc_def b)
  next
    case False
    then show ?thesis by (simp add: vmem_xalloc_def b)
  qed
qed

text \<open>In bootstrap mode no allocation refills, so what a refill would call does not matter.\<close>

lemma kmap_xalloc_boot:
  assumes "flags AND kVMemBootstrap \<noteq> 0"
  shows "kmap_xalloc kal sz flags k = kmap_xalloc kal' sz flags k"
proof -
  have "vmem_xalloc (kmap_env kal) sz 0 0 0 0 0 flags st = vmem_xalloc (kmap_env kal') sz 0 0 0 0 0 flags st" for st
    using assms by (intro xalloc_cong) (simp_all add: kmap_env_def)
  then show ?thesis by (simp add: kmap_xalloc_def)
qed

lemma vm_kalloc_with_boot:
  assumes "\<And>sz flags k. flags AND kVMemBootstrap \<noteq> 0 \<Longrightarrow> xa sz flags k = xa' sz flags k"
    and "wait AND 0x2 \<noteq> 0"
  shows "vm_kalloc_with kal xa n wait k = vm_kalloc_with kal' xa' n wait k"
proof -
  let ?fl = "(if wait AND 0x1 \<noteq> 0 then kVMemSleep else kVMemNoSleep) OR kVMemBootstrap"
  have b: "?fl AND kVMemBootstrap \<noteq> 0" by (simp add: vmem_flag_defs)
  have "vmem_xalloc (wired_env kal xa) sz 0 0 0 0 0 ?fl st = vmem_xalloc (wired_env kal' xa') sz 0 0 0 0 0 ?fl st" for sz st
  proof (rule xalloc_cong)
    fix fn st
    show "env_alloc (wired_env kal xa) fn sz ?fl st = env_alloc (wired_env kal' xa') fn sz ?fl st"
      using assms(1) [OF b] by (cases fn) (simp_all add: wired_env_def internal_allocwired_def)
  qed (use b in \<open>simp_all add: wired_env_def\<close>)
  then show ?thesis unfolding vm_kalloc_with_def using assms(2) by simp
qed

lemma vm_kalloc_nested: "vm_kalloc 1 2 k = vm_kalloc_inner 1 2 k"
  unfolding vm_kalloc_def vm_kalloc_inner_def
  by (rule vm_kalloc_with_boot) (rule kmap_xalloc_boot, auto)

text \<open>\<^verbatim>\<open>vm_kalloc\<close> is the fixed point of its recursive description: the call nested in a refill
  never needs a deeper one.\<close>

lemma vm_kalloc_recursion:
  "vm_kalloc npages wait k = vm_kalloc_with vm_kalloc (kmap_xalloc vm_kalloc) npages wait k"
proof -
  have kx: "kmap_xalloc vm_kalloc_inner sz fl s = kmap_xalloc vm_kalloc sz fl s" for sz fl s
  proof -
    have "vmem_xalloc (kmap_env vm_kalloc_inner) sz 0 0 0 0 0 fl st = vmem_xalloc (kmap_env vm_kalloc) sz 0 0 0 0 0 fl st" for st
      by (rule xalloc_cong) (simp_all add: kmap_env_def fun_eq_iff vm_kalloc_nested [simplified])
    then show ?thesis by (simp add: kmap_xalloc_def)
  qed
  have "vmem_xalloc (wired_env vm_kalloc_inner (kmap_xalloc vm_kalloc_inner)) sz 0 0 0 0 0 fl st =
        vmem_xalloc (wired_env vm_kalloc (kmap_xalloc vm_kalloc)) sz 0 0 0 0 0 fl st" for sz fl st
  proof (rule xalloc_cong)
    fix fn st
    show "env_alloc (wired_env vm_kalloc_inner (kmap_xalloc vm_kalloc_inner)) fn sz fl st =
        env_alloc (wired_env vm_kalloc (kmap_xalloc vm_kalloc)) fn sz fl st"
      by (cases fn) (simp_all add: wired_env_def internal_allocwired_def kx)
  qed (simp_all add: wired_env_def fun_eq_iff vm_kalloc_nested [simplified])
  then show ?thesis by (simp add: vm_kalloc_def [THEN fun_cong, THEN fun_cong, THEN fun_cong] vm_kalloc_with_def)
qed

end
