(* ===== verification/Vm.thy ===== *)
theory Vm
  imports VmKernel
begin

text \<open>
  Virtual memory maps, objects and copy-on-write faults: \<^verbatim>\<open>vm/vm.c\<close> with the structures of
  \<^verbatim>\<open>vm/vm.h\<close>.

  Structures live on the kernel heap and are kept in stores indexed by their addresses; a freed
  structure leaves its store, so that using it afterwards stops the model. A map is referenced by
  its address, the kernel map by 0. The array of chunk pointers of an anonymous map is the list
  \<open>am_slots\<close> next to the address of the array. The kernel heap and what the arena of a map needs
  of the kernel are arguments (\<open>vm_env\<close>). A loop that would not end, a failed assertion and a
  call of \<^verbatim>\<open>fatal\<close> are the value \<open>None\<close>. Locks are not part of this sequential model.
\<close>

subsection \<open>Data\<close>

datatype vm_object_type = kDirectMap | kKHeap | kVMObjAnon

record vm_anon =
  an_refcnt :: "24 word"
  an_resident :: bool
  an_physpage :: page_ref

type_synonym vm_amap_chunk = "u64 list"

record vm_amap =
  am_chunks :: u64
  am_slots :: "u64 list"
  am_curnchunk :: u64

record vm_object =
  ob_refcnt :: u32
  ob_type :: vm_object_type
  ob_size :: u64
  ob_amap :: u64
  ob_parent :: u64

record vm_map_entry =
  me_addr :: u64
  me_start :: u64
  me_end :: u64
  me_offset :: u64
  me_obj :: u64

record vm_map =
  m_entries :: "vm_map_entry list"
  m_vmem :: vmem
  m_pmap :: pmap

record 'k vms =
  vs_phys :: phys
  vs_heap :: 'k
  vs_pool :: seg_pool
  vs_maps :: "map_ref \<rightharpoonup> vm_map"
  vs_objs :: "u64 \<rightharpoonup> vm_object"
  vs_amaps :: "u64 \<rightharpoonup> vm_amap"
  vs_chunks :: "u64 \<rightharpoonup> vm_amap_chunk"
  vs_anons :: "u64 \<rightharpoonup> vm_anon"
  vs_in_pagefault :: bool

text \<open>
  The kernel heap and the callbacks of the arenas are parameters. Their state \<open>vs_heap\<close> is apart
  from the physical memory: the slab allocator of \<open>Kmem\<close> would take its pages from \<open>vm_kalloc\<close> and
  so from the same page queues and kernel page tables, which an allocation here leaves alone.
\<close>

record 'k vm_env =
  ve_heap :: "'k heap"
  ve_vmem :: "'k vmem_env"

definition kmap_ref :: map_ref where "kmap_ref = 0"
definition VADDR_MAX :: u64 where "VADDR_MAX = - 1"
definition USER_BASE :: u64 where "USER_BASE = 0x1000"
definition USER_SIZE :: u64 where "USER_SIZE = 0x100000000"
definition kAMapChunkNPages :: nat where "kAMapChunkNPages = 32"

definition kVMFaultPresent :: u32 where "kVMFaultPresent = 1"
definition kVMFaultWrite :: u32 where "kVMFaultWrite = 2"

definition sizeof_vm_anon :: u64 where "sizeof_vm_anon = 56"
definition sizeof_vm_amap :: u64 where "sizeof_vm_amap = 16"
definition sizeof_vm_amap_chunk :: u64 where "sizeof_vm_amap_chunk = 256"
definition sizeof_vm_object :: u64 where "sizeof_vm_object = 88"
definition sizeof_vm_map_entry :: u64 where "sizeof_vm_map_entry = 48"
definition sizeof_vm_map :: u64 where "sizeof_vm_map = 848"

text \<open>
  Heap calls on the whole state. None of the callers looks at the address before writing through
  it, so a null result stops the kernel.
\<close>

definition vs_alloc :: "'k vm_env \<Rightarrow> u64 \<Rightarrow> 'k vms \<Rightarrow> (u64 \<times> 'k vms) option" where
  "vs_alloc e n s = do {
     (a, k) \<leftarrow> h_alloc (ve_heap e) n (vs_heap s);
     kassert (a \<noteq> 0);
     Some (a, s\<lparr>vs_heap := k\<rparr>)
   }"

definition vs_free :: "'k vm_env \<Rightarrow> u64 \<Rightarrow> u64 \<Rightarrow> 'k vms \<Rightarrow> 'k vms option" where
  "vs_free e a n s = do { k \<leftarrow> h_free (ve_heap e) a n (vs_heap s); Some (s\<lparr>vs_heap := k\<rparr>) }"

definition vs_mmu :: "(phys \<times> 'k \<Rightarrow> (phys \<times> 'k) option) \<Rightarrow> 'k vms \<Rightarrow> 'k vms option" where
  "vs_mmu f s = do { (ph, k) \<leftarrow> f (vs_phys s, vs_heap s); Some (s\<lparr>vs_phys := ph, vs_heap := k\<rparr>) }"

subsection \<open>Anonymous pages\<close>

definition set_page_anon :: "page_ref \<Rightarrow> anon_ref \<Rightarrow> phys \<Rightarrow> phys" where
  "set_page_anon page a ph = ph\<lparr>page_of := (page_of ph)(page := (page_of ph page)\<lparr>pg_anon := Some a\<rparr>)\<rparr>"

definition anon_new :: "'k vm_env \<Rightarrow> 'k vms \<Rightarrow> (u64 \<times> 'k vms) option" where
  "anon_new e s = do {
     (newanon, s1) \<leftarrow> vs_alloc e sizeof_vm_anon s;
     (page, ph) \<leftarrow> vm_pagealloc True vm_pgactiveq (vs_phys s1);
     Some (newanon, s1\<lparr>vs_phys := set_page_anon page newanon ph,
       vs_anons := (vs_anons s1)(newanon \<mapsto> \<lparr>an_refcnt = 1, an_resident = True, an_physpage = page\<rparr>)\<rparr>)
   }"

definition copyphyspage :: "u64 \<Rightarrow> u64 \<Rightarrow> (u64 \<Rightarrow> u64) \<Rightarrow> u64 \<Rightarrow> u64" where
  "copyphyspage dst src m = (\<lambda>a. if a - dst < PGSIZE then m (src + (a - dst)) else m a)"

definition anon_copy :: "'k vm_env \<Rightarrow> u64 \<Rightarrow> 'k vms \<Rightarrow> (u64 \<times> 'k vms) option" where
  "anon_copy e anon s = do {
     (newanon, s1) \<leftarrow> anon_new e s;
     new \<leftarrow> vs_anons s1 newanon;
     old \<leftarrow> vs_anons s1 anon;
     let pg = page_of (vs_phys s1);
     let ph = (vs_phys s1)\<lparr>pmem := copyphyspage (paddr (pg (an_physpage new))) (paddr (pg (an_physpage old)))
                (pmem (vs_phys s1))\<rparr>;
     Some (newanon, s1\<lparr>vs_phys := ph\<rparr>)
   }"

definition anon_release :: "'k vm_env \<Rightarrow> u64 \<Rightarrow> 'k vms \<Rightarrow> 'k vms option" where
  "anon_release e anon s = do {
     an \<leftarrow> vs_anons s anon;
     let rc = an_refcnt an - 1;
     let s1 = s\<lparr>vs_anons := (vs_anons s)(anon \<mapsto> an\<lparr>an_refcnt := rc\<rparr>)\<rparr>;
     if sint rc > 0 then Some s1
     else do {
       kassert (an_resident an);
       ph \<leftarrow> vm_page_free (Some (an_physpage an)) (vs_phys s1);
       s2 \<leftarrow> vs_free e anon sizeof_vm_anon (s1\<lparr>vs_phys := ph\<rparr>);
       Some (s2\<lparr>vs_anons := (vs_anons s2)(anon := None)\<rparr>)
     }
   }"

subsection \<open>Anonymous maps\<close>

text \<open>
  The array grows through \<^verbatim>\<open>kmem_realloc\<close>: a new array is allocated and the old one, if there is
  any, is freed after its contents have been copied.
\<close>

definition grow_chunks :: "'k vm_env \<Rightarrow> vm_amap \<Rightarrow> u64 \<Rightarrow> 'k vms \<Rightarrow> (vm_amap \<times> 'k vms) option" where
  "grow_chunks e am minnchunk s = do {
     (a, s1) \<leftarrow> vs_alloc e (minnchunk * 8) s;
     s2 \<leftarrow> (if am_chunks am \<noteq> 0
            then do { kassert (am_curnchunk am * 8 > 0); kassert (minnchunk * 8 > am_curnchunk am * 8);
                      vs_free e (am_chunks am) (am_curnchunk am * 8) s1 }
            else Some s1);
     Some (\<lparr>am_chunks = a, am_slots = am_slots am @ replicate (unat minnchunk - unat (am_curnchunk am)) 0,
            am_curnchunk = minnchunk\<rparr>, s2)
   }"

text \<open>The slot is returned as the address of its chunk and the index there.\<close>

definition amap_anon_at :: "'k vm_env \<Rightarrow> u64 \<Rightarrow> u64 \<Rightarrow> 'k vms \<Rightarrow> ((u64 \<times> nat) \<times> 'k vms) option" where
  "amap_anon_at e amap page s = do {
     am0 \<leftarrow> vs_amaps s amap;
     let minnchunk = page div 32 + 1;
     let chunk = unat (page div 32);
     (am, s1) \<leftarrow> (if am_curnchunk am0 < minnchunk then grow_chunks e am0 minnchunk s else Some (am0, s));
     let s2 = s1\<lparr>vs_amaps := (vs_amaps s1)(amap \<mapsto> am)\<rparr>;
     kassert (chunk < length (am_slots am));
     let idx = unat (page mod 32);
     if am_slots am ! chunk = 0 then do {
       (c, s3) \<leftarrow> vs_alloc e sizeof_vm_amap_chunk s2;
       Some ((c, idx), s3\<lparr>vs_amaps := (vs_amaps s3)(amap \<mapsto> am\<lparr>am_slots := (am_slots am)[chunk := c]\<rparr>),
         vs_chunks := (vs_chunks s3)(c \<mapsto> replicate kAMapChunkNPages 0)\<rparr>)
     } else Some ((am_slots am ! chunk, idx), s2)
   }"

definition pmap_of :: "'k vms \<Rightarrow> map_ref \<Rightarrow> pmap" where
  "pmap_of s r = (case vs_maps s r of Some mp \<Rightarrow> m_pmap mp | None \<Rightarrow> \<lparr>pml4 = 0\<rparr>)"

definition share_anon :: "u64 \<Rightarrow> 'k vms \<Rightarrow> 'k vms option" where
  "share_anon oldanon s =
     (if oldanon = 0 then Some s
      else do {
        an \<leftarrow> vs_anons s oldanon;
        let s1 = s\<lparr>vs_anons := (vs_anons s)(oldanon \<mapsto> an\<lparr>an_refcnt := an_refcnt an + 1\<rparr>)\<rparr>;
        kassert (list_all (\<lambda>pv. vs_maps s (pv_map pv) \<noteq> None) (pv_table (page_of (vs_phys s) (an_physpage an))));
        ph \<leftarrow> pmap_reenter_all_readonly (pmap_of s1) (an_physpage an) (vs_phys s1);
        Some (s1\<lparr>vs_phys := ph\<rparr>)
      })"

fun copy_slots :: "'k vm_env \<Rightarrow> u64 list \<Rightarrow> 'k vms \<Rightarrow> (u64 list \<times> 'k vms) option" where
  "copy_slots e [] s = Some ([], s)"
| "copy_slots e (c # cs) s =
     (if c = 0 then do { (rest, s1) \<leftarrow> copy_slots e cs s; Some (0 # rest, s1) }
      else do {
        (new, s1) \<leftarrow> vs_alloc e sizeof_vm_amap_chunk s;
        anons \<leftarrow> vs_chunks s1 c;
        s2 \<leftarrow> iterM share_anon anons (s1\<lparr>vs_chunks := (vs_chunks s1)(new \<mapsto> anons)\<rparr>);
        (rest, s3) \<leftarrow> copy_slots e cs s2;
        Some (new # rest, s3)
      })"

definition amap_copy :: "'k vm_env \<Rightarrow> u64 \<Rightarrow> 'k vms \<Rightarrow> (u64 \<times> 'k vms) option" where
  "amap_copy e amap s = do {
     (newamap, s1) \<leftarrow> vs_alloc e sizeof_vm_amap s;
     am \<leftarrow> vs_amaps s1 amap;
     (a, s2) \<leftarrow> vs_alloc e (8 * am_curnchunk am) s1;
     (slots, s3) \<leftarrow> copy_slots e (am_slots am) s2;
     Some (newamap, s3\<lparr>vs_amaps := (vs_amaps s3)(newamap \<mapsto>
       \<lparr>am_chunks = a, am_slots = slots, am_curnchunk = am_curnchunk am\<rparr>)\<rparr>)
   }"

definition release_chunk :: "'k vm_env \<Rightarrow> u64 \<Rightarrow> 'k vms \<Rightarrow> 'k vms option" where
  "release_chunk e c s =
     (if c = 0 then Some s
      else do {
        anons \<leftarrow> vs_chunks s c;
        s1 \<leftarrow> iterM (\<lambda>anon s. if anon = 0 then Some s else anon_release e anon s) anons s;
        s2 \<leftarrow> vs_free e c sizeof_vm_amap_chunk s1;
        Some (s2\<lparr>vs_chunks := (vs_chunks s2)(c := None)\<rparr>)
      })"

definition amap_release :: "'k vm_env \<Rightarrow> u64 \<Rightarrow> 'k vms \<Rightarrow> 'k vms option" where
  "amap_release e amap s = do {
     am \<leftarrow> vs_amaps s amap;
     s1 \<leftarrow> iterM (release_chunk e) (am_slots am) s;
     s2 \<leftarrow> vs_free e amap sizeof_vm_amap s1;
     Some (s2\<lparr>vs_amaps := (vs_amaps s2)(amap := None)\<rparr>)
   }"

subsection \<open>Objects\<close>

definition vm_aobj_new :: "'k vm_env \<Rightarrow> u64 \<Rightarrow> 'k vms \<Rightarrow> (u64 \<times> 'k vms) option" where
  "vm_aobj_new e sz s = do {
     (obj, s1) \<leftarrow> vs_alloc e sizeof_vm_object s;
     (amap, s2) \<leftarrow> vs_alloc e sizeof_vm_amap s1;
     Some (obj, s2\<lparr>vs_amaps := (vs_amaps s2)(amap \<mapsto> \<lparr>am_chunks = 0, am_slots = [], am_curnchunk = 0\<rparr>),
       vs_objs := (vs_objs s2)(obj \<mapsto> \<lparr>ob_refcnt = 1, ob_type = kVMObjAnon, ob_size = sz, ob_amap = amap, ob_parent = 0\<rparr>)\<rparr>)
   }"

definition vm_object_copy :: "'k vm_env \<Rightarrow> u64 \<Rightarrow> 'k vms \<Rightarrow> (u64 \<times> 'k vms) option" where
  "vm_object_copy e obj s = do {
     (newobj, s1) \<leftarrow> vs_alloc e sizeof_vm_object s;
     ob \<leftarrow> vs_objs s1 obj;
     kassert (ob_type ob = kVMObjAnon);
     (amap, s2) \<leftarrow> amap_copy e (ob_amap ob) s1;
     Some (newobj, s2\<lparr>vs_objs := (vs_objs s2)(newobj \<mapsto>
       \<lparr>ob_refcnt = 1, ob_type = ob_type ob, ob_size = ob_size ob, ob_amap = amap, ob_parent = ob_parent ob\<rparr>)\<rparr>)
   }"

definition vm_object_retain :: "u64 \<Rightarrow> 'k vms \<Rightarrow> 'k vms option" where
  "vm_object_retain obj s = do {
     ob \<leftarrow> vs_objs s obj;
     Some (s\<lparr>vs_objs := (vs_objs s)(obj \<mapsto> ob\<lparr>ob_refcnt := ob_refcnt ob + 1\<rparr>)\<rparr>)
   }"

definition vm_object_release :: "'k vm_env \<Rightarrow> u64 \<Rightarrow> 'k vms \<Rightarrow> 'k vms option" where
  "vm_object_release e obj s = do {
     ob \<leftarrow> vs_objs s obj;
     let rc = ob_refcnt ob - 1;
     let s1 = s\<lparr>vs_objs := (vs_objs s)(obj \<mapsto> ob\<lparr>ob_refcnt := rc\<rparr>)\<rparr>;
     if sint rc > 0 then Some s1
     else do {
       kassert (ob_type ob = kVMObjAnon);
       s2 \<leftarrow> amap_release e (ob_amap ob) s1;
       s3 \<leftarrow> vs_free e obj sizeof_vm_object s2;
       Some (s3\<lparr>vs_objs := (vs_objs s3)(obj := None)\<rparr>)
     }
   }"

subsection \<open>Maps\<close>

definition map_vst :: "vm_map \<Rightarrow> 'k vms \<Rightarrow> 'k vst" where
  "map_vst mp s = \<lparr>arena = m_vmem mp, pool = vs_pool s, ext = vs_heap s\<rparr>"

definition put_map_vst :: "map_ref \<Rightarrow> vm_map \<Rightarrow> 'k vst \<Rightarrow> 'k vms \<Rightarrow> 'k vms" where
  "put_map_vst r mp st s = s\<lparr>vs_maps := (vs_maps s)(r \<mapsto> mp\<lparr>m_vmem := arena st\<rparr>),
     vs_pool := pool st, vs_heap := ext st\<rparr>"

definition map_entry_for_addr :: "vm_map \<Rightarrow> u64 \<Rightarrow> vm_map_entry option" where
  "map_entry_for_addr mp addr = find (\<lambda>ent. addr \<ge> me_start ent \<and> addr < me_end ent) (m_entries mp)"

text \<open>\<open>vaddr\<close> is the value \<^verbatim>\<open>*vaddrp\<close> before the call; the result has the value after it.\<close>

definition vm_map_object ::
  "'k vm_env \<Rightarrow> map_ref \<Rightarrow> u64 \<Rightarrow> u64 \<Rightarrow> u64 \<Rightarrow> u64 \<Rightarrow> bool \<Rightarrow> 'k vms \<Rightarrow> ((int \<times> u64) \<times> 'k vms) option" where
  "vm_map_object e r obj0 vaddr sz offset copy s = do {
     let exact = (vaddr \<noteq> VADDR_MAX);
     let addr0 = (if vaddr = VADDR_MAX then 0 else vaddr);
     kassert (obj0 \<noteq> 0);
     kassert (sz AND (PGSIZE - 1) = 0);
     (obj, s1) \<leftarrow> (if copy then vm_object_copy e obj0 s
                  else do { s' \<leftarrow> vm_object_retain obj0 s; Some (obj0, s') });
     mp \<leftarrow> vs_maps s1 r;
     ((res, out), st) \<leftarrow> vmem_xalloc (ve_vmem e) sz 0 0 0 (if exact then addr0 else 0) 0
                           (if exact then kVMemExact else 0) (map_vst mp s1);
     let s2 = put_map_vst r mp st s1;
     if res < 0 then Some ((res, vaddr), s2)
     else do {
       let addr = (case out of Some a \<Rightarrow> a | None \<Rightarrow> addr0);
       (a, s3) \<leftarrow> vs_alloc e sizeof_vm_map_entry s2;
       mp1 \<leftarrow> vs_maps s3 r;
       let ent = \<lparr>me_addr = a, me_start = addr, me_end = addr + sz, me_offset = offset, me_obj = obj\<rparr>;
       Some ((res, addr), s3\<lparr>vs_maps := (vs_maps s3)(r \<mapsto> mp1\<lparr>m_entries := m_entries mp1 @ [ent]\<rparr>)\<rparr>)
     }
   }"

text \<open>The result of \<^verbatim>\<open>vm_allocate\<close> is always 0; the object is given back when it was asked for.\<close>

definition vm_allocate ::
  "'k vm_env \<Rightarrow> map_ref \<Rightarrow> u64 \<Rightarrow> u64 \<Rightarrow> 'k vms \<Rightarrow> ((int \<times> u64 option \<times> u64) \<times> 'k vms) option" where
  "vm_allocate e r vaddr sz s = do {
     kassert (sz AND (PGSIZE - 1) = 0);
     (obj, s1) \<leftarrow> vm_aobj_new e sz s;
     ((res, vaddr'), s2) \<leftarrow> vm_map_object e r obj vaddr sz 0 False s1;
     s3 \<leftarrow> vm_object_release e obj s2;
     Some ((0, if res < 0 then None else Some obj, vaddr'), s3)
   }"

text \<open>
  The addresses of \<^verbatim>\<open>for (v = start; v < end; v += PGSIZE)\<close>. When the last increment wraps
  around, the loop does not end.
\<close>

definition page_addrs :: "u64 \<Rightarrow> u64 \<Rightarrow> u64 list option" where
  "page_addrs start stop =
     (if stop \<le> start then Some []
      else let n = (unat stop - unat start + 4095) div 4096 in
        if unat start + 4096 * n < 2 ^ 64 then Some (map (\<lambda>i. start + of_nat i * PGSIZE) [0..<n]) else None)"

definition unmap_entry :: "'k vm_env \<Rightarrow> map_ref \<Rightarrow> vm_map_entry \<Rightarrow> 'k vms \<Rightarrow> 'k vms option" where
  "unmap_entry e r ent s = do {
     mp \<leftarrow> vs_maps s r;
     (res, st) \<leftarrow> vmem_xfree (ve_vmem e) (me_start ent) (me_end ent - me_start ent) (map_vst mp s);
     kassert (res \<ge> 0);
     let s1 = put_map_vst r mp st s;
     vs \<leftarrow> page_addrs (me_start ent) (me_end ent);
     s2 \<leftarrow> iterM (\<lambda>v. vs_mmu (pmap_unenter (ve_heap e) r (m_pmap mp) None v None)) vs s1;
     s3 \<leftarrow> vm_object_release e (me_obj ent) s2;
     mp1 \<leftarrow> vs_maps s3 r;
     vs_free e (me_addr ent) sizeof_vm_map_entry
       (s3\<lparr>vs_maps := (vs_maps s3)(r \<mapsto> mp1\<lparr>m_entries := remove1 ent (m_entries mp1)\<rparr>)\<rparr>)
   }"

text \<open>
  One entry of \<^verbatim>\<open>vm_deallocate\<close>. The branch for a deallocation on the right repeats the
  condition of the branch before it and is never taken.
\<close>

definition deallocate_entry :: "'k vm_env \<Rightarrow> map_ref \<Rightarrow> u64 \<Rightarrow> u64 \<Rightarrow> vm_map_entry \<Rightarrow> 'k vms \<Rightarrow> 'k vms option" where
  "deallocate_entry e r start stop ent s =
     (if (me_start ent < start \<and> me_end ent \<le> start) \<or> me_start ent \<ge> stop then Some s
      else if me_start ent \<ge> start \<and> me_end ent \<le> stop then unmap_entry e r ent s
      else if me_start ent < start \<and> me_end ent < stop then None
      else Some s)"

definition vm_deallocate :: "'k vm_env \<Rightarrow> map_ref \<Rightarrow> u64 \<Rightarrow> u64 \<Rightarrow> 'k vms \<Rightarrow> (int \<times> 'k vms) option" where
  "vm_deallocate e r start sz s = do {
     mp \<leftarrow> vs_maps s r;
     s1 \<leftarrow> iterM (deallocate_entry e r start (start + sz)) (m_entries mp) s;
     Some (0, s1)
   }"

text \<open>The arena of a new map is memory fresh from the heap, which \<^verbatim>\<open>vmem_init\<close> overwrites.\<close>

definition blank_arena :: vmem where
  "blank_arena = \<lparr>v_name = [], v_base = 0, v_size = 0, v_quantum = 0, v_flags = 0, v_allocfn = None, v_freefn = None,
     v_source = None, segqueue = [], freelists = [], hashtab = [], spanlist = []\<rparr>"

definition vm_map_new :: "'k vm_env \<Rightarrow> 'k vms \<Rightarrow> (map_ref \<times> 'k vms) option" where
  "vm_map_new e s = do {
     (a, s1) \<leftarrow> vs_alloc e sizeof_vm_map s;
     (pm, ph, k) \<leftarrow> pmap_new (ve_heap e) (pmap_of s1 kmap_ref) (vs_phys s1, vs_heap s1);
     st \<leftarrow> vmem_init ''task map'' USER_BASE USER_SIZE PGSIZE None None None 0
             \<lparr>arena = blank_arena, pool = vs_pool s1, ext = k\<rparr>;
     Some (unat a, s1\<lparr>vs_phys := ph, vs_heap := ext st, vs_pool := pool st,
       vs_maps := (vs_maps s1)(unat a \<mapsto> \<lparr>m_entries = [], m_vmem = arena st, m_pmap = pm\<rparr>)\<rparr>)
   }"

definition vm_map_release :: "'k vm_env \<Rightarrow> map_ref \<Rightarrow> 'k vms \<Rightarrow> 'k vms option" where
  "vm_map_release e r s = do {
     (_, s1) \<leftarrow> vm_deallocate e r USER_BASE USER_SIZE s;
     mp \<leftarrow> vs_maps s1 r;
     st \<leftarrow> vmem_destroy (map_vst mp s1);
     let s2 = put_map_vst r mp st s1;
     ph \<leftarrow> pmap_free (m_pmap mp) (vs_phys s2);
     s3 \<leftarrow> vs_free e (of_nat r) sizeof_vm_map (s2\<lparr>vs_phys := ph\<rparr>);
     Some (s3\<lparr>vs_maps := (vs_maps s3)(r := None)\<rparr>)
   }"

definition fork_entry :: "'k vm_env \<Rightarrow> map_ref \<Rightarrow> vm_map_entry \<Rightarrow> 'k vms \<Rightarrow> 'k vms option" where
  "fork_entry e new ent s = do {
     ob \<leftarrow> vs_objs s (me_obj ent);
     kassert (ob_type ob = kVMObjAnon);
     (newobj, s1) \<leftarrow> vm_object_copy e (me_obj ent) s;
     ((res, _), s2) \<leftarrow> vm_map_object e new newobj (me_start ent) (me_end ent - me_start ent) (me_offset ent) False s1;
     kassert (res = 0);
     vm_object_release e newobj s2
   }"

definition vm_map_fork :: "'k vm_env \<Rightarrow> map_ref \<Rightarrow> 'k vms \<Rightarrow> (map_ref \<times> 'k vms) option" where
  "vm_map_fork e r s = do {
     (new, s1) \<leftarrow> vm_map_new e s;
     if r = kmap_ref then Some (new, s1)
     else do {
       mp \<leftarrow> vs_maps s1 r;
       s2 \<leftarrow> iterM (fork_entry e new) (m_entries mp) s1;
       Some (new, s2)
     }
   }"

subsection \<open>Faults\<close>

definition set_slot :: "u64 \<times> nat \<Rightarrow> u64 \<Rightarrow> 'k vms \<Rightarrow> 'k vms option" where
  "set_slot slot anon s = do {
     c \<leftarrow> vs_chunks s (fst slot);
     Some (s\<lparr>vs_chunks := (vs_chunks s)(fst slot \<mapsto> c[snd slot := anon])\<rparr>)
   }"

definition enter_anon ::
  "'k vm_env \<Rightarrow> map_ref \<Rightarrow> pmap \<Rightarrow> u64 \<Rightarrow> u64 \<Rightarrow> u32 \<Rightarrow> 'k vms \<Rightarrow> (int \<times> 'k vms) option" where
  "enter_anon e r pm anon vaddr prot s = do {
     an \<leftarrow> vs_anons s anon;
     s1 \<leftarrow> vs_mmu (pmap_enter (ve_heap e) r pm (an_physpage an) vaddr prot) s;
     Some (0, s1)
   }"

definition fault_aobj ::
  "'k vm_env \<Rightarrow> map_ref \<Rightarrow> u64 \<Rightarrow> u64 \<Rightarrow> u64 \<Rightarrow> u32 \<Rightarrow> 'k vms \<Rightarrow> (int \<times> 'k vms) option" where
  "fault_aobj e r aobj vaddr voff flags s = do {
     ob \<leftarrow> vs_objs s aobj;
     let pm = pmap_of s r;
     (slot, s1) \<leftarrow> amap_anon_at e (ob_amap ob) (voff div PGSIZE) s;
     chunk \<leftarrow> vs_chunks s1 (fst slot);
     let anon = chunk ! snd slot;
     if anon \<noteq> 0 then do {
       an \<leftarrow> vs_anons s1 anon;
       if \<not> an_resident an then do { kassert (flags AND kVMFaultPresent = 0); Some (- 1, s1) }
       else if sint (an_refcnt an) > 1 then
         if flags AND kVMFaultWrite \<noteq> 0 then do {
           let s2 = s1\<lparr>vs_anons := (vs_anons s1)(anon \<mapsto> an\<lparr>an_refcnt := an_refcnt an - 1\<rparr>)\<rparr>;
           (new, s3) \<leftarrow> anon_copy e anon s2;
           s4 \<leftarrow> set_slot slot new s3;
           s5 \<leftarrow> (if flags AND kVMFaultPresent \<noteq> 0
                  then vs_mmu (pmap_unenter (ve_heap e) r pm (Some (an_physpage an)) vaddr None) s4
                  else Some s4);
           enter_anon e r pm new vaddr kVMAll s5
         } else do {
           kassert (flags AND kVMFaultPresent = 0);
           enter_anon e r pm anon vaddr (kVMRead OR kVMExecute) s1
         }
       else if flags AND kVMFaultPresent \<noteq> 0 then do {
         kassert (flags AND kVMFaultWrite \<noteq> 0);
         ph \<leftarrow> pmap_reenter pm (an_physpage an) vaddr kVMAll (vs_phys s1);
         Some (0, s1\<lparr>vs_phys := ph\<rparr>)
       } else enter_anon e r pm anon vaddr kVMAll s1
     } else if ob_parent ob \<noteq> 0 then Some (- 1, s1)
     else do {
       (new, s2) \<leftarrow> anon_new e s1;
       s3 \<leftarrow> set_slot slot new s2;
       enter_anon e r pm new vaddr kVMAll s3
     }
   }"

definition vm_fault :: "'k vm_env \<Rightarrow> map_ref \<Rightarrow> u64 \<Rightarrow> u32 \<Rightarrow> 'k vms \<Rightarrow> (int \<times> 'k vms) option" where
  "vm_fault e r0 vaddr0 flags s = do {
     kassert (\<not> vs_in_pagefault s);
     let s1 = s\<lparr>vs_in_pagefault := True\<rparr>;
     let r = (if vaddr0 \<ge> KHEAP_BASE then kmap_ref else r0);
     mp \<leftarrow> vs_maps s1 r;
     let vaddr = PGROUNDDOWN vaddr0;
     (res, s2) \<leftarrow> (case map_entry_for_addr mp vaddr0 of
         None \<Rightarrow> Some (- 1, s1)
       | Some ent \<Rightarrow> do {
           ob \<leftarrow> vs_objs s1 (me_obj ent);
           if ob_type ob \<noteq> kVMObjAnon then Some (- 1, s1)
           else fault_aobj e r (me_obj ent) vaddr (vaddr - me_start ent + me_offset ent) flags s1
         });
     Some (res, s2\<lparr>vs_in_pagefault := False\<rparr>)
   }"

end
