(* ===== verification/Vm_Mem.thy ===== *)
theory Vm_Mem
  imports Vm Pmap_Walk
begin

text \<open>
  What the operations on physical pages and page tables that a fault uses do to memory: the page
  tables stay well formed, and the contents of pages in use that hold no table change only where
  an operation says so.
\<close>

subsection \<open>Writes outside the tables\<close>

lemma walk_outside:
  assumes ok: "pt_ok m root" and a: "page_aligned a" "\<And>p t. path_ok p \<Longrightarrow> walk m root p = Some t \<Longrightarrow> t \<noteq> a"
    and m': "\<And>x. \<not> x - a < PGSIZE \<Longrightarrow> m' x = m x" and p: "path_ok p"
  shows "walk m' root p = walk m root p"
proof (rule walk_cong [OF ok p])
  fix q i r t
  assume q: "p = q @ i # r" "walk m root q = Some t"
  then have "path_ok q" "unat i < 512" using p by (auto simp: path_ok_def)
  then have "t \<noteq> a" "page_aligned t" using a(2) q(2) pt_okD(1) [OF ok] by blast+
  then have "\<not> entry_at t i - a < PGSIZE" using entry_in_page a(1) \<open>unat i < 512\<close> by blast
  then show "m' (entry_at t i) = m (entry_at t i)" by (rule m')
qed

lemma pte_of_outside:
  assumes "pt_ok m root" and "page_aligned a" "\<And>p t. path_ok p \<Longrightarrow> walk m root p = Some t \<Longrightarrow> t \<noteq> a"
    and "\<And>x. \<not> x - a < PGSIZE \<Longrightarrow> m' x = m x"
  shows "pte_of m' root v = pte_of m root v" and "pt_ok m' root"
proof -
  have w: "walk m' root p = walk m root p" if "path_ok p" for p
    using walk_outside [of m root a m' p] assms that by blast
  show "pte_of m' root v = pte_of m root v"
  proof (cases "walk m root (vpath v)")
    case (Some t)
    have "t \<noteq> a" "page_aligned t" using assms(3) pt_okD(1) [OF assms(1)] Some vpath_ok(1) by blast+
    then have "\<not> entry_at t (pti v) - a < PGSIZE" using entry_in_page assms(2) vpath_ok(2) by blast
    then show ?thesis using Some w [OF vpath_ok(1)] assms(4) by (simp add: pte_of_def)
  qed (use w [OF vpath_ok(1)] in \<open>simp add: pte_of_def\<close>)
  show "pt_ok m' root" using assms(1) w unfolding pt_ok_def by metis
qed

text \<open>Two states of physical memory with the same pages on the same queues.\<close>

definition same_layout :: "phys \<Rightarrow> phys \<Rightarrow> bool" where
  "same_layout ph ph' \<longleftrightarrow> page_list ph' = page_list ph \<and> (\<forall>p. paddr (page_of ph' p) = paddr (page_of ph p)) \<and>
     vm_pregion_queue ph' = vm_pregion_queue ph"

lemma same_layoutD:
  assumes "same_layout ph ph'"
  shows "frame ph' p = frame ph p" "on_queues ph' = on_queues ph" "pages_ok ph' = pages_ok ph"
    "page_list ph' = page_list ph" "paddr (page_of ph' p) = paddr (page_of ph p)"
proof -
  show pa: "paddr (page_of ph' p) = paddr (page_of ph p)" for p using assms by (cases p) (simp add: same_layout_def)
  show f: "frame ph' p = frame ph p" for p by (simp add: frame_def pa)
  show q: "on_queues ph' = on_queues ph" using assms by (simp add: same_layout_def on_queues_def)
  show "pages_ok ph' = pages_ok ph" using assms by (simp add: pages_ok_def q f same_layout_def)
qed (use assms in \<open>simp add: same_layout_def\<close>)

text \<open>Writing into the frame of a page that holds no table.\<close>

lemma write_data_page:
  assumes st: "pt_state ph root" and d: "data_page ph root d" and lay: "same_layout ph ph'"
    and m': "\<And>x. x \<notin> frame ph d \<Longrightarrow> pmem ph' x = pmem ph x"
  shows "pt_state ph' root" and "data_page ph' root p = data_page ph root p"
    and "pte_of (pmem ph') root v = pte_of (pmem ph) root v"
    and "\<And>x. data_page ph root p \<Longrightarrow> p \<noteq> d \<Longrightarrow> x \<in> frame ph p \<Longrightarrow> pmem ph' x = pmem ph x"
proof -
  let ?a = "paddr (page_of ph d)"
  have ok: "pages_ok ph" "pt_ok (pmem ph) root" using st by (simp_all add: pt_state_def)
  have al: "page_aligned ?a" "\<And>p t. path_ok p \<Longrightarrow> walk (pmem ph) root p = Some t \<Longrightarrow> t \<noteq> ?a"
    using d by (auto simp: data_page_def)
  have out: "\<And>x. \<not> x - ?a < PGSIZE \<Longrightarrow> pmem ph' x = pmem ph x" using m' by (simp add: frame_def)
  have w: "walk (pmem ph') root p = walk (pmem ph) root p" if "path_ok p" for p
    by (rule walk_outside [OF ok(2) al]) (use out that in auto)
  note L = same_layoutD [OF lay]
  show "pte_of (pmem ph') root v = pte_of (pmem ph) root v" by (rule pte_of_outside(1) [OF ok(2) al]) (use out in auto)
  have "pt_ok (pmem ph') root" by (rule pte_of_outside(2) [OF ok(2) al]) (use out in auto)
  moreover have "new_table (pmem ph') root a = new_table (pmem ph) root a" for a using w by (simp add: new_table_def)
  ultimately show "pt_state ph' root" using st L by (simp add: pt_state_def)
  show "data_page ph' root p = data_page ph root p" using w L by (simp add: data_page_def)
  show "pmem ph' x = pmem ph x" if "data_page ph root p" "p \<noteq> d" "x \<in> frame ph p" for x
  proof -
    have "frame ph p \<inter> frame ph d = {}" using that d ok(1) by (simp add: pages_ok_def data_page_def)
    then show ?thesis using that(3) m' by blast
  qed
qed

lemma layout_only:
  assumes "pt_state ph root" and "same_layout ph ph'" and "pmem ph' = pmem ph"
  shows "pt_state ph' root" and "data_page ph' root p = data_page ph root p"
  using assms(1,3) same_layoutD [OF assms(2)] by (simp_all add: pt_state_def data_page_def)

subsection \<open>A new page\<close>

lemma pagealloc_data:
  assumes st: "pt_state ph root" and q: "q \<noteq> vm_pgfreeq" and f: "page_list ph vm_pgfreeq = pg # rest"
  shows "\<exists>ph1. vm_pagealloc True q ph = Some (pg, ph1) \<and> pt_state ph1 root \<and> data_page ph1 root pg \<and>
    page_of ph1 = page_of ph \<and> page_list ph1 vm_pgfreeq = rest \<and> (\<forall>a \<in> frame ph pg. pmem ph1 a = 0) \<and>
    (\<forall>d. data_page ph root d \<longrightarrow> d \<noteq> pg \<and> data_page ph1 root d \<and> (\<forall>a \<in> frame ph d. pmem ph1 a = pmem ph a)) \<and>
    (\<forall>v. pte_of (pmem ph1) root v = pte_of (pmem ph) root v)"
proof -
  let ?a = "paddr (page_of ph pg)"
  have ok: "pages_ok ph" "pt_ok (pmem ph) root" using st by (simp_all add: pt_state_def)
  have nt: "new_table (pmem ph) root ?a" using st f by (simp add: pt_state_def)
  then have al: "page_aligned ?a" "\<And>p t. path_ok p \<Longrightarrow> walk (pmem ph) root p = Some t \<Longrightarrow> t \<noteq> ?a"
    by (auto simp: new_table_def)
  from changequeue_lists [OF ok(1), of pg vm_pgfreeq q "Some vm_pgfreeq" vm_pgfreeq] f q
  obtain ph0 where c: "vm_page_changequeue (Some pg) (Some vm_pgfreeq) q ph = Some ph0"
    and l: "page_list ph0 = (page_list ph)(vm_pgfreeq := remove1 pg (page_list ph vm_pgfreeq), q := pg # page_list ph q)"
    and po: "page_of ph0 = page_of ph" "pmem ph0 = pmem ph" by auto
  let ?ph = "ph0\<lparr>pmem := zero_page ?a (pmem ph)\<rparr>"
  have run: "vm_pagealloc True q ph = Some (pg, ?ph)"
    using f c po by (simp add: vm_pagealloc_def page_list_def)
  have mv: "pages_ok ph0" "on_queues ph0 = on_queues ph" using moved_pages_ok [OF ok(1) _ _ l po(1)] f q by simp_all
  have free: "page_list ph0 vm_pgfreeq = rest" using l f q by simp
  have out: "\<And>x. \<not> x - ?a < PGSIZE \<Longrightarrow> zero_page ?a (pmem ph) x = pmem ph x" by (simp add: zero_page_def)
  have w: "walk (zero_page ?a (pmem ph)) root p = walk (pmem ph) root p" if "path_ok p" for p
    by (rule walk_outside [OF ok(2) al]) (use out that in auto)
  have pte: "pte_of (zero_page ?a (pmem ph)) root v = pte_of (pmem ph) root v" for v
    by (rule pte_of_outside(1) [OF ok(2) al]) (use out in auto)
  have pt: "pt_ok (zero_page ?a (pmem ph)) root" by (rule pte_of_outside(2) [OF ok(2) al]) (use out in auto)
  have "new_table (zero_page ?a (pmem ph)) root a = new_table (pmem ph) root a" for a using w by (simp add: new_table_def)
  then have "pt_state ?ph root" using st f mv pt by (simp add: pt_state_def free po)
  moreover have pq: "pg \<in> on_queues ph" unfolding on_queues_def UN_iff by (rule bexI [of _ vm_pgfreeq]) (simp_all add: f)
  have "pg \<notin> set rest" using ok(1) f by (auto simp: pages_ok_def dest!: spec [of _ vm_pgfreeq])
  then have "data_page ?ph root pg" using pq mv(2) free po w al by (auto simp: data_page_def)
  moreover have "d \<noteq> pg \<and> data_page ?ph root d \<and> (\<forall>a \<in> frame ph d. pmem ?ph a = pmem ph a)" if d: "data_page ph root d" for d
  proof -
    have ne: "d \<noteq> pg" using d f by (auto simp: data_page_def)
    then have "frame ph d \<inter> frame ph pg = {}" using d pq ok(1) by (simp add: pages_ok_def data_page_def)
    then have "\<forall>a \<in> frame ph d. pmem ?ph a = pmem ph a" by (auto simp: zero_page_def frame_def)
    moreover have "data_page ?ph root d" using d f mv(2) free po w by (auto simp: data_page_def)
    ultimately show ?thesis using ne by blast
  qed
  moreover have "\<forall>a \<in> frame ph pg. pmem ?ph a = 0" by (simp add: zero_page_def frame_def)
  ultimately show ?thesis using run po free pte by (intro exI [of _ ?ph]) simp
qed

end
