(* ===== verification/Vm_Fault.thy ===== *)
theory Vm_Fault
  imports Vm_Mem
begin

text \<open>
  What a page fault does. Anonymous maps are seen through \<open>amap_lookup\<close>, which says for each page
  of the object which anonymous page it holds; memory through \<open>page_words\<close>, the contents of a
  physical page; the address space through \<^verbatim>\<open>pmap_trans\<close>. A fault on an absent page maps a new
  zeroed page; a write fault on a shared page maps a private copy and leaves the shared page to
  the others.
\<close>

declare split_paired_All [simp del] split_paired_Ex [simp del]

subsection \<open>What is asked of the heap\<close>

text \<open>
  The documented behaviour of \<^verbatim>\<open>kmem_alloc\<close> and \<^verbatim>\<open>kmem_free\<close>, with \<open>L\<close> the addresses handed out:
  sizes other than 0 are served with an address that is not handed out. \<open>I c k\<close> says that the heap
  is in a state from which \<open>c\<close> further allocations succeed.
\<close>

definition heap_law :: "'k heap \<Rightarrow> (nat \<Rightarrow> 'k \<Rightarrow> bool) \<Rightarrow> ('k \<Rightarrow> u64 set) \<Rightarrow> bool" where
  "heap_law h I L \<longleftrightarrow>
     (\<forall>c k n. I (Suc c) k \<longrightarrow> n \<noteq> 0 \<longrightarrow>
        (\<exists>a k'. h_alloc h n k = Some (a, k') \<and> a \<noteq> 0 \<and> a \<notin> L k \<and> I c k' \<and> L k' = insert a (L k))) \<and>
     (\<forall>c k a n. I c k \<longrightarrow> a \<in> L k \<longrightarrow> (\<exists>k'. h_free h a n k = Some k' \<and> I c k' \<and> L k' = L k - {a})) \<and>
     (\<forall>c k. I (Suc c) k \<longrightarrow> I c k)"

lemma heap_lawD:
  assumes "heap_law h I L"
  shows heap_law_alloc: "I (Suc c) k \<Longrightarrow> n \<noteq> 0 \<Longrightarrow> \<exists>a k'. h_alloc h n k = Some (a, k') \<and> a \<noteq> 0 \<and> a \<notin> L k \<and> I c k' \<and> L k' = insert a (L k)"
    and heap_law_free: "I c k \<Longrightarrow> a \<in> L k \<Longrightarrow> \<exists>k'. h_free h a n k = Some k' \<and> I c k' \<and> L k' = L k - {a}"
    and heap_law_less: "I (Suc c) k \<Longrightarrow> I c k"
proof -
  note d = assms [unfolded heap_law_def]
  show "I (Suc c) k \<Longrightarrow> n \<noteq> 0 \<Longrightarrow> \<exists>a k'. h_alloc h n k = Some (a, k') \<and> a \<noteq> 0 \<and> a \<notin> L k \<and> I c k' \<and> L k' = insert a (L k)"
    by (rule d [THEN conjunct1, rule_format])
  show "I c k \<Longrightarrow> a \<in> L k \<Longrightarrow> \<exists>k'. h_free h a n k = Some k' \<and> I c k' \<and> L k' = L k - {a}"
    by (rule d [THEN conjunct2, THEN conjunct1, rule_format])
  show "I (Suc c) k \<Longrightarrow> I c k" by (rule d [THEN conjunct2, THEN conjunct2, rule_format])
qed

lemma vs_alloc_law:
  assumes "heap_law (ve_heap e) I L" and "I (Suc c) (vs_heap s)" and "n \<noteq> 0"
  shows "\<exists>a k. vs_alloc e n s = Some (a, s\<lparr>vs_heap := k\<rparr>) \<and> a \<noteq> 0 \<and> a \<notin> L (vs_heap s) \<and> I c k \<and> L k = insert a (L (vs_heap s))"
proof -
  obtain a k where "h_alloc (ve_heap e) n (vs_heap s) = Some (a, k)" "a \<noteq> 0" "a \<notin> L (vs_heap s)" "I c k" "L k = insert a (L (vs_heap s))"
    using heap_law_alloc [OF assms] by blast
  then show ?thesis by (intro exI [of _ a] exI [of _ k]) (simp_all add: vs_alloc_def)
qed

lemma vs_free_law:
  assumes "heap_law (ve_heap e) I L" and "I c (vs_heap s)" and "a \<in> L (vs_heap s)"
  shows "\<exists>k. vs_free e a n s = Some (s\<lparr>vs_heap := k\<rparr>) \<and> I c k \<and> L k = L (vs_heap s) - {a}"
proof -
  obtain k where "h_free (ve_heap e) a n (vs_heap s) = Some k" "I c k" "L k = L (vs_heap s) - {a}"
    using heap_law_free [OF assms] by blast
  then show ?thesis by (intro exI [of _ k]) (simp_all add: vs_free_def)
qed

subsection \<open>Mapping and unmapping a page\<close>

definition page_words :: "phys \<Rightarrow> page_ref \<Rightarrow> u64 \<Rightarrow> u64" where
  "page_words ph p off = (if off < PGSIZE then pmem ph (paddr (page_of ph p) + off) else 0)"

lemma page_words_cong:
  assumes "\<And>a. a \<in> frame ph p \<Longrightarrow> pmem ph' a = pmem ph a" and "paddr (page_of ph' p) = paddr (page_of ph p)"
  shows "page_words ph' p = page_words ph p"
proof
  fix off
  have "paddr (page_of ph p) + off \<in> frame ph p" if "off < PGSIZE" using that by (simp add: frame_def)
  then show "page_words ph' p off = page_words ph p off" using assms by (simp add: page_words_def)
qed

text \<open>How two states of physical memory are related when pages with data keep their contents.\<close>

definition keeps_data :: "u64 \<Rightarrow> phys \<Rightarrow> phys \<Rightarrow> bool" where
  "keeps_data root ph ph' \<longleftrightarrow> (\<forall>p. paddr (page_of ph' p) = paddr (page_of ph p)) \<and>
     (\<forall>d. data_page ph root d \<longrightarrow> data_page ph' root d \<and> (\<forall>a \<in> frame ph d. pmem ph' a = pmem ph a))"

lemma keeps_dataD:
  assumes "keeps_data root ph ph'" and "data_page ph root d"
  shows "data_page ph' root d" "page_words ph' d = page_words ph d"
proof -
  show "data_page ph' root d" using assms by (simp add: keeps_data_def)
  show "page_words ph' d = page_words ph d"
    by (rule page_words_cong) (use assms in \<open>auto simp: keeps_data_def\<close>)
qed

lemma keeps_data_paddr: "keeps_data root ph ph' \<Longrightarrow> paddr (page_of ph' p) = paddr (page_of ph p)"
  by (cases p) (simp add: keeps_data_def)

lemma keeps_data_trans:
  assumes "keeps_data root ph1 ph2" and "keeps_data root ph2 ph3"
  shows "keeps_data root ph1 ph3"
proof -
  have "frame ph2 d = frame ph1 d" for d using keeps_data_paddr [OF assms(1)] by (simp add: frame_def)
  then show ?thesis using assms by (auto simp: keeps_data_def)
qed

lemma set_pv_layout:
  "same_layout ph (set_pv_table p l ph)" "pmem (set_pv_table p l ph) = pmem ph"
  by (auto simp: same_layout_def set_pv_table_def page_list_def)

lemma keeps_data_layout:
  assumes "same_layout ph ph'" and "pmem ph' = pmem ph" and "pt_state ph root"
  shows "keeps_data root ph ph'"
  using layout_only(2) [OF assms(3,1,2)] same_layoutD(5) [OF assms(1)] assms(2) by (simp add: keeps_data_def)

lemma pmap_enter_data:
  assumes law: "heap_law h I L" "I (Suc c) k" and st: "pt_state ph (pml4 pm)" and n: "3 \<le> length (page_list ph vm_pgfreeq)"
  shows "\<exists>ph' k'. pmap_enter h r pm pg virt prot (ph, k) = Some (ph', k') \<and> I c k' \<and> L k \<subseteq> L k' \<and> pt_state ph' (pml4 pm) \<and>
    keeps_data (pml4 pm) ph ph' \<and>
    (\<forall>v. pte_of (pmem ph') (pml4 pm) v = (if same_vpage v virt
       then (paddr (page_of ph pg) AND kMMUFrame) OR vm_prot_to_i386 prot else pte_of (pmem ph) (pml4 pm) v))"
proof -
  let ?r = "pml4 pm" and ?pa = "paddr (page_of ph pg)"
  have "sizeof_pv_entry \<noteq> 0" by (simp add: sizeof_pv_entry_def)
  then obtain a k' where al: "h_alloc h sizeof_pv_entry k = Some (a, k')" "a \<noteq> 0" "I c k'" "L k' = insert a (L k)"
    using heap_law_alloc [OF law] by blast
  obtain ph1 where e: "pmap_enter_kern pm ?pa virt prot ph = Some ph1" using enter_kern_returns [OF st n] by blast
  note S = enter_kern_step [OF st e]
  let ?l = "\<lparr>pv_addr = a, pv_map = r, pv_vaddr = virt\<rparr> # pv_table (page_of ph1 pg)"
  let ?ph = "set_pv_table pg ?l ph1"
  have run: "pmap_enter h r pm pg virt prot (ph, k) = Some (?ph, k')" using al e by (simp add: pmap_enter_def)
  have "keeps_data ?r ph ph1" using enter_kern_data [OF st e] S(4) by (simp add: keeps_data_def)
  moreover have "keeps_data ?r ph1 ?ph" by (rule keeps_data_layout [OF set_pv_layout S(1)])
  ultimately have "keeps_data ?r ph ?ph" by (rule keeps_data_trans)
  moreover have "pt_state ?ph ?r" by (rule layout_only(1) [OF S(1) set_pv_layout])
  ultimately show ?thesis using run al S(3) by (intro exI [of _ ?ph] exI [of _ k']) (auto simp: set_pv_layout)
qed

lemma pmap_unenter_data:
  assumes law: "heap_law h I L" "I c k" and st: "pt_state ph (pml4 pm)"
    and m: "pte_of (pmem ph) (pml4 pm) vaddr \<noteq> 0"
    and pv: "find (\<lambda>pv. pv_map pv = r \<and> pv_vaddr pv = vaddr) (pv_table (page_of ph pg)) = Some pv" "pv_addr pv \<in> L k"
  shows "\<exists>ph' k'. pmap_unenter h r pm (Some pg) vaddr None (ph, k) = Some (ph', k') \<and> I c k' \<and> L k - {pv_addr pv} \<subseteq> L k' \<and>
    pt_state ph' (pml4 pm) \<and> keeps_data (pml4 pm) ph ph' \<and> page_list ph' = page_list ph \<and>
    (\<forall>v. pte_of (pmem ph') (pml4 pm) v = (if same_vpage v vaddr then 0 else pte_of (pmem ph) (pml4 pm) v))"
proof -
  let ?r = "pml4 pm"
  have ok: "pt_ok (pmem ph) ?r" "pages_ok ph" using st by (simp_all add: pt_state_def)
  obtain t where w: "walk (pmem ph) ?r (vpath vaddr) = Some t" and nz: "pmem ph (entry_at t (pti vaddr)) \<noteq> 0"
    using m by (auto simp: pte_of_def split: option.splits)
  let ?e = "entry_at t (pti vaddr)"
  have t: "page_aligned t" "t \<noteq> 0" using pt_okD [OF ok(1) vpath_ok(1) w] by blast+
  have "unat ?e \<noteq> 0" using entry_at_unat [OF t(1) vpath_ok(2)] t(2) by (simp add: unat_eq_0)
  then have e0: "?e \<noteq> 0" by (metis unat_0)
  have d: "pmap_fully_descend pm vaddr ph = Some ?e" using fully_descend_walk [OF ok(1)] w by simp
  obtain k' where fr: "h_free h (pv_addr pv) sizeof_pv_entry k = Some k'" "I c k'" "L k' = L k - {pv_addr pv}"
    using heap_law_free [OF law pv(2)] by blast
  let ?ph1 = "ph\<lparr>pmem := (pmem ph)(?e := 0)\<rparr>"
  let ?ph = "set_pv_table pg (remove1 pv (pv_table (page_of ph pg))) ?ph1"
  have run: "pmap_unenter h r pm (Some pg) vaddr None (ph, k) = Some (?ph, k')"
    using d e0 nz pv(1) fr(1) by (simp add: pmap_unenter_def)
  note U = pte_of_update [OF ok(1) w, where x = 0]
  have st1: "pt_state ?ph1 ?r"
    using st U(2) ok unfolding pt_state_def pt_ok_def new_table_def by simp
  have "keeps_data ?r ph ?ph1"
    unfolding keeps_data_def
  proof (intro conjI allI impI ballI)
    fix dp assume dp: "data_page ph ?r dp"
    show "data_page ?ph1 ?r dp" using dp U(2) by (simp add: data_page_def)
    have "?e \<notin> frame ph dp" by (rule data_page_entry [OF dp ok(1) vpath_ok(1) w vpath_ok(2)])
    then show "pmem ?ph1 a = pmem ph a" if "a \<in> frame ph dp" for a using that by auto
  qed simp
  moreover have "keeps_data ?r ?ph1 ?ph" by (rule keeps_data_layout [OF set_pv_layout st1])
  ultimately have "keeps_data ?r ph ?ph" by (rule keeps_data_trans)
  moreover have "pt_state ?ph ?r" by (rule layout_only(1) [OF st1 set_pv_layout])
  moreover have "page_list ?ph = page_list ph" using same_layoutD(4) [OF set_pv_layout(1)] by simp
  ultimately show ?thesis using run fr U(1) by (intro exI [of _ ?ph] exI [of _ k']) (simp add: set_pv_layout)
qed

subsection \<open>New anonymous pages\<close>

text \<open>What \<^verbatim>\<open>anon_new\<close> and \<^verbatim>\<open>anon_copy\<close> have in common: page \<open>pg\<close> now belongs to the new anonymous page
  \<open>a\<close>, with contents \<open>w\<close>.\<close>

definition fresh_anon ::
  "('k \<Rightarrow> bool) \<Rightarrow> ('k \<Rightarrow> u64 set) \<Rightarrow> u64 \<Rightarrow> 'k vms \<Rightarrow> page_ref \<Rightarrow> (u64 \<Rightarrow> u64) \<Rightarrow> u64 \<Rightarrow> 'k vms \<Rightarrow> bool" where
  "fresh_anon I L root s pg w a s' \<longleftrightarrow>
     (\<exists>k ph. s' = s\<lparr>vs_heap := k, vs_phys := ph, vs_anons := (vs_anons s)(a \<mapsto> \<lparr>an_refcnt = 1, an_resident = True, an_physpage = pg\<rparr>)\<rparr> \<and>
       I k \<and> L k = insert a (L (vs_heap s)) \<and> pt_state ph root \<and> keeps_data root (vs_phys s) ph \<and> data_page ph root pg \<and>
       \<not> data_page (vs_phys s) root pg \<and> page_list ph vm_pgfreeq = tl (page_list (vs_phys s) vm_pgfreeq) \<and>
       page_words ph pg = w \<and> (\<forall>v. pte_of (pmem ph) root v = pte_of (pmem (vs_phys s)) root v) \<and>
       (\<forall>p. pv_table (page_of ph p) = pv_table (page_of (vs_phys s) p))) \<and>
     a \<noteq> 0 \<and> a \<notin> L (vs_heap s)"

lemma set_page_anon_layout:
  "same_layout ph (set_page_anon p a ph)" "pmem (set_page_anon p a ph) = pmem ph"
  "pv_table (page_of (set_page_anon p a ph) q) = pv_table (page_of ph q)"
  by (auto simp: same_layout_def set_page_anon_def page_list_def)

lemma anon_new_ok:
  assumes law: "heap_law (ve_heap e) I L" "I (Suc c) (vs_heap s)" and st: "pt_state (vs_phys s) root"
    and f: "page_list (vs_phys s) vm_pgfreeq = pg # rest"
  shows "\<exists>a s'. anon_new e s = Some (a, s') \<and> fresh_anon (I c) L root s pg (\<lambda>_. 0) a s'"
proof -
  let ?ph = "vs_phys s"
  have "sizeof_vm_anon \<noteq> 0" by (simp add: sizeof_vm_anon_def)
  from vs_alloc_law [OF law this] obtain a k where al: "vs_alloc e sizeof_vm_anon s = Some (a, s\<lparr>vs_heap := k\<rparr>)" "a \<noteq> 0"
    "a \<notin> L (vs_heap s)" "I c k" "L k = insert a (L (vs_heap s))" by blast
  from pagealloc_data [OF st _ f, of vm_pgactiveq] obtain ph1
    where p: "vm_pagealloc True vm_pgactiveq ?ph = Some (pg, ph1)" "pt_state ph1 root" "data_page ph1 root pg" "page_of ph1 = page_of ?ph"
      "page_list ph1 vm_pgfreeq = rest" "\<forall>a \<in> frame ?ph pg. pmem ph1 a = 0"
      "\<forall>d. data_page ?ph root d \<longrightarrow> d \<noteq> pg \<and> data_page ph1 root d \<and> (\<forall>a \<in> frame ?ph d. pmem ph1 a = pmem ?ph a)"
      "\<forall>v. pte_of (pmem ph1) root v = pte_of (pmem ?ph) root v" by blast
  let ?ph2 = "set_page_anon pg a ph1"
  note S = set_page_anon_layout [where ph = ph1 and p = pg and a = a]
  note LO = layout_only [OF p(2) S(1,2)]
  have run: "anon_new e s = Some (a, s\<lparr>vs_heap := k, vs_phys := ?ph2,
      vs_anons := (vs_anons s)(a \<mapsto> \<lparr>an_refcnt = 1, an_resident = True, an_physpage = pg\<rparr>)\<rparr>)"
    using al(1) p(1) by (simp add: anon_new_def)
  have "keeps_data root ?ph ph1" using p(4,7) by (simp add: keeps_data_def)
  then have "keeps_data root ?ph ?ph2" using keeps_data_trans keeps_data_layout [OF S(1,2) p(2)] by blast
  moreover have "page_words ?ph2 pg = (\<lambda>_. 0)"
    using p(4,6) S(2) same_layoutD(5) [OF S(1)] by (simp add: page_words_def frame_def fun_eq_iff)
  moreover have "page_list ?ph2 vm_pgfreeq = rest" using same_layoutD(4) [OF S(1)] p(5) by simp
  moreover have "pv_table (page_of ?ph2 q) = pv_table (page_of ?ph q)" for q using S(3) p(4) by simp
  ultimately have "fresh_anon (I c) L root s pg (\<lambda>_. 0) a (s\<lparr>vs_heap := k, vs_phys := ?ph2,
      vs_anons := (vs_anons s)(a \<mapsto> \<lparr>an_refcnt = 1, an_resident = True, an_physpage = pg\<rparr>)\<rparr>)"
    unfolding fresh_anon_def using al LO p f S(2) by (intro conjI exI [of _ k] exI [of _ ?ph2]) auto
  with run show ?thesis by blast
qed

lemma copyphyspage_words:
  assumes "off < PGSIZE"
  shows "copyphyspage dst src m (dst + off) = m (src + off)"
  using assms by (simp add: copyphyspage_def)

lemma anon_copy_ok:
  assumes law: "heap_law (ve_heap e) I L" "I (Suc c) (vs_heap s)" and st: "pt_state (vs_phys s) root"
    and f: "page_list (vs_phys s) vm_pgfreeq = pg # rest"
    and old: "vs_anons s b = Some an" "b \<in> L (vs_heap s)" "data_page (vs_phys s) root (an_physpage an)"
  shows "\<exists>a s'. anon_copy e b s = Some (a, s') \<and> fresh_anon (I c) L root s pg (page_words (vs_phys s) (an_physpage an)) a s'"
proof -
  let ?op = "an_physpage an"
  from anon_new_ok [OF law st f] obtain a k ph where new: "anon_new e s = Some (a, s\<lparr>vs_heap := k, vs_phys := ph,
      vs_anons := (vs_anons s)(a \<mapsto> \<lparr>an_refcnt = 1, an_resident = True, an_physpage = pg\<rparr>)\<rparr>)"
    and F: "I c k" "L k = insert a (L (vs_heap s))" "pt_state ph root" "keeps_data root (vs_phys s) ph" "data_page ph root pg"
      "\<not> data_page (vs_phys s) root pg" "page_list ph vm_pgfreeq = rest"
      "\<forall>v. pte_of (pmem ph) root v = pte_of (pmem (vs_phys s)) root v"
      "\<forall>p. pv_table (page_of ph p) = pv_table (page_of (vs_phys s) p)" "a \<noteq> 0" "a \<notin> L (vs_heap s)"
    using f by (auto simp: fresh_anon_def)
  have ab: "b \<noteq> a" using old(2) F(11) by blast
  let ?dst = "paddr (page_of ph pg)" and ?src = "paddr (page_of ph ?op)"
  let ?ph = "ph\<lparr>pmem := copyphyspage ?dst ?src (pmem ph)\<rparr>"
  let ?s = "s\<lparr>vs_heap := k, vs_phys := ?ph, vs_anons := (vs_anons s)(a \<mapsto> \<lparr>an_refcnt = 1, an_resident = True, an_physpage = pg\<rparr>)\<rparr>"
  have run: "anon_copy e b s = Some (a, ?s)" using new ab old(1) by (simp add: anon_copy_def Let_def)
  have lay: "same_layout ph ?ph" by (simp add: same_layout_def page_list_def)
  have out: "\<And>x. x \<notin> frame ph pg \<Longrightarrow> pmem ?ph x = pmem ph x" by (simp add: copyphyspage_def frame_def)
  note W = write_data_page [OF F(3,5) lay out]
  have "keeps_data root (vs_phys s) ?ph"
    unfolding keeps_data_def
  proof (intro conjI allI impI ballI)
    fix d assume d: "data_page (vs_phys s) root d"
    have dn: "data_page ph root d" "d \<noteq> pg" using keeps_dataD(1) [OF F(4) d] d F(6) by auto
    show "data_page ?ph root d" using W(2) dn(1) by simp
    fix x assume x: "x \<in> frame (vs_phys s) d"
    then have "x \<in> frame ph d" using keeps_data_paddr [OF F(4)] by (simp add: frame_def)
    then have "pmem ?ph x = pmem ph x" using W(4) dn by blast
    also have "\<dots> = pmem (vs_phys s) x" using F(4) d x by (simp add: keeps_data_def)
    finally show "pmem ?ph x = pmem (vs_phys s) x" .
  qed (use keeps_data_paddr [OF F(4)] in simp)
  moreover have "page_words ?ph pg = page_words (vs_phys s) ?op"
  proof -
    have "page_words ?ph pg = page_words ph ?op"
      using copyphyspage_words [of _ ?dst ?src "pmem ph"] by (auto simp: page_words_def)
    also have "\<dots> = page_words (vs_phys s) ?op" by (rule keeps_dataD(2) [OF F(4) old(3)])
    finally show ?thesis .
  qed
  moreover have "pt_state ?ph root" "data_page ?ph root pg" using W(1,2) F(5) by simp_all
  moreover have "page_list ?ph vm_pgfreeq = tl (page_list (vs_phys s) vm_pgfreeq)" using F(7) f by simp
  ultimately have "fresh_anon (I c) L root s pg (page_words (vs_phys s) ?op) a ?s"
    unfolding fresh_anon_def using F W(3) by (intro conjI exI [of _ k] exI [of _ ?ph]) auto
  with run show ?thesis by blast
qed

subsection \<open>Slots of anonymous maps\<close>

definition amap_lookup :: "'k vms \<Rightarrow> u64 \<Rightarrow> u64 \<Rightarrow> u64" where
  "amap_lookup s amap page = (case vs_amaps s amap of None \<Rightarrow> 0 | Some am \<Rightarrow>
     let ci = unat (page div 32) in
     if ci < length (am_slots am) \<and> am_slots am ! ci \<noteq> 0
     then (case vs_chunks s (am_slots am ! ci) of None \<Rightarrow> 0 | Some c \<Rightarrow> c ! unat (page mod 32)) else 0)"

definition amap_ok :: "'k vms \<Rightarrow> vm_amap \<Rightarrow> bool" where
  "amap_ok s am \<longleftrightarrow> unat (am_curnchunk am) = length (am_slots am) \<and> length (am_slots am) < 2 ^ 60 \<and>
     (am_chunks am = 0 \<longleftrightarrow> am_slots am = []) \<and>
     (\<forall>c \<in> set (am_slots am). c \<noteq> 0 \<longrightarrow> (\<exists>ch. vs_chunks s c = Some ch \<and> length ch = 32))"

text \<open>
  The heap objects behind the anonymous maps. No chunk is used in two slots, no array by two maps,
  and all of them have been handed out by the heap.
\<close>

definition arrays :: "'k vms \<Rightarrow> u64 set" where
  "arrays s = {am_chunks am |m am. vs_amaps s m = Some am \<and> am_chunks am \<noteq> 0}"

definition owned :: "'k vms \<Rightarrow> u64 set" where
  "owned s = dom (vs_chunks s) \<union> dom (vs_anons s) \<union> arrays s"

definition amaps_ok :: "u64 set \<Rightarrow> 'k vms \<Rightarrow> bool" where
  "amaps_ok live s \<longleftrightarrow> (\<forall>m am. vs_amaps s m = Some am \<longrightarrow> amap_ok s am) \<and>
     (\<forall>m am i m' am' j. vs_amaps s m = Some am \<longrightarrow> vs_amaps s m' = Some am' \<longrightarrow> i < length (am_slots am) \<longrightarrow>
        j < length (am_slots am') \<longrightarrow> am_slots am ! i \<noteq> 0 \<longrightarrow> am_slots am ! i = am_slots am' ! j \<longrightarrow> m = m' \<and> i = j) \<and>
     (\<forall>m am m' am'. vs_amaps s m = Some am \<longrightarrow> vs_amaps s m' = Some am' \<longrightarrow> am_chunks am \<noteq> 0 \<longrightarrow>
        am_chunks am = am_chunks am' \<longrightarrow> m = m') \<and>
     arrays s \<inter> (dom (vs_chunks s) \<union> dom (vs_anons s)) = {} \<and> owned s \<subseteq> live"

lemma amaps_slot_inj:
  assumes "amaps_ok live s" and "vs_amaps s m = Some am" "vs_amaps s m' = Some am'"
    and "i < length (am_slots am)" "j < length (am_slots am')" "am_slots am ! i \<noteq> 0" "am_slots am ! i = am_slots am' ! j"
  shows "m = m' \<and> i = j"
  using assms unfolding amaps_ok_def by blast

lemma amaps_array_inj:
  assumes "amaps_ok live s" and "vs_amaps s m = Some am" "vs_amaps s m' = Some am'" "am_chunks am \<noteq> 0" "am_chunks am = am_chunks am'"
  shows "m = m'"
  using assms unfolding amaps_ok_def by blast

lemma amaps_okI:
  assumes "\<And>m am. vs_amaps s m = Some am \<Longrightarrow> amap_ok s am"
    and "\<And>m m' am am' i j. vs_amaps s m = Some am \<Longrightarrow> vs_amaps s m' = Some am' \<Longrightarrow> i < length (am_slots am) \<Longrightarrow>
      j < length (am_slots am') \<Longrightarrow> am_slots am ! i \<noteq> 0 \<Longrightarrow> am_slots am ! i = am_slots am' ! j \<Longrightarrow> m = m' \<and> i = j"
    and "\<And>m m' am am'. vs_amaps s m = Some am \<Longrightarrow> vs_amaps s m' = Some am' \<Longrightarrow> am_chunks am \<noteq> 0 \<Longrightarrow>
      am_chunks am = am_chunks am' \<Longrightarrow> m = m'"
    and "arrays s \<inter> (dom (vs_chunks s) \<union> dom (vs_anons s)) = {}" and "owned s \<subseteq> live"
  shows "amaps_ok live s"
  unfolding amaps_ok_def using assms by (intro conjI allI impI) simp_all

lemma page_index:
  fixes page :: u64
  shows "unat (page div 32) = unat page div 32" "unat (page mod 32) = unat page mod 32" "unat (page div 32 + 1) = unat page div 32 + 1"
    "unat (page mod 32) < 32" "unat (page div 32) < 2 ^ 59"
proof -
  show d: "unat (page div 32) = unat page div 32" and m: "unat (page mod 32) = unat page mod 32"
    by (simp_all add: unat_div unat_mod)
  have "unat page < 2 ^ 64" using unat_bound64 [of page] by simp
  then have b: "unat page div 32 < 2 ^ 59" by (simp add: div_less_iff_less_mult)
  then show "unat (page div 32) < 2 ^ 59" by (simp only: d)
  show "unat (page div 32 + 1) = unat page div 32 + 1" using d b by (subst unat_add_nowrap) simp_all
  show "unat (page mod 32) < 32" by (simp only: m)
qed

text \<open>
  The state in which the slot of a page exists: what \<^verbatim>\<open>amap_anon_at\<close> leaves behind. The slot is
  entry \<open>i\<close> of chunk \<open>c\<close>.
\<close>

definition slot_at :: "'k vms \<Rightarrow> u64 \<Rightarrow> u64 \<Rightarrow> u64 \<times> nat \<Rightarrow> bool" where
  "slot_at s amap page slot \<longleftrightarrow> (\<exists>am ch. vs_amaps s amap = Some am \<and> unat (page div 32) < length (am_slots am) \<and>
     am_slots am ! unat (page div 32) = fst slot \<and> fst slot \<noteq> 0 \<and> vs_chunks s (fst slot) = Some ch \<and> length ch = 32 \<and>
     snd slot = unat (page mod 32) \<and> ch ! snd slot = amap_lookup s amap page)"

lemma amap_anon_at_present:
  assumes ok: "amaps_ok live s" and am: "vs_amaps s amap = Some am"
    and i: "unat (page div 32) < length (am_slots am)" "am_slots am ! unat (page div 32) \<noteq> 0"
  shows "amap_anon_at e amap page s = Some ((am_slots am ! unat (page div 32), unat (page mod 32)), s)"
    and "slot_at s amap page (am_slots am ! unat (page div 32), unat (page mod 32))"
proof -
  have a: "amap_ok s am" using ok am unfolding amaps_ok_def by blast
  then have "\<not> am_curnchunk am < page div 32 + 1"
    using i(1) page_index [of page] by (simp add: amap_ok_def word_less_nat_alt)
  moreover have "s\<lparr>vs_amaps := (vs_amaps s)(amap \<mapsto> am)\<rparr> = s" using am by (simp add: map_upd_triv)
  ultimately show "amap_anon_at e amap page s = Some ((am_slots am ! unat (page div 32), unat (page mod 32)), s)"
    using am i by (simp add: amap_anon_at_def Let_def)
  obtain ch where "vs_chunks s (am_slots am ! unat (page div 32)) = Some ch" "length ch = 32"
    using a i by (auto simp: amap_ok_def)
  then show "slot_at s amap page (am_slots am ! unat (page div 32), unat (page mod 32))"
    using am i by (simp add: slot_at_def amap_lookup_def Let_def)
qed

text \<open>Growing the array of chunk pointers.\<close>

lemma grow_chunks_ok:
  assumes law: "heap_law (ve_heap e) I L" "I (Suc c) (vs_heap s)" and ok: "amaps_ok (L (vs_heap s)) s"
    and am: "vs_amaps s amap = Some am" and n: "length (am_slots am) < unat n" "unat n < 2 ^ 60"
  shows "\<exists>am' s1. grow_chunks e am n s = Some (am', s1) \<and> I c (vs_heap s1) \<and> s1 = s\<lparr>vs_heap := vs_heap s1\<rparr> \<and>
    am_slots am' = am_slots am @ replicate (unat n - length (am_slots am)) 0 \<and>
    amaps_ok (L (vs_heap s1)) (s1\<lparr>vs_amaps := (vs_amaps s)(amap \<mapsto> am')\<rparr>)"
proof -
  have a: "amap_ok s am" and own: "owned s \<subseteq> L (vs_heap s)"
    and aj: "arrays s \<inter> (dom (vs_chunks s) \<union> dom (vs_anons s)) = {}" using ok am unfolding amaps_ok_def by blast+
  have cur: "unat (am_curnchunk am) = length (am_slots am)" using a by (simp add: amap_ok_def)
  have n8: "unat (n * 8) = unat n * 8" "unat (am_curnchunk am * 8) = length (am_slots am) * 8"
    using n cur by (simp_all add: unat_word_ariths)
  then have "n * 8 \<noteq> 0" using n(1) by (metis mult_is_0 not_less_zero unat_0 zero_neq_numeral)
  from vs_alloc_law [OF law this] obtain b k where al: "vs_alloc e (n * 8) s = Some (b, s\<lparr>vs_heap := k\<rparr>)" "b \<noteq> 0"
    "b \<notin> L (vs_heap s)" "I c k" "L k = insert b (L (vs_heap s))" by blast
  let ?am = "\<lparr>am_chunks = b, am_slots = am_slots am @ replicate (unat n - length (am_slots am)) 0, am_curnchunk = n\<rparr>"
  have "\<exists>k'. grow_chunks e am n s = Some (?am, s\<lparr>vs_heap := k'\<rparr>) \<and> I c k' \<and> insert b (L (vs_heap s)) - (if am_chunks am = 0 then {} else {am_chunks am}) \<subseteq> L k'"
  proof (cases "am_chunks am = 0")
    case True
    then show ?thesis using al cur by (intro exI [of _ k]) (simp add: grow_chunks_def)
  next
    case False
    then have "am_chunks am \<in> arrays s" using am unfolding arrays_def by blast
    then have "am_chunks am \<in> L k" using own al(5) unfolding owned_def by blast
    then obtain k' where fr: "vs_free e (am_chunks am) (am_curnchunk am * 8) (s\<lparr>vs_heap := k\<rparr>) = Some (s\<lparr>vs_heap := k'\<rparr>)" "I c k'"
      "L k' = L k - {am_chunks am}"
      using vs_free_law [where s = "s\<lparr>vs_heap := k\<rparr>" and n = "am_curnchunk am * 8", OF law(1), of c] al(4) by auto
    have "am_slots am \<noteq> []" using a False by (simp add: amap_ok_def)
    then have "am_curnchunk am * 8 > 0" "n * 8 > am_curnchunk am * 8" using n8 n(1) by (simp_all add: word_less_nat_alt)
    then show ?thesis using False al fr cur by (intro exI [of _ k']) (auto simp: grow_chunks_def)
  qed
  then obtain k' where run: "grow_chunks e am n s = Some (?am, s\<lparr>vs_heap := k'\<rparr>)" "I c k'"
    and L': "insert b (L (vs_heap s)) - (if am_chunks am = 0 then {} else {am_chunks am}) \<subseteq> L k'" by blast
  let ?s = "s\<lparr>vs_heap := k', vs_amaps := (vs_amaps s)(amap \<mapsto> ?am)\<rparr>"
  have src: "\<exists>am1. vs_amaps s m = Some am1 \<and> i < length (am_slots am1) \<and> am_slots am1 ! i = am_slots am2 ! i"
    if "vs_amaps ?s m = Some am2" "i < length (am_slots am2)" "am_slots am2 ! i \<noteq> 0" for m am2 i
    using that am by (auto simp: nth_append split: if_splits)
  have "amap_ok ?s ?am" using a n al(2) by (auto simp: amap_ok_def)
  then have A: "amap_ok ?s am2" if "vs_amaps ?s m = Some am2" for m am2
    using that ok unfolding amaps_ok_def amap_ok_def by (auto split: if_splits)
  have C: "m = m'" if "vs_amaps ?s m = Some x" "vs_amaps ?s m' = Some y" "am_chunks x \<noteq> 0" "am_chunks x = am_chunks y" for m m' x y
  proof -
    have nb: "am_chunks z \<noteq> b" if "vs_amaps s l = Some z" for l z
      using that own al(2,3) unfolding owned_def arrays_def by blast
    show ?thesis
    proof (cases "m = amap \<or> m' = amap")
      case True
      then show ?thesis using that nb [of m x] nb [of m' y] by (auto split: if_splits)
    next
      case False
      then have "vs_amaps s m = Some x" "vs_amaps s m' = Some y" using that(1,2) by auto
      then show ?thesis using ok that(3,4) unfolding amaps_ok_def by blast
    qed
  qed
  have arr: "arrays ?s \<subseteq> insert b (arrays s - (if am_chunks am = 0 then {} else {am_chunks am}))"
  proof
    fix x assume "x \<in> arrays ?s"
    then obtain m z where z: "vs_amaps ?s m = Some z" "x = am_chunks z" "am_chunks z \<noteq> 0" by (auto simp: arrays_def)
    show "x \<in> insert b (arrays s - (if am_chunks am = 0 then {} else {am_chunks am}))"
    proof (cases "m = amap")
      case False
      then have "vs_amaps s m = Some z" using z(1) by simp
      then have "x \<in> arrays s" "am_chunks am \<noteq> x"
        using z False amaps_array_inj [OF ok _ am] by (auto simp: arrays_def)
      then show ?thesis by auto
    qed (use z in auto)
  qed
  have nb: "b \<notin> owned s" using own al(3) by blast
  have am_in: "am_chunks am \<in> arrays s" if "am_chunks am \<noteq> 0" using am that by (auto simp: arrays_def)
  have D: "arrays ?s \<inter> (dom (vs_chunks ?s) \<union> dom (vs_anons ?s)) = {}"
    using arr nb aj by (auto simp: owned_def split: if_splits)
  have E: "owned ?s \<subseteq> L k'"
  proof
    fix x assume "x \<in> owned ?s"
    then have "x = b \<or> x \<in> owned s \<and> (am_chunks am \<noteq> 0 \<longrightarrow> x \<noteq> am_chunks am)"
      using arr aj am_in by (auto simp: owned_def split: if_splits)
    moreover have "b \<noteq> am_chunks am" if "am_chunks am \<noteq> 0" using nb am_in [OF that] by (auto simp: owned_def)
    ultimately show "x \<in> L k'" using L' own by (auto split: if_splits)
  qed
  have J: "m = m' \<and> i = j" if "vs_amaps ?s m = Some x" "vs_amaps ?s m' = Some y" "i < length (am_slots x)"
    "j < length (am_slots y)" "am_slots x ! i \<noteq> 0" "am_slots x ! i = am_slots y ! j" for m m' x y i j
  proof -
    note T = that
    obtain x1 where x1: "vs_amaps s m = Some x1" "i < length (am_slots x1)" "am_slots x1 ! i = am_slots x ! i"
      using src [OF T(1,3,5)] by blast
    obtain y1 where y1: "vs_amaps s m' = Some y1" "j < length (am_slots y1)" "am_slots y1 ! j = am_slots y ! j"
      using src [OF T(2,4)] T(5,6) by auto
    show ?thesis using amaps_slot_inj [OF ok x1(1) y1(1) x1(2) y1(2)] x1(3) y1(3) T(5,6) by simp
  qed
  have "amaps_ok (L k') ?s" by (rule amaps_okI) (fact A, fact J, fact C, fact D, fact E)
  then show ?thesis using run by (intro exI [of _ ?am] exI [of _ "s\<lparr>vs_heap := k'\<rparr>"]) simp
qed

text \<open>Adding a chunk to an empty slot.\<close>

lemma new_chunk_ok:
  assumes ok: "amaps_ok live s" and am: "vs_amaps s amap = Some am"
    and ci: "ci < length (am_slots am)" "am_slots am ! ci = 0" and c: "c \<noteq> 0" "c \<notin> live"
    and s': "s' = s\<lparr>vs_heap := k, vs_amaps := (vs_amaps s)(amap \<mapsto> am\<lparr>am_slots := (am_slots am)[ci := c]\<rparr>),
       vs_chunks := (vs_chunks s)(c \<mapsto> replicate kAMapChunkNPages 0)\<rparr>"
  shows "amaps_ok (insert c live) s'" and "amap_lookup s' m p = amap_lookup s m p"
proof -
  let ?am = "am\<lparr>am_slots := (am_slots am)[ci := c]\<rparr>"
  have a: "amap_ok s am" and own: "owned s \<subseteq> live" and aj: "arrays s \<inter> (dom (vs_chunks s) \<union> dom (vs_anons s)) = {}"
    using ok am unfolding amaps_ok_def by blast+
  have cn: "c \<notin> dom (vs_chunks s)" "c \<notin> arrays s" using own c(2) unfolding owned_def by blast+
  have nc: "x \<noteq> c" if "vs_amaps s l = Some z" "x \<in> set (am_slots z)" for l z x
  proof
    assume "x = c"
    then have "\<exists>ch. vs_chunks s c = Some ch" using ok that c(1) unfolding amaps_ok_def amap_ok_def by blast
    then show False using cn(1) by blast
  qed
  have A: "amap_ok s' z" if "vs_amaps s' l = Some z" for l z
  proof (cases "l = amap")
    case True
    then have z: "z = ?am" using that by (simp add: s')
    have "\<exists>ch. vs_chunks s' x = Some ch \<and> length ch = 32" if x: "x \<in> set ((am_slots am)[ci := c])" "x \<noteq> 0" for x
    proof (cases "x = c")
      case False
      then have "x \<in> set (am_slots am)" using x(1) set_update_subset_insert by fastforce
      then show ?thesis using a x(2) False by (simp add: amap_ok_def s')
    qed (simp add: s' kAMapChunkNPages_def)
    then show ?thesis using a ci(1) by (auto simp: amap_ok_def z)
  next
    case False
    then have l: "vs_amaps s l = Some z" using that by (simp add: s')
    then have "amap_ok s z" using ok unfolding amaps_ok_def by blast
    then show ?thesis using nc [OF l] by (auto simp: amap_ok_def s')
  qed
  have arr: "arrays s' = arrays s"
    using am unfolding arrays_def s' by (auto split: if_splits) (metis option.inject)+
  have src: "am_slots x ! i = c \<and> l = amap \<and> i = ci \<or>
      (\<exists>x1. vs_amaps s l = Some x1 \<and> i < length (am_slots x1) \<and> am_slots x1 ! i = am_slots x ! i \<and> am_slots x ! i \<noteq> c)"
    if "vs_amaps s' l = Some x" "i < length (am_slots x)" for l x i
    using that am nc by (cases "i = ci") (auto simp: s' split: if_splits)
  have inj: "m = m' \<and> i = j" if "vs_amaps s' m = Some x" "vs_amaps s' m' = Some y" "i < length (am_slots x)"
    "j < length (am_slots y)" "am_slots x ! i \<noteq> 0" "am_slots x ! i = am_slots y ! j" for m m' x y i j
  proof -
    note T = that
    show ?thesis
    proof (cases "am_slots x ! i = c")
      case True
      then show ?thesis using src [OF T(1,3)] src [OF T(2,4)] T(6) by auto
    next
      case False
      obtain x1 where x1: "vs_amaps s m = Some x1" "i < length (am_slots x1)" "am_slots x1 ! i = am_slots x ! i"
        using src [OF T(1,3)] False by blast
      obtain y1 where y1: "vs_amaps s m' = Some y1" "j < length (am_slots y1)" "am_slots y1 ! j = am_slots y ! j"
        using src [OF T(2,4)] False T(6) by auto
      show ?thesis using amaps_slot_inj [OF ok x1(1) y1(1) x1(2) y1(2)] x1(3) y1(3) T(5,6) by simp
    qed
  qed
  have arr_inj: "m = m'" if "vs_amaps s' m = Some x" "vs_amaps s' m' = Some y" "am_chunks x \<noteq> 0" "am_chunks x = am_chunks y" for m m' x y
    using that amaps_array_inj [OF ok] am unfolding s' by (auto split: if_splits)
  have aj': "arrays s' \<inter> (dom (vs_chunks s') \<union> dom (vs_anons s')) = {}" 
  proof -
    have "dom (vs_chunks s') \<subseteq> insert c (dom (vs_chunks s))" "vs_anons s' = vs_anons s" by (auto simp: s')
    then show ?thesis using aj cn(2) unfolding arr by auto
  qed
  have own': "owned s' \<subseteq> insert c live" using own by (auto simp: owned_def arr) (auto simp: s' split: if_splits)
  show "amaps_ok (insert c live) s'" by (rule amaps_okI) (fact A, fact inj, fact arr_inj, fact aj', fact own')
  show "amap_lookup s' m p = amap_lookup s m p"
  proof (cases "vs_amaps s m")
    case None
    then show ?thesis using am by (auto simp: amap_lookup_def s')
  next
    case (Some z)
    let ?i = "unat (p div 32)"
    have look: "vs_chunks s' x = vs_chunks s x" if "x \<in> set (am_slots z)" for x using nc [OF Some that] by (simp add: s')
    consider "m = amap" "?i = ci" | "m = amap" "?i \<noteq> ci" | "m \<noteq> amap" by blast
    then show ?thesis
    proof cases
      case 1
      then show ?thesis using am ci c(1) page_index(4) [of p] by (simp add: amap_lookup_def s' Let_def kAMapChunkNPages_def)
    next
      case 2
      then show ?thesis using am Some look by (auto simp: amap_lookup_def s' Let_def)
    next
      case 3
      then show ?thesis using Some look by (auto simp: amap_lookup_def s' Let_def)
    qed
  qed
qed

lemma amap_anon_at_ok:
  assumes law: "heap_law (ve_heap e) I L" "I (Suc (Suc n0)) (vs_heap s)" and ok: "amaps_ok (L (vs_heap s)) s"
    and am: "vs_amaps s amap = Some am"
  shows "\<exists>slot s'. amap_anon_at e amap page s = Some (slot, s') \<and> slot_at s' amap page slot \<and>
    amaps_ok (L (vs_heap s')) s' \<and> I n0 (vs_heap s') \<and> (\<forall>m p. amap_lookup s' m p = amap_lookup s m p) \<and>
    s' = s\<lparr>vs_heap := vs_heap s', vs_amaps := vs_amaps s', vs_chunks := vs_chunks s'\<rparr>"
proof -
  let ?ci = "unat (page div 32)" and ?n = "page div 32 + 1"
  have a: "amap_ok s am" using ok am unfolding amaps_ok_def by blast
  have n: "unat ?n = Suc ?ci" "Suc ?ci < 2 ^ 60" using page_index [of page] by simp_all
  have "\<exists>am1 s1. (if am_curnchunk am < ?n then grow_chunks e am ?n s else Some (am, s)) = Some (am1, s1) \<and> I (Suc n0) (vs_heap s1) \<and>
      s1 = s\<lparr>vs_heap := vs_heap s1\<rparr> \<and> ?ci < length (am_slots am1) \<and> amaps_ok (L (vs_heap s1)) (s1\<lparr>vs_amaps := (vs_amaps s)(amap \<mapsto> am1)\<rparr>) \<and>
      (\<exists>k. am_slots am1 = am_slots am @ replicate k 0)"
  proof (cases "am_curnchunk am < ?n")
    case True
    then have lt: "length (am_slots am) < unat ?n" using a by (simp add: amap_ok_def word_less_nat_alt)
    from grow_chunks_ok [OF law ok am lt] n obtain am' s1 where g: "grow_chunks e am ?n s = Some (am', s1)" "I (Suc n0) (vs_heap s1)" "s1 = s\<lparr>vs_heap := vs_heap s1\<rparr>"
      "am_slots am' = am_slots am @ replicate (unat ?n - length (am_slots am)) 0"
      "amaps_ok (L (vs_heap s1)) (s1\<lparr>vs_amaps := (vs_amaps s)(amap \<mapsto> am')\<rparr>)" by auto
    moreover have "?ci < length (am_slots am')" using g(4) n lt by simp
    ultimately show ?thesis using True by (intro exI [of _ am'] exI [of _ s1]) auto
  next
    case False
    then have "?ci < length (am_slots am)" using a n by (simp add: amap_ok_def word_less_nat_alt)
    moreover have "s\<lparr>vs_amaps := (vs_amaps s)(amap \<mapsto> am)\<rparr> = s" using am by (simp add: map_upd_triv)
    ultimately show ?thesis using False law heap_law_less [OF law] ok by (intro exI [of _ am] exI [of _ s]) simp
  qed
  then obtain am1 s1 k where g: "(if am_curnchunk am < ?n then grow_chunks e am ?n s else Some (am, s)) = Some (am1, s1)" "I (Suc n0) (vs_heap s1)"
    and s1: "s1 = s\<lparr>vs_heap := vs_heap s1\<rparr>" and ci: "?ci < length (am_slots am1)"
    and ok1: "amaps_ok (L (vs_heap s1)) (s1\<lparr>vs_amaps := (vs_amaps s)(amap \<mapsto> am1)\<rparr>)" and sl: "am_slots am1 = am_slots am @ replicate k 0" by blast
  let ?s = "s1\<lparr>vs_amaps := (vs_amaps s)(amap \<mapsto> am1)\<rparr>"
  have same: "vs_amaps s1 = vs_amaps s" "vs_chunks s1 = vs_chunks s" by (subst s1, simp)+
  have lk: "amap_lookup ?s m p = amap_lookup s m p" for m p
  proof -
    have ch: "vs_chunks ?s = vs_chunks s" by (simp add: same)
    show ?thesis
    proof (cases "m = amap")
      case False
      then have "vs_amaps ?s m = vs_amaps s m" by simp
      then show ?thesis unfolding amap_lookup_def ch by simp
    next
      case True
      then show ?thesis unfolding amap_lookup_def ch Let_def using am sl
        by (cases "unat (p div 32) < length (am_slots am)") (auto simp: nth_append)
    qed
  qed
  have am1: "vs_amaps ?s amap = Some am1" by simp
  show ?thesis
  proof (cases "am_slots am1 ! ?ci = 0")
    case False
    have "amap_anon_at e amap page s = Some ((am_slots am1 ! ?ci, unat (page mod 32)), ?s)"
      using am g(1) False ci same by (simp add: amap_anon_at_def Let_def)
    moreover have "slot_at ?s amap page (am_slots am1 ! ?ci, unat (page mod 32))"
      by (rule amap_anon_at_present(2) [OF ok1 am1 ci False])
    moreover have "?s = s\<lparr>vs_heap := vs_heap ?s, vs_amaps := vs_amaps ?s, vs_chunks := vs_chunks ?s\<rparr>" by (subst s1) (simp add: same)
    ultimately show ?thesis using ok1 heap_law_less [OF law(1) g(2)] lk by (intro exI [of _ ?s] exI) auto
  next
    case True
    have "sizeof_vm_amap_chunk \<noteq> 0" by (simp add: sizeof_vm_amap_chunk_def)
    then obtain c h where al: "vs_alloc e sizeof_vm_amap_chunk ?s = Some (c, ?s\<lparr>vs_heap := h\<rparr>)"
      "c \<noteq> 0" "c \<notin> L (vs_heap s1)" "I n0 h" "L h = insert c (L (vs_heap s1))"
      using vs_alloc_law [where s = ?s and n = sizeof_vm_amap_chunk, OF law(1), of n0] g(2) by auto
    define s2 where "s2 = ?s\<lparr>vs_heap := h, vs_amaps := (vs_amaps ?s)(amap \<mapsto> am1\<lparr>am_slots := (am_slots am1)[?ci := c]\<rparr>),
       vs_chunks := (vs_chunks ?s)(c \<mapsto> replicate kAMapChunkNPages 0)\<rparr>"
    have nc: "amaps_ok (insert c (L (vs_heap s1))) s2" "\<And>m p. amap_lookup s2 m p = amap_lookup ?s m p"
      using new_chunk_ok [OF ok1 am1 ci True al(2) _ s2_def] al(3) by simp_all
    have run: "amap_anon_at e amap page s = Some ((c, unat (page mod 32)), s2)"
      using am g(1) True ci same al(1) by (simp add: amap_anon_at_def Let_def s2_def)
    have am2: "vs_amaps s2 amap = Some (am1\<lparr>am_slots := (am_slots am1)[?ci := c]\<rparr>)" by (simp add: s2_def)
    have "slot_at s2 amap page (c, unat (page mod 32))"
      using amap_anon_at_present(2) [OF nc(1) am2, of page] ci al(2) by simp
    moreover have "s2 = s\<lparr>vs_heap := vs_heap s2, vs_amaps := vs_amaps s2, vs_chunks := vs_chunks s2\<rparr>"
      unfolding s2_def by (subst s1) simp
    ultimately show ?thesis using run nc lk al by (intro exI [of _ s2] exI) (auto simp: s2_def)
  qed
qed

subsection \<open>Filling a slot\<close>

lemma amaps_ok_cong:
  assumes "vs_amaps s' = vs_amaps s" "vs_chunks s' = vs_chunks s" "dom (vs_anons s') = dom (vs_anons s)"
  shows "amaps_ok live s' \<longleftrightarrow> amaps_ok live s"
proof -
  have "arrays s' = arrays s" by (simp add: arrays_def assms(1))
  moreover have "amap_ok s' am = amap_ok s am" for am by (simp add: amap_ok_def assms(2))
  ultimately show ?thesis by (simp add: amaps_ok_def owned_def assms)
qed

lemma amaps_ok_mono: "amaps_ok live s \<Longrightarrow> owned s \<subseteq> live' \<Longrightarrow> amaps_ok live' s"
  unfolding amaps_ok_def by (elim conjE, intro conjI)

lemma amap_lookup_cong:
  assumes "vs_amaps s' = vs_amaps s" "vs_chunks s' = vs_chunks s"
  shows "amap_lookup s' = amap_lookup s"
  by (intro ext) (simp only: amap_lookup_def assms)

lemma amaps_ok_new_anon:
  assumes ok: "amaps_ok live s" and a: "a \<notin> live" and s': "vs_amaps s' = vs_amaps s" "vs_chunks s' = vs_chunks s"
    "dom (vs_anons s') = insert a (dom (vs_anons s))"
  shows "amaps_ok (insert a live) s'"
proof -
  have own: "owned s \<subseteq> live" "arrays s \<inter> (dom (vs_chunks s) \<union> dom (vs_anons s)) = {}" using ok by (simp_all add: amaps_ok_def)
  have arr: "arrays s' = arrays s" by (simp add: arrays_def s'(1))
  have ao: "amap_ok s' am = amap_ok s am" for am by (simp add: amap_ok_def s'(2))
  have "a \<notin> arrays s" using own a by (auto simp: owned_def)
  then have "arrays s' \<inter> (dom (vs_chunks s') \<union> dom (vs_anons s')) = {}" using own(2) by (auto simp: arr s'(2,3))
  moreover have "owned s' \<subseteq> insert a live" using own by (auto simp: owned_def arr s'(2,3))
  ultimately show ?thesis using ok by (simp add: amaps_ok_def ao s'(1))
qed

lemma set_slot_ok:
  assumes ok: "amaps_ok live s" and sl: "slot_at s amap page slot"
  shows "\<exists>s'. set_slot slot a s = Some s' \<and> s' = s\<lparr>vs_chunks := vs_chunks s'\<rparr> \<and> amaps_ok live s' \<and>
    (\<forall>m p. amap_lookup s' m p = (if m = amap \<and> p = page then a else amap_lookup s m p))"
proof -
  let ?ci = "unat (page div 32)"
  obtain am ch where am: "vs_amaps s amap = Some am" "?ci < length (am_slots am)" "am_slots am ! ?ci = fst slot" "fst slot \<noteq> 0"
    and ch: "vs_chunks s (fst slot) = Some ch" "length ch = 32" "snd slot = unat (page mod 32)"
    using sl by (auto simp: slot_at_def)
  let ?s = "s\<lparr>vs_chunks := (vs_chunks s)(fst slot \<mapsto> ch[snd slot := a])\<rparr>"
  have run: "set_slot slot a s = Some ?s" using ch by (simp add: set_slot_def)
  have d: "dom (vs_chunks ?s) = dom (vs_chunks s)" using ch(1) by auto
  have ao: "amap_ok ?s x = amap_ok s x" for x
  proof -
    have "(\<exists>c. vs_chunks ?s y = Some c \<and> length c = 32) \<longleftrightarrow> (\<exists>c. vs_chunks s y = Some c \<and> length c = 32)" for y using ch by simp
    then show ?thesis by (simp only: amap_ok_def)
  qed
  have "arrays ?s = arrays s" by (simp add: arrays_def)
  then have "amaps_ok live ?s" using ok ao unfolding amaps_ok_def owned_def d by simp
  moreover have "amap_lookup ?s m p = (if m = amap \<and> p = page then a else amap_lookup s m p)" for m p
  proof (cases "\<exists>x. vs_amaps s m = Some x \<and> unat (p div 32) < length (am_slots x) \<and> am_slots x ! unat (p div 32) = fst slot")
    case True
    then obtain x where x: "vs_amaps s m = Some x" "unat (p div 32) < length (am_slots x)" "am_slots x ! unat (p div 32) = fst slot" by blast
    then have mi: "m = amap" "unat (p div 32) = ?ci" using amaps_slot_inj [OF ok x(1) am(1) x(2) am(2)] am by simp_all
    have "unat (p mod 32) \<noteq> unat (page mod 32)" if "p \<noteq> page"
    proof
      assume "unat (p mod 32) = unat (page mod 32)"
      then have "unat p = unat page" using mi(2) page_index [of p] page_index [of page] by (metis div_mult_mod_eq)
      then show False using that by (simp add: word_unat_eq_iff)
    qed
    then show ?thesis using mi am ch page_index(4) by (auto simp: amap_lookup_def Let_def)
  next
    case False
    then have "\<not> (m = amap \<and> p = page)" using am by auto
    moreover have "amap_lookup ?s m p = amap_lookup s m p"
      using False by (cases "vs_amaps s m") (auto simp: amap_lookup_def Let_def)
    ultimately show ?thesis by auto
  qed
  ultimately show ?thesis using run by (intro exI [of _ ?s]) simp
qed

subsection \<open>The address space after a fault\<close>

lemma trans_of_pte:
  assumes st: "pt_state ph (pml4 pm)" and pte: "pte_of (pmem ph) (pml4 pm) v = (pa AND kMMUFrame) OR vm_prot_to_i386 prot"
    and pa: "pa AND kMMUFrame = pa" and prot: "prot AND kVMRead \<noteq> 0"
  shows "pmap_trans pm v ph = Some (pa + 8 * (v AND 0xFFF))"
  using st trans_walk [of ph pm v] prot_present [of pa prot] prot_addr [of pa prot] pte pa prot by (simp add: pt_state_def Let_def)

lemma trans_same:
  assumes "pt_state ph (pml4 pm)" "pt_state ph' (pml4 pm)" "pte_of (pmem ph') (pml4 pm) v = pte_of (pmem ph) (pml4 pm) v"
  shows "pmap_trans pm v ph' = pmap_trans pm v ph"
  using assms by (simp add: pt_state_def trans_walk)

text \<open>What both kinds of fault establish: slot \<open>page\<close> of the object holds anonymous page \<open>a\<close> with the
  physical page \<open>pg\<close>, which \<open>vaddr\<close> is mapped to; nothing else changes.\<close>

definition faulted_in :: "pmap \<Rightarrow> u64 \<Rightarrow> u64 \<Rightarrow> u64 \<Rightarrow> u64 \<Rightarrow> page_ref \<Rightarrow> 'k vms \<Rightarrow> 'k vms \<Rightarrow> bool" where
  "faulted_in pm vaddr amap page a pg s s' \<longleftrightarrow>
     (\<forall>m p. amap_lookup s' m p = (if m = amap \<and> p = page then a else amap_lookup s m p)) \<and>
     vs_anons s a = None \<and> vs_anons s' a = Some \<lparr>an_refcnt = 1, an_resident = True, an_physpage = pg\<rparr> \<and>
     (\<forall>v. pmap_trans pm v (vs_phys s') = (if same_vpage v vaddr
        then Some (paddr (page_of (vs_phys s') pg) + 8 * (v AND 0xFFF)) else pmap_trans pm v (vs_phys s))) \<and>
     (\<forall>d. data_page (vs_phys s) (pml4 pm) d \<longrightarrow> d \<noteq> pg \<and> page_words (vs_phys s') d = page_words (vs_phys s) d) \<and>
     pt_state (vs_phys s') (pml4 pm) \<and> vs_objs s' = vs_objs s \<and> vs_maps s' = vs_maps s"

lemma map_new_anon:
  assumes law: "heap_law (ve_heap e) I L" and fa: "fresh_anon (I (Suc c)) L (pml4 pm) s pg w a s1" and ok: "amaps_ok (L (vs_heap s)) s"
    and sl: "slot_at s amap page slot" and pm: "pmap_of s r = pm" and f: "page_list (vs_phys s) vm_pgfreeq = pg # rest" "3 \<le> length rest"
    and st: "pt_state (vs_phys s) (pml4 pm)"
    and mid: "\<And>s2. vs_phys s2 = vs_phys s1 \<Longrightarrow> vs_heap s2 = vs_heap s1 \<Longrightarrow>
      \<exists>ph k. un s2 = Some (s2\<lparr>vs_phys := ph, vs_heap := k\<rparr>) \<and> I (Suc c) k \<and> owned s \<union> {a} \<subseteq> L k \<and> pt_state ph (pml4 pm) \<and>
        keeps_data (pml4 pm) (vs_phys s1) ph \<and> page_list ph = page_list (vs_phys s1) \<and>
        (\<forall>v. \<not> same_vpage v vaddr \<longrightarrow> pte_of (pmem ph) (pml4 pm) v = pte_of (pmem (vs_phys s1)) (pml4 pm) v)"
  shows "\<exists>s2 s3 s4. set_slot slot a s1 = Some s2 \<and> un s2 = Some s3 \<and> enter_anon e r pm a vaddr kVMAll s3 = Some (0, s4) \<and>
    faulted_in pm vaddr amap page a pg s s4 \<and> page_words (vs_phys s4) pg = w \<and> I c (vs_heap s4) \<and> amaps_ok (L (vs_heap s4)) s4 \<and>
    vs_anons s4 = (vs_anons s)(a \<mapsto> \<lparr>an_refcnt = 1, an_resident = True, an_physpage = pg\<rparr>)"
proof -
  let ?root = "pml4 pm"
  let ?an = "\<lparr>an_refcnt = 1, an_resident = True, an_physpage = pg\<rparr>"
  obtain k ph where s1: "s1 = s\<lparr>vs_heap := k, vs_phys := ph, vs_anons := (vs_anons s)(a \<mapsto> ?an)\<rparr>"
    and F: "I (Suc c) k" "L k = insert a (L (vs_heap s))" "pt_state ph ?root" "keeps_data ?root (vs_phys s) ph" "data_page ph ?root pg"
      "\<not> data_page (vs_phys s) ?root pg" "page_list ph vm_pgfreeq = rest" "page_words ph pg = w"
      "\<forall>v. pte_of (pmem ph) ?root v = pte_of (pmem (vs_phys s)) ?root v" "a \<noteq> 0" "a \<notin> L (vs_heap s)"
    using fa f(1) by (auto simp: fresh_anon_def)
  have own: "owned s \<subseteq> L (vs_heap s)" using ok by (simp add: amaps_ok_def)
  have ok1: "amaps_ok (insert a (L (vs_heap s))) s1" by (rule amaps_ok_new_anon [OF ok F(11)]) (simp_all add: s1)
  have lk1: "amap_lookup s1 = amap_lookup s" by (rule amap_lookup_cong) (simp_all add: s1)
  have sl1: "slot_at s1 amap page slot" using sl unfolding slot_at_def lk1 by (simp add: s1)
  obtain s2 where s2: "set_slot slot a s1 = Some s2" "s2 = s1\<lparr>vs_chunks := vs_chunks s2\<rparr>" "amaps_ok (insert a (L (vs_heap s))) s2"
    "\<forall>m p. amap_lookup s2 m p = (if m = amap \<and> p = page then a else amap_lookup s1 m p)"
    using set_slot_ok [OF ok1 sl1] by blast
  have e2: "vs_phys s2 = ph" "vs_heap s2 = k" "vs_anons s2 = (vs_anons s)(a \<mapsto> ?an)" "vs_objs s2 = vs_objs s" "vs_maps s2 = vs_maps s"
    by (subst s2(2), simp add: s1)+
  obtain ph3 k3 where u: "un s2 = Some (s2\<lparr>vs_phys := ph3, vs_heap := k3\<rparr>)" "I (Suc c) k3" "owned s \<union> {a} \<subseteq> L k3" "pt_state ph3 ?root"
    "keeps_data ?root ph ph3" "page_list ph3 = page_list ph"
    "\<forall>v. \<not> same_vpage v vaddr \<longrightarrow> pte_of (pmem ph3) ?root v = pte_of (pmem ph) ?root v"
    using mid [of s2] e2 by (auto simp: s1)
  define s3 where "s3 = s2\<lparr>vs_phys := ph3, vs_heap := k3\<rparr>"
  have free3: "3 \<le> length (page_list ph3 vm_pgfreeq)" using u(6) F(7) f(2) by simp
  from pmap_enter_data [OF law u(2) u(4) free3, of r pg vaddr kVMAll] obtain ph4 k4
    where en: "pmap_enter (ve_heap e) r pm pg vaddr kVMAll (ph3, k3) = Some (ph4, k4)" "I c k4" "L k3 \<subseteq> L k4" "pt_state ph4 ?root"
      "keeps_data ?root ph3 ph4"
      "\<forall>v. pte_of (pmem ph4) ?root v = (if same_vpage v vaddr
         then (paddr (page_of ph3 pg) AND kMMUFrame) OR vm_prot_to_i386 kVMAll else pte_of (pmem ph3) ?root v)" by blast
  let ?s4 = "s3\<lparr>vs_phys := ph4, vs_heap := k4\<rparr>"
  have run: "enter_anon e r pm a vaddr kVMAll s3 = Some (0, ?s4)"
    using en(1) e2(3) by (simp add: enter_anon_def vs_mmu_def s3_def)
  have kd: "keeps_data ?root (vs_phys s) ph4" "keeps_data ?root ph ph4"
    using keeps_data_trans F(4) u(5) en(5) by blast+
  have pa: "paddr (page_of ph4 pg) = paddr (page_of (vs_phys s) pg)" "paddr (page_of ph3 pg) = paddr (page_of (vs_phys s) pg)"
    using keeps_data_paddr F(4) u(5) kd(1) by metis+
  have mask: "paddr (page_of (vs_phys s) pg) AND kMMUFrame = paddr (page_of (vs_phys s) pg)"
    using st f(1) by (simp add: pt_state_def new_table_def)
  have "pmap_trans pm v ph4 = (if same_vpage v vaddr then Some (paddr (page_of ph4 pg) + 8 * (v AND 0xFFF)) else pmap_trans pm v (vs_phys s))" for v
  proof (cases "same_vpage v vaddr")
    case True
    then show ?thesis using trans_of_pte [OF en(4), of v _ kVMAll] en(6) pa mask by (simp add: kVMAll_def kVMRead_def kVMWrite_def kVMExecute_def)
  next
    case False
    then have "pte_of (pmem ph4) ?root v = pte_of (pmem (vs_phys s)) ?root v" using en(6) u(7) F(9) by simp
    then show ?thesis using False trans_same [OF st en(4)] by simp
  qed
  moreover have "amap_lookup ?s4 = amap_lookup s2" by (rule amap_lookup_cong) (simp_all add: s3_def)
  moreover have "vs_anons s a = None" using own F(11) by (auto simp: owned_def)
  moreover have "d \<noteq> pg \<and> page_words ph4 d = page_words (vs_phys s) d" if "data_page (vs_phys s) ?root d" for d
    using keeps_dataD(2) [OF kd(1) that] that F(6) by auto
  ultimately have "faulted_in pm vaddr amap page a pg s ?s4"
    using s2(4) lk1 en(4) e2 by (simp add: faulted_in_def s3_def)
  moreover have "page_words ph4 pg = w" using keeps_dataD(2) [OF kd(2) F(5)] F(8) by simp
  moreover have "amaps_ok (L k4) ?s4"
  proof -
    have "amaps_ok (insert a (L (vs_heap s))) ?s4" using amaps_ok_cong [of ?s4 s2] s2(3) by (simp add: s3_def)
    moreover have "owned ?s4 \<subseteq> insert a (owned s)"
    proof -
      have "dom (vs_chunks s2) = dom (vs_chunks s)"
        using s2(1) by (auto simp: set_slot_def s1 split: Option.bind_splits if_splits)
      moreover have "arrays ?s4 = arrays s" unfolding arrays_def s3_def by (subst s2(2)) (simp add: s1)
      ultimately show ?thesis by (auto simp: owned_def s3_def e2)
    qed
    ultimately show ?thesis using amaps_ok_mono [of _ ?s4 "L k4"] u(3) en(3) by blast
  qed
  ultimately show ?thesis using s2(1) u(1) run en(2) e2(3) by (intro exI [of _ s2] exI [of _ s3] exI [of _ ?s4]) (simp add: s3_def)
qed

subsection \<open>Zero fill\<close>

lemma free_page_split:
  assumes "4 \<le> length (page_list ph q)"
  obtains pg rest where "page_list ph q = pg # rest" "3 \<le> length rest"
  using assms by (cases "page_list ph q") auto

text \<open>(C16) A fault on a page that the anonymous object does not hold yet succeeds: a new
  page of zeroes is put into that slot of the anonymous map, growing its array of chunks where
  needed, and mapped at the faulting address; every other slot, translation and data page is
  unchanged.\<close>

theorem fault_zero_fill:
  assumes law: "heap_law (ve_heap e) I L" "I (c + 4) (vs_heap s)" and ok: "amaps_ok (L (vs_heap s)) s"
    and ob: "vs_objs s aobj = Some ob" "vs_amaps s (ob_amap ob) = Some am" "ob_parent ob = 0"
    and absent: "amap_lookup s (ob_amap ob) (voff div PGSIZE) = 0"
    and st: "pt_state (vs_phys s) (pml4 (pmap_of s r))" and free: "4 \<le> length (page_list (vs_phys s) vm_pgfreeq)"
  shows "\<exists>s' a pg. fault_aobj e r aobj vaddr voff flags s = Some (0, s') \<and> I c (vs_heap s') \<and> amaps_ok (L (vs_heap s')) s' \<and>
    faulted_in (pmap_of s r) vaddr (ob_amap ob) (voff div PGSIZE) a pg s s' \<and> page_words (vs_phys s') pg = (\<lambda>_. 0) \<and>
    vs_anons s' = (vs_anons s)(a \<mapsto> \<lparr>an_refcnt = 1, an_resident = True, an_physpage = pg\<rparr>)"
proof -
  let ?pm = "pmap_of s r" and ?page = "voff div PGSIZE"
  obtain slot s1 where at: "amap_anon_at e (ob_amap ob) ?page s = Some (slot, s1)" and sl: "slot_at s1 (ob_amap ob) ?page slot"
    and ok1: "amaps_ok (L (vs_heap s1)) s1" and I1: "I (Suc (Suc c)) (vs_heap s1)" and lk: "\<forall>m p. amap_lookup s1 m p = amap_lookup s m p"
    and s1: "s1 = s\<lparr>vs_heap := vs_heap s1, vs_amaps := vs_amaps s1, vs_chunks := vs_chunks s1\<rparr>"
  proof -
    have "I (Suc (Suc (Suc (Suc c)))) (vs_heap s)" using law(2) by (simp add: numeral_eq_Suc)
    from amap_anon_at_ok [OF law(1) this ok ob(2), of ?page] show ?thesis using that by blast
  qed
  have e1: "vs_phys s1 = vs_phys s" "vs_anons s1 = vs_anons s" "vs_objs s1 = vs_objs s" "vs_maps s1 = vs_maps s" by (subst s1, simp)+
  have pm1: "pmap_of s1 r = ?pm" by (simp add: pmap_of_def e1)
  obtain ch where ch: "vs_chunks s1 (fst slot) = Some ch" "ch ! snd slot = 0" using sl lk absent by (auto simp: slot_at_def)
  obtain pg rest where f: "page_list (vs_phys s1) vm_pgfreeq = pg # rest" "3 \<le> length rest"
    by (rule free_page_split) (use free e1(1) in simp_all)
  have st1: "pt_state (vs_phys s1) (pml4 ?pm)" using st e1(1) by simp
  obtain a s2 where nw: "anon_new e s1 = Some (a, s2)" "fresh_anon (I (Suc c)) L (pml4 ?pm) s1 pg (\<lambda>_. 0) a s2"
    using anon_new_ok [OF law(1) I1 st1 f(1)] by blast
  have "\<exists>ph k. Some s3 = Some (s3\<lparr>vs_phys := ph, vs_heap := k\<rparr>) \<and> I (Suc c) k \<and> owned s1 \<union> {a} \<subseteq> L k \<and> pt_state ph (pml4 ?pm) \<and>
      keeps_data (pml4 ?pm) (vs_phys s2) ph \<and> page_list ph = page_list (vs_phys s2) \<and>
      (\<forall>v. \<not> same_vpage v vaddr \<longrightarrow> pte_of (pmem ph) (pml4 ?pm) v = pte_of (pmem (vs_phys s2)) (pml4 ?pm) v)"
    if "vs_phys s3 = vs_phys s2" "vs_heap s3 = vs_heap s2" for s3
    using nw(2) ok1 that by (intro exI [of _ "vs_phys s2"] exI [of _ "vs_heap s2"]) (auto simp: fresh_anon_def keeps_data_def amaps_ok_def)
  from map_new_anon [OF law(1) nw(2) ok1 sl pm1 f st1, where un = Some, OF this]
  obtain s3 s4 where r: "set_slot slot a s2 = Some s3" "enter_anon e r ?pm a vaddr kVMAll s3 = Some (0, s4)"
    "faulted_in ?pm vaddr (ob_amap ob) ?page a pg s1 s4" "page_words (vs_phys s4) pg = (\<lambda>_. 0)" "I c (vs_heap s4)" "amaps_ok (L (vs_heap s4)) s4"
    "vs_anons s4 = (vs_anons s1)(a \<mapsto> \<lparr>an_refcnt = 1, an_resident = True, an_physpage = pg\<rparr>)" by auto
  have "fault_aobj e r aobj vaddr voff flags s = Some (0, s4)"
    using ob at ch nw(1) r(1,2) by (simp add: fault_aobj_def Let_def)
  moreover have "faulted_in ?pm vaddr (ob_amap ob) ?page a pg s s4" using r(3) lk e1 by (simp add: faulted_in_def)
  ultimately show ?thesis using r e1(2) by auto
qed

subsection \<open>Copy on write\<close>

text \<open>The mapping that a fault on a present page has to remove.\<close>

definition mapped_at :: "('k \<Rightarrow> u64 set) \<Rightarrow> 'k vms \<Rightarrow> map_ref \<Rightarrow> page_ref \<Rightarrow> u64 \<Rightarrow> bool" where
  "mapped_at L s r pg vaddr \<longleftrightarrow> pte_of (pmem (vs_phys s)) (pml4 (pmap_of s r)) vaddr \<noteq> 0 \<and>
     (\<exists>pv. find (\<lambda>pv. pv_map pv = r \<and> pv_vaddr pv = vaddr) (pv_table (page_of (vs_phys s) pg)) = Some pv \<and>
       pv_addr pv \<in> L (vs_heap s) - owned s)"

text \<open>(C15) A write fault on a page that several anonymous maps share succeeds: the faulting
  map gets a new anonymous page with a reference count of one whose contents equal the shared
  page, the shared page keeps its contents and loses one reference, the virtual page translates to
  the new page, every other translation, every other slot of every anonymous map and the contents
  of every other data page are unchanged.\<close>

theorem fault_copy_on_write:
  assumes law: "heap_law (ve_heap e) I L" "I (c + 2) (vs_heap s)" and ok: "amaps_ok (L (vs_heap s)) s"
    and ob: "vs_objs s aobj = Some ob" "vs_amaps s (ob_amap ob) = Some am"
    and old: "amap_lookup s (ob_amap ob) (voff div PGSIZE) = b" "b \<noteq> 0" "vs_anons s b = Some an" "an_resident an" "1 < sint (an_refcnt an)"
    and wr: "flags AND kVMFaultWrite \<noteq> 0" and pres: "flags AND kVMFaultPresent \<noteq> 0 \<longrightarrow> mapped_at L s r (an_physpage an) vaddr"
    and st: "pt_state (vs_phys s) (pml4 (pmap_of s r))" "data_page (vs_phys s) (pml4 (pmap_of s r)) (an_physpage an)"
    and free: "4 \<le> length (page_list (vs_phys s) vm_pgfreeq)"
  shows "\<exists>s' a pg. fault_aobj e r aobj vaddr voff flags s = Some (0, s') \<and> I c (vs_heap s') \<and> amaps_ok (L (vs_heap s')) s' \<and>
    faulted_in (pmap_of s r) vaddr (ob_amap ob) (voff div PGSIZE) a pg s s' \<and>
    page_words (vs_phys s') pg = page_words (vs_phys s) (an_physpage an) \<and>
    page_words (vs_phys s') (an_physpage an) = page_words (vs_phys s) (an_physpage an) \<and>
    vs_anons s' = (vs_anons s)(b \<mapsto> an\<lparr>an_refcnt := an_refcnt an - 1\<rparr>, a \<mapsto> \<lparr>an_refcnt = 1, an_resident = True, an_physpage = pg\<rparr>)"
proof -
  let ?pm = "pmap_of s r" and ?page = "voff div PGSIZE" and ?op = "an_physpage an" and ?an = "an\<lparr>an_refcnt := an_refcnt an - 1\<rparr>"
  let ?root = "pml4 ?pm"
  have ci: "unat (?page div 32) < length (am_slots am)" "am_slots am ! unat (?page div 32) \<noteq> 0"
    using old(1,2) ob(2) by (auto simp: amap_lookup_def Let_def split: if_splits)
  obtain slot where at: "amap_anon_at e (ob_amap ob) ?page s = Some (slot, s)" and sl: "slot_at s (ob_amap ob) ?page slot"
    using amap_anon_at_present [OF ok ob(2) ci] by blast
  obtain ch where ch: "vs_chunks s (fst slot) = Some ch" "ch ! snd slot = b" using sl old(1) by (auto simp: slot_at_def)
  define s1 where "s1 = s\<lparr>vs_anons := (vs_anons s)(b \<mapsto> ?an)\<rparr>"
  have e1: "vs_phys s1 = vs_phys s" "vs_heap s1 = vs_heap s" "vs_objs s1 = vs_objs s" "vs_maps s1 = vs_maps s" by (simp_all add: s1_def)
  have dm: "dom (vs_anons s1) = dom (vs_anons s)" using old(3) by (auto simp: s1_def)
  have ok1: "amaps_ok (L (vs_heap s1)) s1" using ok amaps_ok_cong [of s1 s] dm by (simp add: s1_def)
  have lk: "amap_lookup s1 = amap_lookup s" by (rule amap_lookup_cong) (simp_all add: s1_def)
  have sl1: "slot_at s1 (ob_amap ob) ?page slot" using sl unfolding slot_at_def lk by (simp add: s1_def)
  have own: "owned s1 = owned s" using dm by (simp add: owned_def arrays_def s1_def)
  have ownL: "owned s \<subseteq> L (vs_heap s)" using ok by (simp add: amaps_ok_def)
  have bL: "b \<in> L (vs_heap s1)" using ownL old(3) e1 by (auto simp: owned_def)
  have pm1: "pmap_of s1 r = ?pm" by (simp add: pmap_of_def e1)
  obtain pg rest where f: "page_list (vs_phys s1) vm_pgfreeq = pg # rest" "3 \<le> length rest"
    by (rule free_page_split) (use free e1(1) in simp_all)
  have st1: "pt_state (vs_phys s1) ?root" "data_page (vs_phys s1) ?root (an_physpage ?an)" "I (Suc (Suc c)) (vs_heap s1)" using st law e1 by simp_all
  have "vs_anons s1 b = Some ?an" by (simp add: s1_def)
  from anon_copy_ok [OF law(1) st1(3,1) f(1) this bL st1(2)] obtain a s2 where nw: "anon_copy e b s1 = Some (a, s2)"
    "fresh_anon (I (Suc c)) L ?root s1 pg (page_words (vs_phys s1) ?op) a s2" by auto
  have F: "I (Suc c) (vs_heap s2)" "L (vs_heap s2) = insert a (L (vs_heap s))" "pt_state (vs_phys s2) ?root"
    "\<forall>v. pte_of (pmem (vs_phys s2)) ?root v = pte_of (pmem (vs_phys s)) ?root v"
    "\<forall>p. pv_table (page_of (vs_phys s2) p) = pv_table (page_of (vs_phys s) p)" "a \<notin> L (vs_heap s)"
    using nw(2) e1 by (auto simp: fresh_anon_def)
  define un where "un = (\<lambda>s3. if flags AND kVMFaultPresent \<noteq> 0
    then vs_mmu (pmap_unenter (ve_heap e) r ?pm (Some ?op) vaddr None) s3 else Some s3)"
  have "\<exists>ph k. un s3 = Some (s3\<lparr>vs_phys := ph, vs_heap := k\<rparr>) \<and> I (Suc c) k \<and> owned s1 \<union> {a} \<subseteq> L k \<and> pt_state ph ?root \<and>
      keeps_data ?root (vs_phys s2) ph \<and> page_list ph = page_list (vs_phys s2) \<and>
      (\<forall>v. \<not> same_vpage v vaddr \<longrightarrow> pte_of (pmem ph) ?root v = pte_of (pmem (vs_phys s2)) ?root v)"
    if s3: "vs_phys s3 = vs_phys s2" "vs_heap s3 = vs_heap s2" for s3
  proof (cases "flags AND kVMFaultPresent = 0")
    case True
    then show ?thesis using F s3 own ownL by (intro exI [of _ "vs_phys s2"] exI [of _ "vs_heap s2"]) (auto simp: un_def keeps_data_def)
  next
    case False
    then obtain pv where pv: "find (\<lambda>pv. pv_map pv = r \<and> pv_vaddr pv = vaddr) (pv_table (page_of (vs_phys s2) ?op)) = Some pv"
      "pv_addr pv \<in> L (vs_heap s)" "pv_addr pv \<notin> owned s" and pte: "pte_of (pmem (vs_phys s2)) ?root vaddr \<noteq> 0"
      using pres F by (auto simp: mapped_at_def)
    from pmap_unenter_data [OF law(1) F(1,3) pte pv(1)] F(2) pv(2)
    obtain ph k where "pmap_unenter (ve_heap e) r ?pm (Some ?op) vaddr None (vs_phys s2, vs_heap s2) = Some (ph, k)" "I (Suc c) k"
      "L (vs_heap s2) - {pv_addr pv} \<subseteq> L k" "pt_state ph ?root" "keeps_data ?root (vs_phys s2) ph" "page_list ph = page_list (vs_phys s2)"
      "\<forall>v. pte_of (pmem ph) ?root v = (if same_vpage v vaddr then 0 else pte_of (pmem (vs_phys s2)) ?root v)" by auto
    moreover have "a \<noteq> pv_addr pv" using pv(2) F(6) by blast
    ultimately show ?thesis using False s3 own ownL F(2) pv(3) by (intro exI [of _ ph] exI [of _ k]) (auto simp: un_def vs_mmu_def)
  qed
  from map_new_anon [OF law(1) nw(2) ok1 sl1 pm1 f st1(1), where un = un, OF this]
  obtain s3 s4 s5 where r: "set_slot slot a s2 = Some s3" "un s3 = Some s4" "enter_anon e r ?pm a vaddr kVMAll s4 = Some (0, s5)"
    "faulted_in ?pm vaddr (ob_amap ob) ?page a pg s1 s5" "page_words (vs_phys s5) pg = page_words (vs_phys s1) ?op" "I c (vs_heap s5)"
    "amaps_ok (L (vs_heap s5)) s5" "vs_anons s5 = (vs_anons s1)(a \<mapsto> \<lparr>an_refcnt = 1, an_resident = True, an_physpage = pg\<rparr>)" by auto
  have "fault_aobj e r aobj vaddr voff flags s = Some (0, s5)"
    using ob(1) at ch old wr nw(1) r(1,2,3) unfolding fault_aobj_def Let_def by (simp add: s1_def un_def)
  moreover have "vs_anons s a = None" using ownL F(6) by (auto simp: owned_def)
  then have "faulted_in ?pm vaddr (ob_amap ob) ?page a pg s s5" using r(4) lk e1 by (simp add: faulted_in_def)
  moreover from this have "page_words (vs_phys s5) ?op = page_words (vs_phys s) ?op" using st(2) by (simp add: faulted_in_def)
  ultimately show ?thesis using r e1(1) by (intro exI [of _ s5] exI [of _ a] exI [of _ pg]) (simp add: s1_def)
qed

subsection \<open>Witnesses\<close>

text \<open>A heap that hands out the addresses 1, 2, 3 and so on and keeps the set of those in use.\<close>

definition bump_heap :: "(nat \<times> u64 set) heap" where
  "bump_heap = \<lparr>h_alloc = (\<lambda>n (i, S). Some (of_nat (Suc i), Suc i, insert (of_nat (Suc i)) S)),
     h_free = (\<lambda>a n (i, S). Some (i, S - {a}))\<rparr>"

definition bump_ok :: "nat \<Rightarrow> nat \<times> u64 set \<Rightarrow> bool" where
  "bump_ok c k \<longleftrightarrow> fst k + c < 2 ^ 32 \<and> (\<forall>a \<in> snd k. unat a \<le> fst k)"

lemma bump_heap_law: "heap_law bump_heap bump_ok snd"
  unfolding heap_law_def
proof (intro conjI allI impI)
  fix c n and k :: "nat \<times> u64 set"
  assume ok: "bump_ok (Suc c) k"
  obtain i S where k: "k = (i, S)" by (cases k)
  have u: "unat (of_nat (Suc i) :: u64) = Suc i" using ok k by (intro unat_of_nat64) (simp add: bump_ok_def)
  from u have nz: "of_nat (Suc i) \<noteq> (0 :: u64)" by (metis nat.distinct(1) unat_0)
  have "of_nat (Suc i) \<notin> S"
  proof
    assume "of_nat (Suc i) \<in> S"
    with ok have "unat (of_nat (Suc i) :: u64) \<le> i" unfolding bump_ok_def k fst_conv snd_conv by blast
    then show False unfolding u by simp
  qed
  moreover have "bump_ok c (Suc i, insert (of_nat (Suc i)) S)" using ok k u nz by (auto simp: bump_ok_def simp del: of_nat_Suc intro: le_SucI)
  ultimately show "\<exists>a k'. h_alloc bump_heap n k = Some (a, k') \<and> a \<noteq> 0 \<and> a \<notin> snd k \<and> bump_ok c k' \<and> snd k' = insert a (snd k)"
    using nz by (simp add: bump_heap_def k del: of_nat_Suc)
next
  fix c a n and k :: "nat \<times> u64 set"
  assume "bump_ok c k" "a \<in> snd k"
  then show "\<exists>k'. h_free bump_heap a n k = Some k' \<and> bump_ok c k' \<and> snd k' = snd k - {a}"
    by (cases k) (auto simp: bump_heap_def bump_ok_def)
qed (auto simp: bump_ok_def)

lemma aligned_frames_disjoint:
  assumes "page_aligned p" "page_aligned q" "p \<noteq> q"
  shows "{a. a - p < PGSIZE} \<inter> {a. a - q < PGSIZE} = {}"
proof -
  have "unat a div 4096 = unat x div 4096" if x: "page_aligned x" "a - x < PGSIZE" for a x :: u64
  proof -
    have d: "unat (a - x) < 4096" using x(2) by (simp add: PGSIZE_def word_less_nat_alt)
    obtain j where j: "unat x = 4096 * j" by (rule page_alignedE [OF x(1)])
    have "unat x < 2 ^ 64" using unat_bound64 [of x] by simp
    then have "unat (x + (a - x)) = unat x + unat (a - x)" using d j by (intro unat_add_nowrap) simp
    then show ?thesis using d j by simp
  qed
  then have "unat p = unat q" if "a - p < PGSIZE" "a - q < PGSIZE" for a
    using that assms(1,2) by (metis dvd_mult_div_cancel mod_0_imp_dvd page_aligned_def)
  then show ?thesis using assms(3) by (auto simp: word_unat_eq_iff)
qed

text \<open>Five free pages and one in use; one object with a page that two maps share.\<close>

definition fault_phys :: phys where
  "fault_phys = \<lparr>page_of = (\<lambda>p. \<lparr>pg_queue = kVMPageFree, pg_anon = None, pv_table = [], paddr = of_nat (0x100000 + 0x1000 * (snd p mod 16))\<rparr>),
     pgqueues = (\<lambda>q. \<lparr>pq_queue = (if q = vm_pgfreeq then [(0, 2), (0, 3), (0, 4), (0, 5), (0, 6)] else if q = vm_pgactiveq then [(0, 7)] else []),
       pq_npages = 0\<rparr>),
     vm_pregion_queue = [\<lparr>preg_base = 0x100000, preg_npages = 16\<rparr>], pmem = (\<lambda>a. if a = 0x107000 then 42 else 0)\<rparr>"

definition fault_state :: "(nat \<times> u64 set) vms" where
  "fault_state = \<lparr>vs_phys = fault_phys, vs_heap = (100, {10, 11, 12}), vs_pool = \<lparr>pool_segs = (\<lambda>_. zeroed_seg), free_segs = [], nfreesegs = 0\<rparr>,
     vs_maps = [2 \<mapsto> \<lparr>m_entries = [], m_vmem = blank_arena, m_pmap = \<lparr>pml4 = 0x10000\<rparr>\<rparr>],
     vs_objs = [20 \<mapsto> \<lparr>ob_refcnt = 1, ob_type = kVMObjAnon, ob_size = 0x4000, ob_amap = 21, ob_parent = 0\<rparr>],
     vs_amaps = [21 \<mapsto> \<lparr>am_chunks = 10, am_slots = [11], am_curnchunk = 1\<rparr>],
     vs_chunks = [11 \<mapsto> 12 # replicate 31 0], vs_anons = [12 \<mapsto> \<lparr>an_refcnt = 2, an_resident = True, an_physpage = (0, 7)\<rparr>],
     vs_in_pagefault = False\<rparr>"

definition fault_env :: "(nat \<times> u64 set) vm_env" where
  "fault_env = \<lparr>ve_heap = bump_heap, ve_vmem = \<lparr>env_kalloc = (\<lambda>_ _ _. None), env_alloc = (\<lambda>_ _ _ _. None), env_free = (\<lambda>_ _ _ _. None)\<rparr>\<rparr>"

lemma fault_lists:
  "page_list fault_phys q = (if q = vm_pgfreeq then [(0, 2), (0, 3), (0, 4), (0, 5), (0, 6)] else if q = vm_pgactiveq then [(0, 7)] else [])"
  by (simp add: page_list_def fault_phys_def)

lemma fault_queues: "on_queues fault_phys = {(0, 2), (0, 3), (0, 4), (0, 5), (0, 6), (0, 7)}" (is "_ = ?S")
proof
  have "set (page_list fault_phys q) \<subseteq> ?S" for q by (cases "q = vm_pgfreeq"; cases "q = vm_pgactiveq") (simp_all add: fault_lists)
  then show "on_queues fault_phys \<subseteq> ?S" unfolding on_queues_def by blast
  have "set (page_list fault_phys vm_pgfreeq) \<union> set (page_list fault_phys vm_pgactiveq) = ?S" by (auto simp: fault_lists)
  then show "?S \<subseteq> on_queues fault_phys" unfolding on_queues_def by blast
qed

lemma fault_paddr: "paddr (page_of fault_phys (0, n)) = of_nat (0x100000 + 0x1000 * (n mod 16))"
  by (simp add: fault_phys_def)

lemma fault_pages_ok: "pages_ok fault_phys"
  unfolding pages_ok_def
proof (intro conjI allI impI ballI)
  fix p p' assume "p \<in> on_queues fault_phys" "p' \<in> on_queues fault_phys" "p \<noteq> p'"
  then have "page_aligned (paddr (page_of fault_phys p))" "page_aligned (paddr (page_of fault_phys p'))"
    "paddr (page_of fault_phys p) \<noteq> paddr (page_of fault_phys p')"
    unfolding fault_queues by (auto simp: fault_paddr page_aligned_def)
  then show "frame fault_phys p \<inter> frame fault_phys p' = {}" unfolding frame_def by (rule aligned_frames_disjoint)
qed (auto simp: fault_lists split: if_splits)

lemma fault_walk: "walk (pmem fault_phys) 0x10000 p = (if p = [] then Some 0x10000 else None)"
  by (cases p) (simp_all add: fault_phys_def kMMUPresent_def)

lemma fault_pt_state: "pt_state fault_phys 0x10000"
  unfolding pt_state_def fault_lists
  using fault_pages_ok
  by (auto simp: pt_ok_def fault_walk page_aligned_def new_table_def kMMUFrame_def fault_paddr)

lemma fault_data: "data_page fault_phys 0x10000 (0, 7)"
  unfolding data_page_def fault_queues fault_lists by (simp add: fault_walk fault_paddr page_aligned_def)

lemma fault_amaps_ok: "amaps_ok {10, 11, 12} fault_state"
  by (rule amaps_okI)
    (auto simp: fault_state_def amap_ok_def arrays_def owned_def split: if_splits)

lemma fault_heap_ok: "bump_ok (c + 4) (vs_heap fault_state)" if "c < 1000"
  using that by (simp add: fault_state_def bump_ok_def)

lemma fault_fields:
  "vs_phys fault_state = fault_phys" "pml4 (pmap_of fault_state 2) = 0x10000" "snd (vs_heap fault_state) = {10, 11, 12}"
  "vs_objs fault_state 20 = Some \<lparr>ob_refcnt = 1, ob_type = kVMObjAnon, ob_size = 0x4000, ob_amap = 21, ob_parent = 0\<rparr>"
  "vs_amaps fault_state 21 = Some \<lparr>am_chunks = 10, am_slots = [11], am_curnchunk = 1\<rparr>"
  "vs_anons fault_state 12 = Some \<lparr>an_refcnt = 2, an_resident = True, an_physpage = (0, 7)\<rparr>"
  "amap_lookup fault_state 21 0 = 12" "amap_lookup fault_state 21 1 = 0"
  by (simp_all add: fault_state_def pmap_of_def amap_lookup_def)

theorem fault_zero_fill_witness:
  "\<exists>s' a pg. fault_aobj fault_env 2 20 0x401000 0x1000 0 fault_state = Some (0, s') \<and>
     amap_lookup s' 21 1 = a \<and> page_words (vs_phys s') pg = (\<lambda>_. 0) \<and>
     pmap_trans (pmap_of fault_state 2) 0x401000 (vs_phys s') = Some (paddr (page_of (vs_phys s') pg))"
proof -
  have law: "heap_law (ve_heap fault_env) bump_ok snd" using bump_heap_law by (simp add: fault_env_def)
  have "\<exists>s' a pg. fault_aobj fault_env 2 20 0x401000 0x1000 0 fault_state = Some (0, s') \<and> bump_ok 0 (vs_heap s') \<and> amaps_ok (snd (vs_heap s')) s' \<and>
    faulted_in (pmap_of fault_state 2) 0x401000 21 1 a pg fault_state s' \<and> page_words (vs_phys s') pg = (\<lambda>_. 0) \<and>
    vs_anons s' = (vs_anons fault_state)(a \<mapsto> \<lparr>an_refcnt = 1, an_resident = True, an_physpage = pg\<rparr>)"
    using fault_zero_fill [OF law fault_heap_ok _ fault_fields(4), of 0 _ "0x1000" 2 "0x401000" 0]
    by (simp add: fault_fields fault_amaps_ok fault_pt_state fault_lists PGSIZE_def)
  then show ?thesis by (fastforce simp: faulted_in_def same_vpage_def)
qed

theorem fault_copy_on_write_witness:
  "\<exists>s' a pg. fault_aobj fault_env 2 20 0x400000 0 kVMFaultWrite fault_state = Some (0, s') \<and>
     amap_lookup s' 21 0 = a \<and> a \<noteq> 12 \<and> page_words (vs_phys s') pg 0 = 42 \<and> page_words (vs_phys s') (0, 7) 0 = 42"
proof -
  have law: "heap_law (ve_heap fault_env) bump_ok snd" using bump_heap_law by (simp add: fault_env_def)
  have w: "page_words fault_phys (0, 7) 0 = 42" by (simp add: page_words_def fault_phys_def PGSIZE_def)
  have "bump_ok (0 + 2) (vs_heap fault_state)" by (simp add: fault_state_def bump_ok_def)
  from fault_copy_on_write [OF law this _ fault_fields(4), where an = "\<lparr>an_refcnt = 2, an_resident = True, an_physpage = (0, 7)\<rparr>"
      and voff = 0 and b = 12 and flags = kVMFaultWrite and r = 2 and vaddr = "0x400000"]
  have "\<exists>s' a pg. fault_aobj fault_env 2 20 0x400000 0 kVMFaultWrite fault_state = Some (0, s') \<and> bump_ok 0 (vs_heap s') \<and> amaps_ok (snd (vs_heap s')) s' \<and>
    faulted_in (pmap_of fault_state 2) 0x400000 21 0 a pg fault_state s' \<and>
    page_words (vs_phys s') pg = page_words fault_phys (0, 7) \<and> page_words (vs_phys s') (0, 7) = page_words fault_phys (0, 7) \<and>
    vs_anons s' = (vs_anons fault_state)(12 \<mapsto> \<lparr>an_refcnt = 1, an_resident = True, an_physpage = (0, 7)\<rparr>, a \<mapsto> \<lparr>an_refcnt = 1, an_resident = True, an_physpage = pg\<rparr>)"
    by (simp add: fault_fields fault_amaps_ok fault_pt_state fault_data fault_lists PGSIZE_def kVMFaultWrite_def kVMFaultPresent_def)
  then obtain s' a pg where r: "fault_aobj fault_env 2 20 0x400000 0 kVMFaultWrite fault_state = Some (0, s')"
    "faulted_in (pmap_of fault_state 2) 0x400000 21 0 a pg fault_state s'"
    "page_words (vs_phys s') pg = page_words fault_phys (0, 7)" "page_words (vs_phys s') (0, 7) = page_words fault_phys (0, 7)" by blast
  have "amap_lookup s' 21 0 = a" "vs_anons fault_state a = None" using r(2) unfolding faulted_in_def by simp_all
  then show ?thesis using r(1,3,4) w fault_fields(6) by (intro exI [of _ s'] exI [of _ a] exI [of _ pg]) auto
qed

end
