(* ===== verification/VmKernel_Spec.thy ===== *)
theory VmKernel_Spec
  imports VmKernel Vmem_Spec Vm_Fault
begin

text \<open>
  What an import of wired memory does, \<^verbatim>\<open>internal_allocwired\<close>: it takes a range of kernel
  addresses out of the arena of \<^verbatim>\<open>kmap\<close> and maps every page of it to a zeroed page of its own.
  The arena part is \<open>Vmem_Spec\<close>, the page tables are those of \<open>Pmap_Walk\<close>; what is new here is
  the loop over the pages.
\<close>

subsection \<open>Virtual pages\<close>

text \<open>Two addresses with the same four table indices agree in the bits 12 to 47.\<close>

lemma bit_slice: "(drop_bit k v AND 0x1FF) = (drop_bit k w AND (0x1FF :: u64)) \<Longrightarrow> n < 9 \<Longrightarrow> bit v (k + n) = bit w (k + n)"
proof -
  assume e: "drop_bit k v AND 0x1FF = drop_bit k w AND (0x1FF :: u64)" and n: "n < 9"
  have m: "(0x1FF :: u64) = mask 9" by (simp add: mask_eq_exp_minus_1)
  from e have "bit (drop_bit k v AND 0x1FF) n = bit (drop_bit k w AND 0x1FF) n" by simp
  then show ?thesis using n by (simp add: m bit_simps)
qed

lemma same_vpage_bits:
  assumes "same_vpage v w" and "12 \<le> n" "n < 48"
  shows "bit v n = bit w n"
proof -
  have e: "drop_bit 39 v AND 0x1FF = drop_bit 39 w AND 0x1FF" "drop_bit 30 v AND 0x1FF = drop_bit 30 w AND 0x1FF"
    "drop_bit 21 v AND 0x1FF = drop_bit 21 w AND 0x1FF" "drop_bit 12 v AND 0x1FF = drop_bit 12 w AND 0x1FF"
    using assms(1) by (simp_all add: same_vpage_def vpath_def pml4i_def pdpti_def pdi_def pti_def)
  consider "n < 21" | "21 \<le> n" "n < 30" | "30 \<le> n" "n < 39" | "39 \<le> n" by linarith
  then show ?thesis
  proof cases
    case 1 then show ?thesis using bit_slice [OF e(4), of "n - 12"] assms(2) by simp
  next
    case 2 then show ?thesis using bit_slice [OF e(3), of "n - 21"] by simp
  next
    case 3 then show ?thesis using bit_slice [OF e(2), of "n - 30"] by simp
  next
    case 4 then show ?thesis using bit_slice [OF e(1), of "n - 39"] assms(3) by simp
  qed
qed

lemma same_vpage_page:
  assumes "same_vpage v w"
  shows "(unat v div 4096) mod 2 ^ 36 = (unat w div 4096) mod 2 ^ 36"
proof -
  have "take_bit 36 (drop_bit 12 v) = take_bit 36 (drop_bit 12 w)"
    by (rule bit_eqI) (use same_vpage_bits [OF assms] in \<open>auto simp: bit_simps\<close>)
  then have "unat (take_bit 36 (drop_bit 12 v)) = unat (take_bit 36 (drop_bit 12 w))" by simp
  then show ?thesis by (simp add: take_bit_eq_mod drop_bit_eq_div unat_mod unat_div)
qed

text \<open>The pages of a range are different virtual pages.\<close>

lemma mod_shift_inj:
  fixes i j m x :: nat
  assumes "(x + i) mod m = (x + j) mod m" and "i < m" "j < m"
  shows "i = j"
proof -
  have "b = a" if "a \<le> b" "b < m" "(x + a) mod m = (x + b) mod m" for a b
  proof -
    have "m dvd (x + b) - (x + a)" using that mod_eq_dvd_iff_nat [of "x + a" "x + b" m] by simp
    then have "m dvd b - a" by simp
    with that show ?thesis by (metis diff_is_0_eq dvd_imp_le le_antisym less_imp_diff_less linorder_not_less neq0_conv)
  qed
  then show ?thesis using assms by (metis nat_le_linear)
qed

lemma pages_apart:
  assumes "unat a + 4096 * n < W64" and "n < 2 ^ 36" and "i < n" "j < n" and "same_vpage (a + of_nat (4096 * i)) (a + of_nat (4096 * j))"
  shows "i = j"
proof -
  have u: "unat (a + of_nat (4096 * k)) div 4096 = unat a div 4096 + k" if "k < n" for k
  proof -
    have "4096 * k < 4096 * n" using that by simp
    then have "unat (a + of_nat (4096 * k)) = unat a + 4096 * k"
      using assms(1) unat_add_nowrap [of a "of_nat (4096 * k)"] unat_of_nat64 [of "4096 * k"] by (simp del: of_nat_mult)
    then show ?thesis by simp
  qed
  have "(unat a div 4096 + i) mod 2 ^ 36 = (unat a div 4096 + j) mod 2 ^ 36"
    using same_vpage_page [OF assms(5)] u assms(3,4) by simp
  moreover have "i < 2 ^ 36" "j < 2 ^ 36" using assms(2-4) by simp_all
  ultimately show ?thesis by (rule mod_shift_inj)
qed

subsection \<open>Wiring the pages\<close>

text \<open>Entering a mapping takes at most three pages from the front of the free queue.\<close>

lemma descend_free:
  assumes "pages_ok ph" and "pmap_descend t i True kMMUDefaultProt ph = Some (t', ph')"
  shows "\<exists>ps. page_list ph vm_pgfreeq = ps @ page_list ph' vm_pgfreeq \<and> length ps \<le> 1"
proof (cases "present (pmem ph (entry_at t i))")
  case True
  then have "ph' = ph" using assms(2) by (auto simp: pmap_descend_def Let_def)
  then show ?thesis by (intro exI [of _ "[]"]) simp
next
  case False
  from descend_new [OF assms(1) False assms(2)] obtain page rest
    where "page_list ph vm_pgfreeq = page # rest" "page_list ph' vm_pgfreeq = rest" by auto
  then show ?thesis by (intro exI [of _ "[page]"]) simp
qed

lemma enter_kern_free:
  assumes st: "pt_state ph (pml4 pm)" and e: "pmap_enter_kern pm pa virt prot ph = Some ph'"
  shows "\<exists>ps. page_list ph vm_pgfreeq = ps @ page_list ph' vm_pgfreeq \<and> length ps \<le> 3"
proof -
  let ?r = "pml4 pm"
  obtain t1 ph1 t2 ph2 t3 ph3 where d1: "pmap_descend ?r (pml4i virt) True kMMUDefaultProt ph = Some (t1, ph1)"
    and d2: "pmap_descend t1 (pdpti virt) True kMMUDefaultProt ph1 = Some (t2, ph2)"
    and d3: "pmap_descend t2 (pdi virt) True kMMUDefaultProt ph2 = Some (t3, ph3)"
    and ph': "ph' = pte_set (entry_at t3 (pti virt)) pa (vm_prot_to_i386 prot) ph3"
    using e by (auto simp: pmap_enter_kern_def split: Option.bind_splits)
  have pk: "path_ok ([] @ [pml4i virt])" "path_ok ([pml4i virt] @ [pdpti virt])"
    using vpath_ok(1) [of virt] by (auto simp: path_ok_def vpath_def)
  note s1 = descend_step [OF st pk(1) _ d1, simplified]
  note s2 = descend_step [OF s1(1) pk(2) _ d2, simplified, OF s1(2)]
  have po: "pages_ok ph" "pages_ok ph1" "pages_ok ph2" using st s1(1) s2(1) by (simp_all add: pt_state_def)
  from descend_free [OF po(1) d1] descend_free [OF po(2) d2] descend_free [OF po(3) d3]
  obtain ps1 ps2 ps3 where "page_list ph vm_pgfreeq = (ps1 @ ps2 @ ps3) @ page_list ph3 vm_pgfreeq"
    "length (ps1 @ ps2 @ ps3) \<le> 3" by auto
  moreover have "page_list ph' = page_list ph3" using ph' by (simp add: pte_set_def Let_def)
  ultimately show ?thesis by metis
qed

text \<open>One page: the first free page is zeroed, mapped and no longer free; data pages and all other
  virtual pages keep what they have.\<close>

definition wired :: "kst \<Rightarrow> u64 \<Rightarrow> page_ref \<Rightarrow> kst \<Rightarrow> bool" where
  "wired k v pg k' \<longleftrightarrow> k' = k\<lparr>k_phys := k_phys k'\<rparr> \<and> pt_state (k_phys k') (pml4 (k_kpmap k)) \<and>
     page_of (k_phys k') = page_of (k_phys k) \<and>
     (\<exists>ps. page_list (k_phys k) vm_pgfreeq = pg # ps @ page_list (k_phys k') vm_pgfreeq \<and> length ps \<le> 3) \<and>
     data_page (k_phys k') (pml4 (k_kpmap k)) pg \<and> (\<forall>a \<in> frame (k_phys k) pg. pmem (k_phys k') a = 0) \<and>
     (\<forall>d. data_page (k_phys k) (pml4 (k_kpmap k)) d \<longrightarrow> d \<noteq> pg \<and>
        data_page (k_phys k') (pml4 (k_kpmap k)) d \<and> (\<forall>a \<in> frame (k_phys k) d. pmem (k_phys k') a = pmem (k_phys k) a)) \<and>
     (\<forall>w. pmap_trans (k_kpmap k) w (k_phys k') =
        (if same_vpage w v then Some ((paddr (page_of (k_phys k) pg) AND kMMUFrame) + 8 * (w AND 0xFFF))
         else pmap_trans (k_kpmap k) w (k_phys k)))"

lemma pagealloc_sleep: "vm_pagealloc b q ph = vm_pagealloc True q ph"
  by (simp add: vm_pagealloc_def)

lemma wire_page_ok:
  assumes st: "pt_state (k_phys k) (pml4 (k_kpmap k))" and n: "4 \<le> length (page_list (k_phys k) vm_pgfreeq)"
  shows "\<exists>pg k'. wire_page addr flags i k = Some k' \<and> wired k (addr + i) pg k'"
proof -
  let ?ph = "k_phys k" and ?pm = "k_kpmap k" and ?r = "pml4 (k_kpmap k)"
  obtain pg rest where f: "page_list ?ph vm_pgfreeq = pg # rest" using n by (cases "page_list ?ph vm_pgfreeq") auto
  from pagealloc_data [OF st _ f, of vm_pgkmemq] obtain ph1 where al: "vm_pagealloc True vm_pgkmemq ?ph = Some (pg, ph1)"
    and a1: "pt_state ph1 ?r" "data_page ph1 ?r pg" "page_of ph1 = page_of ?ph" "page_list ph1 vm_pgfreeq = rest"
    "\<forall>a \<in> frame ?ph pg. pmem ph1 a = 0"
    "\<forall>d. data_page ?ph ?r d \<longrightarrow> d \<noteq> pg \<and> data_page ph1 ?r d \<and> (\<forall>a \<in> frame ?ph d. pmem ph1 a = pmem ?ph a)"
    "\<forall>v. pte_of (pmem ph1) ?r v = pte_of (pmem ?ph) ?r v" by auto
  let ?pa = "paddr (page_of ?ph pg)"
  obtain ph2 where e: "pmap_enter_kern ?pm ?pa (addr + i) kVMAll ph1 = Some ph2"
    using enter_kern_returns [OF a1(1)] n f a1(4) by fastforce
  note s = enter_kern_step [OF a1(1) e] and D = enter_kern_data [OF a1(1) e]
  have fr: "frame ph1 d = frame ?ph d" for d using a1(3) by (simp add: frame_def)
  have ok: "pt_ok (pmem ?ph) ?r" "pt_ok (pmem ph2) ?r" using st s(1) by (simp_all add: pt_state_def)
  let ?k = "k\<lparr>k_phys := ph2\<rparr>"
  have rd: "kVMAll AND kVMRead \<noteq> 0" by (simp add: prot_defs)
  have "pmap_trans ?pm w ph2 = (if same_vpage w (addr + i) then Some ((?pa AND kMMUFrame) + 8 * (w AND 0xFFF))
      else pmap_trans ?pm w ?ph)" for w
    unfolding trans_walk [OF ok(1)] trans_walk [OF ok(2)] s(3) Let_def using a1(7) rd by (simp add: prot_present prot_addr)
  moreover have "\<exists>ps. rest = ps @ page_list ph2 vm_pgfreeq \<and> length ps \<le> 3"
    using enter_kern_free [OF a1(1) e] a1(4) by simp
  moreover have "data_page ph2 ?r pg \<and> (\<forall>a \<in> frame ?ph pg. pmem ph2 a = 0)"
    using D [OF a1(2)] a1(5) fr by simp
  moreover have "d \<noteq> pg \<and> data_page ph2 ?r d \<and> (\<forall>a \<in> frame ?ph d. pmem ph2 a = pmem ?ph a)" if "data_page ?ph ?r d" for d
    using a1(6) [rule_format, OF that] D [of d] fr by simp
  ultimately have "wired k (addr + i) pg ?k"
    using s(1,4) a1(3) f unfolding wired_def by (cases k) simp
  moreover have "wire_page addr flags i k = Some ?k"
    using al e a1(3) by (simp add: wire_page_def pagealloc_sleep [of "flags AND kVMemSleep \<noteq> 0"])
  ultimately show ?thesis by blast
qed

text \<open>All pages of a range, the \<open>j\<close>-th virtual page with the \<open>j\<close>-th page of a list.\<close>

definition wired_all :: "kst \<Rightarrow> u64 list \<Rightarrow> page_ref list \<Rightarrow> kst \<Rightarrow> bool" where
  "wired_all k vs pgs k' \<longleftrightarrow> k' = k\<lparr>k_phys := k_phys k'\<rparr> \<and> pt_state (k_phys k') (pml4 (k_kpmap k)) \<and>
     page_of (k_phys k') = page_of (k_phys k) \<and> length pgs = length vs \<and> distinct pgs \<and>
     set pgs \<subseteq> set (page_list (k_phys k) vm_pgfreeq) \<and> set pgs \<inter> set (page_list (k_phys k') vm_pgfreeq) = {} \<and>
     (\<forall>pg \<in> set pgs. data_page (k_phys k') (pml4 (k_kpmap k)) pg \<and> (\<forall>a \<in> frame (k_phys k) pg. pmem (k_phys k') a = 0)) \<and>
     (\<forall>d. data_page (k_phys k) (pml4 (k_kpmap k)) d \<longrightarrow> d \<notin> set pgs \<and>
        data_page (k_phys k') (pml4 (k_kpmap k)) d \<and> (\<forall>a \<in> frame (k_phys k) d. pmem (k_phys k') a = pmem (k_phys k) a)) \<and>
     (\<forall>w. (\<forall>j < length vs. same_vpage w (vs ! j) \<longrightarrow> pmap_trans (k_kpmap k) w (k_phys k') =
             Some ((paddr (page_of (k_phys k) (pgs ! j)) AND kMMUFrame) + 8 * (w AND 0xFFF))) \<and>
        ((\<forall>v \<in> set vs. \<not> same_vpage w v) \<longrightarrow> pmap_trans (k_kpmap k) w (k_phys k') = pmap_trans (k_kpmap k) w (k_phys k)))"

lemma wired_all_Nil: "pt_state (k_phys k) (pml4 (k_kpmap k)) \<Longrightarrow> wired_all k [] [] k"
  by (cases k) (simp add: wired_all_def)

lemma wired_kpmap: "wired k v pg k1 \<Longrightarrow> k_kpmap k1 = k_kpmap k"
  unfolding wired_def by (metis kst.select_convs(5) kst.simps(10) kst.surjective kst.update_convs(4))

lemma wired_all_Cons:
  assumes w: "wired k v pg k1" and a: "wired_all k1 vs pgs k'" and ap: "\<forall>u \<in> set vs. \<not> same_vpage v u"
  shows "wired_all k (v # vs) (pg # pgs) k'"
proof -
  note pm = wired_kpmap [OF w]
  let ?r = "pml4 (k_kpmap k)"
  from w obtain ps where fr: "page_list (k_phys k) vm_pgfreeq = pg # ps @ page_list (k_phys k1) vm_pgfreeq"
    unfolding wired_def by blast
  have w1: "k1 = k\<lparr>k_phys := k_phys k1\<rparr>" "page_of (k_phys k1) = page_of (k_phys k)" "data_page (k_phys k1) ?r pg"
    "\<forall>a \<in> frame (k_phys k) pg. pmem (k_phys k1) a = 0" using w unfolding wired_def by blast+
  have wd: "d \<noteq> pg" "data_page (k_phys k1) ?r d" "\<forall>a \<in> frame (k_phys k) d. pmem (k_phys k1) a = pmem (k_phys k) a"
    if "data_page (k_phys k) ?r d" for d using w that unfolding wired_def by blast+
  have wt: "pmap_trans (k_kpmap k) x (k_phys k1) = (if same_vpage x v
      then Some ((paddr (page_of (k_phys k) pg) AND kMMUFrame) + 8 * (x AND 0xFFF)) else pmap_trans (k_kpmap k) x (k_phys k))" for x
    using w unfolding wired_def by blast
  have f: "frame (k_phys k1) d = frame (k_phys k) d" for d using w1(2) by (simp add: frame_def)
  have a1: "k' = k1\<lparr>k_phys := k_phys k'\<rparr>" "pt_state (k_phys k') ?r" "page_of (k_phys k') = page_of (k_phys k1)"
    "length pgs = length vs" "distinct pgs" "set pgs \<subseteq> set (page_list (k_phys k1) vm_pgfreeq)"
    "set pgs \<inter> set (page_list (k_phys k') vm_pgfreeq) = {}"
    "\<forall>p \<in> set pgs. data_page (k_phys k') ?r p \<and> (\<forall>a \<in> frame (k_phys k1) p. pmem (k_phys k') a = 0)"
    using a unfolding wired_all_def pm by blast+
  have ad: "d \<notin> set pgs" "data_page (k_phys k') ?r d" "\<forall>a \<in> frame (k_phys k1) d. pmem (k_phys k') a = pmem (k_phys k1) a"
    if "data_page (k_phys k1) ?r d" for d using a that unfolding wired_all_def pm by blast+
  have at: "j < length vs \<Longrightarrow> same_vpage x (vs ! j) \<Longrightarrow> pmap_trans (k_kpmap k) x (k_phys k') =
        Some ((paddr (page_of (k_phys k1) (pgs ! j)) AND kMMUFrame) + 8 * (x AND 0xFFF))"
    and ae: "\<forall>u \<in> set vs. \<not> same_vpage x u \<Longrightarrow> pmap_trans (k_kpmap k) x (k_phys k') = pmap_trans (k_kpmap k) x (k_phys k1)"
    for x j using a unfolding wired_all_def pm by blast+
  have sv: "\<not> same_vpage x u" if "same_vpage x v" "u \<in> set vs" for x u
    using ap that by (auto simp: same_vpage_def)
  show ?thesis
    unfolding wired_all_def
  proof (intro conjI ballI allI impI)
    show "k' = k\<lparr>k_phys := k_phys k'\<rparr>" using a1(1) w1(1) by (cases k; cases k1; cases k') simp
    show "distinct (pg # pgs)" using a1(5) ad(1) [OF w1(3)] by simp
    show "set (pg # pgs) \<subseteq> set (page_list (k_phys k) vm_pgfreeq)" using a1(6) fr by auto
    have "pg \<notin> set (page_list (k_phys k') vm_pgfreeq)" using ad(2) [OF w1(3)] by (simp add: data_page_def)
    then show "set (pg # pgs) \<inter> set (page_list (k_phys k') vm_pgfreeq) = {}" using a1(7) by simp
  next
    fix p assume "p \<in> set (pg # pgs)"
    then show "data_page (k_phys k') ?r p" using a1(8) ad(2) [OF w1(3)] by auto
  next
    fix p x assume "p \<in> set (pg # pgs)" and x: "x \<in> frame (k_phys k) p"
    then show "pmem (k_phys k') x = 0" using a1(8) ad(3) [OF w1(3)] w1(4) f by auto
  next
    fix d assume d: "data_page (k_phys k) ?r d"
    note d1 = wd(2) [OF d]
    show "d \<notin> set (pg # pgs)" using wd(1) [OF d] ad(1) [OF d1] by simp
    show "data_page (k_phys k') ?r d" by (rule ad(2) [OF d1])
    show "pmem (k_phys k') x = pmem (k_phys k) x" if "x \<in> frame (k_phys k) d" for x
      using wd(3) [OF d] ad(3) [OF d1] f that by simp
  next
    fix x j assume "j < length (v # vs)" and sx: "same_vpage x ((v # vs) ! j)"
    then show "pmap_trans (k_kpmap k) x (k_phys k') =
        Some ((paddr (page_of (k_phys k) ((pg # pgs) ! j)) AND kMMUFrame) + 8 * (x AND 0xFFF))"
      using at [of "j - 1" x] ae [of x] wt [of x] w1(2) sv [of x] by (cases j) auto
  next
    fix x assume "\<forall>u \<in> set (v # vs). \<not> same_vpage x u"
    then show "pmap_trans (k_kpmap k) x (k_phys k') = pmap_trans (k_kpmap k) x (k_phys k)"
      using ae [of x] wt [of x] by simp
  qed (use a1 w1 in simp_all)
qed

fun vpages_apart :: "u64 list \<Rightarrow> bool" where
  "vpages_apart [] \<longleftrightarrow> True"
| "vpages_apart (v # vs) \<longleftrightarrow> (\<forall>u \<in> set vs. \<not> same_vpage v u) \<and> vpages_apart vs"

lemma wire_pages_ok:
  assumes "pt_state (k_phys k) (pml4 (k_kpmap k))" and "4 * length offs \<le> length (page_list (k_phys k) vm_pgfreeq)"
    and "vpages_apart (map ((+) addr) offs)"
  shows "\<exists>pgs k'. iterM (wire_page addr flags) offs k = Some k' \<and> wired_all k (map ((+) addr) offs) pgs k'"
  using assms
proof (induction offs arbitrary: k)
  case Nil
  then show ?case using wired_all_Nil [of k] by (intro exI [of _ "[]"] exI [of _ k]) simp
next
  case (Cons o1 offs)
  have "4 \<le> length (page_list (k_phys k) vm_pgfreeq)" using Cons.prems(2) by simp
  from wire_page_ok [OF Cons.prems(1) this] obtain pg k1
    where run: "wire_page addr flags o1 k = Some k1" and w: "wired k (addr + o1) pg k1" by blast
  have "pt_state (k_phys k1) (pml4 (k_kpmap k1))"
    "length (page_list (k_phys k) vm_pgfreeq) \<le> 4 + length (page_list (k_phys k1) vm_pgfreeq)"
    using w wired_kpmap [OF w] unfolding wired_def by auto
  then obtain pgs k' where "iterM (wire_page addr flags) offs k1 = Some k'" "wired_all k1 (map ((+) addr) offs) pgs k'"
    using Cons.IH [of k1] Cons.prems(2,3) by auto
  with run wired_all_Cons [OF w this(2)] Cons.prems(3) show ?case by auto
qed

subsection \<open>The import\<close>

lemma vpages_apart_map:
  "(\<And>i j. i \<in> set is \<Longrightarrow> j \<in> set is \<Longrightarrow> same_vpage (f i) (f j) \<Longrightarrow> i = j) \<Longrightarrow> distinct is \<Longrightarrow> vpages_apart (map f is)"
proof (induction "is")
  case (Cons i "is")
  then have "vpages_apart (map f is)" by (metis distinct.simps(2) list.set_intros(2))
  moreover have "\<not> same_vpage (f i) (f j)" if "j \<in> set is" for j
    using Cons.prems(1) [of i j] Cons.prems(2) that by auto
  ultimately show ?case by simp
qed simp

lemma free_space_end:
  assumes "wf_vmem v p" and "{a ..< a + n} \<subseteq> free_space v p" and "0 < n"
  shows "a + n < W64"
proof -
  have "a + n - 1 \<in> free_space v p" using assms(2,3) by (auto simp: subset_iff)
  then obtain i where i: "i \<in> set (segqueue v)" "a + n - 1 < seg_hi p i"
    by (auto simp: free_space_def frees_def)
  then show ?thesis using wf_vmem_seg_bound [OF assms(1) i(1)] assms(3) by linarith
qed

lemma page_offsets_pages:
  "0 < n \<Longrightarrow> n < 524288 \<Longrightarrow> page_offsets (4096 * n - 1) = Some (map (\<lambda>j. of_nat (4096 * j)) [0..<n])"
proof -
  assume n: "0 < n" "n < 524288"
  have "(4096 * n - 1 + 4095) div 4096 = n" using n(1) by (cases n) simp_all
  then show ?thesis using n(2) by (simp add: page_offsets_def)
qed

lemma kmap_put_simps [simp]:
  "k_phys (kmap_put st) = k_phys (ext st)" "k_kpmap (kmap_put st) = k_kpmap (ext st)"
  "k_kmap (kmap_put st) = arena st" "k_pool (kmap_put st) = pool st" "k_wired (kmap_put st) = k_wired (ext st)"
  by (simp_all add: kmap_put_def)

lemma kmap_vst_simps [simp]: "arena (kmap_vst k) = k_kmap k" "pool (kmap_vst k) = k_pool k" "ext (kmap_vst k) = k"
  by (simp_all add: kmap_vst_def)

lemma allocwired_run:
  assumes xa: "kmap_xalloc kal sz flags k = Some ((0, Some addr), k1)" and sz: "unat sz = 4096 * n" "0 < n" "n < 524288"
    and st: "pt_state (k_phys k1) (pml4 (k_kpmap k1))" "4 * n \<le> length (page_list (k_phys k1) vm_pgfreeq)"
    and a: "unat addr + 4096 * n < W64"
  shows "\<exists>pgs k'. internal_allocwired (kmap_xalloc kal) (Some Ref_kmap_vmem) sz flags k = Some ((0, addr), k') \<and>
    wired_all k1 (map (\<lambda>j. addr + of_nat (4096 * j)) [0..<n]) pgs k'"
proof -
  have "unat (sz - 1) = 4096 * n - 1" using sz(1,2) by (simp add: unat_sub_nowrap)
  then have o: "page_offsets (unat (sz - 1)) = Some (map (\<lambda>j. of_nat (4096 * j)) [0..<n])"
    using page_offsets_pages [OF sz(2,3)] by simp
  have m: "map ((+) addr) (map (\<lambda>j. of_nat (4096 * j)) [0..<n]) = map (\<lambda>j. addr + of_nat (4096 * j)) [0..<n]" by simp
  have "vpages_apart (map (\<lambda>j. addr + of_nat (4096 * j)) [0..<n])"
    using pages_apart [OF a] sz(3) by (intro vpages_apart_map) auto
  from wire_pages_ok [OF st(1), of "map (\<lambda>j. of_nat (4096 * j)) [0..<n]" addr flags, unfolded m, OF _ this] st(2)
  obtain pgs k' where "iterM (wire_page addr flags) (map (\<lambda>j. of_nat (4096 * j)) [0..<n]) k1 = Some k'"
    "wired_all k1 (map (\<lambda>j. addr + of_nat (4096 * j)) [0..<n]) pgs k'" by auto
  with xa o show ?thesis by (auto simp: internal_allocwired_def simp del: of_nat_mult)
qed

text \<open>(C11) internal_allocwired of 0 < n < 524288 pages, on a well-formed kernel arena with
  enough segment structures, an end below 2^64 and at least 4n free pages, returns an address
  range that was free in the arena and is now allocated, and maps its j-th virtual page to the
  j-th of n distinct pages taken from the free queue, each zeroed; every other virtual page
  translates as before, the contents of all pages in use that hold no table stay and the page
  tables stay well formed; when no free segment of the arena holds the range the kernel stops.\<close>

theorem internal_allocwired_correct:
  assumes "wf_vst (kmap_vst k)" and "v_allocfn (k_kmap k) = None" and "segs_needed flags \<le> length (free_segs (k_pool k))"
    and "no_wrap (k_kmap k) (k_pool k) sz 0" and "unat sz = 4096 * n" "0 < n" "n < 524288"
    and "pt_state (k_phys k) (pml4 (k_kpmap k))" "4 * n \<le> length (page_list (k_phys k) vm_pgfreeq)"
  shows "if \<exists>i \<in> frees (k_pool k) (set (segqueue (k_kmap k))). fits (k_pool k) sz 0 flags i
    then \<exists>addr pgs k'. internal_allocwired (kmap_xalloc kal) (Some Ref_kmap_vmem) sz flags k = Some ((0, addr), k') \<and>
      wf_vst (kmap_vst k') \<and> {unat addr ..< unat addr + 4096 * n} \<subseteq> free_space (k_kmap k) (k_pool k) \<and>
      alloc_ranges (k_kmap k') (k_pool k') = insert (unat addr, 4096 * n) (alloc_ranges (k_kmap k) (k_pool k)) \<and>
      k_wired k' = k_wired k \<and> k_kpmap k' = k_kpmap k \<and> pt_state (k_phys k') (pml4 (k_kpmap k)) \<and>
      length pgs = n \<and> distinct pgs \<and> set pgs \<subseteq> set (page_list (k_phys k) vm_pgfreeq) \<and>
      set pgs \<inter> set (page_list (k_phys k') vm_pgfreeq) = {} \<and>
      (\<forall>j < n. \<forall>a \<in> frame (k_phys k) (pgs ! j). pmem (k_phys k') a = 0) \<and>
      (\<forall>w. (\<forall>j < n. same_vpage w (addr + of_nat (4096 * j)) \<longrightarrow> pmap_trans (k_kpmap k) w (k_phys k') =
              Some ((paddr (page_of (k_phys k) (pgs ! j)) AND kMMUFrame) + 8 * (w AND 0xFFF))) \<and>
         ((\<forall>j < n. \<not> same_vpage w (addr + of_nat (4096 * j))) \<longrightarrow>
            pmap_trans (k_kpmap k) w (k_phys k') = pmap_trans (k_kpmap k) w (k_phys k))) \<and>
      (\<forall>d. data_page (k_phys k) (pml4 (k_kpmap k)) d \<longrightarrow>
         (\<forall>a \<in> frame (k_phys k) d. pmem (k_phys k') a = pmem (k_phys k) a))
    else internal_allocwired (kmap_xalloc kal) (Some Ref_kmap_vmem) sz flags k = None"
proof (cases "\<exists>i \<in> frees (k_pool k) (set (segqueue (k_kmap k))). fits (k_pool k) sz 0 flags i")
  case True
  have sz: "sz \<noteq> 0" using assms(5,6) by auto
  obtain addr st' where x: "vmem_xalloc (kmap_env kal) sz 0 0 0 0 0 flags (kmap_vst k) = Some ((0, Some addr), st')"
    and ok: "xalloc_ok sz 0 flags (kmap_vst k) addr st'"
    using vmem_xalloc_cases [of "kmap_vst k" flags sz 0 "kmap_env kal" 0] assms(1-4) sz True by auto
  let ?k1 = "kmap_put st'"
  have ext: "ext st' = k" and wf': "wf_vst st'" and fsp: "{unat addr ..< unat addr + 4096 * n} \<subseteq> free_space (k_kmap k) (k_pool k)"
    and al: "alloc_ranges (arena st') (pool st') = insert (unat addr, 4096 * n) (alloc_ranges (k_kmap k) (k_pool k))"
    using ok assms(5) by (simp_all add: xalloc_ok_def)
  have "unat addr + 4096 * n < W64" using free_space_end [OF _ fsp] assms(1,6) by simp
  moreover have "kmap_xalloc kal sz flags k = Some ((0, Some addr), ?k1)" using x by (simp add: kmap_xalloc_def)
  ultimately obtain pgs k' where run: "internal_allocwired (kmap_xalloc kal) (Some Ref_kmap_vmem) sz flags k = Some ((0, addr), k')"
    and w: "wired_all ?k1 (map (\<lambda>j. addr + of_nat (4096 * j)) [0..<n]) pgs k'"
    using allocwired_run [of kal sz flags k addr ?k1 n] assms(5-9) ext by auto
  have k': "k' = ?k1\<lparr>k_phys := k_phys k'\<rparr>" using w unfolding wired_all_def by blast
  have "k_kmap k' = arena st'" "k_pool k' = pool st'" "k_wired k' = k_wired k" "k_kpmap k' = k_kpmap k"
    by (subst k', simp add: ext)+
  moreover have "wf_vst (kmap_vst k')" using wf' calculation(1,2) by simp
  ultimately show ?thesis
    using True run fsp al w unfolding wired_all_def by (simp add: ext) (metis nth_mem)
next
  case False
  have sz: "sz \<noteq> 0" using assms(5,6) by auto
  have "vmem_xalloc (kmap_env kal) sz 0 0 0 0 0 flags (kmap_vst k) =
      Some ((- ERESOURCEEXHAUSTED, None), (kmap_vst k)\<lparr>pool := prealloc (pool (kmap_vst k))\<rparr>)"
    using vmem_xalloc_cases [of "kmap_vst k" flags sz 0 "kmap_env kal" 0] assms(1-4) sz False by auto
  then show ?thesis using False
    by (simp add: internal_allocwired_def kmap_xalloc_def kassert_def ERESOURCEEXHAUSTED_def)
qed

definition demo_kst :: kst where
  "demo_kst = \<lparr>k_kmap = arena three_pages, k_wired = arena three_pages, k_pool = pool three_pages, k_phys = fault_phys,
     k_kpmap = \<lparr>pml4 = 0x10000\<rparr>\<rparr>"

theorem internal_allocwired_correct_witness:
  "\<exists>addr pg k'. internal_allocwired (kmap_xalloc (\<lambda>_ _ _. None)) (Some Ref_kmap_vmem) 0x1000 kVMemBootstrap demo_kst =
      Some ((0, addr), k') \<and> unat addr \<in> {0x1000 ..< 0x4000} \<and> pg \<in> set (page_list fault_phys vm_pgfreeq) \<and>
      (\<forall>a \<in> frame fault_phys pg. pmem (k_phys k') a = 0) \<and>
      pmap_trans \<lparr>pml4 = 0x10000\<rparr> addr (k_phys k') = Some ((paddr (page_of fault_phys pg) AND kMMUFrame) + 8 * (addr AND 0xFFF))"
proof -
  have h: "wf_vst (kmap_vst demo_kst)" "v_allocfn (k_kmap demo_kst) = None"
    "segs_needed kVMemBootstrap \<le> length (free_segs (k_pool demo_kst))" "no_wrap (k_kmap demo_kst) (k_pool demo_kst) 0x1000 0"
    "unat (0x1000 :: u64) = 4096 * 1" "0 < (1 :: nat)" "(1 :: nat) < 524288"
    "pt_state (k_phys demo_kst) (pml4 (k_kpmap demo_kst))" "4 * 1 \<le> length (page_list (k_phys demo_kst) vm_pgfreeq)"
    "\<exists>i \<in> frees (k_pool demo_kst) (set (segqueue (k_kmap demo_kst))). fits (k_pool demo_kst) 0x1000 0 kVMemBootstrap i"
    using three_pages_ok three_pages_no_wrap three_pages_fits fault_pt_state
    by (auto simp: demo_kst_def vmem_attrs_def three_pages_segs segs_needed_def vmem_flag_defs fault_lists)
  have fsp: "free_space (k_kmap demo_kst) (k_pool demo_kst) = {0x1000 ..< 0x4000}"
    using three_pages_ok by (simp add: demo_kst_def)
  note c = internal_allocwired_correct [OF h(1-9), of "\<lambda>_ _ _. None", unfolded if_P [OF h(10)] fsp]
  obtain addr pgs k' where r: "internal_allocwired (kmap_xalloc (\<lambda>_ _ _. None)) (Some Ref_kmap_vmem) 0x1000 kVMemBootstrap demo_kst =
      Some ((0, addr), k')" "{unat addr ..< unat addr + 4096 * 1} \<subseteq> {0x1000 ..< 0x4000}" "length pgs = 1"
      "set pgs \<subseteq> set (page_list (k_phys demo_kst) vm_pgfreeq)" "\<forall>j < 1. \<forall>a \<in> frame (k_phys demo_kst) (pgs ! j). pmem (k_phys k') a = 0"
      "\<forall>w. (\<forall>j < 1. same_vpage w (addr + of_nat (4096 * j)) \<longrightarrow> pmap_trans (k_kpmap demo_kst) w (k_phys k') =
              Some ((paddr (page_of (k_phys demo_kst) (pgs ! j)) AND kMMUFrame) + 8 * (w AND 0xFFF))) \<and>
         ((\<forall>j < 1. \<not> same_vpage w (addr + of_nat (4096 * j))) \<longrightarrow>
            pmap_trans (k_kpmap demo_kst) w (k_phys k') = pmap_trans (k_kpmap demo_kst) w (k_phys demo_kst))"
    by (rule exE [OF c], elim exE conjE) (rule that)
  have "pgs ! 0 \<in> set (page_list fault_phys vm_pgfreeq)" using r(3,4) nth_mem [of 0 pgs] by (auto simp: demo_kst_def)
  moreover have "unat addr \<in> {0x1000 ..< 0x4000}" using r(2) by (auto simp: subset_iff)
  ultimately show ?thesis using r(1,5) r(6) [THEN spec, THEN conjunct1, rule_format, of 0 addr]
    by (intro exI [of _ addr] exI [of _ "pgs ! 0"] exI [of _ k']) (simp add: demo_kst_def same_vpage_def)
qed

end
