(* ===== verification/Kmem.thy ===== *)
theory Kmem
  imports Klib
begin

text \<open>
  The slab allocator and the kernel heap on top of it, \<^verbatim>\<open>kern/kmem_slab.c\<close> with \<^verbatim>\<open>kern/kmem.h\<close>.

  Slab headers and buffer controls are kept in stores indexed by their addresses. In a small
  slab a free object is its own buffer control, so its address names both. The free list of a
  slab is the chain of \<^verbatim>\<open>sle_next\<close> pointers that starts at \<^verbatim>\<open>firstfree\<close>, exactly as the code walks
  it; the slab queue and the list of allocated buffer controls are lists. Page allocation
  (\<^verbatim>\<open>vm_kalloc\<close>, \<^verbatim>\<open>vm_kfree\<close>) is an argument over a state of its own. Object contents are the
  bytes of the kernel memory. A slab is never returned, and locks are not modelled.
\<close>

subsection \<open>Data\<close>

datatype zone_ref = Zone_kmem_slab | Zone_kmem_bufctl | Zone_alloc nat

record kmem_bufctl =
  sle_next :: u64
  bc_slab :: u64
  bc_base :: u64

record kmem_slab =
  sl_zone :: zone_ref
  nfree :: u32
  firstfree :: u64
  sl_data :: u64

record kmem_zone =
  z_name :: string
  z_size :: u64
  slablist :: "u64 list"
  bufctllist :: "u64 list"

record 'w kmem =
  bufctls :: "u64 \<Rightarrow> kmem_bufctl"
  slabs :: "u64 \<Rightarrow> kmem_slab"
  zone_of :: "zone_ref \<Rightarrow> kmem_zone"
  kmem_zones :: "zone_ref list"
  kbytes :: mem
  world :: 'w

record 'w page_ops =
  po_kalloc :: "nat \<Rightarrow> u32 \<Rightarrow> 'w \<Rightarrow> (u64 \<times> 'w) option"
  po_kfree :: "u64 \<Rightarrow> nat \<Rightarrow> 'w \<Rightarrow> 'w option"

definition kVMKSleep :: u32 where "kVMKSleep = 1"
definition kSmallSlabMax :: u64 where "kSmallSlabMax = 256"
definition sizeof_kmem_slab :: u64 where "sizeof_kmem_slab = 32"
definition sizeof_kmem_bufctl :: u64 where "sizeof_kmem_bufctl = 24"

definition ZONE_SIZES :: "nat list" where
  "ZONE_SIZES = [8, 16, 24, 32, 40, 48, 56, 64, 80, 96, 112, 128, 160, 192, 224, 256,
     320, 384, 448, 512, 640, 768, 896, 1024, 1280, 1536, 1792, 2048, 2560, 3072, 3584, 4096]"

definition SMALL_SLAB_HDR :: "u64 \<Rightarrow> u64" where
  "SMALL_SLAB_HDR base = base + PGSIZE - sizeof_kmem_slab"

subsection \<open>Zones\<close>

definition kmem_zone_init :: "zone_ref \<Rightarrow> string \<Rightarrow> u64 \<Rightarrow> 'w kmem \<Rightarrow> 'w kmem" where
  "kmem_zone_init z name sz km = km\<lparr>
     zone_of := (zone_of km)(z := \<lparr>z_name = name, z_size = sz, slablist = [], bufctllist = []\<rparr>),
     kmem_zones := kmem_zones km @ [z]\<rparr>"

definition kmem_init :: "(nat \<Rightarrow> string) \<Rightarrow> 'w kmem \<Rightarrow> 'w kmem" where
  "kmem_init zone_name km = (
     let km1 = kmem_zone_init Zone_kmem_slab ''kmem_slab'' (sizeof_kmem_slab + 8) km;
         km2 = kmem_zone_init Zone_kmem_bufctl ''kmem_bufctl'' sizeof_kmem_bufctl km1
     in fold (\<lambda>i. kmem_zone_init (Zone_alloc i) (zone_name i) (of_nat (ZONE_SIZES ! i))) [0..<32] km2)"

definition slabsize :: "u64 \<Rightarrow> u64" where
  "slabsize sz = (if sz \<le> kSmallSlabMax then PGSIZE else PGROUNDUP (sz * 16))"

definition slabcapacity :: "u64 \<Rightarrow> u32" where
  "slabcapacity sz = (if sz \<le> kSmallSlabMax then ucast ((slabsize sz - sizeof_kmem_slab) div sz)
     else ucast (slabsize sz div sz))"

definition set_next :: "u64 \<Rightarrow> u64 \<Rightarrow> 'w kmem \<Rightarrow> 'w kmem" where
  "set_next e n km = km\<lparr>bufctls := (bufctls km)(e := (bufctls km e)\<lparr>sle_next := n\<rparr>)\<rparr>"

definition set_zone :: "zone_ref \<Rightarrow> (kmem_zone \<Rightarrow> kmem_zone) \<Rightarrow> 'w kmem \<Rightarrow> 'w kmem" where
  "set_zone z f km = km\<lparr>zone_of := (zone_of km)(z := f (zone_of km z))\<rparr>"

definition set_slab :: "u64 \<Rightarrow> (kmem_slab \<Rightarrow> kmem_slab) \<Rightarrow> 'w kmem \<Rightarrow> 'w kmem" where
  "set_slab h f km = km\<lparr>slabs := (slabs km)(h := f (slabs km h))\<rparr>"

text \<open>The header of a slab is written over whatever the page held before.\<close>

definition small_slab_new :: "'w page_ops \<Rightarrow> zone_ref \<Rightarrow> 'w kmem \<Rightarrow> (u64 \<times> 'w kmem) option" where
  "small_slab_new po z km = do {
     (base, w) \<leftarrow> po_kalloc po 1 kVMKSleep (world km);
     kassert (base \<noteq> 0);
     let slab = SMALL_SLAB_HDR base;
     let sz = z_size (zone_of km z);
     let km1 = set_zone z (\<lambda>zn. zn\<lparr>slablist := slab # slablist zn\<rparr>) (km\<lparr>world := w\<rparr>);
     let cap = unat (slabcapacity sz);
     let km2 = fold (\<lambda>i. set_next (base + of_nat i * sz) (base + (of_nat i + 1) * sz)) [0..<cap] km1;
     kassert (cap \<noteq> 0);
     let km3 = set_next (base + of_nat (cap - 1) * sz) 0 km2;
     Some (slab, set_slab slab (\<lambda>s. s\<lparr>sl_zone := z, nfree := slabcapacity sz, firstfree := base\<rparr>) km3)
   }"

text \<open>
  \<^verbatim>\<open>kmem_zonealloc\<close>, given how a large slab is made. Making one calls \<^verbatim>\<open>kmem_zonealloc\<close> again for
  the header and the buffer controls; were those zones large themselves, the call would wait for
  ever on the zone lock it holds.
\<close>

definition zonealloc_with ::
  "'w page_ops \<Rightarrow> (zone_ref \<Rightarrow> 'w kmem \<Rightarrow> (u64 \<times> 'w kmem) option) \<Rightarrow> zone_ref \<Rightarrow> 'w kmem \<Rightarrow> (u64 \<times> 'w kmem) option" where
  "zonealloc_with po large z km = do {
     (slab, km1) \<leftarrow>
       (case slablist (zone_of km z) of
          s # _ \<Rightarrow> if nfree (slabs km s) \<noteq> 0 then Some (s, km)
                   else if z_size (zone_of km z) > kSmallSlabMax then large z km else small_slab_new po z km
        | [] \<Rightarrow> if z_size (zone_of km z) > kSmallSlabMax then large z km else small_slab_new po z km);
     let km2 = set_slab slab (\<lambda>s. s\<lparr>nfree := nfree s - 1\<rparr>) km1;
     let entry = firstfree (slabs km2 slab);
     kassert (entry \<noteq> 0);
     let nxt = sle_next (bufctls km2 entry);
     let km3 = (if nxt = 0
                then set_slab slab (\<lambda>s. s\<lparr>firstfree := 0\<rparr>)
                       (set_zone z (\<lambda>zn. zn\<lparr>slablist := remove1 slab (slablist zn) @ [slab]\<rparr>) km2)
                else set_slab slab (\<lambda>s. s\<lparr>firstfree := nxt\<rparr>) km2);
     if z_size (zone_of km3 z) \<le> kSmallSlabMax then Some (entry, km3)
     else Some (bc_base (bufctls km3 entry), set_zone z (\<lambda>zn. zn\<lparr>bufctllist := entry # bufctllist zn\<rparr>) km3)
   }"

definition small_zonealloc :: "'w page_ops \<Rightarrow> zone_ref \<Rightarrow> 'w kmem \<Rightarrow> (u64 \<times> 'w kmem) option" where
  "small_zonealloc po = zonealloc_with po (\<lambda>_ _. None)"

text \<open>The loop that makes the buffer controls of a large slab; \<open>prev\<close> is 0 before the first.\<close>

fun large_entries ::
  "'w page_ops \<Rightarrow> u64 \<Rightarrow> u64 \<Rightarrow> nat list \<Rightarrow> u64 \<Rightarrow> 'w kmem \<Rightarrow> (u64 \<times> 'w kmem) option" where
  "large_entries po slab sz [] prev km = Some (prev, km)"
| "large_entries po slab sz (i # is) prev km = do {
     (entry, km1) \<leftarrow> small_zonealloc po Zone_kmem_bufctl km;
     let km2 = km1\<lparr>bufctls := (bufctls km1)(entry := (bufctls km1 entry)\<lparr>bc_slab := slab,
                 bc_base := sl_data (slabs km1 slab) + sz * of_nat i\<rparr>)\<rparr>;
     let km3 = (if prev \<noteq> 0 then set_next prev entry km2
                else set_slab slab (\<lambda>s. s\<lparr>firstfree := entry\<rparr>) km2);
     large_entries po slab sz is entry km3
   }"

definition large_slab_new :: "'w page_ops \<Rightarrow> zone_ref \<Rightarrow> 'w kmem \<Rightarrow> (u64 \<times> 'w kmem) option" where
  "large_slab_new po z km = do {
     (slab, km1) \<leftarrow> small_zonealloc po Zone_kmem_slab km;
     let km2 = set_zone z (\<lambda>zn. zn\<lparr>slablist := slab # slablist zn\<rparr>) km1;
     let sz = z_size (zone_of km2 z);
     (a, w) \<leftarrow> po_kalloc po (unat (slabsize sz div PGSIZE)) kVMKSleep (world km2);
     let km3 = set_slab slab (\<lambda>s. s\<lparr>sl_zone := z, nfree := slabcapacity sz, sl_data := a\<rparr>) (km2\<lparr>world := w\<rparr>);
     (lst, km4) \<leftarrow> large_entries po slab sz [0..<unat (slabcapacity sz)] 0 km3;
     kassert (lst \<noteq> 0);
     Some (slab, set_next lst 0 km4)
   }"

definition kmem_zonealloc :: "'w page_ops \<Rightarrow> zone_ref \<Rightarrow> 'w kmem \<Rightarrow> (u64 \<times> 'w kmem) option" where
  "kmem_zonealloc po = zonealloc_with po (large_slab_new po)"

text \<open>
  In the large branch \<^verbatim>\<open>newfree\<close> is uninitialised when the pointer is not found, so the check
  that should stop the kernel reads an indeterminate value; the model stops there.
\<close>

definition kmem_zonefree :: "zone_ref \<Rightarrow> u64 \<Rightarrow> 'w kmem \<Rightarrow> 'w kmem option" where
  "kmem_zonefree z ptr km = do {
     (slab, newfree, km1) \<leftarrow>
       (if z_size (zone_of km z) \<le> kSmallSlabMax then Some (SMALL_SLAB_HDR (PGROUNDDOWN ptr), ptr, km)
        else do {
          iter \<leftarrow> find (\<lambda>e. bc_base (bufctls km e) = ptr) (bufctllist (zone_of km z));
          Some (bc_slab (bufctls km iter), iter,
                set_zone z (\<lambda>zn. zn\<lparr>bufctllist := remove1 iter (bufctllist zn)\<rparr>) km)
        });
     let km2 = set_slab slab (\<lambda>s. s\<lparr>nfree := nfree s + 1\<rparr>) km1;
     let km3 = set_next newfree (firstfree (slabs km2 slab)) km2;
     Some (set_slab slab (\<lambda>s. s\<lparr>firstfree := newfree\<rparr>) km3)
   }"

text \<open>Per zone: size, slabs, objects in use, objects free.\<close>

definition kmem_dump :: "'w kmem \<Rightarrow> (string \<times> u64 \<times> u64 \<times> u64 \<times> u64) list" where
  "kmem_dump km = map (\<lambda>z. let zn = zone_of km z; cap = ucast (slabcapacity (z_size zn)) :: u64;
       nSlabs = of_nat (length (slablist zn)) :: u64;
       totalFree = sum_list (map (\<lambda>s. ucast (nfree (slabs km s))) (slablist zn)) :: u64
     in (z_name zn, z_size zn, nSlabs, cap * nSlabs - totalFree, totalFree)) (kmem_zones km)"

subsection \<open>The kernel heap\<close>

definition zonenum :: "u64 \<Rightarrow> int" where
  "zonenum sz =
     (if sz \<le> 64 then to_int (ROUNDUP sz 8 div 8 - 1)
      else if sz \<le> 128 then to_int (ROUNDUP (sz - 64) 16 div 16 + 7)
      else if sz \<le> 256 then to_int (ROUNDUP (sz - 128) 32 div 32 + 11)
      else if sz \<le> 512 then to_int (ROUNDUP (sz - 256) 64 div 64 + 15)
      else if sz \<le> 1024 then to_int (ROUNDUP (sz - 512) 128 div 128 + 19)
      else if sz \<le> 2048 then to_int (ROUNDUP (sz - 1024) 256 div 256 + 23)
      else if sz \<le> 4096 then to_int (ROUNDUP (sz - 2048) 512 div 512 + 27)
      else - 1)"

definition kmem_alloc :: "'w page_ops \<Rightarrow> u64 \<Rightarrow> 'w kmem \<Rightarrow> (u64 \<times> 'w kmem) option" where
  "kmem_alloc po sz km = do {
     kassert (sz > 0);
     let zoneidx = zonenum sz;
     if zoneidx = - 1 then do {
       let realsize = PGROUNDUP sz;
       (a, w) \<leftarrow> po_kalloc po (unat (realsize div PGSIZE)) kVMKSleep (world km);
       Some (a, km\<lparr>world := w\<rparr>)
     } else kmem_zonealloc po (Zone_alloc (nat zoneidx)) km
   }"

definition kmem_free :: "'w page_ops \<Rightarrow> u64 \<Rightarrow> u64 \<Rightarrow> 'w kmem \<Rightarrow> 'w kmem option" where
  "kmem_free po ptr sz km = do {
     let zoneidx = zonenum sz;
     kassert (sz > 0);
     if zoneidx = - 1 then do {
       let realsize = PGROUNDUP sz;
       w \<leftarrow> po_kfree po ptr (unat (realsize div PGSIZE)) (world km);
       Some (km\<lparr>world := w\<rparr>)
     } else kmem_zonefree (Zone_alloc (nat zoneidx)) ptr km
   }"

definition kmem_realloc :: "'w page_ops \<Rightarrow> u64 \<Rightarrow> u64 \<Rightarrow> u64 \<Rightarrow> 'w kmem \<Rightarrow> (u64 \<times> 'w kmem) option" where
  "kmem_realloc po ptr oldSize sz km = do {
     (ret, km1) \<leftarrow> kmem_alloc po sz km;
     if ptr \<noteq> 0 then do {
       kassert (oldSize > 0);
       kassert (sz > oldSize);
       let (_, m) = memcpy ret ptr oldSize (kbytes km1);
       km2 \<leftarrow> kmem_free po ptr oldSize (km1\<lparr>kbytes := m\<rparr>);
       Some (ret, km2)
     } else Some (ret, km1)
   }"

definition kmem_zalloc :: "'w page_ops \<Rightarrow> u64 \<Rightarrow> 'w kmem \<Rightarrow> (u64 \<times> 'w kmem) option" where
  "kmem_zalloc po sz km = do {
     (ret, km1) \<leftarrow> kmem_alloc po sz km;
     let (_, m) = memset ret 0 sz (kbytes km1);
     Some (ret, km1\<lparr>kbytes := m\<rparr>)
   }"

text \<open>\<open>txt\<close> is what the format string and its arguments print as.\<close>

fun put_bytes :: "u64 \<Rightarrow> u8 list \<Rightarrow> mem \<Rightarrow> mem" where
  "put_bytes a [] m = m"
| "put_bytes a (b # bs) m = put_bytes (a + 1) bs (m(a := b))"

definition kmem_vasprintf :: "'w page_ops \<Rightarrow> u8 list \<Rightarrow> 'w kmem \<Rightarrow> ((int \<times> u64) \<times> 'w kmem) option" where
  "kmem_vasprintf po txt km = do {
     let sz = (of_nat (length txt) :: u64);
     (str, km1) \<leftarrow> kmem_alloc po (sz + 1) km;
     if str = 0 then Some ((- 1, 0), km1)
     else Some ((to_int sz, str), km1\<lparr>kbytes := put_bytes str (txt @ [0]) (kbytes km1)\<rparr>)
   }"

definition kmem_asprintf :: "'w page_ops \<Rightarrow> u8 list \<Rightarrow> 'w kmem \<Rightarrow> ((int \<times> u64) \<times> 'w kmem) option" where
  "kmem_asprintf po txt km = kmem_vasprintf po txt km"

definition kmem_strfree :: "'w page_ops \<Rightarrow> u64 \<Rightarrow> 'w kmem \<Rightarrow> (u64 \<times> 'w kmem) option" where
  "kmem_strfree po str km = do {
     n \<leftarrow> strlen (kbytes km) str;
     km1 \<leftarrow> kmem_free po str n km;
     Some (0, km1)
   }"

end
