(* ===== verification/Kmem_Inv.thy ===== *)
theory Kmem_Inv
  imports Kmem
begin

text \<open>
  Correctness of the slab allocator: the choice of a zone, the layout of a slab, and for zones of
  small objects the invariant that the free list of every slab is a chain of distinct objects of
  that slab whose length is \<^verbatim>\<open>nfree\<close>. An allocation hands out an object that was free and makes
  it live; freeing undoes this.
\<close>

subsection \<open>The zone of a size\<close>

lemma roundup_div:
  assumes "0 < unat n" and "unat n + (2 ^ k - 1) < 2 ^ 64" and "k < 64"
  shows "unat (ROUNDUP n (2 ^ k) div 2 ^ k) = (unat n + (2 ^ k - 1)) div 2 ^ k"
proof -
  have "(2 :: nat) ^ k < 2 ^ 64" using assms(3) by (intro power_strict_increasing) auto
  then have "unat (2 ^ k :: u64) = 2 ^ k" using unat_of_nat64 [of "2 ^ k"] by simp
  then show ?thesis using ROUNDUP_unat [OF assms(2,3)] by (simp add: unat_div)
qed

text \<open>One range of the table: sizes above \<open>b\<close> in steps of \<open>2 ^ k\<close>, from index \<open>c + 1\<close> on.\<close>

lemma zone_range:
  fixes sz :: u64
  assumes sz: "b < unat sz" "unat sz \<le> b + 2 ^ k * J" and k: "k \<le> 9" and b: "b \<le> 2048" and J: "J \<le> 8"
    and r: "r = ROUNDUP (sz - of_nat b) (2 ^ k) div 2 ^ k"
  shows "0 < unat r \<and> unat r \<le> J \<and> unat sz \<le> b + 2 ^ k * unat r \<and> b + 2 ^ k * (unat r - 1) < unat sz"
proof -
  have bb: "unat (of_nat b :: u64) = b" using b by simp
  have n: "unat (sz - of_nat b) = unat sz - b" using sz(1) bb by (subst unat_sub_nowrap) simp_all
  let ?n = "unat sz - b"
  have pk: "(2 :: nat) ^ k \<le> 2 ^ 9" using k by (intro power_increasing) auto
  have "?n \<le> 2 ^ k * J" using sz(2) by simp
  moreover have "(2 :: nat) ^ k * J \<le> 2 ^ 9 * 8" using pk J by (rule mult_le_mono)
  ultimately have "?n + (2 ^ k - 1) < 2 ^ 64" using pk by simp
  then have ru: "unat r = (?n + (2 ^ k - 1)) div 2 ^ k"
    using roundup_div [of "sz - of_nat b" k] sz(1) k by (simp add: n r)
  define j where "j = (?n + (2 ^ k - 1)) div 2 ^ k"
  have p: "0 < (2 :: nat) ^ k" by simp
  have "?n + (2 ^ k - 1) < 2 ^ k * (j + 1)" "2 ^ k * j \<le> ?n + (2 ^ k - 1)"
    unfolding j_def using dividend_less_times_div [OF p, of "?n + (2 ^ k - 1)"] times_div_less_eq_dividend by auto
  then have up: "?n \<le> 2 ^ k * j" and lo: "2 ^ k * j < ?n + 2 ^ k" using p by (simp_all add: algebra_simps)
  have j0: "0 < j" using up sz(1) by (cases j) auto
  have "2 ^ k * (j - 1) < ?n" using lo j0 by (cases j) (simp_all add: algebra_simps)
  moreover from this \<open>?n \<le> 2 ^ k * J\<close> have "j - 1 < J"
    by (metis less_le_trans nat_mult_less_cancel_disj)
  moreover have rj: "unat r = j" using ru by (simp add: j_def)
  ultimately show ?thesis unfolding rj using up j0 sz(1) by auto
qed

lemma zone_tables:
  "j \<le> 8 \<Longrightarrow> 0 < j \<Longrightarrow> ZONE_SIZES ! (j - 1) = 8 * j"
  "j \<le> 4 \<Longrightarrow> ZONE_SIZES ! (j + 7) = 64 + 16 * j"
  "j \<le> 4 \<Longrightarrow> ZONE_SIZES ! (j + 11) = 128 + 32 * j"
  "j \<le> 4 \<Longrightarrow> ZONE_SIZES ! (j + 15) = 256 + 64 * j"
  "j \<le> 4 \<Longrightarrow> ZONE_SIZES ! (j + 19) = 512 + 128 * j"
  "j \<le> 4 \<Longrightarrow> ZONE_SIZES ! (j + 23) = 1024 + 256 * j"
  "j \<le> 4 \<Longrightarrow> ZONE_SIZES ! (j + 27) = 2048 + 512 * j"
proof -
  have 4: "j = 0 \<or> j = 1 \<or> j = 2 \<or> j = 3 \<or> j = 4" if "j \<le> 4" using that by auto
  have 8: "j = 1 \<or> j = 2 \<or> j = 3 \<or> j = 4 \<or> j = 5 \<or> j = 6 \<or> j = 7 \<or> j = 8" if "j \<le> 8" "0 < j" using that by auto
  show "ZONE_SIZES ! (j - 1) = 8 * j" if "j \<le> 8" "0 < j"
    using 8 [OF that] by (elim disjE) (simp_all add: ZONE_SIZES_def)
  show "ZONE_SIZES ! (j + 7) = 64 + 16 * j" if "j \<le> 4" using 4 [OF that] by (elim disjE) (simp_all add: ZONE_SIZES_def)
  show "ZONE_SIZES ! (j + 11) = 128 + 32 * j" if "j \<le> 4" using 4 [OF that] by (elim disjE) (simp_all add: ZONE_SIZES_def)
  show "ZONE_SIZES ! (j + 15) = 256 + 64 * j" if "j \<le> 4" using 4 [OF that] by (elim disjE) (simp_all add: ZONE_SIZES_def)
  show "ZONE_SIZES ! (j + 19) = 512 + 128 * j" if "j \<le> 4" using 4 [OF that] by (elim disjE) (simp_all add: ZONE_SIZES_def)
  show "ZONE_SIZES ! (j + 23) = 1024 + 256 * j" if "j \<le> 4" using 4 [OF that] by (elim disjE) (simp_all add: ZONE_SIZES_def)
  show "ZONE_SIZES ! (j + 27) = 2048 + 512 * j" if "j \<le> 4" using 4 [OF that] by (elim disjE) (simp_all add: ZONE_SIZES_def)
qed

text \<open>The index of a range is right for a size in it.\<close>

definition zone_fits :: "int \<Rightarrow> u64 \<Rightarrow> bool" where
  "zone_fits idx sz \<longleftrightarrow> 0 \<le> idx \<and> idx < 32 \<and> unat sz \<le> ZONE_SIZES ! nat idx \<and>
     (idx = 0 \<or> ZONE_SIZES ! nat (idx - 1) < unat sz)"

lemma zone_fits_range:
  fixes sz :: u64
  assumes sz: "b < unat sz" "unat sz \<le> b + 2 ^ k * 4" and k: "k \<le> 9" and b: "b \<le> 2048" and c: "0 < c" "c \<le> 27"
    and tab: "\<And>j. j \<le> 4 \<Longrightarrow> ZONE_SIZES ! (j + c) = b + 2 ^ k * j"
  shows "zone_fits (to_int (ROUNDUP (sz - of_nat b) (2 ^ k) div 2 ^ k + of_nat c)) sz"
proof -
  define r where "r = ROUNDUP (sz - of_nat b) (2 ^ k) div 2 ^ k"
  have z: "0 < unat r" "unat r \<le> 4" "unat sz \<le> b + 2 ^ k * unat r" "b + 2 ^ k * (unat r - 1) < unat sz"
    using zone_range [OF sz k b _ r_def] by simp_all
  have u: "unat (r + of_nat c) = unat r + c" using z(2) c by (subst unat_add_nowrap) simp_all
  have i: "to_int (r + of_nat c) = int (unat r + c)" using to_int_small [of "r + of_nat c"] u z(2) c by simp
  have n: "nat (int (unat r + c) - 1) = (unat r - 1) + c" using z(1) by linarith
  have b: "int (unat r + c) < 32" using z(2) c by linarith
  show ?thesis
    unfolding zone_fits_def r_def [symmetric] i n nat_int
    using z tab [of "unat r"] tab [of "unat r - 1"] b by simp
qed

lemma zonenum_fits:
  assumes "0 < unat sz" and "unat sz \<le> 4096"
  shows "zone_fits (zonenum sz) sz"
proof -
  have le: "sz \<le> 64 \<longleftrightarrow> unat sz \<le> 64" "sz \<le> 128 \<longleftrightarrow> unat sz \<le> 128" "sz \<le> 256 \<longleftrightarrow> unat sz \<le> 256"
    "sz \<le> 512 \<longleftrightarrow> unat sz \<le> 512" "sz \<le> 1024 \<longleftrightarrow> unat sz \<le> 1024" "sz \<le> 2048 \<longleftrightarrow> unat sz \<le> 2048"
    "sz \<le> 4096 \<longleftrightarrow> unat sz \<le> 4096"
    by (simp_all add: word_le_nat_alt)
  consider "unat sz \<le> 64" | "64 < unat sz" "unat sz \<le> 128" | "128 < unat sz" "unat sz \<le> 256"
    | "256 < unat sz" "unat sz \<le> 512" | "512 < unat sz" "unat sz \<le> 1024" | "1024 < unat sz" "unat sz \<le> 2048"
    | "2048 < unat sz" using assms(2) by linarith
  then show ?thesis
  proof cases
    case 1
    define r where "r = ROUNDUP (sz - of_nat 0) (2 ^ 3) div 2 ^ 3"
    have z: "0 < unat r" "unat r \<le> 8" "unat sz \<le> 8 * unat r" "8 * (unat r - 1) < unat sz"
      using zone_range [of 0 sz 3 8, OF _ _ _ _ _ r_def] 1 assms(1) by simp_all
    have u: "unat (r - 1) = unat r - 1" using z(1) by (subst unat_sub_nowrap) simp_all
    have "zonenum sz = to_int (r - 1)" using 1 by (simp add: zonenum_def le r_def)
    also have "\<dots> = int (unat (r - 1))" by (rule to_int_small) (use u z(2) in simp)
    also have "\<dots> = int (unat r - 1)" by (simp only: u)
    finally have i: "zonenum sz = int (unat r - 1)" .
    obtain k where k: "unat r = Suc k" using z(1) by (cases "unat r") auto
    have n: "nat (int k - 1) = k - 1" by linarith
    show ?thesis
      unfolding zone_fits_def i nat_int n
      using z zone_tables(1) [of "Suc k"] zone_tables(1) [of k] unfolding k by (cases "k = 0") (auto simp: n)
  next
    case 2
    then show ?thesis using zone_fits_range [of 64 sz 4 7] zone_tables(2) by (simp add: zonenum_def le)
  next
    case 3
    then show ?thesis using zone_fits_range [of 128 sz 5 11] zone_tables(3) by (simp add: zonenum_def le)
  next
    case 4
    then show ?thesis using zone_fits_range [of 256 sz 6 15] zone_tables(4) by (simp add: zonenum_def le)
  next
    case 5
    then show ?thesis using zone_fits_range [of 512 sz 7 19] zone_tables(5) by (simp add: zonenum_def le)
  next
    case 6
    then show ?thesis using zone_fits_range [of 1024 sz 8 23] zone_tables(6) by (simp add: zonenum_def le)
  next
    case 7
    then show ?thesis using zone_fits_range [of 2048 sz 9 27] zone_tables(7) assms(2) by (simp add: zonenum_def le)
  qed
qed

subsection \<open>The layout of a slab\<close>

definition cap :: "u64 \<Rightarrow> nat" where
  "cap sz = unat (slabcapacity sz)"

lemma small_iff: "sz \<le> kSmallSlabMax \<longleftrightarrow> unat sz \<le> 256"
  by (simp add: kSmallSlabMax_def word_le_nat_alt)

lemma unat_ucast32: "unat (x :: u64) < 2 ^ 32 \<Longrightarrow> unat (ucast x :: u32) = unat x"
  by (simp add: unsigned_ucast_eq take_bit_nat_eq_self)

lemma cap_small:
  assumes "0 < unat sz" "unat sz \<le> 256"
  shows "cap sz = 4064 div unat sz" and "15 \<le> cap sz" and "cap sz * unat sz \<le> 4064" and "cap sz \<le> 4064"
proof -
  have u: "unat ((PGSIZE - sizeof_kmem_slab) div sz) = 4064 div unat sz"
    by (simp add: unat_div PGSIZE_def sizeof_kmem_slab_def)
  have "4064 div unat sz \<le> 4064" by (rule div_le_dividend)
  then have "unat ((PGSIZE - sizeof_kmem_slab) div sz) < 2 ^ 32" unfolding u by (rule le_less_trans) simp
  from unat_ucast32 [OF this]
  have "unat (ucast ((PGSIZE - sizeof_kmem_slab) div sz) :: u32) = 4064 div unat sz" unfolding u .
  then show c: "cap sz = 4064 div unat sz"
    using assms by (simp add: cap_def slabcapacity_def slabsize_def small_iff)
  show "cap sz \<le> 4064" unfolding c by (rule div_le_dividend)
  have "4064 div 256 \<le> 4064 div unat sz" using assms by (intro div_le_mono2) auto
  then show "15 \<le> cap sz" by (simp add: c)
  show "cap sz * unat sz \<le> 4064" unfolding c by simp
qed

lemma cap_large:
  assumes "256 < unat sz" "unat sz \<le> 4096"
  shows "16 \<le> cap sz" and "cap sz * unat sz \<le> unat (slabsize sz)"
proof -
  have m: "unat (sz * 16) = unat sz * 16" using assms by (simp add: unat_word_ariths)
  have s: "unat (slabsize sz) = (unat sz * 16 + 4095) div 4096 * 4096"
    using PGROUNDUP_unat [of "sz * 16"] assms m by (simp add: slabsize_def small_iff)
  have b: "unat sz * 16 \<le> unat (slabsize sz)" "unat (slabsize sz) \<le> unat sz * 16 + 4095" unfolding s by linarith+
  have c: "cap sz = unat (slabsize sz) div unat sz"
  proof -
    have u: "unat (slabsize sz div sz) = unat (slabsize sz) div unat sz" by (simp add: unat_div)
    have "unat (slabsize sz) div unat sz \<le> unat (slabsize sz)" by (rule div_le_dividend)
    then have "unat (slabsize sz div sz) < 2 ^ 32" unfolding u by (rule le_less_trans) (use assms b in simp)
    from unat_ucast32 [OF this]
    have "unat (ucast (slabsize sz div sz) :: u32) = unat (slabsize sz) div unat sz" unfolding u .
    then show ?thesis using assms by (simp add: cap_def slabcapacity_def small_iff)
  qed
  have "(unat sz * 16) div unat sz \<le> unat (slabsize sz) div unat sz" using b(1) by (rule div_le_mono)
  then show "16 \<le> cap sz" using assms by (simp add: c)
  show "cap sz * unat sz \<le> unat (slabsize sz)" unfolding c by simp
qed

text \<open>The objects of the small slab that starts at \<open>base\<close>.\<close>

definition slab_objs :: "u64 \<Rightarrow> u64 \<Rightarrow> u64 list" where
  "slab_objs sz base = map (\<lambda>i. base + of_nat i * sz) [0..<cap sz]"

lemma obj_unat:
  assumes sz: "0 < unat sz" "unat sz \<le> 256" and b: "unat base mod 4096 = 0" and i: "i < cap sz"
  shows "unat (base + of_nat i * sz) = unat base + i * unat sz" and "i * unat sz + unat sz \<le> 4064"
    and "unat base + 4096 \<le> 2 ^ 64"
proof -
  have "(i + 1) * unat sz \<le> cap sz * unat sz" using i by (intro mult_le_mono1) simp
  then show le: "i * unat sz + unat sz \<le> 4064" using cap_small(3) [OF sz] by simp
  have "unat base < 2 ^ 64" using unat_bound64 [of base] by simp
  moreover obtain q where "unat base = 4096 * q" using b by (metis dvdE mod_0_imp_dvd)
  ultimately show lim: "unat base + 4096 \<le> 2 ^ 64" by simp
  have "i \<le> 4064" using i cap_small(4) [OF sz] by simp
  then have "unat (of_nat i * sz) = i * unat sz" using le by (simp add: unat_word_ariths)
  then show "unat (base + of_nat i * sz) = unat base + i * unat sz"
    using lim le by (subst unat_add_nowrap) simp_all
qed

lemma slab_objs_distinct:
  assumes "0 < unat sz" "unat sz \<le> 256" "unat base mod 4096 = 0"
  shows "distinct (slab_objs sz base)"
proof -
  have "i = j" if "i < cap sz" "j < cap sz" "base + of_nat i * sz = base + of_nat j * sz" for i j
  proof -
    have "i * unat sz = j * unat sz" using obj_unat(1) [OF assms] that by (metis add_left_cancel)
    then show ?thesis using assms(1) by simp
  qed
  then show ?thesis by (auto simp: slab_objs_def distinct_map inj_on_def)
qed

lemma obj_page:
  assumes "0 < unat sz" "unat sz \<le> 256" "unat base mod 4096 = 0" "x \<in> set (slab_objs sz base)"
  shows "PGROUNDDOWN x = base"
proof -
  obtain i where i: "i < cap sz" "x = base + of_nat i * sz" using assms(4) by (auto simp: slab_objs_def)
  have u: "unat x = unat base + i * unat sz" "i * unat sz < 4096"
    using obj_unat [OF assms(1-3) i(1)] i(2) assms(1) by simp_all
  have "unat x mod 4096 = i * unat sz" using u assms(3) by (metis mod_add_left_eq add_0 mod_less)
  then have "unat (PGROUNDDOWN x) = unat base" using PGROUNDDOWN_unat [of x] u by simp
  then show ?thesis by (simp add: word_unat_eq_iff)
qed

lemma obj_nonzero:
  assumes "0 < unat sz" "unat sz \<le> 256" "unat base mod 4096 = 0" "base \<noteq> 0" "x \<in> set (slab_objs sz base)"
  shows "x \<noteq> 0"
proof
  assume "x = 0"
  then have "PGROUNDDOWN 0 = base" using obj_page [OF assms(1-3)] assms(5) by simp
  then show False using assms(4) PGROUNDDOWN_unat [of 0] by (simp add: word_unat_eq_iff)
qed

subsection \<open>Free lists\<close>

fun chain :: "(u64 \<Rightarrow> u64) \<Rightarrow> u64 \<Rightarrow> u64 list \<Rightarrow> bool" where
  "chain nx p [] \<longleftrightarrow> p = 0"
| "chain nx p (x # xs) \<longleftrightarrow> p = x \<and> x \<noteq> 0 \<and> chain nx (nx x) xs"

definition nexts :: "'w kmem \<Rightarrow> u64 \<Rightarrow> u64" where
  "nexts km e = sle_next (bufctls km e)"

lemma chain_cong: "(\<And>x. x \<in> set xs \<Longrightarrow> nx x = nx' x) \<Longrightarrow> chain nx p xs \<longleftrightarrow> chain nx' p xs"
  by (induction xs arbitrary: p) auto

lemma chain_head_0: "chain nx p xs \<Longrightarrow> p = 0 \<longleftrightarrow> xs = []"
  by (cases xs) auto

definition base_of :: "u64 \<Rightarrow> u64" where
  "base_of h = h - 4064"

lemma base_of_hdr [simp]: "base_of (SMALL_SLAB_HDR b) = b" "SMALL_SLAB_HDR (base_of h) = h"
  by (simp_all add: base_of_def SMALL_SLAB_HDR_def PGSIZE_def sizeof_kmem_slab_def)

text \<open>One slab with its free list \<open>fl\<close>.\<close>

definition slab_ok :: "'w kmem \<Rightarrow> u64 \<Rightarrow> u64 \<Rightarrow> u64 list \<Rightarrow> bool" where
  "slab_ok km sz h fl \<longleftrightarrow> unat (base_of h) mod 4096 = 0 \<and> base_of h \<noteq> 0 \<and>
     chain (nexts km) (firstfree (slabs km h)) fl \<and> distinct fl \<and> set fl \<subseteq> set (slab_objs sz (base_of h)) \<and>
     unat (nfree (slabs km h)) = length fl"

definition zone_ok :: "'w kmem \<Rightarrow> zone_ref \<Rightarrow> (u64 \<Rightarrow> u64 list) \<Rightarrow> bool" where
  "zone_ok km z F \<longleftrightarrow> 0 < unat (z_size (zone_of km z)) \<and> unat (z_size (zone_of km z)) \<le> 256 \<and>
     distinct (slablist (zone_of km z)) \<and>
     (\<forall>h \<in> set (slablist (zone_of km z)). slab_ok km (z_size (zone_of km z)) h (F h))"

text \<open>The objects handed out and not freed.\<close>

definition live :: "'w kmem \<Rightarrow> zone_ref \<Rightarrow> (u64 \<Rightarrow> u64 list) \<Rightarrow> u64 set" where
  "live km z F = (\<Union>h \<in> set (slablist (zone_of km z)).
     set (slab_objs (z_size (zone_of km z)) (base_of h)) - set (F h))"

lemma slab_objs_disjoint:
  assumes "0 < unat sz" "unat sz \<le> 256" "unat b mod 4096 = 0" "unat b' mod 4096 = 0" "b \<noteq> b'"
  shows "set (slab_objs sz b) \<inter> set (slab_objs sz b') = {}"
  using obj_page [OF assms(1-3)] obj_page [OF assms(1,2,4)] assms(5) by (metis disjoint_iff)

lemma slab_ok_cong:
  assumes "slabs km' h = slabs km h" and "\<And>x. x \<in> set fl \<Longrightarrow> nexts km' x = nexts km x"
  shows "slab_ok km' sz h fl \<longleftrightarrow> slab_ok km sz h fl"
  using chain_cong [of fl "nexts km'" "nexts km" "firstfree (slabs km h)", OF assms(2)] assms(1)
  by (simp add: slab_ok_def)

lemma set_simps [simp]:
  "slabs (set_zone z f km) = slabs km" "bufctls (set_zone z f km) = bufctls km"
  "zone_of (set_zone z f km) = (zone_of km)(z := f (zone_of km z))" "world (set_zone z f km) = world km"
  "slabs (set_slab h g km) = (slabs km)(h := g (slabs km h))" "bufctls (set_slab h g km) = bufctls km"
  "zone_of (set_slab h g km) = zone_of km" "world (set_slab h g km) = world km"
  "slabs (set_next e n km) = slabs km" "zone_of (set_next e n km) = zone_of km" "world (set_next e n km) = world km"
  "nexts (set_zone z f km) = nexts km" "nexts (set_slab h g km) = nexts km"
  "nexts (set_next e n km) = (nexts km)(e := n)"
  "nexts (km\<lparr>world := w\<rparr>) = nexts km"
  by (auto simp: set_zone_def set_slab_def set_next_def nexts_def fun_eq_iff)

subsection \<open>Taking an object\<close>

text \<open>The second half of \<^verbatim>\<open>kmem_zonealloc\<close>, once the first slab has a free object.\<close>

definition take_entry :: "zone_ref \<Rightarrow> u64 \<Rightarrow> 'w kmem \<Rightarrow> (u64 \<times> 'w kmem) option" where
  "take_entry z slab km1 = do {
     let km2 = set_slab slab (\<lambda>s. s\<lparr>nfree := nfree s - 1\<rparr>) km1;
     let entry = firstfree (slabs km2 slab);
     kassert (entry \<noteq> 0);
     let nxt = sle_next (bufctls km2 entry);
     let km3 = (if nxt = 0
                then set_slab slab (\<lambda>s. s\<lparr>firstfree := 0\<rparr>)
                       (set_zone z (\<lambda>zn. zn\<lparr>slablist := remove1 slab (slablist zn) @ [slab]\<rparr>) km2)
                else set_slab slab (\<lambda>s. s\<lparr>firstfree := nxt\<rparr>) km2);
     if z_size (zone_of km3 z) \<le> kSmallSlabMax then Some (entry, km3)
     else Some (bc_base (bufctls km3 entry), set_zone z (\<lambda>zn. zn\<lparr>bufctllist := entry # bufctllist zn\<rparr>) km3)
   }"

lemma zonealloc_take:
  assumes "z_size (zone_of km z) \<le> kSmallSlabMax"
  shows "zonealloc_with po large z km =
    (case slablist (zone_of km z) of
       s # _ \<Rightarrow> if nfree (slabs km s) \<noteq> 0 then take_entry z s km
                else (do { (s, km1) \<leftarrow> small_slab_new po z km; take_entry z s km1 })
     | [] \<Rightarrow> (do { (s, km1) \<leftarrow> small_slab_new po z km; take_entry z s km1 }))"
  using assms unfolding zonealloc_with_def take_entry_def not_le [symmetric]
  by (cases "slablist (zone_of km z)") simp_all

lemma take_entry_ok:
  assumes ok: "zone_ok km z F" and h: "slablist (zone_of km z) = h # hs" and n: "F h = e # rest"
  shows "\<exists>km'. take_entry z h km = Some (e, km') \<and> zone_ok km' z (F(h := rest)) \<and>
    e \<notin> live km z F \<and> live km' z (F(h := rest)) = insert e (live km z F) \<and>
    set (slablist (zone_of km' z)) = set (h # hs) \<and> z_size (zone_of km' z) = z_size (zone_of km z) \<and>
    world km' = world km \<and> nexts km' = nexts km \<and> (\<forall>g. g \<noteq> h \<longrightarrow> slabs km' g = slabs km g) \<and>
    (\<forall>y. y \<noteq> z \<longrightarrow> zone_of km' y = zone_of km y)"
proof -
  let ?zn = "zone_of km z"
  let ?sz = "z_size ?zn"
  have sz: "0 < unat ?sz" "unat ?sz \<le> 256" and d: "distinct (h # hs)"
    and so: "\<And>g. g \<in> set (h # hs) \<Longrightarrow> slab_ok km ?sz g (F g)"
    using ok h by (auto simp: zone_ok_def)
  have sh: "slab_ok km ?sz h (e # rest)" using so [of h] n by simp
  then have ff: "firstfree (slabs km h) = e" "e \<noteq> 0" and ch: "chain (nexts km) (nexts km e) rest"
    and nf: "unat (nfree (slabs km h)) = Suc (length rest)" and ds: "distinct (e # rest)"
    and sub: "set (e # rest) \<subseteq> set (slab_objs ?sz (base_of h))" by (auto simp: slab_ok_def)
  have nf': "unat (nfree (slabs km h) - 1) = length rest" using nf by (subst unat_sub_nowrap) simp_all
  have nx: "nexts km e = 0 \<longleftrightarrow> rest = []" using chain_head_0 [OF ch] .
  define s' where "s' = (slabs km h)\<lparr>nfree := nfree (slabs km h) - 1, firstfree := nexts km e\<rparr>"
  define l' where "l' = (if rest = [] then hs @ [h] else h # hs)"
  have "\<exists>km'. take_entry z h km = Some (e, km') \<and> slabs km' = (slabs km)(h := s') \<and>
      zone_of km' = (zone_of km)(z := ?zn\<lparr>slablist := l'\<rparr>) \<and> nexts km' = nexts km \<and> world km' = world km"
  proof (cases "rest = []")
    case True
    then show ?thesis
      using ff nx sz h d unfolding take_entry_def Let_def
      by (simp add: nexts_def [symmetric] small_iff s'_def l'_def fun_eq_iff)
  next
    case False
    then show ?thesis
      using ff nx sz h d unfolding take_entry_def Let_def
      by (simp add: nexts_def [symmetric] small_iff s'_def l'_def fun_eq_iff)
  qed
  then obtain km' where run: "take_entry z h km = Some (e, km')" and sl: "slabs km' = (slabs km)(h := s')"
    and zo: "zone_of km' = (zone_of km)(z := ?zn\<lparr>slablist := l'\<rparr>)" and nxs: "nexts km' = nexts km"
    and w: "world km' = world km" by blast
  have l': "set l' = set (h # hs)" "distinct l'" using d by (auto simp: l'_def)
  have "slab_ok km' ?sz g ((F(h := rest)) g)" if "g \<in> set (h # hs)" for g
  proof (cases "g = h")
    case True
    then show ?thesis using sh ch ds sub nf' by (simp add: slab_ok_def sl nxs s'_def)
  next
    case False
    then show ?thesis using so [OF that] slab_ok_cong [of km' g km "F g" ?sz] by (simp add: sl nxs)
  qed
  then have zok: "zone_ok km' z (F(h := rest))" using sz l' by (simp add: zone_ok_def zo)
  have dj: "e \<notin> set (slab_objs ?sz (base_of g))" if "g \<in> set hs" for g
  proof -
    have "unat (base_of g) mod 4096 = 0" "unat (base_of h) mod 4096 = 0" using so [of g] so [of h] that by (auto simp: slab_ok_def)
    moreover have "base_of g \<noteq> base_of h" using d that by (auto simp: base_of_def)
    ultimately have "set (slab_objs ?sz (base_of g)) \<inter> set (slab_objs ?sz (base_of h)) = {}"
      by (intro slab_objs_disjoint [OF sz]) simp_all
    moreover have "e \<in> set (slab_objs ?sz (base_of h))" using sub by simp
    ultimately show ?thesis by blast
  qed
  have "live km' z (F(h := rest)) = insert e (live km z F)"
  proof -
    let ?o = "\<lambda>g. set (slab_objs ?sz (base_of g))"
    have "live km' z (F(h := rest)) = (?o h - set rest) \<union> (\<Union>g \<in> set hs. ?o g - set (F g))"
    proof -
      have "live km' z (F(h := rest)) = (\<Union>g \<in> set (h # hs). ?o g - set ((F(h := rest)) g))"
        using l'(1) by (simp add: live_def zo)
      also have "\<dots> = (?o h - set rest) \<union> (\<Union>g \<in> set hs. ?o g - set ((F(h := rest)) g))" by simp
      also have "(\<Union>g \<in> set hs. ?o g - set ((F(h := rest)) g)) = (\<Union>g \<in> set hs. ?o g - set (F g))"
        using d by (intro SUP_cong) auto
      finally show ?thesis .
    qed
    moreover have "live km z F = (?o h - set (e # rest)) \<union> (\<Union>g \<in> set hs. ?o g - set (F g))"
      using h n by (simp add: live_def)
    moreover have "?o h - set rest = insert e (?o h - set (e # rest))" using sub ds by auto
    ultimately show ?thesis by (simp only: Un_insert_left)
  qed
  moreover have "e \<notin> live km z F" using h n dj by (auto simp: live_def)
  ultimately show ?thesis using run zok l'(1) w nxs sl by (intro exI [of _ km']) (simp add: zo)
qed

subsection \<open>Making a small slab\<close>

lemma fold_set_next:
  "slabs (fold (\<lambda>i. set_next (p i) (q i)) is km) = slabs km \<and>
   zone_of (fold (\<lambda>i. set_next (p i) (q i)) is km) = zone_of km \<and>
   world (fold (\<lambda>i. set_next (p i) (q i)) is km) = world km"
  by (induction "is" arbitrary: km) simp_all

lemma fold_set_next_nexts:
  "inj_on p (set is) \<Longrightarrow> distinct is \<Longrightarrow> nexts (fold (\<lambda>i. set_next (p i) (q i)) is km) x =
     (case find (\<lambda>i. p i = x) is of Some i \<Rightarrow> q i | None \<Rightarrow> nexts km x)"
proof (induction "is" arbitrary: km)
  case (Cons i js)
  have "find (\<lambda>k. p k = x) js = None" if "p i = x"
    using Cons.prems that by (auto simp: find_None_iff inj_on_def)
  then show ?case using Cons by (auto split: option.split)
qed simp

text \<open>A chain that runs through equally spaced objects.\<close>

lemma chain_upt:
  assumes "i \<le> n" and "\<And>j. j < n \<Longrightarrow> nx (p j) = (if j = n - 1 then 0 else p (Suc j))"
    and "\<And>j. j < n \<Longrightarrow> p j \<noteq> 0"
  shows "chain nx (if i = n then 0 else p i) (map p [i..<n])"
  using assms(1)
proof (induction rule: inc_induct)
  case (step m)
  have "nx (p m) = (if Suc m = n then 0 else p (Suc m))" using assms(2) [of m] step.hyps by auto
  then show ?case using step assms(3) [of m] by (simp add: upt_conv_Cons)
qed simp

lemma small_slab_new_ok:
  assumes sz: "0 < unat (z_size (zone_of km z))" "unat (z_size (zone_of km z)) \<le> 256"
    and page: "po_kalloc po 1 kVMKSleep (world km) = Some (base, w)" "base \<noteq> 0" "unat base mod 4096 = 0"
  defines "sz \<equiv> z_size (zone_of km z)" and "hdr \<equiv> SMALL_SLAB_HDR base"
  shows "\<exists>km'. small_slab_new po z km = Some (hdr, km') \<and> slab_ok km' sz hdr (slab_objs sz base) \<and>
    zone_of km' = (zone_of km)(z := (zone_of km z)\<lparr>slablist := hdr # slablist (zone_of km z)\<rparr>) \<and> world km' = w \<and>
    (\<forall>g. g \<noteq> hdr \<longrightarrow> slabs km' g = slabs km g) \<and>
    (\<forall>x. x \<notin> set (slab_objs sz base) \<longrightarrow> nexts km' x = nexts km x)"
proof -
  note sz = sz [folded sz_def]
  let ?p = "\<lambda>i :: nat. base + of_nat i * sz"
  let ?c = "cap sz"
  have c: "15 \<le> ?c" by (rule cap_small(2) [OF sz])
  define km1 where "km1 = set_zone z (\<lambda>zn. zn\<lparr>slablist := hdr # slablist zn\<rparr>) (km\<lparr>world := w\<rparr>)"
  define km2 where "km2 = fold (\<lambda>i. set_next (?p i) (base + (of_nat i + 1) * sz)) [0..<?c] km1"
  define km3 where "km3 = set_next (?p (?c - 1)) 0 km2"
  define km4 where "km4 = set_slab hdr (\<lambda>s. s\<lparr>sl_zone := z, nfree := slabcapacity sz, firstfree := base\<rparr>) km3"
  have run: "small_slab_new po z km = Some (hdr, km4)"
    using page(1,2) c unfolding small_slab_new_def Let_def
    by (simp add: km1_def km2_def km3_def km4_def sz_def hdr_def cap_def)
  have k2: "slabs km2 = slabs km" "zone_of km2 = zone_of km1" "world km2 = w"
    by (simp_all add: km2_def km1_def fold_set_next)
  have inj: "inj_on ?p (set [0..<?c])"
    using slab_objs_distinct [OF sz page(3)] by (simp add: slab_objs_def distinct_map)
  have n2: "nexts km2 x = (case find (\<lambda>i. ?p i = x) [0..<?c] of Some i \<Rightarrow> base + (of_nat i + 1) * sz | None \<Rightarrow> nexts km x)" for x
  proof -
    have "nexts km1 = nexts km" by (simp add: km1_def)
    then show ?thesis
      unfolding km2_def fold_set_next_nexts [OF inj distinct_upt, of "\<lambda>i. base + (of_nat i + 1) * sz"] by (simp only:)
  qed
  have fd: "find (\<lambda>i. ?p i = ?p j) [0..<?c] = Some j" if "j < ?c" for j
  proof -
    have "find (\<lambda>i. ?p i = ?p j) [0..<?c] \<noteq> None" using that unfolding find_None_iff by auto
    then obtain i where i: "find (\<lambda>i. ?p i = ?p j) [0..<?c] = Some i" by auto
    then have "i < ?c" "?p i = ?p j" by (auto simp: find_Some_iff)
    then show ?thesis using i inj_onD [OF inj, of i j] that by simp
  qed
  have n4: "nexts km4 (?p j) = (if j = ?c - 1 then 0 else ?p (Suc j))" if "j < ?c" for j
  proof (cases "j = ?c - 1")
    case True
    then show ?thesis by (simp add: km4_def km3_def)
  next
    case False
    then have "?p j \<noteq> ?p (?c - 1)" using inj_onD [OF inj, of j "?c - 1"] that c by fastforce
    then have "nexts km4 (?p j) = nexts km2 (?p j)" unfolding km4_def km3_def set_simps by (rule fun_upd_other)
    also have "\<dots> = ?p (Suc j)" unfolding n2 fd [OF that] by (simp add: add.commute)
    finally show ?thesis using False by (simp only: if_False)
  qed
  have nz: "?p j \<noteq> 0" if "j < ?c" for j
    by (rule obj_nonzero [OF sz page(3,2)]) (use that in \<open>auto simp: slab_objs_def\<close>)
  have "chain (nexts km4) (if 0 = ?c then 0 else ?p 0) (map ?p [0..<?c])"
    by (rule chain_upt) (use n4 nz in auto)
  then have "chain (nexts km4) base (slab_objs sz base)" using c by (simp add: slab_objs_def)
  then have "slab_ok km4 sz hdr (slab_objs sz base)"
    using page slab_objs_distinct [OF sz page(3)]
    by (simp add: slab_ok_def hdr_def km4_def) (simp add: slab_objs_def cap_def)
  moreover have "nexts km4 x = nexts km x" if "x \<notin> set (slab_objs sz base)" for x
  proof -
    have "find (\<lambda>i. ?p i = x) [0..<?c] = None" using that by (auto simp: find_None_iff slab_objs_def)
    moreover have "?p (?c - 1) \<in> set (slab_objs sz base)" unfolding slab_objs_def set_map using c by (intro imageI) simp
    then have "x \<noteq> ?p (?c - 1)" using that by blast
    ultimately show ?thesis using n2 [of x] by (simp add: km4_def km3_def)
  qed
  moreover have "zone_of km4 = (zone_of km)(z := (zone_of km z)\<lparr>slablist := hdr # slablist (zone_of km z)\<rparr>)"
    by (simp add: km4_def km3_def k2 km1_def)
  moreover have "world km4 = w" "\<forall>g. g \<noteq> hdr \<longrightarrow> slabs km4 g = slabs km g" by (simp_all add: km4_def km3_def k2)
  ultimately show ?thesis using run by blast
qed

subsection \<open>All zones of small objects together\<close>

definition heap_ok :: "'w kmem \<Rightarrow> zone_ref set \<Rightarrow> (u64 \<Rightarrow> u64 list) \<Rightarrow> bool" where
  "heap_ok km Z F \<longleftrightarrow> (\<forall>z \<in> Z. zone_ok km z F) \<and>
     (\<forall>z \<in> Z. \<forall>y \<in> Z. z \<noteq> y \<longrightarrow> set (slablist (zone_of km z)) \<inter> set (slablist (zone_of km y)) = {})"

lemma zone_ok_frame:
  assumes "zone_ok km y F" and "zone_of km' y = zone_of km y"
    and "\<And>h. h \<in> set (slablist (zone_of km y)) \<Longrightarrow> slabs km' h = slabs km h \<and> F' h = F h"
    and "\<And>h x. h \<in> set (slablist (zone_of km y)) \<Longrightarrow> x \<in> set (F h) \<Longrightarrow> nexts km' x = nexts km x"
  shows "zone_ok km' y F'" and "live km' y F' = live km y F"
proof -
  have "slab_ok km' (z_size (zone_of km y)) h (F' h)" if "h \<in> set (slablist (zone_of km y))" for h
    using assms(1) assms(3) [OF that] slab_ok_cong [of km' h km "F h"] assms(4) that by (simp add: zone_ok_def)
  then show "zone_ok km' y F'" using assms(1,2) by (simp add: zone_ok_def)
  show "live km' y F' = live km y F" using assms(2,3) by (simp add: live_def)
qed

lemma heap_ok_step:
  assumes ok: "heap_ok km Z F" and z: "z \<in> Z" and zok: "zone_ok km' z F'"
    and fresh: "\<And>y h. y \<in> Z \<Longrightarrow> y \<noteq> z \<Longrightarrow> h \<in> set (slablist (zone_of km y)) \<Longrightarrow>
       h \<notin> set (slablist (zone_of km' z)) \<and> slabs km' h = slabs km h \<and> F' h = F h"
    and nx: "\<And>y h x. y \<in> Z \<Longrightarrow> y \<noteq> z \<Longrightarrow> h \<in> set (slablist (zone_of km y)) \<Longrightarrow> x \<in> set (F h) \<Longrightarrow> nexts km' x = nexts km x"
    and zo: "\<And>y. y \<noteq> z \<Longrightarrow> zone_of km' y = zone_of km y"
  shows "heap_ok km' Z F' \<and> (\<forall>y \<in> Z - {z}. live km' y F' = live km y F)"
proof -
  have other: "zone_ok km' y F' \<and> live km' y F' = live km y F" if "y \<in> Z" "y \<noteq> z" for y
  proof -
    have "zone_ok km y F" using ok that by (simp add: heap_ok_def)
    from zone_ok_frame [OF this zo [OF that(2)]] fresh [OF that] nx [OF that] show ?thesis by blast
  qed
  have "set (slablist (zone_of km' x)) \<inter> set (slablist (zone_of km' y)) = {}"
    if "x \<in> Z" "y \<in> Z" "x \<noteq> y" for x y
    using that ok zo fresh by (cases "x = z"; cases "y = z") (auto simp: heap_ok_def)
  then show ?thesis using other zok z by (auto simp: heap_ok_def)
qed

lemma take_heap_ok:
  assumes ok: "heap_ok km Z F" and z: "z \<in> Z" and h: "slablist (zone_of km z) = h # hs" and n: "F h \<noteq> []"
  shows "\<exists>x km' F'. take_entry z h km = Some (x, km') \<and> heap_ok km' Z F' \<and> x \<notin> live km z F \<and>
    live km' z F' = insert x (live km z F) \<and> (\<forall>y \<in> Z - {z}. live km' y F' = live km y F)"
proof -
  obtain x rest where x: "F h = x # rest" using n by (cases "F h") auto
  have "zone_ok km z F" using ok z by (simp add: heap_ok_def)
  from take_entry_ok [OF this h x] obtain km' where run: "take_entry z h km = Some (x, km')"
    and zok: "zone_ok km' z (F(h := rest))" and fr: "x \<notin> live km z F" "live km' z (F(h := rest)) = insert x (live km z F)"
    and sl: "set (slablist (zone_of km' z)) = set (h # hs)" and nx: "nexts km' = nexts km"
    and sb: "\<And>g. g \<noteq> h \<Longrightarrow> slabs km' g = slabs km g" and zo: "\<And>y. y \<noteq> z \<Longrightarrow> zone_of km' y = zone_of km y" by blast
  have "heap_ok km' Z (F(h := rest)) \<and> (\<forall>y \<in> Z - {z}. live km' y (F(h := rest)) = live km y F)"
  proof (rule heap_ok_step [OF ok z zok])
    fix y g assume y: "y \<in> Z" "y \<noteq> z" "g \<in> set (slablist (zone_of km y))"
    then have "g \<notin> set (h # hs)" using ok z h unfolding heap_ok_def by (metis disjoint_iff)
    then show "g \<notin> set (slablist (zone_of km' z)) \<and> slabs km' g = slabs km g \<and> (F(h := rest)) g = F g"
      using sl sb by auto
  qed (use nx zo in simp_all)
  then show ?thesis using run fr by blast
qed

definition slab_bases :: "'w kmem \<Rightarrow> zone_ref set \<Rightarrow> u64 set" where
  "slab_bases km Z = (\<Union>z \<in> Z. base_of ` set (slablist (zone_of km z)))"

lemma new_slab_heap_ok:
  assumes ok: "heap_ok km Z F" and z: "z \<in> Z"
    and page: "po_kalloc po 1 kVMKSleep (world km) = Some (base, w)" "base \<noteq> 0" "unat base mod 4096 = 0"
    and fresh: "base \<notin> slab_bases km Z"
  shows "\<exists>km' F'. small_slab_new po z km = Some (SMALL_SLAB_HDR base, km') \<and> heap_ok km' Z F' \<and>
    slablist (zone_of km' z) = SMALL_SLAB_HDR base # slablist (zone_of km z) \<and> F' (SMALL_SLAB_HDR base) \<noteq> [] \<and>
    (\<forall>y \<in> Z. live km' y F' = live km y F)"
proof -
  let ?sz = "z_size (zone_of km z)" and ?h = "SMALL_SLAB_HDR base"
  have zk: "zone_ok km z F" using ok z by (simp add: heap_ok_def)
  then have sz: "0 < unat ?sz" "unat ?sz \<le> 256" by (simp_all add: zone_ok_def)
  from small_slab_new_ok [OF sz page] obtain km' where run: "small_slab_new po z km = Some (?h, km')"
    and sok: "slab_ok km' ?sz ?h (slab_objs ?sz base)"
    and zo: "zone_of km' = (zone_of km)(z := (zone_of km z)\<lparr>slablist := ?h # slablist (zone_of km z)\<rparr>)"
    and sb: "\<And>g. g \<noteq> ?h \<Longrightarrow> slabs km' g = slabs km g"
    and nx: "\<And>x. x \<notin> set (slab_objs ?sz base) \<Longrightarrow> nexts km' x = nexts km x" by blast
  let ?F = "F(?h := slab_objs ?sz base)"
  have nh: "g \<noteq> ?h" if "y \<in> Z" "g \<in> set (slablist (zone_of km y))" for y g
  proof
    assume "g = ?h"
    then have "base = base_of g" by simp
    then show False using fresh that unfolding slab_bases_def by blast
  qed
  have nxF: "nexts km' x = nexts km x"
    if y: "y \<in> Z" and g: "g \<in> set (slablist (zone_of km y))" and x: "x \<in> set (F g)" for y g x
  proof -
    have yk: "0 < unat (z_size (zone_of km y))" "unat (z_size (zone_of km y)) \<le> 256"
      and gk: "slab_ok km (z_size (zone_of km y)) g (F g)" using ok y g by (auto simp: heap_ok_def zone_ok_def)
    then have "PGROUNDDOWN x = base_of g" using obj_page [OF yk] x by (auto simp: slab_ok_def)
    moreover have "base_of g \<noteq> base" using fresh y g by (auto simp: slab_bases_def)
    ultimately have "x \<notin> set (slab_objs ?sz base)" using obj_page [OF sz page(3)] by metis
    then show ?thesis by (rule nx)
  qed
  have "slab_ok km' ?sz g (?F g)" if "g \<in> set (?h # slablist (zone_of km z))" for g
  proof (cases "g = ?h")
    case False
    then show ?thesis using zk that slab_ok_cong [of km' g km "F g" ?sz] sb nxF [OF z] by (simp add: zone_ok_def)
  qed (use sok in simp)
  then have zok: "zone_ok km' z ?F" using zk nh [OF z] by (auto simp: zone_ok_def zo)
  have "heap_ok km' Z ?F \<and> (\<forall>y \<in> Z - {z}. live km' y ?F = live km y F)"
  proof (rule heap_ok_step [OF ok z zok])
    fix y g assume y: "y \<in> Z" "y \<noteq> z" "g \<in> set (slablist (zone_of km y))"
    then have "g \<notin> set (slablist (zone_of km z))" using ok z unfolding heap_ok_def by (metis disjoint_iff)
    then show "g \<notin> set (slablist (zone_of km' z)) \<and> slabs km' g = slabs km g \<and> ?F g = F g"
      using nh [OF y(1,3)] sb by (auto simp: zo)
  qed (use nxF zo in auto)
  moreover have "live km' z ?F = live km z F" using nh [OF z] by (auto simp: live_def zo)
  moreover have "slab_objs ?sz base \<noteq> []" using cap_small(2) [OF sz] by (simp add: slab_objs_def)
  ultimately show ?thesis using run by (intro exI [of _ km'] exI [of _ ?F]) (auto simp: zo)
qed

lemma zonealloc_heap_ok:
  assumes ok: "heap_ok km Z F" and z: "z \<in> Z"
    and page: "po_kalloc po 1 kVMKSleep (world km) = Some (base, w)" "base \<noteq> 0" "unat base mod 4096 = 0"
      "base \<notin> slab_bases km Z"
  shows "\<exists>x km' F'. zonealloc_with po large z km = Some (x, km') \<and> heap_ok km' Z F' \<and> x \<notin> live km z F \<and>
    live km' z F' = insert x (live km z F) \<and> (\<forall>y \<in> Z - {z}. live km' y F' = live km y F)"
proof -
  have zk: "zone_ok km z F" using ok z by (simp add: heap_ok_def)
  then have small: "z_size (zone_of km z) \<le> kSmallSlabMax" by (simp add: zone_ok_def small_iff)
  note cs = zonealloc_take [OF small, of po large]
  show ?thesis
  proof (cases "\<exists>h hs. slablist (zone_of km z) = h # hs \<and> nfree (slabs km h) \<noteq> 0")
    case True
    then obtain h hs where h: "slablist (zone_of km z) = h # hs" "nfree (slabs km h) \<noteq> 0" by blast
    then have "unat (nfree (slabs km h)) = length (F h)" using zk by (simp add: zone_ok_def slab_ok_def)
    then have "F h \<noteq> []" using h(2) by (auto simp: unat_eq_0)
    from take_heap_ok [OF ok z h(1) this] show ?thesis using cs h by simp
  next
    case False
    from new_slab_heap_ok [OF ok z page] obtain km1 F1
      where new: "small_slab_new po z km = Some (SMALL_SLAB_HDR base, km1)" and ok1: "heap_ok km1 Z F1"
        and sl: "slablist (zone_of km1 z) = SMALL_SLAB_HDR base # slablist (zone_of km z)"
        and fl: "F1 (SMALL_SLAB_HDR base) \<noteq> []" and lv: "\<forall>y \<in> Z. live km1 y F1 = live km y F" by blast
    have "zonealloc_with po large z km = take_entry z (SMALL_SLAB_HDR base) km1"
      using False new unfolding cs by (auto split: list.split)
    then show ?thesis using take_heap_ok [OF ok1 z sl fl] lv z by auto
  qed
qed

subsection \<open>Giving an object back\<close>

lemma zonefree_ok:
  assumes ok: "zone_ok km z F" and x: "x \<in> live km z F"
  defines "h \<equiv> SMALL_SLAB_HDR (PGROUNDDOWN x)"
  shows "\<exists>km'. kmem_zonefree z x km = Some km' \<and> zone_ok km' z (F(h := x # F h)) \<and> h \<in> set (slablist (zone_of km z)) \<and>
    live km' z (F(h := x # F h)) = live km z F - {x} \<and> zone_of km' = zone_of km \<and>
    (\<forall>g. g \<noteq> h \<longrightarrow> slabs km' g = slabs km g) \<and> (\<forall>y. y \<noteq> x \<longrightarrow> nexts km' y = nexts km y)"
proof -
  let ?sz = "z_size (zone_of km z)" and ?F = "F(h := x # F h)"
  have sz: "0 < unat ?sz" "unat ?sz \<le> 256" and so: "\<And>g. g \<in> set (slablist (zone_of km z)) \<Longrightarrow> slab_ok km ?sz g (F g)"
    using ok by (auto simp: zone_ok_def)
  obtain g where g: "g \<in> set (slablist (zone_of km z))" "x \<in> set (slab_objs ?sz (base_of g))" "x \<notin> set (F g)"
    using x by (auto simp: live_def)
  have al: "unat (base_of g) mod 4096 = 0" "base_of g \<noteq> 0" using so [OF g(1)] by (auto simp: slab_ok_def)
  have gh: "g = h" using obj_page [OF sz al(1) g(2)] by (simp add: h_def)
  note g = g [unfolded gh] and al = al [unfolded gh]
  have sh: "slab_ok km ?sz h (F h)" by (rule so [OF g(1)])
  have x0: "x \<noteq> 0" by (rule obj_nonzero [OF sz al g(2)])
  have "length (F h) = card (set (F h))" using sh by (simp add: slab_ok_def distinct_card)
  also have "\<dots> \<le> card (set (slab_objs ?sz (base_of h)))" using sh by (intro card_mono) (auto simp: slab_ok_def)
  also have "\<dots> \<le> 4064" using card_length [of "slab_objs ?sz (base_of h)"] cap_small(4) [OF sz] by (simp add: slab_objs_def)
  finally have nf: "unat (nfree (slabs km h) + 1) = Suc (length (F h))"
    using sh by (subst unat_add_nowrap) (simp_all add: slab_ok_def)
  define s' where "s' = (slabs km h)\<lparr>nfree := nfree (slabs km h) + 1, firstfree := x\<rparr>"
  obtain km' where run: "kmem_zonefree z x km = Some km'" and sl: "slabs km' = (slabs km)(h := s')"
    and zo: "zone_of km' = zone_of km" and nx: "nexts km' = (nexts km)(x := firstfree (slabs km h))"
    using sz by (auto simp: kmem_zonefree_def small_iff h_def s'_def Let_def fun_eq_iff)
  have other: "x \<notin> set (slab_objs ?sz (base_of k))" if "k \<in> set (slablist (zone_of km z))" "k \<noteq> h" for k
  proof -
    have "base_of k \<noteq> base_of h" using that(2) by (simp add: base_of_def)
    then show ?thesis using obj_page [OF sz, of "base_of k" x] obj_page [OF sz al(1) g(2)] so [OF that(1)]
      by (auto simp: slab_ok_def)
  qed
  have "slab_ok km' ?sz k (?F k)" if k: "k \<in> set (slablist (zone_of km z))" for k
  proof (cases "k = h")
    case True
    have "chain (nexts km') (firstfree (slabs km h)) (F h) \<longleftrightarrow> chain (nexts km) (firstfree (slabs km h)) (F h)"
      by (rule chain_cong) (use g(3) nx in auto)
    then show ?thesis using True sh nf g x0 by (simp add: slab_ok_def sl nx s'_def)
  next
    case False
    have "x \<notin> set (F k)" using other [OF k False] so [OF k] by (auto simp: slab_ok_def)
    then have "slab_ok km' ?sz k (F k) \<longleftrightarrow> slab_ok km ?sz k (F k)" by (intro slab_ok_cong) (use False sl nx in auto)
    then show ?thesis using so [OF k] False by simp
  qed
  then have "zone_ok km' z ?F" using ok by (simp add: zone_ok_def zo)
  moreover have "live km' z ?F = live km z F - {x}"
  proof -
    let ?o = "\<lambda>k. set (slab_objs ?sz (base_of k))"
    have "?o k - set (?F k) = (?o k - set (F k)) - {x}" if "k \<in> set (slablist (zone_of km z))" for k
      using other [OF that] by (cases "k = h") auto
    then have "live km' z ?F = (\<Union>k \<in> set (slablist (zone_of km z)). (?o k - set (F k)) - {x})"
      unfolding live_def zo by (intro SUP_cong refl)
    then show ?thesis unfolding live_def by blast
  qed
  ultimately show ?thesis using run g(1) zo sl nx by (intro exI [of _ km']) auto
qed

lemma zonefree_heap_ok:
  assumes ok: "heap_ok km Z F" and z: "z \<in> Z" and x: "x \<in> live km z F"
  shows "\<exists>km' F'. kmem_zonefree z x km = Some km' \<and> heap_ok km' Z F' \<and>
    live km' z F' = live km z F - {x} \<and> (\<forall>y \<in> Z - {z}. live km' y F' = live km y F)"
proof -
  let ?h = "SMALL_SLAB_HDR (PGROUNDDOWN x)"
  let ?F = "F(?h := x # F ?h)"
  have "zone_ok km z F" using ok z by (simp add: heap_ok_def)
  from zonefree_ok [OF this x] obtain km' where run: "kmem_zonefree z x km = Some km'" and zok: "zone_ok km' z ?F"
    and h: "?h \<in> set (slablist (zone_of km z))" and lv: "live km' z ?F = live km z F - {x}" and zo: "zone_of km' = zone_of km"
    and sb: "\<And>g. g \<noteq> ?h \<Longrightarrow> slabs km' g = slabs km g" and nx: "\<And>y. y \<noteq> x \<Longrightarrow> nexts km' y = nexts km y" by blast
  have nh: "g \<notin> set (slablist (zone_of km z)) \<and> g \<noteq> ?h" if "y \<in> Z" "y \<noteq> z" "g \<in> set (slablist (zone_of km y))" for y g
    using ok z h that unfolding heap_ok_def by (metis disjoint_iff)
  have "heap_ok km' Z ?F \<and> (\<forall>y \<in> Z - {z}. live km' y ?F = live km y F)"
  proof (rule heap_ok_step [OF ok z zok])
    fix y g u assume y: "y \<in> Z" "y \<noteq> z" and g: "g \<in> set (slablist (zone_of km y))" and u: "u \<in> set (F g)"
    have "zone_ok km y F" using ok y by (simp add: heap_ok_def)
    then have sz: "0 < unat (z_size (zone_of km y))" "unat (z_size (zone_of km y)) \<le> 256"
      and sg: "slab_ok km (z_size (zone_of km y)) g (F g)" using g by (auto simp: zone_ok_def)
    have "PGROUNDDOWN u = base_of g" using obj_page [OF sz] sg u by (auto simp: slab_ok_def)
    then have "u \<noteq> x" using nh [OF y g] base_of_hdr(2) [of g] by auto
    then show "nexts km' u = nexts km u" by (rule nx)
  qed (use nh sb zo in auto)
  then show ?thesis using run lv by blast
qed

end
