(* ===== verification/Kmem_Spec.thy ===== *)
theory Kmem_Spec
  imports Kmem_Inv
begin

text \<open>
  What the kernel heap promises its callers for objects that fit a small slab (up to 256 bytes):
  an allocation returns memory of at least the size asked for that overlaps no other live object
  of any zone, and freeing it makes exactly that object available again. The state after
  \<^verbatim>\<open>kmem_init\<close> satisfies the invariant the two need.
\<close>

subsection \<open>The invariant of the heap\<close>

definition small_zones :: "zone_ref set" where
  "small_zones = {Zone_kmem_slab, Zone_kmem_bufctl} \<union> Zone_alloc ` {..<16}"

definition zone_sizes_ok :: "'w kmem \<Rightarrow> bool" where
  "zone_sizes_ok km \<longleftrightarrow> (\<forall>i < 32. z_size (zone_of km (Zone_alloc i)) = of_nat (ZONE_SIZES ! i))"

definition kmem_ok :: "'w kmem \<Rightarrow> (u64 \<Rightarrow> u64 list) \<Rightarrow> bool" where
  "kmem_ok km F \<longleftrightarrow> heap_ok km small_zones F \<and> zone_sizes_ok km"

text \<open>The bytes of an object.\<close>

definition obj_bytes :: "u64 \<Rightarrow> u64 \<Rightarrow> nat set" where
  "obj_bytes sz x = {unat x ..< unat x + unat sz}"

lemma slab_bytes:
  assumes "0 < unat sz" "unat sz \<le> 256" "unat b mod 4096 = 0" "x \<in> set (slab_objs sz b)"
  shows "obj_bytes sz x \<subseteq> {unat b ..< unat b + 4064}"
proof -
  obtain i where i: "i < cap sz" "x = b + of_nat i * sz" using assms(4) by (auto simp: slab_objs_def)
  then show ?thesis using obj_unat [OF assms(1-3) i(1)] by (auto simp: obj_bytes_def)
qed

lemma slab_bytes_disjoint:
  assumes "0 < unat sz" "unat sz \<le> 256" "unat b mod 4096 = 0"
    and "x \<in> set (slab_objs sz b)" "y \<in> set (slab_objs sz b)" "x \<noteq> y"
  shows "obj_bytes sz x \<inter> obj_bytes sz y = {}"
proof -
  obtain i j where ij: "i < cap sz" "x = b + of_nat i * sz" "j < cap sz" "y = b + of_nat j * sz"
    using assms(4,5) by (auto simp: slab_objs_def)
  have u: "unat x = unat b + i * unat sz" "unat y = unat b + j * unat sz"
    using obj_unat(1) [OF assms(1-3)] ij by simp_all
  consider "i < j" | "j < i" using assms(6) ij by (metis nat_neq_iff)
  then have "i * unat sz + unat sz \<le> j * unat sz \<or> j * unat sz + unat sz \<le> i * unat sz"
  proof cases
    case 1
    then have "(i + 1) * unat sz \<le> j * unat sz" by (intro mult_le_mono1) simp
    then show ?thesis by simp
  next
    case 2
    then have "(j + 1) * unat sz \<le> i * unat sz" by (intro mult_le_mono1) simp
    then show ?thesis by simp
  qed
  then show ?thesis by (auto simp: obj_bytes_def u)
qed

lemma page_ranges_disjoint:
  assumes "unat (b :: u64) mod 4096 = 0" "unat (c :: u64) mod 4096 = 0" "b \<noteq> c"
  shows "{unat b ..< unat b + 4064} \<inter> {unat c ..< unat c + 4064} = {}"
proof -
  obtain m n where mn: "unat b = 4096 * m" "unat c = 4096 * n" using assms(1,2) by (metis dvdE mod_0_imp_dvd)
  have "m \<noteq> n" using mn assms(3) by (metis word_unat_eq_iff)
  then have "m + 1 \<le> n \<or> n + 1 \<le> m" by linarith
  then show ?thesis by (auto simp: mn)
qed

lemma live_in_slab:
  assumes "heap_ok km Z F" "z \<in> Z" "x \<in> live km z F"
  obtains h where "h \<in> set (slablist (zone_of km z))" "unat (base_of h) mod 4096 = 0"
    "x \<in> set (slab_objs (z_size (zone_of km z)) (base_of h))"
    "0 < unat (z_size (zone_of km z))" "unat (z_size (zone_of km z)) \<le> 256"
  using assms by (force simp: heap_ok_def zone_ok_def slab_ok_def live_def)

text \<open>No two live objects overlap, whatever their zones.\<close>

lemma live_disjoint:
  assumes ok: "heap_ok km Z F" and z: "z \<in> Z" "x \<in> live km z F" and y: "y \<in> Z" "x' \<in> live km y F"
    and ne: "(z, x) \<noteq> (y, x')"
  shows "obj_bytes (z_size (zone_of km z)) x \<inter> obj_bytes (z_size (zone_of km y)) x' = {}"
proof -
  obtain h where h: "h \<in> set (slablist (zone_of km z))" "unat (base_of h) mod 4096 = 0"
    "x \<in> set (slab_objs (z_size (zone_of km z)) (base_of h))"
    "0 < unat (z_size (zone_of km z))" "unat (z_size (zone_of km z)) \<le> 256" by (rule live_in_slab [OF ok z])
  obtain g where g: "g \<in> set (slablist (zone_of km y))" "unat (base_of g) mod 4096 = 0"
    "x' \<in> set (slab_objs (z_size (zone_of km y)) (base_of g))"
    "0 < unat (z_size (zone_of km y))" "unat (z_size (zone_of km y)) \<le> 256" by (rule live_in_slab [OF ok y])
  show ?thesis
  proof (cases "h = g")
    case True
    then have "z = y" using ok z(1) y(1) h(1) g(1) unfolding heap_ok_def by (metis disjoint_iff)
    then show ?thesis using slab_bytes_disjoint [OF h(4,5,2,3), of x'] g True ne by simp
  next
    case False
    then have "base_of h \<noteq> base_of g" by (simp add: base_of_def)
    from page_ranges_disjoint [OF h(2) g(2) this] slab_bytes [OF h(4,5,2,3)] slab_bytes [OF g(4,5,2,3)]
    show ?thesis by blast
  qed
qed

subsection \<open>Sizes of zones never change\<close>

lemma small_slab_new_sizes:
  assumes "small_slab_new po z km = Some (h, km')"
  shows "z_size (zone_of km' y) = z_size (zone_of km y)"
  using assms fold_set_next unfolding small_slab_new_def Let_def
  by (auto simp: kassert_def fold_set_next split: Option.bind_splits if_splits)

lemma take_entry_sizes:
  assumes "take_entry z h km = Some (x, km')"
  shows "z_size (zone_of km' y) = z_size (zone_of km y)"
  using assms unfolding take_entry_def Let_def
  by (auto simp: kassert_def split: Option.bind_splits if_splits)

lemma zonealloc_sizes:
  assumes "z_size (zone_of km z) \<le> kSmallSlabMax" and "zonealloc_with po large z km = Some (x, km')"
  shows "z_size (zone_of km' y) = z_size (zone_of km y)"
  using assms(2) unfolding zonealloc_take [OF assms(1)]
  by (auto split: list.splits if_splits Option.bind_splits dest!: small_slab_new_sizes [where y = y] take_entry_sizes [where y = y])

lemma zonefree_sizes:
  assumes "kmem_zonefree z x km = Some km'"
  shows "z_size (zone_of km' y) = z_size (zone_of km y)"
  using assms unfolding kmem_zonefree_def Let_def
  by (auto split: Option.bind_splits if_splits)

subsection \<open>Allocation and release by size\<close>

lemma zone_sizes_table:
  "list_all (\<lambda>i. 256 \<le> ZONE_SIZES ! (i - 1)) [16..<32]" "list_all (\<lambda>i. ZONE_SIZES ! i \<le> 4096 \<and> 0 < ZONE_SIZES ! i) [0..<32]"
  "list_all (\<lambda>i. ZONE_SIZES ! i \<le> 256) [0..<16]"
  by (simp_all add: ZONE_SIZES_def upt_rec)

lemma zone_of_small_size:
  assumes "0 < unat sz" "unat sz \<le> 256"
  obtains i where "zonenum sz = int i" "i < 16" "unat sz \<le> ZONE_SIZES ! i" "i = 0 \<or> ZONE_SIZES ! (i - 1) < unat sz"
proof -
  have zf: "zone_fits (zonenum sz) sz" using assms by (intro zonenum_fits) simp_all
  have pred: "nat (int n - 1) = n - 1" for n by linarith
  obtain i where i: "zonenum sz = int i" "i < 32" "unat sz \<le> ZONE_SIZES ! i" "i = 0 \<or> ZONE_SIZES ! (i - 1) < unat sz"
    using zf by (cases "zonenum sz") (auto simp: zone_fits_def pred)
  have "i < 16"
  proof (rule ccontr)
    assume "\<not> i < 16"
    then have "256 \<le> ZONE_SIZES ! (i - 1)" using zone_sizes_table(1) [unfolded list_all_iff set_upt] i(2) by (meson atLeastLessThan_iff not_less)
    then show False using i(4) assms(2) \<open>\<not> i < 16\<close> by linarith
  qed
  then show ?thesis using that i by blast
qed

lemma zone_size_unat:
  assumes "zone_sizes_ok km" "i < 32"
  shows "unat (z_size (zone_of km (Zone_alloc i))) = ZONE_SIZES ! i"
proof -
  have "ZONE_SIZES ! i \<le> 4096" using zone_sizes_table(2) assms(2) by (simp add: list_all_iff)
  then show ?thesis using assms by (simp add: zone_sizes_ok_def)
qed

definition size_zone :: "u64 \<Rightarrow> zone_ref" where
  "size_zone sz = Zone_alloc (nat (zonenum sz))"

lemma size_zone_small:
  assumes "0 < unat sz" "unat sz \<le> 256"
  shows "size_zone sz \<in> small_zones" and "zonenum sz \<noteq> - 1"
  by (rule zone_of_small_size [OF assms]; simp add: size_zone_def small_zones_def)+

lemma kmem_alloc_small:
  assumes ok: "kmem_ok km F" and sz: "0 < unat sz" "unat sz \<le> 256"
    and page: "po_kalloc po 1 kVMKSleep (world km) = Some (base, w)" "base \<noteq> 0" "unat base mod 4096 = 0"
      "base \<notin> slab_bases km small_zones"
  shows "\<exists>x km' F'. kmem_alloc po sz km = Some (x, km') \<and> kmem_ok km' F' \<and> x \<notin> live km (size_zone sz) F \<and>
    live km' (size_zone sz) F' = insert x (live km (size_zone sz) F) \<and>
    (\<forall>y \<in> small_zones - {size_zone sz}. live km' y F' = live km y F) \<and>
    (\<forall>y \<in> small_zones. \<forall>x' \<in> live km y F.
       {unat x ..< unat x + unat sz} \<inter> obj_bytes (z_size (zone_of km y)) x' = {})"
proof -
  let ?z = "size_zone sz"
  have hk: "heap_ok km small_zones F" and zs: "zone_sizes_ok km" using ok by (simp_all add: kmem_ok_def)
  note zin = size_zone_small [OF sz]
  obtain i where i: "zonenum sz = int i" "i < 16" "unat sz \<le> ZONE_SIZES ! i" by (rule zone_of_small_size [OF sz])
  have fit: "unat sz \<le> unat (z_size (zone_of km ?z))" using zone_size_unat [OF zs, of i] i by (simp add: size_zone_def)
  have small: "z_size (zone_of km ?z) \<le> kSmallSlabMax"
    using hk zin by (auto simp: heap_ok_def zone_ok_def small_iff)
  obtain x km' F' where run: "kmem_zonealloc po ?z km = Some (x, km')" and hk': "heap_ok km' small_zones F'"
    and fr: "x \<notin> live km ?z F" "live km' ?z F' = insert x (live km ?z F)"
      "\<forall>y \<in> small_zones - {?z}. live km' y F' = live km y F"
    using zonealloc_heap_ok [OF hk zin(1) page] unfolding kmem_zonealloc_def by metis
  have same: "z_size (zone_of km' y) = z_size (zone_of km y)" for y
    using zonealloc_sizes [OF small] run by (simp add: kmem_zonealloc_def)
  have "kmem_alloc po sz km = Some (x, km')"
    using run zin(2) sz(1) by (simp add: kmem_alloc_def size_zone_def word_less_nat_alt)
  moreover have "kmem_ok km' F'" using hk' zs same by (simp add: kmem_ok_def zone_sizes_ok_def)
  moreover have "{unat x ..< unat x + unat sz} \<inter> obj_bytes (z_size (zone_of km y)) x' = {}"
    if y: "y \<in> small_zones" "x' \<in> live km y F" for y x'
  proof -
    have "x' \<in> live km' y F'" "(?z, x) \<noteq> (y, x')" using y fr by (cases "y = ?z"; auto)+
    from live_disjoint [OF hk' zin(1) _ y(1) this(1) this(2)]
    have "obj_bytes (z_size (zone_of km ?z)) x \<inter> obj_bytes (z_size (zone_of km y)) x' = {}" using fr(2) same by simp
    moreover have "{unat x ..< unat x + unat sz} \<subseteq> obj_bytes (z_size (zone_of km ?z)) x" using fit by (auto simp: obj_bytes_def)
    ultimately show ?thesis by blast
  qed
  ultimately show ?thesis using fr by blast
qed

text \<open>(C7) kmem_free of a live object of up to 256 bytes succeeds, removes exactly that
  object from the live objects of its zone, changes no other zone and keeps the heap well formed.\<close>

theorem kmem_free_small_correct:
  assumes ok: "kmem_ok km F" and sz: "0 < unat sz" "unat sz \<le> 256" and x: "x \<in> live km (size_zone sz) F"
  shows "\<exists>km' F'. kmem_free po x sz km = Some km' \<and> kmem_ok km' F' \<and>
    live km' (size_zone sz) F' = live km (size_zone sz) F - {x} \<and>
    (\<forall>y \<in> small_zones - {size_zone sz}. live km' y F' = live km y F)"
proof -
  have hk: "heap_ok km small_zones F" and zs: "zone_sizes_ok km" using ok by (simp_all add: kmem_ok_def)
  note zin = size_zone_small [OF sz]
  obtain km' F' where run: "kmem_zonefree (size_zone sz) x km = Some km'" and hk': "heap_ok km' small_zones F'"
    and lv: "live km' (size_zone sz) F' = live km (size_zone sz) F - {x}"
      "\<forall>y \<in> small_zones - {size_zone sz}. live km' y F' = live km y F"
    using zonefree_heap_ok [OF hk zin(1) x] by blast
  have "kmem_ok km' F'" using hk' zs zonefree_sizes [OF run] by (simp add: kmem_ok_def zone_sizes_ok_def)
  moreover have "kmem_free po x sz km = Some km'"
    using run zin(2) sz(1) by (simp add: kmem_free_def size_zone_def word_less_nat_alt)
  ultimately show ?thesis using lv by blast
qed

subsection \<open>After initialisation\<close>

lemma fold_zone_init:
  "zone_of (fold (\<lambda>i. kmem_zone_init (Zone_alloc i) (nm i) (s i)) is km) y =
     (case y of Zone_alloc i \<Rightarrow> if i \<in> set is then \<lparr>z_name = nm i, z_size = s i, slablist = [], bufctllist = []\<rparr>
        else zone_of km y | _ \<Rightarrow> zone_of km y)"
  by (induction "is" arbitrary: km) (auto simp: kmem_zone_init_def split: zone_ref.split)

lemma kmem_init_ok:
  "kmem_ok (kmem_init nm km) F \<and> (\<forall>z \<in> small_zones. live (kmem_init nm km) z F = {}) \<and>
   slab_bases (kmem_init nm km) small_zones = {}"
proof -
  let ?km = "kmem_init nm km"
  have zo: "zone_of ?km (Zone_alloc i) = \<lparr>z_name = nm i, z_size = of_nat (ZONE_SIZES ! i), slablist = [], bufctllist = []\<rparr>"
    if "i < 32" for i
    using that by (simp add: kmem_init_def Let_def fold_zone_init)
  have zs: "zone_of ?km Zone_kmem_slab = \<lparr>z_name = ''kmem_slab'', z_size = sizeof_kmem_slab + 8, slablist = [], bufctllist = []\<rparr>"
    "zone_of ?km Zone_kmem_bufctl = \<lparr>z_name = ''kmem_bufctl'', z_size = sizeof_kmem_bufctl, slablist = [], bufctllist = []\<rparr>"
    by (simp_all add: kmem_init_def Let_def fold_zone_init kmem_zone_init_def)
  have tab: "0 < ZONE_SIZES ! i \<and> ZONE_SIZES ! i \<le> 256" if "i < 16" for i
    using zone_sizes_table that by (simp add: list_all_iff)
  have e: "slablist (zone_of ?km z) = [] \<and> 0 < unat (z_size (zone_of ?km z)) \<and> unat (z_size (zone_of ?km z)) \<le> 256"
    if "z \<in> small_zones" for z
    using that tab by (fastforce simp: small_zones_def zo zs sizeof_kmem_slab_def sizeof_kmem_bufctl_def)
  then have "heap_ok ?km small_zones F" by (simp add: heap_ok_def zone_ok_def)
  moreover have "zone_sizes_ok ?km" by (simp add: zone_sizes_ok_def zo)
  ultimately show ?thesis using e by (simp add: kmem_ok_def live_def slab_bases_def)
qed

theorem kmem_init_correct:
  "kmem_ok (kmem_init nm km) F \<and> (\<Union>z \<in> small_zones. live (kmem_init nm km) z F) = {} \<and>
   slab_bases (kmem_init nm km) small_zones = {}"
  using kmem_init_ok by simp

text \<open>(C6) On a well-formed kernel heap and a page supply that returns a fresh page when
  asked, kmem_alloc of up to 256 bytes succeeds: the object was not live, its bytes overlap no
  live object of any zone of small objects, exactly this object becomes live, and every free list
  stays a chain of distinct objects whose length is the recorded number of free objects.\<close>

theorem kmem_alloc_small_correct:
  assumes "kmem_ok km F" and "0 < unat sz" "unat sz \<le> 256"
    and "po_kalloc po 1 kVMKSleep (world km) = Some (base, w)" "base \<noteq> 0" "unat base mod 4096 = 0"
      "base \<notin> slab_bases km small_zones"
  shows "\<exists>x km' F'. kmem_alloc po sz km = Some (x, km') \<and> kmem_ok km' F' \<and> x \<notin> live km (size_zone sz) F \<and>
    live km' (size_zone sz) F' = insert x (live km (size_zone sz) F) \<and>
    (\<forall>y \<in> small_zones - {size_zone sz}. live km' y F' = live km y F) \<and>
    (\<forall>y \<in> small_zones. \<forall>x' \<in> live km y F.
       {unat x ..< unat x + unat sz} \<inter> obj_bytes (z_size (zone_of km y)) x' = {})"
  by (rule kmem_alloc_small [OF assms])

text \<open>A heap just initialised, over a page supply that hands out pages upwards from 1 MiB.\<close>

definition demo_pages :: "u64 page_ops" where
  "demo_pages = \<lparr>po_kalloc = \<lambda>n _ w. Some (w, w + of_nat n * PGSIZE), po_kfree = \<lambda>_ _ w. Some w\<rparr>"

definition demo_heap :: "u64 kmem" where
  "demo_heap = kmem_init (\<lambda>_. []) \<lparr>bufctls = \<lambda>_. \<lparr>sle_next = 0, bc_slab = 0, bc_base = 0\<rparr>,
     slabs = \<lambda>_. \<lparr>sl_zone = Zone_kmem_slab, nfree = 0, firstfree = 0, sl_data = 0\<rparr>,
     zone_of = \<lambda>_. \<lparr>z_name = [], z_size = 0, slablist = [], bufctllist = []\<rparr>, kmem_zones = [],
     kbytes = \<lambda>_. 0, world = 0x100000\<rparr>"

lemma demo_heap_ok:
  "kmem_ok demo_heap (\<lambda>_. [])" "slab_bases demo_heap small_zones = {}" "z \<in> small_zones \<Longrightarrow> live demo_heap z (\<lambda>_. []) = {}"
  using kmem_init_ok unfolding demo_heap_def by blast+

lemma demo_heap_page: "po_kalloc demo_pages 1 kVMKSleep (world demo_heap) = Some (0x100000, 0x101000)"
  by code_simp

theorem kmem_alloc_small_correct_witness:
  "\<exists>x km' F'. kmem_alloc demo_pages 24 demo_heap = Some (x, km') \<and> kmem_ok km' F' \<and> live km' (size_zone 24) F' = {x}"
proof -
  have "size_zone 24 \<in> small_zones" by (rule size_zone_small) simp_all
  then have "live demo_heap (size_zone 24) (\<lambda>_. []) = {}" by (rule demo_heap_ok)
  moreover have "\<exists>x km' F'. kmem_alloc demo_pages 24 demo_heap = Some (x, km') \<and> kmem_ok km' F' \<and>
      live km' (size_zone 24) F' = insert x (live demo_heap (size_zone 24) (\<lambda>_. []))"
    using kmem_alloc_small_correct [OF demo_heap_ok(1) _ _ demo_heap_page, of 24] demo_heap_ok(2) by auto
  ultimately show ?thesis by simp
qed

theorem kmem_free_small_correct_witness:
  "\<exists>x km1 km2 F2. kmem_alloc demo_pages 24 demo_heap = Some (x, km1) \<and> kmem_free demo_pages x 24 km1 = Some km2 \<and>
     kmem_ok km2 F2 \<and> live km2 (size_zone 24) F2 = {}"
proof -
  have "size_zone 24 \<in> small_zones" by (rule size_zone_small) simp_all
  then have e: "live demo_heap (size_zone 24) (\<lambda>_. []) = {}" by (rule demo_heap_ok)
  obtain x km1 F1 where a: "kmem_alloc demo_pages 24 demo_heap = Some (x, km1)" "kmem_ok km1 F1" "live km1 (size_zone 24) F1 = {x}"
    using kmem_alloc_small [OF demo_heap_ok(1) _ _ demo_heap_page, of 24] demo_heap_ok(2) e by auto
  obtain km2 F2 where "kmem_free demo_pages x 24 km1 = Some km2" "kmem_ok km2 F2" "live km2 (size_zone 24) F2 = {x} - {x}"
    using kmem_free_small_correct [OF a(2), where sz = 24 and x = x and po = demo_pages] a(3) by auto
  then show ?thesis using a(1) by auto
qed

text \<open>The zone a size is served from is the smallest that holds it.\<close>

theorem zonenum_tight:
  assumes "0 < unat sz" and "unat sz \<le> 4096"
  shows "0 \<le> zonenum sz \<and> zonenum sz < 32 \<and> unat sz \<le> ZONE_SIZES ! nat (zonenum sz) \<and>
    (zonenum sz = 0 \<or> ZONE_SIZES ! nat (zonenum sz - 1) < unat sz)"
  using zonenum_fits [OF assms] by (simp add: zone_fits_def)

theorem zonenum_tight_witness:
  "zonenum 100 = 10 \<and> 100 \<le> ZONE_SIZES ! 10 \<and> ZONE_SIZES ! 9 < 100"
proof -
  have z: "zonenum 100 = 10" by code_simp
  show ?thesis using zonenum_tight [of 100] unfolding z by simp
qed

end
