(* ===== verification/Sched.thy ===== *)
theory Sched
  imports Prelude
begin

text \<open>
  Threads, processors, callouts and wait queues: \<^verbatim>\<open>kern/task.c\<close>, \<^verbatim>\<open>kern/task.h\<close>, \<^verbatim>\<open>kern/sync.h\<close>
  and the parts of \<^verbatim>\<open>x86_64/intr.c\<close> and \<^verbatim>\<open>x86_64/machdep.c\<close> they rest on. An operation takes the
  number of the processor it runs on (\<^verbatim>\<open>curcpu()\<close>) and the state of the kernel. It runs with
  interrupts off, as the code does between \<^verbatim>\<open>md_intr_disable\<close> and \<^verbatim>\<open>md_intr_x\<close>, so it is one step
  of its processor; what other processors may do in between is the subject of \<open>Mutex\<close> and of the
  step relation of \<open>Sched_Spec\<close>, where a wait is two steps with other processors in between.
  \<open>None\<close> is a failed assertion, or a spinlock that is never released.

  A thread that gives up the processor goes on when it is switched to again: an operation that
  reschedules ends, in the model, with the switch.
\<close>

subsection \<open>Data\<close>

type_synonym thread_ref = u64
type_synonym cpu_ref = nat
type_synonym callout_ref = nat
type_synonym wq_ref = nat
type_synonym sem_ref = nat
type_synonym task_ref = nat

definition NS_PER_S :: u64 where "NS_PER_S = 1000000000"

definition kIntNumLAPICTimer :: nat where "kIntNumLAPICTimer = 223"
definition kIntNumSwitch :: nat where "kIntNumSwitch = 240"
definition kIntNumInvlPG :: nat where "kIntNumInvlPG = 241"
definition kIntNumReschedule :: nat where "kIntNumReschedule = 242"

definition kLAPICRegEOI :: u32 where "kLAPICRegEOI = 0xb0"
definition kLAPICRegSpurious :: u32 where "kLAPICRegSpurious = 0xf0"
definition kLAPICRegICR0 :: u32 where "kLAPICRegICR0 = 0x300"
definition kLAPICRegICR1 :: u32 where "kLAPICRegICR1 = 0x310"
definition kLAPICRegTimerInitial :: u32 where "kLAPICRegTimerInitial = 0x380"
definition kLAPICRegTimerCurrentCount :: u32 where "kLAPICRegTimerCurrentCount = 0x390"

record md_intr_frame =
  f_rax :: u64  f_rbx :: u64  f_rcx :: u64  f_rdx :: u64  f_rdi :: u64  f_rsi :: u64
  f_r8 :: u64  f_r9 :: u64  f_r10 :: u64  f_r11 :: u64  f_r12 :: u64  f_r13 :: u64  f_r14 :: u64  f_r15 :: u64
  f_rbp :: u64  f_code :: u64
  f_rip :: u64  f_cs :: u64  f_rflags :: u64  f_rsp :: u64  f_ss :: u64

record md_thread =
  md_frame :: md_intr_frame
  md_fs :: u64

datatype thread_state = kThreadRunnable | kThreadRunning | kThreadWaiting | kThreadExiting

datatype waitq_result = kWQSuccess | KWQTimeout

record waitq =
  wq_lock :: bool
  wq_waiters :: "thread_ref list"

record semaphore =
  sem_count :: u32
  sem_wq :: wq_ref

record thread =
  th_lock :: bool
  th_wq :: "wq_ref option"
  th_wqres :: waitq_result
  th_cpu :: cpu_ref
  th_state :: thread_state
  th_in_pagefault :: bool
  th_kstack :: u64
  th_ustack :: u64
  th_task :: task_ref
  th_md :: md_thread

record task =
  task_name :: string
  task_map :: nat
  task_threads :: "thread_ref list"

text \<open>Callbacks of callouts: the timeslicer of the scheduler, or a function of a driver.\<close>

datatype callback = CbTimeslice | CbOther u64

datatype callout_state = kCalloutDisabled | kCalloutPending

record callout =
  co_callback :: callback
  co_arg :: u64
  co_nanosecs :: u64
  co_state :: callout_state

text \<open>
  A processor, with its local APIC as a file of registers and with the context (general registers
  and FS base) that an interrupt would save.
\<close>

record cpu =
  cpu_num :: int
  cpu_curthread :: thread_ref
  cpu_idlethread :: thread_ref
  cpu_runqueue :: "thread_ref list"
  cpu_preempted :: bool
  cpu_inInterrupt :: bool
  cpu_timeslicer :: callout_ref
  cpu_pendingcallouts :: "callout_ref list"
  cpu_lapic_id :: u64
  cpu_lapic_tps :: u64
  cpu_old :: thread_ref
  cpu_lapic :: "u32 \<Rightarrow> u32"
  cpu_regs :: md_intr_frame
  cpu_fs :: u64

text \<open>The state; \<open>ks_world\<close> is what the callbacks and handlers of other components work on.\<close>

record 'w ks =
  ks_thread :: "thread_ref \<Rightarrow> thread"
  ks_cpu :: "cpu_ref \<Rightarrow> cpu"
  ks_callout :: "callout_ref \<Rightarrow> callout"
  ks_wq :: "wq_ref \<Rightarrow> waitq"
  ks_sem :: "sem_ref \<Rightarrow> semaphore"
  ks_task :: "task_ref \<Rightarrow> task"
  ks_sched_lock :: bool
  ks_ncpu :: int
  ks_lastcpu :: int
  ks_world :: 'w

definition set_thread :: "thread_ref \<Rightarrow> (thread \<Rightarrow> thread) \<Rightarrow> 'w ks \<Rightarrow> 'w ks" where
  "set_thread t f s = s\<lparr>ks_thread := (ks_thread s)(t := f (ks_thread s t))\<rparr>"

definition set_cpu :: "cpu_ref \<Rightarrow> (cpu \<Rightarrow> cpu) \<Rightarrow> 'w ks \<Rightarrow> 'w ks" where
  "set_cpu c f s = s\<lparr>ks_cpu := (ks_cpu s)(c := f (ks_cpu s c))\<rparr>"

definition set_callout :: "callout_ref \<Rightarrow> (callout \<Rightarrow> callout) \<Rightarrow> 'w ks \<Rightarrow> 'w ks" where
  "set_callout k f s = s\<lparr>ks_callout := (ks_callout s)(k := f (ks_callout s k))\<rparr>"

definition set_wq :: "wq_ref \<Rightarrow> (waitq \<Rightarrow> waitq) \<Rightarrow> 'w ks \<Rightarrow> 'w ks" where
  "set_wq w f s = s\<lparr>ks_wq := (ks_wq s)(w := f (ks_wq s w))\<rparr>"

lemmas set_defs = set_thread_def set_cpu_def set_callout_def set_wq_def

definition curthread :: "cpu_ref \<Rightarrow> 'w ks \<Rightarrow> thread_ref" where
  "curthread c s = cpu_curthread (ks_cpu s c)"

definition curtask :: "cpu_ref \<Rightarrow> 'w ks \<Rightarrow> task_ref" where
  "curtask c s = th_task (ks_thread s (curthread c s))"

subsection \<open>Spinlocks\<close>

text \<open>
  A lock is a flag. \<^verbatim>\<open>spinlock_lock\<close> repeats an atomic test-and-set until it finds the flag clear;
  the state does not change while it spins, so a flag that is set and that nobody clears is a loop
  without end.
\<close>

definition spinlock_init :: "bool \<Rightarrow> bool" where
  "spinlock_init l = False"

definition spinlock_lock :: "bool \<Rightarrow> bool option" where
  "spinlock_lock l = (if l then None else Some True)"

definition spinlock_unlock :: "bool \<Rightarrow> bool" where
  "spinlock_unlock l = False"

definition spinlock_trylock :: "bool \<Rightarrow> bool \<Rightarrow> (int \<times> bool) option" where
  "spinlock_trylock l spin = (if \<not> l then Some (1, True) else if spin then do { l' \<leftarrow> spinlock_lock l; Some (1, l') } else Some (0, True))"

definition ASSERT_SPINLOCK_HELD :: "bool \<Rightarrow> bool option" where
  "ASSERT_SPINLOCK_HELD l = do { kassert l; Some True }"

definition lock_sched :: "'w ks \<Rightarrow> 'w ks option" where
  "lock_sched s = do { l \<leftarrow> spinlock_lock (ks_sched_lock s); Some (s\<lparr>ks_sched_lock := l\<rparr>) }"

definition unlock_sched :: "'w ks \<Rightarrow> 'w ks" where
  "unlock_sched s = s\<lparr>ks_sched_lock := spinlock_unlock (ks_sched_lock s)\<rparr>"

definition lock_thread :: "thread_ref \<Rightarrow> 'w ks \<Rightarrow> 'w ks option" where
  "lock_thread t s = do { l \<leftarrow> spinlock_lock (th_lock (ks_thread s t)); Some (set_thread t (\<lambda>th. th\<lparr>th_lock := l\<rparr>) s) }"

definition unlock_thread :: "thread_ref \<Rightarrow> 'w ks \<Rightarrow> 'w ks" where
  "unlock_thread t s = set_thread t (\<lambda>th. th\<lparr>th_lock := spinlock_unlock (th_lock th)\<rparr>) s"

definition lock_wq :: "wq_ref \<Rightarrow> 'w ks \<Rightarrow> 'w ks option" where
  "lock_wq w s = do { l \<leftarrow> spinlock_lock (wq_lock (ks_wq s w)); Some (set_wq w (\<lambda>q. q\<lparr>wq_lock := l\<rparr>) s) }"

definition unlock_wq :: "wq_ref \<Rightarrow> 'w ks \<Rightarrow> 'w ks" where
  "unlock_wq w s = set_wq w (\<lambda>q. q\<lparr>wq_lock := spinlock_unlock (wq_lock q)\<rparr>) s"

subsection \<open>The local APIC\<close>

definition lapic_read :: "cpu_ref \<Rightarrow> u32 \<Rightarrow> 'w ks \<Rightarrow> u32" where
  "lapic_read c reg s = cpu_lapic (ks_cpu s c) reg"

definition lapic_write :: "cpu_ref \<Rightarrow> u32 \<Rightarrow> u32 \<Rightarrow> 'w ks \<Rightarrow> 'w ks" where
  "lapic_write c reg val s = set_cpu c (\<lambda>p. p\<lparr>cpu_lapic := (cpu_lapic p)(reg := val)\<rparr>) s"

definition lapic_eoi :: "cpu_ref \<Rightarrow> 'w ks \<Rightarrow> 'w ks" where
  "lapic_eoi c s = lapic_write c kLAPICRegEOI 0 s"

definition lapic_enable :: "cpu_ref \<Rightarrow> u8 \<Rightarrow> 'w ks \<Rightarrow> 'w ks" where
  "lapic_enable c spurvec s = lapic_write c kLAPICRegSpurious (lapic_read c kLAPICRegSpurious s OR push_bit 8 1 OR ucast spurvec) s"

definition send_ipi :: "cpu_ref \<Rightarrow> u32 \<Rightarrow> u8 \<Rightarrow> 'w ks \<Rightarrow> 'w ks" where
  "send_ipi c lapic_id intr s = lapic_write c kLAPICRegICR0 (ucast intr) (lapic_write c kLAPICRegICR1 (push_bit 24 lapic_id) s)"

definition md_ipi_invlpg :: "cpu_ref \<Rightarrow> cpu_ref \<Rightarrow> 'w ks \<Rightarrow> 'w ks" where
  "md_ipi_invlpg c target s = send_ipi c (ucast (cpu_lapic_id (ks_cpu s target))) (of_nat kIntNumInvlPG) s"

definition md_ipi_resched :: "cpu_ref \<Rightarrow> cpu_ref \<Rightarrow> 'w ks \<Rightarrow> 'w ks" where
  "md_ipi_resched c target s = send_ipi c (ucast (cpu_lapic_id (ks_cpu s target))) (of_nat kIntNumReschedule) s"

definition md_timer_set :: "cpu_ref \<Rightarrow> u64 \<Rightarrow> 'w ks \<Rightarrow> 'w ks option" where
  "md_timer_set c nanos s = do {
     let ticks = (cpu_lapic_tps (ks_cpu s c) * nanos div NS_PER_S);
     kassert (ticks < 0xffffffff);
     Some (lapic_write c kLAPICRegTimerInitial (ucast ticks) s)
   }"

text \<open>The division by 0 of a processor whose timer has not been calibrated traps.\<close>

definition md_timer_get_remaining :: "cpu_ref \<Rightarrow> 'w ks \<Rightarrow> u64 option" where
  "md_timer_get_remaining c s = do {
     let d = (cpu_lapic_tps (ks_cpu s c) * NS_PER_S);
     kassert (d \<noteq> 0);
     Some (ucast (lapic_read c kLAPICRegTimerCurrentCount s) div d)
   }"

subsection \<open>Callouts\<close>

definition pendingcallouts :: "cpu_ref \<Rightarrow> 'w ks \<Rightarrow> callout_ref list" where
  "pendingcallouts c s = cpu_pendingcallouts (ks_cpu s c)"

definition set_pending :: "cpu_ref \<Rightarrow> callout_ref list \<Rightarrow> 'w ks \<Rightarrow> 'w ks" where
  "set_pending c l s = set_cpu c (\<lambda>p. p\<lparr>cpu_pendingcallouts := l\<rparr>) s"

definition nanosecs :: "'w ks \<Rightarrow> callout_ref \<Rightarrow> u64" where
  "nanosecs s k = co_nanosecs (ks_callout s k)"

definition set_nanosecs :: "callout_ref \<Rightarrow> u64 \<Rightarrow> 'w ks \<Rightarrow> 'w ks" where
  "set_nanosecs k n s = set_callout k (\<lambda>co. co\<lparr>co_nanosecs := n\<rparr>) s"

text \<open>
  The loop of \<^verbatim>\<open>callout_enqueue\<close> on the part of the queue from \<^verbatim>\<open>co\<close> on: the entry after which the
  callout goes and the time it is left with.
\<close>

fun callout_place :: "(callout_ref \<Rightarrow> u64) \<Rightarrow> u64 \<Rightarrow> callout_ref \<Rightarrow> callout_ref list \<Rightarrow> callout_ref \<times> u64" where
  "callout_place ns n co [] = (if ns co < n then (co, n - ns co) else (co, n))"
| "callout_place ns n co (next # rest) = (if ns co < n then callout_place ns (n - ns co) next rest else (co, n))"

definition callout_pending :: "callout_ref \<Rightarrow> 'w ks \<Rightarrow> 'w ks" where
  "callout_pending k s = set_callout k (\<lambda>co. co\<lparr>co_state := kCalloutPending\<rparr>) s"

definition callout_enqueue :: "cpu_ref \<Rightarrow> callout_ref \<Rightarrow> 'w ks \<Rightarrow> 'w ks option" where
  "callout_enqueue c k s = do {
     kassert (nanosecs s k > 0);
     (case pendingcallouts c s of
       [] \<Rightarrow> do {
         s1 \<leftarrow> md_timer_set c (nanosecs s k) (set_pending c [k] s);
         Some (callout_pending k s1)
       }
     | co # rest \<Rightarrow> do {
         remains \<leftarrow> md_timer_get_remaining c s;
         let s1 = set_nanosecs co (min remains (nanosecs s co)) s;
         kassert (nanosecs s1 co > 0);
         (if nanosecs s1 co > nanosecs s1 k then do {
            let s2 = set_pending c (k # co # rest) (set_nanosecs co (nanosecs s1 co - nanosecs s1 k) s1);
            s3 \<leftarrow> md_timer_set c (nanosecs s2 k) s2;
            Some (callout_pending k s3)
          } else do {
            let (place, n) = callout_place (nanosecs s1) (nanosecs s1 k) co rest;
            Some (callout_pending k (set_pending c (insert_after place k (co # rest)) (set_nanosecs k n s1)))
          })
       })
   }"

definition callout_disable :: "callout_ref \<Rightarrow> 'w ks \<Rightarrow> 'w ks" where
  "callout_disable k s = set_callout k (\<lambda>co. co\<lparr>co_state := kCalloutDisabled\<rparr>) s"

definition callout_dequeue :: "cpu_ref \<Rightarrow> callout_ref \<Rightarrow> 'w ks \<Rightarrow> 'w ks option" where
  "callout_dequeue c k s = do {
     kassert (co_state (ks_callout s k) = kCalloutPending);
     (if first_of (pendingcallouts c s) \<noteq> Some k then Some (set_pending c (remove1 k (pendingcallouts c s)) s)
      else do {
        remains \<leftarrow> md_timer_get_remaining c s;
        let s1 = callout_disable k (set_pending c (remove1 k (pendingcallouts c s)) s);
        (case pendingcallouts c s1 of
          [] \<Rightarrow> md_timer_set c 0 s1
        | co # _ \<Rightarrow> do {
            let s2 = set_nanosecs co (nanosecs s1 co + min remains (nanosecs s1 co)) s1;
            md_timer_set c (nanosecs s2 co) s2
          })
      })
   }"

definition sched_timeslice :: "cpu_ref \<Rightarrow> 'w ks \<Rightarrow> 'w ks" where
  "sched_timeslice c s = set_cpu c (\<lambda>p. p\<lparr>cpu_preempted := True\<rparr>) s"

text \<open>Functions of other components that this one calls through pointers.\<close>

record 'w ks_env =
  ke_callback :: "u64 \<Rightarrow> u64 \<Rightarrow> cpu_ref \<Rightarrow> 'w ks \<Rightarrow> 'w ks option"
  ke_vm_fault :: "nat \<Rightarrow> u64 \<Rightarrow> u32 \<Rightarrow> 'w \<Rightarrow> (int \<times> 'w) option"
  ke_invlpg :: "cpu_ref \<Rightarrow> 'w \<Rightarrow> 'w"

definition run_callback :: "'w ks_env \<Rightarrow> callback \<Rightarrow> u64 \<Rightarrow> cpu_ref \<Rightarrow> 'w ks \<Rightarrow> 'w ks option" where
  "run_callback e cb arg c s = (case cb of CbTimeslice \<Rightarrow> Some (sched_timeslice c s) | CbOther f \<Rightarrow> ke_callback e f arg c s)"

definition callout_interrupt :: "'w ks_env \<Rightarrow> cpu_ref \<Rightarrow> 'w ks \<Rightarrow> 'w ks option" where
  "callout_interrupt e c s = (case pendingcallouts c s of
     [] \<Rightarrow> Some s
   | co # rest \<Rightarrow> do {
       let s1 = callout_disable co (set_pending c rest s);
       s2 \<leftarrow> run_callback e (co_callback (ks_callout s1 co)) (co_arg (ks_callout s1 co)) c s1;
       (case pendingcallouts c s2 of [] \<Rightarrow> Some s2 | co' # _ \<Rightarrow> md_timer_set c (nanosecs s2 co') s2)
     })"

subsection \<open>Scheduling\<close>

text \<open>The interrupt 240 that \<^verbatim>\<open>md_switch\<close> raises: the contexts change places, the scheduler is unlocked.\<close>

definition switch_interrupt :: "cpu_ref \<Rightarrow> 'w ks \<Rightarrow> 'w ks" where
  "switch_interrupt c s = (let p = ks_cpu s c; next = cpu_curthread p;
       s1 = set_thread (cpu_old p) (\<lambda>th. th\<lparr>th_md := \<lparr>md_frame = cpu_regs p, md_fs = cpu_fs p\<rparr>\<rparr>) s;
       m = th_md (ks_thread s1 next)
     in unlock_sched (set_cpu c (\<lambda>p. p\<lparr>cpu_regs := md_frame m, cpu_fs := md_fs m\<rparr>) s1))"

definition md_switch :: "cpu_ref \<Rightarrow> thread_ref \<Rightarrow> thread_ref \<Rightarrow> 'w ks \<Rightarrow> 'w ks" where
  "md_switch c from to s = switch_interrupt c (set_cpu c (\<lambda>p. p\<lparr>cpu_old := from, cpu_curthread := to\<rparr>) s)"

definition set_runqueue :: "cpu_ref \<Rightarrow> thread_ref list \<Rightarrow> 'w ks \<Rightarrow> 'w ks" where
  "set_runqueue c l s = set_cpu c (\<lambda>p. p\<lparr>cpu_runqueue := l\<rparr>) s"

definition runqueue :: "cpu_ref \<Rightarrow> 'w ks \<Rightarrow> thread_ref list" where
  "runqueue c s = cpu_runqueue (ks_cpu s c)"

definition set_state :: "thread_ref \<Rightarrow> thread_state \<Rightarrow> 'w ks \<Rightarrow> 'w ks" where
  "set_state t st s = set_thread t (\<lambda>th. th\<lparr>th_state := st\<rparr>) s"

definition state_of :: "'w ks \<Rightarrow> thread_ref \<Rightarrow> thread_state" where
  "state_of s t = th_state (ks_thread s t)"

definition sched_next :: "cpu_ref \<Rightarrow> 'w ks \<Rightarrow> (thread_ref \<times> 'w ks) option" where
  "sched_next c s = do {
     l \<leftarrow> ASSERT_SPINLOCK_HELD (ks_sched_lock s);
     let s1 = s\<lparr>ks_sched_lock := l\<rparr>;
     Some (case runqueue c s1 of
         [] \<Rightarrow> (cpu_idlethread (ks_cpu s1 c), s1)
       | cand # rest \<Rightarrow> (cand, set_runqueue c rest s1))
   }"

text \<open>What becomes of the thread that ran until now.\<close>

definition sched_put_old :: "cpu_ref \<Rightarrow> thread_ref \<Rightarrow> 'w ks \<Rightarrow> 'w ks option" where
  "sched_put_old c oldthread s =
     (if oldthread = cpu_idlethread (ks_cpu s c) then do { kassert (state_of s oldthread = kThreadRunning); Some s }
      else (case state_of s oldthread of
          kThreadWaiting \<Rightarrow> Some (unlock_thread oldthread s)
        | kThreadExiting \<Rightarrow> Some s
        | kThreadRunning \<Rightarrow> Some (set_runqueue c (runqueue c s @ [oldthread]) s)
        | kThreadRunnable \<Rightarrow> Some s))"

definition start_timeslice :: "cpu_ref \<Rightarrow> 'w ks \<Rightarrow> 'w ks option" where
  "start_timeslice c s = (let k = cpu_timeslicer (ks_cpu s c) in
     if co_state (ks_callout s k) = kCalloutDisabled then callout_enqueue c k (set_nanosecs k NS_PER_S s) else Some s)"

definition sched_reschedule :: "cpu_ref \<Rightarrow> 'w ks \<Rightarrow> 'w ks option" where
  "sched_reschedule c s = do {
     s1 \<leftarrow> lock_sched s;
     let oldthread = curthread c s1;
     s2 \<leftarrow> sched_put_old c oldthread s1;
     (next, s3) \<leftarrow> sched_next c s2;
     s4 \<leftarrow> start_timeslice c (set_state next kThreadRunning s3);
     Some (if next = oldthread then unlock_sched s4 else md_switch c oldthread next s4)
   }"

definition nextcpu :: "'w ks \<Rightarrow> cpu_ref \<times> 'w ks" where
  "nextcpu s = (let n = ks_lastcpu s + 1; l = (if n \<ge> ks_ncpu s then 0 else n) in (nat l, s\<lparr>ks_lastcpu := l\<rparr>))"

definition thread_resume :: "cpu_ref \<Rightarrow> thread_ref \<Rightarrow> 'w ks \<Rightarrow> 'w ks option" where
  "thread_resume c t s = do {
     s1 \<leftarrow> lock_sched s;
     let s2 = set_state t kThreadRunnable s1;
     let tc = th_cpu (ks_thread s2 t);
     let s3 = unlock_sched (set_runqueue tc (t # runqueue tc s2) s2);
     (if tc = c then
        (if cpu_inInterrupt (ks_cpu s3 c) then Some (set_cpu c (\<lambda>p. p\<lparr>cpu_preempted := True\<rparr>) s3)
         else sched_reschedule c s3)
      else Some (md_ipi_resched c tc s3))
   }"

text \<open>
  \<^verbatim>\<open>kmem_alloc\<close> gives the structure and \<^verbatim>\<open>vm_kalloc\<close> four pages of stack. The fields that the code
  does not set keep the contents of that memory.
\<close>

definition thread_new ::
  "('w \<Rightarrow> (thread_ref \<times> 'w) option) \<Rightarrow> ('w \<Rightarrow> (u64 \<times> 'w) option) \<Rightarrow> task_ref \<Rightarrow> u64 \<Rightarrow> u64 \<Rightarrow> 'w ks \<Rightarrow> (thread_ref \<times> 'w ks) option" where
  "thread_new kmem_alloc vm_kalloc task f arg s = do {
     (t, w1) \<leftarrow> kmem_alloc (ks_world s);
     (stk, w2) \<leftarrow> vm_kalloc w1;
     let s1 = set_thread t (\<lambda>th. th\<lparr>th_state := kThreadRunnable, th_task := task, th_kstack := stk + 4 * PGSIZE, th_ustack := 0\<rparr>)
       (s\<lparr>ks_world := w2\<rparr>);
     s2 \<leftarrow> lock_sched s1;
     let s3 = s2\<lparr>ks_task := (ks_task s2)(task := (ks_task s2 task)\<lparr>task_threads := t # task_threads (ks_task s2 task)\<rparr>)\<rparr>;
     let (tc, s4) = nextcpu s3;
     let s5 = unlock_sched (set_thread t (\<lambda>th. th\<lparr>th_cpu := tc\<rparr>) s4);
     Some (t, set_thread t (\<lambda>th. th\<lparr>th_md := (th_md th)\<lparr>md_frame := (md_frame (th_md th))\<lparr>f_cs := 0x28, f_ss := 0x30, f_rflags := 0x202,
       f_rip := f, f_rdi := arg, f_rbp := 0, f_rsp := th_kstack th\<rparr>\<rparr>\<rparr>) s5)
   }"

subsection \<open>Wait queues\<close>

text \<open>What \<^verbatim>\<open>waitq_await_locked\<close> does before it reschedules.\<close>

definition waitq_sleep :: "cpu_ref \<Rightarrow> wq_ref \<Rightarrow> 'w ks \<Rightarrow> 'w ks option" where
  "waitq_sleep c w s = do {
     let t = curthread c s;
     s1 \<leftarrow> lock_thread t s;
     let s2 = set_wq w (\<lambda>q. q\<lparr>wq_waiters := wq_waiters q @ [t]\<rparr>) s1;
     Some (unlock_wq w (set_thread t (\<lambda>th. th\<lparr>th_state := kThreadWaiting, th_wq := Some w\<rparr>) s2))
   }"

definition waitq_await_locked :: "cpu_ref \<Rightarrow> wq_ref \<Rightarrow> 'w ks \<Rightarrow> 'w ks option" where
  "waitq_await_locked c w s = do { s1 \<leftarrow> waitq_sleep c w s; sched_reschedule c s1 }"

definition waitq_await :: "cpu_ref \<Rightarrow> wq_ref \<Rightarrow> 'w ks \<Rightarrow> 'w ks option" where
  "waitq_await c w s = do { s1 \<leftarrow> lock_wq w s; waitq_await_locked c w s1 }"

definition waitq_wake_one :: "cpu_ref \<Rightarrow> wq_ref \<Rightarrow> 'w ks \<Rightarrow> (int \<times> 'w ks) option" where
  "waitq_wake_one c w s = do {
     s1 \<leftarrow> lock_wq w s;
     let l = wq_waiters (ks_wq s1 w);
     let s2 = unlock_wq w (set_wq w (\<lambda>q. q\<lparr>wq_waiters := tl l\<rparr>) s1);
     (case l of
       [] \<Rightarrow> Some (0, s2)
     | t # _ \<Rightarrow> do {
         s3 \<leftarrow> thread_resume c t (set_thread t (\<lambda>th. th\<lparr>th_wqres := kWQSuccess\<rparr>) s2);
         Some (1, s3)
       })
   }"

text \<open>
  The result of \<^verbatim>\<open>semaphore_wait\<close> is \<^verbatim>\<open>kWQSuccess\<close> when it does not block; a thread that blocks
  reads its \<^verbatim>\<open>wqres\<close> once it runs again.
\<close>

definition set_sem_count :: "sem_ref \<Rightarrow> u32 \<Rightarrow> 'w ks \<Rightarrow> 'w ks" where
  "set_sem_count m n s = s\<lparr>ks_sem := (ks_sem s)(m := (ks_sem s m)\<lparr>sem_count := n\<rparr>)\<rparr>"

definition semaphore_wait :: "cpu_ref \<Rightarrow> sem_ref \<Rightarrow> 'w ks \<Rightarrow> 'w ks option" where
  "semaphore_wait c m s = do {
     let w = sem_wq (ks_sem s m);
     s1 \<leftarrow> lock_wq w s;
     let n = sem_count (ks_sem s1 m) - 1;
     let s2 = set_sem_count m n s1;
     (if sint n < 0 then waitq_await_locked c w s2 else Some (unlock_wq w s2))
   }"

definition semaphore_signal :: "cpu_ref \<Rightarrow> sem_ref \<Rightarrow> 'w ks \<Rightarrow> (int \<times> 'w ks) option" where
  "semaphore_signal c m s = do {
     let n = sem_count (ks_sem s m) + 1;
     let s1 = set_sem_count m n s;
     (if sint n \<le> 0 then waitq_wake_one c (sem_wq (ks_sem s m)) s1 else Some (0, s1))
   }"

subsection \<open>Interrupts\<close>

datatype handler = HPageFault | HCallout | HFn callback

datatype ipl_t = kSPL0 | kSPLHigh

fun ipl_level :: "ipl_t \<Rightarrow> nat" where
  "ipl_level kSPL0 = 0"
| "ipl_level kSPLHigh = 15"

record md_intr_entry =
  ie_prio :: ipl_t
  ie_handler :: "handler option"
  ie_arg :: u64

text \<open>\<^verbatim>\<open>code\<close> and \<^verbatim>\<open>cr2\<close> of a page fault; a negative result of \<^verbatim>\<open>vm_fault\<close> is fatal.\<close>

definition pagefault_interrupt :: "'w ks_env \<Rightarrow> cpu_ref \<Rightarrow> u64 \<Rightarrow> u32 \<Rightarrow> 'w ks \<Rightarrow> 'w ks option" where
  "pagefault_interrupt e c cr2 code s = do {
     (r, w) \<leftarrow> ke_vm_fault e (task_map (ks_task s (curtask c s))) cr2 code (ks_world s);
     kassert (\<not> r < 0);
     Some (s\<lparr>ks_world := w\<rparr>)
   }"

definition run_handler :: "'w ks_env \<Rightarrow> handler \<Rightarrow> u64 \<Rightarrow> cpu_ref \<Rightarrow> u64 \<Rightarrow> u32 \<Rightarrow> 'w ks \<Rightarrow> 'w ks option" where
  "run_handler e h arg c cr2 code s = (case h of
     HPageFault \<Rightarrow> pagefault_interrupt e c cr2 code s
   | HCallout \<Rightarrow> callout_interrupt e c s
   | HFn f \<Rightarrow> run_callback e f arg c s)"

definition handle_int ::
  "'w ks_env \<Rightarrow> (nat \<Rightarrow> md_intr_entry) \<Rightarrow> cpu_ref \<Rightarrow> nat \<Rightarrow> u64 \<Rightarrow> u32 \<Rightarrow> 'w ks \<Rightarrow> 'w ks option" where
  "handle_int e intrs c num cr2 code s = (let oldInInterrupt = cpu_inInterrupt (ks_cpu s c) in
     if num = kIntNumSwitch then Some (switch_interrupt c s)
     else if num = kIntNumInvlPG then Some (lapic_eoi c (s\<lparr>ks_world := ke_invlpg e c (ks_world s)\<rparr>))
     else do {
       h \<leftarrow> ie_handler (intrs num);
       let s1 = (if num \<ge> 32 then set_cpu c (\<lambda>p. p\<lparr>cpu_inInterrupt := True\<rparr>) s else s);
       s2 \<leftarrow> run_handler e h (ie_arg (intrs num)) c cr2 code s1;
       let s3 = (if num \<ge> 32 then set_cpu c (\<lambda>p. p\<lparr>cpu_inInterrupt := oldInInterrupt\<rparr>) (lapic_eoi c s2) else s2);
       kassert (state_of s3 (curthread c s3) = kThreadRunning);
       (if cpu_preempted (ks_cpu s3 c) \<and> \<not> cpu_inInterrupt (ks_cpu s3 c)
        then sched_reschedule c (set_cpu c (\<lambda>p. p\<lparr>cpu_preempted := False\<rparr>) s3) else Some s3)
     })"

definition md_intr_register :: "nat \<Rightarrow> ipl_t \<Rightarrow> handler \<Rightarrow> u64 \<Rightarrow> (nat \<Rightarrow> md_intr_entry) \<Rightarrow> nat \<Rightarrow> md_intr_entry" where
  "md_intr_register vec prio h arg intrs = intrs(vec := \<lparr>ie_prio = prio, ie_handler = Some h, ie_arg = arg\<rparr>)"

definition md_intr_alloc :: "ipl_t \<Rightarrow> handler \<Rightarrow> u64 \<Rightarrow> (nat \<Rightarrow> md_intr_entry) \<Rightarrow> int \<times> (nat \<Rightarrow> md_intr_entry)" where
  "md_intr_alloc prio h arg intrs =
     (case find (\<lambda>i. ie_handler (intrs i) = None) [max (ipl_level prio * 16) 32..<256] of
        None \<Rightarrow> (- 1, intrs)
      | Some i \<Rightarrow> (int i, md_intr_register i prio h arg intrs))"

text \<open>The handlers that \<^verbatim>\<open>idt_init\<close> installs.\<close>

definition idt_init_handlers :: "(nat \<Rightarrow> md_intr_entry) \<Rightarrow> nat \<Rightarrow> md_intr_entry" where
  "idt_init_handlers intrs = md_intr_register kIntNumReschedule kSPL0 (HFn CbTimeslice) 0
     (md_intr_register kIntNumLAPICTimer kSPL0 HCallout 0 (md_intr_register 14 kSPL0 HPageFault 0 intrs))"

end
