(* ===== verification/Sched_Inv.thy ===== *)
theory Sched_Inv
  imports Sched
begin

text \<open>
  The scheduler seen through what matters of its state: which thread each processor runs, the run
  queues and wait queues, the states and locks of the threads. Every operation is described by its
  effect on this view; the invariant says that a thread is in one place only, that its state tells
  which, and that no lock is held between operations.
\<close>

subsection \<open>The view\<close>

definition idlethread :: "cpu_ref \<Rightarrow> 'w ks \<Rightarrow> thread_ref" where
  "idlethread c s = cpu_idlethread (ks_cpu s c)"

definition cpu_of :: "'w ks \<Rightarrow> thread_ref \<Rightarrow> cpu_ref" where
  "cpu_of s t = th_cpu (ks_thread s t)"

definition tlock :: "'w ks \<Rightarrow> thread_ref \<Rightarrow> bool" where
  "tlock s t = th_lock (ks_thread s t)"

definition waiters :: "wq_ref \<Rightarrow> 'w ks \<Rightarrow> thread_ref list" where
  "waiters w s = wq_waiters (ks_wq s w)"

definition wlock :: "wq_ref \<Rightarrow> 'w ks \<Rightarrow> bool" where
  "wlock w s = wq_lock (ks_wq s w)"

lemmas view_defs = idlethread_def cpu_of_def tlock_def waiters_def wlock_def curthread_def runqueue_def state_of_def

text \<open>
  The timer of a processor: the timeslicer is the only callout, pending or not, and its processor's
  timer can be set for a second.
\<close>

definition timer_ok :: "cpu_ref \<Rightarrow> 'w ks \<Rightarrow> bool" where
  "timer_ok c s \<longleftrightarrow> (let p = ks_cpu s c; k = cpu_timeslicer p in
     cpu_lapic_tps p * NS_PER_S div NS_PER_S < 0xffffffff \<and> co_callback (ks_callout s k) = CbTimeslice \<and>
     cpu_pendingcallouts p = (if co_state (ks_callout s k) = kCalloutPending then [k] else []))"

text \<open>The timeslicers of the processors are different objects.\<close>

definition timers_ok :: "nat \<Rightarrow> 'w ks \<Rightarrow> bool" where
  "timers_ok N s \<longleftrightarrow> (\<forall>c < N. timer_ok c s) \<and>
     (\<forall>c < N. \<forall>d < N. c \<noteq> d \<longrightarrow> cpu_timeslicer (ks_cpu s c) \<noteq> cpu_timeslicer (ks_cpu s d))"

lemma timers_ok_cong:
  assumes "ks_callout s' = ks_callout s" "\<And>d. cpu_timeslicer (ks_cpu s' d) = cpu_timeslicer (ks_cpu s d)"
    "\<And>d. cpu_lapic_tps (ks_cpu s' d) = cpu_lapic_tps (ks_cpu s d)" "\<And>d. cpu_pendingcallouts (ks_cpu s' d) = cpu_pendingcallouts (ks_cpu s d)"
  shows "timers_ok N s' = timers_ok N s"
  by (simp add: timers_ok_def timer_ok_def Let_def assms)

text \<open>Two states with the same view.\<close>

definition same_view :: "'w ks \<Rightarrow> 'w ks \<Rightarrow> bool" where
  "same_view s s' \<longleftrightarrow> (\<forall>c. curthread c s' = curthread c s \<and> idlethread c s' = idlethread c s \<and> runqueue c s' = runqueue c s) \<and>
     (\<forall>t. state_of s' t = state_of s t \<and> cpu_of s' t = cpu_of s t \<and> tlock s' t = tlock s t) \<and>
     (\<forall>w. waiters w s' = waiters w s \<and> wlock w s' = wlock w s) \<and> ks_sched_lock s' = ks_sched_lock s \<and> ks_ncpu s' = ks_ncpu s \<and>
     ks_sem s' = ks_sem s"

lemma same_view_refl [simp]: "same_view s s"
  by (simp add: same_view_def)

lemma same_viewD:
  assumes "same_view s s'"
  shows "curthread c s' = curthread c s" "idlethread c s' = idlethread c s" "runqueue c s' = runqueue c s" "state_of s' t = state_of s t"
    "cpu_of s' t = cpu_of s t" "tlock s' t = tlock s t" "waiters w s' = waiters w s" "wlock w s' = wlock w s"
    "ks_sched_lock s' = ks_sched_lock s" "ks_ncpu s' = ks_ncpu s" "ks_sem s' = ks_sem s"
  using assms by (simp_all add: same_view_def)

subsection \<open>Starting a timeslice\<close>

lemma start_timeslice_ok:
  assumes "timers_ok N s" and "c < N"
  shows "\<exists>s'. start_timeslice c s = Some s' \<and> same_view s s' \<and> timers_ok N s' \<and>
    co_state (ks_callout s' (cpu_timeslicer (ks_cpu s' c))) = kCalloutPending \<and>
    (\<forall>t. th_md (ks_thread s' t) = th_md (ks_thread s t)) \<and> (\<forall>d. cpu_regs (ks_cpu s' d) = cpu_regs (ks_cpu s d) \<and> cpu_fs (ks_cpu s' d) = cpu_fs (ks_cpu s d))"
proof (cases "co_state (ks_callout s (cpu_timeslicer (ks_cpu s c)))")
  case kCalloutPending
  then show ?thesis using assms by (intro exI [of _ s]) (simp add: start_timeslice_def)
next
  case kCalloutDisabled
  let ?k = "cpu_timeslicer (ks_cpu s c)"
  have t: "cpu_lapic_tps (ks_cpu s c) * NS_PER_S div NS_PER_S < 0xffffffff" "cpu_pendingcallouts (ks_cpu s c) = []"
    using assms kCalloutDisabled by (auto simp: timers_ok_def timer_ok_def Let_def)
  have ns: "NS_PER_S > 0" by (simp add: NS_PER_S_def)
  define s' where s': "s' = callout_pending ?k (lapic_write c kLAPICRegTimerInitial
      (ucast (cpu_lapic_tps (ks_cpu s c) * NS_PER_S div NS_PER_S)) (set_pending c [?k] (set_nanosecs ?k NS_PER_S s)))"
  have r: "start_timeslice c s = Some s'"
    using kCalloutDisabled t ns unfolding s'
    by (simp add: start_timeslice_def callout_enqueue_def md_timer_set_def pendingcallouts_def nanosecs_def set_nanosecs_def set_pending_def set_defs Let_def)
  have "same_view s s'"
    by (simp add: s' same_view_def view_defs callout_pending_def lapic_write_def set_pending_def set_nanosecs_def set_defs)
  moreover have "timers_ok N s'"
    using assms t by (auto simp: s' timers_ok_def timer_ok_def Let_def callout_pending_def lapic_write_def set_pending_def set_nanosecs_def set_defs)
  ultimately show ?thesis using r
    by (intro exI [of _ s']) (simp add: s' callout_pending_def lapic_write_def set_pending_def set_nanosecs_def set_defs)
qed

subsection \<open>Rescheduling\<close>

text \<open>The run queue after the running thread has been put back, and the choice of the next one.\<close>

definition rq_after :: "cpu_ref \<Rightarrow> 'w ks \<Rightarrow> thread_ref list" where
  "rq_after c s = (if curthread c s \<noteq> idlethread c s \<and> state_of s (curthread c s) = kThreadRunning
     then runqueue c s @ [curthread c s] else runqueue c s)"

definition next_thread :: "cpu_ref \<Rightarrow> 'w ks \<Rightarrow> thread_ref" where
  "next_thread c s = (case rq_after c s of [] \<Rightarrow> idlethread c s | t # _ \<Rightarrow> t)"

text \<open>What a context switch does with the registers.\<close>

definition switched :: "cpu_ref \<Rightarrow> thread_ref \<Rightarrow> 'w ks \<Rightarrow> 'w ks \<Rightarrow> bool" where
  "switched c next s s' \<longleftrightarrow> (let old = curthread c s; p = ks_cpu s c in
     if next = old then cpu_regs (ks_cpu s' c) = cpu_regs p \<and> cpu_fs (ks_cpu s' c) = cpu_fs p \<and> (\<forall>t. th_md (ks_thread s' t) = th_md (ks_thread s t))
     else cpu_regs (ks_cpu s' c) = md_frame (th_md (ks_thread s next)) \<and> cpu_fs (ks_cpu s' c) = md_fs (th_md (ks_thread s next)) \<and>
       (\<forall>t. th_md (ks_thread s' t) = (if t = old then \<lparr>md_frame = cpu_regs p, md_fs = cpu_fs p\<rparr> else th_md (ks_thread s t))))"

lemma unlock_sched_view:
  "curthread c (unlock_sched s) = curthread c s" "idlethread c (unlock_sched s) = idlethread c s" "runqueue c (unlock_sched s) = runqueue c s"
  "state_of (unlock_sched s) t = state_of s t" "cpu_of (unlock_sched s) t = cpu_of s t" "tlock (unlock_sched s) t = tlock s t"
  "waiters w (unlock_sched s) = waiters w s" "wlock w (unlock_sched s) = wlock w s" "ks_sched_lock (unlock_sched s) = False"
  "ks_ncpu (unlock_sched s) = ks_ncpu s" "ks_sem (unlock_sched s) = ks_sem s" "ks_callout (unlock_sched s) = ks_callout s" "ks_cpu (unlock_sched s) = ks_cpu s"
  "ks_thread (unlock_sched s) = ks_thread s"
  by (simp_all add: view_defs unlock_sched_def spinlock_unlock_def)

lemma md_switch_view:
  "curthread d (md_switch c from to s) = (if d = c then to else curthread d s)" "idlethread d (md_switch c from to s) = idlethread d s"
  "runqueue d (md_switch c from to s) = runqueue d s" "state_of (md_switch c from to s) t = state_of s t"
  "cpu_of (md_switch c from to s) t = cpu_of s t" "tlock (md_switch c from to s) t = tlock s t"
  "waiters w (md_switch c from to s) = waiters w s" "wlock w (md_switch c from to s) = wlock w s" "ks_sched_lock (md_switch c from to s) = False"
  "ks_ncpu (md_switch c from to s) = ks_ncpu s" "ks_sem (md_switch c from to s) = ks_sem s" "timer_ok d (md_switch c from to s) = timer_ok d s"
  "cpu_timeslicer (ks_cpu (md_switch c from to s) d) = cpu_timeslicer (ks_cpu s d)" "ks_callout (md_switch c from to s) = ks_callout s"
  by (simp_all add: md_switch_def switch_interrupt_def Let_def view_defs unlock_sched_def spinlock_unlock_def set_defs timer_ok_def)

lemma md_switch_regs:
  assumes "to \<noteq> from"
  shows "cpu_regs (ks_cpu (md_switch c from to s) c) = md_frame (th_md (ks_thread s to))"
    "cpu_fs (ks_cpu (md_switch c from to s) c) = md_fs (th_md (ks_thread s to))"
    "th_md (ks_thread (md_switch c from to s) t) =
       (if t = from then \<lparr>md_frame = cpu_regs (ks_cpu s c), md_fs = cpu_fs (ks_cpu s c)\<rparr> else th_md (ks_thread s t))"
  using assms by (simp_all add: md_switch_def switch_interrupt_def Let_def unlock_sched_def set_defs)

lemma put_old_ok:
  assumes "curthread c s = idlethread c s \<Longrightarrow> state_of s (curthread c s) = kThreadRunning"
  shows "\<exists>s'. sched_put_old c (curthread c s) s = Some s' \<and> (\<forall>d. runqueue d s' = (if d = c then rq_after c s else runqueue d s)) \<and>
    (\<forall>d. curthread d s' = curthread d s \<and> idlethread d s' = idlethread d s) \<and> (\<forall>t. state_of s' t = state_of s t \<and> cpu_of s' t = cpu_of s t) \<and>
    (\<forall>t. tlock s' t = (if t = curthread c s \<and> state_of s t = kThreadWaiting then False else tlock s t)) \<and>
    (\<forall>w. waiters w s' = waiters w s \<and> wlock w s' = wlock w s) \<and> ks_sched_lock s' = ks_sched_lock s \<and> ks_ncpu s' = ks_ncpu s \<and> ks_sem s' = ks_sem s \<and>
    (\<forall>N. timers_ok N s' = timers_ok N s) \<and> (\<forall>t. th_md (ks_thread s' t) = th_md (ks_thread s t)) \<and>
    (\<forall>d. cpu_regs (ks_cpu s' d) = cpu_regs (ks_cpu s d) \<and> cpu_fs (ks_cpu s' d) = cpu_fs (ks_cpu s d))"
proof (cases "curthread c s = idlethread c s")
  case True
  then show ?thesis using assms
    by (intro exI [of _ s]) (auto simp: sched_put_old_def rq_after_def idlethread_def)
next
  case False
  then have i: "cpu_curthread (ks_cpu s c) \<noteq> cpu_idlethread (ks_cpu s c)" by (simp add: idlethread_def curthread_def)
  have t: "timers_ok N (set_runqueue c l s) = timers_ok N s" "timers_ok N (unlock_thread u s) = timers_ok N s" for N l u
    by (rule timers_ok_cong; simp add: set_runqueue_def unlock_thread_def set_defs)+
  show ?thesis
  proof (cases "state_of s (curthread c s)")
    case kThreadRunning
    then have "sched_put_old c (curthread c s) s = Some (set_runqueue c (rq_after c s) s)"
      using i by (simp add: sched_put_old_def rq_after_def curthread_def idlethread_def)
    then show ?thesis using kThreadRunning t
      by (intro exI [of _ "set_runqueue c (rq_after c s) s"]) (auto simp: view_defs set_runqueue_def set_defs)
  next
    case kThreadWaiting
    then have "sched_put_old c (curthread c s) s = Some (unlock_thread (curthread c s) s)" "rq_after c s = runqueue c s"
      using i by (simp_all add: sched_put_old_def rq_after_def curthread_def idlethread_def)
    then show ?thesis using kThreadWaiting t
      by (intro exI [of _ "unlock_thread (curthread c s) s"]) (auto simp: view_defs unlock_thread_def spinlock_unlock_def set_defs)
  qed (use i in \<open>auto simp: sched_put_old_def rq_after_def curthread_def\<close>)
qed

lemma sched_next_ok:
  assumes "ks_sched_lock s"
  shows "sched_next c s = Some (case runqueue c s of [] \<Rightarrow> idlethread c s | t # _ \<Rightarrow> t, set_runqueue c (tl (runqueue c s)) s)"
proof -
  have l: "s\<lparr>ks_sched_lock := True\<rparr> = s" using assms by (cases s) simp
  have nil: "set_runqueue c [] s = s" if "runqueue c s = []"
    using that by (cases s) (auto simp: set_runqueue_def set_defs runqueue_def fun_eq_iff)
  show ?thesis using assms nil by (cases "runqueue c s") (simp_all add: sched_next_def ASSERT_SPINLOCK_HELD_def l idlethread_def)
qed

lemma set_rq_state_view:
  fixes s :: "'w ks" and t st c l
  defines "s' \<equiv> set_state t st (set_runqueue c l s)"
  shows "curthread d s' = curthread d s" "idlethread d s' = idlethread d s" "runqueue d s' = (if d = c then l else runqueue d s)"
    "state_of s' u = (if u = t then st else state_of s u)" "cpu_of s' u = cpu_of s u" "tlock s' u = tlock s u"
    "waiters w s' = waiters w s" "wlock w s' = wlock w s" "ks_sched_lock s' = ks_sched_lock s" "ks_ncpu s' = ks_ncpu s" "ks_sem s' = ks_sem s"
    "th_md (ks_thread s' u) = th_md (ks_thread s u)" "cpu_regs (ks_cpu s' d) = cpu_regs (ks_cpu s d)"
    "cpu_fs (ks_cpu s' d) = cpu_fs (ks_cpu s d)" "timers_ok N s' = timers_ok N s"
  by (simp_all add: s'_def view_defs set_runqueue_def set_state_def set_defs)
    (rule timers_ok_cong, simp_all)

lemma sched_reschedule_ok:
  assumes "\<not> ks_sched_lock s" and "curthread c s = idlethread c s \<Longrightarrow> state_of s (curthread c s) = kThreadRunning"
    and "timers_ok N s" "c < N"
  shows "\<exists>s'. sched_reschedule c s = Some s' \<and> (\<forall>d. runqueue d s' = (if d = c then tl (rq_after c s) else runqueue d s)) \<and>
    (\<forall>d. curthread d s' = (if d = c then next_thread c s else curthread d s) \<and> idlethread d s' = idlethread d s) \<and>
    (\<forall>t. state_of s' t = (if t = next_thread c s then kThreadRunning else state_of s t) \<and> cpu_of s' t = cpu_of s t) \<and>
    (\<forall>t. tlock s' t = (if t = curthread c s \<and> state_of s t = kThreadWaiting then False else tlock s t)) \<and>
    (\<forall>w. waiters w s' = waiters w s \<and> wlock w s' = wlock w s) \<and> \<not> ks_sched_lock s' \<and> ks_ncpu s' = ks_ncpu s \<and> ks_sem s' = ks_sem s \<and>
    timers_ok N s' \<and> co_state (ks_callout s' (cpu_timeslicer (ks_cpu s' c))) = kCalloutPending \<and> switched c (next_thread c s) s s'"
proof -
  let ?n = "next_thread c s" and ?o = "curthread c s"
  define s1 where "s1 = s\<lparr>ks_sched_lock := True\<rparr>"
  have v1: "curthread d s1 = curthread d s" "idlethread d s1 = idlethread d s" "runqueue d s1 = runqueue d s" "state_of s1 t = state_of s t"
    "cpu_of s1 t = cpu_of s t" "tlock s1 t = tlock s t" "waiters w s1 = waiters w s" "wlock w s1 = wlock w s" "ks_ncpu s1 = ks_ncpu s" "ks_sem s1 = ks_sem s"
    "ks_thread s1 = ks_thread s" "ks_cpu s1 = ks_cpu s" "timers_ok M s1 = timers_ok M s" "ks_sched_lock s1 = True" for d t w M
    by (simp_all add: s1_def view_defs timers_ok_def timer_ok_def)
  have l: "lock_sched s = Some s1" using assms(1) by (simp add: lock_sched_def spinlock_lock_def s1_def)
  have rqa: "rq_after c s1 = rq_after c s" by (simp add: rq_after_def v1)
  obtain s2 where p: "sched_put_old c ?o s1 = Some s2" and v2: "\<forall>d. runqueue d s2 = (if d = c then rq_after c s else runqueue d s)"
    "\<forall>d. curthread d s2 = curthread d s \<and> idlethread d s2 = idlethread d s" "\<forall>t. state_of s2 t = state_of s t \<and> cpu_of s2 t = cpu_of s t"
    "\<forall>t. tlock s2 t = (if t = ?o \<and> state_of s t = kThreadWaiting then False else tlock s t)" "\<forall>w. waiters w s2 = waiters w s \<and> wlock w s2 = wlock w s"
    "ks_sched_lock s2" "ks_ncpu s2 = ks_ncpu s" "ks_sem s2 = ks_sem s" "timers_ok N s2" "\<forall>t. th_md (ks_thread s2 t) = th_md (ks_thread s t)"
    "\<forall>d. cpu_regs (ks_cpu s2 d) = cpu_regs (ks_cpu s d) \<and> cpu_fs (ks_cpu s2 d) = cpu_fs (ks_cpu s d)"
    using put_old_ok [of c s1, unfolded v1 rqa] assms(2,3) by auto
  define s3 where "s3 = set_runqueue c (tl (rq_after c s)) s2"
  have n: "sched_next c s2 = Some (?n, s3)"
    using sched_next_ok [OF v2(6), of c] v2(1,2) by (cases "rq_after c s") (simp_all add: next_thread_def s3_def)
  define s4 where "s4 = set_state ?n kThreadRunning s3"
  note v4 = set_rq_state_view [where s = s2 and t = ?n and st = kThreadRunning and c = c and l = "tl (rq_after c s)", folded s3_def, folded s4_def]
  have "timers_ok N s4" using v2(9) by (simp add: v4)
  from start_timeslice_ok [OF this assms(4)] obtain s5 where t: "start_timeslice c s4 = Some s5" and v5: "same_view s4 s5" "timers_ok N s5"
    "co_state (ks_callout s5 (cpu_timeslicer (ks_cpu s5 c))) = kCalloutPending" "\<forall>t. th_md (ks_thread s5 t) = th_md (ks_thread s4 t)"
    "\<forall>d. cpu_regs (ks_cpu s5 d) = cpu_regs (ks_cpu s4 d) \<and> cpu_fs (ks_cpu s5 d) = cpu_fs (ks_cpu s4 d)" by blast
  let ?s = "if ?n = ?o then unlock_sched s5 else md_switch c ?o ?n s5"
  have run: "sched_reschedule c s = Some ?s" by (simp add: sched_reschedule_def l v1(1) p n t s4_def [symmetric])
  have tm: "timers_ok N ?s" using v5(2) by (simp add: timers_ok_def md_switch_view) (simp add: timer_ok_def unlock_sched_view)
  note V = same_viewD [OF v5(1)] v4 v2(2,3)
  have sw: "switched c ?n s ?s" using v5(4,5) v2(10,11) by (simp add: switched_def Let_def md_switch_regs unlock_sched_view v4)
  show ?thesis
    using run tm v5(3) sw v2(1,4,5,7,8) V
    by (intro exI [of _ ?s]) (simp add: md_switch_view unlock_sched_view)
qed

subsection \<open>The invariant\<close>

text \<open>
  \<open>X\<close> are the threads that have put themselves to sleep and are about to give up their processors:
  they hold their own lock, are still current and already stand in a wait queue. When no processor
  is in the middle of a wait there is none.
\<close>

definition sched_inv :: "nat \<Rightarrow> thread_ref set \<Rightarrow> 'w ks \<Rightarrow> bool" where
  "sched_inv N X s \<longleftrightarrow> \<not> ks_sched_lock s \<and> (\<forall>t. tlock s t \<longleftrightarrow> t \<in> X) \<and> (\<forall>w. \<not> wlock w s) \<and> timers_ok N s \<and>
     (\<forall>t \<in> X. (\<exists>c < N. t = curthread c s) \<and> (\<exists>w. t \<in> set (waiters w s))) \<and>
     (\<forall>c < N. distinct (runqueue c s)) \<and>
     (\<forall>c < N. \<forall>t \<in> set (runqueue c s). cpu_of s t = c \<and> state_of s t \<in> {kThreadRunnable, kThreadRunning} \<and>
        (\<forall>d < N. t \<noteq> idlethread d s \<and> t \<noteq> curthread d s)) \<and>
     (\<forall>c < N. state_of s (curthread c s) = (if curthread c s \<in> X then kThreadWaiting else kThreadRunning)) \<and>
     (\<forall>c < N. curthread c s = idlethread c s \<or> (cpu_of s (curthread c s) = c \<and> (\<forall>d < N. curthread c s \<noteq> idlethread d s))) \<and>
     (\<forall>c < N. state_of s (idlethread c s) = kThreadRunning \<and> (\<forall>d < N. idlethread c s = idlethread d s \<longrightarrow> c = d)) \<and>
     (\<forall>w. distinct (waiters w s)) \<and>
     (\<forall>w. \<forall>t \<in> set (waiters w s). state_of s t = kThreadWaiting \<and> cpu_of s t < N \<and> (\<forall>v. t \<in> set (waiters v s) \<longrightarrow> v = w))"

abbreviation sched_ok :: "nat \<Rightarrow> 'w ks \<Rightarrow> bool" where
  "sched_ok N s \<equiv> sched_inv N {} s"

lemma sched_invD:
  assumes "sched_inv N X s"
  shows sched_inv_lock: "\<not> ks_sched_lock s" and sched_inv_tlock: "tlock s t \<longleftrightarrow> t \<in> X" and sched_inv_wlock: "\<not> wlock w s"
    and sched_inv_timers: "timers_ok N s" and sched_inv_asleep: "t \<in> X \<Longrightarrow> \<exists>c < N. t = curthread c s" "t \<in> X \<Longrightarrow> \<exists>w. t \<in> set (waiters w s)"
    and sched_inv_rq_distinct: "c < N \<Longrightarrow> distinct (runqueue c s)"
    and sched_inv_rq: "c < N \<Longrightarrow> t \<in> set (runqueue c s) \<Longrightarrow> cpu_of s t = c \<and> state_of s t \<in> {kThreadRunnable, kThreadRunning}"
      "c < N \<Longrightarrow> t \<in> set (runqueue c s) \<Longrightarrow> d < N \<Longrightarrow> t \<noteq> idlethread d s \<and> t \<noteq> curthread d s"
    and sched_inv_cur: "c < N \<Longrightarrow> state_of s (curthread c s) = (if curthread c s \<in> X then kThreadWaiting else kThreadRunning)"
      "c < N \<Longrightarrow> curthread c s = idlethread c s \<or> (cpu_of s (curthread c s) = c \<and> (\<forall>d < N. curthread c s \<noteq> idlethread d s))"
    and sched_inv_idle: "c < N \<Longrightarrow> state_of s (idlethread c s) = kThreadRunning" "c < N \<Longrightarrow> d < N \<Longrightarrow> idlethread c s = idlethread d s \<Longrightarrow> c = d"
    and sched_inv_wait_distinct: "distinct (waiters w s)"
    and sched_inv_wait: "t \<in> set (waiters w s) \<Longrightarrow> state_of s t = kThreadWaiting \<and> cpu_of s t < N"
      "t \<in> set (waiters w s) \<Longrightarrow> t \<in> set (waiters v s) \<Longrightarrow> v = w"
proof -
  note a = assms [unfolded sched_inv_def]
  show "\<not> ks_sched_lock s" by (rule a [THEN conjunct1])
  note b = a [THEN conjunct2]
  show "tlock s t \<longleftrightarrow> t \<in> X" by (rule b [THEN conjunct1, rule_format])
  note c = b [THEN conjunct2]
  show "\<not> wlock w s" by (rule c [THEN conjunct1, rule_format])
  note d = c [THEN conjunct2]
  show "timers_ok N s" by (rule d [THEN conjunct1])
  note d' = d [THEN conjunct2]
  show "t \<in> X \<Longrightarrow> \<exists>c < N. t = curthread c s" "t \<in> X \<Longrightarrow> \<exists>w. t \<in> set (waiters w s)" using d' [THEN conjunct1] by blast+
  note e = d' [THEN conjunct2]
  show "c < N \<Longrightarrow> distinct (runqueue c s)" by (rule e [THEN conjunct1, rule_format])
  note f = e [THEN conjunct2]
  show "c < N \<Longrightarrow> t \<in> set (runqueue c s) \<Longrightarrow> cpu_of s t = c \<and> state_of s t \<in> {kThreadRunnable, kThreadRunning}"
    "c < N \<Longrightarrow> t \<in> set (runqueue c s) \<Longrightarrow> d < N \<Longrightarrow> t \<noteq> idlethread d s \<and> t \<noteq> curthread d s" using f [THEN conjunct1] by simp_all
  note g = f [THEN conjunct2]
  show "c < N \<Longrightarrow> state_of s (curthread c s) = (if curthread c s \<in> X then kThreadWaiting else kThreadRunning)"
    by (rule g [THEN conjunct1, rule_format])
  note h = g [THEN conjunct2]
  show "c < N \<Longrightarrow> curthread c s = idlethread c s \<or> (cpu_of s (curthread c s) = c \<and> (\<forall>d < N. curthread c s \<noteq> idlethread d s))"
    by (rule h [THEN conjunct1, rule_format])
  note i = h [THEN conjunct2]
  show "c < N \<Longrightarrow> state_of s (idlethread c s) = kThreadRunning" "c < N \<Longrightarrow> d < N \<Longrightarrow> idlethread c s = idlethread d s \<Longrightarrow> c = d"
    using i [THEN conjunct1] by blast+
  note j = i [THEN conjunct2]
  show "distinct (waiters w s)" by (rule j [THEN conjunct1, rule_format])
  note k = j [THEN conjunct2]
  show "t \<in> set (waiters w s) \<Longrightarrow> state_of s t = kThreadWaiting \<and> cpu_of s t < N"
    "t \<in> set (waiters w s) \<Longrightarrow> t \<in> set (waiters v s) \<Longrightarrow> v = w" using k by blast+
qed

lemma sched_invI:
  assumes "\<not> ks_sched_lock s" "\<And>t. tlock s t \<longleftrightarrow> t \<in> X" "\<And>w. \<not> wlock w s" "timers_ok N s"
    "\<And>c. c < N \<Longrightarrow> distinct (runqueue c s)"
    "\<And>c t. c < N \<Longrightarrow> t \<in> set (runqueue c s) \<Longrightarrow> cpu_of s t = c \<and> state_of s t \<in> {kThreadRunnable, kThreadRunning}"
    "\<And>c t d. c < N \<Longrightarrow> t \<in> set (runqueue c s) \<Longrightarrow> d < N \<Longrightarrow> t \<noteq> idlethread d s \<and> t \<noteq> curthread d s"
    "\<And>c. c < N \<Longrightarrow> state_of s (curthread c s) = (if curthread c s \<in> X then kThreadWaiting else kThreadRunning)"
    "\<And>c. c < N \<Longrightarrow> curthread c s = idlethread c s \<or> (cpu_of s (curthread c s) = c \<and> (\<forall>d < N. curthread c s \<noteq> idlethread d s))"
    "\<And>c. c < N \<Longrightarrow> state_of s (idlethread c s) = kThreadRunning" "\<And>c d. c < N \<Longrightarrow> d < N \<Longrightarrow> idlethread c s = idlethread d s \<Longrightarrow> c = d"
    "\<And>w. distinct (waiters w s)" "\<And>w t. t \<in> set (waiters w s) \<Longrightarrow> state_of s t = kThreadWaiting \<and> cpu_of s t < N"
    "\<And>w t v. t \<in> set (waiters w s) \<Longrightarrow> t \<in> set (waiters v s) \<Longrightarrow> v = w"
    "\<And>t. t \<in> X \<Longrightarrow> \<exists>c < N. t = curthread c s" "\<And>t. t \<in> X \<Longrightarrow> \<exists>w. t \<in> set (waiters w s)"
  shows "sched_inv N X s"
  unfolding sched_inv_def
proof (intro conjI)
  show "\<forall>c < N. \<forall>t \<in> set (runqueue c s). cpu_of s t = c \<and> state_of s t \<in> {kThreadRunnable, kThreadRunning} \<and>
        (\<forall>d < N. t \<noteq> idlethread d s \<and> t \<noteq> curthread d s)" using assms(6,7) by simp
  show "\<forall>c < N. state_of s (idlethread c s) = kThreadRunning \<and> (\<forall>d < N. idlethread c s = idlethread d s \<longrightarrow> c = d)"
    using assms(10,11) by (intro allI impI conjI)
  show "\<forall>w. \<forall>t \<in> set (waiters w s). state_of s t = kThreadWaiting \<and> cpu_of s t < N \<and> (\<forall>v. t \<in> set (waiters v s) \<longrightarrow> v = w)"
  proof (intro allI ballI)
    fix w t assume t: "t \<in> set (waiters w s)"
    then have "\<forall>v. t \<in> set (waiters v s) \<longrightarrow> v = w" using assms(14) by blast
    then show "state_of s t = kThreadWaiting \<and> cpu_of s t < N \<and> (\<forall>v. t \<in> set (waiters v s) \<longrightarrow> v = w)" using assms(13) [OF t] by simp
  qed
  show "\<forall>t. tlock s t \<longleftrightarrow> t \<in> X" using assms(2) by simp
  show "\<forall>t \<in> X. (\<exists>c < N. t = curthread c s) \<and> (\<exists>w. t \<in> set (waiters w s))" using assms(15,16) by blast
  show "\<forall>w. \<not> wlock w s" using assms(3) by simp
  show "\<forall>c < N. distinct (runqueue c s)" using assms(5) by simp
  show "\<forall>c < N. state_of s (curthread c s) = (if curthread c s \<in> X then kThreadWaiting else kThreadRunning)" by (intro allI impI assms(8))
  show "\<forall>c < N. curthread c s = idlethread c s \<or> (cpu_of s (curthread c s) = c \<and> (\<forall>d < N. curthread c s \<noteq> idlethread d s))"
    by (intro allI impI assms(9))
  show "\<forall>w. distinct (waiters w s)" using assms(12) by simp
qed (fact assms(1), fact assms(4))

text \<open>The current threads of two processors differ.\<close>

lemma curthread_inj:
  assumes "sched_inv N X s" "c < N" "d < N" "curthread c s = curthread d s"
  shows "c = d"
proof (cases "curthread c s = idlethread c s")
  case True
  then have "curthread d s = idlethread d s" using sched_inv_cur(2) [OF assms(1,3)] assms(2,4) by auto
  with True assms(4) have "idlethread c s = idlethread d s" by (rule_tac trans [OF True [symmetric] trans [OF assms(4)]])
  then show ?thesis by (rule sched_inv_idle(2) [OF assms(1,2,3)])
next
  case False
  then have "cpu_of s (curthread c s) = c" "curthread c s \<noteq> idlethread d s" using sched_inv_cur(2) [OF assms(1,2)] assms(3) by auto
  then show ?thesis using sched_inv_cur(2) [OF assms(1,3)] assms(4) by simp
qed

lemma rq_after_props:
  assumes inv: "sched_inv N X s" and c: "c < N"
  shows "distinct (rq_after c s)"
    and "t \<in> set (rq_after c s) \<Longrightarrow> cpu_of s t = c \<and> state_of s t \<in> {kThreadRunnable, kThreadRunning}"
    and "t \<in> set (rq_after c s) \<Longrightarrow> d < N \<Longrightarrow> t \<noteq> idlethread d s \<and> (d \<noteq> c \<longrightarrow> t \<noteq> curthread d s)"
    and "t \<in> set (rq_after c s) \<Longrightarrow> d < N \<Longrightarrow> d \<noteq> c \<Longrightarrow> t \<notin> set (runqueue d s)"
proof -
  let ?cur = "curthread c s"
  have n: "?cur \<notin> set (runqueue c s)" using sched_inv_rq(2) [OF inv c _ c] by blast
  then show "distinct (rq_after c s)" using sched_inv_rq_distinct [OF inv c] by (simp add: rq_after_def)
  have cur: "cpu_of s ?cur = c" "\<forall>d < N. ?cur \<noteq> idlethread d s" if "?cur \<in> set (rq_after c s)"
    using that n sched_inv_cur(2) [OF inv c] by (auto simp: rq_after_def split: if_splits)
  have mem: "t \<in> set (runqueue c s) \<or> t = ?cur" "t = ?cur \<Longrightarrow> state_of s t = kThreadRunning" if "t \<in> set (rq_after c s)" for t
    using that n by (auto simp: rq_after_def split: if_splits)
  show a: "t \<in> set (rq_after c s) \<Longrightarrow> cpu_of s t = c \<and> state_of s t \<in> {kThreadRunnable, kThreadRunning}" for t
    using mem [of t] cur(1) sched_inv_rq(1) [OF inv c, of t] by auto
  show "t \<in> set (rq_after c s) \<Longrightarrow> d < N \<Longrightarrow> t \<noteq> idlethread d s \<and> (d \<noteq> c \<longrightarrow> t \<noteq> curthread d s)"
    using mem(1) [of t] cur(2) sched_inv_rq(2) [OF inv c, of t d] curthread_inj [OF inv c, of d] by auto
  show "t \<in> set (rq_after c s) \<Longrightarrow> d < N \<Longrightarrow> d \<noteq> c \<Longrightarrow> t \<notin> set (runqueue d s)"
    using a [of t] sched_inv_rq(1) [OF inv, of d t] by auto
qed

lemma next_thread_cases:
  obtains "rq_after c s = []" "next_thread c s = idlethread c s"
  | rest where "rq_after c s = next_thread c s # rest" "tl (rq_after c s) = rest"
  by (cases "rq_after c s") (auto simp: next_thread_def)

text \<open>
  A thread that the scheduler knows of: running, idle, in a run queue or in a wait queue. No
  operation may lose one.
\<close>

definition placed :: "nat \<Rightarrow> 'w ks \<Rightarrow> thread_ref \<Rightarrow> bool" where
  "placed N s t \<longleftrightarrow> (\<exists>c < N. t = curthread c s \<or> t = idlethread c s \<or> t \<in> set (runqueue c s)) \<or> (\<exists>w. t \<in> set (waiters w s))"

definition keeps_placed :: "nat \<Rightarrow> 'w ks \<Rightarrow> 'w ks \<Rightarrow> bool" where
  "keeps_placed N s s' \<longleftrightarrow> (\<forall>t. placed N s t \<longrightarrow> placed N s' t)"

lemma placedI:
  "c < N \<Longrightarrow> t = curthread c s \<Longrightarrow> placed N s t" "c < N \<Longrightarrow> t = idlethread c s \<Longrightarrow> placed N s t"
  "c < N \<Longrightarrow> t \<in> set (runqueue c s) \<Longrightarrow> placed N s t" "t \<in> set (waiters w s) \<Longrightarrow> placed N s t"
  by (auto simp: placed_def)

lemma placed_cases:
  assumes "placed N s t"
  obtains c where "c < N" "t = curthread c s" | c where "c < N" "t = idlethread c s" | c where "c < N" "t \<in> set (runqueue c s)" | w where "t \<in> set (waiters w s)"
  using assms by (auto simp: placed_def)

lemma keeps_placed_refl [simp]: "keeps_placed N s s"
  by (simp add: keeps_placed_def)

lemma keeps_placed_trans: "keeps_placed N s s' \<Longrightarrow> keeps_placed N s' s'' \<Longrightarrow> keeps_placed N s s''"
  by (simp add: keeps_placed_def)

lemma keeps_placedD: "keeps_placed N s s' \<Longrightarrow> placed N s t \<Longrightarrow> placed N s' t"
  by (simp add: keeps_placed_def)

lemma same_view_placed: "same_view s s' \<Longrightarrow> keeps_placed N s s'"
  by (simp add: keeps_placed_def placed_def same_viewD)

text \<open>A thread in state \<^verbatim>\<open>kThreadWaiting\<close> that is somewhere is in a wait queue.\<close>

lemma waiting_queued:
  assumes inv: "sched_inv N X s" and t: "placed N s t" "state_of s t = kThreadWaiting"
  shows "\<exists>w. t \<in> set (waiters w s)"
  using t(1)
proof (cases rule: placed_cases)
  case (1 c)
  then have "t \<in> X" using sched_inv_cur(1) [OF inv, of c] t(2) by (auto split: if_splits)
  then show ?thesis by (rule sched_inv_asleep(2) [OF inv])
next
  case (3 c)
  then show ?thesis using t(2) sched_inv_rq(1) [OF inv 3] by auto
qed (use t(2) sched_inv_idle(1) [OF inv] in auto)

lemma reschedule_placed:
  assumes inv: "sched_inv N X s" and c: "c < N"
    and v: "\<And>d. runqueue d s' = (if d = c then tl (rq_after c s) else runqueue d s)"
      "\<And>d. curthread d s' = (if d = c then next_thread c s else curthread d s)" "\<And>d. idlethread d s' = idlethread d s"
      "\<And>w. waiters w s' = waiters w s"
  shows "keeps_placed N s s'"
  unfolding keeps_placed_def
proof (intro allI impI)
  have rq: "placed N s' t" if "t \<in> set (rq_after c s)" for t
    using that c v(1,2) by (rule_tac next_thread_cases [of c s]) (auto intro: placedI)
  fix t assume "placed N s t"
  then show "placed N s' t"
  proof (cases rule: placed_cases)
    case (1 d)
    show ?thesis
    proof (cases "d = c")
      case True
      consider "t = idlethread c s" | "t \<in> set (rq_after c s)" | "t \<in> X"
        using 1 True sched_inv_cur(1) [OF inv c] by (cases "t = idlethread c s"; cases "t \<in> X") (auto simp: rq_after_def)
      then show ?thesis
        by cases (use rq c v(3,4) sched_inv_asleep(2) [OF inv, of t] in \<open>auto intro: placedI\<close>)
    qed (use 1 v(2) in \<open>auto intro: placedI\<close>)
  next
    case (3 d)
    then show ?thesis using rq [of t] v(1) by (cases "d = c") (auto simp: rq_after_def intro: placedI)
  qed (use v(3,4) in \<open>auto intro: placedI\<close>)
qed

lemma reschedule_inv:
  assumes inv: "sched_inv N X s" and c: "c < N"
  shows "\<exists>s'. sched_reschedule c s = Some s' \<and> sched_inv N (X - {curthread c s}) s' \<and> keeps_placed N s s' \<and> curthread c s' = next_thread c s \<and> runqueue c s' = tl (rq_after c s) \<and>
    (\<forall>d. d \<noteq> c \<longrightarrow> runqueue d s' = runqueue d s \<and> curthread d s' = curthread d s) \<and> (\<forall>w. waiters w s' = waiters w s) \<and> (\<forall>d. idlethread d s' = idlethread d s) \<and>
    (\<forall>t. state_of s' t = (if t = next_thread c s then kThreadRunning else state_of s t) \<and> cpu_of s' t = cpu_of s t) \<and> ks_sem s' = ks_sem s \<and>
    switched c (next_thread c s) s s'"
proof -
  let ?n = "next_thread c s"
  have "state_of s (curthread c s) = kThreadRunning" if "curthread c s = idlethread c s" using sched_inv_idle(1) [OF inv c] that by simp
  from sched_reschedule_ok [OF sched_inv_lock [OF inv] this sched_inv_timers [OF inv] c]
  obtain s' where r: "sched_reschedule c s = Some s'" and rq: "\<And>d. runqueue d s' = (if d = c then tl (rq_after c s) else runqueue d s)"
    and cur: "\<And>d. curthread d s' = (if d = c then ?n else curthread d s)" "\<And>d. idlethread d s' = idlethread d s"
    and st: "\<And>t. state_of s' t = (if t = ?n then kThreadRunning else state_of s t)" "\<And>t. cpu_of s' t = cpu_of s t"
    and lk: "\<And>t. tlock s' t = (if t = curthread c s \<and> state_of s t = kThreadWaiting then False else tlock s t)"
    and wq: "\<And>w. waiters w s' = waiters w s" "\<And>w. wlock w s' = wlock w s" and sl: "\<not> ks_sched_lock s'" "timers_ok N s'" and sm: "ks_sem s' = ks_sem s"
    and sw: "switched c ?n s s'" by auto
  note P = rq_after_props [OF inv c]
  have n_mem: "?n = idlethread c s \<or> ?n \<in> set (rq_after c s)" by (rule next_thread_cases [of c s]) auto
  have tl_mem: "t \<in> set (rq_after c s) \<and> t \<noteq> ?n" if "t \<in> set (tl (rq_after c s))" for t
    using that P(1) by (rule_tac next_thread_cases [of c s]) auto
  have n_state: "state_of s ?n \<noteq> kThreadWaiting" using n_mem P(2) [of ?n] sched_inv_idle(1) [OF inv c] by auto
  have n_free: "?n \<noteq> curthread d s" "?n \<notin> set (runqueue d s)" if "d < N" "d \<noteq> c" for d
    using n_mem P(3,4) that sched_inv_cur(2) [OF inv that(1)] sched_inv_rq(2) [OF inv that(1) _ c] sched_inv_idle(2) [OF inv c that(1)] c by metis+
  have n_X: "?n \<notin> X" using sched_inv_asleep(1) [OF inv, of ?n] sched_inv_cur(1) [OF inv] n_state by auto
  have "sched_inv N (X - {curthread c s}) s'"
  proof (rule sched_invI)
    fix d t assume d: "d < N" "t \<in> set (runqueue d s')"
    show "cpu_of s' t = d \<and> state_of s' t \<in> {kThreadRunnable, kThreadRunning}"
      using d rq st P(2) tl_mem sched_inv_rq(1) [OF inv d(1)] by (cases "d = c") auto
    fix e assume e: "e < N"
    have q: "t \<noteq> ?n" "if d = c then t \<in> set (rq_after c s) else t \<in> set (runqueue d s)"
      using d rq tl_mem n_free(2) by (auto split: if_splits)
    show "t \<noteq> idlethread e s' \<and> t \<noteq> curthread e s'"
      using q P(3) [of t e] sched_inv_rq(2) [OF inv d(1) _ e] e cur by (cases "d = c") auto
  next
    fix d assume d: "d < N"
    show "distinct (runqueue d s')" using rq P(1) sched_inv_rq_distinct [OF inv d] by (simp add: distinct_tl)
    show "state_of s' (curthread d s') = (if curthread d s' \<in> X - {curthread c s} then kThreadWaiting else kThreadRunning)"
    proof (cases "d = c")
      case True
      then show ?thesis using cur(1) st(1) n_X by simp
    next
      case False
      then have "curthread d s \<noteq> curthread c s" "?n \<noteq> curthread d s" using curthread_inj [OF inv d c] n_free(1) [OF d] by blast+
      then show ?thesis using False cur(1) st(1) sched_inv_cur(1) [OF inv d] by simp
    qed
    show "curthread d s' = idlethread d s' \<or> (cpu_of s' (curthread d s') = d \<and> (\<forall>e < N. curthread d s' \<noteq> idlethread e s'))"
    proof (cases "d = c")
      case True
      have "?n = idlethread c s \<or> (cpu_of s ?n = c \<and> (\<forall>e < N. ?n \<noteq> idlethread e s))" using n_mem P(2) [of ?n] P(3) [of ?n] by blast
      then show ?thesis unfolding cur st using True by simp
    qed (unfold cur st, use sched_inv_cur(2) [OF inv d] in simp)
    show "state_of s' (idlethread d s') = kThreadRunning" using cur st sched_inv_idle(1) [OF inv d] by simp
  next
    fix w t assume "t \<in> set (waiters w s')"
    then show "state_of s' t = kThreadWaiting \<and> cpu_of s' t < N" using wq st n_state sched_inv_wait(1) [OF inv, of t w] by auto
  next
    fix t assume t: "t \<in> X - {curthread c s}"
    then obtain d where "d < N" "t = curthread d s" "d \<noteq> c" using sched_inv_asleep(1) [OF inv, of t] by auto
    then show "\<exists>d < N. t = curthread d s'" using cur(1) by (intro exI [of _ d]) simp
    show "\<exists>w. t \<in> set (waiters w s')" using t wq(1) sched_inv_asleep(2) [OF inv, of t] by simp
  next
    fix t show "tlock s' t = (t \<in> X - {curthread c s})"
      using lk [of t] sched_inv_tlock [OF inv, of t] sched_inv_cur(1) [OF inv c] by (auto split: if_splits)
  qed (use wq sl cur in \<open>auto simp: sched_inv_wlock [OF inv] sched_inv_wait_distinct [OF inv]
      dest: sched_inv_idle(2) [OF inv] sched_inv_wait(2) [OF inv]\<close>)
  moreover have "keeps_placed N s s'" by (rule reschedule_placed [OF inv c rq cur wq(1)])
  ultimately show ?thesis using r rq cur st wq sm sw by (intro exI [of _ s']) simp
qed

text \<open>A processor that is not in the middle of a wait.\<close>

lemma reschedule_keeps_inv:
  assumes "sched_inv N X s" and "c < N" and "curthread c s \<notin> X"
  shows "\<exists>s'. sched_reschedule c s = Some s' \<and> sched_inv N X s' \<and> keeps_placed N s s' \<and> curthread c s' = next_thread c s \<and> runqueue c s' = tl (rq_after c s) \<and>
    (\<forall>d. d \<noteq> c \<longrightarrow> runqueue d s' = runqueue d s \<and> curthread d s' = curthread d s) \<and> (\<forall>w. waiters w s' = waiters w s) \<and> (\<forall>d. idlethread d s' = idlethread d s) \<and>
    (\<forall>t. state_of s' t = (if t = next_thread c s then kThreadRunning else state_of s t) \<and> cpu_of s' t = cpu_of s t) \<and> ks_sem s' = ks_sem s \<and>
    switched c (next_thread c s) s s'"
  using reschedule_inv [OF assms(1,2)] assms(3) by (simp add: Diff_insert0)

subsection \<open>Sleeping and waking\<close>

text \<open>A thread that is nowhere: in no queue and on no processor.\<close>

definition dormant :: "nat \<Rightarrow> 'w ks \<Rightarrow> thread_ref \<Rightarrow> bool" where
  "dormant N s t \<longleftrightarrow> cpu_of s t < N \<and> (\<forall>c < N. t \<notin> set (runqueue c s) \<and> t \<noteq> curthread c s \<and> t \<noteq> idlethread c s) \<and> (\<forall>w. t \<notin> set (waiters w s))"

text \<open>The same processors and threads but for the state and lock of \<open>t\<close> and the wait queue \<open>w\<close>.\<close>

lemma sleep_view:
  assumes "\<not> th_lock (ks_thread s t)" "t = curthread c s"
  shows "\<exists>s'. waitq_sleep c w s = Some s' \<and> (\<forall>d. curthread d s' = curthread d s \<and> idlethread d s' = idlethread d s \<and> runqueue d s' = runqueue d s) \<and>
    (\<forall>u. state_of s' u = (if u = t then kThreadWaiting else state_of s u) \<and> cpu_of s' u = cpu_of s u \<and> tlock s' u = (u = t \<or> tlock s u)) \<and>
    (\<forall>v. waiters v s' = (if v = w then waiters w s @ [t] else waiters v s) \<and> wlock v s' = (v \<noteq> w \<and> wlock v s)) \<and>
    ks_sched_lock s' = ks_sched_lock s \<and> ks_sem s' = ks_sem s \<and> (\<forall>N. timers_ok N s' = timers_ok N s) \<and>
    (\<forall>u. th_md (ks_thread s' u) = th_md (ks_thread s u)) \<and> ks_cpu s' = ks_cpu s"
proof -
  let ?s = "unlock_wq w (set_thread t (\<lambda>th. th\<lparr>th_state := kThreadWaiting, th_wq := Some w\<rparr>)
    (set_wq w (\<lambda>q. q\<lparr>wq_waiters := wq_waiters q @ [t]\<rparr>) (set_thread t (\<lambda>th. th\<lparr>th_lock := True\<rparr>) s)))"
  have "waitq_sleep c w s = Some ?s" using assms by (simp add: waitq_sleep_def lock_thread_def spinlock_lock_def Let_def)
  moreover have "timers_ok N ?s = timers_ok N s" for N by (rule timers_ok_cong) (simp_all add: set_defs unlock_wq_def)
  ultimately show ?thesis by (intro exI [of _ ?s]) (auto simp: view_defs set_defs unlock_wq_def spinlock_unlock_def)
qed

lemma sleep_keeps_inv:
  assumes inv: "sched_inv N X s" and c: "c < N" and t: "t = curthread c s" "t \<noteq> idlethread c s" "t \<notin> X"
    and v: "\<And>d. curthread d s' = curthread d s \<and> idlethread d s' = idlethread d s \<and> runqueue d s' = runqueue d s"
      "\<And>u. state_of s' u = (if u = t then kThreadWaiting else state_of s u)" "\<And>u. cpu_of s' u = cpu_of s u" "\<And>u. tlock s' u = (u = t \<or> tlock s u)"
      "\<And>v. waiters v s' = (if v = w then waiters w s @ [t] else waiters v s)" "\<And>v. \<not> wlock v s'" "\<not> ks_sched_lock s'" "timers_ok N s'"
  shows "sched_inv N (insert t X) s'"
proof -
  have tst: "state_of s t = kThreadRunning" using sched_inv_cur(1) [OF inv c] t(1,3) by simp
  have tq: "t \<notin> set (runqueue d s)" if "d < N" for d using sched_inv_rq(2) [OF inv that _ c] t(1) by blast
  have tw: "t \<notin> set (waiters v s)" for v using sched_inv_wait(1) [OF inv, of t v] tst by auto
  have ti: "cpu_of s t = c" "\<forall>d < N. t \<noteq> idlethread d s" using sched_inv_cur(2) [OF inv c] t by auto
  show ?thesis
  proof (rule sched_invI)
    fix d u assume d: "d < N" "u \<in> set (runqueue d s')"
    then have u: "u \<in> set (runqueue d s)" "u \<noteq> t" using v(1) tq by auto
    show "cpu_of s' u = d \<and> state_of s' u \<in> {kThreadRunnable, kThreadRunning}" using sched_inv_rq(1) [OF inv d(1) u(1)] u(2) v(2,3) by simp
    fix e assume "e < N"
    then show "u \<noteq> idlethread e s' \<and> u \<noteq> curthread e s'" using sched_inv_rq(2) [OF inv d(1) u(1)] v(1) by simp
  next
    fix d assume d: "d < N"
    show "distinct (runqueue d s')" using sched_inv_rq_distinct [OF inv d] v(1) by simp
    show "state_of s' (curthread d s') = (if curthread d s' \<in> insert t X then kThreadWaiting else kThreadRunning)"
      using sched_inv_cur(1) [OF inv d] v(1,2) by simp
    show "curthread d s' = idlethread d s' \<or> (cpu_of s' (curthread d s') = d \<and> (\<forall>e < N. curthread d s' \<noteq> idlethread e s'))"
      using sched_inv_cur(2) [OF inv d] v(1,3) by simp
    show "state_of s' (idlethread d s') = kThreadRunning" using sched_inv_idle(1) [OF inv d] ti(2) d v(1,2) by auto
  next
    fix y u assume u: "u \<in> set (waiters y s')"
    then have m: "u = t \<and> y = w \<or> u \<in> set (waiters y s)" using v(5) by (auto split: if_splits)
    then show "state_of s' u = kThreadWaiting \<and> cpu_of s' u < N" using sched_inv_wait(1) [OF inv, of u y] v(2,3) ti(1) c by auto
    fix z assume "u \<in> set (waiters z s')"
    then have "u = t \<and> z = w \<or> u \<in> set (waiters z s)" using v(5) by (auto split: if_splits)
    then show "z = y" using m tw sched_inv_wait(2) [OF inv] by blast
  next
    fix y show "distinct (waiters y s')" using sched_inv_wait_distinct [OF inv] tw v(5) by simp
  next
    fix d e assume "d < N" "e < N" "idlethread d s' = idlethread e s'"
    then show "d = e" using sched_inv_idle(2) [OF inv] v(1) by simp
  next
    fix u show "tlock s' u = (u \<in> insert t X)" using sched_inv_tlock [OF inv, of u] v(4) [of u] by auto
  next
    fix u assume u: "u \<in> insert t X"
    show "\<exists>d < N. u = curthread d s'" using u t(1) c v(1) sched_inv_asleep(1) [OF inv, of u] by auto
    show "\<exists>y. u \<in> set (waiters y s')"
    proof (cases "u = t")
      case False
      then obtain y where "u \<in> set (waiters y s)" using u sched_inv_asleep(2) [OF inv, of u] by auto
      then show ?thesis using v(5) by (intro exI [of _ y]) auto
    qed (use v(5) in \<open>auto intro!: exI [of _ w]\<close>)
  qed (use v(6,7,8) in simp_all)
qed

text \<open>The first half of a wait, with the lock of the wait queue taken: the thread queues up and is about to give up its processor.\<close>

lemma sleep_ok:
  assumes inv: "sched_inv N X s" and c: "c < N" and ni: "curthread c s \<noteq> idlethread c s" and nX: "curthread c s \<notin> X"
    and s1: "s1 = s\<lparr>ks_wq := (ks_wq s)(w := (ks_wq s w)\<lparr>wq_lock := True\<rparr>), ks_sem := sem\<rparr>"
  shows "\<exists>s2. waitq_sleep c w s1 = Some s2 \<and> sched_inv N (insert (curthread c s) X) s2 \<and> keeps_placed N s s2 \<and> ks_sem s2 = sem \<and>
    (\<forall>v. waiters v s2 = (if v = w then waiters w s @ [curthread c s] else waiters v s)) \<and>
    (\<forall>d. curthread d s2 = curthread d s \<and> idlethread d s2 = idlethread d s \<and> runqueue d s2 = runqueue d s) \<and>
    (\<forall>u. state_of s2 u = (if u = curthread c s then kThreadWaiting else state_of s u))"
proof -
  let ?t = "curthread c s"
  have e: "ks_thread s1 = ks_thread s" "ks_sched_lock s1 = ks_sched_lock s" "ks_sem s1 = sem" by (simp_all add: s1)
  have v1: "curthread d s1 = curthread d s" "idlethread d s1 = idlethread d s" "runqueue d s1 = runqueue d s" "state_of s1 u = state_of s u"
    "cpu_of s1 u = cpu_of s u" "tlock s1 u = tlock s u" "waiters v s1 = waiters v s" "wlock v s1 = (v = w \<or> wlock v s)" "timers_ok M s1 = timers_ok M s" for d u v M
    by (simp_all add: s1 view_defs timers_ok_def timer_ok_def)
  have "\<not> th_lock (ks_thread s1 ?t)" using sched_inv_tlock [OF inv, of ?t] nX by (simp add: tlock_def e)
  from sleep_view [OF this, of c w] obtain s2 where s2: "waitq_sleep c w s1 = Some s2"
    "\<And>d. curthread d s2 = curthread d s \<and> idlethread d s2 = idlethread d s \<and> runqueue d s2 = runqueue d s"
    "\<And>u. state_of s2 u = (if u = ?t then kThreadWaiting else state_of s u)" "\<And>u. cpu_of s2 u = cpu_of s u" "\<And>u. tlock s2 u = (u = ?t \<or> tlock s u)"
    "\<And>v. waiters v s2 = (if v = w then waiters w s @ [?t] else waiters v s)" "\<And>v. wlock v s2 = (v \<noteq> w \<and> wlock v s1)" "\<not> ks_sched_lock s2"
    "ks_sem s2 = sem" "timers_ok N s2"
    using v1 e(2,3) sched_inv_lock [OF inv] sched_inv_timers [OF inv] by auto
  have "\<not> wlock v s2" for v using s2(7) [of v] v1(8) [of v] sched_inv_wlock [OF inv, of v] by auto
  from sleep_keeps_inv [OF inv c refl ni nX s2(2-6) this s2(8,10)] have "sched_inv N (insert ?t X) s2" .
  moreover have "placed N s2 u" if "placed N s u" for u
    using that
  proof (cases rule: placed_cases)
    case (4 v)
    then show ?thesis using s2(6) by (intro placedI(4) [of _ v]) auto
  qed (use s2(2) in \<open>auto intro: placedI\<close>)
  ultimately show ?thesis using s2(1-3,6,9) by (intro exI [of _ s2]) (simp add: keeps_placed_def)
qed

lemma await_keeps_inv:
  assumes inv: "sched_inv N X s" and c: "c < N" and ni: "curthread c s \<noteq> idlethread c s" and nX: "curthread c s \<notin> X"
    and s1: "s1 = s\<lparr>ks_wq := (ks_wq s)(w := (ks_wq s w)\<lparr>wq_lock := True\<rparr>), ks_sem := sem\<rparr>"
  shows "\<exists>s'. waitq_await_locked c w s1 = Some s' \<and> sched_inv N X s' \<and> keeps_placed N s s' \<and> ks_sem s' = sem \<and>
    (\<forall>v. waiters v s' = (if v = w then waiters w s @ [curthread c s] else waiters v s)) \<and> (\<forall>d < N. curthread d s' \<noteq> curthread c s) \<and>
    state_of s' (curthread c s) = kThreadWaiting \<and>
    (\<exists>s2. waitq_sleep c w s1 = Some s2 \<and> sched_reschedule c s2 = Some s' \<and> sched_inv N (insert (curthread c s) X) s2)"
proof -
  let ?t = "curthread c s"
  from sleep_ok [OF inv c ni nX s1] obtain s2 where s2: "waitq_sleep c w s1 = Some s2" "sched_inv N (insert ?t X) s2" "keeps_placed N s s2" "ks_sem s2 = sem"
    "\<And>v. waiters v s2 = (if v = w then waiters w s @ [?t] else waiters v s)"
    "\<And>d. curthread d s2 = curthread d s \<and> idlethread d s2 = idlethread d s \<and> runqueue d s2 = runqueue d s"
    "\<And>u. state_of s2 u = (if u = ?t then kThreadWaiting else state_of s u)" by blast
  from reschedule_inv [OF s2(2) c] s2(6) nX obtain s' where s': "sched_reschedule c s2 = Some s'" "sched_inv N X s'" "keeps_placed N s2 s'"
    "curthread c s' = next_thread c s2" "\<forall>d. d \<noteq> c \<longrightarrow> curthread d s' = curthread d s2"
    "\<forall>v. waiters v s' = waiters v s2" "\<forall>t. state_of s' t = (if t = next_thread c s2 then kThreadRunning else state_of s2 t)" "ks_sem s' = ks_sem s2" by auto
  have "?t \<notin> set (rq_after c s2)" using rq_after_props(2) [OF s2(2) c, of ?t] s2(7) by auto
  then have n: "next_thread c s2 \<noteq> ?t" using ni s2(6) by (rule_tac next_thread_cases [of c s2]) auto
  have "curthread d s' \<noteq> ?t" if "d < N" for d
    using n s'(4,5) s2(6) curthread_inj [OF inv that c] by (cases "d = c") auto
  then show ?thesis using s2 s' n keeps_placed_trans [OF s2(3) s'(3)]
    by (intro exI [of _ s'] conjI exI [of _ s2]) (simp_all add: waitq_await_locked_def)
qed

lemma enqueue_keeps_inv:
  assumes inv: "sched_inv N X s" and t: "dormant N s t" "tc = cpu_of s t"
    and v: "\<And>d. curthread d s' = curthread d s \<and> idlethread d s' = idlethread d s" "\<And>d. runqueue d s' = (if d = tc then t # runqueue tc s else runqueue d s)"
      "\<And>u. state_of s' u = (if u = t then kThreadRunnable else state_of s u)" "\<And>u. cpu_of s' u = cpu_of s u" "\<And>u. tlock s' u = tlock s u"
      "\<And>v. waiters v s' = waiters v s" "\<And>v. wlock v s' = wlock v s" "\<not> ks_sched_lock s'" "timers_ok N s'"
  shows "sched_inv N X s'"
proof (rule sched_invI)
  note D = t(1) [unfolded dormant_def]
  fix d u assume d: "d < N" "u \<in> set (runqueue d s')"
  then have u: "u = t \<and> d = tc \<or> u \<in> set (runqueue d s) \<and> u \<noteq> t" using v(2) D by (auto split: if_splits)
  then show "cpu_of s' u = d \<and> state_of s' u \<in> {kThreadRunnable, kThreadRunning}" using sched_inv_rq(1) [OF inv d(1), of u] v(3,4) t(2) by auto
  fix e assume "e < N"
  then show "u \<noteq> idlethread e s' \<and> u \<noteq> curthread e s'" using u sched_inv_rq(2) [OF inv d(1), of u e] v(1) D by auto
next
  note D = t(1) [unfolded dormant_def]
  fix d assume d: "d < N"
  show "distinct (runqueue d s')" using sched_inv_rq_distinct [OF inv d] v(2) D d by auto
  show "state_of s' (curthread d s') = (if curthread d s' \<in> X then kThreadWaiting else kThreadRunning)"
    using sched_inv_cur(1) [OF inv d] v(1,3) D d by auto
  show "curthread d s' = idlethread d s' \<or> (cpu_of s' (curthread d s') = d \<and> (\<forall>e < N. curthread d s' \<noteq> idlethread e s'))"
    using sched_inv_cur(2) [OF inv d] v(1,4) by simp
  show "state_of s' (idlethread d s') = kThreadRunning" using sched_inv_idle(1) [OF inv d] v(1,3) D d by auto
next
  note D = t(1) [unfolded dormant_def]
  fix w u assume "u \<in> set (waiters w s')"
  then show "state_of s' u = kThreadWaiting \<and> cpu_of s' u < N" using sched_inv_wait(1) [OF inv, of u w] v(3,4,6) D by auto
next
  fix d e assume "d < N" "e < N" "idlethread d s' = idlethread e s'"
  then show "d = e" using sched_inv_idle(2) [OF inv] v(1) by simp
next
  fix w u x assume "u \<in> set (waiters w s')" "u \<in> set (waiters x s')"
  then show "x = w" using sched_inv_wait(2) [OF inv] v(6) by simp
next
  fix u assume "u \<in> X"
  then show "\<exists>d < N. u = curthread d s'" "\<exists>w. u \<in> set (waiters w s')" using sched_inv_asleep [OF inv, of u] v(1,6) by simp_all
qed (use v sched_inv_tlock [OF inv] sched_inv_wlock [OF inv] sched_inv_wait_distinct [OF inv] in simp_all)

text \<open>A change that the view does not show.\<close>

lemma sched_inv_cong:
  assumes "same_view s s'" "timers_ok N s' = timers_ok N s"
  shows "sched_inv N X s' = sched_inv N X s"
  using same_viewD [OF assms(1)] assms(2) by (simp add: sched_inv_def)

lemma cpu_update_view:
  assumes "\<And>p. cpu_curthread (f p) = cpu_curthread p \<and> cpu_idlethread (f p) = cpu_idlethread p \<and> cpu_runqueue (f p) = cpu_runqueue p \<and>
    cpu_timeslicer (f p) = cpu_timeslicer p \<and> cpu_lapic_tps (f p) = cpu_lapic_tps p \<and> cpu_pendingcallouts (f p) = cpu_pendingcallouts p"
  shows "same_view s (set_cpu c f s)" "timers_ok N (set_cpu c f s) = timers_ok N s"
proof -
  show "same_view s (set_cpu c f s)" using assms by (simp add: same_view_def view_defs set_cpu_def)
  show "timers_ok N (set_cpu c f s) = timers_ok N s" by (rule timers_ok_cong) (use assms in \<open>simp_all add: set_cpu_def\<close>)
qed

lemma same_view_trans: "same_view s s' \<Longrightarrow> same_view s' s'' \<Longrightarrow> same_view s s''"
  by (simp add: same_view_def)

lemma ipi_view: "same_view s (md_ipi_resched c d s)" "timers_ok N (md_ipi_resched c d s) = timers_ok N s"
proof -
  show "same_view s (md_ipi_resched c d s)"
    unfolding md_ipi_resched_def send_ipi_def lapic_write_def by (rule same_view_trans; rule cpu_update_view(1); simp)
  show "timers_ok N (md_ipi_resched c d s) = timers_ok N s"
    unfolding md_ipi_resched_def send_ipi_def lapic_write_def by (simp add: cpu_update_view(2))
qed

lemma ipi_inv: "sched_inv N X (md_ipi_resched c d s) = sched_inv N X s"
  by (rule sched_inv_cong [OF ipi_view])

text \<open>
  Where a thread ends up when it is resumed: on its processor when that is the current one and no
  interrupt is being handled, at the head of its run queue otherwise.
\<close>

lemma resume_keeps_inv:
  assumes inv: "sched_inv N X s" and c: "c < N" and nX: "curthread c s \<notin> X" and t: "dormant N s t"
  shows "\<exists>s'. thread_resume c t s = Some s' \<and> sched_inv N X s' \<and> keeps_placed N s s' \<and> placed N s' t \<and> (\<forall>w. waiters w s' = waiters w s) \<and> ks_sem s' = ks_sem s \<and>
    (if cpu_of s t = c \<and> \<not> cpu_inInterrupt (ks_cpu s c) then curthread c s' = t \<and> state_of s' t = kThreadRunning
     else runqueue (cpu_of s t) s' = t # runqueue (cpu_of s t) s \<and> state_of s' t = kThreadRunnable \<and> (\<forall>d. curthread d s' = curthread d s))"
proof -
  let ?tc = "cpu_of s t"
  define s3 where "s3 = unlock_sched (set_runqueue ?tc (t # runqueue ?tc s) (set_state t kThreadRunnable (s\<lparr>ks_sched_lock := True\<rparr>)))"
  have v: "curthread d s3 = curthread d s \<and> idlethread d s3 = idlethread d s" "runqueue d s3 = (if d = ?tc then t # runqueue ?tc s else runqueue d s)"
    "state_of s3 u = (if u = t then kThreadRunnable else state_of s u)" "cpu_of s3 u = cpu_of s u" "tlock s3 u = tlock s u"
    "waiters w s3 = waiters w s" "wlock w s3 = wlock w s" "\<not> ks_sched_lock s3" "ks_sem s3 = ks_sem s" "cpu_inInterrupt (ks_cpu s3 d) = cpu_inInterrupt (ks_cpu s d)" for d u w
    by (simp_all add: s3_def view_defs unlock_sched_def spinlock_unlock_def set_runqueue_def set_state_def set_defs)
  have tm: "timers_ok N s3"
    using sched_inv_timers [OF inv] timers_ok_cong [of s3 s N] by (simp add: s3_def unlock_sched_def set_runqueue_def set_state_def set_defs)
  have inv3: "sched_inv N X s3" by (rule enqueue_keeps_inv [OF inv t refl v(1-8) tm])
  have "placed N s3 u" if "placed N s u" for u
    using that by (cases rule: placed_cases) (use v(1,2,6) in \<open>auto intro: placedI\<close>)
  then have k3: "keeps_placed N s s3" by (simp add: keeps_placed_def)
  have p3: "placed N s3 t" using t v(2) [of ?tc] by (intro placedI(3) [of ?tc]) (simp_all add: dormant_def)
  have tc: "th_cpu (ks_thread (set_state t kThreadRunnable (s\<lparr>ks_sched_lock := True\<rparr>)) t) = ?tc" by (simp add: set_state_def set_defs cpu_of_def)
  have ls: "lock_sched s = Some (s\<lparr>ks_sched_lock := True\<rparr>)" using sched_inv_lock [OF inv] by (simp add: lock_sched_def spinlock_lock_def)
  have rqt: "runqueue ?tc (set_state t kThreadRunnable (s\<lparr>ks_sched_lock := True\<rparr>)) = runqueue ?tc s" by (simp add: set_state_def set_defs runqueue_def)
  have r: "thread_resume c t s = (if ?tc = c then if cpu_inInterrupt (ks_cpu s3 c) then Some (set_cpu c (\<lambda>p. p\<lparr>cpu_preempted := True\<rparr>) s3)
      else sched_reschedule c s3 else Some (md_ipi_resched c ?tc s3))"
    unfolding thread_resume_def ls Option.bind.bind_lunit Let_def tc rqt s3_def by (rule refl)
  consider (other) "?tc \<noteq> c" | (intr) "?tc = c" "cpu_inInterrupt (ks_cpu s c)" | (here) "?tc = c" "\<not> cpu_inInterrupt (ks_cpu s c)" by blast
  then show ?thesis
  proof cases
    case other
    have k: "keeps_placed N s (md_ipi_resched c ?tc s3)" "placed N (md_ipi_resched c ?tc s3) t"
      using keeps_placed_trans [OF k3] keeps_placedD [OF _ p3] same_view_placed [OF ipi_view(1) [of s3 c ?tc], of N] by blast+
    show ?thesis using other r inv3 k v(1,2,3,6,9) same_viewD [OF ipi_view(1) [of s3 c ?tc]] by (simp add: ipi_inv)
  next
    case intr
    have u: "same_view s3 (set_cpu c (\<lambda>p. p\<lparr>cpu_preempted := True\<rparr>) s3)"
      "timers_ok N (set_cpu c (\<lambda>p. p\<lparr>cpu_preempted := True\<rparr>) s3) = timers_ok N s3" by (rule cpu_update_view; simp)+
    then have "sched_inv N X (set_cpu c (\<lambda>p. p\<lparr>cpu_preempted := True\<rparr>) s3)" using sched_inv_cong [OF u] inv3 by simp
    moreover have "keeps_placed N s (set_cpu c (\<lambda>p. p\<lparr>cpu_preempted := True\<rparr>) s3)" "placed N (set_cpu c (\<lambda>p. p\<lparr>cpu_preempted := True\<rparr>) s3) t"
      using keeps_placed_trans [OF k3] keeps_placedD [OF _ p3] same_view_placed [OF u(1), of N] by blast+
    ultimately show ?thesis using intr r v(1,2,3,6,9,10) same_viewD [OF u(1)] by simp
  next
    case here
    have n: "next_thread c s3 = t" using here v(2) by (simp add: next_thread_def rq_after_def)
    have "curthread c s3 \<notin> X" using nX v(1) by simp
    from reschedule_keeps_inv [OF inv3 c this] obtain s' where s': "sched_reschedule c s3 = Some s'" "sched_inv N X s'" "curthread c s' = next_thread c s3"
      "\<forall>w. waiters w s' = waiters w s3" "\<forall>t. state_of s' t = (if t = next_thread c s3 then kThreadRunning else state_of s3 t)" "ks_sem s' = ks_sem s3"
      "keeps_placed N s3 s'" by auto
    then show ?thesis using here r n v(6,9,10) keeps_placed_trans [OF k3 s'(7)] keeps_placedD [OF s'(7) p3] by simp
  qed
qed

lemma wake_keeps_inv:
  assumes inv: "sched_inv N X s" and c: "c < N" and nX: "curthread c s \<notin> X" and hX: "waiters w s \<noteq> [] \<Longrightarrow> hd (waiters w s) \<notin> X"
  shows "\<exists>s' r. waitq_wake_one c w s = Some (r, s') \<and> sched_inv N X s' \<and> keeps_placed N s s' \<and> ks_sem s' = ks_sem s \<and> r = (if waiters w s = [] then 0 else 1) \<and>
    (\<forall>v. waiters v s' = (if v = w then tl (waiters w s) else waiters v s)) \<and>
    (\<forall>t. waiters w s \<noteq> [] \<longrightarrow> t = hd (waiters w s) \<longrightarrow> state_of s' t \<noteq> kThreadWaiting \<and>
      (t = curthread c s' \<and> state_of s' t = kThreadRunning \<or> t \<in> set (runqueue (cpu_of s t) s')))"
proof -
  define s2 where "s2 = unlock_wq w (set_wq w (\<lambda>q. q\<lparr>wq_waiters := tl (waiters w s)\<rparr>) (set_wq w (\<lambda>q. q\<lparr>wq_lock := True\<rparr>) s))"
  have l: "lock_wq w s = Some (set_wq w (\<lambda>q. q\<lparr>wq_lock := True\<rparr>) s)" using sched_inv_wlock [OF inv, of w]
    by (simp add: lock_wq_def wlock_def spinlock_lock_def)
  have wt: "wq_waiters (ks_wq (set_wq w (\<lambda>q. q\<lparr>wq_lock := True\<rparr>) s) w) = waiters w s" by (simp add: set_wq_def waiters_def)
  have r: "waitq_wake_one c w s = (case waiters w s of [] \<Rightarrow> Some (0, s2) | t # _ \<Rightarrow> do {
      s3 \<leftarrow> thread_resume c t (set_thread t (\<lambda>th. th\<lparr>th_wqres := kWQSuccess\<rparr>) s2); Some (1, s3) })"
    unfolding waitq_wake_one_def l Option.bind.bind_lunit Let_def wt s2_def by (rule refl)
  show ?thesis
  proof (cases "waiters w s")
    case Nil
    have "same_view s s2" using Nil sched_inv_wlock [OF inv, of w]
      by (auto simp: same_view_def s2_def view_defs unlock_wq_def spinlock_unlock_def set_defs)
    moreover have "timers_ok N s2 = timers_ok N s" by (rule timers_ok_cong) (simp_all add: s2_def unlock_wq_def set_defs)
    ultimately show ?thesis using r Nil inv sched_inv_cong [of s s2 N X] same_viewD [of s s2] same_view_placed [of s s2 N] by simp
  next
    case (Cons t rest)
    define s3 where "s3 = set_thread t (\<lambda>th. th\<lparr>th_wqres := kWQSuccess\<rparr>) s2"
    have v: "curthread d s3 = curthread d s" "idlethread d s3 = idlethread d s" "runqueue d s3 = runqueue d s" "state_of s3 u = state_of s u"
      "cpu_of s3 u = cpu_of s u" "tlock s3 u = tlock s u" "waiters v s3 = (if v = w then rest else waiters v s)" "wlock v s3 = (v \<noteq> w \<and> wlock v s)"
      "ks_sched_lock s3 = ks_sched_lock s" "ks_sem s3 = ks_sem s" for d u v
      using Cons by (auto simp: s3_def s2_def view_defs unlock_wq_def spinlock_unlock_def set_defs)
    have tm: "timers_ok N s3" using sched_inv_timers [OF inv] timers_ok_cong [of s3 s N] by (simp add: s3_def s2_def unlock_wq_def set_defs)
    have tw: "t \<in> set (waiters w s)" and tX: "t \<notin> X" using Cons hX by simp_all
    have kept: "u \<in> set (waiters y s3)" if "u \<in> set (waiters y s)" "u \<noteq> t" for u y using that Cons v(7) by auto
    have w_sub: "u \<in> set (waiters v s)" if "u \<in> set (waiters v s3)" for u v using that Cons v(7) by (auto split: if_splits)
    have inv3: "sched_inv N X s3"
    proof (rule sched_invI)
      fix u assume u: "u \<in> X"
      then obtain y where "u \<in> set (waiters y s)" "u \<noteq> t" using sched_inv_asleep(2) [OF inv] tX by blast
      then show "\<exists>y. u \<in> set (waiters y s3)" using kept by blast
      show "\<exists>d < N. u = curthread d s3" using sched_inv_asleep(1) [OF inv u] v(1) by simp
    next
      fix x u y assume "u \<in> set (waiters x s3)" "u \<in> set (waiters y s3)"
      then show "y = x" using w_sub sched_inv_wait(2) [OF inv] by blast
    next
      fix x show "distinct (waiters x s3)" using sched_inv_wait_distinct [OF inv] v(7) Cons by (metis distinct.simps(2))
    next
      fix d e assume "d < N" "e < N" "idlethread d s3 = idlethread e s3"
      then show "d = e" using sched_inv_idle(2) [OF inv] v(2) by simp
    qed (use w_sub sched_inv_wait(1) [OF inv] tm in \<open>auto simp: v sched_inv_lock [OF inv] sched_inv_tlock [OF inv] sched_inv_wlock [OF inv]
        sched_inv_rq_distinct [OF inv] sched_inv_cur(1) [OF inv] sched_inv_idle(1) [OF inv] dest: sched_inv_rq [OF inv] sched_inv_cur(2) [OF inv]\<close>)
    have st: "state_of s t = kThreadWaiting" "cpu_of s t < N" using sched_inv_wait(1) [OF inv tw] by auto
    have nw: "t \<notin> set (waiters x s3)" for x
      using sched_inv_wait(2) [OF inv tw, of x] sched_inv_wait_distinct [OF inv, of w] Cons v(7) w_sub [of t x] by (cases "x = w") auto
    have nr: "t \<notin> set (runqueue d s3)" "t \<noteq> curthread d s3" "t \<noteq> idlethread d s3" if "d < N" for d
      using sched_inv_rq(1) [OF inv that, of t] sched_inv_cur(1) [OF inv that] sched_inv_idle(1) [OF inv that] st tX v by auto
    have "dormant N s3 t" using nw nr st(2) v(5) by (simp add: dormant_def)
    moreover have "curthread c s3 \<notin> X" using nX v(1) by simp
    ultimately obtain s' where s': "thread_resume c t s3 = Some s'" "sched_inv N X s'" "\<forall>w. waiters w s' = waiters w s3"
      "ks_sem s' = ks_sem s3" "if cpu_of s3 t = c \<and> \<not> cpu_inInterrupt (ks_cpu s3 c) then curthread c s' = t \<and> state_of s' t = kThreadRunning
        else runqueue (cpu_of s3 t) s' = t # runqueue (cpu_of s3 t) s3 \<and> state_of s' t = kThreadRunnable \<and> (\<forall>d. curthread d s' = curthread d s3)"
      "keeps_placed N s3 s'" "placed N s' t" using resume_keeps_inv [OF inv3 c] by blast
    have "placed N s' u" if "placed N s u" for u
    proof (cases "u = t")
      case False
      from that have "placed N s3 u"
      proof (cases rule: placed_cases)
        case (4 y)
        then show ?thesis using kept [OF _ False] by (intro placedI(4))
      qed (use v(1-3) in \<open>auto intro: placedI\<close>)
      then show ?thesis by (rule keeps_placedD [OF s'(6)])
    qed (use s'(7) in simp)
    then have "keeps_placed N s s'" by (simp add: keeps_placed_def)
    moreover have pl: "state_of s' t \<noteq> kThreadWaiting \<and> (t = curthread c s' \<and> state_of s' t = kThreadRunning \<or> t \<in> set (runqueue (cpu_of s t) s'))"
      using s'(5) v(5) by (auto split: if_splits)
    ultimately show ?thesis using r Cons s' v(7,10) by (simp add: s3_def [symmetric])
  qed
qed

subsection \<open>Interrupts\<close>

lemma callout_interrupt_ok:
  assumes "timers_ok N s" "c < N"
  shows "\<exists>s'. callout_interrupt e c s = Some s' \<and> same_view s s' \<and> timers_ok N s' \<and> pendingcallouts c s' = [] \<and>
    cpu_preempted (ks_cpu s' c) = (cpu_preempted (ks_cpu s c) \<or> pendingcallouts c s \<noteq> []) \<and> (\<forall>d. cpu_inInterrupt (ks_cpu s' d) = cpu_inInterrupt (ks_cpu s d))"
proof (cases "pendingcallouts c s")
  case Nil
  then show ?thesis using assms by (intro exI [of _ s]) (simp add: callout_interrupt_def)
next
  case (Cons k rest)
  have t: "k = cpu_timeslicer (ks_cpu s c)" "rest = []" "co_callback (ks_callout s k) = CbTimeslice"
    using assms Cons by (auto simp: timers_ok_def timer_ok_def Let_def pendingcallouts_def split: if_splits)
  define s1 where "s1 = sched_timeslice c (callout_disable k (set_pending c [] s))"
  have d: "sched_timeslice c (callout_disable k (set_pending c [] s)) = s1" by (simp add: s1_def)
  have p1: "pendingcallouts c s1 = []" "co_callback (ks_callout (callout_disable k (set_pending c [] s)) k) = CbTimeslice"
    using t(3) by (simp_all add: s1_def pendingcallouts_def sched_timeslice_def callout_disable_def set_pending_def set_defs)
  have "callout_interrupt e c s = Some s1"
    using Cons t(2) p1 by (simp add: callout_interrupt_def Let_def run_callback_def d)
  moreover have "same_view s s1" by (simp add: s1_def same_view_def view_defs sched_timeslice_def callout_disable_def set_pending_def set_defs)
  moreover have "timers_ok N s1"
    using assms t(1) by (auto simp: s1_def timers_ok_def timer_ok_def Let_def sched_timeslice_def callout_disable_def set_pending_def set_defs)
  ultimately show ?thesis using p1(1) Cons
    by (intro exI [of _ s1]) (simp add: s1_def sched_timeslice_def callout_disable_def set_pending_def set_defs)
qed

text \<open>The tail of \<^verbatim>\<open>handle_int\<close>: an interrupt that does not interrupt another reschedules when asked to.\<close>

lemma handle_int_ok:
  assumes inv: "sched_inv N X s" and c: "c < N" and nX: "curthread c s \<notin> X" and num: "32 \<le> num" "num \<noteq> kIntNumSwitch" "num \<noteq> kIntNumInvlPG" and h: "ie_handler (intrs num) = Some hn"
    and run: "\<And>s1. same_view s s1 \<Longrightarrow> timers_ok N s1 \<Longrightarrow> \<exists>s2. run_handler e hn (ie_arg (intrs num)) c cr2 code s1 = Some s2 \<and> same_view s1 s2 \<and> timers_ok N s2"
  shows "\<exists>s'. handle_int e intrs c num cr2 code s = Some s' \<and> sched_inv N X s' \<and> keeps_placed N s s' \<and> (\<forall>w. waiters w s' = waiters w s) \<and> ks_sem s' = ks_sem s"
proof -
  let ?s1 = "set_cpu c (\<lambda>p. p\<lparr>cpu_inInterrupt := True\<rparr>) s"
  have "same_view s ?s1" "timers_ok N ?s1 = timers_ok N s" by (rule cpu_update_view; simp)+
  then have s1: "same_view s ?s1" "timers_ok N ?s1" using sched_inv_timers [OF inv] by simp_all
  from run [OF this] obtain s2 where s2: "run_handler e hn (ie_arg (intrs num)) c cr2 code ?s1 = Some s2" "same_view ?s1 s2" "timers_ok N s2" by blast
  define s3 where "s3 = set_cpu c (\<lambda>p. p\<lparr>cpu_inInterrupt := cpu_inInterrupt (ks_cpu s c)\<rparr>) (lapic_eoi c s2)"
  have "same_view s2 (lapic_eoi c s2)" "timers_ok N (lapic_eoi c s2) = timers_ok N s2"
    unfolding lapic_eoi_def lapic_write_def by (rule cpu_update_view; simp)+
  moreover have "same_view (lapic_eoi c s2) s3" "timers_ok N s3 = timers_ok N (lapic_eoi c s2)"
    unfolding s3_def by (rule cpu_update_view; simp)+
  ultimately have v3: "same_view s s3" "timers_ok N s3" using s1 s2 same_view_trans by blast+
  have inv3: "sched_inv N X s3" using sched_inv_cong [OF v3(1)] v3(2) sched_inv_timers [OF inv] inv by simp
  have nX3: "curthread c s3 \<notin> X" using nX same_viewD(1) [OF v3(1)] by simp
  have st: "state_of s3 (curthread c s3) = kThreadRunning" using sched_inv_cur(1) [OF inv3 c] nX3 by simp
  have r: "handle_int e intrs c num cr2 code s = (if cpu_preempted (ks_cpu s3 c) \<and> \<not> cpu_inInterrupt (ks_cpu s3 c)
      then sched_reschedule c (set_cpu c (\<lambda>p. p\<lparr>cpu_preempted := False\<rparr>) s3) else Some s3)"
    using num h s2(1) st unfolding s3_def by (simp add: handle_int_def Let_def)
  define s4 where "s4 = set_cpu c (\<lambda>p. p\<lparr>cpu_preempted := False\<rparr>) s3"
  have v4: "same_view s3 s4" "timers_ok N s4 = timers_ok N s3" unfolding s4_def by (rule cpu_update_view; simp)+
  have inv4: "sched_inv N X s4" using sched_inv_cong [OF v4] inv3 by simp
  have nX4: "curthread c s4 \<notin> X" using nX3 same_viewD(1) [OF v4(1)] by simp
  from reschedule_keeps_inv [OF inv4 c nX4] obtain s5 where s5: "sched_reschedule c s4 = Some s5" "sched_inv N X s5" "\<forall>w. waiters w s5 = waiters w s4"
    "ks_sem s5 = ks_sem s4" "keeps_placed N s4 s5" by auto
  have "keeps_placed N s s3" "keeps_placed N s s5"
    using keeps_placed_trans [OF keeps_placed_trans [OF same_view_placed [OF v3(1)] same_view_placed [OF v4(1)]] s5(5)] same_view_placed [OF v3(1)] by blast+
  then show ?thesis using r inv3 s5 same_viewD [OF v4(1)] same_viewD [OF v3(1)] by (simp add: s4_def)
qed

end
