(* ===== verification/Sched_Spec.thy ===== *)
theory Sched_Spec
  imports Sched_Inv
begin

text \<open>
  What the scheduler, the wait queues and the semaphores promise: operations of the processors in
  any order keep every thread in one place and never fail an assertion; threads that yield run in
  turn; a semaphore implements counting with a first-in first-out queue; a context switch gives a
  thread its registers back. The last section shows the race between going to sleep and being
  woken that the order of the locks leaves open.
\<close>

subsection \<open>Semaphores\<close>

text \<open>
  The contract of a counting semaphore: \<open>permits\<close> can be taken without waiting, the others queue in
  order and are \<open>blocked\<close>; a signal makes the first of them \<open>ready\<close> to run. \<open>me c s\<close> is the thread that
  \<open>c\<close> runs; the guards exclude overflow of the counter and waiting by a thread that must not sleep.
\<close>

text \<open>A sequence of operations, \<open>True\<close> for a signal, each on its processor.\<close>

fun run_ops ::
  "('c \<Rightarrow> 's \<Rightarrow> bool) \<Rightarrow> ('c \<Rightarrow> 's \<Rightarrow> bool) \<Rightarrow> ('c \<Rightarrow> 's \<Rightarrow> 's option) \<Rightarrow> ('c \<Rightarrow> 's \<Rightarrow> (int \<times> 's) option) \<Rightarrow> (bool \<times> 'c) list \<Rightarrow> 's \<Rightarrow> 's option" where
  "run_ops cw cs wt sg [] s = Some s"
| "run_ops cw cs wt sg ((True, c) # ops) s = (if cs c s then do { (r, s') \<leftarrow> sg c s; run_ops cw cs wt sg ops s' } else None)"
| "run_ops cw cs wt sg ((False, c) # ops) s = (if cw c s then do { s' \<leftarrow> wt c s; run_ops cw cs wt sg ops s' } else None)"

locale counting =
  fixes inv :: "'s \<Rightarrow> bool" and permits :: "'s \<Rightarrow> nat" and queue :: "'s \<Rightarrow> 't list" and me :: "'c \<Rightarrow> 's \<Rightarrow> 't"
    and can_wait :: "'c \<Rightarrow> 's \<Rightarrow> bool" and can_signal :: "'c \<Rightarrow> 's \<Rightarrow> bool"
    and wait :: "'c \<Rightarrow> 's \<Rightarrow> 's option" and signal :: "'c \<Rightarrow> 's \<Rightarrow> (int \<times> 's) option"
    and blocked :: "'s \<Rightarrow> 't \<Rightarrow> bool" and ready :: "'s \<Rightarrow> 't \<Rightarrow> bool"
  assumes permits_law: "inv s \<Longrightarrow> permits s = 0 \<or> queue s = []"
    and wait_law: "inv s \<Longrightarrow> can_wait c s \<Longrightarrow> \<exists>s'. wait c s = Some s' \<and> inv s' \<and>
      (if permits s > 0 then permits s' = permits s - 1 \<and> queue s' = [] \<and> me c s' = me c s
       else permits s' = 0 \<and> queue s' = queue s @ [me c s] \<and> blocked s' (me c s))"
    and signal_law: "inv s \<Longrightarrow> can_signal c s \<Longrightarrow> \<exists>r s'. signal c s = Some (r, s') \<and> inv s' \<and>
      (case queue s of [] \<Rightarrow> r = 0 \<and> permits s' = permits s + 1 \<and> queue s' = [] | t # ts \<Rightarrow> r = 1 \<and> permits s' = 0 \<and> queue s' = ts \<and> ready s' t)"
begin

abbreviation run :: "(bool \<times> 'c) list \<Rightarrow> 's \<Rightarrow> 's option" where
  "run \<equiv> run_ops can_wait can_signal wait signal"

lemma run_inv: "run ops s = Some s' \<Longrightarrow> inv s \<Longrightarrow> inv s'"
proof (induction ops arbitrary: s)
  case (Cons op ops)
  then show ?case using signal_law [of s "snd op"] wait_law [of s "snd op"] by (cases op; cases "fst op") (auto split: if_splits)
qed simp

text \<open>No permit is lost and none is made up.\<close>

lemma balance:
  assumes "run ops s = Some s'" and "inv s"
  shows "int (permits s') - int (length (queue s')) =
    int (permits s) - int (length (queue s)) + int (length (filter fst ops)) - int (length (filter (\<lambda>x. \<not> fst x) ops))"
  using assms
proof (induction ops arbitrary: s)
  case (Cons op ops)
  obtain b c where op: "op = (b, c)" by (cases op)
  show ?case
  proof (cases b)
    case True
    then obtain r t where t: "signal c s = Some (r, t)" "inv t" "run ops t = Some s'"
      "case queue s of [] \<Rightarrow> r = 0 \<and> permits t = permits s + 1 \<and> queue t = [] | x # ts \<Rightarrow> r = 1 \<and> permits t = 0 \<and> queue t = ts"
      using signal_law [of s c] Cons.prems op by (cases "queue s") (auto split: if_splits)
    then have "int (permits t) - int (length (queue t)) = int (permits s) - int (length (queue s)) + 1"
      using permits_law [OF Cons.prems(2)] by (cases "queue s") auto
    then show ?thesis using Cons.IH [OF t(3,2)] True op by simp
  next
    case False
    then obtain t where t: "wait c s = Some t" "inv t" "run ops t = Some s'"
      "if permits s > 0 then permits t = permits s - 1 \<and> queue t = [] else permits t = 0 \<and> queue t = queue s @ [me c s]"
      using wait_law [of s c] Cons.prems op by (auto split: if_splits)
    then have "int (permits t) - int (length (queue t)) = int (permits s) - int (length (queue s)) - 1"
      using permits_law [OF Cons.prems(2)] by (auto split: if_splits)
    then show ?thesis using Cons.IH [OF t(3,2)] False op by simp
  qed
qed simp

end

text \<open>The semaphore of the kernel. The wait queue of \<open>m\<close> is used by nothing else.\<close>

definition sem_permits :: "sem_ref \<Rightarrow> 'w ks \<Rightarrow> nat" where
  "sem_permits m s = nat (sint (sem_count (ks_sem s m)))"

definition sem_queue :: "sem_ref \<Rightarrow> 'w ks \<Rightarrow> thread_ref list" where
  "sem_queue m s = waiters (sem_wq (ks_sem s m)) s"

definition sem_inv :: "nat \<Rightarrow> sem_ref \<Rightarrow> 'w ks \<Rightarrow> bool" where
  "sem_inv N m s \<longleftrightarrow> sched_ok N s \<and> int (length (sem_queue m s)) = max 0 (- sint (sem_count (ks_sem s m)))"

text \<open>A thread off every processor and run queue; a thread that runs or is about to.\<close>

definition thread_blocked :: "nat \<Rightarrow> 'w ks \<Rightarrow> thread_ref \<Rightarrow> bool" where
  "thread_blocked N s t \<longleftrightarrow> state_of s t = kThreadWaiting \<and> (\<forall>c < N. t \<noteq> curthread c s \<and> t \<notin> set (runqueue c s))"

definition thread_ready :: "nat \<Rightarrow> 'w ks \<Rightarrow> thread_ref \<Rightarrow> bool" where
  "thread_ready N s t \<longleftrightarrow> state_of s t \<noteq> kThreadWaiting \<and> (\<exists>c < N. t = curthread c s \<or> t \<in> set (runqueue c s))"

definition sem_can_wait :: "nat \<Rightarrow> sem_ref \<Rightarrow> cpu_ref \<Rightarrow> 'w ks \<Rightarrow> bool" where
  "sem_can_wait N m c s \<longleftrightarrow> c < N \<and> curthread c s \<noteq> idlethread c s \<and> - (2 ^ 31) < sint (sem_count (ks_sem s m))"

definition sem_can_signal :: "nat \<Rightarrow> sem_ref \<Rightarrow> cpu_ref \<Rightarrow> 'w ks \<Rightarrow> bool" where
  "sem_can_signal N m c s \<longleftrightarrow> c < N \<and> sint (sem_count (ks_sem s m)) < 2 ^ 31 - 1"

lemma sint_step:
  fixes n :: u32
  shows "- (2 ^ 31) < sint n \<Longrightarrow> sint (n - 1) = sint n - 1" "sint n < 2 ^ 31 - 1 \<Longrightarrow> sint (n + 1) = sint n + 1"
proof -
  have b: "- (2 ^ 31) \<le> sint n" "sint n < 2 ^ 31" using sint_range_size [of n] by (simp_all add: word_size)
  show "- (2 ^ 31) < sint n \<Longrightarrow> sint (n - 1) = sint n - 1"
    using b by (simp add: sint_word_ariths) (simp add: signed_take_bit_int_eq_self)
  show "sint n < 2 ^ 31 - 1 \<Longrightarrow> sint (n + 1) = sint n + 1"
    using b by (simp add: sint_word_ariths) (simp add: signed_take_bit_int_eq_self)
qed

lemma sched_inv_sem: "sched_inv N X (s\<lparr>ks_sem := f\<rparr>) = sched_inv N X s"
  by (simp add: sched_inv_def view_defs timers_ok_def timer_ok_def)

text \<open>The two ways through \<^verbatim>\<open>semaphore_wait\<close>.\<close>

lemma semaphore_wait_cases:
  fixes s :: "'w ks" and m
  defines "w \<equiv> sem_wq (ks_sem s m)" and "n \<equiv> sem_count (ks_sem s m) - 1"
  defines "sem \<equiv> (ks_sem s)(m := (ks_sem s m)\<lparr>sem_count := n\<rparr>)"
  assumes ok: "sched_inv N X s"
  shows "semaphore_wait c m s = (if sint n < 0
    then waitq_await_locked c w (s\<lparr>ks_wq := (ks_wq s)(w := (ks_wq s w)\<lparr>wq_lock := True\<rparr>), ks_sem := sem\<rparr>) else Some (s\<lparr>ks_sem := sem\<rparr>))"
proof -
  let ?s1 = "s\<lparr>ks_wq := (ks_wq s)(w := (ks_wq s w)\<lparr>wq_lock := True\<rparr>), ks_sem := sem\<rparr>"
  have l: "lock_wq w s = Some (set_wq w (\<lambda>q. q\<lparr>wq_lock := True\<rparr>) s)" using sched_inv_wlock [OF ok, of w]
    by (simp add: lock_wq_def wlock_def spinlock_lock_def)
  have "(ks_wq s w)\<lparr>wq_lock := False\<rparr> = ks_wq s w" using sched_inv_wlock [OF ok, of w] by (simp add: wlock_def)
  then have "unlock_wq w ?s1 = s\<lparr>ks_sem := sem\<rparr>" by (simp add: unlock_wq_def set_wq_def spinlock_unlock_def)
  moreover have "semaphore_wait c m s = (if sint n < 0 then waitq_await_locked c w ?s1 else Some (unlock_wq w ?s1))"
    using l by (simp add: semaphore_wait_def Let_def set_sem_count_def set_wq_def w_def n_def sem_def)
  ultimately show ?thesis by simp
qed

lemma sem_wait_law:
  assumes inv: "sem_inv N m s" and cw: "sem_can_wait N m c s"
  shows "\<exists>s'. semaphore_wait c m s = Some s' \<and> sem_inv N m s' \<and>
    (if sem_permits m s > 0 then sem_permits m s' = sem_permits m s - 1 \<and> sem_queue m s' = [] \<and> curthread c s' = curthread c s
     else sem_permits m s' = 0 \<and> sem_queue m s' = sem_queue m s @ [curthread c s] \<and> thread_blocked N s' (curthread c s))"
proof -
  let ?w = "sem_wq (ks_sem s m)" and ?n = "sem_count (ks_sem s m) - 1"
  let ?sem = "(ks_sem s)(m := (ks_sem s m)\<lparr>sem_count := ?n\<rparr>)"
  define s1 where "s1 = s\<lparr>ks_wq := (ks_wq s)(?w := (ks_wq s ?w)\<lparr>wq_lock := True\<rparr>), ks_sem := ?sem\<rparr>"
  have ok: "sched_ok N s" and len: "int (length (sem_queue m s)) = max 0 (- sint (sem_count (ks_sem s m)))" using inv by (simp_all add: sem_inv_def)
  have n: "sint ?n = sint (sem_count (ks_sem s m)) - 1" using cw sint_step by (simp add: sem_can_wait_def)
  note r = semaphore_wait_cases [OF ok, of c m, folded s1_def]
  show ?thesis
  proof (cases "sint ?n < 0")
    case True
    have "c < N" "curthread c s \<noteq> idlethread c s" using cw by (simp_all add: sem_can_wait_def)
    from await_keeps_inv [OF ok this _ s1_def] obtain s' where s': "waitq_await_locked c ?w s1 = Some s'" "sched_ok N s'" "ks_sem s' = ?sem"
      "\<forall>v. waiters v s' = (if v = ?w then waiters ?w s @ [curthread c s] else waiters v s)" "\<forall>d < N. curthread d s' \<noteq> curthread c s"
      "state_of s' (curthread c s) = kThreadWaiting" by auto
    then have "sem_queue m s' = sem_queue m s @ [curthread c s]" by (simp add: sem_queue_def)
    moreover have "thread_blocked N s' (curthread c s)"
      using s'(5,6) sched_inv_rq(1) [OF s'(2), of _ "curthread c s"] unfolding thread_blocked_def by fastforce
    ultimately show ?thesis using r True s' n len by (auto simp: sem_inv_def sem_permits_def)
  next
    case False
    then show ?thesis using r n len ok by (auto simp: sem_inv_def sem_permits_def sched_inv_sem sem_queue_def waiters_def curthread_def)
  qed
qed

lemma sem_signal_law:
  assumes inv: "sem_inv N m s" and cs: "sem_can_signal N m c s"
  shows "\<exists>r s'. semaphore_signal c m s = Some (r, s') \<and> sem_inv N m s' \<and>
    (case sem_queue m s of [] \<Rightarrow> r = 0 \<and> sem_permits m s' = sem_permits m s + 1 \<and> sem_queue m s' = []
     | t # ts \<Rightarrow> r = 1 \<and> sem_permits m s' = 0 \<and> sem_queue m s' = ts \<and> thread_ready N s' t)"
proof -
  let ?w = "sem_wq (ks_sem s m)" and ?n = "sem_count (ks_sem s m) + 1"
  let ?sem = "(ks_sem s)(m := (ks_sem s m)\<lparr>sem_count := ?n\<rparr>)"
  have ok: "sched_ok N (s\<lparr>ks_sem := ?sem\<rparr>)" and len: "int (length (sem_queue m s)) = max 0 (- sint (sem_count (ks_sem s m)))"
    using inv by (simp_all add: sem_inv_def sched_inv_sem)
  have n: "sint ?n = sint (sem_count (ks_sem s m)) + 1" using cs sint_step by (simp add: sem_can_signal_def)
  have r: "semaphore_signal c m s = (if sint ?n \<le> 0 then waitq_wake_one c ?w (s\<lparr>ks_sem := ?sem\<rparr>) else Some (0, s\<lparr>ks_sem := ?sem\<rparr>))"
    by (simp add: semaphore_signal_def Let_def set_sem_count_def)
  have wt: "waiters ?w (s\<lparr>ks_sem := ?sem\<rparr>) = sem_queue m s" by (simp add: sem_queue_def waiters_def)
  show ?thesis
  proof (cases "sem_queue m s")
    case Nil
    then have "\<not> sint ?n \<le> 0" using len n by simp
    then show ?thesis using r Nil ok n len by (auto simp: sem_inv_def sem_permits_def sem_queue_def waiters_def)
  next
    case (Cons t ts)
    then have "sint ?n \<le> 0" using len n by auto
    have t: "cpu_of (s\<lparr>ks_sem := ?sem\<rparr>) t < N" using sched_inv_wait(1) [OF ok, of t ?w] wt Cons by simp
    have "c < N" using cs by (simp add: sem_can_signal_def)
    from wake_keeps_inv [OF ok this, of ?w] obtain s' where s': "waitq_wake_one c ?w (s\<lparr>ks_sem := ?sem\<rparr>) = Some (1, s')" "sched_ok N s'" "ks_sem s' = ?sem"
      "\<forall>v. waiters v s' = (if v = ?w then tl (sem_queue m s) else waiters v (s\<lparr>ks_sem := ?sem\<rparr>))" "state_of s' t \<noteq> kThreadWaiting"
      "t = curthread c s' \<and> state_of s' t = kThreadRunning \<or> t \<in> set (runqueue (cpu_of (s\<lparr>ks_sem := ?sem\<rparr>) t) s')"
      unfolding wt using Cons by auto
    then have "thread_ready N s' t" using t \<open>c < N\<close> unfolding thread_ready_def by blast
    with s' \<open>sint ?n \<le> 0\<close> show ?thesis using r Cons n len by (auto simp: sem_inv_def sem_permits_def sem_queue_def)
  qed
qed

interpretation sem: counting "sem_inv N m" "sem_permits m" "sem_queue m" curthread "sem_can_wait N m" "sem_can_signal N m"
  "\<lambda>c. semaphore_wait c m" "\<lambda>c. semaphore_signal c m" "thread_blocked N" "thread_ready N" for N m
proof
  show "sem_permits m s = 0 \<or> sem_queue m s = []" if "sem_inv N m s" for s
    using that by (cases "sem_queue m s") (auto simp: sem_inv_def sem_permits_def)
qed (use sem_wait_law sem_signal_law in blast)+

theorem semaphore_balance:
  assumes "run_ops (sem_can_wait N m) (sem_can_signal N m) (\<lambda>c. semaphore_wait c m) (\<lambda>c. semaphore_signal c m) ops s = Some s'" and "sem_inv N m s"
  shows "sem_inv N m s' \<and> int (sem_permits m s') - int (length (sem_queue m s')) =
    int (sem_permits m s) - int (length (sem_queue m s)) + int (length (filter fst ops)) - int (length (filter (\<lambda>x. \<not> fst x) ops)) \<and>
    (sem_permits m s' = 0 \<or> sem_queue m s' = [])"
  using sem.balance [OF assms] sem.run_inv [OF assms] sem.permits_law by blast

text \<open>(C23) A semaphore implements counting as long as the counter does not overflow,
  nothing else uses its wait queue and operations do not overlap: a wait by a thread that is not
  the idle thread takes a permit and goes on when there is one, and otherwise puts the thread at
  the end of the queue in state kThreadWaiting, off its processor and off every run queue; a
  signal adds a permit when nobody waits, and otherwise takes the first waiter off the queue and
  makes it ready, that is, current on a processor or in a run queue and no longer in state
  kThreadWaiting.\<close>

theorem semaphore_refines_counting:
  assumes "sem_inv N m s"
  shows "(sem_can_wait N m c s \<longrightarrow> (\<exists>s'. semaphore_wait c m s = Some s' \<and> sem_inv N m s' \<and>
      (if sem_permits m s > 0 then sem_permits m s' = sem_permits m s - 1 \<and> sem_queue m s' = [] \<and> curthread c s' = curthread c s
       else sem_permits m s' = 0 \<and> sem_queue m s' = sem_queue m s @ [curthread c s] \<and> thread_blocked N s' (curthread c s)))) \<and>
    (sem_can_signal N m c s \<longrightarrow> (\<exists>r s'. semaphore_signal c m s = Some (r, s') \<and> sem_inv N m s' \<and>
      (case sem_queue m s of [] \<Rightarrow> r = 0 \<and> sem_permits m s' = sem_permits m s + 1 \<and> sem_queue m s' = []
       | t # ts \<Rightarrow> r = 1 \<and> sem_permits m s' = 0 \<and> sem_queue m s' = ts \<and> thread_ready N s' t)))"
  using sem_wait_law [OF assms] sem_signal_law [OF assms] by blast

subsection \<open>Operations in any order\<close>

text \<open>
  The steps of the processors: yielding, sleeping on a wait queue, waking, semaphores, starting a
  thread, the timer and the reschedule interrupt. Each operation of a processor is one step but for
  waiting, which is two, as \<^verbatim>\<open>waitq_await_locked\<close> drops the lock of the wait queue before
  \<^verbatim>\<open>sched_reschedule\<close> takes that of the scheduler: the thread queues up and joins the set \<open>X\<close> of
  threads about to give up their processor, and a later \<open>yield\<close> of its processor takes it out. Other
  processors act in between; its own does nothing else, since interrupts are off. A wake-up of a
  thread of \<open>X\<close> is left out: it breaks the invariant, as the section on being woken before asleep
  shows.
\<close>

inductive kstep :: "nat \<Rightarrow> 'w ks_env \<Rightarrow> thread_ref set \<times> 'w ks \<Rightarrow> thread_ref set \<times> 'w ks \<Rightarrow> bool" for N e where
  yield: "c < N \<Longrightarrow> sched_reschedule c s = Some s' \<Longrightarrow> kstep N e (X, s) (X - {curthread c s}, s')"
| sleep: "c < N \<Longrightarrow> curthread c s \<notin> X \<Longrightarrow> curthread c s \<noteq> idlethread c s \<Longrightarrow> lock_wq w s = Some s1 \<Longrightarrow> waitq_sleep c w s1 = Some s' \<Longrightarrow>
    kstep N e (X, s) (insert (curthread c s) X, s')"
| wake: "c < N \<Longrightarrow> curthread c s \<notin> X \<Longrightarrow> first_of (waiters w s) \<notin> Some ` X \<Longrightarrow> waitq_wake_one c w s = Some (r, s') \<Longrightarrow> kstep N e (X, s) (X, s')"
| sem_take: "c < N \<Longrightarrow> curthread c s \<notin> X \<Longrightarrow> 0 \<le> sint (sem_count (ks_sem s m) - 1) \<Longrightarrow> semaphore_wait c m s = Some s' \<Longrightarrow> kstep N e (X, s) (X, s')"
| sem_sleep: "c < N \<Longrightarrow> curthread c s \<notin> X \<Longrightarrow> curthread c s \<noteq> idlethread c s \<Longrightarrow> sint (sem_count (ks_sem s m) - 1) < 0 \<Longrightarrow>
    lock_wq (sem_wq (ks_sem s m)) s = Some s1 \<Longrightarrow> waitq_sleep c (sem_wq (ks_sem s m)) (set_sem_count m (sem_count (ks_sem s m) - 1) s1) = Some s' \<Longrightarrow>
    kstep N e (X, s) (insert (curthread c s) X, s')"
| sem_signal: "c < N \<Longrightarrow> curthread c s \<notin> X \<Longrightarrow> first_of (sem_queue m s) \<notin> Some ` X \<Longrightarrow> semaphore_signal c m s = Some (r, s') \<Longrightarrow> kstep N e (X, s) (X, s')"
| resume: "c < N \<Longrightarrow> curthread c s \<notin> X \<Longrightarrow> dormant N s t \<Longrightarrow> thread_resume c t s = Some s' \<Longrightarrow> kstep N e (X, s) (X, s')"
| interrupt: "c < N \<Longrightarrow> curthread c s \<notin> X \<Longrightarrow> num \<in> {kIntNumLAPICTimer, kIntNumReschedule} \<Longrightarrow>
    handle_int e (idt_init_handlers intrs) c num cr2 code s = Some s' \<Longrightarrow> kstep N e (X, s) (X, s')"

inductive_cases kstepE: "kstep N e p p'"

lemma first_not_asleep: "first_of l \<notin> Some ` X \<Longrightarrow> l \<noteq> [] \<Longrightarrow> hd l \<notin> X"
  by (cases l) auto

lemma lock_wq_ok:
  assumes "sched_inv N X s"
  shows "lock_wq w s = Some (s\<lparr>ks_wq := (ks_wq s)(w := (ks_wq s w)\<lparr>wq_lock := True\<rparr>), ks_sem := ks_sem s\<rparr>)"
  using sched_inv_wlock [OF assms, of w] by (simp add: lock_wq_def wlock_def spinlock_lock_def set_wq_def)

lemma await_ok:
  assumes "sched_inv N X s" "c < N" "curthread c s \<noteq> idlethread c s" "curthread c s \<notin> X"
  shows "\<exists>s'. waitq_await c w s = Some s' \<and> sched_inv N X s'"
  using await_keeps_inv [OF assms refl, of w "ks_sem s"] unfolding waitq_await_def lock_wq_ok [OF assms(1)] Option.bind.bind_lunit by auto

text \<open>The semaphore operations keep the scheduler in order whatever the counter says.\<close>

lemma semaphore_wait_ok:
  assumes ok: "sched_inv N X s" and c: "c < N" "curthread c s \<noteq> idlethread c s \<or> 0 \<le> sint (sem_count (ks_sem s m) - 1)" "curthread c s \<notin> X"
  shows "\<exists>s'. semaphore_wait c m s = Some s' \<and> sched_inv N X s' \<and> keeps_placed N s s'"
proof -
  let ?w = "sem_wq (ks_sem s m)" and ?sem = "(ks_sem s)(m := (ks_sem s m)\<lparr>sem_count := sem_count (ks_sem s m) - 1\<rparr>)"
  have "sched_inv N X (s\<lparr>ks_sem := ?sem\<rparr>)" "keeps_placed N s (s\<lparr>ks_sem := ?sem\<rparr>)"
    using ok by (simp_all add: sched_inv_sem keeps_placed_def placed_def view_defs)
  moreover have "\<exists>s'. waitq_await_locked c ?w (s\<lparr>ks_wq := (ks_wq s)(?w := (ks_wq s ?w)\<lparr>wq_lock := True\<rparr>), ks_sem := ?sem\<rparr>) = Some s' \<and>
      sched_inv N X s' \<and> keeps_placed N s s'" if "curthread c s \<noteq> idlethread c s"
    using await_keeps_inv [OF ok c(1) that c(3) refl, of ?w ?sem] by blast
  ultimately show ?thesis using c(2) unfolding semaphore_wait_cases [OF ok] by (cases "sint (sem_count (ks_sem s m) - 1) < 0") auto
qed

lemma semaphore_signal_ok:
  assumes ok: "sched_inv N X s" and c: "c < N" "curthread c s \<notin> X" "first_of (sem_queue m s) \<notin> Some ` X"
  shows "\<exists>r s'. semaphore_signal c m s = Some (r, s') \<and> sched_inv N X s' \<and> keeps_placed N s s'"
proof -
  define s1 where "s1 = set_sem_count m (sem_count (ks_sem s m) + 1) s"
  have v: "curthread d s1 = curthread d s" "idlethread d s1 = idlethread d s" "runqueue d s1 = runqueue d s" "waiters w s1 = waiters w s" for d w
    by (simp_all add: s1_def set_sem_count_def view_defs)
  have ok1: "sched_inv N X s1" using ok by (simp add: s1_def set_sem_count_def sched_inv_sem)
  have k: "keeps_placed N s s1" using v by (simp add: keeps_placed_def placed_def)
  have "hd (waiters (sem_wq (ks_sem s m)) s1) \<notin> X" if "waiters (sem_wq (ks_sem s m)) s1 \<noteq> []"
    using first_not_asleep [OF c(3)] that v(4) by (simp add: sem_queue_def)
  from wake_keeps_inv [OF ok1 c(1) _ this] c(2) v(1) obtain r s' where
    "waitq_wake_one c (sem_wq (ks_sem s m)) s1 = Some (r, s')" "sched_inv N X s'" "keeps_placed N s1 s'" by auto
  then show ?thesis using k ok1 keeps_placed_trans [OF k]
    by (cases "sint (sem_count (ks_sem s m) + 1) \<le> 0") (auto simp: semaphore_signal_def Let_def s1_def)
qed

lemma interrupt_ok:
  assumes inv: "sched_inv N X s" and c: "c < N" "curthread c s \<notin> X" and num: "num \<in> {kIntNumLAPICTimer, kIntNumReschedule}"
  shows "\<exists>s'. handle_int e (idt_init_handlers intrs) c num cr2 code s = Some s' \<and> sched_inv N X s' \<and> keeps_placed N s s'"
proof -
  have n: "32 \<le> num" "num \<noteq> kIntNumSwitch" "num \<noteq> kIntNumInvlPG"
    using num by (auto simp: kIntNumLAPICTimer_def kIntNumReschedule_def kIntNumSwitch_def kIntNumInvlPG_def)
  obtain h where h: "ie_handler (idt_init_handlers intrs num) = Some h" "h \<in> {HCallout, HFn CbTimeslice}"
    using num by (auto simp: idt_init_handlers_def md_intr_register_def kIntNumLAPICTimer_def kIntNumReschedule_def)
  have "\<exists>s2. run_handler e h (ie_arg (idt_init_handlers intrs num)) c cr2 code s1 = Some s2 \<and> same_view s1 s2 \<and> timers_ok N s2" if t: "timers_ok N s1" for s1
  proof (cases "h = HCallout")
    case True
    then show ?thesis using callout_interrupt_ok [OF t c(1), of e] by (auto simp: run_handler_def)
  next
    case False
    have "same_view s1 (sched_timeslice c s1)" "timers_ok N (sched_timeslice c s1) = timers_ok N s1"
      unfolding sched_timeslice_def by (rule cpu_update_view; simp)+
    then show ?thesis using False h(2) t by (auto simp: run_handler_def run_callback_def)
  qed
  with handle_int_ok [OF inv c n, where intrs = "idt_init_handlers intrs", OF h(1)] show ?thesis by blast
qed

lemma kstep_ok:
  assumes "kstep N e p p'" and "sched_inv N (fst p) (snd p)"
  shows "sched_inv N (fst p') (snd p') \<and> keeps_placed N (snd p) (snd p')"
  using assms
proof (induction rule: kstep.induct)
  case (yield c s s' X)
  then show ?case using reschedule_inv [of N X s c] by auto
next
  case (sleep c s X w s1 s')
  then have ok: "sched_inv N X s" by simp
  show ?case using sleep sleep_ok [OF ok sleep(1,3,2) refl, of w "ks_sem s"] lock_wq_ok [OF ok, of w] by auto
next
  case (wake c s X w r s')
  then show ?case using wake_keeps_inv [of N X s c w] first_not_asleep [of "waiters w s" X] by auto
next
  case (sem_take c s X m s')
  then show ?case using semaphore_wait_ok [of N X s c m] by auto
next
  case (sem_sleep c s X m s1 s')
  let ?w = "sem_wq (ks_sem s m)" and ?sem = "(ks_sem s)(m := (ks_sem s m)\<lparr>sem_count := sem_count (ks_sem s m) - 1\<rparr>)"
  have ok: "sched_inv N X s" using sem_sleep by simp
  have "set_sem_count m (sem_count (ks_sem s m) - 1) s1 = s\<lparr>ks_wq := (ks_wq s)(?w := (ks_wq s ?w)\<lparr>wq_lock := True\<rparr>), ks_sem := ?sem\<rparr>"
    using sem_sleep(5) unfolding lock_wq_ok [OF ok, of ?w] by (auto simp: set_sem_count_def)
  then show ?case using sem_sleep sleep_ok [OF ok sem_sleep(1,3,2) refl, of ?w ?sem] by auto
next
  case (sem_signal c s X m r s')
  then show ?case using semaphore_signal_ok [of N X s c m] by auto
next
  case (resume c s X t s')
  then show ?case using resume_keeps_inv [of N X s c t] by auto
next
  case (interrupt c s X num intrs cr2 code s')
  then show ?case using interrupt_ok [of N X s c num e intrs cr2 code] by auto
qed

text \<open>A complete wait is two steps.\<close>

lemma await_steps:
  assumes "c < N" "curthread c s \<notin> X" "curthread c s \<noteq> idlethread c s" "waitq_await c w s = Some s'" and ok: "sched_inv N X s"
  shows "(kstep N e OO kstep N e) (X, s) (X, s')"
proof -
  let ?s1 = "s\<lparr>ks_wq := (ks_wq s)(w := (ks_wq s w)\<lparr>wq_lock := True\<rparr>), ks_sem := ks_sem s\<rparr>"
  from sleep_ok [OF ok assms(1,3,2) refl, of w "ks_sem s"] obtain s2 where s2: "waitq_sleep c w ?s1 = Some s2" "curthread c s2 = curthread c s" by blast
  have "sched_reschedule c s2 = Some s'" using assms(4) s2(1) unfolding waitq_await_def lock_wq_ok [OF ok] waitq_await_locked_def by simp
  from kstep.yield [OF assms(1) this, of e "insert (curthread c s) X"] have "kstep N e (insert (curthread c s) X, s2) (X, s')"
    using s2(2) assms(2) by (simp add: Diff_insert0)
  with kstep.sleep [OF assms(1-3) lock_wq_ok [OF ok] s2(1), of e] show ?thesis by blast
qed

lemma ksteps_ok:
  assumes "rtranclp (kstep N e) p p'" and "sched_inv N (fst p) (snd p)"
  shows "sched_inv N (fst p') (snd p') \<and> keeps_placed N (snd p) (snd p')"
  using assms by (induction rule: rtranclp_induct) (auto dest: kstep_ok intro: keeps_placed_trans)

text \<open>(C17) Whatever sequence of yields, waits, wake-ups, semaphore operations, starts of
  dormant threads, timer and reschedule interrupts the processors execute, no thread is lost: a
  thread that was current, idle, in a run queue or in a wait queue still is in one of these
  places, and one in state kThreadWaiting is in a wait queue; every thread is in one place only
  with the state that says so, the idle threads are never queued, no lock is held but the own lock
  of a thread in the middle of a wait, and the timeslice callouts, the only callouts considered,
  stay consistent. Each operation is one step of its processor except a wait, whose two halves
  (queueing up and giving up the processor) have steps of other processors between them; waits of
  the idle thread and wake-ups of a thread between its two halves are excluded (the latter leave
  its lock held).\<close>

theorem sched_safety:
  assumes "sched_ok N s" and "rtranclp (kstep N e) ({}, s) (X, s')"
  shows "sched_inv N X s' \<and> (\<forall>t. placed N s t \<longrightarrow> placed N s' t) \<and>
    (\<forall>t. placed N s' t \<and> state_of s' t = kThreadWaiting \<longrightarrow> (\<exists>w. t \<in> set (waiters w s')))"
  using ksteps_ok [OF assms(2)] assms(1) waiting_queued [of N X s'] by (simp add: keeps_placed_def)

text \<open>The idle thread must not wait: \<^verbatim>\<open>sched_reschedule\<close> asserts that it runs.\<close>

lemma idle_await_stops:
  assumes ok: "sched_inv N X s" and c: "c < N" "curthread c s \<notin> X" "curthread c s = idlethread c s"
  shows "waitq_await c w s = None"
proof -
  let ?s1 = "s\<lparr>ks_wq := (ks_wq s)(w := (ks_wq s w)\<lparr>wq_lock := True\<rparr>), ks_sem := ks_sem s\<rparr>" and ?t = "curthread c s"
  have "\<not> th_lock (ks_thread ?s1 ?t)" using sched_inv_tlock [OF ok, of ?t] c(2) by (simp add: tlock_def)
  from sleep_view [OF this, of c w] obtain s2 where s2: "waitq_sleep c w ?s1 = Some s2" "curthread c s2 = ?t" "idlethread c s2 = ?t"
    "state_of s2 ?t = kThreadWaiting" "\<not> ks_sched_lock s2"
    using sched_inv_lock [OF ok] c(3) by (auto simp: curthread_def idlethread_def)
  have "sched_put_old c ?t (s2\<lparr>ks_sched_lock := True\<rparr>) = None"
    using s2(3,4) by (simp add: sched_put_old_def idlethread_def state_of_def kassert_def)
  then have "sched_reschedule c s2 = None"
    using s2(2,5) by (simp add: sched_reschedule_def lock_sched_def spinlock_lock_def curthread_def)
  then show ?thesis using s2(1) unfolding waitq_await_def lock_wq_ok [OF ok] waitq_await_locked_def by simp
qed

text \<open>(C18) In a state that satisfies the scheduler invariant with the timeslicers as the
  only callouts, also while other processors are in the middle of a wait: rescheduling returns,
  and on a processor that is not in the middle of a wait itself, waiting on a wait queue or
  semaphore by a thread that is not the idle thread, waking or signalling when the first waiter is
  not in the middle of a wait, resuming a dormant thread, and the timer and reschedule interrupts
  all return, that is, none of their assertions fails and none of their spinlocks is held; a wait
  of the idle thread fails the assertion of sched_reschedule. Enqueueing further callouts is not
  covered (see the findings).\<close>

theorem sched_never_stuck:
  assumes "sched_inv N X s" and "c < N"
  shows "(\<exists>s'. sched_reschedule c s = Some s') \<and>
    (curthread c s \<notin> X \<longrightarrow>
      (curthread c s \<noteq> idlethread c s \<longrightarrow> (\<exists>s'. waitq_await c w s = Some s') \<and> (\<exists>s'. semaphore_wait c m s = Some s')) \<and>
      (curthread c s = idlethread c s \<longrightarrow> waitq_await c w s = None) \<and>
      (first_of (waiters w s) \<notin> Some ` X \<longrightarrow> (\<exists>r s'. waitq_wake_one c w s = Some (r, s'))) \<and>
      (first_of (sem_queue m s) \<notin> Some ` X \<longrightarrow> (\<exists>r s'. semaphore_signal c m s = Some (r, s'))) \<and>
      (dormant N s t \<longrightarrow> (\<exists>s'. thread_resume c t s = Some s')) \<and>
      (num \<in> {kIntNumLAPICTimer, kIntNumReschedule} \<longrightarrow> (\<exists>s'. handle_int e (idt_init_handlers intrs) c num cr2 code s = Some s')))"
proof (intro conjI impI)
  show "\<exists>s'. sched_reschedule c s = Some s'" using reschedule_inv [OF assms] by blast
  assume nX: "curthread c s \<notin> X"
  show "\<exists>r s'. waitq_wake_one c w s = Some (r, s')" if "first_of (waiters w s) \<notin> Some ` X"
    using wake_keeps_inv [OF assms nX first_not_asleep [OF that]] by blast
  show "\<exists>r s'. semaphore_signal c m s = Some (r, s')" if "first_of (sem_queue m s) \<notin> Some ` X"
    using semaphore_signal_ok [OF assms nX that] by blast
  show "\<exists>s'. waitq_await c w s = Some s'" if "curthread c s \<noteq> idlethread c s" using await_ok [OF assms that nX] by blast
  show "\<exists>s'. semaphore_wait c m s = Some s'" if "curthread c s \<noteq> idlethread c s" using semaphore_wait_ok [OF assms _ nX, of m] that by blast
  show "waitq_await c w s = None" if "curthread c s = idlethread c s" by (rule idle_await_stops [OF assms nX that])
  show "\<exists>s'. thread_resume c t s = Some s'" if "dormant N s t" using resume_keeps_inv [OF assms nX that] by blast
  show "\<exists>s'. handle_int e (idt_init_handlers intrs) c num cr2 code s = Some s'" if "num \<in> {kIntNumLAPICTimer, kIntNumReschedule}"
    using interrupt_ok [OF assms nX that] by blast
qed

subsection \<open>Taking turns\<close>

fun yield_n :: "nat \<Rightarrow> cpu_ref \<Rightarrow> 'w ks \<Rightarrow> 'w ks option" where
  "yield_n 0 c s = Some s"
| "yield_n (Suc n) c s = do { s' \<leftarrow> sched_reschedule c s; yield_n n c s' }"

text \<open>The threads that can run on \<open>c\<close>, the running one last.\<close>

definition ring :: "cpu_ref \<Rightarrow> 'w ks \<Rightarrow> thread_ref list" where
  "ring c s = runqueue c s @ (if curthread c s = idlethread c s then [] else [curthread c s])"

lemma ring_step:
  assumes "sched_ok N s" "c < N" "ring c s \<noteq> []"
  shows "\<exists>s'. sched_reschedule c s = Some s' \<and> sched_ok N s' \<and> curthread c s' = hd (ring c s) \<and> ring c s' = rotate1 (ring c s)"
proof -
  have ra: "rq_after c s = ring c s" using sched_inv_cur(1) [OF assms(1,2)] by (simp add: rq_after_def ring_def)
  then have nt: "next_thread c s = hd (ring c s)" using assms(3) by (cases "ring c s") (simp_all add: next_thread_def)
  have ni: "hd (ring c s) \<noteq> idlethread c s"
    using rq_after_props(3) [OF assms(1,2) _ assms(2), of "hd (ring c s)"] ra assms(3) by simp
  from reschedule_keeps_inv [OF assms(1,2)] obtain s' where "sched_reschedule c s = Some s'" "sched_ok N s'" "curthread c s' = next_thread c s"
    "runqueue c s' = tl (rq_after c s)" "idlethread c s' = idlethread c s" by auto
  then show ?thesis using ra nt ni assms(3) by (intro exI [of _ s']) (cases "ring c s"; simp add: ring_def)
qed

lemma yield_n_ring:
  assumes "sched_ok N s" "c < N" "ring c s \<noteq> []"
  shows "\<exists>s'. yield_n n c s = Some s' \<and> sched_ok N s' \<and> ring c s' = rotate n (ring c s) \<and> (n > 0 \<longrightarrow> curthread c s' = ring c s ! ((n - 1) mod length (ring c s)))"
  using assms
proof (induction n arbitrary: s)
  case (Suc n)
  from ring_step [OF Suc.prems] obtain s1 where s1: "sched_reschedule c s = Some s1" "sched_ok N s1" "curthread c s1 = hd (ring c s)" "ring c s1 = rotate1 (ring c s)" by blast
  have ne: "ring c s1 \<noteq> []" using s1(4) Suc.prems(3) by simp
  from Suc.IH [OF s1(2) Suc.prems(2) ne] obtain s' where s': "yield_n n c s1 = Some s'" "sched_ok N s'" "ring c s' = rotate n (ring c s1)"
    "n > 0 \<longrightarrow> curthread c s' = ring c s1 ! ((n - 1) mod length (ring c s1))" by blast
  have "curthread c s' = ring c s ! (n mod length (ring c s))"
  proof (cases n)
    case 0
    then show ?thesis using s' s1(3) Suc.prems(3) by (simp add: hd_conv_nth)
  next
    case (Suc k)
    have "k mod length (ring c s) < length (ring c s)" using Suc.prems(3) by simp
    then have "rotate1 (ring c s) ! (k mod length (ring c s)) = ring c s ! (Suc (k mod length (ring c s)) mod length (ring c s))"
      using Suc.prems(3) by (simp add: nth_rotate1)
    then show ?thesis using s'(4) s1(4) Suc by (simp add: mod_Suc_eq)
  qed
  then show ?case using s1(1,4) s' by (simp add: rotate1_rotate_swap)
qed simp

text \<open>(C22) On a processor whose threads only yield, the thread at position k of the run
  queue (the running thread last) runs after k + 1 reschedules.\<close>

theorem round_robin:
  assumes "sched_ok N s" and "c < N" and "k < length (ring c s)"
  shows "\<exists>s'. yield_n (Suc k) c s = Some s' \<and> curthread c s' = ring c s ! k"
proof -
  have "ring c s \<noteq> []" using assms(3) by auto
  from yield_n_ring [OF assms(1,2) this, of "Suc k"] show ?thesis using assms(3) by auto
qed

subsection \<open>Context switches\<close>

text \<open>Whatever the other thread does to the registers, a thread gets its own back.\<close>

text \<open>(C24) When a thread yields to another and is switched back to, its registers and FS
  base are what they were, whatever the other thread left in them, and those of the other thread
  have been saved.\<close>

theorem switch_restores_registers:
  assumes ok: "sched_ok N s" and c: "c < N" and t: "curthread c s = t" "t \<noteq> idlethread c s" and q: "runqueue c s = [u]"
  shows "\<exists>s1 s2. sched_reschedule c s = Some s1 \<and> curthread c s1 = u \<and> cpu_regs (ks_cpu s1 c) = md_frame (th_md (ks_thread s u)) \<and>
    sched_reschedule c (set_cpu c (\<lambda>p. p\<lparr>cpu_regs := regs, cpu_fs := fs\<rparr>) s1) = Some s2 \<and> curthread c s2 = t \<and>
    cpu_regs (ks_cpu s2 c) = cpu_regs (ks_cpu s c) \<and> cpu_fs (ks_cpu s2 c) = cpu_fs (ks_cpu s c) \<and>
    th_md (ks_thread s2 u) = \<lparr>md_frame = regs, md_fs = fs\<rparr>"
proof -
  have ra: "rq_after c s = [u, t]" using sched_inv_cur(1) [OF ok c] q t by (simp add: rq_after_def)
  have ut: "u \<noteq> t" "u \<noteq> idlethread c s" using sched_inv_rq(2) [OF ok c _ c, of u] q t by auto
  from reschedule_keeps_inv [OF ok c] obtain s1 where s1: "sched_reschedule c s = Some s1" "sched_ok N s1" "curthread c s1 = u" "runqueue c s1 = [t]"
    "idlethread c s1 = idlethread c s" "switched c u s s1" by (auto simp: next_thread_def ra)
  define s1' where "s1' = set_cpu c (\<lambda>p. p\<lparr>cpu_regs := regs, cpu_fs := fs\<rparr>) s1"
  have sv: "same_view s1 s1'" "timers_ok N s1' = timers_ok N s1" unfolding s1'_def by (rule cpu_update_view; simp)+
  have ok1: "sched_ok N s1'" using s1(2) sched_inv_cong [OF sv] by simp
  note V = same_viewD [OF sv(1)]
  have ra1: "rq_after c s1' = [t, u]" using sched_inv_cur(1) [OF ok1 c] s1 ut V by (simp add: rq_after_def)
  from reschedule_keeps_inv [OF ok1 c] obtain s2 where s2: "sched_reschedule c s1' = Some s2" "curthread c s2 = t" "switched c t s1' s2"
    by (auto simp: next_thread_def ra1)
  have r1: "cpu_regs (ks_cpu s1 c) = md_frame (th_md (ks_thread s u))" "th_md (ks_thread s1 t) = \<lparr>md_frame = cpu_regs (ks_cpu s c), md_fs = cpu_fs (ks_cpu s c)\<rparr>"
    using s1(6) t ut by (simp_all add: switched_def Let_def)
  have k: "ks_thread s1' = ks_thread s1" "cpu_regs (ks_cpu s1' c) = regs" "cpu_fs (ks_cpu s1' c) = fs" by (simp_all add: s1'_def set_cpu_def)
  have "cpu_regs (ks_cpu s2 c) = cpu_regs (ks_cpu s c)" "cpu_fs (ks_cpu s2 c) = cpu_fs (ks_cpu s c)" "th_md (ks_thread s2 u) = \<lparr>md_frame = regs, md_fs = fs\<rparr>"
    using s2(3) V(1) s1(3) ut r1(2) k by (simp_all add: switched_def Let_def)
  then show ?thesis using s1 s2 r1(1) by (intro exI [of _ s1] exI [of _ s2]) (simp add: s1'_def)
qed

subsection \<open>Woken before asleep\<close>

text \<open>
  \<^verbatim>\<open>waitq_await_locked\<close> releases the lock of the wait queue before it reschedules, and
  \<^verbatim>\<open>waitq_wake_one\<close> does not take the lock of the thread. Another processor can wake the thread in
  between; the thread then keeps its own lock, and the next time it waits it spins on it.
\<close>

text \<open>(C25) A thread that another processor wakes after it released the wait queue lock and
  before it reschedules keeps running with its own lock held, and every later wait of that thread
  spins on that lock without end.\<close>

theorem woken_before_asleep:
  assumes ok: "sched_ok N s" and c: "c < N" "d < N" "c \<noteq> d" and t: "curthread c s = t" "t \<noteq> idlethread c s" and e: "waiters w s = []"
  shows "\<exists>s0 s1 s2 s3. lock_wq w s = Some s0 \<and> waitq_sleep c w s0 = Some s1 \<and> waitq_wake_one d w s1 = Some (1, s2) \<and> sched_reschedule c s2 = Some s3 \<and>
    curthread c s3 = t \<and> state_of s3 t = kThreadRunning \<and> th_lock (ks_thread s3 t) \<and> (\<forall>v. waitq_await c v s3 = None)"
proof -
  let ?s0 = "s\<lparr>ks_wq := (ks_wq s)(w := (ks_wq s w)\<lparr>wq_lock := True\<rparr>), ks_sem := ks_sem s\<rparr>"
  have l: "lock_wq w s = Some ?s0" using sched_inv_wlock [OF ok, of w] by (simp add: lock_wq_def wlock_def spinlock_lock_def set_wq_def)
  have t0: "curthread c s \<noteq> idlethread c s" using t by simp
  from sleep_ok [OF ok c(1) t0 _ refl, of w "ks_sem s"] obtain s1 where s1: "waitq_sleep c w ?s0 = Some s1" "sched_inv N {t} s1" unfolding t(1) by auto
  have "\<not> th_lock (ks_thread ?s0 t)" using sched_inv_tlock [OF ok, of t] by (simp add: tlock_def)
  from sleep_view [OF this, of c w] s1(1) t(1) e have v1: "curthread c s1 = t" "idlethread c s1 = idlethread c s" "waiters w s1 = [t]" "cpu_of s1 t = cpu_of s t"
    by (simp_all add: view_defs)
  have tc: "cpu_of s t = c" using sched_inv_cur(2) [OF ok c(1)] t by auto
  let ?s1a = "set_wq w (\<lambda>q. q\<lparr>wq_lock := True\<rparr>) s1"
  let ?s1b = "unlock_wq w (set_wq w (\<lambda>q. q\<lparr>wq_waiters := []\<rparr>) ?s1a)"
  let ?s1c = "set_thread t (\<lambda>th. th\<lparr>th_wqres := kWQSuccess\<rparr>) ?s1b"
  let ?s1d = "set_state t kThreadRunnable (?s1c\<lparr>ks_sched_lock := True\<rparr>)"
  define s2 where "s2 = md_ipi_resched d c (unlock_sched (set_runqueue c (t # runqueue c s1) ?s1d))"
  have lw: "lock_wq w s1 = Some ?s1a" using sched_inv_wlock [OF s1(2), of w] by (simp add: lock_wq_def wlock_def spinlock_lock_def)
  have wt: "wq_waiters (ks_wq ?s1a w) = [t]" using v1(3) by (simp add: set_wq_def waiters_def)
  have ls: "lock_sched ?s1c = Some (?s1c\<lparr>ks_sched_lock := True\<rparr>)"
    using sched_inv_lock [OF s1(2)] by (simp add: lock_sched_def spinlock_lock_def set_defs unlock_wq_def)
  have tcd: "th_cpu (ks_thread ?s1d t) = c" "runqueue c ?s1d = runqueue c s1"
    using v1(4) tc by (simp_all add: set_state_def set_defs unlock_wq_def cpu_of_def runqueue_def)
  have wk: "waitq_wake_one d w s1 = Some (1, s2)"
    unfolding waitq_wake_one_def lw Option.bind.bind_lunit Let_def wt list.case list.sel thread_resume_def ls tcd s2_def using c(3) by simp
  have v2: "\<not> ks_sched_lock s2" "curthread c s2 = t" "idlethread c s2 = idlethread c s1" "runqueue c s2 = t # runqueue c s1"
    "state_of s2 t = kThreadRunnable" "tlock s2 t" "timers_ok N s2"
    using v1(1) sched_inv_tlock [OF s1(2), of t] sched_inv_timers [OF s1(2)] timers_ok_cong [of "unlock_sched (set_runqueue c (t # runqueue c s1) ?s1d)" s1 N]
    unfolding s2_def same_viewD [OF ipi_view(1)] ipi_view(2)
    by (simp_all add: view_defs unlock_sched_def spinlock_unlock_def set_runqueue_def set_state_def set_defs unlock_wq_def)
  have n: "rq_after c s2 = t # runqueue c s1" "next_thread c s2 = t" using v2(4,5) v2(2) by (simp_all add: rq_after_def next_thread_def)
  from sched_reschedule_ok [OF v2(1) _ v2(7) c(1)] obtain s3 where s3: "sched_reschedule c s2 = Some s3" "curthread c s3 = t" "state_of s3 t = kThreadRunning" "tlock s3 t"
    using v2 v1(2) t(2) by (auto simp: n)
  have "waitq_await c v s3 = None" for v
    using s3(2,4) by (auto simp: waitq_await_def waitq_await_locked_def waitq_sleep_def lock_wq_def lock_thread_def spinlock_lock_def tlock_def curthread_def set_wq_def Let_def)
  then show ?thesis using l s1(1) wk s3 by (intro exI) (auto simp: tlock_def)
qed

subsection \<open>Witnesses\<close>

text \<open>Two processors; the first runs thread 1 with thread 2 waiting for its turn, the second is idle.\<close>

definition demo_regs :: "u64 \<Rightarrow> md_intr_frame" where
  "demo_regs n = \<lparr>f_rax = n, f_rbx = 0, f_rcx = 0, f_rdx = 0, f_rdi = 0, f_rsi = 0, f_r8 = 0, f_r9 = 0, f_r10 = 0, f_r11 = 0, f_r12 = 0, f_r13 = 0,
     f_r14 = 0, f_r15 = 0, f_rbp = 0, f_code = 0, f_rip = 0, f_cs = 0, f_rflags = 0, f_rsp = 0, f_ss = 0\<rparr>"

definition demo_ks :: "unit ks" where
  "demo_ks = \<lparr>ks_thread = (\<lambda>t. \<lparr>th_lock = False, th_wq = None, th_wqres = kWQSuccess, th_cpu = 0,
       th_state = (if t = 2 \<or> t = 3 then kThreadRunnable else kThreadRunning),
       th_in_pagefault = False, th_kstack = 0, th_ustack = 0, th_task = 0, th_md = \<lparr>md_frame = demo_regs t, md_fs = 0\<rparr>\<rparr>),
     ks_cpu = (\<lambda>c. \<lparr>cpu_num = int c, cpu_curthread = (if c = 0 then 1 else 101), cpu_idlethread = of_nat (100 + c), cpu_runqueue = (if c = 0 then [2] else []),
       cpu_preempted = False, cpu_inInterrupt = False, cpu_timeslicer = c, cpu_pendingcallouts = [], cpu_lapic_id = of_nat c, cpu_lapic_tps = 1000,
       cpu_old = 0, cpu_lapic = (\<lambda>_. 0), cpu_regs = demo_regs 7, cpu_fs = 0\<rparr>),
     ks_callout = (\<lambda>_. \<lparr>co_callback = CbTimeslice, co_arg = 0, co_nanosecs = 0, co_state = kCalloutDisabled\<rparr>),
     ks_wq = (\<lambda>_. \<lparr>wq_lock = False, wq_waiters = []\<rparr>), ks_sem = (\<lambda>_. \<lparr>sem_count = 0, sem_wq = 5\<rparr>),
     ks_task = (\<lambda>_. \<lparr>task_name = ''[kernel]'', task_map = 0, task_threads = []\<rparr>), ks_sched_lock = False, ks_ncpu = 2, ks_lastcpu = 0, ks_world = ()\<rparr>"

lemma demo_ok: "sched_ok 2 demo_ks"
proof -
  have two: "c < 2 \<longleftrightarrow> c = 0 \<or> c = (1 :: nat)" for c by auto
  show ?thesis by (simp add: sched_inv_def view_defs demo_ks_def timers_ok_def timer_ok_def NS_PER_S_def two)
qed

lemma demo_view: "curthread 0 demo_ks = 1" "idlethread 0 demo_ks = 100" "runqueue 0 demo_ks = [2]" "waiters w demo_ks = []" "ring 0 demo_ks = [2, 1]"
  by (simp_all add: view_defs demo_ks_def ring_def)

definition demo_env :: "unit ks_env" where
  "demo_env = \<lparr>ke_callback = (\<lambda>_ _ _ s. Some s), ke_vm_fault = (\<lambda>_ _ _ w. Some (0, w)), ke_invlpg = (\<lambda>_ w. w)\<rparr>"

text \<open>The first processor puts thread 1 to sleep, the second yields, then the first gives up its processor.\<close>

theorem sched_safety_witness:
  "\<exists>s'. rtranclp (kstep 2 demo_env) ({}, demo_ks) ({}, s') \<and> sched_ok 2 s' \<and> placed 2 s' 1 \<and> placed 2 s' 2 \<and> 1 \<in> set (waiters 5 s')"
proof -
  obtain s1 s2 where s1: "lock_wq 5 demo_ks = Some s1" "waitq_sleep 0 5 s1 = Some s2" "sched_inv 2 {1} s2"
    "\<forall>d. curthread d s2 = curthread d demo_ks" "waiters 5 s2 = [1]"
    using sleep_ok [OF demo_ok _ _ _ refl, of 0 5 "ks_sem demo_ks"] lock_wq_ok [OF demo_ok, of 5] by (auto simp: demo_view)
  have a: "kstep 2 demo_env ({}, demo_ks) ({1}, s2)" using kstep.sleep [OF _ _ _ s1(1,2), of 2 "{}" demo_env] by (simp add: demo_view)
  have c1: "curthread 1 s2 = 101" using s1(4) by (simp add: view_defs demo_ks_def)
  obtain s3 where s3: "sched_reschedule 1 s2 = Some s3" "sched_inv 2 {1} s3" "curthread 0 s3 = 1" "waiters 5 s3 = [1]"
    using reschedule_keeps_inv [OF s1(3), of 1] c1 s1(4,5) by (auto simp: demo_view)
  have b: "kstep 2 demo_env ({1}, s2) ({1}, s3)" using kstep.yield [OF _ s3(1), of 2 demo_env "{1}"] c1 by simp
  obtain s4 where s4: "sched_reschedule 0 s3 = Some s4" "waiters 5 s4 = [1]" using reschedule_inv [OF s3(2), of 0] s3(4) by auto
  have "kstep 2 demo_env ({1}, s3) ({}, s4)" using kstep.yield [OF _ s4(1), of 2 demo_env "{1}"] s3(3) by simp
  with a b have r: "rtranclp (kstep 2 demo_env) ({}, demo_ks) ({}, s4)" by (meson converse_rtranclp_into_rtranclp rtranclp.rtrancl_refl)
  have "placed 2 demo_ks 1" "placed 2 demo_ks 2" using placedI(1,3) [of 0 2 _ demo_ks] by (simp_all add: demo_view)
  with sched_safety [OF demo_ok r] r s4(2) show ?thesis by auto
qed

theorem sched_never_stuck_witness: "\<exists>s'. semaphore_wait 0 3 demo_ks = Some s'"
  using sched_never_stuck [OF demo_ok, of 0] by (simp add: demo_view)

theorem round_robin_witness: "\<exists>s'. yield_n 2 0 demo_ks = Some s' \<and> curthread 0 s' = 1"
  using round_robin [OF demo_ok, of 0 1] by (simp add: demo_view numeral_2_eq_2)

theorem switch_restores_registers_witness:
  "\<exists>s1 s2. sched_reschedule 0 demo_ks = Some s1 \<and> sched_reschedule 0 (set_cpu 0 (\<lambda>p. p\<lparr>cpu_regs := demo_regs 9, cpu_fs := 0\<rparr>) s1) = Some s2 \<and>
     cpu_regs (ks_cpu s2 0) = demo_regs 7"
proof -
  have "cpu_regs (ks_cpu demo_ks 0) = demo_regs 7" by (simp add: demo_ks_def)
  with switch_restores_registers [OF demo_ok, where c = 0 and t = 1 and u = 2 and regs = "demo_regs 9" and fs = 0] show ?thesis
    by (auto simp: demo_view)
qed

theorem woken_before_asleep_witness:
  "\<exists>s0 s1 s2 s3. lock_wq 5 demo_ks = Some s0 \<and> waitq_sleep 0 5 s0 = Some s1 \<and> waitq_wake_one 1 5 s1 = Some (1, s2) \<and> sched_reschedule 0 s2 = Some s3 \<and>
     waitq_await 0 5 s3 = None"
proof -
  have "(0 :: nat) < 2" "(1 :: nat) < 2" "(0 :: nat) \<noteq> 1" "(1 :: u64) \<noteq> idlethread 0 demo_ks" by (simp_all add: demo_view)
  from woken_before_asleep [OF demo_ok this(1-3) demo_view(1) this(4) demo_view(4), of 5] show ?thesis by blast
qed

lemma demo_sem: "sem_inv 2 3 demo_ks" "sem_can_signal 2 3 0 demo_ks" "sem_queue 3 demo_ks = []" "sem_permits 3 demo_ks = 0"
proof -
  show "sem_inv 2 3 demo_ks" using demo_ok by (simp add: sem_inv_def sem_queue_def view_defs demo_ks_def)
qed (simp_all add: sem_can_signal_def sem_queue_def sem_permits_def view_defs demo_ks_def)

theorem semaphore_refines_counting_witness: "\<exists>r s'. semaphore_signal 0 3 demo_ks = Some (r, s') \<and> r = 0 \<and> sem_permits 3 s' = 1"
  using semaphore_refines_counting [OF demo_sem(1), of 0] demo_sem by auto

theorem semaphore_balance_witness:
  "\<exists>s'. run_ops (sem_can_wait 2 3) (sem_can_signal 2 3) (\<lambda>c. semaphore_wait c 3) (\<lambda>c. semaphore_signal c 3) [(True, 0)] demo_ks = Some s' \<and> sem_permits 3 s' = 1"
proof -
  obtain s' where r: "run_ops (sem_can_wait 2 3) (sem_can_signal 2 3) (\<lambda>c. semaphore_wait c 3) (\<lambda>c. semaphore_signal c 3) [(True, 0)] demo_ks = Some s'"
    using sem_signal_law [OF demo_sem(1,2)] demo_sem(2) by auto
  from semaphore_balance [OF r demo_sem(1)] have "sem_permits 3 s' = 1" by (auto simp: demo_sem)
  with r show ?thesis by blast
qed

end
