(* ===== verification/Callout.thy ===== *)
theory Callout
  imports Sched
begin

text \<open>
  When callouts expire. The queue of a processor holds each callout's time relative to the one
  before it; \<open>expiry\<close> adds them up. \<^verbatim>\<open>callout_enqueue\<close> is right when the new callout is due before
  all others or after all others. In between it goes after the first one that is due later, which
  makes it late and delays everything behind it.
\<close>

fun expiry :: "(callout_ref \<Rightarrow> nat) \<Rightarrow> callout_ref list \<Rightarrow> callout_ref \<Rightarrow> nat" where
  "expiry ns [] j = 0"
| "expiry ns (k # q) j = ns k + (if j = k then 0 else expiry ns q j)"

lemma expiry_append:
  "expiry ns (xs @ ys) j = (if j \<in> set xs then expiry ns xs j else sum_list (map ns xs) + expiry ns ys j)"
  by (induction xs) auto

lemma expiry_cong:
  assumes "\<And>i. i \<in> set q \<Longrightarrow> ns i = ns' i"
  shows "expiry ns q j = expiry ns' q j"
  using assms by (induction q) auto

lemma expiry_le_sum: "j \<in> set q \<Longrightarrow> expiry ns q j \<le> sum_list (map ns q)"
  by (induction q) auto

lemma expiry_pos: "j \<in> set q \<Longrightarrow> \<forall>i \<in> set q. 0 < ns i \<Longrightarrow> 0 < expiry ns q j"
  by (induction q) auto

text \<open>Where the loop stops.\<close>

lemma callout_place_cases:
  assumes "callout_place ns n co rest = (p, n')" and "n > 0"
  shows "sum_list (map (\<lambda>i. unat (ns i)) (co # rest)) < unat n \<and> p = last (co # rest) \<and> unat n' = unat n - sum_list (map (\<lambda>i. unat (ns i)) (co # rest)) \<or>
    (\<exists>xs ys. co # rest = xs @ p # ys \<and> sum_list (map (\<lambda>i. unat (ns i)) xs) < unat n \<and> unat n \<le> sum_list (map (\<lambda>i. unat (ns i)) xs) + unat (ns p) \<and>
      unat n' = unat n - sum_list (map (\<lambda>i. unat (ns i)) xs))"
  using assms
proof (induction ns n co rest rule: callout_place.induct)
  case (1 ns n co)
  then show ?case
    by (cases "ns co < n") (auto simp: word_less_nat_alt word_le_nat_alt unat_sub linorder_not_less intro: exI [of _ "[]"])
next
  case (2 ns n co nx rest)
  show ?case
  proof (cases "ns co < n")
    case True
    have u: "unat (n - ns co) = unat n - unat (ns co)" "0 < n - ns co" "unat (ns co) < unat n"
      using True unat_sub_nowrap [of "ns co" n] by (auto simp: word_less_nat_alt)
    from "2.IH" [OF True _ u(2)] "2.prems"(1) True have
      "sum_list (map (\<lambda>i. unat (ns i)) (nx # rest)) < unat (n - ns co) \<and> p = last (nx # rest) \<and> unat n' = unat (n - ns co) - sum_list (map (\<lambda>i. unat (ns i)) (nx # rest)) \<or>
       (\<exists>xs ys. nx # rest = xs @ p # ys \<and> sum_list (map (\<lambda>i. unat (ns i)) xs) < unat (n - ns co) \<and> unat (n - ns co) \<le> sum_list (map (\<lambda>i. unat (ns i)) xs) + unat (ns p) \<and>
         unat n' = unat (n - ns co) - sum_list (map (\<lambda>i. unat (ns i)) xs))" by simp
    then show ?thesis
    proof (elim disjE exE conjE)
      fix xs ys assume "nx # rest = xs @ p # ys" "sum_list (map (\<lambda>i. unat (ns i)) xs) < unat (n - ns co)"
        "unat (n - ns co) \<le> sum_list (map (\<lambda>i. unat (ns i)) xs) + unat (ns p)" "unat n' = unat (n - ns co) - sum_list (map (\<lambda>i. unat (ns i)) xs)"
      then have "co # nx # rest = (co # xs) @ p # ys \<and> sum_list (map (\<lambda>i. unat (ns i)) (co # xs)) < unat n \<and>
        unat n \<le> sum_list (map (\<lambda>i. unat (ns i)) (co # xs)) + unat (ns p) \<and> unat n' = unat n - sum_list (map (\<lambda>i. unat (ns i)) (co # xs))"
        using u by auto
      then show ?thesis by blast
    qed (use u in auto)
  next
    case False
    then have "co # nx # rest = [] @ p # nx # rest \<and> unat n \<le> unat (ns p) \<and> n' = n" using "2.prems"(1) by (auto simp: word_less_nat_alt)
    then show ?thesis using "2.prems"(2) by (intro disjI2 exI [of _ "[]"] exI [of _ "nx # rest"]) (auto simp: word_less_nat_alt)
  qed
qed

subsection \<open>The effect of an insertion\<close>

lemma expiry_insert_tail:
  assumes "k \<notin> set q" "q \<noteq> []" "distinct q" and n: "sum_list (map ns q) < n"
  shows "insert_after (last q) k q = q @ [k]" "expiry (ns(k := n - sum_list (map ns q))) (q @ [k]) k = n"
    "j \<in> set q \<Longrightarrow> expiry (ns(k := n - sum_list (map ns q))) (q @ [k]) j = expiry ns q j"
proof -
  obtain xs z where q: "q = xs @ [z]" using assms(2) by (cases q rule: rev_cases) auto
  then show "insert_after (last q) k q = q @ [k]" using assms(3) by (simp add: insert_after_split)
  have m: "map (ns(k := x)) q = map ns q" for x using assms(1) by (intro map_cong) auto
  show "expiry (ns(k := n - sum_list (map ns q))) (q @ [k]) k = n" using assms(1) n m by (simp add: expiry_append)
  show "j \<in> set q \<Longrightarrow> expiry (ns(k := n - sum_list (map ns q))) (q @ [k]) j = expiry ns q j"
    using assms(1) by (simp add: expiry_append) (rule expiry_cong, auto)
qed

lemma expiry_insert_middle:
  assumes q: "q = xs @ p # ys" "distinct q" "k \<notin> set q" and pos: "\<forall>i \<in> set q. 0 < ns i" and m: "0 < m"
  shows "insert_after p k q = xs @ p # k # ys" "expiry (ns(k := m)) (xs @ p # k # ys) k = expiry ns q p + m"
    "j \<in> set q \<Longrightarrow> expiry (ns(k := m)) (xs @ p # k # ys) j = (if expiry ns q j \<le> expiry ns q p then expiry ns q j else expiry ns q j + m)"
proof -
  show "insert_after p k q = xs @ p # k # ys" using q by (simp add: insert_after_split)
  have e: "expiry (ns(k := m)) l j = expiry ns l j" if "k \<notin> set l" for l j using that by (intro expiry_cong) auto
  have sm: "sum_list (map (ns(k := m)) xs) = sum_list (map ns xs)" using q(1,3) by (intro arg_cong [where f = sum_list] map_cong) auto
  show "expiry (ns(k := m)) (xs @ p # k # ys) k = expiry ns q p + m" using q sm by (auto simp: expiry_append)
  assume j: "j \<in> set q"
  consider "j \<in> set xs" | "j = p" "p \<notin> set xs" | "j \<in> set ys" "j \<noteq> p" "j \<notin> set xs" "p \<notin> set xs" using j q(1,2) by auto
  then show "expiry (ns(k := m)) (xs @ p # k # ys) j = (if expiry ns q j \<le> expiry ns q p then expiry ns q j else expiry ns q j + m)"
  proof cases
    case 1
    then have "expiry ns q j \<le> sum_list (map ns xs)" "p \<notin> set xs" "k \<notin> set xs" using q expiry_le_sum by (auto simp: expiry_append)
    then show ?thesis using 1 q(1) e by (simp add: expiry_append)
  next
    case 2
    then show ?thesis using q sm by (auto simp: expiry_append)
  next
    case 3
    have "0 < expiry ns ys j" using 3(1) pos q(1) by (intro expiry_pos) auto
    then show ?thesis using 3 q sm e [of ys j] by (auto simp: expiry_append)
  qed
qed

text \<open>The queue and the times after \<^verbatim>\<open>callout_enqueue\<close>, with \<open>h\<close> what is left of the head's time.\<close>

lemma callout_enqueue_run:
  fixes s :: "'w ks"
  assumes pend: "pendingcallouts c s = co # rest" and k: "k \<noteq> co" "nanosecs s k > 0" and rem: "md_timer_get_remaining c s = Some r"
    and h: "h = min r (nanosecs s co)" "h > 0" and tm: "cpu_lapic_tps (ks_cpu s c) * nanosecs s k div NS_PER_S < 0xffffffff"
  shows "\<exists>s'. callout_enqueue c k s = Some s' \<and> co_state (ks_callout s' k) = kCalloutPending \<and>
    (if h > nanosecs s k then pendingcallouts c s' = k # co # rest \<and> nanosecs s' = (nanosecs s)(co := h - nanosecs s k)
     else let (p, n) = callout_place ((nanosecs s)(co := h)) (nanosecs s k) co rest in
       pendingcallouts c s' = insert_after p k (co # rest) \<and> nanosecs s' = (nanosecs s)(co := h, k := n))"
proof -
  define s1 where "s1 = set_nanosecs co h s"
  have n1: "nanosecs s1 = (nanosecs s)(co := h)" by (auto simp: s1_def nanosecs_def set_nanosecs_def set_defs fun_eq_iff)
  show ?thesis
  proof (cases "h > nanosecs s k")
    case True
    define s2 where "s2 = set_pending c (k # co # rest) (set_nanosecs co (h - nanosecs s k) s1)"
    have n2: "nanosecs s2 = (nanosecs s)(co := h - nanosecs s k)" "cpu_lapic_tps (ks_cpu s2 c) = cpu_lapic_tps (ks_cpu s c)"
      by (auto simp: s2_def s1_def nanosecs_def set_nanosecs_def set_pending_def set_defs fun_eq_iff)
    let ?s3 = "lapic_write c kLAPICRegTimerInitial (ucast (cpu_lapic_tps (ks_cpu s c) * nanosecs s k div NS_PER_S)) s2"
    have "md_timer_set c (nanosecs s2 k) s2 = Some ?s3" using tm k(1) by (simp add: md_timer_set_def n2 Let_def)
    then have "callout_enqueue c k s = Some (callout_pending k ?s3)"
      using pend k rem h True unfolding callout_enqueue_def
      by (simp add: s1_def [symmetric] n1 Let_def h(1) [symmetric] s2_def [symmetric])
    moreover have "nanosecs (callout_pending k ?s3) = nanosecs s2"
      by (auto simp: callout_pending_def lapic_write_def nanosecs_def set_defs fun_eq_iff)
    moreover have "pendingcallouts c (callout_pending k ?s3) = k # co # rest"
      by (simp add: callout_pending_def lapic_write_def pendingcallouts_def s2_def set_pending_def set_defs)
    moreover have "co_state (ks_callout (callout_pending k ?s3) k) = kCalloutPending" by (simp add: callout_pending_def set_defs)
    ultimately show ?thesis using True n2 by simp
  next
    case False
    obtain p n where pn: "callout_place ((nanosecs s)(co := h)) (nanosecs s k) co rest = (p, n)" by fastforce
    let ?s = "callout_pending k (set_pending c (insert_after p k (co # rest)) (set_nanosecs k n s1))"
    have "callout_enqueue c k s = Some ?s"
      using pend k rem h False pn unfolding callout_enqueue_def
      by (simp add: s1_def [symmetric] n1 Let_def h(1) [symmetric])
    moreover have "nanosecs ?s = (nanosecs s)(co := h, k := n)"
      using k(1) by (auto simp: s1_def callout_pending_def set_pending_def set_nanosecs_def nanosecs_def set_defs fun_eq_iff)
    ultimately show ?thesis using False pn
      by (simp add: callout_pending_def set_pending_def set_nanosecs_def pendingcallouts_def set_defs)
  qed
qed

theorem callout_enqueue_times:
  fixes s :: "'w ks"
  assumes pend: "pendingcallouts c s = co # rest" "distinct (co # rest)" "\<forall>j \<in> set rest. nanosecs s j > 0"
    and k: "k \<notin> set (co # rest)" "nanosecs s k > 0" and rem: "md_timer_get_remaining c s = Some r"
    and h: "h = min r (nanosecs s co)" "h > 0" and tm: "cpu_lapic_tps (ks_cpu s c) * nanosecs s k div NS_PER_S < 0xffffffff"
    and T: "T = expiry (\<lambda>i. unat (((nanosecs s)(co := h)) i)) (co # rest)" and n: "n = unat (nanosecs s k)"
  shows "\<exists>s' T'. callout_enqueue c k s = Some s' \<and> T' = expiry (\<lambda>i. unat (nanosecs s' i)) (pendingcallouts c s') \<and>
    set (pendingcallouts c s') = insert k (set (co # rest)) \<and> distinct (pendingcallouts c s') \<and>
    (if n < T co \<or> (\<forall>j \<in> set (co # rest). T j < n) then T' k = n \<and> (\<forall>j \<in> set (co # rest). T' j = T j)
     else \<exists>p d. p \<in> set (co # rest) \<and> d = unat (((nanosecs s)(co := h)) p) \<and> n \<le> T p \<and> T p < n + d \<and> T' k = n + d \<and>
       (\<forall>j \<in> set (co # rest). T' j = (if T j \<le> T p then T j else T j + (n + d - T p))))"
proof -
  let ?q = "co # rest" and ?ns = "\<lambda>i. unat (((nanosecs s)(co := h)) i)"
  have kc: "k \<noteq> co" using k(1) by simp
  from callout_enqueue_run [OF pend(1) kc k(2) rem h tm] obtain s' where r: "callout_enqueue c k s = Some s'"
    and e: "if h > nanosecs s k then pendingcallouts c s' = k # co # rest \<and> nanosecs s' = (nanosecs s)(co := h - nanosecs s k)
     else let (p, n) = callout_place ((nanosecs s)(co := h)) (nanosecs s k) co rest in
       pendingcallouts c s' = insert_after p k (co # rest) \<and> nanosecs s' = (nanosecs s)(co := h, k := n)" by blast
  have Tco: "T co = unat h" by (simp add: T)
  have pos: "\<forall>i \<in> set ?q. 0 < ?ns i" using pend(3) h(2) by (auto simp: word_less_nat_alt)
  show ?thesis
  proof (cases "h > nanosecs s k")
    case True
    then have p: "pendingcallouts c s' = k # ?q" "nanosecs s' = (nanosecs s)(co := h - nanosecs s k)" using e by simp_all
    have u: "unat (h - nanosecs s k) = unat h - n" "n < unat h" using True unat_sub_nowrap [of "nanosecs s k" h] by (simp_all add: n word_less_nat_alt)
    have cg: "expiry (\<lambda>i. unat (nanosecs s' i)) rest j = expiry ?ns rest j" for j using pend(2) p(2) by (intro expiry_cong) auto
    have "expiry (\<lambda>i. unat (nanosecs s' i)) (k # ?q) j = T j" if "j \<in> set ?q" for j
      using that k(1) u p(2) cg kc by (auto simp: T n)
    moreover have "expiry (\<lambda>i. unat (nanosecs s' i)) (k # ?q) k = n" using p(2) kc by (simp add: n)
    ultimately show ?thesis using r p(1) u(2) Tco k(1) pend(2) by (intro exI [of _ s']) (simp del: expiry.simps)
  next
    case False
    obtain p m where pn: "callout_place ((nanosecs s)(co := h)) (nanosecs s k) co rest = (p, m)" by fastforce
    then have q: "pendingcallouts c s' = insert_after p k ?q" "nanosecs s' = (nanosecs s)(co := h, k := m)" using e False by simp_all
    have ns': "(\<lambda>i. unat (nanosecs s' i)) = ?ns(k := unat m)" using q(2) by (auto simp: fun_eq_iff)
    have le: "unat h \<le> n" using False by (simp add: n word_less_nat_alt)
    from callout_place_cases [OF pn k(2)] show ?thesis
    proof (elim disjE exE conjE)
      assume tot: "sum_list (map ?ns ?q) < unat (nanosecs s k)" and p: "p = last ?q" and m: "unat m = unat (nanosecs s k) - sum_list (map ?ns ?q)"
      have all: "T j < n" if "j \<in> set ?q" for j using expiry_le_sum [OF that, of ?ns] tot by (simp add: T n)
      note I = expiry_insert_tail [OF k(1) _ pend(2) tot, folded m n]
      have "pendingcallouts c s' = ?q @ [k]" using q(1) p I(1) by simp
      then show ?thesis using r I(2,3) all k(1) pend(2) ns' by (intro exI [of _ s']) (simp add: T insert_commute del: expiry.simps)
    next
      fix xs ys assume qs: "?q = xs @ p # ys" and b: "sum_list (map ?ns xs) < unat (nanosecs s k)" "unat (nanosecs s k) \<le> sum_list (map ?ns xs) + ?ns p"
        and m: "unat m = unat (nanosecs s k) - sum_list (map ?ns xs)"
      have mp: "0 < unat m" using m b(1) by simp
      note I = expiry_insert_middle [OF qs pend(2) k(1) pos mp]
      have px: "p \<notin> set xs" using pend(2) qs by auto
      have Tp: "T p = sum_list (map ?ns xs) + ?ns p" unfolding T qs using px by (simp add: expiry_append)
      have pm: "p \<in> set ?q" unfolding qs by simp
      have no: "\<not> (n < T co \<or> (\<forall>j \<in> set ?q. T j < n))" 
      proof
        assume "n < T co \<or> (\<forall>j \<in> set ?q. T j < n)"
        then have "T p < n" using le Tco pm by auto
        then show False using Tp b(2) by (simp add: n)
      qed
      have pq: "pendingcallouts c s' = xs @ p # k # ys" using q(1) I(1) by simp
      have dm: "unat m = n + ?ns p - T p" "T p < n + ?ns p" "n \<le> T p" "T p + unat m = n + ?ns p" using m Tp b by (simp_all add: n)
      have "T' k = n + ?ns p" "\<forall>j \<in> set ?q. T' j = (if T j \<le> T p then T j else T j + (n + ?ns p - T p))"
        if "T' = expiry (\<lambda>i. unat (nanosecs s' i)) (pendingcallouts c s')" for T'
        unfolding that pq ns' using I(2,3) dm(1,4) by (simp_all add: T del: expiry.simps)
      moreover have "set (xs @ p # k # ys) = insert k (set ?q)" "distinct (xs @ p # k # ys)" using k(1) pend(2) unfolding qs by auto
      ultimately show ?thesis using r no dm(2,3) pm pq by (intro exI [of _ s']) auto
    qed
  qed
qed

text \<open>
  The time left on the timer is read as ticks divided by ticks per second and nanoseconds per
  second, so it is 0 on any timer with 5 or more ticks per second, and the assertion that the head
  has time left fails: a second callout stops the kernel.
\<close>

lemma remaining_zero:
  assumes "5 \<le> cpu_lapic_tps (ks_cpu s c)" "cpu_lapic_tps (ks_cpu s c) < 2 ^ 34"
  shows "md_timer_get_remaining c s = Some 0"
proof -
  let ?t = "cpu_lapic_tps (ks_cpu s c)" and ?l = "ucast (lapic_read c kLAPICRegTimerCurrentCount s) :: u64"
  have t: "5 \<le> unat ?t" "unat ?t < 2 ^ 34" using assms by (simp_all add: word_le_nat_alt word_less_nat_alt)
  then have u: "unat (?t * NS_PER_S) = unat ?t * 1000000000" by (simp add: NS_PER_S_def unat_word_ariths)
  have "unat ?l \<le> unat (lapic_read c kLAPICRegTimerCurrentCount s)" by (simp add: unsigned_ucast_eq take_bit_eq_mod)
  also have "\<dots> < 2 ^ 32" using unsigned_less [of "lapic_read c kLAPICRegTimerCurrentCount s"] by (simp flip: unat_of_nat)
  finally have "unat ?l < 2 ^ 32" .
  then have "unat (?l div (?t * NS_PER_S)) = 0" using t u by (simp add: unat_div)
  then have "?l div (?t * NS_PER_S) = 0" by (simp add: unat_eq_zero)
  moreover have "?t * NS_PER_S \<noteq> 0" using t u by (metis less_le_trans mult_eq_0_iff not_numeral_le_zero unat_0 zero_neq_numeral)
  ultimately show ?thesis by (simp add: md_timer_get_remaining_def Let_def)
qed

theorem second_callout_stops:
  assumes "5 \<le> cpu_lapic_tps (ks_cpu s c)" and "cpu_lapic_tps (ks_cpu s c) < 2 ^ 34" and "pendingcallouts c s \<noteq> []"
  shows "callout_enqueue c k s = None"
proof -
  obtain co rest where p: "pendingcallouts c s = co # rest" using assms(3) by (cases "pendingcallouts c s") auto
  have "nanosecs (set_nanosecs co 0 s) co = 0" by (simp add: nanosecs_def set_nanosecs_def set_defs)
  then show ?thesis using p remaining_zero [OF assms(1,2)] by (simp add: callout_enqueue_def Let_def)
qed

subsection \<open>Witnesses\<close>

text \<open>Callouts 5, 6 and 7 due after 4, 14 and 34 ns on a slow timer; callout 4 is to be due after 8.\<close>

definition callout_ks :: "unit ks" where
  "callout_ks = \<lparr>ks_thread = (\<lambda>t. undefined),
     ks_cpu = (\<lambda>c. \<lparr>cpu_num = int c, cpu_curthread = 1, cpu_idlethread = 1, cpu_runqueue = [],
       cpu_preempted = False, cpu_inInterrupt = False, cpu_timeslicer = 0, cpu_pendingcallouts = [5, 6, 7], cpu_lapic_id = 0, cpu_lapic_tps = 1,
       cpu_old = 0, cpu_lapic = (\<lambda>_. 4000000000), cpu_regs = undefined, cpu_fs = 0\<rparr>),
     ks_callout = (\<lambda>k. \<lparr>co_callback = CbOther 0, co_arg = 0, co_nanosecs = (if k = 5 then 5 else if k = 6 then 10 else if k = 7 then 20 else 8),
       co_state = kCalloutPending\<rparr>),
     ks_wq = (\<lambda>_. undefined), ks_sem = (\<lambda>_. undefined), ks_task = (\<lambda>_. undefined), ks_sched_lock = False, ks_ncpu = 1, ks_lastcpu = 0, ks_world = ()\<rparr>"

theorem callout_enqueue_times_witness:
  "\<exists>s' T'. callout_enqueue 0 4 callout_ks = Some s' \<and> T' = expiry (\<lambda>i. unat (nanosecs s' i)) (pendingcallouts 0 s') \<and> T' 4 = 18 \<and> T' 7 = 38"
proof -
  have p: "pendingcallouts 0 callout_ks = [5, 6, 7]" by (simp add: pendingcallouts_def callout_ks_def)
  have n: "nanosecs callout_ks = (\<lambda>k. if k = 5 then 5 else if k = 6 then 10 else if k = 7 then 20 else 8)"
    by (simp add: nanosecs_def callout_ks_def fun_eq_iff)
  have r: "md_timer_get_remaining 0 callout_ks = Some 4"
    by (simp add: md_timer_get_remaining_def callout_ks_def lapic_read_def NS_PER_S_def kLAPICRegTimerCurrentCount_def)
  have tm: "cpu_lapic_tps (ks_cpu callout_ks 0) * nanosecs callout_ks 4 div NS_PER_S < 0xffffffff" 
  proof -
    have "cpu_lapic_tps (ks_cpu callout_ks 0) = 1" by (simp add: callout_ks_def)
    then show ?thesis by (simp add: n NS_PER_S_def)
  qed
  define T where "T = expiry (\<lambda>i. unat (((nanosecs callout_ks)(5 := 4)) i)) [5, 6, 7]"
  have T: "T 5 = 4" "T 6 = 14" "T 7 = 34" by (simp_all add: T_def n)
  have h: "(4 :: u64) = min 4 (nanosecs callout_ks 5)" "(0 :: u64) < 4" "nanosecs callout_ks 4 > 0" "(8 :: nat) = unat (nanosecs callout_ks 4)" by (simp_all add: n)
  have "\<forall>j \<in> set [6, 7]. nanosecs callout_ks j > 0" by (simp add: n)
  from callout_enqueue_times [OF p _ this _ h(3) r h(1,2) tm T_def h(4)] obtain s' T' where s': "callout_enqueue 0 4 callout_ks = Some s'"
    "T' = expiry (\<lambda>i. unat (nanosecs s' i)) (pendingcallouts 0 s')" and e: "if 8 < T 5 \<or> (\<forall>j \<in> set [5, 6, 7]. T j < 8)
      then T' 4 = 8 \<and> (\<forall>j \<in> set [5, 6, 7]. T' j = T j)
      else \<exists>p d. p \<in> set [5, 6, 7] \<and> d = unat (((nanosecs callout_ks)(5 := 4)) p) \<and> 8 \<le> T p \<and> T p < 8 + d \<and> T' 4 = 8 + d \<and>
        (\<forall>j \<in> set [5, 6, 7]. T' j = (if T j \<le> T p then T j else T j + (8 + d - T p)))" by auto
  have "\<not> (8 < T 5 \<or> (\<forall>j \<in> set [5, 6, 7]. T j < 8))" by (simp add: T)
  with e obtain p d where e: "p \<in> set [5, 6, 7]" "d = unat (((nanosecs callout_ks)(5 := 4)) p)" "8 \<le> T p" "T p < 8 + d" "T' 4 = 8 + d"
    "\<forall>j \<in> set [5, 6, 7]. T' j = (if T j \<le> T p then T j else T j + (8 + d - T p))" by (simp only: if_False) blast
  have "p = 6" using e(1-4) T by (auto simp: n)
  then have "d = 10" using e(2) by (simp add: n)
  then show ?thesis using s' e(5,6) T \<open>p = 6\<close> by auto
qed

theorem second_callout_stops_witness:
  "callout_enqueue 0 4 (set_cpu 0 (\<lambda>p. p\<lparr>cpu_lapic_tps := 1000000\<rparr>) callout_ks) = None"
  by (rule second_callout_stops) (simp_all add: set_cpu_def callout_ks_def pendingcallouts_def)

end
