(* ===== verification/Mutex.thy ===== *)
theory Mutex
  imports Sched
begin

text \<open>
  Mutexes: \<^verbatim>\<open>mutex_lock\<close> and \<^verbatim>\<open>mutex_unlock\<close> of \<^verbatim>\<open>kern/task.c\<close>, with every atomic operation a step
  of its own and the threads interleaved in any order. A thread's position in the code is its
  \<open>pc\<close>. The wait queue operations, which hold the lock of the queue throughout, are single steps:
  \<^verbatim>\<open>waitq_await\<close> appends the thread to the waiters and \<^verbatim>\<open>waitq_wake_one\<close> removes the first of them.
  A thread that has been removed returns from \<^verbatim>\<open>waitq_await\<close> with \<^verbatim>\<open>kWQSuccess\<close>.
\<close>

subsection \<open>The code\<close>

record mutex =
  mtx_owner :: "thread_ref option"
  mtx_waiters :: "thread_ref list"
  mtx_count :: u32

definition mutex_init :: mutex where
  "mutex_init = \<lparr>mtx_owner = None, mtx_waiters = [], mtx_count = 0\<rparr>"

text \<open>\<^verbatim>\<open>atomic_fetch_add(&mtx->count, 1) >= 1\<close>\<close>

definition lock_add :: "mutex \<Rightarrow> bool \<times> mutex" where
  "lock_add m = (mtx_count m \<ge> 1, m\<lparr>mtx_count := mtx_count m + 1\<rparr>)"

definition lock_await :: "thread_ref \<Rightarrow> mutex \<Rightarrow> mutex" where
  "lock_await t m = m\<lparr>mtx_waiters := mtx_waiters m @ [t]\<rparr>"

text \<open>The compare-and-exchange of the owner, which the code asserts to succeed.\<close>

definition lock_own :: "thread_ref \<Rightarrow> mutex \<Rightarrow> mutex option" where
  "lock_own t m = do { kassert (mtx_owner m = None); Some (m\<lparr>mtx_owner := Some t\<rparr>) }"

definition unlock_disown :: "thread_ref \<Rightarrow> mutex \<Rightarrow> mutex option" where
  "unlock_disown t m = do { kassert (mtx_owner m = Some t); Some (m\<lparr>mtx_owner := None\<rparr>) }"

text \<open>\<^verbatim>\<open>atomic_fetch_sub(&mtx->count, 1) > 1\<close>\<close>

definition unlock_sub :: "mutex \<Rightarrow> bool \<times> mutex" where
  "unlock_sub m = (mtx_count m > 1, m\<lparr>mtx_count := mtx_count m - 1\<rparr>)"

definition unlock_wake :: "mutex \<Rightarrow> thread_ref option \<times> mutex" where
  "unlock_wake m = (first_of (mtx_waiters m), m\<lparr>mtx_waiters := tl (mtx_waiters m)\<rparr>)"

text \<open>
  Positions: outside; about to wait; asleep; about to become the owner; holding the mutex; no
  longer the owner but still counted; about to wake a waiter; stopped by a failed assertion.
\<close>

datatype pc = Out | Waits | Asleep | Owns | Holds | Leaves | Wakes | Fatal

record mconf =
  mc_mutex :: mutex
  mc_pc :: "thread_ref \<Rightarrow> pc"

definition goto :: "thread_ref \<Rightarrow> pc \<Rightarrow> mutex \<Rightarrow> mconf \<Rightarrow> mconf" where
  "goto t p m s = s\<lparr>mc_mutex := m, mc_pc := (mc_pc s)(t := p)\<rparr>"

inductive mstep :: "thread_ref set \<Rightarrow> mconf \<Rightarrow> mconf \<Rightarrow> bool" for T where
  add: "t \<in> T \<Longrightarrow> mc_pc s t = Out \<Longrightarrow> lock_add (mc_mutex s) = (w, m) \<Longrightarrow> mstep T s (goto t (if w then Waits else Owns) m s)"
| await: "mc_pc s t = Waits \<Longrightarrow> mstep T s (goto t Asleep (lock_await t (mc_mutex s)) s)"
| own: "mc_pc s t = Owns \<Longrightarrow> lock_own t (mc_mutex s) = Some m \<Longrightarrow> mstep T s (goto t Holds m s)"
| own_fails: "mc_pc s t = Owns \<Longrightarrow> lock_own t (mc_mutex s) = None \<Longrightarrow> mstep T s (goto t Fatal (mc_mutex s) s)"
| disown: "mc_pc s t = Holds \<Longrightarrow> unlock_disown t (mc_mutex s) = Some m \<Longrightarrow> mstep T s (goto t Leaves m s)"
| disown_fails: "mc_pc s t = Holds \<Longrightarrow> unlock_disown t (mc_mutex s) = None \<Longrightarrow> mstep T s (goto t Fatal (mc_mutex s) s)"
| sub: "mc_pc s t = Leaves \<Longrightarrow> unlock_sub (mc_mutex s) = (w, m) \<Longrightarrow> mstep T s (goto t (if w then Wakes else Out) m s)"
| wake: "mc_pc s t = Wakes \<Longrightarrow> unlock_wake (mc_mutex s) = (Some u, m) \<Longrightarrow> mstep T s (goto u Owns m (goto t Out m s))"
| wake_none: "mc_pc s t = Wakes \<Longrightarrow> unlock_wake (mc_mutex s) = (None, m) \<Longrightarrow> mstep T s (goto t Out m s)"

inductive_cases mstepE: "mstep T s s'"

definition mstart :: mconf where
  "mstart = \<lparr>mc_mutex = mutex_init, mc_pc = (\<lambda>_. Out)\<rparr>"

subsection \<open>The invariant\<close>

text \<open>Threads that the counter counts, and those that have the right to the mutex.\<close>

definition counted :: "mconf \<Rightarrow> thread_ref set" where
  "counted s = {t. mc_pc s t \<in> {Waits, Asleep, Owns, Holds, Leaves}}"

definition entitled :: "mconf \<Rightarrow> thread_ref \<Rightarrow> bool" where
  "entitled s t \<longleftrightarrow> mc_pc s t \<in> {Owns, Holds, Leaves, Wakes}"

definition waiting :: "mconf \<Rightarrow> thread_ref \<Rightarrow> bool" where
  "waiting s t \<longleftrightarrow> mc_pc s t \<in> {Waits, Asleep}"

definition mutex_inv :: "thread_ref set \<Rightarrow> mconf \<Rightarrow> bool" where
  "mutex_inv T s \<longleftrightarrow> counted s \<subseteq> T \<and> unat (mtx_count (mc_mutex s)) = card (counted s) \<and>
     (\<forall>t u. entitled s t \<longrightarrow> entitled s u \<longrightarrow> t = u) \<and> (\<forall>t. mtx_owner (mc_mutex s) = Some t \<longleftrightarrow> mc_pc s t = Holds) \<and>
     (\<forall>t. t \<in> set (mtx_waiters (mc_mutex s)) \<longleftrightarrow> mc_pc s t = Asleep) \<and> distinct (mtx_waiters (mc_mutex s)) \<and>
     (\<forall>t. mc_pc s t = Wakes \<longrightarrow> (\<exists>u. waiting s u)) \<and> (\<forall>t. mc_pc s t \<noteq> Fatal)"

lemma mutex_invD:
  assumes "mutex_inv T s"
  shows mi_counted: "counted s \<subseteq> T" and mi_count: "unat (mtx_count (mc_mutex s)) = card (counted s)"
    and mi_one: "entitled s t \<Longrightarrow> entitled s u \<Longrightarrow> t = u" and mi_owner: "mtx_owner (mc_mutex s) = Some t \<longleftrightarrow> mc_pc s t = Holds"
    and mi_waiters: "t \<in> set (mtx_waiters (mc_mutex s)) \<longleftrightarrow> mc_pc s t = Asleep" "distinct (mtx_waiters (mc_mutex s))"
    and mi_wakes: "mc_pc s t = Wakes \<Longrightarrow> \<exists>u. waiting s u" and mi_fatal: "mc_pc s t \<noteq> Fatal"
  using assms by (auto simp: mutex_inv_def)

lemma goto_sel [simp]:
  "mc_mutex (goto t p m s) = m" "mc_pc (goto t p m s) u = (if u = t then p else mc_pc s u)"
  by (simp_all add: goto_def)

lemma counted_goto:
  "counted (goto t p m s) = (if p \<in> {Waits, Asleep, Owns, Holds, Leaves} then insert t (counted s) else counted s - {t})"
  by (auto simp: counted_def goto_def)

lemma waiting_goto:
  assumes "\<exists>v. waiting s v" "\<not> waiting s t"
  shows "\<exists>v. waiting (goto t p m s) v"
proof -
  obtain v where "waiting s v" "v \<noteq> t" using assms by blast
  then show ?thesis by (intro exI [of _ v]) (simp add: waiting_def)
qed

lemma wakes_goto:
  assumes inv: "mutex_inv T s" and "s' = goto t p m s" "\<not> waiting s t" "p \<noteq> Wakes" "mc_pc s' u = Wakes"
  shows "\<exists>v. waiting s' v"
proof -
  have "mc_pc s u = Wakes" using assms(2,4,5) by (simp split: if_splits)
  from mi_wakes [OF inv this] assms(2,3) show ?thesis by (simp add: waiting_goto)
qed

lemma no_owner_unless_holds: "mutex_inv T s \<Longrightarrow> (\<forall>t. mc_pc s t \<noteq> Holds) \<Longrightarrow> mtx_owner (mc_mutex s) = None"
  using mi_owner by (cases "mtx_owner (mc_mutex s)") blast+

text \<open>The entitled thread becomes the owner or stops being it.\<close>

lemma owner_change_inv:
  assumes inv: "mutex_inv T s" and s': "s' = goto t p ((mc_mutex s)\<lparr>mtx_owner := if p = Holds then Some t else None\<rparr>) s"
    and p: "mc_pc s t \<in> {Owns, Holds}" "p \<in> {Holds, Leaves}"
  shows "mutex_inv T s'"
proof -
  have t: "t \<in> counted s" "entitled s t" "\<not> waiting s t" using p(1) by (auto simp: counted_def entitled_def waiting_def)
  have nh: "mc_pc s u \<noteq> Holds" if "u \<noteq> t" for u using mi_one [OF inv t(2), of u] that by (auto simp: entitled_def)
  have c: "counted s' = counted s" using p(2) t(1) by (simp add: s' counted_goto insert_absorb)
  show ?thesis
    unfolding mutex_inv_def
  proof (intro conjI allI impI)
    show "counted s' \<subseteq> T" "unat (mtx_count (mc_mutex s')) = card (counted s')" using c mi_counted [OF inv] mi_count [OF inv] by (simp_all add: s')
    have ent: "v = t" if "entitled s' v" for v
    proof (rule ccontr)
      assume "v \<noteq> t"
      then have "entitled s v" using that by (simp add: s' entitled_def)
      then show False using mi_one [OF inv t(2), of v] \<open>v \<noteq> t\<close> by simp
    qed
    show "t' = u" if "entitled s' t'" "entitled s' u" for t' u using ent [OF that(1)] ent [OF that(2)] by simp
    show "mtx_owner (mc_mutex s') = Some u \<longleftrightarrow> mc_pc s' u = Holds" for u using nh p(2) by (auto simp: s')
    show "u \<in> set (mtx_waiters (mc_mutex s')) \<longleftrightarrow> mc_pc s' u = Asleep" for u using mi_waiters(1) [OF inv, of u] p by (auto simp: s')
    show "distinct (mtx_waiters (mc_mutex s'))" using mi_waiters(2) [OF inv] by (simp add: s')
    show "\<exists>v. waiting s' v" if "mc_pc s' u = Wakes" for u by (rule wakes_goto [OF inv s' t(3) _ that]) (use p(2) in auto)
    show "mc_pc s' u \<noteq> Fatal" for u using mi_fatal [OF inv, of u] p(2) by (auto simp: s')
  qed
qed

lemma mstep_inv:
  assumes st: "mstep T s s'" and inv: "mutex_inv T s" and T: "finite T" "card T < 2 ^ 32"
  shows "mutex_inv T s'"
  using st
proof cases
  case (add t w m)
  have nc: "t \<notin> counted s" using add by (simp add: counted_def)
  have c: "finite (counted s)" "card (insert t (counted s)) \<le> card T"
    using mi_counted [OF inv] T(1) add by (auto intro: finite_subset card_mono)
  have m: "m = (mc_mutex s)\<lparr>mtx_count := mtx_count (mc_mutex s) + 1\<rparr>" "w = (mtx_count (mc_mutex s) \<ge> 1)" using add by (auto simp: lock_add_def)
  have cnt: "unat (mtx_count (mc_mutex s) + 1) = card (insert t (counted s))"
    using mi_count [OF inv] c nc T(2) by (subst unat_add_nowrap) simp_all
  have e: "\<not> entitled s u" if "\<not> w" for u
  proof
    assume u: "entitled s u"
    have "\<not> 1 \<le> card (counted s)" using that m(2) mi_count [OF inv] by (simp add: word_le_nat_alt)
    then have "counted s = {}" using c(1) card_0_eq [of "counted s"] by linarith
    moreover have "counted s \<noteq> {}" using u mi_wakes [OF inv, of u] by (auto simp: entitled_def counted_def waiting_def)
    ultimately show False by simp
  qed
  show ?thesis
    unfolding mutex_inv_def
  proof (intro conjI allI impI)
    show "counted s' \<subseteq> T" using add mi_counted [OF inv] by (auto simp: counted_goto split: if_splits)
    show "unat (mtx_count (mc_mutex s')) = card (counted s')" using add m cnt by (simp add: counted_goto)
    show "t' = u" if "entitled s' t'" "entitled s' u" for t' u
      using that e mi_one [OF inv, of t' u] add(1,3) by (cases w) (auto simp: entitled_def split: if_splits)
    show "mtx_owner (mc_mutex s') = Some u \<longleftrightarrow> mc_pc s' u = Holds" for u using add m mi_owner [OF inv, of u] by auto
    show "u \<in> set (mtx_waiters (mc_mutex s')) \<longleftrightarrow> mc_pc s' u = Asleep" for u using add m mi_waiters(1) [OF inv, of u] by auto
    show "distinct (mtx_waiters (mc_mutex s'))" using add m mi_waiters(2) [OF inv] by simp
    show "\<exists>v. waiting s' v" if "mc_pc s' u = Wakes" for u
      by (rule wakes_goto [OF inv add(1) _ _ that]) (use add in \<open>auto simp: waiting_def\<close>)
    show "mc_pc s' u \<noteq> Fatal" for u using add mi_fatal [OF inv, of u] by simp
  qed
next
  case (await t)
  have t: "t \<in> counted s" using await by (simp add: counted_def)
  show ?thesis
    unfolding mutex_inv_def
  proof (intro conjI allI impI)
    show "\<exists>v. waiting s' v" if "mc_pc s' u = Wakes" for u using await by (intro exI [of _ t]) (simp add: waiting_def)
    show "t' = u" if "entitled s' t'" "entitled s' u" for t' u
      using that mi_one [OF inv, of t' u] await by (auto simp: entitled_def split: if_splits)
    have c: "counted s' = counted s" using await t by (simp add: counted_goto insert_absorb)
    show "counted s' \<subseteq> T" "unat (mtx_count (mc_mutex s')) = card (counted s')"
      using c await mi_counted [OF inv] mi_count [OF inv] by (simp_all add: lock_await_def)
    show "mtx_owner (mc_mutex s') = Some u \<longleftrightarrow> mc_pc s' u = Holds" for u using await mi_owner [OF inv, of u] by (auto simp: lock_await_def)
    show "u \<in> set (mtx_waiters (mc_mutex s')) \<longleftrightarrow> mc_pc s' u = Asleep" for u
      using await mi_waiters(1) [OF inv, of u] by (auto simp: lock_await_def)
    show "distinct (mtx_waiters (mc_mutex s'))" using await mi_waiters(1) [OF inv, of t] mi_waiters(2) [OF inv] by (simp add: lock_await_def)
    show "mc_pc s' u \<noteq> Fatal" for u using await mi_fatal [OF inv, of u] by simp
  qed
next
  case (own t m)
  then have "m = (mc_mutex s)\<lparr>mtx_owner := Some t\<rparr>" by (auto simp: lock_own_def split: Option.bind_splits)
  then show ?thesis using own by (intro owner_change_inv [OF inv, of _ t "Holds"]) simp_all
next
  case (own_fails t)
  have "entitled s t" using own_fails by (simp add: entitled_def)
  then have "mc_pc s u \<noteq> Holds" for u using mi_one [OF inv, of t u] own_fails by (auto simp: entitled_def)
  then have "mtx_owner (mc_mutex s) = None" using no_owner_unless_holds [OF inv] by blast
  then show ?thesis using own_fails by (simp add: lock_own_def)
next
  case (disown t m)
  then have "m = (mc_mutex s)\<lparr>mtx_owner := None\<rparr>" by (auto simp: unlock_disown_def split: Option.bind_splits)
  then show ?thesis using disown by (intro owner_change_inv [OF inv, of _ t "Leaves"]) simp_all
next
  case (disown_fails t)
  then show ?thesis using mi_owner [OF inv, of t] by (simp add: unlock_disown_def)
next
  case (sub t w m)
  have t: "t \<in> counted s" "entitled s t" using sub by (simp_all add: counted_def entitled_def)
  have fin: "finite (counted s)" using mi_counted [OF inv] T(1) by (rule finite_subset)
  have m: "m = (mc_mutex s)\<lparr>mtx_count := mtx_count (mc_mutex s) - 1\<rparr>" "w = (mtx_count (mc_mutex s) > 1)" using sub by (auto simp: unlock_sub_def)
  have pos: "0 < card (counted s)" using fin t by (auto simp: card_gt_0_iff)
  then have cnt: "unat (mtx_count (mc_mutex s) - 1) = card (counted s - {t})"
    using mi_count [OF inv] t(1) by (subst unat_sub_nowrap) (simp_all add: card_Diff_singleton)
  have wt: "\<exists>u. u \<noteq> t \<and> waiting s u" if w
  proof -
    have "1 < card (counted s)" using that m(2) mi_count [OF inv] by (simp add: word_less_nat_alt)
    then have "counted s - {t} \<noteq> {}" using fin t(1) by (metis card_Diff_singleton card.empty diff_is_0_eq not_le)
    then obtain u where "u \<in> counted s" "u \<noteq> t" by blast
    then show ?thesis using mi_one [OF inv t(2), of u] by (intro exI [of _ u]) (auto simp: counted_def entitled_def waiting_def)
  qed
  show ?thesis
    unfolding mutex_inv_def
  proof (intro conjI allI impI)
    show "unat (mtx_count (mc_mutex s')) = card (counted s')" using sub m cnt by (simp add: counted_goto)
    show "\<exists>v. waiting s' v" if "mc_pc s' u = Wakes" for u
    proof (cases "u = t")
      case True
      then show ?thesis using that wt sub by (auto simp: waiting_def split: if_splits)
    next
      case False
      then show ?thesis using that mi_one [OF inv t(2), of u] sub by (simp add: entitled_def)
    qed
    show "t' = u" if "entitled s' t'" "entitled s' u" for t' u
      using that mi_one [OF inv t(2)] sub by (auto simp: entitled_def split: if_splits)
    show "counted s' \<subseteq> T" using sub mi_counted [OF inv] by (auto simp: counted_goto)
    show "mtx_owner (mc_mutex s') = Some u \<longleftrightarrow> mc_pc s' u = Holds" for u using sub m mi_owner [OF inv, of u] by auto
    show "u \<in> set (mtx_waiters (mc_mutex s')) \<longleftrightarrow> mc_pc s' u = Asleep" for u using sub m mi_waiters(1) [OF inv, of u] by auto
    show "distinct (mtx_waiters (mc_mutex s'))" using sub m mi_waiters(2) [OF inv] by simp
    show "mc_pc s' u \<noteq> Fatal" for u using sub mi_fatal [OF inv, of u] by simp
  qed
next
  case (wake t u m)
  obtain rest where w: "mtx_waiters (mc_mutex s) = u # rest" and m: "m = (mc_mutex s)\<lparr>mtx_waiters := rest\<rparr>"
    using wake by (cases "mtx_waiters (mc_mutex s)") (auto simp: unlock_wake_def)
  have u: "mc_pc s u = Asleep" "u \<notin> set rest" "u \<noteq> t" using mi_waiters(1) [OF inv, of u] mi_waiters(2) [OF inv] w wake by auto
  have t: "entitled s t" "t \<notin> counted s" using wake by (simp_all add: entitled_def counted_def)
  have uc: "u \<in> counted s" using u by (simp add: counted_def)
  show ?thesis
    unfolding mutex_inv_def
  proof (intro conjI allI impI)
    have c: "counted s' = counted s" using wake t(2) uc by (auto simp: counted_goto)
    show "counted s' \<subseteq> T" "unat (mtx_count (mc_mutex s')) = card (counted s')" using c wake m mi_counted [OF inv] mi_count [OF inv] by simp_all
    show "t' = v" if "entitled s' t'" "entitled s' v" for t' v
      using that mi_one [OF inv t(1)] wake u(3) by (auto simp: entitled_def split: if_splits)
    show "\<exists>v. waiting s' v" if "mc_pc s' v = Wakes" for v
      using that mi_one [OF inv t(1), of v] wake by (auto simp: entitled_def split: if_splits)
    show "v \<in> set (mtx_waiters (mc_mutex s')) \<longleftrightarrow> mc_pc s' v = Asleep" for v
      using mi_waiters(1) [OF inv, of v] wake m w u by auto
    show "mtx_owner (mc_mutex s') = Some v \<longleftrightarrow> mc_pc s' v = Holds" for v using wake m u(1) mi_owner [OF inv, of v] by auto
    show "distinct (mtx_waiters (mc_mutex s'))" using wake m w mi_waiters(2) [OF inv] by simp
    show "mc_pc s' v \<noteq> Fatal" for v using wake mi_fatal [OF inv, of v] by simp
  qed
next
  case (wake_none t m)
  have m: "m = mc_mutex s" using wake_none by (cases "mtx_waiters (mc_mutex s)") (auto simp: unlock_wake_def)
  have t: "entitled s t" "t \<notin> counted s" using wake_none by (simp_all add: entitled_def counted_def)
  show ?thesis
    unfolding mutex_inv_def
  proof (intro conjI allI impI)
    show "t' = v" if "entitled s' t'" "entitled s' v" for t' v
      using that mi_one [OF inv t(1)] wake_none by (auto simp: entitled_def split: if_splits)
    show "\<exists>v. waiting s' v" if "mc_pc s' v = Wakes" for v
      using that mi_one [OF inv t(1), of v] wake_none by (auto simp: entitled_def split: if_splits)
    have c: "counted s' = counted s" using wake_none t(2) by (simp add: counted_goto)
    show "counted s' \<subseteq> T" "unat (mtx_count (mc_mutex s')) = card (counted s')" using c wake_none m mi_counted [OF inv] mi_count [OF inv] by simp_all
    show "mtx_owner (mc_mutex s') = Some v \<longleftrightarrow> mc_pc s' v = Holds" for v using wake_none m mi_owner [OF inv, of v] by auto
    show "v \<in> set (mtx_waiters (mc_mutex s')) \<longleftrightarrow> mc_pc s' v = Asleep" for v using wake_none m mi_waiters(1) [OF inv, of v] by auto
    show "distinct (mtx_waiters (mc_mutex s'))" using wake_none m mi_waiters(2) [OF inv] by simp
    show "mc_pc s' v \<noteq> Fatal" for v using wake_none mi_fatal [OF inv, of v] by simp
  qed
qed

lemma mstart_inv: "mutex_inv T mstart"
  by (simp add: mutex_inv_def mstart_def mutex_init_def counted_def entitled_def)

lemma msteps_inv:
  assumes "rtranclp (mstep T) s s'" "mutex_inv T s" "finite T" "card T < 2 ^ 32"
  shows "mutex_inv T s'"
  using assms by (induction rule: rtranclp_induct) (auto intro: mstep_inv)

subsection \<open>What holds and what does not\<close>

text \<open>(C19) However the atomic operations of mutex_lock and mutex_unlock of fewer than 2^32
  threads interleave, at most one thread holds the mutex, the owner field names exactly that
  thread, and the assertions on the owner never fail.\<close>

theorem mutual_exclusion:
  assumes "finite T" and "card T < 2 ^ 32" and "rtranclp (mstep T) mstart s"
  shows "(\<forall>t u. mc_pc s t = Holds \<longrightarrow> mc_pc s u = Holds \<longrightarrow> t = u) \<and> (\<forall>t. mc_pc s t \<noteq> Fatal) \<and>
    (\<forall>t. mtx_owner (mc_mutex s) = Some t \<longleftrightarrow> mc_pc s t = Holds)"
proof -
  note inv = msteps_inv [OF assms(3) mstart_inv assms(1,2)]
  have "t = u" if "mc_pc s t = Holds" "mc_pc s u = Holds" for t u using mi_one [OF inv, of t u] that by (simp add: entitled_def)
  then show ?thesis using mi_fatal [OF inv] mi_owner [OF inv] by blast
qed

text \<open>When somebody waits and nobody is entitled to the mutex, it stays that way.\<close>

definition dead :: "thread_ref set \<Rightarrow> mconf \<Rightarrow> bool" where
  "dead T s \<longleftrightarrow> mutex_inv T s \<and> (\<forall>t. \<not> entitled s t) \<and> (\<exists>u. waiting s u)"

lemma dead_step:
  assumes "mstep T s s'" "dead T s" "finite T" "card T < 2 ^ 32"
  shows "dead T s'"
proof -
  have inv: "mutex_inv T s" and ne: "\<And>t. \<not> entitled s t" and w: "\<exists>u. waiting s u" using assms(2) by (simp_all add: dead_def)
  have "counted s \<noteq> {}" using w by (auto simp: waiting_def counted_def)
  moreover have "finite (counted s)" using mi_counted [OF inv] assms(3) by (rule finite_subset)
  ultimately have c: "mtx_count (mc_mutex s) \<ge> 1" using mi_count [OF inv] by (simp add: word_le_nat_alt card_gt_0_iff Suc_le_eq)
  have "(\<forall>t. \<not> entitled s' t) \<and> (\<exists>u. waiting s' u)"
    using assms(1)
  proof cases
    case (add t wt m)
    then have "wt" using c by (simp add: lock_add_def)
    then show ?thesis using add ne w by (auto simp: entitled_def waiting_def)
  next
    case (await t)
    then show ?thesis using ne by (auto simp: entitled_def waiting_def)
  qed (use ne in \<open>auto simp: entitled_def\<close>)
  then show ?thesis using mstep_inv [OF assms(1) inv assms(3,4)] by (simp add: dead_def)
qed

lemma dead_forever:
  assumes "rtranclp (mstep T) s s'" "dead T s" "finite T" "card T < 2 ^ 32"
  shows "dead T s'"
  using assms by (induction rule: rtranclp_induct) (auto intro: dead_step)

text \<open>
  Thread 1 holds the mutex; thread 2 counts itself in, but is not in the wait queue yet when
  thread 1 unlocks. The wake-up finds no waiter, thread 2 goes to sleep, and no thread ever gets the
  mutex again although nobody owns it.
\<close>

text \<open>(C20) A wake-up can be lost: when the owner unlocks between a thread counting itself
  in and that thread entering the wait queue, a state is reached in which nobody owns the mutex,
  the thread sleeps, and no thread ever holds the mutex again.\<close>

theorem lost_wakeup:
  assumes T: "finite T" "card T < 2 ^ 32" "t \<in> T" "u \<in> T" "t \<noteq> u"
  shows "\<exists>s. rtranclp (mstep T) mstart s \<and> mtx_owner (mc_mutex s) = None \<and> mc_pc s u = Asleep \<and>
    (\<forall>s'. rtranclp (mstep T) s s' \<longrightarrow> (\<forall>v. mc_pc s' v \<noteq> Holds) \<and> waiting s' u)"
proof -
  let ?m = "\<lambda>x w n. \<lparr>mtx_owner = x, mtx_waiters = w, mtx_count = n\<rparr> :: mutex"
  have nt: "u \<noteq> t" using T(5) by simp
  define s where "s = (\<lambda>i. goto t ([Out, Owns, Holds, Holds, Leaves, Wakes, Out, Out] ! i)
    ([?m None [] 0, ?m None [] 1, ?m (Some t) [] 1, ?m (Some t) [] 2, ?m None [] 2, ?m None [] 1, ?m None [] 1, ?m None [u] 1] ! i)
    (goto u ([Out, Out, Out, Waits, Waits, Waits, Waits, Asleep] ! i) mutex_init mstart))"
  have eq: "s (Suc i) = goto x p m (s i)" if "mc_mutex (s (Suc i)) = m" "mc_pc (s (Suc i)) = (mc_pc (s i))(x := p)" for i x p m
    using that by (simp add: s_def goto_def mstart_def)
  have st: "mstep T (s 0) (s 1)" "mstep T (s 1) (s 2)" "mstep T (s 2) (s 3)" "mstep T (s 3) (s 4)" "mstep T (s 4) (s 5)" "mstep T (s 5) (s 6)" "mstep T (s 6) (s 7)"
  proof -
    have pcs: "mc_pc (s i) t = [Out, Owns, Holds, Holds, Leaves, Wakes, Out, Out] ! i" "mc_pc (s i) u = [Out, Out, Out, Waits, Waits, Waits, Waits, Asleep] ! i"
      "mc_mutex (s i) = [?m None [] 0, ?m None [] 1, ?m (Some t) [] 1, ?m (Some t) [] 2, ?m None [] 2, ?m None [] 1, ?m None [] 1, ?m None [u] 1] ! i" for i
      using nt by (simp_all add: s_def)
    have "s 1 = goto t (if False then Waits else Owns) (?m None [] 1) (s 0)" by (simp add: s_def goto_def fun_upd_twist [OF nt])
    moreover have "lock_add (mc_mutex (s 0)) = (False, ?m None [] 1)" by (simp add: pcs lock_add_def)
    ultimately show "mstep T (s 0) (s 1)" using mstep.add [of t T "s 0" False "?m None [] 1"] T(3) pcs(1) [of 0] by simp
    have "s 2 = goto t Holds (?m (Some t) [] 1) (s 1)" by (simp add: s_def goto_def)
    then show "mstep T (s 1) (s 2)" using mstep.own [of "s 1" t "?m (Some t) [] 1" T] pcs(1,3) [of 1] by (simp add: lock_own_def)
    have "s 3 = goto u (if True then Waits else Owns) (?m (Some t) [] 2) (s 2)" by (simp add: s_def goto_def fun_upd_twist [OF nt])
    moreover have "lock_add (mc_mutex (s 2)) = (True, ?m (Some t) [] 2)" by (simp add: pcs lock_add_def)
    ultimately show "mstep T (s 2) (s 3)" using mstep.add [of u T "s 2" True "?m (Some t) [] 2"] T(4) pcs(2) [of 2] by simp
    have "s 4 = goto t Leaves (?m None [] 2) (s 3)" by (simp add: s_def goto_def)
    then show "mstep T (s 3) (s 4)" using mstep.disown [of "s 3" t "?m None [] 2" T] pcs(1,3) [of 3] by (simp add: unlock_disown_def)
    have "s 5 = goto t (if True then Wakes else Out) (?m None [] 1) (s 4)" by (simp add: s_def goto_def)
    moreover have "unlock_sub (mc_mutex (s 4)) = (True, ?m None [] 1)" by (simp add: pcs unlock_sub_def)
    ultimately show "mstep T (s 4) (s 5)" using mstep.sub [of "s 4" t True "?m None [] 1" T] pcs(1) [of 4] by simp
    have "s 6 = goto t Out (?m None [] 1) (s 5)" by (simp add: s_def goto_def)
    moreover have "unlock_wake (mc_mutex (s 5)) = (None, ?m None [] 1)" by (simp add: pcs unlock_wake_def)
    ultimately show "mstep T (s 5) (s 6)" using mstep.wake_none [of "s 5" t "?m None [] 1" T] pcs(1) [of 5] by simp
    have "s 7 = goto u Asleep (lock_await u (mc_mutex (s 6))) (s 6)" by (simp add: s_def goto_def lock_await_def fun_upd_twist [OF nt])
    then show "mstep T (s 6) (s 7)" using mstep.await [of "s 6" u T] pcs(2) [of 6] by simp
  qed
  have s0: "s 0 = mstart" by (auto simp: s_def goto_def mstart_def mutex_init_def fun_eq_iff)
  have reach: "rtranclp (mstep T) mstart (s 7)" using st unfolding s0 by (meson converse_rtranclp_into_rtranclp r_into_rtranclp)
  have dd: "dead T (s 7)" using msteps_inv [OF reach mstart_inv T(1,2)] nt
    by (auto simp: dead_def s_def entitled_def waiting_def mstart_def)
  have keep: "dead T s' \<and> mc_pc s' u \<in> {Waits, Asleep}" if "rtranclp (mstep T) (s 7) s'" for s'
    using that
  proof (induction rule: rtranclp_induct)
    case base
    then show ?case using dd nt by (simp add: s_def)
  next
    case (step y z)
    have ne: "\<not> entitled y v" for v using step.IH by (simp add: dead_def)
    have "mc_pc z u \<in> {Waits, Asleep}" using step.hyps(2)
      by cases (use step.IH ne in \<open>auto simp: entitled_def split: if_splits\<close>)
    then show ?case using dead_step [OF step.hyps(2) _ T(1,2)] step.IH by blast
  qed
  have "mc_pc (s 7) u = Asleep" "mtx_owner (mc_mutex (s 7)) = None" using nt by (simp_all add: s_def)
  moreover have "(\<forall>v. mc_pc s' v \<noteq> Holds) \<and> waiting s' u" if "rtranclp (mstep T) (s 7) s'" for s'
    using keep [OF that] by (auto simp: dead_def entitled_def waiting_def)
  ultimately show ?thesis using reach by (intro exI [of _ "s 7"]) blast
qed

text \<open>A waiter that is in the queue in time gets the mutex: the first of them, in the order of arrival.\<close>

text \<open>(C21) A thread that is in the wait queue when the owner unlocks can go on to hold the
  mutex: unlocking wakes the first waiter, which becomes the owner, and leaves the others queued
  in order.\<close>

theorem mutex_handover:
  assumes T: "finite T" "card T < 2 ^ 32" and r: "rtranclp (mstep T) mstart s" and t: "mc_pc s t = Holds" and w: "mtx_waiters (mc_mutex s) = u # rest"
  shows "\<exists>s'. rtranclp (mstep T) s s' \<and> mc_pc s' u = Holds \<and> mc_pc s' t = Out \<and> mtx_owner (mc_mutex s') = Some u \<and> mtx_waiters (mc_mutex s') = rest"
proof -
  note inv = msteps_inv [OF r mstart_inv T]
  have u: "mc_pc s u = Asleep" "u \<noteq> t" using mi_waiters(1) [OF inv, of u] w t by auto
  have own: "mtx_owner (mc_mutex s) = Some t" using mi_owner [OF inv, of t] t by simp
  have "{t, u} \<subseteq> counted s" "finite (counted s)" using t u mi_counted [OF inv] T(1) by (auto simp: counted_def intro: finite_subset)
  then have "card {t, u} \<le> card (counted s)" by (rule card_mono [rotated])
  then have c: "mtx_count (mc_mutex s) > 1" using mi_count [OF inv] u(2) by (simp add: word_less_nat_alt)
  define s1 where "s1 = goto t Leaves ((mc_mutex s)\<lparr>mtx_owner := None\<rparr>) s"
  define s2 where "s2 = goto t (if True then Wakes else Out) ((mc_mutex s1)\<lparr>mtx_count := mtx_count (mc_mutex s1) - 1\<rparr>) s1"
  define s3 where "s3 = goto u Owns ((mc_mutex s2)\<lparr>mtx_waiters := rest\<rparr>) (goto t Out ((mc_mutex s2)\<lparr>mtx_waiters := rest\<rparr>) s2)"
  define s4 where "s4 = goto u Holds ((mc_mutex s3)\<lparr>mtx_owner := Some u\<rparr>) s3"
  have "mstep T s s1" unfolding s1_def by (rule mstep.disown [OF t]) (simp add: unlock_disown_def own)
  moreover have "mstep T s1 s2" unfolding s2_def by (rule mstep.sub) (use c in \<open>simp_all add: s1_def unlock_sub_def\<close>)
  moreover have "mstep T s2 s3" unfolding s3_def by (rule mstep.wake) (use w in \<open>simp_all add: s2_def s1_def unlock_wake_def\<close>)
  moreover have "mstep T s3 s4" unfolding s4_def by (rule mstep.own) (simp_all add: s3_def s2_def s1_def lock_own_def)
  ultimately have "rtranclp (mstep T) s s4" by (meson converse_rtranclp_into_rtranclp r_into_rtranclp)
  then show ?thesis using u(2) by (intro exI [of _ s4]) (simp add: s4_def s3_def)
qed

subsection \<open>Witnesses\<close>

definition locked_by_1 :: mconf where
  "locked_by_1 = goto 1 Holds \<lparr>mtx_owner = Some 1, mtx_waiters = [], mtx_count = 1\<rparr> (goto 1 Owns \<lparr>mtx_owner = None, mtx_waiters = [], mtx_count = 1\<rparr> mstart)"

definition waited_by_2 :: mconf where
  "waited_by_2 = goto 2 Asleep \<lparr>mtx_owner = Some 1, mtx_waiters = [2], mtx_count = 2\<rparr>
     (goto 2 Waits \<lparr>mtx_owner = Some 1, mtx_waiters = [], mtx_count = 2\<rparr> locked_by_1)"

lemma reach_locked: "rtranclp (mstep {1, 2}) mstart locked_by_1"
proof -
  let ?m = "\<lparr>mtx_owner = None, mtx_waiters = [], mtx_count = 1\<rparr> :: mutex"
  have "mstep {1, 2} mstart (goto 1 (if False then Waits else Owns) ?m mstart)"
    by (rule mstep.add) (simp_all add: mstart_def mutex_init_def lock_add_def)
  moreover have "mstep {1, 2} (goto 1 Owns ?m mstart) locked_by_1"
    unfolding locked_by_1_def by (rule mstep.own) (simp_all add: lock_own_def)
  ultimately show ?thesis by simp
qed

lemma reach_waited: "rtranclp (mstep {1, 2}) mstart waited_by_2"
proof -
  let ?m = "\<lparr>mtx_owner = Some 1, mtx_waiters = [], mtx_count = 2\<rparr> :: mutex"
  have "mstep {1, 2} locked_by_1 (goto 2 (if True then Waits else Owns) ?m locked_by_1)"
    by (rule mstep.add) (simp_all add: locked_by_1_def mstart_def lock_add_def)
  moreover have "waited_by_2 = goto 2 Asleep (lock_await 2 ?m) (goto 2 Waits ?m locked_by_1)" by (simp add: waited_by_2_def lock_await_def)
  then have "mstep {1, 2} (goto 2 Waits ?m locked_by_1) waited_by_2" using mstep.await [of "goto 2 Waits ?m locked_by_1" 2 "{1, 2}"] by simp
  ultimately show ?thesis using reach_locked by (simp add: rtranclp.rtrancl_into_rtrancl)
qed

theorem mutual_exclusion_witness: "mtx_owner (mc_mutex locked_by_1) = Some 1 \<and> {u. mc_pc locked_by_1 u = Holds} = {1}"
proof -
  have "finite {1, 2 :: thread_ref}" "card {1, 2 :: thread_ref} < 2 ^ 32" by simp_all
  note M = mutual_exclusion [OF this reach_locked]
  have h: "mc_pc locked_by_1 1 = Holds" by (simp add: locked_by_1_def)
  have "mtx_owner (mc_mutex locked_by_1) = Some 1" using M [THEN conjunct2, THEN conjunct2, rule_format, of 1] h by simp
  moreover have "u = 1" if "mc_pc locked_by_1 u = Holds" for u by (rule M [THEN conjunct1, rule_format, OF that h])
  ultimately show ?thesis using h by blast
qed

theorem lost_wakeup_witness: "\<exists>s. rtranclp (mstep {1, 2}) mstart s \<and> mtx_owner (mc_mutex s) = None \<and> mc_pc s 2 = Asleep"
proof -
  have "finite {1, 2 :: thread_ref}" "card {1, 2 :: thread_ref} < 2 ^ 32" "1 \<in> {1, 2 :: thread_ref}" "2 \<in> {1, 2 :: thread_ref}" "1 \<noteq> (2 :: thread_ref)" by simp_all
  from lost_wakeup [OF this] show ?thesis by blast
qed

theorem mutex_handover_witness: "\<exists>s'. rtranclp (mstep {1, 2}) waited_by_2 s' \<and> mc_pc s' 2 = Holds"
proof -
  have "finite {1, 2 :: thread_ref}" "card {1, 2 :: thread_ref} < 2 ^ 32" by simp_all
  from mutex_handover [OF this reach_waited, of 1 2 "[]"] show ?thesis by (auto simp: waited_by_2_def locked_by_1_def)
qed

end
