(* ===== verification/Fs.thy ===== *)
theory Fs
  imports Prelude
begin

text \<open>
  The virtual file system and the memory file system: \<^verbatim>\<open>posix/vfs.c\<close>, \<^verbatim>\<open>posix/vfs.h\<close>, \<^verbatim>\<open>tmpfs/tmpfs.c\<close>,
  \<^verbatim>\<open>tmpfs/tmp_vfsops.c\<close> and the device nodes of \<^verbatim>\<open>dev/dev.c\<close>. Nodes, vnodes and file systems are kept
  in stores by address; an object fresh from the heap keeps what was in its memory until the code
  writes to it. \<open>None\<close> is a failed assertion, a call through a null pointer or a read outside an array.

  The kernel heap and the virtual memory that holds the contents of files are parameters (\<open>fs_env\<close>).
  A file's contents are the bytes of its memory object, by offset; the code reaches them through a
  mapping in the kernel map that it makes and removes around a \<^verbatim>\<open>memcpy\<close>. The reference that
  \<^verbatim>\<open>tmakenode\<close> adds to a new memory object is counted in the environment. The two members of the union
  in \<^verbatim>\<open>tmpnode\<close> are separate fields; each is used for its own type of node only.
\<close>

subsection \<open>Data\<close>

type_synonym tn_ref = u64
type_synonym vn_ref = u64
type_synonym vfs_ref = u64
type_synonym obj_ref = u64
type_synonym dev_t = u64

datatype vtype = VNON | VREG | VDIR | VCHR

record vattr =
  va_type :: vtype
  va_mode :: u32
  va_size :: u64
  va_rdev :: dev_t

datatype vnops = tmpfs_vnops | tmpfs_spec_vnops

text \<open>A null \<^verbatim>\<open>vfsmountedhere\<close> is 0, as is a null \<^verbatim>\<open>vn\<close> or \<^verbatim>\<open>parent\<close> of a node.\<close>

record vnode =
  vn_refcnt :: u64
  vn_isroot :: bool
  vn_type :: vtype
  vn_vmobj :: obj_ref
  vn_data :: tn_ref
  vn_vfsp :: vfs_ref
  vn_vfsmountedhere :: vfs_ref
  vn_ops :: vnops
  vn_specdev :: nat

record vfs =
  vfs_vnodecovered :: vn_ref
  vfs_data :: vn_ref

record tmpdirent =
  td_name :: string
  td_node :: tn_ref

record tmpnode =
  tn_vn :: vn_ref
  tn_attr :: vattr
  tn_entries :: "tmpdirent list"
  tn_parent :: tn_ref
  tn_vmobj :: obj_ref

record specdev =
  sd_dev :: dev_t
  sd_vnodes :: "vn_ref list"

text \<open>The functions of a character device driver are known by the driver's number.\<close>

record cdevsw =
  cd_valid :: bool
  cd_is_tty :: bool
  cd_private :: u64
  cd_driver :: nat

record 'k fs =
  fs_node :: "tn_ref \<Rightarrow> tmpnode"
  fs_vnode :: "vn_ref \<Rightarrow> vnode"
  fs_vfs :: "vfs_ref \<Rightarrow> vfs"
  fs_specdevs :: "nat list"
  fs_specdev :: "nat \<Rightarrow> specdev"
  fs_cdevsw :: "cdevsw list"
  fs_file :: "obj_ref \<Rightarrow> u64 \<Rightarrow> u8"
  fs_root_vnode :: vn_ref
  fs_dev_vnode :: vn_ref
  fs_heap :: 'k

text \<open>
  What the file system asks of the heap and of the virtual memory: structures of the three kinds,
  memory objects (\<^verbatim>\<open>vm_aobj_new\<close>), and a mapping of the first bytes of an object in the kernel map.
  A failed mapping fails the assertion around it.
\<close>

record 'k fs_env =
  fe_node :: "'k \<Rightarrow> (tn_ref \<times> 'k) option"
  fe_vnode :: "'k \<Rightarrow> (vn_ref \<times> 'k) option"
  fe_specdev :: "'k \<Rightarrow> (nat \<times> 'k) option"
  fe_dirent :: "string \<Rightarrow> 'k \<Rightarrow> 'k option"
  fe_aobj :: "u64 \<Rightarrow> 'k \<Rightarrow> (obj_ref \<times> 'k) option"
  fe_map :: "obj_ref \<Rightarrow> u64 \<Rightarrow> 'k \<Rightarrow> (u64 \<times> 'k) option"
  fe_unmap :: "u64 \<Rightarrow> u64 \<Rightarrow> 'k \<Rightarrow> 'k option"
  fe_cdev_open :: "nat \<Rightarrow> dev_t \<Rightarrow> u32 \<Rightarrow> 'k \<Rightarrow> (int \<times> 'k) option"
  fe_cdev_read :: "nat \<Rightarrow> dev_t \<Rightarrow> u64 \<Rightarrow> u64 \<Rightarrow> 'k \<Rightarrow> ((int \<times> u8 list) \<times> 'k) option"
  fe_cdev_write :: "nat \<Rightarrow> dev_t \<Rightarrow> u8 list \<Rightarrow> u64 \<Rightarrow> 'k \<Rightarrow> (int \<times> 'k) option"

definition ENOENT :: int where "ENOENT = 2"
definition EINVAL :: int where "EINVAL = 22"

definition set_node :: "tn_ref \<Rightarrow> (tmpnode \<Rightarrow> tmpnode) \<Rightarrow> 'k fs \<Rightarrow> 'k fs" where
  "set_node n f s = s\<lparr>fs_node := (fs_node s)(n := f (fs_node s n))\<rparr>"

definition set_vnode :: "vn_ref \<Rightarrow> (vnode \<Rightarrow> vnode) \<Rightarrow> 'k fs \<Rightarrow> 'k fs" where
  "set_vnode v f s = s\<lparr>fs_vnode := (fs_vnode s)(v := f (fs_vnode s v))\<rparr>"

lemmas fs_set_defs = set_node_def set_vnode_def

subsection \<open>Device nodes\<close>

text \<open>The first free slot of 64, or -1.\<close>

definition cdevsw_attach :: "cdevsw \<Rightarrow> 'k fs \<Rightarrow> int \<times> 'k fs" where
  "cdevsw_attach bindings s = (case find (\<lambda>i. \<not> cd_valid (fs_cdevsw s ! i)) [0..<64] of
     None \<Rightarrow> (- 1, s)
   | Some i \<Rightarrow> (int i, s\<lparr>fs_cdevsw := (fs_cdevsw s)[i := bindings\<lparr>cd_valid := True\<rparr>]\<rparr>))"

definition spec_setup_vnode :: "'k fs_env \<Rightarrow> vn_ref \<Rightarrow> dev_t \<Rightarrow> 'k fs \<Rightarrow> 'k fs option" where
  "spec_setup_vnode e vn dev s = do {
     (sd, s1) \<leftarrow> (case find (\<lambda>sd. sd_dev (fs_specdev s sd) = dev) (fs_specdevs s) of
         Some sd \<Rightarrow> Some (sd, s)
       | None \<Rightarrow> do {
           (sd, k) \<leftarrow> fe_specdev e (fs_heap s);
           Some (sd, s\<lparr>fs_heap := k, fs_specdev := (fs_specdev s)(sd := \<lparr>sd_dev = dev, sd_vnodes = []\<rparr>), fs_specdevs := sd # fs_specdevs s\<rparr>)
         });
     let s2 = set_vnode vn (\<lambda>v. v\<lparr>vn_specdev := sd\<rparr>) s1;
     Some (s2\<lparr>fs_specdev := (fs_specdev s2)(sd := (fs_specdev s2 sd)\<lparr>sd_vnodes := vn # sd_vnodes (fs_specdev s2 sd)\<rparr>)\<rparr>)
   }"

text \<open>\<^verbatim>\<open>major()\<close> of the C library is a parameter.\<close>

definition driver_of :: "(dev_t \<Rightarrow> nat) \<Rightarrow> vn_ref \<Rightarrow> 'k fs \<Rightarrow> (nat \<times> dev_t) option" where
  "driver_of major vn s = do {
     let dev = sd_dev (fs_specdev s (vn_specdev (fs_vnode s vn)));
     kassert (major dev < 64);
     Some (cd_driver (fs_cdevsw s ! major dev), dev)
   }"

definition spec_open :: "'k fs_env \<Rightarrow> (dev_t \<Rightarrow> nat) \<Rightarrow> vn_ref \<Rightarrow> u32 \<Rightarrow> 'k fs \<Rightarrow> (int \<times> 'k fs) option" where
  "spec_open e major vn mode s = do {
     (d, dev) \<leftarrow> driver_of major vn s;
     (r, k) \<leftarrow> fe_cdev_open e d dev mode (fs_heap s);
     Some (r, s\<lparr>fs_heap := k\<rparr>)
   }"

definition spec_read :: "'k fs_env \<Rightarrow> (dev_t \<Rightarrow> nat) \<Rightarrow> vn_ref \<Rightarrow> u64 \<Rightarrow> u64 \<Rightarrow> 'k fs \<Rightarrow> ((int \<times> u8 list) \<times> 'k fs) option" where
  "spec_read e major vn nbyte off s = do {
     (d, dev) \<leftarrow> driver_of major vn s;
     (r, k) \<leftarrow> fe_cdev_read e d dev nbyte off (fs_heap s);
     Some (r, s\<lparr>fs_heap := k\<rparr>)
   }"

definition spec_write :: "'k fs_env \<Rightarrow> (dev_t \<Rightarrow> nat) \<Rightarrow> vn_ref \<Rightarrow> u8 list \<Rightarrow> u64 \<Rightarrow> 'k fs \<Rightarrow> (int \<times> 'k fs) option" where
  "spec_write e major vn buf off s = do {
     (d, dev) \<leftarrow> driver_of major vn s;
     (r, k) \<leftarrow> fe_cdev_write e d dev buf off (fs_heap s);
     Some (r, s\<lparr>fs_heap := k\<rparr>)
   }"

subsection \<open>The memory file system\<close>

definition tmpfs_vget :: "'k fs_env \<Rightarrow> vfs_ref \<Rightarrow> tn_ref \<Rightarrow> 'k fs \<Rightarrow> (vn_ref \<times> 'k fs) option" where
  "tmpfs_vget e vfsp ino s =
     (if tn_vn (fs_node s ino) \<noteq> 0 then
        Some (tn_vn (fs_node s ino), set_vnode (tn_vn (fs_node s ino)) (\<lambda>v. v\<lparr>vn_refcnt := vn_refcnt v + 1\<rparr>) s)
      else do {
        (vn, k) \<leftarrow> fe_vnode e (fs_heap s);
        let s1 = set_node ino (\<lambda>n. n\<lparr>tn_vn := vn\<rparr>) (s\<lparr>fs_heap := k\<rparr>);
        let ty = va_type (tn_attr (fs_node s1 ino));
        let s2 = set_vnode vn (\<lambda>v. v\<lparr>vn_refcnt := 1, vn_type := ty, vn_ops := (if ty = VCHR then tmpfs_spec_vnops else tmpfs_vnops),
          vn_vfsp := vfsp, vn_vfsmountedhere := 0, vn_isroot := False\<rparr>) s1;
        s3 \<leftarrow> (if ty = VREG then Some (set_vnode vn (\<lambda>v. v\<lparr>vn_vmobj := tn_vmobj (fs_node s2 ino)\<rparr>) s2)
               else if ty = VCHR then spec_setup_vnode e vn (va_rdev (tn_attr (fs_node s2 ino))) s2
               else Some s2);
        Some (vn, set_vnode vn (\<lambda>v. v\<lparr>vn_data := ino\<rparr>) s3)
      })"

text \<open>The parent of the root node is left as it was in memory.\<close>

definition tmpfs_mount :: "'k fs_env \<Rightarrow> vfs_ref \<Rightarrow> 'k fs \<Rightarrow> (int \<times> 'k fs) option" where
  "tmpfs_mount e vfsp s = do {
     (root, k) \<leftarrow> fe_node e (fs_heap s);
     let s1 = set_node root (\<lambda>n. n\<lparr>tn_attr := (tn_attr n)\<lparr>va_type := VDIR\<rparr>, tn_vn := 0, tn_entries := []\<rparr>) (s\<lparr>fs_heap := k\<rparr>);
     (vroot, s2) \<leftarrow> tmpfs_vget e vfsp root s1;
     let s3 = set_vnode vroot (\<lambda>v. v\<lparr>vn_isroot := True\<rparr>) s2;
     Some (0, s3\<lparr>fs_vfs := (fs_vfs s3)(vfsp := (fs_vfs s3 vfsp)\<lparr>vfs_data := vroot\<rparr>)\<rparr>)
   }"

definition tmpfs_root :: "vfs_ref \<Rightarrow> 'k fs \<Rightarrow> vn_ref" where
  "tmpfs_root vfsp s = vfs_data (fs_vfs s vfsp)"

definition tlookup :: "tn_ref \<Rightarrow> string \<Rightarrow> 'k fs \<Rightarrow> tmpdirent option" where
  "tlookup n name s = find (\<lambda>d. td_name d = name) (tn_entries (fs_node s n))"

text \<open>
  \<^verbatim>\<open>attr\<close> may be null for the copy, but its type is read in any case. The assertion in the default
  branch is on a string literal and holds.
\<close>

definition tmakenode :: "'k fs_env \<Rightarrow> tn_ref \<Rightarrow> string \<Rightarrow> vattr option \<Rightarrow> 'k fs \<Rightarrow> (tn_ref \<times> 'k fs) option" where
  "tmakenode e dn name attr s = do {
     (n, k1) \<leftarrow> fe_node e (fs_heap s);
     k2 \<leftarrow> fe_dirent e name k1;
     a \<leftarrow> attr;
     let s1 = set_node n (\<lambda>t. t\<lparr>tn_attr := a\<lparr>va_size := 0\<rparr>, tn_vn := 0\<rparr>) (s\<lparr>fs_heap := k2\<rparr>);
     s2 \<leftarrow> (case va_type a of
         VREG \<Rightarrow> do {
           (obj, k3) \<leftarrow> fe_aobj e 0xffffffff (fs_heap s1);
           Some (set_node n (\<lambda>t. t\<lparr>tn_vmobj := obj\<rparr>) (s1\<lparr>fs_heap := k3, fs_file := (fs_file s1)(obj := \<lambda>_. 0)\<rparr>))
         }
       | VDIR \<Rightarrow> Some (set_node n (\<lambda>t. t\<lparr>tn_entries := [], tn_parent := dn\<rparr>) s1)
       | _ \<Rightarrow> Some s1);
     Some (n, set_node dn (\<lambda>t. t\<lparr>tn_entries := tn_entries t @ [\<lparr>td_name = name, td_node = n\<rparr>]\<rparr>) s2)
   }"

definition tmp_create :: "'k fs_env \<Rightarrow> vn_ref \<Rightarrow> string \<Rightarrow> vattr option \<Rightarrow> 'k fs \<Rightarrow> (vn_ref \<times> 'k fs) option" where
  "tmp_create e dvn name attr s = do {
     kassert (vn_type (fs_vnode s dvn) = VDIR);
     (n, s1) \<leftarrow> tmakenode e (vn_data (fs_vnode s dvn)) name attr s;
     kassert (n \<noteq> 0);
     tmpfs_vget e (vn_vfsp (fs_vnode s1 dvn)) n s1
   }"

definition tmp_lookup :: "'k fs_env \<Rightarrow> vn_ref \<Rightarrow> string \<Rightarrow> 'k fs \<Rightarrow> ((int + vn_ref) \<times> 'k fs) option" where
  "tmp_lookup e vn name s = do {
     let node = vn_data (fs_vnode s vn);
     kassert (va_type (tn_attr (fs_node s node)) = VDIR);
     (if name = ''..'' then
        Some (Inr (if tn_parent (fs_node s node) = 0 then vn else tn_vn (fs_node s (tn_parent (fs_node s node)))), s)
      else (case tlookup node name s of
          None \<Rightarrow> Some (Inl (- ENOENT), s)
        | Some d \<Rightarrow> do { (out, s1) \<leftarrow> tmpfs_vget e (vn_vfsp (fs_vnode s vn)) (td_node d) s; Some (Inr out, s1) }))
   }"

definition tmp_getattr :: "vn_ref \<Rightarrow> 'k fs \<Rightarrow> vattr" where
  "tmp_getattr vn s = tn_attr (fs_node s (vn_data (fs_vnode s vn)))"

text \<open>The results are the bytes read and the return value, a \<^verbatim>\<open>size_t\<close> cut to an \<^verbatim>\<open>int\<close>.\<close>

definition read_bytes :: "(u64 \<Rightarrow> u8) \<Rightarrow> u64 \<Rightarrow> u64 \<Rightarrow> u8 list" where
  "read_bytes f off n = map (\<lambda>i. f (off + of_nat i)) [0..<unat n]"

definition write_bytes :: "(u64 \<Rightarrow> u8) \<Rightarrow> u64 \<Rightarrow> u8 list \<Rightarrow> u64 \<Rightarrow> u8" where
  "write_bytes f off bs a = (if unat (a - off) < length bs then bs ! unat (a - off) else f a)"

definition tmp_read :: "'k fs_env \<Rightarrow> vn_ref \<Rightarrow> u64 \<Rightarrow> u64 \<Rightarrow> 'k fs \<Rightarrow> ((int \<times> u8 list) \<times> 'k fs) option" where
  "tmp_read e vn nbyte0 off s = (let tn = fs_node s (vn_data (fs_vnode s vn)); sz = va_size (tn_attr tn) in
     if va_type (tn_attr tn) \<noteq> VREG then Some ((- EINVAL, []), s)
     else let nbyte = (if off + nbyte0 > sz then if sz \<le> off then 0 else sz - off else nbyte0) in
       if nbyte = 0 then Some ((0, []), s)
       else do {
         let obj = vn_vmobj (fs_vnode s vn);
         (vaddr, k1) \<leftarrow> fe_map e obj (PGROUNDUP (nbyte + off)) (fs_heap s);
         let bs = read_bytes (fs_file s obj) off nbyte;
         k2 \<leftarrow> fe_unmap e vaddr (PGROUNDUP (nbyte + off)) k1;
         Some ((to_int nbyte, bs), s\<lparr>fs_heap := k2\<rparr>)
       })"

definition tmp_write :: "'k fs_env \<Rightarrow> vn_ref \<Rightarrow> u8 list \<Rightarrow> u64 \<Rightarrow> 'k fs \<Rightarrow> (int \<times> 'k fs) option" where
  "tmp_write e vn buf off s = (let nbyte = of_nat (length buf) :: u64; tn = vn_data (fs_vnode s vn) in
     if nbyte = 0 then Some (0, s)
     else do {
       let s1 = (if off + nbyte > va_size (tn_attr (fs_node s tn))
                 then set_node tn (\<lambda>t. t\<lparr>tn_attr := (tn_attr t)\<lparr>va_size := off + nbyte\<rparr>\<rparr>) s else s);
       let obj = vn_vmobj (fs_vnode s1 vn);
       (vaddr, k1) \<leftarrow> fe_map e obj (PGROUNDUP (nbyte + off)) (fs_heap s1);
       let s2 = s1\<lparr>fs_heap := k1, fs_file := (fs_file s1)(obj := write_bytes (fs_file s1 obj) off buf)\<rparr>;
       k2 \<leftarrow> fe_unmap e vaddr (PGROUNDUP (nbyte + off)) (fs_heap s2);
       Some (to_int nbyte, s2\<lparr>fs_heap := k2\<rparr>)
     })"

text \<open>
  Directory entries as they are written to the buffer. \<open>dname\<close> is the offset of the name in the
  \<^verbatim>\<open>struct dirent\<close> of the C library. The counter goes up by two for an entry that is written.
\<close>

record dirent =
  d_ino :: u64
  d_off :: nat
  d_reclen :: nat
  d_name :: string

definition DIRENT_RECLEN :: "nat \<Rightarrow> nat \<Rightarrow> nat" where
  "DIRENT_RECLEN dname namelen = (dname + 1 + namelen + 7) div 8 * 8"

fun readdir_loop :: "nat \<Rightarrow> nat \<Rightarrow> nat \<Rightarrow> nat \<Rightarrow> nat \<Rightarrow> tmpdirent list \<Rightarrow> int \<times> dirent list \<times> nat" where
  "readdir_loop dname nbyte seqno i nwritten [] = (2147483647, [], nwritten)"
| "readdir_loop dname nbyte seqno i nwritten (d # ds) =
     (if i \<ge> seqno then
        let reclen = DIRENT_RECLEN dname (length (td_name d)) in
        if int nwritten + int reclen > int nbyte - 1 then (int i - 1, [], nwritten)
        else let (r, out, n) = readdir_loop dname nbyte seqno (i + 2) (nwritten + reclen) ds in
          (r, \<lparr>d_ino = td_node d, d_off = i, d_reclen = reclen, d_name = td_name d\<rparr> # out, n)
      else readdir_loop dname nbyte seqno (i + 1) nwritten ds)"

definition tmp_readdir :: "nat \<Rightarrow> vn_ref \<Rightarrow> nat \<Rightarrow> nat \<Rightarrow> 'k fs \<Rightarrow> (int \<times> dirent list \<times> nat) option" where
  "tmp_readdir dname dvn nbyte seqno s = do {
     let n = vn_data (fs_vnode s dvn);
     kassert (va_type (tn_attr (fs_node s n)) = VDIR);
     Some (readdir_loop dname nbyte seqno 0 0 (tn_entries (fs_node s n)))
   }"

text \<open>Calls through \<^verbatim>\<open>vn->ops\<close>, which fail for a null \<^verbatim>\<open>vn\<close>; the table of device nodes has neither \<^verbatim>\<open>create\<close> nor \<^verbatim>\<open>lookup\<close>.\<close>

definition vop_create :: "'k fs_env \<Rightarrow> vn_ref \<Rightarrow> string \<Rightarrow> vattr option \<Rightarrow> 'k fs \<Rightarrow> (vn_ref \<times> 'k fs) option" where
  "vop_create e vn name attr s = do { kassert (vn \<noteq> 0); (case vn_ops (fs_vnode s vn) of tmpfs_vnops \<Rightarrow> tmp_create e vn name attr s | tmpfs_spec_vnops \<Rightarrow> None) }"

definition vop_lookup :: "'k fs_env \<Rightarrow> vn_ref \<Rightarrow> string \<Rightarrow> 'k fs \<Rightarrow> ((int + vn_ref) \<times> 'k fs) option" where
  "vop_lookup e vn name s = do { kassert (vn \<noteq> 0); (case vn_ops (fs_vnode s vn) of tmpfs_vnops \<Rightarrow> tmp_lookup e vn name s | tmpfs_spec_vnops \<Rightarrow> None) }"

definition vop_write :: "'k fs_env \<Rightarrow> (dev_t \<Rightarrow> nat) \<Rightarrow> vn_ref \<Rightarrow> u8 list \<Rightarrow> u64 \<Rightarrow> 'k fs \<Rightarrow> (int \<times> 'k fs) option" where
  "vop_write e major vn buf off s = do { kassert (vn \<noteq> 0); (case vn_ops (fs_vnode s vn) of
     tmpfs_vnops \<Rightarrow> tmp_write e vn buf off s | tmpfs_spec_vnops \<Rightarrow> spec_write e major vn buf off s) }"

text \<open>The size in the attributes is not set; \<^verbatim>\<open>tmakenode\<close> overwrites it. 0x1a4 is 0644, 0x2000 is \<^verbatim>\<open>S_IFCHR\<close>.\<close>

definition devfs_make_node :: "'k fs_env \<Rightarrow> dev_t \<Rightarrow> string \<Rightarrow> 'k fs \<Rightarrow> (vn_ref \<times> 'k fs) option" where
  "devfs_make_node e dev name s =
     vop_create e (fs_dev_vnode s) name (Some \<lparr>va_type = VCHR, va_mode = 0x1a4 OR 0x2000, va_size = 0, va_rdev = dev\<rparr>) s"

subsection \<open>Looking up paths\<close>

definition kLookupCreat :: u32 where "kLookupCreat = 1"
definition kLookupMustDir :: u32 where "kLookupMustDir = 2"

text \<open>The loop over file systems mounted on a vnode; a cycle of mounts does not end.\<close>

partial_function (option) cross_mounts :: "vn_ref \<Rightarrow> 'k fs \<Rightarrow> vn_ref option" where
  "cross_mounts vn s = (if vn = 0 then None else if vn_vfsmountedhere (fs_vnode s vn) = 0 then Some vn
     else cross_mounts (tmpfs_root (vn_vfsmountedhere (fs_vnode s vn)) s) s)"

text \<open>
  One component: \<^verbatim>\<open>.\<close> and empty components are skipped, the last one is created when asked for.
  \<open>Inl\<close> is a negative result that ends the lookup.
\<close>

definition lookup_component ::
  "'k fs_env \<Rightarrow> bool \<Rightarrow> vattr option \<Rightarrow> bool \<Rightarrow> string \<Rightarrow> vn_ref \<Rightarrow> 'k fs \<Rightarrow> ((int + vn_ref) \<times> 'k fs) option" where
  "lookup_component e creat attr lst sub vn s =
     (if sub = ''.'' \<or> sub = [] then Some (Inr vn, s)
      else do {
        (r, s1) \<leftarrow> (if \<not> lst \<or> \<not> creat then vop_lookup e vn sub s
                    else do { (v, s') \<leftarrow> vop_create e vn sub attr s; Some (Inr v, s') });
        (case r of
          Inl err \<Rightarrow> Some (Inl err, s1)
        | Inr v \<Rightarrow> do { v' \<leftarrow> cross_mounts v s1; Some (Inr v', s1) })
      })"

function vfs_loop :: "'k fs_env \<Rightarrow> bool \<Rightarrow> vattr option \<Rightarrow> string \<Rightarrow> vn_ref \<Rightarrow> 'k fs \<Rightarrow> ((int + vn_ref) \<times> 'k fs) option" where
  "vfs_loop e creat attr sub vn s = (let comp = takeWhile (\<lambda>c. c \<noteq> CHR ''/'') sub; next = dropWhile (\<lambda>c. c \<noteq> CHR ''/'') sub; lst = (next = []) in do {
     (r, s1) \<leftarrow> lookup_component e creat attr lst comp vn s;
     (case r of
       Inl err \<Rightarrow> Some (Inl err, s1)
     | Inr v \<Rightarrow> if lst then Some (Inr v, s1) else vfs_loop e creat attr (tl next) v s1)
   })"
  by pat_completeness auto
termination
proof (relation "measure (\<lambda>(e, creat, attr, sub, vn, s). length sub)", goal_cases)
  case (2 e creat attr sub vn s comp nx lst r y s1 v)
  then have "nx \<noteq> []" by simp
  then have "length (tl nx) < length nx" by (cases nx) auto
  also have "length nx \<le> length sub" using 2 by (simp add: length_dropWhile_le)
  finally show ?case by simp
qed simp

text \<open>
  \<^verbatim>\<open>path\<close> has room for 255 characters, terminator included: a longer name overflows it. An empty
  name and a name of slashes only make the code read in front of the array. With a null \<^verbatim>\<open>cwd\<close> any
  name of one character gives the root.
\<close>

definition reduce :: "vn_ref \<Rightarrow> vn_ref" where
  "reduce vn = vn"

definition strip_slashes :: "string \<Rightarrow> string" where
  "strip_slashes path = rev (dropWhile (\<lambda>c. c = CHR ''/'') (rev path))"

definition vfs_lookup :: "'k fs_env \<Rightarrow> vn_ref \<Rightarrow> string \<Rightarrow> u32 \<Rightarrow> vattr option \<Rightarrow> 'k fs \<Rightarrow> ((int + vn_ref) \<times> 'k fs) option" where
  "vfs_lookup e cwd pathname flags attr s = do {
     kassert (pathname \<noteq> []);
     let absolute = (hd pathname = CHR ''/'' \<or> cwd = 0);
     let vn = (if absolute then fs_root_vnode s else cwd);
     if absolute \<and> length pathname = 1 then Some (Inr vn, s)
     else do {
       kassert (length pathname < 255);
       let path = strip_slashes pathname;
       kassert (path \<noteq> []);
       let mustdir = (flags AND kLookupMustDir \<noteq> 0 \<or> path \<noteq> pathname);
       (r, s1) \<leftarrow> vfs_loop e (flags AND kLookupCreat \<noteq> 0) attr path vn s;
       (case r of
         Inl err \<Rightarrow> Some (Inl err, s1)
       | Inr v \<Rightarrow> Some (Inr (if mustdir then reduce v else v), s1))
     }
   }"

end
