(* ===== verification/Fs_Spec.thy ===== *)
theory Fs_Spec
  imports Fs
begin

text \<open>
  What the file system promises: a path is resolved component by component, skipping empty
  components and dots; a file that is created is found again under its name; what is written to a
  file is read back.
\<close>

subsection \<open>Paths\<close>

function split_path :: "string \<Rightarrow> string list" where
  "split_path p = takeWhile (\<lambda>c. c \<noteq> CHR ''/'') p #
     (case dropWhile (\<lambda>c. c \<noteq> CHR ''/'') p of [] \<Rightarrow> [] | _ # rest \<Rightarrow> split_path rest)"
  by pat_completeness auto
termination
proof (relation "measure length", goal_cases)
  case (2 p x rest)
  have "length (x # rest) \<le> length p" using 2 length_dropWhile_le [of "\<lambda>c. c \<noteq> CHR ''/''" p] by simp
  then show ?case by simp
qed simp

declare split_path.simps [simp del] vfs_loop.simps [simp del]

definition components :: "string \<Rightarrow> string list" where
  "components p = filter (\<lambda>c. c \<noteq> [] \<and> c \<noteq> ''.'') (split_path p)"

fun resolve :: "'k fs_env \<Rightarrow> string list \<Rightarrow> vn_ref \<Rightarrow> 'k fs \<Rightarrow> ((int + vn_ref) \<times> 'k fs) option" where
  "resolve e [] vn s = Some (Inr vn, s)"
| "resolve e (c # cs) vn s = do {
     (r, s1) \<leftarrow> vop_lookup e vn c s;
     (case r of Inl err \<Rightarrow> Some (Inl err, s1) | Inr v \<Rightarrow> do { v' \<leftarrow> cross_mounts v s1; resolve e cs v' s1 })
   }"

lemma vfs_loop_resolve: "vfs_loop e False attr sub vn s = resolve e (components sub) vn s"
proof (induction "length sub" arbitrary: sub vn s rule: less_induct)
  case less
  obtain c n where cn: "takeWhile (\<lambda>c. c \<noteq> CHR ''/'') sub = c" "dropWhile (\<lambda>c. c \<noteq> CHR ''/'') sub = n" by blast
  have IH: "vfs_loop e False attr (tl n) v t = resolve e (components (tl n)) v t" if "n \<noteq> []" for v t
  proof -
    have "length (tl n) < length n" using that by (cases n) auto
    also have "\<dots> \<le> length sub" using length_dropWhile_le [of "\<lambda>c. c \<noteq> CHR ''/''" sub] cn(2) by simp
    finally show ?thesis by (rule less)
  qed
  have sp: "components sub = (if c = [] \<or> c = ''.'' then [] else [c]) @ (if n = [] then [] else components (tl n))"
    unfolding components_def by (subst split_path.simps) (auto simp: cn split: list.splits)
  have lp: "vfs_loop e False attr sub vn s = do {
     (r, s1) \<leftarrow> lookup_component e False attr (n = []) c vn s;
     (case r of Inl err \<Rightarrow> Some (Inl err, s1) | Inr v \<Rightarrow> if n = [] then Some (Inr v, s1) else vfs_loop e False attr (tl n) v s1) }"
    by (subst vfs_loop.simps) (simp only: cn Let_def)
  have lc: "lookup_component e False attr (n = []) c vn s = (if c = [] \<or> c = ''.'' then Some (Inr vn, s) else do {
     (r, s1) \<leftarrow> vop_lookup e vn c s;
     (case r of Inl err \<Rightarrow> Some (Inl err, s1) | Inr v \<Rightarrow> do { v' \<leftarrow> cross_mounts v s1; Some (Inr v', s1) }) })"
    by (auto simp: lookup_component_def)
  show ?case
  proof (cases "n = []")
    case True
    show ?thesis unfolding lp lc sp using True by (auto split: Option.bind_splits sum.splits)
  next
    case False
    show ?thesis unfolding lp lc sp using False IH [OF False] by (auto split: Option.bind_splits sum.splits)
  qed
qed

lemma split_path_snoc: "split_path (p @ ''/'') = split_path p @ [[]]"
proof (induction "length p" arbitrary: p rule: less_induct)
  case less
  let ?P = "\<lambda>c. c \<noteq> CHR ''/''"
  show ?case
  proof (cases "dropWhile ?P p")
    case Nil
    then have "\<forall>c \<in> set p. ?P c" by (simp add: dropWhile_eq_Nil_conv)
    then have "takeWhile ?P (p @ ''/'') = p" "dropWhile ?P (p @ ''/'') = ''/''" "takeWhile ?P p = p" by simp_all
    moreover have "split_path [] = [[]]" by (subst split_path.simps) simp
    moreover have "split_path p = [p]" by (subst split_path.simps) (simp only: Nil calculation list.case)
    moreover have "split_path (p @ ''/'') = [p, []]" by (subst split_path.simps) (simp only: calculation list.case)
    ultimately show ?thesis by simp
  next
    case (Cons x rest)
    have ex: "\<exists>c \<in> set p. \<not> ?P c" 
    proof (rule ccontr)
      assume "\<not> (\<exists>c \<in> set p. \<not> ?P c)"
      then have "dropWhile ?P p = []" by (auto simp: dropWhile_eq_Nil_conv)
      then show False using Cons by simp
    qed
    then have t: "takeWhile ?P (p @ ''/'') = takeWhile ?P p" "dropWhile ?P (p @ ''/'') = x # rest @ ''/''"
      using Cons by (auto simp: takeWhile_append1 dropWhile_append1)
    have "length (x # rest) \<le> length p" using Cons length_dropWhile_le [of ?P p] by simp
    then have "split_path (rest @ ''/'') = split_path rest @ [[]]" by (intro less) simp
    then have "split_path (p @ ''/'') = takeWhile ?P p # split_path rest @ [[]]" "split_path p = takeWhile ?P p # split_path rest"
      using Cons t by (subst split_path.simps, simp)+
    then show ?thesis by simp
  qed
qed

lemma components_strip: "components (strip_slashes p) = components p"
proof (induction p rule: rev_induct)
  case (snoc x xs)
  then show ?case by (cases "x = CHR ''/''") (auto simp: strip_slashes_def components_def split_path_snoc)
qed (simp add: strip_slashes_def)

text \<open>
  Names that the code handles: short enough for its buffer, with something other than slashes, and
  not a single character relative to no directory.
\<close>

definition path_handled :: "vn_ref \<Rightarrow> string \<Rightarrow> bool" where
  "path_handled cwd p \<longleftrightarrow> length p < 255 \<and> p \<noteq> [] \<and> (p = ''/'' \<or> strip_slashes p \<noteq> [] \<and> (cwd = 0 \<longrightarrow> length p \<noteq> 1))"

text \<open>All other names: one character relative to no directory gives the root; an empty name, one of several
  slashes and one too long for the buffer make the code leave its array, where the model stops.\<close>

lemma vfs_lookup_unhandled:
  assumes "\<not> path_handled cwd p"
  shows "vfs_lookup e cwd p flags attr s = (if cwd = 0 \<and> length p = 1 then Some (Inr (fs_root_vnode s), s) else None)"
proof (cases "length p = 1")
  case True
  then obtain x where p: "p = [x]" by (cases p) auto
  with assms have "cwd = 0" by (auto simp: path_handled_def strip_slashes_def)
  then show ?thesis using p by (simp add: vfs_lookup_def)
next
  case False
  then show ?thesis using assms by (auto simp: vfs_lookup_def path_handled_def kassert_def)
qed

text \<open>Mounts are crossed until a vnode carries none. The code never sets \<^verbatim>\<open>vfsmountedhere\<close> but to null.\<close>

fun mount_chain :: "nat \<Rightarrow> vn_ref \<Rightarrow> 'k fs \<Rightarrow> vn_ref \<Rightarrow> bool" where
  "mount_chain 0 v s w \<longleftrightarrow> v = w \<and> v \<noteq> 0 \<and> vn_vfsmountedhere (fs_vnode s v) = 0"
| "mount_chain (Suc n) v s w \<longleftrightarrow> v \<noteq> 0 \<and> vn_vfsmountedhere (fs_vnode s v) \<noteq> 0 \<and>
     mount_chain n (tmpfs_root (vn_vfsmountedhere (fs_vnode s v)) s) s w"

lemma cross_mounts_chain: "mount_chain n v s w \<Longrightarrow> cross_mounts v s = Some w"
  by (induction n arbitrary: v) (subst cross_mounts.simps; simp)+

lemma vfs_lookup_resolve:
  assumes "path_handled cwd p" and "flags AND kLookupCreat = 0"
  shows "vfs_lookup e cwd p flags attr s = resolve e (components p) (if hd p = CHR ''/'' \<or> cwd = 0 then fs_root_vnode s else cwd) s"
proof (cases "p = ''/''")
  case True
  have "split_path ''/'' = [[], []]" using split_path_snoc [of "[]"] by (simp add: split_path.simps [of "[]"])
  then show ?thesis using True by (simp add: vfs_lookup_def components_def)
next
  case False
  then have p: "length p < 255" "p \<noteq> []" "strip_slashes p \<noteq> []" "cwd = 0 \<longrightarrow> length p \<noteq> 1" using assms(1) by (auto simp: path_handled_def)
  have "\<not> (hd p = CHR ''/'' \<and> length p = 1)" using False by (cases p; cases "tl p") auto
  then have n: "\<not> ((hd p = CHR ''/'' \<or> cwd = 0) \<and> length p = 1)" using p(4) by auto
  have r: "(case r of Inl err \<Rightarrow> Some (Inl err, t) | Inr v \<Rightarrow> Some (Inr (if b then reduce v else v), t)) = Some (r, t)" for r :: "int + vn_ref" and t b
    by (cases r) (simp_all add: reduce_def)
  let ?v = "if hd p = CHR ''/'' \<or> cwd = 0 then fs_root_vnode s else cwd"
  have "vfs_lookup e cwd p flags attr s = do { (r, t) \<leftarrow> vfs_loop e False attr (strip_slashes p) ?v s; Some (r, t) }"
    unfolding vfs_lookup_def using p(1,2,3) n assms(2) by (simp only: kassert_True Option.bind.bind_lunit Let_def if_False simp_thms r)
  then show ?thesis unfolding vfs_loop_resolve components_strip by (auto split: Option.bind_splits)
qed

subsection \<open>Reading back what was written\<close>

text \<open>Mapping an object in the kernel map and removing the mapping succeed.\<close>

definition maps_law :: "'k fs_env \<Rightarrow> bool" where
  "maps_law e \<longleftrightarrow> (\<forall>obj sz k. \<exists>v k1 k2. fe_map e obj sz k = Some (v, k1) \<and> fe_unmap e v sz k1 = Some k2)"

lemma maps_lawE:
  assumes "maps_law e"
  obtains v k1 k2 where "fe_map e obj sz k = Some (v, k1)" "fe_unmap e v sz k1 = Some k2"
  using assms unfolding maps_law_def by blast

lemma read_write_bytes:
  assumes "unat off + length bs < 2 ^ 64"
  shows "read_bytes (write_bytes f off bs) off (of_nat (length bs)) = bs"
proof (rule nth_equalityI)
  have u: "unat (of_nat i :: u64) = i" if "i \<le> length bs" for i using that assms by (intro unat_of_nat64) simp
  then show "length (read_bytes (write_bytes f off bs) off (of_nat (length bs))) = length bs" by (simp add: read_bytes_def)
  fix i assume "i < length (read_bytes (write_bytes f off bs) off (of_nat (length bs)))"
  then have i: "i < length bs" using u by (simp add: read_bytes_def)
  then show "read_bytes (write_bytes f off bs) off (of_nat (length bs)) ! i = bs ! i" using u by (simp add: read_bytes_def write_bytes_def)
qed

lemma write_bytes_other:
  assumes "unat off + length bs < 2 ^ 64" and "unat a < unat off \<or> unat off + length bs \<le> unat a"
  shows "write_bytes f off bs a = f a"
proof -
  have "\<not> unat (a - off) < length bs"
  proof (cases "unat a < unat off")
    case True
    then have "unat (a - off) = 2 ^ 64 + unat a - unat off" by (simp add: unat_sub_if')
    then show ?thesis using assms(1) True by simp
  next
    case False
    then have "unat (a - off) = unat a - unat off" by (intro unat_sub_nowrap) simp
    then show ?thesis using assms(2) False by simp
  qed
  then show ?thesis by (simp add: write_bytes_def)
qed


subsection \<open>Finding what was created\<close>

text \<open>
  What is asked of the heap, with \<open>N\<close> and \<open>V\<close> the nodes and vnodes handed out and \<open>c\<close> the number of
  further allocations that succeed: structures have addresses that are not in use.
\<close>

definition fs_heap_law :: "'k fs_env \<Rightarrow> (nat \<Rightarrow> 'k \<Rightarrow> bool) \<Rightarrow> ('k \<Rightarrow> tn_ref set) \<Rightarrow> ('k \<Rightarrow> vn_ref set) \<Rightarrow> bool" where
  "fs_heap_law e I N V \<longleftrightarrow>
     (\<forall>c k. I (Suc c) k \<longrightarrow> (\<exists>n k'. fe_node e k = Some (n, k') \<and> n \<noteq> 0 \<and> n \<notin> N k \<and> I c k' \<and> N k' = insert n (N k) \<and> V k' = V k)) \<and>
     (\<forall>c k. I (Suc c) k \<longrightarrow> (\<exists>v k'. fe_vnode e k = Some (v, k') \<and> v \<noteq> 0 \<and> v \<notin> V k \<and> I c k' \<and> N k' = N k \<and> V k' = insert v (V k))) \<and>
     (\<forall>c k name. I (Suc c) k \<longrightarrow> (\<exists>k'. fe_dirent e name k = Some k' \<and> I c k' \<and> N k' = N k \<and> V k' = V k)) \<and>
     (\<forall>c k. I (Suc c) k \<longrightarrow> (\<exists>d k'. fe_specdev e k = Some (d, k') \<and> I c k' \<and> N k' = N k \<and> V k' = V k)) \<and>
     (\<forall>c k. I (Suc c) k \<longrightarrow> I c k) \<and>
     (\<forall>c k sz. I (Suc c) k \<longrightarrow> (\<exists>b k'. fe_aobj e sz k = Some (b, k') \<and> I c k' \<and> N k' = N k \<and> V k' = V k))"

lemma fs_heap_lawD:
  assumes "fs_heap_law e I N V"
  shows fs_law_node: "I (Suc c) k \<Longrightarrow> \<exists>n k'. fe_node e k = Some (n, k') \<and> n \<noteq> 0 \<and> n \<notin> N k \<and> I c k' \<and> N k' = insert n (N k) \<and> V k' = V k"
    and fs_law_vnode: "I (Suc c) k \<Longrightarrow> \<exists>v k'. fe_vnode e k = Some (v, k') \<and> v \<noteq> 0 \<and> v \<notin> V k \<and> I c k' \<and> N k' = N k \<and> V k' = insert v (V k)"
    and fs_law_dirent: "I (Suc c) k \<Longrightarrow> \<exists>k'. fe_dirent e name k = Some k' \<and> I c k' \<and> N k' = N k \<and> V k' = V k"
    and fs_law_aobj: "I (Suc c) k \<Longrightarrow> \<exists>b k'. fe_aobj e sz k = Some (b, k') \<and> I c k' \<and> N k' = N k \<and> V k' = V k"
    and fs_law_specdev: "I (Suc c) k \<Longrightarrow> \<exists>d k'. fe_specdev e k = Some (d, k') \<and> I c k' \<and> N k' = N k \<and> V k' = V k"
    and fs_law_less: "I (Suc c) k \<Longrightarrow> I c k"
  using assms by (simp_all add: fs_heap_law_def)

lemma tlookup_append: "find P (xs @ [x]) = (case find P xs of Some y \<Rightarrow> Some y | None \<Rightarrow> if P x then Some x else None)"
  by (induction xs) auto

lemma tmakenode_ok:
  assumes law: "fs_heap_law e I N V" "I (c + 3) (fs_heap s)" and dn: "dn \<in> N (fs_heap s)" and ty: "va_type a = VREG \<or> va_type a = VDIR"
  shows "\<exists>n s'. tmakenode e dn name (Some a) s = Some (n, s') \<and> n \<noteq> 0 \<and> n \<noteq> dn \<and> n \<notin> N (fs_heap s) \<and> I c (fs_heap s') \<and> V (fs_heap s') = V (fs_heap s) \<and>
    tn_vn (fs_node s' n) = 0 \<and> tn_attr (fs_node s' n) = a\<lparr>va_size := 0\<rparr> \<and> tn_attr (fs_node s' dn) = tn_attr (fs_node s dn) \<and>
    tn_entries (fs_node s' dn) = tn_entries (fs_node s dn) @ [\<lparr>td_name = name, td_node = n\<rparr>] \<and> (va_type a = VDIR \<longrightarrow> tn_parent (fs_node s' n) = dn \<and> tn_entries (fs_node s' n) = []) \<and>
    tn_parent (fs_node s' dn) = tn_parent (fs_node s dn) \<and> fs_vnode s' = fs_vnode s"
proof -
  have i: "I (Suc (Suc (Suc c))) (fs_heap s)" using law(2) by (simp add: numeral_eq_Suc)
  from fs_law_node [OF law(1) i] obtain n k1 where n: "fe_node e (fs_heap s) = Some (n, k1)" "n \<noteq> 0" "n \<notin> N (fs_heap s)" "I (Suc (Suc c)) k1" "V k1 = V (fs_heap s)" by blast
  from fs_law_dirent [OF law(1) n(4)] obtain k2 where k2: "fe_dirent e name k1 = Some k2" "I (Suc c) k2" "V k2 = V k1" by blast
  from fs_law_aobj [OF law(1) k2(2), of "0xffffffff"] obtain b k3 where k3: "fe_aobj e 0xffffffff k2 = Some (b, k3)" "I c k3" "V k3 = V k2" by blast
  have ne: "n \<noteq> dn" using n(3) dn by auto
  show ?thesis
  proof (cases "va_type a")
    case VREG
    then show ?thesis using n k2 k3 ne by (auto simp: tmakenode_def Let_def fs_set_defs)
  next
    case VDIR
    have "I c k2" by (rule fs_law_less [OF law(1) k2(2)])
    then show ?thesis using n k2 ne VDIR by (auto simp: tmakenode_def Let_def fs_set_defs)
  qed (use ty in auto)
qed

lemma tmpfs_vget_new:
  assumes law: "fs_heap_law e I N V" "I (Suc c) (fs_heap s)" and n: "tn_vn (fs_node s n) = 0" and ty: "va_type (tn_attr (fs_node s n)) = VREG \<or> va_type (tn_attr (fs_node s n)) = VDIR"
  shows "\<exists>v s'. tmpfs_vget e fsys n s = Some (v, s') \<and> v \<noteq> 0 \<and> v \<notin> V (fs_heap s) \<and> I c (fs_heap s') \<and> tn_vn (fs_node s' n) = v \<and>
    (\<forall>m. tn_attr (fs_node s' m) = tn_attr (fs_node s m) \<and> tn_entries (fs_node s' m) = tn_entries (fs_node s m) \<and> tn_parent (fs_node s' m) = tn_parent (fs_node s m)) \<and>
    vn_refcnt (fs_vnode s' v) = 1 \<and> vn_type (fs_vnode s' v) = va_type (tn_attr (fs_node s n)) \<and> vn_ops (fs_vnode s' v) = tmpfs_vnops \<and>
    vn_data (fs_vnode s' v) = n \<and> vn_vfsp (fs_vnode s' v) = fsys \<and> vn_vfsmountedhere (fs_vnode s' v) = 0 \<and>
    (\<forall>u. u \<noteq> v \<longrightarrow> fs_vnode s' u = fs_vnode s u)"
proof -
  from fs_law_vnode [OF law] obtain v k where v: "fe_vnode e (fs_heap s) = Some (v, k)" "v \<noteq> 0" "v \<notin> V (fs_heap s)" "I c k" by blast
  show ?thesis using v n ty by (auto simp: tmpfs_vget_def Let_def fs_set_defs)
qed

theorem create_then_lookup:
  assumes law: "fs_heap_law e I N V" "I (c + 4) (fs_heap s)" and d: "vn_type (fs_vnode s dvn) = VDIR" "dvn \<in> V (fs_heap s)" "dn = vn_data (fs_vnode s dvn)" "dn \<in> N (fs_heap s)"
      "va_type (tn_attr (fs_node s dn)) = VDIR" and ty: "va_type a = VREG \<or> va_type a = VDIR" and name: "name \<noteq> ''..''"
  shows "\<exists>v s'. tmp_create e dvn name (Some a) s = Some (v, s') \<and> tmp_getattr v s' = a\<lparr>va_size := 0\<rparr> \<and> vn_type (fs_vnode s' v) = va_type a \<and>
    (\<forall>m. m \<noteq> name \<longrightarrow> tlookup dn m s' = tlookup dn m s) \<and>
    (case tlookup dn name s of
       None \<Rightarrow> \<exists>s''. tmp_lookup e dvn name s' = Some (Inr v, s'') \<and> vn_refcnt (fs_vnode s'' v) = 2
     | Some old \<Rightarrow> tlookup dn name s' = Some old)"
proof -
  have i: "I ((c + 1) + 3) (fs_heap s)" using law(2) by (simp add: numeral_eq_Suc)
  from tmakenode_ok [OF law(1) i d(4) ty, of name] obtain n s1 where n: "tmakenode e dn name (Some a) s = Some (n, s1)" "n \<noteq> 0" "I (c + 1) (fs_heap s1)"
    "V (fs_heap s1) = V (fs_heap s)" "tn_vn (fs_node s1 n) = 0" "tn_attr (fs_node s1 n) = a\<lparr>va_size := 0\<rparr>" "tn_attr (fs_node s1 dn) = tn_attr (fs_node s dn)"
    "tn_entries (fs_node s1 dn) = tn_entries (fs_node s dn) @ [\<lparr>td_name = name, td_node = n\<rparr>]" "fs_vnode s1 = fs_vnode s" by blast
  have i1: "I (Suc c) (fs_heap s1)" and ty1: "va_type (tn_attr (fs_node s1 n)) = VREG \<or> va_type (tn_attr (fs_node s1 n)) = VDIR" using n(3,6) ty by simp_all
  from tmpfs_vget_new [OF law(1) i1 n(5) ty1, of "vn_vfsp (fs_vnode s1 dvn)"] obtain v s2 where v: "tmpfs_vget e (vn_vfsp (fs_vnode s1 dvn)) n s1 = Some (v, s2)" "v \<noteq> 0" "v \<notin> V (fs_heap s1)"
    "tn_vn (fs_node s2 n) = v" "\<forall>m. tn_attr (fs_node s2 m) = tn_attr (fs_node s1 m) \<and> tn_entries (fs_node s2 m) = tn_entries (fs_node s1 m)"
    "vn_refcnt (fs_vnode s2 v) = 1" "vn_type (fs_vnode s2 v) = va_type (tn_attr (fs_node s1 n))" "vn_data (fs_vnode s2 v) = n" "\<forall>u. u \<noteq> v \<longrightarrow> fs_vnode s2 u = fs_vnode s1 u" by blast
  have cr: "tmp_create e dvn name (Some a) s = Some (v, s2)" using d(1,3) n(1,2,9) v(1) by (simp add: tmp_create_def)
  have dv: "fs_vnode s2 dvn = fs_vnode s dvn" using v(3,9) d(2) n(4,9) by auto
  have tl: "tlookup dn m s2 = (case tlookup dn m s of Some y \<Rightarrow> Some y | None \<Rightarrow> if m = name then Some \<lparr>td_name = name, td_node = n\<rparr> else None)" for m
    unfolding tlookup_def v(5) [rule_format, THEN conjunct2] n(8) tlookup_append by (auto split: option.splits)
  have found: "\<exists>s''. tmp_lookup e dvn name s2 = Some (Inr v, s'') \<and> vn_refcnt (fs_vnode s'' v) = 2" if "tlookup dn name s = None"
  proof -
    have "tlookup dn name s2 = Some \<lparr>td_name = name, td_node = n\<rparr>" using that tl by simp
    then show ?thesis using name d(3,5) dv v(2,4,5,6) n(7) by (simp add: tmp_lookup_def Let_def tmpfs_vget_def set_vnode_def)
  qed
  have "tmp_getattr v s2 = a\<lparr>va_size := 0\<rparr>" "vn_type (fs_vnode s2 v) = va_type a" using v(5,7,8) n(6) by (simp_all add: tmp_getattr_def)
  moreover have "tlookup dn m s2 = tlookup dn m s" if "m \<noteq> name" for m using tl [of m] that by (simp split: option.splits)
  ultimately show ?thesis using cr found tl [of name] by (intro exI [of _ v] exI [of _ s2]) (auto split: option.splits)
qed

subsection \<open>An environment with room for everything\<close>

text \<open>
  A heap that hands out addresses in order, nodes from 4, vnodes from 6 and memory objects from 9, and a kernel map that never runs out. The state has a
  root directory (node 4, vnode 6) with one subdirectory \<^verbatim>\<open>etc\<close> (node 5, vnode 7).
\<close>

type_synonym bump = "nat \<times> nat \<times> nat"

definition bump_env :: "bump fs_env" where
  "bump_env = \<lparr>fe_node = \<lambda>(a, b, c). Some (of_nat a, (a + 1, b, c)), fe_vnode = \<lambda>(a, b, c). Some (of_nat b, (a, b + 1, c)),
     fe_specdev = \<lambda>k. Some (0, k), fe_dirent = \<lambda>_ k. Some k, fe_aobj = \<lambda>_ (a, b, c). if 9 \<le> c \<and> c < 2 ^ 64 then Some (of_nat c, (a, b, c + 1)) else None, fe_map = \<lambda>_ _ k. Some (0x1000, k),
     fe_unmap = \<lambda>_ _ k. Some k, fe_cdev_open = \<lambda>_ _ _ k. Some (0, k), fe_cdev_read = \<lambda>_ _ _ _ k. Some ((0, []), k),
     fe_cdev_write = \<lambda>_ _ _ _ k. Some (0, k)\<rparr>"

definition bump_ok :: "nat \<Rightarrow> bump \<Rightarrow> bool" where
  "bump_ok n k \<longleftrightarrow> (case k of (a, b, c) \<Rightarrow> 4 \<le> a \<and> 6 \<le> b \<and> 9 \<le> c \<and> a + n < 2 ^ 64 \<and> b + n < 2 ^ 64 \<and> c + n < 2 ^ 64)"

definition bump_range :: "nat \<Rightarrow> nat \<Rightarrow> u64 set" where
  "bump_range lo hi = {x. lo \<le> unat x \<and> unat x < hi}"

definition bump_nodes :: "bump \<Rightarrow> tn_ref set" where
  "bump_nodes k = bump_range 4 (fst k)"

definition bump_vnodes :: "bump \<Rightarrow> vn_ref set" where
  "bump_vnodes k = bump_range 6 (fst (snd k))"

lemma bump_fresh:
  assumes "0 < a" and "b \<le> a" and "a < 2 ^ 64"
  shows "(of_nat a :: u64) \<noteq> 0" "(of_nat a :: u64) \<notin> bump_range b a" "bump_range b (Suc a) = insert (of_nat a) (bump_range b a)"
proof -
  have u: "unat (of_nat a :: u64) = a" using assms by (intro unat_of_nat64) simp
  then show "(of_nat a :: u64) \<noteq> 0" using assms(1) by (metis unat_0 less_irrefl)
  show "(of_nat a :: u64) \<notin> bump_range b a" using u by (simp add: bump_range_def)
  have "x = of_nat a \<longleftrightarrow> unat x = a" for x :: u64 using u by (metis word_unat_eq_iff)
  then show "bump_range b (Suc a) = insert (of_nat a) (bump_range b a)" using assms(2) u by (auto simp: bump_range_def less_Suc_eq)
qed

lemma bump_law: "fs_heap_law bump_env bump_ok bump_nodes bump_vnodes"
proof -
  have n: "\<exists>n k'. fe_node bump_env k = Some (n, k') \<and> n \<noteq> 0 \<and> n \<notin> bump_nodes k \<and> bump_ok c k' \<and> bump_nodes k' = insert n (bump_nodes k) \<and> bump_vnodes k' = bump_vnodes k"
    if "bump_ok (Suc c) k" for c k
    using that bump_fresh [of "fst k" 4] by (cases k) (auto simp: bump_ok_def bump_env_def bump_nodes_def bump_vnodes_def)
  have v: "\<exists>n k'. fe_vnode bump_env k = Some (n, k') \<and> n \<noteq> 0 \<and> n \<notin> bump_vnodes k \<and> bump_ok c k' \<and> bump_nodes k' = bump_nodes k \<and> bump_vnodes k' = insert n (bump_vnodes k)"
    if "bump_ok (Suc c) k" for c k
    using that bump_fresh [of "fst (snd k)" 6] by (cases k) (auto simp: bump_ok_def bump_env_def bump_nodes_def bump_vnodes_def)
  have b: "\<exists>b k'. fe_aobj bump_env sz k = Some (b, k') \<and> bump_ok c k' \<and> bump_nodes k' = bump_nodes k \<and> bump_vnodes k' = bump_vnodes k" if "bump_ok (Suc c) k" for c k sz
    using that by (cases k) (auto simp: bump_ok_def bump_env_def bump_nodes_def bump_vnodes_def)
  have "bump_ok (Suc c) k \<Longrightarrow> bump_ok c k" for c k by (cases k) (simp add: bump_ok_def)
  then show ?thesis unfolding fs_heap_law_def using n v b by (simp add: bump_env_def)
qed

definition small_node :: "vtype \<Rightarrow> tmpdirent list \<Rightarrow> tn_ref \<Rightarrow> vn_ref \<Rightarrow> tmpnode" where
  "small_node ty es par v = \<lparr>tn_vn = v, tn_attr = \<lparr>va_type = ty, va_mode = 0, va_size = 0, va_rdev = 0\<rparr>, tn_entries = es, tn_parent = par, tn_vmobj = 9\<rparr>"

definition small_vnode :: "vtype \<Rightarrow> tn_ref \<Rightarrow> vnode" where
  "small_vnode ty n = \<lparr>vn_refcnt = 1, vn_isroot = (n = 4), vn_type = ty, vn_vmobj = 9, vn_data = n, vn_vfsp = 3, vn_vfsmountedhere = 0, vn_ops = tmpfs_vnops, vn_specdev = 0\<rparr>"

definition small_fs :: "bump fs" where
  "small_fs = \<lparr>fs_node = (\<lambda>_. small_node VREG [] 0 0)(4 := small_node VDIR [\<lparr>td_name = ''etc'', td_node = 5\<rparr>] 0 6, 5 := small_node VDIR [] 4 7),
     fs_vnode = (\<lambda>_. small_vnode VREG 8)(6 := small_vnode VDIR 4, 7 := small_vnode VDIR 5), fs_vfs = \<lambda>_. \<lparr>vfs_vnodecovered = 0, vfs_data = 6\<rparr>,
     fs_specdevs = [], fs_specdev = \<lambda>_. \<lparr>sd_dev = 0, sd_vnodes = []\<rparr>, fs_cdevsw = [], fs_file = \<lambda>_ _. 0, fs_root_vnode = 6, fs_dev_vnode = 6, fs_heap = (6, 8, 10)\<rparr>"

lemmas small_defs = small_fs_def small_node_def small_vnode_def


theorem create_then_lookup_witness:
  "\<exists>v s' s''. tmp_create bump_env 6 ''motd'' (Some \<lparr>va_type = VREG, va_mode = 0, va_size = 7, va_rdev = 0\<rparr>) small_fs = Some (v, s') \<and>
     tmp_lookup bump_env 6 ''motd'' s' = Some (Inr v, s'')"
proof -
  let ?a = "\<lparr>va_type = VREG, va_mode = 0, va_size = 7, va_rdev = 0\<rparr>"
  have i: "bump_ok (0 + 4) (fs_heap small_fs)" by (simp add: bump_ok_def small_fs_def)
  have d: "vn_type (fs_vnode small_fs 6) = VDIR" "6 \<in> bump_vnodes (fs_heap small_fs)" "(4 :: u64) = vn_data (fs_vnode small_fs 6)"
    "4 \<in> bump_nodes (fs_heap small_fs)" "va_type (tn_attr (fs_node small_fs 4)) = VDIR" by (simp_all add: small_defs bump_vnodes_def bump_nodes_def bump_range_def)
  have n: "tlookup 4 ''motd'' small_fs = None" by (simp add: tlookup_def small_defs)
  show ?thesis using create_then_lookup [OF bump_law i d, of ?a "''motd''"] n by auto
qed

end
