(* ===== verification/Fs_Type.thy ===== *)
theory Fs_Type
  imports Fs_Spec
begin

text \<open>
  Types of nodes and vnodes agree: a vnode that was handed out has the type and the operations of its
  node, entries and parents of directories are nodes, and a directory that has children has a vnode.
  Every operation of the memory file system keeps this, and a lookup in such a state stops the kernel
  only when a path goes through something that is not a directory.
\<close>

subsection \<open>Well-typed file systems\<close>

definition ops_of :: "vtype \<Rightarrow> vnops" where
  "ops_of ty = (if ty = VCHR then tmpfs_spec_vnops else tmpfs_vnops)"

definition vnode_typed :: "tn_ref set \<Rightarrow> 'k fs \<Rightarrow> vn_ref \<Rightarrow> bool" where
  "vnode_typed ns s v \<longleftrightarrow> (let w = fs_vnode s v; n = fs_node s (vn_data w) in
     v \<noteq> 0 \<and> vn_data w \<in> ns \<and> tn_vn n = v \<and> vn_type w = va_type (tn_attr n) \<and> vn_ops w = ops_of (vn_type w) \<and> vn_vfsmountedhere w = 0 \<and>
     (vn_type w = VREG \<longrightarrow> vn_vmobj w = tn_vmobj n))"

definition node_typed :: "tn_ref set \<Rightarrow> vn_ref set \<Rightarrow> 'k fs \<Rightarrow> tn_ref \<Rightarrow> bool" where
  "node_typed ns vs s n \<longleftrightarrow> (let t = fs_node s n; p = fs_node s (tn_parent t) in
     (tn_vn t \<noteq> 0 \<longrightarrow> tn_vn t \<in> vs \<and> vn_data (fs_vnode s (tn_vn t)) = n) \<and>
     (va_type (tn_attr t) = VDIR \<longrightarrow> (\<forall>d \<in> set (tn_entries t). td_node d \<in> ns) \<and>
       (tn_parent t \<noteq> 0 \<longrightarrow> tn_parent t \<in> ns \<and> va_type (tn_attr p) = VDIR \<and> tn_vn p \<noteq> 0)))"

definition fs_typed :: "('k \<Rightarrow> tn_ref set) \<Rightarrow> ('k \<Rightarrow> vn_ref set) \<Rightarrow> 'k fs \<Rightarrow> bool" where
  "fs_typed N V s \<longleftrightarrow> (\<forall>v \<in> V (fs_heap s). vnode_typed (N (fs_heap s)) s v) \<and> (\<forall>n \<in> N (fs_heap s). node_typed (N (fs_heap s)) (V (fs_heap s)) s n)"

lemma fs_typedD:
  assumes "fs_typed N V s"
  shows fs_typed_vnode: "v \<in> V (fs_heap s) \<Longrightarrow> vnode_typed (N (fs_heap s)) s v"
    and fs_typed_node: "n \<in> N (fs_heap s) \<Longrightarrow> node_typed (N (fs_heap s)) (V (fs_heap s)) s n"
  using assms by (simp_all add: fs_typed_def)

lemma fs_law_weaken:
  assumes "fs_heap_law e I N V"
  shows "I (c + d) k \<Longrightarrow> I c k"
  by (induction d) (auto intro: fs_law_less [OF assms])

lemma vnode_typed_mono: "vnode_typed ns s v \<Longrightarrow> ns \<subseteq> ns' \<Longrightarrow> vnode_typed ns' s v"
  by (auto simp: vnode_typed_def Let_def)

lemma spec_setup_vnode_ok:
  assumes law: "fs_heap_law e I N V" "I (Suc c) (fs_heap s)"
  shows "\<exists>s' d. spec_setup_vnode e v dev s = Some s' \<and> I c (fs_heap s') \<and> N (fs_heap s') = N (fs_heap s) \<and> V (fs_heap s') = V (fs_heap s) \<and>
    fs_node s' = fs_node s \<and> fs_vnode s' = (fs_vnode s)(v := (fs_vnode s v)\<lparr>vn_specdev := d\<rparr>) \<and> fs_root_vnode s' = fs_root_vnode s \<and> fs_file s' = fs_file s"
proof (cases "find (\<lambda>sd. sd_dev (fs_specdev s sd) = dev) (fs_specdevs s)")
  case None
  from fs_law_specdev [OF law] obtain d k where "fe_specdev e (fs_heap s) = Some (d, k)" "I c k" "N k = N (fs_heap s)" "V k = V (fs_heap s)" by blast
  then show ?thesis using None by (simp add: spec_setup_vnode_def Let_def set_vnode_def) blast
next
  case (Some sd)
  then show ?thesis using fs_law_less [OF law] by (simp add: spec_setup_vnode_def Let_def set_vnode_def) blast
qed

text \<open>The effect of \<^verbatim>\<open>tmpfs_vget\<close>: the vnode of the node, made when there is none.\<close>

lemma vget_ok:
  assumes law: "fs_heap_law e I N V" "I (c + 2) (fs_heap s)"
  shows "\<exists>v s'. tmpfs_vget e fsys n s = Some (v, s') \<and> I c (fs_heap s') \<and> N (fs_heap s') = N (fs_heap s) \<and> v \<noteq> 0 \<and> fs_root_vnode s' = fs_root_vnode s \<and> fs_file s' = fs_file s \<and>
    (if tn_vn (fs_node s n) \<noteq> 0 then v = tn_vn (fs_node s n) \<and> V (fs_heap s') = V (fs_heap s) \<and> fs_node s' = fs_node s \<and>
       fs_vnode s' = (fs_vnode s)(v := (fs_vnode s v)\<lparr>vn_refcnt := vn_refcnt (fs_vnode s v) + 1\<rparr>)
     else v \<notin> V (fs_heap s) \<and> V (fs_heap s') = insert v (V (fs_heap s)) \<and> fs_node s' = (fs_node s)(n := (fs_node s n)\<lparr>tn_vn := v\<rparr>) \<and>
       vn_data (fs_vnode s' v) = n \<and> vn_type (fs_vnode s' v) = va_type (tn_attr (fs_node s n)) \<and> vn_ops (fs_vnode s' v) = ops_of (vn_type (fs_vnode s' v)) \<and>
       vn_vfsmountedhere (fs_vnode s' v) = 0 \<and> (va_type (tn_attr (fs_node s n)) = VREG \<longrightarrow> vn_vmobj (fs_vnode s' v) = tn_vmobj (fs_node s n)) \<and>
       (\<forall>u. u \<noteq> v \<longrightarrow> fs_vnode s' u = fs_vnode s u))"
proof (cases "tn_vn (fs_node s n) = 0")
  case False
  then show ?thesis using fs_law_weaken [OF law(1), of c 2] law(2) by (simp add: tmpfs_vget_def set_vnode_def)
next
  case True
  have i: "I (Suc (Suc c)) (fs_heap s)" using law(2) by simp
  from fs_law_vnode [OF law(1) i] obtain v k where v: "fe_vnode e (fs_heap s) = Some (v, k)" "v \<noteq> 0" "v \<notin> V (fs_heap s)" "I (Suc c) k" "N k = N (fs_heap s)" "V k = insert v (V (fs_heap s))" by blast
  define ty where "ty = va_type (tn_attr (fs_node s n))"
  define s2 where "s2 = set_vnode v (\<lambda>w. w\<lparr>vn_refcnt := 1, vn_type := ty, vn_ops := (if ty = VCHR then tmpfs_spec_vnops else tmpfs_vnops),
          vn_vfsp := fsys, vn_vfsmountedhere := 0, vn_isroot := False\<rparr>) (set_node n (\<lambda>m. m\<lparr>tn_vn := v\<rparr>) (s\<lparr>fs_heap := k\<rparr>))"
  have h2: "fs_heap s2 = k" "fs_node s2 = (fs_node s)(n := (fs_node s n)\<lparr>tn_vn := v\<rparr>)" "fs_root_vnode s2 = fs_root_vnode s" "fs_file s2 = fs_file s" "\<And>u. u \<noteq> v \<Longrightarrow> fs_vnode s2 u = fs_vnode s u"
     "vn_type (fs_vnode s2 v) = ty" "vn_ops (fs_vnode s2 v) = ops_of ty" "vn_vfsmountedhere (fs_vnode s2 v) = 0" by (simp_all add: s2_def fs_set_defs ops_of_def)
  have ic: "I c k" by (rule fs_law_less [OF law(1) v(4)])
  have eq: "tmpfs_vget e fsys n s = do {
      s3 \<leftarrow> (if ty = VREG then Some (set_vnode v (\<lambda>w. w\<lparr>vn_vmobj := tn_vmobj (fs_node s2 n)\<rparr>) s2)
               else if ty = VCHR then spec_setup_vnode e v (va_rdev (tn_attr (fs_node s2 n))) s2 else Some s2);
      Some (v, set_vnode v (\<lambda>w. w\<lparr>vn_data := n\<rparr>) s3) }"
    unfolding tmpfs_vget_def using True v(1) by (simp add: Let_def s2_def ty_def fs_set_defs)
  show ?thesis
  proof (cases "ty = VCHR")
    case True
    from spec_setup_vnode_ok [OF law(1), of c s2 v "va_rdev (tn_attr (fs_node s2 n))"] v(4) h2(1) obtain s3 d where
      "spec_setup_vnode e v (va_rdev (tn_attr (fs_node s2 n))) s2 = Some s3" "I c (fs_heap s3)" "N (fs_heap s3) = N k" "V (fs_heap s3) = V k"
      "fs_node s3 = fs_node s2" "fs_vnode s3 = (fs_vnode s2)(v := (fs_vnode s2 v)\<lparr>vn_specdev := d\<rparr>)" "fs_root_vnode s3 = fs_root_vnode s2" "fs_file s3 = fs_file s2" by auto
    then show ?thesis unfolding eq using True v h2 \<open>tn_vn (fs_node s n) = 0\<close> by (simp add: set_vnode_def ty_def)
  next
    case False
    then show ?thesis unfolding eq using v h2 ic \<open>tn_vn (fs_node s n) = 0\<close> by (simp add: set_vnode_def ty_def)
  qed
qed

text \<open>Nodes and vnodes are never taken away and keep their types.\<close>

definition fs_grows :: "('k \<Rightarrow> tn_ref set) \<Rightarrow> ('k \<Rightarrow> vn_ref set) \<Rightarrow> 'k fs \<Rightarrow> 'k fs \<Rightarrow> bool" where
  "fs_grows N V s s' \<longleftrightarrow> N (fs_heap s) \<subseteq> N (fs_heap s') \<and> V (fs_heap s) \<subseteq> V (fs_heap s') \<and> fs_root_vnode s' = fs_root_vnode s \<and>
     (\<forall>v \<in> V (fs_heap s). vn_data (fs_vnode s' v) = vn_data (fs_vnode s v) \<and> vn_type (fs_vnode s' v) = vn_type (fs_vnode s v))"

text \<open>
  The same nodes with the same contents: looking names up and making vnodes changes no more than the
  pointers from nodes to vnodes and the reference counts.
\<close>

definition same_tree :: "('k \<Rightarrow> tn_ref set) \<Rightarrow> 'k fs \<Rightarrow> 'k fs \<Rightarrow> bool" where
  "same_tree N s s' \<longleftrightarrow> N (fs_heap s') = N (fs_heap s) \<and> fs_file s' = fs_file s \<and>
     (\<forall>m. tn_attr (fs_node s' m) = tn_attr (fs_node s m) \<and> tn_entries (fs_node s' m) = tn_entries (fs_node s m) \<and>
       tn_parent (fs_node s' m) = tn_parent (fs_node s m) \<and> tn_vmobj (fs_node s' m) = tn_vmobj (fs_node s m))"

lemma same_tree_refl: "same_tree N s s"
  by (simp add: same_tree_def)

lemma same_treeD:
  assumes "same_tree N s s'"
  shows "N (fs_heap s') = N (fs_heap s)" "fs_file s' = fs_file s" "tn_attr (fs_node s' m) = tn_attr (fs_node s m)" "tn_entries (fs_node s' m) = tn_entries (fs_node s m)"
    "tn_parent (fs_node s' m) = tn_parent (fs_node s m)" "tn_vmobj (fs_node s' m) = tn_vmobj (fs_node s m)"
  using assms by (simp_all add: same_tree_def)

lemma fs_grows_refl: "fs_grows N V s s"
  by (simp add: fs_grows_def)

lemma fs_grows_trans: "fs_grows N V s t \<Longrightarrow> fs_grows N V t u \<Longrightarrow> fs_grows N V s u"
  unfolding fs_grows_def by (auto simp: subset_iff)

lemma vnode_typedI:
  assumes "v \<noteq> 0" "vn_data (fs_vnode s v) \<in> ns" "tn_vn (fs_node s (vn_data (fs_vnode s v))) = v"
    "vn_type (fs_vnode s v) = va_type (tn_attr (fs_node s (vn_data (fs_vnode s v))))" "vn_ops (fs_vnode s v) = ops_of (vn_type (fs_vnode s v))" "vn_vfsmountedhere (fs_vnode s v) = 0"
    "vn_type (fs_vnode s v) = VREG \<longrightarrow> vn_vmobj (fs_vnode s v) = tn_vmobj (fs_node s (vn_data (fs_vnode s v)))"
  shows "vnode_typed ns s v"
  using assms by (simp add: vnode_typed_def)

lemma vnode_typedD:
  assumes "vnode_typed ns s v"
  shows "v \<noteq> 0" "vn_data (fs_vnode s v) \<in> ns" "tn_vn (fs_node s (vn_data (fs_vnode s v))) = v"
    "vn_type (fs_vnode s v) = va_type (tn_attr (fs_node s (vn_data (fs_vnode s v))))" "vn_ops (fs_vnode s v) = ops_of (vn_type (fs_vnode s v))" "vn_vfsmountedhere (fs_vnode s v) = 0"
    "vn_type (fs_vnode s v) = VREG \<longrightarrow> vn_vmobj (fs_vnode s v) = tn_vmobj (fs_node s (vn_data (fs_vnode s v)))"
  using assms by (simp_all add: vnode_typed_def Let_def)

lemma node_typedD:
  assumes "node_typed ns vs s n"
  shows "tn_vn (fs_node s n) \<noteq> 0 \<Longrightarrow> tn_vn (fs_node s n) \<in> vs \<and> vn_data (fs_vnode s (tn_vn (fs_node s n))) = n"
    "va_type (tn_attr (fs_node s n)) = VDIR \<Longrightarrow> d \<in> set (tn_entries (fs_node s n)) \<Longrightarrow> td_node d \<in> ns"
    "va_type (tn_attr (fs_node s n)) = VDIR \<Longrightarrow> tn_parent (fs_node s n) \<noteq> 0 \<Longrightarrow> tn_parent (fs_node s n) \<in> ns \<and>
       va_type (tn_attr (fs_node s (tn_parent (fs_node s n)))) = VDIR \<and> tn_vn (fs_node s (tn_parent (fs_node s n))) \<noteq> 0"
  using assms by (auto simp: node_typed_def Let_def)

lemma node_typedI:
  assumes "tn_vn (fs_node s n) \<noteq> 0 \<Longrightarrow> tn_vn (fs_node s n) \<in> vs \<and> vn_data (fs_vnode s (tn_vn (fs_node s n))) = n"
    "\<And>d. va_type (tn_attr (fs_node s n)) = VDIR \<Longrightarrow> d \<in> set (tn_entries (fs_node s n)) \<Longrightarrow> td_node d \<in> ns"
    "va_type (tn_attr (fs_node s n)) = VDIR \<Longrightarrow> tn_parent (fs_node s n) \<noteq> 0 \<Longrightarrow> tn_parent (fs_node s n) \<in> ns \<and>
       va_type (tn_attr (fs_node s (tn_parent (fs_node s n)))) = VDIR \<and> tn_vn (fs_node s (tn_parent (fs_node s n))) \<noteq> 0"
  shows "node_typed ns vs s n"
  using assms by (auto simp: node_typed_def Let_def)

lemma vget_typed:
  assumes law: "fs_heap_law e I N V" "I (c + 2) (fs_heap s)" and wf: "fs_typed N V s" and n: "n \<in> N (fs_heap s)"
  shows "\<exists>v s'. tmpfs_vget e fsys n s = Some (v, s') \<and> I c (fs_heap s') \<and> fs_typed N V s' \<and> fs_grows N V s s' \<and>
    v \<in> V (fs_heap s') \<and> vn_data (fs_vnode s' v) = n \<and> same_tree N s s'"
proof -
  obtain v s' where g: "tmpfs_vget e fsys n s = Some (v, s')" "I c (fs_heap s')" "N (fs_heap s') = N (fs_heap s)" "v \<noteq> 0" "fs_root_vnode s' = fs_root_vnode s" "fs_file s' = fs_file s"
    and c: "if tn_vn (fs_node s n) \<noteq> 0 then v = tn_vn (fs_node s n) \<and> V (fs_heap s') = V (fs_heap s) \<and> fs_node s' = fs_node s \<and>
       fs_vnode s' = (fs_vnode s)(v := (fs_vnode s v)\<lparr>vn_refcnt := vn_refcnt (fs_vnode s v) + 1\<rparr>)
     else v \<notin> V (fs_heap s) \<and> V (fs_heap s') = insert v (V (fs_heap s)) \<and> fs_node s' = (fs_node s)(n := (fs_node s n)\<lparr>tn_vn := v\<rparr>) \<and>
       vn_data (fs_vnode s' v) = n \<and> vn_type (fs_vnode s' v) = va_type (tn_attr (fs_node s n)) \<and> vn_ops (fs_vnode s' v) = ops_of (vn_type (fs_vnode s' v)) \<and>
       vn_vfsmountedhere (fs_vnode s' v) = 0 \<and> (va_type (tn_attr (fs_node s n)) = VREG \<longrightarrow> vn_vmobj (fs_vnode s' v) = tn_vmobj (fs_node s n)) \<and>
       (\<forall>u. u \<noteq> v \<longrightarrow> fs_vnode s' u = fs_vnode s u)"
    using vget_ok [OF law, of fsys n] by blast
  note vt = fs_typed_vnode [OF wf, THEN vnode_typedD(1)] fs_typed_vnode [OF wf, THEN vnode_typedD(2)] fs_typed_vnode [OF wf, THEN vnode_typedD(3)]
    fs_typed_vnode [OF wf, THEN vnode_typedD(4)] fs_typed_vnode [OF wf, THEN vnode_typedD(5)] fs_typed_vnode [OF wf, THEN vnode_typedD(6)] fs_typed_vnode [OF wf, THEN vnode_typedD(7)]
  note nt = node_typedD [OF fs_typed_node [OF wf]]
  show ?thesis
  proof (cases "tn_vn (fs_node s n) = 0")
    case False
    then have f: "v = tn_vn (fs_node s n)" "V (fs_heap s') = V (fs_heap s)" "fs_node s' = fs_node s" "fs_vnode s' = (fs_vnode s)(v := (fs_vnode s v)\<lparr>vn_refcnt := vn_refcnt (fs_vnode s v) + 1\<rparr>)"
      using c by simp_all
    have fv: "vn_vmobj (fs_vnode s' u) = vn_vmobj (fs_vnode s u)" "vn_data (fs_vnode s' u) = vn_data (fs_vnode s u)" "vn_type (fs_vnode s' u) = vn_type (fs_vnode s u)" "vn_ops (fs_vnode s' u) = vn_ops (fs_vnode s u)"
      "vn_vfsmountedhere (fs_vnode s' u) = vn_vfsmountedhere (fs_vnode s u)" for u by (simp_all add: f(4))
    have "vnode_typed (N (fs_heap s)) s' u" if "u \<in> V (fs_heap s)" for u
      using vt [OF that] by (intro vnode_typedI) (simp_all add: f(3) fv)
    moreover have "node_typed (N (fs_heap s)) (V (fs_heap s)) s' m" if "m \<in> N (fs_heap s)" for m
      using nt [OF that] by (intro node_typedI) (simp_all add: f(3) fv)
    ultimately have "fs_typed N V s'" using g(3) f(2) by (simp add: fs_typed_def)
    moreover have "v \<in> V (fs_heap s')" "vn_data (fs_vnode s' v) = n" using nt(1) [OF n False] f by simp_all
    ultimately show ?thesis using g f fv by (auto simp: fs_grows_def same_tree_def)
  next
    case True
    then have f: "v \<notin> V (fs_heap s)" "V (fs_heap s') = insert v (V (fs_heap s))" "fs_node s' = (fs_node s)(n := (fs_node s n)\<lparr>tn_vn := v\<rparr>)"
       "vn_data (fs_vnode s' v) = n" "vn_type (fs_vnode s' v) = va_type (tn_attr (fs_node s n))" "vn_ops (fs_vnode s' v) = ops_of (vn_type (fs_vnode s' v))"
       "vn_vfsmountedhere (fs_vnode s' v) = 0" "\<And>u. u \<noteq> v \<Longrightarrow> fs_vnode s' u = fs_vnode s u" "va_type (tn_attr (fs_node s n)) = VREG \<longrightarrow> vn_vmobj (fs_vnode s' v) = tn_vmobj (fs_node s n)"
      using c by simp_all
    have "vnode_typed (N (fs_heap s)) s' u" if "u \<in> V (fs_heap s)" for u
    proof -
      have uv: "u \<noteq> v" using that f(1) by auto
      have "vn_data (fs_vnode s u) \<noteq> n" using vt(1,3) [OF that] True by auto
      then show ?thesis using vt [OF that] f(8) [OF uv] by (intro vnode_typedI) (simp_all add: f(3))
    qed
    moreover have "vnode_typed (N (fs_heap s)) s' v" using n g(4) f(4-7,9) by (intro vnode_typedI) (simp_all add: f(3))
    moreover have "node_typed (N (fs_heap s)) (insert v (V (fs_heap s))) s' m" if "m \<in> N (fs_heap s)" for m
    proof (rule node_typedI)
      assume a: "tn_vn (fs_node s' m) \<noteq> 0"
      show "tn_vn (fs_node s' m) \<in> insert v (V (fs_heap s)) \<and> vn_data (fs_vnode s' (tn_vn (fs_node s' m))) = m"
      proof (cases "m = n")
        case False
        then have "tn_vn (fs_node s m) \<in> V (fs_heap s)" "vn_data (fs_vnode s (tn_vn (fs_node s m))) = m" using nt(1) [OF that] a by (simp_all add: f(3))
        moreover then have "tn_vn (fs_node s m) \<noteq> v" using f(1) by auto
        ultimately show ?thesis using False f(8) by (simp add: f(3))
      qed (simp add: f(3,4))
    next
      fix d assume "va_type (tn_attr (fs_node s' m)) = VDIR" "d \<in> set (tn_entries (fs_node s' m))"
      then show "td_node d \<in> N (fs_heap s)" using nt(2) [OF that, of d] by (simp add: f(3) split: if_splits)
    next
      assume "va_type (tn_attr (fs_node s' m)) = VDIR" "tn_parent (fs_node s' m) \<noteq> 0"
      then show "tn_parent (fs_node s' m) \<in> N (fs_heap s) \<and> va_type (tn_attr (fs_node s' (tn_parent (fs_node s' m)))) = VDIR \<and> tn_vn (fs_node s' (tn_parent (fs_node s' m))) \<noteq> 0"
        using nt(3) [OF that] g(4) by (auto simp: f(3) split: if_splits)
    qed
    ultimately have "fs_typed N V s'" using g(3) f(2) by (simp add: fs_typed_def)
    moreover have old: "fs_vnode s' u = fs_vnode s u" if "u \<in> V (fs_heap s)" for u using f(8) [of u] f(1) that by metis
    then have "fs_grows N V s s'" using g(3,5) f(2) by (auto simp: fs_grows_def)
    moreover have "same_tree N s s'" by (simp add: same_tree_def g(3,6) f(3))
    ultimately show ?thesis using g f by simp
  qed
qed

subsection \<open>Creating and looking up\<close>

lemma tmakenode_effect:
  assumes law: "fs_heap_law e I N V" "I (c + 3) (fs_heap s)" and ty: "va_type a \<noteq> VNON" and dn: "dn \<in> N (fs_heap s)"
  shows "\<exists>n s'. tmakenode e dn name (Some a) s = Some (n, s') \<and> n \<noteq> 0 \<and> n \<notin> N (fs_heap s) \<and> I c (fs_heap s') \<and> N (fs_heap s') = insert n (N (fs_heap s)) \<and>
    V (fs_heap s') = V (fs_heap s) \<and> fs_vnode s' = fs_vnode s \<and> fs_root_vnode s' = fs_root_vnode s \<and>
    tn_vn (fs_node s' n) = 0 \<and> tn_attr (fs_node s' n) = a\<lparr>va_size := 0\<rparr> \<and> (va_type a = VDIR \<longrightarrow> tn_entries (fs_node s' n) = [] \<and> tn_parent (fs_node s' n) = dn) \<and>
    fs_node s' dn = (fs_node s dn)\<lparr>tn_entries := tn_entries (fs_node s dn) @ [\<lparr>td_name = name, td_node = n\<rparr>]\<rparr> \<and> (\<forall>m. m \<noteq> n \<and> m \<noteq> dn \<longrightarrow> fs_node s' m = fs_node s m)"
proof -
  have i: "I (Suc (Suc (Suc c))) (fs_heap s)" using law(2) by (simp add: numeral_eq_Suc)
  from fs_law_node [OF law(1) i] obtain n k1 where n: "fe_node e (fs_heap s) = Some (n, k1)" "n \<noteq> 0" "n \<notin> N (fs_heap s)" "I (Suc (Suc c)) k1" "N k1 = insert n (N (fs_heap s))" "V k1 = V (fs_heap s)" by blast
  from fs_law_dirent [OF law(1) n(4)] obtain k2 where k2: "fe_dirent e name k1 = Some k2" "I (Suc c) k2" "N k2 = N k1" "V k2 = V k1" by blast
  from fs_law_aobj [OF law(1) k2(2), of "0xffffffff"] obtain b k3 where k3: "fe_aobj e 0xffffffff k2 = Some (b, k3)" "I c k3" "N k3 = N k2" "V k3 = V k2" by blast
  have ne: "n \<noteq> dn" using n(3) dn by auto
  have ic: "I c k2" by (rule fs_law_less [OF law(1) k2(2)])
  show ?thesis
  proof (cases "va_type a")
    case VREG
    then show ?thesis using n k2 k3 ne by (simp add: tmakenode_def Let_def fs_set_defs)
  next
    case VDIR
    then show ?thesis using n k2 ne ic by (simp add: tmakenode_def Let_def fs_set_defs)
  next
    case VCHR
    then show ?thesis using n k2 ne ic by (simp add: tmakenode_def Let_def fs_set_defs)
  qed (use ty in simp)
qed

lemma tmakenode_typed:
  assumes law: "fs_heap_law e I N V" "I (c + 3) (fs_heap s)" and wf: "fs_typed N V s" and ty: "va_type a \<noteq> VNON"
    and dn: "dn \<in> N (fs_heap s)" "va_type (tn_attr (fs_node s dn)) = VDIR" "tn_vn (fs_node s dn) \<noteq> 0"
  shows "\<exists>n s'. tmakenode e dn name (Some a) s = Some (n, s') \<and> n \<noteq> 0 \<and> n \<in> N (fs_heap s') \<and> I c (fs_heap s') \<and> fs_typed N V s' \<and> fs_grows N V s s' \<and> va_type (tn_attr (fs_node s' n)) = va_type a"
proof -
  obtain n s' where g: "tmakenode e dn name (Some a) s = Some (n, s')" "n \<noteq> 0" "n \<notin> N (fs_heap s)" "I c (fs_heap s')" "N (fs_heap s') = insert n (N (fs_heap s))"
    "V (fs_heap s') = V (fs_heap s)" "fs_vnode s' = fs_vnode s" "fs_root_vnode s' = fs_root_vnode s"
    and n: "tn_vn (fs_node s' n) = 0" "tn_attr (fs_node s' n) = a\<lparr>va_size := 0\<rparr>" "va_type a = VDIR \<longrightarrow> tn_entries (fs_node s' n) = [] \<and> tn_parent (fs_node s' n) = dn"
    and d: "fs_node s' dn = (fs_node s dn)\<lparr>tn_entries := tn_entries (fs_node s dn) @ [\<lparr>td_name = name, td_node = n\<rparr>]\<rparr>" and o: "\<forall>m. m \<noteq> n \<and> m \<noteq> dn \<longrightarrow> fs_node s' m = fs_node s m"
    using tmakenode_effect [OF law ty dn(1), of name] by blast
  have old: "tn_vn (fs_node s' m) = tn_vn (fs_node s m)" "tn_attr (fs_node s' m) = tn_attr (fs_node s m)" "tn_parent (fs_node s' m) = tn_parent (fs_node s m)"
    "tn_vmobj (fs_node s' m) = tn_vmobj (fs_node s m)" "set (tn_entries (fs_node s' m)) \<subseteq> insert \<lparr>td_name = name, td_node = n\<rparr> (set (tn_entries (fs_node s m)))" if "m \<in> N (fs_heap s)" for m
  proof -
    have "m \<noteq> n" using that g(3) by auto
    then have "fs_node s' m = fs_node s m \<or> m = dn" using o by auto
    then show "tn_vn (fs_node s' m) = tn_vn (fs_node s m)" "tn_attr (fs_node s' m) = tn_attr (fs_node s m)" "tn_parent (fs_node s' m) = tn_parent (fs_node s m)"
      "tn_vmobj (fs_node s' m) = tn_vmobj (fs_node s m)" "set (tn_entries (fs_node s' m)) \<subseteq> insert \<lparr>td_name = name, td_node = n\<rparr> (set (tn_entries (fs_node s m)))" using d by auto
  qed
  have "vnode_typed (N (fs_heap s')) s' u" if "u \<in> V (fs_heap s)" for u
    using vnode_typedD [OF fs_typed_vnode [OF wf that]] by (intro vnode_typedI) (simp_all add: g(5,7) old)
  moreover have "node_typed (N (fs_heap s')) (V (fs_heap s)) s' m" if m: "m \<in> N (fs_heap s)" for m
  proof -
    note nt = node_typedD [OF fs_typed_node [OF wf m]]
    show ?thesis
    proof (rule node_typedI)
      fix x assume "va_type (tn_attr (fs_node s' m)) = VDIR" "x \<in> set (tn_entries (fs_node s' m))"
      then show "td_node x \<in> N (fs_heap s')" using nt(2) [of x] old [OF m] by (auto simp: g(5))
    qed (use nt(1,3) in \<open>auto simp: g(5,7) old m\<close>)
  qed
  moreover have "node_typed (N (fs_heap s')) (V (fs_heap s)) s' n"
    using n dn old [OF dn(1)] by (intro node_typedI) (auto simp: g(5))
  ultimately have "fs_typed N V s'" unfolding fs_typed_def g(6) by (auto simp: g(5))
  moreover have "fs_grows N V s s'" by (auto simp: fs_grows_def g)
  ultimately show ?thesis using g n(2) by auto
qed

lemma create_typed:
  assumes law: "fs_heap_law e I N V" "I (c + 5) (fs_heap s)" and wf: "fs_typed N V s" and ty: "va_type a \<noteq> VNON" and v: "v \<in> V (fs_heap s)" "vn_type (fs_vnode s v) = VDIR"
  shows "\<exists>w s'. vop_create e v name (Some a) s = Some (w, s') \<and> I c (fs_heap s') \<and> fs_typed N V s' \<and> fs_grows N V s s' \<and> w \<in> V (fs_heap s') \<and> vn_type (fs_vnode s' w) = va_type a"
proof -
  note vt = vnode_typedD [OF fs_typed_vnode [OF wf v(1)]]
  let ?dn = "vn_data (fs_vnode s v)"
  have i: "I ((c + 2) + 3) (fs_heap s)" using law(2) by (simp add: ac_simps)
  from tmakenode_typed [OF law(1) i wf ty vt(2), of name] vt v(2) obtain n s1 where
    n: "tmakenode e ?dn name (Some a) s = Some (n, s1)" "n \<noteq> 0" "n \<in> N (fs_heap s1)" "I (c + 2) (fs_heap s1)" "fs_typed N V s1" "fs_grows N V s s1" "va_type (tn_attr (fs_node s1 n)) = va_type a"
    by auto
  from vget_typed [OF law(1) n(4,5,3), of "vn_vfsp (fs_vnode s1 v)"] obtain w s2 where
    w: "tmpfs_vget e (vn_vfsp (fs_vnode s1 v)) n s1 = Some (w, s2)" "I c (fs_heap s2)" "fs_typed N V s2" "fs_grows N V s1 s2" "w \<in> V (fs_heap s2)" "vn_data (fs_vnode s2 w) = n"
      "tn_attr (fs_node s2 n) = tn_attr (fs_node s1 n)" using same_treeD(3) by blast
  have "vn_type (fs_vnode s2 w) = va_type a" using vnode_typedD(4) [OF fs_typed_vnode [OF w(3,5)]] w(6,7) n(7) by simp
  moreover have "vop_create e v name (Some a) s = Some (w, s2)" using vt v(2) n(1,2) w(1) by (simp add: vop_create_def tmp_create_def ops_of_def)
  ultimately show ?thesis using w fs_grows_trans [OF n(6) w(4)] by blast
qed

text \<open>The node that a name stands for in a directory.\<close>

definition child :: "string \<Rightarrow> tn_ref \<Rightarrow> 'k fs \<Rightarrow> tn_ref option" where
  "child c n s = (if c = ''..'' then Some (if tn_parent (fs_node s n) = 0 then n else tn_parent (fs_node s n)) else map_option td_node (tlookup n c s))"

lemma child_typed:
  assumes wf: "fs_typed N V s" and n: "n \<in> N (fs_heap s)" "va_type (tn_attr (fs_node s n)) = VDIR" and m: "child c n s = Some m"
  shows "m \<in> N (fs_heap s)"
proof (cases "c = ''..''")
  case True
  then show ?thesis using n m node_typedD(3) [OF fs_typed_node [OF wf n(1)] n(2)] by (auto simp: child_def split: if_splits)
next
  case False
  then obtain d where d: "tlookup n c s = Some d" "m = td_node d" using m by (auto simp: child_def)
  then have "d \<in> set (tn_entries (fs_node s n))" by (auto simp: tlookup_def find_Some_iff)
  then show ?thesis using node_typedD(2) [OF fs_typed_node [OF wf n(1)] n(2)] d(2) by simp
qed

lemma lookup_child:
  assumes law: "fs_heap_law e I N V" "I (c + 2) (fs_heap s)" and wf: "fs_typed N V s" and v: "v \<in> V (fs_heap s)" "vn_type (fs_vnode s v) = VDIR"
  shows "case child name (vn_data (fs_vnode s v)) s of
      None \<Rightarrow> vop_lookup e v name s = Some (Inl (- ENOENT), s)
    | Some m \<Rightarrow> \<exists>w s'. vop_lookup e v name s = Some (Inr w, s') \<and> I c (fs_heap s') \<and> fs_typed N V s' \<and> fs_grows N V s s' \<and> same_tree N s s' \<and> w \<in> V (fs_heap s') \<and> vn_data (fs_vnode s' w) = m"
proof -
  note vt = vnode_typedD [OF fs_typed_vnode [OF wf v(1)]]
  let ?n = "vn_data (fs_vnode s v)"
  have d: "va_type (tn_attr (fs_node s ?n)) = VDIR" using vt(4) v(2) by simp
  have ic: "I c (fs_heap s)" using fs_law_weaken [OF law(1), of c 2] law(2) by simp
  have eq: "vop_lookup e v name s = tmp_lookup e v name s" using vt v(2) by (simp add: vop_lookup_def ops_of_def)
  show ?thesis
  proof (cases "name = ''..''")
    case True
    let ?p = "tn_parent (fs_node s ?n)"
    have "?p \<noteq> 0 \<Longrightarrow> tn_vn (fs_node s ?p) \<in> V (fs_heap s) \<and> vn_data (fs_vnode s (tn_vn (fs_node s ?p))) = ?p"
      using node_typedD(3) [OF fs_typed_node [OF wf vt(2)] d] node_typedD(1) [OF fs_typed_node [OF wf]] by blast
    then show ?thesis using True d v(1) ic wf unfolding eq by (simp add: tmp_lookup_def Let_def child_def fs_grows_refl same_tree_refl)
  next
    case False
    show ?thesis
    proof (cases "tlookup ?n name s")
      case None
      then show ?thesis using False d unfolding eq by (simp add: tmp_lookup_def Let_def child_def)
    next
      case (Some x)
      then have "td_node x \<in> N (fs_heap s)" using child_typed [OF wf vt(2) d, of name "td_node x"] False by (simp add: child_def)
      from vget_typed [OF law wf this, of "vn_vfsp (fs_vnode s v)"] show ?thesis using Some False d unfolding eq
        by (auto simp: tmp_lookup_def Let_def child_def)
    qed
  qed
qed

lemma lookup_typed:
  assumes law: "fs_heap_law e I N V" "I (c + 2) (fs_heap s)" and wf: "fs_typed N V s" and v: "v \<in> V (fs_heap s)" "vn_type (fs_vnode s v) = VDIR"
  shows "\<exists>r s'. vop_lookup e v name s = Some (r, s') \<and> I c (fs_heap s') \<and> fs_typed N V s' \<and> fs_grows N V s s' \<and> (case r of Inl err \<Rightarrow> err = - ENOENT | Inr w \<Rightarrow> w \<in> V (fs_heap s'))"
proof (cases "child name (vn_data (fs_vnode s v)) s")
  case None
  then show ?thesis using lookup_child [OF law wf v, of name] wf fs_law_weaken [OF law(1), of c 2] law(2) by (simp add: fs_grows_refl)
next
  case (Some m)
  then show ?thesis using lookup_child [OF law wf v, of name] by auto
qed

subsection \<open>Paths\<close>

text \<open>The loop over the components of a path, empty ones included; the last one may be created.\<close>

fun walk :: "'k fs_env \<Rightarrow> bool \<Rightarrow> vattr option \<Rightarrow> string list \<Rightarrow> vn_ref \<Rightarrow> 'k fs \<Rightarrow> ((int + vn_ref) \<times> 'k fs) option" where
  "walk e creat attr [] vn s = Some (Inr vn, s)"
| "walk e creat attr (c # cs) vn s = do {
     (r, s1) \<leftarrow> lookup_component e creat attr (cs = []) c vn s;
     (case r of Inl err \<Rightarrow> Some (Inl err, s1) | Inr v \<Rightarrow> walk e creat attr cs v s1)
   }"

lemma vfs_loop_walk: "vfs_loop e creat attr sub vn s = walk e creat attr (split_path sub) vn s"
proof (induction "length sub" arbitrary: sub vn s rule: less_induct)
  case less
  let ?P = "\<lambda>c. c \<noteq> CHR ''/''"
  show ?case
  proof (cases "dropWhile ?P sub")
    case Nil
    show ?thesis by (subst vfs_loop.simps, subst split_path.simps) (simp only: Nil Let_def list.case walk.simps refl if_True simp_thms cong: sum.case_cong)
  next
    case (Cons x rest)
    have "length (x # rest) \<le> length sub" using Cons length_dropWhile_le [of ?P sub] by simp
    then have IH: "vfs_loop e creat attr rest v t = walk e creat attr (split_path rest) v t" for v t by (intro less) simp
    have ne: "split_path rest \<noteq> []" by (subst split_path.simps) simp
    show ?thesis by (subst vfs_loop.simps, subst split_path.simps) (simp add: Cons Let_def IH ne cong: sum.case_cong)
  qed
qed

lemma split_path_length: "length (split_path p) \<le> length p + 1"
proof (induction "length p" arbitrary: p rule: less_induct)
  case less
  show ?case
  proof (cases "dropWhile (\<lambda>c. c \<noteq> CHR ''/'') p")
    case (Cons x rest)
    then have "length (x # rest) \<le> length p" using length_dropWhile_le [of "\<lambda>c. c \<noteq> CHR ''/''" p] by simp
    moreover then have "length (split_path rest) \<le> length rest + 1" by (intro less) simp
    ultimately show ?thesis using Cons by (subst split_path.simps) simp
  next
    case Nil
    show ?thesis by (subst split_path.simps) (simp only: Nil list.case list.size add_0 le_add2 One_nat_def)
  qed
qed

definition real_component :: "string \<Rightarrow> bool" where
  "real_component c \<longleftrightarrow> c \<noteq> [] \<and> c \<noteq> ''.''"

lemma components_real: "components p = filter real_component (split_path p)"
  unfolding components_def real_component_def [abs_def] ..

lemma cross_mounts_typed:
  assumes "fs_typed N V s" and "v \<in> V (fs_heap s)"
  shows "cross_mounts v s = Some v"
  using vnode_typedD(1,6) [OF fs_typed_vnode [OF assms]] by (subst cross_mounts.simps) simp

text \<open>One component in a well-typed state; it needs a directory.\<close>

lemma component_typed:
  assumes law: "fs_heap_law e I N V" "I (c + 5) (fs_heap s)" and wf: "fs_typed N V s" and ty: "creat \<Longrightarrow> \<exists>a. attr = Some a \<and> va_type a \<noteq> VNON"
    and v: "v \<in> V (fs_heap s)" "real_component sub \<Longrightarrow> vn_type (fs_vnode s v) = VDIR"
  shows "\<exists>r s'. lookup_component e creat attr lst sub v s = Some (r, s') \<and> I c (fs_heap s') \<and> fs_typed N V s' \<and> fs_grows N V s s' \<and>
    (case r of Inl err \<Rightarrow> err = - ENOENT | Inr w \<Rightarrow> w \<in> V (fs_heap s'))"
proof -
  have ic: "I c (fs_heap s)" "I (c + 2) (fs_heap s)" using fs_law_weaken [OF law(1), of c 5] fs_law_weaken [OF law(1), of "c + 2" 3] law(2) by (simp_all add: ac_simps)
  show ?thesis
  proof (cases "real_component sub")
    case False
    then show ?thesis using ic(1) wf v(1) by (auto simp: lookup_component_def real_component_def fs_grows_refl)
  next
    case True
    note d = v(2) [OF True]
    have eq: "lookup_component e creat attr lst sub v s = do {
        (r, s1) \<leftarrow> (if \<not> lst \<or> \<not> creat then vop_lookup e v sub s else do { (w, s') \<leftarrow> vop_create e v sub attr s; Some (Inr w, s') });
        (case r of Inl err \<Rightarrow> Some (Inl err, s1) | Inr w \<Rightarrow> do { w' \<leftarrow> cross_mounts w s1; Some (Inr w', s1) }) }"
      using True by (simp add: lookup_component_def real_component_def)
    show ?thesis
    proof (cases "lst \<and> creat")
      case False
      from lookup_typed [OF law(1) ic(2) wf v(1) d, of sub] obtain r s' where
        r: "vop_lookup e v sub s = Some (r, s')" "I c (fs_heap s')" "fs_typed N V s'" "fs_grows N V s s'" "case r of Inl err \<Rightarrow> err = - ENOENT | Inr w \<Rightarrow> w \<in> V (fs_heap s')" by blast
      then show ?thesis unfolding eq using False cross_mounts_typed [OF r(3)] by (cases r) auto
    next
      case True
      then obtain a where a: "attr = Some a" "va_type a \<noteq> VNON" using ty by blast
      from create_typed [OF law wf a(2) v(1) d, of sub] obtain w s' where
        w: "vop_create e v sub (Some a) s = Some (w, s')" "I c (fs_heap s')" "fs_typed N V s'" "fs_grows N V s s'" "w \<in> V (fs_heap s')" by blast
      then show ?thesis unfolding eq using True a(1) cross_mounts_typed [OF w(3,5)] by simp
    qed
  qed
qed

text \<open>What a lookup gives: a well-typed state and a vnode or \<^verbatim>\<open>-ENOENT\<close>, or a stop at something that is not a directory.\<close>

definition lookup_outcome ::
  "('k \<Rightarrow> tn_ref set) \<Rightarrow> ('k \<Rightarrow> vn_ref set) \<Rightarrow> 'k fs_env \<Rightarrow> string list \<Rightarrow> vn_ref \<Rightarrow> 'k fs \<Rightarrow> ((int + vn_ref) \<times> 'k fs) option \<Rightarrow> bool" where
  "lookup_outcome N V e cs v s res \<longleftrightarrow> (case res of
     Some (r, s') \<Rightarrow> fs_typed N V s' \<and> fs_grows N V s s' \<and> (case r of Inl err \<Rightarrow> err = - ENOENT | Inr w \<Rightarrow> w \<in> V (fs_heap s'))
   | None \<Rightarrow> \<exists>cs1 c cs2 v1 s1. cs = cs1 @ c # cs2 \<and> resolve e cs1 v s = Some (Inr v1, s1) \<and> vn_type (fs_vnode s1 v1) \<noteq> VDIR)"

lemma lookup_outcome_NoneI:
  assumes "cs = cs1 @ c # cs2" "resolve e cs1 v s = Some (Inr v1, s1)" "vn_type (fs_vnode s1 v1) \<noteq> VDIR"
  shows "lookup_outcome N V e cs v s None"
  using assms by (simp add: lookup_outcome_def) blast

lemma walk_typed:
  assumes law: "fs_heap_law e I N V" and ty: "creat \<Longrightarrow> \<exists>a. attr = Some a \<and> va_type a \<noteq> VNON"
  shows "I (c + 5 * length cs) (fs_heap s) \<Longrightarrow> fs_typed N V s \<Longrightarrow> v \<in> V (fs_heap s) \<Longrightarrow>
    lookup_outcome N V e (filter real_component cs) v s (walk e creat attr cs v s)"
proof (induction cs arbitrary: v s)
  case Nil
  then show ?case by (simp add: lookup_outcome_def fs_grows_refl)
next
  case (Cons x cs)
  have i: "I ((c + 5 * length cs) + 5) (fs_heap s)" using Cons.prems(1) by (simp add: ac_simps)
  show ?case
  proof (cases "real_component x \<and> vn_type (fs_vnode s v) \<noteq> VDIR")
    case True
    have t: "vn_type (fs_vnode s v) = va_type (tn_attr (fs_node s (vn_data (fs_vnode s v))))" by (rule vnode_typedD(4) [OF fs_typed_vnode [OF Cons.prems(2,3)]])
    then have "vop_lookup e v x s = None" "vop_create e v x attr s = None"
      using True by (auto simp: vop_lookup_def vop_create_def tmp_lookup_def tmp_create_def kassert_def split: vnops.splits)
    then have "walk e creat attr (x # cs) v s = None" using True by (simp add: lookup_component_def real_component_def)
    moreover have "filter real_component (x # cs) = [] @ x # filter real_component cs" using True by simp
    ultimately show ?thesis using True lookup_outcome_NoneI [OF _ resolve.simps(1), of "filter real_component (x # cs)" x "filter real_component cs" s v N V e] by (simp only: append_Nil simp_thms)
  next
    case False
    from component_typed [OF law i Cons.prems(2) ty Cons.prems(3), where sub = x and lst = "cs = []"] False obtain r s1 where
      r: "lookup_component e creat attr (cs = []) x v s = Some (r, s1)" "I (c + 5 * length cs) (fs_heap s1)" "fs_typed N V s1" "fs_grows N V s s1"
        "case r of Inl err \<Rightarrow> err = - ENOENT | Inr w \<Rightarrow> w \<in> V (fs_heap s1)" by blast
    show ?thesis
    proof (cases r)
      case (Inl err)
      then show ?thesis using r by (simp add: lookup_outcome_def)
    next
      case (Inr w)
      then have w: "w \<in> V (fs_heap s1)" using r(5) by simp
      have eq: "walk e creat attr (x # cs) v s = walk e creat attr cs w s1" using r(1) Inr by simp
      note IH = Cons.IH [OF r(2,3) w]
      show ?thesis
      proof (cases "walk e creat attr cs w s1")
        case None
        then obtain cs1 d cs2 v1 s2 where n: "filter real_component cs = cs1 @ d # cs2" "resolve e cs1 w s1 = Some (Inr v1, s2)" "vn_type (fs_vnode s2 v1) \<noteq> VDIR"
          using IH by (auto simp: lookup_outcome_def)
        have "cs \<noteq> []" using n(1) by auto
        then have "resolve e (filter real_component [x] @ cs1) v s = Some (Inr v1, s2)"
          using r(1) Inr n(2) by (auto simp: lookup_component_def real_component_def split: Option.bind_splits sum.splits if_splits)
        moreover have "filter real_component (x # cs) = (filter real_component [x] @ cs1) @ d # cs2" using n(1) by simp
        ultimately show ?thesis unfolding eq None using n(3) lookup_outcome_NoneI by metis
      next
        case (Some q)
        then show ?thesis using IH fs_grows_trans [OF r(4)] unfolding eq lookup_outcome_def by (auto split: prod.splits)
      qed
    qed
  qed
qed

lemma handled_lookup_typed:
  assumes law: "fs_heap_law e I N V" "I (5 * (length p + 1)) (fs_heap s)" and wf: "fs_typed N V s" and p: "path_handled cwd p"
    and attr: "flags AND kLookupCreat = 0 \<or> attr = Some a \<and> va_type a \<noteq> VNON"
    and v: "v = (if hd p = CHR ''/'' \<or> cwd = 0 then fs_root_vnode s else cwd)" "v \<in> V (fs_heap s)"
  shows "lookup_outcome N V e (components p) v s (vfs_lookup e cwd p flags attr s)"
proof (cases "p = ''/''")
  case True
  then show ?thesis using wf v by (simp add: vfs_lookup_def lookup_outcome_def fs_grows_refl)
next
  case False
  then have q: "length p < 255" "p \<noteq> []" "strip_slashes p \<noteq> []" "cwd = 0 \<longrightarrow> length p \<noteq> 1" using p by (auto simp: path_handled_def)
  have "\<not> (hd p = CHR ''/'' \<and> length p = 1)" using False by (cases p; cases "tl p") auto
  then have n: "\<not> ((hd p = CHR ''/'' \<or> cwd = 0) \<and> length p = 1)" using q(4) by auto
  have r: "(case r of Inl err \<Rightarrow> Some (Inl err, t) | Inr v \<Rightarrow> Some (Inr (if b then reduce v else v), t)) = Some (r, t)" for r :: "int + vn_ref" and t b
    by (cases r) (simp_all add: reduce_def)
  have eq: "vfs_lookup e cwd p flags attr s = do { (r, t) \<leftarrow> walk e (flags AND kLookupCreat \<noteq> 0) attr (split_path (strip_slashes p)) v s; Some (r, t) }"
    unfolding vfs_lookup_def v(1) using q(1,2,3) n by (simp only: kassert_True Option.bind.bind_lunit Let_def if_False simp_thms r vfs_loop_walk)
  have "length (strip_slashes p) \<le> length p" using length_dropWhile_le [of "\<lambda>c. c = CHR ''/''" "rev p"] by (simp add: strip_slashes_def)
  then have l: "length (split_path (strip_slashes p)) \<le> length p + 1" using split_path_length [of "strip_slashes p"] by simp
  define d where "d = 5 * (length p + 1) - 5 * length (split_path (strip_slashes p))"
  have "I (d + 5 * length (split_path (strip_slashes p))) (fs_heap s)" using law(2) l by (simp add: d_def)
  from walk_typed [OF law(1) _ this wf v(2), of "flags AND kLookupCreat \<noteq> 0" attr] attr
  have "lookup_outcome N V e (filter real_component (split_path (strip_slashes p))) v s (walk e (flags AND kLookupCreat \<noteq> 0) attr (split_path (strip_slashes p)) v s)" by blast
  then have "lookup_outcome N V e (components p) v s (walk e (flags AND kLookupCreat \<noteq> 0) attr (split_path (strip_slashes p)) v s)"
    unfolding components_real [symmetric] components_strip .
  then show ?thesis unfolding eq by (simp add: split_def)
qed

text \<open>(C26) In a file system whose vnodes and nodes have matching types and in which nothing
  is mounted on a vnode (no code sets vfsmountedhere but to null), with room on the heap, a lookup
  of a name of fewer than 255 characters that is / or has something besides slashes (and is not
  one character relative to a null cwd), with or without creation of the last component, leaves
  such a file system and gives a vnode of it or -ENOENT; it stops the kernel only when the path
  goes through something that is not a directory. Of the other names, one character with a null
  cwd gives the root, and an empty name, several slashes or 255 characters and more leave the
  bounds of the array path, where the model stops.\<close>

theorem vfs_lookup_typed:
  assumes "fs_heap_law e I N V" "I (5 * (length p + 1)) (fs_heap s)" and "fs_typed N V s"
    and "flags AND kLookupCreat = 0 \<or> attr = Some a \<and> va_type a \<noteq> VNON"
    and "v = (if hd p = CHR ''/'' \<or> cwd = 0 then fs_root_vnode s else cwd)" "v \<in> V (fs_heap s)"
  shows "if path_handled cwd p then lookup_outcome N V e (components p) v s (vfs_lookup e cwd p flags attr s)
    else vfs_lookup e cwd p flags attr s = (if cwd = 0 \<and> length p = 1 then Some (Inr (fs_root_vnode s), s) else None)"
  using handled_lookup_typed [OF assms(1-3) _ assms(4-6)] vfs_lookup_unhandled [of cwd p e flags attr s] by presburger

text \<open>
  Mounting a memory file system adds a root directory to a well-typed state, provided that memory
  fresh from the heap has a null parent in it: the code does not write one.
\<close>

lemma mount_typed:
  assumes law: "fs_heap_law e I N V" "I (c + 3) (fs_heap s)" and wf: "fs_typed N V s" and z: "\<And>n. n \<notin> N (fs_heap s) \<Longrightarrow> tn_parent (fs_node s n) = 0"
  shows "\<exists>s' n. tmpfs_mount e fsys s = Some (0, s') \<and> I c (fs_heap s') \<and> fs_typed N V s' \<and> tmpfs_root fsys s' \<in> V (fs_heap s') \<and>
    vn_type (fs_vnode s' (tmpfs_root fsys s')) = VDIR \<and> vn_isroot (fs_vnode s' (tmpfs_root fsys s')) \<and> vn_data (fs_vnode s' (tmpfs_root fsys s')) = n \<and>
    N (fs_heap s') = insert n (N (fs_heap s)) \<and> tn_entries (fs_node s' n) = [] \<and>
    (\<forall>m \<in> N (fs_heap s). tn_attr (fs_node s' m) = tn_attr (fs_node s m) \<and> tn_vmobj (fs_node s' m) = tn_vmobj (fs_node s m))"
proof -
  have i: "I (Suc (c + 2)) (fs_heap s)" using law(2) by (simp add: numeral_eq_Suc)
  from fs_law_node [OF law(1) i] obtain n k where n: "fe_node e (fs_heap s) = Some (n, k)" "n \<notin> N (fs_heap s)" "I (c + 2) k" "N k = insert n (N (fs_heap s))" "V k = V (fs_heap s)" by blast
  define s1 where "s1 = set_node n (\<lambda>m. m\<lparr>tn_attr := (tn_attr m)\<lparr>va_type := VDIR\<rparr>, tn_vn := 0, tn_entries := []\<rparr>) (s\<lparr>fs_heap := k\<rparr>)"
  have e1: "fs_heap s1 = k" "fs_vnode s1 = fs_vnode s" "va_type (tn_attr (fs_node s1 n)) = VDIR" "tn_vn (fs_node s1 n) = 0" "tn_entries (fs_node s1 n) = []"
    "tn_parent (fs_node s1 n) = 0" using z [OF n(2)] by (simp_all add: s1_def set_node_def)
  have o: "fs_node s1 m = fs_node s m" if "m \<in> N (fs_heap s)" for m using that n(2) by (auto simp: s1_def set_node_def)
  have "vnode_typed (N k) s1 u" if "u \<in> V (fs_heap s)" for u
    using vnode_typedD [OF fs_typed_vnode [OF wf that]] by (intro vnode_typedI) (simp_all add: e1 o n)
  moreover have "node_typed (N k) (V k) s1 m" if "m \<in> N (fs_heap s)" for m
    using node_typedD [OF fs_typed_node [OF wf that]] by (intro node_typedI) (auto simp: e1 o that n)
  moreover have "node_typed (N k) (V k) s1 n" by (intro node_typedI) (simp_all add: e1)
  ultimately have wf1: "fs_typed N V s1" unfolding fs_typed_def e1(1) n(4,5) by auto
  have h1: "I (c + 2) (fs_heap s1)" "n \<in> N (fs_heap s1)" using e1(1) n(3,4) by simp_all
  from vget_typed [OF law(1) h1(1) wf1 h1(2), of fsys] obtain v s2 where
    v: "tmpfs_vget e fsys n s1 = Some (v, s2)" "fs_typed N V s2" "v \<in> V (fs_heap s2)" "vn_data (fs_vnode s2 v) = n" "same_tree N s1 s2" "I c (fs_heap s2)" by blast
  note st = same_treeD [OF v(5)]
  define s3 where "s3 = (let t = set_vnode v (\<lambda>v. v\<lparr>vn_isroot := True\<rparr>) s2 in t\<lparr>fs_vfs := (fs_vfs t)(fsys := (fs_vfs t fsys)\<lparr>vfs_data := v\<rparr>)\<rparr>)"
  have e3: "fs_heap s3 = fs_heap s2" "fs_node s3 = fs_node s2" "vn_data (fs_vnode s3 u) = vn_data (fs_vnode s2 u)" "vn_type (fs_vnode s3 u) = vn_type (fs_vnode s2 u)"
    "vn_vmobj (fs_vnode s3 u) = vn_vmobj (fs_vnode s2 u)" "vn_ops (fs_vnode s3 u) = vn_ops (fs_vnode s2 u)" "vn_vfsmountedhere (fs_vnode s3 u) = vn_vfsmountedhere (fs_vnode s2 u)" for u by (simp_all add: s3_def Let_def set_vnode_def)
  have "fs_typed N V s3" using v(2) by (simp add: fs_typed_def vnode_typed_def node_typed_def Let_def e3)
  moreover have "vn_type (fs_vnode s3 v) = VDIR" using vnode_typedD(4) [OF fs_typed_vnode [OF v(2,3)]] v(4) e1(3) by (simp add: e3 st)
  moreover have "tmpfs_mount e fsys s = Some (0, s3)" using n(1) v(1) by (simp add: tmpfs_mount_def s1_def [symmetric] s3_def Let_def)
  moreover have "tmpfs_root fsys s3 = v" "vn_isroot (fs_vnode s3 v)" by (simp_all add: tmpfs_root_def s3_def Let_def set_vnode_def)
  moreover have "tn_attr (fs_node s3 m) = tn_attr (fs_node s m) \<and> tn_vmobj (fs_node s3 m) = tn_vmobj (fs_node s m)" if "m \<in> N (fs_heap s)" for m by (simp add: e3 st o that)
  moreover have "tn_entries (fs_node s3 n) = []" "N (fs_heap s3) = insert n (N (fs_heap s))" by (simp_all add: e3 st e1 n(4))
  ultimately show ?thesis using v(3,4,6) e3(1,3) by auto
qed

subsection \<open>A well-typed file system\<close>

lemma small_sets: "bump_nodes (6, 8, c) = {4, 5}" "bump_vnodes (6, 8, c) = {6, 7}"
proof -
  have "x = 4 \<longleftrightarrow> unat x = 4" "x = 5 \<longleftrightarrow> unat x = 5" "x = 6 \<longleftrightarrow> unat x = 6" "x = 7 \<longleftrightarrow> unat x = 7" for x :: u64 by (simp_all add: word_unat_eq_iff)
  then show "bump_nodes (6, 8, c) = {4, 5}" "bump_vnodes (6, 8, c) = {6, 7}" by (auto simp: bump_nodes_def bump_vnodes_def bump_range_def)
qed

lemma small_fs_typed: "fs_typed bump_nodes bump_vnodes small_fs"
proof -
  have h: "fs_heap small_fs = (6, 8, 10)" by (simp add: small_fs_def)
  show ?thesis unfolding fs_typed_def h small_sets by (simp add: vnode_typed_def node_typed_def small_defs ops_of_def)
qed

theorem vfs_lookup_typed_witness:
  "lookup_outcome bump_nodes bump_vnodes bump_env [''etc'', ''motd''] 6 small_fs
     (vfs_lookup bump_env 0 ''/etc/motd'' kLookupCreat (Some \<lparr>va_type = VREG, va_mode = 0, va_size = 7, va_rdev = 0\<rparr>) small_fs)"
proof -
  have c: "components ''/etc/motd'' = [''etc'', ''motd'']" by (simp add: components_def split_path.simps)
  have i: "bump_ok (5 * (length ''/etc/motd'' + 1)) (fs_heap small_fs)" by (simp add: bump_ok_def small_fs_def)
  have p: "path_handled 0 ''/etc/motd''" by (simp add: path_handled_def strip_slashes_def)
  have v: "(6 :: u64) = (if hd ''/etc/motd'' = CHR ''/'' \<or> (0 :: u64) = 0 then fs_root_vnode small_fs else 0)" "6 \<in> bump_vnodes (fs_heap small_fs)"
    by (simp_all add: small_fs_def small_sets)
  let ?a = "\<lparr>va_type = VREG, va_mode = 0, va_size = 7, va_rdev = 0\<rparr>"
  have a: "kLookupCreat AND kLookupCreat = 0 \<or> Some ?a = Some ?a \<and> va_type ?a \<noteq> VNON" by simp
  show ?thesis using vfs_lookup_typed [OF bump_law i small_fs_typed a v] p unfolding c by simp
qed

end
