(* ===== verification/Fs_Tree.thy ===== *)
theory Fs_Tree
  imports Fs_Type
begin

text \<open>
  The file system as a tree of nodes: looking up a path is a walk over nodes that leaves the tree as
  it is, whatever vnodes it makes on the way, and creating a file adds one leaf.
\<close>

subsection \<open>Resolution over nodes\<close>

datatype walk_result = Found tn_ref | Missing | Not_dir

fun nresolve :: "string list \<Rightarrow> tn_ref \<Rightarrow> 'k fs \<Rightarrow> walk_result" where
  "nresolve [] n s = Found n"
| "nresolve (c # cs) n s = (if va_type (tn_attr (fs_node s n)) \<noteq> VDIR then Not_dir
     else (case child c n s of None \<Rightarrow> Missing | Some m \<Rightarrow> nresolve cs m s))"

lemma child_same_tree: "same_tree N s s' \<Longrightarrow> child c n s' = child c n s"
  by (simp add: child_def tlookup_def same_treeD)

lemma nresolve_same_tree: "same_tree N s s' \<Longrightarrow> nresolve cs n s' = nresolve cs n s"
  by (induction cs arbitrary: n) (simp_all add: child_same_tree same_treeD split: option.splits)

lemma same_tree_trans: "same_tree N s t \<Longrightarrow> same_tree N t u \<Longrightarrow> same_tree N s u"
  by (simp add: same_tree_def)

lemma nresolve_append: "nresolve (cs @ ds) n s = (case nresolve cs n s of Found m \<Rightarrow> nresolve ds m s | r \<Rightarrow> r)"
  by (induction cs arbitrary: n) (auto split: option.splits walk_result.splits)

lemma nresolve_typed:
  assumes "fs_typed N V s"
  shows "n \<in> N (fs_heap s) \<Longrightarrow> nresolve cs n s = Found m \<Longrightarrow> m \<in> N (fs_heap s)"
  by (induction cs arbitrary: n) (auto split: if_splits option.splits dest: child_typed [OF assms])

text \<open>The walk over vnodes gives a vnode of the node that the walk over nodes finds.\<close>

definition walk_refines ::
  "('k \<Rightarrow> tn_ref set) \<Rightarrow> ('k \<Rightarrow> vn_ref set) \<Rightarrow> 'k fs \<Rightarrow> walk_result \<Rightarrow> ((int + vn_ref) \<times> 'k fs) option \<Rightarrow> bool" where
  "walk_refines N V s r res \<longleftrightarrow> (case r of
     Found m \<Rightarrow> \<exists>w s'. res = Some (Inr w, s') \<and> fs_typed N V s' \<and> fs_grows N V s s' \<and> same_tree N s s' \<and> w \<in> V (fs_heap s') \<and> vn_data (fs_vnode s' w) = m
   | Missing \<Rightarrow> \<exists>s'. res = Some (Inl (- ENOENT), s') \<and> fs_typed N V s' \<and> fs_grows N V s s' \<and> same_tree N s s'
   | Not_dir \<Rightarrow> res = None)"

lemma walk_refines_step:
  assumes "walk_refines N V s1 r res" "fs_grows N V s s1" "same_tree N s s1"
  shows "walk_refines N V s r res"
  using assms fs_grows_trans [OF assms(2)] same_tree_trans [OF assms(3)] unfolding walk_refines_def by (cases r) auto

lemma resolve_credit:
  assumes law: "fs_heap_law e I N V"
  shows "I (c + 2 * length cs) (fs_heap s) \<Longrightarrow> fs_typed N V s \<Longrightarrow> v \<in> V (fs_heap s) \<Longrightarrow>
    walk_refines N V s (nresolve cs (vn_data (fs_vnode s v)) s) (resolve e cs v s) \<and> (\<forall>r s'. resolve e cs v s = Some (r, s') \<longrightarrow> I c (fs_heap s'))"
proof (induction cs arbitrary: v s)
  case Nil
  then show ?case by (simp add: walk_refines_def fs_grows_refl same_tree_refl)
next
  case (Cons x cs)
  have i: "I ((c + 2 * length cs) + 2) (fs_heap s)" using Cons.prems(1) by (simp add: ac_simps)
  have t: "vn_type (fs_vnode s v) = va_type (tn_attr (fs_node s (vn_data (fs_vnode s v))))" by (rule vnode_typedD(4) [OF fs_typed_vnode [OF Cons.prems(2,3)]])
  show ?case
  proof (cases "vn_type (fs_vnode s v) = VDIR")
    case False
    then have "vop_lookup e v x s = None" using t by (auto simp: vop_lookup_def tmp_lookup_def kassert_def Let_def split: vnops.splits)
    then show ?thesis using False t by (simp add: walk_refines_def)
  next
    case True
    note lc = lookup_child [OF law i Cons.prems(2,3) True, of x]
    show ?thesis
    proof (cases "child x (vn_data (fs_vnode s v)) s")
      case None
      have "I c (fs_heap s)" using fs_law_weaken [OF law, of c "2 * length (x # cs)"] Cons.prems(1) by blast
      then show ?thesis using lc None True t Cons.prems(2) by (simp add: walk_refines_def fs_grows_refl same_tree_refl)
    next
      case (Some m)
      then obtain w s' where w: "vop_lookup e v x s = Some (Inr w, s')" "I (c + 2 * length cs) (fs_heap s')" "fs_typed N V s'" "fs_grows N V s s'" "same_tree N s s'" "w \<in> V (fs_heap s')" "vn_data (fs_vnode s' w) = m"
        using lc by auto
      have e: "resolve e (x # cs) v s = resolve e cs w s'" using w(1) cross_mounts_typed [OF w(3,6)] by simp
      have n: "nresolve (x # cs) (vn_data (fs_vnode s v)) s = nresolve cs (vn_data (fs_vnode s' w)) s'" using Some True t w(7) nresolve_same_tree [OF w(5)] by simp
      show ?thesis unfolding e n using Cons.IH [OF w(2,3,6)] walk_refines_step [OF _ w(4,5)] by blast
    qed
  qed
qed

text \<open>(C29) Without creation, on a well-typed file system with nothing mounted on a vnode
  and room on the heap, path lookup implements the walk over the tree of nodes for every name of
  fewer than 255 characters that is / or has something besides slashes (and is not one character
  relative to a null cwd): it gives a vnode of the node that the walk finds, -ENOENT when a name
  is missing, and stops the kernel exactly when the path goes through something that is not a
  directory; the tree is left as it is. Of the other names, one character with a null cwd gives
  the root whatever it is, and an empty name, several slashes or 255 characters and more leave the
  bounds of the array path, where the model stops.\<close>

theorem vfs_lookup_refines:
  assumes law: "fs_heap_law e I N V" "I (2 * length (components p)) (fs_heap s)" and wf: "fs_typed N V s" and f: "flags AND kLookupCreat = 0"
    and v: "v = (if hd p = CHR ''/'' \<or> cwd = 0 then fs_root_vnode s else cwd)" "v \<in> V (fs_heap s)"
  shows "if path_handled cwd p then walk_refines N V s (nresolve (components p) (vn_data (fs_vnode s v)) s) (vfs_lookup e cwd p flags attr s)
    else vfs_lookup e cwd p flags attr s = (if cwd = 0 \<and> length p = 1 then Some (Inr (fs_root_vnode s), s) else None)"
proof (cases "path_handled cwd p")
  case True
  have "walk_refines N V s (nresolve (components p) (vn_data (fs_vnode s v)) s) (vfs_lookup e cwd p flags attr s)"
    unfolding vfs_lookup_resolve [OF True f] v(1) [symmetric] using resolve_credit [OF law(1), of 0] law(2) wf v(2) by simp
  with True show ?thesis by simp
qed (simp add: vfs_lookup_unhandled)

theorem vfs_lookup_refines_witness:
  "walk_refines bump_nodes bump_vnodes small_fs (Found 5) (vfs_lookup bump_env 0 ''/etc/../etc'' 0 None small_fs)"
proof -
  have c: "components ''/etc/../etc'' = [''etc'', ''..'', ''etc'']" by (simp add: components_def split_path.simps)
  have i: "bump_ok (2 * length (components ''/etc/../etc'')) (fs_heap small_fs)" unfolding c by (simp add: bump_ok_def small_fs_def)
  have p: "path_handled 0 ''/etc/../etc''" by (simp add: path_handled_def strip_slashes_def)
  have v: "(6 :: u64) = (if hd ''/etc/../etc'' = CHR ''/'' \<or> (0 :: u64) = 0 then fs_root_vnode small_fs else 0)" "6 \<in> bump_vnodes (fs_heap small_fs)"
    by (simp_all add: small_fs_def small_sets)
  have r: "nresolve [''etc'', ''..'', ''etc''] (vn_data (fs_vnode small_fs 6)) small_fs = Found 5" by (simp add: child_def tlookup_def small_defs)
  show ?thesis using vfs_lookup_refines [OF bump_law i small_fs_typed _ v, of 0 None] p unfolding c r by simp
qed

subsection \<open>Creating a leaf\<close>

text \<open>
  What is asked of the memory that holds files, beyond the heap: a new memory object is not in use
  (\<open>Ob\<close>), and mapping an object in the kernel map and removing the mapping again succeed.
\<close>

definition fs_file_law :: "'k fs_env \<Rightarrow> (nat \<Rightarrow> 'k \<Rightarrow> bool) \<Rightarrow> ('k \<Rightarrow> tn_ref set) \<Rightarrow> ('k \<Rightarrow> vn_ref set) \<Rightarrow> ('k \<Rightarrow> obj_ref set) \<Rightarrow> bool" where
  "fs_file_law e I N V Ob \<longleftrightarrow>
     (\<forall>k x k'. fe_node e k = Some (x, k') \<longrightarrow> Ob k' = Ob k) \<and> (\<forall>k x k'. fe_vnode e k = Some (x, k') \<longrightarrow> Ob k' = Ob k) \<and>
     (\<forall>k x k'. fe_specdev e k = Some (x, k') \<longrightarrow> Ob k' = Ob k) \<and> (\<forall>k x k'. fe_dirent e x k = Some k' \<longrightarrow> Ob k' = Ob k) \<and>
     (\<forall>k sz b k'. fe_aobj e sz k = Some (b, k') \<longrightarrow> b \<notin> Ob k \<and> Ob k' = insert b (Ob k)) \<and>
     (\<forall>c k b sz. I (Suc c) k \<longrightarrow> (\<exists>v k1 k2. fe_map e b sz k = Some (v, k1) \<and> fe_unmap e v sz k1 = Some k2 \<and> I c k2 \<and> N k2 = N k \<and> V k2 = V k \<and> Ob k2 = Ob k))"

lemmas fs_file_lawD =
  fs_file_law_def [THEN iffD1, THEN conjunct1, rule_format]
  fs_file_law_def [THEN iffD1, THEN conjunct2, THEN conjunct1, rule_format]
  fs_file_law_def [THEN iffD1, THEN conjunct2, THEN conjunct2, THEN conjunct1, rule_format]
  fs_file_law_def [THEN iffD1, THEN conjunct2, THEN conjunct2, THEN conjunct2, THEN conjunct1, rule_format]
  fs_file_law_def [THEN iffD1, THEN conjunct2, THEN conjunct2, THEN conjunct2, THEN conjunct2, THEN conjunct1, rule_format]
  fs_file_law_def [THEN iffD1, THEN conjunct2, THEN conjunct2, THEN conjunct2, THEN conjunct2, THEN conjunct2, rule_format]

definition bump_objs :: "bump \<Rightarrow> obj_ref set" where
  "bump_objs k = bump_range 9 (snd (snd k))"

lemma bump_file_law: "fs_file_law bump_env bump_ok bump_nodes bump_vnodes bump_objs"
proof -
  have b: "b \<notin> bump_objs k \<and> bump_objs k' = insert b (bump_objs k)" if "fe_aobj bump_env sz k = Some (b, k')" for sz k b k'
  proof -
    obtain x y c where k: "k = (x, y, c)" by (cases k)
    have c: "9 \<le> c" "c < 2 ^ 64" and eq: "b = of_nat c" "k' = (x, y, Suc c)" using that by (simp_all add: bump_env_def k split: if_splits)
    have "0 < c" using c(1) by simp
    from bump_fresh [OF this c] show ?thesis by (simp add: bump_objs_def k eq)
  qed
  have n: "bump_objs k' = bump_objs k" if "fe_node bump_env k = Some (x, k')" for k x k' using that by (cases k) (auto simp: bump_env_def bump_objs_def)
  have v: "bump_objs k' = bump_objs k" if "fe_vnode bump_env k = Some (x, k')" for k x k' using that by (cases k) (auto simp: bump_env_def bump_objs_def)
  have sd: "bump_objs k' = bump_objs k" if "fe_specdev bump_env k = Some (x, k')" for k x k' using that by (simp add: bump_env_def)
  have dr: "bump_objs k' = bump_objs k" if "fe_dirent bump_env x k = Some k'" for k x k' using that by (simp add: bump_env_def)
  have m: "\<exists>v k1 k2. fe_map bump_env b sz k = Some (v, k1) \<and> fe_unmap bump_env v sz k1 = Some k2 \<and> bump_ok c k2 \<and> bump_nodes k2 = bump_nodes k \<and> bump_vnodes k2 = bump_vnodes k \<and> bump_objs k2 = bump_objs k"
    if "bump_ok (Suc c) k" for c k b sz using that by (cases k) (simp add: bump_env_def bump_ok_def)
  show ?thesis unfolding fs_file_law_def
    by (intro conjI allI impI) (erule n, erule v, erule sd, erule dr, erule b [THEN conjunct1], erule b [THEN conjunct2], erule m)
qed

lemma spec_setup_objects:
  assumes law: "fs_file_law e I N V Ob" and s: "spec_setup_vnode e v dev s = Some s'"
  shows "Ob (fs_heap s') = Ob (fs_heap s)"
  using s fs_file_lawD(3) [OF law] by (auto simp: spec_setup_vnode_def Let_def set_vnode_def split: option.splits Option.bind_splits)

lemma vget_objects:
  assumes law: "fs_file_law e I N V Ob" and s: "tmpfs_vget e fsys n s = Some (v, s')"
  shows "Ob (fs_heap s') = Ob (fs_heap s)"
  using s fs_file_lawD(2) [OF law] spec_setup_objects [OF law]
  by (auto simp: tmpfs_vget_def Let_def fs_set_defs split: if_splits Option.bind_splits)

lemma lookup_objects:
  assumes law: "fs_file_law e I N V Ob" and s: "vop_lookup e v c s = Some (r, s')"
  shows "Ob (fs_heap s') = Ob (fs_heap s)"
  using s vget_objects [OF law] by (auto simp: vop_lookup_def tmp_lookup_def Let_def kassert_def split: vnops.splits if_splits option.splits Option.bind_splits)

lemma resolve_objects:
  assumes law: "fs_file_law e I N V Ob"
  shows "resolve e cs v s = Some (r, s') \<Longrightarrow> Ob (fs_heap s') = Ob (fs_heap s)"
  by (induction cs arbitrary: v s) (fastforce dest: lookup_objects [OF law] split: Option.bind_splits sum.splits)+

lemma tmakenode_objects:
  assumes law: "fs_file_law e I N V Ob" and s: "tmakenode e dn name (Some a) s = Some (n, s')"
  shows "if va_type a = VREG
    then tn_vmobj (fs_node s' n) \<notin> Ob (fs_heap s) \<and> Ob (fs_heap s') = insert (tn_vmobj (fs_node s' n)) (Ob (fs_heap s)) \<and>
      (\<forall>b \<in> Ob (fs_heap s). fs_file s' b = fs_file s b)
    else Ob (fs_heap s') = Ob (fs_heap s) \<and> fs_file s' = fs_file s"
proof -
  obtain n' k1 k2 where k: "fe_node e (fs_heap s) = Some (n', k1)" "fe_dirent e name k1 = Some k2"
    using s by (auto simp: tmakenode_def split: Option.bind_splits)
  have o: "Ob k2 = Ob (fs_heap s)" using fs_file_lawD(1) [OF law k(1)] fs_file_lawD(4) [OF law k(2)] by simp
  show ?thesis
  proof (cases "va_type a")
    case VREG
    then obtain b k3 where b: "fe_aobj e 0xffffffff k2 = Some (b, k3)" using s k by (auto simp: tmakenode_def Let_def fs_set_defs split: Option.bind_splits)
    then have "n = n'" "tn_vmobj (fs_node s' n) = b" "fs_heap s' = k3" "fs_file s' = (fs_file s)(b := \<lambda>_. 0)" using s k VREG by (auto simp: tmakenode_def Let_def fs_set_defs)
    then show ?thesis using VREG fs_file_lawD(5) [OF law b] o by auto
  next
    case VDIR
    then have "fs_heap s' = k2 \<and> fs_file s' = fs_file s" using s k by (clarsimp simp: tmakenode_def Let_def fs_set_defs)
    then show ?thesis using VDIR o by simp
  next
    case VCHR
    then have "fs_heap s' = k2 \<and> fs_file s' = fs_file s" using s k by (clarsimp simp: tmakenode_def Let_def fs_set_defs)
    then show ?thesis using VCHR o by simp
  next
    case VNON
    then have "fs_heap s' = k2 \<and> fs_file s' = fs_file s" using s k by (clarsimp simp: tmakenode_def Let_def fs_set_defs)
    then show ?thesis using VNON o by simp
  qed
qed

text \<open>\<open>s'\<close> is \<open>s\<close> with the new node \<open>n\<close> under \<open>name\<close> in the directory \<open>dn\<close>.\<close>

definition adds_leaf :: "('k \<Rightarrow> tn_ref set) \<Rightarrow> ('k \<Rightarrow> obj_ref set) \<Rightarrow> 'k fs \<Rightarrow> 'k fs \<Rightarrow> tn_ref \<Rightarrow> string \<Rightarrow> tn_ref \<Rightarrow> vattr \<Rightarrow> bool" where
  "adds_leaf N Ob s s' dn name n a \<longleftrightarrow> n \<notin> N (fs_heap s) \<and> N (fs_heap s') = insert n (N (fs_heap s)) \<and>
     (\<forall>m \<in> N (fs_heap s). tn_attr (fs_node s' m) = tn_attr (fs_node s m) \<and> tn_parent (fs_node s' m) = tn_parent (fs_node s m) \<and> tn_vmobj (fs_node s' m) = tn_vmobj (fs_node s m) \<and>
       tn_entries (fs_node s' m) = tn_entries (fs_node s m) @ (if m = dn then [\<lparr>td_name = name, td_node = n\<rparr>] else [])) \<and>
     tn_attr (fs_node s' n) = a\<lparr>va_size := 0\<rparr> \<and> (va_type a = VDIR \<longrightarrow> tn_entries (fs_node s' n) = []) \<and>
     (if va_type a = VREG
      then tn_vmobj (fs_node s' n) \<notin> Ob (fs_heap s) \<and> Ob (fs_heap s') = insert (tn_vmobj (fs_node s' n)) (Ob (fs_heap s)) \<and> (\<forall>b \<in> Ob (fs_heap s). fs_file s' b = fs_file s b)
      else Ob (fs_heap s') = Ob (fs_heap s) \<and> fs_file s' = fs_file s)"

lemma create_leaf:
  assumes law: "fs_heap_law e I N V" "I (c + 5) (fs_heap s)" and flaw: "fs_file_law e I N V Ob" and wf: "fs_typed N V s" and ty: "va_type a \<noteq> VNON"
    and v: "v \<in> V (fs_heap s)" "vn_type (fs_vnode s v) = VDIR"
  shows "\<exists>w s'. vop_create e v name (Some a) s = Some (w, s') \<and> I c (fs_heap s') \<and> fs_typed N V s' \<and> fs_grows N V s s' \<and> w \<in> V (fs_heap s') \<and>
    adds_leaf N Ob s s' (vn_data (fs_vnode s v)) name (vn_data (fs_vnode s' w)) a"
proof -
  note vt = vnode_typedD [OF fs_typed_vnode [OF wf v(1)]]
  let ?dn = "vn_data (fs_vnode s v)"
  have i: "I ((c + 2) + 3) (fs_heap s)" using law(2) by (simp add: ac_simps)
  obtain n s1 where n: "tmakenode e ?dn name (Some a) s = Some (n, s1)" "n \<noteq> 0" "n \<notin> N (fs_heap s)" "I (c + 2) (fs_heap s1)" "N (fs_heap s1) = insert n (N (fs_heap s))"
    and e: "tn_attr (fs_node s1 n) = a\<lparr>va_size := 0\<rparr>" "va_type a = VDIR \<longrightarrow> tn_entries (fs_node s1 n) = []"
      "fs_node s1 ?dn = (fs_node s ?dn)\<lparr>tn_entries := tn_entries (fs_node s ?dn) @ [\<lparr>td_name = name, td_node = n\<rparr>]\<rparr>" "\<forall>m. m \<noteq> n \<and> m \<noteq> ?dn \<longrightarrow> fs_node s1 m = fs_node s m"
    using tmakenode_effect [OF law(1) i ty vt(2), of name] by blast
  have "tn_vn (fs_node s ?dn) \<noteq> 0" "va_type (tn_attr (fs_node s ?dn)) = VDIR" using vt v(2) by simp_all
  from tmakenode_typed [OF law(1) i wf ty vt(2) this(2,1), of name] n(1) have t1: "fs_typed N V s1" "fs_grows N V s s1" "n \<in> N (fs_heap s1)" by auto
  from vget_typed [OF law(1) n(4) t1(1,3), of "vn_vfsp (fs_vnode s1 v)"] obtain w s2 where
    w: "tmpfs_vget e (vn_vfsp (fs_vnode s1 v)) n s1 = Some (w, s2)" "I c (fs_heap s2)" "fs_typed N V s2" "fs_grows N V s1 s2" "w \<in> V (fs_heap s2)" "vn_data (fs_vnode s2 w) = n" "same_tree N s1 s2" by blast
  note st = same_treeD [OF w(7)]
  have o2: "Ob (fs_heap s2) = Ob (fs_heap s1)" by (rule vget_objects [OF flaw w(1)])
  have old: "tn_attr (fs_node s2 m) = tn_attr (fs_node s m) \<and> tn_parent (fs_node s2 m) = tn_parent (fs_node s m) \<and> tn_vmobj (fs_node s2 m) = tn_vmobj (fs_node s m) \<and>
       tn_entries (fs_node s2 m) = tn_entries (fs_node s m) @ (if m = ?dn then [\<lparr>td_name = name, td_node = n\<rparr>] else [])" if "m \<in> N (fs_heap s)" for m
  proof -
    have "m \<noteq> n" using that n(3) by auto
    then show ?thesis using e(3,4) by (cases "m = ?dn") (simp_all add: st)
  qed
  have "adds_leaf N Ob s s2 ?dn name n a"
    unfolding adds_leaf_def using n(3,5) e(1,2) old tmakenode_objects [OF flaw n(1)] by (auto simp: st o2)
  moreover have "vop_create e v name (Some a) s = Some (w, s2)" using vt v(2) n(1,2) w(1) by (simp add: vop_create_def tmp_create_def ops_of_def)
  ultimately show ?thesis using w fs_grows_trans [OF t1(2) w(4)] by auto
qed

subsection \<open>Creating along a path\<close>

lemma walk_create:
  assumes "raw \<noteq> []" and "real_component (last raw)"
  shows "walk e True attr raw v s = do {
     (r, s1) \<leftarrow> resolve e (filter real_component (butlast raw)) v s;
     (case r of
       Inl err \<Rightarrow> Some (Inl err, s1)
     | Inr d \<Rightarrow> do { (w, s2) \<leftarrow> vop_create e d (last raw) attr s1; w' \<leftarrow> cross_mounts w s2; Some (Inr w', s2) })
   }"
  using assms
proof (induction raw arbitrary: v s)
  case (Cons x raw)
  show ?case
  proof (cases "raw = []")
    case True
    then show ?thesis using Cons.prems(2) by (auto simp: lookup_component_def real_component_def split: Option.bind_splits)
  next
    case False
    then have l: "real_component (last raw)" using Cons.prems(2) by simp
    show ?thesis
    proof (cases "real_component x")
      case True
      then show ?thesis using False Cons.IH [OF False l] by (auto simp: lookup_component_def real_component_def split: Option.bind_splits sum.splits)
    next
      case c: False
      then have "lookup_component e True attr False x v s = Some (Inr v, s)" by (auto simp: lookup_component_def real_component_def)
      then have w: "walk e True attr (x # raw) v s = walk e True attr raw v s" using False by simp
      have b: "filter real_component (butlast (x # raw)) = filter real_component (butlast raw)" using False c by simp
      show ?thesis unfolding w b last_ConsR [OF False] by (rule Cons.IH [OF False l])
    qed
  qed
qed simp

text \<open>Names whose last component is created: it is not a dot.\<close>

definition creates :: "string \<Rightarrow> bool" where
  "creates p \<longleftrightarrow> real_component (last (split_path (strip_slashes p)))"

lemma split_path_ne: "split_path p \<noteq> []"
  by (subst split_path.simps) simp

lemma creates_components:
  assumes "creates p"
  shows "components p = filter real_component (butlast (split_path (strip_slashes p))) @ [last (split_path (strip_slashes p))]"
proof -
  have "split_path (strip_slashes p) = butlast (split_path (strip_slashes p)) @ [last (split_path (strip_slashes p))]" using split_path_ne by simp
  then have "filter real_component (split_path (strip_slashes p)) = filter real_component (butlast (split_path (strip_slashes p))) @ [last (split_path (strip_slashes p))]"
    using assms by (metis creates_def filter.simps filter_append)
  then show ?thesis unfolding components_real [symmetric] components_strip .
qed

lemma creates_strip: "creates p \<Longrightarrow> strip_slashes p \<noteq> []"
  by (auto simp: creates_def real_component_def split_path.simps [of "[]"])

lemma vfs_create_eq:
  assumes p: "creates p" "length p < 255" "length p \<noteq> 1" and v: "v = (if hd p = CHR ''/'' \<or> cwd = 0 then fs_root_vnode s else cwd)"
  shows "vfs_lookup e cwd p kLookupCreat attr s = do {
     (r, s1) \<leftarrow> resolve e (butlast (components p)) v s;
     (case r of
       Inl err \<Rightarrow> Some (Inl err, s1)
     | Inr d \<Rightarrow> do { (w, s2) \<leftarrow> vop_create e d (last (components p)) attr s1; w' \<leftarrow> cross_mounts w s2; Some (Inr w', s2) })
   }"
proof -
  have q: "strip_slashes p \<noteq> []" by (rule creates_strip [OF p(1)])
  then have ne: "p \<noteq> []" by (auto simp: strip_slashes_def)
  have r: "(case r of Inl err \<Rightarrow> Some (Inl err, t) | Inr v \<Rightarrow> Some (Inr (if b then reduce v else v), t)) = Some (r, t)" for r :: "int + vn_ref" and t b
    by (cases r) (simp_all add: reduce_def)
  have f: "(kLookupCreat AND kLookupCreat \<noteq> 0) = True" by (simp add: kLookupCreat_def)
  have "vfs_lookup e cwd p kLookupCreat attr s = do { (r, t) \<leftarrow> walk e True attr (split_path (strip_slashes p)) v s; Some (r, t) }"
    unfolding vfs_lookup_def v f using p(2,3) q ne by (simp only: kassert_True Option.bind.bind_lunit Let_def if_False simp_thms r vfs_loop_walk)
  also have "\<dots> = walk e True attr (split_path (strip_slashes p)) v s" by (simp add: split_def)
  finally show ?thesis unfolding walk_create [OF split_path_ne p(1) [unfolded creates_def]] creates_components [OF p(1)] last_snoc butlast_snoc .
qed

end
