(* ===== verification/Fs_View.thy ===== *)
theory Fs_View
  imports Fs_Tree
begin

text \<open>
  The file system as a map from paths to contents. Creating a file or directory under a new name in
  an existing directory, and writing a file, change the map at that path and nowhere else.
\<close>

subsection \<open>The map of a file system\<close>

datatype content = Dir | File "u8 list" | Device

definition view_node :: "tn_ref \<Rightarrow> 'k fs \<Rightarrow> content" where
  "view_node n s = (let t = fs_node s n in
     if va_type (tn_attr t) = VDIR then Dir
     else if va_type (tn_attr t) = VREG then File (read_bytes (fs_file s (tn_vmobj t)) 0 (va_size (tn_attr t)))
     else Device)"

definition view :: "tn_ref \<Rightarrow> 'k fs \<Rightarrow> string list \<Rightarrow> content option" where
  "view root s q = (if ''..'' \<in> set q then None else (case nresolve q root s of Found n \<Rightarrow> Some (view_node n s) | _ \<Rightarrow> None))"

text \<open>A node has one path from the root; no two files share a memory object.\<close>

definition tree_inj :: "tn_ref \<Rightarrow> 'k fs \<Rightarrow> bool" where
  "tree_inj root s \<longleftrightarrow> (\<forall>q q' n. ''..'' \<notin> set q \<longrightarrow> ''..'' \<notin> set q' \<longrightarrow> nresolve q root s = Found n \<longrightarrow> nresolve q' root s = Found n \<longrightarrow> q = q')"

definition is_file :: "tn_ref \<Rightarrow> 'k fs \<Rightarrow> bool" where
  "is_file n s \<longleftrightarrow> va_type (tn_attr (fs_node s n)) = VREG"

definition files_ok :: "('k \<Rightarrow> tn_ref set) \<Rightarrow> ('k \<Rightarrow> obj_ref set) \<Rightarrow> 'k fs \<Rightarrow> bool" where
  "files_ok N Ob s \<longleftrightarrow> (\<forall>n \<in> N (fs_heap s). is_file n s \<longrightarrow> tn_vmobj (fs_node s n) \<in> Ob (fs_heap s)) \<and>
     (\<forall>n \<in> N (fs_heap s). \<forall>m \<in> N (fs_heap s). is_file n s \<longrightarrow> is_file m s \<longrightarrow> tn_vmobj (fs_node s n) = tn_vmobj (fs_node s m) \<longrightarrow> n = m)"

lemma nresolve_snoc_Found:
  "nresolve (q @ [c]) root s = Found m \<longleftrightarrow> (\<exists>k. nresolve q root s = Found k \<and> va_type (tn_attr (fs_node s k)) = VDIR \<and> child c k s = Some m)"
  by (auto simp: nresolve_append split: walk_result.splits option.splits)

subsection \<open>Adding a leaf\<close>

lemma adds_leafD:
  assumes "adds_leaf N Ob s s' dn name n a"
  shows "n \<notin> N (fs_heap s)" "N (fs_heap s') = insert n (N (fs_heap s))" "tn_attr (fs_node s' n) = a\<lparr>va_size := 0\<rparr>" "va_type a = VDIR \<Longrightarrow> tn_entries (fs_node s' n) = []"
    "m \<in> N (fs_heap s) \<Longrightarrow> tn_attr (fs_node s' m) = tn_attr (fs_node s m)" "m \<in> N (fs_heap s) \<Longrightarrow> tn_parent (fs_node s' m) = tn_parent (fs_node s m)"
    "m \<in> N (fs_heap s) \<Longrightarrow> tn_vmobj (fs_node s' m) = tn_vmobj (fs_node s m)"
    "m \<in> N (fs_heap s) \<Longrightarrow> tn_entries (fs_node s' m) = tn_entries (fs_node s m) @ (if m = dn then [\<lparr>td_name = name, td_node = n\<rparr>] else [])"
    "b \<in> Ob (fs_heap s) \<Longrightarrow> fs_file s' b = fs_file s b" "b \<in> Ob (fs_heap s) \<Longrightarrow> b \<in> Ob (fs_heap s')"
    "va_type a = VREG \<Longrightarrow> tn_vmobj (fs_node s' n) \<notin> Ob (fs_heap s) \<and> tn_vmobj (fs_node s' n) \<in> Ob (fs_heap s')"
  using assms by (simp_all add: adds_leaf_def split: if_splits)

lemma child_leaf:
  assumes l: "adds_leaf N Ob s s' dn name n a" and k: "k \<in> N (fs_heap s)" and new: "tlookup dn name s = None" and c: "c \<noteq> ''..''" "name \<noteq> ''..''"
  shows "child c k s' = Some m \<longleftrightarrow> child c k s = Some m \<or> k = dn \<and> c = name \<and> m = n"
  using c new unfolding child_def tlookup_def adds_leafD(8) [OF l k]
  by (cases "k = dn"; cases "c = name") (auto simp: tlookup_append split: option.splits)

lemma nresolve_leaf:
  assumes l: "adds_leaf N Ob s s' dn name n a" and wf: "fs_typed N V s" and root: "root \<in> N (fs_heap s)" and inj: "tree_inj root s"
    and ps: "nresolve ps root s = Found dn" "''..'' \<notin> set ps" and d: "va_type (tn_attr (fs_node s dn)) = VDIR" and new: "tlookup dn name s = None" "name \<noteq> ''..''"
  shows "''..'' \<notin> set q \<Longrightarrow> nresolve q root s' = Found m \<longleftrightarrow> nresolve q root s = Found m \<or> q = ps @ [name] \<and> m = n"
proof (induction q arbitrary: m rule: rev_induct)
  case Nil
  then show ?case by simp
next
  case (snoc c q)
  have c: "c \<noteq> ''..''" "''..'' \<notin> set q" using snoc.prems by auto
  have no: "child c n s' = None" if "va_type (tn_attr (fs_node s' n)) = VDIR" using that adds_leafD(3,4) [OF l] c(1) by (simp add: child_def tlookup_def)
  have old: "va_type (tn_attr (fs_node s' k)) = VDIR \<and> child c k s' = Some m \<longleftrightarrow>
     va_type (tn_attr (fs_node s k)) = VDIR \<and> child c k s = Some m \<or> k = dn \<and> c = name \<and> m = n" if "nresolve q root s = Found k" for k
  proof -
    have k: "k \<in> N (fs_heap s)" by (rule nresolve_typed [OF wf root that])
    show ?thesis using adds_leafD(5) [OF l k] child_leaf [OF l k new(1) c(1) new(2), of m] d by auto
  qed
  have "nresolve q root s = Found dn \<longleftrightarrow> q = ps" using inj ps c(2) unfolding tree_inj_def by blast
  then show ?case unfolding nresolve_snoc_Found snoc.IH [OF c(2)] using old no by auto
qed

lemma view_leaf:
  assumes l: "adds_leaf N Ob s s' dn name n a" and wf: "fs_typed N V s" and root: "root \<in> N (fs_heap s)" and inj: "tree_inj root s" and files: "files_ok N Ob s"
    and ps: "nresolve ps root s = Found dn" "''..'' \<notin> set ps" and d: "va_type (tn_attr (fs_node s dn)) = VDIR" and new: "tlookup dn name s = None" "name \<noteq> ''..''"
  shows "tree_inj root s'" "files_ok N Ob s'" "nresolve (ps @ [name]) root s' = Found n" "view root s' = (view root s)(ps @ [name] \<mapsto> view_node n s')"
proof -
  note R = nresolve_leaf [OF l wf root inj ps d new]
  note A = adds_leafD [OF l]
  have fresh: "nresolve q root s \<noteq> Found n" for q using nresolve_typed [OF wf root, of q n] A(1) by blast
  show "tree_inj root s'" unfolding tree_inj_def
  proof (intro allI impI)
    fix q q' m assume q: "''..'' \<notin> set q" "''..'' \<notin> set q'" "nresolve q root s' = Found m" "nresolve q' root s' = Found m"
    show "q = q'" using q(3,4) unfolding R [OF q(1)] R [OF q(2)]
    proof (elim disjE)
      assume "nresolve q root s = Found m" "nresolve q' root s = Found m"
      then show ?thesis using inj q(1,2) unfolding tree_inj_def by blast
    qed (use fresh in auto)
  qed
  have "is_file m s' = is_file m s" if "m \<in> N (fs_heap s)" for m using A(5) [OF that] by (simp add: is_file_def)
  then show "files_ok N Ob s'" using files A(1,7,10,11) unfolding files_ok_def A(2) by (auto simp: is_file_def A(3))
  have dots: "''..'' \<notin> set (ps @ [name])" using ps(2) new(2) by simp
  show f: "nresolve (ps @ [name]) root s' = Found n" using R [OF dots, of n] by simp
  have vn: "view_node m s' = view_node m s" if "m \<in> N (fs_heap s)" for m
  proof -
    have "tn_vmobj (fs_node s m) \<in> Ob (fs_heap s)" if "va_type (tn_attr (fs_node s m)) = VREG" using files that \<open>m \<in> N (fs_heap s)\<close> by (auto simp: files_ok_def is_file_def)
    then show ?thesis using A(5,7) [OF that] A(9) by (simp add: view_node_def Let_def)
  qed
  have "view root s' q = view root s q" if "q \<noteq> ps @ [name]" for q
  proof (cases "''..'' \<in> set q")
    case False
    then have iff: "nresolve q root s' = Found m \<longleftrightarrow> nresolve q root s = Found m" for m using R [of q m] that by simp
    show ?thesis
    proof (cases "nresolve q root s")
      case (Found m)
      then show ?thesis using iff [of m] vn nresolve_typed [OF wf root Found] False by (simp add: view_def)
    qed (use iff False in \<open>auto simp: view_def split: walk_result.splits\<close>)
  qed (simp add: view_def)
  then show "view root s' = (view root s)(ps @ [name] \<mapsto> view_node n s')" using f dots by (auto simp: view_def fun_eq_iff)
qed

subsection \<open>Writing a file\<close>

lemma view_same_tree:
  assumes "same_tree N s s'"
  shows "view root s' = view root s" "tree_inj root s' = tree_inj root s" "is_file n s' = is_file n s"
    "Ob (fs_heap s') = Ob (fs_heap s) \<Longrightarrow> files_ok N Ob s' = files_ok N Ob s"
proof -
  show i: "is_file n s' = is_file n s" for n using same_treeD(3) [OF assms] by (simp add: is_file_def)
  have vn: "view_node n s' = view_node n s" for n unfolding view_node_def Let_def same_treeD [OF assms] ..
  show "view root s' = view root s" unfolding view_def [abs_def] nresolve_same_tree [OF assms] vn ..
  show "tree_inj root s' = tree_inj root s" by (simp add: tree_inj_def nresolve_same_tree [OF assms])
  show "Ob (fs_heap s') = Ob (fs_heap s) \<Longrightarrow> files_ok N Ob s' = files_ok N Ob s" by (simp add: files_ok_def i same_treeD [OF assms])
qed

text \<open>\<open>s'\<close> is \<open>s\<close> with the contents and the size of the file \<open>n\<close> set.\<close>

definition sets_file :: "'k fs \<Rightarrow> 'k fs \<Rightarrow> tn_ref \<Rightarrow> u8 list \<Rightarrow> bool" where
  "sets_file s s' n bs \<longleftrightarrow> fs_vnode s' = fs_vnode s \<and> fs_root_vnode s' = fs_root_vnode s \<and> (\<forall>m. m \<noteq> n \<longrightarrow> fs_node s' m = fs_node s m) \<and>
     (\<exists>z. fs_node s' n = (fs_node s n)\<lparr>tn_attr := (tn_attr (fs_node s n))\<lparr>va_size := z\<rparr>\<rparr>) \<and> (\<forall>b. b \<noteq> tn_vmobj (fs_node s n) \<longrightarrow> fs_file s' b = fs_file s b) \<and>
     read_bytes (fs_file s' (tn_vmobj (fs_node s n))) 0 (va_size (tn_attr (fs_node s' n))) = bs"

lemma write_sets_file:
  assumes law: "fs_file_law e I N V Ob" "I (Suc c) (fs_heap s)" and less: "I c (fs_heap s)" and v: "vnode_typed ns s v" "vn_type (fs_vnode s v) = VREG" and n: "n = vn_data (fs_vnode s v)"
    and z: "va_size (tn_attr (fs_node s n)) = 0" and bs: "length bs < 2 ^ 31"
  shows "\<exists>s'. vop_write e major v bs 0 s = Some (int (length bs), s') \<and> sets_file s s' n bs \<and> I c (fs_heap s') \<and> N (fs_heap s') = N (fs_heap s) \<and> V (fs_heap s') = V (fs_heap s) \<and> Ob (fs_heap s') = Ob (fs_heap s)"
proof -
  note vt = vnode_typedD [OF v(1)]
  have eq: "vop_write e major v bs 0 s = tmp_write e v bs 0 s" using vt v(2) by (simp add: vop_write_def ops_of_def)
  have obj: "vn_vmobj (fs_vnode s v) = tn_vmobj (fs_node s n)" using vt(7) v(2) n by simp
  show ?thesis
  proof (cases "bs = []")
    case True
    have "sets_file s s n []" using z by (auto simp: sets_file_def read_bytes_def intro: exI [of _ 0])
    moreover have "tmp_write e v [] 0 s = Some (0, s)" by (simp add: tmp_write_def)
    ultimately show ?thesis using less eq by (auto simp: True)
  next
    case False
    let ?n = "of_nat (length bs) :: u64" and ?b = "tn_vmobj (fs_node s n)"
    have un: "unat ?n = length bs" using bs by simp
    have ne: "?n \<noteq> 0" using un False by (metis length_0_conv unat_0)
    define s1 where "s1 = set_node n (\<lambda>t. t\<lparr>tn_attr := (tn_attr t)\<lparr>va_size := ?n\<rparr>\<rparr>) s"
    have i1: "I (Suc c) (fs_heap s1)" using law(2) by (simp add: s1_def set_node_def)
    from fs_file_lawD(6) [OF law(1) i1, of ?b "PGROUNDUP (?n + 0)"] obtain a k1 k2 where
      k: "fe_map e ?b (PGROUNDUP (?n + 0)) (fs_heap s1) = Some (a, k1)" "fe_unmap e a (PGROUNDUP (?n + 0)) k1 = Some k2" "I c k2" "N k2 = N (fs_heap s1)" "V k2 = V (fs_heap s1)" "Ob k2 = Ob (fs_heap s1)" by blast
    define s2 where "s2 = s1\<lparr>fs_heap := k2, fs_file := (fs_file s1)(?b := write_bytes (fs_file s1 ?b) 0 bs)\<rparr>"
    have c: "0 + ?n > va_size (tn_attr (fs_node s n))" using z ne by (simp add: word_gt_0)
    have e1: "fs_vnode s1 = fs_vnode s" by (simp add: s1_def set_node_def)
    have ti: "to_int ?n = int (length bs)" using to_int_small [of ?n] un bs by simp
    have w: "tmp_write e v bs 0 s = Some (int (length bs), s2)"
      unfolding tmp_write_def Let_def n [symmetric] using ne c k(1,2) obj ti by (simp add: s1_def [symmetric] e1 s2_def)
    have "read_bytes (write_bytes (fs_file s ?b) 0 bs) 0 ?n = bs" using read_write_bytes [of 0 bs] bs by simp
    then have "sets_file s s2 n bs" by (auto simp: sets_file_def s2_def s1_def set_node_def)
    moreover have "N (fs_heap s2) = N (fs_heap s)" "V (fs_heap s2) = V (fs_heap s)" "Ob (fs_heap s2) = Ob (fs_heap s)" "I c (fs_heap s2)" using k by (simp_all add: s2_def s1_def set_node_def)
    ultimately show ?thesis unfolding eq using w by blast
  qed
qed

lemma sets_file_same:
  assumes "sets_file s s' n bs"
  shows "tn_vn (fs_node s' m) = tn_vn (fs_node s m)" "tn_entries (fs_node s' m) = tn_entries (fs_node s m)" "tn_parent (fs_node s' m) = tn_parent (fs_node s m)"
    "tn_vmobj (fs_node s' m) = tn_vmobj (fs_node s m)" "va_type (tn_attr (fs_node s' m)) = va_type (tn_attr (fs_node s m))" "m \<noteq> n \<Longrightarrow> tn_attr (fs_node s' m) = tn_attr (fs_node s m)"
    "fs_vnode s' = fs_vnode s" "fs_root_vnode s' = fs_root_vnode s" "b \<noteq> tn_vmobj (fs_node s n) \<Longrightarrow> fs_file s' b = fs_file s b"
    "read_bytes (fs_file s' (tn_vmobj (fs_node s n))) 0 (va_size (tn_attr (fs_node s' n))) = bs"
  using assms by (cases "m = n"; auto simp: sets_file_def)+

lemma sets_file_typed:
  assumes f: "sets_file s s' n bs" and h: "N (fs_heap s') = N (fs_heap s)" "V (fs_heap s') = V (fs_heap s)" and wf: "fs_typed N V s"
  shows "fs_typed N V s'" "fs_grows N V s s'"
  using wf by (simp_all add: fs_typed_def vnode_typed_def node_typed_def Let_def sets_file_same [OF f] h fs_grows_def)

lemma view_sets_file:
  assumes f: "sets_file s s' n bs" and h: "N (fs_heap s') = N (fs_heap s)" "Ob (fs_heap s') = Ob (fs_heap s)" and wf: "fs_typed N V s" and root: "root \<in> N (fs_heap s)"
    and inj: "tree_inj root s" and files: "files_ok N Ob s" and q: "nresolve q root s = Found n" "''..'' \<notin> set q" and ty: "va_type (tn_attr (fs_node s n)) = VREG"
  shows "tree_inj root s'" "files_ok N Ob s'" "view root s' = (view root s)(q \<mapsto> File bs)"
proof -
  note F = sets_file_same [OF f]
  have r: "nresolve p m s' = nresolve p m s" for p m by (induction p arbitrary: m) (simp_all add: child_def tlookup_def F split: option.splits)
  have i: "is_file m s' = is_file m s" for m by (simp add: is_file_def F)
  show "tree_inj root s'" using inj by (simp add: tree_inj_def r)
  show "files_ok N Ob s'" using files by (simp add: files_ok_def i F h)
  have n: "n \<in> N (fs_heap s)" by (rule nresolve_typed [OF wf root q(1)])
  have other: "view_node m s' = view_node m s" if "m \<in> N (fs_heap s)" "m \<noteq> n" for m
  proof -
    have "tn_vmobj (fs_node s m) \<noteq> tn_vmobj (fs_node s n)" if "va_type (tn_attr (fs_node s m)) = VREG"
      using files that ty n \<open>m \<in> N (fs_heap s)\<close> \<open>m \<noteq> n\<close> unfolding files_ok_def is_file_def by blast
    then show ?thesis using that(2) by (simp add: view_node_def Let_def F)
  qed
  have "view root s' p = view root s p" if "p \<noteq> q" for p
  proof (cases "''..'' \<in> set p \<or> (\<forall>m. nresolve p root s \<noteq> Found m)")
    case True
    then show ?thesis by (auto simp: view_def r split: walk_result.splits)
  next
    case False
    then obtain m where m: "''..'' \<notin> set p" "nresolve p root s = Found m" by auto
    then have "m \<noteq> n" using inj q that unfolding tree_inj_def by blast
    then show ?thesis using m other nresolve_typed [OF wf root m(2)] by (simp add: view_def r)
  qed
  moreover have "view root s' q = Some (File bs)" using q ty by (simp add: view_def r view_node_def Let_def F)
  ultimately show "view root s' = (view root s)(q \<mapsto> File bs)" by (auto simp: fun_eq_iff)
qed

subsection \<open>Creating a file or a directory under its path\<close>

definition root_node :: "'k fs \<Rightarrow> tn_ref" where
  "root_node s = vn_data (fs_vnode s (fs_root_vnode s))"

definition fs_good :: "('k \<Rightarrow> tn_ref set) \<Rightarrow> ('k \<Rightarrow> vn_ref set) \<Rightarrow> ('k \<Rightarrow> obj_ref set) \<Rightarrow> 'k fs \<Rightarrow> bool" where
  "fs_good N V Ob s \<longleftrightarrow> fs_typed N V s \<and> files_ok N Ob s \<and> fs_root_vnode s \<in> V (fs_heap s) \<and> tree_inj (root_node s) s"

lemma fs_goodD:
  assumes "fs_good N V Ob s"
  shows "fs_typed N V s" "files_ok N Ob s" "fs_root_vnode s \<in> V (fs_heap s)" "tree_inj (root_node s) s" "root_node s \<in> N (fs_heap s)" "fs_root_vnode s \<noteq> 0"
  using assms vnode_typedD(1,2) [OF fs_typed_vnode, of N V s "fs_root_vnode s"] by (simp_all add: fs_good_def root_node_def)

lemma root_node_grows: "fs_grows N V s s' \<Longrightarrow> fs_root_vnode s \<in> V (fs_heap s) \<Longrightarrow> root_node s' = root_node s \<and> fs_root_vnode s' \<in> V (fs_heap s')"
  by (auto simp: fs_grows_def root_node_def)

lemma view_Some_Dir: "view root s q = Some Dir \<Longrightarrow> \<exists>n. nresolve q root s = Found n \<and> va_type (tn_attr (fs_node s n)) = VDIR"
  by (auto simp: view_def view_node_def Let_def split: if_splits walk_result.splits)

lemma create_view:
  assumes law: "fs_heap_law e I N V" "I (c + 5 + 2 * length ps) (fs_heap s)" and flaw: "fs_file_law e I N V Ob" and good: "fs_good N V Ob s"
    and p: "creates p" "length p < 255" "length p \<noteq> 1" "components p = ps @ [x]" "''..'' \<notin> set (components p)" and a: "va_type a = VDIR \<or> va_type a = VREG"
    and dir: "view (root_node s) s ps = Some Dir" and new: "view (root_node s) s (ps @ [x]) = None"
  shows "\<exists>w s'. vfs_lookup e (fs_root_vnode s) p kLookupCreat (Some a) s = Some (Inr w, s') \<and> I c (fs_heap s') \<and> fs_good N V Ob s' \<and> root_node s' = root_node s \<and> w \<in> V (fs_heap s') \<and>
    nresolve (ps @ [x]) (root_node s) s' = Found (vn_data (fs_vnode s' w)) \<and> vn_type (fs_vnode s' w) = va_type a \<and> va_size (tn_attr (fs_node s' (vn_data (fs_vnode s' w)))) = 0 \<and>
    view (root_node s) s' = (view (root_node s) s)(ps @ [x] \<mapsto> (if va_type a = VDIR then Dir else File []))"
proof -
  let ?r = "root_node s"
  note G = fs_goodD [OF good]
  have dots: "''..'' \<notin> set ps" "x \<noteq> ''..''" using p(4,5) by auto
  obtain dn where dn: "nresolve ps ?r s = Found dn" "va_type (tn_attr (fs_node s dn)) = VDIR" using view_Some_Dir [OF dir] by blast
  have ch: "child x dn s = None"
    using new dn dots p(4,5) by (cases "child x dn s") (auto simp: view_def nresolve_append)
  then have tl: "tlookup dn x s = None" using dots(2) by (simp add: child_def)
  have rc: "walk_refines N V s (Found dn) (resolve e ps (fs_root_vnode s) s)" "\<And>r t. resolve e ps (fs_root_vnode s) s = Some (r, t) \<Longrightarrow> I (c + 5) (fs_heap t)"
    using resolve_credit [OF law(1) law(2) G(1,3)] dn(1) by (auto simp: root_node_def)
  obtain d s1 where d: "resolve e ps (fs_root_vnode s) s = Some (Inr d, s1)" "fs_typed N V s1" "fs_grows N V s s1" "same_tree N s s1" "d \<in> V (fs_heap s1)" "vn_data (fs_vnode s1 d) = dn"
    using rc(1) by (auto simp: walk_refines_def)
  have i1: "I (c + 5) (fs_heap s1)" by (rule rc(2) [OF d(1)])
  have ob1: "Ob (fs_heap s1) = Ob (fs_heap s)" by (rule resolve_objects [OF flaw d(1)])
  have r1: "root_node s1 = ?r" "fs_root_vnode s1 \<in> V (fs_heap s1)" using root_node_grows [OF d(3) G(3)] by simp_all
  have dt: "vn_type (fs_vnode s1 d) = VDIR" using vnode_typedD(4) [OF fs_typed_vnode [OF d(2,5)]] d(6) dn(2) same_treeD(3) [OF d(4)] by simp
  have a0: "va_type a \<noteq> VNON" using a by auto
  from create_leaf [OF law(1) i1 flaw d(2) a0 d(5) dt, of x] obtain w s2 where
    w: "vop_create e d x (Some a) s1 = Some (w, s2)" "I c (fs_heap s2)" "fs_typed N V s2" "fs_grows N V s1 s2" "w \<in> V (fs_heap s2)" and l: "adds_leaf N Ob s1 s2 dn x (vn_data (fs_vnode s2 w)) a"
    unfolding d(6) by blast
  note st = nresolve_same_tree [OF d(4)] same_treeD [OF d(4)] view_same_tree [OF d(4)]
  have root1: "?r \<in> N (fs_heap s1)" and inj1: "tree_inj ?r s1" and files1: "files_ok N Ob s1" and ps1: "nresolve ps ?r s1 = Found dn" and dn1: "va_type (tn_attr (fs_node s1 dn)) = VDIR" and tl1: "tlookup dn x s1 = None"
    using G dn tl ob1 by (simp_all add: st tlookup_def)
  note L = view_leaf [OF l d(2) root1 inj1 files1 ps1 dots(1) dn1 tl1 dots(2)]
  have r2: "root_node s2 = ?r" "fs_root_vnode s2 \<in> V (fs_heap s2)" using root_node_grows [OF w(4) r1(2)] r1(1) by simp_all
  have wt: "vn_type (fs_vnode s2 w) = va_type a" using vnode_typedD(4) [OF fs_typed_vnode [OF w(3,5)]] adds_leafD(3) [OF l] by simp
  have vn: "view_node (vn_data (fs_vnode s2 w)) s2 = (if va_type a = VDIR then Dir else File [])" using a adds_leafD(3) [OF l] by (auto simp: view_node_def Let_def read_bytes_def)
  have "vfs_lookup e (fs_root_vnode s) p kLookupCreat (Some a) s = Some (Inr w, s2)"
    using vfs_create_eq [OF p(1,2,3), of "fs_root_vnode s" "fs_root_vnode s" s e "Some a"] d(1) w(1) cross_mounts_typed [OF w(3,5)] p(4) by simp
  moreover have "fs_good N V Ob s2" using w(3) L(1,2) r2 by (simp add: fs_good_def)
  moreover have "view ?r s2 = (view ?r s)(ps @ [x] \<mapsto> (if va_type a = VDIR then Dir else File []))" unfolding L(4) vn st(8) ..
  moreover have "va_size (tn_attr (fs_node s2 (vn_data (fs_vnode s2 w)))) = 0" using adds_leafD(3) [OF l] by simp
  ultimately show ?thesis using w(2,5) r2(1) L(3) wt by blast
qed

end
