(* ===== verification/Ramdisk.thy ===== *)
theory Ramdisk
  imports Fs_View
begin

text \<open>
  Unpacking the initial ram disk into the root file system (\<^verbatim>\<open>posix/posix_main.c\<close>). The module that the
  boot loader hands over is a list of bytes. \<open>None\<close> is a failed assertion, a call of \<^verbatim>\<open>fatal\<close>, a read
  outside the module or the use of a variable that was never set.

  The archive of a list of entries is written down as a format; unpacking it carries out the entries
  one after the other.
\<close>

subsection \<open>Headers\<close>

definition byte_at :: "u8 list \<Rightarrow> nat \<Rightarrow> u8 option" where
  "byte_at img p = (if p < length img then Some (img ! p) else None)"

definition bytes_at :: "u8 list \<Rightarrow> nat \<Rightarrow> nat \<Rightarrow> u8 list option" where
  "bytes_at img p n = (if p + n \<le> length img then Some (take n (drop p img)) else None)"

text \<open>A string runs to the next zero byte, past the end of its field if need be.\<close>

definition cstring_at :: "u8 list \<Rightarrow> nat \<Rightarrow> string option" where
  "cstring_at img p = (let s = takeWhile (\<lambda>b. b \<noteq> 0) (drop p img) in
     if p + length s < length img then Some (map (\<lambda>b. char_of (unat b)) s) else None)"

text \<open>The offsets of the fields of \<^verbatim>\<open>struct ustar_hdr\<close> that are read.\<close>

definition ustar_filename :: nat where "ustar_filename = 0"
definition ustar_mode :: nat where "ustar_mode = ustar_filename + 100"
definition ustar_size :: nat where "ustar_size = ustar_mode + 8 + 8 + 8"
definition ustar_type :: nat where "ustar_type = ustar_size + 12 + 12 + 8"

lemmas ustar_defs = ustar_filename_def ustar_mode_def ustar_size_def ustar_type_def

definition kUStarNormal :: u8 where "kUStarNormal = 0x30"
definition kUStarDirectory :: u8 where "kUStarDirectory = 0x35"

text \<open>
  An \<^verbatim>\<open>int\<close> holds the sum. Going beyond its range is undefined in C; the model wraps around, as the
  instructions of the machine do. The size field of the zero block that ends an archive does overflow.
\<close>

definition wrap_int :: "int \<Rightarrow> int" where
  "wrap_int x = (x + 2 ^ 31) mod 2 ^ 32 - 2 ^ 31"

fun oct2i_loop :: "int \<Rightarrow> u8 list \<Rightarrow> int" where
  "oct2i_loop n [] = n"
| "oct2i_loop n (b # bs) = oct2i_loop (wrap_int (wrap_int (n * 8) + (uint b - 0x30))) bs"

definition oct2i :: "u8 list \<Rightarrow> int" where
  "oct2i bs = oct2i_loop 0 bs"

subsection \<open>Unpacking\<close>

definition S_IFMT :: u32 where "S_IFMT = 0xf000"

text \<open>\<open>rdev\<close> is what the stack held in the field of \<^verbatim>\<open>attr\<close> that is never set; the size is overwritten later.\<close>

definition unpack_attr :: "dev_t \<Rightarrow> vtype \<Rightarrow> int \<Rightarrow> vattr" where
  "unpack_attr rdev ty mode = \<lparr>va_type = ty, va_mode = word_of_int mode AND NOT S_IFMT, va_size = 0, va_rdev = rdev\<rparr>"

text \<open>When a file cannot be made, the message is followed by a write through an unset pointer.\<close>

definition unpack_entry :: "'k fs_env \<Rightarrow> (dev_t \<Rightarrow> nat) \<Rightarrow> dev_t \<Rightarrow> u8 list \<Rightarrow> nat \<Rightarrow> int \<Rightarrow> 'k fs \<Rightarrow> 'k fs option" where
  "unpack_entry e major rdev img p fsize s = do {
     bs \<leftarrow> bytes_at img (p + ustar_mode) 7;
     let mode = oct2i bs;
     ty \<leftarrow> byte_at img (p + ustar_type);
     if ty = kUStarDirectory then do {
       name \<leftarrow> cstring_at img (p + ustar_filename);
       (_, s1) \<leftarrow> vfs_lookup e (fs_root_vnode s) name kLookupCreat (Some (unpack_attr rdev VDIR mode)) s;
       Some s1
     } else if ty = kUStarNormal then do {
       name \<leftarrow> cstring_at img (p + ustar_filename);
       (r, s1) \<leftarrow> vfs_lookup e (fs_root_vnode s) name kLookupCreat (Some (unpack_attr rdev VREG mode)) s;
       vn \<leftarrow> (case r of Inl _ \<Rightarrow> None | Inr v \<Rightarrow> Some v);
       buf \<leftarrow> bytes_at img (p + 512) (unat (word_of_int fsize :: u64));
       (_, s2) \<leftarrow> vop_write e major vn buf 0 s1;
       Some s2
     } else Some s
   }"

text \<open>A negative size can bring the position back, so the loop need not end.\<close>

partial_function (option) unpack_loop :: "'k fs_env \<Rightarrow> (dev_t \<Rightarrow> nat) \<Rightarrow> dev_t \<Rightarrow> u8 list \<Rightarrow> u64 \<Rightarrow> 'k fs \<Rightarrow> 'k fs option" where
  "unpack_loop e major rdev img i s = (if i < of_nat (length img) then do {
     sz \<leftarrow> bytes_at img (unat i + ustar_size) 11;
     let fsize = oct2i sz;
     c \<leftarrow> byte_at img (unat i + ustar_filename);
     if c = 0 then Some s
     else do {
       c2 \<leftarrow> byte_at img (unat i + ustar_filename + 2);
       s1 \<leftarrow> (if c2 = 0 then Some s else unpack_entry e major rdev img (unat i) fsize s);
       unpack_loop e major rdev img (i + (512 + ROUNDUP (word_of_int fsize) 512)) s1
     }
   } else Some s)"

text \<open>0x1ed is 0755, 0x4000 is \<^verbatim>\<open>S_IFDIR\<close>; the device number of \<^verbatim>\<open>devattr\<close> is 0 by its initialiser.\<close>

definition devattr :: vattr where
  "devattr = \<lparr>va_type = VDIR, va_mode = 0x1ed OR 0x4000, va_size = 0, va_rdev = 0\<rparr>"

definition unpack_ramdisk :: "'k fs_env \<Rightarrow> (dev_t \<Rightarrow> nat) \<Rightarrow> dev_t \<Rightarrow> u8 list list \<Rightarrow> vfs_ref \<Rightarrow> 'k fs \<Rightarrow> 'k fs option" where
  "unpack_ramdisk e major rdev modules root_vfs s = do {
     kassert (length modules = 1);
     (r, s1) \<leftarrow> tmpfs_mount e root_vfs s;
     kassert (r \<ge> 0);
     let s2 = s1\<lparr>fs_root_vnode := tmpfs_root root_vfs s1\<rparr>;
     (dev, s3) \<leftarrow> vop_create e (fs_root_vnode s2) ''dev'' (Some devattr) s2;
     unpack_loop e major rdev (hd modules) 0 (s3\<lparr>fs_dev_vnode := dev\<rparr>)
   }"

text \<open>\<^verbatim>\<open>autoconf\<close>, the start of the device drivers, is a parameter.\<close>

definition posix_main :: "'k fs_env \<Rightarrow> (dev_t \<Rightarrow> nat) \<Rightarrow> dev_t \<Rightarrow> u8 list list \<Rightarrow> vfs_ref \<Rightarrow> ('k fs \<Rightarrow> 'k fs option) \<Rightarrow> 'k fs \<Rightarrow> (int \<times> 'k fs) option" where
  "posix_main e major rdev modules root_vfs autoconf s = do {
     s1 \<leftarrow> unpack_ramdisk e major rdev modules root_vfs s;
     s2 \<leftarrow> autoconf s1;
     Some (0, s2)
   }"

subsection \<open>Octal numbers\<close>

text \<open>The last \<open>w\<close> octal digits of \<open>n\<close>.\<close>

fun octal :: "nat \<Rightarrow> nat \<Rightarrow> u8 list" where
  "octal 0 n = []"
| "octal (Suc w) n = octal w (n div 8) @ [0x30 + of_nat (n mod 8)]"

lemma length_octal [simp]: "length (octal w n) = w"
  by (induction w arbitrary: n) simp_all

lemma oct2i_loop_append: "oct2i_loop n (xs @ ys) = oct2i_loop (oct2i_loop n xs) ys"
  by (induction xs arbitrary: n) simp_all

lemma wrap_int_id: "0 \<le> x \<Longrightarrow> x < 2 ^ 31 \<Longrightarrow> wrap_int x = x"
  by (simp add: wrap_int_def)

lemma uint_digit: "d < 8 \<Longrightarrow> uint (0x30 + of_nat d :: u8) = 0x30 + int d"
proof -
  assume d: "d < 8"
  then have "unat (of_nat d :: u8) = d" by (simp add: unat_of_nat take_bit_eq_mod)
  then have "unat (0x30 + of_nat d :: u8) = 0x30 + d" using d by (subst unat_add_nowrap) simp_all
  then show ?thesis by (metis of_nat_add of_nat_numeral uint_nat)
qed

lemma oct2i_octal:
  assumes "n < 8 ^ w" and "n < 2 ^ 31"
  shows "oct2i (octal w n) = int n"
  using assms
proof (induction w arbitrary: n)
  case 0
  then show ?case by (simp add: oct2i_def)
next
  case (Suc w)
  have "n div 8 < 8 ^ w" using Suc.prems(1) by (simp add: less_mult_imp_div_less mult.commute)
  then have "oct2i (octal w (n div 8)) = int (n div 8)" using Suc.prems(2) by (intro Suc.IH) simp_all
  moreover have "int (n div 8) * 8 + int (n mod 8) = int n" by (metis div_mult_mod_eq of_nat_add of_nat_mult of_nat_numeral)
  moreover have "int n < 2 ^ 31" using Suc.prems(2) by (metis of_nat_less_numeral_power_cancel_iff)
  ultimately show ?case by (simp add: oct2i_def oct2i_loop_append uint_digit wrap_int_id)
qed

subsection \<open>Archives\<close>

text \<open>
  An entry of an archive. The fields that the kernel does not read are arbitrary bytes: owner and
  group, times and checksum, and the rest of the header up to its 512 bytes.
\<close>

record tar_entry =
  te_name :: string
  te_mode :: nat
  te_dir :: bool
  te_data :: "u8 list"
  te_ids :: "u8 list"
  te_times :: "u8 list"
  te_rest :: "u8 list"

definition entry_ok :: "tar_entry \<Rightarrow> bool" where
  "entry_ok t \<longleftrightarrow> te_name t \<noteq> [] \<and> length (te_name t) < 100 \<and> CHR 0x00 \<notin> set (te_name t) \<and> te_mode t < 8 ^ 7 \<and>
     length (te_data t) < 2 ^ 31 \<and> (te_dir t \<longrightarrow> te_data t = []) \<and> length (te_ids t) = 16 \<and> length (te_times t) = 20 \<and> length (te_rest t) = 355"

definition pad_zero :: "nat \<Rightarrow> u8 list \<Rightarrow> u8 list" where
  "pad_zero n bs = bs @ replicate (n - length bs) 0"

definition tar_header :: "tar_entry \<Rightarrow> u8 list" where
  "tar_header t = pad_zero 100 (map (\<lambda>c. of_nat (of_char c)) (te_name t)) @ octal 7 (te_mode t) @ [0] @ te_ids t @
     octal 11 (length (te_data t)) @ [0] @ te_times t @ [if te_dir t then kUStarDirectory else kUStarNormal] @ te_rest t"

definition tar_encode :: "tar_entry \<Rightarrow> u8 list" where
  "tar_encode t = tar_header t @ pad_zero ((length (te_data t) + 511) div 512 * 512) (te_data t)"

text \<open>
  What the code does with an entry. A name of up to two characters is passed over: the top of the
  archive is meant, but a file of such a name is dropped without a message.
\<close>

definition carry_out :: "'k fs_env \<Rightarrow> (dev_t \<Rightarrow> nat) \<Rightarrow> dev_t \<Rightarrow> tar_entry \<Rightarrow> 'k fs \<Rightarrow> 'k fs option" where
  "carry_out e major rdev t s = (if length (te_name t) \<le> 2 then Some s else do {
     (r, s1) \<leftarrow> vfs_lookup e (fs_root_vnode s) (te_name t) kLookupCreat (Some (unpack_attr rdev (if te_dir t then VDIR else VREG) (int (te_mode t)))) s;
     (if te_dir t then Some s1
      else (case r of Inl _ \<Rightarrow> None | Inr v \<Rightarrow> do { (_, s2) \<leftarrow> vop_write e major v (te_data t) 0 s1; Some s2 }))
   })"

fun carry_out_all :: "'k fs_env \<Rightarrow> (dev_t \<Rightarrow> nat) \<Rightarrow> dev_t \<Rightarrow> tar_entry list \<Rightarrow> 'k fs \<Rightarrow> 'k fs option" where
  "carry_out_all e major rdev [] s = Some s"
| "carry_out_all e major rdev (t # ts) s = do { s1 \<leftarrow> carry_out e major rdev t s; carry_out_all e major rdev ts s1 }"

lemma bytes_at_append:
  "bytes_at (xs @ ys) (length xs + p) n = bytes_at ys p n"
  "length ys = n \<Longrightarrow> bytes_at (ys @ zs) 0 n = Some ys"
  by (simp_all add: bytes_at_def)

lemma byte_at_append: "byte_at (xs @ ys) (length xs + p) = byte_at ys p"
  by (simp add: byte_at_def nth_append)

lemma cstring_at_append: "cstring_at (xs @ ys) (length xs + p) = cstring_at ys p"
  by (simp add: cstring_at_def Let_def)

lemma bytes_at_skip: "length xs \<le> p \<Longrightarrow> bytes_at (xs @ ys) p n = bytes_at ys (p - length xs) n"
  using bytes_at_append(1) [of xs ys "p - length xs" n] by simp

lemma byte_at_skip: "length xs \<le> p \<Longrightarrow> byte_at (xs @ ys) p = byte_at ys (p - length xs)"
  using byte_at_append [of xs ys "p - length xs"] by simp

lemma byte_at_Cons: "byte_at (x # ys) p = (if p = 0 then Some x else byte_at ys (p - 1))"
  by (cases p) (simp_all add: byte_at_def)

lemma length_pad_zero [simp]: "length bs \<le> n \<Longrightarrow> length (pad_zero n bs) = n"
  by (simp add: pad_zero_def)

lemma of_char_byte: "unat (of_nat (of_char c) :: u8) = of_char c"
proof -
  have "of_char c < (256 :: nat)" by (rule nat_of_char_less_256)
  then show ?thesis by (simp add: unat_of_nat take_bit_eq_mod)
qed

lemma of_char_byte_zero: "of_nat (of_char c) = (0 :: u8) \<longleftrightarrow> c = CHR 0x00"
proof -
  have "of_nat (of_char c) = (0 :: u8) \<longleftrightarrow> of_char c = (0 :: nat)" unfolding unat_eq_0 [symmetric] of_char_byte ..
  also have "\<dots> \<longleftrightarrow> c = CHR 0x00" using of_char_eq_iff [of c "CHR 0x00"] by simp
  finally show ?thesis .
qed

subsection \<open>Reading back a header\<close>

lemma tar_length:
  assumes "entry_ok t"
  shows "length (tar_header t) = 512" "length (tar_encode t) = 512 + (length (te_data t) + 511) div 512 * 512"
proof -
  show h: "length (tar_header t) = 512" using assms by (simp add: tar_header_def entry_ok_def)
  have "length (te_data t) \<le> (length (te_data t) + 511) div 512 * 512" by simp
  then show "length (tar_encode t) = 512 + (length (te_data t) + 511) div 512 * 512" by (simp add: tar_encode_def h)
qed

lemma tar_fields:
  assumes "entry_ok t"
  shows "bytes_at (tar_encode t @ post) ustar_mode 7 = Some (octal 7 (te_mode t))"
    and "bytes_at (tar_encode t @ post) ustar_size 11 = Some (octal 11 (length (te_data t)))"
    and "byte_at (tar_encode t @ post) ustar_type = Some (if te_dir t then kUStarDirectory else kUStarNormal)"
    and "bytes_at (tar_encode t @ post) 512 (length (te_data t)) = Some (te_data t)"
proof -
  have n: "length (map (\<lambda>c. of_nat (of_char c) :: u8) (te_name t)) \<le> 100" using assms by (simp add: entry_ok_def)
  have ln: "length (pad_zero 100 (map (\<lambda>c. of_nat (of_char c)) (te_name t))) = 100" using n by (rule length_pad_zero)
  have l: "length (te_ids t) = 16" "length (te_times t) = 20" using assms by (simp_all add: entry_ok_def)
  show "bytes_at (tar_encode t @ post) ustar_mode 7 = Some (octal 7 (te_mode t))"
    by (simp add: tar_encode_def tar_header_def ustar_defs bytes_at_skip ln bytes_at_append)
  show "bytes_at (tar_encode t @ post) ustar_size 11 = Some (octal 11 (length (te_data t)))"
    by (simp add: tar_encode_def tar_header_def ustar_defs bytes_at_skip ln l bytes_at_append del: append_Cons)
  show "byte_at (tar_encode t @ post) ustar_type = Some (if te_dir t then kUStarDirectory else kUStarNormal)"
    by (simp add: tar_encode_def tar_header_def ustar_defs byte_at_skip ln l byte_at_Cons)
  show "bytes_at (tar_encode t @ post) 512 (length (te_data t)) = Some (te_data t)"
    using tar_length(1) [OF assms] by (simp add: tar_encode_def pad_zero_def bytes_at_skip bytes_at_append)
qed

lemma tar_name:
  assumes "entry_ok t"
  shows "cstring_at (tar_encode t @ post) ustar_filename = Some (te_name t)"
    and "\<exists>c. byte_at (tar_encode t @ post) ustar_filename = Some c \<and> c \<noteq> 0"
    and "\<exists>c. byte_at (tar_encode t @ post) (ustar_filename + 2) = Some c \<and> (c = 0 \<longleftrightarrow> length (te_name t) \<le> 2)"
proof -
  let ?n = "map (\<lambda>c. of_nat (of_char c) :: u8) (te_name t)"
  have n: "te_name t \<noteq> []" "length (te_name t) < 100" "CHR 0x00 \<notin> set (te_name t)" using assms by (simp_all add: entry_ok_def)
  have z: "\<forall>b \<in> set ?n. b \<noteq> 0" using n(3) by (auto simp: of_char_byte_zero)
  obtain rest where e: "tar_encode t @ post = ?n @ replicate (100 - length (te_name t)) 0 @ rest" by (simp add: tar_encode_def tar_header_def pad_zero_def)
  define k where "k = 99 - length (te_name t)"
  have k: "100 - length (te_name t) = Suc k" using n(2) by (simp add: k_def)
  have tw: "takeWhile (\<lambda>b. b \<noteq> 0) (tar_encode t @ post) = ?n"
    unfolding e k by (subst takeWhile_append2) (use z in \<open>blast, simp\<close>)
  have c: "map (\<lambda>b. char_of (unat b)) ?n = te_name t" by (simp add: comp_def of_char_byte map_idI)
  show "cstring_at (tar_encode t @ post) ustar_filename = Some (te_name t)"
    unfolding cstring_at_def Let_def ustar_defs drop_0 tw c using n(2) by (simp add: e)
  have "byte_at (tar_encode t @ post) ustar_filename = Some (?n ! 0)" using n(1) by (simp add: byte_at_def ustar_defs e nth_append)
  moreover have "?n ! 0 \<noteq> 0" using z n(1) by (metis length_greater_0_conv list.map_disc_iff nth_mem)
  ultimately show "\<exists>c. byte_at (tar_encode t @ post) ustar_filename = Some c \<and> c \<noteq> 0" by blast
  show "\<exists>c. byte_at (tar_encode t @ post) (ustar_filename + 2) = Some c \<and> (c = 0 \<longleftrightarrow> length (te_name t) \<le> 2)"
  proof (cases "length (te_name t) \<le> 2")
    case True
    then have "2 - length (te_name t) < 100 - length (te_name t)" by simp
    then show ?thesis using True by (auto simp: byte_at_def ustar_defs e nth_append)
  next
    case False
    then have "?n ! 2 \<noteq> 0" using z by (metis length_map linorder_not_le nth_mem)
    then show ?thesis using False by (simp add: byte_at_def ustar_defs e nth_append numeral_2_eq_2)
  qed
qed

lemma word_of_data: 
  assumes "n < 2 ^ 31"
  shows "(word_of_int (int n) :: u64) = of_nat n" and "unat (word_of_int (int n) :: u64) = n" and "ROUNDUP (word_of_int (int n)) 512 = of_nat ((n + 511) div 512 * 512)"
proof -
  show w: "(word_of_int (int n) :: u64) = of_nat n" by simp
  have u: "unat (of_nat n :: u64) = n" using assms by simp
  then show "unat (word_of_int (int n) :: u64) = n" using w by simp
  have "unat (ROUNDUP (of_nat n) 512) = (n + 511) div 512 * 512" using ROUNDUP_unat [of "of_nat n" 9] assms u by simp
  then show "ROUNDUP (word_of_int (int n)) 512 = of_nat ((n + 511) div 512 * 512)" unfolding w by (metis of_nat_unat ucast_id)
qed

lemma unpack_entry_carry_out:
  assumes ok: "entry_ok t" and long: "\<not> length (te_name t) \<le> 2"
  shows "unpack_entry e major rdev (pre @ tar_encode t @ post) (length pre) (int (length (te_data t))) s = carry_out e major rdev t s"
proof -
  have m: "oct2i (octal 7 (te_mode t)) = int (te_mode t)" using ok by (intro oct2i_octal) (simp_all add: entry_ok_def)
  have d: "unat (word_of_int (int (length (te_data t))) :: u64) = length (te_data t)" using ok by (intro word_of_data(2)) (simp add: entry_ok_def)
  have k: "kUStarNormal \<noteq> kUStarDirectory" by (simp add: kUStarNormal_def kUStarDirectory_def)
  note read = bytes_at_append(1) byte_at_append cstring_at_append tar_fields [OF ok] tar_name(1) [OF ok] m d
  show ?thesis
  proof (cases "te_dir t")
    case True
    then show ?thesis using k long by (simp add: unpack_entry_def carry_out_def read split_def)
  next
    case False
    have c: "(case r of Inl _ \<Rightarrow> None | Inr v \<Rightarrow> Some v) \<bind> f = (case r of Inl _ \<Rightarrow> None | Inr v \<Rightarrow> f v)" for r :: "int + vn_ref" and f :: "vn_ref \<Rightarrow> 'a fs option"
      by (cases r) simp_all
    show ?thesis using False k long by (simp add: unpack_entry_def carry_out_def read d [simplified] split_def c cong: sum.case_cong)
  qed
qed

lemma unpack_archive_from:
  assumes "\<And>t. t \<in> set ts \<Longrightarrow> entry_ok t" and "length pre + length (concat (map tar_encode ts)) + 512 + length post < 2 ^ 64"
  shows "unpack_loop e major rdev (pre @ concat (map tar_encode ts) @ replicate 512 0 @ post) (of_nat (length pre)) s = carry_out_all e major rdev ts s"
  using assms
proof (induction ts arbitrary: pre s)
  case Nil
  let ?img = "pre @ replicate 512 0 @ post"
  have u: "unat (of_nat (length pre) :: u64) = length pre" using Nil.prems(2) by simp
  have lt: "(of_nat (length pre) :: u64) < of_nat (length ?img)" unfolding word_less_nat_alt u using Nil.prems(2) by (subst unat_of_nat64) simp_all
  have b: "bytes_at ?img (length pre + ustar_size) 11 = Some (replicate 11 0)" "byte_at ?img (length pre + ustar_filename) = Some 0"
    by (simp_all only: bytes_at_append(1) byte_at_append, simp_all add: bytes_at_def byte_at_def ustar_defs nth_append)
  have "unpack_loop e major rdev ?img (of_nat (length pre)) s = Some s"
    using lt by (subst unpack_loop.simps) (simp add: u b Let_def)
  then show ?case by simp
next
  case (Cons t ts)
  let ?n = "length (te_data t)"
  let ?img = "pre @ tar_encode t @ concat (map tar_encode ts) @ replicate 512 0 @ post"
  have ok: "entry_ok t" and n: "?n < 2 ^ 31" using Cons.prems(1) by (auto simp: entry_ok_def)
  have u: "unat (of_nat (length pre) :: u64) = length pre" using Cons.prems(2) by simp
  have lt: "(of_nat (length pre) :: u64) < of_nat (length ?img)" unfolding word_less_nat_alt u using Cons.prems(2) by (subst unat_of_nat64) simp_all
  have o: "oct2i (octal 11 ?n) = int ?n" using n by (intro oct2i_octal) simp_all
  obtain c c2 where c: "byte_at ?img (length pre + ustar_filename) = Some c" "c \<noteq> 0" "byte_at ?img (length pre + ustar_filename + 2) = Some c2" "c2 = 0 \<longleftrightarrow> length (te_name t) \<le> 2"
    unfolding byte_at_append add.assoc using tar_name(2,3) [OF ok] by blast
  have b: "bytes_at ?img (length pre + ustar_size) 11 = Some (octal 11 ?n)" unfolding bytes_at_append(1) by (rule tar_fields(2) [OF ok])
  have i: "(of_nat (length pre) :: u64) + (512 + ROUNDUP (word_of_int (int ?n)) 512) = of_nat (length (pre @ tar_encode t))"
    unfolding word_of_data(3) [OF n] by (simp add: tar_length(2) [OF ok])
  have e: "(if c2 = 0 then Some s else unpack_entry e major rdev ?img (length pre) (int ?n) s) = carry_out e major rdev t s"
  proof (cases "length (te_name t) \<le> 2")
    case True
    then show ?thesis using c(4) by (simp add: carry_out_def)
  next
    case False
    show ?thesis using unpack_entry_carry_out [OF ok False] c(4) False by simp
  qed
  have "unpack_loop e major rdev ((pre @ tar_encode t) @ concat (map tar_encode ts) @ replicate 512 0 @ post) (of_nat (length (pre @ tar_encode t))) s' = carry_out_all e major rdev ts s'" for s'
    using Cons.prems by (intro Cons.IH) simp_all
  then have IH: "unpack_loop e major rdev ?img (of_nat (length (pre @ tar_encode t))) s' = carry_out_all e major rdev ts s'" for s' by simp
  have "unpack_loop e major rdev ?img (of_nat (length pre)) s = do { s1 \<leftarrow> carry_out e major rdev t s; unpack_loop e major rdev ?img (of_nat (length (pre @ tar_encode t))) s1 }"
    using lt c(1,2,3) by (subst unpack_loop.simps) (simp only: u b o Let_def if_True Option.bind.bind_lunit if_False i e)
  then have "unpack_loop e major rdev ?img (of_nat (length pre)) s = do { s1 \<leftarrow> carry_out e major rdev t s; carry_out_all e major rdev ts s1 }" unfolding IH .
  then show ?case by simp
qed

subsection \<open>The file system after unpacking\<close>

definition te_content :: "tar_entry \<Rightarrow> content" where
  "te_content t = (if te_dir t then Dir else File (te_data t))"

fun unpack_spec :: "tar_entry list \<Rightarrow> (string list \<rightharpoonup> content) \<Rightarrow> (string list \<rightharpoonup> content)" where
  "unpack_spec [] m = m"
| "unpack_spec (t # ts) m = unpack_spec ts (m(components (te_name t) \<mapsto> te_content t))"

text \<open>
  Directories come before what is in them and no path occurs twice, but that a name of one or two
  characters may only repeat what is there: the root.
\<close>

fun archive_ok :: "tar_entry list \<Rightarrow> (string list \<rightharpoonup> content) \<Rightarrow> bool" where
  "archive_ok [] m = True"
| "archive_ok (t # ts) m = (entry_ok t \<and> (if length (te_name t) \<le> 2 then m (components (te_name t)) = Some (te_content t) \<and> archive_ok ts m
     else creates (te_name t) \<and> ''..'' \<notin> set (components (te_name t)) \<and> m (butlast (components (te_name t))) = Some Dir \<and> m (components (te_name t)) = None \<and>
       archive_ok ts (m(components (te_name t) \<mapsto> te_content t))))"

definition entry_cost :: "tar_entry \<Rightarrow> nat" where
  "entry_cost t = 6 + 2 * length (components (te_name t))"

lemma archive_ok_entries: "archive_ok ts m \<Longrightarrow> t \<in> set ts \<Longrightarrow> entry_ok t"
  by (induction ts arbitrary: m) (auto split: if_splits)

lemma carry_out_view:
  assumes law: "fs_heap_law e I N V" "I (c + entry_cost t) (fs_heap s)" and flaw: "fs_file_law e I N V Ob" and good: "fs_good N V Ob s" and ok: "entry_ok t" and long: "\<not> length (te_name t) \<le> 2"
    and p: "creates (te_name t)" "''..'' \<notin> set (components (te_name t))" "view (root_node s) s (butlast (components (te_name t))) = Some Dir" "view (root_node s) s (components (te_name t)) = None"
  shows "\<exists>s'. carry_out e major rdev t s = Some s' \<and> I c (fs_heap s') \<and> fs_good N V Ob s' \<and> root_node s' = root_node s \<and>
    view (root_node s) s' = (view (root_node s) s)(components (te_name t) \<mapsto> te_content t)"
proof -
  let ?r = "root_node s" and ?a = "unpack_attr rdev (if te_dir t then VDIR else VREG) (int (te_mode t))"
  define ps x where "ps = butlast (components (te_name t))" and "x = last (components (te_name t))"
  have c: "components (te_name t) = ps @ [x]" using creates_components [OF p(1)] by (simp add: ps_def x_def)
  have i: "I ((c + 1 + 2) + 5 + 2 * length ps) (fs_heap s)" using law(2) by (simp add: entry_cost_def c algebra_simps)
  have l: "length (te_name t) < 255" "length (te_name t) \<noteq> 1" using ok long by (simp_all add: entry_ok_def)
  have a: "va_type ?a = VDIR \<or> va_type ?a = VREG" "va_type ?a = (if te_dir t then VDIR else VREG)" by (simp_all add: unpack_attr_def)
  have v: "view ?r s ps = Some Dir" "view ?r s (ps @ [x]) = None" using p(3,4) by (simp_all add: ps_def [symmetric] c)
  from create_view [OF law(1) i flaw good p(1) l c p(2) a(1) v] obtain w s1 where
    w: "vfs_lookup e (fs_root_vnode s) (te_name t) kLookupCreat (Some ?a) s = Some (Inr w, s1)" "I (c + 1 + 2) (fs_heap s1)" "fs_good N V Ob s1" "root_node s1 = ?r" "w \<in> V (fs_heap s1)"
      "nresolve (ps @ [x]) ?r s1 = Found (vn_data (fs_vnode s1 w))" "vn_type (fs_vnode s1 w) = va_type ?a" "va_size (tn_attr (fs_node s1 (vn_data (fs_vnode s1 w)))) = 0"
      "view ?r s1 = (view ?r s)(ps @ [x] \<mapsto> (if va_type ?a = VDIR then Dir else File []))" by blast
  note G = fs_goodD [OF w(3)]
  show ?thesis
  proof (cases "te_dir t")
    case True
    have "I c (fs_heap s1)" using fs_law_weaken [OF law(1), of c "1 + 2"] w(2) by (simp only: add.assoc)
    then show ?thesis using True long w(1,3,4,9) a(2) c by (simp add: carry_out_def te_content_def)
  next
    case False
    let ?n = "vn_data (fs_vnode s1 w)"
    have wt: "vn_type (fs_vnode s1 w) = VREG" using w(7) a(2) False by simp
    have vt: "vnode_typed (N (fs_heap s1)) s1 w" by (rule fs_typed_vnode [OF G(1) w(5)])
    have ic: "I (Suc c) (fs_heap s1)" "I c (fs_heap s1)" using fs_law_weaken [OF law(1), of "c + 1" 2] fs_law_weaken [OF law(1), of c "1 + 2"] w(2) by (simp_all only: add.assoc Suc_eq_plus1)
    have d: "length (te_data t) < 2 ^ 31" using ok by (simp add: entry_ok_def)
    from write_sets_file [OF flaw ic vt wt refl w(8) d] obtain s2 where
      s2: "vop_write e major w (te_data t) 0 s1 = Some (int (length (te_data t)), s2)" "sets_file s1 s2 ?n (te_data t)" "I c (fs_heap s2)" "N (fs_heap s2) = N (fs_heap s1)" "V (fs_heap s2) = V (fs_heap s1)" "Ob (fs_heap s2) = Ob (fs_heap s1)" by blast
    have ty: "va_type (tn_attr (fs_node s1 ?n)) = VREG" using vnode_typedD(4) [OF vt] wt by simp
    have dots: "''..'' \<notin> set (ps @ [x])" using p(2) c by simp
    have root: "?r \<in> N (fs_heap s1)" "tree_inj ?r s1" using G(4,5) w(4) by simp_all
    note S = view_sets_file [OF s2(2,4,6) G(1) root G(2) w(6) dots ty]
    note T = sets_file_typed [OF s2(2,4,5) G(1)]
    have r2: "root_node s2 = ?r" "fs_root_vnode s2 \<in> V (fs_heap s2)" using root_node_grows [OF T(2) G(3)] w(4) by simp_all
    have "fs_good N V Ob s2" using T(1) S(1,2) r2 by (simp add: fs_good_def)
    moreover have "view ?r s2 = (view ?r s)(components (te_name t) \<mapsto> te_content t)" using S(3) w(9) False by (simp add: c te_content_def)
    moreover have "carry_out e major rdev t s = Some s2" using False long w(1) s2(1) by (simp add: carry_out_def)
    ultimately show ?thesis using s2(3) r2(1) by blast
  qed
qed

lemma carry_out_all_view:
  assumes law: "fs_heap_law e I N V" and flaw: "fs_file_law e I N V Ob"
  shows "I (sum_list (map entry_cost ts)) (fs_heap s) \<Longrightarrow> fs_good N V Ob s \<Longrightarrow> archive_ok ts (view (root_node s) s) \<Longrightarrow>
    \<exists>s'. carry_out_all e major rdev ts s = Some s' \<and> fs_good N V Ob s' \<and> root_node s' = root_node s \<and> view (root_node s) s' = unpack_spec ts (view (root_node s) s)"
proof (induction ts arbitrary: s)
  case (Cons t ts)
  have i: "I (sum_list (map entry_cost ts) + entry_cost t) (fs_heap s)" using Cons.prems(1) by (simp add: add.commute)
  show ?case
  proof (cases "length (te_name t) \<le> 2")
    case True
    then have "carry_out e major rdev t s = Some s" by (simp add: carry_out_def)
    moreover have "view (root_node s) s (components (te_name t)) = Some (te_content t)" using True Cons.prems(3) by simp
    then have "(view (root_node s) s)(components (te_name t) \<mapsto> te_content t) = view (root_node s) s" by (rule map_upd_triv)
    ultimately show ?thesis using True Cons.IH [of s] Cons.prems fs_law_weaken [OF law i] by simp
  next
    case False
    note a = Cons.prems(3) [simplified archive_ok.simps if_not_P [OF False]]
    from carry_out_view [OF law i flaw Cons.prems(2) a [THEN conjunct1] False a [THEN conjunct2, THEN conjunct1]] a obtain s1 where
      s1: "carry_out e major rdev t s = Some s1" "I (sum_list (map entry_cost ts)) (fs_heap s1)" "fs_good N V Ob s1" "root_node s1 = root_node s"
        "view (root_node s) s1 = (view (root_node s) s)(components (te_name t) \<mapsto> te_content t)" by blast
    have "archive_ok ts (view (root_node s1) s1)" unfolding s1(4,5) using a by blast
    from Cons.IH [OF s1(2,3) this] show ?thesis unfolding s1(4,5) carry_out_all.simps unpack_spec.simps s1(1) by (simp only: Option.bind.bind_lunit)
  qed
qed simp

lemma mount_objects:
  assumes law: "fs_file_law e I N V Ob" and s: "tmpfs_mount e fsys s = Some (r, s')"
  shows "Ob (fs_heap s') = Ob (fs_heap s)"
proof -
  obtain n k where n: "fe_node e (fs_heap s) = Some (n, k)" using s by (auto simp: tmpfs_mount_def split: Option.bind_splits)
  obtain v s2 where v: "tmpfs_vget e fsys n (set_node n (\<lambda>m. m\<lparr>tn_attr := (tn_attr m)\<lparr>va_type := VDIR\<rparr>, tn_vn := 0, tn_entries := []\<rparr>) (s\<lparr>fs_heap := k\<rparr>)) = Some (v, s2)"
      "fs_heap s' = fs_heap s2"
    using s n by (auto simp: tmpfs_mount_def Let_def set_vnode_def split: Option.bind_splits)
  show ?thesis using vget_objects [OF law v(1)] v(2) fs_file_lawD(1) [OF law n] by (simp add: set_node_def)
qed

text \<open>After mounting, the root file system has a root directory and nothing in it.\<close>

lemma mount_view:
  assumes law: "fs_heap_law e I N V" "I (c + 3) (fs_heap s)" and flaw: "fs_file_law e I N V Ob" and wf: "fs_typed N V s" "files_ok N Ob s" and z: "\<And>n. n \<notin> N (fs_heap s) \<Longrightarrow> tn_parent (fs_node s n) = 0"
  shows "\<exists>s1 s2. tmpfs_mount e fsys s = Some (0, s1) \<and> s2 = s1\<lparr>fs_root_vnode := tmpfs_root fsys s1\<rparr> \<and> I c (fs_heap s2) \<and> fs_good N V Ob s2 \<and>
    vn_type (fs_vnode s2 (fs_root_vnode s2)) = VDIR \<and> view (root_node s2) s2 = [[] \<mapsto> Dir]"
proof -
  obtain s1 n where m: "tmpfs_mount e fsys s = Some (0, s1)" "I c (fs_heap s1)" "fs_typed N V s1" "tmpfs_root fsys s1 \<in> V (fs_heap s1)" "vn_type (fs_vnode s1 (tmpfs_root fsys s1)) = VDIR"
      "vn_data (fs_vnode s1 (tmpfs_root fsys s1)) = n" "N (fs_heap s1) = insert n (N (fs_heap s))" "tn_entries (fs_node s1 n) = []"
      "\<forall>m \<in> N (fs_heap s). tn_attr (fs_node s1 m) = tn_attr (fs_node s m) \<and> tn_vmobj (fs_node s1 m) = tn_vmobj (fs_node s m)"
    using mount_typed [OF law wf(1) z, of fsys] by blast
  define s2 where "s2 = s1\<lparr>fs_root_vnode := tmpfs_root fsys s1\<rparr>"
  have st: "same_tree N s1 s2" by (simp add: same_tree_def s2_def)
  have ty: "va_type (tn_attr (fs_node s1 n)) = VDIR" using vnode_typedD(4) [OF fs_typed_vnode [OF m(3,4)]] m(5,6) by simp
  have r: "root_node s2 = n" using m(6) by (simp add: root_node_def s2_def)
  have ob: "Ob (fs_heap s1) = Ob (fs_heap s)" by (rule mount_objects [OF flaw m(1)])
  have files: "files_ok N Ob s1" using wf(2) m(9) ty unfolding files_ok_def m(7) ob is_file_def by auto
  have ch: "child c n s1 = None" if "c \<noteq> ''..''" for c using m(8) that by (simp add: child_def tlookup_def)
  have f: "nresolve q n s1 = Found k \<longleftrightarrow> q = [] \<and> k = n" if "''..'' \<notin> set q" for q k using that ch ty by (cases q) auto
  have "tree_inj n s1" using f unfolding tree_inj_def by blast
  then have good: "fs_good N V Ob s2" using m(3,4) files st r view_same_tree(2,4) [OF st] by (simp add: fs_good_def fs_typed_def vnode_typed_def node_typed_def Let_def s2_def)
  have "view n s1 q = [[] \<mapsto> Dir] q" for q
  proof (cases "q = []")
    case True
    then show ?thesis using ty by (simp add: view_def view_node_def)
  next
    case False
    then show ?thesis using f [of q] by (auto simp: view_def split: walk_result.splits)
  qed
  then have "view (root_node s2) s2 = [[] \<mapsto> Dir]" unfolding r view_same_tree(1) [OF st] by blast
  then show ?thesis using m(1,2,5) good by (auto simp: s2_def)
qed

definition boot_view :: "string list \<rightharpoonup> content" where
  "boot_view = [[] \<mapsto> Dir, [''dev''] \<mapsto> Dir]"

text \<open>(C28) Unpacking the ram disk returns, and the root file system then holds the root,
  /dev and exactly the directories and files of the archive, each file with its contents, for
  every archive of directories and regular files (types 5 and 0) with names of fewer than 100
  characters and without .. in them, in which directories come before what is in them, no path
  occurs twice, and names of one or two characters stand only for the root (the code drops any
  other entry of such a name, see the findings); memory fresh from the heap is taken to have a
  null parent, the heap to have room and mapping a file in the kernel to succeed.\<close>

theorem unpack_ramdisk_view:
  assumes law: "fs_heap_law e I N V" "fs_file_law e I N V Ob" "I (sum_list (map entry_cost ts) + 8) (fs_heap s)" and wf: "fs_typed N V s" "files_ok N Ob s"
    and z: "\<forall>n. n \<notin> N (fs_heap s) \<longrightarrow> tn_parent (fs_node s n) = 0" and ts: "archive_ok ts boot_view"
    and img: "img = concat (map tar_encode ts) @ replicate 512 0 @ post" "length img < 2 ^ 64"
  shows "\<exists>s'. unpack_ramdisk e major rdev [img] root_vfs s = Some s' \<and> fs_good N V Ob s' \<and> view (root_node s') s' = unpack_spec ts boot_view"
proof -
  let ?c = "sum_list (map entry_cost ts)"
  have i: "I ((?c + 5) + 3) (fs_heap s)" using law(3) by (simp add: add.assoc)
  obtain s1 s2 where m: "tmpfs_mount e root_vfs s = Some (0, s1)" "s2 = s1\<lparr>fs_root_vnode := tmpfs_root root_vfs s1\<rparr>" "I (?c + 5) (fs_heap s2)" "fs_good N V Ob s2"
      "vn_type (fs_vnode s2 (fs_root_vnode s2)) = VDIR" "view (root_node s2) s2 = [[] \<mapsto> Dir]"
    using mount_view [OF law(1) i law(2) wf, of root_vfs] z by blast
  note G = fs_goodD [OF m(4)]
  have a: "va_type devattr \<noteq> VNON" by (simp add: devattr_def)
  from create_leaf [OF law(1) m(3) law(2) G(1) a G(3) m(5), of "''dev''"] obtain dev s3 where
    d: "vop_create e (fs_root_vnode s2) ''dev'' (Some devattr) s2 = Some (dev, s3)" "I ?c (fs_heap s3)" "fs_typed N V s3" "fs_grows N V s2 s3"
      and l: "adds_leaf N Ob s2 s3 (root_node s2) ''dev'' (vn_data (fs_vnode s3 dev)) devattr" unfolding root_node_def by blast
  have rd: "va_type (tn_attr (fs_node s2 (root_node s2))) = VDIR" using vnode_typedD(4) [OF fs_typed_vnode [OF G(1,3)]] m(5) by (simp add: root_node_def)
  have "view (root_node s2) s2 [''dev''] = None" using m(6) by simp
  then have tl: "tlookup (root_node s2) ''dev'' s2 = None" using rd by (auto simp: view_def child_def split: option.splits)
  have nr: "nresolve [] (root_node s2) s2 = Found (root_node s2)" by simp
  note L = view_leaf [OF l G(1,5,4,2) nr _ rd tl]
  define s4 where "s4 = s3\<lparr>fs_dev_vnode := dev\<rparr>"
  have st: "same_tree N s3 s4" by (simp add: same_tree_def s4_def)
  have r: "root_node s4 = root_node s2" "fs_root_vnode s4 \<in> V (fs_heap s4)" using root_node_grows [OF d(4) G(3)] by (simp_all add: s4_def root_node_def)
  have "fs_typed N V s4" using d(3) by (simp add: fs_typed_def vnode_typed_def node_typed_def Let_def s4_def)
  then have good: "fs_good N V Ob s4" using L(1,2) r view_same_tree(2,4) [OF st] by (simp add: fs_good_def s4_def)
  have "view_node (vn_data (fs_vnode s3 dev)) s3 = Dir" using adds_leafD(3) [OF l] by (simp add: view_node_def devattr_def)
  then have view4: "view (root_node s4) s4 = boot_view" unfolding view_same_tree(1) [OF st] r using L(4) m(6) by (simp add: boot_view_def)
  have i4: "I ?c (fs_heap s4)" using d(2) by (simp add: s4_def)
  have ok: "archive_ok ts (view (root_node s4) s4)" using ts view4 by simp
  from carry_out_all_view [OF law(1,2) i4 good ok, of major rdev] obtain s5 where
    s5: "carry_out_all e major rdev ts s4 = Some s5" "fs_good N V Ob s5" "root_node s5 = root_node s4" "view (root_node s4) s5 = unpack_spec ts boot_view" unfolding view4 by blast
  have "unpack_ramdisk e major rdev [img] root_vfs s = unpack_loop e major rdev img 0 s4"
    using m(1,2) d(1) by (simp add: unpack_ramdisk_def s4_def)
  also have "\<dots> = carry_out_all e major rdev ts s4"
    using unpack_archive_from [of ts "[]" post e major rdev s4] archive_ok_entries [OF ts] img by simp
  finally show ?thesis using s5 by auto
qed

subsection \<open>A small archive\<close>

definition small_entry :: "string \<Rightarrow> bool \<Rightarrow> u8 list \<Rightarrow> tar_entry" where
  "small_entry name dir bs = \<lparr>te_name = name, te_mode = 0x1a4, te_dir = dir, te_data = bs, te_ids = replicate 16 0x30, te_times = replicate 20 0x30, te_rest = replicate 355 0\<rparr>"

definition small_archive :: "tar_entry list" where
  "small_archive = [small_entry ''./'' True [], small_entry ''./etc/'' True [], small_entry ''./etc/motd'' False [104, 105]]"

lemma small_components:
  "components ''./etc/'' = [''etc'']" "components ''./etc/motd'' = [''etc'', ''motd'']" "components ''./'' = []" "creates ''./etc/''" "creates ''./etc/motd''"
  by (simp_all add: components_def split_path.simps creates_def strip_slashes_def real_component_def)

lemma small_archive_ok: "archive_ok small_archive boot_view"
  by (simp add: small_archive_def small_entry_def entry_ok_def small_components boot_view_def te_content_def)

theorem unpack_ramdisk_view_witness:
  "\<exists>s'. unpack_ramdisk bump_env (\<lambda>_. 0) 0 [concat (map tar_encode small_archive) @ replicate 512 0 @ replicate 512 0] 3 small_fs = Some s' \<and>
     view (root_node s') s' [''etc'', ''motd''] = Some (File [104, 105])"
proof -
  let ?img = "concat (map tar_encode small_archive) @ replicate 512 0 @ replicate 512 0"
  have i: "bump_ok (sum_list (map entry_cost small_archive) + 8) (fs_heap small_fs)"
    by (simp add: small_archive_def entry_cost_def small_entry_def small_components bump_ok_def small_fs_def)
  have h: "fs_heap small_fs = (6, 8, 10)" by (simp add: small_fs_def)
  have f: "files_ok bump_nodes bump_objs small_fs" unfolding files_ok_def h small_sets by (simp add: is_file_def small_defs)
  have z: "\<forall>n. n \<notin> bump_nodes (fs_heap small_fs) \<longrightarrow> tn_parent (fs_node small_fs n) = 0" unfolding h small_sets by (simp add: small_defs)
  have l: "length ?img < 2 ^ 64"
    using archive_ok_entries [OF small_archive_ok] by (simp add: small_archive_def tar_length) (simp add: small_entry_def)
  have s: "unpack_spec small_archive boot_view [''etc'', ''motd''] = Some (File [104, 105])"
    by (simp add: small_archive_def small_entry_def small_components te_content_def)
  show ?thesis using unpack_ramdisk_view [OF bump_law bump_file_law i small_fs_typed f z small_archive_ok refl l, of "\<lambda>_. 0" 0 3] s by auto
qed

end
