(* ===== verification/Console.thy ===== *)
theory Console
  imports Prelude
begin

text \<open>
  The kernel's console output (\<^verbatim>\<open>x86_64/kmain.c\<close>): every character goes into a ring buffer, to the serial
  port and to a terminal. The framebuffer terminal prints the ring buffer when it starts
  (\<^verbatim>\<open>dev/fbterm/FBTerminal.m\<close>). Waiting for the serial port to be ready is not modelled; what the devices
  get is kept as lists of characters.
\<close>

definition MSGBUF_SIZE :: nat where "MSGBUF_SIZE = 4096"

record msgbuf =
  mb_buf :: "u8 list"
  mb_read :: nat
  mb_write :: nat

record console =
  con_msgbuf :: msgbuf
  con_com1 :: "u8 list"
  con_terminal :: "u8 list"
  con_syscon :: "u8 list option"

text \<open>
  The condition increments \<^verbatim>\<open>read\<close> when the buffer is full and then compares it with \<^verbatim>\<open>write\<close>, which it
  cannot equal.
\<close>

definition msgbuf_put :: "u8 \<Rightarrow> msgbuf \<Rightarrow> msgbuf" where
  "msgbuf_put ch m = (let m1 = m\<lparr>mb_buf := (mb_buf m)[mb_write m := ch], mb_write := mb_write m + 1\<rparr>;
     m2 = (if mb_write m1 \<ge> MSGBUF_SIZE then m1\<lparr>mb_write := 0\<rparr> else m1) in
     if mb_read m2 = mb_write m2
     then let m3 = m2\<lparr>mb_read := mb_read m2 + 1\<rparr> in if mb_read m3 = mb_write m3 then m3\<lparr>mb_read := 0\<rparr> else m3
     else m2)"

definition md_kputc :: "u8 \<Rightarrow> console \<Rightarrow> console" where
  "md_kputc ch s = (let s1 = s\<lparr>con_msgbuf := msgbuf_put ch (con_msgbuf s), con_com1 := con_com1 s @ [ch]\<rparr> in
     case con_syscon s1 of
       None \<Rightarrow> s1\<lparr>con_terminal := con_terminal s1 @ [ch]\<rparr>
     | Some out \<Rightarrow> s1\<lparr>con_syscon := Some (out @ [ch])\<rparr>)"

text \<open>The loop in the framebuffer terminal's initialisation, for at most \<open>fuel\<close> characters.\<close>

fun msgbuf_replay :: "nat \<Rightarrow> nat \<Rightarrow> msgbuf \<Rightarrow> u8 list option" where
  "msgbuf_replay fuel i m = (if i = mb_write m then Some []
     else (case fuel of 0 \<Rightarrow> None
       | Suc f \<Rightarrow> let j = (if i \<ge> MSGBUF_SIZE then 0 else i) in map_option ((#) (mb_buf m ! j)) (msgbuf_replay f (j + 1) m)))"

subsection \<open>The ring buffer after any output\<close>

definition msgbuf_init :: "u8 list \<Rightarrow> msgbuf" where
  "msgbuf_init bs = \<lparr>mb_buf = bs, mb_read = 0, mb_write = 0\<rparr>"

definition puts :: "u8 list \<Rightarrow> msgbuf \<Rightarrow> msgbuf" where
  "puts cs m = fold msgbuf_put cs m"

text \<open>\<^verbatim>\<open>read\<close> follows \<^verbatim>\<open>write\<close> through the buffer once, and then stays behind its end for good.\<close>

definition read_after :: "nat \<Rightarrow> nat" where
  "read_after n = (if n < MSGBUF_SIZE then 0 else if n < 2 * MSGBUF_SIZE - 1 then n - (MSGBUF_SIZE - 1) else MSGBUF_SIZE)"

lemma puts_snoc: "puts (cs @ [c]) m = msgbuf_put c (puts cs m)"
  by (simp add: puts_def)

lemma mod_Suc_size: "Suc n mod MSGBUF_SIZE = (if Suc (n mod MSGBUF_SIZE) \<ge> MSGBUF_SIZE then 0 else Suc (n mod MSGBUF_SIZE))"
  unfolding mod_Suc by (metis MSGBUF_SIZE_def Suc_leI le_antisym less_or_eq_imp_le linorder_not_less mod_less_divisor zero_less_numeral)

lemma read_after_Suc:
  "read_after (Suc n) = (if read_after n = Suc n mod MSGBUF_SIZE then Suc (read_after n) else read_after n)"
proof -
  consider "Suc n < MSGBUF_SIZE" | "Suc n = MSGBUF_SIZE" | "MSGBUF_SIZE < Suc n" "Suc n < 2 * MSGBUF_SIZE - 1" | "Suc n = 2 * MSGBUF_SIZE - 1" | "2 * MSGBUF_SIZE - 1 < Suc n" by linarith
  then show ?thesis
  proof cases
    case 1
    then show ?thesis by (simp add: read_after_def)
  next
    case 2
    then show ?thesis by (simp add: read_after_def MSGBUF_SIZE_def)
  next
    case 3
    then have "Suc n mod MSGBUF_SIZE = Suc n - MSGBUF_SIZE" by (simp add: mod_if MSGBUF_SIZE_def)
    then show ?thesis using 3 by (simp add: read_after_def MSGBUF_SIZE_def)
  next
    case 4
    then have "Suc n mod MSGBUF_SIZE = 4095" by (simp add: MSGBUF_SIZE_def)
    then show ?thesis using 4 by (simp add: read_after_def MSGBUF_SIZE_def)
  next
    case 5
    have "Suc n mod MSGBUF_SIZE < MSGBUF_SIZE" by (simp add: MSGBUF_SIZE_def)
    then show ?thesis using 5 by (simp add: read_after_def MSGBUF_SIZE_def)
  qed
qed

lemma msgbuf_after:
  assumes "length bs = MSGBUF_SIZE" and "m = puts cs (msgbuf_init bs)"
  shows "length (mb_buf m) = MSGBUF_SIZE \<and> mb_write m = length cs mod MSGBUF_SIZE \<and> mb_read m = read_after (length cs) \<and>
    (\<forall>i < length cs. length cs - i \<le> MSGBUF_SIZE \<longrightarrow> mb_buf m ! (i mod MSGBUF_SIZE) = cs ! i)"
  unfolding assms(2)
proof (induction cs rule: rev_induct)
  case Nil
  then show ?case using assms(1) by (simp add: puts_def msgbuf_init_def read_after_def MSGBUF_SIZE_def)
next
  case (snoc c cs)
  let ?m = "puts cs (msgbuf_init bs)" and ?n = "length cs"
  have w: "?n mod MSGBUF_SIZE < MSGBUF_SIZE" by (simp add: MSGBUF_SIZE_def)
  have e: "mb_buf (msgbuf_put c ?m) = (mb_buf ?m)[?n mod MSGBUF_SIZE := c]" "mb_write (msgbuf_put c ?m) = Suc ?n mod MSGBUF_SIZE" "mb_read (msgbuf_put c ?m) = read_after (Suc ?n)"
    using snoc unfolding mod_Suc_size read_after_Suc by (simp_all add: msgbuf_put_def Let_def)
  have "mb_buf (msgbuf_put c ?m) ! (i mod MSGBUF_SIZE) = (cs @ [c]) ! i" if i: "i < Suc ?n" "Suc ?n - i \<le> MSGBUF_SIZE" for i
  proof (cases "i = ?n")
    case True
    then show ?thesis using snoc w by (simp add: e)
  next
    case False
    have "i mod MSGBUF_SIZE \<noteq> ?n mod MSGBUF_SIZE"
    proof
      assume "i mod MSGBUF_SIZE = ?n mod MSGBUF_SIZE"
      then have "MSGBUF_SIZE dvd ?n - i" by (metis mod_eq_dvd_iff_nat i(1) less_Suc_eq_le)
      moreover have "0 < ?n - i" "?n - i < MSGBUF_SIZE" using i False by auto
      ultimately show False by (simp add: nat_dvd_not_less)
    qed
    then show ?thesis using snoc i False by (simp add: e nth_append)
  qed
  then show ?case using snoc by (simp add: puts_snoc e)
qed

declare msgbuf_replay.simps [simp del]

text \<open>When the write position is 0 and something was written, the loop goes round without end.\<close>

lemma replay_endless: "mb_write m = 0 \<Longrightarrow> 0 < i \<Longrightarrow> msgbuf_replay fuel i m = None"
proof (induction fuel arbitrary: i)
  case 0
  then show ?case by (subst msgbuf_replay.simps) simp
next
  case (Suc fuel)
  then show ?case by (subst msgbuf_replay.simps) (simp add: Let_def)
qed

lemma replay_from:
  assumes "mb_write m = length cs" and "length cs < MSGBUF_SIZE" and "\<And>i. i < length cs \<Longrightarrow> mb_buf m ! i = cs ! i"
  shows "i \<le> length cs \<Longrightarrow> length cs - i \<le> fuel \<Longrightarrow> msgbuf_replay fuel i m = Some (drop i cs)"
proof (induction fuel arbitrary: i)
  case 0
  then show ?case using assms(1) by (subst msgbuf_replay.simps) simp
next
  case (Suc fuel)
  show ?case
  proof (cases "i = length cs")
    case True
    then show ?thesis using assms(1) by (subst msgbuf_replay.simps) simp
  next
    case False
    then have i: "i < length cs" "\<not> MSGBUF_SIZE \<le> i" using Suc.prems assms(2) by auto
    then have "msgbuf_replay fuel (Suc i) m = Some (drop (Suc i) cs)" using Suc.prems by (intro Suc.IH) auto
    then show ?thesis using i assms(1,3) by (subst msgbuf_replay.simps) (simp add: Let_def Cons_nth_drop_Suc)
  qed
qed

text \<open>(C32) The positions of the message buffer stay in range; up to 4095 characters are
  replayed as they were written. When the number of characters written is a multiple of 4096 the
  replay never ends, and after 8191 characters the read position stays at 4096 for good.\<close>

theorem msgbuf_replays:
  assumes "length bs = MSGBUF_SIZE" and "m = puts cs (msgbuf_init bs)"
  shows "mb_write m < MSGBUF_SIZE \<and> mb_read m \<le> MSGBUF_SIZE \<and>
    (length cs < MSGBUF_SIZE \<longrightarrow> msgbuf_replay (length cs) (mb_read m) m = Some cs) \<and>
    (length cs \<ge> MSGBUF_SIZE \<and> length cs mod MSGBUF_SIZE = 0 \<longrightarrow> (\<forall>fuel. msgbuf_replay fuel (mb_read m) m = None)) \<and>
    (length cs \<ge> 2 * MSGBUF_SIZE - 1 \<longrightarrow> mb_read m = MSGBUF_SIZE)"
proof -
  note A = msgbuf_after [OF assms]
  have w: "mb_write m < MSGBUF_SIZE" using A by (simp add: MSGBUF_SIZE_def)
  have r: "mb_read m \<le> MSGBUF_SIZE" using A by (auto simp: read_after_def MSGBUF_SIZE_def)
  have s: "msgbuf_replay (length cs) (mb_read m) m = Some cs" if "length cs < MSGBUF_SIZE"
  proof -
    have "mb_buf m ! i = cs ! i" if "i < length cs" for i using A that \<open>length cs < MSGBUF_SIZE\<close> by (metis diff_le_self less_imp_le_nat mod_less order_less_trans order_trans)
    then show ?thesis using replay_from [of m cs 0 "length cs"] A that by (simp add: read_after_def)
  qed
  have l: "msgbuf_replay fuel (mb_read m) m = None" if "length cs \<ge> MSGBUF_SIZE" "length cs mod MSGBUF_SIZE = 0" for fuel
    using A that by (intro replay_endless) (auto simp: read_after_def MSGBUF_SIZE_def)
  have f: "mb_read m = MSGBUF_SIZE" if "length cs \<ge> 2 * MSGBUF_SIZE - 1" using A that by (auto simp: read_after_def MSGBUF_SIZE_def)
  show ?thesis by (intro conjI impI allI) (auto intro: w r s l f)
qed

theorem msgbuf_replays_witness:
  "msgbuf_replay 2 (mb_read (puts [104, 105] (msgbuf_init (replicate MSGBUF_SIZE 0)))) (puts [104, 105] (msgbuf_init (replicate MSGBUF_SIZE 0))) = Some [104, 105]"
  using msgbuf_replays [OF _ refl, of "replicate MSGBUF_SIZE 0" "[104, 105]"] by (simp add: MSGBUF_SIZE_def numeral_2_eq_2)

end
