(* ===== verification/BootMem.thy ===== *)
theory BootMem
  imports Pmap
begin

text \<open>
  Finding the physical memory at boot (\<^verbatim>\<open>x86_64/kmain.c\<close>). The memory map of the boot loader becomes the
  regions and page queues; the structures of a region lie in its first pages. The index of a page is
  an \<^verbatim>\<open>int\<close> that is multiplied with the page size as an \<^verbatim>\<open>int\<close>: beyond 2 GiB from the base of its region
  the product overflows, the program has no defined behaviour, and the model stops.
\<close>

record memmap_entry =
  me_base :: u64
  me_length :: u64
  me_type :: u64

text \<open>Sizes of \<^verbatim>\<open>vm_pregion_t\<close> without pages and of \<^verbatim>\<open>vm_page_t\<close>.\<close>

definition sizeof_vm_pregion :: u64 where "sizeof_vm_pregion = 32"
definition sizeof_vm_page :: u64 where "sizeof_vm_page = 88"

definition set_page :: "page_ref \<Rightarrow> (vm_page \<Rightarrow> vm_page) \<Rightarrow> phys \<Rightarrow> phys" where
  "set_page p f ph = ph\<lparr>page_of := (page_of ph)(p := f (page_of ph p))\<rparr>"

definition init_page :: "nat \<Rightarrow> u64 \<Rightarrow> nat \<Rightarrow> phys \<Rightarrow> phys option" where
  "init_page r base b ph = do {
     kassert (unat PGSIZE * b < 2 ^ 31);
     Some (set_page (r, b) (\<lambda>pg. pg\<lparr>paddr := base + PGSIZE * of_nat b, pv_table := [], pg_anon := None\<rparr>) ph)
   }"

definition enqueue_page :: "nat \<Rightarrow> vm_page_queue \<Rightarrow> pgq \<Rightarrow> nat \<Rightarrow> phys \<Rightarrow> phys" where
  "enqueue_page r st q b ph = (let ph1 = set_page (r, b) (\<lambda>pg. pg\<lparr>pg_queue := st\<rparr>) ph in
     ph1\<lparr>pgqueues := (pgqueues ph1)(q := \<lparr>pq_queue = pq_queue (pgqueues ph1 q) @ [(r, b)], pq_npages = pq_npages (pgqueues ph1 q) + 1\<rparr>)\<rparr>)"

definition usable :: "memmap_entry \<Rightarrow> bool" where
  "usable e \<longleftrightarrow> \<not> (me_type e \<noteq> 0 \<or> me_base e < 0x100000)"

definition init_region :: "memmap_entry \<Rightarrow> phys \<Rightarrow> phys option" where
  "init_region e ph = do {
     let r = length (vm_pregion_queue ph);
     let npages = me_length e div PGSIZE;
     let used = ROUNDUP (sizeof_vm_pregion + sizeof_vm_page * npages) PGSIZE;
     ph1 \<leftarrow> iterM (init_page r (me_base e)) [0..<unat npages] ph;
     let ph2 = fold (enqueue_page r kVMPagePMap vm_pgpmapq) [0..<unat (used div PGSIZE)] ph1;
     let ph3 = fold (enqueue_page r kVMPageFree vm_pgfreeq) [unat (used div PGSIZE)..<unat npages] ph2;
     Some (ph3\<lparr>vm_pregion_queue := vm_pregion_queue ph3 @ [\<lparr>preg_base = me_base e, preg_npages = npages\<rparr>]\<rparr>)
   }"

definition init_regions :: "memmap_entry list \<Rightarrow> phys \<Rightarrow> phys option" where
  "init_regions es ph = iterM (\<lambda>e ph. if usable e then init_region e ph else Some ph) es ph"

text \<open>A wrong base address makes the kernel hang.\<close>

definition mem_init :: "u64 \<Rightarrow> u64 \<Rightarrow> u64 \<Rightarrow> memmap_entry list \<Rightarrow> phys \<Rightarrow> (pmap \<times> phys) option" where
  "mem_init hhdm virtual_base cr3 es ph = do {
     kassert (hhdm = 0xffff800000000000);
     kassert (virtual_base = 0xffffffff80000000);
     ph1 \<leftarrow> init_regions es ph;
     x64_vm_init cr3 ph1
   }"

subsection \<open>The effect of the loops\<close>

definition npages_of :: "memmap_entry \<Rightarrow> nat" where
  "npages_of e = unat (me_length e) div 4096"

definition meta_pages :: "memmap_entry \<Rightarrow> nat" where
  "meta_pages e = (32 + 88 * npages_of e + 4095) div 4096"

lemma iter_init_page:
  "(\<And>b. b \<in> set bs \<Longrightarrow> b < 524288) \<Longrightarrow> iterM (init_page r base) bs ph = Some (ph\<lparr>page_of := (\<lambda>(r', b). if r' = r \<and> b \<in> set bs
     then (page_of ph (r, b))\<lparr>paddr := base + PGSIZE * of_nat b, pv_table := [], pg_anon := None\<rparr> else page_of ph (r', b))\<rparr>)"
proof (induction bs arbitrary: ph)
  case (Cons b bs)
  have "init_page r base b ph = Some (set_page (r, b) (\<lambda>pg. pg\<lparr>paddr := base + PGSIZE * of_nat b, pv_table := [], pg_anon := None\<rparr>) ph)"
    using Cons.prems [of b] by (simp add: init_page_def PGSIZE_def)
  then show ?case using Cons by (auto simp: set_page_def fun_eq_iff)
qed (simp add: split_def)

lemma large_area_stops:
  assumes "524288 < npages_of e"
  shows "init_region e ph = None"
proof -
  have "iterM (init_page r b) (xs @ 524288 # ys) ph = None" for r b xs ys
    by (simp add: iterM_append init_page_def PGSIZE_def kassert_def)
  moreover have "[0..<npages_of e] = [0..<524288] @ 524288 # [524289..<npages_of e]"
    using assms upt_add_eq_append [of 0 524288 "npages_of e - 524288"] by (simp add: upt_rec [of 524288 "npages_of e"])
  moreover have "unat (me_length e div PGSIZE) = npages_of e" by (simp add: PGSIZE_def npages_of_def unat_div_distrib)
  ultimately show ?thesis by (simp add: init_region_def Let_def)
qed

lemma fold_enqueue_page:
  "fold (enqueue_page r st q) bs ph = ph\<lparr>page_of := (\<lambda>(r', b). if r' = r \<and> b \<in> set bs then (page_of ph (r, b))\<lparr>pg_queue := st\<rparr> else page_of ph (r', b)),
     pgqueues := (pgqueues ph)(q := \<lparr>pq_queue = pq_queue (pgqueues ph q) @ map (Pair r) bs, pq_npages = pq_npages (pgqueues ph q) + of_nat (length bs)\<rparr>)\<rparr>"
  by (induction bs arbitrary: ph) (auto simp: enqueue_page_def set_page_def Let_def fun_eq_iff)

lemma region_pages:
  shows "unat (me_length e div PGSIZE) = npages_of e" "1 \<le> npages_of e \<Longrightarrow> meta_pages e \<le> npages_of e"
    "unat (ROUNDUP (sizeof_vm_pregion + sizeof_vm_page * (me_length e div PGSIZE)) PGSIZE div PGSIZE) = meta_pages e"
proof -
  show n: "unat (me_length e div PGSIZE) = npages_of e" by (simp add: PGSIZE_def npages_of_def unat_div_distrib)
  show "1 \<le> npages_of e \<Longrightarrow> meta_pages e \<le> npages_of e" by (simp add: meta_pages_def)
  have "unat (me_length e) < 2 ^ 64" using unsigned_less [of "me_length e"] by simp
  then have l: "npages_of e < 2 ^ 52" by (simp add: npages_of_def less_mult_imp_div_less)
  have "unat (sizeof_vm_page * (me_length e div PGSIZE)) = 88 * npages_of e" using l n by (simp add: sizeof_vm_page_def unat_word_ariths)
  then have "unat (sizeof_vm_pregion + sizeof_vm_page * (me_length e div PGSIZE)) = 32 + 88 * npages_of e" using l by (subst unat_add_nowrap) (simp_all add: sizeof_vm_pregion_def)
  then have "unat (ROUNDUP (sizeof_vm_pregion + sizeof_vm_page * (me_length e div PGSIZE)) PGSIZE) = (32 + 88 * npages_of e + 4095) div 4096 * 4096"
    using ROUNDUP_unat [of "sizeof_vm_pregion + sizeof_vm_page * (me_length e div PGSIZE)" 12] l by (simp add: PGSIZE_def)
  then show "unat (ROUNDUP (sizeof_vm_pregion + sizeof_vm_page * (me_length e div PGSIZE)) PGSIZE div PGSIZE) = meta_pages e"
    by (simp add: unat_div_distrib meta_pages_def PGSIZE_def)
qed

subsection \<open>The pages after initialisation\<close>

text \<open>
  A memory map whose usable areas hold at least a page and at most 2 GiB each, do not wrap around and
  do not overlap.
\<close>

definition memmap_ok :: "memmap_entry list \<Rightarrow> bool" where
  "memmap_ok us \<longleftrightarrow> (\<forall>u \<in> set us. 1 \<le> npages_of u \<and> npages_of u \<le> 524288 \<and> unat (me_base u) + unat (me_length u) < 2 ^ 64) \<and>
     (\<forall>j < length us. \<forall>k < length us. j \<noteq> k \<longrightarrow> unat (me_base (us ! j)) + unat (me_length (us ! j)) \<le> unat (me_base (us ! k)) \<or>
        unat (me_base (us ! k)) + unat (me_length (us ! k)) \<le> unat (me_base (us ! j)))"

definition region_of :: "memmap_entry \<Rightarrow> vm_pregion" where
  "region_of e = \<lparr>preg_base = me_base e, preg_npages = me_length e div PGSIZE\<rparr>"

text \<open>Pages \<open>lo e\<close> up to \<open>hi e\<close> of every area, in order.\<close>

definition pages_between :: "(memmap_entry \<Rightarrow> nat) \<Rightarrow> (memmap_entry \<Rightarrow> nat) \<Rightarrow> memmap_entry list \<Rightarrow> page_ref list" where
  "pages_between lo hi us = concat (map (\<lambda>r. map (Pair r) [lo (us ! r)..<hi (us ! r)]) [0..<length us])"

definition empty_queues :: "phys \<Rightarrow> bool" where
  "empty_queues ph \<longleftrightarrow> (\<forall>q. pgqueues ph q = \<lparr>pq_queue = [], pq_npages = 0\<rparr>) \<and> vm_pregion_queue ph = []"

definition initialised :: "memmap_entry list \<Rightarrow> phys \<Rightarrow> bool" where
  "initialised us ph \<longleftrightarrow> vm_pregion_queue ph = map region_of us \<and>
     page_list ph vm_pgpmapq = pages_between (\<lambda>_. 0) meta_pages us \<and> page_list ph vm_pgfreeq = pages_between meta_pages npages_of us \<and>
     (\<forall>q. q \<noteq> vm_pgpmapq \<and> q \<noteq> vm_pgfreeq \<longrightarrow> page_list ph q = []) \<and> (\<forall>q. pq_npages (pgqueues ph q) = of_nat (length (page_list ph q))) \<and>
     (\<forall>r < length us. \<forall>b < npages_of (us ! r). paddr (page_of ph (r, b)) = me_base (us ! r) + PGSIZE * of_nat b \<and> pv_table (page_of ph (r, b)) = [] \<and>
        pg_queue (page_of ph (r, b)) = (if b < meta_pages (us ! r) then kVMPagePMap else kVMPageFree))"

lemma pages_between_snoc: "pages_between lo hi (us @ [u]) = pages_between lo hi us @ map (Pair (length us)) [lo u..<hi u]"
  by (auto simp: pages_between_def nth_append intro!: arg_cong [of _ _ concat] map_cong)

lemma init_region_initialised:
  assumes i: "initialised us ph" and n: "1 \<le> npages_of u" "npages_of u \<le> 524288"
  shows "\<exists>ph'. init_region u ph = Some ph' \<and> initialised (us @ [u]) ph'"
proof -
  let ?r = "length us"
  have it: "iterM (init_page ?r (me_base u)) [0..<npages_of u] ph = Some (ph\<lparr>page_of := (\<lambda>(r', b). if r' = ?r \<and> b \<in> set [0..<npages_of u]
     then (page_of ph (?r, b))\<lparr>paddr := me_base u + PGSIZE * of_nat b, pv_table := [], pg_anon := None\<rparr> else page_of ph (r', b))\<rparr>)"
    using n(2) by (intro iter_init_page) simp
  have q: "vm_pregion_queue ph = map region_of us" using i by (simp add: initialised_def)
  have m: "meta_pages u \<le> npages_of u" by (rule region_pages(2) [OF n(1)])
  define ph1 where "ph1 = ph\<lparr>page_of := (\<lambda>(r', b). if r' = ?r \<and> b \<in> set [0..<npages_of u]
     then (page_of ph (?r, b))\<lparr>paddr := me_base u + PGSIZE * of_nat b, pv_table := [], pg_anon := None\<rparr> else page_of ph (r', b))\<rparr>"
  define ph2 where "ph2 = fold (enqueue_page ?r kVMPagePMap vm_pgpmapq) [0..<meta_pages u] ph1"
  define ph3 where "ph3 = fold (enqueue_page ?r kVMPageFree vm_pgfreeq) [meta_pages u..<npages_of u] ph2"
  define ph' where "ph' = ph3\<lparr>vm_pregion_queue := vm_pregion_queue ph3 @ [\<lparr>preg_base = me_base u, preg_npages = me_length u div PGSIZE\<rparr>]\<rparr>"
  have run: "init_region u ph = Some ph'"
    unfolding init_region_def Let_def region_pages q length_map it [folded ph1_def] by (simp add: ph'_def ph3_def ph2_def)
  have e: "ph' = ph\<lparr>page_of := page_of ph', pgqueues := pgqueues ph', vm_pregion_queue := map region_of us @ [region_of u]\<rparr>"
    "page_of ph' (r, b) = (if r = ?r \<and> b < npages_of u then (page_of ph (r, b))\<lparr>paddr := me_base u + PGSIZE * of_nat b, pv_table := [], pg_anon := None,
       pg_queue := (if b < meta_pages u then kVMPagePMap else kVMPageFree)\<rparr> else page_of ph (r, b))"
    "pgqueues ph' = (pgqueues ph)(
       vm_pgpmapq := \<lparr>pq_queue = page_list ph vm_pgpmapq @ map (Pair ?r) [0..<meta_pages u], pq_npages = pq_npages (pgqueues ph vm_pgpmapq) + of_nat (meta_pages u)\<rparr>,
       vm_pgfreeq := \<lparr>pq_queue = page_list ph vm_pgfreeq @ map (Pair ?r) [meta_pages u..<npages_of u], pq_npages = pq_npages (pgqueues ph vm_pgfreeq) + of_nat (npages_of u - meta_pages u)\<rparr>)" for r b
    unfolding ph'_def ph3_def ph2_def ph1_def fold_enqueue_page using m q by (auto simp: page_list_def region_of_def)
  have l: "page_list ph' vm_pgpmapq = pages_between (\<lambda>_. 0) meta_pages (us @ [u])" "page_list ph' vm_pgfreeq = pages_between meta_pages npages_of (us @ [u])"
    "\<And>x. x \<noteq> vm_pgpmapq \<and> x \<noteq> vm_pgfreeq \<Longrightarrow> page_list ph' x = []"
    using i by (auto simp: initialised_def page_list_def e(3) pages_between_snoc)
  have c: "pq_npages (pgqueues ph' x) = of_nat (length (page_list ph' x))" for x
    using i by (auto simp: initialised_def page_list_def e(3))
  have old: "page_of ph' (r, b) = page_of ph (r, b)" if "r < ?r" for r b using that by (simp add: e(2))
  have "paddr (page_of ph' (r, b)) = me_base ((us @ [u]) ! r) + PGSIZE * of_nat b \<and> pv_table (page_of ph' (r, b)) = [] \<and>
        pg_queue (page_of ph' (r, b)) = (if b < meta_pages ((us @ [u]) ! r) then kVMPagePMap else kVMPageFree)" if "r < length (us @ [u])" "b < npages_of ((us @ [u]) ! r)" for r b
  proof (cases "r < ?r")
    case True
    then show ?thesis using i that by (simp add: old initialised_def nth_append)
  next
    case False
    then have "r = ?r" using that by simp
    then show ?thesis using that by (simp add: e(2))
  qed
  moreover have "vm_pregion_queue ph' = map region_of (us @ [u])" by (subst e(1)) simp
  ultimately show ?thesis using run l c unfolding initialised_def by blast
qed

lemma init_regions_initialised:
  assumes "empty_queues ph" and "\<forall>u \<in> set (filter usable es). 1 \<le> npages_of u \<and> npages_of u \<le> 524288"
  shows "\<exists>ph'. init_regions es ph = Some ph' \<and> initialised (filter usable es) ph'"
  using assms(2)
proof (induction es rule: rev_induct)
  case Nil
  then show ?case using assms(1) by (auto simp: init_regions_def initialised_def empty_queues_def page_list_def pages_between_def)
next
  case (snoc x es)
  then obtain ph' where "init_regions es ph = Some ph'" "initialised (filter usable es) ph'" by auto
  then show ?case using snoc.prems init_region_initialised [of "filter usable es" ph' x] by (auto simp: init_regions_def iterM_append)
qed

lemma set_pages_between: "(r, b) \<in> set (pages_between lo hi us) \<longleftrightarrow> r < length us \<and> lo (us ! r) \<le> b \<and> b < hi (us ! r)"
  by (auto simp: pages_between_def image_iff)

lemma distinct_pages_between: "distinct (pages_between lo hi us)"
proof (induction us rule: rev_induct)
  case (snoc u us)
  have "distinct (map (Pair (length us)) [lo u..<hi u])" by (simp add: distinct_map inj_on_def)
  then show ?case using snoc by (auto simp: pages_between_snoc set_pages_between)
qed (simp add: pages_between_def)

lemma frame_unat:
  assumes "unat (paddr (page_of ph p)) + 4096 < 2 ^ 64 + 1" and "a \<in> frame ph p"
  shows "unat (paddr (page_of ph p)) \<le> unat a \<and> unat a < unat (paddr (page_of ph p)) + 4096"
proof -
  let ?x = "paddr (page_of ph p)"
  have d: "unat (a - ?x) < 4096" using assms(2) by (simp add: frame_def PGSIZE_def word_less_nat_alt)
  have "unat a = unat ((a - ?x) + ?x)" by simp
  also have "\<dots> = unat (a - ?x) + unat ?x" using d assms(1) by (intro unat_add_nowrap) simp
  finally show ?thesis using d by simp
qed

lemma npages_bound: "4096 * npages_of u \<le> unat (me_length u)"
  by (simp add: npages_of_def)

text \<open>
  Every page of the usable areas is on one queue: those with the page structures on the queue of page
  table pages, the others free; their frames are different; and a page is found by its address.
\<close>


text \<open>A memory map with 16 pages at 1 MiB, a reserved area, and 4 pages at 2 MiB.\<close>

definition small_memmap :: "memmap_entry list" where
  "small_memmap = [\<lparr>me_base = 0x100000, me_length = 0x10000, me_type = 0\<rparr>, \<lparr>me_base = 0x110000, me_length = 0x1000, me_type = 1\<rparr>, \<lparr>me_base = 0x200000, me_length = 0x4000, me_type = 0\<rparr>]"

definition no_pages :: phys where
  "no_pages = \<lparr>page_of = \<lambda>_. \<lparr>pg_queue = kVMPageFree, pg_anon = None, pv_table = [], paddr = 0\<rparr>, pgqueues = \<lambda>_. \<lparr>pq_queue = [], pq_npages = 0\<rparr>, vm_pregion_queue = [], pmem = \<lambda>_. 0\<rparr>"


end
