(* ===== verification/Boot.thy ===== *)
theory Boot
  imports Sched_Spec
begin

text \<open>
  Bringing up the processors: the descriptor tables of \<^verbatim>\<open>x86_64/machdep.c\<close> and \<^verbatim>\<open>x86_64/intr.c\<close>, the model
  specific registers of \<^verbatim>\<open>x86_64/cpu.h\<close>, and the initialisation of the processors in \<^verbatim>\<open>x86_64/kmain.c\<close>. The
  result is a state in which the invariant of the scheduler holds.
\<close>

unbundle bit_operations_syntax

subsection \<open>Model specific registers\<close>

text \<open>A register is the pair of halves that the instructions take in \<^verbatim>\<open>edx\<close> and \<^verbatim>\<open>eax\<close>.\<close>

type_synonym msrs = "u32 \<Rightarrow> u32 \<times> u32"

definition wrmsr :: "u32 \<Rightarrow> u64 \<Rightarrow> msrs \<Rightarrow> msrs" where
  "wrmsr msr val f = f(msr := (ucast (drop_bit 32 val), ucast val))"

definition rdmsr :: "u32 \<Rightarrow> msrs \<Rightarrow> u64" where
  "rdmsr msr f = (case f msr of (high, low) \<Rightarrow> push_bit 32 (ucast high) OR ucast low)"

subsection \<open>Descriptor tables\<close>

record idt_entry =
  isr_low :: "16 word"
  idt_selector :: "16 word"
  idt_ist :: u8
  idt_type :: u8
  isr_mid :: "16 word"
  isr_high :: u32
  idt_zero :: u32

definition idt_set :: "nat \<Rightarrow> u64 \<Rightarrow> u8 \<Rightarrow> u8 \<Rightarrow> idt_entry list \<Rightarrow> idt_entry list" where
  "idt_set index isr type ist idt = idt[index := \<lparr>isr_low = ucast (isr AND 0xFFFF), idt_selector = 0x28, idt_ist = ist, idt_type = type,
     isr_mid = ucast (drop_bit 16 isr AND 0xFFFF), isr_high = ucast (drop_bit 32 isr), idt_zero = 0\<rparr>]"

definition INT_GATE :: u8 where "INT_GATE = 0x8e"
definition TRAP :: u8 where "TRAP = 0x8e"
definition INT_USER :: u8 where "INT_USER = 0xee"

definition SPECIAL_INTS :: "(nat \<times> u8) list" where
  "SPECIAL_INTS = [(4, TRAP), (6, TRAP), (8, TRAP), (10, TRAP), (11, TRAP), (12, TRAP), (13, TRAP), (14, TRAP), (128, INT_USER)]"

definition NORMAL_INTS :: "nat list" where
  "NORMAL_INTS = [32..<128] @ [129..<256]"

text \<open>\<open>isr_thunk\<close> gives the addresses of the assembly entry points.\<close>

definition idt_init_gates :: "(nat \<Rightarrow> u64) \<Rightarrow> idt_entry list \<Rightarrow> idt_entry list" where
  "idt_init_gates isr_thunk idt = fold (\<lambda>(v, gate). idt_set v (isr_thunk v) gate 0) SPECIAL_INTS (fold (\<lambda>v. idt_set v (isr_thunk v) INT_GATE 0) NORMAL_INTS idt)"

definition idt_init :: "(nat \<Rightarrow> u64) \<Rightarrow> idt_entry list \<times> (nat \<Rightarrow> md_intr_entry) \<Rightarrow> idt_entry list \<times> (nat \<Rightarrow> md_intr_entry)" where
  "idt_init isr_thunk = (\<lambda>(idt, intrs). (idt_init_gates isr_thunk idt, idt_init_handlers intrs))"

record tss_gdt_entry =
  tss_length :: "16 word"
  base_low :: "16 word"
  base_mid :: u8
  tss_access :: u8
  tss_flags :: u8
  base_high :: u8
  base_upper :: u32
  tss_reserved :: u32

text \<open>The address of the task state segment of a processor; an index beyond 63 is outside the array.\<close>

definition sizeof_tss :: u64 where "sizeof_tss = 104"

definition setup_cpu_gdt :: "u64 \<Rightarrow> nat \<Rightarrow> tss_gdt_entry option" where
  "setup_cpu_gdt tss num = do {
     kassert (num < 64);
     let a = tss + sizeof_tss * of_nat num;
     Some \<lparr>tss_length = 0x68, base_low = ucast a, base_mid = ucast (drop_bit 16 a), tss_access = 0x89, tss_flags = 0,
       base_high = ucast (drop_bit 24 a), base_upper = ucast (drop_bit 32 a), tss_reserved = 0\<rparr>
   }"

subsection \<open>What the processor reads\<close>

definition gate_target :: "idt_entry \<Rightarrow> u64" where
  "gate_target e = ucast (isr_low e) OR push_bit 16 (ucast (isr_mid e)) OR push_bit 32 (ucast (isr_high e))"

definition tss_base :: "tss_gdt_entry \<Rightarrow> u64" where
  "tss_base d = ucast (base_low d) OR push_bit 16 (ucast (base_mid d)) OR push_bit 24 (ucast (base_high d)) OR push_bit 32 (ucast (base_upper d))"

lemma wrmsr_rdmsr: "rdmsr msr (wrmsr msr val f) = val"
proof (rule bit_word_eqI)
  fix n assume "n < LENGTH(64)"
  then show "bit (rdmsr msr (wrmsr msr val f)) n = bit val n" by (auto simp: rdmsr_def wrmsr_def bit_simps)
qed

lemma gate_target_set:
  "gate_target \<lparr>isr_low = ucast (isr AND 0xFFFF), idt_selector = sel, idt_ist = ist, idt_type = type, isr_mid = ucast (drop_bit 16 isr AND 0xFFFF), isr_high = ucast (drop_bit 32 isr), idt_zero = z\<rparr> = isr"
proof (rule bit_word_eqI)
  fix n assume "n < LENGTH(64)"
  moreover have m: "(0xFFFF :: u64) = mask 16" by (simp add: mask_eq_exp_minus_1)
  ultimately show "bit (gate_target \<lparr>isr_low = ucast (isr AND 0xFFFF), idt_selector = sel, idt_ist = ist, idt_type = type, isr_mid = ucast (drop_bit 16 isr AND 0xFFFF), isr_high = ucast (drop_bit 32 isr), idt_zero = z\<rparr>) n = bit isr n"
    unfolding m by (cases "n < 32") (auto simp: gate_target_def bit_simps)
qed

lemma tss_base_set:
  assumes "setup_cpu_gdt tss num = Some d"
  shows "tss_base d = tss + sizeof_tss * of_nat num"
proof (rule bit_word_eqI)
  fix n assume "n < LENGTH(64)"
  then show "bit (tss_base d) n = bit (tss + sizeof_tss * of_nat num) n"
    using assms by (cases "n < 32"; cases "n < 24") (auto simp: setup_cpu_gdt_def Let_def tss_base_def bit_simps kassert_def split: if_splits)
qed

lemma idt_fold_normal:
  assumes "length idt = 256"
  shows "length (fold (\<lambda>v. idt_set v (f v) g 0) vs idt) = 256"
    "distinct vs \<Longrightarrow> v < 256 \<Longrightarrow> fold (\<lambda>v. idt_set v (f v) g 0) vs idt ! v = (if v \<in> set vs then idt_set v (f v) g 0 idt ! v else idt ! v)"
  using assms by (induction vs arbitrary: idt) (auto simp: idt_set_def nth_list_update)

lemma idt_fold_special:
  assumes "length idt = 256"
  shows "length (fold (\<lambda>(v, g). idt_set v (f v) g 0) vs idt) = 256"
    "distinct (map fst vs) \<Longrightarrow> v < 256 \<Longrightarrow> (v, g) \<in> set vs \<Longrightarrow> fold (\<lambda>(v, g). idt_set v (f v) g 0) vs idt ! v = idt_set v (f v) g 0 idt ! v"
    "v < 256 \<Longrightarrow> v \<notin> fst ` set vs \<Longrightarrow> fold (\<lambda>(v, g). idt_set v (f v) g 0) vs idt ! v = idt ! v"
proof -
  show "length (fold (\<lambda>(v, g). idt_set v (f v) g 0) vs idt) = 256" using assms by (induction vs arbitrary: idt) (auto simp: idt_set_def)
  show o: "v < 256 \<Longrightarrow> v \<notin> fst ` set vs \<Longrightarrow> fold (\<lambda>(v, g). idt_set v (f v) g 0) vs idt ! v = idt ! v" for vs idt
    by (induction vs arbitrary: idt) (auto simp: idt_set_def nth_list_update split: prod.splits)
  show "distinct (map fst vs) \<Longrightarrow> v < 256 \<Longrightarrow> (v, g) \<in> set vs \<Longrightarrow> fold (\<lambda>(v, g). idt_set v (f v) g 0) vs idt ! v = idt_set v (f v) g 0 idt ! v"
    using assms
  proof (induction vs arbitrary: idt)
    case (Cons a vs)
    obtain w h where a: "a = (w, h)" by (cases a)
    show ?case
    proof (cases "(v, g) = a")
      case True
      then have "v \<notin> fst ` set vs" using Cons.prems(1) by (metis distinct.simps(2) fst_conv list.set_map list.simps(9))
      then show ?thesis using True [symmetric] o [OF Cons.prems(2)] by simp
    next
      case False
      then have m: "(v, g) \<in> set vs" "v \<noteq> w" using Cons.prems(1,3) a by (auto simp: image_iff)
      have l: "length (idt_set w (f w) h 0 idt) = 256" using Cons.prems(4) by (simp add: idt_set_def)
      have "fold (\<lambda>(v, g). idt_set v (f v) g 0) vs (idt_set w (f w) h 0 idt) ! v = idt_set v (f v) g 0 (idt_set w (f w) h 0 idt) ! v"
        using Cons.prems(1,2) m(1) l by (intro Cons.IH) simp_all
      moreover have "idt_set v (f v) g 0 (idt_set w (f w) h 0 idt) ! v = idt_set v (f v) g 0 idt ! v" using m(2) Cons.prems(2,4) by (simp add: idt_set_def)
      ultimately show ?thesis by (simp add: a)
    qed
  qed simp
qed

text \<open>
  Every vector from 32 on and the nine listed exceptions lead to their entry point through the kernel's
  code segment; the other exceptions, among them division by zero, keep the empty gate they had.
\<close>

theorem idt_init_gates_correct:
  assumes "length idt = 256" and "v < 256"
  shows "let g = idt_init_gates isr_thunk idt ! v in
    if v \<in> set NORMAL_INTS \<or> v \<in> fst ` set SPECIAL_INTS
    then gate_target g = isr_thunk v \<and> idt_selector g = 0x28 \<and> idt_type g = (if v = 128 then INT_USER else INT_GATE)
    else g = idt ! v"
proof -
  let ?n = "fold (\<lambda>v. idt_set v (isr_thunk v) INT_GATE 0) NORMAL_INTS idt"
  have l: "length ?n = 256" by (rule idt_fold_normal(1) [OF assms(1)])
  have d: "distinct NORMAL_INTS" unfolding NORMAL_INTS_def distinct_append set_upt by auto
  have ds: "distinct (map fst SPECIAL_INTS)" by (simp add: SPECIAL_INTS_def)
  have st: "idt_set v isr g 0 xs ! v = \<lparr>isr_low = ucast (isr AND 0xFFFF), idt_selector = 0x28, idt_ist = 0, idt_type = g, isr_mid = ucast (drop_bit 16 isr AND 0xFFFF), isr_high = ucast (drop_bit 32 isr), idt_zero = 0\<rparr>"
    if "length xs = 256" for isr g xs using that assms(2) by (simp add: idt_set_def)
  show ?thesis
  proof (cases "v \<in> fst ` set SPECIAL_INTS")
    case True
    then obtain g where g: "(v, g) \<in> set SPECIAL_INTS" by auto
    then have "idt_init_gates isr_thunk idt ! v = idt_set v (isr_thunk v) g 0 ?n ! v" unfolding idt_init_gates_def by (rule idt_fold_special(2) [OF l ds assms(2)])
    moreover have "g = (if v = 128 then INT_USER else INT_GATE)" using g by (auto simp: SPECIAL_INTS_def TRAP_def INT_GATE_def)
    ultimately show ?thesis using True by (simp add: st [OF l] gate_target_set)
  next
    case False
    then have s: "idt_init_gates isr_thunk idt ! v = ?n ! v" unfolding idt_init_gates_def by (rule idt_fold_special(3) [OF l assms(2)])
    have n: "?n ! v = (if v \<in> set NORMAL_INTS then idt_set v (isr_thunk v) INT_GATE 0 idt ! v else idt ! v)" by (rule idt_fold_normal(2) [OF assms(1) d assms(2)])
    have "v \<in> set NORMAL_INTS \<Longrightarrow> v \<noteq> 128" unfolding NORMAL_INTS_def set_append set_upt by auto
    then show ?thesis using False unfolding s n by (auto simp: Let_def st [OF assms(1)] gate_target_set)
  qed
qed

theorem idt_init_gates_correct_witness:
  "gate_target (idt_init_gates (\<lambda>v. 0xffffffff80001000 + of_nat v) (replicate 256 (\<lparr>isr_low = 0, idt_selector = 0, idt_ist = 0, idt_type = 0, isr_mid = 0, isr_high = 0, idt_zero = 0\<rparr>)) ! 14) = 0xffffffff8000100e"
proof -
  have "14 \<in> fst ` set SPECIAL_INTS" by (simp add: SPECIAL_INTS_def)
  then show ?thesis
    using idt_init_gates_correct [of "replicate 256 (\<lparr>isr_low = 0, idt_selector = 0, idt_ist = 0, idt_type = 0, isr_mid = 0, isr_high = 0, idt_zero = 0\<rparr>)" 14 "\<lambda>v. 0xffffffff80001000 + of_nat v"]
    by (simp add: Let_def)
qed

subsection \<open>Processors\<close>

text \<open>
  \<open>calib\<close> gives the three measurements of the timer. Loading the descriptor tables, the segment registers
  and the page table and enabling interrupts act on parts of the machine that are not in the state.
  The lock that serialises the insertion is free between operations.
\<close>

definition lapic_tps_of :: "(nat \<Rightarrow> u32) \<Rightarrow> u64" where
  "lapic_tps_of calib = fold (\<lambda>i tps. tps + ucast (calib i div 3)) [0..<3] 0"

definition common_init :: "cpu_ref \<Rightarrow> u32 \<Rightarrow> (nat \<Rightarrow> u32) \<Rightarrow> 'w ks \<Rightarrow> 'w ks" where
  "common_init c lapic_id calib s = (let t = cpu_curthread (ks_cpu s c);
     s1 = s\<lparr>ks_task := (ks_task s)(0 := (ks_task s 0)\<lparr>task_threads := t # task_threads (ks_task s 0)\<rparr>)\<rparr>;
     s2 = lapic_enable c 0xff s1;
     s3 = set_cpu c (\<lambda>p. p\<lparr>cpu_lapic_tps := lapic_tps_of calib, cpu_lapic_id := ucast lapic_id, cpu_preempted := False, cpu_inInterrupt := False,
            cpu_pendingcallouts := [], cpu_runqueue := [], cpu_idlethread := t\<rparr>) s2;
     s4 = set_callout (cpu_timeslicer (ks_cpu s3 c)) (\<lambda>k. k\<lparr>co_arg := 0, co_callback := CbTimeslice, co_state := kCalloutDisabled\<rparr>) s3
     in set_thread t (\<lambda>th. th\<lparr>th_state := kThreadRunning\<rparr>) s4)"

text \<open>\<open>alloc\<close> is the kernel heap.\<close>

definition ap_init :: "('w \<Rightarrow> (thread_ref \<times> 'w) option) \<Rightarrow> cpu_ref \<Rightarrow> u32 \<Rightarrow> (nat \<Rightarrow> u32) \<Rightarrow> 'w ks \<Rightarrow> 'w ks option" where
  "ap_init alloc c lapic_id calib s = do {
     (t, w) \<leftarrow> alloc (ks_world s);
     let s1 = set_thread t (\<lambda>th. th\<lparr>th_lock := spinlock_init (th_lock th)\<rparr>) (s\<lparr>ks_world := w\<rparr>);
     let s2 = set_thread t (\<lambda>th. th\<lparr>th_task := 0\<rparr>) (set_cpu c (\<lambda>p. p\<lparr>cpu_curthread := t\<rparr>) s1);
     Some (common_init c lapic_id calib s2)
   }"

text \<open>
  The first processor initialises itself when the loop comes to it, the others when they are started:
  they are ready in some order. \<open>smpi\<close> gives the identifiers of the local APICs.
\<close>

definition cpu_up :: "('w \<Rightarrow> (thread_ref \<times> 'w) option) \<Rightarrow> cpu_ref \<Rightarrow> (cpu_ref \<Rightarrow> u32) \<Rightarrow> (cpu_ref \<Rightarrow> nat \<Rightarrow> u32) \<Rightarrow> cpu_ref \<Rightarrow> 'w ks \<Rightarrow> 'w ks option" where
  "cpu_up alloc bsp smpi calib c s = (let s1 = set_cpu c (\<lambda>p. p\<lparr>cpu_num := int c\<rparr>) s in
     if c = bsp then Some (common_init c (smpi c) (calib c) s1) else ap_init alloc c (smpi c) (calib c) s1)"

fun cpus_up :: "('w \<Rightarrow> (thread_ref \<times> 'w) option) \<Rightarrow> cpu_ref \<Rightarrow> (cpu_ref \<Rightarrow> u32) \<Rightarrow> (cpu_ref \<Rightarrow> nat \<Rightarrow> u32) \<Rightarrow> cpu_ref list \<Rightarrow> 'w ks \<Rightarrow> 'w ks option" where
  "cpus_up alloc bsp smpi calib [] s = Some s"
| "cpus_up alloc bsp smpi calib (c # cs) s = do { s1 \<leftarrow> cpu_up alloc bsp smpi calib c s; cpus_up alloc bsp smpi calib cs s1 }"

definition smp_init :: "('w \<Rightarrow> (thread_ref \<times> 'w) option) \<Rightarrow> cpu_ref \<Rightarrow> (cpu_ref \<Rightarrow> u32) \<Rightarrow> (cpu_ref \<Rightarrow> nat \<Rightarrow> u32) \<Rightarrow> cpu_ref list \<Rightarrow> 'w ks \<Rightarrow> 'w ks option" where
  "smp_init alloc bsp smpi calib order s = cpus_up alloc bsp smpi calib order (s\<lparr>ks_ncpu := int (length order)\<rparr>)"

subsection \<open>The scheduler after initialisation\<close>

text \<open>Memory for threads: \<open>U\<close> are the threads that exist, \<open>I n\<close> says that there is room for \<open>n\<close> more.\<close>

definition thread_law :: "('w \<Rightarrow> (thread_ref \<times> 'w) option) \<Rightarrow> (nat \<Rightarrow> 'w \<Rightarrow> bool) \<Rightarrow> ('w \<Rightarrow> thread_ref set) \<Rightarrow> bool" where
  "thread_law alloc I U \<longleftrightarrow> (\<forall>n w. I (Suc n) w \<longrightarrow> (\<exists>t w'. alloc w = Some (t, w') \<and> t \<notin> U w \<and> U w' = insert t (U w) \<and> I n w') \<and> I n w)"

text \<open>
  Before: nothing waits and nothing is locked, and every processor has a callout of its own. The
  lock of every thread structure is taken to be free, also of those in memory not yet allocated (the
  invariant of the scheduler speaks of all of them), so the \<^verbatim>\<open>spinlock_init\<close> of \<^verbatim>\<open>ap_init\<close> changes
  nothing here.
\<close>

definition cold :: "'w ks \<Rightarrow> bool" where
  "cold s \<longleftrightarrow> \<not> ks_sched_lock s \<and> (\<forall>t. \<not> tlock s t) \<and> (\<forall>w. \<not> wlock w s) \<and> (\<forall>w. waiters w s = []) \<and>
     inj (\<lambda>c. cpu_timeslicer (ks_cpu s c))"

text \<open>After the processors in \<open>D\<close> are up.\<close>

definition warm :: "cpu_ref \<Rightarrow> thread_ref \<Rightarrow> thread_ref set \<Rightarrow> cpu_ref set \<Rightarrow> 'w ks \<Rightarrow> bool" where
  "warm bsp thread0 us D s \<longleftrightarrow> cold s \<and> thread0 \<in> us \<and> (bsp \<notin> D \<longrightarrow> curthread bsp s = thread0) \<and>
     (\<forall>c \<in> D. timer_ok c s \<and> runqueue c s = [] \<and> curthread c s = idlethread c s \<and> state_of s (idlethread c s) = kThreadRunning \<and>
        idlethread c s \<in> us \<and> (idlethread c s = thread0 \<longleftrightarrow> c = bsp)) \<and>
     inj_on (\<lambda>c. idlethread c s) D"

lemma warm_sched_ok:
  assumes "warm bsp thread0 us {0..<N} s"
  shows "sched_ok N s"
proof -
  have c: "\<not> ks_sched_lock s" "\<not> tlock s t" "\<not> wlock w s" "waiters w s = []" "inj (\<lambda>c. cpu_timeslicer (ks_cpu s c))" for t w
    using assms by (simp_all add: warm_def cold_def)
  have p: "timer_ok i s" "runqueue i s = []" "curthread i s = idlethread i s" "state_of s (idlethread i s) = kThreadRunning" if "i < N" for i
    using assms that by (simp_all add: warm_def)
  have inj: "i = d" if "i < N" "d < N" "idlethread i s = idlethread d s" for i d using assms that by (auto simp: warm_def inj_on_def)
  have "timers_ok N s" unfolding timers_ok_def using p(1) c(5) by (auto dest: injD)
  then show ?thesis unfolding sched_inv_def using c(1-4) inj by (intro conjI allI impI ballI) (simp_all add: p)
qed

lemma lapic_tps_bound:
  assumes "\<And>i. i < 3 \<Longrightarrow> calib i < 0xffffffff"
  shows "lapic_tps_of calib * NS_PER_S div NS_PER_S < 0xffffffff"
proof -
  have q: "unat (ucast (calib i div 3) :: u64) < 0x55555555" if "i < 3" for i
  proof -
    have "unat (calib i) < 0xffffffff" using assms [OF that] by (simp add: word_less_nat_alt)
    then have "unat (calib i div 3) < 0x55555555" by (simp add: unat_div_distrib less_mult_imp_div_less)
    then show ?thesis by (simp add: unsigned_ucast_eq take_bit_eq_mod)
  qed
  have e: "lapic_tps_of calib = ucast (calib 0 div 3) + ucast (calib 1 div 3) + ucast (calib 2 div 3)" by (simp add: lapic_tps_of_def numeral_3_eq_3 numeral_2_eq_2)
  have u: "unat (lapic_tps_of calib) < 0xffffffff" using q [of 0] q [of 1] q [of 2] unfolding e by (simp add: unat_word_ariths)
  have "unat (lapic_tps_of calib * NS_PER_S) = unat (lapic_tps_of calib) * 1000000000" using u by (simp add: unat_word_ariths NS_PER_S_def)
  then have "unat (lapic_tps_of calib * NS_PER_S div NS_PER_S) = unat (lapic_tps_of calib)" by (simp add: unat_div_distrib NS_PER_S_def)
  then show ?thesis using u by (simp add: word_less_nat_alt)
qed

lemma common_init_view:
  fixes s :: "'w ks" and c calib lapic_id
  defines "s' \<equiv> common_init c lapic_id calib s"
  shows "curthread d s' = curthread d s" "idlethread d s' = (if d = c then curthread c s else idlethread d s)" "runqueue d s' = (if d = c then [] else runqueue d s)"
    "state_of s' u = (if u = curthread c s then kThreadRunning else state_of s u)" "tlock s' u = tlock s u" "wlock w s' = wlock w s" "waiters w s' = waiters w s"
    "ks_sched_lock s' = ks_sched_lock s" "cpu_timeslicer (ks_cpu s' d) = cpu_timeslicer (ks_cpu s d)" "ks_world s' = ks_world s"
    "ks_callout s' = (ks_callout s)(cpu_timeslicer (ks_cpu s c) := (ks_callout s (cpu_timeslicer (ks_cpu s c)))\<lparr>co_arg := 0, co_callback := CbTimeslice, co_state := kCalloutDisabled\<rparr>)"
    "cpu_pendingcallouts (ks_cpu s' d) = (if d = c then [] else cpu_pendingcallouts (ks_cpu s d))" "cpu_lapic_tps (ks_cpu s' d) = (if d = c then lapic_tps_of calib else cpu_lapic_tps (ks_cpu s d))"
  by (simp_all add: s'_def common_init_def Let_def view_defs set_defs lapic_enable_def lapic_write_def)

lemma common_init_warm:
  assumes w: "warm bsp thread0 us D s" and c: "c \<notin> D" and cal: "\<And>i. i < 3 \<Longrightarrow> calib i < 0xffffffff"
    and t: "curthread c s \<in> us" "curthread c s = thread0 \<longleftrightarrow> c = bsp" "\<And>d. d \<in> D \<Longrightarrow> curthread c s \<noteq> idlethread d s"
  shows "warm bsp thread0 us (insert c D) (common_init c lapic_id calib s)"
proof -
  let ?s = "common_init c lapic_id calib s"
  have cold: "cold s" and inj: "inj_on (\<lambda>c. idlethread c s) D" and th: "thread0 \<in> us" "bsp \<notin> D \<longrightarrow> curthread bsp s = thread0"
    and D: "\<And>d. d \<in> D \<Longrightarrow> timer_ok d s \<and> runqueue d s = [] \<and> curthread d s = idlethread d s \<and> state_of s (idlethread d s) = kThreadRunning \<and> idlethread d s \<in> us \<and> (idlethread d s = thread0 \<longleftrightarrow> d = bsp)"
    using w by (simp_all add: warm_def)
  have ti: "inj (\<lambda>c. cpu_timeslicer (ks_cpu s c))" using cold by (simp add: cold_def)
  have cold': "cold ?s" using cold unfolding cold_def by (simp add: common_init_view)
  have new: "timer_ok c ?s" using lapic_tps_bound [OF cal] by (simp add: timer_ok_def Let_def common_init_view)
  have old: "timer_ok d ?s" if "d \<in> D" for d
  proof -
    have "d \<noteq> c" using that c by auto
    then have "cpu_timeslicer (ks_cpu s d) \<noteq> cpu_timeslicer (ks_cpu s c)" using ti by (auto dest: injD)
    then show ?thesis using D [OF that] \<open>d \<noteq> c\<close> by (simp add: timer_ok_def Let_def common_init_view)
  qed
  have "inj_on (\<lambda>d. idlethread d ?s) (insert c D)"
  proof -
    have "inj_on (\<lambda>d. idlethread d ?s) D" using inj c by (auto simp: inj_on_def common_init_view)
    moreover have "idlethread c ?s \<notin> (\<lambda>d. idlethread d ?s) ` D" using t(3) c by (auto simp: common_init_view)
    ultimately show ?thesis using c by simp
  qed
  moreover have "timer_ok d ?s \<and> runqueue d ?s = [] \<and> curthread d ?s = idlethread d ?s \<and> state_of ?s (idlethread d ?s) = kThreadRunning \<and> idlethread d ?s \<in> us \<and> (idlethread d ?s = thread0 \<longleftrightarrow> d = bsp)"
    if "d \<in> insert c D" for d
  proof (cases "d = c")
    case True
    show ?thesis unfolding True using new t(1,2) by (simp add: common_init_view)
  next
    case False
    then have d: "d \<in> D" using that by simp
    show ?thesis using D [OF d] old [OF d] False by (simp add: common_init_view)
  qed
  moreover have "bsp \<notin> insert c D \<longrightarrow> curthread bsp ?s = thread0" using th(2) by (simp add: common_init_view)
  ultimately show ?thesis unfolding warm_def using cold' th(1) by blast
qed

lemma cpu_up_warm:
  assumes law: "thread_law alloc I U" "I (Suc n) (ks_world s)" and w: "warm bsp thread0 (U (ks_world s)) D s" and c: "c \<notin> D" and cal: "\<And>i. i < 3 \<Longrightarrow> calib c i < 0xffffffff"
  shows "\<exists>s'. cpu_up alloc bsp smpi calib c s = Some s' \<and> warm bsp thread0 (U (ks_world s')) (insert c D) s' \<and> I n (ks_world s')"
proof -
  define s1 where "s1 = set_cpu c (\<lambda>p. p\<lparr>cpu_num := int c\<rparr>) s"
  have v1: "curthread d s1 = curthread d s" "idlethread d s1 = idlethread d s" "runqueue d s1 = runqueue d s" "state_of s1 u = state_of s u" "tlock s1 u = tlock s u" "wlock x s1 = wlock x s"
    "waiters x s1 = waiters x s" "ks_sched_lock s1 = ks_sched_lock s" "cpu_timeslicer (ks_cpu s1 d) = cpu_timeslicer (ks_cpu s d)" "ks_world s1 = ks_world s" "timer_ok d s1 = timer_ok d s" for d u x
    by (simp_all add: s1_def view_defs set_cpu_def timer_ok_def Let_def)
  have w1: "warm bsp thread0 (U (ks_world s)) D s1" using w by (simp add: warm_def cold_def v1)
  have D: "idlethread d s1 \<in> U (ks_world s)" "idlethread d s1 = thread0 \<longleftrightarrow> d = bsp" if "d \<in> D" for d using w1 that by (simp_all add: warm_def)
  show ?thesis
  proof (cases "c = bsp")
    case True
    have t: "curthread c s1 = thread0" "thread0 \<in> U (ks_world s)" using w1 c True by (auto simp: warm_def)
    have "warm bsp thread0 (U (ks_world s)) (insert c D) (common_init c (smpi c) (calib c) s1)"
    proof (rule common_init_warm [OF w1 c cal])
      show "curthread c s1 \<noteq> idlethread d s1" if "d \<in> D" for d using D(2) [OF that] t(1) True c that by auto
    qed (use t True in simp_all)
    moreover have "I n (ks_world s)" using law by (simp add: thread_law_def)
    moreover have "cpu_up alloc bsp smpi calib c s = Some (common_init c (smpi c) (calib c) s1)" using True by (simp add: cpu_up_def s1_def)
    moreover have "ks_world (common_init c (smpi c) (calib c) s1) = ks_world s" by (simp add: common_init_view v1)
    ultimately show ?thesis by simp
  next
    case False
    obtain t w' where t: "alloc (ks_world s) = Some (t, w')" "t \<notin> U (ks_world s)" "U w' = insert t (U (ks_world s))" "I n w'" using law unfolding thread_law_def by blast
    define s2 where "s2 = set_thread t (\<lambda>th. th\<lparr>th_task := 0\<rparr>) (set_cpu c (\<lambda>p. p\<lparr>cpu_curthread := t\<rparr>) (set_thread t (\<lambda>th. th\<lparr>th_lock := spinlock_init (th_lock th)\<rparr>) (s1\<lparr>ks_world := w'\<rparr>)))"
    have v2: "curthread d s2 = (if d = c then t else curthread d s1)" "idlethread d s2 = idlethread d s1" "runqueue d s2 = runqueue d s1" "state_of s2 u = state_of s1 u"
      "tlock s2 u = (u \<noteq> t \<and> tlock s1 u)" "wlock x s2 = wlock x s1" "waiters x s2 = waiters x s1" "ks_sched_lock s2 = ks_sched_lock s1" "cpu_timeslicer (ks_cpu s2 d) = cpu_timeslicer (ks_cpu s1 d)"
      "ks_world s2 = w'" "timer_ok d s2 = timer_ok d s1" for d u x
      by (simp_all add: s2_def view_defs set_defs timer_ok_def Let_def spinlock_init_def)
    have w2: "warm bsp thread0 (insert t (U (ks_world s))) D s2" using w1 c False by (auto simp: warm_def cold_def v2)
    have "warm bsp thread0 (insert t (U (ks_world s))) (insert c D) (common_init c (smpi c) (calib c) s2)"
    proof (rule common_init_warm [OF w2 c cal])
      show "curthread c s2 \<in> insert t (U (ks_world s))" by (simp add: v2)
      show "curthread c s2 = thread0 \<longleftrightarrow> c = bsp" using t(2) w1 False by (auto simp: v2 warm_def)
      show "curthread c s2 \<noteq> idlethread d s2" if "d \<in> D" for d using D(1) [OF that] t(2) by (auto simp: v2)
    qed
    moreover have "ap_init alloc c (smpi c) (calib c) s1 = Some (common_init c (smpi c) (calib c) s2)" using t(1) by (simp add: ap_init_def s2_def v1)
    moreover have "cpu_up alloc bsp smpi calib c s = ap_init alloc c (smpi c) (calib c) s1" using False by (simp add: cpu_up_def s1_def)
    moreover have "ks_world (common_init c (smpi c) (calib c) s2) = w'" by (simp add: common_init_view v2)
    ultimately show ?thesis using t(3,4) by simp
  qed
qed

lemma cpus_up_warm:
  assumes law: "thread_law alloc I U" and cal: "\<And>c i. i < 3 \<Longrightarrow> calib c i < 0xffffffff"
  shows "I (length cs) (ks_world s) \<Longrightarrow> warm bsp thread0 (U (ks_world s)) D s \<Longrightarrow> distinct cs \<Longrightarrow> set cs \<inter> D = {} \<Longrightarrow>
    \<exists>s'. cpus_up alloc bsp smpi calib cs s = Some s' \<and> warm bsp thread0 (U (ks_world s')) (set cs \<union> D) s'"
proof (induction cs arbitrary: s D)
  case (Cons c cs)
  have i: "I (Suc (length cs)) (ks_world s)" and c: "c \<notin> D" using Cons.prems by auto
  obtain s1 where s1: "cpu_up alloc bsp smpi calib c s = Some s1" "warm bsp thread0 (U (ks_world s1)) (insert c D) s1" "I (length cs) (ks_world s1)"
    using cpu_up_warm [OF law i Cons.prems(2) c, of calib smpi] cal by blast
  have "distinct cs" "set cs \<inter> insert c D = {}" using Cons.prems(3,4) by auto
  from Cons.IH [OF s1(3,2) this] show ?case using s1(1) by simp
qed auto

lemma cpus_up_ncpu: "cpus_up alloc bsp smpi calib cs s = Some s' \<Longrightarrow> ks_ncpu s' = ks_ncpu s"
proof (induction cs arbitrary: s)
  case (Cons c cs)
  have ci: "ks_ncpu (common_init c i m t) = ks_ncpu t" for c i m and t :: "'a ks" by (simp add: common_init_def Let_def set_defs lapic_enable_def lapic_write_def)
  have "ks_ncpu s1 = ks_ncpu s" if "cpu_up alloc bsp smpi calib c s = Some s1" for s1
    using that by (auto simp: cpu_up_def ap_init_def Let_def ci set_cpu_def set_thread_def split: if_splits Option.bind_splits)
  then show ?case using Cons by (auto split: Option.bind_splits)
qed simp

text \<open>(C31) From a state in which nothing waits and no lock is held (thread structures not
  yet allocated included), in whatever order the processors become ready, when all of them are up
  the invariant of the scheduler holds, every processor runs its own idle thread and the run
  queues are empty.\<close>

theorem smp_init_correct:
  assumes law: "thread_law alloc I U" "I N (ks_world s)" and cal: "\<forall>c i. i < 3 \<longrightarrow> calib c i < 0xffffffff"
    and s: "cold s" "thread0 \<in> U (ks_world s)" "curthread bsp s = thread0" and order: "distinct order" "set order = {0..<N}"
  shows "\<exists>s'. smp_init alloc bsp smpi calib order s = Some s' \<and> sched_ok N s' \<and> ks_ncpu s' = int N \<and> (\<forall>c < N. curthread c s' = idlethread c s' \<and> runqueue c s' = [])"
proof -
  have n: "length order = N" using order distinct_card [of order] by simp
  let ?s = "s\<lparr>ks_ncpu := int (length order)\<rparr>"
  have v: "curthread d ?s = curthread d s" "tlock ?s u = tlock s u" "wlock x ?s = wlock x s" "waiters x ?s = waiters x s" for d u x by (simp_all add: view_defs)
  have w: "warm bsp thread0 (U (ks_world ?s)) {} ?s" using s by (simp add: warm_def cold_def v)
  have i: "I (length order) (ks_world ?s)" using law(2) n by simp
  obtain s' where s': "cpus_up alloc bsp smpi calib order ?s = Some s'" "warm bsp thread0 (U (ks_world s')) (set order \<union> {}) s'"
    using cpus_up_warm [OF law(1) _ i w order(1), of calib smpi] cal by blast
  have w': "warm bsp thread0 (U (ks_world s')) {0..<N} s'" using s'(2) order(2) by simp
  have "ks_ncpu s' = int N" using cpus_up_ncpu [OF s'(1)] n by simp
  moreover have "\<forall>c < N. curthread c s' = idlethread c s' \<and> runqueue c s' = []" using w' by (simp add: warm_def)
  ultimately show ?thesis using s'(1) warm_sched_ok [OF w'] by (simp add: smp_init_def)
qed

text \<open>Two processors, of which the second is ready first.\<close>

definition bump_thread :: "nat \<Rightarrow> (thread_ref \<times> nat) option" where
  "bump_thread w = Some (of_nat w, w + 1)"

lemma bump_thread_law: "thread_law bump_thread (\<lambda>n w. w + n < 2 ^ 64) (\<lambda>w. {t. unat t < w})"
proof -
  have "\<exists>t w'. bump_thread w = Some (t, w') \<and> t \<notin> {t. unat t < w} \<and> {t. unat t < w'} = insert t {t. unat t < w} \<and> w' + n < 2 ^ 64" if "w + Suc n < 2 ^ 64" for n w
  proof -
    have u: "unat (of_nat w :: u64) = w" using that by (intro unat_of_nat64) simp
    have "x = of_nat w \<longleftrightarrow> unat x = w" for x :: u64 using u by (metis word_unat_eq_iff)
    then have "{t :: u64. unat t < Suc w} = insert (of_nat w) {t. unat t < w}" by (auto simp: less_Suc_eq)
    then show ?thesis using that u by (simp add: bump_thread_def)
  qed
  then show ?thesis unfolding thread_law_def by auto
qed

definition cold_ks :: "nat ks" where
  "cold_ks = (let f = \<lparr>f_rax = 0, f_rbx = 0, f_rcx = 0, f_rdx = 0, f_rdi = 0, f_rsi = 0, f_r8 = 0, f_r9 = 0, f_r10 = 0, f_r11 = 0, f_r12 = 0, f_r13 = 0, f_r14 = 0, f_r15 = 0, f_rbp = 0,
        f_code = 0, f_rip = 0, f_cs = 0, f_rflags = 0, f_rsp = 0, f_ss = 0\<rparr> in
     \<lparr>ks_thread = \<lambda>_. \<lparr>th_lock = False, th_wq = None, th_wqres = kWQSuccess, th_cpu = 0, th_state = kThreadRunnable, th_in_pagefault = False, th_kstack = 0, th_ustack = 0, th_task = 0,
        th_md = \<lparr>md_frame = f, md_fs = 0\<rparr>\<rparr>,
      ks_cpu = \<lambda>c. \<lparr>cpu_num = - 1, cpu_curthread = 5, cpu_idlethread = 0, cpu_runqueue = [], cpu_preempted = True, cpu_inInterrupt = True, cpu_timeslicer = c, cpu_pendingcallouts = [],
        cpu_lapic_id = 0, cpu_lapic_tps = 0, cpu_old = 0, cpu_lapic = \<lambda>_. 0, cpu_regs = f, cpu_fs = 0\<rparr>,
      ks_callout = \<lambda>_. \<lparr>co_callback = CbOther 0, co_arg = 0, co_nanosecs = 0, co_state = kCalloutPending\<rparr>, ks_wq = \<lambda>_. \<lparr>wq_lock = False, wq_waiters = []\<rparr>,
      ks_sem = \<lambda>_. \<lparr>sem_count = 0, sem_wq = 0\<rparr>, ks_task = \<lambda>_. \<lparr>task_name = [], task_map = 0, task_threads = []\<rparr>, ks_sched_lock = False, ks_ncpu = 0, ks_lastcpu = 0, ks_world = 10\<rparr>)"

theorem smp_init_correct_witness:
  "\<exists>s'. smp_init bump_thread 0 (\<lambda>c. of_nat c) (\<lambda>_ _. 30000) [1, 0] cold_ks = Some s' \<and> sched_ok 2 s'"
proof -
  have c: "cold cold_ks" by (simp add: cold_def cold_ks_def Let_def view_defs inj_def)
  have w: "ks_world cold_ks = 10" "curthread 0 cold_ks = 5" by (simp_all add: cold_ks_def Let_def curthread_def)
  have i: "ks_world cold_ks + 2 < 2 ^ 64" and t: "(5 :: u64) \<in> {t. unat t < ks_world cold_ks}" by (simp_all add: w)
  have cal: "\<forall>c i. i < 3 \<longrightarrow> (\<lambda>(_ :: cpu_ref) (_ :: nat). 30000 :: u32) c i < 0xffffffff" by simp
  have o: "distinct [1, 0 :: nat]" "set [1, 0 :: nat] = {0..<2}" by auto
  show ?thesis using smp_init_correct [OF bump_thread_law i cal c t w(2) o, of "\<lambda>c. of_nat c"] by blast
qed

end
