(* ===== verification/Exec.thy ===== *)
theory Exec
  imports Klib
begin

unbundle bit_operations_syntax

text \<open>
  The argument block of \<^verbatim>\<open>posix/exec.c\<close>: \<open>copyargs\<close> lays out the strings, the auxiliary vector and the two
  pointer arrays on the stack of the new program; \<open>copyout_strv\<close> copies a vector of strings into the
  kernel heap and \<open>strv_free\<close> passes it to \<^verbatim>\<open>kfree\<close>. Pointers and arrays of pointers are bytes of the memory,
  least significant byte first. \<^verbatim>\<open>kmalloc\<close> and \<^verbatim>\<open>kfree\<close> have no definition in the sources and are
  parameters. The copies of the strings come from \<^verbatim>\<open>strdup\<close>, which calls \<^verbatim>\<open>kmem_alloc\<close>: it is a second
  allocator and a parameter of its own.
\<close>

subsection \<open>Words in memory\<close>

fun load_le :: "mem \<Rightarrow> u64 \<Rightarrow> nat \<Rightarrow> u64" where
  "load_le m a 0 = 0"
| "load_le m a (Suc n) = ucast (m a) + 256 * load_le m (a + 1) n"

fun store_le :: "u64 \<Rightarrow> nat \<Rightarrow> u64 \<Rightarrow> mem \<Rightarrow> mem" where
  "store_le a 0 v m = m"
| "store_le a (Suc n) v m = store_le (a + 1) n (v div 256) (m(a := ucast v))"

abbreviation load64 :: "mem \<Rightarrow> u64 \<Rightarrow> u64" where
  "load64 m a \<equiv> load_le m a 8"

abbreviation store64 :: "u64 \<Rightarrow> u64 \<Rightarrow> mem \<Rightarrow> mem" where
  "store64 a v m \<equiv> store_le a 8 v m"

subsection \<open>The package and the argument block\<close>

record exec_package =
  pk_map :: nat
  pk_stack :: u64
  pk_sp :: u64
  pk_entry :: u64
  pk_phaddr :: u64
  pk_phentsize :: u64
  pk_phnum :: u64

definition AT_PHDR :: u64 where "AT_PHDR = 3"
definition AT_PHENT :: u64 where "AT_PHENT = 4"
definition AT_PHNUM :: u64 where "AT_PHNUM = 5"
definition AT_ENTRY :: u64 where "AT_ENTRY = 9"

text \<open>\<^verbatim>\<open>for (env = envp; *env; env++, nenv++)\<close>: the strings are pushed one below the other.\<close>

partial_function (option) push_strings :: "u64 \<Rightarrow> u64 \<Rightarrow> u64 \<Rightarrow> mem \<Rightarrow> (u64 \<times> u64 \<times> mem) option" where
  "push_strings env nenv stackp m =
     (if load64 m env = 0 then Some (nenv, stackp, m)
      else do {
        n \<leftarrow> strlen m (load64 m env);
        let stackp' = stackp - (n + 1);
        (_, m') \<leftarrow> strcpy stackp' (load64 m env) m;
        push_strings (env + 8) (nenv + 1) stackp' m'
      })"

text \<open>\<^verbatim>\<open>for (int i = 0; i < nenv; i++)\<close>, the second pass: \<open>k\<close> rounds are left.\<close>

fun point_strings :: "nat \<Rightarrow> u64 \<Rightarrow> u64 \<Rightarrow> u64 \<Rightarrow> mem \<Rightarrow> (u64 \<times> mem) option" where
  "point_strings 0 envp slot stackp m = Some (stackp, m)"
| "point_strings (Suc k) envp slot stackp m = do {
     n \<leftarrow> strlen m (load64 m envp);
     let stackp' = stackp - (n + 1);
     point_strings k (envp + 8) (slot + 8) stackp' (store64 slot stackp' m)
   }"

text \<open>\<^verbatim>\<open>*--stackpu64 = v\<close> and the macro \<^verbatim>\<open>AUXV\<close>.\<close>

definition push64 :: "u64 \<Rightarrow> u64 \<times> mem \<Rightarrow> u64 \<times> mem" where
  "push64 v = (\<lambda>(p, m). (p - 8, store64 (p - 8) v m))"

definition AUXV :: "u64 \<Rightarrow> u64 \<Rightarrow> u64 \<times> mem \<Rightarrow> u64 \<times> mem" where
  "AUXV tag v pm = push64 tag (push64 v pm)"

definition push_auxv :: "exec_package \<Rightarrow> u64 \<times> mem \<Rightarrow> u64 \<times> mem" where
  "push_auxv pkg pm =
     AUXV AT_PHNUM (pk_phnum pkg) (AUXV AT_PHENT (pk_phentsize pkg) (AUXV AT_PHDR (pk_phaddr pkg)
       (AUXV AT_ENTRY (pk_entry pkg) (AUXV 0 0 pm))))"

text \<open>The words of the block, from the auxiliary vector at the top to the count at the bottom.\<close>

definition push_block :: "exec_package \<Rightarrow> u64 \<Rightarrow> u64 \<Rightarrow> u64 \<Rightarrow> u64 \<Rightarrow> u64 \<Rightarrow> mem \<Rightarrow> (u64 \<times> mem) option" where
  "push_block pkg narg nenv argp envp p1 m = do {
     let (p2, m3) = push64 0 (push_auxv pkg (p1, m));
     let p3 = p2 - 8 * nenv;
     (stackp3, m4) \<leftarrow> point_strings (unat nenv) envp p3 (pk_stack pkg) m3;
     let (p4, m5) = push64 0 (p3, m4);
     let p5 = p4 - 8 * narg;
     (_, m6) \<leftarrow> point_strings (unat narg) argp p5 stackp3 m5;
     Some (push64 narg (p5, m6))
   }"

definition copyargs :: "exec_package \<Rightarrow> u64 \<Rightarrow> u64 \<Rightarrow> mem \<Rightarrow> ((int \<times> exec_package) \<times> mem) option" where
  "copyargs pkg argp envp m = do {
     (nenv, stackp1, m1) \<leftarrow> push_strings envp 0 (pk_stack pkg) m;
     (narg, stackp2, m2) \<leftarrow> push_strings argp 0 stackp1 m1;
     let p = stackp2 - (stackp2 AND 15);
     let p1 = (if (narg + nenv + 3) mod 2 \<noteq> 0 then p - 8 else p);
     (sp, m7) \<leftarrow> push_block pkg narg nenv argp envp p1 m2;
     Some ((0, pkg\<lparr>pk_sp := sp\<rparr>), m7)
   }"

subsection \<open>Vectors of strings in the heap\<close>

text \<open>
  \<^verbatim>\<open>while (true) if (user_strv[cnt++] == NULL) break;\<close> with an \<^verbatim>\<open>int\<close> counter, whose overflow has no defined
  behaviour: the model stops.
\<close>

partial_function (option) count_strv :: "mem \<Rightarrow> u64 \<Rightarrow> u64 \<Rightarrow> u64 option" where
  "count_strv m v cnt =
     (if cnt = 0x7fffffff then None
      else if load64 m v = 0 then Some (cnt + 1) else count_strv m (v + 8) (cnt + 1))"

text \<open>\<^verbatim>\<open>while (strv[cnt] != NULL) { strv[cnt] = strdup(strv[cnt]); cnt++; }\<close>\<close>

partial_function (option) dup_strings ::
  "(u64 \<Rightarrow> 's \<Rightarrow> (u64 \<times> 's) option) \<Rightarrow> u64 \<Rightarrow> mem \<times> 's \<Rightarrow> (mem \<times> 's) option" where
  "dup_strings kmem_alloc v ms =
     (if load64 (fst ms) v = 0 then Some ms
      else do {
        (q, m, s) \<leftarrow> strdup kmem_alloc (load64 (fst ms) v) ms;
        dup_strings kmem_alloc (v + 8) (store64 v q m, s)
      })"

definition copyout_strv ::
  "(u64 \<Rightarrow> 's \<Rightarrow> (u64 \<times> 's) option) \<Rightarrow> (u64 \<Rightarrow> 's \<Rightarrow> (u64 \<times> 's) option) \<Rightarrow> u64 \<Rightarrow> mem \<times> 's \<Rightarrow> ((int \<times> u64) \<times> mem \<times> 's) option" where
  "copyout_strv kmalloc kmem_alloc user_strv = (\<lambda>(m, s). do {
     cnt \<leftarrow> count_strv m user_strv 0;
     (v, s1) \<leftarrow> kmalloc (8 * cnt) s;
     let (_, m1) = memcpy v user_strv (8 * cnt) m;
     (m2, s2) \<leftarrow> dup_strings kmem_alloc v (m1, s1);
     Some ((0, v), m2, s2)
   })"

partial_function (option) free_strings :: "(u64 \<Rightarrow> 's \<Rightarrow> 's option) \<Rightarrow> u64 \<Rightarrow> mem \<times> 's \<Rightarrow> (mem \<times> 's) option" where
  "free_strings kfree ptr ms =
     (if load64 (fst ms) ptr = 0 then Some ms
      else do {
        s \<leftarrow> kfree (load64 (fst ms) ptr) (snd ms);
        free_strings kfree (ptr + 8) (fst ms, s)
      })"

definition strv_free :: "(u64 \<Rightarrow> 's \<Rightarrow> 's option) \<Rightarrow> u64 \<Rightarrow> mem \<times> 's \<Rightarrow> (mem \<times> 's) option" where
  "strv_free kfree v ms =
     (if load64 (fst ms) v = 0 then Some ms
      else do {
        (m, s) \<leftarrow> free_strings kfree v ms;
        s' \<leftarrow> kfree v s;
        Some (m, s')
      })"

subsection \<open>Loads and stores\<close>

text \<open>Two memories that agree outside the addresses from \<open>lo\<close> up to \<open>hi\<close>.\<close>

definition agree_off :: "nat \<Rightarrow> nat \<Rightarrow> mem \<Rightarrow> mem \<Rightarrow> bool" where
  "agree_off lo hi m m' \<longleftrightarrow> (\<forall>x. unat x < lo \<or> hi \<le> unat x \<longrightarrow> m' x = m x)"

text \<open>The \<open>n\<close> bytes at \<open>a\<close> stay within the address space and outside \<open>lo\<close> to \<open>hi\<close>.\<close>

definition clear_of :: "nat \<Rightarrow> nat \<Rightarrow> u64 \<Rightarrow> nat \<Rightarrow> bool" where
  "clear_of lo hi a n \<longleftrightarrow> unat a + n \<le> W64 \<and> (unat a + n \<le> lo \<or> hi \<le> unat a)"

lemma agree_off_refl [simp]: "agree_off lo hi m m"
  by (simp add: agree_off_def)

lemma agree_off_trans: "agree_off lo hi m m' \<Longrightarrow> agree_off lo hi m' m'' \<Longrightarrow> agree_off lo hi m m''"
  by (simp add: agree_off_def)

lemma agree_off_mono: "agree_off lo hi m m' \<Longrightarrow> lo' \<le> lo \<Longrightarrow> hi \<le> hi' \<Longrightarrow> agree_off lo' hi' m m'"
  by (auto simp: agree_off_def)

lemma clear_of_mono: "clear_of lo hi a n \<Longrightarrow> lo \<le> lo' \<Longrightarrow> hi' \<le> hi \<Longrightarrow> clear_of lo' hi' a n"
  by (auto simp: clear_of_def)

lemma clear_of_at:
  assumes "clear_of lo hi a n" and "i < n" and "agree_off lo hi m m'"
  shows "m' (a + of_nat i) = m (a + of_nat i)"
proof -
  have "unat (a + of_nat i) = unat a + i"
    using assms(1,2) offset_unat [of a n i] by (simp add: clear_of_def)
  then show ?thesis using assms by (auto simp: agree_off_def clear_of_def)
qed

lemma load_le_shift:
  "(\<And>i. i < n \<Longrightarrow> m' (b + of_nat i) = m (a + of_nat i)) \<Longrightarrow> load_le m' b n = load_le m a n"
proof (induction n arbitrary: a b)
  case (Suc n)
  have "load_le m' (b + 1) n = load_le m (a + 1) n"
    using Suc.IH [of "b + 1" "a + 1"] Suc.prems [of "Suc i" for i] by (simp add: algebra_simps)
  then show ?case using Suc.prems [of 0] by simp
qed simp

lemmas load_le_cong = load_le_shift [where b = a and a = a for a]

lemma load_agree: "clear_of lo hi a n \<Longrightarrow> agree_off lo hi m m' \<Longrightarrow> load_le m' a n = load_le m a n"
  by (rule load_le_cong) (rule clear_of_at)

lemma cstr_agree:
  "cstr m a cs \<Longrightarrow> clear_of lo hi a (Suc (length cs)) \<Longrightarrow> agree_off lo hi m m' \<Longrightarrow> cstr m' a cs"
  by (simp add: cstr_def clear_of_at)

lemma store_agree: "unat a + n \<le> W64 \<Longrightarrow> agree_off (unat a) (unat a + n) m (store_le a n v m)"
proof (induction n arbitrary: a v m)
  case (Suc n)
  show ?case
  proof (cases "n = 0")
    case False
    then have a: "unat (a + 1) = unat a + 1" using Suc.prems by (simp add: word_nat)
    define m1 where "m1 = m(a := ucast v)"
    have "agree_off (unat a) (unat a + Suc n) m m1" by (auto simp: agree_off_def m1_def)
    moreover have "agree_off (unat a) (unat a + Suc n) m1 (store_le (a + 1) n (v div 256) m1)"
      using Suc.IH [of "a + 1" m1 "v div 256"] Suc.prems unfolding a by (auto elim: agree_off_mono)
    ultimately show ?thesis unfolding m1_def by (auto intro: agree_off_trans)
  qed (auto simp: agree_off_def)
qed simp

lemma byte_split: "ucast (ucast v :: u8) + 256 * (v div 256) = (v :: u64)"
proof -
  have "(ucast (ucast v :: u8) :: u64) = take_bit 8 v"
    by (simp add: unsigned_ucast_eq)
  moreover have "v div 256 = drop_bit 8 v" by (simp add: drop_bit_eq_div)
  ultimately show ?thesis using bits_ident [of 8 v] by (simp add: push_bit_eq_mult mult.commute add.commute)
qed

lemma load_store_le:
  "unat a + n \<le> W64 \<Longrightarrow> unat v < 256 ^ n \<Longrightarrow> load_le (store_le a n v m) a n = v"
proof (induction n arbitrary: a v m)
  case (Suc n)
  let ?m = "m(a := ucast v)"
  show ?case
  proof (cases "n = 0")
    case True
    then show ?thesis using Suc.prems byte_split [of v] by (simp add: word_less_nat_alt div_word_less)
  next
    case False
    then have a: "unat (a + 1) = unat a + 1" using Suc.prems by (simp add: word_nat)
    have "unat (v div 256) < 256 ^ n" using Suc.prems(2) by (simp add: unat_div less_mult_imp_div_less mult.commute)
    then have "load_le (store_le (a + 1) n (v div 256) ?m) (a + 1) n = v div 256"
      using Suc.IH [of "a + 1" "v div 256"] Suc.prems a by simp
    moreover have "store_le (a + 1) n (v div 256) ?m a = ucast v"
      using store_agree [of "a + 1" n ?m "v div 256"] Suc.prems a by (simp add: agree_off_def)
    ultimately show ?thesis using byte_split [of v] by simp
  qed
qed (simp add: unat_eq_zero)

lemma load_store64: "unat a + 8 \<le> W64 \<Longrightarrow> load64 (store64 a v m) a = v"
  using load_store_le [of a 8 v m] by simp

subsection \<open>Pushing strings\<close>

text \<open>
  A vector of strings at \<open>v\<close>, ended by a null pointer, whose array and strings lie outside the
  addresses from \<open>lo\<close> up to \<open>hi\<close>.
\<close>

fun strv :: "nat \<Rightarrow> nat \<Rightarrow> mem \<Rightarrow> u64 \<Rightarrow> u8 list list \<Rightarrow> bool" where
  "strv lo hi m v [] \<longleftrightarrow> clear_of lo hi v 8 \<and> load64 m v = 0"
| "strv lo hi m v (s # ss) \<longleftrightarrow> clear_of lo hi v 8 \<and> load64 m v \<noteq> 0 \<and> cstr m (load64 m v) s \<and>
     clear_of lo hi (load64 m v) (Suc (length s)) \<and> strv lo hi m (v + 8) ss"

lemma strv_agree: "strv lo hi m v ss \<Longrightarrow> agree_off lo hi m m' \<Longrightarrow> strv lo hi m' v ss"
proof (induction ss arbitrary: v)
  case Nil
  then show ?case using load_agree [of lo hi v 8 m m'] by simp
next
  case (Cons s ss)
  have "load64 m' v = load64 m v" using load_agree [of lo hi v 8 m m'] Cons.prems by simp
  then show ?case using Cons cstr_agree [of m "load64 m v" s lo hi m'] by simp
qed

text \<open>The room the strings take and the addresses they get, from the top of the stack down.\<close>

definition strs_size :: "u8 list list \<Rightarrow> nat" where
  "strs_size ss = sum_list (map (\<lambda>s. Suc (length s)) ss)"

fun str_addrs :: "u64 \<Rightarrow> u8 list list \<Rightarrow> u64 list" where
  "str_addrs stack [] = []"
| "str_addrs stack (s # ss) =
     (stack - of_nat (Suc (length s))) # str_addrs (stack - of_nat (Suc (length s))) ss"

abbreviation strs_at :: "mem \<Rightarrow> u64 \<Rightarrow> u8 list list \<Rightarrow> bool" where
  "strs_at m stack ss \<equiv> list_all2 (cstr m) (str_addrs stack ss) ss"

lemma strs_size_simps [simp]: "strs_size [] = 0" "strs_size (s # ss) = Suc (length s) + strs_size ss"
  by (simp_all add: strs_size_def)

lemma strs_size_append [simp]: "strs_size (xs @ ys) = strs_size xs + strs_size ys"
  by (simp add: strs_size_def)

lemma length_str_addrs [simp]: "length (str_addrs stack ss) = length ss"
  by (induction ss arbitrary: stack) simp_all

lemma unat_sub_of_nat: "n \<le> unat (x :: u64) \<Longrightarrow> unat (x - of_nat n) = unat x - n"
proof -
  assume n: "n \<le> unat x"
  then have "unat (of_nat n :: u64) = n" using unat_bound64 [of x] by (intro unat_of_nat64) linarith
  then show ?thesis using n by (simp add: unat_sub_nowrap word_le_nat_alt)
qed

lemma unat_le_W64 [simp]: "unat (x :: u64) \<le> W64"
  using unat_bound64 [of x] by (rule less_imp_le)

lemma str_addrs_append:
  "str_addrs stack (xs @ ys) = str_addrs stack xs @ str_addrs (stack - of_nat (strs_size xs)) ys"
  by (induction xs arbitrary: stack) (simp_all add: algebra_simps)

lemma strs_at_agree:
  assumes "strs_at m stack ss" and "strs_size ss \<le> unat stack" and "agree_off lo hi m m'"
    and "hi \<le> unat stack - strs_size ss \<or> unat stack \<le> lo"
  shows "strs_at m' stack ss"
  using assms(1,2,4)
proof (induction ss arbitrary: stack rule: list.induct)
  case (Cons s ss)
  let ?a = "stack - of_nat (Suc (length s))"
  have a: "unat ?a = unat stack - Suc (length s)" using Cons.prems(2) by (intro unat_sub_of_nat) simp
  then have "clear_of lo hi ?a (Suc (length s))"
    using Cons.prems(2,3) by (auto simp: clear_of_def)
  moreover have "cstr m ?a s" using Cons.prems(1) by simp
  ultimately have "cstr m' ?a s" using assms(3) by (blast intro: cstr_agree)
  moreover have "strs_at m' ?a ss" by (rule Cons.IH) (use Cons.prems a in auto)
  ultimately show ?case by simp
qed simp

lemma in_region_unat: "unat a + n \<le> W64 \<Longrightarrow> in_region a n x \<longleftrightarrow> unat a \<le> unat x \<and> unat x < unat a + n"
proof (cases "a \<le> x")
  case True
  then show ?thesis by (auto simp: in_region_def word_le_nat_alt unat_sub_nowrap)
next
  case False
  assume n: "unat a + n \<le> W64"
  have "\<not> unat (x - a) < n"
  proof
    assume "unat (x - a) < n"
    then have "unat (a + (x - a)) = unat a + unat (x - a)" using n by (intro unat_add_nowrap) simp
    then show False using False by (simp add: word_le_nat_alt)
  qed
  then show ?thesis using False by (simp add: in_region_def word_le_nat_alt)
qed

lemma strcpy_clear:
  assumes "cstr m src s" and "clear_of lo hi src (Suc (length s))"
    and "lo \<le> unat a" and "unat a + Suc (length s) \<le> hi" and "hi \<le> W64"
  shows "\<exists>m'. strcpy a src m = Some (a + of_nat (length s) + 1, m') \<and>
    agree_off (unat a) (unat a + Suc (length s)) m m' \<and> cstr m' a s"
proof -
  let ?n = "Suc (length s)"
  have at: "unat (a + of_nat j) = unat a + j" if "j < ?n" for j
    using offset_unat [of a ?n j] that assms(4,5) by simp
  have src: "unat (src + of_nat i) = unat src + i" if "i < ?n" for i
    using offset_unat [of src ?n i] that assms(2) by (simp add: clear_of_def)
  have no: "a + of_nat j \<noteq> src + of_nat i" if "j < ?n" "i < ?n" for i j
  proof
    assume "a + of_nat j = src + of_nat i"
    then have "unat a + j = unat src + i" using at [OF that(1)] src [OF that(2)] by simp
    then show False using assms(2-4) that by (auto simp: clear_of_def)
  qed
  have "copy_up a src ?n m = moved a src ?n m"
    by (rule copy_up_moved) (use no assms(4,5) in auto)
  then have "strcpy a src m = Some (a + of_nat (length s) + 1, moved a src ?n m)"
    using strcpy_copy_up [OF assms(1), of a] no by simp
  moreover have "agree_off (unat a) (unat a + ?n) m (moved a src ?n m)"
    using in_region_unat [of a ?n] assms(4,5) by (auto simp: agree_off_def moved_def)
  moreover have "moved a src ?n m (a + of_nat i) = m (src + of_nat i)" if "i < ?n" for i
    using in_region_unat [of a ?n "a + of_nat i"] at [OF that] that assms(4,5) by (simp add: moved_def)
  then have "cstr (moved a src ?n m) a s" using assms(1) by (simp add: cstr_def)
  ultimately show ?thesis by blast
qed

lemma push_strings_correct:
  assumes "strv lo hi m v ss" and "lo + strs_size ss \<le> unat stack" and "unat stack \<le> hi" and "hi \<le> W64"
  shows "\<exists>m'. push_strings v k stack m = Some (k + of_nat (length ss), stack - of_nat (strs_size ss), m') \<and>
    agree_off (unat stack - strs_size ss) (unat stack) m m' \<and> strs_at m' stack ss"
  using assms(1-3)
proof (induction ss arbitrary: v k stack m)
  case Nil
  then show ?case by (subst push_strings.simps) simp
next
  case (Cons s ss)
  let ?n = "Suc (length s)" and ?p = "load64 m v"
  let ?a = "stack - of_nat ?n"
  have p: "?p \<noteq> 0" "cstr m ?p s" "clear_of lo hi ?p ?n" "strv lo hi m (v + 8) ss" using Cons.prems(1) by simp_all
  have a: "unat ?a = unat stack - ?n" using Cons.prems(2) by (intro unat_sub_of_nat) simp
  obtain m1 where m1: "strcpy ?a ?p m = Some (?a + of_nat (length s) + 1, m1)"
      "agree_off (unat ?a) (unat stack) m m1" "cstr m1 ?a s"
  proof -
    have "lo \<le> unat ?a" "unat ?a + ?n = unat stack" "unat ?a + ?n \<le> hi" using Cons.prems(2,3) a by simp_all
    then show ?thesis using strcpy_clear [OF p(2,3), of ?a] assms(4) that by auto
  qed
  have "strv lo hi m1 (v + 8) ss"
    by (rule strv_agree [OF p(4) agree_off_mono [OF m1(2)]]) (use a Cons.prems in auto)
  moreover have "lo + strs_size ss \<le> unat ?a" "unat ?a \<le> hi" using Cons.prems(2,3) a by simp_all
  ultimately obtain m2 where
      m2: "push_strings (v + 8) (k + 1) ?a m1 = Some (k + 1 + of_nat (length ss), ?a - of_nat (strs_size ss), m2)"
        "agree_off (unat ?a - strs_size ss) (unat ?a) m1 m2" "strs_at m2 ?a ss"
    using Cons.IH [of m1 "v + 8" ?a "k + 1"] by blast
  have run: "push_strings v k stack m = push_strings (v + 8) (k + 1) ?a m1"
    using p m1(1) by (subst push_strings.simps) (simp add: strlen_cstr [OF p(2)] Let_def algebra_simps)
  have "agree_off (unat stack - strs_size (s # ss)) (unat stack) m m2"
    by (rule agree_off_trans [OF agree_off_mono [OF m1(2)] agree_off_mono [OF m2(2)]]) (use a in simp_all)
  moreover have "cstr m2 ?a s"
    by (rule cstr_agree [OF m1(3) _ m2(2)]) (use a Cons.prems(2) in \<open>auto simp: clear_of_def\<close>)
  ultimately show ?case using run m2 by (simp add: algebra_simps)
qed

subsection \<open>Pushing words\<close>

fun words_at :: "mem \<Rightarrow> u64 \<Rightarrow> u64 list \<Rightarrow> bool" where
  "words_at m p [] \<longleftrightarrow> True"
| "words_at m p (w # ws) \<longleftrightarrow> load64 m p = w \<and> words_at m (p + 8) ws"

lemma words_at_append:
  "words_at m p (xs @ ys) \<longleftrightarrow> words_at m p xs \<and> words_at m (p + 8 * of_nat (length xs)) ys"
  by (induction xs arbitrary: p) (simp_all add: algebra_simps)

lemma clear_of_Suc:
  assumes "clear_of lo hi p (8 + n)"
  shows "clear_of lo hi p 8 \<and> (0 < n \<longrightarrow> clear_of lo hi (p + 8) n)"
proof -
  have "unat (p + 8) = unat p + 8" if "0 < n"
    using assms that by (subst unat_add_nowrap) (simp_all add: clear_of_def)
  then show ?thesis using assms by (auto simp: clear_of_def)
qed

lemma words_at_agree:
  "words_at m p ws \<Longrightarrow> clear_of lo hi p (8 * length ws) \<Longrightarrow> agree_off lo hi m m' \<Longrightarrow> words_at m' p ws"
proof (induction ws arbitrary: p)
  case (Cons w ws)
  have c: "clear_of lo hi p 8" "ws \<noteq> [] \<Longrightarrow> clear_of lo hi (p + 8) (8 * length ws)"
    using clear_of_Suc [of lo hi p "8 * length ws"] Cons.prems(2) by auto
  have "load64 m' p = load64 m p" by (rule load_agree [OF c(1) Cons.prems(3)])
  moreover have "words_at m' (p + 8) ws" using Cons.IH [of "p + 8"] Cons.prems c(2) by (cases "ws = []") auto
  ultimately show ?case using Cons.prems(1) by simp
qed simp

lemma unat_minus8: "8 \<le> unat (p :: u64) \<Longrightarrow> unat (p - 8) = unat p - 8"
  using unat_sub_of_nat [of 8 p] by simp

lemma push64_correct:
  assumes "words_at m p ws" and "8 \<le> unat p" and "unat p + 8 * length ws \<le> W64"
  obtains m' where "push64 v (p, m) = (p - 8, m')" and "words_at m' (p - 8) (v # ws)"
    and "agree_off (unat p - 8) (unat p) m m'"
proof -
  let ?m = "store64 (p - 8) v m"
  have p: "unat (p - 8) = unat p - 8" by (rule unat_minus8 [OF assms(2)])
  have "load64 ?m (p - 8) = v" by (rule load_store64) (use p assms(2) in simp)
  moreover have a: "agree_off (unat p - 8) (unat p) m ?m"
    using store_agree [of "p - 8" 8 m v] p assms(2) by simp
  moreover have "words_at ?m p ws"
    by (rule words_at_agree [OF assms(1) _ a]) (use assms(3) in \<open>simp add: clear_of_def\<close>)
  ultimately show ?thesis using that [of ?m] by (simp add: push64_def)
qed

lemma fold_push64_correct:
  assumes "words_at m p ws" and "8 * length vs \<le> unat p" and "unat p + 8 * length ws \<le> W64"
  shows "\<exists>m'. fold push64 vs (p, m) = (p - 8 * of_nat (length vs), m') \<and>
    words_at m' (p - 8 * of_nat (length vs)) (rev vs @ ws) \<and> agree_off (unat p - 8 * length vs) (unat p) m m'"
  using assms
proof (induction vs arbitrary: p m ws)
  case (Cons v vs)
  have p: "8 \<le> unat p" "unat (p - 8) = unat p - 8" using Cons.prems(2) by (simp_all add: unat_minus8)
  obtain m1 where m1: "push64 v (p, m) = (p - 8, m1)" "words_at m1 (p - 8) (v # ws)" "agree_off (unat p - 8) (unat p) m m1"
    using push64_correct [OF Cons.prems(1) p(1) Cons.prems(3)] by blast
  have "8 * length vs \<le> unat (p - 8)" "unat (p - 8) + 8 * length (v # ws) \<le> W64" using p Cons.prems(2,3) by simp_all
  from Cons.IH [OF m1(2) this] obtain m2 where
    m2: "fold push64 vs (p - 8, m1) = (p - 8 - 8 * of_nat (length vs), m2)"
      "words_at m2 (p - 8 - 8 * of_nat (length vs)) (rev vs @ v # ws)"
      "agree_off (unat (p - 8) - 8 * length vs) (unat (p - 8)) m1 m2"
    by blast
  have "agree_off (unat p - 8 * length (v # vs)) (unat p) m m2"
    by (rule agree_off_trans [OF agree_off_mono [OF m1(3)] agree_off_mono [OF m2(3)]]) (use p in simp_all)
  then show ?case using m1(1) m2(1,2) by (simp add: algebra_simps)
qed simp

definition auxv :: "exec_package \<Rightarrow> u64 list" where
  "auxv pkg = [AT_PHNUM, pk_phnum pkg, AT_PHENT, pk_phentsize pkg, AT_PHDR, pk_phaddr pkg, AT_ENTRY, pk_entry pkg, 0, 0]"

lemma length_auxv [simp]: "length (auxv pkg) = 10"
  by (simp add: auxv_def)

lemma push_auxv_fold: "push_auxv pkg pm = fold push64 (rev (auxv pkg)) pm"
  by (simp add: push_auxv_def AUXV_def auxv_def)

lemma point_strings_correct:
  assumes "strv lo hi m v ss" and "lo \<le> unat slot" and "unat slot + 8 * length ss \<le> hi" and "hi \<le> W64"
  shows "\<exists>m'. point_strings (length ss) v slot stack m = Some (stack - of_nat (strs_size ss), m') \<and>
    words_at m' slot (str_addrs stack ss) \<and> agree_off (unat slot) (unat slot + 8 * length ss) m m'"
  using assms(1-3)
proof (induction ss arbitrary: v slot stack m)
  case (Cons s ss)
  let ?p = "load64 m v"
  let ?a = "stack - of_nat (Suc (length s))"
  let ?m = "store64 slot ?a m"
  have p: "cstr m ?p s" "strv lo hi m (v + 8) ss" using Cons.prems(1) by simp_all
  have ag: "agree_off (unat slot) (unat slot + 8) m ?m" using store_agree [of slot 8 m ?a] Cons.prems assms(4) by simp
  have sv: "strv lo hi ?m (v + 8) ss"
    by (rule strv_agree [OF p(2) agree_off_mono [OF ag]]) (use Cons.prems in auto)
  have run: "point_strings (length (s # ss)) v slot stack m = point_strings (length ss) (v + 8) (slot + 8) ?a ?m"
    by (simp add: strlen_cstr [OF p(1)] Let_def algebra_simps)
  have ld: "load64 ?m slot = ?a" by (rule load_store64) (use Cons.prems assms(4) in simp)
  show ?case
  proof (cases "ss = []")
    case True
    then show ?thesis using run ld ag by simp
  next
    case False
    then have sl: "unat (slot + 8) = unat slot + 8"
      using Cons.prems(3) assms(4) by (subst unat_add_nowrap) (auto simp: neq_Nil_conv)
    from Cons.IH [OF sv, of "slot + 8" ?a] sl Cons.prems(2,3) obtain m2 where
      m2: "point_strings (length ss) (v + 8) (slot + 8) ?a ?m = Some (?a - of_nat (strs_size ss), m2)"
        "words_at m2 (slot + 8) (str_addrs ?a ss)" "agree_off (unat slot + 8) (unat slot + 8 + 8 * length ss) ?m m2"
      by auto
    have "load64 m2 slot = load64 ?m slot"
      by (rule load_agree [OF _ m2(3)]) (use Cons.prems assms(4) in \<open>simp add: clear_of_def\<close>)
    moreover have "agree_off (unat slot) (unat slot + 8 * length (s # ss)) m m2"
      by (rule agree_off_trans [OF agree_off_mono [OF ag] agree_off_mono [OF m2(3)]]) simp_all
    ultimately show ?thesis using run m2 ld by (simp add: algebra_simps)
  qed
qed simp

lemma push_pointers:
  assumes "strv lo hi m v ss" and "words_at m p ws" and "lo + 8 * length ss \<le> unat p" and "unat p \<le> hi"
    and "hi \<le> W64" and "unat p + 8 * length ws \<le> W64"
  obtains m' where
    "point_strings (length ss) v (p - 8 * of_nat (length ss)) stack m = Some (stack - of_nat (strs_size ss), m')"
    and "words_at m' (p - 8 * of_nat (length ss)) (str_addrs stack ss @ ws)"
    and "agree_off (unat p - 8 * length ss) (unat p) m m'"
proof -
  let ?p = "p - 8 * of_nat (length ss)"
  have p: "unat ?p = unat p - 8 * length ss" using unat_sub_of_nat [of "8 * length ss" p] assms(3) by simp
  then have "lo \<le> unat ?p" "unat ?p + 8 * length ss \<le> hi" "unat ?p + 8 * length ss = unat p"
    using assms(3,4) by simp_all
  from point_strings_correct [OF assms(1) this(1,2) assms(5), of stack] this(3) p obtain m' where
    m': "point_strings (length ss) v ?p stack m = Some (stack - of_nat (strs_size ss), m')"
      "words_at m' ?p (str_addrs stack ss)" "agree_off (unat p - 8 * length ss) (unat p) m m'"
    by auto
  have "words_at m' p ws"
    by (rule words_at_agree [OF assms(2) _ m'(3)]) (use assms(6) in \<open>simp add: clear_of_def\<close>)
  then show ?thesis using that m' by (simp add: words_at_append)
qed

text \<open>A null pointer and below it the pointers to the strings of a vector.\<close>

lemma push_vector:
  assumes "strv lo hi m v ss" and "words_at m p ws" and "lo + 8 * Suc (length ss) \<le> unat p" and "unat p \<le> hi"
    and "hi \<le> W64" and "unat p + 8 * length ws \<le> W64"
  defines "q \<equiv> p - 8 - 8 * of_nat (length ss)"
  obtains m1 m' where "push64 0 (p, m) = (p - 8, m1)"
    and "point_strings (length ss) v q stack m1 = Some (stack - of_nat (strs_size ss), m')"
    and "words_at m' q (str_addrs stack ss @ 0 # ws)" and "agree_off (unat q) (unat p) m m'"
    and "unat q = unat p - 8 * Suc (length ss)"
proof -
  have p: "8 \<le> unat p" "unat (p - 8) = unat p - 8" using assms(3) by (simp_all add: unat_minus8)
  obtain m1 where m1: "push64 0 (p, m) = (p - 8, m1)" "words_at m1 (p - 8) (0 # ws)" "agree_off (unat p - 8) (unat p) m m1"
    using push64_correct [OF assms(2) p(1) assms(6)] by blast
  have "strv lo hi m1 v ss" by (rule strv_agree [OF assms(1) agree_off_mono [OF m1(3)]]) (use assms(3,4) in auto)
  moreover have "lo + 8 * length ss \<le> unat (p - 8)" "unat (p - 8) \<le> hi" "unat (p - 8) + 8 * length (0 # ws) \<le> W64"
    using assms(3,4,6) p by simp_all
  ultimately obtain m' where m': "point_strings (length ss) v q stack m1 = Some (stack - of_nat (strs_size ss), m')"
      "words_at m' q (str_addrs stack ss @ 0 # ws)" "agree_off (unat (p - 8) - 8 * length ss) (unat (p - 8)) m1 m'"
    using push_pointers [OF _ m1(2) _ _ assms(5), of lo v ss stack] unfolding q_def by blast
  have q: "unat q = unat p - 8 * Suc (length ss)"
    using unat_sub_of_nat [of "8 * length ss" "p - 8"] assms(3) p by (simp add: q_def)
  have "agree_off (unat q) (unat p) m m'"
    by (rule agree_off_trans [OF agree_off_mono [OF m1(3)] agree_off_mono [OF m'(3)]]) (use p q in simp_all)
  then show ?thesis using that m1(1) m'(1,2) q by blast
qed

definition arg_words :: "exec_package \<Rightarrow> u64 list \<Rightarrow> u64 list \<Rightarrow> u64 list" where
  "arg_words pkg argv envv = of_nat (length argv) # argv @ 0 # envv @ 0 # auxv pkg"

lemma push_block_correct:
  assumes "strv lo hi m envp es" and "strv lo hi m argp as" and "unat p \<le> hi" and "hi \<le> W64"
    and "lo + 8 * (13 + length es + length as) \<le> unat p"
  defines "sp \<equiv> p - 8 * of_nat (13 + length es + length as)"
  shows "\<exists>m'. push_block pkg (of_nat (length as)) (of_nat (length es)) argp envp p m = Some (sp, m') \<and>
    words_at m' sp (arg_words pkg (str_addrs (pk_stack pkg - of_nat (strs_size es)) as) (str_addrs (pk_stack pkg) es)) \<and>
    agree_off (unat sp) (unat p) m m'"
proof -
  let ?S = "pk_stack pkg" and ?na = "length as" and ?ne = "length es"
  let ?A = "?S - of_nat (strs_size es)"
  have "?na < W64" by (rule le_less_trans [OF _ unat_bound64 [of p]]) (use assms(5) in simp)
  moreover have "?ne < W64" by (rule le_less_trans [OF _ unat_bound64 [of p]]) (use assms(5) in simp)
  ultimately have small: "unat (of_nat ?na :: u64) = ?na" "unat (of_nat ?ne :: u64) = ?ne"
    by (simp_all del: unat_of_nat add: unat_of_nat64)
  have "8 * length (rev (auxv pkg)) \<le> unat p" "unat p + 8 * length ([] :: u64 list) \<le> W64"
    using assms(5) by simp_all
  from fold_push64_correct [OF words_at.simps(1) [THEN iffD2, OF TrueI] this, of m]
  obtain m3 where m3: "push_auxv pkg (p, m) = (p - 80, m3)" "words_at m3 (p - 80) (auxv pkg)"
      "agree_off (unat p - 80) (unat p) m m3"
    by (auto simp: push_auxv_fold)
  define p2 where "p2 = p - 80"
  have p2: "unat p2 = unat p - 80" using unat_sub_of_nat [of 80 p] assms(5) by (simp add: p2_def)
  have m03: "agree_off lo hi m m3" by (rule agree_off_mono [OF m3(3)]) (use assms(3,5) in simp_all)
  define p3 where "p3 = p2 - 8 - 8 * of_nat ?ne"
  have "lo + 8 * Suc ?ne \<le> unat p2" "unat p2 \<le> hi" "unat p2 + 8 * length (auxv pkg) \<le> W64"
    using assms(3,5) p2 by simp_all
  from push_vector [OF strv_agree [OF assms(1) m03] m3(2) [folded p2_def] this(1,2) assms(4) this(3), of ?S]
  obtain m4 m4' where m4: "push64 0 (p2, m3) = (p2 - 8, m4)" "point_strings ?ne envp p3 ?S m4 = Some (?A, m4')"
      "words_at m4' p3 (str_addrs ?S es @ 0 # auxv pkg)" "agree_off (unat p3) (unat p2) m3 m4'"
      "unat p3 = unat p2 - 8 * Suc ?ne"
    unfolding p3_def by blast
  have m34: "agree_off lo hi m3 m4'" by (rule agree_off_mono [OF m4(4)]) (use assms(3,5) p2 m4(5) in simp_all)
  define p5 where "p5 = p3 - 8 - 8 * of_nat ?na"
  let ?ptrs = "str_addrs ?A as @ 0 # str_addrs ?S es @ 0 # auxv pkg"
  have "lo + 8 * Suc ?na \<le> unat p3" "unat p3 \<le> hi" "unat p3 + 8 * length (str_addrs ?S es @ 0 # auxv pkg) \<le> W64"
    using assms(3,5) p2 m4(5) by simp_all
  from push_vector [OF strv_agree [OF strv_agree [OF assms(2) m03] m34] m4(3) this(1,2) assms(4) this(3), of ?A]
  obtain m5 m6 x where m5: "push64 0 (p3, m4') = (p3 - 8, m5)" "point_strings ?na argp p5 ?A m5 = Some (x, m6)"
      "words_at m6 p5 ?ptrs" "agree_off (unat p5) (unat p3) m4' m6" "unat p5 = unat p3 - 8 * Suc ?na"
    unfolding p5_def by blast
  have "8 \<le> unat p5" "unat p5 + 8 * length ?ptrs \<le> W64" using assms(3,5) p2 m4(5) m5(5) by simp_all
  from push64_correct [OF m5(3) this]
  obtain m7 where m7: "push64 (of_nat ?na) (p5, m6) = (p5 - 8, m7)" "words_at m7 (p5 - 8) (of_nat ?na # ?ptrs)"
      "agree_off (unat p5 - 8) (unat p5) m6 m7"
    by blast
  have sp: "p5 - 8 = sp" by (simp add: p5_def p3_def p2_def sp_def algebra_simps)
  then have usp: "unat sp = unat p5 - 8" using unat_minus8 [of p5] assms(5) p2 m4(5) m5(5) by simp
  note u = p2 m4(5) m5(5) usp
  have "push_block pkg (of_nat ?na) (of_nat ?ne) argp envp p m = Some (sp, m7)"
    unfolding push_block_def m3(1) Let_def small using m4(1,2) m5(1,2) m7(1) sp by (simp add: p2_def p3_def p5_def)
  moreover have "words_at m7 sp (arg_words pkg (str_addrs ?A as) (str_addrs ?S es))"
    using m7(2) sp by (simp add: arg_words_def)
  moreover have "agree_off (unat sp) (unat p) m m7"
    by (rule agree_off_trans [OF agree_off_trans [OF agree_off_mono [OF m3(3)] agree_off_mono [OF m4(4)]]
      agree_off_trans [OF agree_off_mono [OF m5(4)] agree_off_mono [OF m7(3)]]]) (use u in simp_all)
  ultimately show ?thesis by blast
qed

subsection \<open>The argument block\<close>

lemma align_arith:
  assumes "23 \<le> (s :: nat)" and "b = s - s mod 16 - 8 * (n mod 2)"
  shows "b mod 16 = 8 * (n mod 2) \<and> b \<le> s \<and> s \<le> b + 23"
proof -
  obtain d where d: "s div 16 = Suc d" using assms(1) by (cases "s div 16") auto
  obtain r where s: "s = 16 * Suc d + r" and r: "s mod 16 = r" "r < 16" using d by (metis div_mult_mod_eq mult.commute mod_less_divisor zero_less_numeral)
  then have b: "b = 16 * Suc d - 8 * (n mod 2)" using assms(2) by simp
  show ?thesis
  proof (cases "even n")
    case True
    then have "b = 16 * Suc d" using b by simp
    then show ?thesis using True s r(2) by simp
  next
    case False
    then have n: "n mod 2 = 1" by (simp add: odd_iff_mod_2_eq_one)
    then have "b = 8 + 16 * d" using b by simp
    then show ?thesis unfolding n using s r(2) by (simp add: mod_mult_self4)
  qed
qed

lemma block_arith:
  assumes "p mod 16 = 8 * (k mod 2)" and "8 * (k + 10) \<le> (p :: nat)"
  shows "(p - 8 * (k + 10)) mod 16 = 0"
proof -
  define q h r where "q = p div 16" and "h = k div 2" and "r = k mod 2"
  have "p = 16 * q + 8 * r" using assms(1) unfolding q_def r_def by (metis div_mult_mod_eq mult.commute)
  moreover have "k = 2 * h + r" by (simp add: h_def r_def)
  ultimately have "p - 8 * (k + 10) = 16 * (q - (h + 5))" by (simp add: diff_mult_distrib2)
  then show ?thesis by simp
qed

text \<open>
  The first word of the block: below the strings, a multiple of 16, or 8 below one when the number
  of words to come is odd.
\<close>

definition block_top :: "u64 \<Rightarrow> nat \<Rightarrow> u64" where
  "block_top stackp n = (let p = stackp - (stackp AND 15) in if odd n then p - 8 else p)"

lemma block_top_unat:
  assumes "23 \<le> unat stackp"
  shows "unat (block_top stackp n) mod 16 = 8 * (n mod 2)" and "unat (block_top stackp n) \<le> unat stackp"
    and "unat stackp \<le> unat (block_top stackp n) + 23"
proof -
  let ?p = "stackp - (stackp AND 15)"
  have p: "unat ?p = unat stackp - unat stackp mod 16"
    by (subst unat_sub_nowrap) (simp_all add: word_le_nat_alt unat_and_15)
  then have "8 \<le> unat ?p" using assms by linarith
  then have "unat (?p - 8) = unat ?p - 8" by (rule unat_minus8)
  then have b: "unat (block_top stackp n) = unat stackp - unat stackp mod 16 - 8 * (n mod 2)"
    using p by (cases "odd n") (simp_all add: block_top_def Let_def odd_iff_mod_2_eq_one)
  show "unat (block_top stackp n) mod 16 = 8 * (n mod 2)" "unat (block_top stackp n) \<le> unat stackp"
      "unat stackp \<le> unat (block_top stackp n) + 23"
    using align_arith [OF assms b] by blast+
qed

lemma parity_word:
  "a + e + 3 < W64 \<Longrightarrow> (of_nat a + of_nat e + 3) mod 2 \<noteq> (0 :: u64) \<longleftrightarrow> odd (a + e + 3)"
proof -
  assume "a + e + 3 < W64"
  then have "unat (of_nat (a + e + 3) :: u64) = a + e + 3" by (rule unat_of_nat64)
  then have "unat ((of_nat (a + e + 3) :: u64) mod 2) = (a + e + 3) mod 2" by (simp add: unat_mod)
  moreover have "of_nat a + of_nat e + 3 = (of_nat (a + e + 3) :: u64)" by simp
  ultimately have "(of_nat a + of_nat e + 3) mod 2 = (0 :: u64) \<longleftrightarrow> (a + e + 3) mod 2 = 0"
    by (simp only: word_unat_eq_iff [of _ 0] unsigned_0)
  then show ?thesis by (simp only: even_iff_mod_2_eq_zero)
qed

text \<open>The room an argument block can take.\<close>

definition args_room :: "u8 list list \<Rightarrow> u8 list list \<Rightarrow> nat" where
  "args_room as es = strs_size es + strs_size as + 23 + 8 * (13 + length es + length as)"

text \<open>(C33) copyargs returns 0 and lays out the block a new program expects: at a stack
  pointer that is a multiple of 16 stand the number of arguments, pointers to copies of the
  argument strings, a null pointer, pointers to copies of the environment strings, a null pointer
  and the auxiliary vector with the program headers and entry point; nothing outside the part of
  the stack from there up is changed.\<close>

theorem copyargs_correct:
  assumes "strv lo (unat (pk_stack pkg)) m envp es" and "strv lo (unat (pk_stack pkg)) m argp as"
    and "lo + args_room as es \<le> unat (pk_stack pkg)"
  shows "\<exists>sp argv envv m'. copyargs pkg argp envp m = Some ((0, pkg\<lparr>pk_sp := sp\<rparr>), m') \<and>
    unat sp mod 16 = 0 \<and> lo \<le> unat sp \<and> agree_off (unat sp) (unat (pk_stack pkg)) m m' \<and>
    words_at m' sp (of_nat (length as) # argv @ [0] @ envv @ [0] @
      [AT_PHNUM, pk_phnum pkg, AT_PHENT, pk_phentsize pkg, AT_PHDR, pk_phaddr pkg, AT_ENTRY, pk_entry pkg, 0, 0]) \<and>
    list_all2 (cstr m') argv as \<and> list_all2 (cstr m') envv es"
proof -
  let ?S = "pk_stack pkg" and ?na = "length as" and ?ne = "length es"
  let ?A = "?S - of_nat (strs_size es)"
  let ?Z = "?A - of_nat (strs_size as)"
  note room = assms(3) [unfolded args_room_def]
  have A: "unat ?A = unat ?S - strs_size es" using room by (intro unat_sub_of_nat) simp
  have Z: "unat ?Z = unat ?A - strs_size as" using room A by (intro unat_sub_of_nat) simp
  obtain m1 where m1: "push_strings envp 0 ?S m = Some (of_nat ?ne, ?A, m1)"
      "agree_off (unat ?A) (unat ?S) m m1" "strs_at m1 ?S es"
    using push_strings_correct [OF assms(1), of ?S 0] room A by auto
  have m01: "agree_off lo (unat ?S) m m1" by (rule agree_off_mono [OF m1(2)]) (use room A in simp_all)
  obtain m2 where m2: "push_strings argp 0 ?A m1 = Some (of_nat ?na, ?Z, m2)"
      "agree_off (unat ?Z) (unat ?A) m1 m2" "strs_at m2 ?A as"
  proof -
    have "lo + strs_size as \<le> unat ?A" "unat ?A \<le> unat ?S" using room A by simp_all
    then show ?thesis using push_strings_correct [OF strv_agree [OF assms(2) m01], of ?A 0] Z that by auto
  qed
  have m12: "agree_off lo (unat ?S) m1 m2" by (rule agree_off_mono [OF m2(2)]) (use room A Z in simp_all)
  note m02 = agree_off_trans [OF m01 m12]
  define p where "p = block_top ?Z (?na + ?ne + 3)"
  have p: "unat p mod 16 = 8 * ((?na + ?ne + 3) mod 2)" "unat p \<le> unat ?Z" "unat ?Z \<le> unat p + 23"
    using block_top_unat [of ?Z] room A Z unfolding p_def by simp_all
  have lo: "lo + 8 * (13 + ?ne + ?na) \<le> unat p" "unat p \<le> unat ?S" using room A Z p(2,3) by simp_all
  define sp where "sp = p - 8 * of_nat (13 + ?ne + ?na)"
  have sp: "unat sp = unat p - 8 * (13 + ?ne + ?na)"
    using unat_sub_of_nat [of "8 * (13 + ?ne + ?na)" p] lo by (simp add: sp_def)
  obtain m3 where m3: "push_block pkg (of_nat ?na) (of_nat ?ne) argp envp p m2 = Some (sp, m3)"
      "words_at m3 sp (arg_words pkg (str_addrs ?A as) (str_addrs ?S es))" "agree_off (unat sp) (unat p) m2 m3"
    using push_block_correct [OF strv_agree [OF assms(1) m02] strv_agree [OF assms(2) m02] lo(2) _ lo(1), of pkg]
    by (auto simp: sp_def)
  have "?na + ?ne + 3 < W64" by (rule le_less_trans [OF _ unat_bound64 [of p]]) (use lo(1) in simp)
  then have "copyargs pkg argp envp m = Some ((0, pkg\<lparr>pk_sp := sp\<rparr>), m3)"
    using m1(1) m2(1) m3(1) parity_word [of ?na ?ne]
    unfolding copyargs_def p_def block_top_def by (simp add: Let_def cong: if_cong)
  moreover have "unat sp mod 16 = 0"
    using block_arith [OF p(1)] sp lo(1) by (simp add: add.commute add.left_commute)
  moreover have "agree_off (unat sp) (unat ?S) m m3"
    by (rule agree_off_trans [OF agree_off_trans [OF agree_off_mono [OF m1(2)] agree_off_mono [OF m2(2)]]
      agree_off_mono [OF m3(3)]]) (use A Z sp p(2) in simp_all)
  moreover have "strs_at m3 ?A as"
    by (rule strs_at_agree [OF m2(3) _ m3(3)]) (use room A Z p(2) in simp_all)
  moreover have "strs_at m3 ?S es"
    by (rule strs_at_agree [OF strs_at_agree [OF m1(3) _ m2(2)] _ m3(3)]) (use room A Z p(2) in auto)
  moreover have "words_at m3 sp (of_nat ?na # str_addrs ?A as @ [0] @ str_addrs ?S es @ [0] @ auxv pkg)"
    using m3(2) by (simp only: arg_words_def length_str_addrs append_Cons append_Nil)
  moreover have "lo \<le> unat sp" using lo(1) sp by simp
  ultimately show ?thesis unfolding auxv_def by (intro exI conjI)
qed

lemma load64_bytes:
  "load64 m a = ucast (m a) + 256 * (ucast (m (a + 1)) + 256 * (ucast (m (a + 2)) + 256 * (ucast (m (a + 3)) +
     256 * (ucast (m (a + 4)) + 256 * (ucast (m (a + 5)) + 256 * (ucast (m (a + 6)) + 256 * ucast (m (a + 7))))))))"
proof -
  have "load64 m a = load_le m a (Suc (Suc (Suc (Suc (Suc (Suc (Suc (Suc 0))))))))" by (simp add: numeral_eq_Suc)
  then show ?thesis by (simp add: add.assoc)
qed

theorem copyargs_correct_witness:
  "\<exists>sp argv envv m'. copyargs \<lparr>pk_map = 0, pk_stack = 0x1000, pk_sp = 0, pk_entry = 0x400000, pk_phaddr = 0x400040,
       pk_phentsize = 56, pk_phnum = 2\<rparr> 0x100 0x110 (\<lambda>a. if a = 0x101 then 2 else if a = 0x200 then 97 else 0) =
     Some ((0, \<lparr>pk_map = 0, pk_stack = 0x1000, pk_sp = sp, pk_entry = 0x400000, pk_phaddr = 0x400040,
       pk_phentsize = 56, pk_phnum = 2\<rparr>), m') \<and> unat sp mod 16 = 0 \<and>
     words_at m' sp (1 # argv @ [0] @ envv @ [0] @ [AT_PHNUM, 2, AT_PHENT, 56, AT_PHDR, 0x400040, AT_ENTRY, 0x400000, 0, 0]) \<and>
     list_all2 (cstr m') argv [[97]] \<and> list_all2 (cstr m') envv []"
proof -
  let ?m = "\<lambda>a :: u64. if a = 0x101 then 2 else if a = 0x200 then 97 else 0 :: u8"
  let ?pkg = "\<lparr>pk_map = 0, pk_stack = 0x1000, pk_sp = 0, pk_entry = 0x400000, pk_phaddr = 0x400040, pk_phentsize = 56, pk_phnum = 2\<rparr>"
  have "strv 0x300 (unat (pk_stack ?pkg)) ?m 0x110 []" by (simp add: clear_of_def load64_bytes)
  moreover have "strv 0x300 (unat (pk_stack ?pkg)) ?m 0x100 [[97]]" by (simp add: clear_of_def load64_bytes)
  moreover have "0x300 + args_room [[97]] [] \<le> unat (pk_stack ?pkg)" by (simp add: args_room_def)
  ultimately show ?thesis using copyargs_correct [of "0x300" ?pkg ?m "0x110" "[]" "0x100" "[[97]]"] by auto
qed

end
