(* ===== verification/Exec_Spec.thy ===== *)
theory Exec_Spec
  imports Exec
begin

text \<open>
  Copying a vector of strings into the heap and freeing it. The array comes from \<^verbatim>\<open>kmalloc\<close>, the strings
  from \<^verbatim>\<open>kmem_alloc\<close>. Each is an allocator with a set of live blocks of its own: a new block lies in the
  heap, is apart from the blocks of both and leaves the blocks of the other alone. Nothing is assumed of
  \<^verbatim>\<open>kfree\<close>.
\<close>

definition alloc_law ::
  "(u64 \<Rightarrow> 's \<Rightarrow> (u64 \<times> 's) option) \<Rightarrow> ('s \<Rightarrow> (u64 \<times> nat) set) \<Rightarrow> ('s \<Rightarrow> (u64 \<times> nat) set) \<Rightarrow> ('s \<Rightarrow> nat) \<Rightarrow> nat \<Rightarrow> nat \<Rightarrow> bool" where
  "alloc_law alloc own other avail lo hi \<longleftrightarrow> 0 < lo \<and> hi \<le> W64 \<and> (\<forall>s. \<forall>(q, k) \<in> own s \<union> other s. 0 < k) \<and>
     (\<forall>n s. 0 < n \<and> n \<le> avail s \<longrightarrow> (\<exists>p s'. alloc (of_nat n) s = Some (p, s') \<and> lo \<le> unat p \<and> unat p + n \<le> hi \<and>
        (\<forall>(q, k) \<in> own s \<union> other s. unat p + n \<le> unat q \<or> unat q + k \<le> unat p) \<and>
        own s' = insert (p, n) (own s) \<and> other s' = other s \<and> avail s \<le> avail s' + n))"

lemma alloc_block:
  assumes law: "alloc_law alloc own other avail lo hi" and "0 < n" and "n \<le> avail s"
  obtains p s' where "alloc (of_nat n) s = Some (p, s')" and "lo \<le> unat p" and "unat p + n \<le> hi"
    and "\<And>q k. (q, k) \<in> own s \<union> other s \<Longrightarrow> unat p + n \<le> unat q \<or> unat q + k \<le> unat p"
    and "own s' = insert (p, n) (own s)" and "other s' = other s" and "avail s \<le> avail s' + n"
    and "p \<notin> fst ` (own s \<union> other s)"
proof -
  have "\<exists>p s'. alloc (of_nat n) s = Some (p, s') \<and> lo \<le> unat p \<and> unat p + n \<le> hi \<and>
      (\<forall>(q, k) \<in> own s \<union> other s. unat p + n \<le> unat q \<or> unat q + k \<le> unat p) \<and>
      own s' = insert (p, n) (own s) \<and> other s' = other s \<and> avail s \<le> avail s' + n"
    using assms unfolding alloc_law_def by blast
  then obtain p s' where p: "alloc (of_nat n) s = Some (p, s')" "lo \<le> unat p" "unat p + n \<le> hi"
      "\<forall>(q, k) \<in> own s \<union> other s. unat p + n \<le> unat q \<or> unat q + k \<le> unat p"
      "own s' = insert (p, n) (own s)" "other s' = other s" "avail s \<le> avail s' + n"
    by (elim exE conjE) (rule that)
  have "p \<noteq> q" if h: "(q, k) \<in> own s \<union> other s" for q k
  proof
    assume "p = q"
    moreover have "0 < k" using law h unfolding alloc_law_def by blast
    moreover have "unat p + n \<le> unat q \<or> unat q + k \<le> unat p" using p(4) h by blast
    ultimately show False using assms(2) by simp
  qed
  then have "p \<notin> fst ` (own s \<union> other s)" by (metis imageE prod.collapse)
  with p(4) show ?thesis by (intro that [OF p(1-3) _ p(5-7)]) blast+
qed

lemma alloc_bounds:
  assumes "alloc_law alloc own other avail lo hi"
  shows "0 < lo" and "hi \<le> W64"
  using assms by (simp_all add: alloc_law_def)

text \<open>Bytes outside the heap or within a live block.\<close>

definition held :: "nat \<Rightarrow> nat \<Rightarrow> (u64 \<times> nat) set \<Rightarrow> u64 \<Rightarrow> nat \<Rightarrow> bool" where
  "held lo hi blocks a n \<longleftrightarrow> unat a + n \<le> W64 \<and>
     (unat a + n \<le> lo \<or> hi \<le> unat a \<or> (\<exists>(q, k) \<in> blocks. unat q \<le> unat a \<and> unat a + n \<le> unat q + k))"

lemma held_clear: "clear_of lo hi a n \<Longrightarrow> held lo hi blocks a n"
  by (auto simp: held_def clear_of_def)

lemma held_block: "(q, k) \<in> blocks \<Longrightarrow> unat q + k \<le> W64 \<Longrightarrow> held lo hi blocks q k"
  by (auto simp: held_def)

lemma held_mono: "held lo hi blocks a n \<Longrightarrow> blocks \<subseteq> blocks' \<Longrightarrow> held lo hi blocks' a n"
  by (auto simp: held_def)

text \<open>A fresh block is apart from whatever is held.\<close>

lemma block_apart:
  assumes "held lo hi blocks a n" and "lo \<le> unat p" and "unat p + k \<le> hi"
    and "\<And>q k'. (q, k') \<in> blocks \<Longrightarrow> unat p + k \<le> unat q \<or> unat q + k' \<le> unat p"
  shows "clear_of (unat p) (unat p + k) a n"
  using assms unfolding held_def clear_of_def by fastforce

lemma in_region_agree: "(\<forall>x. \<not> in_region p n x \<longrightarrow> m' x = m x) \<Longrightarrow> unat p + n \<le> W64 \<Longrightarrow> agree_off (unat p) (unat p + n) m m'"
  by (auto simp: agree_off_def in_region_unat)

text \<open>The blocks of a copied vector.\<close>

definition blocks_of :: "u64 list \<Rightarrow> u8 list list \<Rightarrow> (u64 \<times> nat) set" where
  "blocks_of qs ss = set (zip qs (map (\<lambda>s. Suc (length s)) ss))"

lemma blocks_of_Cons [simp]: "blocks_of (q # qs) (s # ss) = insert (q, Suc (length s)) (blocks_of qs ss)"
  by (simp add: blocks_of_def)

lemma blocks_of_Nil [simp]: "blocks_of [] ss = {}" "blocks_of qs [] = {}"
  by (simp_all add: blocks_of_def)

text \<open>Memories that agree on what is held, except for the bytes from \<open>a\<close> up to \<open>b\<close>.\<close>

definition keeps :: "nat \<Rightarrow> nat \<Rightarrow> (u64 \<times> nat) set \<Rightarrow> nat \<Rightarrow> nat \<Rightarrow> mem \<Rightarrow> mem \<Rightarrow> bool" where
  "keeps lo hi blocks a b m m' \<longleftrightarrow>
     (\<forall>x n. held lo hi blocks x n \<longrightarrow> clear_of a b x n \<longrightarrow> (\<forall>i < n. m' (x + of_nat i) = m (x + of_nat i)))"

lemma keepsD:
  "keeps lo hi blocks a b m m' \<Longrightarrow> held lo hi blocks x n \<Longrightarrow> clear_of a b x n \<Longrightarrow> i < n \<Longrightarrow>
     m' (x + of_nat i) = m (x + of_nat i)"
  unfolding keeps_def by blast

lemma keepsI:
  "(\<And>x n i. held lo hi blocks x n \<Longrightarrow> clear_of a b x n \<Longrightarrow> i < n \<Longrightarrow> m' (x + of_nat i) = m (x + of_nat i)) \<Longrightarrow>
     keeps lo hi blocks a b m m'"
  unfolding keeps_def by blast

lemma keeps_load:
  "keeps lo hi blocks a b m m' \<Longrightarrow> held lo hi blocks x n \<Longrightarrow> clear_of a b x n \<Longrightarrow> load_le m' x n = load_le m x n"
  by (rule load_le_cong) (rule keepsD)

lemma keeps_cstr:
  assumes "keeps lo hi blocks a b m m'" and "held lo hi blocks x (Suc (length s))" and "clear_of a b x (Suc (length s))"
    and "cstr m x s"
  shows "cstr m' x s"
  using assms(4) keepsD [OF assms(1-3)] by (simp add: cstr_def)

lemma cstrs_agree:
  assumes "list_all2 (cstr m) us ss" and "list_all2 (\<lambda>u s. clear_of lo hi u (Suc (length s))) us ss" and "agree_off lo hi m m'"
  shows "list_all2 (cstr m') us ss"
  using assms cstr_agree by (fastforce simp: list_all2_conv_all_nth)

lemma words_at_shift:
  "words_at m p ws \<Longrightarrow> (\<And>i. i < 8 * length ws \<Longrightarrow> m' (q + of_nat i) = m (p + of_nat i)) \<Longrightarrow> words_at m' q ws"
proof (induction ws arbitrary: p q)
  case (Cons w ws)
  have "load64 m' q = load64 m p" by (rule load_le_shift) (use Cons.prems(2) in simp)
  moreover have "words_at m' (q + 8) ws"
  proof (rule Cons.IH)
    show "words_at m (p + 8) ws" using Cons.prems(1) by simp
    show "m' (q + 8 + of_nat i) = m (p + 8 + of_nat i)" if "i < 8 * length ws" for i
      using Cons.prems(2) [of "8 + i"] that by (simp add: algebra_simps)
  qed
  ultimately show ?case using Cons.prems(1) by simp
qed simp

lemmas words_at_cong = words_at_shift [where q = p and p = p for p]

lemma held_tail:
  assumes "held lo hi blocks v (k + n)" and "unat (v + of_nat k) = unat v + k"
  shows "held lo hi blocks (v + of_nat k) n"
  using assms unfolding held_def by fastforce

lemma held_head: "held lo hi blocks v (k + n) \<Longrightarrow> held lo hi blocks v k"
  unfolding held_def by fastforce

text \<open>One copied string: its block, the memory with the copy and the slot that now points to it.\<close>

lemma dup_one:
  assumes law: "alloc_law kmem_alloc S A avail lo hi"
    and "cstr m u s" and "clear_of lo hi u (Suc (length s))" and "Suc (length s) \<le> avail st"
    and "held lo hi (S st \<union> A st) v (8 * Suc n)" and "lo \<le> unat v" and "unat v + 8 * Suc n \<le> hi"
  obtains q m1 st1 where "strdup kmem_alloc u (m, st) = Some (q, m1, st1)"
    and "q \<noteq> 0" and "S st1 = insert (q, Suc (length s)) (S st)" and "A st1 = A st" and "q \<notin> fst ` (S st \<union> A st)"
    and "avail st \<le> avail st1 + Suc (length s)" and "unat q + Suc (length s) \<le> hi" and "lo \<le> unat q"
    and "clear_of (unat v) (unat v + 8 * Suc n) q (Suc (length s))"
    and "cstr (store64 v q m1) q s" and "load64 (store64 v q m1) v = q" and "agree_off lo hi m (store64 v q m1)"
    and "keeps lo hi (S st \<union> A st) (unat v) (unat v + 8) m (store64 v q m1)"
proof -
  let ?n = "Suc (length s)"
  obtain q st1 where q: "kmem_alloc (of_nat ?n) st = Some (q, st1)" "lo \<le> unat q" "unat q + ?n \<le> hi"
      "\<And>q' k. (q', k) \<in> (S st \<union> A st) \<Longrightarrow> unat q + ?n \<le> unat q' \<or> unat q' + k \<le> unat q"
      "S st1 = insert (q, ?n) (S st)" "A st1 = A st" "avail st \<le> avail st1 + ?n" "q \<notin> fst ` (S st \<union> A st)"
    by (rule alloc_block [OF law _ assms(4)]) (simp, rule that)
  note b = alloc_bounds [OF law]
  have "unat q + ?n \<le> unat u \<or> unat u + ?n \<le> unat q" "unat u + ?n \<le> W64" "unat q + ?n \<le> W64" "?n < W64"
    using assms(3) q(2,3) b by (auto simp: clear_of_def)
  then obtain m1 where m1: "strdup kmem_alloc u (m, st) = Some (q, m1, st1)" "cstr m1 q s"
      "\<forall>x. \<not> in_region q ?n x \<longrightarrow> m1 x = m x"
    using strdup_correct [OF assms(2), of kmem_alloc st q st1] q(1) by auto
  have ag1: "agree_off (unat q) (unat q + ?n) m m1" by (rule in_region_agree [OF m1(3)]) (use q(3) b in simp)
  have ag2: "agree_off (unat v) (unat v + 8) m1 (store64 v q m1)" by (rule store_agree) (use assms(7) b in simp)
  have apart: "clear_of (unat q) (unat q + ?n) v (8 * Suc n)" by (rule block_apart [OF assms(5) q(2,3,4)])
  then have qv: "clear_of (unat v) (unat v + 8 * Suc n) q ?n" using q(3) b by (auto simp: clear_of_def)
  have "cstr (store64 v q m1) q s" by (rule cstr_agree [OF m1(2) clear_of_mono [OF qv] ag2]) simp_all
  moreover have "load64 (store64 v q m1) v = q" by (rule load_store64) (use assms(7) b in simp)
  moreover have "agree_off lo hi m (store64 v q m1)"
    by (rule agree_off_trans [OF agree_off_mono [OF ag1] agree_off_mono [OF ag2]]) (use q(2,3) assms(6,7) in simp_all)
  moreover have "keeps lo hi (S st \<union> A st) (unat v) (unat v + 8) m (store64 v q m1)"
    unfolding keeps_def using clear_of_at [OF _ _ ag2] clear_of_at [OF block_apart [where blocks = "S st \<union> A st", OF _ q(2,3,4)] _ ag1] by auto
  moreover have "q \<noteq> 0" using q(2) b by auto
  ultimately show ?thesis using that [OF m1(1) _ q(5,6,8,7,3,2) qv] by blast
qed

lemma dup_strings_correct:
  assumes law: "alloc_law kmem_alloc S A avail lo hi"
    and "words_at m v (us @ [0])" and "0 \<notin> set us" and "list_all2 (cstr m) us ss"
    and "list_all2 (\<lambda>u s. clear_of lo hi u (Suc (length s))) us ss"
    and "held lo hi (S st \<union> A st) v (8 * Suc (length us))" and "strs_size ss \<le> avail st"
    and "lo \<le> unat v" and "unat v + 8 * Suc (length us) \<le> hi"
  shows "\<exists>qs m' st'. dup_strings kmem_alloc v (m, st) = Some (m', st') \<and> 0 \<notin> set qs \<and>
    words_at m' v (qs @ [0]) \<and> list_all2 (cstr m') qs ss \<and> S st' = S st \<union> blocks_of qs ss \<and> A st' = A st \<and>
    set qs \<inter> fst ` (S st \<union> A st) = {} \<and> distinct qs \<and>
    keeps lo hi (S st \<union> A st) (unat v) (unat v + 8 * length us) m m'"
  using assms(2-)
proof (induction us arbitrary: v m st ss)
  case Nil
  then show ?case by (subst dup_strings.simps) (auto simp: keeps_def intro!: exI [of _ "[]"])
next
  case (Cons u us v m st ss0)
  obtain s ss where ss0: "ss0 = s # ss" using Cons.prems(3) by (cases ss0) auto
  let ?n = "Suc (length s)" and ?k = "8 * Suc (length us)"
  note prems = Cons.prems [unfolded ss0 append_Cons words_at.simps list.size list_all2_Cons strs_size_simps]
  have u: "load64 m v = u" "u \<noteq> 0" using prems(1,2) by auto
  obtain q m1 st1 where d: "strdup kmem_alloc u (m, st) = Some (q, m1, st1)" "q \<noteq> 0"
      "S st1 = insert (q, ?n) (S st)" "A st1 = A st" "q \<notin> fst ` (S st \<union> A st)" "avail st \<le> avail st1 + ?n" "unat q + ?n \<le> hi" "lo \<le> unat q"
      "clear_of (unat v) (unat v + 8 * Suc (Suc (length us))) q ?n" "cstr (store64 v q m1) q s"
      "load64 (store64 v q m1) v = q" "agree_off lo hi m (store64 v q m1)"
      "keeps lo hi (S st \<union> A st) (unat v) (unat v + 8) m (store64 v q m1)"
    using dup_one [OF law, of m u s st v "Suc (length us)"] prems by auto
  define m2 where "m2 = store64 v q m1"
  note d2 = d(10-13) [folded m2_def]
  have v: "unat (v + 8) = unat v + 8" using prems(8) alloc_bounds [OF law] by (subst unat_add_nowrap) simp_all
  have tail: "held lo hi (S st \<union> A st) (v + 8) ?k" "held lo hi (S st \<union> A st) v 8"
    using held_tail [of lo hi "S st \<union> A st" v 8 ?k] held_head [of lo hi "S st \<union> A st" v 8 ?k] prems(5) v by simp_all
  have "words_at m2 (v + 8) (us @ [0])"
  proof (rule words_at_cong)
    show "words_at m (v + 8) (us @ [0])" using prems(1) by simp
    show "m2 (v + 8 + of_nat i) = m (v + 8 + of_nat i)" if "i < 8 * length (us @ [0])" for i
      using keepsD [OF d2(4) tail(1), of i] that v prems(8) alloc_bounds [OF law] by (simp add: clear_of_def)
  qed
  moreover have "list_all2 (cstr m2) us ss" using cstrs_agree [OF _ _ d2(3)] prems(3,4) by blast
  moreover have "held lo hi (S st1 \<union> A st1) (v + 8) ?k" by (rule held_mono [OF tail(1)]) (use d(3,4) in auto)
  ultimately obtain qs m' st' where r: "dup_strings kmem_alloc (v + 8) (m2, st1) = Some (m', st')" "0 \<notin> set qs"
      "words_at m' (v + 8) (qs @ [0])" "list_all2 (cstr m') qs ss" "S st' = S st1 \<union> blocks_of qs ss" "A st' = A st1"
      "set qs \<inter> fst ` (S st1 \<union> A st1) = {}" "distinct qs"
      "keeps lo hi (S st1 \<union> A st1) (unat v + 8) (unat v + 8 + 8 * length us) m2 m'"
    using Cons.IH [of m2 "v + 8" ss st1] prems d(6) v by auto
  have "dup_strings kmem_alloc v (m, st) = Some (m', st')"
    using u d(1) r(1) by (subst dup_strings.simps) (simp add: m2_def)
  moreover have "load64 m' v = q"
    using keeps_load [OF r(9) held_mono [OF tail(2)]] d2(2) d(3,4) prems(8) alloc_bounds [OF law] by (auto simp: clear_of_def)
  moreover have "cstr m' q s"
    by (rule keeps_cstr [OF r(9) held_block clear_of_mono [OF d(9)] d2(1)]) (use d(3,4,7) alloc_bounds [OF law] in auto)
  moreover have "keeps lo hi (S st \<union> A st) (unat v) (unat v + 8 * length (u # us)) m m'"
  proof (rule keepsI)
    fix x n i assume h: "held lo hi (S st \<union> A st) x n" "clear_of (unat v) (unat v + 8 * length (u # us)) x n" "i < n"
    have "m' (x + of_nat i) = m2 (x + of_nat i)"
      by (rule keepsD [OF r(9) held_mono [OF h(1)] clear_of_mono [OF h(2)] h(3)]) (use d(3,4) in auto)
    also have "\<dots> = m (x + of_nat i)" by (rule keepsD [OF d2(4) h(1) clear_of_mono [OF h(2)] h(3)]) simp_all
    finally show "m' (x + of_nat i) = m (x + of_nat i)" .
  qed
  moreover have "set (q # qs) \<inter> fst ` (S st \<union> A st) = {}" "distinct (q # qs)" using r(7,8) d(3-5) by auto
  ultimately show ?case using r(2-6) d(2-4) unfolding ss0 by (intro exI [of _ "q # qs"] exI [of _ m'] exI [of _ st']) auto
qed

text \<open>What \<open>strv_free\<close> passes to \<^verbatim>\<open>kfree\<close>: the strings in order, then the array; nothing for an empty vector.\<close>

lemma free_strings_run:
  "words_at m v (qs @ [0]) \<Longrightarrow> 0 \<notin> set qs \<Longrightarrow> free_strings kfree v (m, st) = map_option (Pair m) (iterM kfree qs st)"
proof (induction qs arbitrary: v st)
  case Nil
  then show ?case by (subst free_strings.simps) simp
next
  case (Cons q qs)
  then show ?case by (subst free_strings.simps) (auto split: Option.bind_splits)
qed

lemma strv_free_run:
  assumes "words_at m v (qs @ [0])" and "0 \<notin> set qs"
  shows "strv_free kfree v (m, st) = (if qs = [] then Some (m, st) else map_option (Pair m) (iterM kfree (qs @ [v]) st))"
proof (cases qs)
  case Nil
  then show ?thesis using assms by (simp add: strv_free_def)
next
  case (Cons q qs')
  then have "load64 m v \<noteq> 0" using assms by auto
  then show ?thesis using Cons by (simp add: strv_free_def free_strings_run [OF assms] iterM_append split: Option.bind_splits)
qed

subsection \<open>The copy\<close>

lemma strv_words:
  assumes "strv lo hi m v ss"
  obtains us where "words_at m v (us @ [0])" and "0 \<notin> set us" and "list_all2 (cstr m) us ss"
    and "list_all2 (\<lambda>u s. clear_of lo hi u (Suc (length s))) us ss"
  using assms
proof (induction ss arbitrary: v thesis)
  case Nil
  then show ?case by (intro Nil.prems(1) [of "[]"]) simp_all
next
  case (Cons s ss)
  have "strv lo hi m (v + 8) ss" using Cons.prems(2) by simp
  then obtain us where "words_at m (v + 8) (us @ [0])" "0 \<notin> set us" "list_all2 (cstr m) us ss"
      "list_all2 (\<lambda>u s. clear_of lo hi u (Suc (length s))) us ss"
    using Cons.IH by blast
  then show ?case using Cons.prems(2) by (intro Cons.prems(1) [of "load64 m v # us"]) simp_all
qed

lemma count_no_overflow: "k < 0x7fffffff \<Longrightarrow> (of_nat k :: u64) \<noteq> 0x7fffffff"
proof
  assume "k < 0x7fffffff" "(of_nat k :: u64) = 0x7fffffff"
  then show False using unat_of_nat64 [of k] by simp
qed

lemma count_strv_words:
  "words_at m v (us @ [0]) \<Longrightarrow> 0 \<notin> set us \<Longrightarrow> k + Suc (length us) < 2 ^ 31 \<Longrightarrow>
     count_strv m v (of_nat k) = Some (of_nat (k + Suc (length us)))"
proof (induction us arbitrary: v k)
  case Nil
  then have "(of_nat k :: u64) \<noteq> 0x7fffffff" by (intro count_no_overflow) simp
  then show ?case using Nil by (subst count_strv.simps) (simp add: add.commute)
next
  case (Cons u us)
  then have "(of_nat k :: u64) \<noteq> 0x7fffffff" by (intro count_no_overflow) simp
  then show ?case using Cons.IH [of "v + 8" "Suc k"] Cons.prems by (subst count_strv.simps) (simp add: add.commute)
qed

lemma keeps_agree:
  assumes "keeps lo hi blocks a b m m'" and "lo \<le> a" and "b \<le> hi"
  shows "agree_off lo hi m m'"
  unfolding agree_off_def
proof (intro allI impI)
  fix x :: u64 assume x: "unat x < lo \<or> hi \<le> unat x"
  have "unat x + 1 \<le> W64" using unat_bound64 [of x] by (simp only: Suc_eq_plus1 [symmetric] Suc_le_eq)
  then have "held lo hi blocks x 1" "clear_of a b x 1" using x assms(2,3) by (auto simp: held_def clear_of_def)
  from keepsD [OF assms(1) this, of 0] show "m' x = m x" by simp
qed

text \<open>The array of pointers, copied into a fresh block.\<close>

lemma copy_array:
  assumes law: "alloc_law kmalloc A S avail lo hi" and "words_at m uv ws" and "ws \<noteq> []"
    and "clear_of lo hi uv (8 * length ws)" and "8 * length ws \<le> avail st"
  obtains v m1 st1 where "kmalloc (8 * of_nat (length ws)) st = Some (v, st1)"
    and "memcpy v uv (8 * of_nat (length ws)) m = (v, m1)" and "words_at m1 v ws" and "agree_off lo hi m m1"
    and "lo \<le> unat v" and "unat v + 8 * length ws \<le> hi" and "A st1 = insert (v, 8 * length ws) (A st)"
    and "S st1 = S st" and "v \<notin> fst ` (A st \<union> S st)" and "avail st \<le> avail st1 + 8 * length ws"
proof -
  let ?k = "8 * length ws"
  obtain v st1 where v: "kmalloc (of_nat ?k) st = Some (v, st1)" "lo \<le> unat v" "unat v + ?k \<le> hi"
      "\<And>q k. (q, k) \<in> A st \<union> S st \<Longrightarrow> unat v + ?k \<le> unat q \<or> unat q + k \<le> unat v"
      "A st1 = insert (v, ?k) (A st)" "S st1 = S st" "avail st \<le> avail st1 + ?k" "v \<notin> fst ` (A st \<union> S st)"
    by (rule alloc_block [OF law _ assms(5)]) (use assms(3) in simp, rule that)
  note b = alloc_bounds [OF law]
  have k: "unat (of_nat ?k :: u64) = ?k" by (rule unat_of_nat64) (use v(2,3) b in simp)
  have cp: "memcpy v uv (of_nat ?k) m = (v, moved v uv ?k m)"
    using memcpy_moved [of v "of_nat ?k" uv m] assms(4) v(2,3) b unfolding k by (auto simp: clear_of_def)
  have at: "moved v uv ?k m (v + of_nat i) = m (uv + of_nat i)" if "i < ?k" for i
    using that k unat_of_nat64 [of i] v(2,3) b by (simp add: moved_def in_region_def)
  have "words_at (moved v uv ?k m) v ws" by (rule words_at_shift [OF assms(2) at])
  moreover have "agree_off (unat v) (unat v + ?k) m (moved v uv ?k m)"
    by (rule in_region_agree) (use v(3) b in \<open>simp_all add: moved_def\<close>)
  then have "agree_off lo hi m (moved v uv ?k m)" by (rule agree_off_mono) (use v in simp_all)
  ultimately show ?thesis using that [OF _ _ _ _ v(2,3,5,6,8,7)] v(1) cp by simp
qed

text \<open>(C34) With two allocators, kmalloc for the array and the kmem_alloc of strdup for the
  strings, and room in the heap, copyout_strv copies a vector of fewer than 2^31 - 1 strings: the
  array is one new kmalloc block, each string a new kmem_alloc block, the array points to the
  copies in order and the memory outside the heap is unchanged. strv_free of the copy calls kfree
  on each string in order and then on the array, and on nothing when the vector is empty, so that
  its array stays allocated; a kfree that accepts only blocks of kmalloc stops at the first
  string.\<close>

theorem copyout_strv_correct:
  assumes laws: "alloc_law kmalloc A S avail lo hi" "alloc_law kmem_alloc S A avail lo hi" and "strv lo hi m uv ss"
    and "clear_of lo hi uv (8 * Suc (length ss))" and "8 * Suc (length ss) + strs_size ss \<le> avail st" and "Suc (length ss) < 2 ^ 31"
  shows "\<exists>v qs m' st'. copyout_strv kmalloc kmem_alloc uv (m, st) = Some ((0, v), m', st') \<and>
    words_at m' v (qs @ [0]) \<and> 0 \<notin> set qs \<and> list_all2 (cstr m') qs ss \<and> agree_off lo hi m m' \<and>
    distinct (v # qs) \<and> set (v # qs) \<inter> fst ` (A st \<union> S st) = {} \<and>
    A st' = insert (v, 8 * Suc (length ss)) (A st) \<and> S st' = S st \<union> blocks_of qs ss \<and>
    strv_free kfree v (m', st') = (if ss = [] then Some (m', st') else map_option (Pair m') (iterM kfree (qs @ [v]) st')) \<and>
    (ss \<noteq> [] \<and> (\<forall>p s. p \<notin> fst ` A s \<longrightarrow> kfree p s = None) \<longrightarrow> strv_free kfree v (m', st') = None)"
proof -
  obtain us where us: "words_at m uv (us @ [0])" "0 \<notin> set us" "list_all2 (cstr m) us ss"
      "list_all2 (\<lambda>u s. clear_of lo hi u (Suc (length s))) us ss"
    by (rule strv_words [OF assms(3)])
  have len: "length us = length ss" by (rule list_all2_lengthD [OF us(3)])
  let ?k = "8 * Suc (length ss)"
  have "us @ [0] \<noteq> []" "clear_of lo hi uv (8 * length (us @ [0]))" "8 * length (us @ [0]) \<le> avail st"
    using assms(4,5) len by simp_all
  note copy = copy_array [OF laws(1) us(1) this, unfolded length_append_singleton len]
  obtain v m1 st1 where v: "kmalloc (8 * of_nat (Suc (length ss))) st = Some (v, st1)"
      "memcpy v uv (8 * of_nat (Suc (length ss))) m = (v, m1)" "words_at m1 v (us @ [0])" "agree_off lo hi m m1"
      "lo \<le> unat v" "unat v + ?k \<le> hi" "A st1 = insert (v, ?k) (A st)" "S st1 = S st" "v \<notin> fst ` (A st \<union> S st)" "avail st \<le> avail st1 + ?k"
    by (rule copy) (rule that)
  have "held lo hi (S st1 \<union> A st1) v (8 * Suc (length us))"
    by (rule held_block) (use v(6,7) len alloc_bounds [OF laws(1)] in auto)
  then obtain qs m' st' where r: "dup_strings kmem_alloc v (m1, st1) = Some (m', st')" "0 \<notin> set qs"
      "words_at m' v (qs @ [0])" "list_all2 (cstr m') qs ss" "S st' = S st1 \<union> blocks_of qs ss" "A st' = A st1"
      "set qs \<inter> fst ` (S st1 \<union> A st1) = {}" "distinct qs"
      "keeps lo hi (S st1 \<union> A st1) (unat v) (unat v + 8 * length us) m1 m'"
    using dup_strings_correct [OF laws(2) v(3) us(2) cstrs_agree [OF us(3,4) v(4)] us(4), of st1] assms(5) v(5,6,10) len by auto
  have run: "copyout_strv kmalloc kmem_alloc uv (m, st) = Some ((0, v), m', st')"
    unfolding copyout_strv_def using count_strv_words [OF us(1,2), of 0] assms(6) v(1,2) r(1) len by simp
  have ag: "agree_off lo hi m m'"
    by (rule agree_off_trans [OF v(4) keeps_agree [OF r(9)]]) (use v(5,6) len in simp_all)
  have q: "qs = [] \<longleftrightarrow> ss = []" using list_all2_lengthD [OF r(4)] by auto
  have fresh: "distinct (v # qs)" "set (v # qs) \<inter> fst ` (A st \<union> S st) = {}" using r(7,8) v(7-9) by auto
  note free = strv_free_run [OF r(3,2), of kfree st', unfolded q]
  have "strv_free kfree v (m', st') = None" if h: "ss \<noteq> []" "\<forall>p s. p \<notin> fst ` A s \<longrightarrow> kfree p s = None"
  proof -
    obtain a l where a: "qs = a # l" using h(1) q by (cases qs) auto
    then have "a \<notin> fst ` A st'" using r(6,7) by auto
    then show ?thesis using h free a by simp
  qed
  then show ?thesis
    by (intro exI [of _ v] exI [of _ qs] exI [of _ m'] exI [of _ st']) (use run r(2-6) v(7,8) ag fresh free in auto)
qed

subsection \<open>A heap that obeys the laws\<close>

text \<open>
  256 cells of 256 bytes at 64 KiB, handed out in order and marked with the allocator; a cell of \<^verbatim>\<open>kmalloc\<close>
  can be freed and is not used again.
\<close>

type_synonym cells = "(bool \<times> nat) option list"

definition cell_addr :: "nat \<Rightarrow> u64" where
  "cell_addr i = of_nat (0x10000 + 256 * i)"

definition cell_alloc :: "bool \<Rightarrow> u64 \<Rightarrow> cells \<Rightarrow> (u64 \<times> cells) option" where
  "cell_alloc k n s = Some (cell_addr (length s), s @ [Some (k, unat n)])"

definition cell_blocks :: "bool \<Rightarrow> cells \<Rightarrow> (u64 \<times> nat) set" where
  "cell_blocks k s = {(cell_addr i, n) | i n. i < length s \<and> i < 256 \<and> s ! i = Some (k, n) \<and> 0 < n \<and> n \<le> 256}"

definition cell_free :: "u64 \<Rightarrow> cells \<Rightarrow> cells option" where
  "cell_free p s = (if p \<in> fst ` cell_blocks True s then Some (s[(unat p - 0x10000) div 256 := None]) else None)"

lemma unat_cell_addr: "i < 256 \<Longrightarrow> unat (cell_addr i) = 0x10000 + 256 * i"
  unfolding cell_addr_def by (rule unat_of_nat64) simp

lemma cell_alloc_law: "alloc_law (cell_alloc k) (cell_blocks k) (cell_blocks (\<not> k)) (\<lambda>s. 256 - length s) 0x10000 0x20000"
  unfolding alloc_law_def
proof (intro conjI allI impI)
  fix n :: nat and s :: cells
  assume n: "0 < n \<and> n \<le> 256 - length s"
  then have s: "length s < 256" and un: "unat (of_nat n :: u64) = n" by (auto intro: unat_of_nat64)
  have "cell_blocks k (s @ [Some (k, n)]) = insert (cell_addr (length s), n) (cell_blocks k s)"
    using n s by (fastforce simp: cell_blocks_def nth_append less_Suc_eq)
  moreover have "cell_blocks (\<not> k) (s @ [Some (k, n)]) = cell_blocks (\<not> k) s"
    by (fastforce simp: cell_blocks_def nth_append less_Suc_eq)
  moreover have "\<forall>(q, j) \<in> cell_blocks k s \<union> cell_blocks (\<not> k) s. unat q + j \<le> unat (cell_addr (length s))"
    using s by (auto simp: cell_blocks_def unat_cell_addr)
  ultimately show "\<exists>p s'. cell_alloc k (of_nat n) s = Some (p, s') \<and> 0x10000 \<le> unat p \<and> unat p + n \<le> 0x20000 \<and>
      (\<forall>(q, j) \<in> cell_blocks k s \<union> cell_blocks (\<not> k) s. unat p + n \<le> unat q \<or> unat q + j \<le> unat p) \<and>
      cell_blocks k s' = insert (p, n) (cell_blocks k s) \<and> cell_blocks (\<not> k) s' = cell_blocks (\<not> k) s \<and> 256 - length s \<le> 256 - length s' + n"
    using n s un by (auto simp: cell_alloc_def unat_cell_addr)
qed (auto simp: cell_blocks_def)

theorem copyout_strv_correct_witness:
  "\<exists>v qs m' st'. copyout_strv (cell_alloc True) (cell_alloc False) 0x100 (\<lambda>a. if a = 0x101 then 2 else if a = 0x200 then 97 else 0, []) =
       Some ((0, v), m', st') \<and> words_at m' v (qs @ [0]) \<and> list_all2 (cstr m') qs [[97]] \<and>
     cell_blocks True st' = {(v, 16)} \<and> cell_blocks False st' = blocks_of qs [[97]] \<and> strv_free cell_free v (m', st') = None"
proof -
  let ?m = "\<lambda>a :: u64. if a = 0x101 then 2 else if a = 0x200 then 97 else 0 :: u8"
  have "strv 0x10000 0x20000 ?m 0x100 [[97]]" by (simp add: clear_of_def load64_bytes)
  moreover have "clear_of 0x10000 0x20000 0x100 (8 * Suc (length [[97 :: u8]]))" by (simp add: clear_of_def)
  moreover have "cell_blocks k [] = {}" for k by (simp add: cell_blocks_def)
  moreover have "\<forall>p s. p \<notin> fst ` cell_blocks True s \<longrightarrow> cell_free p s = None" by (simp add: cell_free_def)
  ultimately show ?thesis
    using copyout_strv_correct [OF cell_alloc_law [of True, simplified] cell_alloc_law [of False, simplified], of ?m "0x100" "[[97]]" "[]" cell_free]
    by fastforce
qed

end
