(* ===== verification/Exec_Load.thy ===== *)
theory Exec_Load
  imports Exec_Spec Vm Fs
begin

unbundle bit_operations_syntax

text \<open>
  The rest of \<^verbatim>\<open>posix/exec.c\<close>: \<open>loadelf\<close> maps the segments of an ELF file and reads them in, \<open>sys_exec\<close>
  builds the new address space. The state joins the address spaces of \<open>Vm\<close>, the file systems of \<open>Fs\<close>
  and the bytes the kernel sees: those of the active map below \<open>KERN_BASE\<close>, its own above. \<^verbatim>\<open>vfs_read\<close> is
  declared and has no definition in the sources: it is a parameter that yields a result and the bytes it
  stores. So are the size of the user stack and the place of the local variable \<^verbatim>\<open>ehdr\<close>.
\<close>

record ('k, 'f) xst =
  x_vm :: "'k vms"
  x_fs :: "'f fs"
  x_user :: "map_ref \<Rightarrow> mem"
  x_kern :: mem
  x_active :: map_ref
  x_task_map :: map_ref
  x_stack :: u64
  x_rip :: u64
  x_rsp :: u64

record ('k, 'f) exec_env =
  xe_vm :: "'k vm_env"
  xe_fs :: "'f fs_env"
  xe_kmalloc :: "u64 \<Rightarrow> 'k \<Rightarrow> (u64 \<times> 'k) option"
  xe_kfree :: "u64 \<Rightarrow> 'k \<Rightarrow> 'k option"
  xe_read :: "vn_ref \<Rightarrow> u64 \<Rightarrow> u64 \<Rightarrow> 'f fs \<Rightarrow> int \<times> u8 list"
  xe_ehdr :: u64
  xe_stack_size :: u64

definition KERN_BASE :: u64 where "KERN_BASE = 0xffff800000000000"
definition PT_LOAD :: u64 where "PT_LOAD = 1"
definition PT_PHDR :: u64 where "PT_PHDR = 6"
definition ENOEXEC :: int where "ENOEXEC = 8"
definition ELFMAG :: "u8 list" where "ELFMAG = [127, 69, 76, 70]"
definition sizeof_Elf64_Ehdr :: u64 where "sizeof_Elf64_Ehdr = 64"
definition sizeof_Elf64_Phdr :: u64 where "sizeof_Elf64_Phdr = 56"

text \<open>\<^verbatim>\<open>strdup\<close> allocates with \<^verbatim>\<open>kmem_alloc\<close>, as the operations on address spaces do.\<close>

abbreviation xe_kmem_alloc :: "('k, 'f) exec_env \<Rightarrow> u64 \<Rightarrow> 'k \<Rightarrow> (u64 \<times> 'k) option" where
  "xe_kmem_alloc e \<equiv> h_alloc (ve_heap (xe_vm e))"

subsection \<open>Memory\<close>

definition view :: "('k, 'f) xst \<Rightarrow> mem" where
  "view s = (\<lambda>a. if a < KERN_BASE then x_user s (x_active s) a else x_kern s a)"

definition put_view :: "mem \<Rightarrow> ('k, 'f) xst \<Rightarrow> ('k, 'f) xst" where
  "put_view m s = s\<lparr>x_user := (x_user s)(x_active s := m), x_kern := m\<rparr>"

fun put_bytes :: "u64 \<Rightarrow> u8 list \<Rightarrow> mem \<Rightarrow> mem" where
  "put_bytes a [] m = m"
| "put_bytes a (b # bs) m = put_bytes (a + 1) bs (m(a := b))"

definition exec_read :: "('k, 'f) exec_env \<Rightarrow> vn_ref \<Rightarrow> u64 \<Rightarrow> u64 \<Rightarrow> u64 \<Rightarrow> ('k, 'f) xst \<Rightarrow> int \<times> ('k, 'f) xst" where
  "exec_read e vn buf nbyte off s =
     (let (r, bs) = xe_read e vn nbyte off (x_fs s) in
      (r, put_view (put_bytes buf (take (unat nbyte) bs) (view s)) s))"

text \<open>A step on the visible memory and the heap.\<close>

definition on_heap :: "(mem \<times> 'k \<Rightarrow> ('a \<times> mem \<times> 'k) option) \<Rightarrow> ('k, 'f) xst \<Rightarrow> ('a \<times> ('k, 'f) xst) option" where
  "on_heap f s = do {
     (x, m, k) \<leftarrow> f (view s, vs_heap (x_vm s));
     Some (x, put_view m (s\<lparr>x_vm := (x_vm s)\<lparr>vs_heap := k\<rparr>\<rparr>))
   }"

subsection \<open>Loading\<close>

text \<open>One segment to load. \<^verbatim>\<open>vm_allocate\<close> never reports a failure, so the assertion on its result holds.\<close>

definition load_segment ::
  "('k, 'f) exec_env \<Rightarrow> vn_ref \<Rightarrow> u64 \<Rightarrow> u64 \<Rightarrow> map_ref \<Rightarrow> ('k, 'f) xst \<Rightarrow> (int \<times> ('k, 'f) xst) option" where
  "load_segment e vn base phdr r s = do {
     let p_offset = load64 (view s) (phdr + 8);
     let p_vaddr = load64 (view s) (phdr + 16);
     let p_filesz = load64 (view s) (phdr + 32);
     let p_memsz = load64 (view s) (phdr + 40);
     let segbase0 = PGROUNDDOWN p_vaddr;
     let pageoff = p_vaddr - segbase0;
     let sz = PGROUNDUP (pageoff + p_memsz);
     ((res, _, segbase), vm) \<leftarrow> vm_allocate (xe_vm e) r (segbase0 + base) sz (x_vm s);
     kassert (res = 0);
     Some (exec_read e vn (segbase + pageoff) p_filesz p_offset (s\<lparr>x_vm := vm\<rparr>))
   }"

text \<open>The loop over the program headers, with the indices still to come.\<close>

fun load_segments ::
  "('k, 'f) exec_env \<Rightarrow> vn_ref \<Rightarrow> u64 \<Rightarrow> u64 \<Rightarrow> nat list \<Rightarrow> exec_package \<Rightarrow> ('k, 'f) xst \<Rightarrow>
   ((int \<times> exec_package) \<times> ('k, 'f) xst) option" where
  "load_segments e vn base phdrs [] pkg s = Some ((0, pkg), s)"
| "load_segments e vn base phdrs (i # is) pkg s =
     (let phdr = phdrs + sizeof_Elf64_Phdr * of_nat i;
          p_type = load_le (view s) phdr 4
      in if p_type = PT_PHDR
         then load_segments e vn base phdrs is (pkg\<lparr>pk_phaddr := base + load64 (view s) (phdr + 16)\<rparr>) s
         else if p_type \<noteq> PT_LOAD then load_segments e vn base phdrs is pkg s
         else do {
           (r, s1) \<leftarrow> load_segment e vn base phdr (pk_map pkg) s;
           if r < 0 then Some ((r, pkg), s1) else load_segments e vn base phdrs is pkg s1
         })"

text \<open>
  The program headers and segments of a file whose header is in place. The product of the two 16-bit
  fields is an \<^verbatim>\<open>int\<close>, extended by its sign. The memory of the headers is never freed.
\<close>

definition load_headers ::
  "('k, 'f) exec_env \<Rightarrow> vn_ref \<Rightarrow> u64 \<Rightarrow> exec_package \<Rightarrow> ('k, 'f) xst \<Rightarrow> ((int \<times> exec_package) \<times> ('k, 'f) xst) option" where
  "load_headers e vn base pkg s1 = do {
     let ehdr = xe_ehdr e;
     let e_entry = load64 (view s1) (ehdr + 24);
     let e_phoff = load64 (view s1) (ehdr + 32);
     let e_phentsize = load_le (view s1) (ehdr + 54) 2;
     let e_phnum = load_le (view s1) (ehdr + 56) 2;
     let sz = scast (ucast (e_phnum * e_phentsize) :: u32);
     (phdrs, k) \<leftarrow> xe_kmalloc e sz (vs_heap (x_vm s1));
     let s2 = s1\<lparr>x_vm := (x_vm s1)\<lparr>vs_heap := k\<rparr>\<rparr>;
     if phdrs = 0 then Some ((- ENOMEM, pkg), s2)
     else do {
       let (r, s3) = exec_read e vn phdrs sz e_phoff s2;
       if r < 0 then Some ((r, pkg), s3)
       else load_segments e vn base phdrs [0..<unat e_phnum]
              (pkg\<lparr>pk_entry := base + e_entry, pk_phentsize := e_phentsize, pk_phnum := e_phnum, pk_phaddr := 0\<rparr>) s3
     }
   }"

definition loadelf ::
  "('k, 'f) exec_env \<Rightarrow> string \<Rightarrow> u64 \<Rightarrow> exec_package \<Rightarrow> ('k, 'f) xst \<Rightarrow> ((int \<times> exec_package) \<times> ('k, 'f) xst) option" where
  "loadelf e path base pkg s = do {
     (res, fs) \<leftarrow> vfs_lookup (xe_fs e) (fs_root_vnode (x_fs s)) path 0 None (x_fs s);
     let s0 = s\<lparr>x_fs := fs\<rparr>;
     case res of
       Inl r \<Rightarrow> Some ((r, pkg), s0)
     | Inr vn \<Rightarrow> do {
         let (r, s1) = exec_read e vn (xe_ehdr e) sizeof_Elf64_Ehdr 0 s0;
         if r < 0 then Some ((r, pkg), s1)
         else if memcmp (\<lambda>i. view s1 (xe_ehdr e + of_nat i)) (\<lambda>i. ELFMAG ! i) 4 \<noteq> 0 then Some ((- ENOEXEC, pkg), s1)
         else load_headers e vn base pkg s1
       }
   }"

subsection \<open>The system call\<close>

partial_function (option) read_string :: "mem \<Rightarrow> u64 \<Rightarrow> string option" where
  "read_string m a = (if m a = 0 then Some [] else do { cs \<leftarrow> read_string m (a + 1); Some (char_of (unat (m a)) # cs) })"

definition blank_package :: "map_ref \<Rightarrow> exec_package" where
  "blank_package r = \<lparr>pk_map = r, pk_stack = 0, pk_sp = 0, pk_entry = 0, pk_phaddr = 0, pk_phentsize = 0, pk_phnum = 0\<rparr>"

definition vm_activate :: "map_ref \<Rightarrow> ('k, 'f) xst \<Rightarrow> ('k, 'f) xst" where
  "vm_activate r s = s\<lparr>x_active := r\<rparr>"

text \<open>The stack and the arguments, once both files are loaded.\<close>

definition exec_enter ::
  "('k, 'f) exec_env \<Rightarrow> exec_package \<Rightarrow> exec_package \<Rightarrow> u64 \<Rightarrow> u64 \<Rightarrow> map_ref \<Rightarrow> ('k, 'f) xst \<Rightarrow> ('k, 'f) xst option" where
  "exec_enter e pkg rtldpkg argp envp oldmap s = do {
     ((res, _, stack0), vm) \<leftarrow> vm_allocate (xe_vm e) (pk_map pkg) VADDR_MAX (xe_stack_size e) (x_vm s);
     kassert (res = 0);
     let stack = stack0 + xe_stack_size e;
     let s1 = s\<lparr>x_vm := vm\<rparr>;
     ((r, pkg'), m) \<leftarrow> copyargs (pkg\<lparr>pk_stack := stack\<rparr>) argp envp (view s1);
     kassert (r = 0);
     let s2 = put_view m s1;
     vm' \<leftarrow> vm_map_release (xe_vm e) oldmap (x_vm s2);
     Some (s2\<lparr>x_vm := vm', x_stack := stack, x_rip := pk_entry rtldpkg, x_rsp := pk_sp pkg'\<rparr>)
   }"

definition exec_load ::
  "('k, 'f) exec_env \<Rightarrow> string \<Rightarrow> u64 \<Rightarrow> u64 \<Rightarrow> map_ref \<Rightarrow> map_ref \<Rightarrow> ('k, 'f) xst \<Rightarrow> (int \<times> ('k, 'f) xst) option" where
  "exec_load e path argp envp new oldmap s = do {
     ((r1, pkg), s1) \<leftarrow> loadelf e path 0 (blank_package new) s;
     if r1 < 0 then Some (r1, s1)
     else do {
       ((r2, rtldpkg), s2) \<leftarrow> loadelf e ''/usr/lib/ld.so'' 0x40000000 (blank_package new) s1;
       if r2 < 0 then Some (r2, s2)
       else do { s3 \<leftarrow> exec_enter e pkg rtldpkg argp envp oldmap s2; Some (0, s3) }
     }
   }"

definition sys_exec ::
  "('k, 'f) exec_env \<Rightarrow> u64 \<Rightarrow> u64 \<Rightarrow> u64 \<Rightarrow> ('k, 'f) xst \<Rightarrow> (int \<times> ('k, 'f) xst) option" where
  "sys_exec e u_path u_argp u_envp s = do {
     let oldmap = x_task_map s;
     kassert (oldmap \<noteq> kmap_ref);
     (new, vm) \<leftarrow> vm_map_new (xe_vm e) (x_vm s);
     kassert (new \<noteq> 0);
     let s0 = s\<lparr>x_vm := vm, x_user := (x_user s)(new := (\<lambda>_. 0))\<rparr>;
     (path, s1) \<leftarrow> on_heap (strdup (xe_kmem_alloc e) u_path) s0;
     ((r1, argp), s2) \<leftarrow> on_heap (copyout_strv (xe_kmalloc e) (xe_kmem_alloc e) u_argp) s1;
     kassert (r1 = 0);
     ((r2, envp), s3) \<leftarrow> on_heap (copyout_strv (xe_kmalloc e) (xe_kmem_alloc e) u_envp) s2;
     kassert (r2 = 0);
     name \<leftarrow> read_string (view s3) path;
     (r, s4) \<leftarrow> exec_load e name argp envp new oldmap (vm_activate new (s3\<lparr>x_task_map := new\<rparr>));
     let s5 = (if r < 0 then (vm_activate oldmap s4)\<lparr>x_task_map := oldmap\<rparr> else s4);
     (_, s6) \<leftarrow> on_heap (\<lambda>(m, k). do { k' \<leftarrow> xe_kfree e path k; Some ((), m, k') }) s5;
     (_, s7) \<leftarrow> on_heap (\<lambda>ms. do { ms' \<leftarrow> strv_free (xe_kfree e) argp ms; Some ((), ms') }) s6;
     (_, s8) \<leftarrow> on_heap (\<lambda>ms. do { ms' \<leftarrow> strv_free (xe_kfree e) envp ms; Some ((), ms') }) s7;
     Some (r, s8)
   }"

subsection \<open>What a failed call leaves behind\<close>

text \<open>The registers and the choice of address space.\<close>

definition ctl :: "('k, 'f) xst \<Rightarrow> map_ref \<times> map_ref \<times> u64 \<times> u64 \<times> u64" where
  "ctl s = (x_task_map s, x_active s, x_stack s, x_rip s, x_rsp s)"

lemma ctl_updates [simp]:
  "ctl (s\<lparr>x_vm := vm\<rparr>) = ctl s" "ctl (s\<lparr>x_fs := fs\<rparr>) = ctl s" "ctl (s\<lparr>x_user := u\<rparr>) = ctl s" "ctl (put_view m s) = ctl s"
  by (simp_all add: ctl_def put_view_def)

lemma exec_read_ctl: "exec_read e vn buf n off s = (r, s') \<Longrightarrow> ctl s' = ctl s"
  by (auto simp: exec_read_def Let_def split: prod.splits)

lemma on_heap_ctl: "on_heap f s = Some (x, s') \<Longrightarrow> ctl s' = ctl s"
  by (auto simp: on_heap_def bind_eq_Some_conv)

lemma load_segment_ctl: "load_segment e vn base phdr r s = Some (x, s') \<Longrightarrow> ctl s' = ctl s"
  by (auto simp: load_segment_def Let_def bind_eq_Some_conv split: prod.splits dest: exec_read_ctl)

lemma load_segments_ctl: "load_segments e vn base phdrs is pkg s = Some (r, s') \<Longrightarrow> ctl s' = ctl s"
proof (induction e vn base phdrs "is" pkg s rule: load_segments.induct)
  case (2 e vn base phdrs i "is" pkg s)
  then show ?case
    by (auto simp: Let_def bind_eq_Some_conv split: if_split_asm dest: load_segment_ctl)
qed simp

lemma load_headers_ctl: "load_headers e vn base pkg s = Some (r, s') \<Longrightarrow> ctl s' = ctl s"
  by (auto simp: load_headers_def Let_def bind_eq_Some_conv split: if_split_asm prod.split_asm dest!: exec_read_ctl load_segments_ctl)

lemma loadelf_ctl:
  assumes "loadelf e path base pkg s = Some (r, s')"
  shows "ctl s' = ctl s"
proof -
  obtain res fs where l: "vfs_lookup (xe_fs e) (fs_root_vnode (x_fs s)) path 0 None (x_fs s) = Some (res, fs)"
    using assms by (auto simp: loadelf_def bind_eq_Some_conv)
  show ?thesis
  proof (cases res)
    case (Inl x)
    then show ?thesis using assms l by (auto simp: loadelf_def)
  next
    case (Inr vn)
    obtain x s1 where rd: "exec_read e vn (xe_ehdr e) sizeof_Elf64_Ehdr 0 (s\<lparr>x_fs := fs\<rparr>) = (x, s1)" by fastforce
    show ?thesis
      using assms exec_read_ctl [OF rd]
      by (auto simp: loadelf_def l Inr rd split: if_split_asm dest: load_headers_ctl)
  qed
qed

lemma exec_enter_ctl:
  "exec_enter e pkg rtldpkg argp envp oldmap s = Some s' \<Longrightarrow>
     x_task_map s' = x_task_map s \<and> x_active s' = x_active s \<and> x_rip s' = pk_entry rtldpkg"
  by (auto simp: exec_enter_def Let_def bind_eq_Some_conv put_view_def)

lemma exec_load_ctl:
  assumes "exec_load e path argp envp new oldmap s = Some (r, s')"
  shows "r \<le> 0 \<and> x_task_map s' = x_task_map s \<and> x_active s' = x_active s \<and> (r < 0 \<longrightarrow> ctl s' = ctl s)"
proof -
  obtain r1 pkg s1 where 1: "loadelf e path 0 (blank_package new) s = Some ((r1, pkg), s1)"
    using assms by (auto simp: exec_load_def bind_eq_Some_conv)
  show ?thesis
  proof (cases "r1 < 0")
    case True
    then show ?thesis using assms 1 loadelf_ctl [OF 1] by (auto simp: exec_load_def ctl_def)
  next
    case False
    then obtain r2 rtldpkg s2 where 2: "loadelf e ''/usr/lib/ld.so'' 0x40000000 (blank_package new) s1 = Some ((r2, rtldpkg), s2)"
      using assms 1 by (auto simp: exec_load_def bind_eq_Some_conv)
    show ?thesis
    proof (cases "r2 < 0")
      case True
      then show ?thesis using assms 1 2 False loadelf_ctl [OF 1] loadelf_ctl [OF 2] by (auto simp: exec_load_def ctl_def)
    next
      case r2: False
      then obtain s3 where "exec_enter e pkg rtldpkg argp envp oldmap s2 = Some s3" "r = 0" "s' = s3"
        using assms 1 2 False by (auto simp: exec_load_def bind_eq_Some_conv)
      then show ?thesis using exec_enter_ctl loadelf_ctl [OF 1] loadelf_ctl [OF 2] by (fastforce simp: ctl_def)
    qed
  qed
qed

lemma sys_exec_restores:
  assumes "sys_exec e u_path u_argp u_envp s = Some (r, s')"
  shows "r \<le> 0 \<and> (r < 0 \<longrightarrow> ctl s' = (x_task_map s, x_task_map s, x_stack s, x_rip s, x_rsp s)) \<and>
    (r = 0 \<longrightarrow> x_task_map s' = x_active s' \<and> x_task_map s' \<noteq> kmap_ref)"
proof -
  obtain new vm path s1 argp s2 envp s3 name s4 s6 s7 where
      1: "new \<noteq> 0" "on_heap (strdup (xe_kmem_alloc e) u_path) (s\<lparr>x_vm := vm, x_user := (x_user s)(new := (\<lambda>_. 0))\<rparr>) = Some (path, s1)"
      "on_heap (copyout_strv (xe_kmalloc e) (xe_kmem_alloc e) u_argp) s1 = Some ((0, argp), s2)"
      "on_heap (copyout_strv (xe_kmalloc e) (xe_kmem_alloc e) u_envp) s2 = Some ((0, envp), s3)"
    and 2: "exec_load e name argp envp new (x_task_map s) (vm_activate new (s3\<lparr>x_task_map := new\<rparr>)) = Some (r, s4)"
    and 3: "on_heap (\<lambda>(m, k). do { k' \<leftarrow> xe_kfree e path k; Some ((), m, k') })
        (if r < 0 then (vm_activate (x_task_map s) s4)\<lparr>x_task_map := x_task_map s\<rparr> else s4) = Some ((), s6)"
      "on_heap (\<lambda>ms. do { ms' \<leftarrow> strv_free (xe_kfree e) argp ms; Some ((), ms') }) s6 = Some ((), s7)"
      "on_heap (\<lambda>ms. do { ms' \<leftarrow> strv_free (xe_kfree e) envp ms; Some ((), ms') }) s7 = Some ((), s')"
    using assms unfolding sys_exec_def Let_def by (auto simp: bind_eq_Some_conv)
  have "ctl s3 = ctl s" using 1(2-4) by (auto dest!: on_heap_ctl)
  moreover have "ctl s' = ctl (if r < 0 then (vm_activate (x_task_map s) s4)\<lparr>x_task_map := x_task_map s\<rparr> else s4)"
    using 3 by (auto dest!: on_heap_ctl)
  ultimately show ?thesis
    using exec_load_ctl [OF 2] 1(1) by (auto simp: ctl_def vm_activate_def kmap_ref_def)
qed

end
