(* ===== verification/Shootdown.thy ===== *)
theory Shootdown
  imports Prelude
begin

text \<open>
  Invalidation of a translation on every processor: \<^verbatim>\<open>pmap_global_invlpg\<close> of \<^verbatim>\<open>x86_64/vm.c\<close> and the branch of
  \<^verbatim>\<open>handle_int\<close> (\<^verbatim>\<open>x86_64/intr.c\<close>) that serves its interrupt. Each access to shared memory is a step; the
  processors interleave. A processor fills its translation buffer from the page tables and drops
  entries whenever it likes. The page tables have one entry per page; whoever invalidates a page
  keeps others from changing that entry meanwhile.
\<close>

subsection \<open>State\<close>

text \<open>
  Where a processor is: other code with interrupts enabled or not, the steps of
  \<^verbatim>\<open>pmap_global_invlpg\<close> with the address and the interrupt state to restore, the steps of the handler.
\<close>

datatype shoot_pc =
    Run bool
  | Lock u64 bool
  | SetAddr u64 bool
  | SetCnt u64 bool
  | Send nat u64 bool
  | Inval u64 bool
  | Wait u64 bool
  | Unlock u64 bool
  | Restore u64 bool
  | HInval
  | HAdd
  | HEoi

record tlb_sys =
  invlpg_global_lock :: bool
  invlpg_addr :: u64
  invlpg_done_cnt :: int
  pcs :: "nat \<Rightarrow> shoot_pc"
  ipi :: "nat \<Rightarrow> bool"
  tlb :: "nat \<Rightarrow> u64 \<Rightarrow> u64 option"
  pt :: "u64 \<Rightarrow> u64 option"

definition goto :: "nat \<Rightarrow> shoot_pc \<Rightarrow> tlb_sys \<Rightarrow> tlb_sys" where
  "goto c p s = s\<lparr>pcs := (pcs s)(c := p)\<rparr>"

definition pmap_invlpg :: "nat \<Rightarrow> u64 \<Rightarrow> tlb_sys \<Rightarrow> tlb_sys" where
  "pmap_invlpg c v s = s\<lparr>tlb := (tlb s)(c := (tlb s c)(v := None))\<rparr>"

definition send_invlpg :: "nat \<Rightarrow> tlb_sys \<Rightarrow> tlb_sys" where
  "send_invlpg d s = s\<lparr>ipi := (ipi s)(d := True)\<rparr>"

subsection \<open>Steps\<close>

text \<open>The next step of processor \<open>c\<close> of \<open>n\<close>; \<open>None\<close> while it has to spin, or runs other code.\<close>

fun shoot_step :: "nat \<Rightarrow> nat \<Rightarrow> shoot_pc \<Rightarrow> tlb_sys \<Rightarrow> tlb_sys option" where
  "shoot_step n c (Run b) s = None"
| "shoot_step n c (Lock v b) s =
     (if invlpg_global_lock s then None else Some (goto c (SetAddr v b) (s\<lparr>invlpg_global_lock := True\<rparr>)))"
| "shoot_step n c (SetAddr v b) s = Some (goto c (SetCnt v b) (s\<lparr>invlpg_addr := v\<rparr>))"
| "shoot_step n c (SetCnt v b) s = Some (goto c (Send 0 v b) (s\<lparr>invlpg_done_cnt := 1\<rparr>))"
| "shoot_step n c (Send i v b) s =
     Some (if i < n then goto c (Send (Suc i) v b) (if i = c then s else send_invlpg i s) else goto c (Inval v b) s)"
| "shoot_step n c (Inval v b) s = Some (goto c (Wait v b) (pmap_invlpg c v s))"
| "shoot_step n c (Wait v b) s = (if invlpg_done_cnt s \<noteq> int n then None else Some (goto c (Unlock v b) s))"
| "shoot_step n c (Unlock v b) s = Some (goto c (Restore v b) (s\<lparr>invlpg_global_lock := False\<rparr>))"
| "shoot_step n c (Restore v b) s = Some (goto c (Run b) s)"
| "shoot_step n c HInval s = Some (goto c HAdd (pmap_invlpg c (invlpg_addr s) s))"
| "shoot_step n c HAdd s = Some (goto c HEoi (s\<lparr>invlpg_done_cnt := invlpg_done_cnt s + 1\<rparr>))"
| "shoot_step n c HEoi s = Some (goto c (Run True) s)"

text \<open>The page a processor is invalidating.\<close>

fun target :: "shoot_pc \<Rightarrow> u64 option" where
  "target (Lock v b) = Some v"
| "target (SetAddr v b) = Some v"
| "target (SetCnt v b) = Some v"
| "target (Send i v b) = Some v"
| "target (Inval v b) = Some v"
| "target (Wait v b) = Some v"
| "target (Unlock v b) = Some v"
| "target (Restore v b) = Some v"
| "target _ = None"

inductive tlb_step :: "nat \<Rightarrow> tlb_sys \<Rightarrow> tlb_sys \<Rightarrow> bool" for n where
  code: "c < n \<Longrightarrow> shoot_step n c (pcs s c) s = Some s' \<Longrightarrow> tlb_step n s s'"
| call: "c < n \<Longrightarrow> pcs s c = Run b \<Longrightarrow> tlb_step n s (goto c (Lock v b) s)"
| interrupt: "c < n \<Longrightarrow> pcs s c = Run True \<Longrightarrow> ipi s c \<Longrightarrow> tlb_step n s (goto c HInval (s\<lparr>ipi := (ipi s)(c := False)\<rparr>))"
| flag: "c < n \<Longrightarrow> pcs s c = Run b \<Longrightarrow> tlb_step n s (goto c (Run (\<not> b)) s)"
| fill: "c < n \<Longrightarrow> pt s v = Some p \<Longrightarrow> tlb_step n s (s\<lparr>tlb := (tlb s)(c := (tlb s c)(v \<mapsto> p))\<rparr>)"
| evict: "c < n \<Longrightarrow> tlb_step n s (s\<lparr>tlb := (tlb s)(c := (tlb s c)(v := None))\<rparr>)"
| change: "(\<And>d. d < n \<Longrightarrow> target (pcs s d) \<noteq> Some v) \<Longrightarrow> tlb_step n s (s\<lparr>pt := (pt s)(v := x)\<rparr>)"

definition init_sys :: "tlb_sys \<Rightarrow> bool" where
  "init_sys s \<longleftrightarrow> \<not> invlpg_global_lock s \<and> (\<forall>c. \<exists>b. pcs s c = Run b) \<and> (\<forall>c. \<not> ipi s c)"

inductive tlb_reach :: "nat \<Rightarrow> tlb_sys \<Rightarrow> bool" for n where
  start: "init_sys s \<Longrightarrow> tlb_reach n s"
| step: "tlb_reach n s \<Longrightarrow> tlb_step n s s' \<Longrightarrow> tlb_reach n s'"

subsection \<open>Invariant\<close>

text \<open>Holding the lock; a round under way.\<close>

fun holds :: "shoot_pc \<Rightarrow> bool" where
  "holds (SetAddr v b) = True"
| "holds (SetCnt v b) = True"
| "holds (Send i v b) = True"
| "holds (Inval v b) = True"
| "holds (Wait v b) = True"
| "holds (Unlock v b) = True"
| "holds _ = False"

fun busy :: "shoot_pc \<Rightarrow> bool" where
  "busy (Send i v b) = True"
| "busy (Inval v b) = True"
| "busy (Wait v b) = True"
| "busy _ = False"

text \<open>Processor \<open>d\<close> has no interrupt sent to it yet.\<close>

fun unsent :: "shoot_pc \<Rightarrow> nat \<Rightarrow> bool" where
  "unsent (Send i v b) d = (i \<le> d)"
| "unsent _ d = False"

text \<open>Processor \<open>d\<close> has an interrupt to take or to count.\<close>

definition owes :: "tlb_sys \<Rightarrow> nat \<Rightarrow> bool" where
  "owes s d \<longleftrightarrow> ipi s d \<or> pcs s d = HInval \<or> pcs s d = HAdd"

definition todo :: "nat \<Rightarrow> tlb_sys \<Rightarrow> nat \<Rightarrow> nat set" where
  "todo n s c = {d. d < n \<and> d \<noteq> c \<and> (unsent (pcs s c) d \<or> owes s d)}"

text \<open>A processor has a translation of \<open>v\<close> that the page tables do not have.\<close>

definition stale :: "tlb_sys \<Rightarrow> nat \<Rightarrow> u64 \<Rightarrow> bool" where
  "stale s d v \<longleftrightarrow> tlb s d v \<noteq> None \<and> tlb s d v \<noteq> pt s v"

text \<open>What holds of the round that processor \<open>c\<close> runs.\<close>

definition round_ok :: "nat \<Rightarrow> tlb_sys \<Rightarrow> nat \<Rightarrow> bool" where
  "round_ok n s c \<longleftrightarrow> target (pcs s c) = Some (invlpg_addr s) \<and>
     invlpg_done_cnt s + int (card (todo n s c)) = int n \<and>
     (\<forall>d < n. owes s d \<longrightarrow> d \<noteq> c \<and> \<not> unsent (pcs s c) d) \<and>
     (\<forall>d < n. d \<noteq> c \<longrightarrow> \<not> unsent (pcs s c) d \<longrightarrow> \<not> ipi s d \<longrightarrow> pcs s d \<noteq> HInval \<longrightarrow> \<not> stale s d (invlpg_addr s)) \<and>
     ((\<exists>v b. pcs s c = Wait v b) \<longrightarrow> \<not> stale s c (invlpg_addr s))"

definition shoot_inv :: "nat \<Rightarrow> tlb_sys \<Rightarrow> bool" where
  "shoot_inv n s \<longleftrightarrow>
     (\<forall>c < n. holds (pcs s c) \<longrightarrow> invlpg_global_lock s) \<and>
     (\<forall>c < n. \<forall>d < n. holds (pcs s c) \<longrightarrow> holds (pcs s d) \<longrightarrow> c = d) \<and>
     ((\<forall>c < n. \<not> busy (pcs s c)) \<longrightarrow> (\<forall>d < n. \<not> owes s d)) \<and>
     (\<forall>c < n. busy (pcs s c) \<longrightarrow> round_ok n s c) \<and>
     (\<forall>d < n. ipi s d \<longrightarrow> pcs s d \<noteq> HInval \<and> pcs s d \<noteq> HAdd) \<and>
     (\<forall>c < n. \<forall>v b. pcs s c = Unlock v b \<or> pcs s c = Restore v b \<longrightarrow> (\<forall>d < n. \<not> stale s d v))"

lemmas shoot_invD =
  shoot_inv_def [THEN iffD1, THEN conjunct1, rule_format]
  shoot_inv_def [THEN iffD1, THEN conjunct2, THEN conjunct1, rule_format]
  shoot_inv_def [THEN iffD1, THEN conjunct2, THEN conjunct2, THEN conjunct1, rule_format]
  shoot_inv_def [THEN iffD1, THEN conjunct2, THEN conjunct2, THEN conjunct2, THEN conjunct1, rule_format]
  shoot_inv_def [THEN iffD1, THEN conjunct2, THEN conjunct2, THEN conjunct2, THEN conjunct2, THEN conjunct1, rule_format]
  shoot_inv_def [THEN iffD1, THEN conjunct2, THEN conjunct2, THEN conjunct2, THEN conjunct2, THEN conjunct2, rule_format]

lemma busy_holds: "busy p \<Longrightarrow> holds p"
  by (cases p) simp_all

lemma shoot_invI:
  assumes "\<And>c. c < n \<Longrightarrow> holds (pcs s c) \<Longrightarrow> invlpg_global_lock s"
    and "\<And>c d. c < n \<Longrightarrow> d < n \<Longrightarrow> holds (pcs s c) \<Longrightarrow> holds (pcs s d) \<Longrightarrow> c = d"
    and "\<And>d. (\<And>c. c < n \<Longrightarrow> \<not> busy (pcs s c)) \<Longrightarrow> d < n \<Longrightarrow> \<not> owes s d"
    and "\<And>c. c < n \<Longrightarrow> busy (pcs s c) \<Longrightarrow> round_ok n s c"
    and "\<And>d. d < n \<Longrightarrow> ipi s d \<Longrightarrow> pcs s d \<noteq> HInval \<and> pcs s d \<noteq> HAdd"
    and "\<And>c v b d. c < n \<Longrightarrow> pcs s c = Unlock v b \<or> pcs s c = Restore v b \<Longrightarrow> d < n \<Longrightarrow> \<not> stale s d v"
  shows "shoot_inv n s"
  unfolding shoot_inv_def using assms by blast

lemma init_inv:
  assumes "init_sys s"
  shows "shoot_inv n s"
proof -
  obtain f where run: "\<And>c. pcs s c = Run (f c)" using assms unfolding init_sys_def by metis
  moreover have "\<not> ipi s c" for c using assms by (simp add: init_sys_def)
  ultimately show ?thesis by (intro shoot_invI) (simp_all add: owes_def)
qed

lemma round_okI:
  assumes "target (pcs s c) = Some (invlpg_addr s)" and "invlpg_done_cnt s + int (card (todo n s c)) = int n"
    and "\<And>d. d < n \<Longrightarrow> owes s d \<Longrightarrow> d \<noteq> c \<and> \<not> unsent (pcs s c) d"
    and "\<And>d. d < n \<Longrightarrow> d \<noteq> c \<Longrightarrow> \<not> unsent (pcs s c) d \<Longrightarrow> \<not> ipi s d \<Longrightarrow> pcs s d \<noteq> HInval \<Longrightarrow> \<not> stale s d (invlpg_addr s)"
    and "\<And>v b. pcs s c = Wait v b \<Longrightarrow> \<not> stale s c (invlpg_addr s)"
  shows "round_ok n s c"
  unfolding round_ok_def using assms by blast

lemma round_okD:
  assumes "round_ok n s c"
  shows "target (pcs s c) = Some (invlpg_addr s)" and "invlpg_done_cnt s + int (card (todo n s c)) = int n"
    and "d < n \<Longrightarrow> owes s d \<Longrightarrow> d \<noteq> c \<and> \<not> unsent (pcs s c) d"
    and "d < n \<Longrightarrow> d \<noteq> c \<Longrightarrow> \<not> unsent (pcs s c) d \<Longrightarrow> \<not> ipi s d \<Longrightarrow> pcs s d \<noteq> HInval \<Longrightarrow> \<not> stale s d (invlpg_addr s)"
    and "pcs s c = Wait v b \<Longrightarrow> \<not> stale s c (invlpg_addr s)"
  using assms unfolding round_ok_def by blast+

text \<open>A round is not affected by what leaves its data and the debts alone.\<close>

lemma round_cong:
  assumes r: "round_ok n s c" and "c < n" and "pcs s' c = pcs s c" and "invlpg_addr s' = invlpg_addr s"
    and "invlpg_done_cnt s' = invlpg_done_cnt s" and "ipi s' = ipi s"
    and "\<And>d. (pcs s' d = HInval) = (pcs s d = HInval)" and "\<And>d. (pcs s' d = HAdd) = (pcs s d = HAdd)"
    and "\<And>d. d < n \<Longrightarrow> stale s' d (invlpg_addr s) \<Longrightarrow> stale s d (invlpg_addr s)"
  shows "round_ok n s' c"
proof -
  have o: "owes s' = owes s" using assms(6-8) by (auto simp: owes_def)
  then have t: "todo n s' c = todo n s c" using assms(3) by (simp add: todo_def)
  show ?thesis
  proof (rule round_okI)
    show "target (pcs s' c) = Some (invlpg_addr s')" "invlpg_done_cnt s' + int (card (todo n s' c)) = int n"
      using round_okD(1,2) [OF r] assms(3-5) t by simp_all
    show "d \<noteq> c \<and> \<not> unsent (pcs s' c) d" if "d < n" "owes s' d" for d
      using round_okD(3) [OF r, of d] that assms(3) o by simp
    show "\<not> stale s' d (invlpg_addr s')"
      if "d < n" "d \<noteq> c" "\<not> unsent (pcs s' c) d" "\<not> ipi s' d" "pcs s' d \<noteq> HInval" for d
      using round_okD(4) [OF r, of d] assms(9) [of d] that unfolding assms(3,4,6,7) by blast
    show "\<not> stale s' c (invlpg_addr s')" if "pcs s' c = Wait v b" for v b
      using round_okD(5) [OF r, of v b] assms(9) [OF assms(2)] that unfolding assms(3,4) by blast
  qed
qed

subsection \<open>Preservation\<close>

lemma goto_simps [simp]:
  "pcs (goto c p s) = (pcs s)(c := p)" "ipi (goto c p s) = ipi s" "tlb (goto c p s) = tlb s" "pt (goto c p s) = pt s"
  "invlpg_addr (goto c p s) = invlpg_addr s" "invlpg_done_cnt (goto c p s) = invlpg_done_cnt s"
  "invlpg_global_lock (goto c p s) = invlpg_global_lock s"
  by (simp_all add: goto_def)

lemma invlpg_simps [simp]:
  "pcs (pmap_invlpg c v s) = pcs s" "ipi (pmap_invlpg c v s) = ipi s" "pt (pmap_invlpg c v s) = pt s"
  "invlpg_addr (pmap_invlpg c v s) = invlpg_addr s" "invlpg_done_cnt (pmap_invlpg c v s) = invlpg_done_cnt s"
  "invlpg_global_lock (pmap_invlpg c v s) = invlpg_global_lock s"
  "pcs (send_invlpg d s) = pcs s" "pt (send_invlpg d s) = pt s" "tlb (send_invlpg d s) = tlb s"
  "invlpg_addr (send_invlpg d s) = invlpg_addr s" "invlpg_done_cnt (send_invlpg d s) = invlpg_done_cnt s"
  "invlpg_global_lock (send_invlpg d s) = invlpg_global_lock s" "ipi (send_invlpg d s) = (ipi s)(d := True)"
  by (simp_all add: pmap_invlpg_def send_invlpg_def)

lemma stale_cong: "tlb s' = tlb s \<Longrightarrow> pt s' = pt s \<Longrightarrow> stale s' = stale s"
  by (auto simp: stale_def fun_eq_iff)

lemma stale_invlpg: "stale (pmap_invlpg c v s) d w \<longleftrightarrow> stale s d w \<and> \<not> (d = c \<and> w = v)"
  by (auto simp: stale_def pmap_invlpg_def)

text \<open>A step of a processor outside rounds and handler, to another such place.\<close>

lemma quiet_step:
  assumes inv: "shoot_inv n s" and c: "c < n"
    and before: "\<not> busy (pcs s c)" "pcs s c \<noteq> HInval" "pcs s c \<noteq> HAdd"
    and after: "\<not> busy (pcs s' c)" "pcs s' c \<noteq> HInval" "pcs s' c \<noteq> HAdd"
    and other: "\<And>d. d \<noteq> c \<Longrightarrow> pcs s' d = pcs s d" "ipi s' = ipi s" "invlpg_done_cnt s' = invlpg_done_cnt s"
      "tlb s' = tlb s" "pt s' = pt s"
    and addr: "invlpg_addr s' = invlpg_addr s \<or> holds (pcs s c)"
    and lock: "holds (pcs s' c) \<Longrightarrow> invlpg_global_lock s' \<and> (holds (pcs s c) \<or> \<not> invlpg_global_lock s)"
      "\<not> holds (pcs s' c) \<Longrightarrow> invlpg_global_lock s' = invlpg_global_lock s \<or> holds (pcs s c)"
      "invlpg_global_lock s \<Longrightarrow> invlpg_global_lock s' \<or> holds (pcs s c)"
    and fin: "\<And>v b. pcs s' c = Unlock v b \<or> pcs s' c = Restore v b \<Longrightarrow> \<exists>b'. pcs s c = Unlock v b' \<or> pcs s c = Restore v b'"
  shows "shoot_inv n s'"
proof -
  have st: "stale s' = stale s" by (rule stale_cong [OF other(4,5)])
  have hi: "(pcs s' d = HInval) = (pcs s d = HInval)" "(pcs s' d = HAdd) = (pcs s d = HAdd)" for d
    using before after other(1) by (cases "d = c"; simp)+
  have ow: "owes s' = owes s" by (simp add: owes_def hi other(2) fun_eq_iff)
  have bu: "busy (pcs s' d) = busy (pcs s d)" for d using before(1) after(1) other(1) by (cases "d = c") simp_all
  have one: "d = c" if "d < n" "holds (pcs s d)" "holds (pcs s' c)" for d
    using shoot_invD(2) [OF inv c that(1)] shoot_invD(1) [OF inv that(1,2)] lock(1) [OF that(3)] that(2) by auto
  show ?thesis
  proof (rule shoot_invI)
    fix d assume d: "d < n" "holds (pcs s' d)"
    show "invlpg_global_lock s'"
    proof (cases "d = c")
      case False
      then have hd: "holds (pcs s d)" using d other(1) by simp
      then show ?thesis
        using lock(3) shoot_invD(1) [OF inv d(1) hd] shoot_invD(2) [OF inv d(1) c hd] False by auto
    qed (use d lock(1) in simp)
  next
    fix d e assume "d < n" "e < n" "holds (pcs s' d)" "holds (pcs s' e)"
    then show "d = e" using one shoot_invD(2) [OF inv] other(1) by (metis)
  next
    fix d assume "\<And>c. c < n \<Longrightarrow> \<not> busy (pcs s' c)" "d < n"
    then show "\<not> owes s' d" using shoot_invD(3) [OF inv] bu ow by auto
  next
    fix d assume d: "d < n" "busy (pcs s' d)"
    then have dc: "d \<noteq> c" and b: "busy (pcs s d)" using after(1) bu by auto
    then have "\<not> holds (pcs s c)" using shoot_invD(2) [OF inv d(1) c busy_holds] by auto
    then show "round_ok n s' d"
      by (intro round_cong [OF shoot_invD(4) [OF inv d(1) b] d(1)]) (use other addr dc st hi in auto)
  next
    fix d assume "d < n" "ipi s' d"
    then show "pcs s' d \<noteq> HInval \<and> pcs s' d \<noteq> HAdd" using shoot_invD(5) [OF inv] other(2) hi by auto
  next
    fix e v b d assume e: "e < n" "pcs s' e = Unlock v b \<or> pcs s' e = Restore v b" "d < n"
    then obtain b' where "pcs s e = Unlock v b' \<or> pcs s e = Restore v b'"
      using fin other(1) by (cases "e = c") auto
    then show "\<not> stale s' d v" using shoot_invD(6) [OF inv e(1) _ e(3)] st by auto
  qed
qed

text \<open>Steps that change only translations, and make none stale that is being invalidated.\<close>

lemma memory_step:
  assumes inv: "shoot_inv n s" and same: "pcs s' = pcs s" "ipi s' = ipi s" "invlpg_addr s' = invlpg_addr s"
      "invlpg_done_cnt s' = invlpg_done_cnt s" "invlpg_global_lock s' = invlpg_global_lock s"
    and st: "\<And>c d v. c < n \<Longrightarrow> target (pcs s c) = Some v \<Longrightarrow> d < n \<Longrightarrow> stale s' d v \<Longrightarrow> stale s d v"
  shows "shoot_inv n s'"
proof -
  have ow: "owes s' = owes s" by (simp add: owes_def same fun_eq_iff)
  show ?thesis
  proof (rule shoot_invI)
    fix c assume c: "c < n" "busy (pcs s' c)"
    then have r: "round_ok n s c" using shoot_invD(4) [OF inv] same by simp
    show "round_ok n s' c"
      by (rule round_cong [OF r c(1)]) (use same st [OF c(1) round_okD(1) [OF r]] in simp_all)
  next
    fix e v b d assume e: "e < n" "pcs s' e = Unlock v b \<or> pcs s' e = Restore v b" "d < n"
    then have "target (pcs s e) = Some v" using same by auto
    then show "\<not> stale s' d v" using shoot_invD(6) [OF inv e(1) _ e(3)] st [OF e(1) _ e(3)] e(2) same by auto
  next
    fix d assume "\<And>c. c < n \<Longrightarrow> \<not> busy (pcs s' c)" "d < n"
    then show "\<not> owes s' d" using shoot_invD(3) [OF inv, of d] ow same by simp
  qed (use shoot_invD(1,2,5) [OF inv] same in simp_all)
qed

text \<open>Steps during the round of \<open>c\<close>.\<close>

lemma round_step:
  assumes inv: "shoot_inv n s" and c: "c < n" "busy (pcs s c)"
    and same: "\<And>d. holds (pcs s' d) = holds (pcs s d)" "\<And>d. busy (pcs s' d) = busy (pcs s d)"
      "\<And>d v b. pcs s' d = Unlock v b \<or> pcs s' d = Restore v b \<Longrightarrow> pcs s' d = pcs s d"
      "invlpg_global_lock s' = invlpg_global_lock s"
    and st: "\<And>d v. stale s' d v \<Longrightarrow> stale s d v"
    and hd: "\<And>d. d < n \<Longrightarrow> ipi s' d \<Longrightarrow> pcs s' d \<noteq> HInval \<and> pcs s' d \<noteq> HAdd"
    and r: "round_ok n s' c"
  shows "shoot_inv n s'"
proof (rule shoot_invI)
  fix d assume d: "d < n" "busy (pcs s' d)"
  then have "d = c" using shoot_invD(2) [OF inv d(1) c(1)] c(2) same(2) by (auto intro: busy_holds)
  then show "round_ok n s' d" using r by simp
next
  fix e v b d assume e: "e < n" "pcs s' e = Unlock v b \<or> pcs s' e = Restore v b" "d < n"
  then have "pcs s e = Unlock v b \<or> pcs s e = Restore v b" using same(3) [of e v b] by simp
  then show "\<not> stale s' d v" using shoot_invD(6) [OF inv e(1) _ e(3)] st by blast
qed (use c same shoot_invD(1,2) [OF inv] hd in \<open>auto\<close>)

lemma finite_todo [simp]: "finite (todo n s c)"
  by (simp add: todo_def)

lemma stale_goto [simp]: "stale (goto c p s) = stale s" "stale (send_invlpg i s) = stale s"
  by (rule stale_cong; simp)+

lemma send_step:
  assumes inv: "shoot_inv n s" and c: "c < n" "pcs s c = Send i v b" and i: "i < n"
  shows "shoot_inv n (goto c (Send (Suc i) v b) (if i = c then s else send_invlpg i s))"
proof -
  let ?s = "goto c (Send (Suc i) v b) (if i = c then s else send_invlpg i s)"
  have r: "round_ok n s c" using shoot_invD(4) [OF inv c(1)] c(2) by simp
  note r3 = round_okD(3) [OF r]
  have ci: "\<not> ipi s c" using r3 [OF c(1)] by (auto simp: owes_def)
  have ni: "\<not> owes s i" using r3 [OF i] c(2) by auto
  have ow: "owes ?s d \<longleftrightarrow> owes s d \<or> d = i \<and> i \<noteq> c" for d
    using ni ci c(2) by (cases "d = c"; cases "i = c"; cases "d = i") (auto simp: owes_def)
  have "todo n ?s c = todo n s c" using i c(2) by (auto simp: todo_def ow le_Suc_eq)
  show ?thesis
  proof (rule round_step [OF inv c(1)])
    show "round_ok n ?s c"
    proof (rule round_okI)
      show "target (pcs ?s c) = Some (invlpg_addr ?s)" using round_okD(1) [OF r] c(2) by simp
      show "invlpg_done_cnt ?s + int (card (todo n ?s c)) = int n"
        using round_okD(2) [OF r] \<open>todo n ?s c = todo n s c\<close> by simp
      show "d \<noteq> c \<and> \<not> unsent (pcs ?s c) d" if "d < n" "owes ?s d" for d
        using that r3 [OF that(1)] c(2) ow by auto
      show "\<not> stale ?s d (invlpg_addr ?s)"
        if "d < n" "d \<noteq> c" "\<not> unsent (pcs ?s c) d" "\<not> ipi ?s d" "pcs ?s d \<noteq> HInval" for d
        using that round_okD(4) [OF r that(1,2)] c(2) by (cases "d = i") (auto split: if_splits)
    qed simp
    show "pcs ?s d \<noteq> HInval \<and> pcs ?s d \<noteq> HAdd" if "d < n" "ipi ?s d" for d
      using that shoot_invD(5) [OF inv that(1)] ni by (cases "d = i") (auto simp: owes_def split: if_splits)
  qed (use c(2) in \<open>auto split: if_splits\<close>)
qed

text \<open>The steps of the invalidating processor after the last interrupt is sent.\<close>

lemma wait_steps:
  assumes inv: "shoot_inv n s" and c: "c < n"
    and p: "(\<exists>i \<ge> n. pcs s c = Send i v b) \<and> s' = goto c (Inval v b) s \<or> pcs s c = Inval v b \<and> s' = goto c (Wait v b) (pmap_invlpg c v s)"
  shows "shoot_inv n s'"
proof -
  have r: "round_ok n s c" using shoot_invD(4) [OF inv c] p by auto
  have b: "busy (pcs s c)" "busy (pcs s' c)" "holds (pcs s c)" "holds (pcs s' c)" using p by auto
  have v: "invlpg_addr s = v" "target (pcs s' c) = Some v" using round_okD(1) [OF r] p by auto
  have same: "pcs s' d = pcs s d" if "d \<noteq> c" for d using p that by auto
  have same': "ipi s' = ipi s" "invlpg_addr s' = invlpg_addr s" "invlpg_done_cnt s' = invlpg_done_cnt s"
      "invlpg_global_lock s' = invlpg_global_lock s" using p by auto
  have hc: "pcs s c \<noteq> HInval" "pcs s c \<noteq> HAdd" "pcs s' c \<noteq> HInval" "pcs s' c \<noteq> HAdd"
      "pcs s' c \<noteq> Unlock w x" "pcs s' c \<noteq> Restore w x" for w x using p by auto
  have hd: "(pcs s' d = HInval) = (pcs s d = HInval)" "(pcs s' d = HAdd) = (pcs s d = HAdd)" for d
    using same hc by (cases "d = c"; simp)+
  have st: "stale s' d w \<Longrightarrow> stale s d w" for d w using p by (auto simp: stale_invlpg)
  have ow: "owes s' = owes s" by (simp add: owes_def hd same' fun_eq_iff)
  have us: "unsent (pcs s' c) d = unsent (pcs s c) d" if "d < n" for d using p that by auto
  have td: "todo n s' c = todo n s c" using us by (auto simp: todo_def ow)
  show ?thesis
  proof (rule round_step [OF inv c b(1)])
    show "round_ok n s' c"
    proof (rule round_okI)
      show "d \<noteq> c \<and> \<not> unsent (pcs s' c) d" if "d < n" "owes s' d" for d
        using round_okD(3) [OF r that(1)] that us ow by simp
      show "\<not> stale s' d (invlpg_addr s')"
        if "d < n" "d \<noteq> c" "\<not> unsent (pcs s' c) d" "\<not> ipi s' d" "pcs s' d \<noteq> HInval" for d
        using round_okD(4) [OF r that(1,2)] that us [OF that(1)] st [of d] unfolding same' hd by blast
      show "\<not> stale s' c (invlpg_addr s')" if "pcs s' c = Wait w x" for w x
        using p that v by (auto simp: stale_invlpg)
    qed (use round_okD(2) [OF r] v same' td in simp_all)
    show "holds (pcs s' d) = holds (pcs s d)" "busy (pcs s' d) = busy (pcs s d)" for d
      using same [of d] b by (cases "d = c"; simp)+
    show "pcs s' d = pcs s d" if "pcs s' d = Unlock w x \<or> pcs s' d = Restore w x" for d w x
      using that hc same by (cases "d = c") auto
    show "pcs s' d \<noteq> HInval \<and> pcs s' d \<noteq> HAdd" if "d < n" "ipi s' d" for d
      using shoot_invD(5) [OF inv that(1)] that same' hd by simp
  qed (use same' st in simp_all)
qed

text \<open>The round that a debt belongs to.\<close>

lemma owes_round:
  assumes "shoot_inv n s" and "d < n" and "owes s d"
  obtains c where "c < n" and "busy (pcs s c)" and "round_ok n s c" and "d \<noteq> c" and "\<not> unsent (pcs s c) d"
proof -
  obtain c where c: "c < n" "busy (pcs s c)" using shoot_invD(3) [OF assms(1)] assms(2,3) by blast
  then have "round_ok n s c" by (rule shoot_invD(4) [OF assms(1)])
  then show ?thesis using that c round_okD(3) assms(2,3) by blast
qed

text \<open>The steps of the processor that serves the interrupt.\<close>

lemma handler_steps:
  assumes inv: "shoot_inv n s" and d: "d < n"
    and p: "pcs s d = Run True \<and> ipi s d \<and> s' = goto d HInval (s\<lparr>ipi := (ipi s)(d := False)\<rparr>) \<or>
      pcs s d = HInval \<and> s' = goto d HAdd (pmap_invlpg d (invlpg_addr s) s) \<or>
      pcs s d = HAdd \<and> s' = goto d HEoi (s\<lparr>invlpg_done_cnt := invlpg_done_cnt s + 1\<rparr>)"
  shows "shoot_inv n s'"
proof -
  have od: "owes s d" using p by (auto simp: owes_def)
  obtain c where c: "c < n" "busy (pcs s c)" and r: "round_ok n s c" and dc: "d \<noteq> c" and sd: "\<not> unsent (pcs s c) d"
    using owes_round [OF inv d od] .
  have same: "pcs s' e = pcs s e" "ipi s' e = ipi s e" "owes s' e = owes s e" if "e \<noteq> d" for e
    using p that by (auto simp: owes_def)
  have same': "invlpg_addr s' = invlpg_addr s" "invlpg_global_lock s' = invlpg_global_lock s" using p by auto
  have stl: "stale (s\<lparr>ipi := x\<rparr>) = stale s" "stale (s\<lparr>invlpg_done_cnt := y\<rparr>) = stale s" for x y
    by (rule stale_cong; simp)+
  have st: "stale s' e w \<Longrightarrow> stale s e w" for e w using p by (auto simp: stale_invlpg stl)
  have ipd: "\<not> ipi s' d" using p shoot_invD(5) [OF inv d] by auto
  have hb: "\<not> holds (pcs s d)" "\<not> holds (pcs s' d)" "\<not> busy (pcs s d)" "\<not> busy (pcs s' d)"
    "pcs s' d \<noteq> Unlock w x" "pcs s' d \<noteq> Restore w x" for w x using p by auto
  have cnt: "invlpg_done_cnt s' + int (card (todo n s' c)) = int n"
  proof (cases "pcs s d = HAdd")
    case True
    then have s': "s' = goto d HEoi (s\<lparr>invlpg_done_cnt := invlpg_done_cnt s + 1\<rparr>)" using p by auto
    then have "\<not> owes s' d" using ipd by (simp add: owes_def)
    then have "owes s' e \<longleftrightarrow> owes s e \<and> e \<noteq> d" for e using same(3) [of e] by (cases "e = d") auto
    then have "todo n s' c = todo n s c - {d}" using same(1) [of c] sd dc by (auto simp: todo_def)
    moreover have "d \<in> todo n s c" using d dc od by (simp add: todo_def)
    ultimately have "Suc (card (todo n s' c)) = card (todo n s c)" by (metis card_Suc_Diff1 finite_todo)
    then show ?thesis using round_okD(2) [OF r] s' by simp
  next
    case False
    then have "owes s' d" "invlpg_done_cnt s' = invlpg_done_cnt s" using p by (auto simp: owes_def)
    moreover have "owes s' e \<longleftrightarrow> owes s e" for e using same(3) [of e] od \<open>owes s' d\<close> by (cases "e = d") auto
    then have "todo n s' c = todo n s c" using same(1) [of c] dc by (simp add: todo_def)
    ultimately show ?thesis using round_okD(2) [OF r] by simp
  qed
  show ?thesis
  proof (rule round_step [OF inv c])
    show "round_ok n s' c"
    proof (rule round_okI)
      show "e \<noteq> c \<and> \<not> unsent (pcs s' c) e" if "e < n" "owes s' e" for e
        using that round_okD(3) [OF r that(1)] same dc sd by (cases "e = d") auto
      show "\<not> stale s' e (invlpg_addr s')"
        if "e < n" "e \<noteq> c" "\<not> unsent (pcs s' c) e" "\<not> ipi s' e" "pcs s' e \<noteq> HInval" for e
      proof (cases "e = d")
        case True
        have "\<not> ipi s d" if "pcs s d = HAdd" using shoot_invD(5) [OF inv d] that by blast
        then show ?thesis using p True that(5) same' round_okD(4) [OF r d dc sd] by (auto simp: stale_invlpg stl)
      next
        case False
        then show ?thesis using round_okD(4) [OF r that(1,2)] that same dc same' st by auto
      qed
      show "\<not> stale s' c (invlpg_addr s')" if "pcs s' c = Wait w x" for w x
        using round_okD(5) [OF r] that same dc same' st by auto
    qed (use round_okD(1) [OF r] same dc same' cnt in simp_all)
    show "holds (pcs s' e) = holds (pcs s e)" "busy (pcs s' e) = busy (pcs s e)" for e
      using same hb by (cases "e = d"; simp)+
    show "pcs s' e = pcs s e" if "pcs s' e = Unlock w x \<or> pcs s' e = Restore w x" for e w x
      using that hb same by (cases "e = d") auto
    show "pcs s' e \<noteq> HInval \<and> pcs s' e \<noteq> HAdd" if "e < n" "ipi s' e" for e
      using shoot_invD(5) [OF inv that(1)] that same ipd by (cases "e = d") auto
  qed (use same' st in simp_all)
qed

lemma start_round:
  assumes inv: "shoot_inv n s" and c: "c < n" "pcs s c = SetCnt v b" and a: "invlpg_addr s = v"
  shows "shoot_inv n (goto c (Send 0 v b) (s\<lparr>invlpg_done_cnt := 1\<rparr>))"
proof -
  let ?s = "goto c (Send 0 v b) (s\<lparr>invlpg_done_cnt := 1\<rparr>)"
  have only: "d = c" if "d < n" "holds (pcs s d)" for d using shoot_invD(2) [OF inv that(1) c(1) that(2)] c(2) by simp
  have "\<not> busy (pcs s d)" if "d < n" for d
    using only [OF that busy_holds] c(2) by auto
  then have no: "\<not> owes s d" if "d < n" for d using shoot_invD(3) [OF inv _ that] by blast
  then have ow: "\<not> owes ?s d" if "d < n" for d using that by (auto simp: owes_def)
  have st: "stale ?s = stale s" by (rule stale_cong) simp_all
  have "todo n ?s c = {0..<n} - {c}" by (auto simp: todo_def)
  then have card: "card (todo n ?s c) = n - 1" using c(1) by simp
  have only': "d = c" if "d < n" "holds (pcs ?s d)" for d
  proof (rule ccontr)
    assume "d \<noteq> c"
    then show False using only [OF that(1)] that(2) by simp
  qed
  show ?thesis
  proof (rule shoot_invI)
    fix d assume d: "d < n" "busy (pcs ?s d)"
    then have "d = c" using only [OF d(1)] busy_holds [of "pcs s d"] by (cases "d = c") simp_all
    moreover have "round_ok n ?s c"
      by (rule round_okI) (use a card c(1) ow in auto)
    ultimately show "round_ok n ?s d" by simp
  next
    fix e w x d assume e: "e < n" "pcs ?s e = Unlock w x \<or> pcs ?s e = Restore w x" "d < n"
    then have "pcs s e = Unlock w x \<or> pcs s e = Restore w x" by (cases "e = c") auto
    then show "\<not> stale ?s d w" using shoot_invD(6) [OF inv e(1) _ e(3)] st by auto
  next
    fix d assume "d < n" "ipi ?s d"
    then show "pcs ?s d \<noteq> HInval \<and> pcs ?s d \<noteq> HAdd" using ow [of d] by (auto simp: owes_def)
  next
    fix d assume d: "d < n" "holds (pcs ?s d)"
    show "invlpg_global_lock ?s" using shoot_invD(1) [OF inv c(1)] c(2) by simp
  next
    fix d e assume "d < n" "e < n" "holds (pcs ?s d)" "holds (pcs ?s e)"
    then show "d = e" using only' by blast
  next
    fix d assume "d < n"
    then show "\<not> owes ?s d" by (rule ow)
  qed
qed

lemma end_round:
  assumes inv: "shoot_inv n s" and c: "c < n" "pcs s c = Wait v b" and cnt: "invlpg_done_cnt s = int n"
  shows "shoot_inv n (goto c (Unlock v b) s)"
proof -
  let ?s = "goto c (Unlock v b) s"
  have r: "round_ok n s c" using shoot_invD(4) [OF inv c(1)] c(2) by simp
  have v: "invlpg_addr s = v" using round_okD(1) [OF r] c(2) by simp
  have "card (todo n s c) = 0" using round_okD(2) [OF r] cnt by simp
  then have no: "\<not> owes s d" if "d < n" for d using that round_okD(3) [OF r that] by (auto simp: todo_def)
  have fresh: "\<not> stale s d v" if "d < n" for d
  proof (cases "d = c")
    case False
    then show ?thesis using round_okD(4) [OF r that False] no [OF that] c(2) v by (auto simp: owes_def)
  qed (use round_okD(5) [OF r c(2)] v in simp)
  have only: "d = c" if "d < n" "holds (pcs s d)" for d using shoot_invD(2) [OF inv that(1) c(1) that(2)] c(2) by simp
  have ow: "\<not> owes ?s d" if "d < n" for d using no [OF that] by (auto simp: owes_def)
  have only': "d = c" if "d < n" "holds (pcs ?s d)" for d
  proof (rule ccontr)
    assume "d \<noteq> c"
    then show False using only [OF that(1)] that(2) by simp
  qed
  show ?thesis
  proof (rule shoot_invI)
    fix d assume d: "d < n" "busy (pcs ?s d)"
    then show "round_ok n ?s d" using only [OF d(1)] busy_holds [of "pcs s d"] by (cases "d = c") simp_all
  next
    fix e w x d assume e: "e < n" "pcs ?s e = Unlock w x \<or> pcs ?s e = Restore w x" "d < n"
    show "\<not> stale ?s d w"
    proof (cases "e = c")
      case False
      then show ?thesis using shoot_invD(6) [OF inv e(1) _ e(3)] e(2) by auto
    qed (use e fresh in auto)
  next
    fix d assume "d < n" "ipi ?s d"
    then show "pcs ?s d \<noteq> HInval \<and> pcs ?s d \<noteq> HAdd" using ow [of d] by (auto simp: owes_def)
  next
    fix d assume d: "d < n" "holds (pcs ?s d)"
    show "invlpg_global_lock ?s" using shoot_invD(1) [OF inv c(1)] c(2) by simp
  next
    fix d e assume "d < n" "e < n" "holds (pcs ?s d)" "holds (pcs ?s e)"
    then show "d = e" using only' by blast
  next
    fix d assume "d < n"
    then show "\<not> owes ?s d" by (rule ow)
  qed
qed

subsection \<open>Reachable states\<close>

definition addr_set :: "nat \<Rightarrow> tlb_sys \<Rightarrow> bool" where
  "addr_set n s \<longleftrightarrow> (\<forall>c < n. \<forall>v b. pcs s c = SetCnt v b \<longrightarrow> invlpg_addr s = v)"

lemma addr_set_step:
  assumes inv: "shoot_inv n s" "addr_set n s" and "tlb_step n s s'"
  shows "addr_set n s'"
  using assms(3)
proof cases
  case (code c)
  have one: "d = c" if "d < n" "holds (pcs s d)" "holds (pcs s c)" for d
    using shoot_invD(2) [OF inv(1) that(1) code(1) that(2,3)] .
  show ?thesis
    unfolding addr_set_def
  proof (intro allI impI)
    fix d v b assume d: "d < n" "pcs s' d = SetCnt v b"
    show "invlpg_addr s' = v"
    proof (cases "d = c")
      case True
      then show ?thesis using code(2) d(2) by (cases "pcs s c") (auto split: if_splits)
    next
      case False
      then have e: "pcs s d = SetCnt v b" using code(2) d(2) by (cases "pcs s c") (auto split: if_splits)
      then have "\<not> holds (pcs s c)" using one [OF d(1)] False by auto
      then have "invlpg_addr s' = invlpg_addr s" using code(2) by (cases "pcs s c") (auto split: if_splits)
      then show ?thesis using inv(2) d(1) e by (simp add: addr_set_def)
    qed
  qed
qed (use inv(2) in \<open>auto simp: addr_set_def\<close>)

lemma code_step_inv:
  assumes inv: "shoot_inv n s" "addr_set n s" and c: "c < n" and st: "shoot_step n c (pcs s c) s = Some s'"
  shows "shoot_inv n s'"
proof (cases "pcs s c")
  case (Send i v b)
  show ?thesis
  proof (cases "i < n")
    case True
    then show ?thesis using send_step [OF inv(1) c Send True] st Send by simp
  next
    case False
    then show ?thesis using wait_steps [OF inv(1) c, of v b s'] st Send by auto
  qed
next
  case (SetCnt v b)
  then show ?thesis using start_round [OF inv(1) c SetCnt] inv(2) c st by (auto simp: addr_set_def)
next
  case (Wait v b)
  then show ?thesis using end_round [OF inv(1) c Wait] st by (auto split: if_splits)
next
  case (Inval v b)
  then show ?thesis using wait_steps [OF inv(1) c, of v b s'] st by simp
next
  case HInval
  then show ?thesis using handler_steps [OF inv(1) c, of s'] st by simp
next
  case HAdd
  then show ?thesis using handler_steps [OF inv(1) c, of s'] st by simp
next
  case (Run b)
  then show ?thesis using st by simp
next
  case (Lock v b)
  then show ?thesis using st by (intro quiet_step [OF inv(1) c, of s']) (auto split: if_splits)
next
  case (SetAddr v b)
  then have "invlpg_global_lock s" using shoot_invD(1) [OF inv(1) c] by simp
  then show ?thesis using st SetAddr by (intro quiet_step [OF inv(1) c, of s']) auto
next
  case (Unlock v b)
  then show ?thesis using st by (intro quiet_step [OF inv(1) c, of s']) auto
next
  case (Restore v b)
  then show ?thesis using st by (intro quiet_step [OF inv(1) c, of s']) auto
next
  case HEoi
  then show ?thesis using st by (intro quiet_step [OF inv(1) c, of s']) auto
qed

lemma tlb_step_inv:
  assumes inv: "shoot_inv n s" "addr_set n s" and "tlb_step n s s'"
  shows "shoot_inv n s'"
  using assms(3)
proof cases
  case (code c)
  then show ?thesis by (rule code_step_inv [OF inv])
next
  case (call c b v)
  then show ?thesis by (intro quiet_step [OF inv(1) call(2), of s']) auto
next
  case (interrupt c)
  then show ?thesis using handler_steps [OF inv(1) interrupt(2), of s'] by simp
next
  case (flag c b)
  then show ?thesis by (intro quiet_step [OF inv(1) flag(2), of s']) auto
next
  case (fill c v p)
  then show ?thesis by (intro memory_step [OF inv(1)]) (auto simp: stale_def split: if_splits)
next
  case (evict c v)
  then show ?thesis by (intro memory_step [OF inv(1)]) (auto simp: stale_def split: if_splits)
next
  case (change v x)
  then show ?thesis by (intro memory_step [OF inv(1)]) (auto simp: stale_def split: if_splits)
qed

lemma reach_inv: "tlb_reach n s \<Longrightarrow> shoot_inv n s \<and> addr_set n s"
proof (induction rule: tlb_reach.induct)
  case (start s)
  then have "addr_set n s" unfolding init_sys_def addr_set_def by (metis shoot_pc.distinct(5))
  then show ?case using init_inv [OF start] by simp
next
  case (step s s')
  then show ?case using tlb_step_inv addr_set_step by blast
qed

subsection \<open>Executions\<close>

text \<open>Schedules of code steps, calls and interrupts, run by a function.\<close>

datatype shoot_event = Code nat | Call nat u64 | Irq nat

fun shoot_ev :: "nat \<Rightarrow> shoot_event \<Rightarrow> tlb_sys \<Rightarrow> tlb_sys option" where
  "shoot_ev n (Code c) s = (if c < n then shoot_step n c (pcs s c) s else None)"
| "shoot_ev n (Call c v) s =
     (case pcs s c of Run b \<Rightarrow> if c < n then Some (goto c (Lock v b) s) else None | _ \<Rightarrow> None)"
| "shoot_ev n (Irq c) s =
     (if c < n \<and> pcs s c = Run True \<and> ipi s c then Some (goto c HInval (s\<lparr>ipi := (ipi s)(c := False)\<rparr>)) else None)"

fun shoot_run :: "nat \<Rightarrow> shoot_event list \<Rightarrow> tlb_sys \<Rightarrow> tlb_sys option" where
  "shoot_run n [] s = Some s"
| "shoot_run n (e # es) s = do { s' \<leftarrow> shoot_ev n e s; shoot_run n es s' }"

lemma shoot_ev_step: "shoot_ev n e s = Some s' \<Longrightarrow> tlb_step n s s'"
  by (cases e) (auto split: shoot_pc.splits if_splits intro: tlb_step.intros)

lemma shoot_run_reach: "shoot_run n es s = Some s' \<Longrightarrow> tlb_reach n s \<Longrightarrow> tlb_reach n s'"
proof (induction es arbitrary: s)
  case (Cons e es)
  then obtain t where "shoot_ev n e s = Some t" "shoot_run n es t = Some s'" by (auto simp: bind_eq_Some_conv)
  then show ?case using Cons.IH [of t] tlb_reach.step [OF Cons.prems(2) shoot_ev_step] by blast
qed simp

definition tlb_start :: "(u64 \<Rightarrow> u64 option) \<Rightarrow> tlb_sys" where
  "tlb_start t = \<lparr>invlpg_global_lock = False, invlpg_addr = 0, invlpg_done_cnt = 0, pcs = (\<lambda>_. Run True), ipi = (\<lambda>_. False),
     tlb = (\<lambda>_. t), pt = (\<lambda>_. None)\<rparr>"

lemma tlb_start_reach: "tlb_reach n (tlb_start t)"
  by (rule tlb_reach.start) (auto simp: init_sys_def tlb_start_def)

text \<open>(C35) However the processors interleave, when pmap_global_invlpg of a page has
  released its lock no processor holds a translation of that page other than the one in the page
  tables, provided that nobody else changes that entry during the call.\<close>

theorem shootdown_safe:
  assumes "tlb_reach n s" and "c < n" and "pcs s c = Restore v b" and "d < n"
  shows "tlb s d v = None \<or> tlb s d v = pt s v"
  using shoot_invD(6) [OF conjunct1 [OF reach_inv [OF assms(1)]] assms(2) _ assms(4)] assms(3) by (auto simp: stale_def)

theorem shootdown_safe_witness:
  "\<exists>s. shoot_run 2 [Call 0 0x1000, Code 0, Code 0, Code 0, Code 0, Code 0, Code 0, Irq 1, Code 1, Code 1, Code 0, Code 0, Code 0]
       (tlb_start (\<lambda>_. Some 7)) = Some s \<and> (tlb s 1 0x1000 = None \<or> tlb s 1 0x1000 = pt s 0x1000)"
proof -
  define s where "s = the (shoot_run 2 [Call 0 0x1000, Code 0, Code 0, Code 0, Code 0, Code 0, Code 0, Irq 1, Code 1, Code 1,
    Code 0, Code 0, Code 0] (tlb_start (\<lambda>_. Some 7)))"
  have run: "shoot_run 2 [Call 0 0x1000, Code 0, Code 0, Code 0, Code 0, Code 0, Code 0, Irq 1, Code 1, Code 1,
    Code 0, Code 0, Code 0] (tlb_start (\<lambda>_. Some 7)) = Some s" and pc: "pcs s 0 = Restore 0x1000 True"
    unfolding s_def by (simp_all add: tlb_start_def)
  have "tlb s 1 0x1000 = None \<or> tlb s 1 0x1000 = pt s 0x1000"
    by (rule shootdown_safe [OF shoot_run_reach [OF run tlb_start_reach] _ pc]) simp_all
  then show ?thesis using run by blast
qed

lemma deadlock_forever:
  assumes "(tlb_step 2)\<^sup>*\<^sup>* s s'" and "pcs s 0 = Wait v x" and "pcs s (Suc 0) = Lock w y"
    and "invlpg_global_lock s" and "invlpg_done_cnt s = 1"
  shows "pcs s' 0 = Wait v x \<and> pcs s' (Suc 0) = Lock w y \<and> invlpg_global_lock s' \<and> invlpg_done_cnt s' = 1"
  using assms(1)
proof (induction rule: rtranclp_induct)
  case (step t u)
  have two: "c = 0 \<or> c = Suc 0" if "c < 2" for c :: nat using that by auto
  from step(2) show ?case
    by cases (use step(3) in \<open>auto dest!: two\<close>)
qed (use assms in simp)

text \<open>Both processors call \<^verbatim>\<open>pmap_global_invlpg\<close>: the second spins for the lock with interrupts disabled.\<close>

text \<open>(C36) Two processors can deadlock in pmap_global_invlpg: each disables interrupts
  before it takes the lock, so one spins on the lock and never takes the interrupt that the other
  waits for. From the state shown no continuation lets either go on.\<close>

theorem shootdown_deadlock:
  "\<exists>s. tlb_reach 2 s \<and> (\<forall>s'. (tlb_step 2)\<^sup>*\<^sup>* s s' \<longrightarrow> pcs s' 0 = Wait v True \<and> pcs s' 1 = Lock w True)"
proof -
  define s where "s = the (shoot_run 2 [Call 0 v, Call 1 w, Code 0, Code 0, Code 0, Code 0, Code 0, Code 0, Code 0]
    (tlb_start (\<lambda>_. None)))"
  have run: "shoot_run 2 [Call 0 v, Call 1 w, Code 0, Code 0, Code 0, Code 0, Code 0, Code 0, Code 0] (tlb_start (\<lambda>_. None)) = Some s"
    and st: "pcs s 0 = Wait v True" "pcs s (Suc 0) = Lock w True" "invlpg_global_lock s" "invlpg_done_cnt s = 1"
    unfolding s_def by (simp_all add: tlb_start_def)
  have "tlb_reach 2 s" by (rule shoot_run_reach [OF run tlb_start_reach])
  then show ?thesis using deadlock_forever [OF _ st] by auto
qed

theorem shootdown_deadlock_witness:
  "\<exists>s. tlb_reach 2 s \<and> pcs s 0 = Wait 0x1000 True \<and> pcs s 1 = Lock 0x2000 True"
  using shootdown_deadlock [of "0x1000" "0x2000"] by blast

subsection \<open>Progress\<close>

text \<open>A processor that does not wait for the lock can always serve its interrupt.\<close>

fun serving :: "shoot_pc \<Rightarrow> bool" where
  "serving (Run x) = True"
| "serving HInval = True"
| "serving HAdd = True"
| "serving HEoi = True"
| "serving _ = False"

definition only_moves :: "nat \<Rightarrow> tlb_sys \<Rightarrow> tlb_sys \<Rightarrow> bool" where
  "only_moves d s s' \<longleftrightarrow> (\<forall>e. e \<noteq> d \<longrightarrow> pcs s' e = pcs s e \<and> ipi s' e = ipi s e)"

definition serves :: "nat \<Rightarrow> nat \<Rightarrow> tlb_sys \<Rightarrow> bool" where
  "serves n d s \<longleftrightarrow> (\<exists>s'. (tlb_step n)\<^sup>*\<^sup>* s s' \<and> only_moves d s s' \<and> serving (pcs s' d) \<and> \<not> owes s' d)"

lemma serves_step:
  assumes "tlb_step n s t" and "only_moves d s t" and "serves n d t"
  shows "serves n d s"
proof -
  obtain s' where "(tlb_step n)\<^sup>*\<^sup>* t s'" "only_moves d t s'" "serving (pcs s' d)" "\<not> owes s' d"
    using assms(3) by (auto simp: serves_def)
  moreover have "only_moves d s s'" using assms(2) \<open>only_moves d t s'\<close> by (simp add: only_moves_def)
  ultimately show ?thesis using assms(1) by (auto simp: serves_def intro: converse_rtranclp_into_rtranclp)
qed

lemma serves_add: "d < n \<Longrightarrow> pcs s d = HAdd \<Longrightarrow> \<not> ipi s d \<Longrightarrow> serves n d s"
  unfolding serves_def
  by (rule exI [of _ "goto d HEoi (s\<lparr>invlpg_done_cnt := invlpg_done_cnt s + 1\<rparr>)"])
    (auto simp: only_moves_def owes_def intro!: r_into_rtranclp tlb_step.code [of d])

lemma serves_inval:
  assumes "d < n" and "pcs s d = HInval" and "\<not> ipi s d"
  shows "serves n d s"
  by (rule serves_step [where t = "goto d HAdd (pmap_invlpg d (invlpg_addr s) s)"])
    (use assms in \<open>auto simp: only_moves_def intro!: tlb_step.code [of d] serves_add\<close>)

lemma serves_run:
  assumes "d < n" and "pcs s d = Run x" and "ipi s d"
  shows "serves n d s"
proof -
  have on: "serves n d t" if "pcs t d = Run True" "ipi t d" for t
    by (rule serves_step [OF tlb_step.interrupt]) (use assms(1) that in \<open>auto simp: only_moves_def intro!: serves_inval\<close>)
  show ?thesis
  proof (cases x)
    case False
    have "serves n d (goto d (Run True) s)" using assms(3) by (intro on) simp_all
    then show ?thesis using serves_step [OF tlb_step.flag [of d n s False]] assms False by (simp add: only_moves_def)
  qed (use assms on in simp)
qed

lemma serves_debt:
  assumes inv: "shoot_inv n s" and d: "d < n" "owes s d" "serving (pcs s d)"
  shows "serves n d s"
proof (cases "pcs s d")
  case (Run x)
  then show ?thesis using d by (auto simp: owes_def intro: serves_run)
next
  case HEoi
  then have "ipi s d" using d(2) by (simp add: owes_def)
  then have "serves n d (goto d (Run True) s)" using d(1) by (intro serves_run) simp_all
  then show ?thesis
    using serves_step [OF tlb_step.code [OF d(1)]] HEoi by (simp add: only_moves_def)
qed (use d shoot_invD(5) [OF inv d(1)] in \<open>auto intro: serves_inval serves_add\<close>)

text \<open>(C37) A processor that waits for the others in pmap_global_invlpg can get to the end
  of it from every reachable state in which none of the others is itself in that function.\<close>

theorem shootdown_completes:
  assumes "tlb_reach n s" and "c < n" and "pcs s c = Wait v b" and "\<And>d. d < n \<Longrightarrow> d \<noteq> c \<Longrightarrow> serving (pcs s d)"
  shows "\<exists>s'. (tlb_step n)\<^sup>*\<^sup>* s s' \<and> pcs s' c = Restore v b"
  using assms
proof (induction "card (todo n s c)" arbitrary: s rule: less_induct)
  case less
  have inv: "shoot_inv n s" using reach_inv [OF less.prems(1)] by simp
  have r: "round_ok n s c" using shoot_invD(4) [OF inv less.prems(2)] less.prems(3) by simp
  show ?case
  proof (cases "todo n s c = {}")
    case True
    then have "invlpg_done_cnt s = int n" using round_okD(2) [OF r] by simp
    then have "tlb_step n s (goto c (Unlock v b) s)" using less.prems(2,3) by (intro tlb_step.code [of c]) simp_all
    moreover have "tlb_step n (goto c (Unlock v b) s) (goto c (Restore v b) (goto c (Unlock v b) s\<lparr>invlpg_global_lock := False\<rparr>))"
      using less.prems(2) by (intro tlb_step.code [of c]) simp_all
    ultimately have "(tlb_step n)\<^sup>*\<^sup>* s (goto c (Restore v b) (goto c (Unlock v b) s\<lparr>invlpg_global_lock := False\<rparr>))"
      by (auto intro: converse_rtranclp_into_rtranclp)
    then show ?thesis using goto_simps(1) by (metis fun_upd_same)
  next
    case False
    then obtain d where d: "d \<in> todo n s c" by blast
    then have dn: "d < n" "d \<noteq> c" "owes s d" using less.prems(3) by (simp_all add: todo_def)
    obtain s' where s': "(tlb_step n)\<^sup>*\<^sup>* s s'" "only_moves d s s'" "serving (pcs s' d)" "\<not> owes s' d"
      using serves_debt [OF inv dn(1,3) less.prems(4) [OF dn(1,2)]] by (auto simp: serves_def)
    have "owes s' e \<Longrightarrow> owes s e \<and> e \<noteq> d" for e using s'(2,4) by (cases "e = d") (auto simp: only_moves_def owes_def)
    moreover have "pcs s' c = Wait v b" using s'(2) dn(2) less.prems(3) by (simp add: only_moves_def)
    ultimately have "todo n s' c \<subseteq> todo n s c - {d}" by (auto simp: todo_def)
    then have "card (todo n s' c) < card (todo n s c)" using d by (intro psubset_card_mono) auto
    moreover have "tlb_reach n s'" using s'(1) less.prems(1) by (induction rule: rtranclp_induct) (auto intro: tlb_reach.step)
    moreover have "serving (pcs s' e)" if "e < n" "e \<noteq> c" for e
      using less.prems(4) [OF that] s'(2,3) by (cases "e = d") (auto simp: only_moves_def)
    ultimately obtain s'' where "(tlb_step n)\<^sup>*\<^sup>* s' s''" "pcs s'' c = Restore v b"
      using less.hyps [of s'] \<open>pcs s' c = Wait v b\<close> less.prems(2) by blast
    then show ?thesis using s'(1) by (meson rtranclp_trans)
  qed
qed

theorem shootdown_completes_witness:
  "\<exists>s s'. tlb_reach 2 s \<and> pcs s 0 = Wait 0x1000 True \<and> (tlb_step 2)\<^sup>*\<^sup>* s s' \<and> pcs s' 0 = Restore 0x1000 True"
proof -
  define s where "s = the (shoot_run 2 [Call 0 0x1000, Code 0, Code 0, Code 0, Code 0, Code 0, Code 0, Code 0] (tlb_start (\<lambda>_. None)))"
  have run: "shoot_run 2 [Call 0 0x1000, Code 0, Code 0, Code 0, Code 0, Code 0, Code 0, Code 0] (tlb_start (\<lambda>_. None)) = Some s"
    and st: "pcs s 0 = Wait 0x1000 True" "pcs s 1 = Run True"
    unfolding s_def by (simp_all add: tlb_start_def)
  have reach: "tlb_reach 2 s" by (rule shoot_run_reach [OF run tlb_start_reach])
  have "serving (pcs s d)" if "d < 2" "d \<noteq> 0" for d :: nat using that st(2) by (cases "d = 1") auto
  then show ?thesis using shootdown_completes [OF reach _ st(1)] reach st(1) by auto
qed

end
