(* ===== verification/Liballoc.thy ===== *)
theory Liballoc
  imports Prelude
begin

unbundle bit_operations_syntax

text \<open>
  The allocator that \<^verbatim>\<open>libkern/klib_libc.h\<close> exposes as \<^verbatim>\<open>malloc\<close> to the Objective-C runtime: \<^verbatim>\<open>kern/liballoc.c\<close> over
  \<^verbatim>\<open>kern/liballoc_sysdep.c\<close>. Memory from the system is a list of major blocks; every major begins with
  its structure and holds a list of minors, each in front of the memory handed out. The two kinds of
  structure and the remaining bytes are three memories; that they do not overlap is what the
  invariant of \<open>Liballoc_Inv\<close> is about. The system's pages are a parameter. The lock around every
  call makes the calls sequential and is not part of the state; messages are not printed.
\<close>

subsection \<open>State\<close>

record liballoc_major =
  mj_prev :: u64
  mj_next :: u64
  mj_pages :: u32
  mj_size :: u32
  mj_usage :: u32
  mj_first :: u64

record liballoc_minor =
  mn_prev :: u64
  mn_next :: u64
  mn_block :: u64
  mn_magic :: u32
  mn_size :: u32
  mn_req_size :: u32

record 'k liballoc =
  l_memRoot :: u64
  l_bestBet :: u64
  l_allocated :: u64
  l_inuse :: u64
  l_warningCount :: int
  l_errorCount :: int
  l_possibleOverruns :: int
  la_major :: "u64 \<Rightarrow> liballoc_major"
  la_minor :: "u64 \<Rightarrow> liballoc_minor"
  la_bytes :: "u64 \<Rightarrow> u8"
  la_sys :: 'k

text \<open>\<^verbatim>\<open>liballoc_alloc\<close> and \<^verbatim>\<open>liballoc_free\<close> of the system, with a number of pages.\<close>

record 'k la_env =
  le_alloc :: "u64 \<Rightarrow> 'k \<Rightarrow> (u64 \<times> 'k) option"
  le_free :: "u64 \<Rightarrow> u64 \<Rightarrow> 'k \<Rightarrow> 'k option"

definition ALIGNMENT :: u64 where "ALIGNMENT = 16"
definition ALIGN_INFO :: u64 where "ALIGN_INFO = 16"
definition LIBALLOC_MAGIC :: u32 where "LIBALLOC_MAGIC = 0xc001c0de"
definition LIBALLOC_DEAD :: u32 where "LIBALLOC_DEAD = 0xdeaddead"
definition l_pageSize :: u32 where "l_pageSize = 4096"
definition l_pageCount :: u32 where "l_pageCount = 16"
definition sizeof_major :: u64 where "sizeof_major = 40"
definition sizeof_minor :: u64 where "sizeof_minor = 40"

definition upd_major :: "u64 \<Rightarrow> (liballoc_major \<Rightarrow> liballoc_major) \<Rightarrow> 'k liballoc \<Rightarrow> 'k liballoc" where
  "upd_major a f s = s\<lparr>la_major := (la_major s)(a := f (la_major s a))\<rparr>"

definition upd_minor :: "u64 \<Rightarrow> (liballoc_minor \<Rightarrow> liballoc_minor) \<Rightarrow> 'k liballoc \<Rightarrow> 'k liballoc" where
  "upd_minor a f s = s\<lparr>la_minor := (la_minor s)(a := f (la_minor s a))\<rparr>"

text \<open>The macros \<^verbatim>\<open>ALIGN\<close> and \<^verbatim>\<open>UNALIGN\<close>; the byte in front of an aligned pointer is a signed character.\<close>

definition align_up :: "u64 \<Rightarrow> u64" where
  "align_up p = (let ptr = p + ALIGN_INFO; diff = ptr AND (ALIGNMENT - 1) in
     if diff \<noteq> 0 then ptr + (ALIGNMENT - diff) else ptr)"

definition ALIGN :: "u64 \<Rightarrow> 'k liballoc \<Rightarrow> u64 \<times> 'k liballoc" where
  "ALIGN p s = (let ptr = p + ALIGN_INFO; diff = ptr AND (ALIGNMENT - 1);
     diff' = (if diff \<noteq> 0 then ALIGNMENT - diff else diff); ptr' = ptr + diff'
     in (ptr', s\<lparr>la_bytes := (la_bytes s)(ptr' - ALIGN_INFO := ucast (diff' + ALIGN_INFO))\<rparr>))"

definition UNALIGN :: "u64 \<Rightarrow> 'k liballoc \<Rightarrow> u64" where
  "UNALIGN ptr s = (let diff = scast (la_bytes s (ptr - ALIGN_INFO)) in
     if diff < ALIGNMENT + ALIGN_INFO then ptr - diff else ptr)"

subsection \<open>Majors\<close>

text \<open>The argument of \<^verbatim>\<open>allocate_new_page\<close> is an \<^verbatim>\<open>unsigned int\<close>: larger sizes are cut.\<close>

definition major_pages :: "u32 \<Rightarrow> u32" where
  "major_pages sz = (let st = sz + ucast sizeof_major + ucast sizeof_minor;
     st' = (if st mod l_pageSize = 0 then st div l_pageSize else st div l_pageSize + 1)
     in if st' < l_pageCount then l_pageCount else st')"

definition allocate_new_page :: "'k la_env \<Rightarrow> u32 \<Rightarrow> 'k liballoc \<Rightarrow> (u64 \<times> 'k liballoc) option" where
  "allocate_new_page e sz s = do {
     let st = major_pages sz;
     (maj, k) \<leftarrow> le_alloc e (ucast st) (la_sys s);
     let s1 = s\<lparr>la_sys := k\<rparr>;
     if maj = 0 then Some (0, s1\<lparr>l_warningCount := l_warningCount s1 + 1\<rparr>)
     else do {
       let m = \<lparr>mj_prev = 0, mj_next = 0, mj_pages = st, mj_size = st * l_pageSize, mj_usage = ucast sizeof_major, mj_first = 0\<rparr>;
       Some (maj, s1\<lparr>la_major := (la_major s1)(maj := m), l_allocated := l_allocated s1 + ucast (mj_size m)\<rparr>)
     }
   }"

subsection \<open>Placing a minor\<close>

text \<open>What all cases write into a new minor, and what they do to its major.\<close>

definition new_minor :: "u64 \<Rightarrow> u64 \<Rightarrow> u64 \<Rightarrow> u64 \<Rightarrow> u64 \<Rightarrow> liballoc_minor" where
  "new_minor prv nxt maj sz req = \<lparr>mn_prev = prv, mn_next = nxt, mn_block = maj, mn_magic = LIBALLOC_MAGIC,
     mn_size = ucast sz, mn_req_size = ucast req\<rparr>"

definition account :: "u64 \<Rightarrow> u64 \<Rightarrow> u64 \<Rightarrow> 'k liballoc \<Rightarrow> u64 \<times> 'k liballoc" where
  "account maj mn sz s =
     ALIGN (mn + sizeof_minor)
       (upd_major maj (\<lambda>m. m\<lparr>mj_usage := mj_usage m + ucast (sz + sizeof_minor)\<rparr>) s\<lparr>l_inuse := l_inuse s + sz\<rparr>)"

text \<open>Case 2: a brand new block.\<close>

definition place_new :: "u64 \<Rightarrow> u64 \<Rightarrow> u64 \<Rightarrow> 'k liballoc \<Rightarrow> u64 \<times> 'k liballoc" where
  "place_new maj sz req s = (let mn = maj + sizeof_major in
     account maj mn sz (upd_minor mn (\<lambda>_. new_minor 0 0 maj sz req) (upd_major maj (\<lambda>m. m\<lparr>mj_first := mn\<rparr>) s)))"

text \<open>Case 3: space at the start of the block.\<close>

definition place_front :: "u64 \<Rightarrow> u64 \<Rightarrow> u64 \<Rightarrow> 'k liballoc \<Rightarrow> u64 \<times> 'k liballoc" where
  "place_front maj sz req s = (let mn = maj + sizeof_major; old = mj_first (la_major s maj) in
     account maj mn sz (upd_minor mn (\<lambda>_. new_minor 0 old maj sz req)
       (upd_major maj (\<lambda>m. m\<lparr>mj_first := mn\<rparr>) (upd_minor old (\<lambda>m. m\<lparr>mn_prev := mn\<rparr>) s))))"

text \<open>Case 4.1: space behind the last minor.\<close>

definition place_end :: "u64 \<Rightarrow> u64 \<Rightarrow> u64 \<Rightarrow> u64 \<Rightarrow> 'k liballoc \<Rightarrow> u64 \<times> 'k liballoc" where
  "place_end maj mn sz req s = (let new = mn + sizeof_minor + ucast (mn_size (la_minor s mn)) in
     account maj new sz (upd_minor new (\<lambda>_. new_minor mn 0 maj sz req) (upd_minor mn (\<lambda>m. m\<lparr>mn_next := new\<rparr>) s)))"

text \<open>Case 4.2: space between two minors.\<close>

definition place_between :: "u64 \<Rightarrow> u64 \<Rightarrow> u64 \<Rightarrow> u64 \<Rightarrow> 'k liballoc \<Rightarrow> u64 \<times> 'k liballoc" where
  "place_between maj mn sz req s = (let new = mn + sizeof_minor + ucast (mn_size (la_minor s mn)); nxt = mn_next (la_minor s mn) in
     account maj new sz (upd_minor mn (\<lambda>m. m\<lparr>mn_next := new\<rparr>) (upd_minor nxt (\<lambda>m. m\<lparr>mn_prev := new\<rparr>)
       (upd_minor new (\<lambda>_. new_minor mn nxt maj sz req) s))))"

text \<open>The loop of case 4: the first minor with enough space behind it.\<close>

partial_function (option) find_gap :: "u64 \<Rightarrow> u64 \<Rightarrow> u64 \<Rightarrow> 'k liballoc \<Rightarrow> u64 option option" where
  "find_gap maj sz mn s =
     (if mn = 0 then Some None
      else let m = la_minor s mn;
               behind = (if mn_next m = 0 then maj + ucast (mj_size (la_major s maj)) else mn_next m);
               diff = behind - mn - sizeof_minor - ucast (mn_size m)
           in if diff \<ge> sz + sizeof_minor then Some (Some mn) else find_gap maj sz (mn_next m) s)"

text \<open>Cases 2 to 4 in one major: the pointer and the state, or nothing when there is no room.\<close>

definition place_in :: "u64 \<Rightarrow> u64 \<Rightarrow> u64 \<Rightarrow> 'k liballoc \<Rightarrow> (u64 \<times> 'k liballoc) option option" where
  "place_in maj sz req s = (let first = mj_first (la_major s maj) in
     if first = 0 then Some (Some (place_new maj sz req s))
     else if first - maj - sizeof_major \<ge> sz + sizeof_minor then Some (Some (place_front maj sz req s))
     else do {
       gap \<leftarrow> find_gap maj sz first s;
       Some (case gap of
           None \<Rightarrow> None
         | Some mn \<Rightarrow> Some (if mn_next (la_minor s mn) = 0 then place_end maj mn sz req s else place_between maj mn sz req s))
     })"

subsection \<open>malloc\<close>

text \<open>\<^verbatim>\<open>maj->next = allocate_new_page(size); maj->next->prev = maj;\<close>\<close>

definition extend :: "'k la_env \<Rightarrow> u64 \<Rightarrow> u64 \<Rightarrow> 'k liballoc \<Rightarrow> (u64 \<times> 'k liballoc) option" where
  "extend e maj sz s = do {
     (n, s1) \<leftarrow> allocate_new_page e (ucast sz) s;
     let s2 = upd_major maj (\<lambda>m. m\<lparr>mj_next := n\<rparr>) s1;
     Some (n, if n = 0 then s2 else upd_major n (\<lambda>m. m\<lparr>mj_prev := maj\<rparr>) s2)
   }"

text \<open>
  Case 1: whether the loop goes on with another major at once, and with which. A null pointer ends
  the loop.
\<close>

definition case1 :: "'k la_env \<Rightarrow> u64 \<Rightarrow> bool \<Rightarrow> u64 \<Rightarrow> 'k liballoc \<Rightarrow> (bool \<times> u64 \<times> bool \<times> 'k liballoc) option" where
  "case1 e maj startedBet sz s = (let m = la_major s maj; diff = ucast (mj_size m - mj_usage m) in
     if diff < sz + sizeof_minor
     then if mj_next m \<noteq> 0 then Some (True, mj_next m, startedBet, s)
          else if startedBet then Some (True, l_memRoot s, False, s)
          else do { (n, s1) \<leftarrow> extend e maj sz s; Some (n = 0, n, startedBet, s1) }
     else Some (False, maj, startedBet, s))"

text \<open>Case 5: the block is full.\<close>

definition case5 :: "'k la_env \<Rightarrow> u64 \<Rightarrow> bool \<Rightarrow> u64 \<Rightarrow> 'k liballoc \<Rightarrow> (u64 \<times> bool \<times> 'k liballoc) option" where
  "case5 e maj startedBet sz s =
     (if mj_next (la_major s maj) = 0
      then if startedBet then Some (l_memRoot s, False, s)
           else do { (n, s1) \<leftarrow> extend e maj sz s; Some (n, startedBet, s1) }
      else Some (mj_next (la_major s maj), startedBet, s))"

definition more_room :: "u64 \<Rightarrow> u64 \<times> 'k liballoc \<Rightarrow> u64 \<times> 'k liballoc" where
  "more_room maj = (\<lambda>(bestSize, s). let m = la_major s maj; diff = ucast (mj_size m - mj_usage m) in
     if bestSize < diff then (diff, s\<lparr>l_bestBet := maj\<rparr>) else (bestSize, s))"

partial_function (option) malloc_loop ::
  "'k la_env \<Rightarrow> u64 \<Rightarrow> u64 \<Rightarrow> u64 \<Rightarrow> bool \<Rightarrow> u64 \<Rightarrow> 'k liballoc \<Rightarrow> (u64 \<times> 'k liballoc) option" where
  "malloc_loop e sz req maj startedBet bestSize s =
     (if maj = 0 then Some (0, s)
      else do {
        let (best, s1) = more_room maj (bestSize, s);
        (again, m, started, s2) \<leftarrow> case1 e maj startedBet sz s1;
        if again then malloc_loop e sz req m started best s2
        else do {
          r \<leftarrow> place_in m sz req s2;
          (case r of
             Some ps \<Rightarrow> Some ps
           | None \<Rightarrow> do {
               (m', started', s3) \<leftarrow> case5 e m started sz s2;
               malloc_loop e sz req m' started' best s3
             })
        }
      })"

definition malloc_at :: "'k la_env \<Rightarrow> u64 \<Rightarrow> u64 \<Rightarrow> 'k liballoc \<Rightarrow> (u64 \<times> 'k liballoc) option" where
  "malloc_at e sz req s = do {
     (root, s1) \<leftarrow> (if l_memRoot s = 0
        then do { (a, s') \<leftarrow> allocate_new_page e (ucast sz) s; Some (a, s'\<lparr>l_memRoot := a\<rparr>) }
        else Some (l_memRoot s, s));
     if root = 0 then Some (0, s1)
     else let b = la_major s1 (l_bestBet s1);
              bestSize = (if l_bestBet s1 \<noteq> 0 then ucast (mj_size b - mj_usage b) else 0);
              bet = (l_bestBet s1 \<noteq> 0 \<and> bestSize > sz + sizeof_minor)
          in malloc_loop e sz req (if bet then l_bestBet s1 else root) bet bestSize s1
   }"

text \<open>A size of 0 after the room for alignment is added counts as a warning and asks for one byte.\<close>

definition malloc :: "'k la_env \<Rightarrow> u64 \<Rightarrow> 'k liballoc \<Rightarrow> (u64 \<times> 'k liballoc) option" where
  "malloc e req s = (let sz = req + (ALIGNMENT + ALIGN_INFO) in
     if sz = 0 then malloc_at e (1 + (ALIGNMENT + ALIGN_INFO)) 1 (s\<lparr>l_warningCount := l_warningCount s + 1\<rparr>)
     else malloc_at e sz req s)"

subsection \<open>free\<close>

text \<open>The check of the magic number, shared with \<^verbatim>\<open>realloc\<close>.\<close>

definition bad_magic :: "u32 \<Rightarrow> 'k liballoc \<Rightarrow> 'k liballoc" where
  "bad_magic magic s = (let s1 = s\<lparr>l_errorCount := l_errorCount s + 1\<rparr> in
     if magic AND 0xFFFFFF = LIBALLOC_MAGIC AND 0xFFFFFF \<or> magic AND 0xFFFF = LIBALLOC_MAGIC AND 0xFFFF \<or>
        magic AND 0xFF = LIBALLOC_MAGIC AND 0xFF
     then s1\<lparr>l_possibleOverruns := l_possibleOverruns s1 + 1\<rparr> else s1)"

definition unlink_minor :: "u64 \<Rightarrow> 'k liballoc \<Rightarrow> 'k liballoc" where
  "unlink_minor mn s = (let m = la_minor s mn; maj = mn_block m;
     s1 = upd_major maj (\<lambda>j. j\<lparr>mj_usage := mj_usage j - (mn_size m + ucast sizeof_minor)\<rparr>) (s\<lparr>l_inuse := l_inuse s - ucast (mn_size m)\<rparr>);
     s2 = upd_minor mn (\<lambda>x. x\<lparr>mn_magic := LIBALLOC_DEAD\<rparr>) s1;
     s3 = (if mn_next m \<noteq> 0 then upd_minor (mn_next m) (\<lambda>x. x\<lparr>mn_prev := mn_prev m\<rparr>) s2 else s2);
     s4 = (if mn_prev m \<noteq> 0 then upd_minor (mn_prev m) (\<lambda>x. x\<lparr>mn_next := mn_next m\<rparr>) s3 else s3)
     in if mn_prev m = 0 then upd_major maj (\<lambda>j. j\<lparr>mj_first := mn_next m\<rparr>) s4 else s4)"

definition unlink_major :: "u64 \<Rightarrow> 'k liballoc \<Rightarrow> 'k liballoc" where
  "unlink_major maj s = (let j = la_major s maj;
     s1 = (if l_memRoot s = maj then s\<lparr>l_memRoot := mj_next j\<rparr> else s);
     s2 = (if l_bestBet s1 = maj then s1\<lparr>l_bestBet := 0\<rparr> else s1);
     s3 = (if mj_prev j \<noteq> 0 then upd_major (mj_prev j) (\<lambda>x. x\<lparr>mj_next := mj_next j\<rparr>) s2 else s2);
     s4 = (if mj_next j \<noteq> 0 then upd_major (mj_next j) (\<lambda>x. x\<lparr>mj_prev := mj_prev j\<rparr>) s3 else s3)
     in s4\<lparr>l_allocated := l_allocated s4 - ucast (mj_size j)\<rparr>)"

definition room_of :: "liballoc_major \<Rightarrow> int" where
  "room_of j = sint (mj_size j - mj_usage j)"

definition free_minor :: "'k la_env \<Rightarrow> u64 \<Rightarrow> 'k liballoc \<Rightarrow> 'k liballoc option" where
  "free_minor e mn s = (let maj = mn_block (la_minor s mn); s1 = unlink_minor mn s in
     if mj_first (la_major s1 maj) = 0 then do {
       let s2 = unlink_major maj s1;
       k \<leftarrow> le_free e maj (ucast (mj_pages (la_major s2 maj))) (la_sys s2);
       Some (s2\<lparr>la_sys := k\<rparr>)
     }
     else if l_bestBet s1 \<noteq> 0 then do {
       kassert (maj \<noteq> 0);
       Some (if room_of (la_major s1 maj) > room_of (la_major s1 (l_bestBet s1)) then s1\<lparr>l_bestBet := maj\<rparr> else s1)
     }
     else Some s1)"

definition free :: "'k la_env \<Rightarrow> u64 \<Rightarrow> 'k liballoc \<Rightarrow> 'k liballoc option" where
  "free e ptr s =
     (if ptr = 0 then Some (s\<lparr>l_warningCount := l_warningCount s + 1\<rparr>)
      else let mn = UNALIGN ptr s - sizeof_minor in
        if mn_magic (la_minor s mn) \<noteq> LIBALLOC_MAGIC then Some (bad_magic (mn_magic (la_minor s mn)) s)
        else free_minor e mn s)"

subsection \<open>calloc and realloc\<close>

text \<open>The index of \<^verbatim>\<open>liballoc_memset\<close> has 32 bits; a longer range is filled over and over.\<close>

partial_function (option) liballoc_memset :: "u64 \<Rightarrow> u8 \<Rightarrow> u32 \<Rightarrow> u64 \<Rightarrow> (u64 \<Rightarrow> u8) \<Rightarrow> (u64 \<Rightarrow> u8) option" where
  "liballoc_memset p c i n m =
     (if ucast i < n then liballoc_memset p c (i + 1) n (m(p + ucast i := c)) else Some m)"

definition copy4 :: "u64 \<Rightarrow> u64 \<Rightarrow> (u64 \<Rightarrow> u8) \<Rightarrow> (u64 \<Rightarrow> u8)" where
  "copy4 dst src m = m(dst := m src, dst + 1 := m (src + 1), dst + 2 := m (src + 2), dst + 3 := m (src + 3))"

fun liballoc_memcpy :: "u64 \<Rightarrow> u64 \<Rightarrow> nat \<Rightarrow> (u64 \<Rightarrow> u8) \<Rightarrow> (u64 \<Rightarrow> u8)" where
  "liballoc_memcpy dst src n m =
     (if n \<ge> 4 then liballoc_memcpy (dst + 4) (src + 4) (n - 4) (copy4 dst src m)
      else if n > 0 then liballoc_memcpy (dst + 1) (src + 1) (n - 1) (m(dst := m src))
      else m)"

declare liballoc_memcpy.simps [simp del]

text \<open>The size of \<^verbatim>\<open>calloc\<close> is an \<^verbatim>\<open>int\<close>; the result of \<^verbatim>\<open>malloc\<close> is not checked.\<close>

definition calloc :: "'k la_env \<Rightarrow> u64 \<Rightarrow> u64 \<Rightarrow> 'k liballoc \<Rightarrow> (u64 \<times> 'k liballoc) option" where
  "calloc e nobj sz s = do {
     let real_size = scast (ucast (nobj * sz) :: u32);
     (p, s1) \<leftarrow> malloc e real_size s;
     m \<leftarrow> liballoc_memset p 0 0 real_size (la_bytes s1);
     Some (p, s1\<lparr>la_bytes := m\<rparr>)
   }"

definition realloc :: "'k la_env \<Rightarrow> u64 \<Rightarrow> u64 \<Rightarrow> 'k liballoc \<Rightarrow> (u64 \<times> 'k liballoc) option" where
  "realloc e p sz s =
     (if sz = 0 then do { s1 \<leftarrow> free e p s; Some (0, s1) }
      else if p = 0 then malloc e sz s
      else let mn = UNALIGN p s - sizeof_minor; m = la_minor s mn in
        if mn_magic m \<noteq> LIBALLOC_MAGIC then Some (0, bad_magic (mn_magic m) s)
        else if ucast (mn_req_size m) \<ge> sz then Some (p, upd_minor mn (\<lambda>x. x\<lparr>mn_req_size := ucast sz\<rparr>) s)
        else do {
          (ptr, s1) \<leftarrow> malloc e sz s;
          let s2 = s1\<lparr>la_bytes := liballoc_memcpy ptr p (unat (mn_req_size m)) (la_bytes s1)\<rparr>;
          s3 \<leftarrow> free e p s2;
          Some (ptr, s3)
        })"

end
