(* ===== verification/Liballoc_Inv.thy ===== *)
theory Liballoc_Inv
  imports Liballoc
begin

unbundle bit_operations_syntax

text \<open>
  The invariant of \<open>Liballoc\<close>: the majors form a doubly linked list from the root, every major has a
  doubly linked list of minors in the order of their addresses that do not overlap and stay in the
  major, the usage of a major is what its minors take, and every minor remembers how far its pointer
  was moved. Preservation by every place where a minor goes and by unlinking.
\<close>

subsection \<open>Doubly linked lists\<close>

text \<open>From \<open>r\<close>, with \<open>p\<close> before it, the nodes \<open>xs\<close> up to the pointer \<open>q\<close>.\<close>

fun seg :: "(u64 \<Rightarrow> u64) \<Rightarrow> (u64 \<Rightarrow> u64) \<Rightarrow> u64 \<Rightarrow> u64 \<Rightarrow> u64 list \<Rightarrow> u64 \<Rightarrow> bool" where
  "seg nx pv r p [] q \<longleftrightarrow> r = q"
| "seg nx pv r p (x # xs) q \<longleftrightarrow> r = x \<and> x \<noteq> 0 \<and> pv x = p \<and> seg nx pv (nx x) x xs q"

definition headp :: "u64 list \<Rightarrow> u64 \<Rightarrow> u64" where
  "headp xs q = (case xs of [] \<Rightarrow> q | x # _ \<Rightarrow> x)"

definition lastp :: "u64 \<Rightarrow> u64 list \<Rightarrow> u64" where
  "lastp p xs = (if xs = [] then p else last xs)"

lemma headp_simps [simp]: "headp [] q = q" "headp (x # xs) q = x"
  by (simp_all add: headp_def)

lemma lastp_simps [simp]: "lastp p [] = p" "lastp p (x # xs) = lastp x xs" "lastp p (xs @ [y]) = y"
  by (simp_all add: lastp_def)

lemma lastp_append [simp]: "lastp p (xs @ ys) = lastp (lastp p xs) ys"
  by (simp add: lastp_def)

lemma seg_head: "seg nx pv r p xs q \<Longrightarrow> r = headp xs q"
  by (cases xs) simp_all

lemma seg_append: "seg nx pv r p (xs @ ys) q \<longleftrightarrow> seg nx pv r p xs (headp ys q) \<and> seg nx pv (headp ys q) (lastp p xs) ys q"
  by (induction xs arbitrary: r p) (auto dest: seg_head)

lemma seg_nonzero: "seg nx pv r p xs q \<Longrightarrow> 0 \<notin> set xs"
  by (induction xs arbitrary: r p) auto

lemma lseg_cong:
  "(\<And>x. x \<in> set xs \<Longrightarrow> nx' x = nx x \<and> pv' x = pv x) \<Longrightarrow> seg nx' pv' r p xs q = seg nx pv r p xs q"
  by (induction xs arbitrary: r p) simp_all

text \<open>Changing where the list ends, and what comes before its first node.\<close>

lemma seg_upd_end:
  assumes "seg nx pv r p xs q" and "distinct xs"
  shows "seg (if xs = [] then nx else nx(last xs := q')) pv (if xs = [] then q' else r) p xs q'"
  using assms
proof (induction xs arbitrary: r p)
  case (Cons x xs)
  then show ?case
  proof (cases "xs = []")
    case False
    then have "x \<noteq> last xs" using Cons.prems(2) by auto
    then show ?thesis using Cons.IH [of "nx x" x] Cons.prems False by simp
  qed simp
qed simp

lemma seg_upd_start:
  assumes "seg nx pv r p xs q" and "distinct xs"
  shows "seg nx (if xs = [] then pv else pv(hd xs := p')) r p' xs q"
proof (cases xs)
  case (Cons x ys)
  then have "seg nx (pv(x := p')) (nx x) x ys q"
    using assms by (subst lseg_cong [where nx = nx and pv = pv]) auto
  then show ?thesis using assms Cons by simp
qed (use assms in simp)

text \<open>A node between two parts, and taking it out again.\<close>

lemma seg_insert:
  assumes "seg nx pv r p (xs @ ys) q" and "distinct (xs @ ys)" and "n \<notin> set (xs @ ys)" and "n \<noteq> 0"
    and "nx' n = headp ys q" and "pv' n = lastp p xs"
    and "xs \<noteq> [] \<Longrightarrow> nx' (last xs) = n" and "\<And>x. x \<in> set (xs @ ys) \<Longrightarrow> xs = [] \<or> x \<noteq> last xs \<Longrightarrow> nx' x = nx x"
    and "ys \<noteq> [] \<Longrightarrow> pv' (hd ys) = n" and "\<And>x. x \<in> set (xs @ ys) \<Longrightarrow> ys = [] \<or> x \<noteq> hd ys \<Longrightarrow> pv' x = pv x"
  shows "seg nx' pv' (if xs = [] then n else r) p (xs @ n # ys) q"
proof -
  have xs: "seg nx pv r p xs (headp ys q)" and ys: "seg nx pv (headp ys q) (lastp p xs) ys q"
    using assms(1) by (simp_all add: seg_append)
  have d: "distinct xs" "distinct ys" "set xs \<inter> set ys = {}" using assms(2) by auto
  have nl: "xs = [] \<or> x \<noteq> last xs" if "x \<in> set ys" for x using that d(3) last_in_set [of xs] by (auto simp: disjoint_iff)
  have nh: "ys = [] \<or> x \<noteq> hd ys" if "x \<in> set xs" for x using that d(3) hd_in_set [of ys] by (auto simp: disjoint_iff)
  have "seg nx' pv' (if xs = [] then n else r) p xs n"
  proof -
    have "nx' x = (if xs = [] then nx else nx(last xs := n)) x \<and> pv' x = pv x" if "x \<in> set xs" for x
      using that assms(7) assms(8) [of x] assms(10) [of x] nh [OF that] by auto
    then show ?thesis using seg_upd_end [OF xs d(1), of n] by (subst lseg_cong) auto
  qed
  moreover have "seg nx' pv' (headp ys q) n ys q"
  proof -
    have "nx' x = nx x \<and> pv' x = (if ys = [] then pv else pv(hd ys := n)) x" if "x \<in> set ys" for x
      using that assms(8) [of x] assms(9) assms(10) [of x] nl [OF that] by auto
    then show ?thesis using seg_upd_start [OF ys d(2), of n] by (subst lseg_cong) auto
  qed
  ultimately show ?thesis using assms(4-6) by (auto simp: seg_append)
qed

lemma seg_remove:
  assumes "seg nx pv r p (xs @ n # ys) q" and "distinct (xs @ n # ys)"
    and "xs \<noteq> [] \<Longrightarrow> nx' (last xs) = headp ys q" and "\<And>x. x \<in> set (xs @ ys) \<Longrightarrow> xs = [] \<or> x \<noteq> last xs \<Longrightarrow> nx' x = nx x"
    and "ys \<noteq> [] \<Longrightarrow> pv' (hd ys) = lastp p xs" and "\<And>x. x \<in> set (xs @ ys) \<Longrightarrow> ys = [] \<or> x \<noteq> hd ys \<Longrightarrow> pv' x = pv x"
  shows "seg nx' pv' (if xs = [] then headp ys q else r) p (xs @ ys) q"
proof -
  have xs: "seg nx pv r p xs n" and ys: "seg nx pv (headp ys q) n ys q"
    using assms(1) seg_head [of nx pv "nx n" n ys q] by (auto simp: seg_append)
  have d: "distinct xs" "distinct ys" "set xs \<inter> set ys = {}" using assms(2) by auto
  have nl: "xs = [] \<or> x \<noteq> last xs" if "x \<in> set ys" for x using that d(3) last_in_set [of xs] by (auto simp: disjoint_iff)
  have nh: "ys = [] \<or> x \<noteq> hd ys" if "x \<in> set xs" for x using that d(3) hd_in_set [of ys] by (auto simp: disjoint_iff)
  have "seg nx' pv' (if xs = [] then headp ys q else r) p xs (headp ys q)"
  proof -
    have "nx' x = (if xs = [] then nx else nx(last xs := headp ys q)) x \<and> pv' x = pv x" if "x \<in> set xs" for x
      using that assms(3) assms(4) [of x] assms(6) [of x] nh [OF that] by auto
    then show ?thesis using seg_upd_end [OF xs d(1), of "headp ys q"] by (subst lseg_cong) auto
  qed
  moreover have "seg nx' pv' (headp ys q) (lastp p xs) ys q"
  proof -
    have "nx' x = nx x \<and> pv' x = (if ys = [] then pv else pv(hd ys := lastp p xs)) x" if "x \<in> set ys" for x
      using that assms(4) [of x] assms(5) assms(6) [of x] nl [OF that] by auto
    then show ?thesis using seg_upd_start [OF ys d(2), of "lastp p xs"] by (subst lseg_cong) auto
  qed
  ultimately show ?thesis by (simp add: seg_append)
qed

subsection \<open>Layout\<close>

text \<open>Minors in address order from \<open>lo\<close> to \<open>hi\<close>, each followed by its memory, and where they end.\<close>

fun laid :: "(u64 \<Rightarrow> nat) \<Rightarrow> nat \<Rightarrow> u64 list \<Rightarrow> nat \<Rightarrow> bool" where
  "laid z lo [] hi \<longleftrightarrow> lo \<le> hi"
| "laid z lo (m # ms) hi \<longleftrightarrow> lo \<le> unat m \<and> laid z (unat m + 40 + z m) ms hi"

fun mend :: "(u64 \<Rightarrow> nat) \<Rightarrow> nat \<Rightarrow> u64 list \<Rightarrow> nat" where
  "mend z lo [] = lo"
| "mend z lo (m # ms) = mend z (unat m + 40 + z m) ms"

definition weight :: "(u64 \<Rightarrow> nat) \<Rightarrow> u64 list \<Rightarrow> nat" where
  "weight z ms = sum_list (map (\<lambda>m. 40 + z m) ms)"

lemma weight_simps [simp]: "weight z [] = 0" "weight z (m # ms) = 40 + z m + weight z ms"
  "weight z (xs @ ys) = weight z xs + weight z ys"
  by (simp_all add: weight_def)

lemma weight_cong: "(\<And>m. m \<in> set ms \<Longrightarrow> z' m = z m) \<Longrightarrow> weight z' ms = weight z ms"
  unfolding weight_def by (induction ms) simp_all

lemma laid_cong: "(\<And>m. m \<in> set ms \<Longrightarrow> z' m = z m) \<Longrightarrow> laid z' lo ms hi = laid z lo ms hi"
  by (induction ms arbitrary: lo) simp_all

lemma mend_cong: "(\<And>m. m \<in> set ms \<Longrightarrow> z' m = z m) \<Longrightarrow> mend z' lo ms = mend z lo ms"
  by (induction ms arbitrary: lo) simp_all

lemma laid_append: "laid z lo (xs @ ys) hi \<longleftrightarrow> laid z lo xs (mend z lo xs) \<and> laid z (mend z lo xs) ys hi"
  by (induction xs arbitrary: lo) auto

lemma laid_le: "laid z lo ms hi \<Longrightarrow> lo + weight z ms \<le> hi"
  by (induction ms arbitrary: lo) fastforce+

lemma laid_mend: "laid z lo ms hi \<Longrightarrow> lo \<le> mend z lo ms \<and> mend z lo ms \<le> hi"
  by (induction ms arbitrary: lo) fastforce+

lemma laid_mono: "laid z lo ms hi \<Longrightarrow> lo' \<le> lo \<Longrightarrow> hi \<le> hi' \<Longrightarrow> laid z lo' ms hi'"
proof (induction ms arbitrary: lo lo')
  case (Cons m ms)
  then show ?case using Cons.IH [of "unat m + 40 + z m" "unat m + 40 + z m"] by simp
qed simp

lemma laid_bounds: "laid z lo ms hi \<Longrightarrow> m \<in> set ms \<Longrightarrow> lo \<le> unat m \<and> unat m + 40 + z m \<le> hi"
proof (induction ms arbitrary: lo)
  case (Cons a ms)
  have "unat a + 40 + z a \<le> hi" using laid_le [of z "unat a + 40 + z a" ms hi] Cons.prems(1) by simp
  then show ?case using Cons.IH [of "unat a + 40 + z a"] Cons.prems by fastforce
qed simp

lemma laid_apart:
  "laid z lo ms hi \<Longrightarrow> m \<in> set ms \<Longrightarrow> n \<in> set ms \<Longrightarrow> m \<noteq> n \<Longrightarrow>
     unat m + 40 + z m \<le> unat n \<or> unat n + 40 + z n \<le> unat m"
proof (induction ms arbitrary: lo)
  case (Cons a ms)
  have rest: "laid z (unat a + 40 + z a) ms hi" using Cons.prems(1) by simp
  show ?case
    using Cons.IH [OF rest] Cons.prems(2-4) laid_bounds [OF rest, of m] laid_bounds [OF rest, of n] by auto
qed simp

lemma laid_distinct: "laid z lo ms hi \<Longrightarrow> distinct ms"
proof (induction ms arbitrary: lo)
  case (Cons a ms)
  then show ?case using laid_bounds [of z "unat a + 40 + z a" ms hi a] by fastforce
qed simp

lemma mend_last: "xs \<noteq> [] \<Longrightarrow> mend z lo xs = unat (last xs) + 40 + z (last xs)"
  by (induction xs arbitrary: lo) auto

lemma laid_insert:
  assumes "laid z lo (xs @ ys) hi" and "unat n = mend z lo xs"
    and "mend z lo xs + 40 + w \<le> (if ys = [] then hi else unat (hd ys))"
    and "z' n = w" and "\<And>m. m \<in> set (xs @ ys) \<Longrightarrow> z' m = z m"
  shows "laid z' lo (xs @ n # ys) hi"
proof -
  have c: "mend z' lo xs = mend z lo xs" "laid z' lo xs (mend z lo xs) = laid z lo xs (mend z lo xs)"
    using assms(5) by (auto intro!: mend_cong laid_cong)
  have "laid z' (mend z lo xs + 40 + w) ys hi"
  proof (cases ys)
    case (Cons y zs)
    then have "laid z (unat y + 40 + z y) zs hi" using assms(1) by (simp add: laid_append)
    then have "laid z' (unat y + 40 + z y) zs hi" using assms(5) Cons by (subst laid_cong [of _ z' z]) auto
    then show ?thesis using assms(3,5) Cons by simp
  qed (use assms(3) in simp)
  then show ?thesis using assms(1,2,4) c by (simp add: laid_append)
qed

lemma laid_remove: "laid z lo (xs @ n # ys) hi \<Longrightarrow> laid z lo (xs @ ys) hi"
  by (auto simp: laid_append elim: laid_mono)

subsection \<open>Alignment\<close>

lemma round_up_16:
  assumes "y = (if x mod 16 = 0 then x else x + (16 - x mod 16))"
  shows "x \<le> y \<and> y < x + 16 \<and> y mod 16 = (0 :: nat)"
proof (cases "x mod 16 = 0")
  case False
  define q r where "q = x div 16" and "r = x mod 16"
  have x: "x = 16 * q + r" by (simp add: q_def r_def)
  have r: "0 < r" "r < 16" using False by (simp_all add: r_def)
  have y: "y = 16 * Suc q" using assms False x r unfolding r_def [symmetric] by simp
  show ?thesis using x r unfolding y by simp
qed (use assms in simp)

lemma align_up_unat:
  assumes "unat p + 32 < W64"
  shows "unat p + 16 \<le> unat (align_up p)" and "unat (align_up p) < unat p + 32" and "unat (align_up p) mod 16 = 0"
proof -
  have q: "unat (p + 16) = unat p + 16" using assms by (subst unat_add_nowrap) simp_all
  let ?d = "(p + 16) AND 15"
  have d: "unat ?d = (unat p + 16) mod 16" unfolding unat_and_15 q ..
  have "unat (align_up p) = (if (unat p + 16) mod 16 = 0 then unat p + 16 else unat p + 16 + (16 - (unat p + 16) mod 16))"
  proof (cases "?d = 0")
    case True
    then have "(unat p + 16) mod 16 = 0" using d by simp
    then show ?thesis using True q by (simp add: align_up_def ALIGN_INFO_def ALIGNMENT_def)
  next
    case False
    then have d0: "(unat p + 16) mod 16 \<noteq> 0" using d unat_eq_zero by metis
    have "unat (16 - ?d) = 16 - unat ?d" using d by (subst unat_sub_nowrap) (simp_all add: word_le_nat_alt)
    then have "unat (p + 16 + (16 - ?d)) = unat p + 16 + (16 - (unat p + 16) mod 16)"
      using assms q d by (subst unat_add_nowrap) simp_all
    then show ?thesis using False d0 by (simp add: align_up_def ALIGN_INFO_def ALIGNMENT_def Let_def)
  qed
  from round_up_16 [OF this]
  show "unat p + 16 \<le> unat (align_up p)" "unat (align_up p) < unat p + 32" "unat (align_up p) mod 16 = 0" by simp_all
qed

subsection \<open>The invariant\<close>

type_synonym la_shape = "(u64 \<times> u64 list) list"

abbreviation msize :: "'k liballoc \<Rightarrow> u64 \<Rightarrow> nat" where
  "msize s m \<equiv> unat (mn_size (la_minor s m))"

abbreviation jsize :: "'k liballoc \<Rightarrow> u64 \<Rightarrow> nat" where
  "jsize s a \<equiv> unat (mj_size (la_major s a))"

abbreviation mseg :: "'k liballoc \<Rightarrow> u64 \<Rightarrow> u64 list \<Rightarrow> bool" where
  "mseg s r ms \<equiv> seg (\<lambda>m. mn_next (la_minor s m)) (\<lambda>m. mn_prev (la_minor s m)) r 0 ms 0"

abbreviation jseg :: "'k liballoc \<Rightarrow> u64 list \<Rightarrow> bool" where
  "jseg s as \<equiv> seg (\<lambda>a. mj_next (la_major s a)) (\<lambda>a. mj_prev (la_major s a)) (l_memRoot s) 0 as 0"

text \<open>The pointer that belongs to a minor, and the byte that remembers how far it was moved.\<close>

definition ptr_of :: "u64 \<Rightarrow> u64" where
  "ptr_of m = align_up (m + 40)"

definition pad_ok :: "'k liballoc \<Rightarrow> u64 \<Rightarrow> bool" where
  "pad_ok s m \<longleftrightarrow> la_bytes s (ptr_of m - 16) = ucast (ptr_of m - (m + 40))"

definition minor_ok :: "'k liballoc \<Rightarrow> u64 \<Rightarrow> u64 \<Rightarrow> bool" where
  "minor_ok s a m \<longleftrightarrow> mn_block (la_minor s m) = a \<and> mn_magic (la_minor s m) = LIBALLOC_MAGIC \<and>
     32 + unat (mn_req_size (la_minor s m)) \<le> msize s m \<and> pad_ok s m"

definition major_ok :: "'k liballoc \<Rightarrow> u64 \<Rightarrow> u64 list \<Rightarrow> bool" where
  "major_ok s a ms \<longleftrightarrow> a \<noteq> 0 \<and> unat a + jsize s a < W64 \<and> jsize s a = 4096 * unat (mj_pages (la_major s a)) \<and>
     mseg s (mj_first (la_major s a)) ms \<and> laid (msize s) (unat a + 40) ms (unat a + jsize s a) \<and>
     unat (mj_usage (la_major s a)) = 40 + weight (msize s) ms \<and> (\<forall>m \<in> set ms. minor_ok s a m)"

definition apart :: "'k liballoc \<Rightarrow> u64 \<Rightarrow> u64 \<Rightarrow> bool" where
  "apart s a b \<longleftrightarrow> unat a + jsize s a \<le> unat b \<or> unat b + jsize s b \<le> unat a"

definition la_inv :: "('k \<Rightarrow> (u64 \<times> nat) set) \<Rightarrow> 'k liballoc \<Rightarrow> la_shape \<Rightarrow> bool" where
  "la_inv live s sh \<longleftrightarrow> jseg s (map fst sh) \<and> distinct (map fst sh) \<and>
     (\<forall>a ms. (a, ms) \<in> set sh \<longrightarrow> major_ok s a ms \<and> (a, unat (mj_pages (la_major s a))) \<in> live (la_sys s)) \<and>
     (\<forall>a \<in> fst ` set sh. \<forall>b \<in> fst ` set sh. a \<noteq> b \<longrightarrow> apart s a b) \<and>
     (l_bestBet s = 0 \<or> l_bestBet s \<in> fst ` set sh)"

lemma major_okD:
  assumes "major_ok s a ms"
  shows "a \<noteq> 0" "unat a + jsize s a < W64" "jsize s a = 4096 * unat (mj_pages (la_major s a))"
    "mseg s (mj_first (la_major s a)) ms" "laid (msize s) (unat a + 40) ms (unat a + jsize s a)"
    "unat (mj_usage (la_major s a)) = 40 + weight (msize s) ms" "m \<in> set ms \<Longrightarrow> minor_ok s a m"
  using assms unfolding major_ok_def by blast+

lemma la_invD:
  assumes "la_inv live s sh"
  shows "jseg s (map fst sh)" "distinct (map fst sh)" "(a, ms) \<in> set sh \<Longrightarrow> major_ok s a ms"
    "(a, ms) \<in> set sh \<Longrightarrow> (a, unat (mj_pages (la_major s a))) \<in> live (la_sys s)"
    "a \<in> fst ` set sh \<Longrightarrow> b \<in> fst ` set sh \<Longrightarrow> a \<noteq> b \<Longrightarrow> apart s a b"
    "l_bestBet s = 0 \<or> l_bestBet s \<in> fst ` set sh"
  using assms unfolding la_inv_def by blast+

lemma la_invI:
  assumes "jseg s (map fst sh)" and "distinct (map fst sh)" and "\<And>a ms. (a, ms) \<in> set sh \<Longrightarrow> major_ok s a ms"
    and "\<And>a ms. (a, ms) \<in> set sh \<Longrightarrow> (a, unat (mj_pages (la_major s a))) \<in> live (la_sys s)"
    and "\<And>a b. a \<in> fst ` set sh \<Longrightarrow> b \<in> fst ` set sh \<Longrightarrow> a \<noteq> b \<Longrightarrow> apart s a b"
    and "l_bestBet s = 0 \<or> l_bestBet s \<in> fst ` set sh"
  shows "la_inv live s sh"
  using assms unfolding la_inv_def by blast

lemma minor_bounds:
  assumes "major_ok s a ms" and "m \<in> set ms"
  shows "unat a + 40 \<le> unat m" and "unat m + 40 + msize s m \<le> unat a + jsize s a" and "unat m + 40 + msize s m < W64"
    and "72 + unat (mn_req_size (la_minor s m)) \<le> 40 + msize s m"
  using laid_bounds [OF major_okD(5) [OF assms(1)] assms(2)] major_okD(2,7) [OF assms(1)] assms(2)
  by (auto simp: minor_ok_def)

lemma ptr_of_unat:
  assumes "unat m + 72 < W64"
  shows "unat m + 56 \<le> unat (ptr_of m)" and "unat (ptr_of m) < unat m + 72" and "unat (ptr_of m) mod 16 = 0"
    and "unat (ptr_of m - 16) = unat (ptr_of m) - 16"
proof -
  have "unat (m + 40) = unat m + 40" using assms by (subst unat_add_nowrap) simp_all
  then show p: "unat m + 56 \<le> unat (ptr_of m)" "unat (ptr_of m) < unat m + 72" "unat (ptr_of m) mod 16 = 0"
    using align_up_unat [of "m + 40"] assms by (simp_all add: ptr_of_def)
  show "unat (ptr_of m - 16) = unat (ptr_of m) - 16"
    using p by (subst unat_sub_nowrap) (simp_all add: word_le_nat_alt)
qed

lemma ALIGN_ptr:
  assumes "unat m + 72 < W64"
  shows "ALIGN (m + 40) s = (ptr_of m, s\<lparr>la_bytes := (la_bytes s)(ptr_of m - 16 := ucast (ptr_of m - (m + 40)))\<rparr>)"
proof (cases "(m + 40 + 16) AND 15 = 0")
  case True
  then show ?thesis
    by (simp add: ALIGN_def ptr_of_def align_up_def Let_def ALIGN_INFO_def ALIGNMENT_def)
next
  case False
  then show ?thesis
    by (simp add: ALIGN_def ptr_of_def align_up_def Let_def ALIGN_INFO_def ALIGNMENT_def algebra_simps)
qed

lemma UNALIGN_ptr:
  assumes "unat m + 72 < W64" and "pad_ok s m"
  shows "UNALIGN (ptr_of m) s = m + 40"
proof -
  let ?d = "ptr_of m - (m + 40)"
  have m: "unat (m + 40) = unat m + 40" using assms(1) by (subst unat_add_nowrap) simp_all
  have d: "unat ?d = unat (ptr_of m) - (unat m + 40)"
    using ptr_of_unat(1) [OF assms(1)] m by (subst unat_sub_nowrap) (simp_all add: word_le_nat_alt)
  then have lt: "unat ?d < 32" using ptr_of_unat(1,2) [OF assms(1)] by simp
  then have "?d = of_nat (unat ?d)" by simp
  then obtain k where k: "?d = of_nat k" "k < 32" using lt by blast
  have "(scast (ucast (of_nat k :: u64) :: u8) :: u64) = of_nat k"
  proof -
    have "uint (of_nat k :: u64) = int k" using k(2) by (simp add: unsigned_of_nat take_bit_nat_eq_self)
    then have "uint (ucast (of_nat k :: u64) :: u8) = int k" using k(2) by (simp add: unsigned_ucast_eq take_bit_int_eq_self)
    then have "sint (ucast (of_nat k :: u64) :: u8) = int k"
      using k(2) by (simp add: sint_uint signed_take_bit_int_eq_self)
    then show ?thesis by (metis of_int_of_nat_eq of_int_sint)
  qed
  then have "scast (la_bytes s (ptr_of m - 16)) = ?d" using assms(2) k(1) by (simp add: pad_ok_def)
  moreover have "?d < 32" using lt by (simp add: word_less_nat_alt)
  ultimately show ?thesis by (simp add: UNALIGN_def ALIGN_INFO_def ALIGNMENT_def)
qed

subsection \<open>Inserting a minor\<close>

lemma major_ok_cong:
  assumes "la_major s' a = la_major s a" and "\<And>m. m \<in> set ms \<Longrightarrow> la_minor s' m = la_minor s m"
    and "\<And>m. m \<in> set ms \<Longrightarrow> la_bytes s' (ptr_of m - 16) = la_bytes s (ptr_of m - 16)"
  shows "major_ok s' a ms = major_ok s a ms"
proof -
  have "mseg s' r ms = mseg s r ms" for r by (rule lseg_cong) (simp add: assms(2))
  moreover have "laid (msize s') lo ms hi = laid (msize s) lo ms hi" for lo hi by (rule laid_cong) (simp add: assms(2))
  moreover have "weight (msize s') ms = weight (msize s) ms" by (rule weight_cong) (simp add: assms(2))
  moreover have "(\<forall>m \<in> set ms. minor_ok s' a m) = (\<forall>m \<in> set ms. minor_ok s a m)"
    using assms(2,3) by (simp add: minor_ok_def pad_ok_def)
  ultimately show ?thesis by (simp add: major_ok_def assms(1))
qed

text \<open>What placing a minor \<open>n\<close> between the minors \<open>xs\<close> and \<open>ys\<close> of major \<open>a\<close> does.\<close>

definition inserted :: "'k liballoc \<Rightarrow> 'k liballoc \<Rightarrow> u64 \<Rightarrow> u64 list \<Rightarrow> u64 \<Rightarrow> u64 list \<Rightarrow> u64 \<Rightarrow> u64 \<Rightarrow> bool" where
  "inserted s s' a xs n ys sz req \<longleftrightarrow>
     l_memRoot s' = l_memRoot s \<and> l_bestBet s' = l_bestBet s \<and> la_sys s' = la_sys s \<and>
     la_major s' = (la_major s)(a := (la_major s a)\<lparr>mj_usage := mj_usage (la_major s a) + ucast (sz + sizeof_minor),
       mj_first := (if xs = [] then n else mj_first (la_major s a))\<rparr>) \<and>
     la_minor s' n = new_minor (lastp 0 xs) (headp ys 0) a sz req \<and>
     (\<forall>x. x \<noteq> n \<longrightarrow> la_minor s' x = (la_minor s x)
        \<lparr>mn_next := (if xs \<noteq> [] \<and> x = last xs then n else mn_next (la_minor s x)),
         mn_prev := (if ys \<noteq> [] \<and> x = hd ys then n else mn_prev (la_minor s x))\<rparr>) \<and>
     la_bytes s' = (la_bytes s)(ptr_of n - 16 := ucast (ptr_of n - (n + 40)))"

lemma insertedD:
  assumes "inserted s s' a xs n ys sz req"
  shows "l_memRoot s' = l_memRoot s" "l_bestBet s' = l_bestBet s" "la_sys s' = la_sys s"
    "la_major s' = (la_major s)(a := (la_major s a)\<lparr>mj_usage := mj_usage (la_major s a) + ucast (sz + sizeof_minor),
       mj_first := (if xs = [] then n else mj_first (la_major s a))\<rparr>)"
    "la_minor s' n = new_minor (lastp 0 xs) (headp ys 0) a sz req"
    "x \<noteq> n \<Longrightarrow> la_minor s' x = (la_minor s x)
        \<lparr>mn_next := (if xs \<noteq> [] \<and> x = last xs then n else mn_next (la_minor s x)),
         mn_prev := (if ys \<noteq> [] \<and> x = hd ys then n else mn_prev (la_minor s x))\<rparr>"
    "la_bytes s' = (la_bytes s)(ptr_of n - 16 := ucast (ptr_of n - (n + 40)))"
  using assms unfolding inserted_def by blast+

text \<open>Conditions under which the new minor fits.\<close>

definition fits :: "'k liballoc \<Rightarrow> u64 \<Rightarrow> u64 list \<Rightarrow> u64 \<Rightarrow> u64 list \<Rightarrow> u64 \<Rightarrow> u64 \<Rightarrow> bool" where
  "fits s a xs n ys sz req \<longleftrightarrow> unat n = mend (msize s) (unat a + 40) xs \<and>
     mend (msize s) (unat a + 40) xs + 40 + unat sz \<le> (if ys = [] then unat a + jsize s a else unat (hd ys)) \<and>
     unat sz < 2 ^ 32 \<and> 32 + unat req \<le> unat sz"

lemma ucast_32: "unat (x :: u64) < 2 ^ 32 \<Longrightarrow> unat (ucast x :: u32) = unat x"
  by (simp add: unsigned_ucast_eq take_bit_nat_eq_self)

lemma jsize_less: "jsize s a < 2 ^ 32"
  by (rule order_less_le_trans [OF unsigned_less]) simp

lemma pad_address:
  assumes "unat m + 72 \<le> unat m + 40 + k" and "unat m + 40 + k < W64"
  shows "unat m + 40 \<le> unat (ptr_of m - 16)" and "unat (ptr_of m - 16) < unat m + 40 + k"
  using ptr_of_unat [of m] assms by simp_all

lemma fits_region:
  assumes "major_ok s a (xs @ ys)" and "fits s a xs n ys sz req"
  shows "unat a + 40 \<le> unat n" and "unat n + 40 + unat sz \<le> unat a + jsize s a" and "n \<noteq> 0"
    and "m \<in> set (xs @ ys) \<Longrightarrow> unat m + 40 + msize s m \<le> unat n \<or> unat n + 40 + unat sz \<le> unat m"
proof -
  have l: "laid (msize s) (unat a + 40) xs (mend (msize s) (unat a + 40) xs)"
      "laid (msize s) (mend (msize s) (unat a + 40) xs) ys (unat a + jsize s a)"
    using major_okD(5) [OF assms(1)] by (simp_all add: laid_append)
  note f = assms(2) [unfolded fits_def]
  show n: "unat a + 40 \<le> unat n" using laid_mend [OF l(1)] f by simp
  then show "n \<noteq> 0" by auto
  have ys: "ys \<noteq> [] \<Longrightarrow> unat (hd ys) + 40 + msize s (hd ys) \<le> unat a + jsize s a"
    using laid_bounds [OF l(2), of "hd ys"] by simp
  show "unat n + 40 + unat sz \<le> unat a + jsize s a" using f ys by (cases "ys = []") auto
  show "unat m + 40 + msize s m \<le> unat n \<or> unat n + 40 + unat sz \<le> unat m" if m: "m \<in> set (xs @ ys)"
  proof (cases "m \<in> set xs")
    case True
    then show ?thesis using laid_bounds [OF l(1)] f by auto
  next
    case False
    then have "m \<in> set ys" using m by simp
    then obtain y zs where ys: "ys = y # zs" by (cases ys) auto
    have "unat y \<le> unat m"
      using l(2) \<open>m \<in> set ys\<close> laid_bounds [of "msize s" "unat y + 40 + msize s y" zs "unat a + jsize s a" m] by (auto simp: ys)
    then show ?thesis using f by (simp add: ys)
  qed
qed

lemma insert_major_ok:
  assumes ok: "major_ok s a (xs @ ys)" and f: "fits s a xs n ys sz req" and i: "inserted s s' a xs n ys sz req"
  shows "major_ok s' a (xs @ n # ys)"
proof -
  note D = insertedD [OF i] and R = fits_region [OF ok f] and F = f [unfolded fits_def]
  have new: "n \<notin> set (xs @ ys)" using R(4) [of n] by auto
  have lt: "unat n + 40 + unat sz < W64" using R(2) major_okD(2) [OF ok] by simp
  have szs: "unat (ucast sz :: u32) = unat sz" "unat (ucast req :: u32) = unat req" using F by (simp_all add: ucast_32)
  have js: "jsize s' a = jsize s a" "mj_pages (la_major s' a) = mj_pages (la_major s a)" using D(4) by simp_all
  have ne: "m \<noteq> n" if "m \<in> set (xs @ ys)" for m using that new by blast
  note old = D(6) [OF ne]
  have zs: "msize s' m = msize s m" if "m \<in> set (xs @ ys)" for m using old [OF that] by simp
  have zn: "msize s' n = unat sz" using D(5) szs by (simp add: new_minor_def)
  have dist: "distinct (xs @ ys)" by (rule laid_distinct [OF major_okD(5) [OF ok]])
  have "mseg s' (if xs = [] then n else mj_first (la_major s a)) (xs @ n # ys)"
  proof (rule seg_insert [OF major_okD(4) [OF ok] dist new R(3)])
    show "mn_next (la_minor s' n) = headp ys 0" "mn_prev (la_minor s' n) = lastp 0 xs" using D(5) by (simp_all add: new_minor_def)
    show "mn_next (la_minor s' (last xs)) = n" if "xs \<noteq> []" using old [of "last xs"] that by simp
    show "mn_prev (la_minor s' (hd ys)) = n" if "ys \<noteq> []" using old [of "hd ys"] that by simp
  qed (use old in auto)
  moreover have "laid (msize s') (unat a + 40) (xs @ n # ys) (unat a + jsize s' a)"
    unfolding js by (rule laid_insert [OF major_okD(5) [OF ok]]) (use F zs zn in auto)
  moreover have "unat (mj_usage (la_major s' a)) = 40 + weight (msize s') (xs @ n # ys)"
  proof -
    have w: "weight (msize s') (xs @ n # ys) = weight (msize s) (xs @ ys) + 40 + unat sz"
      using weight_cong [of xs "msize s'" "msize s"] weight_cong [of ys "msize s'" "msize s"] zs zn by simp
    have le: "unat a + 40 + weight (msize s') (xs @ n # ys) \<le> unat a + jsize s' a" using laid_le [OF calculation(2)] .
    have s40: "unat (sz + sizeof_minor) = unat sz + 40" using lt by (subst unat_add_nowrap) (simp_all add: sizeof_minor_def)
    have b: "40 + weight (msize s) (xs @ ys) + (unat sz + 40) < 2 ^ 32"
      using le w js jsize_less [of s a] by simp
    then have "unat (ucast (sz + sizeof_minor) :: u32) = unat sz + 40" using s40 ucast_32 [of "sz + sizeof_minor"] by simp
    then have "unat (mj_usage (la_major s a) + ucast (sz + sizeof_minor)) = 40 + weight (msize s) (xs @ ys) + (unat sz + 40)"
      using b major_okD(6) [OF ok] by (simp add: unat_word_ariths)
    then show ?thesis using D(4) w by simp
  qed
  moreover have "minor_ok s' a m" if m: "m \<in> set (xs @ n # ys)" for m
  proof (cases "m = n")
    case True
    then show ?thesis using D(5,7) szs F by (simp add: minor_ok_def new_minor_def pad_ok_def)
  next
    case False
    then have m': "m \<in> set (xs @ ys)" using m by simp
    note B = minor_bounds [OF ok m'] and P = pad_address [of m "msize s m"] and Q = pad_address [of n "unat sz"]
    have "ptr_of m - 16 \<noteq> ptr_of n - 16" using P Q B R(4) [OF m'] lt F by auto
    then show ?thesis using major_okD(7) [OF ok m'] D(6) [OF False] D(7) by (simp add: minor_ok_def pad_ok_def)
  qed
  ultimately show ?thesis using major_okD(1-3) [OF ok] js D(4) by (simp add: major_ok_def)
qed

lemma major_unique:
  assumes "distinct (map fst (pre @ (a, xs) # post))" and "(b, ms) \<in> set (pre @ (a, xs) # post)"
  shows "b = a \<and> ms = xs \<or> b \<noteq> a \<and> (b, ms) \<in> set pre \<union> set post"
  using assms by (auto simp: image_iff)

lemma insert_inv:
  assumes inv: "la_inv live s (pre @ (a, xs @ ys) # post)" and f: "fits s a xs n ys sz req"
    and i: "inserted s s' a xs n ys sz req"
  shows "la_inv live s' (pre @ (a, xs @ n # ys) # post)"
proof -
  let ?sh = "pre @ (a, xs @ ys) # post" and ?sh' = "pre @ (a, xs @ n # ys) # post"
  note D = insertedD [OF i]
  have ok: "major_ok s a (xs @ ys)" using la_invD(3) [OF inv] by simp
  note R = fits_region [OF ok f]
  have js: "jsize s' b = jsize s b" "mj_pages (la_major s' b) = mj_pages (la_major s b)" for b using D(4) by simp_all
  have nodes: "map fst ?sh' = map fst ?sh" "fst ` set ?sh' = fst ` set ?sh" by simp_all
  show ?thesis
  proof (rule la_invI)
    have "jseg s' (map fst ?sh) = jseg s (map fst ?sh)" unfolding D(1) by (rule lseg_cong) (simp add: D(4))
    then show "jseg s' (map fst ?sh')" unfolding nodes using la_invD(1) [OF inv] by simp
    show "distinct (map fst ?sh')" unfolding nodes by (rule la_invD(2) [OF inv])
    show "l_bestBet s' = 0 \<or> l_bestBet s' \<in> fst ` set ?sh'" unfolding nodes D(2) by (rule la_invD(6) [OF inv])
    show "apart s' b c" if "b \<in> fst ` set ?sh'" "c \<in> fst ` set ?sh'" "b \<noteq> c" for b c
      using la_invD(5) [OF inv, of b c] that unfolding nodes apart_def js by blast
  next
    fix b ms assume b: "(b, ms) \<in> set ?sh'"
    then have "b = a \<and> ms = xs @ n # ys \<or> b \<noteq> a \<and> (b, ms) \<in> set pre \<union> set post"
      using la_invD(2) [OF inv] by (intro major_unique) simp_all
    then show "major_ok s' b ms"
    proof
      assume "b = a \<and> ms = xs @ n # ys"
      then show ?thesis using insert_major_ok [OF ok f i] by simp
    next
      assume *: "b \<noteq> a \<and> (b, ms) \<in> set pre \<union> set post"
      then have bin: "(b, ms) \<in> set ?sh" by auto
      have okb: "major_ok s b ms" by (rule la_invD(3) [OF inv bin])
      have "a \<in> fst ` set ?sh" "b \<in> fst ` set ?sh" using bin by force+
      from la_invD(5) [OF inv this] have ap: "apart s a b" using * by blast
      have "major_ok s' b ms = major_ok s b ms"
      proof (rule major_ok_cong)
        show "la_major s' b = la_major s b" using * D(4) by simp
        fix m assume m: "m \<in> set ms"
        note B = minor_bounds [OF okb m]
        have out: "unat m + 40 + msize s m \<le> unat a \<or> unat a + jsize s a \<le> unat m" using ap B by (auto simp: apart_def)
        have mo: "m \<noteq> x" if "x \<in> set (xs @ ys)" for x
          using minor_bounds [OF ok that] out by auto
        have "m \<noteq> n" "\<not> (xs \<noteq> [] \<and> m = last xs)" "\<not> (ys \<noteq> [] \<and> m = hd ys)"
          using R(1,2) out mo [of "last xs"] mo [of "hd ys"] by auto
        then show "la_minor s' m = la_minor s m" using D(6) by auto
        have "ptr_of m - 16 \<noteq> ptr_of n - 16"
          using pad_address [of m "msize s m"] pad_address [of n "unat sz"] B out R(1,2) f major_okD(2) [OF ok]
          by (auto simp: fits_def)
        then show "la_bytes s' (ptr_of m - 16) = la_bytes s (ptr_of m - 16)" using D(7) by simp
      qed
      then show ?thesis using okb by simp
    qed
  next
    fix b ms assume "(b, ms) \<in> set ?sh'"
    then have "\<exists>ms'. (b, ms') \<in> set ?sh" by auto
    then show "(b, unat (mj_pages (la_major s' b))) \<in> live (la_sys s')" unfolding js D(3) using la_invD(4) [OF inv] by blast
  qed
qed

end
