(* ===== verification/Liballoc_Spec.thy ===== *)
theory Liballoc_Spec
  imports Liballoc_Inv
begin

text \<open>
  What \<open>malloc\<close>, \<open>free\<close> and \<open>realloc\<close> of \<open>Liballoc\<close> do on a heap that satisfies the invariant: every
  place that \<open>malloc\<close> finds is free memory of a major, the loop over the majors ends, and a pointer
  leads back to its minor.
\<close>

subsection \<open>Where a minor goes\<close>

lemmas place_defs = account_def upd_major_def upd_minor_def sizeof_major_def sizeof_minor_def Let_def

lemma major_upd_comm: "m\<lparr>mj_first := x, mj_usage := y\<rparr> = m\<lparr>mj_usage := y, mj_first := x\<rparr>"
  by (cases m) simp

lemma unat_ucast64 [simp]: "unat (ucast (x :: u32) :: u64) = unat x"
proof -
  have "unat x < 2 ^ LENGTH(32)" by (rule unsigned_less)
  then show ?thesis by (simp add: unsigned_ucast_eq take_bit_nat_eq_self)
qed

lemma place_new_inserted:
  assumes "unat (a + 40) + 72 < W64"
  shows "\<exists>s'. place_new a sz req s = (ptr_of (a + 40), s') \<and> inserted s s' a [] (a + 40) [] sz req"
  unfolding place_new_def place_defs ALIGN_ptr [OF assms] inserted_def by (simp add: major_upd_comm)

lemma place_front_inserted:
  assumes "unat (a + 40) + 72 < W64" and "ys \<noteq> []" and "mj_first (la_major s a) = hd ys" and "hd ys \<noteq> a + 40"
  shows "\<exists>s'. place_front a sz req s = (ptr_of (a + 40), s') \<and> inserted s s' a [] (a + 40) ys sz req"
proof -
  have "headp ys 0 = hd ys" using assms(2) by (cases ys) simp_all
  then show ?thesis
    unfolding place_front_def place_defs ALIGN_ptr [OF assms(1)] inserted_def using assms(2-4) by (simp add: major_upd_comm)
qed

lemma place_end_inserted:
  assumes "unat n + 72 < W64" and "xs \<noteq> []" and "mn = last xs" and "n = mn + 40 + ucast (mn_size (la_minor s mn))" and "mn \<noteq> n"
  shows "\<exists>s'. place_end a mn sz req s = (ptr_of n, s') \<and> inserted s s' a xs n [] sz req"
  unfolding place_end_def place_defs assms(4) [symmetric] ALIGN_ptr [OF assms(1)] inserted_def
  using assms(2,3,5) by (simp add: lastp_def)

lemma place_between_inserted:
  assumes "unat n + 72 < W64" and "xs \<noteq> []" and "mn = last xs" and "n = mn + 40 + ucast (mn_size (la_minor s mn))"
    and "ys \<noteq> []" and "mn_next (la_minor s mn) = hd ys" and "mn \<noteq> n" and "hd ys \<noteq> n" and "mn \<noteq> hd ys"
  shows "\<exists>s'. place_between a mn sz req s = (ptr_of n, s') \<and> inserted s s' a xs n ys sz req"
proof -
  have "headp ys 0 = hd ys" using assms(5) by (cases ys) simp_all
  then show ?thesis
    unfolding place_between_def place_defs assms(4) [symmetric] ALIGN_ptr [OF assms(1)] inserted_def
    using assms(2,3,5-9) by (simp add: lastp_def)
qed

text \<open>The free bytes behind a minor.\<close>

lemma room_behind:
  assumes ok: "major_ok s a (xs @ mn # ys)" and sz: "unat sz + 40 < W64"
  defines "behind \<equiv> (if mn_next (la_minor s mn) = 0 then a + ucast (mj_size (la_major s a)) else mn_next (la_minor s mn))"
  shows "mn_next (la_minor s mn) = headp ys 0"
    and "behind - mn - sizeof_minor - ucast (mn_size (la_minor s mn)) \<ge> sz + sizeof_minor \<longleftrightarrow>
      unat mn + 40 + msize s mn + 40 + unat sz \<le> (if ys = [] then unat a + jsize s a else unat (hd ys))"
    and "unat (mn + 40 + ucast (mn_size (la_minor s mn))) = unat mn + 40 + msize s mn"
proof -
  show nx: "mn_next (la_minor s mn) = headp ys 0"
    using major_okD(4) [OF ok] by (auto simp: seg_append dest: seg_head)
  have nz: "0 \<notin> set ys" using seg_nonzero [OF major_okD(4) [OF ok]] by simp
  have lim: "unat a + jsize s a < W64" by (rule major_okD(2) [OF ok])
  have B: "unat mn + 40 + msize s mn < W64" using minor_bounds(3) [OF ok] by simp
  have ua: "unat (a + ucast (mj_size (la_major s a))) = unat a + jsize s a"
    using lim by (subst unat_add_nowrap) simp_all
  have b: "unat behind = (if ys = [] then unat a + jsize s a else unat (hd ys))"
    using nx nz ua by (cases ys) (auto simp: behind_def)
  have l: "laid (msize s) (unat mn + 40 + msize s mn) ys (unat a + jsize s a)"
    using major_okD(5) [OF ok] by (simp add: laid_append)
  have le: "unat mn + 40 + msize s mn \<le> unat behind"
    using l b by (cases ys) simp_all
  show un: "unat (mn + 40 + ucast (mn_size (la_minor s mn))) = unat mn + 40 + msize s mn"
    using B by (simp add: unat_add_nowrap)
  have split: "behind - mn - sizeof_minor - ucast (mn_size (la_minor s mn)) = behind - (mn + 40 + ucast (mn_size (la_minor s mn)))"
    by (simp add: sizeof_minor_def algebra_simps)
  have "unat (behind - mn - sizeof_minor - ucast (mn_size (la_minor s mn))) = unat behind - (unat mn + 40 + msize s mn)"
    unfolding split using le un by (subst unat_sub_nowrap) (simp_all add: word_le_nat_alt)
  moreover have "unat (sz + sizeof_minor) = unat sz + 40" using sz by (subst unat_add_nowrap) (simp_all add: sizeof_minor_def)
  ultimately show "behind - mn - sizeof_minor - ucast (mn_size (la_minor s mn)) \<ge> sz + sizeof_minor \<longleftrightarrow>
      unat mn + 40 + msize s mn + 40 + unat sz \<le> (if ys = [] then unat a + jsize s a else unat (hd ys))"
    using le b unfolding word_le_nat_alt by auto
qed

lemma find_gap_correct:
  assumes "major_ok s a (xs @ rest)" and "unat sz + 40 < W64"
  shows "find_gap a sz (headp rest 0) s = Some None \<or>
    (\<exists>us mn vs. rest = us @ mn # vs \<and> find_gap a sz (headp rest 0) s = Some (Some mn) \<and>
       unat mn + 40 + msize s mn + 40 + unat sz \<le> (if vs = [] then unat a + jsize s a else unat (hd vs)))"
  using assms(1)
proof (induction rest arbitrary: xs)
  case Nil
  then show ?case by (subst find_gap.simps) simp
next
  case (Cons mn rest)
  note R = room_behind [OF Cons.prems assms(2)]
  have nz: "mn \<noteq> 0" using seg_nonzero [OF major_okD(4) [OF Cons.prems]] by auto
  show ?case
  proof (cases "unat mn + 40 + msize s mn + 40 + unat sz \<le> (if rest = [] then unat a + jsize s a else unat (hd rest))")
    case True
    then have "find_gap a sz mn s = Some (Some mn)" using nz R(2) by (subst find_gap.simps) (simp add: Let_def)
    then show ?thesis using True by (intro disjI2 exI [of _ "[]"] exI [of _ mn] exI [of _ rest]) simp
  next
    case False
    then have step: "find_gap a sz mn s = find_gap a sz (headp rest 0) s"
      using nz R(1,2) by (subst find_gap.simps) (simp add: Let_def)
    have "major_ok s a ((xs @ [mn]) @ rest)" using Cons.prems by simp
    from Cons.IH [OF this] show ?thesis
    proof
      assume "\<exists>us mn' vs. rest = us @ mn' # vs \<and> find_gap a sz (headp rest 0) s = Some (Some mn') \<and>
        unat mn' + 40 + msize s mn' + 40 + unat sz \<le> (if vs = [] then unat a + jsize s a else unat (hd vs))"
      then obtain us mn' vs where "rest = us @ mn' # vs" "find_gap a sz (headp rest 0) s = Some (Some mn')"
        "unat mn' + 40 + msize s mn' + 40 + unat sz \<le> (if vs = [] then unat a + jsize s a else unat (hd vs))" by blast
      then show ?thesis using step by (intro disjI2 exI [of _ "mn # us"] exI [of _ mn'] exI [of _ vs]) simp
    qed (use step in simp)
  qed
qed

text \<open>The requests that are considered: small enough that no 32-bit size wraps around.\<close>

definition fair_request :: "u64 \<Rightarrow> u64 \<Rightarrow> bool" where
  "fair_request sz req \<longleftrightarrow> unat sz < 2 ^ 31 \<and> 32 + unat req \<le> unat sz"

lemma fair_requestD:
  assumes "fair_request sz req"
  shows "unat sz < 2 ^ 32" "32 + unat req \<le> unat sz" "32 \<le> unat sz" "unat (sz + sizeof_minor) = unat sz + 40" "unat sz + 40 < W64"
proof -
  show "unat sz + 40 < W64" using assms by (simp add: fair_request_def)
  then show "unat (sz + sizeof_minor) = unat sz + 40" by (subst unat_add_nowrap) (simp_all add: sizeof_minor_def)
qed (use assms in \<open>simp_all add: fair_request_def\<close>)

text \<open>The place of the first minor: case 2 when \<open>ys\<close> is empty, case 3 otherwise.\<close>

lemma place_first_correct:
  assumes ok: "major_ok s a ys" and fr: "fair_request sz req"
    and room: "unat a + 80 + unat sz \<le> (if ys = [] then unat a + jsize s a else unat (hd ys))"
  shows "\<exists>s'. (if ys = [] then place_new a sz req s else place_front a sz req s) = (ptr_of (a + 40), s') \<and>
    fits s a [] (a + 40) ys sz req \<and> inserted s s' a [] (a + 40) ys sz req"
proof -
  note F = fair_requestD [OF fr]
  have lim: "unat a + 80 + unat sz < W64"
  proof (cases "ys = []")
    case False
    then show ?thesis using room minor_bounds(3) [OF ok, of "hd ys"] by simp
  qed (use room major_okD(2) [OF ok] in simp)
  have a4: "unat (a + 40) = unat a + 40" using lim by (subst unat_add_nowrap) simp_all
  have "fits s a [] (a + 40) ys sz req" using a4 room F by (simp add: fits_def)
  moreover have n72: "unat (a + 40) + 72 < W64" using a4 lim F(3) by simp
  moreover have "mj_first (la_major s a) = hd ys" "hd ys \<noteq> a + 40" if "ys \<noteq> []"
    using seg_head [OF major_okD(4) [OF ok]] a4 room that by (cases ys; auto)+
  ultimately show ?thesis
    using place_new_inserted [OF n72, of sz req s] place_front_inserted [OF n72, of ys s sz req] by (cases "ys = []") simp_all
qed

lemma place_behind_correct:
  assumes ok: "major_ok s a (us @ mn # vs)" and fr: "fair_request sz req"
    and room: "unat mn + 40 + msize s mn + 40 + unat sz \<le> (if vs = [] then unat a + jsize s a else unat (hd vs))"
  shows "\<exists>n s'. (if mn_next (la_minor s mn) = 0 then place_end a mn sz req s else place_between a mn sz req s) = (ptr_of n, s') \<and>
    fits s a (us @ [mn]) n vs sz req \<and> inserted s s' a (us @ [mn]) n vs sz req"
proof -
  note F = fair_requestD [OF fr] and R = room_behind [OF ok F(5)]
  define n where "n = mn + 40 + ucast (mn_size (la_minor s mn))"
  have n: "unat n = unat mn + 40 + msize s mn" using R(3) by (simp add: n_def)
  have v: "hd vs \<in> set (us @ mn # vs)" if "vs \<noteq> []" using that by simp
  have lim: "unat n + 40 + unat sz < W64"
    using room n minor_bounds(3) [OF ok v] major_okD(2) [OF ok] by (cases "vs = []") simp_all
  have f: "fits s a (us @ [mn]) n vs sz req"
    using n room F by (simp add: fits_def mend_last)
  have ne: "mn \<noteq> n" "vs \<noteq> [] \<Longrightarrow> hd vs \<noteq> n" "vs \<noteq> [] \<Longrightarrow> mn \<noteq> hd vs" using n room F(3) by auto
  have n72: "unat n + 72 < W64" using lim F(3) by simp
  have nx: "(mn_next (la_minor s mn) = 0) = (vs = [])" "vs \<noteq> [] \<Longrightarrow> mn_next (la_minor s mn) = hd vs"
    using R(1) seg_nonzero [OF major_okD(4) [OF ok]] by (cases vs; auto)+
  show ?thesis
  proof (cases "vs = []")
    case True
    then show ?thesis using place_end_inserted [OF n72, of "us @ [mn]" mn s a sz req] n_def ne f nx by auto
  next
    case False
    then show ?thesis using place_between_inserted [OF n72, of "us @ [mn]" mn s vs a sz req] n_def ne f nx by auto
  qed
qed

lemma place_in_correct:
  assumes ok: "major_ok s a ms" and fr: "fair_request sz req" and room: "ms = [] \<Longrightarrow> 80 + unat sz \<le> jsize s a"
  shows "place_in a sz req s = Some None \<and> ms \<noteq> [] \<or>
    (\<exists>xs n ys s'. ms = xs @ ys \<and> place_in a sz req s = Some (Some (ptr_of n, s')) \<and>
       fits s a xs n ys sz req \<and> inserted s s' a xs n ys sz req)"
proof -
  note F = fair_requestD [OF fr]
  have first: "mj_first (la_major s a) = headp ms 0" by (rule seg_head [OF major_okD(4) [OF ok]])
  have nz: "0 \<notin> set ms" by (rule seg_nonzero [OF major_okD(4) [OF ok]])
  show ?thesis
  proof (cases ms)
    case Nil
    then obtain s' where "place_new a sz req s = (ptr_of (a + 40), s')" "fits s a [] (a + 40) [] sz req"
        "inserted s s' a [] (a + 40) [] sz req"
      using place_first_correct [OF ok fr] room by auto
    then show ?thesis using first Nil
      by (intro disjI2 exI [of _ "[]"] exI [of _ "a + 40"] exI [of _ s']) (simp add: place_in_def)
  next
    case (Cons y zs)
    have y0: "y \<noteq> 0" "mj_first (la_major s a) = y" using nz Cons first by auto
    have y: "unat a + 40 \<le> unat y" "unat (a + 40) = unat a + 40"
      using minor_bounds(1,3) [OF ok, of y] Cons by (simp_all add: unat_add_nowrap)
    have "y - a - sizeof_major = y - (a + 40)" by (simp add: sizeof_major_def algebra_simps)
    then have df: "unat (y - a - sizeof_major) = unat y - (unat a + 40)"
      using y by (simp only:) (subst unat_sub_nowrap, simp_all add: word_le_nat_alt)
    show ?thesis
    proof (cases "y - a - sizeof_major \<ge> sz + sizeof_minor")
      case True
      then have "unat a + 80 + unat sz \<le> unat y" using df F(4) y unfolding word_le_nat_alt by simp
      then obtain s' where "place_front a sz req s = (ptr_of (a + 40), s')" "fits s a [] (a + 40) ms sz req"
          "inserted s s' a [] (a + 40) ms sz req"
        using place_first_correct [OF ok fr] Cons by auto
      then show ?thesis using y0 True
        by (intro disjI2 exI [of _ "[]"] exI [of _ "a + 40"] exI [of _ ms] exI [of _ s']) (simp add: place_in_def)
    next
      case False
      have "major_ok s a ([] @ ms)" using ok by simp
      from find_gap_correct [OF this F(5)] first y0 consider
          "find_gap a sz y s = Some None"
        | us mn vs where "ms = us @ mn # vs" "find_gap a sz y s = Some (Some mn)"
            "unat mn + 40 + msize s mn + 40 + unat sz \<le> (if vs = [] then unat a + jsize s a else unat (hd vs))"
        by auto
      then show ?thesis
      proof cases
        case 1
        then show ?thesis using y0 False Cons by (simp add: place_in_def)
      next
        case 2
        obtain n s' where p: "(if mn_next (la_minor s mn) = 0 then place_end a mn sz req s else place_between a mn sz req s) = (ptr_of n, s')"
            "fits s a (us @ [mn]) n vs sz req" "inserted s s' a (us @ [mn]) n vs sz req"
          using place_behind_correct [OF ok [unfolded 2(1)] fr 2(3)] by blast
        have "place_in a sz req s = Some (Some (ptr_of n, s'))" using 2(2) y0 False p(1) by (simp add: place_in_def)
        then show ?thesis using p(2,3) 2(1)
          by (intro disjI2 exI [of _ "us @ [mn]"] exI [of _ n] exI [of _ vs] exI [of _ s']) simp
      qed
    qed
  qed
qed

subsection \<open>New majors\<close>

text \<open>
  The system's pages: a number of pages is refused or found apart from what is in use; what was
  handed out can be given back.
\<close>

definition pages_law :: "'k la_env \<Rightarrow> ('k \<Rightarrow> (u64 \<times> nat) set) \<Rightarrow> bool" where
  "pages_law e live \<longleftrightarrow>
     (\<forall>n k. 0 < n \<and> n < 2 ^ 20 \<longrightarrow> (\<exists>a k'. le_alloc e (of_nat n) k = Some (a, k') \<and>
        (a = 0 \<and> live k' = live k \<or>
         a \<noteq> 0 \<and> unat a + 4096 * n < W64 \<and> live k' = insert (a, n) (live k) \<and>
         (\<forall>(b, m) \<in> live k. unat a + 4096 * n \<le> unat b \<or> unat b + 4096 * m \<le> unat a)))) \<and>
     (\<forall>a n k. (a, n) \<in> live k \<and> n < 2 ^ 20 \<longrightarrow> (\<exists>k'. le_free e a (of_nat n) k = Some k' \<and> live k' = live k - {(a, n)}))"

lemma pages_alloc:
  assumes "pages_law e live" and "0 < n" and "n < 2 ^ 20"
  obtains k' where "le_alloc e (of_nat n) k = Some (0, k')" and "live k' = live k"
  | a k' where "le_alloc e (of_nat n) k = Some (a, k')" and "a \<noteq> 0" and "unat a + 4096 * n < W64"
    and "live k' = insert (a, n) (live k)"
    and "\<And>b m. (b, m) \<in> live k \<Longrightarrow> unat a + 4096 * n \<le> unat b \<or> unat b + 4096 * m \<le> unat a"
proof -
  from pages_law_def [THEN iffD1, THEN conjunct1, OF assms(1), THEN spec, THEN spec, THEN mp, of n k] assms(2,3)
  obtain a k' where r: "le_alloc e (of_nat n) k = Some (a, k')"
      "a = 0 \<and> live k' = live k \<or> a \<noteq> 0 \<and> unat a + 4096 * n < W64 \<and> live k' = insert (a, n) (live k) \<and>
         (\<forall>(b, m) \<in> live k. unat a + 4096 * n \<le> unat b \<or> unat b + 4096 * m \<le> unat a)"
    by blast
  from r(2) show ?thesis
  proof
    assume "a = 0 \<and> live k' = live k"
    then show ?thesis using r(1) that(1) by blast
  next
    assume *: "a \<noteq> 0 \<and> unat a + 4096 * n < W64 \<and> live k' = insert (a, n) (live k) \<and>
         (\<forall>(b, m) \<in> live k. unat a + 4096 * n \<le> unat b \<or> unat b + 4096 * m \<le> unat a)"
    then have "\<And>b m. (b, m) \<in> live k \<Longrightarrow> unat a + 4096 * n \<le> unat b \<or> unat b + 4096 * m \<le> unat a" by blast
    then show ?thesis using r(1) * that(2) by blast
  qed
qed

lemma pages_free:
  assumes "pages_law e live" and "(a, n) \<in> live k" and "n < 2 ^ 20"
  obtains k' where "le_free e a (of_nat n) k = Some k'" and "live k' = live k - {(a, n)}"
  using pages_law_def [THEN iffD1, THEN conjunct2, OF assms(1), THEN spec, THEN spec, THEN spec, THEN mp, of a n k] assms(2,3) by blast

lemma major_pages_unat:
  assumes "unat sz < 2 ^ 31"
  shows "0 < unat (major_pages (ucast (sz :: u64)))" and "unat (major_pages (ucast sz)) < 2 ^ 20"
    and "unat sz + 80 \<le> 4096 * unat (major_pages (ucast sz))"
    and "unat (major_pages (ucast sz) * l_pageSize) = 4096 * unat (major_pages (ucast sz))"
proof -
  let ?st = "ucast sz + ucast sizeof_major + ucast sizeof_minor :: u32"
  have u: "unat (ucast sz :: u32) = unat sz" using assms by (intro ucast_32) simp
  have st: "unat ?st = unat sz + 80" using assms u by (simp add: sizeof_major_def sizeof_minor_def unat_word_ariths)
  define q where "q = unat (if ?st mod l_pageSize = 0 then ?st div l_pageSize else ?st div l_pageSize + 1)"
  have md: "unat (?st mod l_pageSize) = (unat sz + 80) mod 4096" "unat (?st div l_pageSize) = (unat sz + 80) div 4096"
    unfolding unat_mod unat_div st by (simp_all add: l_pageSize_def)
  have d: "(unat sz + 80) div 4096 < 2 ^ 19 + 1" using assms by (simp add: less_mult_imp_div_less)
  have q: "q = (if (unat sz + 80) mod 4096 = 0 then (unat sz + 80) div 4096 else (unat sz + 80) div 4096 + 1)"
  proof (cases "?st mod l_pageSize = 0")
    case True
    then show ?thesis using md by (simp add: q_def)
  next
    case False
    then have "(unat sz + 80) mod 4096 \<noteq> 0" using md(1) by (metis unat_eq_zero)
    moreover have "unat (?st div l_pageSize + 1) = (unat sz + 80) div 4096 + 1" using md(2) d by (simp add: unat_word_ariths)
    ultimately show ?thesis using False by (simp add: q_def)
  qed
  have bq: "unat sz + 80 \<le> 4096 * q" "q \<le> 2 ^ 19 + 1"
  proof -
    define x r where "x = (unat sz + 80) div 4096" and "r = (unat sz + 80) mod 4096"
    have "unat sz + 80 = 4096 * x + r" "r < 4096" by (simp_all add: x_def r_def)
    then show "unat sz + 80 \<le> 4096 * q" "q \<le> 2 ^ 19 + 1" using q d unfolding x_def [symmetric] r_def [symmetric] by (auto split: if_splits)
  qed
  have "unat (major_pages (ucast sz)) = (if q < 16 then 16 else q)"
    unfolding major_pages_def Let_def q_def by (simp add: word_less_nat_alt l_pageCount_def)
  then show m: "0 < unat (major_pages (ucast sz))" "unat (major_pages (ucast sz)) < 2 ^ 20"
      "unat sz + 80 \<le> 4096 * unat (major_pages (ucast sz))"
    using bq by auto
  show "unat (major_pages (ucast sz) * l_pageSize) = 4096 * unat (major_pages (ucast sz))"
    using m(2) by (simp add: unat_word_ariths l_pageSize_def)
qed

end
