(* ===== verification/Liballoc_Malloc.thy ===== *)
theory Liballoc_Malloc
  imports Liballoc_Spec
begin

text \<open>
  What \<open>malloc\<close> of \<open>Liballoc\<close> does on a heap that satisfies the invariant: the loop over the majors ends,
  with a new minor in free memory of a major, or because the system has no more pages.
\<close>

subsection \<open>A new major behind the others\<close>

lemma major_ok_links:
  assumes "la_major s' a = (la_major s a)\<lparr>mj_next := x, mj_prev := y\<rparr>" and "la_minor s' = la_minor s" and "la_bytes s' = la_bytes s"
  shows "major_ok s' a ms = major_ok s a ms"
  using assms by (simp add: major_ok_def minor_ok_def pad_ok_def)

lemma la_inv_cong:
  assumes "la_inv live s sh" and "l_memRoot s' = l_memRoot s" and "la_major s' = la_major s" and "la_minor s' = la_minor s"
    and "la_bytes s' = la_bytes s" and "live (la_sys s') = live (la_sys s)" and "l_bestBet s' = 0 \<or> l_bestBet s' \<in> fst ` set sh"
  shows "la_inv live s' sh"
proof -
  have "major_ok s' a ms = major_ok s a ms" for a ms by (rule major_ok_cong) (simp_all add: assms(3-5))
  then show ?thesis using assms by (simp add: la_inv_def apart_def)
qed

definition fresh_major :: "u64 \<Rightarrow> u32 \<Rightarrow> liballoc_major" where
  "fresh_major p st = \<lparr>mj_prev = p, mj_next = 0, mj_pages = st, mj_size = st * l_pageSize, mj_usage = 40, mj_first = 0\<rparr>"

lemma append_inv:
  assumes inv: "la_inv live s sh" and root: "l_memRoot s' = (if sh = [] then n else l_memRoot s)"
    and maj: "\<And>a. la_major s' a = (if a = n then fresh_major (lastp 0 (map fst sh)) st
       else if sh \<noteq> [] \<and> a = fst (last sh) then (la_major s a)\<lparr>mj_next := n\<rparr> else la_major s a)"
    and same: "la_minor s' = la_minor s" "la_bytes s' = la_bytes s" "l_bestBet s' = l_bestBet s"
    and n0: "n \<noteq> 0" and lim: "unat n + 4096 * unat st < W64" and st: "unat (st * l_pageSize) = 4096 * unat st" "0 < unat st"
    and live: "live (la_sys s') = insert (n, unat st) (live (la_sys s))"
    and free: "\<And>b m. (b, m) \<in> live (la_sys s) \<Longrightarrow> unat n + 4096 * unat st \<le> unat b \<or> unat b + 4096 * m \<le> unat n"
  shows "la_inv live s' (sh @ [(n, [])])"
proof -
  have pages: "jsize s b = 4096 * unat (mj_pages (la_major s b))" if "b \<in> fst ` set sh" for b
    using that major_okD(3) [OF la_invD(3) [OF inv]] by force
  have out: "unat n + 4096 * unat st \<le> unat b \<or> unat b + jsize s b \<le> unat n" if "b \<in> fst ` set sh" for b
    using that free [of b "unat (mj_pages (la_major s b))"] la_invD(4) [OF inv, of b] pages [OF that] by force
  have pos: "0 < jsize s b" if "b \<in> fst ` set sh" for b
  proof -
    from that obtain ms where "(b, ms) \<in> set sh" by force
    from laid_le [OF major_okD(5) [OF la_invD(3) [OF inv this]]] show ?thesis by simp
  qed
  have new: "n \<notin> fst ` set sh" using out [of n] pos [of n] st(2) by auto
  have js: "jsize s' b = (if b = n then 4096 * unat st else jsize s b)" for b
    using maj [of b] st(1) by (simp add: fresh_major_def)
  have lst: "sh \<noteq> [] \<Longrightarrow> last (map fst sh) = fst (last sh)" by (simp add: last_map)
  show ?thesis
  proof (rule la_invI)
    have "seg (\<lambda>a. mj_next (la_major s' a)) (\<lambda>a. mj_prev (la_major s' a)) (if map fst sh = [] then n else l_memRoot s) 0 (map fst sh @ n # []) 0"
    proof (rule seg_insert)
      show "jseg s (map fst sh @ [])" "distinct (map fst sh @ [])" using la_invD(1,2) [OF inv] by simp_all
      show "n \<notin> set (map fst sh @ [])" using new by simp
      show "mj_next (la_major s' (last (map fst sh))) = n" if "map fst sh \<noteq> []"
        using that lst new maj [of "fst (last sh)"] last_in_set [of sh] by (auto simp: image_iff)
      show "mj_next (la_major s' x) = mj_next (la_major s x)" if "x \<in> set (map fst sh @ [])" "map fst sh = [] \<or> x \<noteq> last (map fst sh)" for x
        using that lst new maj [of x] by auto
      show "mj_prev (la_major s' x) = mj_prev (la_major s x)" if "x \<in> set (map fst sh @ [])" for x
        using that new maj [of x] by auto
    qed (use maj [of n] n0 in \<open>simp_all add: fresh_major_def\<close>)
    then show "jseg s' (map fst (sh @ [(n, [])]))" using root by simp
    show "distinct (map fst (sh @ [(n, [])]))" using la_invD(2) [OF inv] new by simp
    show "l_bestBet s' = 0 \<or> l_bestBet s' \<in> fst ` set (sh @ [(n, [])])" using la_invD(6) [OF inv] same(3) by auto
    show "apart s' b c" if "b \<in> fst ` set (sh @ [(n, [])])" "c \<in> fst ` set (sh @ [(n, [])])" "b \<noteq> c" for b c
      using la_invD(5) [OF inv, of b c] that out [of b] out [of c] unfolding apart_def js by auto
  next
    fix b ms assume b: "(b, ms) \<in> set (sh @ [(n, [])])"
    show "major_ok s' b ms"
    proof (cases "(b, ms) \<in> set sh")
      case True
      then have "b \<noteq> n" using new by force
      then have "la_major s' b = (la_major s b)\<lparr>mj_next := mj_next (la_major s' b), mj_prev := mj_prev (la_major s b)\<rparr>"
        using maj [of b] by (cases "la_major s b") auto
      then show ?thesis using major_ok_links [OF _ same(1,2)] la_invD(3) [OF inv True] by blast
    next
      case False
      then have "b = n" "ms = []" using b by auto
      then show ?thesis using n0 lim st maj [of n] by (simp add: major_ok_def fresh_major_def)
    qed
    show "(b, unat (mj_pages (la_major s' b))) \<in> live (la_sys s')"
      using b la_invD(4) [OF inv, of b ms] maj [of b] by (auto simp: live fresh_major_def)
  qed
qed

lemma allocate_new_page_cases:
  assumes law: "pages_law e live" and fr: "fair_request sz req"
  obtains (none) k where "allocate_new_page e (ucast sz) s = Some (0, s\<lparr>la_sys := k, l_warningCount := l_warningCount s + 1\<rparr>)"
      and "le_alloc e (ucast (major_pages (ucast sz))) (la_sys s) = Some (0, k)" and "live k = live (la_sys s)"
  | (some) n k where "allocate_new_page e (ucast sz) s = Some (n, s\<lparr>la_sys := k,
        la_major := (la_major s)(n := fresh_major 0 (major_pages (ucast sz))), l_allocated := l_allocated s + ucast (major_pages (ucast sz) * l_pageSize)\<rparr>)"
      and "n \<noteq> 0" and "unat n + 4096 * unat (major_pages (ucast sz)) < W64"
      and "live k = insert (n, unat (major_pages (ucast sz))) (live (la_sys s))"
      and "\<And>b m. (b, m) \<in> live (la_sys s) \<Longrightarrow> unat n + 4096 * unat (major_pages (ucast sz)) \<le> unat b \<or> unat b + 4096 * m \<le> unat n"
proof -
  let ?p = "major_pages (ucast sz)"
  have "unat sz < 2 ^ 31" using fr by (simp add: fair_request_def)
  note M = major_pages_unat [OF this]
  have ct: "(of_nat (unat ?p) :: u64) = ucast ?p" by simp
  show ?thesis
  proof (rule pages_alloc [OF law M(1,2), where k = "la_sys s"], unfold ct)
    fix k assume "le_alloc e (ucast ?p) (la_sys s) = Some (0, k)" "live k = live (la_sys s)"
    then show ?thesis using none [of k] by (simp add: allocate_new_page_def Let_def)
  next
    fix a k assume a: "le_alloc e (ucast ?p) (la_sys s) = Some (a, k)" "a \<noteq> 0" "unat a + 4096 * unat ?p < W64"
      "live k = insert (a, unat ?p) (live (la_sys s))"
      "\<And>b m. (b, m) \<in> live (la_sys s) \<Longrightarrow> unat a + 4096 * unat ?p \<le> unat b \<or> unat b + 4096 * m \<le> unat a"
    show ?thesis
      by (rule some [of a k]) (use a in \<open>simp_all add: allocate_new_page_def fresh_major_def Let_def sizeof_major_def\<close>)
  qed
qed

text \<open>A state that differs only in the majors, and one that has a new empty major at the end of the list.\<close>

definition same_minors :: "'k liballoc \<Rightarrow> 'k liballoc \<Rightarrow> bool" where
  "same_minors s s' \<longleftrightarrow> la_minor s' = la_minor s \<and> la_bytes s' = la_bytes s"

definition roomy :: "('k \<Rightarrow> (u64 \<times> nat) set) \<Rightarrow> u64 \<Rightarrow> 'k liballoc \<Rightarrow> la_shape \<Rightarrow> u64 \<Rightarrow> bool" where
  "roomy live sz s sh n \<longleftrightarrow> la_inv live s (sh @ [(n, [])]) \<and> 80 + unat sz \<le> jsize s n"

lemma extend_correct:
  assumes law: "pages_law e live" and fr: "fair_request sz req" and inv: "la_inv live s sh" and sh: "sh \<noteq> []"
  obtains (none) s1 k where "extend e (fst (last sh)) sz s = Some (0, s1)" and "la_inv live s1 sh" and "same_minors s s1"
      and "le_alloc e (ucast (major_pages (ucast sz))) (la_sys s) = Some (0, k)"
  | (some) n s1 where "extend e (fst (last sh)) sz s = Some (n, s1)" and "n \<noteq> 0" and "roomy live sz s1 sh n" and "same_minors s s1"
proof -
  let ?p = "major_pages (ucast sz)" and ?a = "fst (last sh)"
  have s31: "unat sz < 2 ^ 31" using fr by (simp add: fair_request_def)
  note M = major_pages_unat [OF s31]
  obtain us where us: "sh = us @ [last sh]" using append_butlast_last_id [OF sh] by metis
  have nx: "mj_next (la_major s ?a) = 0"
    using la_invD(1) [OF inv] arg_cong [OF us, of "map fst"] by (simp add: seg_append)
  have la: "lastp 0 (map fst sh) = ?a" using sh by (simp add: lastp_def last_map)
  have mem: "?a \<in> fst ` set sh" using sh by simp
  show ?thesis
  proof (rule allocate_new_page_cases [OF law fr, of s], goal_cases)
    case (1 k)
    define s1 where "s1 = upd_major ?a (\<lambda>m. m\<lparr>mj_next := 0\<rparr>) (s\<lparr>la_sys := k, l_warningCount := l_warningCount s + 1\<rparr>)"
    have "(la_major s ?a)\<lparr>mj_next := 0\<rparr> = la_major s ?a" using nx by (cases "la_major s ?a") simp
    then have maj: "la_major s1 = la_major s" by (simp add: s1_def upd_major_def)
    have "la_inv live s1 sh"
      by (rule la_inv_cong [OF inv]) (use 1(3) maj la_invD(6) [OF inv] in \<open>simp_all add: s1_def upd_major_def\<close>)
    moreover have "extend e ?a sz s = Some (0, s1)" using 1(1) by (simp add: extend_def s1_def Let_def)
    moreover have "same_minors s s1" by (simp add: same_minors_def s1_def upd_major_def)
    ultimately show ?thesis using that(1) 1(2) by blast
  next
    case (2 n k)
    define s0 where "s0 = s\<lparr>la_sys := k, la_major := (la_major s)(n := fresh_major 0 ?p), l_allocated := l_allocated s + ucast (?p * l_pageSize)\<rparr>"
    define s1 where "s1 = upd_major n (\<lambda>m. m\<lparr>mj_prev := ?a\<rparr>) (upd_major ?a (\<lambda>m. m\<lparr>mj_next := n\<rparr>) s0)"
    obtain ms where ms: "(?a, ms) \<in> set sh" using mem by force
    have ne: "?a \<noteq> n"
    proof
      assume "?a = n"
      moreover have "40 \<le> 4096 * unat (mj_pages (la_major s ?a))"
        using laid_le [OF major_okD(5) [OF la_invD(3) [OF inv ms]]] major_okD(3) [OF la_invD(3) [OF inv ms]] by simp
      ultimately show False using 2(5) [OF la_invD(4) [OF inv ms]] M(1) by auto
    qed
    have maj: "la_major s1 b = (if b = n then fresh_major (lastp 0 (map fst sh)) ?p
       else if sh \<noteq> [] \<and> b = fst (last sh) then (la_major s b)\<lparr>mj_next := n\<rparr> else la_major s b)" for b
      using ne sh la by (simp add: s1_def s0_def upd_major_def fresh_major_def)
    have "la_inv live s1 (sh @ [(n, [])])"
    proof (rule append_inv [OF inv _ maj _ _ _ 2(2,3) M(4,1)])
      show "live (la_sys s1) = insert (n, unat ?p) (live (la_sys s))" using 2(4) by (simp add: s1_def s0_def upd_major_def)
    qed (use sh 2(5) in \<open>simp_all add: s1_def s0_def upd_major_def\<close>)
    moreover have "80 + unat sz \<le> jsize s1 n" using M(3,4) maj [of n] by (simp add: fresh_major_def)
    moreover have "extend e ?a sz s = Some (n, s1)" using 2(1,2) by (simp add: extend_def s1_def s0_def Let_def)
    moreover have "same_minors s s1" by (simp add: same_minors_def s1_def s0_def upd_major_def)
    ultimately show ?thesis using that(2) 2(2) by (simp add: roomy_def)
  qed
qed

subsection \<open>The loop over the majors\<close>

definition grown :: "la_shape \<Rightarrow> la_shape \<Rightarrow> bool" where
  "grown sh sh' \<longleftrightarrow> sh' = sh \<or> (\<exists>n. sh' = sh @ [(n, [])])"

text \<open>A minor of the right size has been put into free memory of a major.\<close>

definition placed :: "('k \<Rightarrow> (u64 \<times> nat) set) \<Rightarrow> u64 \<Rightarrow> u64 \<Rightarrow> 'k liballoc \<Rightarrow> la_shape \<Rightarrow> u64 \<Rightarrow> 'k liballoc \<Rightarrow> bool" where
  "placed live sz req s sh p s' \<longleftrightarrow> (\<exists>s1 pre a xs n ys post. same_minors s s1 \<and> la_inv live s1 (pre @ (a, xs @ ys) # post) \<and>
     grown sh (pre @ (a, xs @ ys) # post) \<and> fits s1 a xs n ys sz req \<and> inserted s1 s' a xs n ys sz req \<and> p = ptr_of n)"

text \<open>The two ways in which \<open>malloc\<close> ends.\<close>

definition outcome :: "'k la_env \<Rightarrow> ('k \<Rightarrow> (u64 \<times> nat) set) \<Rightarrow> u64 \<Rightarrow> u64 \<Rightarrow> 'k liballoc \<Rightarrow> la_shape \<Rightarrow> u64 \<Rightarrow> 'k liballoc \<Rightarrow> bool" where
  "outcome e live sz req s sh p s' \<longleftrightarrow> placed live sz req s sh p s' \<or>
     p = 0 \<and> la_inv live s' sh \<and> same_minors s s' \<and> (\<exists>k. le_alloc e (ucast (major_pages (ucast sz))) (la_sys s) = Some (0, k))"

lemma same_minors_simps [simp]: "same_minors s s" "same_minors (s\<lparr>l_bestBet := x\<rparr>) s' = same_minors s s'"
  by (simp_all add: same_minors_def)

lemma same_minors_trans: "same_minors s s1 \<Longrightarrow> same_minors s1 s2 \<Longrightarrow> same_minors s s2"
  by (simp add: same_minors_def)

lemma outcome_best [simp]: "outcome e live sz req (s\<lparr>l_bestBet := x\<rparr>) sh p s' = outcome e live sz req s sh p s'"
  by (simp add: outcome_def placed_def)

lemma place_here:
  assumes fr: "fair_request sz req" and inv: "la_inv live s (pre @ (a, ms) # post)" and g: "grown sh (pre @ (a, ms) # post)"
    and sm: "same_minors s0 s" and room: "ms = [] \<Longrightarrow> 80 + unat sz \<le> jsize s a"
  shows "place_in a sz req s = Some None \<and> ms \<noteq> [] \<or> (\<exists>p s'. place_in a sz req s = Some (Some (p, s')) \<and> placed live sz req s0 sh p s')"
proof -
  have "major_ok s a ms" using la_invD(3) [OF inv] by simp
  from place_in_correct [OF this fr room] show ?thesis
  proof
    assume "\<exists>xs n ys s'. ms = xs @ ys \<and> place_in a sz req s = Some (Some (ptr_of n, s')) \<and>
       fits s a xs n ys sz req \<and> inserted s s' a xs n ys sz req"
    then obtain xs n ys s' where r: "ms = xs @ ys" "place_in a sz req s = Some (Some (ptr_of n, s'))"
       "fits s a xs n ys sz req" "inserted s s' a xs n ys sz req" by blast
    have "placed live sz req s0 sh (ptr_of n) s'"
      unfolding placed_def using r(3,4) inv g sm unfolding r(1) by blast
    then show ?thesis using r(2) by blast
  qed (assumption, rule disjI1)
qed

lemma fresh_place:
  assumes "fair_request sz req" and "roomy live sz s sh n" and "same_minors s0 s"
  shows "\<exists>p s'. place_in n sz req s = Some (Some (p, s')) \<and> placed live sz req s0 sh p s'"
  using place_here [OF assms(1), of live s sh n "[]" "[]" sh s0] assms(2,3) by (auto simp: roomy_def grown_def)

lemma more_room_eq: "\<exists>b' x. more_room a (b, s) = (b', s\<lparr>l_bestBet := x\<rparr>) \<and> (x = l_bestBet s \<or> x = a)"
proof (cases "b < ucast (mj_size (la_major s a) - mj_usage (la_major s a))")
  case False
  have "s = s\<lparr>l_bestBet := l_bestBet s\<rparr>" by (cases s) simp
  then show ?thesis using False by (intro exI [of _ b] exI [of _ "l_bestBet s"]) (simp add: more_room_def)
qed (auto simp: more_room_def Let_def)

lemma best_inv:
  assumes "la_inv live s sh" and "x = l_bestBet s \<or> x \<in> fst ` set sh"
  shows "la_inv live (s\<lparr>l_bestBet := x\<rparr>) sh"
  by (rule la_inv_cong [OF assms(1)]) (use assms la_invD(6) [OF assms(1)] in auto)

text \<open>The comparison of case 1.\<close>

lemma case1_room:
  assumes ok: "major_ok s a ms" and fr: "fair_request sz req"
  shows "ucast (mj_size (la_major s a) - mj_usage (la_major s a)) < sz + sizeof_minor \<longleftrightarrow>
    jsize s a < 80 + weight (msize s) ms + unat sz"
proof -
  have le: "40 + weight (msize s) ms \<le> jsize s a" using laid_le [OF major_okD(5) [OF ok]] by simp
  have "unat (mj_size (la_major s a) - mj_usage (la_major s a)) = jsize s a - (40 + weight (msize s) ms)"
    using le major_okD(6) [OF ok] by (subst unat_sub_nowrap) (simp_all add: word_le_nat_alt)
  then show ?thesis using le fair_requestD(4) [OF fr] unfolding word_less_nat_alt by auto
qed

lemma fresh_loop:
  assumes fr: "fair_request sz req" and r: "roomy live sz s sh n" and sm: "same_minors s0 s"
  shows "\<exists>p s'. malloc_loop e sz req n st b s = Some (p, s') \<and> placed live sz req s0 sh p s'"
proof -
  obtain b' x where m: "more_room n (b, s) = (b', s\<lparr>l_bestBet := x\<rparr>)" "x = l_bestBet s \<or> x = n" using more_room_eq by blast
  have ok: "major_ok s n []" using r la_invD(3) by (force simp: roomy_def)
  have "roomy live sz (s\<lparr>l_bestBet := x\<rparr>) sh n" using r m(2) by (auto simp: roomy_def intro!: best_inv)
  from fresh_place [OF fr this, of s0] sm obtain p s' where
    p: "place_in n sz req (s\<lparr>l_bestBet := x\<rparr>) = Some (Some (p, s'))" "placed live sz req s0 sh p s'"
    by (auto simp: same_minors_def)
  have "malloc_loop e sz req n st b s = Some (p, s')"
    using case1_room [OF ok fr] r p(1) major_okD(1) [OF ok]
    by (subst malloc_loop.simps) (simp add: m(1) case1_def roomy_def Let_def)
  then show ?thesis using p(2) by blast
qed

text \<open>One round of the loop at a major that is not the last to be tried: found, or on to the next one.\<close>

lemma next_major:
  assumes "la_inv live s (pre @ (a, ms) # post)"
  shows "mj_next (la_major s a) = headp (map fst post) 0"
  using la_invD(1) [OF assms] by (auto simp: seg_append dest: seg_head)

lemma headp_zero:
  assumes "la_inv live s (pre @ (a, ms) # post)"
  shows "headp (map fst post) 0 = 0 \<longleftrightarrow> post = []"
  using la_invD(1) [OF assms] by (cases post) (auto simp: seg_append)

lemma visit:
  assumes fr: "fair_request sz req" and inv: "la_inv live s (pre @ (a, ms) # post)" and more: "post \<noteq> [] \<or> st"
  shows "(\<exists>p s'. malloc_loop e sz req a st b s = Some (p, s') \<and> placed live sz req s (pre @ (a, ms) # post) p s') \<or>
    (\<exists>b' x. la_inv live (s\<lparr>l_bestBet := x\<rparr>) (pre @ (a, ms) # post) \<and>
       malloc_loop e sz req a st b s =
         malloc_loop e sz req (if post = [] then l_memRoot s else fst (hd post)) (st \<and> post \<noteq> []) b' (s\<lparr>l_bestBet := x\<rparr>))"
proof -
  let ?sh = "pre @ (a, ms) # post"
  have ok: "major_ok s a ms" using la_invD(3) [OF inv] by simp
  obtain b' x where m: "more_room a (b, s) = (b', s\<lparr>l_bestBet := x\<rparr>)" "x = l_bestBet s \<or> x = a" using more_room_eq by blast
  have inv1: "la_inv live (s\<lparr>l_bestBet := x\<rparr>) ?sh" using m(2) by (intro best_inv [OF inv]) auto
  note nx = next_major [OF inv] and h0 = headp_zero [OF inv] and C = case1_room [OF ok fr]
  have hd: "post \<noteq> [] \<Longrightarrow> headp (map fst post) 0 = fst (hd post)" by (cases post) simp_all
  have a0: "a \<noteq> 0" by (rule major_okD(1) [OF ok])
  have go: "malloc_loop e sz req a st b s =
        malloc_loop e sz req (if post = [] then l_memRoot s else fst (hd post)) (st \<and> post \<noteq> []) b' (s\<lparr>l_bestBet := x\<rparr>)"
    if "jsize s a < 80 + weight (msize s) ms + unat sz \<or> place_in a sz req (s\<lparr>l_bestBet := x\<rparr>) = Some None"
    using that C a0 more h0 hd nx
    by (subst malloc_loop.simps) (cases "post = []"; auto simp: m(1) case1_def case5_def Let_def)
  show ?thesis
  proof (cases "jsize s a < 80 + weight (msize s) ms + unat sz")
    case True
    then show ?thesis using go inv1 by blast
  next
    case False
    have "ms = [] \<Longrightarrow> 80 + unat sz \<le> jsize (s\<lparr>l_bestBet := x\<rparr>) a" using False by simp
    from place_here [OF fr inv1 _ _ this, of ?sh s] consider
        "place_in a sz req (s\<lparr>l_bestBet := x\<rparr>) = Some None"
      | p s' where "place_in a sz req (s\<lparr>l_bestBet := x\<rparr>) = Some (Some (p, s'))" "placed live sz req s ?sh p s'"
      by (auto simp: grown_def same_minors_def)
    then show ?thesis
    proof cases
      case 1
      then show ?thesis using go inv1 by blast
    next
      case 2
      then have "malloc_loop e sz req a st b s = Some (p, s')"
        using False C a0 by (subst malloc_loop.simps) (simp add: m(1) case1_def Let_def)
      then show ?thesis using 2(2) by blast
    qed
  qed
qed

text \<open>The last major to be tried: a new one is made when there is no room in it.\<close>

lemma visit_last:
  assumes law: "pages_law e live" and fr: "fair_request sz req" and inv: "la_inv live s (pre @ [(a, ms)])"
  shows "\<exists>p s'. malloc_loop e sz req a False b s = Some (p, s') \<and> outcome e live sz req s (pre @ [(a, ms)]) p s'"
proof -
  let ?sh = "pre @ [(a, ms)]"
  have ok: "major_ok s a ms" using la_invD(3) [OF inv] by simp
  obtain b' x where m: "more_room a (b, s) = (b', s\<lparr>l_bestBet := x\<rparr>)" "x = l_bestBet s \<or> x = a" using more_room_eq by blast
  let ?s1 = "s\<lparr>l_bestBet := x\<rparr>"
  have inv1: "la_inv live ?s1 ?sh" using m(2) by (intro best_inv [OF inv]) auto
  have nx: "mj_next (la_major s a) = 0" using next_major [OF inv] by simp
  note C = case1_room [OF ok fr] and a0 = major_okD(1) [OF ok]
  have ext: "\<exists>p s'. malloc_loop e sz req a False b s = Some (p, s') \<and> outcome e live sz req s ?sh p s'"
    if *: "jsize s a < 80 + weight (msize s) ms + unat sz \<or>
      \<not> jsize s a < 80 + weight (msize s) ms + unat sz \<and> place_in a sz req ?s1 = Some None"
  proof (rule extend_correct [OF law fr inv1], goal_cases)
    case (2 s2 k)
    have "malloc_loop e sz req a False b s = Some (0, s2)"
      using * C a0 nx 2(1) by (subst malloc_loop.simps) (auto simp: m(1) case1_def case5_def Let_def malloc_loop.simps)
    then show ?case using 2 by (auto simp: outcome_def)
  next
    case (3 n s2)
    obtain p s' where p: "place_in n sz req s2 = Some (Some (p, s'))" "placed live sz req s ?sh p s'"
      using fresh_place [OF fr 3(3), of s] 3(4) by auto
    obtain p2 s2' where q: "malloc_loop e sz req n False b' s2 = Some (p2, s2')" "placed live sz req s ?sh p2 s2'"
      using fresh_loop [OF fr 3(3), of s e False b'] 3(4) by auto
    have "malloc_loop e sz req a False b s = (if jsize s a < 80 + weight (msize s) ms + unat sz then Some (p, s') else Some (p2, s2'))"
      using * C a0 nx 3(1,2) p(1) q(1) by (subst malloc_loop.simps) (auto simp: m(1) case1_def case5_def Let_def)
    then show ?case using p(2) q(2) by (auto simp: outcome_def)
  qed simp
  show ?thesis
  proof (cases "jsize s a < 80 + weight (msize s) ms + unat sz")
    case False
    have "ms = [] \<Longrightarrow> 80 + unat sz \<le> jsize ?s1 a" using False by simp
    from place_here [OF fr inv1 _ _ this, of ?sh s] consider
        "place_in a sz req ?s1 = Some None"
      | p s' where "place_in a sz req ?s1 = Some (Some (p, s'))" "placed live sz req s ?sh p s'"
      by (auto simp: grown_def same_minors_def)
    then show ?thesis
    proof cases
      case 2
      then have "malloc_loop e sz req a False b s = Some (p, s')"
        using False C a0 by (subst malloc_loop.simps) (simp add: m(1) case1_def Let_def)
      then show ?thesis using 2(2) by (auto simp: outcome_def)
    qed (use ext False in blast)
  qed (use ext in blast)
qed

lemma loop_final:
  assumes law: "pages_law e live" and fr: "fair_request sz req" and inv: "la_inv live s (pre @ (a, ms) # post)"
  shows "\<exists>p s'. malloc_loop e sz req a False b s = Some (p, s') \<and> outcome e live sz req s (pre @ (a, ms) # post) p s'"
  using inv
proof (induction post arbitrary: pre a ms s b)
  case Nil
  then show ?case using visit_last [OF law fr] by blast
next
  case (Cons c post)
  obtain d ns where c: "c = (d, ns)" by (cases c)
  from visit [OF fr Cons.prems, of False e b] show ?case
  proof
    assume "\<exists>b' x. la_inv live (s\<lparr>l_bestBet := x\<rparr>) (pre @ (a, ms) # c # post) \<and> malloc_loop e sz req a False b s =
         malloc_loop e sz req (if c # post = [] then l_memRoot s else fst (hd (c # post))) (False \<and> c # post \<noteq> []) b' (s\<lparr>l_bestBet := x\<rparr>)"
    then obtain b' x where x: "la_inv live (s\<lparr>l_bestBet := x\<rparr>) ((pre @ [(a, ms)]) @ (d, ns) # post)"
        "malloc_loop e sz req a False b s = malloc_loop e sz req d False b' (s\<lparr>l_bestBet := x\<rparr>)" by (auto simp: c)
    from Cons.IH [OF x(1), of b'] show ?thesis unfolding x(2) by (simp add: c)
  qed (auto simp: outcome_def)
qed

lemma loop_bet:
  assumes law: "pages_law e live" and fr: "fair_request sz req" and inv: "la_inv live s (pre @ (a, ms) # post)"
  shows "\<exists>p s'. malloc_loop e sz req a True b s = Some (p, s') \<and> outcome e live sz req s (pre @ (a, ms) # post) p s'"
  using inv
proof (induction post arbitrary: pre a ms s b)
  case Nil
  obtain c ns rest where sh: "pre @ [(a, ms)] = (c, ns) # rest" by (cases pre) auto
  have root: "l_memRoot s = c" using la_invD(1) [OF Nil.prems] by (simp add: sh)
  from visit [OF fr Nil.prems, of True e b] show ?case
  proof
    assume "\<exists>b' x. la_inv live (s\<lparr>l_bestBet := x\<rparr>) (pre @ [(a, ms)]) \<and> malloc_loop e sz req a True b s =
         malloc_loop e sz req (if [] = [] then l_memRoot s else fst (hd [])) (True \<and> [] \<noteq> []) b' (s\<lparr>l_bestBet := x\<rparr>)"
    then obtain b' x where x: "la_inv live (s\<lparr>l_bestBet := x\<rparr>) ([] @ (c, ns) # rest)"
        "malloc_loop e sz req a True b s = malloc_loop e sz req c False b' (s\<lparr>l_bestBet := x\<rparr>)" by (auto simp: sh root)
    from loop_final [OF law fr x(1), of b'] show ?thesis unfolding x(2) by (simp add: sh)
  qed (auto simp: outcome_def)
next
  case (Cons c post)
  obtain d ns where c: "c = (d, ns)" by (cases c)
  from visit [OF fr Cons.prems, of True e b] show ?case
  proof
    assume "\<exists>b' x. la_inv live (s\<lparr>l_bestBet := x\<rparr>) (pre @ (a, ms) # c # post) \<and> malloc_loop e sz req a True b s =
         malloc_loop e sz req (if c # post = [] then l_memRoot s else fst (hd (c # post))) (True \<and> c # post \<noteq> []) b' (s\<lparr>l_bestBet := x\<rparr>)"
    then obtain b' x where x: "la_inv live (s\<lparr>l_bestBet := x\<rparr>) ((pre @ [(a, ms)]) @ (d, ns) # post)"
        "malloc_loop e sz req a True b s = malloc_loop e sz req d True b' (s\<lparr>l_bestBet := x\<rparr>)" by (auto simp: c)
    from Cons.IH [OF x(1), of b'] show ?thesis unfolding x(2) by (simp add: c)
  qed (auto simp: outcome_def)
qed

lemma malloc_at_outcome:
  assumes law: "pages_law e live" and fr: "fair_request sz req" and inv: "la_inv live s sh"
  shows "\<exists>p s'. malloc_at e sz req s = Some (p, s') \<and> outcome e live sz req s sh p s'"
proof (cases sh)
  case Nil
  have root: "l_memRoot s = 0" "l_bestBet s = 0" using la_invD(1,6) [OF inv] by (auto simp: Nil)
  have "unat sz < 2 ^ 31" using fr by (simp add: fair_request_def)
  note M = major_pages_unat [OF this]
  show ?thesis
  proof (rule allocate_new_page_cases [OF law fr, of s], goal_cases)
    case (1 k)
    let ?s = "s\<lparr>la_sys := k, l_warningCount := l_warningCount s + 1, l_memRoot := 0\<rparr>"
    have "malloc_at e sz req s = Some (0, ?s)" using 1(1) root(1) by (simp add: malloc_at_def)
    moreover have "la_inv live ?s sh" by (rule la_inv_cong [OF inv]) (use 1(3) root in simp_all)
    ultimately show ?case using 1(2) by (auto simp: outcome_def same_minors_def)
  next
    case (2 n k)
    define s1 where "s1 = s\<lparr>la_sys := k, la_major := (la_major s)(n := fresh_major 0 (major_pages (ucast sz))),
      l_allocated := l_allocated s + ucast (major_pages (ucast sz) * l_pageSize), l_memRoot := n\<rparr>"
    have "la_inv live s1 ([] @ [(n, [])])"
      by (rule append_inv [OF inv [unfolded Nil] _ _ _ _ _ 2(2,3) M(4,1)]) (use 2(4,5) in \<open>simp_all add: s1_def\<close>)
    then have r: "roomy live sz s1 [] n" using M(3,4) by (simp add: roomy_def s1_def fresh_major_def)
    have "same_minors s s1" by (simp add: same_minors_def s1_def)
    from fresh_loop [OF fr r this, of e False 0] obtain p s' where
      p: "malloc_loop e sz req n False 0 s1 = Some (p, s')" "placed live sz req s [] p s'" by blast
    have "malloc_at e sz req s = malloc_loop e sz req n False 0 s1"
      using 2(1,2) root by (simp add: malloc_at_def s1_def Let_def)
    then show ?case using p by (auto simp: outcome_def Nil)
  qed
next
  case (Cons c rest)
  obtain d ns where c: "c = (d, ns)" by (cases c)
  have d: "l_memRoot s = d" "d \<noteq> 0" using la_invD(1) [OF inv] by (simp_all add: Cons c)
  let ?b = "la_major s (l_bestBet s)"
  define best :: u64 where "best = (if l_bestBet s \<noteq> 0 then ucast (mj_size ?b - mj_usage ?b) else 0)"
  define bet where "bet \<longleftrightarrow> l_bestBet s \<noteq> 0 \<and> best > sz + sizeof_minor"
  have eq: "malloc_at e sz req s = malloc_loop e sz req (if bet then l_bestBet s else d) bet best s"
    using d by (simp add: malloc_at_def best_def bet_def Let_def)
  show ?thesis
  proof (cases bet)
    case True
    then have "l_bestBet s \<in> fst ` set sh" using la_invD(6) [OF inv] by (simp add: bet_def)
    then obtain ms where "(l_bestBet s, ms) \<in> set sh" by force
    then obtain pre post where sh: "sh = pre @ (l_bestBet s, ms) # post" by (meson split_list)
    show ?thesis using loop_bet [OF law fr inv [unfolded sh], of best] eq True unfolding sh [symmetric] by simp
  next
    case False
    have "la_inv live s ([] @ (d, ns) # rest)" using inv by (simp add: Cons c)
    from loop_final [OF law fr this, of best] show ?thesis using eq False by (simp add: Cons c)
  qed
qed

end
