(* ===== verification/Liballoc_Free.thy ===== *)
theory Liballoc_Free
  imports Liballoc_Malloc
begin

text \<open>
  The allocations of \<open>Liballoc\<close> as a set of address ranges: \<open>malloc\<close> adds a range that is aligned, in
  memory of the system and apart from all others, \<open>free\<close> takes exactly that range away and gives a major
  that has become empty back to the system, and \<open>realloc\<close> keeps the contents.
\<close>

subsection \<open>Allocations\<close>

definition minors :: "la_shape \<Rightarrow> u64 set" where
  "minors sh = (\<Union>(a, ms) \<in> set sh. set ms)"

definition allocs :: "'k liballoc \<Rightarrow> la_shape \<Rightarrow> (u64 \<times> nat) set" where
  "allocs s sh = (\<lambda>m. (ptr_of m, unat (mn_req_size (la_minor s m)))) ` minors sh"

lemma minors_simps [simp]: "minors [] = {}" "minors ((a, ms) # sh) = set ms \<union> minors sh" "minors (xs @ ys) = minors xs \<union> minors ys"
  by (auto simp: minors_def)

lemma minors_grown: "grown sh sh' \<Longrightarrow> minors sh' = minors sh"
  by (auto simp: grown_def)

lemma minors_iff: "m \<in> minors sh \<longleftrightarrow> (\<exists>a ms. (a, ms) \<in> set sh \<and> m \<in> set ms)"
  by (auto simp: minors_def)

text \<open>Where the memory of a minor is.\<close>

lemma user_region:
  assumes "major_ok s a ms" and "m \<in> set ms"
  shows "unat m + 56 \<le> unat (ptr_of m)" and "unat (ptr_of m) + unat (mn_req_size (la_minor s m)) < unat m + 40 + msize s m"
    and "unat (ptr_of m) mod 16 = 0" and "unat (ptr_of m - 16) = unat (ptr_of m) - 16"
proof -
  note B = minor_bounds [OF assms]
  have "unat m + 72 < W64" using B(3,4) by simp
  note P = ptr_of_unat [OF this]
  show "unat m + 56 \<le> unat (ptr_of m)" "unat (ptr_of m) mod 16 = 0" "unat (ptr_of m - 16) = unat (ptr_of m) - 16" using P by simp_all
  show "unat (ptr_of m) + unat (mn_req_size (la_minor s m)) < unat m + 40 + msize s m" using P(2) B(4) by linarith
qed

lemma minors_apart:
  assumes inv: "la_inv live s sh" and m: "m \<in> minors sh" and n: "n \<in> minors sh" and ne: "m \<noteq> n"
  shows "unat m + 40 + msize s m \<le> unat n \<or> unat n + 40 + msize s n \<le> unat m"
proof -
  obtain a ms where a: "(a, ms) \<in> set sh" "m \<in> set ms" using m by (auto simp: minors_iff)
  obtain b ns where b: "(b, ns) \<in> set sh" "n \<in> set ns" using n by (auto simp: minors_iff)
  note ok = la_invD(3) [OF inv a(1)] la_invD(3) [OF inv b(1)]
  show ?thesis
  proof (cases "a = b")
    case True
    then have "ms = ns" using a(1) b(1) la_invD(2) [OF inv] by (metis eq_key_imp_eq_value)
    then show ?thesis using laid_apart [OF major_okD(5) [OF ok(1)] a(2) _ ne] b(2) by simp
  next
    case False
    have "a \<in> fst ` set sh" "b \<in> fst ` set sh" using a(1) b(1) by force+
    from la_invD(5) [OF inv this False] show ?thesis
      using minor_bounds [OF ok(1) a(2)] minor_bounds [OF ok(2) b(2)] by (auto simp: apart_def)
  qed
qed

lemma minor_major:
  assumes "la_inv live s sh" and "m \<in> minors sh"
  obtains a ms where "(a, ms) \<in> set sh" and "m \<in> set ms" and "major_ok s a ms"
  using assms la_invD(3) [OF assms(1)] by (auto simp: minors_iff)

text \<open>
  The ranges of two allocations are apart, no range meets the structure of a minor or of a major, and
  the byte in front of a pointer is in no range. This is what makes it sound to keep the two kinds of structure and
  the bytes in separate memories.
\<close>

lemma allocs_apart:
  assumes inv: "la_inv live s sh" and p: "(p, k) \<in> allocs s sh" and q: "(q, j) \<in> allocs s sh" and ne: "p \<noteq> q"
  shows "unat p + k \<le> unat q \<or> unat q + j \<le> unat p"
proof -
  obtain m where m: "m \<in> minors sh" "p = ptr_of m" "k = unat (mn_req_size (la_minor s m))" using p by (auto simp: allocs_def)
  obtain n where n: "n \<in> minors sh" "q = ptr_of n" "j = unat (mn_req_size (la_minor s n))" using q by (auto simp: allocs_def)
  obtain a ms where a: "m \<in> set ms" "major_ok s a ms" by (rule minor_major [OF inv m(1)])
  obtain b ns where b: "n \<in> set ns" "major_ok s b ns" by (rule minor_major [OF inv n(1)])
  have "m \<noteq> n" using ne m n by blast
  from minors_apart [OF inv m(1) n(1) this] show ?thesis
    using user_region(1,2) [OF a(2,1)] user_region(1,2) [OF b(2,1)] m(2,3) n(2,3) by auto
qed

lemma structures_apart:
  assumes inv: "la_inv live s sh" and p: "(p, k) \<in> allocs s sh"
  shows "n \<in> minors sh \<Longrightarrow> unat p + k \<le> unat n \<or> unat n + 40 \<le> unat p"
    and "n \<in> minors sh \<Longrightarrow> unat p + k \<le> unat (ptr_of n - 16) \<or> unat (ptr_of n - 16) < unat p"
    and "b \<in> fst ` set sh \<Longrightarrow> unat p + k \<le> unat b \<or> unat b + 40 \<le> unat p"
proof -
  obtain m where m: "m \<in> minors sh" "p = ptr_of m" "k = unat (mn_req_size (la_minor s m))" using p by (auto simp: allocs_def)
  obtain a ms where a: "(a, ms) \<in> set sh" "m \<in> set ms" "major_ok s a ms" by (rule minor_major [OF inv m(1)])
  note U = user_region [OF a(3,2), folded m(2,3)]
  {
    assume n: "n \<in> minors sh"
    obtain c ns where c: "n \<in> set ns" "major_ok s c ns" by (rule minor_major [OF inv n])
    note V = user_region [OF c(2,1)]
    show "unat p + k \<le> unat n \<or> unat n + 40 \<le> unat p"
      using U(1,2) minors_apart [OF inv m(1) n] by (cases "m = n") auto
    show "unat p + k \<le> unat (ptr_of n - 16) \<or> unat (ptr_of n - 16) < unat p"
      using U(1,2,4) V minors_apart [OF inv m(1) n] m(2) by (cases "m = n") auto
  next
    assume b: "b \<in> fst ` set sh"
    have "a \<in> fst ` set sh" using a(1) by force
    moreover obtain ns where "(b, ns) \<in> set sh" using b by force
    then have "40 \<le> jsize s b" using laid_le [OF major_okD(5) [OF la_invD(3) [OF inv]]] by force
    ultimately show "unat p + k \<le> unat b \<or> unat b + 40 \<le> unat p"
      using la_invD(5) [OF inv, of a b] b U(1,2) minor_bounds [OF a(3,2)] by (cases "a = b") (auto simp: apart_def)
  }
qed

subsection \<open>malloc\<close>

text \<open>What a placed minor means for the allocations.\<close>

definition alloc_ok :: "('k \<Rightarrow> (u64 \<times> nat) set) \<Rightarrow> 'k liballoc \<Rightarrow> la_shape \<Rightarrow> u64 \<Rightarrow> u64 \<Rightarrow> 'k liballoc \<Rightarrow> la_shape \<Rightarrow> bool" where
  "alloc_ok live s sh p req s' sh' \<longleftrightarrow> p \<noteq> 0 \<and> unat p mod 16 = 0 \<and>
     (\<exists>(a, n) \<in> live (la_sys s'). unat a + 40 \<le> unat p \<and> unat p + unat req \<le> unat a + 4096 * n) \<and>
     (\<forall>(q, k) \<in> allocs s sh. (unat p + unat req \<le> unat q \<or> unat q + k \<le> unat p) \<and>
        (\<forall>i < k. la_bytes s' (q + of_nat i) = la_bytes s (q + of_nat i))) \<and>
     allocs s' sh' = insert (p, unat req) (allocs s sh)"

lemma range_unat:
  assumes "unat (q :: u64) + k < W64" and "i < k"
  shows "unat (q + of_nat i) = unat q + i"
proof -
  have "unat (of_nat i :: u64) = i" using assms by (simp add: unsigned_of_nat take_bit_nat_eq_self)
  then show ?thesis using assms by (subst unat_add_nowrap) simp_all
qed

lemma placed_alloc:
  assumes "placed live sz req s sh p s'" and fr: "fair_request sz req"
  shows "\<exists>sh'. la_inv live s' sh' \<and> alloc_ok live s sh p req s' sh'"
proof -
  obtain s1 pre a xs n ys post where sm: "same_minors s s1" and inv1: "la_inv live s1 (pre @ (a, xs @ ys) # post)"
      and g: "grown sh (pre @ (a, xs @ ys) # post)" and f: "fits s1 a xs n ys sz req" and i: "inserted s1 s' a xs n ys sz req"
      and p: "p = ptr_of n"
    using assms(1) unfolding placed_def by blast
  let ?sh' = "pre @ (a, xs @ n # ys) # post"
  have inv': "la_inv live s' ?sh'" by (rule insert_inv [OF inv1 f i])
  have ok': "major_ok s' a (xs @ n # ys)" using la_invD(3) [OF inv'] by simp
  note D = insertedD [OF i] and U = user_region [OF ok', of n]
  have sz: "msize s' n = unat sz" "unat (mn_req_size (la_minor s' n)) = unat req"
    using D(5) f by (simp_all add: new_minor_def fits_def ucast_32)
  have ms: "minors sh = minors pre \<union> set (xs @ ys) \<union> minors post" using minors_grown [OF g] by auto
  have ms': "minors ?sh' = insert n (minors sh)" using ms by auto
  have new: "n \<notin> minors sh"
  proof
    assume "n \<in> minors sh"
    then have nm: "n \<in> minors (pre @ (a, xs @ ys) # post)" using minors_grown [OF g] by simp
    obtain b ns where b: "(b, ns) \<in> set (pre @ (a, xs @ ys) # post)" "n \<in> set ns" "major_ok s1 b ns" by (rule minor_major [OF inv1 nm])
    have ok: "major_ok s1 a (xs @ ys)" using la_invD(3) [OF inv1] by simp
    note R = fits_region [OF ok f] and B = minor_bounds [OF b(3,2)]
    show False
    proof (cases "b = a")
      case True
      then have "ns = xs @ ys" using major_unique [OF la_invD(2) [OF inv1] b(1)] by blast
      then show False using R(4) [of n] b(2) by auto
    next
      case False
      have "a \<in> fst ` set (pre @ (a, xs @ ys) # post)" "b \<in> fst ` set (pre @ (a, xs @ ys) # post)" using b(1) by force+
      from la_invD(5) [OF inv1 this] False show False using R(1,2) B by (auto simp: apart_def)
    qed
  qed
  have rq: "mn_req_size (la_minor s' m) = mn_req_size (la_minor s m)" if "m \<in> minors sh" for m
    using D(6) [of m] that new sm by (cases "m = n") (auto simp: same_minors_def)
  have al: "allocs s' ?sh' = insert (p, unat req) (allocs s sh)"
    unfolding allocs_def ms' using rq sz(2) by (auto simp: p image_iff)
  have pin: "(p, unat req) \<in> allocs s' ?sh'" by (simp add: al)
  have other: "(unat p + unat req \<le> unat q \<or> unat q + k \<le> unat p) \<and> (\<forall>i < k. la_bytes s' (q + of_nat i) = la_bytes s (q + of_nat i))"
    if q: "(q, k) \<in> allocs s sh" for q k
  proof -
    obtain m where m: "m \<in> minors sh" "q = ptr_of m" "k = unat (mn_req_size (la_minor s m))" using q by (auto simp: allocs_def)
    have mi: "m \<in> minors ?sh'" "n \<in> minors ?sh'" using ms' m(1) by simp_all
    obtain b ns where b: "m \<in> set ns" "major_ok s' b ns" by (rule minor_major [OF inv' mi(1)])
    note V = user_region [OF b(2,1)] and B = minor_bounds(3) [OF b(2,1)]
    have mn: "m \<noteq> n" using new m(1) by blast
    have ap: "unat m + 40 + msize s' m \<le> unat n \<or> unat n + 40 + unat sz \<le> unat m"
      using minors_apart [OF inv' mi mn] sz(1) by simp
    have "unat p + unat req \<le> unat q \<or> unat q + k \<le> unat p"
      using ap U(1,2) V(1,2) sz m(2,3) rq [OF m(1)] p by auto
    moreover have "la_bytes s' (q + of_nat i) = la_bytes s (q + of_nat i)" if i: "i < k" for i
    proof -
      have "unat (q + of_nat i) = unat q + i"
        by (rule range_unat [OF _ i]) (use V(2) B m rq [OF m(1)] in simp)
      then have "q + of_nat i \<noteq> ptr_of n - 16"
        using ap U(1,2,4) V(1,2) sz m(2,3) rq [OF m(1)] p i by auto
      then show ?thesis using D(7) sm by (simp add: same_minors_def)
    qed
    ultimately show ?thesis by blast
  qed
  have "(a, unat (mj_pages (la_major s' a))) \<in> live (la_sys s')" by (rule la_invD(4) [OF inv', of a "xs @ n # ys"]) simp
  moreover have "unat a + 40 \<le> unat p" "unat p + unat req \<le> unat a + 4096 * unat (mj_pages (la_major s' a))"
    using U(1,2) minor_bounds [OF ok', of n] major_okD(3) [OF ok'] sz p by simp_all
  moreover have "p \<noteq> 0" using calculation(2) by auto
  ultimately have "alloc_ok live s sh p req s' ?sh'"
    unfolding alloc_ok_def using other al U(3) p by auto
  then show ?thesis using inv' by blast
qed

lemma fair_malloc:
  assumes "unat req < 2 ^ 31 - 32"
  shows "fair_request (req + 32) req" and "req + 32 \<noteq> 0"
proof -
  have "unat (req + 32) = unat req + 32" using assms by (subst unat_add_nowrap) simp_all
  then show "fair_request (req + 32) req" "req + 32 \<noteq> 0" using assms by (auto simp: fair_request_def)
qed

text \<open>
  A request below two gigabytes ends. Either the system refuses pages, the result is null and every
  allocation is as it was; or the result is a new range, aligned to 16 bytes, inside pages that the
  system handed out, apart from all other ranges, and no byte of another range has changed.
\<close>

text \<open>(C38) A malloc of less than 2 GiB on a consistent heap ends: it returns a range
  aligned to 16 bytes, inside pages of the system, apart from every other allocated range and
  without changing a byte of one, and the heap stays consistent; or the system refused pages, the
  result is null and the allocations are as they were.\<close>

theorem malloc_correct:
  assumes "pages_law e live" and "la_inv live s sh" and "unat req < 2 ^ 31 - 32"
  shows "\<exists>p s' sh'. malloc e req s = Some (p, s') \<and> la_inv live s' sh' \<and>
    (alloc_ok live s sh p req s' sh' \<or>
     p = 0 \<and> sh' = sh \<and> allocs s' sh' = allocs s sh \<and> la_bytes s' = la_bytes s \<and>
     (\<exists>k. le_alloc e (ucast (major_pages (ucast (req + 32)))) (la_sys s) = Some (0, k)))"
proof -
  note F = fair_malloc [OF assms(3)]
  obtain p s' where m: "malloc_at e (req + 32) req s = Some (p, s')" and o: "outcome e live (req + 32) req s sh p s'"
    using malloc_at_outcome [OF assms(1) F(1) assms(2)] by blast
  have "malloc e req s = Some (p, s')" using m F(2) by (simp add: malloc_def ALIGNMENT_def ALIGN_INFO_def)
  moreover from o have "\<exists>sh'. la_inv live s' sh' \<and> (alloc_ok live s sh p req s' sh' \<or>
     p = 0 \<and> sh' = sh \<and> allocs s' sh' = allocs s sh \<and> la_bytes s' = la_bytes s \<and>
     (\<exists>k. le_alloc e (ucast (major_pages (ucast (req + 32)))) (la_sys s) = Some (0, k)))"
    unfolding outcome_def
  proof
    assume "placed live (req + 32) req s sh p s'"
    from placed_alloc [OF this F(1)] show ?thesis by blast
  qed (auto simp: same_minors_def allocs_def)
  ultimately show ?thesis by blast
qed

subsection \<open>free\<close>

text \<open>Taking the minor \<open>n\<close> from between \<open>xs\<close> and \<open>ys\<close> in the major \<open>a\<close>.\<close>

definition removed :: "'k liballoc \<Rightarrow> 'k liballoc \<Rightarrow> u64 \<Rightarrow> u64 list \<Rightarrow> u64 \<Rightarrow> u64 list \<Rightarrow> bool" where
  "removed s s' a xs n ys \<longleftrightarrow>
     l_memRoot s' = l_memRoot s \<and> l_bestBet s' = l_bestBet s \<and> la_sys s' = la_sys s \<and> la_bytes s' = la_bytes s \<and>
     la_major s' = (la_major s)(a := (la_major s a)\<lparr>mj_usage := mj_usage (la_major s a) - (mn_size (la_minor s n) + ucast sizeof_minor),
       mj_first := (if xs = [] then headp ys 0 else mj_first (la_major s a))\<rparr>) \<and>
     (\<forall>x. x \<noteq> n \<longrightarrow> la_minor s' x = (la_minor s x)
        \<lparr>mn_prev := (if ys \<noteq> [] \<and> x = hd ys then lastp 0 xs else mn_prev (la_minor s x)),
         mn_next := (if xs \<noteq> [] \<and> x = last xs then headp ys 0 else mn_next (la_minor s x))\<rparr>)"

lemma removedD:
  assumes "removed s s' a xs n ys"
  shows "l_memRoot s' = l_memRoot s" "l_bestBet s' = l_bestBet s" "la_sys s' = la_sys s" "la_bytes s' = la_bytes s"
    "la_major s' = (la_major s)(a := (la_major s a)\<lparr>mj_usage := mj_usage (la_major s a) - (mn_size (la_minor s n) + ucast sizeof_minor),
       mj_first := (if xs = [] then headp ys 0 else mj_first (la_major s a))\<rparr>)"
    "x \<noteq> n \<Longrightarrow> la_minor s' x = (la_minor s x)
        \<lparr>mn_prev := (if ys \<noteq> [] \<and> x = hd ys then lastp 0 xs else mn_prev (la_minor s x)),
         mn_next := (if xs \<noteq> [] \<and> x = last xs then headp ys 0 else mn_next (la_minor s x))\<rparr>"
  using assms unfolding removed_def by blast+

lemma minor_links:
  assumes ok: "major_ok s a (xs @ n # ys)"
  shows "mn_next (la_minor s n) = headp ys 0" and "mn_prev (la_minor s n) = lastp 0 xs" and "mn_block (la_minor s n) = a"
    and "headp ys 0 = 0 \<longleftrightarrow> ys = []" and "lastp 0 xs = 0 \<longleftrightarrow> xs = []" and "n \<notin> set (xs @ ys)" and "distinct (xs @ ys)"
    and "ys \<noteq> [] \<Longrightarrow> headp ys 0 = hd ys" and "xs \<noteq> [] \<Longrightarrow> lastp 0 xs = last xs"
proof -
  note S = major_okD(4) [OF ok]
  show "mn_next (la_minor s n) = headp ys 0" "mn_prev (la_minor s n) = lastp 0 xs" using S by (auto simp: seg_append dest: seg_head)
  show "mn_block (la_minor s n) = a" using major_okD(7) [OF ok, of n] by (simp add: minor_ok_def)
  have nz: "0 \<notin> set xs" "0 \<notin> set ys" using seg_nonzero [OF S] by simp_all
  show "headp ys 0 = 0 \<longleftrightarrow> ys = []" using nz(2) by (cases ys) auto
  show "lastp 0 xs = 0 \<longleftrightarrow> xs = []" using nz(1) last_in_set [of xs] by (metis lastp_def)
  show "n \<notin> set (xs @ ys)" "distinct (xs @ ys)" using laid_distinct [OF major_okD(5) [OF ok]] by auto
  show "headp ys 0 = hd ys" if "ys \<noteq> []" using that by (cases ys) simp_all
  show "lastp 0 xs = last xs" if "xs \<noteq> []" using that by (simp add: lastp_def)
qed

lemma unlink_minor_removed:
  assumes ok: "major_ok s a (xs @ n # ys)"
  shows "removed s (unlink_minor n s) a xs n ys"
proof -
  note L = minor_links [OF ok]
  have d: "n \<notin> set xs" "n \<notin> set ys" "set xs \<inter> set ys = {}" using L(6,7) by simp_all
  have ne: "last xs \<noteq> n" if "xs \<noteq> []" using d(1) last_in_set [OF that] by metis
  have ne': "hd ys \<noteq> n" if "ys \<noteq> []" using d(2) hd_in_set [OF that] by metis
  have ne'': "last xs \<noteq> hd ys" if "xs \<noteq> []" "ys \<noteq> []" using d(3) last_in_set [OF that(1)] hd_in_set [OF that(2)] by (metis disjoint_iff)
  show ?thesis
    unfolding removed_def unlink_minor_def Let_def L(1-3) L(4,5) upd_major_def upd_minor_def
    using L(8,9) ne ne' ne'' by (cases "xs = []"; cases "ys = []") (simp_all add: major_upd_comm)
qed

lemma remove_major_ok:
  assumes ok: "major_ok s a (xs @ n # ys)" and r: "removed s s' a xs n ys"
  shows "major_ok s' a (xs @ ys)"
proof -
  note D = removedD [OF r] and L = minor_links [OF ok]
  have js: "jsize s' a = jsize s a" "mj_pages (la_major s' a) = mj_pages (la_major s a)" using D(5) by simp_all
  have ne: "m \<noteq> n" if "m \<in> set (xs @ ys)" for m using that L(6) by blast
  note old = D(6) [OF ne]
  have zs: "msize s' m = msize s m" if "m \<in> set (xs @ ys)" for m using old [OF that] by simp
  have dist: "distinct (xs @ n # ys)" by (rule laid_distinct [OF major_okD(5) [OF ok]])
  have "mseg s' (if xs = [] then headp ys 0 else mj_first (la_major s a)) (xs @ ys)"
  proof (rule seg_remove [OF major_okD(4) [OF ok] dist])
    show "mn_next (la_minor s' (last xs)) = headp ys 0" if "xs \<noteq> []" using old [of "last xs"] that by simp
    show "mn_prev (la_minor s' (hd ys)) = lastp 0 xs" if "ys \<noteq> []" using old [of "hd ys"] that by simp
  qed (use old in auto)
  moreover have "laid (msize s') (unat a + 40) (xs @ ys) (unat a + jsize s a)"
    using laid_remove [OF major_okD(5) [OF ok]] zs by (subst laid_cong [of _ "msize s'" "msize s"]) auto
  moreover have "unat (mj_usage (la_major s' a)) = 40 + weight (msize s') (xs @ ys)"
  proof -
    have w: "weight (msize s') (xs @ ys) = weight (msize s) (xs @ ys)" by (rule weight_cong) (rule zs)
    have le: "unat a + 40 + weight (msize s) (xs @ n # ys) \<le> unat a + jsize s a" by (rule laid_le [OF major_okD(5) [OF ok]])
    have "msize s n + 40 < 2 ^ 32" using le jsize_less [of s a] by simp
    then have u: "unat (mn_size (la_minor s n) + ucast sizeof_minor) = msize s n + 40" by (simp add: unat_word_ariths sizeof_minor_def)
    have "unat (mj_usage (la_major s a) - (mn_size (la_minor s n) + ucast sizeof_minor)) =
      unat (mj_usage (la_major s a)) - (msize s n + 40)"
      using u major_okD(6) [OF ok] by (subst unat_sub_nowrap) (simp_all add: word_le_nat_alt)
    then show ?thesis using D(5) w major_okD(6) [OF ok] by simp
  qed
  moreover have "minor_ok s' a m" if m: "m \<in> set (xs @ ys)" for m
    using major_okD(7) [OF ok, of m] m old [OF m] D(4) by (auto simp: minor_ok_def pad_ok_def)
  ultimately show ?thesis using major_okD(1-3) [OF ok] js D(5) by (simp add: major_ok_def)
qed

lemma remove_inv:
  assumes inv: "la_inv live s (pre @ (a, xs @ n # ys) # post)" and r: "removed s s' a xs n ys"
  shows "la_inv live s' (pre @ (a, xs @ ys) # post)"
proof -
  let ?sh = "pre @ (a, xs @ n # ys) # post" and ?sh' = "pre @ (a, xs @ ys) # post"
  note D = removedD [OF r]
  have ok: "major_ok s a (xs @ n # ys)" using la_invD(3) [OF inv] by simp
  have js: "jsize s' b = jsize s b" "mj_pages (la_major s' b) = mj_pages (la_major s b)" for b using D(5) by simp_all
  have nodes: "map fst ?sh' = map fst ?sh" "fst ` set ?sh' = fst ` set ?sh" by simp_all
  show ?thesis
  proof (rule la_invI)
    have "jseg s' (map fst ?sh) = jseg s (map fst ?sh)" unfolding D(1) by (rule lseg_cong) (simp add: D(5))
    then show "jseg s' (map fst ?sh')" unfolding nodes using la_invD(1) [OF inv] by simp
    show "distinct (map fst ?sh')" unfolding nodes by (rule la_invD(2) [OF inv])
    show "l_bestBet s' = 0 \<or> l_bestBet s' \<in> fst ` set ?sh'" unfolding nodes D(2) by (rule la_invD(6) [OF inv])
    show "apart s' b c" if "b \<in> fst ` set ?sh'" "c \<in> fst ` set ?sh'" "b \<noteq> c" for b c
      using la_invD(5) [OF inv, of b c] that unfolding nodes apart_def js by blast
  next
    fix b ms assume b: "(b, ms) \<in> set ?sh'"
    then have "b = a \<and> ms = xs @ ys \<or> b \<noteq> a \<and> (b, ms) \<in> set pre \<union> set post"
      using la_invD(2) [OF inv] by (intro major_unique) simp_all
    then show "major_ok s' b ms"
    proof
      assume "b = a \<and> ms = xs @ ys"
      then show ?thesis using remove_major_ok [OF ok r] by simp
    next
      assume *: "b \<noteq> a \<and> (b, ms) \<in> set pre \<union> set post"
      then have bin: "(b, ms) \<in> set ?sh" by auto
      have okb: "major_ok s b ms" by (rule la_invD(3) [OF inv bin])
      have "a \<in> fst ` set ?sh" "b \<in> fst ` set ?sh" using bin by force+
      from la_invD(5) [OF inv this] have ap: "apart s a b" using * by blast
      have "major_ok s' b ms = major_ok s b ms"
      proof (rule major_ok_cong)
        show "la_major s' b = la_major s b" using * D(5) by simp
        fix m assume m: "m \<in> set ms"
        note B = minor_bounds [OF okb m]
        have mo: "m \<noteq> x" if "x \<in> set (xs @ n # ys)" for x
          using minor_bounds [OF ok that] B ap by (auto simp: apart_def)
        have "m \<noteq> n" "\<not> (xs \<noteq> [] \<and> m = last xs)" "\<not> (ys \<noteq> [] \<and> m = hd ys)"
          using mo [of n] mo [of "last xs"] mo [of "hd ys"] by auto
        then show "la_minor s' m = la_minor s m" using D(6) by auto
      qed (simp add: D(4))
      then show ?thesis using okb by simp
    qed
  next
    fix b ms assume "(b, ms) \<in> set ?sh'"
    then have "\<exists>ms'. (b, ms') \<in> set ?sh" by auto
    then show "(b, unat (mj_pages (la_major s' b))) \<in> live (la_sys s')" unfolding js D(3) using la_invD(4) [OF inv] by blast
  qed
qed

text \<open>Giving a major back to the system.\<close>

lemma major_links:
  assumes inv: "la_inv live s (pre @ (a, ms) # post)"
  shows "mj_next (la_major s a) = headp (map fst post) 0" and "mj_prev (la_major s a) = lastp 0 (map fst pre)"
    and "lastp 0 (map fst pre) = 0 \<longleftrightarrow> pre = []" and "l_memRoot s = a \<longleftrightarrow> pre = []"
    and "pre \<noteq> [] \<Longrightarrow> lastp 0 (map fst pre) = fst (last pre)" and "post \<noteq> [] \<Longrightarrow> headp (map fst post) 0 = fst (hd post)"
    and "pre \<noteq> [] \<Longrightarrow> fst (last pre) \<noteq> a" and "post \<noteq> [] \<Longrightarrow> fst (hd post) \<noteq> a"
    and "pre \<noteq> [] \<Longrightarrow> post \<noteq> [] \<Longrightarrow> fst (last pre) \<noteq> fst (hd post)"
proof -
  have S: "seg (\<lambda>a. mj_next (la_major s a)) (\<lambda>a. mj_prev (la_major s a)) (l_memRoot s) 0 (map fst pre @ a # map fst post) 0"
    using la_invD(1) [OF inv] by simp
  have d: "a \<notin> fst ` set pre" "a \<notin> fst ` set post" "fst ` set pre \<inter> fst ` set post = {}" using la_invD(2) [OF inv] by auto
  show "mj_next (la_major s a) = headp (map fst post) 0" "mj_prev (la_major s a) = lastp 0 (map fst pre)"
    using S by (auto simp: seg_append dest: seg_head)
  show lp: "lastp 0 (map fst pre) = fst (last pre)" if "pre \<noteq> []" using that by (simp add: lastp_def last_map)
  have "0 \<notin> fst ` set pre" using seg_nonzero [OF S] by simp
  moreover have in_pre: "pre \<noteq> [] \<Longrightarrow> fst (last pre) \<in> fst ` set pre" by simp
  ultimately show "lastp 0 (map fst pre) = 0 \<longleftrightarrow> pre = []" using lp by (cases "pre = []") force+
  show "l_memRoot s = a \<longleftrightarrow> pre = []" using S d(1) by (cases pre) auto
  show "headp (map fst post) 0 = fst (hd post)" if "post \<noteq> []" using that by (cases post) simp_all
  have in_post: "post \<noteq> [] \<Longrightarrow> fst (hd post) \<in> fst ` set post" by simp
  show "fst (last pre) \<noteq> a" if "pre \<noteq> []" using d(1) in_pre [OF that] by metis
  show "fst (hd post) \<noteq> a" if "post \<noteq> []" using d(2) in_post [OF that] by metis
  show "fst (last pre) \<noteq> fst (hd post)" if "pre \<noteq> []" "post \<noteq> []" using d(3) in_pre [OF that(1)] in_post [OF that(2)] by (metis disjoint_iff)
qed

lemma unlink_major_state:
  assumes inv: "la_inv live s (pre @ (a, ms) # post)"
  shows "l_memRoot (unlink_major a s) = (if pre = [] then headp (map fst post) 0 else l_memRoot s)"
    and "l_bestBet (unlink_major a s) = (if l_bestBet s = a then 0 else l_bestBet s)"
    and "la_minor (unlink_major a s) = la_minor s" and "la_bytes (unlink_major a s) = la_bytes s" and "la_sys (unlink_major a s) = la_sys s"
    and "la_major (unlink_major a s) b = (la_major s b)
      \<lparr>mj_next := (if pre \<noteq> [] \<and> b = fst (last pre) then headp (map fst post) 0 else mj_next (la_major s b)),
       mj_prev := (if post \<noteq> [] \<and> b = fst (hd post) then lastp 0 (map fst pre) else mj_prev (la_major s b))\<rparr>"
proof -
  note L = major_links [OF inv]
  note S = unlink_major_def Let_def L(1,2,4) L(3) headp_zero [OF inv] upd_major_def
  show "l_memRoot (unlink_major a s) = (if pre = [] then headp (map fst post) 0 else l_memRoot s)"
    "l_bestBet (unlink_major a s) = (if l_bestBet s = a then 0 else l_bestBet s)"
    "la_minor (unlink_major a s) = la_minor s" "la_bytes (unlink_major a s) = la_bytes s" "la_sys (unlink_major a s) = la_sys s"
    unfolding S by simp_all
  show "la_major (unlink_major a s) b = (la_major s b)
      \<lparr>mj_next := (if pre \<noteq> [] \<and> b = fst (last pre) then headp (map fst post) 0 else mj_next (la_major s b)),
       mj_prev := (if post \<noteq> [] \<and> b = fst (hd post) then lastp 0 (map fst pre) else mj_prev (la_major s b))\<rparr>"
    unfolding S using L(5-9) by (cases "la_major s b"; cases "pre = []"; cases "post = []") auto
qed

lemma drop_major_inv:
  assumes inv: "la_inv live s (pre @ (a, ms) # post)"
    and k: "live k = live (la_sys s) - {(a, unat (mj_pages (la_major s a)))}"
  shows "la_inv live ((unlink_major a s)\<lparr>la_sys := k\<rparr>) (pre @ post)"
proof -
  let ?sh = "pre @ (a, ms) # post" and ?sh' = "pre @ post" and ?s = "(unlink_major a s)\<lparr>la_sys := k\<rparr>"
  note U = unlink_major_state [OF inv] and L = major_links [OF inv]
  have d: "distinct (map fst pre @ a # map fst post)" using la_invD(2) [OF inv] by simp
  have lh: "pre \<noteq> [] \<Longrightarrow> last (map fst pre) = fst (last pre)" "post \<noteq> [] \<Longrightarrow> hd (map fst post) = fst (hd post)"
    by (simp_all add: last_map hd_map)
  have S: "seg (\<lambda>a. mj_next (la_major s a)) (\<lambda>a. mj_prev (la_major s a)) (l_memRoot s) 0 (map fst pre @ a # map fst post) 0"
    using la_invD(1) [OF inv] by simp
  have js: "jsize ?s b = jsize s b" "mj_pages (la_major ?s b) = mj_pages (la_major s b)" for b using U(6) by simp_all
  have in_sh: "b \<in> fst ` set ?sh \<and> b \<noteq> a" if "b \<in> fst ` set ?sh'" for b using that d by auto
  show ?thesis
  proof (rule la_invI)
    have "seg (\<lambda>a. mj_next (la_major ?s a)) (\<lambda>a. mj_prev (la_major ?s a)) (if map fst pre = [] then headp (map fst post) 0 else l_memRoot s)
        0 (map fst pre @ map fst post) 0"
      by (rule seg_remove [OF S d]) (use lh L(9) in \<open>auto simp: U(6)\<close>)
    then show "jseg ?s (map fst ?sh')" using U(1) by simp
    show "distinct (map fst ?sh')" using d by simp
    show "l_bestBet ?s = 0 \<or> l_bestBet ?s \<in> fst ` set ?sh'" using U(2) la_invD(6) [OF inv] by auto
    show "apart ?s b c" if "b \<in> fst ` set ?sh'" "c \<in> fst ` set ?sh'" "b \<noteq> c" for b c
      using la_invD(5) [OF inv, of b c] in_sh [OF that(1)] in_sh [OF that(2)] that(3) unfolding apart_def js by blast
  next
    fix b ns assume b: "(b, ns) \<in> set ?sh'"
    then have b': "(b, ns) \<in> set ?sh" "b \<noteq> a" using in_sh [of b] by force+
    have "major_ok ?s b ns = major_ok s b ns"
      by (rule major_ok_links) (use U(3,4,6) in simp_all)
    then show "major_ok ?s b ns" using la_invD(3) [OF inv b'(1)] by simp
    show "(b, unat (mj_pages (la_major ?s b))) \<in> live (la_sys ?s)"
      unfolding js using la_invD(4) [OF inv b'(1)] b'(2) k by simp
  qed
qed

text \<open>Freeing the minor \<open>n\<close>: a major without other minors leaves the list and its pages go back to the system.\<close>

definition freed_shape :: "la_shape \<Rightarrow> u64 \<Rightarrow> u64 list \<Rightarrow> la_shape \<Rightarrow> la_shape" where
  "freed_shape pre a ms post = (if ms = [] then pre @ post else pre @ (a, ms) # post)"

definition freed_pages :: "'k liballoc \<Rightarrow> u64 \<Rightarrow> u64 list \<Rightarrow> (u64 \<times> nat) set" where
  "freed_pages s a ms = (if ms = [] then {(a, unat (mj_pages (la_major s a)))} else {})"

lemma minors_freed_shape [simp]: "minors (freed_shape pre a ms post) = minors pre \<union> set ms \<union> minors post"
  by (auto simp: freed_shape_def)

lemma free_minor_correct:
  assumes law: "pages_law e live" and inv: "la_inv live s (pre @ (a, xs @ n # ys) # post)"
  shows "\<exists>s'. free_minor e n s = Some s' \<and> la_inv live s' (freed_shape pre a (xs @ ys) post) \<and>
    live (la_sys s') = live (la_sys s) - freed_pages s a (xs @ ys) \<and>
    la_minor s' = la_minor (unlink_minor n s) \<and> la_bytes s' = la_bytes s"
proof -
  let ?s1 = "unlink_minor n s"
  have ok: "major_ok s a (xs @ n # ys)" using la_invD(3) [OF inv] by simp
  have r: "removed s ?s1 a xs n ys" by (rule unlink_minor_removed [OF ok])
  have inv1: "la_inv live ?s1 (pre @ (a, xs @ ys) # post)" by (rule remove_inv [OF inv r])
  have ok1: "major_ok ?s1 a (xs @ ys)" using la_invD(3) [OF inv1] by simp
  note blk = minor_links(3) [OF ok] and bytes = removedD(4) [OF r]
  have first: "mj_first (la_major ?s1 a) = 0 \<longleftrightarrow> xs @ ys = []"
    using seg_head [OF major_okD(4) [OF ok1]] seg_nonzero [OF major_okD(4) [OF ok1]] by (cases "xs @ ys") auto
  show ?thesis
  proof (cases "xs @ ys = []")
    case True
    let ?p = "mj_pages (la_major ?s1 a)"
    have pg: "mj_pages (la_major (unlink_major a ?s1) a) = ?p" using unlink_major_state(6) [OF inv1, of a] by simp
    have "(a, unat ?p) \<in> live (la_sys ?s1)" by (rule la_invD(4) [OF inv1, of a "xs @ ys"]) simp
    moreover have "unat ?p < 2 ^ 20" using major_okD(3) [OF ok1] jsize_less [of ?s1 a] by simp
    ultimately obtain k where k: "le_free e a (of_nat (unat ?p)) (la_sys ?s1) = Some k" "live k = live (la_sys ?s1) - {(a, unat ?p)}"
      by (rule pages_free [OF law])
    have "free_minor e n s = Some ((unlink_major a ?s1)\<lparr>la_sys := k\<rparr>)"
      using True first k(1) pg unlink_major_state(5) [OF inv1] by (simp add: free_minor_def blk Let_def)
    moreover have "la_inv live ((unlink_major a ?s1)\<lparr>la_sys := k\<rparr>) (pre @ post)" by (rule drop_major_inv [OF inv1 k(2)])
    moreover have "live k = live (la_sys s) - freed_pages s a (xs @ ys)"
      using k(2) True removedD(3,5) [OF r] by (simp add: freed_pages_def)
    ultimately show ?thesis
      using unlink_major_state(3,4) [OF inv1] bytes True by (intro exI [of _ "(unlink_major a ?s1)\<lparr>la_sys := k\<rparr>"]) (simp add: freed_shape_def)
  next
    case False
    define s' where "s' = (if l_bestBet ?s1 \<noteq> 0 \<and> room_of (la_major ?s1 a) > room_of (la_major ?s1 (l_bestBet ?s1)) then ?s1\<lparr>l_bestBet := a\<rparr> else ?s1)"
    have "mj_first (la_major ?s1 a) \<noteq> 0" using False first by blast
    then have "free_minor e n s = Some s'"
      using major_okD(1) [OF ok1] by (simp add: free_minor_def blk s'_def Let_def)
    moreover have "la_inv live s' (pre @ (a, xs @ ys) # post)" using inv1 best_inv [OF inv1, of a] by (simp add: s'_def)
    moreover have "la_sys s' = la_sys s" using removedD(3) [OF r] by (simp add: s'_def)
    ultimately show ?thesis
      using bytes False by (intro exI [of _ s']) (auto simp: s'_def freed_shape_def freed_pages_def)
  qed
qed

lemma ptr_of_inj:
  assumes inv: "la_inv live s sh" and m: "m \<in> minors sh" and n: "n \<in> minors sh" and eq: "ptr_of m = ptr_of n"
  shows "m = n"
proof (rule ccontr)
  assume ne: "m \<noteq> n"
  obtain a ms where a: "m \<in> set ms" "major_ok s a ms" by (rule minor_major [OF inv m])
  obtain b ns where b: "n \<in> set ns" "major_ok s b ns" by (rule minor_major [OF inv n])
  show False using minors_apart [OF inv m n ne] user_region(1,2) [OF a(2,1)] user_region(1,2) [OF b(2,1)] eq by auto
qed

text \<open>The pointer of a minor leads back to it.\<close>

lemma pointer_minor:
  assumes inv: "la_inv live s sh" and m: "m \<in> minors sh"
  shows "UNALIGN (ptr_of m) s - sizeof_minor = m" and "mn_magic (la_minor s m) = LIBALLOC_MAGIC" and "ptr_of m \<noteq> 0"
proof -
  obtain a ms where a: "m \<in> set ms" "major_ok s a ms" by (rule minor_major [OF inv m])
  have "unat m + 72 < W64" using minor_bounds(3,4) [OF a(2,1)] by simp
  then show "UNALIGN (ptr_of m) s - sizeof_minor = m" "mn_magic (la_minor s m) = LIBALLOC_MAGIC"
    using UNALIGN_ptr [of m s] major_okD(7) [OF a(2,1)] by (simp_all add: minor_ok_def sizeof_minor_def)
  show "ptr_of m \<noteq> 0" using user_region(1) [OF a(2,1)] by auto
qed

lemma free_releases:
  assumes law: "pages_law e live" and inv: "la_inv live s sh" and p: "(p, k) \<in> allocs s sh"
  shows "\<exists>s' sh' pre a xs n ys post. free e p s = Some s' \<and> la_inv live s' sh' \<and> allocs s' sh' = allocs s sh - {(p, k)} \<and>
    la_bytes s' = la_bytes s \<and> sh = pre @ (a, xs @ n # ys) # post \<and> p = ptr_of n \<and> sh' = freed_shape pre a (xs @ ys) post \<and>
    live (la_sys s') = live (la_sys s) - freed_pages s a (xs @ ys)"
proof -
  obtain n where n: "n \<in> minors sh" "p = ptr_of n" "k = unat (mn_req_size (la_minor s n))" using p by (auto simp: allocs_def)
  note P = pointer_minor [OF inv n(1)]
  obtain a ms where a: "(a, ms) \<in> set sh" "n \<in> set ms" "major_ok s a ms" by (rule minor_major [OF inv n(1)])
  obtain pre post where sh: "sh = pre @ (a, ms) # post" using a(1) by (meson split_list)
  obtain xs ys where ms: "ms = xs @ n # ys" using a(2) by (meson split_list)
  have inv': "la_inv live s (pre @ (a, xs @ n # ys) # post)" using inv by (simp add: sh ms)
  let ?sh = "freed_shape pre a (xs @ ys) post"
  obtain s' where f: "free_minor e n s = Some s'" "la_inv live s' ?sh" "live (la_sys s') = live (la_sys s) - freed_pages s a (xs @ ys)"
      "la_minor s' = la_minor (unlink_minor n s)" "la_bytes s' = la_bytes s"
    using free_minor_correct [OF law inv'] by blast
  have "free e p s = Some s'" using f(1) P n(2) by (simp add: free_def Let_def)
  moreover have "allocs s' ?sh = allocs s sh - {(p, k)}"
  proof -
    have out: "n \<notin> minors pre \<union> set (xs @ ys) \<union> minors post"
    proof
      assume "n \<in> minors pre \<union> set (xs @ ys) \<union> minors post"
      moreover have "n \<notin> set (xs @ ys)" using minor_links(6) [OF a(3) [unfolded ms]] .
      ultimately obtain b ns where b: "(b, ns) \<in> set pre \<union> set post" "n \<in> set ns" by (auto simp: minors_iff)
      have ba: "b \<noteq> a" using b(1) la_invD(2) [OF inv] by (force simp: sh)
      have bin: "(b, ns) \<in> set sh" using b(1) by (auto simp: sh)
      have "a \<in> fst ` set sh" "b \<in> fst ` set sh" using a(1) bin by force+
      from la_invD(5) [OF inv this] ba show False
        using minor_bounds [OF a(3,2)] minor_bounds [OF la_invD(3) [OF inv bin] b(2)] by (auto simp: apart_def)
    qed
    have ms': "minors ?sh = minors sh - {n}" using out by (auto simp: sh ms)
    have "mn_req_size (la_minor s' m) = mn_req_size (la_minor s m)" if "m \<noteq> n" for m
      using removedD(6) [OF unlink_minor_removed [OF a(3) [unfolded ms]] that] f(4) by simp
    moreover have "ptr_of m \<noteq> p" if "m \<in> minors sh - {n}" for m using ptr_of_inj [OF inv _ n(1), of m] that n(2) by auto
    ultimately show ?thesis unfolding allocs_def ms' using n by (auto simp: image_iff)
  qed
  ultimately show ?thesis using f(2,3,5) n(2) sh ms
    by (intro exI [of _ s'] exI [of _ ?sh] exI [of _ pre] exI [of _ a] exI [of _ xs] exI [of _ n] exI [of _ ys] exI [of _ post]) simp
qed

lemma free_allocs:
  assumes "pages_law e live" and "la_inv live s sh" and "(p, k) \<in> allocs s sh"
  shows "\<exists>s' sh'. free e p s = Some s' \<and> la_inv live s' sh' \<and> allocs s' sh' = allocs s sh - {(p, k)} \<and> la_bytes s' = la_bytes s"
  using free_releases [OF assms] by blast

subsection \<open>A page supply and a heap that satisfy the hypotheses\<close>

definition pages_end :: "(u64 \<times> nat) list \<Rightarrow> nat" where
  "pages_end ps = fold (\<lambda>(a, n) x. max x (unat a + 4096 * n)) ps 4096"

definition bump_pages :: "(u64 \<times> nat) list la_env" where
  "bump_pages = \<lparr>
     le_alloc = (\<lambda>n ps. let a = pages_end ps in
       if a + 4096 * unat n < W64 then Some (of_nat a, (of_nat a, unat n) # ps) else Some (0, ps)),
     le_free = (\<lambda>a n ps. Some (removeAll (a, unat n) ps))\<rparr>"

lemma fold_max_ge: "x \<le> fold (\<lambda>(a, n) x. max x (unat (a :: u64) + 4096 * n)) ps x \<and>
   (\<forall>(a, n) \<in> set ps. unat a + 4096 * n \<le> fold (\<lambda>(a, n) x. max x (unat a + 4096 * n)) ps x)"
proof (induction ps arbitrary: x)
  case (Cons p ps)
  obtain a n where p: "p = (a, n)" by (cases p)
  show ?case using Cons.IH [of "max x (unat a + 4096 * n)"] by (force simp: p)
qed simp

lemma bump_pages_law: "pages_law bump_pages set"
proof -
  have u: "unat (of_nat n :: u64) = n" if "n < W64" for n using that by (simp add: unsigned_of_nat take_bit_nat_eq_self)
  have "\<exists>a k'. le_alloc bump_pages (of_nat n) ps = Some (a, k') \<and>
        (a = 0 \<and> set k' = set ps \<or>
         a \<noteq> 0 \<and> unat a + 4096 * n < W64 \<and> set k' = insert (a, n) (set ps) \<and>
         (\<forall>(b, m) \<in> set ps. unat a + 4096 * n \<le> unat b \<or> unat b + 4096 * m \<le> unat a))"
    if n: "n < 2 ^ 20" for n ps
  proof (cases "pages_end ps + 4096 * n < W64")
    case True
    have un: "unat (of_nat n :: u64) = n" using n by (intro u) simp
    have ua: "unat (of_nat (pages_end ps) :: u64) = pages_end ps" using True by (intro u) simp
    have ge: "4096 \<le> pages_end ps" "\<forall>(b, m) \<in> set ps. unat b + 4096 * m \<le> pages_end ps"
      using fold_max_ge [of 4096 ps] by (simp_all add: pages_end_def)
    have "(of_nat (pages_end ps) :: u64) \<noteq> 0" using ua ge(1) by (metis unat_0 not_numeral_le_zero)
    then show ?thesis using True un ua ge(2)
      by (intro exI [of _ "of_nat (pages_end ps)"] exI [of _ "(of_nat (pages_end ps), n) # ps"]) (auto simp: bump_pages_def Let_def)
  next
    case False
    have "unat (of_nat n :: u64) = n" using n by (intro u) simp
    then show ?thesis using False by (simp add: bump_pages_def Let_def)
  qed
  moreover have "\<exists>k'. le_free bump_pages a (of_nat n) ps = Some k' \<and> set k' = set ps - {(a, n)}" if n: "n < 2 ^ 20" for a n ps
  proof -
    have "unat (of_nat n :: u64) = n" using n by (intro u) simp
    then show ?thesis by (auto simp: bump_pages_def)
  qed
  ultimately show ?thesis unfolding pages_law_def by blast
qed

definition empty_heap :: "(u64 \<times> nat) list liballoc" where
  "empty_heap = \<lparr>l_memRoot = 0, l_bestBet = 0, l_allocated = 0, l_inuse = 0, l_warningCount = 0, l_errorCount = 0,
     l_possibleOverruns = 0, la_major = (\<lambda>_. fresh_major 0 0), la_minor = (\<lambda>_. new_minor 0 0 0 0 0), la_bytes = (\<lambda>_. 0), la_sys = []\<rparr>"

lemma empty_heap_inv: "la_inv set empty_heap []" "allocs empty_heap [] = {}"
  by (simp_all add: la_inv_def empty_heap_def allocs_def)

theorem malloc_correct_witness:
  "pages_law bump_pages set \<and> la_inv set empty_heap [] \<and> unat (100 :: u64) < 2 ^ 31 - 32 \<and>
   (\<exists>p s' sh'. malloc bump_pages 100 empty_heap = Some (p, s') \<and> la_inv set s' sh' \<and>
     alloc_ok set empty_heap [] p 100 s' sh')"
proof -
  have r: "unat (100 :: u64) < 2 ^ 31 - 32" by simp
  have "\<not> (\<exists>k. le_alloc bump_pages (ucast (major_pages (ucast (100 + 32 :: u64)))) (la_sys empty_heap) = Some (0, k))"
    by (simp add: bump_pages_def empty_heap_def pages_end_def major_pages_def sizeof_major_def sizeof_minor_def l_pageSize_def l_pageCount_def Let_def)
  then show ?thesis
    using malloc_correct [OF bump_pages_law empty_heap_inv(1) r] bump_pages_law empty_heap_inv(1) r by blast
qed

text \<open>
  Freeing an allocation always succeeds, whatever other allocations there are: exactly that range goes
  away and the bytes of the heap are as before. When the freed minor was the only one of its major, the
  major leaves the list and exactly its pages go back to the system; otherwise the major stays with its
  other minors and the system keeps all its pages.
\<close>

text \<open>(C39) free of an allocated pointer in a consistent heap, over a page supply that keeps
  its laws, finds its minor again and takes exactly that range out of the heap; when the minor was
  the only one of its major, the major leaves the list and exactly its pages go back to the
  system, otherwise the major stays with its other minors and no page is given back; the heap
  stays consistent and no byte changes.\<close>

theorem free_correct:
  assumes "pages_law e live" and "la_inv live s sh" and "(p, k) \<in> allocs s sh"
  shows "\<exists>s' sh' pre a xs n ys post. free e p s = Some s' \<and> la_inv live s' sh' \<and> allocs s' sh' = allocs s sh - {(p, k)} \<and>
    la_bytes s' = la_bytes s \<and> sh = pre @ (a, xs @ n # ys) # post \<and> p = ptr_of n \<and>
    (if xs @ ys = [] then sh' = pre @ post \<and> live (la_sys s') = live (la_sys s) - {(a, unat (mj_pages (la_major s a)))}
     else sh' = pre @ (a, xs @ ys) # post \<and> live (la_sys s') = live (la_sys s))"
proof -
  obtain s' sh' pre a xs n ys post where f: "free e p s = Some s'" "la_inv live s' sh'" "allocs s' sh' = allocs s sh - {(p, k)}"
      "la_bytes s' = la_bytes s" "sh = pre @ (a, xs @ n # ys) # post" "p = ptr_of n" "sh' = freed_shape pre a (xs @ ys) post"
      "live (la_sys s') = live (la_sys s) - freed_pages s a (xs @ ys)"
    by (rule free_releases [OF assms, THEN exE], elim exE conjE) (rule that)
  have "if xs @ ys = [] then sh' = pre @ post \<and> live (la_sys s') = live (la_sys s) - {(a, unat (mj_pages (la_major s a)))}
     else sh' = pre @ (a, xs @ ys) # post \<and> live (la_sys s') = live (la_sys s)"
    using f(7,8) by (simp add: freed_shape_def freed_pages_def)
  with f(1-6) show ?thesis by (intro exI conjI)
qed

text \<open>One major of 16 pages with one minor for 100 bytes.\<close>

definition small_heap :: "(u64 \<times> nat) list liballoc" where
  "small_heap = empty_heap\<lparr>l_memRoot := 4096, la_sys := [(4096, 16)],
     la_major := (\<lambda>_. \<lparr>mj_prev = 0, mj_next = 0, mj_pages = 16, mj_size = 65536, mj_usage = 212, mj_first = 4136\<rparr>),
     la_minor := (\<lambda>_. new_minor 0 0 4096 132 100), la_bytes := (\<lambda>_. 16)\<rparr>"

lemma small_heap_ptr: "ptr_of 4136 = 4192"
  by (simp add: ptr_of_def align_up_def ALIGN_INFO_def ALIGNMENT_def Let_def)

lemma small_heap_inv: "la_inv set small_heap [(4096, [4136])]" "allocs small_heap [(4096, [4136])] = {(4192, 100)}"
  by (simp_all add: la_inv_def major_ok_def minor_ok_def pad_ok_def small_heap_def empty_heap_def allocs_def new_minor_def small_heap_ptr)

theorem free_correct_witness:
  "pages_law bump_pages set \<and> la_inv set small_heap [(4096, [4136])] \<and> (4192, 100) \<in> allocs small_heap [(4096, [4136])] \<and>
   (\<exists>s'. free bump_pages 4192 small_heap = Some s' \<and> la_inv set s' [] \<and> set (la_sys s') = {})"
proof -
  have p: "(4192, 100) \<in> allocs small_heap [(4096, [4136])]" using small_heap_inv(2) by simp
  obtain s' sh' pre a xs n ys post where f: "free bump_pages 4192 small_heap = Some s'" "la_inv set s' sh'"
      "[(4096, [4136])] = pre @ (a, xs @ n # ys) # post"
      "if xs @ ys = [] then sh' = pre @ post \<and> set (la_sys s') = set (la_sys small_heap) - {(a, unat (mj_pages (la_major small_heap a)))}
       else sh' = pre @ (a, xs @ ys) # post \<and> set (la_sys s') = set (la_sys small_heap)"
    by (rule free_correct [OF bump_pages_law small_heap_inv(1) p, THEN exE], elim exE conjE) (rule that)
  have sh: "pre = []" "a = 4096" "xs = []" "ys = []" "post = []" using f(3) by (auto simp: Cons_eq_append_conv)
  have "sh' = []" "set (la_sys s') = {}" using f(4) unfolding sh by (simp_all add: small_heap_def)
  then show ?thesis using f(1,2) bump_pages_law small_heap_inv(1) p by blast
qed

end
