(* ===== verification/Liballoc_Realloc.thy ===== *)
theory Liballoc_Realloc
  imports Liballoc_Free
begin

text \<open>
  \<open>realloc\<close> and \<open>calloc\<close> of \<open>Liballoc\<close>: the copy moves a range byte for byte, a reallocated range keeps its
  contents, and a range from \<open>calloc\<close> is zero.
\<close>

subsection \<open>Copying\<close>

definition copied :: "u64 \<Rightarrow> u64 \<Rightarrow> nat \<Rightarrow> (u64 \<Rightarrow> u8) \<Rightarrow> (u64 \<Rightarrow> u8) \<Rightarrow> bool" where
  "copied dst src n m m' \<longleftrightarrow> (\<forall>i < n. m' (dst + of_nat i) = m (src + of_nat i)) \<and>
     (\<forall>x. unat x < unat dst \<or> unat dst + n \<le> unat x \<longrightarrow> m' x = m x)"

text \<open>One step of the copy, of any width, then the rest.\<close>

lemma copied_step:
  assumes first: "copied dst src w m m1" and rest: "copied (dst + of_nat w) (src + of_nat w) (n - w) m1 m'" and w: "w \<le> n"
    and d: "unat dst + n < W64" and s: "unat src + n < W64" and ap: "unat dst + n \<le> unat src \<or> unat src + n \<le> unat dst"
  shows "copied dst src n m m'"
proof -
  have uw: "unat (of_nat w :: u64) = w" using w d by (simp add: unsigned_of_nat take_bit_nat_eq_self)
  have dw: "unat (dst + of_nat w) = unat dst + w" using w d uw by (subst unat_add_nowrap) simp_all
  have "m' (dst + of_nat i) = m (src + of_nat i)" if i: "i < n" for i
  proof (cases "i < w")
    case True
    have "unat (dst + of_nat i) = unat dst + i" by (rule range_unat [OF d i])
    then have "m' (dst + of_nat i) = m1 (dst + of_nat i)" using rest True dw by (simp add: copied_def)
    then show ?thesis using first True by (simp add: copied_def)
  next
    case False
    then have j: "i - w < n - w" "of_nat w + of_nat (i - w) = (of_nat i :: u64)" using i by (simp_all flip: of_nat_add)
    have "unat (src + of_nat i) = unat src + i" by (rule range_unat [OF s i])
    then have src: "m1 (src + of_nat i) = m (src + of_nat i)" using first ap i w by (auto simp: copied_def)
    have "m' (dst + of_nat w + of_nat (i - w)) = m1 (src + of_nat w + of_nat (i - w))" using rest j(1) by (simp add: copied_def)
    then show ?thesis using src j(2) by (simp add: add.assoc)
  qed
  moreover have "m' x = m x" if "unat x < unat dst \<or> unat dst + n \<le> unat x" for x
    using that first rest w dw by (auto simp: copied_def)
  ultimately show ?thesis by (simp add: copied_def)
qed

lemma copied_4:
  assumes "unat dst + 4 < W64"
  shows "copied dst src 4 m (copy4 dst src m)"
proof -
  have u: "unat (dst + of_nat i) = unat dst + i" if "i < 4" for i by (rule range_unat [OF assms that])
  have "copy4 dst src m (dst + of_nat i) = m (src + of_nat i)" if "i < 4" for i
  proof -
    have "i \<in> {0, 1, 2, 3}" using that by auto
    then show ?thesis by (auto simp: copy4_def)
  qed
  moreover have "copy4 dst src m x = m x" if "unat x < unat dst \<or> unat dst + 4 \<le> unat x" for x
  proof -
    have "x \<noteq> dst + of_nat i" if "i < 4" for i using \<open>unat x < unat dst \<or> unat dst + 4 \<le> unat x\<close> u [OF that] that by auto
    from this [of 0] this [of 1] this [of 2] this [of 3] show ?thesis by (simp add: copy4_def)
  qed
  ultimately show ?thesis by (simp add: copied_def)
qed

lemma liballoc_memcpy_copies:
  assumes "unat dst + n < W64" and "unat src + n < W64" and "unat dst + n \<le> unat src \<or> unat src + n \<le> unat dst"
  shows "copied dst src n m (liballoc_memcpy dst src n m)"
  using assms
proof (induction dst src n m rule: liballoc_memcpy.induct)
  case (1 dst src n m)
  have shift: "unat (x + of_nat w) + (n - w) = unat x + n" "unat (x + of_nat w) = unat x + w" if "unat x + n < W64" "w \<le> n" for x :: u64 and w
  proof -
    have "unat (of_nat w :: u64) = w" using that by (simp add: unsigned_of_nat take_bit_nat_eq_self)
    then show "unat (x + of_nat w) = unat x + w" using that by (subst unat_add_nowrap) simp_all
    then show "unat (x + of_nat w) + (n - w) = unat x + n" using that by simp
  qed
  consider "4 \<le> n" | "n < 4" "0 < n" | "n = 0" by linarith
  then show ?case
  proof cases
    case 1
    have "copied (dst + of_nat 4) (src + of_nat 4) (n - 4) (copy4 dst src m) (liballoc_memcpy (dst + 4) (src + 4) (n - 4) (copy4 dst src m))"
      using "1.IH"(1) [OF 1] "1.prems" shift [of dst 4] shift [of src 4] 1 by fastforce
    moreover have "liballoc_memcpy dst src n m = liballoc_memcpy (dst + 4) (src + 4) (n - 4) (copy4 dst src m)"
      using 1 by (subst liballoc_memcpy.simps) simp
    moreover have "copied dst src 4 m (copy4 dst src m)" using "1.prems"(1) 1 by (intro copied_4) simp
    ultimately show ?thesis using copied_step [OF _ _ 1 "1.prems"] by simp
  next
    case 2
    have "copied (dst + of_nat 1) (src + of_nat 1) (n - 1) (m(dst := m src)) (liballoc_memcpy (dst + 1) (src + 1) (n - 1) (m(dst := m src)))"
      using "1.IH"(2) "1.prems" shift [of dst 1] shift [of src 1] 2 by fastforce
    moreover have "liballoc_memcpy dst src n m = liballoc_memcpy (dst + 1) (src + 1) (n - 1) (m(dst := m src))"
      using 2 by (subst liballoc_memcpy.simps) simp
    moreover have "copied dst src 1 m (m(dst := m src))" by (auto simp: copied_def)
    ultimately show ?thesis using copied_step [OF _ _ _ "1.prems", of 1] 2 by simp
  next
    case 3
    then show ?thesis by (subst liballoc_memcpy.simps) (simp add: copied_def)
  qed
qed

subsection \<open>realloc\<close>

text \<open>Writing into an allocation keeps the invariant: no byte in front of a pointer is touched.\<close>

lemma write_inv:
  assumes inv: "la_inv live s sh" and p: "(p, k) \<in> allocs s sh"
    and m: "\<And>x. unat x < unat p \<or> unat p + k \<le> unat x \<Longrightarrow> m x = la_bytes s x"
  shows "la_inv live (s\<lparr>la_bytes := m\<rparr>) sh" and "allocs (s\<lparr>la_bytes := m\<rparr>) sh = allocs s sh"
proof -
  have "major_ok (s\<lparr>la_bytes := m\<rparr>) a ms = major_ok s a ms" if a: "(a, ms) \<in> set sh" for a ms
  proof (rule major_ok_cong)
    fix n assume "n \<in> set ms"
    then have "n \<in> minors sh" using a by (auto simp: minors_iff)
    from structures_apart(2) [OF inv p this] show "la_bytes (s\<lparr>la_bytes := m\<rparr>) (ptr_of n - 16) = la_bytes s (ptr_of n - 16)"
      using m [of "ptr_of n - 16"] by auto
  qed simp_all
  then show "la_inv live (s\<lparr>la_bytes := m\<rparr>) sh" using inv by (simp add: la_inv_def apart_def)
  show "allocs (s\<lparr>la_bytes := m\<rparr>) sh = allocs s sh" by (simp add: allocs_def)
qed

lemma allocs_limit:
  assumes "la_inv live s sh" and "(p, k) \<in> allocs s sh"
  shows "unat p + k < W64"
proof -
  obtain n where n: "n \<in> minors sh" "p = ptr_of n" "k = unat (mn_req_size (la_minor s n))" using assms(2) by (auto simp: allocs_def)
  obtain a ms where a: "n \<in> set ms" "major_ok s a ms" by (rule minor_major [OF assms(1) n(1)])
  show ?thesis using user_region(2) [OF a(2,1)] minor_bounds(3) [OF a(2,1)] n by simp
qed

text \<open>A range that shrinks keeps its place.\<close>

lemma shrink_inv:
  assumes inv: "la_inv live s sh" and n: "n \<in> minors sh" and sz: "unat (sz :: u64) \<le> unat (mn_req_size (la_minor s n))"
  defines "s' \<equiv> upd_minor n (\<lambda>x. x\<lparr>mn_req_size := ucast sz\<rparr>) s"
  shows "la_inv live s' sh" and "allocs s' sh = insert (ptr_of n, unat sz) (allocs s sh - {(ptr_of n, unat (mn_req_size (la_minor s n)))})"
proof -
  have "unat (mn_req_size (la_minor s n)) < 2 ^ 32" by (rule order_less_le_trans [OF unsigned_less]) simp
  then have u: "unat (ucast sz :: u32) = unat sz" using sz by (intro ucast_32) linarith
  have same: "mn_next (la_minor s' m) = mn_next (la_minor s m)" "mn_prev (la_minor s' m) = mn_prev (la_minor s m)"
    "mn_size (la_minor s' m) = mn_size (la_minor s m)" "mn_block (la_minor s' m) = mn_block (la_minor s m)"
    "mn_magic (la_minor s' m) = mn_magic (la_minor s m)" for m by (simp_all add: s'_def upd_minor_def)
  have rest: "la_major s' = la_major s" "la_bytes s' = la_bytes s" "la_sys s' = la_sys s" "l_memRoot s' = l_memRoot s" "l_bestBet s' = l_bestBet s"
    by (simp_all add: s'_def upd_minor_def)
  have rq: "unat (mn_req_size (la_minor s' m)) = (if m = n then unat sz else unat (mn_req_size (la_minor s m)))" for m
    using u by (simp add: s'_def upd_minor_def)
  have "major_ok s' a ms" if "major_ok s a ms" for a ms
  proof -
    have "minor_ok s' a m" if "minor_ok s a m" for m
      using that sz rq [of m] by (auto simp: minor_ok_def pad_ok_def same rest split: if_splits)
    then show ?thesis using \<open>major_ok s a ms\<close> by (auto simp: major_ok_def same rest)
  qed
  then show "la_inv live s' sh" using inv by (auto simp: la_inv_def apart_def rest)
  let ?f = "\<lambda>m. (ptr_of m, unat (mn_req_size (la_minor s m)))" and ?M = "minors sh - {n}"
  have "allocs s' sh = (\<lambda>m. (ptr_of m, unat (mn_req_size (la_minor s' m)))) ` insert n ?M" using n by (simp add: allocs_def insert_absorb)
  also have "\<dots> = insert (ptr_of n, unat sz) ((\<lambda>m. (ptr_of m, unat (mn_req_size (la_minor s' m)))) ` ?M)"
    using rq [of n] by (simp only: image_insert simp_thms if_True)
  also have "(\<lambda>m. (ptr_of m, unat (mn_req_size (la_minor s' m)))) ` ?M = ?f ` ?M" by (rule image_cong) (simp_all add: rq)
  also have "?f ` ?M = ?f ` minors sh - {?f n}" using ptr_of_inj [OF inv _ n] by fastforce
  finally show "allocs s' sh = insert (ptr_of n, unat sz) (allocs s sh - {(ptr_of n, unat (mn_req_size (la_minor s n)))})"
    by (simp add: allocs_def)
qed

text \<open>
  Reallocating a range while the system has pages: the range is replaced by one of the new size, at the
  old place when it shrinks, the bytes up to the smaller size are kept, and the invariant holds.
\<close>

text \<open>A range that grows moves.\<close>

lemma realloc_moves:
  assumes law: "pages_law e live" and inv: "la_inv live s sh" and p: "(p, k) \<in> allocs s sh" and sz: "sz \<noteq> 0" "unat sz < 2 ^ 31 - 32"
    and pages: "\<And>k. le_alloc e (ucast (major_pages (ucast (sz + 32)))) (la_sys s) \<noteq> Some (0, k)" and grow: "\<not> unat sz \<le> k"
  shows "\<exists>q s' sh'. realloc e p sz s = Some (q, s') \<and> la_inv live s' sh' \<and>
    allocs s' sh' = insert (q, unat sz) (allocs s sh - {(p, k)}) \<and>
    (\<forall>i < k. la_bytes s' (q + of_nat i) = la_bytes s (p + of_nat i))"
proof -
  obtain n where n: "n \<in> minors sh" "p = ptr_of n" "k = unat (mn_req_size (la_minor s n))" using p by (auto simp: allocs_def)
  note P = pointer_minor [OF inv n(1), folded n(2)]
  note F = fair_malloc [OF sz(2)]
  obtain q s1 where m: "malloc_at e (sz + 32) sz s = Some (q, s1)" and o: "outcome e live (sz + 32) sz s sh q s1"
    using malloc_at_outcome [OF law F(1) inv] by blast
  have mal: "malloc e sz s = Some (q, s1)" using m F(2) by (simp add: malloc_def ALIGNMENT_def ALIGN_INFO_def)
  have pl: "placed live (sz + 32) sz s sh q s1" using o pages by (auto simp: outcome_def)
  obtain sh1 where inv1: "la_inv live s1 sh1" and ok: "alloc_ok live s sh q sz s1 sh1" using placed_alloc [OF pl F(1)] by blast
  have al: "allocs s1 sh1 = insert (q, unat sz) (allocs s sh)"
    and ap: "unat q + unat sz \<le> unat p \<or> unat p + k \<le> unat q"
    and keep: "\<And>i. i < k \<Longrightarrow> la_bytes s1 (p + of_nat i) = la_bytes s (p + of_nat i)"
    using ok p unfolding alloc_ok_def by blast+
  have qin: "(q, unat sz) \<in> allocs s1 sh1" and pin: "(p, k) \<in> allocs s1 sh1" using al p by simp_all
  note lq = allocs_limit [OF inv1 qin] and lp = allocs_limit [OF inv1 pin]
  let ?m = "liballoc_memcpy q p k (la_bytes s1)" and ?s2 = "s1\<lparr>la_bytes := liballoc_memcpy q p k (la_bytes s1)\<rparr>"
  have c: "copied q p k (la_bytes s1) ?m"
    by (rule liballoc_memcpy_copies) (use lq lp ap grow in auto)
  have out: "?m x = la_bytes s1 x" if "unat x < unat q \<or> unat q + unat sz \<le> unat x" for x
    using c that grow by (auto simp: copied_def)
  note W = write_inv [OF inv1 qin out]
  obtain s3 sh3 where f: "free e p ?s2 = Some s3" "la_inv live s3 sh3" "allocs s3 sh3 = allocs ?s2 sh1 - {(p, k)}" "la_bytes s3 = ?m"
    using free_allocs [OF law W(1), of p k] pin W(2) by auto
  have "realloc e p sz s = Some (q, s3)"
    using P sz(1) n(3) grow mal f(1) by (simp add: realloc_def word_le_nat_alt)
  moreover have "q \<noteq> p"
  proof
    assume "q = p"
    then have "(q, unat sz) \<in> allocs s1 sh1" "(q, k) \<in> allocs s1 sh1" using qin pin by simp_all
    then show False using grow ptr_of_inj [OF inv1] by (auto simp: allocs_def) (metis order_refl)
  qed
  moreover have "allocs s3 sh3 = insert (q, unat sz) (allocs s sh - {(p, k)})" using f(3) W(2) al calculation(2) by auto
  moreover have "la_bytes s3 (q + of_nat i) = la_bytes s (p + of_nat i)" if "i < k" for i
    using that c keep [of i] f(4) by (simp add: copied_def)
  ultimately show ?thesis using f(2) by blast
qed



subsection \<open>calloc\<close>

lemma memset_fills:
  assumes "unat n < 2 ^ 32" and "i \<le> unat n"
  shows "\<exists>m'. liballoc_memset p c (of_nat i) n m = Some m' \<and>
    (\<forall>x. m' x = (if \<exists>j. i \<le> j \<and> j < unat n \<and> x = p + of_nat j then c else m x))"
  using assms(2)
proof (induction "unat n - i" arbitrary: i m)
  case 0
  then have "i = unat n" by simp
  moreover have "unat (of_nat i :: u32) = i" using assms(1) 0 by (simp add: unsigned_of_nat take_bit_nat_eq_self)
  ultimately show ?case by (subst liballoc_memset.simps) (auto simp: word_less_nat_alt)
next
  case (Suc d)
  then have i: "i < unat n" by simp
  have u: "unat (of_nat i :: u32) = i" using assms(1) i by (simp add: unsigned_of_nat take_bit_nat_eq_self)
  have step: "liballoc_memset p c (of_nat i) n m = liballoc_memset p c (of_nat (Suc i)) n (m(p + of_nat i := c))"
  proof -
    have c: "(ucast (of_nat i :: u32) :: u64) = of_nat i" using u by (metis of_nat_unat)
    have "ucast (of_nat i :: u32) < n" using u i by (simp add: word_less_nat_alt)
    then show ?thesis by (subst liballoc_memset.simps) (simp add: c add.commute)
  qed
  have "d = unat n - Suc i" "Suc i \<le> unat n" using Suc.hyps(2) i by simp_all
  from Suc.hyps(1) [OF this, of "m(p + of_nat i := c)"] obtain m' where
    m': "liballoc_memset p c (of_nat (Suc i)) n (m(p + of_nat i := c)) = Some m'"
      "\<forall>x. m' x = (if \<exists>j. Suc i \<le> j \<and> j < unat n \<and> x = p + of_nat j then c else (m(p + of_nat i := c)) x)" by blast
  have "m' x = (if \<exists>j. i \<le> j \<and> j < unat n \<and> x = p + of_nat j then c else m x)" for x
  proof (cases "x = p + of_nat i")
    case True
    then show ?thesis using m'(2) i by auto
  next
    case False
    then have "(\<exists>j. i \<le> j \<and> j < unat n \<and> x = p + of_nat j) = (\<exists>j. Suc i \<le> j \<and> j < unat n \<and> x = p + of_nat j)"
      by (metis Suc_leD le_neq_implies_less Suc_leI)
    moreover have "m' x = (if \<exists>j. Suc i \<le> j \<and> j < unat n \<and> x = p + of_nat j then c else m x)"
      using m'(2) [rule_format, of x] unfolding fun_upd_other [OF False] .
    ultimately show ?thesis by (simp only:)
  qed
  then show ?case unfolding step using m'(1) by blast
qed

lemma int_size:
  assumes "unat (x :: u64) < 2 ^ 31"
  shows "scast (ucast x :: u32) = x"
proof -
  have "int (unat x) < int (2 ^ 31)" using assms by (rule of_nat_less_iff [THEN iffD2])
  then have x: "uint x < 2 ^ 31" by simp
  then have "uint (ucast x :: u32) = uint x" by (simp add: unsigned_ucast_eq take_bit_int_eq_self)
  moreover have "signed_take_bit 31 (uint x) = uint x" by (rule signed_take_bit_int_eq_self) (use x uint_ge_0 [of x] in linarith)+
  ultimately have "sint (ucast x :: u32) = uint x" by (simp add: sint_uint)
  then show ?thesis by (metis of_int_sint word_of_int_uint)
qed

text \<open>A size that fits an \<^verbatim>\<open>int\<close> is not changed by \<open>calloc\<close>; the new range is zero and nothing else is written.\<close>

lemma calloc_zero:
  assumes law: "pages_law e live" and inv: "la_inv live s sh" and sz: "unat nobj * unat sz < 2 ^ 31 - 32"
    and pages: "\<And>k. le_alloc e (ucast (major_pages (ucast (nobj * sz + 32)))) (la_sys s) \<noteq> Some (0, k)"
  shows "\<exists>p s' sh'. calloc e nobj sz s = Some (p, s') \<and> la_inv live s' sh' \<and>
    allocs s' sh' = insert (p, unat nobj * unat sz) (allocs s sh) \<and> (\<forall>i < unat nobj * unat sz. la_bytes s' (p + of_nat i) = 0) \<and>
    (\<forall>(q, k) \<in> allocs s sh. \<forall>i < k. la_bytes s' (q + of_nat i) = la_bytes s (q + of_nat i))"
proof -
  let ?n = "nobj * sz"
  have n: "unat ?n = unat nobj * unat sz" using sz by (simp add: unat_word_ariths)
  have lim: "unat ?n < 2 ^ 31 - 32" using sz n by simp
  have r: "(scast (ucast ?n :: u32) :: u64) = ?n" by (rule int_size) (use lim in linarith)
  note F = fair_malloc [OF lim]
  obtain q s1 where m: "malloc_at e (?n + 32) ?n s = Some (q, s1)" and o: "outcome e live (?n + 32) ?n s sh q s1"
    using malloc_at_outcome [OF law F(1) inv] by blast
  have mal: "malloc e ?n s = Some (q, s1)" using m F(2) by (simp add: malloc_def ALIGNMENT_def ALIGN_INFO_def)
  have "placed live (?n + 32) ?n s sh q s1" using o pages by (auto simp: outcome_def)
  then obtain sh1 where inv1: "la_inv live s1 sh1" and ok: "alloc_ok live s sh q ?n s1 sh1" using placed_alloc [OF _ F(1)] by blast
  have qin: "(q, unat ?n) \<in> allocs s1 sh1" using ok by (simp add: alloc_ok_def)
  note lq = allocs_limit [OF inv1 qin]
  obtain m' where m': "liballoc_memset q 0 (of_nat 0) ?n (la_bytes s1) = Some m'"
      "\<And>x. m' x = (if \<exists>j. 0 \<le> j \<and> j < unat ?n \<and> x = q + of_nat j then 0 else la_bytes s1 x)"
    using memset_fills [of ?n 0 q 0 "la_bytes s1"] lim by auto
  have out: "m' x = la_bytes s1 x" if "unat x < unat q \<or> unat q + unat ?n \<le> unat x" for x
  proof -
    have "\<not> (\<exists>j. 0 \<le> j \<and> j < unat ?n \<and> x = q + of_nat j)" using range_unat [OF lq] that by auto
    then show ?thesis unfolding m'(2) [of x] by (rule if_not_P)
  qed
  note W = write_inv [OF inv1 qin out]
  have "calloc e nobj sz s = Some (q, s1\<lparr>la_bytes := m'\<rparr>)" using mal m'(1) r by (simp add: calloc_def)
  moreover have "m' (a + of_nat i) = la_bytes s (a + of_nat i)" if a: "(a, k) \<in> allocs s sh" and i: "i < k" for a k i
  proof -
    have "(a, k) \<in> allocs s1 sh1" using a ok by (simp add: alloc_ok_def)
    from range_unat [OF allocs_limit [OF inv1 this] i] have "unat (a + of_nat i) = unat a + i" .
    moreover have "unat q + unat ?n \<le> unat a \<or> unat a + k \<le> unat q" and eq: "la_bytes s1 (a + of_nat i) = la_bytes s (a + of_nat i)"
      using ok a i unfolding alloc_ok_def by blast+
    ultimately show ?thesis using out [of "a + of_nat i"] i by auto
  qed
  moreover have "m' (q + of_nat i) = 0" if "i < unat ?n" for i
  proof -
    have "\<exists>j. 0 \<le> j \<and> j < unat ?n \<and> q + of_nat i = q + of_nat j" using that by blast
    then show ?thesis unfolding m'(2) [of "q + of_nat i"] by (rule if_P)
  qed
  moreover have "allocs (s1\<lparr>la_bytes := m'\<rparr>) sh1 = insert (q, unat nobj * unat sz) (allocs s sh)" using W(2) ok n by (simp add: alloc_ok_def)
  ultimately show ?thesis using W(1) unfolding n
    by (intro exI [of _ q] exI [of _ "s1\<lparr>la_bytes := m'\<rparr>"] exI [of _ sh1]) auto
qed

subsection \<open>Requests of four gigabytes\<close>

text \<open>
  The size of a request has 64 bits, the size of a major and of a minor 32. A request for 4 GiB is
  granted with a minor of 32 bytes in a major of 64 KiB.
\<close>

lemma malloc_truncates:
  "(case malloc bump_pages 0x100000000 empty_heap of None \<Rightarrow> False
     | Some (p, s) \<Rightarrow> p = 69728 \<and> la_sys s = [(69632, 16), (4096, 16)] \<and> mn_size (la_minor s 69672) = 32 \<and> mn_req_size (la_minor s 69672) = 0)"
proof -
  note run = bump_pages_def pages_end_def major_pages_def sizeof_major_def sizeof_minor_def l_pageSize_def l_pageCount_def
    allocate_new_page_def ALIGNMENT_def ALIGN_INFO_def
  let ?s = "empty_heap\<lparr>la_sys := [(4096, 16)], la_major := (la_major empty_heap)(4096 := fresh_major 0 16), l_allocated := 65536, l_memRoot := 4096\<rparr>"
  have "malloc bump_pages 0x100000000 empty_heap = malloc_loop bump_pages 0x100000020 0x100000000 4096 False 0 ?s"
    by (simp add: malloc_def malloc_at_def run empty_heap_def fresh_major_def)
  also have "\<dots> = Some (place_new 69632 0x100000020 0x100000000 (upd_major 69632 (\<lambda>m. m\<lparr>mj_prev := 4096\<rparr>)
      (upd_major 4096 (\<lambda>m. m\<lparr>mj_next := 69632\<rparr>) (?s\<lparr>l_bestBet := 4096, la_sys := [(69632, 16), (4096, 16)],
         la_major := (la_major ?s)(69632 := fresh_major 0 16), l_allocated := 131072\<rparr>))))"
    by (subst malloc_loop.simps) (simp add: more_room_def case1_def extend_def place_in_def run upd_major_def empty_heap_def fresh_major_def)
  finally have run_eq: "malloc bump_pages 0x100000000 empty_heap = \<dots>" .
  show ?thesis unfolding run_eq
    by (simp add: place_new_def account_def ALIGN_def upd_major_def upd_minor_def new_minor_def run empty_heap_def)
qed

end
