(* ===== verification/Spec2Isabelle.thy ===== *)
theory Spec2Isabelle
  imports Vmem_Spec Klib Uuid Pmap_Walk VmKernel_Spec Kmem_Spec Vm_Fault Sched_Spec Callout Mutex Ramdisk Console BootMem Boot Exec_Load Shootdown Liballoc_Realloc
begin

text \<open>
  This development verifies the third kernel of SCAL/UX (\<^verbatim>\<open>src/kernel-3\<close>), a small x86-64 kernel in C with
  drivers in Objective-C. The parts of the kernel and the theories that model them:

  \<^item> \<^bold>\<open>Shared.\<close> \<open>Prelude\<close> has the machine words, assertions (\<open>kassert\<close>, with \<open>None\<close> for a stopped kernel),
    rounding to pages and alignments, and facts on words, lists and association lists.
  \<^item> \<^bold>\<open>Resource allocator\<close> (\<^verbatim>\<open>kern/vmem.c\<close>, \<^verbatim>\<open>kern/vmem.h\<close>): \<open>Vmem\<close> models arenas with their segment queue, free
    lists and hash table, and the pool of segment descriptors; \<open>Vmem_Inv\<close> is the invariant and its
    preservation; \<open>Arena_Spec\<close> states what an arena promises as a locale; \<open>Vmem_Spec\<close> interprets it and
    shows that allocations lie in free memory and never overlap, what freeing gives back, and that an
    imported span whose last allocation is freed leaves the arena and goes back to its source.
  \<^item> \<^bold>\<open>C library\<close> (\<^verbatim>\<open>libkern/klib.c\<close>): \<open>Klib\<close> models the string and memory functions over a byte memory.
    \<open>Uuid\<close> models the UUID functions of \<^verbatim>\<open>libkern/uuid\<close> and their round trips.
  \<^item> \<^bold>\<open>Physical pages and memory descriptor lists\<close> (\<^verbatim>\<open>vm/vm_page.c\<close>, \<^verbatim>\<open>vm/vm.h\<close>): \<open>VmPage\<close>.
  \<^item> \<^bold>\<open>Page tables\<close> (\<^verbatim>\<open>x86_64/vm.c\<close>): \<open>Pmap\<close> models the four levels in physical memory; \<open>Pmap_Walk\<close> shows
    that entering a mapping makes its translation and leaves the others, and that removing it undoes it.
  \<^item> \<^bold>\<open>Kernel memory\<close> (\<^verbatim>\<open>vm/vm_kernel.c\<close>): \<open>VmKernel\<close>, with the recursion between page allocation and arenas;
    \<open>VmKernel_Spec\<close> shows that an import into the wired arena is a fresh range of the kernel arena whose
    pages are all mapped to frames of their own.
  \<^item> \<^bold>\<open>Slab allocator\<close> (\<^verbatim>\<open>kern/kmem_slab.c\<close>): \<open>Kmem\<close>, its invariant in \<open>Kmem_Inv\<close>, and in \<open>Kmem_Spec\<close> that
    objects handed out are live, aligned and disjoint.
  \<^item> \<^bold>\<open>Virtual memory\<close> (\<^verbatim>\<open>vm/vm.c\<close>, \<^verbatim>\<open>vm/vm.h\<close>): \<open>Vm\<close> models maps, objects, anonymous memory and
    the fault handler; \<open>Vm_Mem\<close> and \<open>Vm_Fault\<close> show what zero-fill and copy-on-write faults do.
  \<^item> \<^bold>\<open>Threads\<close> (\<^verbatim>\<open>kern/task.c\<close>, \<^verbatim>\<open>kern/sync.h\<close>, \<^verbatim>\<open>x86_64/intr.c\<close>): \<open>Sched\<close> models run queues, wait queues,
    semaphores, callouts, interrupt dispatch and the context switch; \<open>Sched_Inv\<close> is the invariant;
    \<open>Sched_Spec\<close> has the steps of the processors, safety (no thread is in two places and none is lost),
    progress, round robin, and semaphores as an implementation of a counting locale; a wait there is two
    steps, joining the wait queue and leaving the processor, between which other processors run; \<open>Callout\<close> is the timing of callouts; \<open>Mutex\<close> interleaves the
    atomic operations of any number of threads on a mutex.
  \<^item> \<^bold>\<open>File systems\<close> (\<^verbatim>\<open>posix/vfs.c\<close>, \<^verbatim>\<open>tmpfs\<close>, \<^verbatim>\<open>dev/dev.c\<close>): \<open>Fs\<close> is the model, \<open>Fs_Spec\<close> path syntax and
    single operations, \<open>Fs_Type\<close> the type invariant of nodes and vnodes, \<open>Fs_Tree\<close> the refinement of path
    lookup to a walk over a tree of nodes, \<open>Fs_View\<close> the file system as a map from paths to contents.
  \<^item> \<^bold>\<open>Boot file system\<close> (\<^verbatim>\<open>posix/posix_main.c\<close>): \<open>Ramdisk\<close>, that unpacking an archive gives exactly its
    files, as long as names of up to two characters stand only for the root (the code skips such entries).
  \<^item> \<^bold>\<open>Start of the machine\<close> (\<^verbatim>\<open>x86_64/kmain.c\<close>, \<^verbatim>\<open>x86_64/machdep.c\<close>, \<^verbatim>\<open>x86_64/intr.c\<close>): \<open>Console\<close> has the message buffer and
    its replay by the terminal, \<open>BootMem\<close> the conversion of the boot loader's memory map into page regions,
    \<open>Boot\<close> the start of the processors, descriptor tables, interrupt gates and model specific registers.
  \<^item> \<^bold>\<open>Execution of programs\<close> (\<^verbatim>\<open>posix/exec.c\<close>): \<open>Exec\<close> shows that \<open>copyargs\<close> lays out the block of arguments,
    environment and auxiliary vector that a new program expects, \<open>Exec_Spec\<close> that string vectors are copied
    into new blocks, the array by one allocator and the strings by another, and which blocks are passed to
    \<^verbatim>\<open>kfree\<close> afterwards, \<open>Exec_Load\<close> models the ELF loader and \<open>sys_exec\<close> with all error paths.
  \<^item> \<^bold>\<open>Invalidation of translations on all processors\<close> (\<^verbatim>\<open>pmap_global_invlpg\<close> of \<^verbatim>\<open>x86_64/vm.c\<close>, \<^verbatim>\<open>md_ipi_invlpg\<close>):
    \<open>Shootdown\<close> interleaves the atomic steps of any number of processors and shows that the call returns
    only when no processor uses the old translation, that it can complete as long as the others take interrupts,
    and that two callers can wait for each other for ever.
  \<^item> \<^bold>\<open>General heap\<close> (\<^verbatim>\<open>kern/liballoc.c\<close>): \<open>Liballoc\<close> models the majors and minors, \<open>Liballoc_Inv\<close> is the
    invariant with its linked lists and layout, \<open>Liballoc_Spec\<close> the places of a minor, \<open>Liballoc_Malloc\<close> the
    loop over the majors, \<open>Liballoc_Free\<close> and \<open>Liballoc_Realloc\<close> the heap as a set of ranges: what \<open>malloc\<close>,
    \<open>free\<close>, \<open>realloc\<close> and \<open>calloc\<close> do to it.

  \<^bold>\<open>How the parts fit together.\<close> \<open>BootMem\<close> fills the page queues of \<open>VmPage\<close>. \<open>VmKernel\<close> takes address ranges from
  a \<open>Vmem\<close> arena and frames from \<open>VmPage\<close> and maps them with \<open>Pmap\<close>; the arena takes memory for its own
  descriptors from \<open>VmKernel\<close> again, and that recursion is shown to end. \<open>Kmem\<close> and \<open>Liballoc\<close> stand on pages whose
  laws are hypotheses over parameters (\<open>pages_law\<close> and its counterpart for slabs), met by concrete
  instances. \<open>Vm\<close> uses arenas, pages and page tables for user memory; \<open>Fs\<close> stores files in objects of \<open>Vm\<close>;
  \<open>Ramdisk\<close> writes through \<open>Fs\<close>; \<open>Exec_Load\<close> reads through it and builds maps of \<open>Vm\<close>. \<open>Sched\<close>, \<open>Mutex\<close> and
  \<open>Shootdown\<close> are the parts where several processors run: their theorems are about every interleaving of
  atomic steps. The other parts run under a lock or at the start and are sequential functions.

  \<^bold>\<open>Conventions.\<close>
  \<^item> A function that can stop the kernel (a failed assertion, a fatal error, a null pointer that is
    followed) or whose loop may not end is in the option type: \<open>None\<close> is that the call does not return. That an
    operation returns is always part of what is proved of it. A value of type \<open>error + 'a\<close> or a
    number is what the code returns on an error path.
  \<^item> Machine integers are words of their width; differences, sums and products wrap around as in C.
    A signed index that overflows (\<open>page_offsets\<close>, \<open>init_page\<close>, \<open>count_strv\<close>) has no defined behaviour and stops the model.
    Theorems on sizes name the bound below which nothing wraps, and where the code misses that bound
    a lemma shows what happens beyond it.
  \<^item> Loops over linked structures are recursion on the pointers by \<^theory_text>\<open>partial_function\<close> (\<open>find_gap\<close>, \<open>malloc_loop\<close>,
    \<open>unpack_loop\<close>, \<open>cross_mounts\<close>, \<open>push_strings\<close>, \<open>count_strv\<close>), so no fuel has to be chosen; the theorems show from the
    invariant that they end. The replay of the message buffer has a number of steps as its argument:
    for fewer characters than the buffer holds their number is enough, and where the code loops for ever
    no number is. Loops with a counter are
    structural recursion on the number of rounds.
  \<^item> Structures that the code links by pointers are maps from addresses (or names) to records. Where two
    kinds of structure share one memory (the heaps, page tables), the layout part of the invariant shows
    that they stay apart.
  \<^item> Code outside the sources (the boot loader, devices, \<^verbatim>\<open>kmalloc\<close> and \<^verbatim>\<open>vfs_read\<close>, which are only called) is an argument; what is
    required of it is a named definition (such as \<open>pages_law\<close>) and every theorem with such a
    hypothesis has a witness on a concrete instance.

  \<^bold>\<open>What the theorems show.\<close> Allocators: results are aligned, inside the memory they manage, apart from everything
  else that is allocated, and freeing takes away exactly that. Memory: a mapping that is entered
  translates, others stay; faults give a private zeroed or copied page. Threads: a thread is on at most
  one processor or in one queue and none is lost, runnable threads run, mutexes exclude and hand over, semaphores count.
  Files: types are kept, path lookup is a walk over a tree (for paths within the limits of the code; the others stop it), what is written is read. Start: pages found
  are exactly the usable ones, all processors come up; programs get their arguments.

  \<^bold>\<open>Faults in the code\<close> that modelling showed and a theorem proves: freeing an isolated range loses it from the
  arena's queue; a mutex can lose a wake-up; a thread can be woken before it
  has gone to sleep; concurrent invalidations block each other; the end
  position 0 of the message buffer is never seen; requests of 4 GiB are granted with a few
  bytes (\<open>malloc_truncates\<close>); an area of more than 2 GiB overflows the address of its pages
  (\<open>large_area_stops\<close>); copied strings are given to the wrong allocator.

  \<^bold>\<open>Not modelled\<close>, because they are not C of this program or only touch devices:
  \<^item> Objective-C: drivers, device tree, ACPI glue, the ext2 volume (\<^verbatim>\<open>dev/*.m\<close>, \<^verbatim>\<open>devicekit\<close>, \<^verbatim>\<open>ext2fs/*.m\<close>); the headers only they
    use (\<^verbatim>\<open>dev/nvmereg.h\<close>, \<^verbatim>\<open>ext2fs/ext2_fs.h\<close>, \<^verbatim>\<open>libkern/obj.h\<close>).
  \<^item> Code taken over from other projects: the boot loader's terminal (\<^verbatim>\<open>dev/fbterm\<close>) and \<^verbatim>\<open>libkern/nanoprintf.h\<close>; with the
    latter the text of messages and the three \<^verbatim>\<open>uuid_unparse\<close> functions, which are one formatted print.
    \<^verbatim>\<open>uuid_parse\<close> is compiled out.
  \<^item> Device input and output: the calibration of the timer against the PIT, the serial port, stack traces; \<^verbatim>\<open>kmain\<close>
    itself calls the modelled parts in order and never returns.
  \<^item> Assembly (\<^verbatim>\<open>x86_64/locore.S\<close>), the linker script, the address sanitizer's debug prints, the Amiga loader and the
    host tool \<^verbatim>\<open>bin2c\<close>.
  \<^item> The fast paths' locks: where an operation runs under a lock the lock is not part of the state; the locks
    themselves are modelled in \<open>Sched\<close>, \<open>Mutex\<close> and \<open>Shootdown\<close>.
\<close>

end
